(* ===== verification/Vm_Prelude.thy ===== *)
theory Vm_Prelude
  imports Main "HOL-Library.Word"
begin

text \<open>
  Shared ground of the development: how the C abstract machine is modelled.

  Every operation that can go wrong returns \<open>err + 'a\<close>: \<open>Inl e\<close> when the C code has no
  defined result (a null dereference, an access outside a block, a read of memory that was
  never written, signed overflow, ...) or leaves the process (\<open>Fatal_Exit\<close>, the macro FATAL
  of src/src/common/errors.h), and \<open>Inr x\<close> when it returns \<open>x\<close>.

  A block of memory returned by the allocator is a list of cells with the length of the
  block; a cell is \<open>Undef\<close> until it is written (the tail added by a re-allocation) or
  \<open>Val v\<close>.  The C type int is \<open>int\<close> with every overflow made an error; the unsigned types
  are words.  Allocation itself is taken to succeed here: the failure branches of
  src/src/common/alloc.c, which all end the process, are modelled in the theory Alloc.
\<close>

unbundle bit_operations_syntax

section \<open>Errors and sequencing\<close>

datatype err =
    Null_Deref
  | Out_Of_Bounds
  | Uninit_Read
  | Int_Overflow
  | Div_By_Zero
  | Overlap
  | Use_After_Free
  | Wild_Pointer
  | No_Return
  | Fatal_Exit

type_synonym 'a res = "err + 'a"

definition rbind :: "'a res \<Rightarrow> ('a \<Rightarrow> 'b res) \<Rightarrow> 'b res" where
  "rbind m f = (case m of Inl e \<Rightarrow> Inl e | Inr x \<Rightarrow> f x)"

lemma rbind_Inl [simp]: "rbind (Inl e) f = Inl e"
  by (simp add: rbind_def)

lemma rbind_Inr [simp]: "rbind (Inr x) f = f x"
  by (simp add: rbind_def)

lemma rbind_eq_Inr: "rbind m f = Inr y \<longleftrightarrow> (\<exists>x. m = Inr x \<and> f x = Inr y)"
  by (cases m) auto

lemma rbindE: "rbind m f = Inr y \<Longrightarrow> (\<And>x. m = Inr x \<Longrightarrow> f x = Inr y \<Longrightarrow> thesis) \<Longrightarrow> thesis"
  by (cases m) auto

lemma rbind_eq_Inl: "rbind m f = Inl e \<longleftrightarrow> m = Inl e \<or> (\<exists>x. m = Inr x \<and> f x = Inl e)"
  by (cases m) auto

lemma rbind_assoc: "rbind (rbind m f) g = rbind m (\<lambda>x. rbind (f x) g)"
  by (cases m) auto

lemma rbind_cong [fundef_cong]:
  "m = m' \<Longrightarrow> (\<And>x. m' = Inr x \<Longrightarrow> f x = g x) \<Longrightarrow> rbind m f = rbind m' g"
  by (cases m') auto

section \<open>The C type int\<close>

lemma nat_int_Suc [simp]: "nat (int n + 1) = Suc n" "nat (1 + int n) = Suc n"
  by simp_all

abbreviation INT_MAX :: int where "INT_MAX \<equiv> 2147483647"
abbreviation INT_MIN :: int where "INT_MIN \<equiv> - 2147483648"

definition chk :: "int \<Rightarrow> int res" where
  "chk x = (if INT_MIN \<le> x \<and> x \<le> INT_MAX then Inr x else Inl Int_Overflow)"

lemma chk_ok [simp]: "INT_MIN \<le> x \<Longrightarrow> x \<le> INT_MAX \<Longrightarrow> chk x = Inr x"
  by (simp add: chk_def)

lemma chk_overflow [simp]: "INT_MAX < x \<Longrightarrow> chk x = Inl Int_Overflow"
  by (simp add: chk_def)

lemma chk_eq_Inr: "chk x = Inr y \<longleftrightarrow> y = x \<and> INT_MIN \<le> x \<and> x \<le> INT_MAX"
  by (auto simp: chk_def)

text \<open>Division and remainder of C truncate towards zero.\<close>

definition c_div :: "int \<Rightarrow> int \<Rightarrow> int res" where
  "c_div a b = (if b = 0 then Inl Div_By_Zero else chk (sgn a * sgn b * (\<bar>a\<bar> div \<bar>b\<bar>)))"

definition c_mod :: "int \<Rightarrow> int \<Rightarrow> int res" where
  "c_mod a b =
     (if b = 0 then Inl Div_By_Zero
      else rbind (c_div a b) (\<lambda>q. Inr (a - b * q)))"

section \<open>Blocks of memory\<close>

datatype 'a cell = Undef | Val 'a

text \<open>\<open>_ALLOC\<close> clears the block it returns; \<open>_REALLOC\<close> keeps the common prefix.\<close>

definition blk_alloc :: "nat \<Rightarrow> 'a \<Rightarrow> 'a cell list" where
  "blk_alloc n z = replicate n (Val z)"

definition blk_realloc :: "'a cell list \<Rightarrow> nat \<Rightarrow> 'a cell list" where
  "blk_realloc b n = take n b @ replicate (n - length b) Undef"

definition load :: "'a cell list \<Rightarrow> int \<Rightarrow> 'a res" where
  "load b i =
     (if 0 \<le> i \<and> i < int (length b)
      then (case b ! nat i of Undef \<Rightarrow> Inl Uninit_Read | Val v \<Rightarrow> Inr v)
      else Inl Out_Of_Bounds)"

definition store :: "'a cell list \<Rightarrow> int \<Rightarrow> 'a \<Rightarrow> 'a cell list res" where
  "store b i v =
     (if 0 \<le> i \<and> i < int (length b) then Inr (b[nat i := Val v]) else Inl Out_Of_Bounds)"

text \<open>\<open>holds b xs\<close>: the block starts with the written values \<open>xs\<close>.\<close>

definition holds :: "'a cell list \<Rightarrow> 'a list \<Rightarrow> bool" where
  "holds b xs \<longleftrightarrow> take (length xs) b = map Val xs"

lemma length_blk_alloc [simp]: "length (blk_alloc n z) = n"
  by (simp add: blk_alloc_def)

lemma length_blk_realloc [simp]: "length (blk_realloc b n) = n"
  by (simp add: blk_realloc_def)

lemma holds_Nil [simp]: "holds b []"
  by (simp add: holds_def)

lemma holds_length: "holds b xs \<Longrightarrow> length xs \<le> length b"
  by (metis holds_def length_map length_take min.cobounded1)

lemma holds_nth: "holds b xs \<Longrightarrow> n < length xs \<Longrightarrow> b ! n = Val (xs ! n)"
  by (metis holds_def length_map nth_map nth_take)

lemma holds_iff_nth:
  "holds b xs \<longleftrightarrow> length xs \<le> length b \<and> (\<forall>n < length xs. b ! n = Val (xs ! n))"
  by (auto simp: holds_length holds_nth) (auto simp: holds_def list_eq_iff_nth_eq)

lemma holds_append_iff:
  "holds b (xs @ ys) \<longleftrightarrow> holds b xs \<and> holds (drop (length xs) b) ys"
proof
  assume h: "holds b (xs @ ys)"
  then have "length xs + length ys \<le> length b" using holds_length by fastforce
  then have "length (take (length xs) b) = length (map Val xs)" by simp
  with h show "holds b xs \<and> holds (drop (length xs) b) ys"
    by (simp add: holds_def take_add)
next
  assume "holds b xs \<and> holds (drop (length xs) b) ys"
  then show "holds b (xs @ ys)" by (simp add: holds_def take_add)
qed

lemma holds_realloc: "holds b xs \<Longrightarrow> length xs \<le> n \<Longrightarrow> holds (blk_realloc b n) xs"
  by (frule holds_length) (simp add: holds_def blk_realloc_def min_def)

lemma load_holds: "holds b xs \<Longrightarrow> 0 \<le> i \<Longrightarrow> nat i < length xs \<Longrightarrow> load b i = Inr (xs ! nat i)"
  using holds_length [of b xs] by (simp add: load_def holds_nth)

lemma load_out [simp]: "i < 0 \<or> int (length b) \<le> i \<Longrightarrow> load b i = Inl Out_Of_Bounds"
  by (auto simp: load_def)

lemma store_out [simp]: "i < 0 \<or> int (length b) \<le> i \<Longrightarrow> store b i v = Inl Out_Of_Bounds"
  by (auto simp: store_def)

lemma store_in: "0 \<le> i \<Longrightarrow> i < int (length b) \<Longrightarrow> store b i v = Inr (b[nat i := Val v])"
  by (simp add: store_def)

lemma store_eq_Inr:
  "store b i v = Inr b' \<longleftrightarrow> 0 \<le> i \<and> i < int (length b) \<and> b' = b[nat i := Val v]"
  by (auto simp: store_def)

lemma holds_upd: "holds b xs \<Longrightarrow> n < length xs \<Longrightarrow> holds (b[n := Val v]) (xs[n := v])"
  by (auto simp: holds_iff_nth nth_list_update)

lemma holds_snoc:
  "holds b xs \<Longrightarrow> n = length xs \<Longrightarrow> n < length b \<Longrightarrow> holds (b[n := Val v]) (xs @ [v])"
  by (auto simp: holds_iff_nth nth_list_update nth_append less_Suc_eq)

lemma holds_butlast: "holds b xs \<Longrightarrow> holds b (butlast xs)"
  by (auto simp: holds_iff_nth nth_butlast)

lemma holds_inj: "holds b xs \<Longrightarrow> holds b ys \<Longrightarrow> length xs = length ys \<Longrightarrow> xs = ys"
  by (auto simp: holds_iff_nth intro!: nth_equalityI)

lemma holds_alloc: "set xs \<subseteq> {z} \<Longrightarrow> length xs \<le> n \<Longrightarrow> holds (blk_alloc n z) xs"
  by (auto simp: holds_iff_nth blk_alloc_def subset_iff dest: nth_mem)

section \<open>Counting loops\<close>

text \<open>The loop \<open>for(int i = a; i < n; i++) body\<close>, whose bound does not change in the loop.\<close>

function for_loop :: "(int \<Rightarrow> 's \<Rightarrow> 's res) \<Rightarrow> int \<Rightarrow> int \<Rightarrow> 's \<Rightarrow> 's res" where
  "for_loop body i n s =
     (if i < n then rbind (body i s) (\<lambda>s'. for_loop body (i + 1) n s') else Inr s)"
  by pat_completeness auto
termination
  by (relation "measure (\<lambda>(body, i, n, s). nat (n - i))") auto

declare for_loop.simps [simp del]

lemma for_loop_done [simp]: "n \<le> i \<Longrightarrow> for_loop body i n s = Inr s"
  by (simp add: for_loop.simps)

lemma for_loop_step: "i < n \<Longrightarrow> for_loop body i n s = rbind (body i s) (for_loop body (i + 1) n)"
  by (simp add: for_loop.simps [of body i])

lemma for_loop_rule:
  assumes "i \<le> n" and "P i s"
    and "\<And>j t. i \<le> j \<Longrightarrow> j < n \<Longrightarrow> P j t \<Longrightarrow> \<exists>t'. body j t = Inr t' \<and> P (j + 1) t'"
  shows "\<exists>t. for_loop body i n s = Inr t \<and> P n t"
  using assms
proof (induction body i n s rule: for_loop.induct)
  case (1 body i n s)
  show ?case
  proof (cases "i < n")
    case True
    with "1.prems" obtain s' where s': "body i s = Inr s'" "P (i + 1) s'" by blast
    then have "\<exists>t. for_loop body (i + 1) n s' = Inr t \<and> P n t"
      using True by (intro "1.IH") (auto intro: "1.prems"(3))
    then show ?thesis using True s' by (simp add: for_loop_step)
  next
    case False
    with "1.prems" show ?thesis by simp
  qed
qed

section \<open>Capacities that double\<close>

text \<open>
  Every growable object of the program starts with capacity \<open>1 << 3\<close> and doubles it with
  \<open>cap <<= 1\<close>.  In the type int the doubling of \<open>2^30\<close> overflows, so the capacities that
  occur are \<open>2^3\<close> to \<open>2^30\<close>.
\<close>

definition cap_ok :: "int \<Rightarrow> bool" where
  "cap_ok c \<longleftrightarrow> (\<exists>k \<in> {3..30::nat}. c = 2 ^ k)"

lemma cap_ok_8 [simp]: "cap_ok 8"
  unfolding cap_ok_def by (rule bexI [of _ 3]) auto

lemma cap_ok_bounds: "cap_ok c \<Longrightarrow> 8 \<le> c \<and> c \<le> 2 ^ 30"
proof -
  assume "cap_ok c"
  then obtain k where k: "3 \<le> k" "k \<le> 30" and c: "c = 2 ^ k"
    by (auto simp: cap_ok_def)
  have "(2::int) ^ 3 \<le> 2 ^ k" by (rule power_increasing) (use k in auto)
  moreover have "(2::int) ^ k \<le> 2 ^ 30" by (rule power_increasing) (use k in auto)
  ultimately show ?thesis using c by simp
qed

lemma cap_ok_double: "cap_ok c \<Longrightarrow> c < 2 ^ 30 \<Longrightarrow> cap_ok (2 * c)"
proof -
  assume "cap_ok c" and lt: "c < 2 ^ 30"
  then obtain k where k: "3 \<le> k" "k \<le> 30" and c: "c = 2 ^ k"
    by (auto simp: cap_ok_def)
  have "k \<noteq> 30" using c lt by auto
  then have "Suc k \<in> {3..30}" using k by auto
  moreover have "2 * c = 2 ^ Suc k" using c by simp
  ultimately show ?thesis unfolding cap_ok_def by blast
qed

text \<open>
  The loop \<open>while(need > cap) cap <<= 1;\<close> over a signed capacity.  A capacity of zero would
  never grow, and shifting a negative one is undefined.
\<close>

function grow_cap :: "int \<Rightarrow> int \<Rightarrow> int res" where
  "grow_cap need c =
     (if need \<le> c then Inr c
      else if c \<le> 0 then Inl No_Return
      else if INT_MAX < 2 * c then Inl Int_Overflow
      else grow_cap need (2 * c))"
  by pat_completeness auto
termination
  by (relation "measure (\<lambda>(need, c). nat (need - c))") auto

declare grow_cap.simps [simp del]

lemma grow_cap_le [simp]: "need \<le> c \<Longrightarrow> grow_cap need c = Inr c"
  by (simp add: grow_cap.simps)

lemma grow_cap_ok:
  "cap_ok c \<Longrightarrow> need \<le> 2 ^ 30 \<Longrightarrow>
   \<exists>c'. grow_cap need c = Inr c' \<and> cap_ok c' \<and> need \<le> c' \<and> c \<le> c' \<and> (c' = c \<or> c' < 2 * need)"
proof (induction need c rule: grow_cap.induct)
  case (1 need c)
  note b = cap_ok_bounds [OF "1.prems"(1)]
  show ?case
  proof (cases "need \<le> c")
    case True
    then show ?thesis using "1.prems" by simp
  next
    case False
    then have "cap_ok (2 * c)" using "1.prems" by (intro cap_ok_double) auto
    moreover have "\<not> c \<le> 0" "\<not> INT_MAX < 2 * c" using b False "1.prems"(2) by auto
    ultimately obtain c' where "grow_cap need (2 * c) = Inr c'" "cap_ok c'" "need \<le> c'"
      "2 * c \<le> c'" "c' = 2 * c \<or> c' < 2 * need"
      using "1.IH" "1.prems"(2) False by blast
    then show ?thesis
      using False b \<open>\<not> INT_MAX < 2 * c\<close> by (auto simp: grow_cap.simps [of need c])
  qed
qed

lemma grow_cap_overflow: "cap_ok c \<Longrightarrow> 2 ^ 30 < need \<Longrightarrow> grow_cap need c = Inl Int_Overflow"
proof (induction need c rule: grow_cap.induct)
  case (1 need c)
  note b = cap_ok_bounds [OF "1.prems"(1)]
  show ?case
  proof (cases "INT_MAX < 2 * c")
    case True
    then show ?thesis using b "1.prems"(2) by (auto simp: grow_cap.simps [of need c])
  next
    case False
    then have "c < 2 ^ 30" by simp
    then have "cap_ok (2 * c)" using "1.prems"(1) by (intro cap_ok_double)
    then show ?thesis
      using "1.IH" b "1.prems"(2) False by (auto simp: grow_cap.simps [of need c])
  qed
qed

end
