(* ===== verification/C_String.thy ===== *)
theory C_String
  imports Vm_Prelude
begin

text \<open>
  The functions of the C library the program uses on strings, over blocks of \<open>char\<close> cells:
  \<^verbatim>\<open>strlen\<close>, \<^verbatim>\<open>strcmp\<close>, \<^verbatim>\<open>strcat\<close>, \<^verbatim>\<open>strchr\<close>, \<^verbatim>\<open>strrchr\<close>, \<^verbatim>\<open>memmove\<close> and the
  classification functions of the C locale.  A string that the program gets from outside (a
  literal, an argument) is a list of characters without the terminator; a string in memory is
  read from a block up to its terminator, and running off the block is an error.
\<close>

abbreviation NUL :: char where "NUL \<equiv> CHR 0x00"

definition nul_free :: "string \<Rightarrow> bool" where
  "nul_free s \<longleftrightarrow> NUL \<notin> set s"

lemma nul_free_simps [simp]:
  "nul_free []" "nul_free (c # s) \<longleftrightarrow> c \<noteq> NUL \<and> nul_free s"
  "nul_free (s @ t) \<longleftrightarrow> nul_free s \<and> nul_free t"
  by (auto simp: nul_free_def)

lemma nul_free_drop [simp]: "nul_free s \<Longrightarrow> nul_free (drop n s)"
  by (auto simp: nul_free_def dest: in_set_dropD)

lemma nul_free_take [simp]: "nul_free s \<Longrightarrow> nul_free (take n s)"
  by (auto simp: nul_free_def dest: in_set_takeD)

section \<open>Character classes of the C locale\<close>

abbreviation code :: "char \<Rightarrow> nat" where "code c \<equiv> of_char c"

definition isspace :: "char \<Rightarrow> bool" where
  "isspace c \<longleftrightarrow> code c = 32 \<or> (9 \<le> code c \<and> code c \<le> 13)"

definition islower :: "char \<Rightarrow> bool" where
  "islower c \<longleftrightarrow> 97 \<le> code c \<and> code c \<le> 122"

definition isupper :: "char \<Rightarrow> bool" where
  "isupper c \<longleftrightarrow> 65 \<le> code c \<and> code c \<le> 90"

definition isdigit :: "char \<Rightarrow> bool" where
  "isdigit c \<longleftrightarrow> 48 \<le> code c \<and> code c \<le> 57"

definition ispunct :: "char \<Rightarrow> bool" where
  "ispunct c \<longleftrightarrow> 33 \<le> code c \<and> code c \<le> 126 \<and> \<not> islower c \<and> \<not> isupper c \<and> \<not> isdigit c"

definition toupper :: "char \<Rightarrow> char" where
  "toupper c = (if islower c then char_of (code c - 32) else c)"

definition tolower :: "char \<Rightarrow> char" where
  "tolower c = (if isupper c then char_of (code c + 32) else c)"

lemma code_NUL [simp]: "code NUL = 0"
  by simp

lemma isspace_not_NUL [simp]: "\<not> isspace NUL"
  by (simp add: isspace_def)

lemma code_less_256: "code c < 256"
  by (rule nat_of_char_less_256)

lemma code_char_of [simp]: "n < 256 \<Longrightarrow> code (char_of n) = n"
  by simp

lemma toupper_eq_NUL [simp]: "toupper c = NUL \<longleftrightarrow> c = NUL"
proof
  assume h: "toupper c = NUL"
  show "c = NUL"
  proof (cases "islower c")
    case True
    moreover have "code c - 32 < 256" using code_less_256 [of c] by linarith
    ultimately have "code (toupper c) = code c - 32" by (simp add: toupper_def islower_def)
    then show ?thesis using h True by (simp add: islower_def)
  qed (use h in \<open>simp add: toupper_def\<close>)
qed (simp add: toupper_def islower_def)

lemma tolower_eq_NUL [simp]: "tolower c = NUL \<longleftrightarrow> c = NUL"
proof
  assume h: "tolower c = NUL"
  show "c = NUL"
  proof (cases "isupper c")
    case True
    then have "code (tolower c) = code c + 32" by (simp add: tolower_def isupper_def)
    then show ?thesis using h True by (simp add: isupper_def)
  qed (use h in \<open>simp add: tolower_def\<close>)
qed (simp add: tolower_def isupper_def)

section \<open>Strings in memory\<close>

function cstr :: "char cell list \<Rightarrow> int \<Rightarrow> string res" where
  "cstr b i =
     rbind (load b i) (\<lambda>c.
     if c = NUL then Inr [] else rbind (cstr b (i + 1)) (\<lambda>r. Inr (c # r)))"
  by pat_completeness auto
termination
  by (relation "measure (\<lambda>(b, i). nat (int (length b) - i))")
     (auto simp: load_def split: if_splits)

declare cstr.simps [simp del]

definition c_strlen :: "char cell list \<Rightarrow> int \<Rightarrow> int res" where
  "c_strlen b i = rbind (cstr b i) (\<lambda>s. Inr (int (length s)))"

text \<open>\<open>str_at b cs\<close>: the block holds the string \<open>cs\<close> and its terminator.\<close>

definition str_at :: "char cell list \<Rightarrow> string \<Rightarrow> bool" where
  "str_at b cs \<longleftrightarrow> nul_free cs \<and> holds b (cs @ [NUL])"

lemma str_atD: "str_at b cs \<Longrightarrow> nul_free cs \<and> length cs < length b"
  using holds_length [of b "cs @ [NUL]"] by (auto simp: str_at_def)

lemma str_at_holds: "str_at b cs \<Longrightarrow> holds b cs"
  using holds_append_iff [of b cs "[NUL]"] by (simp add: str_at_def del: map_append)

lemma str_at_load:
  assumes "str_at b cs" "i \<le> length cs"
  shows "load b (int i) = Inr ((cs @ [NUL]) ! i)"
  using load_holds [of b "cs @ [NUL]" "int i"] assms by (simp add: str_at_def)

lemma cstr_at:
  assumes "str_at b cs"
  shows "i \<le> length cs \<Longrightarrow> cstr b (int i) = Inr (drop i cs)"
proof (induction "length cs - i" arbitrary: i)
  case 0
  then have "i = length cs" by simp
  then have "load b (int i) = Inr NUL" using str_at_load [OF assms, of i] by simp
  then show ?case using 0 by (simp add: cstr.simps [of b "int i"])
next
  case (Suc n)
  then have i: "i < length cs" by simp
  have "load b (int i) = Inr (cs ! i)"
    using str_at_load [OF assms, of i] i by (simp add: nth_append)
  moreover have "cs ! i \<noteq> NUL" using assms i by (metis nth_mem nul_free_def str_at_def)
  moreover have "cstr b (int i + 1) = Inr (drop (Suc i) cs)"
    using Suc.hyps(1) [of "Suc i"] Suc.hyps(2) i by (simp add: add.commute)
  ultimately show ?case using i by (simp add: cstr.simps [of b "int i"] Cons_nth_drop_Suc)
qed

lemma cstr_at_0 [simp]: "str_at b cs \<Longrightarrow> cstr b 0 = Inr cs"
  using cstr_at [of b cs 0] by simp

lemma c_strlen_at: "str_at b cs \<Longrightarrow> i \<le> length cs \<Longrightarrow> c_strlen b (int i) = Inr (int (length cs - i))"
  by (simp add: c_strlen_def cstr_at)

lemma c_strlen_at_0 [simp]: "str_at b cs \<Longrightarrow> c_strlen b 0 = Inr (int (length cs))"
  by (simp add: c_strlen_def)

lemma str_at_unique: "str_at b cs \<Longrightarrow> str_at b ds \<Longrightarrow> cs = ds"
  using cstr_at_0 [of b cs] cstr_at_0 [of b ds] by simp

section \<open>Writing a run of cells and moving memory\<close>

fun store_all :: "'a cell list \<Rightarrow> int \<Rightarrow> 'a list \<Rightarrow> 'a cell list res" where
  "store_all b i [] = Inr b"
| "store_all b i (v # vs) = rbind (store b i v) (\<lambda>b. store_all b (i + 1) vs)"

lemma store_all_in:
  "i + length vs \<le> length b \<Longrightarrow>
   store_all b (int i) vs = Inr (take i b @ map Val vs @ drop (i + length vs) b)"
proof (induction vs arbitrary: b i)
  case (Cons v vs)
  then have "store_all (b[i := Val v]) (int (Suc i)) vs =
      Inr (take (Suc i) (b[i := Val v]) @ map Val vs @ drop (Suc i + length vs) (b[i := Val v]))"
    by (intro Cons.IH) simp
  moreover have "take (Suc i) (b[i := Val v]) = take i b @ [Val v]"
    using Cons.prems by (simp add: take_Suc_conv_app_nth)
  ultimately show ?case using Cons.prems by (simp add: store_def add.commute)
qed simp

text \<open>\<^verbatim>\<open>memmove\<close> within a block; it copies cells, written or not.\<close>

definition mem_move :: "'a cell list \<Rightarrow> int \<Rightarrow> int \<Rightarrow> int \<Rightarrow> 'a cell list res" where
  "mem_move b d s n =
     (if 0 \<le> d \<and> 0 \<le> s \<and> 0 \<le> n \<and> d + n \<le> int (length b) \<and> s + n \<le> int (length b)
      then Inr (take (nat d) b @ take (nat n) (drop (nat s) b) @ drop (nat (d + n)) b)
      else Inl Out_Of_Bounds)"

lemma length_mem_move: "mem_move b d s n = Inr b' \<Longrightarrow> length b' = length b"
  by (auto simp: mem_move_def split: if_splits)

lemma mem_move_in:
  "d + n \<le> length b \<Longrightarrow> s + n \<le> length b \<Longrightarrow>
   mem_move b (int d) (int s) (int n) = Inr (take d b @ take n (drop s b) @ drop (d + n) b)"
  by (auto simp: mem_move_def nat_add_distrib simp flip: of_nat_add)

section \<open>strcat, strcmp, strchr, strrchr\<close>

definition c_strcat :: "char cell list \<Rightarrow> string \<Rightarrow> char cell list res" where
  "c_strcat b s = rbind (c_strlen b 0) (\<lambda>n. store_all b n (s @ [NUL]))"

lemma c_strcat_at:
  assumes "str_at b cs" "nul_free s" "length cs + length s < length b"
  shows "\<exists>b'. c_strcat b s = Inr b' \<and> str_at b' (cs @ s) \<and> length b' = length b"
proof -
  let ?b = "take (length cs) b @ map Val (s @ [NUL]) @ drop (length cs + length (s @ [NUL])) b"
  have "c_strcat b s = Inr ?b"
    using assms store_all_in [of "length cs" "s @ [NUL]" b] by (simp add: c_strcat_def)
  moreover have "take (length cs) b = map Val cs"
    using str_at_holds [OF assms(1)] by (simp add: holds_def)
  ultimately show ?thesis using assms by (auto simp: str_at_def holds_def)
qed

text \<open>Only the sign of strcmp is specified; it compares the bytes as unsigned char.\<close>

fun c_strcmp :: "string \<Rightarrow> string \<Rightarrow> int" where
  "c_strcmp [] [] = 0"
| "c_strcmp [] (d # t) = - 1"
| "c_strcmp (c # s) [] = 1"
| "c_strcmp (c # s) (d # t) =
     (if code c < code d then - 1 else if code d < code c then 1 else c_strcmp s t)"

lemma c_strcmp_eq_0 [simp]: "c_strcmp s t = 0 \<longleftrightarrow> s = t"
proof (induction s t rule: c_strcmp.induct)
  case (4 c s d t)
  have "c = d" if "\<not> code c < code d" "\<not> code d < code c"
    using that by (metis linorder_neqE_nat of_char_eq_iff)
  then show ?case using 4 by auto
qed simp_all

lemma c_strcmp_swap: "c_strcmp s t = - c_strcmp t s"
proof (induction s t rule: c_strcmp.induct)
  case (4 c s d t)
  show ?case
  proof (cases "\<not> code c < code d \<and> \<not> code d < code c")
    case True
    then have "c_strcmp s t = - c_strcmp t s" using "4.IH" by blast
    moreover have "c_strcmp (c # s) (d # t) = c_strcmp s t" "c_strcmp (d # t) (c # s) = c_strcmp t s"
      using True by simp_all
    ultimately show ?thesis by (simp only:)
  next
    case False
    then have "code c < code d \<or> code d < code c \<and> \<not> code c < code d" by linarith
    then show ?thesis by auto
  qed
qed simp_all

lemma c_strcmp_trans: "c_strcmp s t \<le> 0 \<Longrightarrow> c_strcmp t u \<le> 0 \<Longrightarrow> c_strcmp s u \<le> 0"
proof (induction s t arbitrary: u rule: c_strcmp.induct)
  case (4 c s d t)
  show ?case
  proof (cases u)
    case (Cons e u')
    have cd: "code c < code d \<or> code c = code d \<and> c_strcmp s t \<le> 0"
      using "4.prems"(1) by (simp split: if_splits)
    have de: "code d < code e \<or> code d = code e \<and> c_strcmp t u' \<le> 0"
      using "4.prems"(2) Cons by (simp split: if_splits)
    show ?thesis
    proof (cases "code c < code e")
      case False
      then have eq: "code c = code d" "code d = code e" "c_strcmp s t \<le> 0" "c_strcmp t u' \<le> 0"
        using cd de by linarith+
      then have "\<not> code c < code d" "\<not> code d < code c" by simp_all
      then have "c_strcmp s u' \<le> 0" using "4.IH" eq(3,4) by blast
      then show ?thesis using Cons eq(1,2) by simp
    qed (use Cons in simp)
  qed (use "4.prems" in simp)
next
  case (1 u)
  then show ?case by (cases u) auto
next
  case (2 d t u)
  then show ?case by (cases u) auto
qed simp

lemma c_strcmp_bounds: "INT_MIN \<le> c_strcmp s t \<and> c_strcmp s t \<le> INT_MAX"
  by (induction s t rule: c_strcmp.induct) auto

text \<open>Index of the first and of the last occurrence.\<close>

fun c_strchr :: "string \<Rightarrow> char \<Rightarrow> nat option" where
  "c_strchr [] c = None"
| "c_strchr (d # s) c = (if d = c then Some 0 else map_option Suc (c_strchr s c))"

fun c_strrchr :: "string \<Rightarrow> char \<Rightarrow> nat option" where
  "c_strrchr [] c = None"
| "c_strrchr (d # s) c =
     (case c_strrchr s c of Some i \<Rightarrow> Some (Suc i) | None \<Rightarrow> if d = c then Some 0 else None)"

lemma c_strchr_None: "c_strchr s c = None \<longleftrightarrow> c \<notin> set s"
  by (induction s) auto

lemma c_strrchr_None: "c_strrchr s c = None \<longleftrightarrow> c \<notin> set s"
  by (induction s) (auto split: option.splits)

lemma c_strchr_Some:
  "c_strchr s c = Some i \<Longrightarrow> i < length s \<and> s ! i = c \<and> c \<notin> set (take i s)"
  by (induction s arbitrary: i) (auto split: if_splits)

lemma c_strrchr_Some:
  "c_strrchr s c = Some i \<Longrightarrow> i < length s \<and> s ! i = c \<and> c \<notin> set (drop (Suc i) s)"
proof (induction s arbitrary: i)
  case (Cons d s)
  then show ?case by (auto split: option.splits if_splits simp: c_strrchr_None)
qed simp

end
