(* ===== verification/Alloc.thy ===== *)
theory Alloc
  imports C_String
begin

text \<open>
  src/src/common/alloc.c: the wrappers around the allocator.

  The allocator itself (malloc or the vendored collector) is a parameter: \<open>malloc n\<close> is the block it
  returns, or \<open>None\<close> for NULL, and \<open>realloc b n\<close> likewise.  A byte is a \<open>char\<close>.  The
  hypotheses \<open>malloc_ok\<close> and \<open>realloc_ok\<close> are what the C standard says of a non-null result.
  The other theories use \<open>blk_alloc\<close>, \<open>blk_realloc\<close> and string copies directly; the properties here
  are why they may: a wrapper ends the process or returns that block.
\<close>

section \<open>The operations\<close>

fun mem_set :: "'a cell list \<Rightarrow> 'a \<Rightarrow> nat \<Rightarrow> 'a cell list res" where
  "mem_set b v 0 = Inr b"
| "mem_set b v (Suc n) = rbind (store b (int n) v) (\<lambda>b. mem_set b v n)"

text \<open>\<^verbatim>\<open>memcpy\<close> of the first \<open>n\<close> cells of one block over those of another.\<close>

definition mem_cpy :: "'a cell list \<Rightarrow> 'a cell list \<Rightarrow> nat \<Rightarrow> 'a cell list res" where
  "mem_cpy dst src n =
     (if n \<le> length dst \<and> n \<le> length src then Inr (take n src @ drop n dst)
      else Inl Out_Of_Bounds)"

type_synonym block = "char cell list"

definition mem_alloc :: "(nat \<Rightarrow> block option) \<Rightarrow> nat \<Rightarrow> block res" where
  "mem_alloc malloc sz =
     (case malloc sz of None \<Rightarrow> Inl Fatal_Exit | Some ptr \<Rightarrow> mem_set ptr NUL sz)"

definition mem_realloc :: "(block option \<Rightarrow> nat \<Rightarrow> block option) \<Rightarrow> block option \<Rightarrow> nat \<Rightarrow> block res" where
  "mem_realloc realloc optr sz =
     (case realloc optr sz of None \<Rightarrow> Inl Fatal_Exit | Some nptr \<Rightarrow> Inr nptr)"

definition mem_copy :: "(nat \<Rightarrow> block option) \<Rightarrow> block option \<Rightarrow> nat \<Rightarrow> block res" where
  "mem_copy malloc optr sz =
     (case malloc sz of
        None \<Rightarrow> Inl Fatal_Exit
      | Some nptr \<Rightarrow> (case optr of None \<Rightarrow> Inl Null_Deref | Some b \<Rightarrow> mem_cpy nptr b sz))"

definition mem_copy_string :: "(nat \<Rightarrow> block option) \<Rightarrow> block option \<Rightarrow> block res" where
  "mem_copy_string malloc str =
     (case str of
        Some b \<Rightarrow>
          rbind (c_strlen b 0) (\<lambda>n. let len = nat n + 1 in
          case malloc len of None \<Rightarrow> Inl Fatal_Exit | Some ptr \<Rightarrow> mem_cpy ptr b len)
      | None \<Rightarrow>
          (case malloc 1 of None \<Rightarrow> Inl Fatal_Exit | Some ptr \<Rightarrow> store ptr 0 NUL))"

text \<open>free of a block that is already free is undefined; \<open>_mem_free\<close> guards only against NULL.\<close>

datatype 'b ptr = Ptr_Null | Ptr_To 'b | Ptr_Freed

fun mem_free :: "'b ptr \<Rightarrow> 'b ptr res" where
  "mem_free Ptr_Null = Inr Ptr_Null"
| "mem_free (Ptr_To b) = Inr Ptr_Freed"
| "mem_free Ptr_Freed = Inl Use_After_Free"

section \<open>Lemmas\<close>

definition malloc_ok :: "(nat \<Rightarrow> block option) \<Rightarrow> bool" where
  "malloc_ok malloc \<longleftrightarrow> (\<forall>n b. malloc n = Some b \<longrightarrow> length b = n)"

definition realloc_ok :: "(block option \<Rightarrow> nat \<Rightarrow> block option) \<Rightarrow> bool" where
  "realloc_ok realloc \<longleftrightarrow>
     (\<forall>b n b'. realloc (Some b) n = Some b' \<longrightarrow>
        length b' = n \<and> take (min n (length b)) b' = take (min n (length b)) b)"

lemma mem_set_all: "n \<le> length b \<Longrightarrow> mem_set b v n = Inr (replicate n (Val v) @ drop n b)"
proof (induction n arbitrary: b)
  case (Suc n)
  have "mem_set (b[n := Val v]) v n = Inr (replicate n (Val v) @ drop n (b[n := Val v]))"
    using Suc by simp
  moreover have "drop n (b[n := Val v]) = Val v # drop (Suc n) b"
    using Suc.prems Cons_nth_drop_Suc [of n "b[n := Val v]"] by simp
  ultimately show ?case using Suc.prems
    by (simp add: store_def replicate_append_same)
qed simp

section \<open>Properties\<close>

text \<open>
  \<open>_mem_alloc\<close> either ends the process with the fatal error or returns a block of the size asked
  for in which every byte is zero.
\<close>

theorem mem_alloc_zeroed:
  assumes "malloc_ok malloc"
  shows "mem_alloc malloc sz = (if malloc sz = None then Inl Fatal_Exit else Inr (blk_alloc sz NUL))"
  using assms mem_set_all [of sz _ NUL]
  by (cases "malloc sz") (auto simp: mem_alloc_def malloc_ok_def blk_alloc_def)

theorem mem_alloc_zeroed_witness:
  "mem_alloc (\<lambda>n. if n < 100 then Some (replicate n Undef) else None) 8 = Inr (blk_alloc 8 NUL)"
  by (subst mem_alloc_zeroed) (simp_all add: malloc_ok_def)

text \<open>
  \<open>_mem_copy_string\<close> of a string returns, when the allocator has a block, a block that holds the
  same string and its terminator and no byte more; of NULL it returns the empty string.
\<close>

theorem mem_copy_string_correct:
  assumes "malloc_ok malloc" "\<forall>n. malloc n \<noteq> None" "str = None \<and> cs = [] \<or> (\<exists>b. str = Some b \<and> str_at b cs)"
  shows "mem_copy_string malloc str = Inr (map Val (cs @ [NUL]))"
proof -
  obtain m where m: "malloc (length cs + 1) = Some m" using assms(2) by blast
  then have len: "length m = length cs + 1" using assms(1) unfolding malloc_ok_def by blast
  show ?thesis
  proof (cases str)
    case None
    then show ?thesis using assms(3) m len
      by (cases m) (auto simp: mem_copy_string_def store_def)
  next
    case (Some b)
    then have b: "str_at b cs" using assms(3) by auto
    then have "take (length cs + 1) b = map Val (cs @ [NUL])"
      by (simp add: str_at_def holds_def)
    then show ?thesis using Some b m len str_atD [OF b]
      by (simp add: mem_copy_string_def mem_cpy_def Let_def)
  qed
qed

theorem mem_copy_string_correct_witness:
  "mem_copy_string (\<lambda>n. Some (replicate n Undef)) (Some (map Val ''sp'' @ [Val NUL, Undef])) =
     Inr (map Val (''sp'' @ [NUL]))"
  by (rule mem_copy_string_correct) (auto simp: malloc_ok_def str_at_def holds_def)

text \<open>
  \<open>_mem_realloc\<close> to a larger size, of a block whose first cells are written, keeps them; the rest of
  the new block is whatever the allocator left there (nothing clears it).
\<close>

theorem mem_realloc_keeps:
  assumes "realloc_ok realloc" "holds b xs" "length xs \<le> n" "mem_realloc realloc (Some b) n = Inr b'"
  shows "length b' = n \<and> holds b' xs"
proof -
  have "realloc (Some b) n = Some b'"
    using assms(4) by (auto simp: mem_realloc_def split: option.splits)
  then have r: "length b' = n" "take (min n (length b)) b' = take (min n (length b)) b"
    using assms(1) unfolding realloc_ok_def by blast+
  have "length xs \<le> min n (length b)" using holds_length [OF assms(2)] assms(3) by simp
  then have "take (length xs) b' = take (length xs) b"
    using r(2) by (metis min.absorb1 take_take)
  then show ?thesis using r(1) assms(2) by (simp add: holds_def)
qed

theorem mem_realloc_keeps_witness:
  "length (blk_realloc (map Val ''ab'') 4) = 4 \<and> holds (blk_realloc (map Val ''ab'') 4) ''ab''"
  by (rule mem_realloc_keeps [of "\<lambda>b n. Some (blk_realloc (case b of Some c \<Rightarrow> c | None \<Rightarrow> []) n)"
        "map Val ''ab''"])
    (auto simp: realloc_ok_def mem_realloc_def blk_realloc_def holds_def)

end
