(* ===== verification/Comparator.thy ===== *)
theory Comparator
  imports Vm_Prelude "HOL-Library.Multiset"
begin

text \<open>
  The contract between a comparison callback \<open>int (*comp_func)(void*, void*)\<close> and the
  routines that use it: the bubble sort and the binary search, which the program has twice
  (src/src/common/pointer_list.c and src/src/common/array.c).  The locale states what the
  routines need of the callback on the values they are given; their correctness is proved
  here once, over any container that can load and exchange its elements.
\<close>

section \<open>Orders from callbacks\<close>

definition cmp_le :: "('a \<Rightarrow> 'a \<Rightarrow> int res) \<Rightarrow> 'a \<Rightarrow> 'a \<Rightarrow> bool" where
  "cmp_le cmp a b = (case cmp a b of Inl _ \<Rightarrow> False | Inr c \<Rightarrow> c \<le> 0)"

definition cmp_eq :: "('a \<Rightarrow> 'a \<Rightarrow> int res) \<Rightarrow> 'a \<Rightarrow> 'a \<Rightarrow> bool" where
  "cmp_eq cmp a b = (case cmp a b of Inl _ \<Rightarrow> False | Inr c \<Rightarrow> c = 0)"

text \<open>One step of the inner loop of the bubble sort, on the list of elements.\<close>

definition cswap :: "('a \<Rightarrow> 'a \<Rightarrow> int res) \<Rightarrow> 'a list \<Rightarrow> nat \<Rightarrow> 'a list" where
  "cswap cmp xs i =
     (if cmp_le cmp (xs ! i) (xs ! Suc i) then xs else xs[i := xs ! Suc i, Suc i := xs ! i])"

lemma length_cswap [simp]: "length (cswap cmp xs i) = length xs"
  by (simp add: cswap_def)

lemma mset_cswap: "Suc i < length xs \<Longrightarrow> mset (cswap cmp xs i) = mset xs"
  by (simp add: cswap_def mset_swap)

lemma set_cswap: "Suc i < length xs \<Longrightarrow> set (cswap cmp xs i) = set xs"
  using mset_cswap [of i xs cmp] by (metis set_mset_mset)

text \<open>Binary search over anything that can load an element by its index.\<close>

function bin_search ::
  "('a \<Rightarrow> 'a \<Rightarrow> int res) \<Rightarrow> (int \<Rightarrow> 'a res) \<Rightarrow> 'a \<Rightarrow> int \<Rightarrow> int \<Rightarrow> int res"
where
  "bin_search cmp ld key low high =
     (if low \<le> high
      then let mid = low + (high - low) div 2 in
           rbind (ld mid) (\<lambda>x.
           rbind (cmp key x) (\<lambda>val.
           if val = 0 then Inr mid
           else if 0 < val then bin_search cmp ld key (mid + 1) high
           else bin_search cmp ld key low (mid - 1)))
      else Inr (- 1))"
  by pat_completeness auto
termination
  by (relation "measure (\<lambda>(cmp, ld, key, low, high). nat (high - low + 1))") auto

declare bin_search.simps [simp del]

section \<open>The contract\<close>

locale comparator =
  fixes cmp :: "'a \<Rightarrow> 'a \<Rightarrow> int res" and ok :: "'a \<Rightarrow> bool"
  assumes cmp_total: "ok a \<Longrightarrow> ok b \<Longrightarrow> \<exists>c. cmp a b = Inr c"
    and cmp_swap: "ok a \<Longrightarrow> ok b \<Longrightarrow> cmp a b = Inr c \<Longrightarrow> cmp b a = Inr d \<Longrightarrow> 0 < c \<longleftrightarrow> d < 0"
    and cmp_trans: "ok a \<Longrightarrow> ok b \<Longrightarrow> ok e \<Longrightarrow>
      cmp_le cmp a b \<Longrightarrow> cmp_le cmp b e \<Longrightarrow> cmp_le cmp a e"
begin

lemma le_cases: "ok a \<Longrightarrow> ok b \<Longrightarrow> cmp_le cmp a b \<or> cmp_le cmp b a"
  using cmp_total [of a b] cmp_total [of b a] cmp_swap [of a b] cmp_swap [of b a]
  by (auto simp: cmp_le_def not_less)

lemma le_refl: "ok a \<Longrightarrow> cmp_le cmp a a"
  using le_cases by blast

lemma eq_iff_le:
  assumes "ok a" "ok b"
  shows "cmp_eq cmp a b \<longleftrightarrow> cmp_le cmp a b \<and> cmp_le cmp b a"
proof -
  obtain c d where cd: "cmp a b = Inr c" "cmp b a = Inr d" using cmp_total assms by blast
  then have "0 < c \<longleftrightarrow> d < 0" "0 < d \<longleftrightarrow> c < 0" using cmp_swap assms by blast+
  then show ?thesis using cd by (auto simp: cmp_le_def cmp_eq_def)
qed

lemma pos_iff_gt:
  assumes "ok a" "ok b" "cmp a b = Inr c"
  shows "0 < c \<longleftrightarrow> \<not> cmp_le cmp a b" "c < 0 \<longleftrightarrow> \<not> cmp_le cmp b a"
proof -
  obtain d where d: "cmp b a = Inr d" using cmp_total assms by blast
  then have "0 < d \<longleftrightarrow> c < 0" using cmp_swap assms by blast
  then show "0 < c \<longleftrightarrow> \<not> cmp_le cmp a b" "c < 0 \<longleftrightarrow> \<not> cmp_le cmp b a"
    using assms(3) d by (auto simp: cmp_le_def)
qed

text \<open>What holds between two passes: everything after the unsorted prefix is in place.\<close>

definition placed :: "int \<Rightarrow> 'a list \<Rightarrow> bool" where
  "placed k ys \<longleftrightarrow> (\<forall>i j. i < j \<and> k \<le> int j \<and> j < length ys \<longrightarrow> cmp_le cmp (ys ! i) (ys ! j))"

lemma placed_cswap:
  assumes "placed k ys" "int (Suc i) < k" "Suc i < length ys"
  shows "placed k (cswap cmp ys i)"
  using assms unfolding placed_def cswap_def
  by (auto simp: nth_list_update)

lemma cswap_max:
  assumes ok: "\<forall>y \<in> set ys. ok y" and i: "Suc i < length ys"
    and max: "\<forall>j < i. cmp_le cmp (ys ! j) (ys ! i)"
  shows "\<forall>j < Suc i. cmp_le cmp (cswap cmp ys i ! j) (cswap cmp ys i ! Suc i)"
proof (cases "cmp_le cmp (ys ! i) (ys ! Suc i)")
  case True
  have "cmp_le cmp (ys ! j) (ys ! Suc i)" if "j < Suc i" for j
  proof (cases "j = i")
    case False
    then have "cmp_le cmp (ys ! j) (ys ! i)" using max that by auto
    then show ?thesis using True ok i that by (meson cmp_trans Suc_lessD less_trans nth_mem)
  qed (use True in simp)
  then show ?thesis using True by (simp add: cswap_def)
next
  case False
  then have "cmp_le cmp (ys ! Suc i) (ys ! i)" using le_cases ok i by (meson Suc_lessD nth_mem)
  then show ?thesis using False max i by (auto simp: cswap_def nth_list_update less_Suc_eq)
qed

theorem bubble_sort_correct:
  assumes R: "R st xs" and ok: "\<forall>x \<in> set xs. ok x"
    and step: "\<And>i st ys. R st ys \<Longrightarrow> \<forall>y \<in> set ys. ok y \<Longrightarrow> 0 \<le> i \<Longrightarrow> i + 1 < int (length ys) \<Longrightarrow>
       \<exists>st'. body i st = Inr st' \<and> R st' (cswap cmp ys (nat i))"
    and L: "L = int (length xs)"
  shows "\<exists>st' ys. for_loop (\<lambda>step. for_loop body 0 (L - step - 1)) 0 (L - 1) st = Inr st' \<and>
           R st' ys \<and> mset ys = mset xs \<and> sorted_wrt (cmp_le cmp) ys"
proof (cases "L = 0")
  case True
  then show ?thesis using R L by auto
next
  case False
  let ?Q = "\<lambda>s st. \<exists>ys. R st ys \<and> mset ys = mset xs \<and> placed (L - s) ys"
  have "\<exists>t. for_loop (\<lambda>step. for_loop body 0 (L - step - 1)) 0 (L - 1) st = Inr t \<and> ?Q (L - 1) t"
  proof (rule for_loop_rule)
    show "0 \<le> L - 1" using False L by simp
    show "?Q 0 st" using R L by (auto simp: placed_def)
  next
    fix s t
    assume s: "0 \<le> s" "s < L - 1" and Q: "?Q s t"
    let ?P = "\<lambda>i t. \<exists>ys. R t ys \<and> mset ys = mset xs \<and> placed (L - s) ys \<and>
                (\<forall>j < nat i. cmp_le cmp (ys ! j) (ys ! nat i))"
    have "\<exists>t'. for_loop body 0 (L - s - 1) t = Inr t' \<and> ?P (L - s - 1) t'"
    proof (rule for_loop_rule)
      show "0 \<le> L - s - 1" using s by simp
      show "?P 0 t" using Q by auto
    next
      fix i t
      assume i: "0 \<le> i" "i < L - s - 1" and P: "?P i t"
      then obtain ys where ys: "R t ys" "mset ys = mset xs" "placed (L - s) ys"
        "\<forall>j < nat i. cmp_le cmp (ys ! j) (ys ! nat i)" by auto
      have len: "length ys = length xs" using ys(2) by (metis size_mset)
      have oky: "\<forall>y \<in> set ys. ok y" using ok ys(2) by (metis set_mset_mset)
      have Si: "Suc (nat i) < length ys" using i s L len by linarith
      obtain t' where "body i t = Inr t'" "R t' (cswap cmp ys (nat i))"
        using step [OF ys(1) oky i(1)] Si by fastforce
      moreover have "mset (cswap cmp ys (nat i)) = mset xs" using ys(2) Si by (simp add: mset_cswap)
      moreover have "placed (L - s) (cswap cmp ys (nat i))"
        using placed_cswap [OF ys(3) _ Si] i by simp
      moreover have "\<forall>j < nat (i + 1). cmp_le cmp (cswap cmp ys (nat i) ! j)
          (cswap cmp ys (nat i) ! nat (i + 1))"
        using cswap_max [OF oky Si ys(4)] i by (simp add: nat_add_distrib)
      ultimately show "\<exists>t'. body i t = Inr t' \<and> ?P (i + 1) t'" by blast
    qed
    then obtain t' ys where t': "for_loop body 0 (L - s - 1) t = Inr t'" "R t' ys"
      "mset ys = mset xs" "placed (L - s) ys"
      "\<forall>j < nat (L - s - 1). cmp_le cmp (ys ! j) (ys ! nat (L - s - 1))" by auto
    have "placed (L - (s + 1)) ys"
      unfolding placed_def
    proof (intro allI impI)
      fix i j
      assume ij: "i < j \<and> L - (s + 1) \<le> int j \<and> j < length ys"
      show "cmp_le cmp (ys ! i) (ys ! j)"
      proof (cases "int j = L - s - 1")
        case True
        then have "j = nat (L - s - 1)" by simp
        then show ?thesis using t'(5) ij by simp
      next
        case False
        then show ?thesis using t'(4) ij by (auto simp: placed_def)
      qed
    qed
    then show "\<exists>t'. for_loop body 0 (L - s - 1) t = Inr t' \<and> ?Q (s + 1) t'"
      using t' by blast
  qed
  then obtain t ys where t: "for_loop (\<lambda>step. for_loop body 0 (L - step - 1)) 0 (L - 1) st = Inr t"
    "R t ys" "mset ys = mset xs" "placed (L - (L - 1)) ys" by blast
  moreover have "sorted_wrt (cmp_le cmp) ys"
    using t(4) by (auto simp: placed_def sorted_wrt_iff_nth_less)
  ultimately show ?thesis by blast
qed

text \<open>
  Binary search in a sorted list: it returns an index in range whose element compares equal
  to the key, or -1 when there is none.
\<close>

lemma bin_search_range:
  assumes ld: "\<And>i. 0 \<le> i \<Longrightarrow> i < int (length xs) \<Longrightarrow> ld i = Inr (xs ! nat i)"
    and okx: "\<forall>x \<in> set xs. ok x" and okk: "ok key" and srt: "sorted_wrt (cmp_le cmp) xs"
    and b: "0 \<le> low" "high < int (length xs)"
    and below: "\<forall>i < nat low. \<not> cmp_le cmp key (xs ! i)"
    and above: "\<forall>i < length xs. high < int i \<longrightarrow> \<not> cmp_le cmp (xs ! i) key"
  shows "\<exists>r. bin_search cmp ld key low high = Inr r \<and>
     (r = - 1 \<and> (\<forall>x \<in> set xs. \<not> cmp_eq cmp key x) \<or>
      0 \<le> r \<and> r < int (length xs) \<and> cmp_eq cmp key (xs ! nat r))"
  using b below above
proof (induction "nat (high - low + 1)" arbitrary: low high rule: less_induct)
  case less
  show ?case
  proof (cases "low \<le> high")
    case False
    have "\<not> cmp_eq cmp key (xs ! i)" if "i < length xs" for i
      using that less.prems(3,4) False okx okk
      by (cases "i < nat low") (auto simp: eq_iff_le)
    then show ?thesis using False by (auto simp: bin_search.simps in_set_conv_nth)
  next
    case True
    define mid where "mid = low + (high - low) div 2"
    have m: "low \<le> mid" "mid \<le> high" using True by (auto simp: mid_def)
    then have m': "0 \<le> mid" "mid < int (length xs)" "nat mid < length xs"
      using less.prems(1,2) by auto
    let ?x = "xs ! nat mid"
    have okm: "ok ?x" using m'(3) okx by simp
    obtain v where v: "cmp key ?x = Inr v" using cmp_total okk okm by blast
    note sgn = pos_iff_gt [OF okk okm v]
    have unfold: "bin_search cmp ld key low high =
       (if v = 0 then Inr mid
        else if 0 < v then bin_search cmp ld key (mid + 1) high
        else bin_search cmp ld key low (mid - 1))"
      using True v ld [OF m'(1,2)] by (simp add: bin_search.simps [of cmp ld key low] mid_def Let_def)
    have le: "cmp_le cmp (xs ! i) (xs ! j)" if "i \<le> j" "j < length xs" for i j
      using that srt okx le_refl by (cases "i = j") (auto simp: sorted_wrt_iff_nth_less)
    consider "v = 0" | "0 < v" | "v < 0" by linarith
    then show ?thesis
    proof cases
      case 1
      then show ?thesis using unfold v m' by (auto simp: cmp_eq_def)
    next
      case 2
      have "\<not> cmp_le cmp key (xs ! i)" if "i < nat (mid + 1)" for i
      proof
        assume "cmp_le cmp key (xs ! i)"
        moreover have "cmp_le cmp (xs ! i) ?x" using that m' by (intro le) auto
        moreover have "ok (xs ! i)" using that m' okx by auto
        ultimately have "cmp_le cmp key ?x" using cmp_trans okk okm by blast
        then show False using 2 sgn by simp
      qed
      then show ?thesis using 2 unfold m less.prems by (auto intro!: less.hyps)
    next
      case 3
      have "\<not> cmp_le cmp (xs ! i) key" if "i < length xs" "mid - 1 < int i" for i
      proof
        assume "cmp_le cmp (xs ! i) key"
        moreover have "cmp_le cmp ?x (xs ! i)" using that by (intro le) auto
        moreover have "ok (xs ! i)" using that okx by auto
        ultimately have "cmp_le cmp ?x key" using cmp_trans okk okm by blast
        then show False using 3 sgn by simp
      qed
      then show ?thesis using 3 unfold m m' less.prems by (auto intro!: less.hyps)
    qed
  qed
qed

theorem bin_search_correct:
  assumes "\<And>i. 0 \<le> i \<Longrightarrow> i < int (length xs) \<Longrightarrow> ld i = Inr (xs ! nat i)"
    and "\<forall>x \<in> set xs. ok x" "ok key" "sorted_wrt (cmp_le cmp) xs"
  shows "\<exists>r. bin_search cmp ld key 0 (int (length xs) - 1) = Inr r \<and>
     (r = - 1 \<and> (\<forall>x \<in> set xs. \<not> cmp_eq cmp key x) \<or>
      0 \<le> r \<and> r < int (length xs) \<and> cmp_eq cmp key (xs ! nat r))"
  using assms by (intro bin_search_range) auto

end

end
