(* ===== verification/Pointer_List.thy ===== *)
theory Pointer_List
  imports Comparator
begin

text \<open>
  src/src/common/pointer_list.c: the growable list of pointers on which the string lists,
  the command line and the data buffer of the assembler are built.

  A pointer is \<open>'a option\<close>, with \<open>None\<close> for NULL.  The record has the fields of
  \<open>pointer_list_t\<close>; \<open>pl_rep l xs\<close> says that \<open>l\<close> is well formed and represents the
  sequence \<open>xs\<close>.  The first part models the operations, the second proves them correct
  against list functions, the third states the two interfaces (a sequence of pointers, and
  a comparison callback under which sorting and binary search are correct) as locales.
\<close>

section \<open>Object handles\<close>

text \<open>What a pointer to a heap object can be; the destroy functions act on handles.\<close>

datatype 'o obj = Null | Live 'o | Freed

section \<open>The operations\<close>

record 'a pointer_list =
  pl_buffer :: "'a option cell list"
  pl_len :: int
  pl_cap :: int
  pl_sorted :: bool

definition normalize_index :: "'a pointer_list \<Rightarrow> int \<Rightarrow> int res" where
  "normalize_index lst idx =
     (if 0 \<le> idx \<and> idx < pl_len lst then Inr idx
      else if idx < 0
        then rbind (chk (- idx)) (\<lambda>n.
               if n < pl_len lst then chk (pl_len lst - idx) else Inr (- 1))
        else Inr (- 1))"

definition create_ptr_list :: "'a pointer_list" where
  "create_ptr_list =
     \<lparr>pl_buffer = blk_alloc 8 None, pl_len = 0, pl_cap = 8, pl_sorted = False\<rparr>"

fun destroy_ptr_list :: "'a pointer_list obj \<Rightarrow> 'a pointer_list obj res" where
  "destroy_ptr_list Null = Inr Null"
| "destroy_ptr_list (Live l) = Inr Freed"
| "destroy_ptr_list Freed = Inl Use_After_Free"

definition append_ptr_list :: "'a pointer_list \<Rightarrow> 'a option \<Rightarrow> 'a pointer_list res" where
  "append_ptr_list lst ptr =
     rbind (chk (pl_len lst + 1)) (\<lambda>n.
     rbind (if pl_cap lst < n
            then rbind (chk (2 * pl_cap lst)) (\<lambda>c.
                   Inr (lst\<lparr>pl_cap := c, pl_buffer := blk_realloc (pl_buffer lst) (nat c)\<rparr>))
            else Inr lst) (\<lambda>lst.
     rbind (store (pl_buffer lst) (pl_len lst) ptr) (\<lambda>b.
     Inr (lst\<lparr>pl_buffer := b, pl_len := n, pl_sorted := False\<rparr>))))"

definition index_ptr_list :: "'a pointer_list \<Rightarrow> int \<Rightarrow> 'a option res" where
  "index_ptr_list lst index =
     rbind (normalize_index lst index) (\<lambda>idx.
     if 0 \<le> idx then load (pl_buffer lst) idx else Inr None)"

definition push_ptr_list :: "'a pointer_list \<Rightarrow> 'a option \<Rightarrow> 'a pointer_list res" where
  "push_ptr_list lst ptr =
     rbind (append_ptr_list lst ptr) (\<lambda>lst. Inr (lst\<lparr>pl_sorted := False\<rparr>))"

definition pop_ptr_list :: "'a pointer_list \<Rightarrow> ('a option \<times> 'a pointer_list) res" where
  "pop_ptr_list lst =
     (if 0 < pl_len lst
      then rbind (load (pl_buffer lst) (pl_len lst - 1)) (\<lambda>ptr.
             Inr (ptr, lst\<lparr>pl_len := pl_len lst - 1\<rparr>))
      else Inr (None, lst))"

definition peek_ptr_list :: "'a pointer_list \<Rightarrow> 'a option res" where
  "peek_ptr_list lst =
     (if 0 < pl_len lst then load (pl_buffer lst) (pl_len lst - 1) else Inr None)"

definition iterate_ptr_list ::
  "'a pointer_list option \<Rightarrow> int \<Rightarrow> ('a option \<times> int) res" where
  "iterate_ptr_list l post =
     (case l of None \<Rightarrow> Inr (None, post)
      | Some lst \<Rightarrow>
          (if 0 \<le> post \<and> post < pl_len lst
           then rbind (load (pl_buffer lst) post) (\<lambda>ptr. Inr (ptr, post + 1))
           else Inr (None, post)))"

definition len_ptr_list :: "'a pointer_list \<Rightarrow> int" where
  "len_ptr_list lst = pl_len lst"

text \<open>
  The loop \<open>while(NULL != (item = iterate_ptr_list(lst, &mark))) body\<close>, which the callers
  write out everywhere.  The body returns whether it breaks out; the loop returns the final
  state, the value \<open>item\<close> has afterwards and the final mark.
\<close>

function iter_while ::
  "('a \<Rightarrow> 's \<Rightarrow> (bool \<times> 's) res) \<Rightarrow> 'a pointer_list option \<Rightarrow> int \<Rightarrow> 's \<Rightarrow> ('s \<times> 'a option \<times> int) res"
where
  "iter_while body l mark s =
     rbind (iterate_ptr_list l mark) (\<lambda>(p, mark').
     case p of None \<Rightarrow> Inr (s, None, mark')
     | Some item \<Rightarrow>
         rbind (body item s) (\<lambda>(brk, s').
         if brk then Inr (s', Some item, mark') else iter_while body l mark' s'))"
  by pat_completeness auto
termination
  by (relation "measure (\<lambda>(body, l, mark, s). case l of None \<Rightarrow> 0 | Some lst \<Rightarrow> nat (pl_len lst - mark))")
     (auto simp: iterate_ptr_list_def rbind_eq_Inr split: option.splits if_splits)

declare iter_while.simps [simp del]

text \<open>
  Bubble sort.  The body of the inner loop compares the neighbours at \<open>i\<close> and \<open>i + 1\<close> and
  exchanges them when the callback returns a positive number.
\<close>

definition sort_step ::
  "('a option \<Rightarrow> 'a option \<Rightarrow> int res) \<Rightarrow> int \<Rightarrow> 'a option cell list \<Rightarrow> 'a option cell list res"
where
  "sort_step cmp i b =
     rbind (load b i) (\<lambda>x.
     rbind (load b (i + 1)) (\<lambda>y.
     rbind (cmp x y) (\<lambda>c.
     if 0 < c then rbind (store b i y) (\<lambda>b. store b (i + 1) x) else Inr b)))"

definition sort_ptr_list ::
  "'a pointer_list \<Rightarrow> ('a option \<Rightarrow> 'a option \<Rightarrow> int res) \<Rightarrow> 'a pointer_list res" where
  "sort_ptr_list lst comp_func =
     rbind (for_loop (\<lambda>step. for_loop (sort_step comp_func) 0 (pl_len lst - step - 1))
              0 (pl_len lst - 1) (pl_buffer lst)) (\<lambda>b.
     Inr (lst\<lparr>pl_buffer := b, pl_sorted := True\<rparr>))"

definition find_ptr_list_idx ::
  "'a pointer_list \<Rightarrow> 'a option \<Rightarrow> ('a option \<Rightarrow> 'a option \<Rightarrow> int res) \<Rightarrow> int res" where
  "find_ptr_list_idx lst key comp_func =
     (if \<not> pl_sorted lst then Inr (- 1)
      else bin_search comp_func (load (pl_buffer lst)) key 0 (pl_len lst - 1))"

definition find_ptr_list ::
  "'a pointer_list \<Rightarrow> 'a option \<Rightarrow> ('a option \<Rightarrow> 'a option \<Rightarrow> int res) \<Rightarrow> 'a option res" where
  "find_ptr_list lst key comp_func =
     rbind (find_ptr_list_idx lst key comp_func) (\<lambda>idx.
     if 0 \<le> idx then index_ptr_list lst idx else Inr None)"

definition copy_ptr_list :: "'a pointer_list \<Rightarrow> 'a pointer_list res" where
  "copy_ptr_list lst =
     for_loop (\<lambda>i ptr. rbind (load (pl_buffer lst) i) (append_ptr_list ptr))
       0 (pl_len lst) create_ptr_list"

section \<open>Representation\<close>

definition pl_rep :: "'a pointer_list \<Rightarrow> 'a option list \<Rightarrow> bool" where
  "pl_rep l xs \<longleftrightarrow>
     pl_len l = int (length xs) \<and> pl_cap l = int (length (pl_buffer l)) \<and>
     cap_ok (pl_cap l) \<and> holds (pl_buffer l) xs"

lemma pl_repD:
  assumes "pl_rep l xs"
  shows "pl_len l = int (length xs)" "pl_cap l = int (length (pl_buffer l))"
    "cap_ok (pl_cap l)" "holds (pl_buffer l) xs" "int (length xs) \<le> pl_cap l"
    "pl_cap l \<le> 2 ^ 30"
  using assms holds_length cap_ok_bounds by (fastforce simp: pl_rep_def)+

lemma pl_rep_unique: "pl_rep l xs \<Longrightarrow> pl_rep l ys \<Longrightarrow> xs = ys"
  by (auto simp: pl_rep_def intro: holds_inj)

lemma pl_rep_load:
  "pl_rep l xs \<Longrightarrow> 0 \<le> i \<Longrightarrow> i < int (length xs) \<Longrightarrow> load (pl_buffer l) i = Inr (xs ! nat i)"
  by (auto simp: pl_rep_def intro!: load_holds)

lemma create_ptr_list_rep: "pl_rep create_ptr_list []"
  by (simp add: pl_rep_def create_ptr_list_def)

lemma append_ptr_list_rep:
  assumes l: "pl_rep l xs" and n: "length xs < 2 ^ 30"
  shows "\<exists>l'. append_ptr_list l p = Inr l' \<and> pl_rep l' (xs @ [p]) \<and> \<not> pl_sorted l'"
proof -
  note r = pl_repD [OF l]
  show ?thesis
  proof (cases "pl_cap l < int (length xs) + 1")
    case True
    then have full: "pl_cap l = int (length xs)" using r(5) by simp
    then have "cap_ok (2 * pl_cap l)" using r(3) n by (intro cap_ok_double) auto
    moreover have "nat (2 * int (length xs)) = 2 * length xs" by simp
    ultimately show ?thesis
      using r full n cap_ok_bounds [OF r(3)]
      by (auto simp: append_ptr_list_def pl_rep_def store_def intro!: holds_snoc holds_realloc)
  next
    case False
    then show ?thesis
      using r n by (auto simp: append_ptr_list_def pl_rep_def store_def intro!: holds_snoc)
  qed
qed

lemma append_ptr_list_full:
  "pl_rep l xs \<Longrightarrow> length xs = 2 ^ 30 \<Longrightarrow> append_ptr_list l p = Inl Int_Overflow"
  using pl_repD [of l xs] by (auto simp: append_ptr_list_def)

lemma append_ptr_list_Inr:
  assumes "pl_rep l xs" "append_ptr_list l p = Inr l'"
  shows "pl_rep l' (xs @ [p])"
proof -
  have "length xs \<le> 2 ^ 30" using pl_repD(5,6) [OF assms(1)] by simp
  moreover have "length xs \<noteq> 2 ^ 30" using append_ptr_list_full [OF assms(1)] assms(2) by auto
  ultimately have "length xs < 2 ^ 30" by simp
  from append_ptr_list_rep [OF assms(1) this, of p] assms(2) show ?thesis by auto
qed

lemma push_ptr_list_rep:
  "pl_rep l xs \<Longrightarrow> length xs < 2 ^ 30 \<Longrightarrow>
   \<exists>l'. push_ptr_list l p = Inr l' \<and> pl_rep l' (xs @ [p])"
  using append_ptr_list_rep [of l xs p] by (auto simp: push_ptr_list_def pl_rep_def)

lemma normalize_index_nonneg:
  "pl_rep l xs \<Longrightarrow> 0 \<le> i \<Longrightarrow>
   normalize_index l i = Inr (if i < int (length xs) then i else - 1)"
  by (auto simp: normalize_index_def pl_rep_def)

lemma index_ptr_list_rep:
  "pl_rep l xs \<Longrightarrow> 0 \<le> i \<Longrightarrow>
   index_ptr_list l i = Inr (if i < int (length xs) then xs ! nat i else None)"
  by (auto simp: index_ptr_list_def normalize_index_nonneg pl_rep_load)

lemma pop_ptr_list_rep:
  "pl_rep l xs \<Longrightarrow> xs \<noteq> [] \<Longrightarrow>
   \<exists>l'. pop_ptr_list l = Inr (last xs, l') \<and> pl_rep l' (butlast xs)"
  using pl_rep_load [of l xs "pl_len l - 1"]
  by (auto simp: pop_ptr_list_def pl_rep_def last_conv_nth nat_diff_distrib' holds_butlast
        of_nat_diff Suc_leI)

lemma pop_ptr_list_empty: "pl_rep l [] \<Longrightarrow> pop_ptr_list l = Inr (None, l)"
  by (simp add: pop_ptr_list_def pl_rep_def)

lemma peek_ptr_list_rep:
  "pl_rep l xs \<Longrightarrow> peek_ptr_list l = Inr (if xs = [] then None else last xs)"
  using pl_rep_load [of l xs "pl_len l - 1"]
  by (auto simp: peek_ptr_list_def pl_rep_def last_conv_nth nat_diff_distrib')

lemma iterate_ptr_list_rep:
  "pl_rep l xs \<Longrightarrow> 0 \<le> m \<Longrightarrow>
   iterate_ptr_list (Some l) m =
     Inr (if m < int (length xs) then (xs ! nat m, m + 1) else (None, m))"
  by (auto simp: iterate_ptr_list_def pl_rep_load pl_repD(1))

section \<open>Loops over a list\<close>

text \<open>
  What \<open>iter_while\<close> does to the represented sequence: it stops at the end, at the first
  NULL, or when the body breaks out.
\<close>

fun loop_list ::
  "('a \<Rightarrow> 's \<Rightarrow> (bool \<times> 's) res) \<Rightarrow> 'a option list \<Rightarrow> int \<Rightarrow> 's \<Rightarrow> ('s \<times> 'a option \<times> int) res"
where
  "loop_list body [] m s = Inr (s, None, m)"
| "loop_list body (None # xs) m s = Inr (s, None, m + 1)"
| "loop_list body (Some x # xs) m s =
     rbind (body x s) (\<lambda>(brk, s').
     if brk then Inr (s', Some x, m + 1) else loop_list body xs (m + 1) s')"

lemma iter_while_rep:
  "pl_rep l xs \<Longrightarrow> m \<le> length xs \<Longrightarrow>
   iter_while body (Some l) (int m) s = loop_list body (drop m xs) (int m) s"
proof (induction "length xs - m" arbitrary: m s)
  case 0
  then show ?case by (simp add: iter_while.simps iterate_ptr_list_rep)
next
  case (Suc n)
  then have m: "m < length xs" by simp
  have IH: "iter_while body (Some l) (int m + 1) s' = loop_list body (drop (Suc m) xs) (int m + 1) s'"
    for s' using Suc.hyps(1) [of "Suc m" s'] Suc.hyps(2) Suc.prems m by (simp add: add.commute)
  have "drop m xs = xs ! m # drop (Suc m) xs" using m by (simp add: Cons_nth_drop_Suc)
  then show ?case
    using m IH Suc.prems
    by (cases "xs ! m")
       (auto simp: iter_while.simps [of body "Some l"] iterate_ptr_list_rep
          intro!: arg_cong2 [where f = rbind])
qed

lemma iter_while_NULL [simp]: "iter_while body None m s = Inr (s, None, m)"
  by (simp add: iter_while.simps iterate_ptr_list_def)

text \<open>Searching loops: the body only tests.\<close>

lemma loop_list_find:
  assumes "\<And>x s. Some x \<in> set xs \<Longrightarrow> body x s = Inr (P x, s)" and "None \<notin> set xs"
  shows "loop_list body xs m s =
    Inr (s, find P (map the xs), m + int (length (takeWhile (\<lambda>x. \<not> P (the x)) xs)) +
          (if \<exists>x \<in> set xs. P (the x) then 1 else 0))"
  using assms
proof (induction xs arbitrary: m)
  case (Cons x xs)
  then obtain y where "x = Some y" by (cases x) auto
  then show ?case using Cons by auto
qed simp

section \<open>Sorting and searching\<close>

lemma sort_step_rep:
  assumes "comparator cmp ok" "holds b ys" "\<forall>y \<in> set ys. ok y" "0 \<le> i" "i + 1 < int (length ys)"
  shows "\<exists>b'. sort_step cmp i b = Inr b' \<and> length b' = length b \<and> holds b' (cswap cmp ys (nat i))"
proof -
  have i: "Suc (nat i) < length ys" "nat (i + 1) = Suc (nat i)" using assms by auto
  have len: "length ys \<le> length b" using assms(2) by (rule holds_length)
  obtain c where c: "cmp (ys ! nat i) (ys ! Suc (nat i)) = Inr c"
    using comparator.cmp_total [OF assms(1)] assms(3) i by (meson Suc_lessD nth_mem)
  have "load b i = Inr (ys ! nat i)" "load b (i + 1) = Inr (ys ! Suc (nat i))"
    using load_holds [OF assms(2)] assms(4) i by auto
  then show ?thesis
    using assms c i len by (auto simp: sort_step_def cswap_def cmp_le_def store_def intro!: holds_upd)
qed

lemma sort_ptr_list_rep:
  assumes cmp: "comparator cmp ok" and l: "pl_rep l xs" and ok: "\<forall>x \<in> set xs. ok x"
  shows "\<exists>l' ys. sort_ptr_list l cmp = Inr l' \<and> pl_rep l' ys \<and> pl_sorted l' \<and>
     mset ys = mset xs \<and> sorted_wrt (cmp_le cmp) ys"
proof -
  let ?R = "\<lambda>b ys. holds b ys \<and> length b = length (pl_buffer l)"
  have "\<exists>b ys. for_loop (\<lambda>step. for_loop (sort_step cmp) 0 (pl_len l - step - 1)) 0 (pl_len l - 1)
      (pl_buffer l) = Inr b \<and> ?R b ys \<and> mset ys = mset xs \<and> sorted_wrt (cmp_le cmp) ys"
  proof (rule comparator.bubble_sort_correct [OF cmp])
    show "?R (pl_buffer l) xs" using l by (simp add: pl_rep_def)
    show "pl_len l = int (length xs)" using l by (simp add: pl_rep_def)
    show "\<forall>x \<in> set xs. ok x" by (rule ok)
  next
    fix i st ys
    assume "?R st ys" "\<forall>y \<in> set ys. ok y" "0 \<le> i" "i + 1 < int (length ys)"
    then show "\<exists>st'. sort_step cmp i st = Inr st' \<and> ?R st' (cswap cmp ys (nat i))"
      using sort_step_rep [OF cmp, of st ys i] by auto
  qed
  then obtain b ys where b: "for_loop (\<lambda>step. for_loop (sort_step cmp) 0 (pl_len l - step - 1)) 0
      (pl_len l - 1) (pl_buffer l) = Inr b" "?R b ys" "mset ys = mset xs"
      "sorted_wrt (cmp_le cmp) ys" by blast
  have "length ys = length xs" using b(3) by (metis size_mset)
  then have "pl_rep (l\<lparr>pl_buffer := b, pl_sorted := True\<rparr>) ys" using b l by (auto simp: pl_rep_def)
  then show ?thesis using b by (auto simp: sort_ptr_list_def)
qed

lemma find_ptr_list_idx_unsorted: "\<not> pl_sorted l \<Longrightarrow> find_ptr_list_idx l key cmp = Inr (- 1)"
  by (simp add: find_ptr_list_idx_def)

lemma find_ptr_list_idx_rep:
  assumes cmp: "comparator cmp ok" and l: "pl_rep l xs" "pl_sorted l"
    and ok: "\<forall>x \<in> set xs. ok x" "ok key" and srt: "sorted_wrt (cmp_le cmp) xs"
  shows "\<exists>r. find_ptr_list_idx l key cmp = Inr r \<and>
     (r = - 1 \<and> (\<forall>x \<in> set xs. \<not> cmp_eq cmp key x) \<or>
      0 \<le> r \<and> r < int (length xs) \<and> cmp_eq cmp key (xs ! nat r))"
proof -
  have "load (pl_buffer l) i = Inr (xs ! nat i)" if "0 \<le> i" "i < int (length xs)" for i
    using l that by (intro pl_rep_load)
  from comparator.bin_search_correct [OF cmp this ok srt] show ?thesis
    using l by (simp add: find_ptr_list_idx_def pl_repD(1))
qed

lemma copy_ptr_list_rep:
  assumes l: "pl_rep l xs"
  shows "\<exists>l'. copy_ptr_list l = Inr l' \<and> pl_rep l' xs"
proof -
  let ?P = "\<lambda>i l'. pl_rep l' (take (nat i) xs)"
  have len: "pl_len l = int (length xs)" "length xs \<le> 2 ^ 30" using pl_repD [OF l] by auto
  have "\<exists>t. copy_ptr_list l = Inr t \<and> ?P (pl_len l) t"
    unfolding copy_ptr_list_def
  proof (rule for_loop_rule)
    show "0 \<le> pl_len l" "?P 0 create_ptr_list" by (simp_all add: len create_ptr_list_rep)
  next
    fix i t
    assume i: "0 \<le> i" "i < pl_len l" and P: "?P i t"
    then have i': "nat i < length xs" "nat (i + 1) = Suc (nat i)" using len by auto
    have "length (take (nat i) xs) < 2 ^ 30" using i' len(2) by simp
    from append_ptr_list_rep [OF P this, of "xs ! nat i"] i' i len
    show "\<exists>t'. rbind (load (pl_buffer l) i) (append_ptr_list t) = Inr t' \<and> ?P (i + 1) t'"
      by (auto simp: pl_rep_load [OF l] take_Suc_conv_app_nth)
  qed
  then show ?thesis by (simp add: len)
qed

section \<open>The interface the clients use\<close>

text \<open>
  What the string lists, the command line and the data buffer rely on: a sequence that grows
  at the end, is read by non-negative index and is walked with a mark.
\<close>

locale ptr_seq =
  fixes rep :: "'l \<Rightarrow> 'a option list \<Rightarrow> bool"
    and new :: 'l
    and app :: "'l \<Rightarrow> 'a option \<Rightarrow> 'l res"
    and idx :: "'l \<Rightarrow> int \<Rightarrow> 'a option res"
    and size_of :: "'l \<Rightarrow> int"
  assumes new_rep: "rep new []"
    and app_rep: "rep l xs \<Longrightarrow> length xs < 2 ^ 30 \<Longrightarrow> \<exists>l'. app l p = Inr l' \<and> rep l' (xs @ [p])"
    and idx_rep: "rep l xs \<Longrightarrow> 0 \<le> i \<Longrightarrow>
      idx l i = Inr (if i < int (length xs) then xs ! nat i else None)"
    and size_rep: "rep l xs \<Longrightarrow> size_of l = int (length xs)"
begin

text \<open>Appending hands out the next index, at which the new element is then found.\<close>

lemma app_hands_out_index:
  assumes "rep l xs" "length xs < 2 ^ 30"
  shows "\<exists>l'. app l p = Inr l' \<and> rep l' (xs @ [p]) \<and> size_of l' - 1 = int (length xs) \<and>
    idx l' (size_of l' - 1) = Inr p"
proof -
  obtain l' where l': "app l p = Inr l'" "rep l' (xs @ [p])" using app_rep assms by blast
  then have "size_of l' = int (length xs) + 1" by (simp add: size_rep)
  then show ?thesis using l' idx_rep [OF l'(2), of "int (length xs)"] by auto
qed

lemma app_keeps_indices:
  assumes "rep l xs" "length xs < 2 ^ 30" "app l p = Inr l'" "0 \<le> i" "i < size_of l"
  shows "idx l' i = idx l i"
proof -
  have "rep l' (xs @ [p])" using app_rep [OF assms(1,2), of p] assms(3) by auto
  moreover have "i < int (length xs)" using assms by (simp add: size_rep)
  ultimately show ?thesis using assms by (simp add: idx_rep nth_append nat_less_iff)
qed

text \<open>A sequence of appends, as the callers make them.\<close>

fun app_all :: "'l \<Rightarrow> 'a option list \<Rightarrow> 'l res" where
  "app_all l [] = Inr l"
| "app_all l (p # ps) = rbind (app l p) (\<lambda>l. app_all l ps)"

lemma app_all_rep:
  "rep l xs \<Longrightarrow> length xs + length ps \<le> 2 ^ 30 \<Longrightarrow> \<exists>l'. app_all l ps = Inr l' \<and> rep l' (xs @ ps)"
proof (induction ps arbitrary: l xs)
  case (Cons p ps)
  then obtain l' where "app l p = Inr l'" "rep l' (xs @ [p])"
    using app_rep [of l xs p] by auto
  then show ?case using Cons.IH [of l' "xs @ [p]"] Cons.prems by auto
qed simp

end

interpretation pl: ptr_seq pl_rep create_ptr_list append_ptr_list index_ptr_list len_ptr_list
proof unfold_locales
  show "pl_rep create_ptr_list []" by (rule create_ptr_list_rep)
next
  fix l :: "'a pointer_list" and xs p
  assume "pl_rep l xs" "length xs < 2 ^ 30"
  then show "\<exists>l'. append_ptr_list l p = Inr l' \<and> pl_rep l' (xs @ [p])"
    using append_ptr_list_rep by blast
next
  fix l :: "'a pointer_list" and xs i
  assume "pl_rep l xs" "0 \<le> (i :: int)"
  then show "index_ptr_list l i = Inr (if i < int (length xs) then xs ! nat i else None)"
    by (rule index_ptr_list_rep)
next
  fix l :: "'a pointer_list" and xs
  assume "pl_rep l xs"
  then show "len_ptr_list l = int (length xs)" by (simp add: len_ptr_list_def pl_repD(1))
qed

section \<open>Properties\<close>

text \<open>push_ptr_list and pop_ptr_list behave as a stack: after a push on a list that holds
  \<open>xs\<close> (with fewer than 2^30 elements), a pop returns exactly the pushed pointer and leaves
  a well-formed list that holds \<open>xs\<close> again, also when the push had to grow the buffer.\<close>

theorem push_pop_roundtrip:
  assumes "pl_rep l xs" "length xs < 2 ^ 30"
  shows "\<exists>l1 l2. push_ptr_list l p = Inr l1 \<and> peek_ptr_list l1 = Inr p \<and>
    pop_ptr_list l1 = Inr (p, l2) \<and> pl_rep l2 xs"
proof -
  obtain l1 where l1: "push_ptr_list l p = Inr l1" "pl_rep l1 (xs @ [p])"
    using push_ptr_list_rep assms by blast
  then show ?thesis using pop_ptr_list_rep [OF l1(2)] by (auto simp: peek_ptr_list_rep)
qed

theorem push_pop_roundtrip_witness:
  "\<exists>l1 l2. push_ptr_list create_ptr_list (Some (7 :: nat)) = Inr l1 \<and>
    peek_ptr_list l1 = Inr (Some 7) \<and> pop_ptr_list l1 = Inr (Some 7, l2) \<and> pl_rep l2 []"
  by (rule push_pop_roundtrip [OF create_ptr_list_rep]) simp

text \<open>pointer_list.c says that an index below zero counts from the end of the list.  It never
  does: for every negative index that normalize_index accepts, the index it computes is
  \<open>len - index\<close>, which lies beyond the last element, so index_ptr_list reads a slot that is
  not part of the list (stale, never written or outside the block).\<close>

theorem negative_index_misses_list:
  assumes "pl_rep l xs" "i < 0" "- i < int (length xs)"
  shows "normalize_index l i = Inr (int (length xs) - i) \<and> int (length xs) < int (length xs) - i \<and>
    index_ptr_list l i = load (pl_buffer l) (int (length xs) - i)"
proof -
  have "int (length xs) \<le> 2 ^ 30" using pl_repD(5,6) [OF assms(1)] by simp
  then have "normalize_index l i = Inr (int (length xs) - i)"
    using assms by (simp add: normalize_index_def pl_repD(1))
  then show ?thesis using assms by (simp add: index_ptr_list_def)
qed

text \<open>The witness is a full list of eight elements: reading index -1 leaves the block.\<close>

theorem negative_index_misses_list_witness:
  "index_ptr_list \<lparr>pl_buffer = blk_alloc 8 (Some (1 :: nat)), pl_len = 8, pl_cap = 8,
     pl_sorted = False\<rparr> (- 1) = Inl Out_Of_Bounds"
proof -
  let ?l = "\<lparr>pl_buffer = blk_alloc 8 (Some (1 :: nat)), pl_len = 8, pl_cap = 8, pl_sorted = False\<rparr>"
  have "pl_rep ?l (replicate 8 (Some 1))"
    by (auto simp: pl_rep_def intro!: holds_alloc)
  from negative_index_misses_list [OF this, of "- 1"] show ?thesis by simp
qed

text \<open>The loop \<open>while(NULL != (item = iterate_ptr_list(lst, &mark)))\<close> started at mark 0
  runs its body on the elements of the list in order, once each, until the body breaks out,
  the first NULL element, or the end of the list.\<close>

theorem iterate_visits_in_order:
  assumes "pl_rep l xs"
  shows "iter_while body (Some l) 0 s = loop_list body xs 0 s"
  using iter_while_rep [OF assms, of 0 body s] by simp

theorem iterate_visits_in_order_witness:
  "iter_while (\<lambda>x s. Inr (False, s @ [x])) (Some (create_ptr_list :: nat pointer_list)) 0 [] =
     Inr ([], None, 0)"
  by (simp add: iterate_visits_in_order [OF create_ptr_list_rep])

end
