(* ===== verification/Hash_Table.thy ===== *)
theory Hash_Table
  imports C_String Pointer_List
begin

text \<open>
  src/src/common/hash.c: the open-addressing hash table under the symbol table of the assembler.

  A bucket is a pointer to a node (\<open>None\<close> for NULL); a node whose key is NULL is a tombstone.
  Hashes are 32-bit words and the fields of \<open>hash_table_t\<close> have type int.  The search for a
  slot is a loop that nothing in the code bounds, so it is a \<open>partial_function\<close>: its value is
  \<open>None\<close> when the loop runs for ever, which the operations turn into the error \<open>No_Return\<close>.
  \<open>ht_inv\<close> is the invariant of a table from which nothing was removed, under which the loop
  ends and the table implements a map (the locale \<open>name_table\<close>, which Symbols builds on);
  the last part says what removing does.
\<close>

section \<open>The operations\<close>

datatype 'v hash_node = Node (nd_key: "string option") (nd_data: 'v)

type_synonym 'v buckets = "'v hash_node option list"

record 'v hash_table =
  ht_table :: "'v buckets"
  ht_cap :: int
  ht_count :: int
  ht_tombstones :: int

definition hash_func :: "string \<Rightarrow> 32 word" where
  "hash_func key =
     foldl (\<lambda>hash c. (hash XOR word_of_nat (code c)) * 16777619) 2166136261 key"

text \<open>
  One run of the inner loop of find_slot: \<open>n\<close> more buckets, starting at \<open>hash\<close>.  \<open>Hit s b\<close> is
  the return of slot \<open>s\<close>, with \<open>b\<close> set when it is a tombstone; \<open>Miss h\<close> is the end of the
  loop with the variable \<open>hash\<close> at \<open>h\<close>.
\<close>

datatype probe_result = Hit "32 word" bool | Miss "32 word"

fun probe ::
  "'v buckets \<Rightarrow> 32 word \<Rightarrow> string \<Rightarrow> 32 word \<Rightarrow> 32 word \<Rightarrow> nat \<Rightarrow> probe_result res"
where
  "probe t msk key hash inc 0 = Inr (Miss hash)"
| "probe t msk key hash inc (Suc n) =
     (if unat hash < length t
      then case t ! unat hash of
             None \<Rightarrow> Inr (Hit hash False)
           | Some nd \<Rightarrow>
               (case nd_key nd of
                  None \<Rightarrow> Inr (Hit hash True)
                | Some k \<Rightarrow>
                    if c_strcmp k key = 0 then Inr (Hit hash False)
                    else probe t msk key ((hash + inc) AND msk) inc n)
      else Inl Out_Of_Bounds)"

text \<open>The outer loop \<open>do { ...; inc = 1; } while(true)\<close>.\<close>

partial_function (option) find_loop ::
  "'v buckets \<Rightarrow> 32 word \<Rightarrow> string \<Rightarrow> 32 word \<Rightarrow> 32 word \<Rightarrow> nat \<Rightarrow> (32 word \<times> bool) res option"
where
  "find_loop t msk key hash inc cap =
     (case probe t msk key hash inc cap of
        Inl e \<Rightarrow> Some (Inl e)
      | Inr r \<Rightarrow>
          (case r of
             Hit s b \<Rightarrow> Some (Inr (s, b))
           | Miss h \<Rightarrow> find_loop t msk key h 1 cap))"

declare find_loop.simps [code]

definition seek :: "'v buckets \<Rightarrow> int \<Rightarrow> string \<Rightarrow> (32 word \<times> bool) res" where
  "seek t cap key =
     (let msk = word_of_int (cap - 1);
          hash = hash_func key AND msk;
          inc = (if hash AND 15 = 0 then 1 else hash AND 15)
      in if unat hash < length t
         then if t ! unat hash = None then Inr (hash, False)
              else case find_loop t msk key hash inc (nat cap) of
                     None \<Rightarrow> Inl No_Return | Some r \<Rightarrow> r
         else Inl Out_Of_Bounds)"

definition find_slot :: "'v hash_table \<Rightarrow> string \<Rightarrow> (nat \<times> 'v hash_table) res" where
  "find_slot tab key =
     rbind (seek (ht_table tab) (ht_cap tab) key) (\<lambda>(s, tomb).
     if tomb
     then rbind (chk (ht_tombstones tab - 1)) (\<lambda>n.
          Inr (unat s, tab\<lparr>ht_tombstones := n\<rparr>))
     else Inr (unat s, tab))"

text \<open>The loop of rehash_table over the old buckets.\<close>

fun rehash_into :: "'v buckets \<Rightarrow> 'v hash_table \<Rightarrow> 'v hash_table res" where
  "rehash_into [] tab = Inr tab"
| "rehash_into (None # bs) tab = rehash_into bs tab"
| "rehash_into (Some nd # bs) tab =
     (case nd_key nd of
        None \<Rightarrow> rehash_into bs tab
      | Some k \<Rightarrow>
          rbind (find_slot tab k) (\<lambda>(slot, tab).
          rbind (chk (ht_count tab + 1)) (\<lambda>n.
          rehash_into bs (tab\<lparr>ht_table := (ht_table tab)[slot := Some nd], ht_count := n\<rparr>))))"

text \<open>
  The test \<open>tab->count * 1.75 >= tab->cap\<close> is computed in double, which represents every int
  and both products exactly.
\<close>

definition rehash_table :: "'v hash_table \<Rightarrow> 'v hash_table res" where
  "rehash_table tab =
     (if 4 * ht_cap tab \<le> 7 * ht_count tab
      then rbind (chk (2 * ht_cap tab)) (\<lambda>cap.
           rehash_into (ht_table tab)
             (tab\<lparr>ht_cap := cap, ht_tombstones := 0, ht_count := 0,
                  ht_table := replicate (nat cap) None\<rparr>))
      else Inr tab)"

definition create_hashtable :: "'v hash_table" where
  "create_hashtable =
     \<lparr>ht_table = replicate 4 None, ht_cap = 4, ht_count = 0, ht_tombstones = 0\<rparr>"

fun destroy_hashtable :: "'v hash_table obj \<Rightarrow> 'v hash_table obj res" where
  "destroy_hashtable Null = Inr Null"
| "destroy_hashtable (Live t) = Inr Freed"
| "destroy_hashtable Freed = Inl Use_After_Free"

definition insert_hashtable ::
  "'v hash_table \<Rightarrow> string \<Rightarrow> 'v \<Rightarrow> (int \<times> 'v hash_table) res" where
  "insert_hashtable tab key data =
     rbind (rehash_table tab) (\<lambda>tab.
     rbind (find_slot tab key) (\<lambda>(slot, tab).
     if ht_table tab ! slot \<noteq> None \<and> nd_key (the (ht_table tab ! slot)) \<noteq> None
     then Inr (0, tab)
     else rbind (chk (ht_count tab + 1)) (\<lambda>n.
          Inr (1, tab\<lparr>ht_table := (ht_table tab)[slot := Some (Node (Some key) data)],
                      ht_count := n\<rparr>))))"

definition find_hashtable ::
  "'v hash_table \<Rightarrow> string \<Rightarrow> (int \<times> 'v option \<times> 'v hash_table) res" where
  "find_hashtable tab key =
     rbind (find_slot tab key) (\<lambda>(slot, tab).
     case ht_table tab ! slot of
       None \<Rightarrow> Inr (0, None, tab)
     | Some nd \<Rightarrow>
         (case nd_key nd of
            None \<Rightarrow> Inr (0, None, tab)
          | Some k \<Rightarrow>
              if c_strcmp k key = 0 then Inr (1, Some (nd_data nd), tab) else Inr (0, None, tab)))"

definition remove_hashtable :: "'v hash_table \<Rightarrow> string \<Rightarrow> 'v hash_table res" where
  "remove_hashtable tab key =
     rbind (find_slot tab key) (\<lambda>(slot, tab).
     case ht_table tab ! slot of
       None \<Rightarrow> Inr tab
     | Some nd \<Rightarrow>
         (case nd_key nd of
            None \<Rightarrow> Inr tab
          | Some k \<Rightarrow>
              if c_strcmp k key = 0
              then rbind (chk (ht_count tab - 1)) (\<lambda>c.
                   rbind (chk (ht_tombstones tab + 1)) (\<lambda>n.
                   Inr (tab\<lparr>ht_table := (ht_table tab)[slot := Some (Node None (nd_data nd))],
                            ht_count := c, ht_tombstones := n\<rparr>)))
              else Inr tab))"

definition hash_name_exists :: "'v hash_table \<Rightarrow> string \<Rightarrow> (int \<times> 'v hash_table) res" where
  "hash_name_exists tab key =
     rbind (find_slot tab key) (\<lambda>(slot, tab).
     case ht_table tab ! slot of
       None \<Rightarrow> Inr (0, tab)
     | Some nd \<Rightarrow>
         (case nd_key nd of
            None \<Rightarrow> Inr (0, tab)
          | Some k \<Rightarrow> if c_strcmp k key = 0 then Inr (1, tab) else Inr (0, tab)))"

text \<open>The lines dump_hashtable prints: running number, slot and key.\<close>

fun dump_buckets :: "'v buckets \<Rightarrow> int \<Rightarrow> int \<Rightarrow> (int \<times> int \<times> string) list" where
  "dump_buckets [] i no = []"
| "dump_buckets (None # bs) i no = dump_buckets bs (i + 1) no"
| "dump_buckets (Some nd # bs) i no =
     (case nd_key nd of
        None \<Rightarrow> dump_buckets bs (i + 1) no
      | Some k \<Rightarrow> (no, i, k) # dump_buckets bs (i + 1) (no + 1))"

definition dump_hashtable :: "'v hash_table \<Rightarrow> int \<times> int \<times> (int \<times> int \<times> string) list" where
  "dump_hashtable tab = (ht_cap tab, ht_count tab, dump_buckets (ht_table tab) 0 1)"

section \<open>The probe sequence\<close>

definition key_of :: "'v hash_node option \<Rightarrow> string option" where
  "key_of b = (case b of None \<Rightarrow> None | Some nd \<Rightarrow> nd_key nd)"

text \<open>A bucket at which the search for \<open>key\<close> stops.\<close>

definition stops :: "string \<Rightarrow> 'v hash_node option \<Rightarrow> bool" where
  "stops key b \<longleftrightarrow> key_of b = None \<or> key_of b = Some key"

definition tomb :: "'v hash_node option \<Rightarrow> bool" where
  "tomb b \<longleftrightarrow> b \<noteq> None \<and> key_of b = None"

lemma probe_Suc:
  "probe t msk key h inc (Suc n) =
     (if unat h < length t
      then if stops key (t ! unat h) then Inr (Hit h (tomb (t ! unat h)))
           else probe t msk key ((h + inc) AND msk) inc n
      else Inl Out_Of_Bounds)"
  by (auto simp: stops_def tomb_def key_of_def split: option.splits)

declare probe.simps(2) [simp del]

definition hmask :: "nat \<Rightarrow> 32 word" where
  "hmask k = word_of_int (2 ^ k - 1)"

lemma unat_hmask: "k \<le> 30 \<Longrightarrow> unat (x AND hmask k) = unat x mod 2 ^ k"
proof -
  have m: "hmask k = mask k" by (simp add: hmask_def mask_eq_exp_minus_1)
  have "unat (take_bit k x) = take_bit k (unat x)" by (rule unsigned_take_bit_eq)
  then show ?thesis by (simp add: m take_bit_eq_mask [symmetric] take_bit_eq_mod)
qed

lemma unat_hmask_less: "k \<le> 30 \<Longrightarrow> unat (x AND hmask k) < 2 ^ k"
  by (simp add: unat_hmask)

text \<open>The slots a pass visits.\<close>

definition walk :: "32 word \<Rightarrow> 32 word \<Rightarrow> nat \<Rightarrow> 32 word \<Rightarrow> 32 word" where
  "walk msk inc i h = ((\<lambda>h. (h + inc) AND msk) ^^ i) h"

lemma walk_0 [simp]: "walk msk inc 0 h = h"
  by (simp add: walk_def)

lemma walk_Suc: "walk msk inc (Suc i) h = walk msk inc i ((h + inc) AND msk)"
  unfolding walk_def by (simp only: funpow_Suc_right o_apply)

lemma unat_walk_1:
  assumes "k \<le> 30" "unat h < 2 ^ k"
  shows "unat (walk (hmask k) 1 i h) = (unat h + i) mod 2 ^ k"
  using assms(2)
proof (induction i arbitrary: h)
  case (Suc i)
  have "(2::nat) ^ k \<le> 2 ^ 30" using assms(1) by (intro power_increasing) auto
  then have "unat (h + 1) = unat h + 1"
    using Suc.prems by (simp add: unat_word_ariths)
  then have h: "unat ((h + 1) AND hmask k) = (unat h + 1) mod 2 ^ k"
    by (simp add: unat_hmask [OF assms(1)])
  then have "unat (walk (hmask k) 1 (Suc i) h) = ((unat h + 1) mod 2 ^ k + i) mod 2 ^ k"
    using Suc.IH [of "(h + 1) AND hmask k"] by (simp add: walk_Suc)
  then show ?case by (simp add: mod_simps)
qed simp

text \<open>What the outcomes of a pass say about the buckets.\<close>

lemma probe_Hit:
  "probe t msk key h inc n = Inr (Hit s b) \<Longrightarrow>
   unat s < length t \<and> stops key (t ! unat s) \<and> b = tomb (t ! unat s)"
  by (induction n arbitrary: h) (auto simp: probe_Suc split: if_splits)

lemma probe_Miss:
  "probe t msk key h inc n = Inr (Miss h') \<Longrightarrow> i < n \<Longrightarrow>
   \<not> stops key (t ! unat (walk msk inc i h))"
proof (induction n arbitrary: h i)
  case (Suc n)
  then show ?case by (cases i) (auto simp: probe_Suc walk_Suc split: if_splits)
qed simp

lemma probe_Miss_start:
  "probe t (hmask k) key h inc n = Inr (Miss h') \<Longrightarrow> k \<le> 30 \<Longrightarrow> unat h < 2 ^ k \<Longrightarrow> unat h' < 2 ^ k"
  by (induction n arbitrary: h) (auto simp: probe_Suc unat_hmask_less split: if_splits)

lemma probe_safe:
  "k \<le> 30 \<Longrightarrow> length t = 2 ^ k \<Longrightarrow> unat h < 2 ^ k \<Longrightarrow> \<exists>r. probe t (hmask k) key h inc n = Inr r"
  by (induction n arbitrary: h) (auto simp: probe_Suc unat_hmask_less)

text \<open>A pass with increment 1 visits every bucket, so it stops if any bucket stops it.\<close>

lemma probe_1_stops:
  assumes k: "k \<le> 30" "length t = 2 ^ k" and h: "unat h < 2 ^ k"
    and s: "s < length t" "stops key (t ! s)"
  shows "\<exists>r b. probe t (hmask k) key h 1 (2 ^ k) = Inr (Hit r b)"
proof -
  obtain r where r: "probe t (hmask k) key h 1 (2 ^ k) = Inr r" using probe_safe k h by blast
  show ?thesis
  proof (cases r)
    case (Miss h')
    let ?i = "(s + (2 ^ k - unat h)) mod 2 ^ k"
    have "unat (walk (hmask k) 1 ?i h) = (unat h + ?i) mod 2 ^ k"
      using unat_walk_1 [OF k(1) h] by simp
    also have "\<dots> = (unat h + (s + (2 ^ k - unat h))) mod 2 ^ k" by (simp add: mod_simps)
    also have "unat h + (s + (2 ^ k - unat h)) = s + 2 ^ k" using h by simp
    finally have "unat (walk (hmask k) 1 ?i h) = s" using s(1) k(2) by simp
    moreover have "?i < 2 ^ k" by simp
    ultimately show ?thesis using probe_Miss r Miss s(2) by metis
  qed (use r in simp)
qed

text \<open>Filling an empty bucket that the search does not end at leaves the search unchanged.\<close>

lemma probe_fill_other:
  assumes "t ! s' = None" "probe t msk key h inc n = Inr r" "\<forall>s b. r = Hit s b \<longrightarrow> unat s \<noteq> s'"
  shows "probe (t[s' := x]) msk key h inc n = Inr r"
  using assms(2,3)
proof (induction n arbitrary: h)
  case (Suc n)
  have stop: "stops key (t ! s')" using assms(1) by (simp add: stops_def key_of_def)
  have "unat h \<noteq> s'" using Suc.prems stop by (auto simp: probe_Suc split: if_splits)
  then show ?case using Suc by (auto simp: probe_Suc split: if_splits)
qed simp

lemma probe_fill_self:
  assumes "t ! unat s = None" "probe t msk key h inc n = Inr (Hit s b)"
  shows "probe (t[unat s := Some (Node (Some key) d)]) msk key h inc n = Inr (Hit s False)"
  using assms(2)
proof (induction n arbitrary: h)
  case (Suc n)
  show ?case
  proof (cases "unat h = unat s")
    case True
    then have "h = s" by (rule word_unat_eq_iff [THEN iffD2])
    then show ?thesis using Suc.prems
      by (auto simp: probe_Suc stops_def key_of_def tomb_def split: if_splits)
  next
    case False
    then show ?thesis using Suc by (auto simp: probe_Suc split: if_splits)
  qed
qed simp

section \<open>The search\<close>

text \<open>The search ends in the first pass or in the second, which visits every bucket.\<close>

definition lands ::
  "'v buckets \<Rightarrow> nat \<Rightarrow> string \<Rightarrow> 32 word \<Rightarrow> 32 word \<Rightarrow> 32 word \<Rightarrow> bool \<Rightarrow> bool"
where
  "lands t k key h inc s b \<longleftrightarrow>
     probe t (hmask k) key h inc (2 ^ k) = Inr (Hit s b) \<or>
     (\<exists>h'. probe t (hmask k) key h inc (2 ^ k) = Inr (Miss h') \<and>
           probe t (hmask k) key h' 1 (2 ^ k) = Inr (Hit s b))"

lemma find_loop_Hit:
  "probe t msk key h inc c = Inr (Hit s b) \<Longrightarrow> find_loop t msk key h inc c = Some (Inr (s, b))"
  by (subst find_loop.simps) simp

lemma find_loop_Miss:
  "probe t msk key h inc c = Inr (Miss h') \<Longrightarrow>
   find_loop t msk key h inc c = find_loop t msk key h' 1 c"
  by (subst find_loop.simps) simp

lemma lands_find_loop:
  "lands t k key h inc s b \<Longrightarrow> find_loop t (hmask k) key h inc (2 ^ k) = Some (Inr (s, b))"
  unfolding lands_def by (auto simp: find_loop_Hit find_loop_Miss)

lemma lands_stops:
  "lands t k key h inc s b \<Longrightarrow>
   unat s < length t \<and> stops key (t ! unat s) \<and> b = tomb (t ! unat s)"
  unfolding lands_def using probe_Hit by blast

lemma ex_lands:
  assumes k: "k \<le> 30" "length t = 2 ^ k" and h: "unat h < 2 ^ k"
    and s: "s < length t" "stops key (t ! s)"
  shows "\<exists>s b. lands t k key h inc s b"
proof -
  obtain r where r: "probe t (hmask k) key h inc (2 ^ k) = Inr r" using probe_safe k h by blast
  show ?thesis
  proof (cases r)
    case (Miss h')
    then have "unat h' < 2 ^ k" using probe_Miss_start r k h by blast
    then show ?thesis using probe_1_stops [OF k _ s] r Miss unfolding lands_def by blast
  qed (use r in \<open>auto simp: lands_def\<close>)
qed

lemma lands_fill_other:
  "t ! s' = None \<Longrightarrow> lands t k key h inc s b \<Longrightarrow> unat s \<noteq> s' \<Longrightarrow> lands (t[s' := x]) k key h inc s b"
  unfolding lands_def by (auto dest: probe_fill_other [where x = x])

lemma lands_fill_self:
  assumes "t ! unat s = None" "lands t k key h inc s b"
  shows "lands (t[unat s := Some (Node (Some key) d)]) k key h inc s False"
  using assms(2) unfolding lands_def
  by (auto dest: probe_fill_self [OF assms(1)] probe_fill_other [OF assms(1)])

text \<open>Burying the key of the bucket where the search ends keeps the search there.\<close>

lemma probe_bury:
  assumes "key_of (t ! unat s) = Some key"
  shows "probe t msk key h inc n = Inr r \<Longrightarrow> \<forall>s' b. r = Hit s' b \<longrightarrow> s' = s \<Longrightarrow>
    probe (t[unat s := Some (Node None d)]) msk key h inc n =
      Inr (case r of Hit s b \<Rightarrow> Hit s True | Miss h \<Rightarrow> Miss h)"
proof (induction n arbitrary: h)
  case (Suc n)
  have st: "stops key (t ! unat s)" using assms by (simp add: stops_def)
  show ?case
  proof (cases "h = s")
    case True
    then show ?thesis using Suc.prems st
      by (auto simp: probe_Suc stops_def key_of_def tomb_def split: if_splits)
  next
    case False
    then have "unat h \<noteq> unat s" by (simp add: word_unat_eq_iff)
    then show ?thesis using Suc False by (auto simp: probe_Suc split: if_splits)
  qed
qed auto

lemma lands_bury:
  assumes "t ! unat s = Some (Node (Some key) d)" "lands t k key h inc s b"
  shows "lands (t[unat s := Some (Node None d')]) k key h inc s True"
proof -
  have "key_of (t ! unat s) = Some key" using assms(1) by (simp add: key_of_def)
  then show ?thesis using assms(2) probe_bury [of t s key _ _ _ _ _ d']
    unfolding lands_def by fastforce
qed

definition home :: "nat \<Rightarrow> string \<Rightarrow> 32 word" where
  "home k key = hash_func key AND hmask k"

definition step_of :: "nat \<Rightarrow> string \<Rightarrow> 32 word" where
  "step_of k key = (if home k key AND 15 = 0 then 1 else home k key AND 15)"

lemma home_less: "k \<le> 30 \<Longrightarrow> unat (home k key) < 2 ^ k"
  by (simp add: home_def unat_hmask_less)

lemma seek_eq:
  "seek t (2 ^ k) key =
      (if unat (home k key) < length t
       then if t ! unat (home k key) = None then Inr (home k key, False)
            else case find_loop t (hmask k) key (home k key) (step_of k key) (2 ^ k) of
                   None \<Rightarrow> Inl No_Return | Some r \<Rightarrow> r
       else Inl Out_Of_Bounds)"
proof -
  have "nat (2 ^ k) = (2::nat) ^ k" by (simp add: nat_power_eq)
  then show ?thesis by (simp only: seek_def Let_def hmask_def home_def step_of_def)
qed

lemma seek_lands:
  assumes "k \<le> 30" "length t = 2 ^ k" "lands t k key (home k key) (step_of k key) s b"
  shows "seek t (2 ^ k) key = Inr (s, b)"
proof -
  have l: "unat (home k key) < length t" using assms home_less by simp
  have *: "seek t (2 ^ k) key =
      (if t ! unat (home k key) = None then Inr (home k key, False) else Inr (s, b))"
    using l lands_find_loop [OF assms(3)] by (simp add: seek_eq)
  show ?thesis
  proof (cases "t ! unat (home k key) = None")
    case True
    obtain n where n: "(2::nat) ^ k = Suc n" by (metis not0_implies_Suc power_not_zero zero_neq_numeral)
    have "s = home k key \<and> \<not> b"
      using assms(3) l True by (auto simp: lands_def n probe_Suc stops_def key_of_def tomb_def)
    then show ?thesis using * by simp
  qed (auto simp: *)
qed

lemma seek_ex:
  assumes "k \<le> 30" "length t = 2 ^ k" "i < length t" "stops key (t ! i)"
  obtains s b where "seek t (2 ^ k) key = Inr (s, b)"
    "lands t k key (home k key) (step_of k key) s b"
    "unat s < length t" "stops key (t ! unat s)" "b = tomb (t ! unat s)"
  using ex_lands [OF assms(1,2) home_less [OF assms(1)] assms(3,4)] seek_lands [OF assms(1,2)]
    lands_stops by metis

text \<open>Filling the empty bucket \<open>s'\<close> moves no search that ended elsewhere.\<close>

lemma seek_fill_other:
  assumes "k \<le> 30" "length t = 2 ^ k" "s' < length t" "t ! s' = None"
    and "seek t (2 ^ k) key = Inr (s, b)" "unat s \<noteq> s'"
  shows "seek (t[s' := x]) (2 ^ k) key = Inr (s, b)"
proof -
  have "stops key (t ! s')" using assms(4) by (simp add: stops_def key_of_def)
  then obtain s2 b2 where "seek t (2 ^ k) key = Inr (s2, b2)"
    "lands t k key (home k key) (step_of k key) s2 b2"
    using seek_ex [OF assms(1-3)] by blast
  then show ?thesis using assms by (auto intro!: seek_lands lands_fill_other)
qed

lemma seek_fill_self:
  assumes "k \<le> 30" "length t = 2 ^ k" "unat s < length t" "t ! unat s = None"
    and "seek t (2 ^ k) key = Inr (s, b)"
  shows "seek (t[unat s := Some (Node (Some key) d)]) (2 ^ k) key = Inr (s, False)"
proof -
  have "stops key (t ! unat s)" using assms(4) by (simp add: stops_def key_of_def)
  then obtain s2 b2 where "seek t (2 ^ k) key = Inr (s2, b2)"
    "lands t k key (home k key) (step_of k key) s2 b2"
    using seek_ex [OF assms(1-3)] by blast
  then show ?thesis using assms by (auto intro!: seek_lands lands_fill_self)
qed

section \<open>The table as a map\<close>

fun entries :: "'v buckets \<Rightarrow> (string \<times> 'v) list" where
  "entries [] = []"
| "entries (b # bs) =
     (case key_of b of None \<Rightarrow> entries bs | Some k \<Rightarrow> (k, nd_data (the b)) # entries bs)"

definition ht_map :: "'v hash_table \<Rightarrow> string \<Rightarrow> 'v option" where
  "ht_map tab = map_of (entries (ht_table tab))"

lemma key_of_simps [simp]:
  "key_of None = None" "key_of (Some (Node k d)) = k"
  by (simp_all add: key_of_def)

lemma key_of_eq_Some: "key_of b = Some k \<longleftrightarrow> (\<exists>d. b = Some (Node (Some k) d))"
  by (auto simp: key_of_def split: option.splits) (metis hash_node.collapse)

lemma set_entries:
  "(k, d) \<in> set (entries t) \<longleftrightarrow> (\<exists>i < length t. t ! i = Some (Node (Some k) d))"
proof -
  have "(k, d) \<in> set (entries t) \<longleftrightarrow> Some (Node (Some k) d) \<in> set t"
  proof (induction t rule: entries.induct)
    case (2 b bs)
    then show ?case by (cases "key_of b") (auto simp: key_of_eq_Some)
  qed simp
  then show ?thesis by (auto simp: in_set_conv_nth)
qed

lemma length_entries_le: "length (entries t) \<le> length t"
  by (induction t rule: entries.induct) (auto split: option.splits)

lemma entries_full:
  "length (entries t) < length t \<Longrightarrow> \<exists>i < length t. key_of (t ! i) = None"
proof (induction t rule: entries.induct)
  case (2 b bs)
  show ?case
  proof (cases "key_of b")
    case (Some k)
    then obtain i where "i < length bs" "key_of (bs ! i) = None" using 2 by auto
    then show ?thesis by (intro exI [of _ "Suc i"]) simp
  qed auto
qed simp

lemma length_entries_fill:
  "i < length t \<Longrightarrow> key_of (t ! i) = None \<Longrightarrow> key_of b = Some k \<Longrightarrow>
   length (entries (t[i := b])) = Suc (length (entries t))"
proof (induction t arbitrary: i)
  case (Cons a t)
  then show ?case by (cases i) (auto split: option.splits)
qed simp

lemma distinct_entries:
  assumes "\<And>i j k. i < length t \<Longrightarrow> j < length t \<Longrightarrow> key_of (t ! i) = Some k \<Longrightarrow>
             key_of (t ! j) = Some k \<Longrightarrow> i = j"
  shows "distinct (map fst (entries t))"
  using assms
proof (induction t rule: entries.induct)
  case (2 b bs)
  have IH: "distinct (map fst (entries bs))"
  proof -
    have "\<And>i j k. i < length bs \<Longrightarrow> j < length bs \<Longrightarrow> key_of (bs ! i) = Some k \<Longrightarrow>
             key_of (bs ! j) = Some k \<Longrightarrow> i = j"
      using 2(3) [of "Suc _" "Suc _"] by auto
    then show ?thesis using 2(1,2) by (cases "key_of b") auto
  qed
  show ?case
  proof (cases "key_of b")
    case (Some k)
    have "(k, d) \<notin> set (entries bs)" for d
      using 2(3) [of 0 _ k] Some by (fastforce simp: set_entries)
    then show ?thesis using IH Some by auto
  qed (simp add: IH)
qed simp

text \<open>
  The buckets of a table of \<open>2 ^ k\<close> slots from which nothing was removed: the search for the key
  of a bucket ends at that bucket.
\<close>

definition core :: "'v buckets \<Rightarrow> nat \<Rightarrow> bool" where
  "core t k \<longleftrightarrow>
     2 \<le> k \<and> k \<le> 30 \<and> length t = 2 ^ k \<and> (\<forall>i < length t. \<not> tomb (t ! i)) \<and>
     (\<forall>i < length t. \<forall>key. key_of (t ! i) = Some key \<longrightarrow>
        seek t (2 ^ k) key = Inr (word_of_nat i, False))"

lemma unat_slot: "k \<le> 30 \<Longrightarrow> i < 2 ^ k \<Longrightarrow> unat (word_of_nat i :: 32 word) = i"
proof -
  assume k: "k \<le> 30" "i < 2 ^ k"
  have "(2::nat) ^ k \<le> 2 ^ 30" using k(1) by (intro power_increasing) auto
  then show ?thesis using k(2) by (simp add: unat_of_nat)
qed

lemma core_slot:
  assumes "core t k" "i < length t" "key_of (t ! i) = Some key" "seek t (2 ^ k) key = Inr (s, b)"
  shows "unat s = i"
  using assms unat_slot [of k i] unfolding core_def by auto

lemma core_distinct: "core t k \<Longrightarrow> distinct (map fst (entries t))"
proof (rule distinct_entries)
  fix i j key
  assume c: "core t k" and *: "i < length t" "j < length t" "key_of (t ! i) = Some key"
    "key_of (t ! j) = Some key"
  have "seek t (2 ^ k) key = Inr (word_of_nat i, False)" using c * unfolding core_def by blast
  then show "i = j" using core_slot [OF c] * by metis
qed

lemma core_free:
  assumes "core t k" "length (entries t) < 2 ^ k"
  obtains i where "i < length t" "stops key (t ! i)"
  using assms entries_full [of t] by (auto simp: core_def stops_def)

text \<open>Where a search ends tells what the map holds.\<close>

lemma core_seek:
  assumes "core t k" "length (entries t) < 2 ^ k"
  obtains s where "seek t (2 ^ k) key = Inr (s, False)" "unat s < length t"
    "t ! unat s = None \<and> map_of (entries t) key = None \<or>
     (\<exists>d. t ! unat s = Some (Node (Some key) d) \<and> map_of (entries t) key = Some d)"
proof -
  have k: "k \<le> 30" "length t = 2 ^ k" using assms unfolding core_def by auto
  obtain i where "i < length t" "stops key (t ! i)" using core_free [OF assms] .
  then obtain s b where s: "seek t (2 ^ k) key = Inr (s, b)" "unat s < length t"
      "stops key (t ! unat s)" "b = tomb (t ! unat s)"
    using seek_ex [OF k] by metis
  have nt: "\<not> tomb (t ! unat s)" using assms s(2) unfolding core_def by auto
  have d: "distinct (map fst (entries t))" using core_distinct assms(1) by blast
  have "t ! unat s = None \<and> map_of (entries t) key = None \<or>
     (\<exists>d. t ! unat s = Some (Node (Some key) d) \<and> map_of (entries t) key = Some d)"
  proof (cases "key_of (t ! unat s)")
    case None
    then have n: "t ! unat s = None" using nt unfolding tomb_def by auto
    have "(key, x) \<notin> set (entries t)" for x
      using core_slot [OF assms(1) _ _ s(1)] n by (force simp: set_entries)
    then have "map_of (entries t) key = None" by (metis map_of_SomeD not_None_eq)
    then show ?thesis using n by blast
  next
    case (Some k')
    then obtain x where "t ! unat s = Some (Node (Some key) x)"
      using s(3) by (auto simp: stops_def key_of_eq_Some)
    then show ?thesis using s(2) d set_entries by (metis map_of_is_SomeI)
  qed
  moreover have "seek t (2 ^ k) key = Inr (s, False)" using s(1,4) nt by simp
  ultimately show ?thesis using that s(2) by blast
qed

lemma core_insert:
  fixes d :: 'v
  assumes c: "core t k" and s: "seek t (2 ^ k) key = Inr (s, b)" "unat s < length t"
    "t ! unat s = None"
  defines "t' \<equiv> t[unat s := Some (Node (Some key) d)]"
  shows "core t' k" "map_of (entries t') = (map_of (entries t))(key \<mapsto> d)"
    "length (entries t') = Suc (length (entries t))"
proof -
  have k: "k \<le> 30" "length t = 2 ^ k" using c unfolding core_def by auto
  show c': "core t' k"
    unfolding core_def
  proof (intro conjI allI impI)
    fix i key'
    assume i: "i < length t'" "key_of (t' ! i) = Some key'"
    show "seek t' (2 ^ k) key' = Inr (word_of_nat i, False)"
    proof (cases "i = unat s")
      case True
      then show ?thesis using i seek_fill_self [OF k s(2,3,1), of d] s(2) by (simp add: t'_def)
    next
      case False
      then have "seek t (2 ^ k) key' = Inr (word_of_nat i, False)"
        using c i unfolding core_def t'_def by auto
      moreover have "unat (word_of_nat i :: 32 word) = i" using unat_slot k i by (simp add: t'_def)
      ultimately show ?thesis using seek_fill_other [OF k s(2,3)] False by (simp add: t'_def)
    qed
  next
    fix i
    assume "i < length t'"
    then show "\<not> tomb (t' ! i)"
      using c unfolding core_def t'_def by (cases "i = unat s") (auto simp: tomb_def)
  qed (use c in \<open>auto simp: core_def t'_def\<close>)
  show "length (entries t') = Suc (length (entries t))"
    unfolding t'_def using s by (intro length_entries_fill) auto
  have *: "(k', x) \<in> set (entries t') \<longleftrightarrow> (k', x) = (key, d) \<or> (k', x) \<in> set (entries t)" for k' x
    unfolding set_entries t'_def using s(2,3) by (auto simp: nth_list_update) (metis option.distinct(1))
  have fresh: "(key, x) \<notin> set (entries t)" for x
    using core_slot [OF c _ _ s(1)] s(3) by (force simp: set_entries)
  show "map_of (entries t') = (map_of (entries t))(key \<mapsto> d)"
  proof (rule ext)
    fix q
    have "map_of (entries t') q = Some x \<longleftrightarrow> ((map_of (entries t))(key \<mapsto> d)) q = Some x" for x
      using * fresh core_distinct [OF c] core_distinct [OF c'] by (auto simp: map_of_eq_Some_iff)
    then show "map_of (entries t') q = ((map_of (entries t))(key \<mapsto> d)) q"
      by (metis not_None_eq)
  qed
qed

section \<open>The invariant of a table from which nothing was removed\<close>

definition ht_inv :: "'v hash_table \<Rightarrow> bool" where
  "ht_inv tab \<longleftrightarrow>
     (\<exists>k. ht_cap tab = 2 ^ k \<and> core (ht_table tab) k) \<and>
     ht_count tab = int (length (entries (ht_table tab))) \<and>
     7 * (ht_count tab - 1) < 4 * ht_cap tab"

lemma ht_invE:
  assumes "ht_inv tab"
  obtains k where "ht_cap tab = 2 ^ k" "core (ht_table tab) k"
    "ht_count tab = int (length (entries (ht_table tab)))"
    "length (entries (ht_table tab)) < 2 ^ k"
proof -
  obtain k where k: "ht_cap tab = 2 ^ k" "core (ht_table tab) k"
    and n: "ht_count tab = int (length (entries (ht_table tab)))"
      "7 * (ht_count tab - 1) < 4 * ht_cap tab"
    using assms unfolding ht_inv_def by auto
  have "(2::int) ^ 2 \<le> 2 ^ k" using k unfolding core_def by (intro power_increasing) auto
  then have "(4::int) \<le> 2 ^ k" by simp
  moreover have "7 * (c - 1) < 4 * p \<Longrightarrow> 4 \<le> p \<Longrightarrow> c < p" for c p :: int by simp
  ultimately have "ht_count tab < 2 ^ k" using n(2) k(1) by metis
  then have "length (entries (ht_table tab)) < 2 ^ k" using n(1) by simp
  then show ?thesis using that k n by blast
qed

lemma find_slot_core:
  assumes c: "core (ht_table tab) k" "ht_cap tab = 2 ^ k" "length (entries (ht_table tab)) < 2 ^ k"
  obtains s where "find_slot tab key = Inr (unat s, tab)" "unat s < length (ht_table tab)"
    "seek (ht_table tab) (2 ^ k) key = Inr (s, False)"
    "ht_table tab ! unat s = None \<and> ht_map tab key = None \<or>
     (\<exists>d. ht_table tab ! unat s = Some (Node (Some key) d) \<and> ht_map tab key = Some d)"
proof -
  obtain s where "seek (ht_table tab) (2 ^ k) key = Inr (s, False)" "unat s < length (ht_table tab)"
    "ht_table tab ! unat s = None \<and> ht_map tab key = None \<or>
     (\<exists>d. ht_table tab ! unat s = Some (Node (Some key) d) \<and> ht_map tab key = Some d)"
    using core_seek [OF c(1,3), of key] unfolding ht_map_def by metis
  then show ?thesis using that c(2) by (simp add: find_slot_def)
qed

lemma core_empty: "2 \<le> k \<Longrightarrow> k \<le> 30 \<Longrightarrow> core (replicate (2 ^ k) None) k"
  by (simp add: core_def tomb_def)

lemma entries_replicate [simp]: "entries (replicate n None) = []"
  by (induction n) auto

lemma map_of_append_upd:
  "k \<notin> fst ` set es \<Longrightarrow> m(k \<mapsto> d) ++ map_of es = (m ++ map_of es)(k \<mapsto> d)"
  using map_of_eq_None_iff [of es k] by (auto simp: map_add_def fun_eq_iff split: option.splits)

lemma rehash_into_correct:
  assumes "core (ht_table tab) k" "ht_cap tab = 2 ^ k"
    "ht_count tab = int (length (entries (ht_table tab)))"
    "length (entries (ht_table tab)) + length (entries bs) < 2 ^ k"
    "distinct (map fst (entries bs))" "\<forall>b \<in> set bs. \<not> tomb b"
    "fst ` set (entries bs) \<inter> dom (ht_map tab) = {}"
  shows "\<exists>tab'. rehash_into bs tab = Inr tab' \<and> core (ht_table tab') k \<and> ht_cap tab' = 2 ^ k \<and>
           ht_count tab' = int (length (entries (ht_table tab'))) \<and>
           ht_count tab' = ht_count tab + int (length (entries bs)) \<and>
           ht_map tab' = ht_map tab ++ map_of (entries bs)"
  using assms
proof (induction bs arbitrary: tab)
  case (Cons b bs)
  show ?case
  proof (cases b)
    case None
    then show ?thesis using Cons by simp
  next
    case (Some nd)
    then obtain key d where b: "b = Some (Node (Some key) d)"
      using Cons.prems(6) by (cases nd) (auto simp: tomb_def)
    have len: "length (entries (ht_table tab)) < 2 ^ k" using Cons.prems(4) by simp
    have fresh: "ht_map tab key = None" using Cons.prems(7) b by auto
    obtain s where s: "find_slot tab key = Inr (unat s, tab)" "unat s < length (ht_table tab)"
      "seek (ht_table tab) (2 ^ k) key = Inr (s, False)" "ht_table tab ! unat s = None"
      using find_slot_core [OF Cons.prems(1,2) len, of key] fresh by (metis option.distinct(1))
    let ?tab = "tab\<lparr>ht_table := (ht_table tab)[unat s := b], ht_count := ht_count tab + 1\<rparr>"
    note ins = core_insert [OF Cons.prems(1) s(3,2,4), of d, folded b]
    have "(2::nat) ^ k \<le> 2 ^ 30"
      using Cons.prems(1) unfolding core_def by (intro power_increasing) auto
    then have "chk (ht_count tab + 1) = Inr (ht_count tab + 1)"
      using len Cons.prems(3) by (simp add: chk_def)
    then have step: "rehash_into (b # bs) tab = rehash_into bs ?tab" using b s(1) by simp
    have m: "ht_map ?tab = (ht_map tab)(key \<mapsto> d)" using ins(2) by (simp add: ht_map_def)
    have "dom (ht_map ?tab) = insert key (dom (ht_map tab))" by (simp only: m) simp
    then have disj: "fst ` set (entries bs) \<inter> dom (ht_map ?tab) = {}"
      using Cons.prems(5,7) b by simp
    have "\<exists>tab'. rehash_into bs ?tab = Inr tab' \<and> core (ht_table tab') k \<and> ht_cap tab' = 2 ^ k \<and>
           ht_count tab' = int (length (entries (ht_table tab'))) \<and>
           ht_count tab' = ht_count ?tab + int (length (entries bs)) \<and>
           ht_map tab' = ht_map ?tab ++ map_of (entries bs)"
      using Cons.prems(2-6) b ins disj by (intro Cons.IH) auto
    then obtain tab' where t: "rehash_into bs ?tab = Inr tab'" "core (ht_table tab') k"
      "ht_cap tab' = 2 ^ k" "ht_count tab' = int (length (entries (ht_table tab')))"
      "ht_count tab' = ht_count ?tab + int (length (entries bs))"
      "ht_map tab' = ht_map ?tab ++ map_of (entries bs)"
      by blast
    have "ht_map ?tab ++ map_of (entries bs) = ht_map tab ++ map_of (entries (b # bs))"
      unfolding m using Cons.prems(5) b by (subst map_of_append_upd) auto
    then have "ht_map tab' = ht_map tab ++ map_of (entries (b # bs))" using t(6) by simp
    moreover have "rehash_into (b # bs) tab = Inr tab'" using step t(1) by simp
    moreover have "ht_count tab' = ht_count tab + int (length (entries (b # bs)))"
      using t(5) b by simp
    ultimately show ?thesis using t(2-4) by blast
  qed
qed simp

text \<open>Rehashing leaves room for one more key and does not change the map.\<close>

lemma rehash_table_correct:
  assumes "ht_inv tab" "ht_count tab < 2 ^ 29"
  obtains tab' where "rehash_table tab = Inr tab'" "ht_inv tab'" "ht_map tab' = ht_map tab"
    "ht_count tab' = ht_count tab" "7 * ht_count tab' < 4 * ht_cap tab'"
proof (cases "4 * ht_cap tab \<le> 7 * ht_count tab")
  case False
  then show ?thesis using that assms(1) by (simp add: rehash_table_def)
next
  case True
  obtain k where k: "ht_cap tab = 2 ^ k" "core (ht_table tab) k"
    "ht_count tab = int (length (entries (ht_table tab)))"
    "length (entries (ht_table tab)) < 2 ^ k"
    using ht_invE [OF assms(1)] .
  have k2: "2 \<le> k" "length (ht_table tab) = 2 ^ k" using k(2) unfolding core_def by auto
  have "(2::int) ^ k < 2 ^ 30" using True assms(2) k(1) by simp
  then have k30: "k < 30" by (rule power_less_imp_less_exp [rotated]) simp
  have "(2::int) ^ Suc k \<le> 2 ^ 30" using k30 by (intro power_increasing) auto
  then have c: "chk (2 * ht_cap tab) = Inr (2 ^ Suc k)"
    using k(1) order_trans [of INT_MIN 0 "2 ^ Suc k"] by (simp add: chk_def)
  have n: "nat (2 ^ Suc k) = (2::nat) ^ Suc k" by (simp only: nat_power_eq nat_numeral)
  let ?tab = "tab\<lparr>ht_cap := 2 ^ Suc k, ht_tombstones := 0, ht_count := 0,
                  ht_table := replicate (2 ^ Suc k) None\<rparr>"
  have "\<exists>tab'. rehash_into (ht_table tab) ?tab = Inr tab' \<and> core (ht_table tab') (Suc k) \<and>
           ht_cap tab' = 2 ^ Suc k \<and>
           ht_count tab' = int (length (entries (ht_table tab'))) \<and>
           ht_count tab' = ht_count ?tab + int (length (entries (ht_table tab))) \<and>
           ht_map tab' = ht_map ?tab ++ map_of (entries (ht_table tab))"
  proof (rule rehash_into_correct)
    show "core (ht_table ?tab) (Suc k)" using core_empty [of "Suc k"] k2 k30 by simp
    have "length (entries (ht_table tab)) < 2 * 2 ^ k" using k(4) by simp
    then show "length (entries (ht_table ?tab)) + length (entries (ht_table tab)) < 2 ^ Suc k"
      by (simp del: replicate_Suc replicate.simps)
    show "\<forall>b \<in> set (ht_table tab). \<not> tomb b"
      using k(2) unfolding core_def by (auto simp: in_set_conv_nth)
  qed (simp_all add: core_distinct [OF k(2)] ht_map_def del: replicate_Suc power_Suc)
  then obtain tab' where t: "rehash_into (ht_table tab) ?tab = Inr tab'"
    "core (ht_table tab') (Suc k)" "ht_cap tab' = 2 ^ Suc k"
    "ht_count tab' = int (length (entries (ht_table tab')))"
    "ht_count tab' = ht_count tab" "ht_map tab' = ht_map tab"
    using k(3) by (auto simp: ht_map_def)
  have "(2::int) ^ 2 \<le> 2 ^ k" using k2(1) by (intro power_increasing) auto
  then have "7 * ht_count tab' < 4 * ht_cap tab'"
    using assms(1) t(3,5) k(1) unfolding ht_inv_def by auto
  moreover from this have "7 * (ht_count tab' - 1) < 4 * ht_cap tab'" by simp
  then have "ht_inv tab'" unfolding ht_inv_def using t(2,3,4) by blast
  moreover have "rehash_table tab = Inr tab'"
    using True t(1) by (simp add: rehash_table_def c n del: power_Suc replicate_Suc)
  ultimately show ?thesis using that t by blast
qed

section \<open>The operations on the map\<close>

lemma create_hashtable_inv: "ht_inv create_hashtable \<and> ht_map create_hashtable = Map.empty"
proof -
  have "core (replicate 4 None) 2" using core_empty [of 2] by simp
  then have "\<exists>k. (4::int) = 2 ^ k \<and> core (replicate 4 None) k" by (intro exI [of _ 2]) simp
  then show ?thesis by (simp add: create_hashtable_def ht_inv_def ht_map_def)
qed

lemma insert_hashtable_inv:
  assumes "ht_inv tab" "ht_count tab < 2 ^ 29"
  shows "\<exists>tab'. ht_inv tab' \<and>
     (case ht_map tab key of
        None \<Rightarrow> insert_hashtable tab key d = Inr (1, tab') \<and> ht_map tab' = (ht_map tab)(key \<mapsto> d) \<and>
                ht_count tab' = ht_count tab + 1
      | Some _ \<Rightarrow> insert_hashtable tab key d = Inr (0, tab') \<and> ht_map tab' = ht_map tab \<and>
                ht_count tab' = ht_count tab)"
proof -
  obtain t1 where t1: "rehash_table tab = Inr t1" "ht_inv t1" "ht_map t1 = ht_map tab"
    "ht_count t1 = ht_count tab" "7 * ht_count t1 < 4 * ht_cap t1"
    using rehash_table_correct [OF assms] .
  obtain k where k: "ht_cap t1 = 2 ^ k" "core (ht_table t1) k"
    "ht_count t1 = int (length (entries (ht_table t1)))"
    "length (entries (ht_table t1)) < 2 ^ k"
    using ht_invE [OF t1(2)] .
  obtain s where s: "find_slot t1 key = Inr (unat s, t1)" "unat s < length (ht_table t1)"
    "seek (ht_table t1) (2 ^ k) key = Inr (s, False)"
    "ht_table t1 ! unat s = None \<and> ht_map t1 key = None \<or>
     (\<exists>d. ht_table t1 ! unat s = Some (Node (Some key) d) \<and> ht_map t1 key = Some d)"
    using find_slot_core [OF k(2,1,4)] .
  show ?thesis
  proof (cases "ht_map tab key")
    case (Some x)
    then have "insert_hashtable tab key d = Inr (0, t1)"
      using s t1 by (auto simp: insert_hashtable_def)
    then show ?thesis using Some t1 by auto
  next
    case None
    then have free: "ht_table t1 ! unat s = None" using s(4) t1(3) by auto
    let ?t2 = "t1\<lparr>ht_table := (ht_table t1)[unat s := Some (Node (Some key) d)],
                  ht_count := ht_count t1 + 1\<rparr>"
    note ins = core_insert [OF k(2) s(3,2) free, of d]
    have "chk (ht_count t1 + 1) = Inr (ht_count t1 + 1)" using t1(4) assms(2) k(3) by simp
    then have "insert_hashtable tab key d = Inr (1, ?t2)"
      using t1(1) s(1) free by (simp add: insert_hashtable_def)
    moreover have "ht_inv ?t2" using ins k t1(5) by (auto simp: ht_inv_def)
    moreover have "ht_map ?t2 = (ht_map tab)(key \<mapsto> d)"
      using ins(2) t1(3) by (simp add: ht_map_def)
    ultimately show ?thesis using None t1(4) by auto
  qed
qed

lemma find_hashtable_inv:
  assumes "ht_inv tab"
  shows "find_hashtable tab key =
    Inr (case ht_map tab key of None \<Rightarrow> (0, None, tab) | Some d \<Rightarrow> (1, Some d, tab))"
proof -
  obtain k where k: "ht_cap tab = 2 ^ k" "core (ht_table tab) k"
    "length (entries (ht_table tab)) < 2 ^ k"
    using ht_invE [OF assms] .
  show ?thesis
    by (rule find_slot_core [OF k(2,1,3), of key]) (auto simp: find_hashtable_def)
qed

lemma hash_name_exists_inv:
  assumes "ht_inv tab"
  shows "hash_name_exists tab key = Inr (if key \<in> dom (ht_map tab) then 1 else 0, tab)"
proof -
  obtain k where k: "ht_cap tab = 2 ^ k" "core (ht_table tab) k"
    "length (entries (ht_table tab)) < 2 ^ k"
    using ht_invE [OF assms] .
  show ?thesis
    by (rule find_slot_core [OF k(2,1,3), of key]) (auto simp: hash_name_exists_def)
qed

section \<open>The interface for clients\<close>

text \<open>
  A table of names of bounded size: what inserting and looking up promise to a client.  \<open>ins\<close>
  returns 1 for a new name and 0, changing nothing, for a name that is there.
\<close>

locale name_table =
  fixes tab_ok :: "'t \<Rightarrow> bool"
    and names :: "'t \<Rightarrow> string \<Rightarrow> 'v option"
    and size_of :: "'t \<Rightarrow> int"
    and limit :: int
    and new_tab :: 't
    and ins :: "'t \<Rightarrow> string \<Rightarrow> 'v \<Rightarrow> (int \<times> 't) res"
    and look :: "'t \<Rightarrow> string \<Rightarrow> (int \<times> 'v option \<times> 't) res"
  assumes new_tab: "tab_ok new_tab" "names new_tab = Map.empty" "size_of new_tab = 0"
    and ins_new: "tab_ok t \<Longrightarrow> size_of t < limit \<Longrightarrow> names t k = None \<Longrightarrow>
      \<exists>t'. ins t k v = Inr (1, t') \<and> tab_ok t' \<and> names t' = (names t)(k \<mapsto> v) \<and>
           size_of t' = size_of t + 1"
    and ins_dup: "tab_ok t \<Longrightarrow> size_of t < limit \<Longrightarrow> names t k = Some w \<Longrightarrow>
      \<exists>t'. ins t k v = Inr (0, t') \<and> tab_ok t' \<and> names t' = names t \<and> size_of t' = size_of t"
    and look: "tab_ok t \<Longrightarrow>
      look t k = Inr (if names t k = None then 0 else 1, names t k, t)"
begin

fun ins_all :: "'t \<Rightarrow> (string \<times> 'v) list \<Rightarrow> 't res" where
  "ins_all t [] = Inr t"
| "ins_all t ((k, v) # kvs) = rbind (ins t k v) (\<lambda>(_, t). ins_all t kvs)"

text \<open>Of several insertions of a name the first one stays.\<close>

lemma ins_all_names:
  "tab_ok t \<Longrightarrow> size_of t + int (length kvs) \<le> limit \<Longrightarrow>
   \<exists>t'. ins_all t kvs = Inr t' \<and> tab_ok t' \<and> names t' = map_of kvs ++ names t"
proof (induction kvs arbitrary: t)
  case (Cons kv kvs)
  obtain k v where kv: "kv = (k, v)" by (cases kv)
  show ?case
  proof (cases "names t k")
    case None
    then obtain t1 where t1: "ins t k v = Inr (1, t1)" "tab_ok t1"
      "names t1 = (names t)(k \<mapsto> v)" "size_of t1 = size_of t + 1"
      using ins_new [of t k v] Cons.prems by auto
    moreover obtain t2 where "ins_all t1 kvs = Inr t2" "tab_ok t2"
        "names t2 = map_of kvs ++ names t1"
      using Cons.IH [OF t1(2)] Cons.prems(2) t1(4) by auto
    moreover have "map_of kvs ++ (names t)(k \<mapsto> v) = map_of (kv # kvs) ++ names t"
      using None kv by (auto simp: map_add_def fun_eq_iff split: option.splits)
    ultimately have "ins_all t (kv # kvs) = Inr t2" "tab_ok t2"
      "names t2 = map_of (kv # kvs) ++ names t"
      using kv by simp_all
    then show ?thesis by blast
  next
    case (Some w)
    then obtain t1 where t1: "ins t k v = Inr (0, t1)" "tab_ok t1"
      "names t1 = names t" "size_of t1 = size_of t"
      using ins_dup [of t k w v] Cons.prems by auto
    moreover obtain t2 where "ins_all t1 kvs = Inr t2" "tab_ok t2"
        "names t2 = map_of kvs ++ names t1"
      using Cons.IH [OF t1(2)] Cons.prems(2) t1(4) by auto
    moreover have "map_of kvs ++ names t = map_of (kv # kvs) ++ names t"
      using Some kv by (auto simp: map_add_def fun_eq_iff split: option.splits)
    ultimately have "ins_all t (kv # kvs) = Inr t2" "tab_ok t2"
      "names t2 = map_of (kv # kvs) ++ names t"
      using kv by simp_all
    then show ?thesis by blast
  qed
qed simp

lemma look_after_ins:
  assumes "tab_ok t" "size_of t + int (length kvs) \<le> limit"
  shows "rbind (ins_all t kvs) (\<lambda>t'. rbind (look t' k) (\<lambda>(f, v, _). Inr (f, v))) =
    Inr (if (map_of kvs ++ names t) k = None then 0 else 1, (map_of kvs ++ names t) k)"
  using ins_all_names [OF assms] look by fastforce

end

interpretation ht: name_table ht_inv ht_map ht_count "2 ^ 29" create_hashtable
  insert_hashtable find_hashtable
proof unfold_locales
  fix t :: "'a hash_table" and k v w
  show "ht_inv t \<Longrightarrow> ht_count t < 2 ^ 29 \<Longrightarrow> ht_map t k = None \<Longrightarrow>
      \<exists>t'. insert_hashtable t k v = Inr (1, t') \<and> ht_inv t' \<and> ht_map t' = (ht_map t)(k \<mapsto> v) \<and>
           ht_count t' = ht_count t + 1"
    using insert_hashtable_inv [of t k v] by auto
  show "ht_inv t \<Longrightarrow> ht_count t < 2 ^ 29 \<Longrightarrow> ht_map t k = Some w \<Longrightarrow>
      \<exists>t'. insert_hashtable t k v = Inr (0, t') \<and> ht_inv t' \<and> ht_map t' = ht_map t \<and>
           ht_count t' = ht_count t"
    using insert_hashtable_inv [of t k v] by auto
  show "ht_inv t \<Longrightarrow> find_hashtable t k =
      Inr (if ht_map t k = None then 0 else 1, ht_map t k, t)"
    using find_hashtable_inv [of t k] by (auto split: option.splits)
qed (simp_all add: create_hashtable_inv, simp add: create_hashtable_def)

section \<open>Properties\<close>

fun insert_all :: "'v hash_table \<Rightarrow> (string \<times> 'v) list \<Rightarrow> 'v hash_table res" where
  "insert_all tab [] = Inr tab"
| "insert_all tab ((k, v) # kvs) = rbind (insert_hashtable tab k v) (\<lambda>(_, tab). insert_all tab kvs)"

lemma insert_all_eq: "insert_all tab kvs = ht.ins_all tab kvs"
  by (induction tab kvs rule: insert_all.induct) (auto intro!: rbind_cong)

text \<open>
  C1: after any insertions into a new table, up to 2^29 of them, with any collisions and as many
  rehashes as they cause, a lookup finds for a key the data it was first inserted with, and
  finds no key that was not inserted.
\<close>

theorem insert_all_find:
  assumes "length kvs \<le> 2 ^ 29"
  shows "rbind (insert_all create_hashtable kvs) (\<lambda>tab.
           rbind (find_hashtable tab key) (\<lambda>(found, data, _). Inr (found, data))) =
         Inr (if key \<in> fst ` set kvs then 1 else 0, map_of kvs key)"
proof -
  have "int (length kvs) \<le> 2 ^ 29" using assms by simp
  then show ?thesis
    using ht.look_after_ins [of create_hashtable kvs key] map_of_eq_None_iff [of kvs key]
    by (simp add: insert_all_eq create_hashtable_inv ht.new_tab)
qed

theorem insert_all_find_witness:
  "rbind (insert_all create_hashtable [(''r0'', 1), (''r1'', 2), (''r0'', 3::nat)]) (\<lambda>tab.
     rbind (find_hashtable tab ''r0'') (\<lambda>(found, data, _). Inr (found, data))) = Inr (1, Some 1)"
  by (subst insert_all_find) simp_all

text \<open>The search loop: it does not return exactly when every bucket holds another live key.\<close>

lemma find_loop_stops:
  assumes "find_loop t msk key h inc c = Some y"
  shows "msk = hmask k \<Longrightarrow> k \<le> 30 \<Longrightarrow> length t = 2 ^ k \<Longrightarrow> unat h < 2 ^ k \<Longrightarrow>
    \<exists>i < length t. stops key (t ! i)"
proof (induction rule: find_loop.raw_induct [rotated 1, OF assms, consumes 0])
  case (1 f t msk key h inc c y)
  then show ?case
    using probe_Hit [of t msk key h inc c] probe_Miss_start [of t k key h inc c]
      probe_safe [of k t h key inc c]
    by (auto split: sum.splits probe_result.splits)
qed

text \<open>
  C31: the search for a slot, whose outer loop has no exit condition, runs for ever exactly when
  every bucket holds a live key other than the one searched; so one empty bucket or tombstone is
  enough for it to return.
\<close>

theorem seek_diverges_iff:
  assumes "k \<le> 30" "length t = 2 ^ k"
  shows "seek t (2 ^ k) key = Inl No_Return \<longleftrightarrow>
    (\<forall>i < length t. \<exists>other d. t ! i = Some (Node (Some other) d) \<and> other \<noteq> key)"
proof -
  have iff: "(\<forall>i < length t. \<exists>other d. t ! i = Some (Node (Some other) d) \<and> other \<noteq> key) \<longleftrightarrow>
      \<not> (\<exists>i < length t. stops key (t ! i))"
    by (auto simp: stops_def key_of_eq_Some)
  show ?thesis
  proof (cases "\<exists>i < length t. stops key (t ! i)")
    case True
    then show ?thesis using iff seek_ex [OF assms, of _ key] by (metis Inl_Inr_False)
  next
    case False
    have l: "unat (home k key) < length t" using home_less assms by simp
    have "t ! unat (home k key) \<noteq> None"
      using False l by (metis key_of_simps(1) stops_def)
    moreover have "find_loop t (hmask k) key (home k key) (step_of k key) (2 ^ k) = None"
      using find_loop_stops [OF _ refl assms home_less [OF assms(1)]] False by (metis not_None_eq)
    ultimately have "seek t (2 ^ k) key = Inl No_Return"
      using l by (simp add: seek_eq)
    then show ?thesis using iff False by blast
  qed
qed

theorem seek_diverges_iff_witness:
  "seek [Some (Node (Some ''a'') 0), Some (Node (Some ''b'') 0), Some (Node (Some ''c'') 0),
         Some (Node (Some ''d'') (0::nat))] (2 ^ 2) ''e'' = Inl No_Return"
  by (subst seek_diverges_iff) (auto simp: less_Suc_eq nth_Cons' numeral_eq_Suc)

text \<open>
  removing a key leaves a tombstone at which a lookup of the key stops, so it is no longer
  found; and that lookup, although it changes nothing in the table, takes the tombstone off the
  count.
\<close>

theorem remove_then_find:
  assumes "ht_inv tab" "ht_map tab key = Some d" "ht_tombstones tab = 0"
  shows "rbind (remove_hashtable tab key) (\<lambda>tab.
           rbind (find_hashtable tab key) (\<lambda>(found, data, tab').
             Inr (found, data, ht_tombstones tab, ht_tombstones tab', ht_count tab'))) =
         Inr (0, None, 1, 0, ht_count tab - 1)"
proof -
  obtain k where k: "ht_cap tab = 2 ^ k" "core (ht_table tab) k"
    "ht_count tab = int (length (entries (ht_table tab)))"
    "length (entries (ht_table tab)) < 2 ^ k"
    using ht_invE [OF assms(1)] .
  have k2: "k \<le> 30" "length (ht_table tab) = 2 ^ k" using k(2) unfolding core_def by auto
  obtain s where s: "find_slot tab key = Inr (unat s, tab)" "unat s < length (ht_table tab)"
    "seek (ht_table tab) (2 ^ k) key = Inr (s, False)"
    "ht_table tab ! unat s = Some (Node (Some key) d)"
    using find_slot_core [OF k(2,1,4), of key] assms(2) by (metis option.distinct(1) option.inject)
  have lands: "lands (ht_table tab) k key (home k key) (step_of k key) s False"
    using seek_ex [OF k2 s(2)] s by (metis key_of_simps(2) prod.inject stops_def sum.inject(2))
  let ?t = "(ht_table tab)[unat s := Some (Node None d)]"
  let ?tab = "tab\<lparr>ht_table := ?t, ht_count := ht_count tab - 1, ht_tombstones := 1\<rparr>"
  have "(2::nat) ^ k \<le> 2 ^ 30" using k2(1) by (intro power_increasing) auto
  then have "ht_count tab < 2 ^ 30" using k by simp
  then have "remove_hashtable tab key = Inr ?tab"
    using s assms(3) k(3) by (simp add: remove_hashtable_def)
  moreover have "seek ?t (2 ^ k) key = Inr (s, True)"
    using lands k2 s(2,4) by (intro seek_lands lands_bury) auto
  then have "find_hashtable ?tab key = Inr (0, None, ?tab\<lparr>ht_tombstones := 0\<rparr>)"
    using k(1) s(2) by (simp add: find_hashtable_def find_slot_def)
  ultimately show ?thesis by simp
qed

theorem remove_then_find_witness:
  "rbind (remove_hashtable \<lparr>ht_table = [Some (Node (Some ''a'') (5::nat)), None, None, None],
     ht_cap = 4, ht_count = 1, ht_tombstones = 0\<rparr> ''a'') (\<lambda>tab.
     rbind (find_hashtable tab ''a'') (\<lambda>(found, data, tab').
       Inr (found, data, ht_tombstones tab, ht_tombstones tab', ht_count tab'))) =
   Inr (0, None, 1, 0, 0)"
proof -
  let ?t = "\<lparr>ht_table = [Some (Node (Some ''a'') (5::nat)), None, None, None],
     ht_cap = 4, ht_count = 1, ht_tombstones = 0\<rparr>"
  have ins: "insert_hashtable create_hashtable ''a'' (5::nat) = Inr (1, ?t)" by code_simp
  obtain t where "insert_hashtable create_hashtable ''a'' (5::nat) = Inr (1, t)" "ht_inv t"
    "ht_map t = [''a'' \<mapsto> 5]"
    using ht.ins_new [OF ht.new_tab(1), of "''a''" "5::nat"] by (auto simp: ht.new_tab)
  then have "ht_inv ?t" "ht_map ?t ''a'' = Some 5" using ins by auto
  from remove_then_find [OF this] show ?thesis by simp
qed


end
