(* ===== verification/String_Buffer.thy ===== *)
theory String_Buffer
  imports C_String Pointer_List
begin

text \<open>
  src/src/common/string_buffer.c: the growable C string on which names, literals, command
  line values and file paths are built.

  The record has the fields of \<open>string_t\<close>.  \<open>sb_str s cs\<close> says that the buffer of \<open>s\<close> is
  well formed and holds the terminated string \<open>cs\<close>; \<open>sb_rep s cs\<close> says in addition that the
  field \<open>len\<close> is its length, which some operations do not maintain.  The formatted variants
  (\<^verbatim>\<open>create_string_fmt\<close> and its kin) take the text that vsnprintf produces as an argument.
\<close>

section \<open>The operations\<close>

record string_t =
  sb_buffer :: "char cell list"
  sb_len :: int
  sb_cap :: int

definition append_string :: "string_t \<Rightarrow> string \<Rightarrow> string_t res" where
  "append_string buf str =
     rbind (chk (int (length str))) (\<lambda>len.
     rbind (chk (len + sb_len buf)) (\<lambda>total.
     rbind (chk (total + 1)) (\<lambda>need.
     rbind (if sb_cap buf < need
            then rbind (grow_cap need (sb_cap buf)) (\<lambda>c.
                   Inr (buf\<lparr>sb_cap := c, sb_buffer := blk_realloc (sb_buffer buf) (nat c)\<rparr>))
            else Inr buf) (\<lambda>buf.
     rbind (c_strcat (sb_buffer buf) str) (\<lambda>b.
     rbind (c_strlen b 0) (\<lambda>n.
     rbind (chk n) (\<lambda>n.
     Inr (buf\<lparr>sb_buffer := b, sb_len := n\<rparr>))))))))"

definition create_string :: "string option \<Rightarrow> string_t res" where
  "create_string str =
     (let ptr = \<lparr>sb_buffer = blk_alloc 8 NUL, sb_len = 0, sb_cap = 8\<rparr> in
      case str of None \<Rightarrow> Inr ptr | Some s \<Rightarrow> append_string ptr s)"

definition create_string_fmt :: "string \<Rightarrow> string_t res" where
  "create_string_fmt formatted = create_string (Some formatted)"

fun destroy_string :: "string_t obj \<Rightarrow> string_t obj res" where
  "destroy_string Null = Inr Null"
| "destroy_string (Live s) = Inr Freed"
| "destroy_string Freed = Inl Use_After_Free"

definition append_string_fmt :: "string_t \<Rightarrow> string \<Rightarrow> string_t res" where
  "append_string_fmt buf formatted = append_string buf formatted"

definition append_string_char :: "string_t \<Rightarrow> char \<Rightarrow> string_t res" where
  "append_string_char buf ch =
     rbind (chk (sb_len buf + 1)) (\<lambda>n.
     rbind (if sb_cap buf < n
            then rbind (chk (2 * sb_cap buf)) (\<lambda>c.
                   Inr (buf\<lparr>sb_cap := c, sb_buffer := blk_realloc (sb_buffer buf) (nat c)\<rparr>))
            else Inr buf) (\<lambda>buf.
     rbind (store (sb_buffer buf) (sb_len buf) ch) (\<lambda>b.
     rbind (store b n NUL) (\<lambda>b.
     Inr (buf\<lparr>sb_buffer := b, sb_len := n\<rparr>)))))"

definition append_string_str :: "string_t \<Rightarrow> string_t \<Rightarrow> string_t res" where
  "append_string_str buf str = rbind (cstr (sb_buffer str) 0) (append_string buf)"

definition clear_string :: "string_t \<Rightarrow> string_t res" where
  "clear_string buf =
     rbind (store (sb_buffer buf) 0 NUL) (\<lambda>b. Inr (buf\<lparr>sb_len := 0, sb_buffer := b\<rparr>))"

definition len_string :: "string_t \<Rightarrow> int" where
  "len_string buf = sb_len buf"

definition comp_string :: "string_t \<Rightarrow> string_t \<Rightarrow> int res" where
  "comp_string buf1 buf2 =
     rbind (cstr (sb_buffer buf1) 0) (\<lambda>s.
     rbind (cstr (sb_buffer buf2) 0) (\<lambda>t. Inr (c_strcmp s t)))"

definition comp_string_str :: "string_t \<Rightarrow> string \<Rightarrow> int res" where
  "comp_string_str buf1 buf2 =
     rbind (cstr (sb_buffer buf1) 0) (\<lambda>s. Inr (c_strcmp s buf2))"

definition raw_string :: "string_t option \<Rightarrow> char cell list option" where
  "raw_string str = (case str of Some s \<Rightarrow> Some (sb_buffer s) | None \<Rightarrow> None)"

text \<open>
  strip_space.  The first loop walks down from the terminator and clears spaces; its test
  reads \<open>buffer[len]\<close> before it asks whether \<open>len >= 0\<close>.  The second one counts the leading
  spaces; then the rest is moved to the front.  The field \<open>len\<close> is not touched.
\<close>

function strip_tail :: "char cell list \<Rightarrow> int \<Rightarrow> char cell list res" where
  "strip_tail b len =
     rbind (load b len) (\<lambda>c.
     if (isspace c \<or> c = NUL) \<and> 0 \<le> len
     then rbind (store b len NUL) (\<lambda>b. strip_tail b (len - 1))
     else Inr b)"
  by pat_completeness auto
termination
  by (relation "measure (\<lambda>(b, len). nat (len + 1))") auto

function skip_space :: "char cell list \<Rightarrow> int \<Rightarrow> int res" where
  "skip_space b len =
     rbind (load b len) (\<lambda>c.
     if c \<noteq> NUL \<and> isspace c then skip_space b (len + 1) else Inr len)"
  by pat_completeness auto
termination
  by (relation "measure (\<lambda>(b, len). nat (int (length b) - len))")
     (auto simp: load_def split: if_splits)

declare strip_tail.simps [simp del] skip_space.simps [simp del]

definition strip_space :: "string_t \<Rightarrow> string_t res" where
  "strip_space buf =
     rbind (c_strlen (sb_buffer buf) 0) (\<lambda>n.
     rbind (strip_tail (sb_buffer buf) n) (\<lambda>b.
     rbind (skip_space b 0) (\<lambda>len.
     rbind (c_strlen b len) (\<lambda>rest.
     rbind (mem_move b 0 len (rest + 1)) (\<lambda>b.
     Inr (buf\<lparr>sb_buffer := b\<rparr>))))))"

text \<open>
  strip_char removes the last occurrence of the character until there is none.  Each round
  removes one character, so as many rounds as there are characters, and one to see that
  nothing is left, are enough for any character but the terminator.
\<close>

fun strip_char_loop :: "nat \<Rightarrow> char cell list \<Rightarrow> char \<Rightarrow> char cell list res" where
  "strip_char_loop 0 b ch = Inl No_Return"
| "strip_char_loop (Suc fuel) b ch =
     rbind (cstr b 0) (\<lambda>s.
     case c_strrchr (s @ [NUL]) ch of None \<Rightarrow> Inr b
     | Some temp \<Rightarrow>
         rbind (mem_move b (int temp) (int temp + 1) (int (length s) - int temp + 1)) (\<lambda>b.
         strip_char_loop fuel b ch))"

definition strip_char :: "string_t \<Rightarrow> char \<Rightarrow> string_t res" where
  "strip_char buf ch =
     rbind (strip_space buf) (\<lambda>buf.
     rbind (strip_char_loop (Suc (length (sb_buffer buf))) (sb_buffer buf) ch) (\<lambda>b.
     rbind (c_strlen b 0) (\<lambda>n.
     Inr (buf\<lparr>sb_buffer := b, sb_len := n\<rparr>))))"

definition strip_ends :: "string_t \<Rightarrow> string_t res" where
  "strip_ends buf =
     rbind (strip_space buf) (\<lambda>buf.
     rbind (c_strlen (sb_buffer buf) 0) (\<lambda>n.
     rbind (store (sb_buffer buf) (n - 1) NUL) (\<lambda>b.
     rbind (c_strlen b 0) (\<lambda>m.
     rbind (mem_move b 0 1 m) (\<lambda>b.
     Inr (buf\<lparr>sb_buffer := b\<rparr>))))))"

text \<open>The loops of upcase and downcase: rewrite each character up to the terminator.\<close>

function map_chars :: "(char \<Rightarrow> char) \<Rightarrow> char cell list \<Rightarrow> int \<Rightarrow> char cell list res" where
  "map_chars f b i =
     rbind (load b i) (\<lambda>c.
     if c \<noteq> NUL then rbind (store b i (f c)) (\<lambda>b. map_chars f b (i + 1)) else Inr b)"
  by pat_completeness auto
termination
  by (relation "measure (\<lambda>(f, b, i). nat (int (length b) - i))")
     (auto simp: load_def store_def split: if_splits)

declare map_chars.simps [simp del]

definition upcase :: "string_t \<Rightarrow> string_t res" where
  "upcase buf =
     rbind (map_chars toupper (sb_buffer buf) 0) (\<lambda>b. Inr (buf\<lparr>sb_buffer := b\<rparr>))"

definition downcase :: "string_t \<Rightarrow> string_t res" where
  "downcase buf =
     rbind (map_chars tolower (sb_buffer buf) 0) (\<lambda>b. Inr (buf\<lparr>sb_buffer := b\<rparr>))"

text \<open>The table of names and its lookup; every name is shorter than the 64 bytes offered.\<close>

definition conv_tab :: "(char \<times> string) list" where
  "conv_tab =
    [(CHR ''~'', ''TILDE''), (CHR 0x60, ''BQUOTE''), (CHR ''!'', ''BANG''), (CHR ''@'', ''AT''),
     (CHR ''#'', ''POUND''), (CHR ''$'', ''DOLLAR''), (CHR ''%'', ''PERCENT''),
     (CHR ''^'', ''CARET''), (CHR ''&'', ''AMP''), (CHR ''*'', ''STAR''), (CHR ''('', ''OPAREN''),
     (CHR '')'', ''CPAREN''), (CHR ''-'', ''MINUS''), (CHR ''='', ''EQUAL''), (CHR ''+'', ''PLUS''),
     (CHR ''['', ''OSBRACE''), (CHR ''{'', ''OCBRACE''), (CHR '']'', ''CSBRACE''),
     (CHR ''}'', ''CCBRACE''), (CHR 0x5C, ''BSLASH''), (CHR ''|'', ''BAR''), (CHR '';'', ''SCOLON''),
     (CHR '':'', ''COLON''), (CHR 0x27, ''SQUOTE''), (CHR 0x22, ''DQUOTE''), (CHR '','', ''COMMA''),
     (CHR ''<'', ''OPBRACE''), (CHR ''.'', ''DOT''), (CHR ''>'', ''CPBRACE''), (CHR ''/'', ''SLASH''),
     (CHR ''?'', ''QUESTION'')]"

definition conv_char :: "char \<Rightarrow> string" where
  "conv_char ch = (case map_of conv_tab ch of Some s \<Rightarrow> s | None \<Rightarrow> [ch])"

text \<open>One round of the loop of convert; \<open>nxt\<close> is the character that follows.\<close>

definition convert_step :: "string_t \<Rightarrow> char \<Rightarrow> char \<Rightarrow> string_t res" where
  "convert_step buf c nxt =
     (if \<not> ispunct c \<or> c = CHR ''_'' then append_string_char buf (toupper c)
      else rbind (append_string buf (conv_char c)) (\<lambda>buf.
           if nxt \<noteq> NUL then append_string_char buf (CHR ''_'') else Inr buf))"

function convert_loop :: "char cell list \<Rightarrow> int \<Rightarrow> string_t \<Rightarrow> string_t res" where
  "convert_loop b i buf =
     rbind (load b i) (\<lambda>c.
     if c \<noteq> NUL
     then rbind (load b (i + 1)) (\<lambda>nxt.
          rbind (convert_step buf c nxt) (convert_loop b (i + 1)))
     else Inr buf)"
  by pat_completeness auto
termination
  by (relation "measure (\<lambda>(b, i, buf). nat (int (length b) - i))")
     (auto simp: load_def split: if_splits)

declare convert_loop.simps [simp del]

definition convert :: "string_t \<Rightarrow> string_t res" where
  "convert str = rbind (create_string None) (convert_loop (sb_buffer str) 0)"

definition copy_string :: "string_t \<Rightarrow> string_t res" where
  "copy_string buf = rbind (cstr (sb_buffer buf) 0) (\<lambda>s. create_string (Some s))"

text \<open>What emit_string writes to its file.\<close>

definition emit_string :: "string_t \<Rightarrow> string res" where
  "emit_string ptr = cstr (sb_buffer ptr) 0"

text \<open>
  The functions with a format take the formatted string, as vsnprintf gives it; emit_string_fmt
  makes a copy of it in memory and writes that.
\<close>

definition emit_string_fmt :: "string \<Rightarrow> string res" where
  "emit_string_fmt formatted =
     (let str = map Val (formatted @ [NUL]) in cstr str 0)"

section \<open>Representation\<close>

definition sb_str :: "string_t \<Rightarrow> string \<Rightarrow> bool" where
  "sb_str s cs \<longleftrightarrow>
     sb_cap s = int (length (sb_buffer s)) \<and> cap_ok (sb_cap s) \<and> str_at (sb_buffer s) cs"

definition sb_rep :: "string_t \<Rightarrow> string \<Rightarrow> bool" where
  "sb_rep s cs \<longleftrightarrow> sb_str s cs \<and> sb_len s = int (length cs)"

lemma sb_strD:
  assumes "sb_str s cs"
  shows "sb_cap s = int (length (sb_buffer s))" "cap_ok (sb_cap s)" "str_at (sb_buffer s) cs"
    "int (length cs) < sb_cap s" "sb_cap s \<le> 2 ^ 30" "nul_free cs"
proof -
  show a: "sb_cap s = int (length (sb_buffer s))" "cap_ok (sb_cap s)" "str_at (sb_buffer s) cs"
    using assms by (auto simp: sb_str_def)
  show "nul_free cs" "int (length cs) < sb_cap s" using str_atD [OF a(3)] a(1) by simp_all
  show "sb_cap s \<le> 2 ^ 30" using cap_ok_bounds [OF a(2)] by simp
qed

lemma sb_rep_str: "sb_rep s cs \<Longrightarrow> sb_str s cs"
  by (simp add: sb_rep_def)

lemma sb_str_unique: "sb_str s cs \<Longrightarrow> sb_str s ds \<Longrightarrow> cs = ds"
  by (auto simp: sb_str_def intro: str_at_unique)

lemma str_at_realloc: "str_at b cs \<Longrightarrow> length cs < n \<Longrightarrow> str_at (blk_realloc b n) cs"
  by (auto simp: str_at_def intro!: holds_realloc)

lemma append_string_rep:
  assumes s: "sb_rep s xs" and ys: "nul_free ys" and n: "length xs + length ys < 2 ^ 30"
  shows "\<exists>s'. append_string s ys = Inr s' \<and> sb_rep s' (xs @ ys)"
proof -
  note r = sb_strD [OF sb_rep_str [OF s]]
  have len: "sb_len s = int (length xs)" using s by (simp add: sb_rep_def)
  let ?need = "int (length ys) + int (length xs) + 1"
  obtain c where c: "grow_cap ?need (sb_cap s) = Inr c" "cap_ok c" "?need \<le> c" "sb_cap s \<le> c"
    using grow_cap_ok [OF r(2), of ?need] n by auto
  let ?b = "if sb_cap s < ?need then blk_realloc (sb_buffer s) (nat c) else sb_buffer s"
  have b: "str_at ?b xs" "length xs + length ys < length ?b"
    using r c by (auto intro!: str_at_realloc)
  obtain b' where b': "c_strcat ?b ys = Inr b'" "str_at b' (xs @ ys)" "length b' = length ?b"
    using c_strcat_at [OF b(1) ys] b(2) by auto
  then show ?thesis
    using r c n len cap_ok_bounds [OF c(2)]
    by (auto simp: append_string_def sb_rep_def sb_str_def split: if_splits)
qed

lemma append_string_too_long:
  assumes s: "sb_rep s xs" and n: "2 ^ 30 \<le> length xs + length ys"
  shows "append_string s ys = Inl Int_Overflow"
proof -
  note r = sb_strD [OF sb_rep_str [OF s]]
  have len: "sb_len s = int (length xs)" using s by (simp add: sb_rep_def)
  show ?thesis
    using r n len grow_cap_overflow [OF r(2)] by (auto simp: append_string_def chk_def)
qed

lemma create_string_None: "\<exists>s. create_string None = Inr s \<and> sb_rep s []"
  by (auto simp: create_string_def sb_rep_def sb_str_def str_at_def intro!: holds_alloc)

lemma create_string_rep:
  assumes "nul_free cs" "length cs < 2 ^ 30"
  shows "\<exists>s. create_string (Some cs) = Inr s \<and> sb_rep s cs"
proof -
  have "sb_rep \<lparr>sb_buffer = blk_alloc 8 NUL, sb_len = 0, sb_cap = 8\<rparr> []"
    by (auto simp: sb_rep_def sb_str_def str_at_def intro!: holds_alloc)
  from append_string_rep [OF this assms(1)] assms(2) show ?thesis
    by (simp add: create_string_def)
qed

lemma append_string_char_rep:
  assumes s: "sb_rep s xs" and c: "c \<noteq> NUL" and n: "int (length xs) + 1 < sb_cap s"
  shows "\<exists>s'. append_string_char s c = Inr s' \<and> sb_rep s' (xs @ [c]) \<and> sb_cap s' = sb_cap s"
proof -
  note r = sb_strD [OF sb_rep_str [OF s]]
  let ?b = "(sb_buffer s)[length xs := Val c, Suc (length xs) := Val NUL]"
  have "holds (sb_buffer s) xs" using r(3) by (rule str_at_holds)
  then have "holds ?b ((xs @ [c]) @ [NUL])"
    using n r(1) by (intro holds_snoc) auto
  then show ?thesis
    using s r c n by (auto simp: append_string_char_def sb_rep_def sb_str_def str_at_def store_def)
qed

lemma append_string_char_last:
  assumes s: "sb_rep s xs" and n: "int (length xs) + 1 = sb_cap s"
  shows "append_string_char s c = Inl Out_Of_Bounds"
  using sb_strD [OF sb_rep_str [OF s]] s n
  by (auto simp: append_string_char_def sb_rep_def store_def)

lemma append_string_str_rep:
  "sb_rep s xs \<Longrightarrow> sb_str t ys \<Longrightarrow> length xs + length ys < 2 ^ 30 \<Longrightarrow>
   \<exists>s'. append_string_str s t = Inr s' \<and> sb_rep s' (xs @ ys)"
  using append_string_rep [of s xs ys] sb_strD [of t ys] by (simp add: append_string_str_def)

lemma clear_string_rep:
  assumes "sb_str s cs"
  shows "\<exists>s'. clear_string s = Inr s' \<and> sb_rep s' []"
proof -
  note r = sb_strD [OF assms]
  have "0 < length (sb_buffer s)" using r(1) cap_ok_bounds [OF r(2)] by linarith
  moreover from this have "holds ((sb_buffer s)[0 := Val NUL]) [NUL]"
    using holds_snoc [of "sb_buffer s" "[]" 0 NUL] by simp
  ultimately show ?thesis
    using r by (simp add: clear_string_def sb_rep_def sb_str_def str_at_def store_def)
qed

lemma comp_string_rep: "sb_str s xs \<Longrightarrow> sb_str t ys \<Longrightarrow> comp_string s t = Inr (c_strcmp xs ys)"
  by (auto simp: comp_string_def sb_str_def)

lemma comp_string_str_rep: "sb_str s xs \<Longrightarrow> comp_string_str s t = Inr (c_strcmp xs t)"
  by (auto simp: comp_string_str_def sb_str_def)

lemma copy_string_rep: "sb_str s cs \<Longrightarrow> \<exists>t. copy_string s = Inr t \<and> sb_rep t cs"
  using create_string_rep [of cs] sb_strD [of s cs] by (simp add: copy_string_def)

section \<open>Trimming and rewriting\<close>

definition rtrim :: "string \<Rightarrow> string" where
  "rtrim cs = rev (dropWhile isspace (rev cs))"

definition trim :: "string \<Rightarrow> string" where
  "trim cs = dropWhile isspace (rtrim cs)"

definition blank :: "string \<Rightarrow> bool" where
  "blank cs \<longleftrightarrow> (\<forall>c \<in> set cs. isspace c)"

lemma rtrim_snoc [simp]: "rtrim (cs @ [c]) = (if isspace c then rtrim cs else cs @ [c])"
  by (simp add: rtrim_def)

lemma rtrim_prefix: "\<exists>ds. cs = rtrim cs @ ds \<and> blank ds"
  using takeWhile_dropWhile_id [of isspace "rev cs"]
  by (intro exI [of _ "rev (takeWhile isspace (rev cs))"])
     (auto simp: rtrim_def blank_def dest: set_takeWhileD simp flip: rev_append)

lemma nul_free_rtrim: "nul_free cs \<Longrightarrow> nul_free (rtrim cs)"
  by (metis rtrim_prefix nul_free_simps(3))

lemma rtrim_not_blank: "\<not> blank cs \<Longrightarrow> \<not> blank (rtrim cs)"
  using rtrim_prefix [of cs] unfolding blank_def by (metis Un_iff set_append)

lemma trim_not_blank: "\<not> blank cs \<Longrightarrow> trim cs \<noteq> []"
  using rtrim_not_blank [of cs] by (auto simp: trim_def blank_def dropWhile_eq_Nil_conv)

lemma length_trim: "length (trim cs) \<le> length cs"
  by (simp add: trim_def rtrim_def order_trans [OF length_dropWhile_le])

lemma holds_ex: "holds b xs \<longleftrightarrow> (\<exists>r. b = map Val xs @ r)"
  by (metis append_take_drop_id append_eq_conv_conj holds_def length_map)

lemma strip_tail_at:
  "holds b (cs @ [NUL]) \<Longrightarrow> nul_free cs \<Longrightarrow>
   (if blank cs then strip_tail b (int (length cs) - 1) = Inl Out_Of_Bounds
    else \<exists>b'. strip_tail b (int (length cs) - 1) = Inr b' \<and> length b' = length b \<and>
          holds b' (rtrim cs @ [NUL]))"
proof (induction cs arbitrary: b rule: rev_induct)
  case Nil
  then show ?case by (simp add: blank_def strip_tail.simps)
next
  case (snoc c ds)
  have len: "Suc (length ds) < length b" using holds_length [OF snoc.prems(1)] by simp
  have ld: "load b (int (length ds)) = Inr c"
    using load_holds [OF snoc.prems(1), of "int (length ds)"] by (simp add: nth_append)
  show ?case
  proof (cases "isspace c")
    case True
    let ?b = "b[length ds := Val NUL]"
    have "holds b ds" using snoc.prems(1) by (simp add: holds_append_iff)
    then have "holds ?b (ds @ [NUL])" using len by (intro holds_snoc) auto
    moreover have "strip_tail b (int (length (ds @ [c])) - 1) = strip_tail ?b (int (length ds) - 1)"
      using ld True len by (simp add: strip_tail.simps [of b] store_def)
    ultimately show ?thesis
      using snoc.IH [of ?b] snoc.prems(2) True by (auto simp: blank_def split: if_splits)
  next
    case False
    then have "strip_tail b (int (length (ds @ [c])) - 1) = Inr b"
      using ld snoc.prems(2) by (simp add: strip_tail.simps [of b])
    then show ?thesis using False snoc.prems(1) by (auto simp: blank_def)
  qed
qed

lemma strip_tail_str:
  assumes "str_at b cs"
  shows "if blank cs then strip_tail b (int (length cs)) = Inl Out_Of_Bounds
    else \<exists>b'. strip_tail b (int (length cs)) = Inr b' \<and> length b' = length b \<and> str_at b' (rtrim cs)"
proof -
  have len: "length cs < length b" and nf: "nul_free cs" using str_atD [OF assms] by simp_all
  have "load b (int (length cs)) = Inr NUL" using str_at_load [OF assms, of "length cs"] by simp
  then have eq: "strip_tail b (int (length cs)) =
      strip_tail (b[length cs := Val NUL]) (int (length cs) - 1)"
    using len by (simp add: strip_tail.simps [of b] store_def)
  have "holds (b[length cs := Val NUL]) (cs @ [NUL])"
    using str_at_holds [OF assms] len by (intro holds_snoc) auto
  from strip_tail_at [OF this nf] show ?thesis
    using eq nf nul_free_rtrim by (auto simp: str_at_def split: if_splits)
qed

lemma skip_space_str:
  assumes "str_at b cs"
  shows "i \<le> length cs \<Longrightarrow>
    skip_space b (int i) = Inr (int (i + length (takeWhile isspace (drop i cs))))"
proof (induction "length cs - i" arbitrary: i)
  case 0
  then have i: "i = length cs" by simp
  then show ?case
    using str_at_load [OF assms, of i] by (simp add: skip_space.simps [of b])
next
  case (Suc n)
  then have i: "i < length cs" by simp
  have ld: "load b (int i) = Inr (cs ! i)"
    using str_at_load [OF assms, of i] i by (simp add: nth_append)
  have nn: "cs ! i \<noteq> NUL" using assms i by (metis nth_mem nul_free_def str_at_def)
  have "skip_space b (int (Suc i)) =
      Inr (int (Suc i + length (takeWhile isspace (drop (Suc i) cs))))"
    using Suc.hyps(2) i by (intro Suc.hyps(1)) auto
  then show ?case
    using ld nn i
    by (simp add: skip_space.simps [of b "int i"] Cons_nth_drop_Suc [OF i, symmetric] add.commute)
qed

lemma mem_move_str:
  assumes s: "str_at b cs" and "d \<le> i" "i \<le> length cs" "length cs < i + n" "i + n \<le> length b"
  shows "\<exists>b'. mem_move b (int d) (int i) (int n) = Inr b' \<and> length b' = length b \<and>
     str_at b' (take d cs @ drop i cs)"
proof -
  obtain r where r: "b = map Val (cs @ [NUL]) @ r" using s by (auto simp: str_at_def holds_ex)
  let ?b = "take d b @ take n (drop i b) @ drop (d + n) b"
  have mv: "mem_move b (int d) (int i) (int n) = Inr ?b" using assms by (intro mem_move_in) auto
  have "take d b = map Val (take d cs)" using assms r by (simp add: take_map)
  moreover have "drop i b = map Val (drop i cs @ [NUL]) @ r" using assms r by (simp add: drop_map)
  moreover have "take n (map Val (drop i cs @ [NUL]) @ r) =
      map Val (drop i cs @ [NUL]) @ take (n - length (drop i cs @ [NUL])) r"
    using assms by (subst take_append) simp
  ultimately have "\<exists>r'. ?b = map Val ((take d cs @ drop i cs) @ [NUL]) @ r'" by auto
  then have "str_at ?b (take d cs @ drop i cs)"
    using s unfolding str_at_def holds_ex by auto
  then show ?thesis using mv length_mem_move [OF mv] by blast
qed

lemma strip_space_rep:
  assumes s: "sb_str s cs" and nb: "\<not> blank cs"
  shows "\<exists>s'. strip_space s = Inr s' \<and> sb_str s' (trim cs) \<and> sb_len s' = sb_len s \<and>
    sb_cap s' = sb_cap s"
proof -
  note r = sb_strD [OF s]
  obtain b where b: "strip_tail (sb_buffer s) (int (length cs)) = Inr b"
    "length b = length (sb_buffer s)" "str_at b (rtrim cs)"
    using strip_tail_str [OF r(3)] nb by auto
  let ?i = "length (takeWhile isspace (rtrim cs))"
  have i: "?i \<le> length (rtrim cs)" by (rule length_takeWhile_le)
  have sk: "skip_space b 0 = Inr (int ?i)" using skip_space_str [OF b(3), of 0] by simp
  have ln: "c_strlen b (int ?i) = Inr (int (length (rtrim cs) - ?i))"
    using c_strlen_at [OF b(3) i] by simp
  obtain b' where b': "mem_move b (int 0) (int ?i) (int (length (rtrim cs) - ?i + 1)) = Inr b'"
    "length b' = length b" "str_at b' (take 0 (rtrim cs) @ drop ?i (rtrim cs))"
    using mem_move_str [OF b(3), of 0 ?i "length (rtrim cs) - ?i + 1"] str_atD [OF b(3)] i by auto
  have "drop ?i (rtrim cs) = trim cs" by (simp add: trim_def dropWhile_eq_drop)
  then show ?thesis
    using r b b' sk ln by (simp add: strip_space_def sb_str_def add.commute)
qed

lemma strip_space_blank:
  assumes "sb_str s cs" "blank cs"
  shows "strip_space s = Inl Out_Of_Bounds"
  using sb_strD(3) [OF assms(1)] strip_tail_str [of "sb_buffer s" cs] assms(2)
  by (simp add: strip_space_def)

lemma strip_ends_rep:
  assumes s: "sb_str s cs" and nb: "\<not> blank cs"
  shows "\<exists>s'. strip_ends s = Inr s' \<and> sb_str s' (tl (butlast (trim cs))) \<and> sb_len s' = sb_len s"
proof -
  let ?t = "trim cs"
  obtain s1 where s1: "strip_space s = Inr s1" "sb_str s1 ?t" "sb_len s1 = sb_len s"
    using strip_space_rep [OF s nb] by blast
  note r = sb_strD [OF s1(2)]
  obtain n where n: "length ?t = Suc n"
    using trim_not_blank [OF nb] by (cases "length ?t") auto
  let ?b = "(sb_buffer s1)[n := Val NUL]"
  have len: "Suc n < length (sb_buffer s1)" using r n by simp
  have "holds (sb_buffer s1) (butlast ?t)"
    using str_at_holds [OF r(3)] by (rule holds_butlast)
  then have "holds ?b (butlast ?t @ [NUL])" using n len by (intro holds_snoc) auto
  moreover have "nul_free (butlast ?t)" using r(6) by (simp add: butlast_conv_take)
  ultimately have b: "str_at ?b (butlast ?t)" by (simp add: str_at_def)
  have "\<exists>b'. mem_move ?b 0 1 (int n) = Inr b' \<and> length b' = length ?b \<and>
      str_at b' (tl (butlast ?t))"
  proof (cases n)
    case 0
    then have "butlast ?t = []" using n by (metis length_butlast diff_Suc_1 length_0_conv)
    then show ?thesis using b 0 len by (auto simp: mem_move_def)
  next
    case (Suc m)
    then show ?thesis
      using mem_move_str [OF b, of 0 1 n] len n by (simp add: drop_Suc)
  qed
  then obtain b' where b': "mem_move ?b 0 1 (int n) = Inr b'" "length b' = length ?b"
    "str_at b' (tl (butlast ?t))" by blast
  have "c_strlen ?b 0 = Inr (int n)" using c_strlen_at_0 [OF b] n by simp
  moreover have "c_strlen (sb_buffer s1) 0 = Inr (int (Suc n))" using c_strlen_at_0 [OF r(3)] n by simp
  moreover have "store (sb_buffer s1) (int n) NUL = Inr ?b" using len by (simp add: store_def)
  ultimately have "strip_ends s = Inr (s1\<lparr>sb_buffer := b'\<rparr>)"
    using s1(1) b'(1) by (simp add: strip_ends_def)
  then show ?thesis using s1(3) r(1,2) b' by (simp add: sb_str_def)
qed

lemma map_chars_str:
  assumes f: "\<And>c. f c = NUL \<longleftrightarrow> c = NUL"
  shows "str_at b (xs @ ys) \<Longrightarrow>
    \<exists>b'. map_chars f b (int (length xs)) = Inr b' \<and> str_at b' (xs @ map f ys) \<and>
      length b' = length b"
proof (induction ys arbitrary: b xs)
  case Nil
  then show ?case
    using str_at_load [of b xs "length xs"] by (simp add: map_chars.simps [of f b])
next
  case (Cons y ys)
  have ld: "load b (int (length xs)) = Inr y"
    using str_at_load [OF Cons.prems, of "length xs"] by simp
  have nf: "nul_free (xs @ y # ys)" and len: "length (xs @ y # ys) < length b"
    using str_atD [OF Cons.prems] by simp_all
  let ?b = "b[length xs := Val (f y)]"
  have "holds ?b ((xs @ y # ys @ [NUL])[length xs := f y])"
    using Cons.prems by (intro holds_upd) (auto simp: str_at_def)
  then have "str_at ?b ((xs @ [f y]) @ ys)" using nf f by (simp add: str_at_def)
  from Cons.IH [OF this] show ?case
    using ld nf len by (simp add: map_chars.simps [of f b] store_def add.commute)
qed

lemma upcase_rep:
  "sb_rep s cs \<Longrightarrow> \<exists>s'. upcase s = Inr s' \<and> sb_rep s' (map toupper cs)"
  using map_chars_str [of toupper "sb_buffer s" "[]" cs]
  by (auto simp: upcase_def sb_rep_def sb_str_def)

lemma downcase_rep:
  "sb_rep s cs \<Longrightarrow> \<exists>s'. downcase s = Inr s' \<and> sb_rep s' (map tolower cs)"
  using map_chars_str [of tolower "sb_buffer s" "[]" cs]
  by (auto simp: downcase_def sb_rep_def sb_str_def)

lemma c_strrchr_snoc: "ch \<noteq> NUL \<Longrightarrow> c_strrchr (cs @ [NUL]) ch = c_strrchr cs ch"
  by (induction cs) (auto split: option.splits)

lemma strip_char_loop_str:
  "str_at b cs \<Longrightarrow> length cs + 1 < length b \<Longrightarrow> ch \<noteq> NUL \<Longrightarrow> length cs < fuel \<Longrightarrow>
   \<exists>b'. strip_char_loop fuel b ch = Inr b' \<and> length b' = length b \<and>
     str_at b' (filter (\<lambda>c. c \<noteq> ch) cs)"
proof (induction fuel arbitrary: b cs)
  case (Suc fuel)
  show ?case
  proof (cases "c_strrchr cs ch")
    case None
    then have "filter (\<lambda>c. c \<noteq> ch) cs = cs" by (auto simp: c_strrchr_None intro: filter_True)
    then show ?thesis using Suc.prems None by (simp add: c_strrchr_snoc)
  next
    case (Some i)
    then have i: "i < length cs" "cs ! i = ch" using c_strrchr_Some by blast+
    have mv: "\<exists>b'. mem_move b (int i) (int (Suc i)) (int (length cs - i + 1)) = Inr b' \<and>
        length b' = length b \<and> str_at b' (take i cs @ drop (Suc i) cs)"
      using i Suc.prems by (intro mem_move_str) auto
    moreover have "int (length cs - i + 1) = int (length cs) - int i + 1" using i by simp
    ultimately obtain b' where b': "mem_move b (int i) (int i + 1) (int (length cs) - int i + 1) = Inr b'"
      "length b' = length b" "str_at b' (take i cs @ drop (Suc i) cs)"
      by (auto simp: add.commute)
    have "cs = take i cs @ ch # drop (Suc i) cs" using i id_take_nth_drop by metis
    from arg_cong [OF this, of "filter (\<lambda>c. c \<noteq> ch)"]
    have "filter (\<lambda>c. c \<noteq> ch) cs = filter (\<lambda>c. c \<noteq> ch) (take i cs @ drop (Suc i) cs)"
      by simp
    moreover have "strip_char_loop (Suc fuel) b ch = strip_char_loop fuel b' ch"
      using Suc.prems(1,3) b'(1) Some by (simp add: c_strrchr_snoc)
    moreover have "\<exists>b''. strip_char_loop fuel b' ch = Inr b'' \<and> length b'' = length b' \<and>
        str_at b'' (filter (\<lambda>c. c \<noteq> ch) (take i cs @ drop (Suc i) cs))"
      using Suc.prems b'(2) i(1) by (intro Suc.IH [OF b'(3)]) auto
    ultimately show ?thesis using b'(2) by simp
  qed
qed simp

lemma strip_char_rep:
  assumes s: "sb_str s cs" and nb: "\<not> blank cs" and ch: "ch \<noteq> NUL"
    and room: "int (length (trim cs)) + 1 < sb_cap s"
  shows "\<exists>s'. strip_char s ch = Inr s' \<and> sb_rep s' (filter (\<lambda>c. c \<noteq> ch) (trim cs))"
proof -
  obtain s1 where s1: "strip_space s = Inr s1" "sb_str s1 (trim cs)" "sb_cap s1 = sb_cap s"
    using strip_space_rep [OF s nb] by blast
  note r = sb_strD [OF s1(2)]
  obtain b where "strip_char_loop (Suc (length (sb_buffer s1))) (sb_buffer s1) ch = Inr b"
    "length b = length (sb_buffer s1)" "str_at b (filter (\<lambda>c. c \<noteq> ch) (trim cs))"
    using strip_char_loop_str [OF r(3) _ ch, of "Suc (length (sb_buffer s1))"] r room s1(3) by auto
  then show ?thesis using s1 r by (simp add: strip_char_def sb_rep_def sb_str_def)
qed

lemma strip_char_overread:
  assumes s: "sb_str s cs" and nb: "\<not> blank cs" and ch: "ch \<noteq> NUL" "ch \<in> set (trim cs)"
    and full: "int (length (trim cs)) + 1 = sb_cap s"
  shows "strip_char s ch = Inl Out_Of_Bounds"
proof -
  obtain s1 where s1: "strip_space s = Inr s1" "sb_str s1 (trim cs)" "sb_cap s1 = sb_cap s"
    using strip_space_rep [OF s nb] by blast
  note r = sb_strD [OF s1(2)]
  obtain i where i: "c_strrchr (trim cs) ch = Some i" using ch(2) by (metis c_strrchr_None not_None_eq)
  then show ?thesis
    using s1 r ch full by (simp add: strip_char_def c_strrchr_snoc mem_move_def)
qed

section \<open>Converting a string to an identifier\<close>

definition plain :: "char \<Rightarrow> bool" where
  "plain c \<longleftrightarrow> \<not> ispunct c \<or> c = CHR ''_''"

fun conv_spec :: "string \<Rightarrow> string" where
  "conv_spec [] = []"
| "conv_spec (c # cs) =
     (if plain c then [toupper c] else conv_char c @ (if cs = [] then [] else ''_'')) @ conv_spec cs"

lemma conv_char_nul_free: "c \<noteq> NUL \<Longrightarrow> nul_free (conv_char c)"
proof -
  have "\<forall>p \<in> set conv_tab. nul_free (snd p)" by (simp add: conv_tab_def)
  then show "c \<noteq> NUL \<Longrightarrow> nul_free (conv_char c)"
    by (fastforce simp: conv_char_def split: option.splits dest: map_of_SomeD)
qed

lemma convert_loads:
  assumes "str_at b (xs @ c # cs)"
  shows "load b (int (length xs)) = Inr c" "c \<noteq> NUL"
    "load b (int (length xs) + 1) = Inr (case cs of [] \<Rightarrow> NUL | d # _ \<Rightarrow> d)"
    "(case cs of [] \<Rightarrow> NUL | d # _ \<Rightarrow> d) = NUL \<longleftrightarrow> cs = []"
proof -
  show "load b (int (length xs)) = Inr c" using str_at_load [OF assms, of "length xs"] by simp
  show "c \<noteq> NUL" using str_atD [OF assms] by simp
  show "load b (int (length xs) + 1) = Inr (case cs of [] \<Rightarrow> NUL | d # _ \<Rightarrow> d)"
    using str_at_load [OF assms, of "Suc (length xs)"]
    by (simp add: nth_append add.commute split: list.split)
  show "(case cs of [] \<Rightarrow> NUL | d # _ \<Rightarrow> d) = NUL \<longleftrightarrow> cs = []"
    using str_atD [OF assms] by (auto split: list.splits)
qed

lemma convert_step_rep:
  assumes s: "sb_rep buf zs" and c: "c \<noteq> NUL" and n: "nxt = NUL \<longleftrightarrow> cs = []"
    and room: "length zs + length (conv_spec (c # cs)) < 8"
  shows "\<exists>t. convert_step buf c nxt = Inr t \<and>
    sb_rep t (zs @ (if plain c then [toupper c] else conv_char c @ (if cs = [] then [] else ''_'')))"
proof -
  have cap: "8 \<le> sb_cap s" if "sb_rep s us" for s us
    using that sb_strD(2) [OF sb_rep_str [OF that]] cap_ok_bounds by blast
  show ?thesis
  proof (cases "plain c")
    case True
    then show ?thesis
      using append_string_char_rep [OF s, of "toupper c"] cap [OF s] c room
      by (auto simp: convert_step_def plain_def)
  next
    case False
    obtain t where t: "append_string buf (conv_char c) = Inr t" "sb_rep t (zs @ conv_char c)"
      using append_string_rep [OF s conv_char_nul_free [OF c]] room False by auto
    show ?thesis
      using t append_string_char_rep [OF t(2), of "CHR ''_''"] cap [OF t(2)] n room False
      by (auto simp: convert_step_def plain_def)
  qed
qed

lemma convert_loop_rep:
  "str_at b (xs @ ys) \<Longrightarrow> sb_rep buf zs \<Longrightarrow> length zs + length (conv_spec ys) < 8 \<Longrightarrow>
   \<exists>t. convert_loop b (int (length xs)) buf = Inr t \<and> sb_rep t (zs @ conv_spec ys)"
proof (induction ys arbitrary: xs buf zs)
  case Nil
  then show ?case
    using str_at_load [of b xs "length xs"] by (simp add: convert_loop.simps [of b])
next
  case (Cons c cs)
  note ld = convert_loads [OF Cons.prems(1)]
  let ?nxt = "case cs of [] \<Rightarrow> NUL | d # _ \<Rightarrow> d"
  let ?zs = "zs @ (if plain c then [toupper c] else conv_char c @ (if cs = [] then [] else ''_''))"
  obtain t where t: "convert_step buf c ?nxt = Inr t" "sb_rep t ?zs"
    using convert_step_rep [OF Cons.prems(2) ld(2,4) Cons.prems(3)] by blast
  have "str_at b ((xs @ [c]) @ cs)" using Cons.prems(1) by simp
  from Cons.IH [OF this t(2)] Cons.prems(3)
  have "\<exists>u. convert_loop b (int (length (xs @ [c]))) t = Inr u \<and> sb_rep u (?zs @ conv_spec cs)"
    by (auto split: if_splits)
  then show ?case
    using ld t(1) by (simp add: convert_loop.simps [of b "int (length xs)"] add.commute)
qed

lemma convert_loop_overflow:
  "str_at b (xs @ ys) \<Longrightarrow> sb_rep buf zs \<Longrightarrow> sb_cap buf = 8 \<Longrightarrow>
   8 \<le> length zs + length (takeWhile plain ys) \<Longrightarrow>
   convert_loop b (int (length xs)) buf = Inl Out_Of_Bounds"
proof (induction ys arbitrary: xs buf zs)
  case Nil
  then show ?case using sb_strD(4) [OF sb_rep_str [OF Nil.prems(2)]] by simp
next
  case (Cons c cs)
  note ld = convert_loads [OF Cons.prems(1)]
  have lt: "length zs < 8" using sb_strD(4) [OF sb_rep_str [OF Cons.prems(2)]] Cons.prems(3) by simp
  then have pc: "plain c" using Cons.prems(4) by (auto split: if_splits)
  have unfold: "convert_loop b (int (length xs)) buf =
      rbind (append_string_char buf (toupper c)) (convert_loop b (int (length xs) + 1))"
    using ld pc by (simp add: convert_loop.simps [of b "int (length xs)"] convert_step_def plain_def)
  show ?case
  proof (cases "length zs = 7")
    case True
    then show ?thesis
      using append_string_char_last [OF Cons.prems(2), of "toupper c"] Cons.prems(3) unfold by simp
  next
    case False
    obtain t where t: "append_string_char buf (toupper c) = Inr t" "sb_rep t (zs @ [toupper c])"
      "sb_cap t = 8"
      using append_string_char_rep [OF Cons.prems(2), of "toupper c"] ld(2) lt False Cons.prems(3) by auto
    have "str_at b ((xs @ [c]) @ cs)" using Cons.prems(1) by simp
    from Cons.IH [OF this t(2,3)] Cons.prems(4) pc
    show ?thesis using unfold t(1) by (simp add: add.commute)
  qed
qed

section \<open>Properties\<close>



text \<open>append_string_char never grows the buffer in time.  Its capacity test leaves out the
  terminator, so on a well-formed string it succeeds exactly when two more bytes fit, and
  when the string fills its buffer up to the terminator it stores the new terminator one
  byte behind the block.\<close>

theorem append_string_char_overruns:
  assumes "sb_rep s xs" "c \<noteq> NUL"
  shows "if int (length xs) + 1 < sb_cap s
    then \<exists>s'. append_string_char s c = Inr s' \<and> sb_rep s' (xs @ [c])
    else int (length xs) + 1 = sb_cap s \<and> append_string_char s c = Inl Out_Of_Bounds"
  using append_string_char_rep [OF assms] append_string_char_last [OF assms(1), of c]
    sb_strD(4) [OF sb_rep_str [OF assms(1)]] by fastforce

text \<open>Seven characters fill the initial buffer of eight bytes; the eighth overruns it.\<close>

theorem append_string_char_overruns_witness:
  "\<exists>s. create_string (Some ''1234567'') = Inr s \<and>
     append_string_char s (CHR ''8'') = Inl Out_Of_Bounds"
proof -
  obtain s where s: "create_string (Some ''1234567'') = Inr s" "sb_rep s ''1234567''"
    using create_string_rep [of "''1234567''"] by auto
  have "sb_cap s = 8"
    using s(1) by (auto simp: create_string_def append_string_def rbind_eq_Inr chk_eq_Inr)
  then show ?thesis using s append_string_char_overruns [OF s(2), of "CHR ''8''"] by simp
qed

text \<open>strip_space removes the white space at both ends of a string that has another
  character, but leaves the field \<open>len\<close> at the old length; on an empty or all-blank string its
  first loop reads the byte before the buffer.\<close>

theorem strip_space_correct:
  assumes "sb_str s cs"
  shows "if blank cs then strip_space s = Inl Out_Of_Bounds
    else \<exists>s'. strip_space s = Inr s' \<and> sb_str s' (trim cs) \<and> sb_len s' = sb_len s"
  using strip_space_rep [OF assms] strip_space_blank [OF assms] by auto

theorem strip_space_correct_witness:
  "\<exists>s s'. create_string (Some '' mov r1 '') = Inr s \<and> strip_space s = Inr s' \<and>
     sb_str s' ''mov r1'' \<and> sb_len s' = 8"
proof -
  obtain s where s: "create_string (Some '' mov r1 '') = Inr s" "sb_rep s '' mov r1 ''"
    using create_string_rep [of "'' mov r1 ''"] by auto
  moreover have "\<not> blank '' mov r1 ''" "trim '' mov r1 '' = ''mov r1''"
    by (simp_all add: blank_def trim_def rtrim_def isspace_def)
  ultimately show ?thesis
    using strip_space_correct [OF sb_rep_str [OF s(2)]] by (auto simp: sb_rep_def)
qed

text \<open>strip_char removes every occurrence of a character from the trimmed string and
  restores the field \<open>len\<close>, provided one spare byte follows the terminator; without it, the
  first removal copies one byte from behind the block.\<close>

theorem strip_char_correct:
  assumes "sb_str s cs" "\<not> blank cs" "ch \<noteq> NUL"
  shows "(int (length (trim cs)) + 1 < sb_cap s \<longrightarrow>
      (\<exists>s'. strip_char s ch = Inr s' \<and> sb_rep s' (filter (\<lambda>c. c \<noteq> ch) (trim cs)))) \<and>
    (int (length (trim cs)) + 1 = sb_cap s \<and> ch \<in> set (trim cs) \<longrightarrow>
      strip_char s ch = Inl Out_Of_Bounds)"
  using strip_char_rep [OF assms] strip_char_overread [OF assms] by blast

theorem strip_char_correct_witness:
  "\<exists>s s'. create_string (Some ''a-b-c'') = Inr s \<and> strip_char s (CHR ''-'') = Inr s' \<and>
     sb_rep s' ''abc''"
proof -
  obtain s where s: "create_string (Some ''a-b-c'') = Inr s" "sb_rep s ''a-b-c''"
    using create_string_rep [of "''a-b-c''"] by auto
  have t: "trim ''a-b-c'' = ''a-b-c''" "\<not> blank ''a-b-c''"
    by (simp_all add: trim_def rtrim_def isspace_def blank_def)
  have "sb_cap s \<ge> 8" using sb_strD(2) [OF sb_rep_str [OF s(2)]] cap_ok_bounds by blast
  then show ?thesis
    using strip_char_correct [OF sb_rep_str [OF s(2)] t(2), of "CHR ''-''"] s(1) t(1) by simp
qed

text \<open>convert replaces letters by capitals and punctuation by its name, as \<open>conv_spec\<close>
  says, as long as the result has at most seven characters; a string that starts with eight
  characters that are not punctuation (such as the names of most options) always overruns
  the buffer of the result.\<close>

theorem convert_correct:
  assumes "sb_str s cs"
  shows "(length (conv_spec cs) < 8 \<longrightarrow> (\<exists>t. convert s = Inr t \<and> sb_rep t (conv_spec cs))) \<and>
    (8 \<le> length (takeWhile plain cs) \<longrightarrow> convert s = Inl Out_Of_Bounds)"
proof -
  obtain n where n: "create_string None = Inr n" "sb_rep n []" "sb_cap n = 8"
    using create_string_None by (auto simp: create_string_def)
  note at = sb_strD(3) [OF assms]
  show ?thesis
    using convert_loop_rep [of "sb_buffer s" "[]" cs n "[]"] at n
      convert_loop_overflow [of "sb_buffer s" "[]" cs n "[]"] by (simp add: convert_def)
qed

theorem convert_correct_witness:
  "(\<exists>s t. create_string (Some ''a+b'') = Inr s \<and> convert s = Inr t \<and> sb_rep t ''APLUS_B'') \<and>
   (\<exists>s. create_string (Some ''register'') = Inr s \<and> convert s = Inl Out_Of_Bounds)"
proof
  obtain s where s: "create_string (Some ''a+b'') = Inr s" "sb_rep s ''a+b''"
    using create_string_rep [of "''a+b''"] by auto
  have "conv_spec ''a+b'' = ''APLUS_B''" by code_simp
  then show "\<exists>s t. create_string (Some ''a+b'') = Inr s \<and> convert s = Inr t \<and> sb_rep t ''APLUS_B''"
    using convert_correct [OF sb_rep_str [OF s(2)]] s(1) by simp
next
  obtain s where s: "create_string (Some ''register'') = Inr s" "sb_rep s ''register''"
    using create_string_rep [of "''register''"] by auto
  have "length (takeWhile plain ''register'') = 8" by code_simp
  then show "\<exists>s. create_string (Some ''register'') = Inr s \<and> convert s = Inl Out_Of_Bounds"
    using convert_correct [OF sb_rep_str [OF s(2)]] s(1) by simp
qed

end
