(* ===== verification/Symbols.thy ===== *)
theory Symbols
  imports Hash_Table String_Buffer
begin

text \<open>
  src/src/assembler/symbols.c and symbols.h: the symbol table of the assembler, a global hash table
  from names to records \<open>symbol_t\<close>.  The global \<open>sym_table\<close> is the value \<open>None\<close> while it is NULL;
  the operations pass it along.  The proofs use only the laws of the locale \<open>name_table\<close>, through its
  interpretation \<open>ht\<close> on the hash table.
\<close>

section \<open>The operations\<close>

datatype symbol_type = SYM_CODE | SYM_DATA

fun symbol_type_val :: "symbol_type \<Rightarrow> int" where
  "symbol_type_val SYM_CODE = 0"
| "symbol_type_val SYM_DATA = 1"

record symbol_t =
  sy_name :: string_t
  sy_type :: int
  sy_length :: int
  sy_index :: "32 word"

type_synonym sym_table = "symbol_t hash_table option"

definition create_symbol_table :: "sym_table \<Rightarrow> sym_table" where
  "create_symbol_table tab = (case tab of None \<Rightarrow> Some create_hashtable | Some t \<Rightarrow> Some t)"

definition add_symbol ::
  "sym_table \<Rightarrow> string_t \<Rightarrow> int \<Rightarrow> int \<Rightarrow> 32 word \<Rightarrow> sym_table res" where
  "add_symbol tab name type len index =
     (let t = (case tab of None \<Rightarrow> create_hashtable | Some t \<Rightarrow> t) in
      rbind (copy_string name) (\<lambda>nm.
      rbind (cstr (sb_buffer name) 0) (\<lambda>key.
      rbind (insert_hashtable t key
               \<lparr>sy_name = nm, sy_type = type, sy_length = len, sy_index = index\<rparr>) (\<lambda>(_, t').
      Inr (Some t')))))"

definition get_symbol :: "sym_table \<Rightarrow> string_t \<Rightarrow> (symbol_t option \<times> sym_table) res" where
  "get_symbol tab name =
     (case tab of
        None \<Rightarrow> Inl Null_Deref
      | Some t \<Rightarrow>
          rbind (cstr (sb_buffer name) 0) (\<lambda>key.
          rbind (find_hashtable t key) (\<lambda>(_, ent, t').
          Inr (ent, Some t'))))"

text \<open>What dump_symbol prints: the fields of the symbol.\<close>

definition dump_symbol :: "symbol_t \<Rightarrow> (string \<times> int \<times> int \<times> 32 word) res" where
  "dump_symbol ent =
     rbind (cstr (sb_buffer (sy_name ent)) 0) (\<lambda>nm.
     Inr (nm, sy_type ent, sy_length ent, sy_index ent))"

fun dump_sym_buckets ::
  "symbol_t buckets \<Rightarrow> int \<Rightarrow> int \<Rightarrow>
   (int \<times> int \<times> string \<times> string \<times> int \<times> int \<times> 32 word) list res" where
  "dump_sym_buckets [] i no = Inr []"
| "dump_sym_buckets (None # bs) i no = dump_sym_buckets bs (i + 1) no"
| "dump_sym_buckets (Some nd # bs) i no =
     (case nd_key nd of
        None \<Rightarrow> dump_sym_buckets bs (i + 1) no
      | Some k \<Rightarrow>
          rbind (dump_symbol (nd_data nd)) (\<lambda>line.
          rbind (dump_sym_buckets bs (i + 1) (no + 1)) (\<lambda>ls.
          Inr ((no, i, k, line) # ls))))"

definition dump_sym_table ::
  "sym_table \<Rightarrow> (int \<times> int \<times> (int \<times> int \<times> string \<times> string \<times> int \<times> int \<times> 32 word) list) res"
where
  "dump_sym_table tab =
     (case tab of
        None \<Rightarrow> Inl Null_Deref
      | Some t \<Rightarrow>
          rbind (dump_sym_buckets (ht_table t) 0 1) (\<lambda>ls. Inr (ht_cap t, ht_count t, ls)))"

section \<open>A sequence of declarations\<close>

type_synonym decl = "string_t \<times> int \<times> int \<times> 32 word"

fun add_symbols :: "sym_table \<Rightarrow> decl list \<Rightarrow> sym_table res" where
  "add_symbols tab [] = Inr tab"
| "add_symbols tab ((nm, type, len, index) # ds) =
     rbind (add_symbol tab nm type len index) (\<lambda>tab. add_symbols tab ds)"

text \<open>The entry of a declaration, and the fields the callers read.\<close>

fun sym_of :: "decl \<Rightarrow> symbol_t" where
  "sym_of (nm, type, len, index) =
     \<lparr>sy_name = (case copy_string nm of Inr c \<Rightarrow> c | Inl _ \<Rightarrow> nm),
      sy_type = type, sy_length = len, sy_index = index\<rparr>"

definition sym_fields :: "symbol_t \<Rightarrow> int \<times> int \<times> 32 word" where
  "sym_fields y = (sy_type y, sy_length y, sy_index y)"

fun decl_str :: "decl \<Rightarrow> string \<Rightarrow> bool" where
  "decl_str (nm, _) s \<longleftrightarrow> sb_str nm s"

lemma sym_fields_of [simp]: "sym_fields (sym_of d) = snd d"
  by (cases d) (simp add: sym_fields_def)

lemma add_symbol_ins:
  assumes "sb_str nm s"
  shows "add_symbol tab nm type len index =
    rbind (insert_hashtable (case tab of None \<Rightarrow> create_hashtable | Some t \<Rightarrow> t) s
             (sym_of (nm, type, len, index))) (\<lambda>(_, t). Inr (Some t))"
proof -
  obtain c where "copy_string nm = Inr c" using copy_string_rep [OF assms] by blast
  moreover have "cstr (sb_buffer nm) 0 = Inr s" using assms by (simp add: sb_str_def)
  ultimately show ?thesis by (simp add: add_symbol_def Let_def)
qed

lemma add_symbols_ins:
  "list_all2 decl_str ds ss \<Longrightarrow>
   add_symbols (Some t) ds = rbind (ht.ins_all t (zip ss (map sym_of ds))) (\<lambda>t. Inr (Some t))"
proof (induction ds arbitrary: ss t)
  case (Cons d ds)
  obtain nm type len index where d: "d = (nm, type, len, index)" by (cases d) auto
  obtain s ss' where ss: "ss = s # ss'" "sb_str nm s" "list_all2 decl_str ds ss'"
    using Cons.prems d by (cases ss) auto
  show ?case
    using Cons.IH [OF ss(3)] add_symbol_ins [OF ss(2), of "Some t" type len index]
    by (simp add: d ss(1) rbind_assoc split_beta)
qed simp

lemma map_of_sym_fields:
  "length ss = length ds \<Longrightarrow>
   map_option sym_fields (map_of (zip ss (map sym_of ds)) s) = map_of (zip ss (map snd ds)) s"
  by (induction ss ds rule: list_induct2) auto

lemma get_symbol_find:
  "sb_str nm s \<Longrightarrow> ht_inv t \<Longrightarrow> get_symbol (Some t) nm = Inr (ht_map t s, Some t)"
  using ht.look [of t s] sb_strD(3) [of nm s] by (simp add: get_symbol_def)

lemma dump_sym_buckets_same:
  "dump_sym_buckets bs i no = Inr ls \<Longrightarrow>
   map (\<lambda>(no, i, k, _). (no, i, k)) ls = dump_buckets bs i no"
  by (induction bs i no arbitrary: ls rule: dump_sym_buckets.induct)
    (auto simp: rbind_eq_Inr split: option.splits)

section \<open>Properties\<close>

text \<open>
  C25: after any declarations through add_symbol, up to 2^29 of them, get_symbol finds for a name the
  type, the length and the index of its first declaration: a second declaration of a name is dropped
  without an error.  Before the first declaration get_symbol dereferences the null table.
\<close>

theorem get_symbol_first_declaration:
  assumes "list_all2 decl_str ds ss" "sb_str nm s" "length ds \<le> 2 ^ 29"
  shows "rbind (add_symbols None ds) (\<lambda>tab.
           rbind (get_symbol tab nm) (\<lambda>(ent, _). Inr (map_option sym_fields ent))) =
         (if ds = [] then Inl Null_Deref else Inr (map_of (zip ss (map snd ds)) s))"
proof (cases "ds = []")
  case True
  then show ?thesis by (simp add: get_symbol_def)
next
  case False
  have len: "length ss = length ds" using assms(1) by (simp add: list_all2_lengthD)
  have "add_symbols None ds = add_symbols (Some create_hashtable) ds"
    using False by (cases ds) (auto simp: add_symbol_def)
  moreover have "ht_count create_hashtable + int (length (zip ss (map sym_of ds))) \<le> 2 ^ 29"
    using assms(3) len by (simp add: ht.new_tab(3))
  then obtain t where t: "ht.ins_all create_hashtable (zip ss (map sym_of ds)) = Inr t"
    "ht_inv t" "ht_map t = map_of (zip ss (map sym_of ds))"
    using ht.ins_all_names [OF ht.new_tab(1)] by (fastforce simp: ht.new_tab(2))
  moreover have "map_option sym_fields (map_of (zip ss (map sym_of ds)) s) =
      map_of (zip ss (map snd ds)) s"
    using len by (rule map_of_sym_fields)
  ultimately show ?thesis
    using False get_symbol_find [OF assms(2)] add_symbols_ins [OF assms(1)] by simp
qed

definition str8 :: "string \<Rightarrow> string_t" where
  "str8 cs =
     \<lparr>sb_buffer = map Val cs @ replicate (8 - length cs) (Val NUL), sb_len = int (length cs),
      sb_cap = 8\<rparr>"

lemma str8_rep: "nul_free cs \<Longrightarrow> length cs < 8 \<Longrightarrow> sb_str (str8 cs) cs"
  by (auto simp: str8_def sb_str_def str_at_def holds_append_iff) (auto simp: holds_def take_Cons')

theorem get_symbol_first_declaration_witness:
  "rbind (add_symbols None [(str8 ''loop'', 0, 4, 16), (str8 ''loop'', 1, 8, 99)]) (\<lambda>tab.
     rbind (get_symbol tab (str8 ''loop'')) (\<lambda>(ent, _). Inr (map_option sym_fields ent))) =
   Inr (Some (0, 4, 16))"
  by (subst get_symbol_first_declaration [where ss = "[''loop'', ''loop'']" and s = "''loop''"])
    (simp_all add: str8_rep)

end
