(* ===== verification/String_List.thy ===== *)
theory String_List
  imports String_Buffer
begin

text \<open>
  src/src/common/string_list.c: lists of strings, as pointer lists of \<open>string_t\<close>.

  The strings in a list are owned by it, so the list holds them by value: an element that is
  changed through its pointer is the element of the list that changes.  \<open>sl_rep l ss\<close> says
  that \<open>l\<close> is a well-formed pointer list of well-formed strings with the contents \<open>ss\<close>.
  This theory provides the comparison callback of the string lists and interprets the
  contract of the sorting and searching routines on it.
\<close>

section \<open>The operations\<close>

type_synonym string_list_t = "string_t pointer_list"

definition create_string_list :: string_list_t where
  "create_string_list = create_ptr_list"

definition append_string_list :: "string_list_t \<Rightarrow> string_t \<Rightarrow> string_list_t res" where
  "append_string_list lst str = append_ptr_list lst (Some str)"

definition index_string_list :: "string_list_t \<Rightarrow> int \<Rightarrow> string_t option res" where
  "index_string_list lst index = index_ptr_list lst index"

definition iterate_string_list ::
  "string_list_t option \<Rightarrow> int \<Rightarrow> (string_t option \<times> int) res" where
  "iterate_string_list lst post = iterate_ptr_list lst post"

definition len_string_list :: "string_list_t \<Rightarrow> int" where
  "len_string_list lst = len_ptr_list lst"

fun destroy_string_list :: "string_list_t obj \<Rightarrow> string_list_t obj res" where
  "destroy_string_list Null = Inr Null"
| "destroy_string_list (Live lst) =
     rbind (iter_while (\<lambda>item s. rbind (destroy_string (Live item)) (\<lambda>_. Inr (False, s)))
              (Some lst) 0 ()) (\<lambda>_.
     destroy_ptr_list (Live lst))"
| "destroy_string_list Freed = Inl Use_After_Free"

fun comp_func :: "string_t option \<Rightarrow> string_t option \<Rightarrow> int res" where
  "comp_func (Some p1) (Some p2) = comp_string p1 p2"
| "comp_func _ _ = Inl Null_Deref"

definition sort_string_list :: "string_list_t \<Rightarrow> string_list_t res" where
  "sort_string_list lst = sort_ptr_list lst comp_func"

definition find_string_list :: "string_list_t \<Rightarrow> string_t \<Rightarrow> int res" where
  "find_string_list lst key = find_ptr_list_idx lst (Some key) comp_func"

text \<open>The loop of add_string_list returns at once when it meets an equal string.\<close>

definition add_string_list :: "string_list_t \<Rightarrow> string_t \<Rightarrow> string_list_t res" where
  "add_string_list lst str =
     rbind (iter_while (\<lambda>ptr seen. rbind (comp_string ptr str) (\<lambda>c. Inr (c = 0, seen)))
              (Some lst) 0 ()) (\<lambda>(_, found, _).
     case found of Some _ \<Rightarrow> Inr lst | None \<Rightarrow> append_string_list lst str)"

text \<open>
  The loop of split_string over the working copy \<open>b\<close>: \<open>head\<close> is the index of the piece that
  starts; \<open>strchr\<close> also finds the terminator.
\<close>

lemma cstr_bounds: "cstr b i = Inr s \<Longrightarrow> 0 \<le> i \<and> i < int (length b)"
  by (subst (asm) cstr.simps) (auto simp: load_def split: if_splits)

function split_loop :: "char \<Rightarrow> char cell list \<Rightarrow> int \<Rightarrow> string_list_t \<Rightarrow> string_list_t res" where
  "split_loop ch b head sl =
     rbind (cstr b head) (\<lambda>rest.
     case c_strchr (rest @ [NUL]) ch of
       Some tail \<Rightarrow>
         rbind (store b (head + int tail) NUL) (\<lambda>b'.
         rbind (cstr b' head) (\<lambda>piece.
         rbind (create_string (Some piece)) (\<lambda>item.
         rbind (append_string_list sl item) (\<lambda>sl.
         rbind (load b' (head + int tail + 1)) (\<lambda>c.
         if c = NUL then Inr sl else split_loop ch b' (head + int tail + 1) sl)))))
     | None \<Rightarrow>
         rbind (create_string (Some rest)) (\<lambda>item. append_string_list sl item))"
  by pat_completeness auto
termination
  by (relation "measure (\<lambda>(ch, b, head, sl). nat (int (length b) - head))")
     (auto simp: store_eq_Inr dest: cstr_bounds)

declare split_loop.simps [simp del]

definition split_string :: "string option \<Rightarrow> char \<Rightarrow> string_list_t res" where
  "split_string str ch =
     rbind (create_string str) (\<lambda>buf. split_loop ch (sb_buffer buf) 0 create_string_list)"

definition append_string_list_list :: "string_list_t \<Rightarrow> string_list_t \<Rightarrow> string_list_t res" where
  "append_string_list_list dest src =
     rbind (iter_while (\<lambda>item dest.
              rbind (copy_string item) (\<lambda>s.
              rbind (append_string_list dest s) (\<lambda>dest. Inr (False, dest))))
            (Some src) 0 dest) (\<lambda>(dest, _). Inr dest)"

section \<open>Representation\<close>

definition the_str :: "string_t \<Rightarrow> string" where
  "the_str s = (case cstr (sb_buffer s) 0 of Inr cs \<Rightarrow> cs | Inl _ \<Rightarrow> [])"

definition sb_ok :: "string_t \<Rightarrow> bool" where
  "sb_ok s \<longleftrightarrow> sb_rep s (the_str s)"

definition sl_rep :: "string_list_t \<Rightarrow> string list \<Rightarrow> bool" where
  "sl_rep l ss \<longleftrightarrow> (\<exists>xs. pl_rep l (map Some xs) \<and> (\<forall>x \<in> set xs. sb_ok x) \<and> ss = map the_str xs)"

lemma the_str_rep: "sb_str s cs \<Longrightarrow> the_str s = cs"
  using sb_strD(3) [of s cs] by (simp add: the_str_def)

lemma sb_ok_rep: "sb_rep s cs \<Longrightarrow> sb_ok s"
  using the_str_rep [OF sb_rep_str] by (fastforce simp: sb_ok_def)

lemma sb_okD: "sb_ok s \<Longrightarrow> sb_rep s (the_str s)"
  by (simp add: sb_ok_def)

lemma sl_repI:
  "pl_rep l (map Some xs) \<Longrightarrow> \<forall>x \<in> set xs. sb_ok x \<Longrightarrow> map the_str xs = ss \<Longrightarrow> sl_rep l ss"
  by (auto simp: sl_rep_def)

lemma create_string_list_rep: "sl_rep create_string_list []"
  using create_ptr_list_rep by (auto simp: create_string_list_def intro: sl_repI [of _ "[]"])

lemma append_string_list_rep:
  assumes l: "sl_rep l ss" and s: "sb_rep s cs" and n: "length ss < 2 ^ 30"
  shows "\<exists>l'. append_string_list l s = Inr l' \<and> sl_rep l' (ss @ [cs])"
proof -
  obtain xs where xs: "pl_rep l (map Some xs)" "\<forall>x \<in> set xs. sb_ok x" "ss = map the_str xs"
    using l by (auto simp: sl_rep_def)
  then obtain l' where l': "append_ptr_list l (Some s) = Inr l'" "pl_rep l' (map Some xs @ [Some s])"
    using append_ptr_list_rep [OF xs(1), of "Some s"] n by auto
  have "sl_rep l' (ss @ [cs])"
    using l'(2) xs sb_ok_rep [OF s] the_str_rep [OF sb_rep_str [OF s]]
    by (intro sl_repI [of _ "xs @ [s]"]) auto
  then show ?thesis using l' by (simp add: append_string_list_def)
qed

lemma index_string_list_rep:
  assumes l: "sl_rep l ss" and i: "0 \<le> i" "i < int (length ss)"
  shows "\<exists>s. index_string_list l i = Inr (Some s) \<and> sb_rep s (ss ! nat i)"
proof -
  obtain xs where xs: "pl_rep l (map Some xs)" "\<forall>x \<in> set xs. sb_ok x" "ss = map the_str xs"
    using l by (auto simp: sl_rep_def)
  moreover have "nat i < length xs" using i xs(3) by simp
  ultimately show ?thesis
    using i index_ptr_list_rep [OF xs(1) i(1)] by (auto simp: index_string_list_def sb_okD)
qed

lemma len_string_list_rep: "sl_rep l ss \<Longrightarrow> len_string_list l = int (length ss)"
  by (auto simp: sl_rep_def len_string_list_def pl.size_rep)

section \<open>The callback satisfies the contract of sorting and searching\<close>

definition str_ok :: "string_t option \<Rightarrow> bool" where
  "str_ok p \<longleftrightarrow> (\<exists>s. p = Some s \<and> sb_str s (the_str s))"

lemma comp_func_ok: "sb_str s xs \<Longrightarrow> sb_str t ys \<Longrightarrow> comp_func (Some s) (Some t) = Inr (c_strcmp xs ys)"
  by (simp add: comp_string_rep)

lemma cmp_le_comp_func:
  "sb_str s xs \<Longrightarrow> sb_str t ys \<Longrightarrow> cmp_le comp_func (Some s) (Some t) \<longleftrightarrow> c_strcmp xs ys \<le> 0"
  by (simp add: cmp_le_def comp_func_ok del: comp_func.simps)

lemma cmp_eq_comp_func:
  "sb_str s xs \<Longrightarrow> sb_str t ys \<Longrightarrow> cmp_eq comp_func (Some s) (Some t) \<longleftrightarrow> xs = ys"
  by (simp add: cmp_eq_def comp_func_ok del: comp_func.simps)

interpretation str_cmp: comparator comp_func str_ok
proof unfold_locales
  fix a b
  assume "str_ok a" "str_ok b"
  then show "\<exists>c. comp_func a b = Inr c" by (auto simp: str_ok_def comp_string_rep)
next
  fix a b c d
  assume "str_ok a" "str_ok b" and c: "comp_func a b = Inr c" and d: "comp_func b a = Inr d"
  then obtain s t where "c = c_strcmp (the_str s) (the_str t)" "d = c_strcmp (the_str t) (the_str s)"
    by (auto simp: str_ok_def comp_string_rep)
  then show "0 < c \<longleftrightarrow> d < 0" using c_strcmp_swap [of "the_str s" "the_str t"] by simp
next
  fix a b e
  assume "str_ok a" "str_ok b" "str_ok e" "cmp_le comp_func a b" "cmp_le comp_func b e"
  then show "cmp_le comp_func a e"
    by (auto simp: str_ok_def cmp_le_comp_func simp del: comp_func.simps intro: c_strcmp_trans)
qed

definition str_le :: "string \<Rightarrow> string \<Rightarrow> bool" where
  "str_le s t \<longleftrightarrow> c_strcmp s t \<le> 0"

lemma sorted_strings_iff:
  assumes "\<forall>x \<in> set xs. sb_str x (the_str x)"
  shows "sorted_wrt (cmp_le comp_func) (map Some xs) \<longleftrightarrow> sorted_wrt str_le (map the_str xs)"
proof -
  have "cmp_le comp_func (Some x) (Some y) \<longleftrightarrow> str_le (the_str x) (the_str y)"
    if "x \<in> set xs" "y \<in> set xs" for x y
    using cmp_le_comp_func [of x "the_str x" y "the_str y"] assms that by (simp add: str_le_def)
  then show ?thesis by (auto simp: sorted_wrt_iff_nth_less)
qed

lemma sort_string_list_rep:
  assumes l: "sl_rep l ss"
  shows "\<exists>l' ts. sort_string_list l = Inr l' \<and> sl_rep l' ts \<and> pl_sorted l' \<and>
    mset ts = mset ss \<and> sorted_wrt str_le ts"
proof -
  obtain xs where xs: "pl_rep l (map Some xs)" "\<forall>x \<in> set xs. sb_ok x" "ss = map the_str xs"
    using l by (auto simp: sl_rep_def)
  have "\<forall>x \<in> set (map Some xs). str_ok x"
    using xs(2) by (auto simp: str_ok_def sb_ok_def sb_rep_def)
  from sort_ptr_list_rep [OF str_cmp.comparator_axioms xs(1) this]
  obtain l' ys where l': "sort_ptr_list l comp_func = Inr l'" "pl_rep l' ys" "pl_sorted l'"
    "mset ys = mset (map Some xs)" "sorted_wrt (cmp_le comp_func) ys" by blast
  define zs where "zs = map the ys"
  have set_ys: "set ys = set (map Some xs)" using l'(4) by (metis set_mset_mset)
  then have "map (Some \<circ> the) ys = ys" by (intro map_idI) auto
  then have ys: "ys = map Some zs" by (simp add: zs_def)
  have "mset zs = image_mset the (mset (map Some xs))" using l'(4) by (simp add: zs_def)
  then have "mset zs = mset xs" by (simp add: multiset.map_comp comp_def)
  moreover from this have "set zs = set xs" by (rule mset_eq_setD)
  ultimately have zs: "mset (map the_str zs) = mset ss" "set zs = set xs"
    using xs(3) by simp_all
  have "\<forall>x \<in> set zs. sb_str x (the_str x)"
    using xs(2) zs(2) by (auto simp: sb_ok_def sb_rep_def)
  then have "sorted_wrt str_le (map the_str zs)"
    using l'(5) by (simp add: ys sorted_strings_iff)
  moreover have "sl_rep l' (map the_str zs)"
    using l'(2) ys zs(2) xs(2) by (intro sl_repI [of _ zs]) auto
  ultimately show ?thesis using l' zs by (auto simp: sort_string_list_def)
qed

lemma find_string_list_rep:
  assumes l: "sl_rep l ss" "pl_sorted l" "sorted_wrt str_le ss" and k: "sb_str key k"
  shows "\<exists>r. find_string_list l key = Inr r \<and>
    (r = - 1 \<and> k \<notin> set ss \<or> 0 \<le> r \<and> r < int (length ss) \<and> ss ! nat r = k)"
proof -
  obtain xs where xs: "pl_rep l (map Some xs)" "\<forall>x \<in> set xs. sb_ok x" "ss = map the_str xs"
    using l by (auto simp: sl_rep_def)
  have ok: "\<forall>x \<in> set xs. sb_str x (the_str x)" using xs(2) by (auto simp: sb_ok_def sb_rep_def)
  then have 1: "\<forall>x \<in> set (map Some xs). str_ok x" by (auto simp: str_ok_def)
  have 2: "str_ok (Some key)" using k the_str_rep [OF k] by (simp add: str_ok_def)
  have 3: "sorted_wrt (cmp_le comp_func) (map Some xs)"
    using l(3) xs(3) sorted_strings_iff [OF ok] by simp
  have eq: "cmp_eq comp_func (Some key) (Some x) \<longleftrightarrow> the_str x = k" if "x \<in> set xs" for x
    using cmp_eq_comp_func [OF k] ok that by auto
  from find_ptr_list_idx_rep [OF str_cmp.comparator_axioms xs(1) l(2) 1 2 3]
  obtain r where r: "find_ptr_list_idx l (Some key) comp_func = Inr r"
    "r = - 1 \<and> (\<forall>x \<in> set (map Some xs). \<not> cmp_eq comp_func (Some key) x) \<or>
     0 \<le> r \<and> r < int (length (map Some xs)) \<and> cmp_eq comp_func (Some key) (map Some xs ! nat r)"
    by blast
  then show ?thesis using eq xs(3) by (auto simp: find_string_list_def)
qed

section \<open>Adding, joining and splitting\<close>

lemma add_string_list_rep:
  assumes l: "sl_rep l ss" and s: "sb_rep s k" and n: "length ss < 2 ^ 30"
  shows "\<exists>l'. add_string_list l s = Inr l' \<and> sl_rep l' (if k \<in> set ss then ss else ss @ [k])"
proof -
  obtain xs where xs: "pl_rep l (map Some xs)" "\<forall>x \<in> set xs. sb_ok x" "ss = map the_str xs"
    using l by (auto simp: sl_rep_def)
  let ?body = "\<lambda>ptr (seen :: unit). rbind (comp_string ptr s) (\<lambda>c. Inr (c = 0, seen))"
  let ?P = "\<lambda>x. the_str x = k"
  have "?body x u = Inr (?P x, u)" if "Some x \<in> set (map Some xs)" for x u
  proof -
    have "sb_str x (the_str x)" using that xs(2) by (auto simp: sb_ok_def sb_rep_def)
    then show ?thesis using comp_string_rep [of x _ s k] sb_rep_str [OF s] by simp
  qed
  from loop_list_find [of "map Some xs" ?body ?P 0 "()", OF this]
  obtain m where "loop_list ?body (map Some xs) 0 () = Inr ((), find ?P xs, m)"
    by (auto simp: comp_def)
  then have it: "iter_while ?body (Some l) 0 () = Inr ((), find ?P xs, m)"
    using iter_while_rep [OF xs(1), of 0 ?body "()"] by simp
  show ?thesis
  proof (cases "k \<in> set ss")
    case True
    then have "find ?P xs \<noteq> None" using xs(3) by (auto simp: find_None_iff)
    then show ?thesis using it True l by (auto simp: add_string_list_def)
  next
    case False
    then have "find ?P xs = None" using xs(3) by (auto simp: find_None_iff)
    then show ?thesis
      using it False append_string_list_rep [OF l s n] by (auto simp: add_string_list_def)
  qed
qed

lemma append_items_loop:
  "sl_rep dest ds \<Longrightarrow> \<forall>x \<in> set xs. sb_ok x \<Longrightarrow> length ds + length xs < 2 ^ 30 \<Longrightarrow>
   \<exists>dest' v. loop_list (\<lambda>item dest. rbind (copy_string item) (\<lambda>s.
        rbind (append_string_list dest s) (\<lambda>dest. Inr (False, dest)))) (map Some xs) m dest =
      Inr (dest', v) \<and> sl_rep dest' (ds @ map the_str xs)"
proof (induction xs arbitrary: dest ds m)
  case (Cons x xs)
  have "sb_rep x (the_str x)" using Cons.prems(2) by (auto dest: sb_okD)
  then obtain c where c: "copy_string x = Inr c" "sb_rep c (the_str x)"
    using copy_string_rep [OF sb_rep_str] by blast
  obtain d where d: "append_string_list dest c = Inr d" "sl_rep d (ds @ [the_str x])"
    using append_string_list_rep [OF Cons.prems(1) c(2)] Cons.prems(3) by auto
  then show ?case using c Cons.IH [OF d(2)] Cons.prems by auto
qed simp

lemma append_string_list_list_rep:
  assumes d: "sl_rep dest ds" and s: "sl_rep src ss" and n: "length ds + length ss < 2 ^ 30"
  shows "\<exists>l. append_string_list_list dest src = Inr l \<and> sl_rep l (ds @ ss)"
proof -
  obtain xs where xs: "pl_rep src (map Some xs)" "\<forall>x \<in> set xs. sb_ok x" "ss = map the_str xs"
    using s by (auto simp: sl_rep_def)
  then show ?thesis
    using append_items_loop [OF d xs(2), of 0] n iter_while_rep [OF xs(1), of 0 _ dest]
    by (fastforce simp: append_string_list_list_def)
qed

function split_spec :: "char \<Rightarrow> string \<Rightarrow> string list" where
  "split_spec ch s =
     (case c_strchr s ch of None \<Rightarrow> [s]
      | Some k \<Rightarrow> take k s # (if drop (Suc k) s = [] then [] else split_spec ch (drop (Suc k) s)))"
  by pat_completeness auto
termination
  by (relation "measure (\<lambda>(ch, s). length s)") (auto dest: c_strchr_Some)

declare split_spec.simps [simp del]

fun join :: "char \<Rightarrow> string list \<Rightarrow> string" where
  "join ch [] = []"
| "join ch [p] = p"
| "join ch (p # ps) = p @ ch # join ch ps"

lemma split_spec_not_Nil: "split_spec ch s \<noteq> []"
  by (subst split_spec.simps) (simp split: option.split)

lemma join_Cons: "ps \<noteq> [] \<Longrightarrow> join ch (p # ps) = p @ ch # join ch ps"
  by (cases ps) auto

lemma split_spec_no_sep: "p \<in> set (split_spec ch s) \<Longrightarrow> ch \<notin> set p"
proof (induction ch s rule: split_spec.induct)
  case (1 ch s)
  then show ?case
    by (subst (asm) (2) split_spec.simps)
       (auto simp: c_strchr_None dest: c_strchr_Some split: option.splits if_splits)
qed

lemma split_spec_length: "length (split_spec ch s) \<le> Suc (length s)"
proof (induction ch s rule: split_spec.induct)
  case (1 ch s)
  show ?case
  proof (cases "c_strchr s ch")
    case (Some k)
    then have "k < length s" using c_strchr_Some by blast
    then show ?thesis using 1 Some by (fastforce simp: split_spec.simps [of ch s])
  qed (simp add: split_spec.simps [of ch s])
qed

lemma join_split_spec:
  "join ch (split_spec ch s) = (if s \<noteq> [] \<and> last s = ch then butlast s else s)"
proof (induction ch s rule: split_spec.induct)
  case (1 ch s)
  show ?case
  proof (cases "c_strchr s ch")
    case None
    then have "ch \<notin> set s" by (simp add: c_strchr_None)
    then show ?thesis using None by (auto simp: split_spec.simps [of ch s])
  next
    case (Some k)
    let ?r = "drop (Suc k) s"
    have k: "k < length s" "s ! k = ch" using c_strchr_Some [OF Some] by simp_all
    then have s: "s = take k s @ ch # ?r" using id_take_nth_drop by metis
    show ?thesis
    proof (cases "?r = []")
      case True
      then have "s = take k s @ [ch]" using s by simp
      then have "last s = ch" "butlast s = take k s" "s \<noteq> []"
        by (metis last_snoc, metis butlast_snoc, metis snoc_eq_iff_butlast)
      then show ?thesis using True Some by (simp add: split_spec.simps [of ch s])
    next
      case False
      then have "join ch (split_spec ch s) = take k s @ ch # join ch (split_spec ch ?r)"
        using Some by (simp add: split_spec.simps [of ch s] join_Cons split_spec_not_Nil)
      also have "\<dots> = take k s @ ch # (if last ?r = ch then butlast ?r else ?r)"
        using 1 [OF Some False] False by simp
      moreover have "last s = last ?r" using False by (metis last_drop not_less drop_eq_Nil)
      moreover have "butlast s = take k s @ ch # butlast ?r"
        using False s by (metis butlast.simps(2) butlast_append list.distinct(1))
      ultimately show ?thesis using s k by auto
    qed
  qed
qed

lemma str_at_drop: "str_at b cs \<Longrightarrow> i \<le> length cs \<Longrightarrow> str_at (drop i b) (drop i cs)"
  using holds_append_iff [of b "take i cs" "drop i cs @ [NUL]"]
  by (simp add: str_at_def append_assoc [symmetric] del: append_assoc)

lemma cstr_drop: "str_at (drop h b) cs \<Longrightarrow> cstr b (int h) = Inr cs"
proof (induction cs arbitrary: h)
  case Nil
  then have "load (drop h b) 0 = Inr NUL" using str_at_load [of "drop h b" "[]" 0] by simp
  then have "load b (int h) = Inr NUL" by (auto simp: load_def split: if_splits)
  then show ?case by (simp add: cstr.simps [of b])
next
  case (Cons c cs)
  have "load (drop h b) 0 = Inr c" using str_at_load [OF Cons.prems, of 0] by simp
  then have "load b (int h) = Inr c" by (auto simp: load_def split: if_splits)
  moreover have "c \<noteq> NUL" using str_atD [OF Cons.prems] by simp
  moreover have "str_at (drop (Suc h) b) cs" using str_at_drop [OF Cons.prems, of 1] by simp
  ultimately show ?case using Cons.IH [of "Suc h"] by (simp add: cstr.simps [of b "int h"] add.commute)
qed

lemma c_strchr_snoc: "ch \<noteq> NUL \<Longrightarrow> c_strchr (cs @ [NUL]) ch = c_strchr cs ch"
  by (induction cs) auto

lemma split_loop_rep:
  "str_at (drop h b) rest \<Longrightarrow> sl_rep sl ss \<Longrightarrow> ch \<noteq> NUL \<Longrightarrow> length rest < 2 ^ 30 \<Longrightarrow>
   length ss + length (split_spec ch rest) \<le> 2 ^ 30 \<Longrightarrow>
   \<exists>l. split_loop ch b (int h) sl = Inr l \<and> sl_rep l (ss @ split_spec ch rest)"
proof (induction ch rest arbitrary: h b sl ss rule: split_spec.induct)
  case (1 ch rest)
  note cut = cstr_drop [OF "1.prems"(1)]
  have nf: "nul_free rest" using str_atD [OF "1.prems"(1)] by simp
  show ?case
  proof (cases "c_strchr rest ch")
    case None
    obtain item where "create_string (Some rest) = Inr item" "sb_rep item rest"
      using create_string_rep [OF nf "1.prems"(4)] by blast
    then show ?thesis
      using cut None append_string_list_rep [OF "1.prems"(2)] "1.prems"(3,5)
      by (simp add: split_loop.simps [of ch b] split_spec.simps [of ch rest] c_strchr_snoc)
  next
    case (Some k)
    have k: "k < length rest" using c_strchr_Some [OF Some] by simp
    have len: "h + length rest < length b" using str_atD [OF "1.prems"(1)] by auto
    let ?b = "b[h + k := Val NUL]"
    have st: "store b (int h + int k) NUL = Inr ?b"
      using k len by (simp add: store_def nat_add_distrib)
    have "holds (drop h b) (take k rest)"
      using str_at_holds [OF "1.prems"(1)] holds_append_iff [of _ "take k rest" "drop k rest"] by simp
    then have "holds ((drop h b)[k := Val NUL]) (take k rest @ [NUL])"
      using k len by (intro holds_snoc) auto
    then have "str_at (drop h ?b) (take k rest)"
      using nf by (simp add: str_at_def drop_update_swap)
    then have piece: "cstr ?b (int h) = Inr (take k rest)" by (rule cstr_drop)
    obtain item where item: "create_string (Some (take k rest)) = Inr item" "sb_rep item (take k rest)"
      using create_string_rep [of "take k rest"] nf "1.prems"(4) k by fastforce
    obtain sl' where sl': "append_string_list sl item = Inr sl'" "sl_rep sl' (ss @ [take k rest])"
      using append_string_list_rep [OF "1.prems"(2) item(2)] "1.prems"(5) split_spec_not_Nil [of ch rest]
      by (cases "split_spec ch rest") auto
    have tail: "str_at (drop (Suc (h + k)) ?b) (drop (Suc k) rest)"
      using str_at_drop [OF "1.prems"(1), of "Suc k"] k by (simp add: add.commute)
    have ld: "load ?b (int h + int k + 1) = Inr ((drop (Suc k) rest @ [NUL]) ! 0)"
      using str_at_load [OF tail, of 0] by (auto simp: load_def nat_add_distrib split: if_splits)
    have unfold: "split_loop ch b (int h) sl =
        (if drop (Suc k) rest = [] then Inr sl' else split_loop ch ?b (int (Suc (h + k))) sl')"
    proof -
      have "(drop (Suc k) rest @ [NUL]) ! 0 = NUL \<longleftrightarrow> drop (Suc k) rest = []"
        using nul_free_drop [OF nf, of "Suc k"] by (cases "drop (Suc k) rest") auto
      then show ?thesis
        using cut Some st piece item sl' ld "1.prems"(3)
        by (simp add: split_loop.simps [of ch b "int h"] c_strchr_snoc add.commute add.left_commute)
    qed
    show ?thesis
    proof (cases "drop (Suc k) rest = []")
      case True
      then show ?thesis using unfold sl' Some by (simp add: split_spec.simps [of ch rest])
    next
      case False
      have "split_spec ch rest = take k rest # split_spec ch (drop (Suc k) rest)"
        using False Some by (simp add: split_spec.simps [of ch rest])
      then show ?thesis
        using "1.IH" [OF Some False tail sl'(2) "1.prems"(3)] "1.prems"(4,5) unfold False by simp
    qed
  qed
qed

lemma split_string_rep:
  assumes "nul_free s" "ch \<noteq> NUL" "length s < 2 ^ 30"
  shows "\<exists>l. split_string (Some s) ch = Inr l \<and> sl_rep l (split_spec ch s)"
proof -
  obtain buf where buf: "create_string (Some s) = Inr buf" "sb_rep buf s"
    using create_string_rep [OF assms(1,3)] by blast
  have "str_at (drop 0 (sb_buffer buf)) s" using sb_strD(3) [OF sb_rep_str [OF buf(2)]] by simp
  from split_loop_rep [OF this create_string_list_rep assms(2,3)] show ?thesis
    using buf(1) split_spec_length [of ch s] assms(3) by (simp add: split_string_def)
qed

section \<open>Properties\<close>

text \<open>C24: Sorting a string list and then searching it is correct.  sort_string_list keeps exactly
  the strings of the list, puts them in the order of strcmp and marks the list sorted;
  find_string_list on the result returns the index of a string equal to the key, or -1 exactly
  when the key does not occur.\<close>

theorem sort_then_find:
  assumes "sl_rep l ss" "sb_str key k"
  shows "\<exists>l' ts r. sort_string_list l = Inr l' \<and> sl_rep l' ts \<and> mset ts = mset ss \<and>
    sorted_wrt str_le ts \<and> find_string_list l' key = Inr r \<and>
    (if k \<in> set ss then 0 \<le> r \<and> r < int (length ts) \<and> ts ! nat r = k else r = - 1)"
proof -
  obtain l' ts where l': "sort_string_list l = Inr l'" "sl_rep l' ts" "pl_sorted l'"
    "mset ts = mset ss" "sorted_wrt str_le ts"
    using sort_string_list_rep [OF assms(1)] by blast
  have "set ts = set ss" using l'(4) by (metis set_mset_mset)
  moreover from find_string_list_rep [OF l'(2,3,5) assms(2)]
  obtain r where "find_string_list l' key = Inr r"
    "r = - 1 \<and> k \<notin> set ts \<or> 0 \<le> r \<and> r < int (length ts) \<and> ts ! nat r = k" by blast
  moreover from this have "k \<in> set ts" if "r \<noteq> - 1" using that by (auto simp: nat_less_iff)
  ultimately show ?thesis using l' by auto
qed

theorem sort_then_find_witness:
  "\<exists>l key l' ts r. sl_rep l [''pop'', ''add'', ''mov''] \<and> sb_str key ''mov'' \<and>
     sort_string_list l = Inr l' \<and> sl_rep l' ts \<and> mset ts = mset [''pop'', ''add'', ''mov''] \<and>
     sorted_wrt str_le ts \<and> find_string_list l' key = Inr r \<and> 0 \<le> r \<and> ts ! nat r = ''mov''"
proof -
  obtain a where a: "sb_rep a ''pop''" using create_string_rep [of "''pop''"] by auto
  obtain b where b: "sb_rep b ''add''" using create_string_rep [of "''add''"] by auto
  obtain c where c: "sb_rep c ''mov''" using create_string_rep [of "''mov''"] by auto
  obtain l1 where l1: "sl_rep l1 ([] @ [''pop''])"
    using append_string_list_rep [OF create_string_list_rep a] by auto
  obtain l2 where l2: "sl_rep l2 (([] @ [''pop'']) @ [''add''])"
    using append_string_list_rep [OF l1 b] by auto
  obtain l3 where l3: "sl_rep l3 ((([] @ [''pop'']) @ [''add'']) @ [''mov''])"
    using append_string_list_rep [OF l2 c] by auto
  from sort_then_find [OF l3 sb_rep_str [OF c]]
  obtain l' ts r where "sort_string_list l3 = Inr l'" "sl_rep l' ts"
    "mset ts = mset [''pop'', ''add'', ''mov'']" "sorted_wrt str_le ts"
    "find_string_list l' c = Inr r" "0 \<le> r" "ts ! nat r = ''mov''" by auto
  moreover have "sl_rep l3 [''pop'', ''add'', ''mov'']" using l3 by simp
  ultimately show ?thesis using sb_rep_str [OF c] by blast
qed

text \<open>C28: split_string cuts a string at every separator.  It always returns a non-empty list of
  pieces, none of which holds the separator, and joining them with the separator gives the
  string back, but for one separator at the very end, which is dropped.\<close>

theorem split_string_join:
  assumes "nul_free s" "ch \<noteq> NUL" "length s < 2 ^ 30"
  shows "\<exists>l ps. split_string (Some s) ch = Inr l \<and> sl_rep l ps \<and> ps \<noteq> [] \<and>
    (\<forall>p \<in> set ps. ch \<notin> set p) \<and>
    join ch ps = (if s \<noteq> [] \<and> last s = ch then butlast s else s)"
proof -
  obtain l where l: "split_string (Some s) ch = Inr l" "sl_rep l (split_spec ch s)"
    using split_string_rep [OF assms] by blast
  have "\<forall>p \<in> set (split_spec ch s). ch \<notin> set p" using split_spec_no_sep by blast
  with l show ?thesis using split_spec_not_Nil join_split_spec by blast
qed

theorem split_string_join_witness:
  "\<exists>l ps. split_string (Some ''/bin:/usr/bin:'') (CHR '':'') = Inr l \<and> sl_rep l ps \<and>
     join (CHR '':'') ps = ''/bin:/usr/bin''"
  using split_string_join [of "''/bin:/usr/bin:''" "CHR '':''"] by auto

text \<open>add_string_list keeps a list of strings free of duplicates: a string that is already
  in the list leaves the list unchanged, any other one is appended at the end.\<close>

theorem add_string_list_set:
  assumes "sl_rep l ss" "sb_rep s k" "length ss < 2 ^ 30" "distinct ss"
  shows "\<exists>l' ts. add_string_list l s = Inr l' \<and> sl_rep l' ts \<and> distinct ts \<and>
    set ts = insert k (set ss) \<and> (k \<in> set ss \<longrightarrow> l' = l) \<and> take (length ss) ts = ss"
proof -
  obtain l' where l': "add_string_list l s = Inr l'" "sl_rep l' (if k \<in> set ss then ss else ss @ [k])"
    using add_string_list_rep [OF assms(1-3)] by blast
  have "l' = l" if "k \<in> set ss"
  proof -
    have "l' = l \<or> append_string_list l s = Inr l'"
      using l'(1) by (auto simp: add_string_list_def rbind_eq_Inr split: option.splits)
    moreover have "append_string_list l s \<noteq> Inr l'"
      using append_string_list_rep [OF assms(1-3)] l'(2) that
      by (auto simp: sl_rep_def dest!: pl_rep_unique [of l'])
    ultimately show ?thesis by blast
  qed
  moreover have "distinct (if k \<in> set ss then ss else ss @ [k])" using assms(4) by simp
  moreover have "set (if k \<in> set ss then ss else ss @ [k]) = insert k (set ss)" by auto
  moreover have "take (length ss) (if k \<in> set ss then ss else ss @ [k]) = ss" by simp
  ultimately show ?thesis using l' by blast
qed

theorem add_string_list_set_witness:
  "\<exists>s l' ts. create_string (Some ''x'') = Inr s \<and> add_string_list create_string_list s = Inr l' \<and>
     sl_rep l' ts \<and> distinct ts \<and> set ts = {''x''}"
proof -
  obtain s where s: "create_string (Some ''x'') = Inr s" "sb_rep s ''x''"
    using create_string_rep [of "''x''"] by auto
  show ?thesis using add_string_list_set [OF create_string_list_rep s(2)] s(1) by auto
qed

end
