(* ===== verification/Byte_Codec.thy ===== *)
theory Byte_Codec
  imports Vm_Prelude
begin

text \<open>
  How a scalar lies in memory on the little-endian machines the program is built for.  The code
  writes a scalar through a pointer cast, or with fwrite, and reads it back the same way; both
  move the bytes of \<open>le_bytes\<close>.  The locale \<open>byte_codec\<close> is what the code buffer and the data
  items use of an encoding; it is interpreted on the words of 8, 16, 32 and 64 bits.
\<close>

fun le_bytes :: "nat \<Rightarrow> 'a::len word \<Rightarrow> 8 word list" where
  "le_bytes 0 w = []"
| "le_bytes (Suc n) w = ucast w # le_bytes n (drop_bit 8 w)"

fun of_le :: "8 word list \<Rightarrow> 'a::len word" where
  "of_le [] = 0"
| "of_le (b # bs) = ucast b OR push_bit 8 (of_le bs)"

lemma length_le_bytes [simp]: "length (le_bytes n w) = n"
  by (induction n w rule: le_bytes.induct) auto

lemma of_le_le_bytes: "of_le (le_bytes n w) = take_bit (8 * n) w"
proof (induction n w rule: le_bytes.induct)
  case (2 n w)
  have "of_le (le_bytes (Suc n) w) = ucast (ucast w :: 8 word) OR push_bit 8 (take_bit (8 * n) (drop_bit 8 w))"
    using 2 by simp
  also have "\<dots> = take_bit (8 * Suc n) w"
    by (rule bit_word_eqI)
      (auto simp: bit_simps bit_take_bit_iff bit_push_bit_iff bit_drop_bit_eq bit_or_iff)
  finally show ?case .
qed simp

lemma le_bytes_of_le:
  "8 * length bs \<le> LENGTH('a) \<Longrightarrow> le_bytes (length bs) (of_le bs :: 'a::len word) = bs"
proof (induction bs)
  case (Cons b bs)
  have "ucast (ucast b OR push_bit 8 (of_le bs :: 'a word)) = b"
    using Cons.prems by (intro bit_word_eqI) (auto simp: bit_simps dest: bit_imp_le_length)
  moreover have "drop_bit 8 (ucast b OR push_bit 8 (of_le bs :: 'a word)) =
      take_bit (LENGTH('a) - 8) (of_le bs)"
    using Cons.prems by (intro bit_word_eqI) (auto simp: bit_simps dest: bit_imp_le_length)
  moreover have "take_bit (8 * length bs) (of_le bs :: 'a word) = of_le bs"
    using of_le_le_bytes [of "length bs" "of_le bs :: 'a word"] Cons by simp
  then have "take_bit (LENGTH('a) - 8) (of_le bs :: 'a word) = of_le bs"
    using Cons.prems by (metis (no_types) add_le_imp_le_diff length_Cons min.absorb2 mult_Suc_right
        take_bit_take_bit add.commute)
  ultimately show ?case using Cons by simp
qed simp

section \<open>The bytes of a scalar in a block\<close>

fun store_bytes :: "8 word cell list \<Rightarrow> int \<Rightarrow> 8 word list \<Rightarrow> 8 word cell list res" where
  "store_bytes b i [] = Inr b"
| "store_bytes b i (x # xs) = rbind (store b i x) (\<lambda>b. store_bytes b (i + 1) xs)"

fun load_bytes :: "8 word cell list \<Rightarrow> int \<Rightarrow> nat \<Rightarrow> 8 word list res" where
  "load_bytes b i 0 = Inr []"
| "load_bytes b i (Suc n) =
     rbind (load b i) (\<lambda>x. rbind (load_bytes b (i + 1) n) (\<lambda>xs. Inr (x # xs)))"

lemma store_bytes_append:
  "holds b xs \<Longrightarrow> length xs + length ys \<le> length b \<Longrightarrow>
   \<exists>b'. store_bytes b (int (length xs)) ys = Inr b' \<and> length b' = length b \<and> holds b' (xs @ ys)"
proof (induction ys arbitrary: b xs)
  case (Cons y ys)
  let ?b = "b[length xs := Val y]"
  have "holds ?b (xs @ [y])" using Cons.prems by (intro holds_snoc) auto
  then obtain b' where "store_bytes ?b (int (length (xs @ [y]))) ys = Inr b'"
    "length b' = length ?b" "holds b' ((xs @ [y]) @ ys)"
    using Cons.IH [of ?b "xs @ [y]"] Cons.prems by auto
  then show ?case using Cons.prems by (simp add: store_def add.commute)
qed auto

lemma load_bytes_holds:
  "holds b (xs @ ys @ zs) \<Longrightarrow> load_bytes b (int (length xs)) (length ys) = Inr ys"
proof (induction ys arbitrary: xs)
  case (Cons y ys)
  have "load b (int (length xs)) = Inr y"
    using Cons.prems by (subst load_holds [of _ "xs @ (y # ys) @ zs"]) (auto simp: nth_append)
  moreover have "load_bytes b (int (length (xs @ [y]))) (length ys) = Inr ys"
    using Cons.IH [of "xs @ [y]"] Cons.prems by simp
  ultimately show ?case by (simp add: add.commute)
qed simp

lemma load_bytes_out:
  "0 < n \<Longrightarrow> int (length b) < i + int n \<Longrightarrow> 0 \<le> i \<Longrightarrow> holds b xs \<Longrightarrow> length xs = length b \<Longrightarrow>
   load_bytes b i n = Inl Out_Of_Bounds"
proof (induction n arbitrary: i)
  case (Suc n)
  show ?case
  proof (cases "i < int (length b)")
    case True
    then have "0 < n" using Suc.prems(2) by (cases n) auto
    then have "load_bytes b (i + 1) n = Inl Out_Of_Bounds" using Suc by simp
    moreover have "load b i = Inr (xs ! nat i)" using True Suc.prems by (intro load_holds) auto
    ultimately show ?thesis by simp
  qed simp
qed simp

section \<open>Encodings\<close>

locale byte_codec =
  fixes sz :: nat
    and enc :: "'v \<Rightarrow> 8 word list"
    and dec :: "8 word list \<Rightarrow> 'v"
  assumes enc_len: "length (enc v) = sz"
    and dec_enc: "dec (enc v) = v"
    and sz_bounds: "1 \<le> sz" "sz \<le> 8"
begin

lemma load_dec:
  "holds b (xs @ enc v @ zs) \<Longrightarrow>
   rbind (load_bytes b (int (length xs)) sz) (\<lambda>bs. Inr (dec bs)) = Inr v"
  using load_bytes_holds [of b xs "enc v" zs] enc_len dec_enc by simp

lemma enc_inj: "enc v @ xs = enc w @ ys \<Longrightarrow> v = w \<and> xs = ys"
  using enc_len dec_enc by (metis append_eq_append_conv)

end

abbreviation enc8 :: "8 word \<Rightarrow> 8 word list" where "enc8 \<equiv> le_bytes 1"
abbreviation enc16 :: "16 word \<Rightarrow> 8 word list" where "enc16 \<equiv> le_bytes 2"
abbreviation enc32 :: "32 word \<Rightarrow> 8 word list" where "enc32 \<equiv> le_bytes 4"
abbreviation enc64 :: "64 word \<Rightarrow> 8 word list" where "enc64 \<equiv> le_bytes 8"

lemma take_bit_length_word [simp]: "LENGTH('a) \<le> n \<Longrightarrow> take_bit n (w :: 'a::len word) = w"
  by (rule bit_word_eqI) (auto simp: bit_take_bit_iff)

interpretation c8: byte_codec 1 enc8 of_le
  by unfold_locales (simp_all only: of_le_le_bytes length_le_bytes, simp_all)

interpretation c16: byte_codec 2 enc16 of_le
  by unfold_locales (simp_all only: of_le_le_bytes length_le_bytes, simp_all)

interpretation c32: byte_codec 4 enc32 of_le
  by unfold_locales (simp_all only: of_le_le_bytes length_le_bytes, simp_all)

interpretation c64: byte_codec 8 enc64 of_le
  by unfold_locales (simp_all only: of_le_le_bytes length_le_bytes, simp_all)

end
