(* ===== verification/Code_Buffer.thy ===== *)
theory Code_Buffer
  imports Byte_Codec Pointer_List
begin

text \<open>
  src/src/vm_common/code_buffer.c: the buffer the assembler emits code into.

  The global pointer \<open>code\<close> is a \<open>code_buffer obj\<close>: \<open>Null\<close> before create_code_buffer, \<open>Freed\<close> after
  destroy_code_buffer, which does not reset it.  The fields of \<open>code_buffer_t\<close> have type unsigned
  int, 32-bit words here; the comparison in the macro RESIZE is made in size_t, so it does not
  wrap.  Every operation takes the global and returns it updated.
\<close>

section \<open>The operations\<close>

record code_buffer =
  cb_code :: "8 word cell list"
  cb_len :: "32 word"
  cb_cap :: "32 word"
  cb_index :: "32 word"

text \<open>ASSERT(code != NULL) and the dereference that follows it.\<close>

fun with_code :: "code_buffer obj \<Rightarrow> (code_buffer \<Rightarrow> 'a res) \<Rightarrow> 'a res" where
  "with_code Null f = Inl Null_Deref"
| "with_code (Live cb) f = f cb"
| "with_code Freed f = Inl Use_After_Free"

text \<open>The loop of RESIZE: \<open>None\<close> when it runs for ever, with the capacity shifted out to 0.\<close>

partial_function (option) grow32 :: "int \<Rightarrow> 32 word \<Rightarrow> 32 word option" where
  "grow32 need cap = (if uint cap < need then grow32 need (push_bit 1 cap) else Some cap)"

definition code_resize :: "code_buffer \<Rightarrow> nat \<Rightarrow> code_buffer res" where
  "code_resize cb n =
     (if uint (cb_cap cb) < uint (cb_len cb) + int n
      then case grow32 (uint (cb_len cb) + int n) (cb_cap cb) of
             None \<Rightarrow> Inl No_Return
           | Some cap \<Rightarrow>
               Inr (cb\<lparr>cb_cap := cap, cb_code := blk_realloc (cb_code cb) (unat cap)\<rparr>)
      else Inr cb)"

fun create_code_buffer :: "code_buffer obj \<Rightarrow> code_buffer obj" where
  "create_code_buffer Null =
     Live \<lparr>cb_code = blk_alloc 8 0, cb_len = 0, cb_cap = 8, cb_index = 0\<rparr>"
| "create_code_buffer c = c"

fun destroy_code_buffer :: "code_buffer obj \<Rightarrow> code_buffer obj res" where
  "destroy_code_buffer Null = Inr Null"
| "destroy_code_buffer (Live cb) = Inr Freed"
| "destroy_code_buffer Freed = Inl Use_After_Free"

text \<open>
  The four add_code functions differ in the type of the value: RESIZE for its size, a store at
  \<open>len\<close>, and \<open>len\<close> moved on by the size.
\<close>

definition add_bytes :: "code_buffer obj \<Rightarrow> 8 word list \<Rightarrow> (32 word \<times> code_buffer obj) res" where
  "add_bytes code bs = with_code code (\<lambda>cb.
     rbind (code_resize cb (length bs)) (\<lambda>cb.
     rbind (store_bytes (cb_code cb) (uint (cb_len cb)) bs) (\<lambda>b.
     let cb = cb\<lparr>cb_code := b, cb_len := cb_len cb + word_of_nat (length bs)\<rparr> in
     Inr (cb_len cb, Live cb))))"

definition add_code_char where
  "add_code_char code (val :: 8 word) = add_bytes code (enc8 val)"

definition add_code_short where
  "add_code_short code (val :: 16 word) = add_bytes code (enc16 val)"

definition add_code_int where
  "add_code_int code (val :: 32 word) = add_bytes code (enc32 val)"

definition add_code_long where
  "add_code_long code (val :: 64 word) = add_bytes code (enc64 val)"

text \<open>The four read_code functions: a load at \<open>index\<close>, whatever \<open>len\<close> is.\<close>

definition read_next :: "nat \<Rightarrow> code_buffer obj \<Rightarrow> (8 word list \<times> code_buffer obj) res" where
  "read_next n code = with_code code (\<lambda>cb.
     rbind (load_bytes (cb_code cb) (uint (cb_index cb)) n) (\<lambda>bs.
     Inr (bs, Live (cb\<lparr>cb_index := cb_index cb + word_of_nat n\<rparr>))))"

definition read_code_char :: "code_buffer obj \<Rightarrow> (8 word \<times> code_buffer obj) res" where
  "read_code_char code = rbind (read_next 1 code) (\<lambda>(bs, code). Inr (of_le bs, code))"

definition read_code_short :: "code_buffer obj \<Rightarrow> (16 word \<times> code_buffer obj) res" where
  "read_code_short code = rbind (read_next 2 code) (\<lambda>(bs, code). Inr (of_le bs, code))"

definition read_code_int :: "code_buffer obj \<Rightarrow> (32 word \<times> code_buffer obj) res" where
  "read_code_int code = rbind (read_next 4 code) (\<lambda>(bs, code). Inr (of_le bs, code))"

definition read_code_long :: "code_buffer obj \<Rightarrow> (64 word \<times> code_buffer obj) res" where
  "read_code_long code = rbind (read_next 8 code) (\<lambda>(bs, code). Inr (of_le bs, code))"

text \<open>The variants with an index check that it is below \<open>len\<close>, and leave \<open>index\<close> alone.\<close>

definition read_at :: "nat \<Rightarrow> code_buffer obj \<Rightarrow> 32 word \<Rightarrow> 8 word list res" where
  "read_at n code idx = with_code code (\<lambda>cb.
     if idx < cb_len cb then load_bytes (cb_code cb) (uint idx) n else Inl Fatal_Exit)"

definition read_code_char_idx :: "code_buffer obj \<Rightarrow> 32 word \<Rightarrow> 8 word res" where
  "read_code_char_idx code idx = rbind (read_at 1 code idx) (\<lambda>bs. Inr (of_le bs))"

definition read_code_short_idx :: "code_buffer obj \<Rightarrow> 32 word \<Rightarrow> 16 word res" where
  "read_code_short_idx code idx = rbind (read_at 2 code idx) (\<lambda>bs. Inr (of_le bs))"

definition read_code_int_idx :: "code_buffer obj \<Rightarrow> 32 word \<Rightarrow> 32 word res" where
  "read_code_int_idx code idx = rbind (read_at 4 code idx) (\<lambda>bs. Inr (of_le bs))"

definition read_code_long_idx :: "code_buffer obj \<Rightarrow> 32 word \<Rightarrow> 64 word res" where
  "read_code_long_idx code idx = rbind (read_at 8 code idx) (\<lambda>bs. Inr (of_le bs))"

definition reset_code_index :: "code_buffer obj \<Rightarrow> code_buffer obj res" where
  "reset_code_index code = with_code code (\<lambda>cb. Inr (Live (cb\<lparr>cb_index := 0\<rparr>)))"

definition set_code_index :: "code_buffer obj \<Rightarrow> 32 word \<Rightarrow> code_buffer obj res" where
  "set_code_index code idx = with_code code (\<lambda>cb.
     if idx < cb_len cb then Inr (Live (cb\<lparr>cb_index := idx\<rparr>)) else Inl Fatal_Exit)"

section \<open>Growing\<close>

lemma grow32_step: "uint cap < need \<Longrightarrow> grow32 need cap = grow32 need (push_bit 1 cap)"
  by (subst grow32.simps) simp

lemma grow32_done: "need \<le> uint cap \<Longrightarrow> grow32 need cap = Some cap"
  by (subst grow32.simps) simp

lemma push_bit_pow: "push_bit 1 (2 ^ k :: 32 word) = 2 ^ Suc k"
  by (simp add: push_bit_eq_mult)

lemma uint_pow: "k < 32 \<Longrightarrow> uint (2 ^ k :: 32 word) = 2 ^ k"
proof -
  assume "k < 32"
  then have "(2::int) ^ k < 2 ^ 32" by (intro power_strict_increasing) auto
  moreover have "(2 ^ k :: 32 word) = word_of_int (2 ^ k)" by simp
  ultimately show ?thesis by (simp only: uint_word_of_int) simp
qed

lemma unat_pow: "k < 32 \<Longrightarrow> unat (2 ^ k :: 32 word) = 2 ^ k"
  using uint_pow [of k] by (metis nat_power_eq nat_uint_eq zero_le_numeral nat_numeral)

lemma grow32_ok:
  "k \<le> 31 \<Longrightarrow> need \<le> 2 ^ 31 \<Longrightarrow>
   \<exists>j. k \<le> j \<and> j \<le> 31 \<and> grow32 need (2 ^ k) = Some (2 ^ j) \<and> need \<le> 2 ^ j"
proof (induction "31 - k" arbitrary: k)
  case 0
  then show ?case using uint_pow [of 31] grow32_done [of need "2 ^ 31"] by auto
next
  case (Suc m)
  show ?case
  proof (cases "need \<le> 2 ^ k")
    case True
    then show ?thesis using grow32_done [of need "2 ^ k"] uint_pow [of k] Suc.prems by auto
  next
    case False
    obtain j where "Suc k \<le> j" "j \<le> 31" "grow32 need (2 ^ Suc k) = Some (2 ^ j)" "need \<le> 2 ^ j"
    proof -
      have "m = 31 - Suc k" "Suc k \<le> 31" using Suc.hyps(2) by auto
      then show ?thesis using that Suc.hyps(1) [of "Suc k"] Suc.prems(2) by blast
    qed
    moreover have "grow32 need (2 ^ k) = grow32 need (2 ^ Suc k)"
      using False uint_pow [of k] Suc.hyps(2) by (subst grow32_step) (auto simp: mult.commute)
    ultimately show ?thesis by (intro exI [of _ j]) simp
  qed
qed

definition pow32 :: "32 word \<Rightarrow> bool" where
  "pow32 c \<longleftrightarrow> c = 0 \<or> (\<exists>k \<le> 31. c = 2 ^ k)"

lemma pow32_push: "pow32 c \<Longrightarrow> pow32 (push_bit 1 c)"
proof -
  have "push_bit 1 (2 ^ k :: 32 word) = 0" if "k = 31" for k :: nat
    using that by (simp add: push_bit_eq_mult)
  then show "pow32 c \<Longrightarrow> pow32 (push_bit 1 c)"
    unfolding pow32_def using push_bit_pow by (metis le_antisym not_less_eq_eq push_bit_of_0)
qed

lemma grow32_result:
  assumes "grow32 need cap = Some c"
  shows "pow32 cap \<longrightarrow> pow32 c \<and> need \<le> uint c"
  by (rule grow32.raw_induct [OF _ assms]) (metis pow32_push linorder_not_less option.inject)

lemma grow32_diverges: "pow32 cap \<Longrightarrow> 2 ^ 31 < need \<Longrightarrow> grow32 need cap = None"
proof (rule ccontr)
  assume "pow32 cap" "2 ^ 31 < need" "grow32 need cap \<noteq> None"
  then obtain c where "pow32 c" "need \<le> uint c" using grow32_result by blast
  moreover have "(2::int) ^ k \<le> 2 ^ 31" if "k \<le> 31" for k :: nat
    using that by (intro power_increasing) auto
  then have "uint c \<le> 2 ^ 31" using \<open>pow32 c\<close> uint_pow unfolding pow32_def by fastforce
  ultimately show False using \<open>2 ^ 31 < need\<close> by simp
qed

section \<open>The buffer as a sequence of bytes\<close>

definition cb_rep :: "code_buffer \<Rightarrow> 8 word list \<Rightarrow> bool" where
  "cb_rep cb bs \<longleftrightarrow>
     (\<exists>k \<in> {3..31}. cb_cap cb = 2 ^ k \<and> length (cb_code cb) = 2 ^ k) \<and>
     cb_len cb = word_of_nat (length bs) \<and> holds (cb_code cb) bs"

lemma cb_repD:
  assumes "cb_rep cb bs"
  obtains k where "3 \<le> k" "k \<le> 31" "cb_cap cb = 2 ^ k" "length (cb_code cb) = 2 ^ k"
    "uint (cb_cap cb) = 2 ^ k" "length bs \<le> 2 ^ k" "(2::nat) ^ k \<le> 2 ^ 31"
    "unat (cb_len cb) = length bs"
    "uint (cb_len cb) = int (length bs)" "holds (cb_code cb) bs"
proof -
  obtain k where k: "k \<in> {3..31}" "cb_cap cb = 2 ^ k" "length (cb_code cb) = 2 ^ k"
    and l: "cb_len cb = word_of_nat (length bs)" and h: "holds (cb_code cb) bs"
    using assms unfolding cb_rep_def by blast
  have le: "length bs \<le> 2 ^ k" using holds_length [OF h] k(3) by simp
  have p: "(2::nat) ^ k \<le> 2 ^ 31" using k(1) by (intro power_increasing) auto
  have u: "unat (cb_len cb) = length bs" using l le p by (simp add: unat_of_nat)
  then have "uint (cb_len cb) = int (length bs)" by (metis int_nat_eq uint_nat)
  then show ?thesis using that [of k] k uint_pow [of k] le p u h by auto
qed

lemma create_code_rep:
  "\<exists>cb. create_code_buffer Null = Live cb \<and> cb_rep cb [] \<and> cb_index cb = 0"
  by (auto simp: cb_rep_def intro!: bexI [of _ 3])

lemma code_resize_rep:
  assumes r: "cb_rep cb bs" and n: "length bs + n \<le> 2 ^ 31"
  shows "\<exists>cb'. code_resize cb n = Inr cb' \<and> cb_rep cb' bs \<and> cb_index cb' = cb_index cb \<and>
    cb_len cb' = cb_len cb \<and> length bs + n \<le> length (cb_code cb')"
proof -
  obtain k where k: "3 \<le> k" "k \<le> 31" "cb_cap cb = 2 ^ k" "length (cb_code cb) = 2 ^ k"
    "uint (cb_cap cb) = 2 ^ k" "length bs \<le> 2 ^ k" "(2::nat) ^ k \<le> 2 ^ 31"
    "unat (cb_len cb) = length bs"
    "uint (cb_len cb) = int (length bs)" "holds (cb_code cb) bs"
    using cb_repD [OF r] .
  show ?thesis
  proof (cases "(2::int) ^ k < int (length bs) + int n")
    case True
    have "int (length bs) + int n \<le> 2 ^ 31" using n by simp
    then obtain j where j: "k \<le> j" "j \<le> 31"
      "grow32 (int (length bs) + int n) (2 ^ k) = Some (2 ^ j)" "int (length bs) + int n \<le> 2 ^ j"
      using grow32_ok [OF k(2), of "int (length bs) + int n"] by auto
    then have "int (length bs + n) \<le> int (2 ^ j)" by simp
    then have n': "length bs + n \<le> 2 ^ j" by (simp only: of_nat_le_iff)
    let ?cb = "cb\<lparr>cb_cap := 2 ^ j, cb_code := blk_realloc (cb_code cb) (2 ^ j)\<rparr>"
    have "code_resize cb n = Inr ?cb"
      using True j k unat_pow [of j] by (simp add: code_resize_def)
    moreover have "cb_rep ?cb bs"
      using r j k n' unfolding cb_rep_def by (auto intro!: holds_realloc bexI [of _ j])
    ultimately show ?thesis using n' by auto
  next
    case False
    then have "int (length bs + n) \<le> int (2 ^ k)" by simp
    then have "length bs + n \<le> 2 ^ k" by (simp only: of_nat_le_iff)
    then show ?thesis using False k r by (auto simp: code_resize_def)
  qed
qed

lemma add_bytes_rep:
  assumes r: "cb_rep cb bs" and n: "length bs + length ys \<le> 2 ^ 31"
  shows "\<exists>cb'. add_bytes (Live cb) ys = Inr (word_of_nat (length bs + length ys), Live cb') \<and>
    cb_rep cb' (bs @ ys) \<and> cb_index cb' = cb_index cb"
proof -
  obtain c where c: "code_resize cb (length ys) = Inr c" "cb_rep c bs" "cb_index c = cb_index cb"
    "cb_len c = cb_len cb" "length bs + length ys \<le> length (cb_code c)"
    using code_resize_rep [OF assms] by blast
  obtain k where k: "uint (cb_len c) = int (length bs)" "holds (cb_code c) bs"
    using cb_repD [OF c(2)] by metis
  obtain b where b: "store_bytes (cb_code c) (int (length bs)) ys = Inr b"
    "length b = length (cb_code c)" "holds b (bs @ ys)"
    using store_bytes_append [OF k(2) c(5)] by blast
  then show ?thesis using c k by (auto simp: add_bytes_def Let_def cb_rep_def)
qed

lemma add_bytes_full:
  assumes r: "cb_rep cb bs" and n: "2 ^ 31 < length bs + length ys"
  shows "add_bytes (Live cb) ys = Inl No_Return"
proof -
  obtain k where k: "k \<le> 31" "cb_cap cb = 2 ^ k" "uint (cb_cap cb) = 2 ^ k"
    "(2::nat) ^ k \<le> 2 ^ 31" "uint (cb_len cb) = int (length bs)"
    using cb_repD [OF r] by metis
  have "(2::int) ^ 31 < int (length bs) + int (length ys)" using n by simp
  moreover have "(2::int) ^ k \<le> 2 ^ 31" using k(1) by (intro power_increasing) auto
  moreover have "pow32 (cb_cap cb)" using k unfolding pow32_def by blast
  ultimately show ?thesis
    using k grow32_diverges by (simp add: add_bytes_def code_resize_def)
qed

context byte_codec
begin

lemma read_next_rep:
  assumes r: "cb_rep cb (xs @ enc v @ zs)" and i: "cb_index cb = word_of_nat (length xs)"
  shows "\<exists>cb'. rbind (read_next sz (Live cb)) (\<lambda>(bs, c). Inr (dec bs, c)) = Inr (v, Live cb') \<and>
    cb_rep cb' (xs @ enc v @ zs) \<and> cb_index cb' = word_of_nat (length xs + sz)"
proof -
  obtain k where k: "length (xs @ enc v @ zs) \<le> 2 ^ k" "(2::nat) ^ k \<le> 2 ^ 31"
    "holds (cb_code cb) (xs @ enc v @ zs)"
    using cb_repD [OF r] by metis
  then have "unat (cb_index cb) = length xs" by (simp add: i unat_of_nat)
  then have "uint (cb_index cb) = int (length xs)" by (metis int_nat_eq uint_nat)
  then show ?thesis
    using load_bytes_holds [OF k(3)] r i
    by (auto simp: read_next_def enc_len dec_enc cb_rep_def)
qed

lemma read_at_rep:
  assumes r: "cb_rep cb (xs @ enc v @ zs)"
  shows "rbind (read_at sz (Live cb) (word_of_nat (length xs))) (\<lambda>bs. Inr (dec bs)) = Inr v"
proof -
  obtain k where k: "length (xs @ enc v @ zs) \<le> 2 ^ k" "(2::nat) ^ k \<le> 2 ^ 31"
    "unat (cb_len cb) = length (xs @ enc v @ zs)" "holds (cb_code cb) (xs @ enc v @ zs)"
    using cb_repD [OF r] by metis
  have u: "unat (word_of_nat (length xs) :: 32 word) = length xs" using k by (simp add: unat_of_nat)
  then have "uint (word_of_nat (length xs) :: 32 word) = int (length xs)" by (metis int_nat_eq uint_nat)
  moreover have "word_of_nat (length xs) < cb_len cb"
    using u k(3) enc_len [of v] sz_bounds by (simp add: word_less_nat_alt)
  ultimately show ?thesis
    using load_bytes_holds [OF k(4)] by (simp add: read_at_def enc_len dec_enc)
qed

end

section \<open>A stream of values\<close>

datatype code_val = V8 "8 word" | V16 "16 word" | V32 "32 word" | V64 "64 word"

fun val_bytes :: "code_val \<Rightarrow> 8 word list" where
  "val_bytes (V8 v) = enc8 v"
| "val_bytes (V16 v) = enc16 v"
| "val_bytes (V32 v) = enc32 v"
| "val_bytes (V64 v) = enc64 v"

fun add_val :: "code_buffer obj \<Rightarrow> code_val \<Rightarrow> (32 word \<times> code_buffer obj) res" where
  "add_val c (V8 v) = add_code_char c v"
| "add_val c (V16 v) = add_code_short c v"
| "add_val c (V32 v) = add_code_int c v"
| "add_val c (V64 v) = add_code_long c v"

fun add_vals :: "code_buffer obj \<Rightarrow> code_val list \<Rightarrow> code_buffer obj res" where
  "add_vals c [] = Inr c"
| "add_vals c (v # vs) = rbind (add_val c v) (\<lambda>(_, c). add_vals c vs)"

text \<open>Reads a value of the type of the first argument.\<close>

fun read_like :: "code_val \<Rightarrow> code_buffer obj \<Rightarrow> (code_val \<times> code_buffer obj) res" where
  "read_like (V8 _) c = rbind (read_code_char c) (\<lambda>(v, c). Inr (V8 v, c))"
| "read_like (V16 _) c = rbind (read_code_short c) (\<lambda>(v, c). Inr (V16 v, c))"
| "read_like (V32 _) c = rbind (read_code_int c) (\<lambda>(v, c). Inr (V32 v, c))"
| "read_like (V64 _) c = rbind (read_code_long c) (\<lambda>(v, c). Inr (V64 v, c))"

fun read_all :: "code_val list \<Rightarrow> code_buffer obj \<Rightarrow> code_val list res" where
  "read_all [] c = Inr []"
| "read_all (v # vs) c =
     rbind (read_like v c) (\<lambda>(w, c). rbind (read_all vs c) (\<lambda>ws. Inr (w # ws)))"

definition vals_bytes :: "code_val list \<Rightarrow> 8 word list" where
  "vals_bytes vs = concat (map val_bytes vs)"

lemma vals_bytes_simps [simp]:
  "vals_bytes [] = []" "vals_bytes (v # vs) = val_bytes v @ vals_bytes vs"
  by (simp_all add: vals_bytes_def)

lemma val_bytes_pos: "0 < length (val_bytes v)"
  by (cases v) (simp_all del: le_bytes.simps)

lemma add_val_bytes: "add_val c v = add_bytes c (val_bytes v)"
  by (cases v) (simp_all add: add_code_char_def add_code_short_def add_code_int_def add_code_long_def)

lemma add_vals_rep:
  "cb_rep cb bs \<Longrightarrow> length bs + length (vals_bytes vs) \<le> 2 ^ 31 \<Longrightarrow>
   \<exists>cb'. add_vals (Live cb) vs = Inr (Live cb') \<and> cb_rep cb' (bs @ vals_bytes vs) \<and>
     cb_index cb' = cb_index cb"
proof (induction vs arbitrary: cb bs)
  case (Cons v vs)
  obtain c where c: "add_bytes (Live cb) (val_bytes v) =
      Inr (word_of_nat (length bs + length (val_bytes v)), Live c)"
    "cb_rep c (bs @ val_bytes v)" "cb_index c = cb_index cb"
    using add_bytes_rep [OF Cons.prems(1), of "val_bytes v"] Cons.prems(2) by auto
  then show ?case using Cons.IH [OF c(2)] Cons.prems(2) by (auto simp: add_val_bytes)
qed auto

lemma read_like_rep:
  assumes "cb_rep cb (xs @ val_bytes v @ zs)" "cb_index cb = word_of_nat (length xs)"
  shows "\<exists>cb'. read_like v (Live cb) = Inr (v, Live cb') \<and>
    cb_rep cb' (xs @ val_bytes v @ zs) \<and>
    cb_index cb' = word_of_nat (length xs + length (val_bytes v))"
proof (cases v)
  case (V8 w)
  then show ?thesis using c8.read_next_rep [of cb xs w zs] assms
    by (auto simp: read_code_char_def rbind_eq_Inr simp del: le_bytes.simps)
next
  case (V16 w)
  then show ?thesis using c16.read_next_rep [of cb xs w zs] assms
    by (auto simp: read_code_short_def rbind_eq_Inr simp del: le_bytes.simps)
next
  case (V32 w)
  then show ?thesis using c32.read_next_rep [of cb xs w zs] assms
    by (auto simp: read_code_int_def rbind_eq_Inr simp del: le_bytes.simps)
next
  case (V64 w)
  then show ?thesis using c64.read_next_rep [of cb xs w zs] assms
    by (auto simp: read_code_long_def rbind_eq_Inr simp del: le_bytes.simps)
qed

lemma read_all_rep:
  "cb_rep cb (xs @ vals_bytes vs) \<Longrightarrow> cb_index cb = word_of_nat (length xs) \<Longrightarrow>
   read_all vs (Live cb) = Inr vs"
proof (induction vs arbitrary: cb xs)
  case (Cons v vs)
  obtain c where c: "read_like v (Live cb) = Inr (v, Live c)"
    "cb_rep c (xs @ val_bytes v @ vals_bytes vs)"
    "cb_index c = word_of_nat (length (xs @ val_bytes v))"
    using read_like_rep [of cb xs v "vals_bytes vs"] Cons.prems by auto
  then show ?case using Cons.IH [of c "xs @ val_bytes v"] by simp
qed simp

section \<open>Properties\<close>

text \<open>
  C23: any sequence of values of one, two, four and eight bytes, up to 2^31 bytes in all, that is
  added to a new buffer is read back unchanged, in order, by the readers of the same types after
  reset_code_index, through every growth of the buffer.
\<close>

theorem code_stream_roundtrip:
  assumes "length (vals_bytes vs) \<le> 2 ^ 31"
  shows "rbind (add_vals (create_code_buffer Null) vs) (\<lambda>c.
           rbind (reset_code_index c) (read_all vs)) = Inr vs"
proof -
  obtain cb where cb: "create_code_buffer Null = Live cb" "cb_rep cb []"
    using create_code_rep by blast
  obtain c where c: "add_vals (Live cb) vs = Inr (Live c)" "cb_rep c (vals_bytes vs)"
    using add_vals_rep [OF cb(2)] assms by auto
  then have "cb_rep (c\<lparr>cb_index := 0\<rparr>) ([] @ vals_bytes vs)" by (simp add: cb_rep_def)
  from read_all_rep [OF this] show ?thesis
    by (simp add: cb(1) c(1) reset_code_index_def del: create_code_buffer.simps)
qed

theorem code_stream_roundtrip_witness:
  "rbind (add_vals (create_code_buffer Null) [V16 0xAA0, V64 0xDEADBEEF0000, V8 7]) (\<lambda>c.
     rbind (reset_code_index c) (read_all [V16 0xAA0, V64 0xDEADBEEF0000, V8 7])) =
   Inr [V16 0xAA0, V64 0xDEADBEEF0000, V8 7]"
  by (rule code_stream_roundtrip) simp

text \<open>
  add_code_long returns the offset behind the value it added, from which read_code_long_idx
  finds the value again.
\<close>

theorem add_long_then_read_idx:
  assumes "cb_rep cb bs" "length bs + 8 \<le> 2 ^ 31"
  shows "rbind (add_code_long (Live cb) v) (\<lambda>(n, c).
           rbind (read_code_long_idx c (n - 8)) (\<lambda>w. Inr (n, w))) =
         Inr (word_of_nat (length bs + 8), v)"
proof -
  obtain c where c: "add_bytes (Live cb) (enc64 v) = Inr (word_of_nat (length bs + 8), Live c)"
    "cb_rep c (bs @ enc64 v @ [])"
    using add_bytes_rep [OF assms(1), of "enc64 v"] assms(2) by (auto simp del: le_bytes.simps)
  have "(word_of_nat (length bs + 8) :: 32 word) - 8 = word_of_nat (length bs)" by simp
  then show ?thesis
    using c(1) c64.read_at_rep [OF c(2)]
    by (simp add: add_code_long_def read_code_long_idx_def del: le_bytes.simps)
qed

definition buf8 :: "8 word list \<Rightarrow> code_buffer" where
  "buf8 bs =
     \<lparr>cb_code = map Val bs @ replicate (8 - length bs) (Val 0), cb_len = word_of_nat (length bs),
      cb_cap = 8, cb_index = 0\<rparr>"

lemma buf8_rep: "length bs \<le> 8 \<Longrightarrow> cb_rep (buf8 bs) bs"
  by (auto simp: buf8_def cb_rep_def holds_def intro!: bexI [of _ 3])

theorem add_long_then_read_idx_witness:
  "rbind (add_code_long (Live (buf8 [1, 2, 3])) 0xDEADBEEF0000) (\<lambda>(n, c).
     rbind (read_code_long_idx c (n - 8)) (\<lambda>w. Inr (n, w))) = Inr (11, 0xDEADBEEF0000)"
  by (subst add_long_then_read_idx [OF buf8_rep]) simp_all

text \<open>
  beyond 2^31 bytes the doubling of the 32-bit capacity in RESIZE shifts it to zero and its loop
  never ends: every add_code function hangs instead of reporting that the buffer is full.
\<close>

theorem add_code_hangs_when_full:
  assumes "cb_rep cb bs" "2 ^ 31 < length bs + length (val_bytes v)"
  shows "add_val (Live cb) v = Inl No_Return"
  using add_bytes_full [OF assms] by (simp only: add_val_bytes)

theorem add_code_hangs_when_full_witness:
  "add_val (Live \<lparr>cb_code = replicate (2 ^ 31) (Val 0), cb_len = word_of_nat (2 ^ 31),
                  cb_cap = 2 ^ 31, cb_index = 0\<rparr>) (V8 1) = Inl No_Return"
  by (rule add_code_hangs_when_full [where bs = "replicate (2 ^ 31) 0"])
    (auto simp: cb_rep_def holds_def intro!: bexI [of _ 31])

text \<open>
  the check of the read_code_idx functions looks only at the first byte: at an offset inside
  the code whose value would reach past a full buffer, read_code_long_idx reads beyond the block
  instead of reporting the invalid index.
\<close>

theorem read_long_idx_overreads:
  assumes "cb_rep cb bs" "length bs = length (cb_code cb)"
    and "unat idx < length bs" "length bs < unat idx + 8"
  shows "read_code_long_idx (Live cb) idx = Inl Out_Of_Bounds"
proof -
  have r: "unat (cb_len cb) = length bs" "holds (cb_code cb) bs"
    using cb_repD [OF assms(1)] by metis+
  then have "idx < cb_len cb" using assms(3) by (simp add: word_less_nat_alt)
  moreover have "length bs < n + 8 \<Longrightarrow> load_bytes (cb_code cb) (int n) 8 = Inl Out_Of_Bounds" for n
    using assms(2) r(2) by (intro load_bytes_out [of _ _ _ bs]) auto
  then have "load_bytes (cb_code cb) (uint idx) 8 = Inl Out_Of_Bounds"
    using assms(4) by (simp only: uint_nat)
  ultimately show ?thesis by (simp add: read_code_long_idx_def read_at_def)
qed

theorem read_long_idx_overreads_witness:
  "read_code_long_idx (Live (buf8 [1, 2, 3, 4, 5, 6, 7, 8])) 1 = Inl Out_Of_Bounds"
  by (rule read_long_idx_overreads [OF buf8_rep]) (simp_all add: buf8_def)

end
