(* ===== verification/Data_Item.thy ===== *)
theory Data_Item
  imports Byte_Codec String_Buffer
begin

text \<open>
  src/src/vm_common/data_item.c and data_item.h: a tagged value of the data section and its form in
  a file.

  The type tag is the 32-bit value of the enum, so that a tag outside the enum exists.  The union
  holds either 32 bits (\<open>Bits\<close>, read as int, unsigned or float; the other 32 bits of the union are
  zero from the allocator) or a pointer to a string.  A float is its IEEE 754 bit pattern.  A file
  is the list of the bytes that were written or are left to read.
\<close>

section \<open>Items\<close>

abbreviation DTYPE_INTEGER :: "32 word" where "DTYPE_INTEGER \<equiv> 0"
abbreviation DTYPE_UNSIGNED :: "32 word" where "DTYPE_UNSIGNED \<equiv> 1"
abbreviation DTYPE_FLOAT :: "32 word" where "DTYPE_FLOAT \<equiv> 2"
abbreviation DTYPE_STRING :: "32 word" where "DTYPE_STRING \<equiv> 3"

datatype payload = Bits "32 word" | SPtr string_t

record data_item =
  di_type :: "32 word"
  di_data :: payload

definition create_sval_item :: "string \<Rightarrow> data_item res" where
  "create_sval_item val =
     rbind (create_string (Some val)) (\<lambda>s. Inr \<lparr>di_type = DTYPE_STRING, di_data = SPtr s\<rparr>)"

definition create_sval_t_item :: "string_t \<Rightarrow> data_item res" where
  "create_sval_t_item val =
     rbind (copy_string val) (\<lambda>s. Inr \<lparr>di_type = DTYPE_STRING, di_data = SPtr s\<rparr>)"

definition create_ival_item :: "32 word option \<Rightarrow> data_item" where
  "create_ival_item val =
     \<lparr>di_type = DTYPE_INTEGER, di_data = Bits (case val of None \<Rightarrow> 0 | Some v \<Rightarrow> v)\<rparr>"

definition create_uval_item :: "32 word option \<Rightarrow> data_item" where
  "create_uval_item val =
     \<lparr>di_type = DTYPE_UNSIGNED, di_data = Bits (case val of None \<Rightarrow> 0 | Some v \<Rightarrow> v)\<rparr>"

text \<open>
  The conversion of a float to unsigned int: the integer part, with no defined result when that
  part does not fit, for an infinity or for a NaN.
\<close>

definition f32_sign :: "32 word \<Rightarrow> int" where
  "f32_sign w = (if uint w < 2 ^ 31 then 1 else - 1)"

definition f32_exp :: "32 word \<Rightarrow> int" where
  "f32_exp w = uint w div 2 ^ 23 mod 2 ^ 8"

definition f32_frac :: "32 word \<Rightarrow> int" where
  "f32_frac w = uint w mod 2 ^ 23"

definition f32_trunc :: "32 word \<Rightarrow> int" where
  "f32_trunc w =
     (if f32_exp w < 127 then 0
      else f32_sign w * ((2 ^ 23 + f32_frac w) * 2 ^ nat (f32_exp w - 127) div 2 ^ 23))"

definition f32_to_u32 :: "32 word \<Rightarrow> 32 word res" where
  "f32_to_u32 w =
     (if f32_exp w \<noteq> 255 \<and> 0 \<le> f32_trunc w \<and> f32_trunc w < 2 ^ 32
      then Inr (word_of_int (f32_trunc w)) else Inl Int_Overflow)"

definition create_fval_item :: "32 word option \<Rightarrow> data_item res" where
  "create_fval_item val =
     (case val of
        None \<Rightarrow> Inr \<lparr>di_type = DTYPE_FLOAT, di_data = Bits 0\<rparr>
      | Some v \<Rightarrow>
          rbind (f32_to_u32 v) (\<lambda>u. Inr \<lparr>di_type = DTYPE_FLOAT, di_data = Bits u\<rparr>))"

text \<open>
  The macros data_ival, data_uval and data_fval read the same 32 bits; of a pointer they would
  read half of the address, which the model gives no value.  data_sval of 32 bits is the
  pointer with that address: NULL for zero, otherwise a wild one.
\<close>

fun data_bits :: "data_item \<Rightarrow> 32 word res" where
  "data_bits di = (case di_data di of Bits w \<Rightarrow> Inr w | SPtr _ \<Rightarrow> Inl Wild_Pointer)"

fun data_sval :: "data_item \<Rightarrow> string_t option res" where
  "data_sval di =
     (case di_data di of
        Bits w \<Rightarrow> if w = 0 then Inr None else Inl Wild_Pointer
      | SPtr s \<Rightarrow> Inr (Some s))"

text \<open>Destroying looks at the tag, and for a string frees what the union points to.\<close>

fun destroy_data_item :: "data_item obj \<Rightarrow> data_item obj res" where
  "destroy_data_item Null = Inl Null_Deref"
| "destroy_data_item (Live di) =
     (if di_type di = DTYPE_STRING then rbind (data_sval di) (\<lambda>_. Inr Freed) else Inr Freed)"
| "destroy_data_item Freed = Inl Use_After_Free"

section \<open>Files\<close>

text \<open>
  For a string, save_data_item passes \<open>&data->data.sval->buffer\<close> to fwrite: the address of the
  field \<open>buffer\<close>, not the characters.  What is written are the first \<open>len\<close> bytes of the struct
  \<open>string_t\<close> itself: the pointer (the argument \<open>adr\<close>), \<open>len\<close> and \<open>cap\<close>, 16 bytes in all.
\<close>

definition string_struct :: "64 word \<Rightarrow> string_t \<Rightarrow> 8 word list" where
  "string_struct adr s =
     enc64 adr @ enc32 (word_of_int (sb_len s)) @ enc32 (word_of_int (sb_cap s))"

definition save_data_item :: "64 word \<Rightarrow> 8 word list \<Rightarrow> data_item \<Rightarrow> 8 word list res" where
  "save_data_item adr fptr data =
     (let out = fptr @ enc32 (di_type data) in
      if di_type data = DTYPE_INTEGER \<or> di_type data = DTYPE_UNSIGNED \<or> di_type data = DTYPE_FLOAT
      then rbind (data_bits data) (\<lambda>w. Inr (out @ enc32 w))
      else if di_type data = DTYPE_STRING
      then rbind (data_sval data) (\<lambda>p. case p of None \<Rightarrow> Inl Null_Deref
           | Some s \<Rightarrow>
               if 0 \<le> sb_len s \<and> sb_len s \<le> 16
               then Inr (out @ enc32 (word_of_int (sb_len s)) @
                           take (nat (sb_len s)) (string_struct adr s))
               else Inl Out_Of_Bounds)
      else Inl Fatal_Exit)"

text \<open>
  fread of one object of 4 bytes: \<open>None\<close> at the end of the file, where the object keeps the value
  it had; a partial object has no defined value.  No result of fread is checked.
\<close>

definition fread32 :: "8 word list \<Rightarrow> (32 word option \<times> 8 word list) res" where
  "fread32 fptr =
     (if fptr = [] then Inr (None, [])
      else if length fptr < 4 then Inl Uninit_Read
      else Inr (Some (of_le (take 4 fptr)), drop 4 fptr))"

definition char_of_byte :: "8 word \<Rightarrow> char" where
  "char_of_byte b = char_of (unat b)"

text \<open>
  The string case of load_data_item.  \<open>len\<close> is not initialised before its fread; a negative one
  makes the size passed to the allocator huge, or zero.
\<close>

definition load_string :: "8 word list \<Rightarrow> (string_t \<times> 8 word list) res" where
  "load_string fptr =
     rbind (fread32 fptr) (\<lambda>(n, fptr). case n of None \<Rightarrow> Inl Uninit_Read
     | Some w \<Rightarrow>
         rbind (chk (sint w + 1)) (\<lambda>size.
         if size < 0 then Inl Fatal_Exit
         else if size = 0 then Inl Out_Of_Bounds
         else
           let got = map char_of_byte (take (nat (sint w)) fptr);
               str = map Val got @ replicate (nat size - length got) (Val NUL)
           in rbind (cstr str 0) (\<lambda>cs.
              rbind (create_string (Some cs)) (\<lambda>s.
              Inr (s, drop (nat (sint w)) fptr)))))"

definition load_data_item :: "8 word list \<Rightarrow> (data_item \<times> 8 word list) res" where
  "load_data_item fptr =
     rbind (fread32 fptr) (\<lambda>(t, fptr).
     let type = (case t of None \<Rightarrow> 0 | Some w \<Rightarrow> w) in
     if type = DTYPE_INTEGER \<or> type = DTYPE_UNSIGNED \<or> type = DTYPE_FLOAT
     then rbind (fread32 fptr) (\<lambda>(v, fptr).
          Inr (\<lparr>di_type = type, di_data = Bits (case v of None \<Rightarrow> 0 | Some w \<Rightarrow> w)\<rparr>, fptr))
     else if type = DTYPE_STRING
     then rbind (load_string fptr) (\<lambda>(s, fptr).
          Inr (\<lparr>di_type = type, di_data = SPtr s\<rparr>, fptr))
     else Inl Fatal_Exit)"

text \<open>What dump_data_item prints behind the name of the type.\<close>

datatype shown = Show_Int int | Show_Unsigned "32 word" | Show_Float "32 word" | Show_String string

definition dump_data_item :: "data_item \<Rightarrow> shown res" where
  "dump_data_item ptr =
     (if di_type ptr = DTYPE_INTEGER then rbind (data_bits ptr) (\<lambda>w. Inr (Show_Int (sint w)))
      else if di_type ptr = DTYPE_UNSIGNED then rbind (data_bits ptr) (\<lambda>w. Inr (Show_Unsigned w))
      else if di_type ptr = DTYPE_FLOAT then rbind (data_bits ptr) (\<lambda>w. Inr (Show_Float w))
      else if di_type ptr = DTYPE_STRING
      then rbind (data_sval ptr) (\<lambda>p. case p of None \<Rightarrow> Inl Null_Deref
           | Some s \<Rightarrow> rbind (cstr (sb_buffer s) 0) (\<lambda>cs. Inr (Show_String cs)))
      else Inl Fatal_Exit)"

section \<open>Round trips\<close>

text \<open>An item that is not a string.\<close>

fun scalar :: "data_item \<Rightarrow> bool" where
  "scalar di \<longleftrightarrow> (\<exists>w. di_data di = Bits w) \<and> uint (di_type di) < 3"

fun save_items :: "64 word \<Rightarrow> 8 word list \<Rightarrow> data_item list \<Rightarrow> 8 word list res" where
  "save_items adr f [] = Inr f"
| "save_items adr f (d # ds) = rbind (save_data_item adr f d) (\<lambda>f. save_items adr f ds)"

fun load_items :: "nat \<Rightarrow> 8 word list \<Rightarrow> (data_item list \<times> 8 word list) res" where
  "load_items 0 f = Inr ([], f)"
| "load_items (Suc n) f =
     rbind (load_data_item f) (\<lambda>(d, f). rbind (load_items n f) (\<lambda>(ds, f). Inr (d # ds, f)))"

lemma enc32_not_Nil [simp]: "enc32 w \<noteq> []"
  by (metis length_le_bytes list.size(3) zero_neq_numeral)

lemma fread32_enc [simp]: "fread32 (enc32 w @ f) = Inr (Some w, f)"
  using c32.dec_enc [of w] by (simp add: fread32_def del: le_bytes.simps)

lemma scalar_type:
  assumes "scalar di"
  shows "di_type di = 0 \<or> di_type di = 1 \<or> di_type di = 2"
proof -
  have "0 \<le> uint (di_type di)" "uint (di_type di) < 3" using assms by auto
  then have "uint (di_type di) = 0 \<or> uint (di_type di) = 1 \<or> uint (di_type di) = 2" by arith
  then show ?thesis by (auto simp: word_uint_eq_iff)
qed

lemma save_scalar:
  "scalar di \<Longrightarrow> \<exists>w. di_data di = Bits w \<and>
     save_data_item adr f di = Inr (f @ enc32 (di_type di) @ enc32 w)"
  using scalar_type [of di] by (auto simp: save_data_item_def Let_def simp del: le_bytes.simps)

lemma load_scalar:
  "scalar di \<Longrightarrow> di_data di = Bits w \<Longrightarrow>
   load_data_item (enc32 (di_type di) @ enc32 w @ f) = Inr (di, f)"
  using scalar_type [of di] by (auto simp: load_data_item_def Let_def simp del: le_bytes.simps)

lemma save_load_items:
  "\<forall>d \<in> set ds. scalar d \<Longrightarrow>
   \<exists>g. save_items adr f ds = Inr (f @ g) \<and> load_items (length ds) (g @ r) = Inr (ds, r)"
proof (induction ds arbitrary: f)
  case (Cons d ds)
  obtain w where w: "di_data d = Bits w"
    "save_data_item adr f d = Inr (f @ enc32 (di_type d) @ enc32 w)"
    using save_scalar [of d adr f] Cons.prems by auto
  obtain g where g: "save_items adr (f @ enc32 (di_type d) @ enc32 w) ds =
      Inr ((f @ enc32 (di_type d) @ enc32 w) @ g)" "load_items (length ds) (g @ r) = Inr (ds, r)"
    using Cons.IH Cons.prems by (meson list.set_intros(2))
  have "load_data_item (enc32 (di_type d) @ enc32 w @ g @ r) = Inr (d, g @ r)"
    using load_scalar [of d w "g @ r"] w Cons.prems by (simp del: le_bytes.simps)
  then show ?case using w(2) g
    by (intro exI [of _ "enc32 (di_type d) @ enc32 w @ g"]) (simp del: le_bytes.simps)
qed simp

section \<open>Properties\<close>

text \<open>
  C32: integer, unsigned and float items written one after the other with save_data_item are read
  back by load_data_item unchanged and in order, and the rest of the file is left.
\<close>

theorem scalar_items_roundtrip:
  assumes "\<forall>d \<in> set ds. scalar d"
  shows "rbind (save_items adr [] ds) (\<lambda>f. load_items (length ds) (f @ rest)) = Inr (ds, rest)"
  using save_load_items [OF assms, of adr "[]" rest] by auto

theorem scalar_items_roundtrip_witness:
  "rbind (save_items 0 [] [create_ival_item (Some (- 5)), create_uval_item (Some 7)])
     (\<lambda>f. load_items 2 (f @ [9])) = Inr ([create_ival_item (Some (- 5)), create_uval_item (Some 7)], [9])"
  using scalar_items_roundtrip [of "[create_ival_item (Some (- 5)), create_uval_item (Some 7)]" 0 "[9]"]
  by (simp add: create_ival_item_def create_uval_item_def numeral_2_eq_2)

text \<open>
  saving a string writes its length and then bytes of the string_t struct, the first of them
  the address of its buffer; the characters of the string play no part in what is written.
\<close>

theorem save_string_writes_struct:
  assumes "sb_rep s cs" "length cs \<le> 16"
  shows "save_data_item adr f \<lparr>di_type = DTYPE_STRING, di_data = SPtr s\<rparr> =
    Inr (f @ enc32 3 @ enc32 (word_of_nat (length cs)) @
         take (length cs) (enc64 adr @ enc32 (word_of_nat (length cs)) @ enc32 (word_of_int (sb_cap s))))"
proof -
  have "sb_len s = int (length cs)" using assms(1) by (simp add: sb_rep_def)
  then show ?thesis using assms(2)
    by (simp add: save_data_item_def Let_def string_struct_def del: le_bytes.simps)
qed

theorem save_string_writes_struct_witness:
  "save_data_item 0x1122334455667788 [] \<lparr>di_type = 3, di_data = SPtr
     \<lparr>sb_buffer = map Val ''abc'' @ replicate 5 (Val NUL), sb_len = 3, sb_cap = 8\<rparr>\<rparr> =
   Inr (enc32 3 @ enc32 3 @ take (length ''abc'') (enc64 0x1122334455667788 @ enc32 3 @ enc32 8))"
proof -
  have "sb_rep \<lparr>sb_buffer = map Val ''abc'' @ replicate 5 (Val NUL), sb_len = 3, sb_cap = 8\<rparr> ''abc''"
    by (auto simp: sb_rep_def sb_str_def str_at_def holds_append_iff) (auto simp: holds_def take_Cons')
  from save_string_writes_struct [OF this, of "0x1122334455667788" "[]"] show ?thesis
    by (simp del: le_bytes.simps take_append)
qed

lemma trunc_neq_pattern:
  fixes m :: int
  assumes "0 \<le> m" "m < 2 ^ 23" "k \<le> 8"
  shows "(2 ^ 23 + m) * 2 ^ k \<noteq> (150 + int k) * 2 ^ 23 + m"
proof -
  have m: "0 \<le> m" "m < 8388608" using assms by simp_all
  have k: "k = 0 \<or> k = 1 \<or> k = 2 \<or> k = 3 \<or> k = 4 \<or> k = 5 \<or> k = 6 \<or> k = 7 \<or> k = 8"
    using assms(3) by arith
  have "127 * m \<noteq> 243269632" by presburger
  then have "(8388608 + m) * 128 \<noteq> 1317011456 + m" by (simp add: algebra_simps)
  moreover have "(8388608 + m) * 2 \<noteq> 1266679808 + m" "(8388608 + m) * 4 \<noteq> 1275068416 + m"
    "(8388608 + m) * 8 \<noteq> 1283457024 + m" "(8388608 + m) * 16 \<noteq> 1291845632 + m"
    "(8388608 + m) * 32 \<noteq> 1300234240 + m" "(8388608 + m) * 64 \<noteq> 1308622848 + m"
    "(8388608 + m) * 256 \<noteq> 1325400064 + m"
    using m by simp_all
  ultimately show ?thesis using k by (elim disjE) simp_all
qed

text \<open>The three fields of a pattern.\<close>

lemma f32_fields:
  "uint w = (if f32_sign w = 1 then 0 else 2 ^ 31) + f32_exp w * 2 ^ 23 + f32_frac w"
  "0 \<le> f32_exp w" "f32_exp w < 256" "0 \<le> f32_frac w" "f32_frac w < 2 ^ 23"
proof -
  define x where "x = uint w"
  define q where "q = x div 2 ^ 23"
  have b: "0 \<le> x" "x < 2 ^ 32" using uint_lt2p [of w] by (simp_all add: x_def)
  have x: "x = q * 2 ^ 23 + x mod 2 ^ 23" "0 \<le> x mod 2 ^ 23" "x mod 2 ^ 23 < 2 ^ 23"
    by (simp_all add: q_def)
  have q: "0 \<le> q" "q < 512" using b x by simp_all
  have i: "x < 2 ^ 31 \<longleftrightarrow> q < 256" using x by simp linarith
  have m: "q mod 256 = (if q < 256 then q else q - 256)"
  proof (cases "q < 256")
    case False
    have "q mod 256 = (q - 256) mod 256" by (rule minus_mod_self2 [symmetric])
    also have "\<dots> = q - 256" using False q by (intro mod_pos_pos_trivial) auto
    finally show ?thesis using False by simp
  qed (use q in \<open>simp add: mod_pos_pos_trivial\<close>)
  show "uint w = (if f32_sign w = 1 then 0 else 2 ^ 31) + f32_exp w * 2 ^ 23 + f32_frac w"
  proof -
    have "f32_exp w = q mod 256" by (simp add: f32_exp_def q_def x_def)
    moreover have "f32_frac w = x mod 2 ^ 23" by (simp add: f32_frac_def x_def)
    moreover have "f32_sign w = (if q < 256 then 1 else - 1)"
      using i by (simp add: f32_sign_def x_def)
    moreover have "x = (if q < 256 then 0 else 2 ^ 31) + (if q < 256 then q else q - 256) * 2 ^ 23 +
        x mod 2 ^ 23"
      using x(1) by simp
    ultimately show ?thesis using m unfolding x_def [symmetric] by (cases "q < 256") auto
  qed
qed (simp_all add: f32_exp_def f32_frac_def)

lemma f32_trunc_neq:
  assumes e: "127 \<le> e" "e \<le> 158" and m: "0 \<le> m" "m < (2::int) ^ 23"
  shows "(2 ^ 23 + m) * 2 ^ nat (e - 127) div 2 ^ 23 \<noteq> e * 2 ^ 23 + m"
proof (cases "e < 150")
  case True
  have "(2::int) ^ nat (e - 127) \<le> 2 ^ 22" using True e by (intro power_increasing) auto
  moreover have "2 ^ 23 + m \<le> 2 ^ 24" using m by simp
  ultimately have "(2 ^ 23 + m) * 2 ^ nat (e - 127) \<le> 2 ^ 24 * 2 ^ 22" by (intro mult_mono) auto
  then have "(2 ^ 23 + m) * 2 ^ nat (e - 127) div 2 ^ 23 \<le> 2 ^ 24 * 2 ^ 22 div 2 ^ 23"
    by (rule zdiv_mono1) simp
  moreover have "127 * 2 ^ 23 \<le> e * 2 ^ 23" using e by simp
  ultimately show ?thesis using m by simp
next
  case False
  define k where "k = nat (e - 150)"
  have k: "nat (e - 127) = k + 23" "k \<le> 8" "e = 150 + int k" using False e by (auto simp: k_def)
  have "(2 ^ 23 + m) * 2 ^ nat (e - 127) div 2 ^ 23 = (2 ^ 23 + m) * 2 ^ k"
    by (simp add: k(1) power_add mult.assoc [symmetric])
  then show ?thesis using trunc_neq_pattern [OF m k(2)] k(3) by simp
qed

text \<open>
  create_fval_item stores the float through the member \<open>uval\<close> of the union, so it is converted to
  an integer: of all floats only 0.0 is read back from the member \<open>fval\<close> as it was given.
\<close>

theorem float_item_keeps_only_zero:
  "rbind (create_fval_item (Some w)) data_bits = Inr w \<longleftrightarrow> w = 0"
proof
  assume "rbind (create_fval_item (Some w)) data_bits = Inr w"
  then have w: "0 \<le> f32_trunc w" "f32_trunc w < 2 ^ 32" "w = word_of_int (f32_trunc w)"
    by (auto simp: create_fval_item_def f32_to_u32_def rbind_eq_Inr split: if_splits)
  have "uint w = uint (word_of_int (f32_trunc w) :: 32 word)" by (rule arg_cong [OF w(3)])
  then have u: "uint w = f32_trunc w" using w(1,2) by (simp only: uint_word_of_int) simp
  note f = f32_fields [of w]
  show "w = 0"
  proof (cases "f32_exp w < 127")
    case True
    then have "uint w = 0" using u by (simp add: f32_trunc_def)
    then show ?thesis by (simp add: word_uint_eq_iff)
  next
    case False
    define t where "t = (2 ^ 23 + f32_frac w) * 2 ^ nat (f32_exp w - 127) div 2 ^ 23"
    have t: "f32_trunc w = f32_sign w * t" using False by (simp add: f32_trunc_def t_def)
    have t1: "2 ^ nat (f32_exp w - 127) \<le> t"
    proof -
      have "2 ^ 23 * 2 ^ nat (f32_exp w - 127) \<le> (2 ^ 23 + f32_frac w) * 2 ^ nat (f32_exp w - 127)"
        using f(4) by (intro mult_right_mono) auto
      then have "2 ^ 23 * 2 ^ nat (f32_exp w - 127) div 2 ^ 23 \<le> t"
        unfolding t_def by (rule zdiv_mono1) simp
      then show ?thesis by simp
    qed
    have "0 < t" using t1 by (rule order_less_le_trans [rotated]) simp
    then have pos: "f32_sign w = 1" using w(1) t by (auto simp: f32_sign_def split: if_splits)
    have "f32_exp w \<le> 158"
    proof (rule ccontr)
      assume "\<not> f32_exp w \<le> 158"
      then have "(2::int) ^ 32 \<le> 2 ^ nat (f32_exp w - 127)" by (intro power_increasing) auto
      then show False using t1 w(2) t pos by simp
    qed
    then show ?thesis
      using f32_trunc_neq [of "f32_exp w" "f32_frac w"] False f u t pos by (simp add: t_def)
  qed
next
  assume "w = 0"
  then show "rbind (create_fval_item (Some w)) data_bits = Inr w"
    by (simp add: create_fval_item_def f32_to_u32_def f32_exp_def f32_trunc_def)
qed

end
