(* ===== verification/Data_Buffer.thy ===== *)
theory Data_Buffer
  imports Data_Item Pointer_List
begin

text \<open>
  src/src/vm_common/data_buffer.c: the data section under construction, a global list of items.

  The global pointer \<open>data\<close> is a list handle; destroy_data_buffer does not reset it.  An item is
  the value its pointer refers to: nothing changes an item once it is in the list.
\<close>

section \<open>The operations\<close>

type_synonym data_buffer = "data_item pointer_list obj"

fun create_data_buffer :: "data_buffer \<Rightarrow> data_buffer" where
  "create_data_buffer Null = Live create_ptr_list"
| "create_data_buffer d = d"

fun with_data :: "data_buffer \<Rightarrow> (data_item pointer_list \<Rightarrow> 'a res) \<Rightarrow> 'a res" where
  "with_data Null f = Inl Null_Deref"
| "with_data (Live l) f = f l"
| "with_data Freed f = Inl Use_After_Free"

fun destroy_data_buffer :: "data_buffer \<Rightarrow> data_buffer res" where
  "destroy_data_buffer Null = Inr Null"
| "destroy_data_buffer (Live l) =
     rbind (iter_while (\<lambda>item s. rbind (destroy_data_item (Live item)) (\<lambda>_. Inr (False, s)))
              (Some l) 0 ()) (\<lambda>_.
     destroy_ptr_list (Live l))"
| "destroy_data_buffer Freed = Inl Use_After_Free"

text \<open>
  append_data_buffer passes its argument, a pointer to an item, to create_uval_item, which takes a
  pointer to unsigned: the new item gets the first four bytes of the struct, the type tag.
\<close>

definition append_data_buffer :: "data_buffer \<Rightarrow> data_item option \<Rightarrow> (int \<times> data_buffer) res" where
  "append_data_buffer data val = with_data data (\<lambda>l.
     rbind (append_ptr_list l (Some (create_uval_item (map_option di_type val)))) (\<lambda>l.
     rbind (chk (len_ptr_list l - 1)) (\<lambda>n. Inr (n, Live l))))"

definition add_unsigned_data :: "data_buffer \<Rightarrow> 32 word \<Rightarrow> (int \<times> data_buffer) res" where
  "add_unsigned_data data val = append_data_buffer data (Some (create_uval_item (Some val)))"

definition add_int_data :: "data_buffer \<Rightarrow> 32 word \<Rightarrow> (int \<times> data_buffer) res" where
  "add_int_data data val = append_data_buffer data (Some (create_ival_item (Some val)))"

definition add_float_data :: "data_buffer \<Rightarrow> 32 word \<Rightarrow> (int \<times> data_buffer) res" where
  "add_float_data data val =
     rbind (create_fval_item (Some val)) (\<lambda>it. append_data_buffer data (Some it))"

definition add_string_data :: "data_buffer \<Rightarrow> string \<Rightarrow> (int \<times> data_buffer) res" where
  "add_string_data data str =
     rbind (create_sval_item str) (\<lambda>it. append_data_buffer data (Some it))"

definition get_data_item :: "data_buffer \<Rightarrow> int \<Rightarrow> data_item option res" where
  "get_data_item data index = with_data data (\<lambda>l. index_ptr_list l index)"

definition deref_item :: "data_item option \<Rightarrow> data_item res" where
  "deref_item p = (case p of None \<Rightarrow> Inl Null_Deref | Some it \<Rightarrow> Inr it)"

definition get_int_data :: "data_buffer \<Rightarrow> int \<Rightarrow> int res" where
  "get_int_data data index =
     rbind (get_data_item data index) (\<lambda>p.
     rbind (deref_item p) (\<lambda>it.
     rbind (data_bits it) (\<lambda>w. Inr (sint w))))"

definition get_unsigned_data :: "data_buffer \<Rightarrow> int \<Rightarrow> 32 word res" where
  "get_unsigned_data data index =
     rbind (get_data_item data index) (\<lambda>p. rbind (deref_item p) data_bits)"

definition get_float_data :: "data_buffer \<Rightarrow> int \<Rightarrow> 32 word res" where
  "get_float_data data index =
     rbind (get_data_item data index) (\<lambda>p. rbind (deref_item p) data_bits)"

definition get_string_data :: "data_buffer \<Rightarrow> int \<Rightarrow> string_t option res" where
  "get_string_data data index =
     rbind (get_data_item data index) (\<lambda>p. rbind (deref_item p) data_sval)"

definition dump_data_buffer :: "data_buffer \<Rightarrow> shown list res" where
  "dump_data_buffer data =
     rbind (case data of
              Null \<Rightarrow> iter_while (\<lambda>it s. rbind (dump_data_item it) (\<lambda>d. Inr (False, s @ [d]))) None 0 []
            | Live l \<Rightarrow> iter_while (\<lambda>it s. rbind (dump_data_item it) (\<lambda>d. Inr (False, s @ [d]))) (Some l) 0 []
            | Freed \<Rightarrow> Inl Use_After_Free) (\<lambda>(out, _). Inr out)"

section \<open>What the buffer holds\<close>

text \<open>Every item is an unsigned one whose value is a tag.\<close>

definition db_rep :: "data_buffer \<Rightarrow> 32 word list \<Rightarrow> bool" where
  "db_rep d tags \<longleftrightarrow>
     (\<exists>l. d = Live l \<and> pl_rep l (map (\<lambda>t. Some (create_uval_item (Some t))) tags))"

lemma create_data_buffer_rep: "db_rep (create_data_buffer Null) []"
  by (simp add: db_rep_def create_ptr_list_rep)

lemma append_data_buffer_rep:
  assumes "db_rep d tags" "length tags < 2 ^ 30"
  shows "\<exists>d'. append_data_buffer d (Some it) = Inr (int (length tags), d') \<and>
    db_rep d' (tags @ [di_type it])"
proof -
  obtain l where l: "d = Live l" "pl_rep l (map (\<lambda>t. Some (create_uval_item (Some t))) tags)"
    using assms(1) unfolding db_rep_def by blast
  then obtain l' where l': "append_ptr_list l (Some (create_uval_item (Some (di_type it)))) = Inr l'"
    "pl_rep l' (map (\<lambda>t. Some (create_uval_item (Some t))) tags @
       [Some (create_uval_item (Some (di_type it)))])"
    "len_ptr_list l' - 1 = int (length tags)"
    using pl.app_hands_out_index [OF l(2)] assms(2) by (metis length_map)
  then show ?thesis using l(1) assms(2)
    by (auto simp: append_data_buffer_def db_rep_def)
qed

lemma get_data_item_rep:
  "db_rep d tags \<Longrightarrow> 0 \<le> i \<Longrightarrow>
   get_data_item d i =
     Inr (if i < int (length tags) then Some (create_uval_item (Some (tags ! nat i))) else None)"
  by (auto simp: db_rep_def get_data_item_def index_ptr_list_rep)

lemma loop_list_dump:
  "loop_list (\<lambda>it s. rbind (dump_data_item it) (\<lambda>d. Inr (False, s @ [d])))
     (map (\<lambda>t. Some (create_uval_item (Some t))) tags) m s =
   Inr (s @ map Show_Unsigned tags, None, m + int (length tags))"
  by (induction tags arbitrary: m s) (auto simp: dump_data_item_def create_uval_item_def)

section \<open>Properties\<close>

text \<open>The calls that add a constant, as one type.\<close>

datatype data_add = Add_Int "32 word" | Add_Unsigned "32 word" | Add_Float "32 word" | Add_String string

fun add_data :: "data_buffer \<Rightarrow> data_add \<Rightarrow> (int \<times> data_buffer) res" where
  "add_data d (Add_Int v) = add_int_data d v"
| "add_data d (Add_Unsigned v) = add_unsigned_data d v"
| "add_data d (Add_Float v) = add_float_data d v"
| "add_data d (Add_String s) = add_string_data d s"

fun tag_of :: "data_add \<Rightarrow> 32 word" where
  "tag_of (Add_Int v) = 0"
| "tag_of (Add_Unsigned v) = 1"
| "tag_of (Add_Float v) = 2"
| "tag_of (Add_String s) = 3"

text \<open>Calls whose argument the code can convert and store.\<close>

fun add_ok :: "data_add \<Rightarrow> bool" where
  "add_ok (Add_Float v) \<longleftrightarrow> f32_exp v \<noteq> 255 \<and> 0 \<le> f32_trunc v \<and> f32_trunc v < 2 ^ 32"
| "add_ok (Add_String s) \<longleftrightarrow> nul_free s \<and> length s < 2 ^ 30"
| "add_ok _ \<longleftrightarrow> True"

lemma add_data_rep:
  assumes "db_rep d tags" "length tags < 2 ^ 30" "add_ok a"
  shows "\<exists>d'. add_data d a = Inr (int (length tags), d') \<and> db_rep d' (tags @ [tag_of a])"
proof (cases a)
  case (Add_Float v)
  then show ?thesis
    using append_data_buffer_rep [OF assms(1,2)] assms(3)
    by (simp add: add_float_data_def create_fval_item_def f32_to_u32_def)
      (metis data_item.select_convs(1))
next
  case (Add_String s)
  then obtain st where "create_string (Some s) = Inr st"
    using create_string_rep [of s] assms(3) by auto
  then show ?thesis
    using append_data_buffer_rep [OF assms(1,2)] Add_String
    by (simp add: add_string_data_def create_sval_item_def) (metis data_item.select_convs(1))
qed (use append_data_buffer_rep [OF assms(1,2)] in
  \<open>simp_all add: add_int_data_def add_unsigned_data_def create_ival_item_def create_uval_item_def,
    (metis data_item.select_convs(1))+\<close>)

fun add_datas :: "data_buffer \<Rightarrow> data_add list \<Rightarrow> (int list \<times> data_buffer) res" where
  "add_datas d [] = Inr ([], d)"
| "add_datas d (a # as) =
     rbind (add_data d a) (\<lambda>(i, d). rbind (add_datas d as) (\<lambda>(is, d). Inr (i # is, d)))"

lemma add_datas_rep:
  "db_rep d tags \<Longrightarrow> length tags + length as \<le> 2 ^ 30 \<Longrightarrow> \<forall>a \<in> set as. add_ok a \<Longrightarrow>
   \<exists>d'. add_datas d as = Inr (map int [length tags..<length tags + length as], d') \<and>
     db_rep d' (tags @ map tag_of as)"
proof (induction as arbitrary: d tags)
  case (Cons a as)
  obtain d1 where d1: "add_data d a = Inr (int (length tags), d1)" "db_rep d1 (tags @ [tag_of a])"
    using add_data_rep [OF Cons.prems(1), of a] Cons.prems by auto
  obtain d2 where d2: "add_datas d1 as =
      Inr (map int [length (tags @ [tag_of a])..<length (tags @ [tag_of a]) + length as], d2)"
    "db_rep d2 ((tags @ [tag_of a]) @ map tag_of as)"
    using Cons.IH [OF d1(2)] Cons.prems by (metis (no_types, lifting) add_Suc_right add_Suc_shift
        length_append_singleton list.set_intros(2) list.size(4) plus_1_eq_Suc One_nat_def add.commute)
  then show ?case using d1(1) by (simp add: upt_conv_Cons del: upt_Suc)
qed simp

text \<open>
  C29: the indices that the add functions hand out count up from 0; what is stored under each of them
  is not the value that was added but the tag of its type: reading entry \<open>i\<close> as an integer
  gives 0 for an integer, 1 for an unsigned, 2 for a float and 3 for a string, whatever their values.
\<close>

theorem data_buffer_stores_tags:
  assumes "\<forall>a \<in> set as. add_ok a" "length as \<le> 2 ^ 30" "i < length as"
  shows "rbind (add_datas (create_data_buffer Null) as) (\<lambda>(is, d).
           rbind (get_unsigned_data d (is ! i)) (\<lambda>w. Inr (is ! i, w))) = Inr (int i, tag_of (as ! i))"
proof -
  obtain d where d: "add_datas (create_data_buffer Null) as = Inr (map int [0..<length as], d)"
    "db_rep d (map tag_of as)"
    using add_datas_rep [OF create_data_buffer_rep, of as] assms(1,2) by auto
  then have "get_data_item d (int i) = Inr (Some (create_uval_item (Some (tag_of (as ! i)))))"
    using get_data_item_rep [OF d(2), of "int i"] assms(3) by simp
  then show ?thesis using d(1) assms(3)
    by (simp add: get_unsigned_data_def deref_item_def create_uval_item_def del: create_data_buffer.simps)
qed

theorem data_buffer_stores_tags_witness:
  "rbind (add_datas (create_data_buffer Null) [Add_Int 42, Add_String ''abc'', Add_Unsigned 7])
     (\<lambda>(is, d). rbind (get_unsigned_data d (is ! 1)) (\<lambda>w. Inr (is ! 1, w))) = Inr (1, 3)"
  by (subst data_buffer_stores_tags) simp_all

text \<open>
  a second destroy_data_buffer, and every use after the first one, works on freed memory: the
  global is not reset, and create_data_buffer, which tests only for NULL, does not replace it.
\<close>

theorem destroyed_data_buffer_stays:
  assumes "db_rep d tags"
  shows "rbind (destroy_data_buffer d) (\<lambda>d. add_int_data (create_data_buffer d) v) =
    Inl Use_After_Free"
proof -
  obtain l where l: "d = Live l" "pl_rep l (map (\<lambda>t. Some (create_uval_item (Some t))) tags)"
    using assms unfolding db_rep_def by blast
  let ?body = "\<lambda>item s. rbind (destroy_data_item (Live item)) (\<lambda>_. Inr (False, s))"
  have "loop_list ?body (map (\<lambda>t. Some (create_uval_item (Some t))) ts) m () =
      Inr ((), None, m + int (length ts))" for ts m
    by (induction ts arbitrary: m) (auto simp: create_uval_item_def)
  then have "iter_while ?body (Some l) (int 0) () = Inr ((), None, int (length tags))"
    unfolding iter_while_rep [OF l(2) le0] by simp
  then have "destroy_data_buffer d = Inr Freed"
    using l(1) by (simp only: destroy_data_buffer.simps of_nat_0 rbind_Inr) simp
  then show ?thesis by (simp add: add_int_data_def append_data_buffer_def)
qed

theorem destroyed_data_buffer_stays_witness:
  "rbind (destroy_data_buffer (create_data_buffer Null))
     (\<lambda>d. add_int_data (create_data_buffer d) 5) = Inl Use_After_Free"
  by (rule destroyed_data_buffer_stays [OF create_data_buffer_rep])

end
