(* ===== verification/Vm_Lists.thy ===== *)
theory Vm_Lists
  imports Vm_Prelude
begin

text \<open>
  src/src/vm_common/vm_lists.h: the numbers of the registers, the flags of an operand byte and the
  operation codes that the assembler and the machine agree on.  An enum is a datatype with the
  function that gives the values of its constants.
\<close>

section \<open>Registers\<close>

datatype vm_register =
    REG_R01 | REG_R02 | REG_R03 | REG_R04 | REG_R05 | REG_R06 | REG_R07 | REG_R08 | REG_R09 |
    REG_R10 | REG_R11 | REG_R12 | REG_R13 | REG_R14 | REG_R15 | REG_R16 | REG_R17 | REG_R18 |
    REG_R19 | REG_R20 | REG_R21 | REG_R22 | REG_R23 | REG_R24 | REG_R25 | REG_R26 | REG_R27 |
    REG_R28 | REG_R29 | REG_R30 | REG_R31 | REG_R32 | REG_SP

fun reg_code :: "vm_register \<Rightarrow> 8 word" where
  "reg_code REG_R01 = 0x00"
| "reg_code REG_R02 = 0x01"
| "reg_code REG_R03 = 0x02"
| "reg_code REG_R04 = 0x03"
| "reg_code REG_R05 = 0x04"
| "reg_code REG_R06 = 0x05"
| "reg_code REG_R07 = 0x06"
| "reg_code REG_R08 = 0x07"
| "reg_code REG_R09 = 0x08"
| "reg_code REG_R10 = 0x09"
| "reg_code REG_R11 = 0x0A"
| "reg_code REG_R12 = 0x0B"
| "reg_code REG_R13 = 0x0C"
| "reg_code REG_R14 = 0x0D"
| "reg_code REG_R15 = 0x0E"
| "reg_code REG_R16 = 0x0F"
| "reg_code REG_R17 = 0x10"
| "reg_code REG_R18 = 0x11"
| "reg_code REG_R19 = 0x12"
| "reg_code REG_R20 = 0x13"
| "reg_code REG_R21 = 0x14"
| "reg_code REG_R22 = 0x15"
| "reg_code REG_R23 = 0x16"
| "reg_code REG_R24 = 0x17"
| "reg_code REG_R25 = 0x18"
| "reg_code REG_R26 = 0x19"
| "reg_code REG_R27 = 0x1A"
| "reg_code REG_R28 = 0x1B"
| "reg_code REG_R29 = 0x1C"
| "reg_code REG_R30 = 0x1D"
| "reg_code REG_R31 = 0x1E"
| "reg_code REG_R32 = 0x1F"
| "reg_code REG_SP = 0x20"

datatype reg_flag = NO_INDEX | HAS_INDEX | ZERO_INDEX | IMMEDIATE

fun flag_code :: "reg_flag \<Rightarrow> 8 word" where
  "flag_code NO_INDEX = 0x00"
| "flag_code HAS_INDEX = 0x80"
| "flag_code ZERO_INDEX = 0x40"
| "flag_code IMMEDIATE = 0x20"

section \<open>Instructions\<close>

datatype vm_instruction =
    INSTR_NOP | INSTR_EXIT | INSTR_ABORT | INSTR_MOV | INSTR_PUSH | INSTR_POP | INSTR_CPY |
    INSTR_LT | INSTR_GT | INSTR_LTE | INSTR_GTE | INSTR_EQ | INSTR_NEQ | INSTR_SETF |
    INSTR_CLRF | INSTR_CALL | INSTR_JMP | INSTR_RET | INSTR_CALLT | INSTR_JMPT | INSTR_RETT |
    INSTR_CALLF | INSTR_JMPF | INSTR_RETF | INSTR_ADD | INSTR_SUB | INSTR_MUL | INSTR_DIV |
    INSTR_MOD | INSTR_ADDI | INSTR_SUBI | INSTR_MULI | INSTR_DIVI | INSTR_MODI | INSTR_ADDU |
    INSTR_SUBU | INSTR_MULU | INSTR_DIVU | INSTR_MODU | INSTR_ADDF | INSTR_SUBF | INSTR_MULF |
    INSTR_DIVF | INSTR_MODF

fun instr_code :: "vm_instruction \<Rightarrow> 8 word" where
  "instr_code INSTR_NOP = 0xFF"
| "instr_code INSTR_EXIT = 0xFE"
| "instr_code INSTR_ABORT = 0xFD"
| "instr_code INSTR_MOV = 0xFC"
| "instr_code INSTR_PUSH = 0xFB"
| "instr_code INSTR_POP = 0xFA"
| "instr_code INSTR_CPY = 0xF9"
| "instr_code INSTR_LT = 0xF8"
| "instr_code INSTR_GT = 0xF7"
| "instr_code INSTR_LTE = 0xF6"
| "instr_code INSTR_GTE = 0xF5"
| "instr_code INSTR_EQ = 0xF4"
| "instr_code INSTR_NEQ = 0xF3"
| "instr_code INSTR_SETF = 0xF2"
| "instr_code INSTR_CLRF = 0xF1"
| "instr_code INSTR_CALL = 0xF0"
| "instr_code INSTR_JMP = 0xEF"
| "instr_code INSTR_RET = 0xEE"
| "instr_code INSTR_CALLT = 0xED"
| "instr_code INSTR_JMPT = 0xEC"
| "instr_code INSTR_RETT = 0xEB"
| "instr_code INSTR_CALLF = 0xEA"
| "instr_code INSTR_JMPF = 0xE9"
| "instr_code INSTR_RETF = 0xE8"
| "instr_code INSTR_ADD = 0xE7"
| "instr_code INSTR_SUB = 0xE6"
| "instr_code INSTR_MUL = 0xE5"
| "instr_code INSTR_DIV = 0xE4"
| "instr_code INSTR_MOD = 0xE3"
| "instr_code INSTR_ADDI = 0xE2"
| "instr_code INSTR_SUBI = 0xE1"
| "instr_code INSTR_MULI = 0xE0"
| "instr_code INSTR_DIVI = 0xDF"
| "instr_code INSTR_MODI = 0xDE"
| "instr_code INSTR_ADDU = 0xDD"
| "instr_code INSTR_SUBU = 0xDC"
| "instr_code INSTR_MULU = 0xDB"
| "instr_code INSTR_DIVU = 0xDA"
| "instr_code INSTR_MODU = 0xD9"
| "instr_code INSTR_ADDF = 0xD8"
| "instr_code INSTR_SUBF = 0xD7"
| "instr_code INSTR_MULF = 0xD6"
| "instr_code INSTR_DIVF = 0xD5"
| "instr_code INSTR_MODF = 0xD4"

definition all_regs :: "vm_register list" where
  "all_regs =
    [REG_R01, REG_R02, REG_R03, REG_R04, REG_R05, REG_R06, REG_R07, REG_R08, REG_R09, REG_R10,
     REG_R11, REG_R12, REG_R13, REG_R14, REG_R15, REG_R16, REG_R17, REG_R18, REG_R19, REG_R20,
     REG_R21, REG_R22, REG_R23, REG_R24, REG_R25, REG_R26, REG_R27, REG_R28, REG_R29, REG_R30,
     REG_R31, REG_R32, REG_SP]"

definition all_instrs :: "vm_instruction list" where
  "all_instrs =
    [INSTR_NOP, INSTR_EXIT, INSTR_ABORT, INSTR_MOV, INSTR_PUSH, INSTR_POP, INSTR_CPY,
     INSTR_LT, INSTR_GT, INSTR_LTE, INSTR_GTE, INSTR_EQ, INSTR_NEQ, INSTR_SETF, INSTR_CLRF,
     INSTR_CALL, INSTR_JMP, INSTR_RET, INSTR_CALLT, INSTR_JMPT, INSTR_RETT, INSTR_CALLF,
     INSTR_JMPF, INSTR_RETF, INSTR_ADD, INSTR_SUB, INSTR_MUL, INSTR_DIV, INSTR_MOD,
     INSTR_ADDI, INSTR_SUBI, INSTR_MULI, INSTR_DIVI, INSTR_MODI, INSTR_ADDU, INSTR_SUBU,
     INSTR_MULU, INSTR_DIVU, INSTR_MODU, INSTR_ADDF, INSTR_SUBF, INSTR_MULF, INSTR_DIVF,
     INSTR_MODF]"

definition decode_reg :: "8 word \<Rightarrow> vm_register option" where
  "decode_reg b = find (\<lambda>r. reg_code r = b) all_regs"

definition decode_instr :: "8 word \<Rightarrow> vm_instruction option" where
  "decode_instr b = find (\<lambda>i. instr_code i = b) all_instrs"

section \<open>Properties\<close>

text \<open>
  the operation codes are pairwise different and so are the register numbers, and no byte is both:
  a byte of the code section that decodes to an instruction never decodes to a register.
\<close>

theorem opcodes_unambiguous:
  "decode_instr (instr_code i) = Some i \<and> decode_reg (reg_code r) = Some r \<and>
   decode_reg (instr_code i) = None \<and> decode_instr (reg_code r) = None"
proof -
  have "decode_instr (instr_code i) = Some i \<and> decode_reg (instr_code i) = None"
    by (cases i) (simp_all add: decode_instr_def all_instrs_def decode_reg_def all_regs_def)
  moreover have "decode_reg (reg_code r) = Some r \<and> decode_instr (reg_code r) = None"
    by (cases r) (simp_all add: decode_instr_def all_instrs_def decode_reg_def all_regs_def)
  ultimately show ?thesis by blast
qed

end
