(* ===== verification/Heap.thy ===== *)
theory Heap
  imports Vm_Prelude
begin

text \<open>
  A heap of linked nodes, for the two components whose nodes point at each other: the list of the
  nodes allocated so far, with \<open>None\<close> for one that was freed.  A pointer is \<open>None\<close> for NULL or the
  position of a node.
\<close>

type_synonym 'n heap = "'n option list"

definition hp_new :: "'n heap \<Rightarrow> 'n \<Rightarrow> nat \<times> 'n heap" where
  "hp_new h n = (length h, h @ [Some n])"

definition hp_get :: "'n heap \<Rightarrow> nat option \<Rightarrow> 'n res" where
  "hp_get h p =
     (case p of
        None \<Rightarrow> Inl Null_Deref
      | Some a \<Rightarrow>
          if a < length h
          then (case h ! a of None \<Rightarrow> Inl Use_After_Free | Some n \<Rightarrow> Inr n)
          else Inl Wild_Pointer)"

definition hp_upd :: "'n heap \<Rightarrow> nat option \<Rightarrow> ('n \<Rightarrow> 'n) \<Rightarrow> 'n heap res" where
  "hp_upd h p f = rbind (hp_get h p) (\<lambda>n. Inr (h[the p := Some (f n)]))"

definition hp_free :: "'n heap \<Rightarrow> nat option \<Rightarrow> 'n heap res" where
  "hp_free h p =
     (case p of None \<Rightarrow> Inr h | Some a \<Rightarrow> rbind (hp_get h p) (\<lambda>_. Inr (h[a := None])))"

lemma hp_get_None [simp]: "hp_get h None = Inl Null_Deref"
  by (simp add: hp_get_def)

lemma hp_get_eq_Inr: "hp_get h p = Inr n \<longleftrightarrow> (\<exists>a. p = Some a \<and> a < length h \<and> h ! a = Some n)"
  by (auto simp: hp_get_def split: option.splits)

lemma hp_get_live [simp]: "a < length h \<Longrightarrow> h ! a = Some n \<Longrightarrow> hp_get h (Some a) = Inr n"
  by (simp add: hp_get_def)

lemma hp_get_freed [simp]: "a < length h \<Longrightarrow> h ! a = None \<Longrightarrow> hp_get h (Some a) = Inl Use_After_Free"
  by (simp add: hp_get_def)

lemma hp_upd_live [simp]:
  "a < length h \<Longrightarrow> h ! a = Some n \<Longrightarrow> hp_upd h (Some a) f = Inr (h[a := Some (f n)])"
  by (simp add: hp_upd_def)

lemma hp_free_live [simp]:
  "a < length h \<Longrightarrow> h ! a = Some n \<Longrightarrow> hp_free h (Some a) = Inr (h[a := None])"
  by (simp add: hp_free_def)

definition live_count :: "'n heap \<Rightarrow> nat" where
  "live_count h = length (filter (\<lambda>x. x \<noteq> None) h)"

lemma live_count_free:
  "a < length h \<Longrightarrow> h ! a = Some n \<Longrightarrow> live_count (h[a := None]) < live_count h"
proof (induction h arbitrary: a)
  case (Cons x h)
  then show ?case by (cases a) (auto simp: live_count_def)
qed simp

end
