(* ===== verification/Dl_List.thy ===== *)
theory Dl_List
  imports Heap
begin

text \<open>
  src/src/common/dl_list.c: a doubly linked list with a current node.

  The nodes live in a heap of the theory Heap, which the record of the list carries along.  The
  data of a node is the copy made when the node is created; a pointer to it is the value.
  \<open>dl_rep s ns\<close> says that the links are right and that the list consists of the nodes \<open>ns\<close>,
  each given by its address and its data.
\<close>

section \<open>The operations\<close>

record 'a dl_node =
  dn_data :: 'a
  dn_size :: nat
  dn_next :: "nat option"
  dn_prev :: "nat option"

record 'a dl_list =
  dl_heap :: "'a dl_node heap"
  dl_first :: "nat option"
  dl_last :: "nat option"
  dl_crnt :: "nat option"

definition create_dl_list :: "'a dl_list" where
  "create_dl_list = \<lparr>dl_heap = [], dl_first = None, dl_last = None, dl_crnt = None\<rparr>"

definition create_dl_list_node :: "'a \<Rightarrow> nat \<Rightarrow> 'a dl_list \<Rightarrow> nat \<times> 'a dl_list" where
  "create_dl_list_node data sz lst =
     (let (p, h) = hp_new (dl_heap lst)
                     \<lparr>dn_data = data, dn_size = sz, dn_next = None, dn_prev = None\<rparr>
      in (p, lst\<lparr>dl_heap := h\<rparr>))"

definition destroy_dl_list_node :: "'a dl_list \<Rightarrow> nat option \<Rightarrow> 'a dl_list res" where
  "destroy_dl_list_node lst node =
     rbind (hp_get (dl_heap lst) node) (\<lambda>_.
     rbind (hp_free (dl_heap lst) node) (\<lambda>h. Inr (lst\<lparr>dl_heap := h\<rparr>)))"

function destroy_loop :: "'a dl_node heap \<Rightarrow> nat option \<Rightarrow> 'a dl_node heap res" where
  "destroy_loop h ptr =
     (case ptr of
        None \<Rightarrow> Inr h
      | Some a \<Rightarrow>
          rbind (hp_get h ptr) (\<lambda>n.
          rbind (hp_free h ptr) (\<lambda>h. destroy_loop h (dn_next n))))"
  by pat_completeness auto
termination
  by (relation "measure (\<lambda>(h, _). live_count h)")
    (auto simp: hp_free_def hp_get_eq_Inr rbind_eq_Inr intro: live_count_free)

declare destroy_loop.simps [simp del]

definition destroy_dl_list :: "'a dl_list \<Rightarrow> 'a dl_node heap res" where
  "destroy_dl_list lst = destroy_loop (dl_heap lst) (dl_first lst)"

definition data_at :: "'a dl_list \<Rightarrow> nat option \<Rightarrow> 'a res" where
  "data_at lst p = rbind (hp_get (dl_heap lst) p) (\<lambda>n. Inr (dn_data n))"

definition append_dl_list :: "'a dl_list \<Rightarrow> nat \<Rightarrow> 'a dl_list res" where
  "append_dl_list lst node =
     rbind (hp_upd (dl_heap lst) (Some node) (\<lambda>n. n\<lparr>dn_prev := dl_last lst\<rparr>)) (\<lambda>h.
     case dl_last lst of
       Some l \<Rightarrow>
         rbind (hp_upd h (Some l) (\<lambda>n. n\<lparr>dn_next := Some node\<rparr>)) (\<lambda>h.
         Inr (lst\<lparr>dl_heap := h, dl_last := Some node\<rparr>))
     | None \<Rightarrow>
         Inr (lst\<lparr>dl_heap := h, dl_crnt := Some node, dl_first := Some node,
                  dl_last := Some node\<rparr>))"

definition prepend_dl_list :: "'a dl_list \<Rightarrow> nat \<Rightarrow> 'a dl_list res" where
  "prepend_dl_list lst node =
     rbind (hp_upd (dl_heap lst) (Some node) (\<lambda>n. n\<lparr>dn_next := dl_first lst\<rparr>)) (\<lambda>h.
     case dl_first lst of
       Some f \<Rightarrow>
         rbind (hp_upd h (Some f) (\<lambda>n. n\<lparr>dn_prev := Some node\<rparr>)) (\<lambda>h.
         Inr (lst\<lparr>dl_heap := h, dl_first := Some node\<rparr>))
     | None \<Rightarrow>
         Inr (lst\<lparr>dl_heap := h, dl_crnt := Some node, dl_last := Some node,
                  dl_first := Some node\<rparr>))"

definition delete_crnt_dl_list_node :: "'a dl_list \<Rightarrow> ('a option \<times> 'a dl_list) res" where
  "delete_crnt_dl_list_node lst =
     (if dl_first lst = None then Inr (None, lst)
      else rbind
        (case dl_crnt lst of
           None \<Rightarrow> Inr lst
         | Some crnt \<Rightarrow>
             rbind (hp_get (dl_heap lst) (Some crnt)) (\<lambda>c.
             let next = dn_next c; prev = dn_prev c;
                 lst = lst\<lparr>dl_crnt := (if next \<noteq> None then next else prev)\<rparr>
             in rbind
                  (if next = None
                   then rbind (hp_upd (dl_heap lst) prev (\<lambda>n. n\<lparr>dn_next := None\<rparr>)) (\<lambda>h.
                        Inr (lst\<lparr>dl_last := prev, dl_heap := h\<rparr>))
                   else if prev = None
                   then rbind (hp_upd (dl_heap lst) next (\<lambda>n. n\<lparr>dn_prev := None\<rparr>)) (\<lambda>h.
                        Inr (lst\<lparr>dl_first := next, dl_heap := h\<rparr>))
                   else rbind (hp_upd (dl_heap lst) next (\<lambda>n. n\<lparr>dn_prev := prev\<rparr>)) (\<lambda>h.
                        rbind (hp_upd h prev (\<lambda>n. n\<lparr>dn_next := next\<rparr>)) (\<lambda>h.
                        Inr (lst\<lparr>dl_heap := h\<rparr>))))
                  (\<lambda>lst. destroy_dl_list_node lst (Some crnt))))
        (\<lambda>lst. case dl_crnt lst of
                 None \<Rightarrow> Inr (None, lst)
               | Some c \<Rightarrow> rbind (data_at lst (Some c)) (\<lambda>d. Inr (Some d, lst))))"

definition insert_dl_list_node :: "'a dl_list \<Rightarrow> nat \<Rightarrow> ('a option \<times> 'a dl_list) res" where
  "insert_dl_list_node lst node =
     (case dl_crnt lst of
        None \<Rightarrow> Inr (None, lst)
      | Some crnt \<Rightarrow>
          rbind (hp_get (dl_heap lst) (Some crnt)) (\<lambda>c.
          let next = dn_next c; prev = dn_prev c in
          rbind
            (if prev = None then prepend_dl_list lst node
             else if next = None then append_dl_list lst node
             else rbind (hp_upd (dl_heap lst) (Some node)
                          (\<lambda>n. n\<lparr>dn_prev := Some crnt, dn_next := next\<rparr>)) (\<lambda>h.
                  rbind (hp_upd h (Some crnt) (\<lambda>n. n\<lparr>dn_next := Some node\<rparr>)) (\<lambda>h.
                  rbind (hp_upd h next (\<lambda>n. n\<lparr>dn_prev := Some node\<rparr>)) (\<lambda>h.
                  Inr (lst\<lparr>dl_heap := h\<rparr>)))))
            (\<lambda>lst. rbind (data_at lst (Some node)) (\<lambda>d. Inr (Some d, lst)))))"

text \<open>The mark of iterate_dl_list is NULL at the start, then a node, and -1 at the end.\<close>

datatype mark = Mark_Null | Mark_At nat | Mark_End

definition iterate_dl_list :: "'a dl_list \<Rightarrow> mark \<Rightarrow> ('a option \<times> mark) res" where
  "iterate_dl_list lst mark =
     (case mark of
        Mark_End \<Rightarrow> Inr (None, Mark_End)
      | Mark_Null \<Rightarrow>
          (case dl_first lst of
             None \<Rightarrow> Inl Null_Deref
           | Some f \<Rightarrow> rbind (data_at lst (Some f)) (\<lambda>d. Inr (Some d, Mark_At f)))
      | Mark_At a \<Rightarrow>
          rbind (hp_get (dl_heap lst) (Some a)) (\<lambda>n.
          case dn_next n of
            Some b \<Rightarrow> rbind (data_at lst (Some b)) (\<lambda>d. Inr (Some d, Mark_At b))
          | None \<Rightarrow> Inr (None, Mark_End)))"

definition reset_dl_list :: "'a dl_list \<Rightarrow> bool \<Rightarrow> ('a \<times> 'a dl_list) res" where
  "reset_dl_list lst flag =
     (let lst = lst\<lparr>dl_crnt := (if flag then dl_last lst else dl_first lst)\<rparr> in
      rbind (data_at lst (dl_crnt lst)) (\<lambda>d. Inr (d, lst)))"

definition crnt_dl_list_node :: "'a dl_list \<Rightarrow> 'a res" where
  "crnt_dl_list_node lst = data_at lst (dl_crnt lst)"

definition prev_dl_list_node :: "'a dl_list \<Rightarrow> ('a \<times> 'a dl_list) res" where
  "prev_dl_list_node lst =
     rbind (case dl_crnt lst of
              None \<Rightarrow> Inr lst
            | Some c \<Rightarrow> rbind (hp_get (dl_heap lst) (Some c)) (\<lambda>n. Inr (lst\<lparr>dl_crnt := dn_prev n\<rparr>))) (\<lambda>lst.
     rbind (data_at lst (dl_crnt lst)) (\<lambda>d. Inr (d, lst)))"

definition next_dl_list_node :: "'a dl_list \<Rightarrow> ('a \<times> 'a dl_list) res" where
  "next_dl_list_node lst =
     rbind (case dl_crnt lst of
              None \<Rightarrow> Inr lst
            | Some c \<Rightarrow> rbind (hp_get (dl_heap lst) (Some c)) (\<lambda>n. Inr (lst\<lparr>dl_crnt := dn_next n\<rparr>))) (\<lambda>lst.
     rbind (data_at lst (dl_crnt lst)) (\<lambda>d. Inr (d, lst)))"

section \<open>Doubly linked segments\<close>

type_synonym 'a nodes = "(nat \<times> 'a) list"

definition hdp :: "'a nodes \<Rightarrow> nat option \<Rightarrow> nat option" where
  "hdp ns q = (case ns of [] \<Rightarrow> q | n # _ \<Rightarrow> Some (fst n))"

definition lstp :: "nat option \<Rightarrow> 'a nodes \<Rightarrow> nat option" where
  "lstp p ns = (if ns = [] then p else Some (fst (last ns)))"

fun dlseg :: "'a dl_node heap \<Rightarrow> nat option \<Rightarrow> 'a nodes \<Rightarrow> nat option \<Rightarrow> bool" where
  "dlseg h p [] q \<longleftrightarrow> True"
| "dlseg h p ((x, d) # ns) q \<longleftrightarrow>
     x < length h \<and>
     (\<exists>sz. h ! x = Some \<lparr>dn_data = d, dn_size = sz, dn_next = hdp ns q, dn_prev = p\<rparr>) \<and>
     dlseg h (Some x) ns q"

lemma hdp_simps [simp]: "hdp [] q = q" "hdp ((x, d) # ns) q = Some x"
  "hdp (ms @ ns) q = hdp ms (hdp ns q)"
  by (simp_all add: hdp_def split: list.split)

lemma lstp_simps [simp]: "lstp p [] = p" "lstp p (ms @ ns) = lstp (lstp p ms) ns"
  "lstp p ((x, d) # ns) = lstp (Some x) ns"
  by (simp_all add: lstp_def)

lemma hdp_Some [simp]: "\<exists>y. hdp ns (Some x) = Some y"
  by (simp add: hdp_def split: list.split)

lemma dlseg_append:
  "dlseg h p (ms @ ns) q \<longleftrightarrow> dlseg h p ms (hdp ns q) \<and> dlseg h (lstp p ms) ns q"
  by (induction ms arbitrary: p) auto

lemma dlseg_frame [simp]:
  "x \<notin> fst ` set ns \<Longrightarrow> dlseg (h[x := v]) p ns q = dlseg h p ns q"
  by (induction ns arbitrary: p) auto

lemma dlseg_extend: "dlseg h p ns q \<Longrightarrow> dlseg (h @ h') p ns q"
  by (induction ns arbitrary: p) (auto simp: nth_append)

lemma dlseg_bound: "dlseg h p ns q \<Longrightarrow> x \<in> fst ` set ns \<Longrightarrow> x < length h"
proof (induction ns arbitrary: p)
  case (Cons n ns)
  then show ?case by (cases n) auto
qed simp

definition dl_rep :: "'a dl_list \<Rightarrow> 'a nodes \<Rightarrow> bool" where
  "dl_rep s ns \<longleftrightarrow>
     distinct (map fst ns) \<and> dlseg (dl_heap s) None ns None \<and>
     dl_first s = hdp ns None \<and> dl_last s = lstp None ns \<and>
     (\<forall>c. dl_crnt s = Some c \<longrightarrow> c \<in> fst ` set ns)"

text \<open>A node that was created and is not in the list yet.\<close>

definition loose :: "'a dl_list \<Rightarrow> 'a nodes \<Rightarrow> nat \<Rightarrow> 'a \<Rightarrow> bool" where
  "loose s ns y e \<longleftrightarrow>
     y \<notin> fst ` set ns \<and> y < length (dl_heap s) \<and>
     (\<exists>sz. dl_heap s ! y = Some \<lparr>dn_data = e, dn_size = sz, dn_next = None, dn_prev = None\<rparr>)"

lemma create_dl_list_rep: "dl_rep create_dl_list []"
  by (simp add: dl_rep_def create_dl_list_def)

lemma create_node_rep:
  assumes "dl_rep s ns"
  shows "\<exists>y s'. create_dl_list_node e sz s = (y, s') \<and> dl_rep s' ns \<and> loose s' ns y e \<and>
    dl_crnt s' = dl_crnt s"
  using assms dlseg_bound [of "dl_heap s" None ns None]
  by (auto simp: create_dl_list_node_def hp_new_def dl_rep_def loose_def dlseg_extend)

lemma append_dl_list_rep:
  assumes s: "dl_rep s ns" and y: "loose s ns y e"
  shows "\<exists>s'. append_dl_list s y = Inr s' \<and> dl_rep s' (ns @ [(y, e)]) \<and>
    dl_crnt s' = (if ns = [] then Some y else dl_crnt s)"
proof (cases ns rule: rev_cases)
  case Nil
  then show ?thesis using s y
    by (auto simp: append_dl_list_def dl_rep_def loose_def)
next
  case (snoc ms xd)
  obtain x d where x: "xd = (x, d)" by (cases xd)
  have seg: "dlseg (dl_heap s) None ms (Some x)" "dlseg (dl_heap s) (lstp None ms) [(x, d)] None"
    and "x \<noteq> y" "x \<notin> fst ` set ms" "y \<notin> fst ` set ms"
    using s y unfolding dl_rep_def loose_def snoc x by (auto simp: dlseg_append)
  then show ?thesis using s y
    by (auto simp: append_dl_list_def dl_rep_def loose_def snoc x dlseg_append nth_list_update)
qed

lemma prepend_dl_list_rep:
  assumes s: "dl_rep s ns" and y: "loose s ns y e"
  shows "\<exists>s'. prepend_dl_list s y = Inr s' \<and> dl_rep s' ((y, e) # ns) \<and>
    dl_crnt s' = (if ns = [] then Some y else dl_crnt s)"
proof (cases ns)
  case Nil
  then show ?thesis using s y
    by (auto simp: prepend_dl_list_def dl_rep_def loose_def)
next
  case (Cons xd ms)
  obtain x d where x: "xd = (x, d)" by (cases xd)
  then show ?thesis using s y
    by (auto simp: prepend_dl_list_def dl_rep_def loose_def Cons nth_list_update)
qed

lemma dl_rep_node:
  assumes "dl_rep s (ms @ (x, d) # ns)"
  obtains sz where "x < length (dl_heap s)" "dl_heap s ! x =
    Some \<lparr>dn_data = d, dn_size = sz, dn_next = hdp ns None, dn_prev = lstp None ms\<rparr>"
  using assms by (auto simp: dl_rep_def dlseg_append)

lemma data_at_rep: "dl_rep s (ms @ (x, d) # ns) \<Longrightarrow> data_at s (Some x) = Inr d"
  by (erule dl_rep_node) (simp add: data_at_def)

lemma delete_last_rep:
  assumes "dl_rep s (ms @ [(w, v), (x, d)])" "dl_crnt s = Some x"
  shows "\<exists>s'. delete_crnt_dl_list_node s = Inr (Some v, s') \<and> dl_rep s' (ms @ [(w, v)]) \<and>
    dl_crnt s' = Some w"
  using assms
  by (auto simp: delete_crnt_dl_list_node_def dl_rep_def dlseg_append destroy_dl_list_node_def
      data_at_def Let_def nth_list_update)

lemma delete_first_rep:
  assumes "dl_rep s ((x, d) # (z, u) # ns)" "dl_crnt s = Some x"
  shows "\<exists>s'. delete_crnt_dl_list_node s = Inr (Some u, s') \<and> dl_rep s' ((z, u) # ns) \<and>
    dl_crnt s' = Some z"
  using assms
  by (auto simp: delete_crnt_dl_list_node_def dl_rep_def destroy_dl_list_node_def
      data_at_def Let_def nth_list_update)

lemma delete_inner_rep:
  assumes "dl_rep s (ms @ (w, v) # (x, d) # (z, u) # ns)" "dl_crnt s = Some x"
  shows "\<exists>s'. delete_crnt_dl_list_node s = Inr (Some u, s') \<and>
    dl_rep s' (ms @ (w, v) # (z, u) # ns) \<and> dl_crnt s' = Some z"
  using assms
  by (auto simp: delete_crnt_dl_list_node_def dl_rep_def dlseg_append destroy_dl_list_node_def
      data_at_def Let_def nth_list_update)

lemma insert_inner_rep:
  assumes s: "dl_rep s (ms @ (w, v) # (x, d) # (z, u) # ns)" and c: "dl_crnt s = Some x"
    and y: "loose s (ms @ (w, v) # (x, d) # (z, u) # ns) y e"
  shows "\<exists>s'. insert_dl_list_node s y = Inr (Some e, s') \<and>
    dl_rep s' (ms @ (w, v) # (x, d) # (y, e) # (z, u) # ns) \<and> dl_crnt s' = Some x"
  using assms
  by (auto simp: insert_dl_list_node_def dl_rep_def loose_def dlseg_append
      data_at_def Let_def nth_list_update image_Un)

section \<open>Loops over the list\<close>

text \<open>
  The loop \<open>while(NULL != (item = iterate_dl_list(lst, &mark)))\<close>, collecting the items; the fuel
  bounds its rounds.
\<close>

fun collect :: "nat \<Rightarrow> 'a dl_list \<Rightarrow> mark \<Rightarrow> 'a list res" where
  "collect 0 lst mark = Inl No_Return"
| "collect (Suc n) lst mark =
     rbind (iterate_dl_list lst mark) (\<lambda>(item, mark).
     case item of None \<Rightarrow> Inr []
     | Some d \<Rightarrow> rbind (collect n lst mark) (\<lambda>ds. Inr (d # ds)))"

lemma collect_from:
  "dl_rep s (ms @ (x, d) # ns) \<Longrightarrow> length ns < n \<Longrightarrow>
   collect n s (Mark_At x) = Inr (map snd ns)"
proof (induction ns arbitrary: ms x d n)
  case Nil
  then show ?case
    by (cases n) (auto simp: iterate_dl_list_def dl_rep_def dlseg_append)
next
  case (Cons zu ns)
  obtain z u where z: "zu = (z, u)" by (cases zu)
  obtain m where n: "n = Suc m" using Cons.prems(2) by (cases n) auto
  have r: "dl_rep s ((ms @ [(x, d)]) @ (z, u) # ns)" using Cons.prems(1) z by simp
  have "collect m s (Mark_At z) = Inr (map snd ns)" using Cons.IH [OF r] Cons.prems(2) n by simp
  moreover have "iterate_dl_list s (Mark_At x) = Inr (Some u, Mark_At z)"
    using dl_rep_node [OF Cons.prems(1)] data_at_rep [OF r] z
    by (fastforce simp: iterate_dl_list_def)
  ultimately show ?case by (simp add: n z)
qed

lemma collect_all:
  assumes "dl_rep s ns" "length ns < n"
  shows "collect n s Mark_Null = (if ns = [] then Inl Null_Deref else Inr (map snd ns))"
proof (cases ns)
  case Nil
  then show ?thesis using assms by (cases n) (auto simp: iterate_dl_list_def dl_rep_def)
next
  case (Cons xd ms)
  obtain x d where x: "xd = (x, d)" by (cases xd)
  obtain m where n: "n = Suc m" using assms(2) by (cases n) auto
  have r: "dl_rep s ([] @ (x, d) # ms)" using assms(1) Cons x by simp
  have "dl_first s = Some x" using r by (simp add: dl_rep_def)
  then show ?thesis
    using collect_from [OF r, of m] data_at_rep [OF r] assms(2) Cons x n
    by (simp add: iterate_dl_list_def)
qed

text \<open>Creating a node and adding it, as every caller does.\<close>

definition add_last :: "'a dl_list \<Rightarrow> 'a \<Rightarrow> 'a dl_list res" where
  "add_last lst d = (let (p, lst) = create_dl_list_node d 1 lst in append_dl_list lst p)"

definition add_first :: "'a dl_list \<Rightarrow> 'a \<Rightarrow> 'a dl_list res" where
  "add_first lst d = (let (p, lst) = create_dl_list_node d 1 lst in prepend_dl_list lst p)"

fun add_each :: "('s \<Rightarrow> 'a \<Rightarrow> 's res) \<Rightarrow> 's \<Rightarrow> 'a list \<Rightarrow> 's res" where
  "add_each f s [] = Inr s"
| "add_each f s (d # ds) = rbind (f s d) (\<lambda>s. add_each f s ds)"

lemma add_last_rep:
  assumes "dl_rep s ns"
  shows "\<exists>s' y. add_last s d = Inr s' \<and> dl_rep s' (ns @ [(y, d)])"
proof -
  obtain y s1 where "create_dl_list_node d 1 s = (y, s1)" "dl_rep s1 ns" "loose s1 ns y d"
    using create_node_rep [OF assms, of d 1] by auto
  then show ?thesis using append_dl_list_rep [of s1 ns y d] by (auto simp: add_last_def)
qed

lemma add_first_rep:
  assumes "dl_rep s ns"
  shows "\<exists>s' y. add_first s d = Inr s' \<and> dl_rep s' ((y, d) # ns)"
proof -
  obtain y s1 where "create_dl_list_node d 1 s = (y, s1)" "dl_rep s1 ns" "loose s1 ns y d"
    using create_node_rep [OF assms, of d 1] by auto
  then show ?thesis using prepend_dl_list_rep [of s1 ns y d] by (auto simp: add_first_def)
qed

lemma add_each_last:
  "dl_rep s ns \<Longrightarrow> \<exists>s' ms. add_each add_last s ds = Inr s' \<and> dl_rep s' (ns @ ms) \<and> map snd ms = ds"
proof (induction ds arbitrary: s ns)
  case (Cons d ds)
  obtain s1 y where 1: "add_last s d = Inr s1" "dl_rep s1 (ns @ [(y, d)])"
    using add_last_rep [OF Cons.prems] by blast
  obtain s2 ms where "add_each add_last s1 ds = Inr s2" "dl_rep s2 ((ns @ [(y, d)]) @ ms)" "map snd ms = ds"
    using Cons.IH [OF 1(2)] by blast
  then show ?case using 1(1) by (intro exI [of _ s2] exI [of _ "(y, d) # ms"]) simp
qed (intro exI, auto)

lemma add_each_first:
  "dl_rep s ns \<Longrightarrow> \<exists>s' ms. add_each add_first s ds = Inr s' \<and> dl_rep s' (ms @ ns) \<and> map snd ms = rev ds"
proof (induction ds arbitrary: s ns)
  case (Cons d ds)
  obtain s1 y where 1: "add_first s d = Inr s1" "dl_rep s1 ((y, d) # ns)"
    using add_first_rep [OF Cons.prems] by blast
  obtain s2 ms where "add_each add_first s1 ds = Inr s2" "dl_rep s2 (ms @ (y, d) # ns)" "map snd ms = rev ds"
    using Cons.IH [OF 1(2)] by blast
  then show ?case using 1(1) by (intro exI [of _ s2] exI [of _ "ms @ [(y, d)]"]) simp
qed (intro exI, auto)

lemma destroy_loop_seg:
  "dlseg h p ns None \<Longrightarrow> distinct (map fst ns) \<Longrightarrow>
   \<exists>h'. destroy_loop h (hdp ns None) = Inr h' \<and> length h' = length h \<and>
     (\<forall>x < length h. h' ! x = (if x \<in> fst ` set ns then None else h ! x))"
proof (induction ns arbitrary: h p)
  case Nil
  then show ?case by (simp add: destroy_loop.simps)
next
  case (Cons xd ns)
  obtain x d where x: "xd = (x, d)" by (cases xd)
  obtain sz where n: "x < length h"
    "h ! x = Some \<lparr>dn_data = d, dn_size = sz, dn_next = hdp ns None, dn_prev = p\<rparr>"
    using Cons.prems(1) x by auto
  have "dlseg (h[x := None]) (Some x) ns None" using Cons.prems x by simp
  then obtain h' where "destroy_loop (h[x := None]) (hdp ns None) = Inr h'" "length h' = length h"
    "\<forall>y < length h. h' ! y = (if y \<in> fst ` set ns then None else h[x := None] ! y)"
    using Cons.IH [of "h[x := None]" "Some x"] Cons.prems(2) by auto
  then show ?case using n x by (auto simp: destroy_loop.simps [of h] nth_list_update)
qed

section \<open>Properties\<close>

text \<open>
  a list built by appending holds the data in the order of the calls, one built by prepending in the
  reverse order, and iterating gives exactly that sequence; iterating over an empty list dereferences
  the null pointer \<open>first\<close>.
\<close>

theorem dl_build_and_iterate:
  "rbind (add_each add_last create_dl_list ds) (\<lambda>s.
   rbind (add_each add_first s es) (\<lambda>s. collect (Suc (length ds + length es)) s Mark_Null)) =
   (if ds = [] \<and> es = [] then Inl Null_Deref else Inr (rev es @ ds))"
proof -
  obtain s ms where s: "add_each add_last create_dl_list ds = Inr s" "dl_rep s ms" "map snd ms = ds"
    using add_each_last [OF create_dl_list_rep, of ds] by auto
  obtain t ns where t: "add_each add_first s es = Inr t" "dl_rep t (ns @ ms)" "map snd ns = rev es"
    using add_each_first [OF s(2), of es] by auto
  have len: "length ms = length ds" "length ns = length es"
    using s(3) t(3) by (metis length_map length_rev)+
  then have "collect (Suc (length ds + length es)) t Mark_Null =
      (if ns @ ms = [] then Inl Null_Deref else Inr (map snd (ns @ ms)))"
    using collect_all [OF t(2), of "Suc (length ds + length es)"] by simp
  then show ?thesis using s t len by auto
qed

text \<open>
  deleting the current node unlinks it, keeps the other nodes in order, and makes the next node
  current, or the previous one when the last node is deleted; deleting the only node of a list
  dereferences NULL instead.
\<close>

theorem dl_delete_current:
  assumes "dl_rep s (ms @ (x, d) # ns)" "dl_crnt s = Some x"
  shows "if ms @ ns = [] then delete_crnt_dl_list_node s = Inl Null_Deref
    else \<exists>s'. delete_crnt_dl_list_node s =
           Inr (Some (snd (if ns = [] then last ms else hd ns)), s') \<and> dl_rep s' (ms @ ns) \<and>
         dl_crnt s' = Some (fst (if ns = [] then last ms else hd ns))"
proof (cases ns)
  case Nil
  show ?thesis
  proof (cases ms rule: rev_cases)
    case Nil2: Nil
    then show ?thesis using assms Nil
      by (auto simp: delete_crnt_dl_list_node_def dl_rep_def hp_upd_def Let_def)
  next
    case (snoc ms' wv)
    then show ?thesis using delete_last_rep [of s ms' "fst wv" "snd wv" x d] assms Nil by simp
  qed
next
  case (Cons zu ns')
  show ?thesis
  proof (cases ms rule: rev_cases)
    case Nil
    then show ?thesis
      using delete_first_rep [of s x d "fst zu" "snd zu" ns'] assms Cons by simp
  next
    case (snoc ms' wv)
    then show ?thesis
      using delete_inner_rep [of s ms' "fst wv" "snd wv" x d "fst zu" "snd zu" ns'] assms Cons by simp
  qed
qed

definition two_nodes :: "nat dl_list" where
  "two_nodes =
     \<lparr>dl_heap = [Some \<lparr>dn_data = 10, dn_size = 1, dn_next = Some 1, dn_prev = None\<rparr>,
                 Some \<lparr>dn_data = 20, dn_size = 1, dn_next = None, dn_prev = Some 0\<rparr>,
                 Some \<lparr>dn_data = 30, dn_size = 1, dn_next = None, dn_prev = None\<rparr>],
      dl_first = Some 0, dl_last = Some 1, dl_crnt = Some 0\<rparr>"

lemma two_nodes_rep: "dl_rep two_nodes ([] @ (0, 10) # [(1, 20)])"
  by (simp add: two_nodes_def dl_rep_def)

lemma two_nodes_loose: "loose two_nodes ([] @ (0, 10) # [(1, 20)]) 2 30"
  by (simp add: two_nodes_def loose_def numeral_2_eq_2)

theorem dl_delete_current_witness:
  "\<exists>s'. delete_crnt_dl_list_node two_nodes = Inr (Some 20, s') \<and> dl_rep s' [(1, 20)] \<and>
    dl_crnt s' = Some 1"
  using dl_delete_current [OF two_nodes_rep] by (simp add: two_nodes_def)

text \<open>
  insert_dl_list_node, which is documented to insert after the current node, does so except when
  the current node is the first one: then the new node is put before it, at the head of the list.
\<close>

theorem dl_insert_position:
  assumes "dl_rep s (ms @ (x, d) # ns)" "dl_crnt s = Some x" "loose s (ms @ (x, d) # ns) y e"
  shows "\<exists>s'. insert_dl_list_node s y = Inr (Some e, s') \<and>
    dl_rep s' (if ms = [] then (y, e) # (x, d) # ns else ms @ (x, d) # (y, e) # ns)"
proof (cases ms rule: rev_cases)
  case Nil
  obtain s' where s': "prepend_dl_list s y = Inr s'" "dl_rep s' ([] @ (y, e) # (x, d) # ns)"
    using prepend_dl_list_rep [OF assms(1,3)] Nil by auto
  then show ?thesis using assms(1,2) Nil data_at_rep [OF s'(2)]
    by (auto simp: insert_dl_list_node_def dl_rep_def)
next
  case (snoc ms' wv)
  obtain w v where w: "wv = (w, v)" by (cases wv)
  show ?thesis
  proof (cases ns)
    case Nil
    obtain s' where s': "append_dl_list s y = Inr s'" "dl_rep s' ((ms @ [(x, d)]) @ (y, e) # [])"
      using append_dl_list_rep [OF assms(1,3)] Nil by auto
    then show ?thesis using assms(1,2) Nil snoc w data_at_rep [OF s'(2)]
      by (auto simp: insert_dl_list_node_def dl_rep_def dlseg_append)
  next
    case (Cons zu ns')
    then show ?thesis
      using insert_inner_rep [of s ms' w v x d "fst zu" "snd zu" ns' y e] assms snoc w by auto
  qed
qed

theorem dl_insert_position_witness:
  "\<exists>s'. insert_dl_list_node two_nodes 2 = Inr (Some 30, s') \<and> dl_rep s' [(2, 30), (0, 10), (1, 20)]"
  using dl_insert_position [OF two_nodes_rep _ two_nodes_loose] by (simp add: two_nodes_def)

end
