(* ===== verification/Cmdline.thy ===== *)
theory Cmdline
  imports String_List
begin

text \<open>
  src/src/common/cmdline.c: the declaration and the parsing of the command line of both programs.

  The four static variables and the struct \<open>cmdline_t\<close> are one record, which the functions pass along;
  init_cmdline, which both programs call first, creates it.  An option is a \<open>cmdline_entry\<close> in the
  pointer list \<open>args\<close>; every entry is in the list once, so an entry that is changed through its
  pointer is the element of the list at its position.  A callback is \<open>Inl e\<close> when it ends the
  process, as the two callbacks of the program do, and \<open>Inr ()\<close> when it returns.  The vector \<open>argv\<close>
  is a list of strings.  What is written to stderr and stdout before the process ends is computed
  (the help screen) and dropped.
\<close>

section \<open>Flags and strings\<close>

type_synonym cmdline_type = "32 word"

abbreviation CMD_NONE :: cmdline_type where "CMD_NONE \<equiv> 0"
abbreviation CMD_ARGS :: cmdline_type where "CMD_ARGS \<equiv> 0x01"
abbreviation CMD_STR :: cmdline_type where "CMD_STR \<equiv> 0x02"
abbreviation CMD_NUM :: cmdline_type where "CMD_NUM \<equiv> 0x04"
abbreviation CMD_BOOL :: cmdline_type where "CMD_BOOL \<equiv> 0x08"
abbreviation CMD_LIST :: cmdline_type where "CMD_LIST \<equiv> 0x10"
abbreviation CMD_ANON :: cmdline_type where "CMD_ANON \<equiv> 0x20"
abbreviation CMD_SWITCH :: cmdline_type where "CMD_SWITCH \<equiv> 0x40"
abbreviation CMD_REQD :: cmdline_type where "CMD_REQD \<equiv> 0x80"
abbreviation CMD_DIV :: cmdline_type where "CMD_DIV \<equiv> 0x100"
abbreviation CMD_SEEN :: cmdline_type where "CMD_SEEN \<equiv> 0x200"

definition has :: "cmdline_type \<Rightarrow> cmdline_type \<Rightarrow> bool" where
  "has t f \<longleftrightarrow> t AND f \<noteq> 0"

text \<open>\<open>str[i]\<close> of a string that came from outside, and a char as int.\<close>

definition ch_at :: "string \<Rightarrow> nat \<Rightarrow> char res" where
  "ch_at s i =
     (if i < length s then Inr (s ! i) else if i = length s then Inr NUL else Inl Out_Of_Bounds)"

definition schar :: "char \<Rightarrow> int" where
  "schar c = (if code c < 128 then int (code c) else int (code c) - 256)"

text \<open>The text of a string that must not be NULL.\<close>

definition str_txt :: "string_t option \<Rightarrow> string res" where
  "str_txt s = (case s of None \<Rightarrow> Inl Null_Deref | Some s \<Rightarrow> cstr (sb_buffer s) 0)"

section \<open>State\<close>

record cmdline_entry =
  ce_short :: int
  ce_long :: "string_t option"
  ce_name :: "string_t option"
  ce_help :: "string_t option"
  ce_value :: "string_list_t option"
  ce_cb :: "unit res option"
  ce_type :: cmdline_type

record cmdline =
  cl_preamble :: "string_t option"
  cl_vers :: "string_t option"
  cl_name :: "string_t option"
  cl_pname :: "string_t option"
  cl_files :: int
  cl_args :: "cmdline_entry pointer_list"
  cl_cmds :: "string list"
  cl_idx :: int
  cl_max :: int

section \<open>The help screen\<close>

abbreviation NL :: string where "NL \<equiv> [CHR 0x0A]"

definition dashes :: string where
  "dashes = replicate 80 (CHR ''-'')"

definition pad10 :: "string \<Rightarrow> string" where
  "pad10 s = s @ replicate (10 - length s) (CHR '' '')"

definition show_cmdline_vers :: "cmdline \<Rightarrow> string res" where
  "show_cmdline_vers cl =
     rbind (str_txt (cl_name cl)) (\<lambda>n.
     rbind (str_txt (cl_vers cl)) (\<lambda>v. Inr (n @ '': v'' @ v @ NL)))"

definition reqd_text :: "cmdline_entry \<Rightarrow> string" where
  "reqd_text e = (if has (ce_type e) CMD_REQD then ''(reqd)'' else [])"

definition opt_lines :: "cmdline_entry \<Rightarrow> string res" where
  "opt_lines e =
     (if ce_short e \<noteq> 0 \<or> ce_long e \<noteq> None
      then rbind (if ce_long e \<noteq> None
                  then rbind (str_txt (ce_long e)) (\<lambda>l. Inr (''--'' @ pad10 l @ '' [''))
                  else Inr (''             ['')) (\<lambda>long.
           rbind (if ce_help e \<noteq> None
                  then rbind (str_txt (ce_help e)) (\<lambda>h. Inr (h @ '' '' @ reqd_text e @ NL))
                  else Inr []) (\<lambda>help.
           Inr ((if ce_short e \<noteq> 0
                 then ''  -'' @ [char_of (nat (ce_short e mod 256))] @ '' '' else ''     '') @
                long @
                (if has (ce_type e) CMD_LIST then ''list of '' else []) @
                (if has (ce_type e) CMD_BOOL then ''bool] ''
                 else if has (ce_type e) CMD_STR then ''strg] ''
                 else if has (ce_type e) CMD_NUM then ''num]  ''
                 else ''sw]   '') @ help)))
      else if has (ce_type e) CMD_DIV then Inr (dashes @ NL)
      else if ce_help e \<noteq> None
      then rbind (str_txt (ce_help e)) (\<lambda>h. Inr (''  '' @ h @ '' '' @ reqd_text e @ NL))
      else Inr [])"

definition show_cmdline_help :: "cmdline \<Rightarrow> string res" where
  "show_cmdline_help cl =
     rbind (show_cmdline_vers cl) (\<lambda>vers.
     rbind (str_txt (cl_preamble cl)) (\<lambda>pre.
     rbind (str_txt (cl_pname cl)) (\<lambda>pn.
     rbind (iter_while (\<lambda>e out. rbind (opt_lines e) (\<lambda>l. Inr (False, out @ l)))
              (Some (cl_args cl)) 0 []) (\<lambda>(opts, _).
     Inr (vers @ pre @ NL @ NL @ ''Use: '' @ pn @ '' [options] '' @
          (if 1 < cl_files cl then ''[list of files]''
           else if cl_files cl = 1 then ''[file name]'' else []) @ NL @ NL @
          dashes @ NL @ opts @ dashes @ NL @ NL)))))"

text \<open>An error message, the help screen and \<open>exit(1)\<close>.\<close>

definition cmdline_help :: "cmdline \<Rightarrow> 'a res" where
  "cmdline_help cl = rbind (show_cmdline_help cl) (\<lambda>_. Inl Fatal_Exit)"

definition cmdline_vers :: "cmdline \<Rightarrow> 'a res" where
  "cmdline_vers cl = rbind (show_cmdline_vers cl) (\<lambda>_. Inl Fatal_Exit)"

section \<open>Declaring options\<close>

definition opt_string :: "string option \<Rightarrow> string_t option res" where
  "opt_string s =
     (case s of None \<Rightarrow> Inr None | Some _ \<Rightarrow> rbind (create_string s) (\<lambda>t. Inr (Some t)))"

definition init_cmdline :: "string \<Rightarrow> string \<Rightarrow> string \<Rightarrow> cmdline res" where
  "init_cmdline name preamble vers =
     rbind (create_string (Some vers)) (\<lambda>v.
     rbind (create_string (Some preamble)) (\<lambda>p.
     rbind (create_string (Some name)) (\<lambda>n.
     Inr \<lparr>cl_preamble = Some p, cl_vers = Some v, cl_name = Some n, cl_pname = None,
          cl_files = 0, cl_args = create_ptr_list, cl_cmds = [], cl_idx = 0, cl_max = 0\<rparr>)))"

definition add_cmdline ::
  "cmdline \<Rightarrow> int \<Rightarrow> string option \<Rightarrow> string option \<Rightarrow> string option \<Rightarrow> string option \<Rightarrow>
   unit res option \<Rightarrow> cmdline_type \<Rightarrow> cmdline res" where
  "add_cmdline cl short_opt long_opt name help def_val cb type =
     (let cl = (if \<not> has type CMD_DIV \<and> short_opt = 0 \<and> long_opt = None
                then cl\<lparr>cl_files := (if has type CMD_LIST then 2 else 1)\<rparr> else cl) in
      rbind (opt_string long_opt) (\<lambda>l.
      rbind (opt_string name) (\<lambda>n.
      rbind (opt_string help) (\<lambda>h.
      rbind (case def_val of
               None \<Rightarrow> Inr None
             | Some d \<Rightarrow>
                 rbind (create_string (Some d)) (\<lambda>s.
                 rbind (append_string_list create_string_list s) (\<lambda>v. Inr (Some v)))) (\<lambda>v.
      rbind (append_ptr_list (cl_args cl)
               (Some \<lparr>ce_short = short_opt, ce_long = l, ce_name = n, ce_help = h, ce_value = v,
                      ce_cb = cb,
                      ce_type = (if has type CMD_LIST then type OR CMD_ARGS else type)\<rparr>)) (\<lambda>args.
      Inr (cl\<lparr>cl_args := args\<rparr>)))))))"

section \<open>Looking options up\<close>

text \<open>The search loops; the position of the entry that was found is the final mark less one.\<close>

definition find_opt ::
  "(cmdline_entry \<Rightarrow> bool res) \<Rightarrow> cmdline \<Rightarrow> (cmdline_entry \<times> int) option res" where
  "find_opt P cl =
     rbind (iter_while (\<lambda>e s. rbind (P e) (\<lambda>b. Inr (b, s))) (Some (cl_args cl)) 0 ())
       (\<lambda>(_, item, mark). Inr (map_option (\<lambda>e. (e, mark - 1)) item))"

definition str_matches :: "string_t option \<Rightarrow> string \<Rightarrow> bool res" where
  "str_matches s str =
     (case s of None \<Rightarrow> Inr False | Some t \<Rightarrow> rbind (comp_string_str t str) (\<lambda>c. Inr (c = 0)))"

definition get_short_opt :: "cmdline \<Rightarrow> int \<Rightarrow> (cmdline_entry \<times> int) option res" where
  "get_short_opt cl ch = find_opt (\<lambda>e. Inr (ce_short e = ch)) cl"

definition get_long_opt :: "cmdline \<Rightarrow> string \<Rightarrow> (cmdline_entry \<times> int) option res" where
  "get_long_opt cl str = find_opt (\<lambda>e. str_matches (ce_long e) str) cl"

definition get_opt_by_name :: "cmdline \<Rightarrow> string \<Rightarrow> (cmdline_entry \<times> int) option res" where
  "get_opt_by_name cl str = find_opt (\<lambda>e. str_matches (ce_name e) str) cl"

definition get_cmd_opt :: "cmdline \<Rightarrow> string \<Rightarrow> string_t option res" where
  "get_cmd_opt cl name =
     rbind (get_opt_by_name cl name) (\<lambda>opt.
     case opt of
       None \<Rightarrow> Inr None
     | Some (e, _) \<Rightarrow>
         if has (ce_type e) CMD_SWITCH
         then rbind (create_string (Some (if has (ce_type e) CMD_SEEN then ''1'' else ''0'')))
                (\<lambda>s. Inr (Some s))
         else rbind (iterate_string_list (ce_value e) 0) (\<lambda>(s, _). Inr s))"

definition iterate_cmd_opt :: "cmdline \<Rightarrow> string \<Rightarrow> int \<Rightarrow> (string_t option \<times> int) res" where
  "iterate_cmd_opt cl name mark =
     rbind (get_opt_by_name cl name) (\<lambda>opt.
     case opt of None \<Rightarrow> Inr (None, mark) | Some (e, _) \<Rightarrow> iterate_string_list (ce_value e) mark)"

text \<open>
  The loop of in_cmd_list looks the option up again in every round; the table does not change, so
  this is one lookup and a loop over the values.
\<close>

definition in_cmd_list :: "cmdline \<Rightarrow> string \<Rightarrow> string \<Rightarrow> int res" where
  "in_cmd_list cl name item =
     rbind (get_opt_by_name cl name) (\<lambda>opt.
     case opt of
       None \<Rightarrow> Inr 0
     | Some (e, _) \<Rightarrow>
         rbind (iter_while (\<lambda>s x. rbind (comp_string_str s item) (\<lambda>c. Inr (c = 0, x)))
                  (ce_value e) 0 ()) (\<lambda>(_, found, _).
         Inr (if found = None then 0 else 1)))"

section \<open>Storing an argument\<close>

definition add_cmdline_arg :: "cmdline_entry \<Rightarrow> string \<Rightarrow> cmdline_entry res" where
  "add_cmdline_arg item str =
     (if has (ce_type item) CMD_LIST
      then rbind (split_string (Some str) (CHR '':'')) (\<lambda>sp.
           case ce_value item of
             Some v \<Rightarrow>
               rbind (append_string_list_list v sp) (\<lambda>v. Inr (item\<lparr>ce_value := Some v\<rparr>))
           | None \<Rightarrow> Inr (item\<lparr>ce_value := Some sp\<rparr>))
      else
        (case ce_value item of
           Some v \<Rightarrow>
             rbind (iterate_string_list (Some v) 0) (\<lambda>(s, _).
             case s of
               None \<Rightarrow> Inl Null_Deref
             | Some s \<Rightarrow>
                 rbind (clear_string s) (\<lambda>s.
                 rbind (append_string s str) (\<lambda>s.
                 rbind (store (pl_buffer v) 0 (Some s)) (\<lambda>b.
                 Inr (item\<lparr>ce_value := Some (v\<lparr>pl_buffer := b\<rparr>)\<rparr>)))))
         | None \<Rightarrow>
             rbind (create_string (Some str)) (\<lambda>s.
             rbind (append_string_list create_string_list s) (\<lambda>v.
             Inr (item\<lparr>ce_value := Some v\<rparr>)))))"

text \<open>Writing back the entry at a position, and storing an argument in it.\<close>

definition put_entry :: "cmdline \<Rightarrow> int \<Rightarrow> cmdline_entry \<Rightarrow> cmdline res" where
  "put_entry cl i e =
     rbind (store (pl_buffer (cl_args cl)) i (Some e)) (\<lambda>b.
     Inr (cl\<lparr>cl_args := (cl_args cl)\<lparr>pl_buffer := b\<rparr>\<rparr>))"

definition seen :: "cmdline_entry \<Rightarrow> cmdline_entry" where
  "seen e = e\<lparr>ce_type := ce_type e OR CMD_SEEN\<rparr>"

definition give_arg :: "cmdline \<Rightarrow> int \<Rightarrow> cmdline_entry \<Rightarrow> string \<Rightarrow> cmdline res" where
  "give_arg cl i e str = rbind (add_cmdline_arg e str) (put_entry cl i)"

section \<open>The parser\<close>

definition get_cmd :: "cmdline \<Rightarrow> string option res" where
  "get_cmd cl =
     (if cl_max cl \<le> cl_idx cl then Inr None
      else if 0 \<le> cl_idx cl \<and> nat (cl_idx cl) < length (cl_cmds cl)
      then Inr (Some (cl_cmds cl ! nat (cl_idx cl))) else Inl Out_Of_Bounds)"

definition consume_cmd :: "cmdline \<Rightarrow> (string option \<times> cmdline) res" where
  "consume_cmd cl =
     (let cl = (if cl_idx cl < cl_max cl then cl\<lparr>cl_idx := cl_idx cl + 1\<rparr> else cl) in
      rbind (get_cmd cl) (\<lambda>s. Inr (s, cl)))"

definition advance :: "cmdline \<Rightarrow> cmdline res" where
  "advance cl = rbind (consume_cmd cl) (\<lambda>(_, cl). Inr cl)"

definition short_arg :: "cmdline \<Rightarrow> cmdline_entry \<Rightarrow> int \<Rightarrow> string \<Rightarrow> nat \<Rightarrow> char \<Rightarrow> cmdline res" where
  "short_arg cl item i str idx c1 =
     rbind (if c1 = CHR ''='' then ch_at str (idx + 2) else Inr NUL) (\<lambda>c2.
     if c1 = CHR ''='' \<and> c2 \<noteq> NUL
     then rbind (give_arg cl i item (drop (idx + 2) str)) advance
     else if c1 \<noteq> NUL
     then rbind (give_arg cl i item (drop (idx + 1) str)) advance
     else rbind (consume_cmd cl) (\<lambda>(s, cl).
          case s of
            Some s \<Rightarrow> rbind (give_arg cl i item s) advance
          | None \<Rightarrow> Inl Null_Deref))"

function parse_short_option :: "cmdline \<Rightarrow> string \<Rightarrow> nat \<Rightarrow> cmdline res" where
  "parse_short_option cl str idx =
     rbind (ch_at str idx) (\<lambda>ch.
     rbind (get_short_opt cl (schar ch)) (\<lambda>opt.
     case opt of
       None \<Rightarrow> cmdline_help cl
     | Some (item, i) \<Rightarrow>
         (case ce_cb item of
            Some cb \<Rightarrow> rbind cb (\<lambda>_. Inr cl)
          | None \<Rightarrow>
              rbind (put_entry cl i (seen item)) (\<lambda>cl.
              rbind (ch_at str (idx + 1)) (\<lambda>c1.
              if has (ce_type item) CMD_ARGS then short_arg cl (seen item) i str idx c1
              else if c1 = NUL then advance cl
              else parse_short_option cl str (idx + 1))))))"
  by pat_completeness auto
termination
  by (relation "measure (\<lambda>(cl, str, idx). Suc (length str) - idx)")
    (auto simp: ch_at_def split: if_splits)

declare parse_short_option.simps [simp del]

definition parse_long_option :: "cmdline \<Rightarrow> string \<Rightarrow> cmdline res" where
  "parse_long_option cl str =
     (let (tpt, arg) = (case c_strchr str (CHR ''='') of
                          None \<Rightarrow> (str, None)
                        | Some k \<Rightarrow> (take k str, Some (drop (Suc k) str))) in
      rbind (get_long_opt cl tpt) (\<lambda>opt.
      case opt of
        None \<Rightarrow> cmdline_help cl
      | Some (item, i) \<Rightarrow>
          (case ce_cb item of
             Some cb \<Rightarrow> rbind cb (\<lambda>_. Inr cl)
           | None \<Rightarrow>
               rbind (put_entry cl i (seen item)) (\<lambda>cl.
               if has (ce_type item) CMD_ARGS
               then (case arg of
                       None \<Rightarrow>
                         rbind (consume_cmd cl) (\<lambda>(s, cl).
                         case s of
                           Some s \<Rightarrow> rbind (give_arg cl i (seen item) s) advance
                         | None \<Rightarrow> cmdline_help cl)
                     | Some a \<Rightarrow>
                         if a \<noteq> [] then rbind (give_arg cl i (seen item) a) advance
                         else cmdline_help cl)
               else advance cl))))"

definition parse_list_item :: "cmdline \<Rightarrow> string \<Rightarrow> cmdline res" where
  "parse_list_item cl str =
     rbind (find_opt (\<lambda>e. Inr (has (ce_type e) CMD_ANON)) cl) (\<lambda>opt.
     case opt of
       None \<Rightarrow> cmdline_help cl
     | Some (item, i) \<Rightarrow>
         rbind (add_cmdline_arg item str) (\<lambda>item.
         rbind (put_entry cl i (seen item)) advance))"

definition parse_one :: "cmdline \<Rightarrow> string \<Rightarrow> cmdline res" where
  "parse_one cl ptr =
     rbind (ch_at ptr 0) (\<lambda>c0.
     if c0 = CHR ''-''
     then rbind (ch_at ptr 1) (\<lambda>c1.
          if c1 = CHR ''-'' then parse_long_option cl (drop 2 ptr)
          else parse_short_option cl (drop 1 ptr) 0)
     else parse_list_item cl ptr)"

text \<open>The loop of parse_cmdline: \<open>None\<close> when it runs for ever.\<close>

partial_function (option) parse_loop :: "cmdline \<Rightarrow> cmdline res option" where
  "parse_loop cl =
     (case get_cmd cl of
        Inl e \<Rightarrow> Some (Inl e)
      | Inr c \<Rightarrow>
          (case c of
             None \<Rightarrow> Some (Inr cl)
           | Some ptr \<Rightarrow>
               (case parse_one cl ptr of Inl e \<Rightarrow> Some (Inl e) | Inr cl' \<Rightarrow> parse_loop cl')))"

text \<open>
  One entry of the environment.  The copy into a buffer of 1024 bytes has no terminator when the
  entry is longer, and reading it back then runs off the buffer.
\<close>

definition env_copy :: "string \<Rightarrow> string res" where
  "env_copy e =
     (let buffer = map Val (take 1024 e) @ replicate (1024 - length e) (Val NUL)
      in cstr buffer 0)"

definition env_entry :: "string \<Rightarrow> cmdline_entry option res" where
  "env_entry e =
     rbind (env_copy e) (\<lambda>b.
     case c_strchr b (CHR ''='') of
       None \<Rightarrow> Inr None
     | Some k \<Rightarrow>
         rbind (create_string (Some (take k b))) (\<lambda>nm.
         let head = drop (Suc k) b in
         rbind (if head = [] \<or> hd head \<noteq> CHR '':''
                then split_string (Some head) (CHR '':'')
                else rbind (create_string (Some head)) (append_string_list create_string_list)) (\<lambda>v.
         Inr (Some \<lparr>ce_short = 0, ce_long = None, ce_name = Some nm, ce_help = None,
                    ce_value = Some v, ce_cb = None, ce_type = CMD_NONE\<rparr>))))"

fun store_environment :: "cmdline \<Rightarrow> string list \<Rightarrow> cmdline res" where
  "store_environment cl [] = Inr cl"
| "store_environment cl (e # env) =
     rbind (env_entry e) (\<lambda>ent.
     case ent of
       None \<Rightarrow> store_environment cl env
     | Some ent \<Rightarrow>
         rbind (append_ptr_list (cl_args cl) (Some ent)) (\<lambda>args.
         store_environment (cl\<lparr>cl_args := args\<rparr>) env))"

definition init_cmd :: "cmdline \<Rightarrow> string list \<Rightarrow> string list \<Rightarrow> cmdline res" where
  "init_cmd cl argv env =
     store_environment (cl\<lparr>cl_idx := 0, cl_max := int (length argv), cl_cmds := argv\<rparr>) env"

text \<open>The check for required options after the loop.\<close>

definition check_required :: "cmdline \<Rightarrow> cmdline res" where
  "check_required cl =
     rbind (find_opt (\<lambda>e. Inr (has (ce_type e) CMD_REQD \<and> \<not> has (ce_type e) CMD_SEEN)) cl)
       (\<lambda>opt. case opt of None \<Rightarrow> Inr cl | Some _ \<Rightarrow> cmdline_help cl)"

definition parse_cmdline :: "cmdline \<Rightarrow> string list \<Rightarrow> string list \<Rightarrow> cmdline res" where
  "parse_cmdline cl argv env =
     rbind (init_cmd cl argv env) (\<lambda>cl.
     case argv of
       [] \<Rightarrow> Inl Null_Deref
     | p # _ \<Rightarrow>
         rbind (create_string (Some p)) (\<lambda>pn.
         rbind (advance (cl\<lparr>cl_pname := Some pn\<rparr>)) (\<lambda>cl.
         case parse_loop cl of
           None \<Rightarrow> Inl No_Return
         | Some r \<Rightarrow> rbind r check_required)))"

text \<open>
  destroy_cmdline frees the strings of the struct and of every entry, but not the list of entries
  itself; the global is not reset.
\<close>

definition destroy_entry :: "cmdline_entry \<Rightarrow> unit res" where
  "destroy_entry e =
     (case ce_value e of
        None \<Rightarrow> Inr ()
      | Some v \<Rightarrow> rbind (destroy_string_list (Live v)) (\<lambda>_. Inr ()))"

fun destroy_cmdline :: "cmdline obj \<Rightarrow> cmdline obj res" where
  "destroy_cmdline Null = Inr Null"
| "destroy_cmdline (Live cl) =
     rbind (iter_while (\<lambda>e s. rbind (destroy_entry e) (\<lambda>_. Inr (False, s)))
              (Some (cl_args cl)) 0 ()) (\<lambda>_. Inr Freed)"
| "destroy_cmdline Freed = Inl Use_After_Free"

end
