(* ===== verification/Cmdline_Parse.thy ===== *)
theory Cmdline_Parse
  imports Cmdline
begin

text \<open>
  Facts on the command line parser of src/src/common/cmdline.c: the loop ends, what an option with
  an argument does to the table, and the lookups.
\<close>

section \<open>The loop of the parser ends\<close>

text \<open>Every entry that a search finds is a cell of the block of the table.\<close>

definition entries_of :: "cmdline \<Rightarrow> cmdline_entry set" where
  "entries_of cl = {e. Val (Some e) \<in> set (pl_buffer (cl_args cl))}"

lemma iterate_in_block:
  "iterate_ptr_list (Some l) m = Inr (Some e, m') \<Longrightarrow>
   Val (Some e) \<in> set (pl_buffer l) \<and> load (pl_buffer l) (m' - 1) = Inr (Some e)"
  by (auto simp: iterate_ptr_list_def load_def rbind_eq_Inr split: if_splits cell.splits)
     (metis cell.exhaust nat_less_iff nth_mem)

lemma iter_while_in_block:
  "iter_while body l m s = Inr (s', Some e, m') \<Longrightarrow> l = Some lst \<Longrightarrow>
   Val (Some e) \<in> set (pl_buffer lst)"
proof (induction body l m s rule: iter_while.induct)
  case (1 body l m s)
  from "1.prems" show ?case
    by (subst (asm) iter_while.simps)
       (fastforce simp: rbind_eq_Inr dest: iterate_in_block intro: "1.IH" split: option.splits if_splits)
qed

lemma find_opt_in: "find_opt P cl = Inr (Some (e, i)) \<Longrightarrow> e \<in> entries_of cl"
  by (auto simp: find_opt_def rbind_eq_Inr entries_of_def dest: iter_while_in_block [OF _ refl])

text \<open>No declared callback returns, as in both programs.\<close>

definition cbs_exit :: "cmdline \<Rightarrow> bool" where
  "cbs_exit cl \<longleftrightarrow> (\<forall>e \<in> entries_of cl. ce_cb e \<noteq> Some (Inr ()))"

text \<open>What every step keeps: the words and their number, and the callbacks.\<close>

definition same_words :: "cmdline \<Rightarrow> cmdline \<Rightarrow> bool" where
  "same_words cl cl' \<longleftrightarrow> cl_cmds cl' = cl_cmds cl \<and> cl_max cl' = cl_max cl \<and>
     cl_idx cl \<le> cl_idx cl' \<and> (cbs_exit cl \<longrightarrow> cbs_exit cl')"

lemma same_words_refl [simp]: "same_words cl cl"
  by (simp add: same_words_def)

lemma same_words_trans: "same_words cl cl' \<Longrightarrow> same_words cl' cl'' \<Longrightarrow> same_words cl cl''"
  by (auto simp: same_words_def)

lemma add_cmdline_arg_cb: "add_cmdline_arg e s = Inr e' \<Longrightarrow> ce_cb e' = ce_cb e"
  by (auto simp: add_cmdline_arg_def rbind_eq_Inr split: if_splits option.splits)

lemma put_entry_same:
  "put_entry cl i e = Inr cl' \<Longrightarrow> ce_cb e \<noteq> Some (Inr ()) \<Longrightarrow>
   same_words cl cl' \<and> cl_idx cl' = cl_idx cl"
  by (auto simp: put_entry_def rbind_eq_Inr store_def same_words_def cbs_exit_def entries_of_def
      split: if_splits dest!: set_update_subset_insert [THEN subsetD])

lemma give_arg_same:
  "give_arg cl i e s = Inr cl' \<Longrightarrow> ce_cb e \<noteq> Some (Inr ()) \<Longrightarrow>
   same_words cl cl' \<and> cl_idx cl' = cl_idx cl"
  by (auto simp: give_arg_def rbind_eq_Inr dest!: add_cmdline_arg_cb dest: put_entry_same)

lemma consume_cmd_same:
  "consume_cmd cl = Inr (s, cl') \<Longrightarrow>
   same_words cl cl' \<and> cl_idx cl' = (if cl_idx cl < cl_max cl then cl_idx cl + 1 else cl_idx cl)"
  by (auto simp: consume_cmd_def rbind_eq_Inr Let_def same_words_def cbs_exit_def entries_of_def
      split: if_splits)

lemma advance_same:
  "advance cl = Inr cl' \<Longrightarrow>
   same_words cl cl' \<and> cl_idx cl' = (if cl_idx cl < cl_max cl then cl_idx cl + 1 else cl_idx cl)"
  by (auto simp: advance_def rbind_eq_Inr dest: consume_cmd_same)

text \<open>
  Every word is left behind by the function that parses it, and an option that stores its argument
  leaves the argument behind as well.
\<close>

definition steps :: "cmdline \<Rightarrow> cmdline \<Rightarrow> bool" where
  "steps cl cl' \<longleftrightarrow> same_words cl cl' \<and> (cl_idx cl < cl_max cl \<longrightarrow> cl_idx cl < cl_idx cl')"

lemma steps_advance: "same_words cl cl' \<Longrightarrow> cl_idx cl' = cl_idx cl \<Longrightarrow> advance cl' = Inr cl'' \<Longrightarrow> steps cl cl''"
  by (auto simp: steps_def same_words_def dest!: advance_same split: if_splits)

lemma steps_give:
  assumes "same_words cl cl'" "cl_idx cl' = cl_idx cl" "ce_cb e \<noteq> Some (Inr ())"
    and "rbind (give_arg cl' i e s) advance = Inr cl''"
  shows "steps cl cl''"
proof -
  from assms(4) obtain c where c: "give_arg cl' i e s = Inr c" "advance c = Inr cl''"
    unfolding rbind_eq_Inr by blast
  note g = give_arg_same [OF c(1) assms(3)]
  show ?thesis
    using steps_advance [OF same_words_trans [OF assms(1) g [THEN conjunct1]] _ c(2)] g assms(2) by simp
qed

lemma same_wordsD:
  "same_words cl cl' \<Longrightarrow> cl_max cl' = cl_max cl" "same_words cl cl' \<Longrightarrow> cl_idx cl \<le> cl_idx cl'"
  "same_words cl cl' \<Longrightarrow> cl_cmds cl' = cl_cmds cl" "same_words cl cl' \<Longrightarrow> cbs_exit cl \<Longrightarrow> cbs_exit cl'"
  by (simp_all add: same_words_def)

lemma steps_trans:
  assumes "same_words cl cl'" "cl_idx cl' = cl_idx cl" "steps cl' cl''"
  shows "steps cl cl''"
  using assms same_words_trans [OF assms(1)] same_wordsD(1) [OF assms(1)] by (simp add: steps_def)

lemma steps_consume_give:
  assumes "ce_cb e \<noteq> Some (Inr ())" "consume_cmd cl = Inr (t, cl')"
    and "rbind (give_arg cl' i e s) advance = Inr cl''"
  shows "steps cl cl''"
proof -
  note c = consume_cmd_same [OF assms(2)]
  have s: "same_words cl' cl''"
    using steps_give [OF same_words_refl refl assms(1,3)] by (simp add: steps_def)
  show ?thesis
    using same_words_trans [OF c [THEN conjunct1] s] c same_wordsD(2) [OF s]
    by (simp add: steps_def split: if_splits)
qed

lemma seen_cb [simp]: "ce_cb (seen e) = ce_cb e"
  by (simp add: seen_def)

lemma short_arg_steps:
  assumes "ce_cb e \<noteq> Some (Inr ())" "short_arg cl e i str idx c1 = Inr cl'"
  shows "steps cl cl'"
proof (cases "c1 = NUL")
  case True
  then obtain t cl0 where "consume_cmd cl = Inr (t, cl0)"
    using assms(2) by (auto simp: short_arg_def rbind_eq_Inr)
  with True show ?thesis
    using assms by (auto simp: short_arg_def split: option.splits intro: steps_consume_give)
next
  case False
  then obtain s where "rbind (give_arg cl i e s) advance = Inr cl'"
    using assms(2) unfolding short_arg_def rbind_eq_Inr [of "if _ then _ else _"]
    by (auto split: if_splits)
  then show ?thesis by (rule steps_give [OF same_words_refl refl assms(1)])
qed

lemma parse_short_cases:
  assumes "parse_short_option cl str idx = Inr cl'" "cbs_exit cl"
  obtains ch item i cl0 c1 where
    "ch_at str idx = Inr ch" "get_short_opt cl (schar ch) = Inr (Some (item, i))" "ce_cb item = None"
    "put_entry cl i (seen item) = Inr cl0" "ch_at str (idx + 1) = Inr c1"
    "has (ce_type item) CMD_ARGS \<longrightarrow> short_arg cl0 (seen item) i str idx c1 = Inr cl'"
    "\<not> has (ce_type item) CMD_ARGS \<and> c1 = NUL \<longrightarrow> advance cl0 = Inr cl'"
    "\<not> has (ce_type item) CMD_ARGS \<and> c1 \<noteq> NUL \<longrightarrow> parse_short_option cl0 str (idx + 1) = Inr cl'"
proof -
  note eq = assms(1) [unfolded parse_short_option.simps [of cl str idx]]
  from eq obtain ch where ch: "ch_at str idx = Inr ch" by (rule rbindE)
  note eq = eq [unfolded ch rbind_Inr]
  from eq obtain opt where opt: "get_short_opt cl (schar ch) = Inr opt" by (rule rbindE)
  note eq = eq [unfolded opt rbind_Inr]
  from eq obtain item i where [simp]: "opt = Some (item, i)"
    by (cases opt) (auto simp: cmdline_help_def rbind_eq_Inr)
  have "ce_cb item \<noteq> Some (Inr ())"
    using find_opt_in [of _ cl item i] opt assms(2) by (auto simp: get_short_opt_def cbs_exit_def)
  then have [simp]: "ce_cb item = None"
    using eq by (cases "ce_cb item") (auto simp: rbind_eq_Inr)
  from eq obtain cl0 c1 where "put_entry cl i (seen item) = Inr cl0" "ch_at str (idx + 1) = Inr c1"
    by (auto simp: rbind_eq_Inr)
  with eq ch opt show thesis by (intro that) auto
qed

lemma parse_short_steps:
  "parse_short_option cl str idx = Inr cl' \<Longrightarrow> cbs_exit cl \<Longrightarrow> steps cl cl'"
proof (induction "Suc (length str) - idx" arbitrary: cl idx rule: less_induct)
  case less
  from less.prems obtain ch item i cl0 c1 where r:
    "ch_at str idx = Inr ch" "get_short_opt cl (schar ch) = Inr (Some (item, i))" "ce_cb item = None"
    "put_entry cl i (seen item) = Inr cl0" "ch_at str (idx + 1) = Inr c1"
    "has (ce_type item) CMD_ARGS \<longrightarrow> short_arg cl0 (seen item) i str idx c1 = Inr cl'"
    "\<not> has (ce_type item) CMD_ARGS \<and> c1 = NUL \<longrightarrow> advance cl0 = Inr cl'"
    "\<not> has (ce_type item) CMD_ARGS \<and> c1 \<noteq> NUL \<longrightarrow> parse_short_option cl0 str (idx + 1) = Inr cl'"
    by (elim parse_short_cases)
  have w: "same_words cl cl0" "cl_idx cl0 = cl_idx cl" using put_entry_same [OF r(4)] r(3) by auto
  have len: "idx \<le> length str" using r(1) by (simp add: ch_at_def split: if_splits)
  consider "has (ce_type item) CMD_ARGS" | "\<not> has (ce_type item) CMD_ARGS" "c1 = NUL"
    | "\<not> has (ce_type item) CMD_ARGS" "c1 \<noteq> NUL" by blast
  then show ?case
  proof cases
    case 1
    then show ?thesis using steps_trans [OF w] short_arg_steps [of "seen item"] r(3,6) by auto
  next
    case 2
    then show ?thesis using steps_advance [OF w] r(7) by auto
  next
    case 3
    then have "steps cl0 cl'"
      using less.hyps [of "idx + 1" cl0] r(8) len same_wordsD(4) [OF w(1) less.prems(2)] by auto
    then show ?thesis by (rule steps_trans [OF w])
  qed
qed

lemma parse_long_steps:
  assumes "parse_long_option cl str = Inr cl'" "cbs_exit cl"
  shows "steps cl cl'"
proof -
  obtain tpt arg where ta: "(case c_strchr str (CHR ''='') of None \<Rightarrow> (str, None)
      | Some k \<Rightarrow> (take k str, Some (drop (Suc k) str))) = (tpt, arg)" by fastforce
  note eq = assms(1) [unfolded parse_long_option_def ta Let_def prod.case]
  from eq obtain opt where opt: "get_long_opt cl tpt = Inr opt" by (rule rbindE)
  note eq = eq [unfolded opt rbind_Inr]
  from eq obtain item i where [simp]: "opt = Some (item, i)"
    by (cases opt) (auto simp: cmdline_help_def rbind_eq_Inr)
  have "ce_cb item \<noteq> Some (Inr ())"
    using find_opt_in [of _ cl item i] opt assms(2) by (auto simp: get_long_opt_def cbs_exit_def)
  then have cb: "ce_cb item = None"
    using eq by (cases "ce_cb item") (auto simp: rbind_eq_Inr)
  from eq cb obtain cl0 where put: "put_entry cl i (seen item) = Inr cl0" by (auto simp: rbind_eq_Inr)
  have w: "same_words cl cl0" "cl_idx cl0 = cl_idx cl" using put_entry_same [OF put] cb by auto
  note eq = eq [unfolded put, simplified, unfolded cb put option.case rbind_Inr]
  have "steps cl0 cl'"
  proof (cases "has (ce_type item) CMD_ARGS")
    case False
    then show ?thesis using eq by (simp add: steps_advance [OF same_words_refl refl])
  next
    case args: True
    have cbs: "ce_cb (seen item) \<noteq> Some (Inr ())" using cb by simp
    show ?thesis
    proof (cases arg)
      case None
      then obtain t cl1 where c: "consume_cmd cl0 = Inr (t, cl1)" using eq args by (auto simp: rbind_eq_Inr)
      then show ?thesis using eq args None
        by (cases t) (auto simp: cmdline_help_def rbind_eq_Inr [of "show_cmdline_help _"]
            intro: steps_consume_give [OF cbs])
    next
      case (Some a)
      then show ?thesis using eq args
        by (auto simp: cmdline_help_def rbind_eq_Inr [of "show_cmdline_help _"] split: if_splits
            intro: steps_give [OF same_words_refl refl cbs])
    qed
  qed
  then show ?thesis by (rule steps_trans [OF w])
qed

lemma parse_list_item_steps:
  assumes "parse_list_item cl str = Inr cl'" "cbs_exit cl"
  shows "steps cl cl'"
proof -
  from assms(1) obtain item i where opt: "find_opt (\<lambda>e. Inr (has (ce_type e) CMD_ANON)) cl = Inr (Some (item, i))"
    by (auto simp: parse_list_item_def rbind_eq_Inr cmdline_help_def split: option.splits)
  then have cb: "ce_cb item \<noteq> Some (Inr ())" using find_opt_in assms(2) by (auto simp: cbs_exit_def)
  with assms(1) opt obtain item' cl0 where "add_cmdline_arg item str = Inr item'"
    "put_entry cl i (seen item') = Inr cl0" "advance cl0 = Inr cl'"
    by (auto simp: parse_list_item_def rbind_eq_Inr)
  then show ?thesis using cb put_entry_same [of cl i "seen item'"] steps_advance add_cmdline_arg_cb by auto
qed

lemma parse_one_steps: "parse_one cl w = Inr cl' \<Longrightarrow> cbs_exit cl \<Longrightarrow> steps cl cl'"
  by (auto simp: parse_one_def rbind_eq_Inr split: if_splits
      dest: parse_short_steps parse_long_steps parse_list_item_steps)

lemma parse_loop_total: "cbs_exit cl \<Longrightarrow> parse_loop cl \<noteq> None"
proof (induction "nat (cl_max cl - cl_idx cl)" arbitrary: cl rule: less_induct)
  case less
  show ?case
  proof (cases "get_cmd cl")
    case (Inr c)
    show ?thesis
    proof (cases c)
      case (Some w)
      then have lt: "cl_idx cl < cl_max cl" using Inr by (auto simp: get_cmd_def split: if_splits)
      show ?thesis
      proof (cases "parse_one cl w")
        case (Inr cl')
        from parse_one_steps [OF this less.prems] lt
        have "cl_max cl' = cl_max cl" "cl_idx cl < cl_idx cl'" "cbs_exit cl'"
          using less.prems by (auto simp: steps_def dest: same_wordsD)
        then show ?thesis using less.hyps [of cl'] lt Inr Some \<open>get_cmd cl = Inr c\<close>
          by (simp add: parse_loop.simps [of cl])
      qed (use Some Inr in \<open>simp add: parse_loop.simps [of cl]\<close>)
    qed (use Inr in \<open>simp add: parse_loop.simps [of cl]\<close>)
  qed (simp add: parse_loop.simps [of cl])
qed

section \<open>Representation\<close>

text \<open>The table as a list of entries, and the values of an entry as a list of strings.\<close>

definition cl_rep :: "cmdline \<Rightarrow> cmdline_entry list \<Rightarrow> bool" where
  "cl_rep cl es \<longleftrightarrow> pl_rep (cl_args cl) (map Some es)"

definition vals_rep :: "string_list_t option \<Rightarrow> string list \<Rightarrow> bool" where
  "vals_rep v ds \<longleftrightarrow> (case v of None \<Rightarrow> ds = [] | Some l \<Rightarrow> ds \<noteq> [] \<and> sl_rep l ds)"

definition opt_ok :: "string_t option \<Rightarrow> bool" where
  "opt_ok s \<longleftrightarrow> (case s of None \<Rightarrow> True | Some t \<Rightarrow> sb_ok t)"

definition entry_ok :: "cmdline_entry \<Rightarrow> bool" where
  "entry_ok e \<longleftrightarrow> opt_ok (ce_long e) \<and> opt_ok (ce_name e) \<and> (\<exists>ds. vals_rep (ce_value e) ds)"

text \<open>The position of the first entry with a property.\<close>

definition first :: "('a \<Rightarrow> bool) \<Rightarrow> 'a list \<Rightarrow> ('a \<times> int) option" where
  "first Q es = (let n = length (takeWhile (\<lambda>e. \<not> Q e) es) in
     if n < length es then Some (es ! n, int n) else None)"

lemma first_simps [simp]:
  "first Q [] = None"
  "first Q (e # es) = (if Q e then Some (e, 0) else map_option (\<lambda>(x, n). (x, n + 1)) (first Q es))"
  by (auto simp: first_def Let_def)

lemma first_SomeD:
  "first Q es = Some (e, i) \<Longrightarrow> 0 \<le> i \<and> nat i < length es \<and> es ! nat i = e \<and> Q e"
  using nth_length_takeWhile [of "\<lambda>e. \<not> Q e" es] by (auto simp: first_def Let_def split: if_splits)

lemma first_append:
  "\<forall>e \<in> set es. \<not> Q e \<Longrightarrow> first Q (es @ [e]) = (if Q e then Some (e, int (length es)) else None)"
  by (induction es) auto

lemma loop_list_first:
  "\<forall>e \<in> set es. P e = Inr (Q e) \<Longrightarrow>
   \<exists>m'. loop_list (\<lambda>e s. rbind (P e) (\<lambda>b. Inr (b, s))) (map Some es) m () =
     Inr ((), map_option fst (first Q es), m') \<and>
     (\<forall>e i. first Q es = Some (e, i) \<longrightarrow> m' = m + i + 1)"
proof (induction es arbitrary: m)
  case (Cons e es)
  show ?case
  proof (cases "Q e")
    case False
    moreover obtain m' where "loop_list (\<lambda>e s. rbind (P e) (\<lambda>b. Inr (b, s))) (map Some es) (m + 1) () =
        Inr ((), map_option fst (first Q es), m')"
      "\<forall>e i. first Q es = Some (e, i) \<longrightarrow> m' = m + 1 + i + 1"
      using Cons by fastforce
    ultimately show ?thesis using Cons.prems
      by (auto simp: option.map_comp comp_def case_prod_beta)
  qed (use Cons.prems in auto)
qed simp

lemma find_opt_rep:
  assumes "cl_rep cl es" "\<forall>e \<in> set es. P e = Inr (Q e)"
  shows "find_opt P cl = Inr (first Q es)"
proof -
  obtain m' where "iter_while (\<lambda>e s. rbind (P e) (\<lambda>b. Inr (b, s))) (Some (cl_args cl)) 0 () =
      Inr ((), map_option fst (first Q es), m')" "\<forall>e i. first Q es = Some (e, i) \<longrightarrow> m' = i + 1"
    using loop_list_first [OF assms(2), of 0] iter_while_rep [of "cl_args cl" "map Some es" 0 _ "()"] assms(1)
    by (auto simp: cl_rep_def)
  then show ?thesis by (cases "first Q es") (auto simp: find_opt_def)
qed

lemma str_matches_ok: "opt_ok t \<Longrightarrow> str_matches t s = Inr (map_option the_str t = Some s)"
  by (auto simp: str_matches_def opt_ok_def comp_string_str_rep [OF sb_rep_str [OF sb_okD]]
      split: option.splits)

lemma get_short_opt_rep: "cl_rep cl es \<Longrightarrow> get_short_opt cl c = Inr (first (\<lambda>e. ce_short e = c) es)"
  by (simp add: get_short_opt_def find_opt_rep)

lemma get_long_opt_rep:
  "cl_rep cl es \<Longrightarrow> \<forall>e \<in> set es. entry_ok e \<Longrightarrow>
   get_long_opt cl s = Inr (first (\<lambda>e. map_option the_str (ce_long e) = Some s) es)"
  unfolding get_long_opt_def by (rule find_opt_rep) (auto simp: str_matches_ok entry_ok_def)

lemma get_opt_by_name_rep:
  "cl_rep cl es \<Longrightarrow> \<forall>e \<in> set es. entry_ok e \<Longrightarrow>
   get_opt_by_name cl s = Inr (first (\<lambda>e. map_option the_str (ce_name e) = Some s) es)"
  unfolding get_opt_by_name_def by (rule find_opt_rep) (auto simp: str_matches_ok entry_ok_def)

lemma put_entry_rep:
  assumes "cl_rep cl es" "0 \<le> i" "nat i < length es"
  shows "\<exists>args. put_entry cl i e = Inr (cl\<lparr>cl_args := args\<rparr>) \<and> pl_rep args (map Some (es[nat i := e]))"
proof -
  have pl: "pl_rep (cl_args cl) (map Some es)" using assms(1) by (simp add: cl_rep_def)
  have i: "i < int (length (pl_buffer (cl_args cl)))" "holds (pl_buffer (cl_args cl)) (map Some es)"
    using pl assms holds_length [of "pl_buffer (cl_args cl)" "map Some es"] by (auto simp: pl_rep_def)
  then have "pl_rep ((cl_args cl)\<lparr>pl_buffer := (pl_buffer (cl_args cl))[nat i := Val (Some e)]\<rparr>)
      (map Some (es[nat i := e]))"
    using pl assms holds_upd [OF i(2), of "nat i" "Some e"] by (auto simp: pl_rep_def map_update)
  then show ?thesis using i(1) assms(2) by (auto simp: put_entry_def store_in)
qed

text \<open>What the list of values is after an argument was stored.\<close>

definition new_vals :: "cmdline_type \<Rightarrow> string list \<Rightarrow> string \<Rightarrow> string list" where
  "new_vals t ds a = (if has t CMD_LIST then ds @ split_spec (CHR '':'') a else a # tl ds)"

lemma add_cmdline_arg_rep:
  assumes v: "vals_rep (ce_value e) ds" and a: "nul_free a" "length a + length ds + 1 < 2 ^ 30"
  shows "\<exists>v'. add_cmdline_arg e a = Inr (e\<lparr>ce_value := v'\<rparr>) \<and> vals_rep v' (new_vals (ce_type e) ds a)"
proof (cases "has (ce_type e) CMD_LIST")
  case True
  obtain sp where sp: "split_string (Some a) (CHR '':'') = Inr sp" "sl_rep sp (split_spec (CHR '':'') a)"
    using split_string_rep [of a "CHR '':''"] a by auto
  show ?thesis
  proof (cases "ce_value e")
    case None
    then show ?thesis using v True sp split_spec_not_Nil
      by (auto simp: add_cmdline_arg_def new_vals_def vals_rep_def)
  next
    case (Some l)
    then have "sl_rep l ds" "ds \<noteq> []" using v by (auto simp: vals_rep_def)
    moreover have "length ds + length (split_spec (CHR '':'') a) < 2 ^ 30"
      using split_spec_length [of "CHR '':''" a] a(2) by linarith
    ultimately obtain l' where "append_string_list_list l sp = Inr l'"
      "sl_rep l' (ds @ split_spec (CHR '':'') a)"
      using append_string_list_list_rep [OF _ sp(2)] by blast
    then show ?thesis using Some True sp \<open>ds \<noteq> []\<close>
      by (auto simp: add_cmdline_arg_def new_vals_def vals_rep_def)
  qed
next
  case False
  show ?thesis
  proof (cases "ce_value e")
    case None
    obtain s where s: "create_string (Some a) = Inr s" "sb_rep s a"
      using create_string_rep [of a] a by auto
    obtain l where "append_string_list create_string_list s = Inr l" "sl_rep l [a]"
      using append_string_list_rep [OF create_string_list_rep s(2)] by auto
    then show ?thesis using None False s v
      by (auto simp: add_cmdline_arg_def new_vals_def vals_rep_def)
  next
    case (Some l)
    then have "sl_rep l ds" and ds: "ds \<noteq> []" using v by (auto simp: vals_rep_def)
    then obtain xs where xs: "pl_rep l (map Some xs)" "\<forall>x \<in> set xs. sb_ok x" "ds = map the_str xs"
      by (auto simp: sl_rep_def)
    then obtain x ys where [simp]: "xs = x # ys" using ds by (cases xs) auto
    have it: "iterate_string_list (Some l) 0 = Inr (Some x, 1)"
      using iterate_ptr_list_rep [OF xs(1), of 0] by (simp add: iterate_string_list_def)
    obtain c where c: "clear_string x = Inr c" "sb_rep c []"
      using clear_string_rep [OF sb_rep_str [OF sb_okD]] xs(2) by auto
    obtain s where s: "append_string c a = Inr s" "sb_rep s a"
      using append_string_rep [OF c(2) a(1)] a(2) by auto
    have h: "holds (pl_buffer l) (map Some xs)" using xs(1) by (simp add: pl_rep_def)
    have "pl_rep (l\<lparr>pl_buffer := (pl_buffer l)[0 := Val (Some s)]\<rparr>) (map Some (s # ys))"
      using xs(1) holds_upd [OF h, of 0 "Some s"] by (auto simp: pl_rep_def)
    then have "sl_rep (l\<lparr>pl_buffer := (pl_buffer l)[0 := Val (Some s)]\<rparr>) (a # map the_str ys)"
      using xs(2) s(2) by (intro sl_repI [of _ "s # ys"]) (auto simp: sb_ok_rep the_str_rep [OF sb_rep_str])
    moreover have "store (pl_buffer l) 0 (Some s) = Inr ((pl_buffer l)[0 := Val (Some s)])"
      using holds_length [OF h] store_in [of 0 "pl_buffer l"] by fastforce
    ultimately show ?thesis using Some False it c(1) s(1) xs(3)
      by (auto simp: add_cmdline_arg_def new_vals_def vals_rep_def)
  qed
qed

section \<open>An option with an argument\<close>

lemma has_seen [simp]:
  "has (ce_type (seen e)) CMD_ARGS = has (ce_type e) CMD_ARGS"
  "has (ce_type (seen e)) CMD_LIST = has (ce_type e) CMD_LIST"
  "has (ce_type (seen e)) CMD_SWITCH = has (ce_type e) CMD_SWITCH"
  "has (ce_type (seen e)) CMD_SEEN"
  by (simp_all add: has_def seen_def word_ao_dist)

lemma seen_fields [simp]:
  "ce_value (seen e) = ce_value e" "ce_short (seen e) = ce_short e" "ce_long (seen e) = ce_long e"
  "ce_name (seen e) = ce_name e"
  by (simp_all add: seen_def)

text \<open>Storing the argument and going to the next word, from a state with \<open>k\<close> words used up.\<close>

lemma give_advance_rep:
  assumes cl: "cl_rep cl es" and i: "0 \<le> i" "nat i < length es"
    and e: "vals_rep (ce_value e) ds" "nul_free a" "length a + length ds + 1 < 2 ^ 30"
    and n: "0 \<le> cl_idx cl" "cl_idx cl < cl_max cl" "cl_max cl = int (length (cl_cmds cl))"
  shows "\<exists>args v. rbind (give_arg cl i e a) advance = Inr (cl\<lparr>cl_args := args, cl_idx := cl_idx cl + 1\<rparr>) \<and>
    pl_rep args (map Some (es[nat i := e\<lparr>ce_value := v\<rparr>])) \<and> vals_rep v (new_vals (ce_type e) ds a)"
proof -
  obtain v where v: "add_cmdline_arg e a = Inr (e\<lparr>ce_value := v\<rparr>)" "vals_rep v (new_vals (ce_type e) ds a)"
    using add_cmdline_arg_rep [OF e] by blast
  obtain args where p: "put_entry cl i (e\<lparr>ce_value := v\<rparr>) = Inr (cl\<lparr>cl_args := args\<rparr>)"
    "pl_rep args (map Some (es[nat i := e\<lparr>ce_value := v\<rparr>]))"
    using put_entry_rep [OF cl i] by blast
  have "advance (cl\<lparr>cl_args := args\<rparr>) = Inr (cl\<lparr>cl_args := args, cl_idx := cl_idx cl + 1\<rparr>)"
    using n by (auto simp: advance_def consume_cmd_def get_cmd_def Let_def)
  then show ?thesis using v p by (auto simp: give_arg_def)
qed

lemma consume_cmd_word:
  assumes "0 \<le> cl_idx cl" "cl_max cl = int (length (cl_cmds cl))" "drop (nat (cl_idx cl)) (cl_cmds cl) = w # w' # ws"
  shows "consume_cmd cl = Inr (Some w', cl\<lparr>cl_idx := cl_idx cl + 1\<rparr>)"
    "cl_idx cl + 1 < cl_max cl"
proof -
  have n: "Suc (nat (cl_idx cl)) < length (cl_cmds cl)"
    using arg_cong [OF assms(3), of length] by simp
  then have lt: "cl_idx cl + 1 < cl_max cl" using assms(1,2) by linarith
  then have "cl_cmds cl ! Suc (nat (cl_idx cl)) = w'"
    using arg_cong [OF assms(3), of "\<lambda>xs. xs ! 1"] n by simp
  then show "consume_cmd cl = Inr (Some w', cl\<lparr>cl_idx := cl_idx cl + 1\<rparr>)"
    using n assms(1,2) lt by (simp add: consume_cmd_def get_cmd_def Let_def nat_add_distrib)
  show "cl_idx cl + 1 < cl_max cl" by (rule lt)
qed

text \<open>The forms in which the option \<open>-c\<close>, \<open>--l\<close> can be given the argument \<open>a\<close>.\<close>

definition option_forms :: "char \<Rightarrow> string \<Rightarrow> string \<Rightarrow> string list set" where
  "option_forms c l a =
     {[''-'' @ c # a], [''-'' @ c # ''='' @ a], [''-'' @ [c], a], [''--'' @ l @ ''='' @ a], [''--'' @ l, a]}"

lemma c_strchr_split: "ch \<notin> set xs \<Longrightarrow> c_strchr (xs @ ch # ys) ch = Some (length xs)"
  by (induction xs) auto

lemma ch_at_simps [simp]:
  "ch_at (c # s) 0 = Inr c" "ch_at (c # s) (Suc n) = ch_at s n" "ch_at [] 0 = Inr NUL"
  "ch_at [] (Suc n) = Inl Out_Of_Bounds"
  by (auto simp: ch_at_def)

text \<open>
  The entry \<open>e\<close> at position \<open>i\<close> is the one that both names select; it takes an argument, has no
  callback and holds the values \<open>ds\<close>; the words that are left start with \<open>ws\<close>.
\<close>

definition option_given ::
  "cmdline \<Rightarrow> cmdline_entry list \<Rightarrow> cmdline_entry \<Rightarrow> int \<Rightarrow> char \<Rightarrow> string \<Rightarrow> string list \<Rightarrow> bool" where
  "option_given cl es e i c l ws \<longleftrightarrow>
     cl_rep cl es \<and> (\<forall>e \<in> set es. entry_ok e) \<and> 0 \<le> cl_idx cl \<and>
     cl_max cl = int (length (cl_cmds cl)) \<and> take (length ws) (drop (nat (cl_idx cl)) (cl_cmds cl)) = ws \<and>
     first (\<lambda>e. ce_short e = schar c) es = Some (e, i) \<and>
     first (\<lambda>e. map_option the_str (ce_long e) = Some l) es = Some (e, i) \<and>
     ce_cb e = None \<and> has (ce_type e) CMD_ARGS"

lemma option_givenD:
  assumes "option_given cl es e i c l ws"
  shows "get_short_opt cl (schar c) = Inr (Some (e, i))" "get_long_opt cl l = Inr (Some (e, i))"
    "0 \<le> i" "nat i < length es" "ce_cb e = None" "has (ce_type e) CMD_ARGS"
    "\<exists>args. put_entry cl i (seen e) = Inr (cl\<lparr>cl_args := args\<rparr>) \<and>
       cl_rep (cl\<lparr>cl_args := args\<rparr>) (es[nat i := seen e])"
  using assms get_short_opt_rep [of cl es] get_long_opt_rep [of cl es] put_entry_rep [of cl es i "seen e"]
    first_SomeD [of _ es e i]
  by (auto simp: option_given_def cl_rep_def)

lemma words_left:
  assumes "take (length ws) (drop n xs) = ws" "w = hd ws" "ws \<noteq> []"
  shows "n < length xs" "length ws \<le> length xs - n"
  using arg_cong [OF assms(1), of length] assms(3) by (cases ws; simp add: min_def split: if_splits)+

lemma option_one_word:
  assumes g: "option_given cl es e i c l [w]" and a: "nul_free a" "a \<noteq> []" "hd a \<noteq> CHR ''=''"
    and w: "w \<in> {''-'' @ c # a, ''-'' @ c # ''='' @ a, ''--'' @ l @ ''='' @ a}"
    and c: "c \<noteq> CHR ''-''" "CHR ''='' \<notin> set l"
    and p: "put_entry cl i (seen e) = Inr cl0"
  shows "parse_one cl w = rbind (give_arg cl0 i (seen e) a) advance"
proof -
  note d = option_givenD [OF g]
  obtain a0 as where as: "a = a0 # as" "a0 \<noteq> NUL" "a0 \<noteq> CHR ''=''" using a by (cases a) auto
  from w consider "w = ''-'' @ c # a" | "w = ''-'' @ c # ''='' @ a" | "w = ''--'' @ l @ ''='' @ a" by blast
  then show ?thesis
  proof cases
    case 3
    then show ?thesis
      using c(2) as(1) d(2,5,6) p c_strchr_split [OF c(2), of a]
      by (simp add: parse_one_def parse_long_option_def)
  qed (use d c as p in \<open>simp_all add: parse_one_def parse_short_option.simps [of _ "_ # _"]
        short_arg_def numeral_2_eq_2\<close>)
qed

lemma option_two_words:
  assumes g: "option_given cl es e i c l [w, a]"
    and w: "w \<in> {''-'' @ [c], ''--'' @ l}"
    and c: "c \<noteq> CHR ''-''" "CHR ''='' \<notin> set l"
    and p: "put_entry cl i (seen e) = Inr (cl\<lparr>cl_args := args\<rparr>)"
  shows "parse_one cl w =
    rbind (give_arg (cl\<lparr>cl_args := args, cl_idx := cl_idx cl + 1\<rparr>) i (seen e) a) advance"
proof -
  note d = option_givenD [OF g]
  obtain ws where ws: "drop (nat (cl_idx cl)) (cl_cmds cl) = w # a # ws"
    using g append_take_drop_id [of 2 "drop (nat (cl_idx cl)) (cl_cmds cl)"]
    by (simp add: option_given_def numeral_2_eq_2) metis
  have cc: "consume_cmd (cl\<lparr>cl_args := args\<rparr>) = Inr (Some a, cl\<lparr>cl_args := args, cl_idx := cl_idx cl + 1\<rparr>)"
    using consume_cmd_word(1) [of "cl\<lparr>cl_args := args\<rparr>" w a ws] g ws by (simp add: option_given_def)
  from w consider "w = ''-'' @ [c]" | "w = ''--'' @ l" by blast
  then show ?thesis
  proof cases
    case 2
    then show ?thesis
      using c(2) d(2,5,6) p cc
      by (simp add: parse_one_def parse_long_option_def c_strchr_None [THEN iffD2])
  qed (use d c p cc in \<open>simp add: parse_one_def parse_short_option.simps [of _ "_ # _"] short_arg_def\<close>)
qed

text \<open>
  What storing the argument leads to: the words \<open>ws\<close> are used up and the entry holds the new
  values; nothing else in the table changes.
\<close>

definition arg_stored ::
  "cmdline \<Rightarrow> cmdline_entry list \<Rightarrow> cmdline_entry \<Rightarrow> int \<Rightarrow> string list \<Rightarrow> string list \<Rightarrow> cmdline \<Rightarrow> bool" where
  "arg_stored cl es e i ws vs cl' \<longleftrightarrow>
     (\<exists>args v. cl' = cl\<lparr>cl_args := args, cl_idx := cl_idx cl + int (length ws)\<rparr> \<and>
        cl_rep cl' (es[nat i := (seen e)\<lparr>ce_value := v\<rparr>]) \<and> vals_rep v vs)"

lemma parse_one_stores:
  assumes g: "option_given cl es e i c l ws" and ws: "ws \<in> option_forms c l a"
    and v: "vals_rep (ce_value e) ds"
    and a: "nul_free a" "a \<noteq> []" "hd a \<noteq> CHR ''=''" "length a + length ds + 1 < 2 ^ 30"
    and c: "c \<noteq> CHR ''-''" "CHR ''='' \<notin> set l"
  shows "\<exists>cl'. parse_one cl (hd ws) = Inr cl' \<and> arg_stored cl es e i ws (new_vals (ce_type e) ds a) cl'"
proof -
  note d = option_givenD [OF g]
  from d(7) obtain args where p: "put_entry cl i (seen e) = Inr (cl\<lparr>cl_args := args\<rparr>)"
    "cl_rep (cl\<lparr>cl_args := args\<rparr>) (es[nat i := seen e])" by blast
  have pos: "0 \<le> cl_idx cl" "cl_max cl = int (length (cl_cmds cl))" using g by (auto simp: option_given_def)
  have "ws \<noteq> []" using ws by (auto simp: option_forms_def)
  with g have lt: "cl_idx cl + int (length ws) - 1 < cl_max cl" "ws \<noteq> []"
    using words_left [of ws "nat (cl_idx cl)" "cl_cmds cl" "hd ws"] by (auto simp: option_given_def)
  define k where "k = int (length ws) - 1"
  let ?cl = "cl\<lparr>cl_args := args, cl_idx := cl_idx cl + k\<rparr>"
  have k: "0 \<le> k" using lt by (cases ws) (auto simp: k_def)
  have one: "parse_one cl (hd ws) = rbind (give_arg ?cl i (seen e) a) advance"
  proof (cases "length ws = 1")
    case True
    then obtain w where w: "ws = [w]" by (cases ws) auto
    have "cl\<lparr>cl_args := args, cl_idx := cl_idx cl\<rparr> = cl\<lparr>cl_args := args\<rparr>" by simp
    then show ?thesis
      using option_one_word [OF g [unfolded w] a(1,2,3) _ c p(1)] ws w by (auto simp: option_forms_def k_def)
  next
    case False
    then obtain w where w: "ws = [w, a]" "w \<in> {''-'' @ [c], ''--'' @ l}"
      using ws by (auto simp: option_forms_def)
    then show ?thesis using option_two_words [OF g [unfolded w] w(2) c p(1)] by (simp add: k_def)
  qed
  have "cl_rep ?cl (es[nat i := seen e])" using p(2) by (simp add: cl_rep_def)
  from give_advance_rep [OF this _ _ _ a(1,4), of i "seen e"]
  obtain args' v where "rbind (give_arg ?cl i (seen e) a) advance =
      Inr (?cl\<lparr>cl_args := args', cl_idx := cl_idx ?cl + 1\<rparr>)"
    "pl_rep args' (map Some (es[nat i := (seen e)\<lparr>ce_value := v\<rparr>]))"
    "vals_rep v (new_vals (ce_type (seen e)) ds a)"
    using d(3,4) v pos k lt by (auto simp: k_def)
  then show ?thesis using one
    by (auto simp: arg_stored_def cl_rep_def k_def new_vals_def intro!: exI [of _ args'] exI [of _ v])
qed

section \<open>Reading a value back\<close>

lemma first_update:
  "first Q es = Some (e, i) \<Longrightarrow> Q e' \<Longrightarrow> first Q (es[nat i := e']) = Some (e', i)"
proof (induction es arbitrary: i)
  case (Cons x es)
  show ?case
  proof (cases "Q x")
    case False
    then obtain j where j: "first Q es = Some (e, j)" "i = j + 1" using Cons.prems by auto
    then have "0 \<le> j" using first_SomeD [OF j(1)] by simp
    then show ?thesis using Cons.IH [OF j(1) Cons.prems(2)] j(2) False by (simp add: nat_add_distrib)
  qed (use Cons.prems in auto)
qed simp

lemma get_cmd_opt_rep:
  assumes "cl_rep cl es" "\<forall>e \<in> set es. entry_ok e" "vals_rep (ce_value e) (v # vs)"
    and "first (\<lambda>e. map_option the_str (ce_name e) = Some n) es = Some (e, i)"
    and "\<not> has (ce_type e) CMD_SWITCH"
  shows "\<exists>s. get_cmd_opt cl n = Inr (Some s) \<and> sb_rep s v"
proof -
  obtain l where l: "ce_value e = Some l" "sl_rep l (v # vs)"
    using assms(3) by (auto simp: vals_rep_def split: option.splits)
  then obtain xs where xs: "pl_rep l (map Some xs)" "\<forall>x \<in> set xs. sb_ok x" "v # vs = map the_str xs"
    unfolding sl_rep_def by (elim exE conjE) (rule that)
  then obtain x ys where "xs = x # ys" by (cases xs) auto
  then show ?thesis
    using iterate_ptr_list_rep [OF xs(1), of 0] xs get_opt_by_name_rep [OF assms(1,2)] assms(4,5) l(1)
    by (auto simp: get_cmd_opt_def iterate_string_list_def sb_okD)
qed

text \<open>A table and the words of a command line, for the examples.\<close>

definition sample :: "cmdline_entry list \<Rightarrow> string list \<Rightarrow> cmdline" where
  "sample es ws =
     \<lparr>cl_preamble = None, cl_vers = None, cl_name = None, cl_pname = None, cl_files = 0,
      cl_args = create_ptr_list\<lparr>pl_buffer := map (\<lambda>e. Val (Some e)) es @ replicate (8 - length es) (Val None),
        pl_len := int (length es)\<rparr>,
      cl_cmds = ws, cl_idx = 0, cl_max = int (length ws)\<rparr>"

lemma sample_rep: "length es \<le> 8 \<Longrightarrow> cl_rep (sample es ws) es"
  by (auto simp: sample_def cl_rep_def pl_rep_def create_ptr_list_def holds_iff_nth nth_append)

lemma sample_fields [simp]:
  "cl_cmds (sample es ws) = ws" "cl_idx (sample es ws) = 0" "cl_max (sample es ws) = int (length ws)"
  by (simp_all add: sample_def)

lemma sample_entries: "length es \<le> 8 \<Longrightarrow> entries_of (sample es ws) = set es"
  by (auto simp: entries_of_def sample_def create_ptr_list_def)

section \<open>Properties\<close>


definition sample_cb :: "unit res \<Rightarrow> cmdline_entry" where
  "sample_cb r = \<lparr>ce_short = 122, ce_long = None, ce_name = None, ce_help = None, ce_value = None,
     ce_cb = Some r, ce_type = CMD_NONE\<rparr>"


text \<open>C34: The ways of giving an option its argument are equivalent: \<open>-cARG\<close>, \<open>-c=ARG\<close>, \<open>-c ARG\<close>,
  \<open>--long=ARG\<close> and \<open>--long ARG\<close> all mark the option as seen, store the same argument in it and
  leave every other entry alone, and each uses up exactly its words.  A list option keeps its
  values, the default among them, and adds the pieces of the argument between colons; any other
  option gets the argument in place of its first value.\<close>

theorem option_forms_agree:
  assumes "option_given cl es e i c l ws" "ws \<in> option_forms c l a" "vals_rep (ce_value e) ds"
    and "nul_free a" "a \<noteq> []" "hd a \<noteq> CHR ''=''" "length a + length ds + 1 < 2 ^ 30"
    and "c \<noteq> CHR ''-''" "CHR ''='' \<notin> set l"
  shows "\<exists>cl'. parse_one cl (hd ws) = Inr cl' \<and> arg_stored cl es e i ws (new_vals (ce_type e) ds a) cl'"
  using assms by (rule parse_one_stores)

text \<open>An output option as the assembler declares it.\<close>

definition sample_opt :: "string_t \<Rightarrow> string_list_t \<Rightarrow> cmdline_entry" where
  "sample_opt s v = \<lparr>ce_short = 111, ce_long = Some s, ce_name = Some s, ce_help = None,
     ce_value = Some v, ce_cb = None, ce_type = CMD_STR OR CMD_ARGS\<rparr>"

lemma sample_opt_given:
  assumes "sb_rep s ''out''" "sl_rep v [''a.bin'']"
  shows "option_given (sample [sample_opt s v] (ws @ ws')) [sample_opt s v] (sample_opt s v) 0 (CHR ''o'') ''out'' ws"
    "vals_rep (ce_value (sample_opt s v)) [''a.bin'']"
proof -
  have s: "the_str s = ''out''" "sb_ok s" using assms(1) the_str_rep sb_rep_str sb_ok_rep by blast+
  then show "option_given (sample [sample_opt s v] (ws @ ws')) [sample_opt s v] (sample_opt s v) 0 (CHR ''o'') ''out'' ws"
    using assms(2) sample_rep [of "[sample_opt s v]"]
    by (auto simp: option_given_def entry_ok_def opt_ok_def vals_rep_def sample_opt_def schar_def has_def)
  show "vals_rep (ce_value (sample_opt s v)) [''a.bin'']"
    using assms(2) by (simp add: vals_rep_def sample_opt_def)
qed

lemma sample_opt_ex:
  obtains s v where "sb_rep s ''out''" "sl_rep v [''a.bin'']"
proof -
  obtain s where s: "sb_rep s ''out''" using create_string_rep [of "''out''"] by auto
  obtain b where "sb_rep b ''a.bin''" using create_string_rep [of "''a.bin''"] by auto
  then obtain v where "sl_rep v [''a.bin'']"
    using append_string_list_rep [OF create_string_list_rep] by fastforce
  with s show thesis using that by blast
qed

theorem option_forms_agree_witness:
  "\<exists>s v cl'. parse_one (sample [sample_opt s v] [''-o'', ''x.bin'', ''f.asm'']) ''-o'' = Inr cl' \<and>
     arg_stored (sample [sample_opt s v] [''-o'', ''x.bin'', ''f.asm'']) [sample_opt s v] (sample_opt s v) 0
       [''-o'', ''x.bin''] [''x.bin''] cl'"
proof -
  obtain s v where r: "sb_rep s ''out''" "sl_rep v [''a.bin'']" by (rule sample_opt_ex)
  have "new_vals (ce_type (sample_opt s v)) [''a.bin''] ''x.bin'' = [''x.bin'']"
    by (simp add: new_vals_def sample_opt_def has_def)
  with option_forms_agree [OF sample_opt_given(1) [OF r, of "[''-o'', ''x.bin'']" "[''f.asm'']"] _
      sample_opt_given(2) [OF r], of "''x.bin''"]
  show ?thesis by (auto simp: option_forms_def)
qed

text \<open>C36: After an option was given an argument in any of its forms, get_cmd_opt finds under the name
  of the option the argument; for a list option it finds the first value of the list, which is the
  default when one was declared: the value given can never replace it.\<close>

theorem given_value_is_read:
  assumes "option_given cl es e i c l ws" "ws \<in> option_forms c l a" "vals_rep (ce_value e) ds"
    and "nul_free a" "a \<noteq> []" "hd a \<noteq> CHR ''=''" "length a + length ds + 1 < 2 ^ 30"
    and "c \<noteq> CHR ''-''" "CHR ''='' \<notin> set l"
    and n: "first (\<lambda>e. map_option the_str (ce_name e) = Some n) es = Some (e, i)"
    and sw: "\<not> has (ce_type e) CMD_SWITCH"
  shows "\<exists>cl' s. parse_one cl (hd ws) = Inr cl' \<and> get_cmd_opt cl' n = Inr (Some s) \<and>
    sb_rep s (if \<not> has (ce_type e) CMD_LIST then a
              else if ds = [] then hd (split_spec (CHR '':'') a) else hd ds)"
proof -
  obtain cl' where cl': "parse_one cl (hd ws) = Inr cl'"
    "arg_stored cl es e i ws (new_vals (ce_type e) ds a) cl'"
    using parse_one_stores [OF assms(1-9)] by blast
  then obtain v where v: "cl_rep cl' (es[nat i := (seen e)\<lparr>ce_value := v\<rparr>])"
    "vals_rep v (new_vals (ce_type e) ds a)" by (auto simp: arg_stored_def)
  let ?e = "(seen e)\<lparr>ce_value := v\<rparr>"
  have "e \<in> set es" using first_SomeD [OF n] by auto
  then have ok: "\<forall>x \<in> set es. entry_ok x" "entry_ok ?e"
    using assms(1) v(2) by (auto simp: option_given_def entry_ok_def)
  have ne: "new_vals (ce_type e) ds a \<noteq> []"
    using split_spec_not_Nil [of "CHR '':''" a] by (simp add: new_vals_def)
  have "\<forall>x \<in> set (es[nat i := ?e]). entry_ok x"
    using ok set_update_subset_insert [of es "nat i" ?e] by auto
  moreover have "first (\<lambda>e. map_option the_str (ce_name e) = Some n) (es[nat i := ?e]) = Some (?e, i)"
    using first_update [OF n] first_SomeD [OF n] by auto
  moreover have "vals_rep (ce_value ?e) (hd (new_vals (ce_type e) ds a) # tl (new_vals (ce_type e) ds a))"
    using v(2) ne by simp
  ultimately obtain s where "get_cmd_opt cl' n = Inr (Some s)" "sb_rep s (hd (new_vals (ce_type e) ds a))"
    using get_cmd_opt_rep [OF v(1)] sw by fastforce
  then show ?thesis using cl'(1) by (auto simp: new_vals_def)
qed

theorem given_value_is_read_witness:
  "\<exists>s v cl' t. parse_one (sample [sample_opt s v] [''--out=x.bin'', ''f.asm'']) ''--out=x.bin'' = Inr cl' \<and>
     get_cmd_opt cl' ''out'' = Inr (Some t) \<and> sb_rep t ''x.bin''"
proof -
  obtain s v where r: "sb_rep s ''out''" "sl_rep v [''a.bin'']" by (rule sample_opt_ex)
  have n: "first (\<lambda>e. map_option the_str (ce_name e) = Some ''out'') [sample_opt s v] = Some (sample_opt s v, 0)"
    using r(1) the_str_rep [OF sb_rep_str] by (auto simp: sample_opt_def)
  have t: "\<not> has (ce_type (sample_opt s v)) CMD_SWITCH" "\<not> has (ce_type (sample_opt s v)) CMD_LIST"
    by (simp_all add: sample_opt_def has_def)
  from given_value_is_read [OF sample_opt_given(1) [OF r, of "[''--out=x.bin'']" "[''f.asm'']"] _
      sample_opt_given(2) [OF r], of "''x.bin''" "''out''", OF _ _ _ _ _ _ _ n t(1)] t(2)
  show ?thesis by (auto simp: option_forms_def)
qed

text \<open>An option that needs an argument and is the last word: the long form prints the help screen
  and ends the process; the short form, whose error message indexes the word that was not found,
  dereferences NULL.\<close>

theorem missing_argument:
  assumes g: "option_given cl es e i c l [w]" and last: "cl_idx cl + 1 = cl_max cl"
    and c: "c \<noteq> CHR ''-''" "CHR ''='' \<notin> set l"
  shows "parse_one cl (''-'' @ [c]) = Inl Null_Deref \<and>
    (\<exists>cl'. parse_one cl (''--'' @ l) = cmdline_help cl')"
proof -
  note d = option_givenD [OF g]
  from d(7) obtain args where p: "put_entry cl i (seen e) = Inr (cl\<lparr>cl_args := args\<rparr>)" by blast
  have "consume_cmd (cl\<lparr>cl_args := args\<rparr>) = Inr (None, cl\<lparr>cl_args := args, cl_idx := cl_idx cl + 1\<rparr>)"
    using last by (simp add: consume_cmd_def get_cmd_def)
  then show ?thesis using d(1,2,5,6) c p
    by (auto simp: parse_one_def parse_short_option.simps [of _ "_ # _"] short_arg_def
        parse_long_option_def c_strchr_None [THEN iffD2])
qed

theorem missing_argument_witness:
  "\<exists>s v. parse_one (sample [sample_opt s v] [''-o'']) ''-o'' = Inl Null_Deref"
proof -
  obtain s v where r: "sb_rep s ''out''" "sl_rep v [''a.bin'']" by (rule sample_opt_ex)
  show ?thesis using missing_argument [OF sample_opt_given(1) [OF r, of "[''-o'']" "[]"]] by auto
qed

text \<open>The word \<open>-\<close>.  The empty option name is taken for the character zero, which selects the
  first entry without a short form (a file list, a divider, an option with a long form only or a
  variable of the environment); unless that entry has a callback, the parser then reads beyond
  the end of the word.\<close>

theorem lone_dash:
  assumes r: "cl_rep cl es" and f: "first (\<lambda>e. ce_short e = 0) es = Some (e, i)" and cb: "ce_cb e = None"
  shows "parse_one cl ''-'' = Inl Out_Of_Bounds"
proof -
  have "get_short_opt cl (schar NUL) = Inr (Some (e, i))"
    using get_short_opt_rep [OF r] f by (simp add: schar_def)
  moreover obtain args where "put_entry cl i (seen e) = Inr (cl\<lparr>cl_args := args\<rparr>)"
    using put_entry_rep [OF r, of i "seen e"] first_SomeD [OF f] by blast
  ultimately show ?thesis using cb
    by (simp add: parse_one_def parse_short_option.simps [of _ "[]"])
qed

theorem lone_dash_witness:
  "parse_one (sample [sample_cb (Inl Fatal_Exit), (sample_cb (Inl Fatal_Exit))\<lparr>ce_short := 0, ce_cb := None\<rparr>]
     [''-'']) ''-'' = Inl Out_Of_Bounds"
  by (rule lone_dash [OF sample_rep, where i = 1 and e = "(sample_cb (Inl Fatal_Exit))\<lparr>ce_short := 0, ce_cb := None\<rparr>"])
    (simp_all add: sample_cb_def)

end
