(* ===== verification/C_Num.thy ===== *)
theory C_Num
  imports C_String
begin

text \<open>
  The number conversions of the C library the program uses: \<^verbatim>\<open>strtol\<close> in bases 10 and 16, which skips
  leading white space, takes a sign and then as many digits as there are, clamps the value to the
  range of long, and the implementation-defined conversion of the result to int (modulo 2^32).
\<close>

definition digit_val :: "char \<Rightarrow> nat option" where
  "digit_val c =
     (if isdigit c then Some (code c - 48)
      else if islower c then Some (code c - 87)
      else if isupper c then Some (code c - 55) else None)"

fun digits_val :: "nat \<Rightarrow> nat \<Rightarrow> string \<Rightarrow> nat" where
  "digits_val base acc [] = acc"
| "digits_val base acc (c # cs) =
     (case digit_val c of
        Some d \<Rightarrow> if d < base then digits_val base (acc * base + d) cs else acc
      | None \<Rightarrow> acc)"

definition clamp_long :: "int \<Rightarrow> int" where
  "clamp_long n = max (- (2 ^ 63)) (min (2 ^ 63 - 1) n)"

text \<open>In base 16 a prefix \<open>0x\<close> before a digit is skipped.\<close>

fun skip_0x :: "nat \<Rightarrow> string \<Rightarrow> string" where
  "skip_0x base (z # x # d # cs) =
     (if base = 16 \<and> z = CHR ''0'' \<and> (x = CHR ''x'' \<or> x = CHR ''X'') \<and>
         (case digit_val d of Some v \<Rightarrow> v < 16 | None \<Rightarrow> False)
      then d # cs else z # x # d # cs)"
| "skip_0x base cs = cs"

definition c_strtol :: "nat \<Rightarrow> string \<Rightarrow> int" where
  "c_strtol base s =
     (let t = dropWhile isspace s in
      case t of
        [] \<Rightarrow> 0
      | c # u \<Rightarrow>
          if c = CHR ''-'' then clamp_long (- int (digits_val base 0 (skip_0x base u)))
          else if c = CHR ''+'' then clamp_long (int (digits_val base 0 (skip_0x base u)))
          else clamp_long (int (digits_val base 0 (skip_0x base t))))"

definition to_int :: "int \<Rightarrow> int" where
  "to_int n = sint (word_of_int n :: 32 word)"

lemma to_int_small [simp]: "INT_MIN \<le> n \<Longrightarrow> n \<le> INT_MAX \<Longrightarrow> to_int n = n"
  unfolding to_int_def by (simp add: sint_sbintrunc' signed_take_bit_int_eq_self)

end
