(* ===== verification/Array.thy ===== *)
theory Array
  imports C_String Comparator
begin

text \<open>
  src/src/common/array.c: the generic array, a block of bytes that holds items of one size.

  The buffer is a block of bytes; the number of bytes is the capacity times the size of an item.
  A \<open>void*\<close> into the buffer is its offset there, which is an int as make_ptr computes it; an item
  that comes from outside is the list of its bytes.  The callback gets the bytes of the two items.
  \<open>exit(1)\<close> of the function error is \<open>Fatal_Exit\<close>, a copy of memcpy between overlapping regions
  \<open>Overlap\<close>; copying no bytes touches nothing.  The two arrays of insert_array and append_array are
  different objects.
\<close>

type_synonym byte = "8 word"

section \<open>memcpy and reading an item\<close>

definition mem_cpy :: "'a cell list \<Rightarrow> int \<Rightarrow> 'a cell list \<Rightarrow> int \<Rightarrow> int \<Rightarrow> 'a cell list res" where
  "mem_cpy b d src s n =
     (if n = 0 then Inr b
      else if 0 \<le> d \<and> 0 \<le> s \<and> 0 \<le> n \<and> d + n \<le> int (length b) \<and> s + n \<le> int (length src)
      then Inr (take (nat d) b @ take (nat n) (drop (nat s) src) @ drop (nat (d + n)) b)
      else Inl Out_Of_Bounds)"

definition mem_cpy_within :: "'a cell list \<Rightarrow> int \<Rightarrow> int \<Rightarrow> int \<Rightarrow> 'a cell list res" where
  "mem_cpy_within b d s n =
     (if 0 < n \<and> \<bar>d - s\<bar> < n \<and> 0 \<le> d \<and> 0 \<le> s \<and> d + n \<le> int (length b) \<and> s + n \<le> int (length b)
      then Inl Overlap else mem_cpy b d b s n)"

lemma mem_cpy_in:
  "s + n \<le> length src \<Longrightarrow> d + n \<le> length b \<Longrightarrow>
   mem_cpy b (int d) src (int s) (int n) = Inr (take d b @ take n (drop s src) @ drop (d + n) b)"
  by (auto simp: mem_cpy_def nat_add_distrib simp flip: of_nat_add)

fun load_n :: "'a cell list \<Rightarrow> int \<Rightarrow> nat \<Rightarrow> 'a list res" where
  "load_n b i 0 = Inr []"
| "load_n b i (Suc n) = rbind (load b i) (\<lambda>x. rbind (load_n b (i + 1) n) (\<lambda>xs. Inr (x # xs)))"

section \<open>The array\<close>

record array =
  arr_buffer :: "byte cell list"
  arr_capacity :: int
  arr_length :: int
  arr_size :: int
  arr_comp :: "(byte list \<Rightarrow> byte list \<Rightarrow> int res) option"
  arr_sorted :: bool

definition normalize_read_index :: "array \<Rightarrow> int \<Rightarrow> int res" where
  "normalize_read_index a index =
     (if index < 0 then (if index = - 1 then chk (arr_length a - 1) else chk (arr_length a + index))
      else if index \<le> arr_length a then Inr index else Inl Fatal_Exit)"

definition normalize_write_index :: "array \<Rightarrow> int \<Rightarrow> int res" where
  "normalize_write_index a index =
     (if index < 0 then (if index = - 1 then Inr (arr_length a) else chk (arr_length a + (index + 1)))
      else if index \<le> arr_length a then Inr index else Inl Fatal_Exit)"

definition byte_offset :: "array \<Rightarrow> int \<Rightarrow> int res" where
  "byte_offset a index = chk (arr_size a * index)"

definition make_ptr :: "array \<Rightarrow> int \<Rightarrow> int res" where
  "make_ptr a index = byte_offset a index"

text \<open>A negative number of bytes is a huge unsigned one, with which allocation ends the process.\<close>

definition byte_count :: "int \<Rightarrow> nat res" where
  "byte_count n = rbind (chk n) (\<lambda>n. if n < 0 then Inl Fatal_Exit else Inr (nat n))"

definition arr_resize :: "array \<Rightarrow> int \<Rightarrow> array res" where
  "arr_resize a k =
     rbind (chk (arr_length a + k)) (\<lambda>need.
     if arr_capacity a < need
     then rbind (grow_cap need (arr_capacity a)) (\<lambda>c.
          rbind (byte_count (arr_size a * c)) (\<lambda>n.
          Inr (a\<lparr>arr_capacity := c, arr_buffer := blk_realloc (arr_buffer a) n\<rparr>)))
     else Inr a)"

definition tail_length :: "array \<Rightarrow> int \<Rightarrow> int res" where
  "tail_length a index = rbind (chk (arr_length a - index)) (\<lambda>n. chk (n * arr_size a))"

text \<open>The size is given as \<open>size_t\<close> and stored in an int.\<close>

definition create_array :: "nat \<Rightarrow> (byte list \<Rightarrow> byte list \<Rightarrow> int res) option \<Rightarrow> array res" where
  "create_array n_bytes cmp =
     (let sz = (int n_bytes + 2 ^ 31) mod 2 ^ 32 - 2 ^ 31 in
      rbind (byte_count (8 * sz)) (\<lambda>n.
      Inr \<lparr>arr_buffer = blk_alloc n 0, arr_capacity = 8, arr_length = 0, arr_size = sz,
           arr_comp = cmp, arr_sorted = False\<rparr>))"

datatype array_ptr = No_Array | Array array | Freed_Array

fun destroy_array :: "array_ptr \<Rightarrow> array_ptr res" where
  "destroy_array No_Array = Inr No_Array"
| "destroy_array (Array a) = Inr Freed_Array"
| "destroy_array Freed_Array = Inl Use_After_Free"

definition len_array :: "array \<Rightarrow> int" where
  "len_array a = arr_length a"

definition raw_array :: "array \<Rightarrow> byte cell list" where
  "raw_array a = arr_buffer a"

definition insert_array :: "array \<Rightarrow> array \<Rightarrow> int \<Rightarrow> array res" where
  "insert_array dest src index =
     rbind (normalize_write_index dest index) (\<lambda>idx.
     rbind (arr_resize dest (arr_length src)) (\<lambda>dest.
     rbind (chk (idx + arr_length src)) (\<lambda>j.
     rbind (make_ptr dest j) (\<lambda>d.
     rbind (make_ptr dest idx) (\<lambda>p.
     rbind (tail_length dest idx) (\<lambda>n.
     rbind (mem_move (arr_buffer dest) d p n) (\<lambda>b.
     rbind (make_ptr src 0) (\<lambda>s.
     rbind (tail_length src 0) (\<lambda>m.
     rbind (mem_cpy b p (arr_buffer src) s m) (\<lambda>b.
     rbind (chk (arr_length dest + arr_length src)) (\<lambda>l.
     Inr (dest\<lparr>arr_buffer := b, arr_length := l, arr_sorted := False\<rparr>))))))))))))"

definition append_array :: "array \<Rightarrow> array \<Rightarrow> array res" where
  "append_array dest src =
     rbind (arr_resize dest (arr_length src)) (\<lambda>dest.
     rbind (make_ptr dest (arr_length dest)) (\<lambda>d.
     rbind (make_ptr src 0) (\<lambda>s.
     rbind (tail_length src 0) (\<lambda>m.
     rbind (mem_cpy (arr_buffer dest) d (arr_buffer src) s m) (\<lambda>b.
     rbind (chk (arr_length dest + arr_length src)) (\<lambda>l.
     Inr (dest\<lparr>arr_buffer := b, arr_length := l, arr_sorted := False\<rparr>)))))))"

definition clear_array :: "array \<Rightarrow> array res" where
  "clear_array a =
     rbind (byte_count (arr_size a * 8)) (\<lambda>n.
     Inr (a\<lparr>arr_length := 0, arr_capacity := 8, arr_buffer := blk_realloc (arr_buffer a) n,
            arr_sorted := False\<rparr>))"

definition append_array_data :: "array \<Rightarrow> byte list \<Rightarrow> array res" where
  "append_array_data a data =
     rbind (arr_resize a 1) (\<lambda>a.
     rbind (make_ptr a (arr_length a)) (\<lambda>d.
     rbind (mem_cpy (arr_buffer a) d (map Val data) 0 (arr_size a)) (\<lambda>b.
     rbind (chk (arr_length a + 1)) (\<lambda>l.
     Inr (a\<lparr>arr_buffer := b, arr_length := l, arr_sorted := False\<rparr>)))))"

definition delete_array_data :: "array \<Rightarrow> int \<Rightarrow> array res" where
  "delete_array_data a index =
     rbind (normalize_write_index a index) (\<lambda>idx.
     rbind (make_ptr a idx) (\<lambda>d.
     rbind (chk (idx + 1)) (\<lambda>j.
     rbind (make_ptr a j) (\<lambda>s.
     rbind (tail_length a idx) (\<lambda>n.
     rbind (mem_cpy_within (arr_buffer a) d s n) (\<lambda>b.
     rbind (chk (arr_length a - 1)) (\<lambda>l.
     Inr (a\<lparr>arr_buffer := b, arr_length := l, arr_sorted := False\<rparr>))))))))"

definition insert_array_data :: "array \<Rightarrow> byte list \<Rightarrow> int \<Rightarrow> array res" where
  "insert_array_data a data index =
     rbind (normalize_write_index a index) (\<lambda>idx.
     rbind (arr_resize a 1) (\<lambda>a.
     rbind (chk (idx + 1)) (\<lambda>j.
     rbind (make_ptr a j) (\<lambda>d.
     rbind (make_ptr a idx) (\<lambda>p.
     rbind (tail_length a idx) (\<lambda>n.
     rbind (mem_move (arr_buffer a) d p n) (\<lambda>b.
     rbind (mem_cpy b p (map Val data) 0 (arr_size a)) (\<lambda>b.
     rbind (chk (arr_length a + 1)) (\<lambda>l.
     Inr (a\<lparr>arr_buffer := b, arr_length := l, arr_sorted := False\<rparr>))))))))))"

text \<open>The pointers returned; \<open>None\<close> is NULL.\<close>

definition index_array_data :: "array \<Rightarrow> int \<Rightarrow> int option res" where
  "index_array_data a index =
     (if 0 < len_array a
      then rbind (normalize_read_index a index) (\<lambda>idx. rbind (make_ptr a idx) (\<lambda>p. Inr (Some p)))
      else Inr None)"

definition iterate_array_data :: "array \<Rightarrow> int \<Rightarrow> (int option \<times> int) res" where
  "iterate_array_data a post =
     (if post < arr_length a
      then rbind (index_array_data a post) (\<lambda>retv. rbind (chk (post + 1)) (\<lambda>p. Inr (retv, p)))
      else Inr (None, post))"

text \<open>Reading the item behind a pointer, as the callers and the callback do.\<close>

definition item_at :: "array \<Rightarrow> int \<Rightarrow> byte list res" where
  "item_at a p = load_n (arr_buffer a) p (nat (arr_size a))"

definition swap_array_data :: "array \<Rightarrow> int \<Rightarrow> int \<Rightarrow> array res" where
  "swap_array_data a idx1 idx2 =
     rbind (normalize_read_index a idx1) (\<lambda>i1.
     rbind (normalize_read_index a idx2) (\<lambda>i2.
     rbind (byte_count (arr_size a)) (\<lambda>n.
     rbind (make_ptr a i1) (\<lambda>p1.
     rbind (make_ptr a i2) (\<lambda>p2.
     rbind (mem_cpy (blk_alloc n 0) 0 (arr_buffer a) p1 (arr_size a)) (\<lambda>tmp.
     rbind (mem_cpy_within (arr_buffer a) p1 p2 (arr_size a)) (\<lambda>b.
     rbind (mem_cpy b p2 tmp 0 (arr_size a)) (\<lambda>b.
     Inr (a\<lparr>arr_buffer := b, arr_sorted := False\<rparr>)))))))))"

definition comp_at :: "array \<Rightarrow> byte list \<Rightarrow> byte list \<Rightarrow> int res" where
  "comp_at a x y = (case arr_comp a of None \<Rightarrow> Inl Null_Deref | Some f \<Rightarrow> f x y)"

definition sort_array_step :: "int \<Rightarrow> array \<Rightarrow> array res" where
  "sort_array_step i a =
     rbind (make_ptr a i) (\<lambda>p.
     rbind (make_ptr a (i + 1)) (\<lambda>q.
     rbind (item_at a p) (\<lambda>x.
     rbind (item_at a q) (\<lambda>y.
     rbind (comp_at a x y) (\<lambda>c.
     if 0 < c then swap_array_data a i (i + 1) else Inr a)))))"

definition sort_array :: "array \<Rightarrow> array res" where
  "sort_array a =
     rbind (for_loop (\<lambda>step. for_loop sort_array_step 0 (arr_length a - step - 1))
              0 (arr_length a - 1) a) (\<lambda>a.
     Inr (a\<lparr>arr_sorted := True\<rparr>))"

text \<open>The search sorts the array first when it is not known to be sorted.\<close>

definition find_array_index :: "array \<Rightarrow> byte list \<Rightarrow> (int \<times> array) res" where
  "find_array_index a key =
     (if arr_comp a = None then Inr (- 1, a)
      else
        rbind (if arr_sorted a then Inr a else sort_array a) (\<lambda>a.
        rbind (bin_search (comp_at a) (\<lambda>mid. rbind (make_ptr a mid) (item_at a)) key 0 (arr_length a - 1)) (\<lambda>r.
        Inr (r, a))))"

definition find_array :: "array \<Rightarrow> byte list \<Rightarrow> (int option \<times> array) res" where
  "find_array a key =
     rbind (find_array_index a key) (\<lambda>(idx, a).
     if 0 \<le> idx then rbind (index_array_data a idx) (\<lambda>p. Inr (p, a)) else Inr (None, a))"

definition push_array :: "array \<Rightarrow> byte list \<Rightarrow> array res" where
  "push_array a data = append_array_data a data"

definition pop_array :: "array \<Rightarrow> (int option \<times> array) res" where
  "pop_array a =
     (if 0 < arr_length a
      then Inr (Some (arr_length a - 1), a\<lparr>arr_length := arr_length a - 1\<rparr>) else Inr (None, a))"

definition peek_array :: "array \<Rightarrow> int option" where
  "peek_array a = (if 0 < arr_length a then Some (arr_length a - 1) else None)"

section \<open>Representation\<close>

text \<open>\<open>arr_rep a k xs\<close>: the array holds the items \<open>xs\<close>, all of \<open>k\<close> bytes.\<close>

definition arr_rep :: "array \<Rightarrow> nat \<Rightarrow> byte list list \<Rightarrow> bool" where
  "arr_rep a k xs \<longleftrightarrow>
     0 < k \<and> arr_size a = int k \<and> (\<forall>x \<in> set xs. length x = k) \<and> arr_length a = int (length xs) \<and>
     cap_ok (arr_capacity a) \<and> int (length (arr_buffer a)) = int k * arr_capacity a \<and>
     int k * arr_capacity a \<le> INT_MAX \<and> holds (arr_buffer a) (concat xs)"

lemma arr_repD:
  assumes "arr_rep a k xs"
  shows "0 < k" "arr_size a = int k" "\<forall>x \<in> set xs. length x = k" "arr_length a = int (length xs)"
    "cap_ok (arr_capacity a)" "int (length (arr_buffer a)) = int k * arr_capacity a"
    "int k * arr_capacity a \<le> INT_MAX" "holds (arr_buffer a) (concat xs)"
  using assms by (auto simp: arr_rep_def)

lemma length_concat_uniform: "\<forall>x \<in> set xs. length x = k \<Longrightarrow> length (concat xs) = k * length xs"
  by (induction xs) auto

lemma take_concat_uniform: "\<forall>x \<in> set xs. length x = k \<Longrightarrow> take (k * i) (concat xs) = concat (take i xs)"
proof (induction xs arbitrary: i)
  case (Cons x xs)
  then show ?case by (cases i) auto
qed simp

lemma drop_concat_uniform: "\<forall>x \<in> set xs. length x = k \<Longrightarrow> drop (k * i) (concat xs) = concat (drop i xs)"
proof (induction xs arbitrary: i)
  case (Cons x xs)
  then show ?case by (cases i) auto
qed simp

lemma arr_rep_fits:
  assumes "arr_rep a k xs"
  shows "int (length xs) \<le> arr_capacity a" "arr_capacity a \<le> 1073741824"
proof -
  note r = arr_repD [OF assms]
  have "int k * int (length xs) \<le> int k * arr_capacity a"
    using holds_length [OF r(8)] r(6) length_concat_uniform [OF r(3)] by (metis of_nat_le_iff of_nat_mult)
  then show "int (length xs) \<le> arr_capacity a" using r(1) by simp
  show "arr_capacity a \<le> 1073741824" using cap_ok_bounds [OF r(5)] by simp
qed

lemma offset_chk:
  assumes a: "arr_rep a k xs" and i: "0 \<le> i" "i \<le> arr_capacity a"
  shows "chk (int k * i) = Inr (int k * i)" "0 \<le> int k * i"
proof -
  have "int k * i \<le> int k * arr_capacity a" using i(2) by (rule mult_left_mono) simp
  then have "int k * i \<le> INT_MAX" using arr_repD(7) [OF a] by linarith
  moreover show "0 \<le> int k * i" using i(1) by simp
  ultimately show "chk (int k * i) = Inr (int k * i)" by (intro chk_ok) linarith+
qed

lemma make_ptr_rep: "arr_rep a k xs \<Longrightarrow> 0 \<le> i \<Longrightarrow> i \<le> arr_capacity a \<Longrightarrow> make_ptr a i = Inr (int k * i)"
  by (simp add: make_ptr_def byte_offset_def arr_repD(2) offset_chk(1))

lemma tail_length_rep:
  assumes "arr_rep a k xs" "0 \<le> i" "i \<le> arr_length a"
  shows "tail_length a i = Inr (int k * (int (length xs) - i))"
proof -
  note r = arr_repD [OF assms(1)]
  have n: "int (length xs) - i \<le> arr_capacity a" "0 \<le> int (length xs) - i"
    using assms arr_rep_fits [OF assms(1)] r(4) by auto
  then have "chk (int (length xs) - i) = Inr (int (length xs) - i)"
    using arr_rep_fits(2) [OF assms(1)] by (intro chk_ok) linarith+
  then show ?thesis using offset_chk(1) [OF assms(1) n(2,1)]
    by (simp add: tail_length_def r(2,4) mult.commute)
qed

text \<open>Growing, when the bytes fit into an int.\<close>

lemma arr_resize_rep:
  assumes a: "arr_rep a k xs" and n: "0 \<le> n" "2 * int k * (int (length xs) + n) \<le> INT_MAX"
  shows "\<exists>a'. arr_resize a n = Inr a' \<and> arr_rep a' k xs \<and> int (length xs) + n \<le> arr_capacity a' \<and>
    arr_comp a' = arr_comp a"
proof -
  note r = arr_repD [OF a]
  have "int (length xs) + n \<le> int k * (int (length xs) + n)" using r(1) n(1) by (simp add: mult_le_cancel_right1)
  then have need: "int (length xs) + n \<le> 2 ^ 30" using n by (simp add: algebra_simps)
  show ?thesis
  proof (cases "arr_capacity a < int (length xs) + n")
    case False
    then show ?thesis using a r need n by (auto simp: arr_resize_def)
  next
    case True
    obtain c where c: "grow_cap (int (length xs) + n) (arr_capacity a) = Inr c" "cap_ok c"
      "int (length xs) + n \<le> c" "arr_capacity a \<le> c" "c = arr_capacity a \<or> c < 2 * (int (length xs) + n)"
      using grow_cap_ok [OF r(5) need] by blast
    have "c < 2 * (int (length xs) + n)" using c True by auto
    then have "int k * c \<le> int k * (2 * (int (length xs) + n))" using r(1) by simp
    then have kc: "int k * c \<le> INT_MAX" "0 \<le> int k * c" using n cap_ok_bounds [OF c(2)] by (simp_all add: algebra_simps)
    have len: "length (concat xs) \<le> nat (int k * c)"
      using holds_length [OF r(8)] r(6) mult_left_mono [OF c(4), of "int k"] by linarith
    then have "arr_rep (a\<lparr>arr_capacity := c, arr_buffer := blk_realloc (arr_buffer a) (nat (int k * c))\<rparr>) k xs"
      using r c kc holds_realloc [OF r(8) len] by (auto simp: arr_rep_def)
    moreover have "arr_resize a n =
        Inr (a\<lparr>arr_capacity := c, arr_buffer := blk_realloc (arr_buffer a) (nat (int k * c))\<rparr>)"
      using True c(1) r(2,4) kc need n(1) chk_ok [of "int k * c"] by (simp add: arr_resize_def byte_count_def)
    ultimately show ?thesis using c(3) by auto
  qed
qed

text \<open>Inserting a run of cells at an offset: the tail moves up, then the run is copied.\<close>

lemma holds_drop_take: "holds b (xs @ ys) \<Longrightarrow> take (length ys) (drop (length xs) b) = map Val ys"
  using iffD1 [OF holds_append_iff, of b xs ys] by (simp add: holds_def)

lemma insert_run:
  assumes b: "holds b (us @ ws)" and src: "holds src vs" and n: "length us + length vs + length ws \<le> length b"
  shows "\<exists>b1 b2. mem_move b (int (length us) + int (length vs)) (int (length us)) (int (length ws)) = Inr b1 \<and>
    mem_cpy b1 (int (length us)) src 0 (int (length vs)) = Inr b2 \<and>
    holds b2 (us @ vs @ ws) \<and> length b2 = length b"
proof -
  let ?d = "length us + length vs"
  let ?b1 = "take ?d b @ map Val ws @ drop (?d + length ws) b"
  have "mem_move b (int ?d) (int (length us)) (int (length ws)) = Inr ?b1"
    using n holds_drop_take [OF b] by (subst mem_move_in) auto
  moreover have src': "length vs \<le> length src" "take (length vs) src = map Val vs"
    using src holds_length by (auto simp: holds_def)
  have us: "take (length us) b = map Val us"
    using iffD1 [OF holds_append_iff b] by (simp add: holds_def)
  let ?b2 = "map Val us @ map Val vs @ map Val ws @ drop (?d + length ws) b"
  have "mem_cpy ?b1 (int (length us)) src 0 (int (length vs)) = Inr ?b2"
    using n src' us mem_cpy_in [of 0 "length vs" src "length us" ?b1] by (simp add: min_absorb2)
  moreover have "holds ?b2 (us @ vs @ ws)" "length ?b2 = length b" using n by (auto simp: holds_def)
  ultimately show ?thesis by auto
qed

lemma copy_run:
  assumes b: "holds b us" and src: "holds src vs" and n: "length us + length vs \<le> length b"
  shows "\<exists>b'. mem_cpy b (int (length us)) src 0 (int (length vs)) = Inr b' \<and>
    holds b' (us @ vs) \<and> length b' = length b"
proof -
  have src': "length vs \<le> length src" "take (length vs) src = map Val vs"
    using src holds_length by (auto simp: holds_def)
  then have "mem_cpy b (int (length us)) src 0 (int (length vs)) =
      Inr (map Val us @ map Val vs @ drop (length us + length vs) b)"
    using b n mem_cpy_in [of 0 "length vs" src "length us" b] by (simp add: holds_def)
  then show ?thesis using n by (simp add: holds_def)
qed

section \<open>The operations on the represented list\<close>

lemma write_index_rep:
  assumes "arr_rep a k xs" "- int (length xs) - 1 \<le> i" "i \<le> int (length xs)"
  shows "normalize_write_index a i = Inr (if i < 0 then int (length xs) + i + 1 else i)"
  using assms arr_repD(4) [OF assms(1)] arr_rep_fits [OF assms(1)]
  by (auto simp: normalize_write_index_def)

lemma arr_repI:
  assumes "arr_rep a k xs" "\<forall>x \<in> set ys. length x = k" "length b = length (arr_buffer a)" "holds b (concat ys)"
    "l = int (length ys)"
  shows "arr_rep (a\<lparr>arr_buffer := b, arr_length := l, arr_sorted := False\<rparr>) k ys"
  using assms by (simp add: arr_rep_def)

lemma concat_take_drop: "concat (take i xs) @ concat (drop i xs) = concat xs"
  by (metis append_take_drop_id concat_append)

text \<open>Items written before the position \<open>i\<close>, shared by all functions that add items.\<close>

lemma insert_items:
  assumes a: "arr_rep a k xs" and ys: "\<forall>y \<in> set ys. length y = k" and i: "i \<le> length xs"
    and cap: "int (length xs) + int (length ys) \<le> arr_capacity a" and src: "holds src (concat ys)"
  shows "\<exists>b1 b2. mem_move (arr_buffer a) (int k * (int i + int (length ys))) (int k * int i)
      (int k * (int (length xs) - int i)) = Inr b1 \<and>
    mem_cpy b1 (int k * int i) src 0 (int k * int (length ys)) = Inr b2 \<and>
    length b2 = length (arr_buffer a) \<and> holds b2 (concat (take i xs @ ys @ drop i xs))"
proof -
  note r = arr_repD [OF a]
  let ?us = "concat (take i xs)" and ?ws = "concat (drop i xs)"
  have u: "\<forall>x \<in> set (take i xs). length x = k" "\<forall>x \<in> set (drop i xs). length x = k"
    using r(3) by (auto dest: in_set_takeD in_set_dropD)
  have len: "length ?us = k * i" "length ?ws = k * (length xs - i)" "length (concat ys) = k * length ys"
    using length_concat_uniform [OF u(1)] length_concat_uniform [OF u(2)] length_concat_uniform [OF ys] i by auto
  have "int k * (int (length xs) + int (length ys)) \<le> int (length (arr_buffer a))"
    unfolding r(6) using cap by (rule mult_left_mono) simp
  then have "k * (length xs + length ys) \<le> length (arr_buffer a)"
    by (metis of_nat_add of_nat_mult of_nat_le_iff)
  moreover have "k * length xs = k * i + k * (length xs - i)"
    using i by (simp flip: add_mult_distrib2)
  ultimately have n: "length ?us + length (concat ys) + length ?ws \<le> length (arr_buffer a)"
    unfolding len add_mult_distrib2 by linarith
  have h: "holds (arr_buffer a) (?us @ ?ws)" using r(8) by (simp add: concat_take_drop)
  have e: "int (k * i) = int k * int i" "int (k * length ys) = int k * int (length ys)"
    "int (k * (length xs - i)) = int k * (int (length xs) - int i)"
    using i by (simp_all add: of_nat_diff)
  from insert_run [OF h src n] show ?thesis
    by (simp add: len e distrib_left conj_commute del: of_nat_mult)
qed

lemma insert_array_data_rep:
  assumes a: "arr_rep a k xs" and d: "length d = k" and i: "i \<le> length xs"
    and n: "2 * int k * (int (length xs) + 1) \<le> INT_MAX" and j: "normalize_write_index a j = Inr (int i)"
  shows "\<exists>a'. insert_array_data a d j = Inr a' \<and> arr_rep a' k (take i xs @ d # drop i xs)"
proof -
  obtain a1 where a1: "arr_resize a 1 = Inr a1" "arr_rep a1 k xs" "int (length xs) + 1 \<le> arr_capacity a1"
    using arr_resize_rep [OF a, of 1] n by auto
  note r = arr_repD [OF a1(2)] and fits = arr_rep_fits [OF a1(2)]
  have src: "holds (map Val d) (concat [d])" by (simp add: holds_def)
  obtain b1 b2 where b: "mem_move (arr_buffer a1) (int k * (int i + 1)) (int k * int i)
      (int k * (int (length xs) - int i)) = Inr b1" "mem_cpy b1 (int k * int i) (map Val d) 0 (int k) = Inr b2"
    "length b2 = length (arr_buffer a1)" "holds b2 (concat (take i xs @ [d] @ drop i xs))"
    using insert_items [OF a1(2) _ i _ src] d a1(3) by auto
  have p: "make_ptr a1 (int i + 1) = Inr (int k * (int i + 1))" "make_ptr a1 (int i) = Inr (int k * int i)"
    "tail_length a1 (int i) = Inr (int k * (int (length xs) - int i))"
    using make_ptr_rep [OF a1(2)] tail_length_rep [OF a1(2)] i r(4) a1(3) by auto
  have c: "chk (int i + 1) = Inr (int i + 1)" "chk (arr_length a1 + 1) = Inr (int (length xs) + 1)"
    using i a1(3) fits r(4) by auto
  have "arr_rep (a1\<lparr>arr_buffer := b2, arr_length := int (length xs) + 1, arr_sorted := False\<rparr>) k
      (take i xs @ d # drop i xs)"
    using d r(3) b(3,4) i
    by (intro arr_repI [OF a1(2)]) (auto dest: in_set_takeD in_set_dropD)
  then show ?thesis
    by (intro exI conjI) (simp_all only: insert_array_data_def j a1(1) p c b(1,2) r(2) rbind_Inr)
qed

lemma append_array_data_rep:
  assumes a: "arr_rep a k xs" and d: "length d = k" and n: "2 * int k * (int (length xs) + 1) \<le> INT_MAX"
  shows "\<exists>a'. append_array_data a d = Inr a' \<and> arr_rep a' k (xs @ [d]) \<and> arr_comp a' = arr_comp a"
proof -
  obtain a1 where a1: "arr_resize a 1 = Inr a1" "arr_rep a1 k xs" "int (length xs) + 1 \<le> arr_capacity a1"
    "arr_comp a1 = arr_comp a"
    using arr_resize_rep [OF a, of 1] n by auto
  note r = arr_repD [OF a1(2)] and fits = arr_rep_fits [OF a1(2)]
  have src: "holds (map Val d) (concat [d])" by (simp add: holds_def)
  obtain b1 b where "mem_cpy b1 (int k * int (length xs)) (map Val d) 0 (int k) = Inr b" 
    and b1: "mem_move (arr_buffer a1) (int k * (int (length xs) + 1)) (int k * int (length xs)) 0 = Inr b1"
    and b: "length b = length (arr_buffer a1)" "holds b (concat (xs @ [d]))"
    using insert_items [OF a1(2) _ order_refl _ src] d a1(3) by auto
  moreover have "b1 = arr_buffer a1" using b1 by (auto simp: mem_move_def split: if_splits)
  ultimately have c: "mem_cpy (arr_buffer a1) (int k * int (length xs)) (map Val d) 0 (int k) = Inr b" by simp
  have p: "make_ptr a1 (arr_length a1) = Inr (int k * int (length xs))"
    "chk (arr_length a1 + 1) = Inr (int (length xs) + 1)"
    using make_ptr_rep [OF a1(2)] r(4) a1(3) fits by auto
  have "arr_rep (a1\<lparr>arr_buffer := b, arr_length := int (length xs) + 1, arr_sorted := False\<rparr>) k (xs @ [d])"
    using d r(3) b by (intro arr_repI [OF a1(2)]) auto
  then show ?thesis using a1(1,4) p c r(2) by (simp add: append_array_data_def)
qed

lemma insert_array_rep:
  assumes a: "arr_rep a k xs" and s: "arr_rep s k ys" and i: "i \<le> length xs"
    and n: "2 * int k * (int (length xs) + int (length ys)) \<le> INT_MAX"
    and j: "normalize_write_index a j = Inr (int i)"
  shows "\<exists>a'. insert_array a s j = Inr a' \<and> arr_rep a' k (take i xs @ ys @ drop i xs)"
proof -
  note rs = arr_repD [OF s]
  obtain a1 where a1: "arr_resize a (arr_length s) = Inr a1" "arr_rep a1 k xs"
    "int (length xs) + int (length ys) \<le> arr_capacity a1"
    using arr_resize_rep [OF a, of "int (length ys)"] n rs(4) by auto
  note r = arr_repD [OF a1(2)] and fits = arr_rep_fits [OF a1(2)]
  obtain b1 b2 where b: "mem_move (arr_buffer a1) (int k * (int i + int (length ys))) (int k * int i)
      (int k * (int (length xs) - int i)) = Inr b1"
    "mem_cpy b1 (int k * int i) (arr_buffer s) 0 (int k * int (length ys)) = Inr b2"
    "length b2 = length (arr_buffer a1)" "holds b2 (concat (take i xs @ ys @ drop i xs))"
    using insert_items [OF a1(2) rs(3) i a1(3) rs(8)] by auto
  have p: "make_ptr a1 (int i + int (length ys)) = Inr (int k * (int i + int (length ys)))"
    "make_ptr a1 (int i) = Inr (int k * int i)"
    "tail_length a1 (int i) = Inr (int k * (int (length xs) - int i))"
    "make_ptr s 0 = Inr 0" "tail_length s 0 = Inr (int k * int (length ys))"
    using make_ptr_rep [OF a1(2)] tail_length_rep [OF a1(2)] i r(4) a1(3)
      make_ptr_rep [OF s, of 0] tail_length_rep [OF s, of 0] rs(4) arr_rep_fits(1) [OF s] by auto
  have c: "chk (int i + arr_length s) = Inr (int i + int (length ys))"
    "chk (arr_length a1 + arr_length s) = Inr (int (length xs) + int (length ys))"
    using i a1(3) fits r(4) rs(4) by auto
  have "arr_rep (a1\<lparr>arr_buffer := b2, arr_length := int (length xs) + int (length ys), arr_sorted := False\<rparr>) k
      (take i xs @ ys @ drop i xs)"
    using rs(3) r(3) b(3,4) i
    by (intro arr_repI [OF a1(2)]) (auto dest: in_set_takeD in_set_dropD)
  then show ?thesis
    by (intro exI conjI) (simp_all only: insert_array_def j a1(1) p c b(1,2) rbind_Inr)
qed

lemma load_n_holds:
  "holds b xs \<Longrightarrow> i + n \<le> length xs \<Longrightarrow> load_n b (int i) n = Inr (take n (drop i xs))"
proof (induction n arbitrary: i)
  case (Suc n)
  have "load_n b (int i + 1) n = Inr (take n (drop (Suc i) xs))"
    using Suc.IH [of "Suc i"] Suc.prems by (simp add: add.commute)
  moreover have "drop i xs = xs ! i # drop (Suc i) xs" using Suc.prems by (simp add: Cons_nth_drop_Suc)
  ultimately show ?case using Suc.prems load_holds [OF Suc.prems(1), of "int i"] by simp
qed simp

lemma item_at_rep:
  assumes a: "arr_rep a k xs" and i: "i < length xs"
  shows "item_at a (int k * int i) = Inr (xs ! i)"
proof -
  note r = arr_repD [OF a]
  have "k * i + k \<le> k * length xs" using i by (metis Suc_leI mult_Suc_right mult_le_mono2 add.commute)
  then have "load_n (arr_buffer a) (int (k * i)) k = Inr (take k (drop (k * i) (concat xs)))"
    using length_concat_uniform [OF r(3)] by (intro load_n_holds [OF r(8)]) simp
  moreover have "drop (k * i) (concat xs) = xs ! i @ concat (drop (Suc i) xs)"
    using drop_concat_uniform [OF r(3)] i by (simp flip: Cons_nth_drop_Suc)
  ultimately show ?thesis using r(2,3) i by (simp add: item_at_def)
qed

lemma index_array_data_rep:
  assumes a: "arr_rep a k xs" and i: "i < length xs"
  shows "index_array_data a (int i) = Inr (Some (int k * int i))"
    "index_array_data a (int i - int (length xs)) = Inr (Some (int k * int i))"
proof -
  note r = arr_repD(4) [OF a] and fits = arr_rep_fits [OF a]
  have p: "make_ptr a (int i) = Inr (int k * int i)" using make_ptr_rep [OF a] i fits by simp
  have "normalize_read_index a (int i) = Inr (int i)" "normalize_read_index a (int i - int (length xs)) = Inr (int i)"
    using i fits r by (auto simp: normalize_read_index_def chk_def)
  then show "index_array_data a (int i) = Inr (Some (int k * int i))"
    "index_array_data a (int i - int (length xs)) = Inr (Some (int k * int i))"
    using p i r by (auto simp: index_array_data_def len_array_def)
qed

section \<open>Swapping, sorting and searching\<close>

lemma mult_slot_le: "i < (n::nat) \<Longrightarrow> k * i + k \<le> k * n"
  by (metis Suc_leI mult_Suc_right mult_le_mono2 add.commute)

text \<open>Copying one item over another one.\<close>

lemma put_item:
  assumes b: "holds b (concat xs)" "\<forall>x \<in> set xs. length x = k" "i < length xs" "length d = k"
    and src: "take k (drop s src) = map Val d" "s + k \<le> length src"
  shows "\<exists>b'. mem_cpy b (int (k * i)) src (int s) (int k) = Inr b' \<and> length b' = length b \<and>
    holds b' (concat (xs[i := d]))"
proof -
  have n: "k * i + k \<le> length b"
    using holds_length [OF b(1)] length_concat_uniform [OF b(2)] mult_slot_le [OF b(3), of k] by linarith
  have "xs = take i xs @ xs ! i # drop (Suc i) xs" using b(3) by (rule id_take_nth_drop)
  then have "concat xs = concat (take i xs) @ xs ! i @ concat (drop (Suc i) xs)"
    by (metis concat.simps(2) concat_append)
  then have h: "holds b (concat (take i xs) @ xs ! i @ concat (drop (Suc i) xs))" using b(1) by simp
  have l: "length (concat (take i xs)) = k * i" "length (xs ! i) = k"
    using b(2,3) length_concat_uniform [of "take i xs" k] by (auto dest: in_set_takeD)
  have hd: "take (k * i) b = map Val (concat (take i xs))"
    and tl: "take (length (concat (drop (Suc i) xs))) (drop (k * i + k) b) = map Val (concat (drop (Suc i) xs))"
    using iffD1 [OF holds_append_iff h] l holds_append_iff [of "drop (k * i) b" "xs ! i"]
    by (auto simp: holds_def add.commute)
  let ?b = "take (k * i) b @ map Val d @ drop (k * i + k) b"
  have "mem_cpy b (int (k * i)) src (int s) (int k) = Inr ?b" using mem_cpy_in [OF src(2) n] src(1) by simp
  moreover have "holds ?b (concat (take i xs) @ d @ concat (drop (Suc i) xs))"
    using hd tl l b(4) n by (simp add: holds_def del: map_append) simp
  moreover have "concat (xs[i := d]) = concat (take i xs) @ d @ concat (drop (Suc i) xs)"
    using b(3) by (simp add: upd_conv_take_nth_drop)
  ultimately show ?thesis using n b(4) by auto
qed

lemma slot_cells:
  assumes "holds b (concat xs)" "\<forall>x \<in> set xs. length x = k" "i < length xs"
  shows "take k (drop (k * i) b) = map Val (xs ! i)" "k * i + k \<le> length b"
proof -
  show n: "k * i + k \<le> length b"
    using holds_length [OF assms(1)] length_concat_uniform [OF assms(2)] mult_slot_le [OF assms(3), of k] by linarith
  have "drop (k * i) (take (k * length xs) b) = map Val (drop (k * i) (concat xs))"
    using assms(1) length_concat_uniform [OF assms(2)] by (simp add: holds_def drop_map)
  moreover have "drop (k * i) (concat xs) = xs ! i @ concat (drop (Suc i) xs)"
    using drop_concat_uniform [OF assms(2), of i] assms(3) by (simp flip: Cons_nth_drop_Suc)
  ultimately have "take k (drop (k * i) (take (k * length xs) b)) = map Val (xs ! i)"
    using assms(2,3) by simp
  then show "take k (drop (k * i) b) = map Val (xs ! i)"
    using mult_slot_le [OF assms(3), of k] by (simp add: drop_take min_def split: if_splits)
qed

lemma slots_apart: "i \<noteq> j \<Longrightarrow> \<not> \<bar>int (k * i) - int (k * j)\<bar> < int k"
proof -
  assume "i \<noteq> j"
  then have "1 \<le> \<bar>int i - int j\<bar>" by simp
  then have "int k * 1 \<le> int k * \<bar>int i - int j\<bar>" by (rule mult_left_mono) simp
  then show ?thesis by (simp add: abs_mult flip: right_diff_distrib)
qed

lemma swap_array_data_rep:
  assumes a: "arr_rep a k xs" and i: "i < length xs" "j < length xs" "i \<noteq> j"
  shows "\<exists>a'. swap_array_data a (int i) (int j) = Inr a' \<and> arr_rep a' k (xs[i := xs ! j, j := xs ! i]) \<and>
    arr_comp a' = arr_comp a"
proof -
  note r = arr_repD [OF a] and fits = arr_rep_fits [OF a]
  have ix: "normalize_read_index a (int i) = Inr (int i)" "normalize_read_index a (int j) = Inr (int j)"
    using i r(4) by (auto simp: normalize_read_index_def)
  have p: "make_ptr a (int i) = Inr (int (k * i))" "make_ptr a (int j) = Inr (int (k * j))"
    using make_ptr_rep [OF a] i fits by auto
  have "k \<le> length (arr_buffer a)" using slot_cells(2) [OF r(8,3) i(1)] by simp
  then have n: "byte_count (arr_size a) = Inr k" using r(2,6,7) by (simp add: byte_count_def)
  have tmp: "mem_cpy (blk_alloc k 0) 0 (arr_buffer a) (int (k * i)) (int k) = Inr (map Val (xs ! i))"
    using mem_cpy_in [of "k * i" k "arr_buffer a" 0 "blk_alloc k 0"] slot_cells [OF r(8,3) i(1)] by simp
  have len: "length (xs ! i) = k" "length (xs ! j) = k" using r(3) i by auto
  obtain b1 where b1: "mem_cpy (arr_buffer a) (int (k * i)) (arr_buffer a) (int (k * j)) (int k) = Inr b1"
    "length b1 = length (arr_buffer a)" "holds b1 (concat (xs[i := xs ! j]))"
    using put_item [OF r(8,3) i(1) len(2) slot_cells [OF r(8,3) i(2)]] by blast
  have u: "\<forall>x \<in> set (xs[i := xs ! j]). length x = k"
    using r(3) len set_update_subset_insert [of xs i "xs ! j"] by auto
  obtain b2 where b2: "mem_cpy b1 (int (k * j)) (map Val (xs ! i)) (int 0) (int k) = Inr b2"
    "length b2 = length b1" "holds b2 (concat (xs[i := xs ! j, j := xs ! i]))"
    using put_item [OF b1(3) u _ len(1), of j 0 "map Val (xs ! i)"] i len by auto
  have w: "mem_cpy_within (arr_buffer a) (int (k * i)) (int (k * j)) (int k) = Inr b1"
    using b1(1) slots_apart [OF i(3)] by (simp add: mem_cpy_within_def)
  have "\<forall>x \<in> set (xs[i := xs ! j, j := xs ! i]). length x = k"
    using u len set_update_subset_insert [of "xs[i := xs ! j]" j "xs ! i"] by auto
  then have "arr_rep (a\<lparr>arr_buffer := b2, arr_sorted := False\<rparr>) k (xs[i := xs ! j, j := xs ! i])"
    using r b1 b2 by (simp add: arr_rep_def)
  moreover have "swap_array_data a (int i) (int j) = Inr (a\<lparr>arr_buffer := b2, arr_sorted := False\<rparr>)"
    using tmp b2(1) by (simp add: swap_array_data_def ix p n [unfolded r(2)] r(2) w del: of_nat_mult)
  ultimately show ?thesis by simp
qed

lemma sort_array_step_rep:
  assumes a: "arr_rep a k xs" "arr_comp a = Some f" and f: "comparator f (\<lambda>x. length x = k)"
    and i: "0 \<le> i" "i + 1 < int (length xs)"
  shows "\<exists>a'. sort_array_step i a = Inr a' \<and> arr_rep a' k (cswap f xs (nat i)) \<and> arr_comp a' = Some f"
proof -
  define j where "j = nat i"
  then have j: "i = int j" "Suc j < length xs" using i by auto
  note r = arr_repD [OF a(1)] and fits = arr_rep_fits [OF a(1)]
  have p: "make_ptr a (int j) = Inr (int k * int j)" "make_ptr a (int j + 1) = Inr (int k * int (Suc j))"
    using make_ptr_rep [OF a(1), of "int j"] make_ptr_rep [OF a(1), of "int j + 1"] j fits
    by (auto simp: add.commute)
  have x: "item_at a (int k * int j) = Inr (xs ! j)" "item_at a (int k * int (Suc j)) = Inr (xs ! Suc j)"
    using item_at_rep [OF a(1)] j by (auto simp del: of_nat_Suc)
  have "length (xs ! j) = k" "length (xs ! Suc j) = k" using r(3) j by auto
  then obtain c where c: "f (xs ! j) (xs ! Suc j) = Inr c" using comparator.cmp_total [OF f] by blast
  have s: "\<exists>a'. swap_array_data a (int j) (int j + 1) = Inr a' \<and>
      arr_rep a' k (xs[j := xs ! Suc j, Suc j := xs ! j]) \<and> arr_comp a' = Some f"
    using swap_array_data_rep [OF a(1), of j "Suc j"] j a(2) by (auto simp: add.commute)
  show ?thesis
    using p x c s a j(1) by (auto simp: sort_array_step_def comp_at_def cswap_def cmp_le_def simp del: of_nat_Suc)
qed

lemma sort_array_rep:
  assumes a: "arr_rep a k xs" "arr_comp a = Some f" and f: "comparator f (\<lambda>x. length x = k)"
  shows "\<exists>a' ys. sort_array a = Inr a' \<and> arr_rep a' k ys \<and> arr_sorted a' \<and> arr_comp a' = Some f \<and>
     mset ys = mset xs \<and> sorted_wrt (cmp_le f) ys"
proof -
  let ?R = "\<lambda>st ys. arr_rep st k ys \<and> arr_comp st = Some f"
  have "\<exists>st ys. for_loop (\<lambda>step. for_loop sort_array_step 0 (arr_length a - step - 1)) 0 (arr_length a - 1) a =
      Inr st \<and> ?R st ys \<and> mset ys = mset xs \<and> sorted_wrt (cmp_le f) ys"
    by (rule comparator.bubble_sort_correct [OF f]) (use a arr_repD [OF a(1)] sort_array_step_rep [OF _ _ f] in auto)
  then obtain st ys where st: "for_loop (\<lambda>step. for_loop sort_array_step 0 (arr_length a - step - 1)) 0
      (arr_length a - 1) a = Inr st" "?R st ys" "mset ys = mset xs" "sorted_wrt (cmp_le f) ys" by blast
  then have "arr_rep (st\<lparr>arr_sorted := True\<rparr>) k ys" by (simp add: arr_rep_def)
  then show ?thesis using st by (auto simp: sort_array_def)
qed

lemma find_array_index_rep:
  assumes a: "arr_rep a k xs" "arr_comp a = Some f" and f: "comparator f (\<lambda>x. length x = k)"
    and key: "length key = k" and srt: "arr_sorted a \<longrightarrow> sorted_wrt (cmp_le f) xs"
  shows "\<exists>r a' ys. find_array_index a key = Inr (r, a') \<and> arr_rep a' k ys \<and> mset ys = mset xs \<and>
     (r = - 1 \<and> (\<forall>x \<in> set xs. \<not> cmp_eq f key x) \<or>
      0 \<le> r \<and> r < int (length ys) \<and> cmp_eq f key (ys ! nat r))"
proof -
  obtain a1 ys where a1: "(if arr_sorted a then Inr a else sort_array a) = Inr a1" "arr_rep a1 k ys"
    "arr_comp a1 = Some f" "mset ys = mset xs" "sorted_wrt (cmp_le f) ys"
    using sort_array_rep [OF a f] a srt by (cases "arr_sorted a") auto
  note r = arr_repD [OF a1(2)] and fits = arr_rep_fits [OF a1(2)]
  have "rbind (make_ptr a1 i) (item_at a1) = Inr (ys ! nat i)" if "0 \<le> i" "i < int (length ys)" for i
    using make_ptr_rep [OF a1(2), of i] item_at_rep [OF a1(2), of "nat i"] that fits by auto
  from comparator.bin_search_correct [OF f this r(3) key a1(5)]
  obtain n where n: "bin_search f (\<lambda>i. rbind (make_ptr a1 i) (item_at a1)) key 0 (int (length ys) - 1) = Inr n"
    "n = - 1 \<and> (\<forall>x \<in> set ys. \<not> cmp_eq f key x) \<or> 0 \<le> n \<and> n < int (length ys) \<and> cmp_eq f key (ys ! nat n)"
    by blast
  have "comp_at a1 = f" using a1(3) by (simp add: comp_at_def fun_eq_iff)
  moreover have "set ys = set xs" using a1(4) by (metis set_mset_mset)
  ultimately show ?thesis using a(2) a1 n r(4) by (auto simp: find_array_index_def)
qed

section \<open>Deleting\<close>

lemma delete_array_data_copy:
  assumes a: "arr_rep a k xs" and j: "normalize_write_index a j = Inr (int i)" and i: "i \<le> length xs"
    and n: "int k * (arr_capacity a + 1) \<le> INT_MAX"
  shows "delete_array_data a j =
    rbind (mem_cpy_within (arr_buffer a) (int k * int i) (int k * (int i + 1)) (int k * (int (length xs) - int i)))
      (\<lambda>b. Inr (a\<lparr>arr_buffer := b, arr_length := int (length xs) - 1, arr_sorted := False\<rparr>))"
proof -
  note r = arr_repD [OF a] and fits = arr_rep_fits [OF a]
  have c: "chk (int i + 1) = Inr (int i + 1)" "chk (arr_length a - 1) = Inr (int (length xs) - 1)"
    using i fits r(4) by (auto simp: chk_def)
  have p: "make_ptr a (int i) = Inr (int k * int i)"
    "tail_length a (int i) = Inr (int k * (int (length xs) - int i))"
    using make_ptr_rep [OF a, of "int i"] tail_length_rep [OF a, of "int i"] i r(4) fits by auto
  have "int k * (int i + 1) \<le> int k * (arr_capacity a + 1)"
    using i fits by (intro mult_left_mono) auto
  moreover have "0 \<le> int k * (int i + 1)" by simp
  ultimately have "chk (int k * (int i + 1)) = Inr (int k * (int i + 1))" using n by (intro chk_ok) linarith+
  then have q: "make_ptr a (int i + 1) = Inr (int k * (int i + 1))"
    using r(2) by (simp add: make_ptr_def byte_offset_def)
  show ?thesis by (simp only: delete_array_data_def j p q c rbind_Inr)
qed

lemma arr_rep_butlast:
  assumes a: "arr_rep a k xs" and b: "length b = length (arr_buffer a)" "take (k * (length xs - 1)) b = take (k * (length xs - 1)) (arr_buffer a)"
    and ne: "xs \<noteq> []"
  shows "arr_rep (a\<lparr>arr_buffer := b, arr_length := int (length xs) - 1, arr_sorted := False\<rparr>) k (butlast xs)"
proof -
  note r = arr_repD [OF a]
  have "concat xs = concat (butlast xs) @ last xs"
    using ne by (metis append_butlast_last_id concat.simps(1,2) concat_append append_Nil2)
  then have "holds (arr_buffer a) (concat (butlast xs))" using r(8) by (metis holds_append_iff)
  moreover have u: "\<forall>x \<in> set (butlast xs). length x = k" using r(3) by (auto dest: in_set_butlastD)
  ultimately have "holds b (concat (butlast xs))"
    using b(2) length_concat_uniform [OF u] by (simp add: holds_def)
  then show ?thesis using a b(1) u ne by (simp add: arr_rep_def of_nat_diff Suc_leI)
qed

text \<open>What deleting does: only the last item can be deleted.\<close>

lemma delete_array_data_cases:
  assumes a: "arr_rep a k xs" and j: "normalize_write_index a j = Inr (int i)" and i: "i \<le> length xs"
    and n: "int k * (arr_capacity a + 1) \<le> INT_MAX"
  shows "if i = length xs \<and> xs = [] then \<exists>a'. delete_array_data a j = Inr a' \<and> arr_length a' = - 1
    else if i = length xs then \<exists>a'. delete_array_data a j = Inr a' \<and> arr_rep a' k (butlast xs)
    else if arr_capacity a = int (length xs) then delete_array_data a j = Inl Out_Of_Bounds
    else if Suc i < length xs then delete_array_data a j = Inl Overlap
    else \<exists>a'. delete_array_data a j = Inr a' \<and> arr_rep a' k (butlast xs)"
proof -
  note r = arr_repD [OF a] and fits = arr_rep_fits [OF a] and eq = delete_array_data_copy [OF a j i n]
  define m where "m = length xs - i"
  have m: "int (length xs) - int i = int m" "length xs = i + m" using i by (auto simp: m_def)
  consider (e) "xs = []" "m = 0" | (z) "m = 0" "xs \<noteq> []" | (f) "0 < m" "arr_capacity a = int (length xs)"
    | (o) "1 < m" "int (length xs) < arr_capacity a" | (l) "m = 1" "int (length xs) < arr_capacity a"
    using fits(1) by linarith
  then show ?thesis
  proof cases
    case e
    then show ?thesis using eq m by (simp add: mem_cpy_within_def mem_cpy_def)
  next
    case z
    then have "delete_array_data a j =
        Inr (a\<lparr>arr_buffer := arr_buffer a, arr_length := int (length xs) - 1, arr_sorted := False\<rparr>)"
      using eq m by (simp add: mem_cpy_within_def mem_cpy_def)
    then show ?thesis using z m(2) arr_rep_butlast [OF a refl refl] by auto
  next
    case f
    have "int k * (int i + 1) + int k * int m = int k * (int (length xs) + 1)" using m by (simp add: algebra_simps)
    then have "int (length (arr_buffer a)) < int k * (int i + 1) + int k * int m" using r(1,6) f by (simp add: algebra_simps)
    then show ?thesis using eq m f r(1) by (simp add: mem_cpy_within_def mem_cpy_def)
  next
    case o
    have "int k * (int (length xs) + 1) \<le> int k * arr_capacity a" using o by (intro mult_left_mono) auto
    then have "int k * (int i + 1) + int k * int m \<le> int (length (arr_buffer a))" using r(6) m by (simp add: algebra_simps)
    moreover have "int k * 1 < int k * int m" using r(1) o by simp
    ultimately have "mem_cpy_within (arr_buffer a) (int k * int i) (int k * (int i + 1)) (int k * int m) = Inl Overlap"
      using r(1) o by (simp add: mem_cpy_within_def algebra_simps)
    then show ?thesis using eq m o by simp
  next
    case l
    have "int k * (int (length xs) + 1) \<le> int k * arr_capacity a" using l by (intro mult_left_mono) auto
    then have le: "k * (i + 1) + k \<le> length (arr_buffer a)"
      using r(6) m l by (simp add: algebra_simps flip: of_nat_add of_nat_mult)
    have e: "int k * int i = int (k * i)" "int k * (int i + 1) = int (k * (i + 1))"
      by (simp_all add: distrib_left)
    let ?b = "take (k * i) (arr_buffer a) @ take k (drop (k * (i + 1)) (arr_buffer a)) @ drop (k * i + k) (arr_buffer a)"
    have "mem_cpy_within (arr_buffer a) (int (k * i)) (int (k * (i + 1))) (int k) = Inr ?b"
      using slots_apart [of i "i + 1" k] mem_cpy_in [of "k * (i + 1)" k "arr_buffer a" "k * i" "arr_buffer a"] le
      by (simp add: mem_cpy_within_def)
    then have d: "delete_array_data a j =
        Inr (a\<lparr>arr_buffer := ?b, arr_length := int (length xs) - 1, arr_sorted := False\<rparr>)"
      using eq m l by (simp only: e rbind_Inr of_nat_1 mult_1_right)
    have "length ?b = length (arr_buffer a)" "take (k * (length xs - 1)) ?b = take (k * (length xs - 1)) (arr_buffer a)"
      using le m l by auto
    moreover have "xs \<noteq> []" using m l by auto
    ultimately have "arr_rep (a\<lparr>arr_buffer := ?b, arr_length := int (length xs) - 1, arr_sorted := False\<rparr>) k (butlast xs)"
      by (rule arr_rep_butlast [OF a])
    then show ?thesis using d l m by auto
  qed
qed

section \<open>Refinement of a list\<close>

text \<open>
  What the functions that add items promise: they edit a list.  A negative index counts from the
  place behind the last item.
\<close>

datatype arr_op = Append "byte list" | Insert "byte list" int | Push "byte list"

fun list_op :: "arr_op \<Rightarrow> byte list list \<Rightarrow> byte list list option" where
  "list_op (Append d) xs = Some (xs @ [d])"
| "list_op (Push d) xs = Some (xs @ [d])"
| "list_op (Insert d i) xs =
     (let p = (if i < 0 then int (length xs) + i + 1 else i) in
      if 0 \<le> p \<and> p \<le> int (length xs) then Some (take (nat p) xs @ d # drop (nat p) xs) else None)"

fun list_ops :: "arr_op list \<Rightarrow> byte list list \<Rightarrow> byte list list option" where
  "list_ops [] xs = Some xs"
| "list_ops (p # ps) xs = (case list_op p xs of None \<Rightarrow> None | Some ys \<Rightarrow> list_ops ps ys)"

fun item_of :: "arr_op \<Rightarrow> byte list" where
  "item_of (Append d) = d" | "item_of (Push d) = d" | "item_of (Insert d i) = d"

fun do_op :: "arr_op \<Rightarrow> array \<Rightarrow> array res" where
  "do_op (Append d) a = append_array_data a d"
| "do_op (Push d) a = push_array a d"
| "do_op (Insert d i) a = insert_array_data a d i"

fun do_ops :: "arr_op list \<Rightarrow> array \<Rightarrow> array res" where
  "do_ops [] a = Inr a"
| "do_ops (p # ps) a = rbind (do_op p a) (do_ops ps)"

lemma do_op_rep:
  assumes a: "arr_rep a k xs" and d: "length (item_of p) = k" and n: "2 * int k * (int (length xs) + 1) \<le> INT_MAX"
    and ys: "list_op p xs = Some ys"
  shows "\<exists>a'. do_op p a = Inr a' \<and> arr_rep a' k ys \<and> length ys = Suc (length xs)"
proof (cases p)
  case (Insert e i)
  define q where "q = (if i < 0 then int (length xs) + i + 1 else i)"
  have q: "0 \<le> q" "q \<le> int (length xs)" "ys = take (nat q) xs @ e # drop (nat q) xs"
    using ys Insert by (auto simp: q_def Let_def split: if_splits)
  then have "normalize_write_index a i = Inr (int (nat q))"
    using write_index_rep [OF a, of i] by (auto simp: q_def split: if_splits)
  then show ?thesis using insert_array_data_rep [OF a _ _ n, of e "nat q" i] q Insert d by auto
qed (use append_array_data_rep [OF a d n] ys in \<open>auto simp: push_array_def\<close>)

lemma do_ops_rep:
  "arr_rep a k xs \<Longrightarrow> \<forall>p \<in> set ps. length (item_of p) = k \<Longrightarrow>
   2 * int k * int (length xs + length ps) \<le> INT_MAX \<Longrightarrow> list_ops ps xs = Some ys \<Longrightarrow>
   \<exists>a'. do_ops ps a = Inr a' \<and> arr_rep a' k ys"
proof (induction ps arbitrary: a xs)
  case (Cons p ps)
  obtain zs where zs: "list_op p xs = Some zs" "list_ops ps zs = Some ys"
    using Cons.prems(4) by (auto split: option.splits)
  have "2 * int k * (int (length xs) + 1) \<le> 2 * int k * int (length xs + length (p # ps))"
    by (intro mult_left_mono) auto
  then have n: "2 * int k * (int (length xs) + 1) \<le> INT_MAX" using Cons.prems(3) by linarith
  obtain a' where a': "do_op p a = Inr a'" "arr_rep a' k zs" "length zs = Suc (length xs)"
    using do_op_rep [OF Cons.prems(1) _ n zs(1)] Cons.prems(2) by auto
  then show ?case using Cons.IH [OF a'(2) _ _ zs(2)] Cons.prems(2,3) by auto
qed simp

lemma create_array_rep:
  assumes "0 < k" "8 * int k \<le> INT_MAX"
  shows "\<exists>a. create_array k f = Inr a \<and> arr_rep a k [] \<and> arr_comp a = f"
proof -
  have "(int k + 2 ^ 31) mod 2 ^ 32 - 2 ^ 31 = int k" using assms by simp
  then show ?thesis using assms by (auto simp: create_array_def Let_def byte_count_def arr_rep_def)
qed

section \<open>Properties\<close>

text \<open>C37: The generic array implements lists of items.  After any sequence of append_array_data,
  push_array and insert_array_data on a new array, with any sizes of items and across all
  re-allocations, the array holds exactly the list that the same insertions give, and
  index_array_data finds the item at every index from 0 and, counted from the end, at every
  negative index.  (The bound is the number of bytes that an int can count.)\<close>

theorem array_refines_list:
  assumes k: "0 < k" "2 * int k * int (max 4 (length ps)) \<le> INT_MAX"
    and items: "\<forall>p \<in> set ps. length (item_of p) = k" and spec: "list_ops ps [] = Some xs"
  shows "\<exists>a0 a. create_array k f = Inr a0 \<and> do_ops ps a0 = Inr a \<and> len_array a = int (length xs) \<and>
    (\<forall>i < length xs. \<exists>p. index_array_data a (int i) = Inr (Some p) \<and>
       index_array_data a (int i - int (length xs)) = Inr (Some p) \<and> item_at a p = Inr (xs ! i))"
proof -
  have "2 * int k * 4 \<le> 2 * int k * int (max 4 (length ps))" by (intro mult_left_mono) auto
  then have "8 * int k \<le> INT_MAX" using k(2) by linarith
  then obtain a0 where a0: "create_array k f = Inr a0" "arr_rep a0 k []" using create_array_rep k(1) by blast
  have "2 * int k * int (length ps) \<le> 2 * int k * int (max 4 (length ps))" by (intro mult_left_mono) auto
  then have "2 * int k * int (length [] + length ps) \<le> INT_MAX" using k(2) by simp
  from do_ops_rep [OF a0(2) items this spec] obtain a where a: "do_ops ps a0 = Inr a" "arr_rep a k xs" by blast
  then show ?thesis using a0(1) index_array_data_rep [OF a(2)] item_at_rep [OF a(2)] arr_repD(4) [OF a(2)]
    by (auto simp: len_array_def)
qed

theorem array_refines_list_witness:
  "\<exists>a0 a p. create_array 2 None = Inr a0 \<and>
     do_ops [Append [1, 2], Push [3, 4], Insert [5, 6] (- 2), Insert [7, 8] 0] a0 = Inr a \<and>
     index_array_data a (- 1) = Inr (Some p) \<and> item_at a p = Inr [3, 4]"
proof -
  have "list_ops [Append [1, 2], Push [3, 4], Insert [5, 6] (- 2), Insert [7, 8] 0] [] =
      Some [[7, 8], [1, 2], [5, 6], [3, 4]]" by (simp add: Let_def)
  from array_refines_list [OF _ _ _ this, of 2 None] show ?thesis by (fastforce dest: spec [of _ 3])
qed

text \<open>find_array_index on an array with a compare function that is a total preorder on items:
  it sorts the array first unless that was done (keeping exactly its items), and returns the index
  of an item equal to the key, or -1 exactly when no item is equal to it.\<close>

theorem find_array_correct:
  assumes "arr_rep a k xs" "arr_comp a = Some f" "comparator f (\<lambda>x. length x = k)"
    and "length key = k" "arr_sorted a \<longrightarrow> sorted_wrt (cmp_le f) xs"
  shows "\<exists>r a' ys. find_array_index a key = Inr (r, a') \<and> arr_rep a' k ys \<and> mset ys = mset xs \<and>
     (r = - 1 \<and> (\<forall>x \<in> set xs. \<not> cmp_eq f key x) \<or>
      0 \<le> r \<and> r < int (length ys) \<and> cmp_eq f key (ys ! nat r))"
  using assms by (rule find_array_index_rep)

text \<open>Comparing items by their first byte.\<close>

definition first_byte :: "byte list \<Rightarrow> byte list \<Rightarrow> int res" where
  "first_byte x y = Inr (uint (hd x) - uint (hd y))"

interpretation first_byte: comparator first_byte "\<lambda>x. length x = k" for k
  by unfold_locales (auto simp: first_byte_def cmp_le_def)

theorem find_array_correct_witness:
  "\<exists>a0 a r a'. create_array 2 (Some first_byte) = Inr a0 \<and>
     do_ops [Append [9, 1]] a0 = Inr a \<and> find_array_index a [9, 0] = Inr (r, a') \<and> 0 \<le> r"
proof -
  obtain a0 where a0: "create_array 2 (Some first_byte) = Inr a0" "arr_rep a0 2 []" "arr_comp a0 = Some first_byte"
    using create_array_rep [of 2 "Some first_byte"] by auto
  obtain a where a: "append_array_data a0 [9, 1] = Inr a" "arr_rep a 2 [[9, 1]]" "arr_comp a = Some first_byte"
    using append_array_data_rep [OF a0(2), of "[9, 1]"] a0(3) by auto
  have "arr_sorted a \<longrightarrow> sorted_wrt (cmp_le first_byte) [[9, 1]]" by simp
  from find_array_correct [OF a(2,3) first_byte.comparator_axioms, of "[9, 0]"] this
  have "\<exists>r a'. find_array_index a [9, 0] = Inr (r, a') \<and> 0 \<le> r"
    by (fastforce simp: cmp_eq_def first_byte_def)
  then show ?thesis using a0(1) a(1) by auto
qed

text \<open>delete_array_data deletes the last item, and nothing else.  With the index -1, which means
  the place behind the last item, it drops the last item, and leaves an empty array with the
  length -1.  With the index of any item but the last it copies between overlapping regions with
  memcpy; with any index of an item of a full array it reads one item beyond the buffer.  Only the
  index of the last item of an array with room to spare does what the comment says.\<close>

theorem delete_array_data_correct:
  assumes "arr_rep a k xs" "normalize_write_index a j = Inr (int i)" "i \<le> length xs"
    and "int k * (arr_capacity a + 1) \<le> INT_MAX"
  shows "if i = length xs \<and> xs = [] then \<exists>a'. delete_array_data a j = Inr a' \<and> arr_length a' = - 1
    else if i = length xs then \<exists>a'. delete_array_data a j = Inr a' \<and> arr_rep a' k (butlast xs)
    else if arr_capacity a = int (length xs) then delete_array_data a j = Inl Out_Of_Bounds
    else if Suc i < length xs then delete_array_data a j = Inl Overlap
    else \<exists>a'. delete_array_data a j = Inr a' \<and> arr_rep a' k (butlast xs)"
  using assms by (rule delete_array_data_cases)

text \<open>An array that holds given items, with the first capacity.\<close>

definition sample_array :: "nat \<Rightarrow> byte list list \<Rightarrow> array" where
  "sample_array k xs = \<lparr>arr_buffer = map Val (concat xs) @ replicate (k * (8 - length xs)) (Val 0),
     arr_capacity = 8, arr_length = int (length xs), arr_size = int k, arr_comp = None, arr_sorted = False\<rparr>"

lemma sample_array_rep:
  assumes "0 < k" "8 * int k \<le> INT_MAX" "\<forall>x \<in> set xs. length x = k" "length xs \<le> 8"
  shows "arr_rep (sample_array k xs) k xs"
proof -
  have "k * length xs + k * (8 - length xs) = k * 8" using assms(4) by (simp flip: add_mult_distrib2)
  then have "int (k * length xs) + int k * int (8 - length xs) = int k * 8" by (metis of_nat_add of_nat_mult of_nat_numeral)
  then show ?thesis using assms length_concat_uniform [OF assms(3)]
    by (simp add: arr_rep_def sample_array_def holds_def mult.commute)
qed

theorem delete_array_data_correct_witness:
  "delete_array_data (sample_array 1 [[1], [2], [3]]) 0 = Inl Overlap"
proof -
  have "arr_rep (sample_array 1 [[1], [2], [3]]) 1 [[1], [2], [3]]" by (rule sample_array_rep) auto
  from delete_array_data_correct [OF this, of 0 0] show ?thesis
    by (simp add: normalize_write_index_def sample_array_def)
qed

text \<open>pop_array and peek_array return a pointer that is off: they take the number of the last item
  for its offset.  It is the pointer to the last item exactly when items are single bytes or the
  array holds one item; pop_array does remove the last item.\<close>

theorem pop_peek_offset:
  assumes a: "arr_rep a k xs" and ne: "xs \<noteq> []"
  shows "\<exists>p q a'. index_array_data a (- 1) = Inr (Some p) \<and> item_at a p = Inr (last xs) \<and>
    peek_array a = Some q \<and> pop_array a = Inr (Some q, a') \<and> arr_rep a' k (butlast xs) \<and>
    (q = p \<longleftrightarrow> k = 1 \<or> length xs = 1)"
proof -
  note r = arr_repD [OF a]
  define i where "i = length xs - 1"
  have i: "i < length xs" "length xs = Suc i" "xs ! i = last xs" using ne by (auto simp: i_def last_conv_nth)
  have p: "index_array_data a (- 1) = Inr (Some (int k * int i))" "item_at a (int k * int i) = Inr (last xs)"
    using index_array_data_rep(2) [OF a i(1)] item_at_rep [OF a i(1)] i by auto
  have q: "arr_length a - 1 = int i" using r(4) i by simp
  have "arr_rep (a\<lparr>arr_buffer := arr_buffer a, arr_length := int (length xs) - 1, arr_sorted := False\<rparr>) k (butlast xs)"
    by (rule arr_rep_butlast [OF a refl refl ne])
  then have "arr_rep (a\<lparr>arr_length := int i\<rparr>) k (butlast xs)" using i by (simp add: arr_rep_def)
  moreover have "int i = int k * int i \<longleftrightarrow> k = 1 \<or> length xs = 1" using i by auto
  ultimately show ?thesis using p q ne r(4) i by (auto simp: peek_array_def pop_array_def)
qed

theorem pop_peek_offset_witness:
  "\<exists>p. index_array_data (sample_array 2 [[1, 2], [3, 4]]) (- 1) = Inr (Some p) \<and>
     peek_array (sample_array 2 [[1, 2], [3, 4]]) \<noteq> Some p"
proof -
  have "arr_rep (sample_array 2 [[1, 2], [3, 4]]) 2 [[1, 2], [3, 4]]" by (rule sample_array_rep) auto
  from pop_peek_offset [OF this] show ?thesis by auto
qed

end
