(* ===== verification/Show_Num.thy ===== *)
theory Show_Num
  imports Main
begin

text \<open>
  The conversions of printf that the program uses: decimal numbers and padding to a width.
\<close>

section \<open>Formatting\<close>

fun show_nat :: "nat \<Rightarrow> string" where
  "show_nat n = (if n < 10 then [char_of (48 + n)] else show_nat (n div 10) @ [char_of (48 + n mod 10)])"

declare show_nat.simps [simp del]

definition show_int :: "int \<Rightarrow> string" where
  "show_int i = (if i < 0 then CHR ''-'' # show_nat (nat (- i)) else show_nat (nat i))"

text \<open>\<open>"%*s"\<close> with the empty string: a negative width is the width with the text to the left.\<close>

definition pad :: "int \<Rightarrow> string" where
  "pad w = replicate (nat \<bar>w\<bar>) (CHR '' '')"

end
