(* ===== verification/Trace.thy ===== *)
theory Trace
  imports Cmdline C_Num Heap Show_Num
begin

text \<open>
  src/src/common/trace.c and the macros of trace.h: the stack of verbosities, the depth of the
  current call and the lines that are printed.

  The static variables are one record.  The nodes of the stack live on a heap; \<open>_ALLOC_TYPE\<close> clears a
  new node.  The output file is the text written to it so far, \<open>None\<close> while the handle is NULL.
  What a format and its arguments give is the text passed in.
\<close>

section \<open>State\<close>

record verbosity_node =
  vs_verbosity :: int
  vs_next :: "nat option"

record trace =
  tr_depth :: int
  tr_increment :: int
  tr_file :: "string option"
  tr_stack :: "nat option"
  tr_heap :: "verbosity_node heap"

text \<open>The static variables before the first call.\<close>

definition trace_start :: trace where
  "trace_start = \<lparr>tr_depth = 0, tr_increment = 2, tr_file = None, tr_stack = None, tr_heap = []\<rparr>"

section \<open>The stack of verbosities\<close>

definition push_trace_verbosity :: "int \<Rightarrow> trace \<Rightarrow> trace" where
  "push_trace_verbosity num t =
     (let (ptr, h) = hp_new (tr_heap t)
            \<lparr>vs_verbosity = num, vs_next = (if tr_stack t \<noteq> None then Some (length (tr_heap t)) else None)\<rparr>
      in t\<lparr>tr_heap := h, tr_stack := Some ptr\<rparr>)"

definition pop_trace_verbosity :: "trace \<Rightarrow> trace res" where
  "pop_trace_verbosity t =
     (if tr_stack t \<noteq> None
      then rbind (hp_get (tr_heap t) (tr_stack t)) (\<lambda>n.
           rbind (hp_free (tr_heap t) (tr_stack t)) (\<lambda>h.
           Inr (t\<lparr>tr_stack := vs_next n, tr_heap := h\<rparr>)))
      else Inr t)"

definition peek_trace_verbosity :: "trace \<Rightarrow> int res" where
  "peek_trace_verbosity t =
     (if tr_stack t \<noteq> None
      then rbind (hp_get (tr_heap t) (tr_stack t)) (\<lambda>n. Inr (vs_verbosity n)) else Inr 0)"

section \<open>The depth\<close>

definition increment_trace_depth :: "trace \<Rightarrow> trace res" where
  "increment_trace_depth t = rbind (chk (tr_depth t + 1)) (\<lambda>d. Inr (t\<lparr>tr_depth := d\<rparr>))"

definition decrement_trace_depth :: "trace \<Rightarrow> trace" where
  "decrement_trace_depth t = (if 0 < tr_depth t then t\<lparr>tr_depth := tr_depth t - 1\<rparr> else t)"

definition reset_trace_depth :: "int \<Rightarrow> trace \<Rightarrow> trace" where
  "reset_trace_depth val t = t\<lparr>tr_depth := val\<rparr>"

definition get_trace_depth :: "trace \<Rightarrow> int" where
  "get_trace_depth t = tr_depth t"

section \<open>Starting\<close>

text \<open>The handle given is \<open>None\<close> for NULL, which selects the standard output.\<close>

definition init_trace :: "cmdline \<Rightarrow> string option \<Rightarrow> string \<Rightarrow> trace \<Rightarrow> trace res" where
  "init_trace cl fp stdout t =
     (let t = t\<lparr>tr_file := Some (case fp of None \<Rightarrow> stdout | Some f \<Rightarrow> f)\<rparr> in
      rbind (get_cmd_opt cl ''verbosity'') (\<lambda>s.
      case raw_string s of
        None \<Rightarrow> Inl Null_Deref
      | Some b \<Rightarrow> rbind (cstr b 0) (\<lambda>v. Inr (push_trace_verbosity (to_int (c_strtol 10 v)) t))))"

definition get_trace_handle :: "trace \<Rightarrow> string option" where
  "get_trace_handle t = tr_file t"

section \<open>Printing\<close>

definition tr_write :: "string \<Rightarrow> trace \<Rightarrow> trace res" where
  "tr_write s t =
     (case tr_file t of None \<Rightarrow> Inl Null_Deref | Some f \<Rightarrow> Inr (t\<lparr>tr_file := Some (f @ s)\<rparr>))"

definition tr_indent :: "trace \<Rightarrow> trace res" where
  "tr_indent t = rbind (chk (tr_depth t * tr_increment t)) (\<lambda>w. tr_write (pad w) t)"

definition print_indent :: "string \<Rightarrow> trace \<Rightarrow> trace res" where
  "print_indent msg t = rbind (tr_indent t) (tr_write msg)"

definition print_trace :: "string \<Rightarrow> trace \<Rightarrow> trace res" where
  "print_trace msg t =
     rbind (tr_indent t) (\<lambda>t.
     rbind (tr_write ''TRACE: '' t) (\<lambda>t.
     rbind (tr_write msg t) (tr_write NL)))"

definition print_enter :: "string \<Rightarrow> int \<Rightarrow> string \<Rightarrow> trace \<Rightarrow> trace res" where
  "print_enter fn line func t =
     rbind (tr_indent t) (\<lambda>t.
     rbind (tr_write (''ENTER: '' @ fn @ '': '' @ show_int line @ '': '' @ func @ ''()'' @ NL) t)
       increment_trace_depth)"

definition print_return :: "string \<Rightarrow> int \<Rightarrow> string \<Rightarrow> string \<Rightarrow> trace \<Rightarrow> trace res" where
  "print_return fn line func str t =
     rbind (tr_indent (decrement_trace_depth t)) (\<lambda>t.
     tr_write (''RETURN: '' @ fn @ '': '' @ show_int line @ '': '' @ func @ ''(): '' @ str @ NL) t)"

section \<open>The macros\<close>

text \<open>\<open>lv\<close> is the static variable \<open>local_verbosity\<close> of the file that uses the macro.\<close>

definition traced :: "int \<Rightarrow> (trace \<Rightarrow> trace res) \<Rightarrow> trace \<Rightarrow> trace res" where
  "traced lv body t = rbind (peek_trace_verbosity t) (\<lambda>v. if lv < v then body t else Inr t)"

definition MSG :: "int \<Rightarrow> string \<Rightarrow> trace \<Rightarrow> trace res" where
  "MSG n msg = traced n (tr_write msg)"

definition PRINT :: "int \<Rightarrow> string \<Rightarrow> trace \<Rightarrow> trace res" where
  "PRINT lv msg = traced lv (print_indent msg)"

definition TRACE :: "int \<Rightarrow> string \<Rightarrow> trace \<Rightarrow> trace res" where
  "TRACE lv msg = traced lv (print_trace msg)"

definition ENTER :: "int \<Rightarrow> string \<Rightarrow> int \<Rightarrow> string \<Rightarrow> trace \<Rightarrow> trace res" where
  "ENTER lv fn line func = traced lv (print_enter fn line func)"

definition RETURN :: "int \<Rightarrow> string \<Rightarrow> int \<Rightarrow> string \<Rightarrow> string \<Rightarrow> trace \<Rightarrow> trace res" where
  "RETURN lv fn line func args = traced lv (print_return fn line func args)"

definition SEPARATOR :: "int \<Rightarrow> trace \<Rightarrow> trace res" where
  "SEPARATOR lv = traced lv (\<lambda>t.
     rbind (for_loop (\<lambda>i. tr_write [CHR ''-'']) 0 80 t) (tr_write NL))"

definition TRACE_HEADER :: "int \<Rightarrow> string \<Rightarrow> trace \<Rightarrow> trace res" where
  "TRACE_HEADER lv func t =
     rbind (SEPARATOR lv (reset_trace_depth 0 t)) (\<lambda>t.
     rbind (PRINT lv (CHR 0x09 # func @ NL) t) (SEPARATOR lv))"

section \<open>A tree of calls\<close>

text \<open>
  A function that is traced: it enters, calls others, and returns.  The lines of such a run are those
  of the tree, indented by the depth.
\<close>

datatype call = Call string int string "call list" int string

fun run_call :: "int \<Rightarrow> call \<Rightarrow> trace \<Rightarrow> trace res" and run_calls :: "int \<Rightarrow> call list \<Rightarrow> trace \<Rightarrow> trace res" where
  "run_call lv (Call fn line func cs l ret) t =
     rbind (ENTER lv fn line func t) (\<lambda>t.
     rbind (run_calls lv cs t) (RETURN lv fn l func ret))"
| "run_calls lv [] t = Inr t"
| "run_calls lv (c # cs) t = rbind (run_call lv c t) (run_calls lv cs)"

fun call_text :: "int \<Rightarrow> call \<Rightarrow> string" and calls_text :: "int \<Rightarrow> call list \<Rightarrow> string" where
  "call_text w (Call fn line func cs l ret) =
     pad w @ ''ENTER: '' @ fn @ '': '' @ show_int line @ '': '' @ func @ ''()'' @ NL @
     calls_text (w + 2) cs @
     pad w @ ''RETURN: '' @ fn @ '': '' @ show_int l @ '': '' @ func @ ''(): '' @ ret @ NL"
| "calls_text w [] = []"
| "calls_text w (c # cs) = call_text w c @ calls_text w cs"

fun call_depth :: "call \<Rightarrow> nat" and calls_depth :: "call list \<Rightarrow> nat" where
  "call_depth (Call fn line func cs l ret) = Suc (calls_depth cs)"
| "calls_depth [] = 0"
| "calls_depth (c # cs) = max (call_depth c) (calls_depth cs)"

lemma peek_other_fields [simp]:
  "peek_trace_verbosity (t\<lparr>tr_file := f\<rparr>) = peek_trace_verbosity t"
  "peek_trace_verbosity (t\<lparr>tr_depth := d\<rparr>) = peek_trace_verbosity t"
  by (simp_all add: peek_trace_verbosity_def)

lemma tr_indent_ok:
  "0 \<le> tr_depth t \<Longrightarrow> 2 * tr_depth t \<le> INT_MAX \<Longrightarrow> tr_increment t = 2 \<Longrightarrow> tr_file t = Some f \<Longrightarrow>
   tr_indent t = Inr (t\<lparr>tr_file := Some (f @ pad (2 * tr_depth t))\<rparr>)"
  using chk_ok [of "tr_depth t * 2"] by (simp add: tr_indent_def tr_write_def mult.commute)

lemma run_call_text:
  assumes "lv < v" "peek_trace_verbosity t = Inr v" "tr_file t = Some f" "tr_increment t = 2" "0 \<le> tr_depth t"
  shows "2 * (tr_depth t + int (call_depth c)) \<le> INT_MAX \<Longrightarrow>
      run_call lv c t = Inr (t\<lparr>tr_file := Some (f @ call_text (2 * tr_depth t) c)\<rparr>)"
    and "2 * (tr_depth t + int (calls_depth cs)) \<le> INT_MAX \<Longrightarrow>
      run_calls lv cs t = Inr (t\<lparr>tr_file := Some (f @ calls_text (2 * tr_depth t) cs)\<rparr>)"
  using assms
proof (induction c and cs arbitrary: t f and t f rule: call_depth_calls_depth.induct)
  case (1 fn line func cs l ret)
  define g where "g = f @ pad (2 * tr_depth t) @ ''ENTER: '' @ fn @ '': '' @ show_int line @ '': '' @ func @ ''()'' @ NL"
  let ?t = "t\<lparr>tr_depth := tr_depth t + 1, tr_file := Some g\<rparr>"
  have "ENTER lv fn line func t = Inr ?t"
    using 1 chk_ok [of "tr_depth t + 1"]
    by (simp add: ENTER_def traced_def print_enter_def tr_indent_ok tr_write_def increment_trace_depth_def g_def)
  moreover have "run_calls lv cs ?t = Inr (?t\<lparr>tr_file := Some (g @ calls_text (2 * (tr_depth t + 1)) cs)\<rparr>)"
    using 1 by (subst "1.IH") auto
  moreover have "RETURN lv fn l func ret (t\<lparr>tr_depth := tr_depth t + 1, tr_file := Some h\<rparr>) =
      Inr (t\<lparr>tr_file := Some (h @ pad (2 * tr_depth t) @ ''RETURN: '' @ fn @ '': '' @ show_int l @ '': '' @ func @
        ''(): '' @ ret @ NL)\<rparr>)" for h
    using 1 by (simp add: RETURN_def traced_def print_return_def decrement_trace_depth_def
        tr_indent_ok tr_write_def)
  moreover have "2 * (tr_depth t + 1) = 2 * tr_depth t + 2" by simp
  ultimately show ?case by (simp add: g_def)
next
  case (3 c cs)
  let ?t = "t\<lparr>tr_file := Some (f @ call_text (2 * tr_depth t) c)\<rparr>"
  have "run_call lv c t = Inr ?t" using 3 by (intro "3.IH"(1)) auto
  moreover have "run_calls lv cs ?t = Inr (?t\<lparr>tr_file := Some ((f @ call_text (2 * tr_depth t) c) @ calls_text (2 * tr_depth t) cs)\<rparr>)"
    using 3 by (subst "3.IH"(2)) auto
  ultimately show ?case by simp
qed simp

section \<open>Properties\<close>



text \<open>The stack of verbosities holds one value.  The first push is undone by a pop; but a node pushed
  on a stack that is not empty is linked to itself, so the pop after it leaves the freed node on the
  stack, and the next look at the verbosity (every traced function takes one) uses freed memory.\<close>

theorem verbosity_stack_one_deep:
  assumes n: "tr_stack t = None"
  shows "peek_trace_verbosity (push_trace_verbosity n t) = Inr n \<and>
    (\<exists>t'. pop_trace_verbosity (push_trace_verbosity n t) = Inr t' \<and> peek_trace_verbosity t' = Inr 0) \<and>
    peek_trace_verbosity (push_trace_verbosity m (push_trace_verbosity n t)) = Inr m \<and>
    (\<exists>t'. pop_trace_verbosity (push_trace_verbosity m (push_trace_verbosity n t)) = Inr t' \<and>
       peek_trace_verbosity t' = Inl Use_After_Free \<and> pop_trace_verbosity t' = Inl Use_After_Free)"
  using n
  by (simp add: push_trace_verbosity_def pop_trace_verbosity_def peek_trace_verbosity_def hp_new_def nth_append)

theorem verbosity_stack_one_deep_witness:
  "\<exists>t'. pop_trace_verbosity (push_trace_verbosity 5 (push_trace_verbosity 3 trace_start)) = Inr t' \<and>
     peek_trace_verbosity t' = Inl Use_After_Free"
  using verbosity_stack_one_deep [of trace_start 3 5] by (auto simp: trace_start_def)

end
