(* ===== verification/Fileio.thy ===== *)
theory Fileio
  imports String_List
begin

text \<open>
  src/src/common/fileio.c: finding a file along the search path.

  The file system and the environment are parameters: \<open>getenv\<close>, \<open>realpath\<close>, \<open>glob\<close> and the mode that
  \<open>stat\<close> reports (\<open>None\<close> when it fails).  The two static variables are the record \<open>fileio\<close>: the search
  path, \<open>None\<close> for NULL, and the buffer of \<open>_POSIX_PATH_MAX\<close> (256) bytes.  The calls of the trace macros
  are left out.
\<close>

section \<open>Strings in buffers\<close>

definition c_strcpy :: "char cell list \<Rightarrow> string \<Rightarrow> char cell list res" where
  "c_strcpy b s = store_all b 0 (s @ [NUL])"

definition c_strncpy :: "char cell list \<Rightarrow> string \<Rightarrow> nat \<Rightarrow> char cell list res" where
  "c_strncpy b s n = store_all b 0 (take n s @ replicate (n - length s) NUL)"

text \<open>\<open>strtok\<close> with one delimiter: the next piece that is not empty and what follows its delimiter.\<close>

definition c_strtok :: "char \<Rightarrow> string \<Rightarrow> (string \<times> string) option" where
  "c_strtok ch s =
     (let t = dropWhile (\<lambda>c. c = ch) s in
      if t = [] then None
      else Some (takeWhile (\<lambda>c. c \<noteq> ch) t, drop 1 (dropWhile (\<lambda>c. c \<noteq> ch) t)))"

lemma length_dropWhile_less: "length (dropWhile P s) \<le> length s"
  by (induction s) auto

lemma c_strtok_shorter: "c_strtok ch s = Some (p, r) \<Longrightarrow> length r < length s"
proof -
  assume a: "c_strtok ch s = Some (p, r)"
  define t where "t = dropWhile (\<lambda>c. c = ch) s"
  from a have r: "t \<noteq> []" "r = drop 1 (dropWhile (\<lambda>c. c \<noteq> ch) t)"
    by (auto simp: c_strtok_def t_def Let_def split: if_splits)
  have "length (dropWhile (\<lambda>c. c \<noteq> ch) t) \<le> length t" "length t \<le> length s"
    unfolding t_def by (rule length_dropWhile_less)+
  moreover have "0 < length s" using r(1) calculation(2) by (cases t) auto
  ultimately show ?thesis using r by (cases t) auto
qed

section \<open>The search path\<close>

record file_system =
  fs_getenv :: "string \<Rightarrow> string option"
  fs_realpath :: "string \<Rightarrow> string option"
  fs_glob :: "string \<Rightarrow> string list"
  fs_mode :: "string \<Rightarrow> 32 word option"

record fileio =
  fi_env :: "string_list_t option"
  fi_buffer :: "char cell list"

abbreviation PATH_SIZE :: nat where "PATH_SIZE \<equiv> 256"
abbreviation S_IFDIR :: "32 word" where "S_IFDIR \<equiv> 0x4000"

definition fileio_start :: fileio where
  "fileio_start = \<lparr>fi_env = None, fi_buffer = blk_alloc PATH_SIZE NUL\<rparr>"

definition get_path :: "file_system \<Rightarrow> string \<Rightarrow> fileio \<Rightarrow> fileio res" where
  "get_path fs str st =
     (case fs_realpath fs str of
        None \<Rightarrow> Inl Fatal_Exit
      | Some p \<Rightarrow> rbind (c_strcpy (fi_buffer st) p) (\<lambda>b. Inr (st\<lparr>fi_buffer := b\<rparr>)))"

definition append_env :: "fileio \<Rightarrow> string \<Rightarrow> fileio res" where
  "append_env st s =
     (case fi_env st of
        None \<Rightarrow> Inl Null_Deref
      | Some env \<Rightarrow>
          rbind (create_string (Some s)) (\<lambda>t.
          rbind (append_string_list env t) (\<lambda>env. Inr (st\<lparr>fi_env := Some env\<rparr>))))"

function strtok_loop :: "string \<Rightarrow> fileio \<Rightarrow> fileio res" where
  "strtok_loop s st =
     (case c_strtok (CHR '':'') s of
        None \<Rightarrow> Inr st
      | Some (p, r) \<Rightarrow> rbind (append_env st p) (strtok_loop r))"
  by pat_completeness auto
termination
  by (relation "measure (\<lambda>(s, st). length s)") (auto dest: c_strtok_shorter)

declare strtok_loop.simps [simp del]

definition add_env :: "file_system \<Rightarrow> string \<Rightarrow> fileio \<Rightarrow> fileio res" where
  "add_env fs str st =
     (case fs_getenv fs str of None \<Rightarrow> Inr st | Some v \<Rightarrow> strtok_loop v st)"

text \<open>The struct that \<open>stat\<close> fills is not changed when it fails.\<close>

fun glob_loop :: "file_system \<Rightarrow> string list \<Rightarrow> 32 word cell \<Rightarrow> fileio \<Rightarrow> fileio res" where
  "glob_loop fs [] s st = Inr st"
| "glob_loop fs (p # ps) s st =
     (let s = (case fs_mode fs p of None \<Rightarrow> s | Some m \<Rightarrow> Val m) in
      case s of
        Undef \<Rightarrow> Inl Uninit_Read
      | Val m \<Rightarrow>
          rbind (if m AND S_IFDIR \<noteq> 0 then append_env st p else Inr st) (glob_loop fs ps s))"

definition add_dirs :: "file_system \<Rightarrow> string \<Rightarrow> fileio \<Rightarrow> fileio res" where
  "add_dirs fs dname st =
     rbind (get_path fs dname st) (\<lambda>st.
     rbind (c_strcat (fi_buffer st) ''/*'') (\<lambda>b.
     rbind (cstr b 0) (\<lambda>pat.
     glob_loop fs (fs_glob fs pat) Undef (st\<lparr>fi_buffer := b\<rparr>))))"

definition file_exists :: "file_system \<Rightarrow> string \<Rightarrow> bool" where
  "file_exists fs fname = (fs_mode fs fname \<noteq> None)"

definition setup_env :: "file_system \<Rightarrow> fileio \<Rightarrow> fileio res" where
  "setup_env fs st =
     rbind (add_env fs ''PGEN_PATH'' (st\<lparr>fi_env := Some create_string_list\<rparr>)) (\<lambda>st.
     rbind (add_dirs fs ''..'' st) (add_env fs ''PATH''))"

section \<open>The search\<close>

definition with_ext :: "string \<Rightarrow> string \<Rightarrow> string res" where
  "with_ext fname ext =
     (if (case c_strrchr fname (CHR ''.'') of None \<Rightarrow> True | Some k \<Rightarrow> c_strcmp (drop k fname) ext \<noteq> 0)
      then rbind (c_strcpy (blk_alloc PATH_SIZE NUL) fname) (\<lambda>b.
           rbind (c_strcat b ext) (\<lambda>b. cstr b 0))
      else Inr fname)"

definition try_dir :: "file_system \<Rightarrow> string \<Rightarrow> string_t \<Rightarrow> char cell list \<times> string option \<Rightarrow>
    (bool \<times> char cell list \<times> string option) res" where
  "try_dir fs name s = (\<lambda>(buf, found).
     rbind (cstr (sb_buffer s) 0) (\<lambda>d.
     rbind (c_strncpy buf d PATH_SIZE) (\<lambda>b.
     rbind (c_strcat b ''/'') (\<lambda>b.
     rbind (c_strcat b name) (\<lambda>b.
     rbind (cstr b 0) (\<lambda>path.
     Inr (if file_exists fs path then (True, b, Some path) else (False, b, found))))))))"

definition find_file :: "file_system \<Rightarrow> string \<Rightarrow> string \<Rightarrow> fileio \<Rightarrow> (string \<times> fileio) res" where
  "find_file fs fname ext st =
     rbind (with_ext fname ext) (\<lambda>name.
     rbind (if fi_env st = None then setup_env fs st else Inr st) (\<lambda>st.
     rbind (iter_while (try_dir fs name) (fi_env st) 0 (fi_buffer st, None)) (\<lambda>((b, found), _, _).
     Inr (case found of None \<Rightarrow> fname | Some p \<Rightarrow> p, st\<lparr>fi_buffer := b\<rparr>))))"

section \<open>Buffers\<close>

lemma c_strcpy_at:
  assumes "nul_free s" "length s < length b"
  shows "\<exists>b'. c_strcpy b s = Inr b' \<and> str_at b' s \<and> length b' = length b"
  using store_all_in [of 0 "s @ [NUL]" b] assms by (auto simp: c_strcpy_def str_at_def holds_def)

lemma store_all_out:
  "length b < i + length vs \<Longrightarrow> i \<le> length b \<Longrightarrow> store_all b (int i) vs = Inl Out_Of_Bounds"
proof (induction vs arbitrary: b i)
  case (Cons v vs)
  show ?case
  proof (cases "i < length b")
    case True
    then have "store_all (b[i := Val v]) (int (Suc i)) vs = Inl Out_Of_Bounds"
      using Cons.prems by (intro Cons.IH) auto
    then show ?thesis using True by (simp add: store_def add.commute)
  qed simp
qed simp

lemma c_strncpy_at:
  assumes "nul_free s" "length s < n" "n \<le> length b"
  shows "\<exists>b'. c_strncpy b s n = Inr b' \<and> str_at b' s \<and> length b' = length b"
proof -
  have "n - length s = Suc (n - length s - 1)" using assms by simp
  then have "replicate (n - length s) NUL = NUL # replicate (n - length s - 1) NUL" by (metis replicate_Suc)
  then show ?thesis
    using store_all_in [of 0 "s @ replicate (n - length s) NUL" b] assms
    by (auto simp: c_strncpy_def str_at_def holds_def)
qed

section \<open>The pieces of a path variable\<close>

text \<open>What strtok yields: the pieces between colons that are not empty.\<close>

definition toks :: "char \<Rightarrow> string \<Rightarrow> string list" where
  "toks ch s = filter (\<lambda>p. p \<noteq> []) (split_spec ch s)"

lemma toks_eq:
  "toks ch s = (case c_strchr s ch of None \<Rightarrow> (if s = [] then [] else [s])
     | Some k \<Rightarrow> (if take k s = [] then [] else [take k s]) @ toks ch (drop (Suc k) s))"
  by (simp add: toks_def split_spec.simps [of ch s] split_spec.simps [of ch "[]"] split: option.splits)

lemma c_strchr_append: "ch \<notin> set p \<Longrightarrow> c_strchr (p @ ch # r) ch = Some (length p)"
  by (induction p) auto

lemma toks_simps [simp]:
  "toks ch [] = []" "toks ch (ch # s) = toks ch s"
  by (simp_all add: toks_eq [of ch "[]"] toks_eq [of ch "ch # s"])

lemma toks_piece: "ch \<notin> set p \<Longrightarrow> p \<noteq> [] \<Longrightarrow> toks ch (p @ ch # r) = p # toks ch r"
  by (simp add: toks_eq [of ch "p @ ch # r"] c_strchr_append)

lemma toks_last: "ch \<notin> set p \<Longrightarrow> p \<noteq> [] \<Longrightarrow> toks ch p = [p]"
  by (simp add: toks_eq [of ch p] c_strchr_None [THEN iffD2])

lemma toks_dropWhile: "toks ch (dropWhile (\<lambda>c. c = ch) s) = toks ch s"
  by (induction s) auto

lemma c_strtok_toks:
  "toks ch s = (case c_strtok ch s of None \<Rightarrow> [] | Some (p, r) \<Rightarrow> p # toks ch r)"
proof -
  define t where "t = dropWhile (\<lambda>c. c = ch) s"
  have t: "toks ch s = toks ch t" by (simp add: t_def toks_dropWhile)
  show ?thesis
  proof (cases "t = []")
    case False
    define p where "p = takeWhile (\<lambda>c. c \<noteq> ch) t"
    define u where "u = dropWhile (\<lambda>c. c \<noteq> ch) t"
    have "hd t \<noteq> ch" using False hd_dropWhile [of "\<lambda>c. c = ch" s] by (simp add: t_def)
    then have p: "p \<noteq> []" "ch \<notin> set p" "t = p @ u"
      using False by (auto simp: p_def u_def dest: set_takeWhileD) (cases t; auto)
    have tok: "c_strtok ch s = Some (p, drop 1 u)" using False by (simp add: c_strtok_def t_def p_def u_def Let_def)
    show ?thesis
    proof (cases u)
      case Nil
      then show ?thesis using t p tok toks_last [of ch p] by simp
    next
      case (Cons c v)
      then have "c = ch" using hd_dropWhile [of "\<lambda>c. c \<noteq> ch" t] by (simp add: u_def)
      then show ?thesis using t p tok Cons toks_piece [of ch p v] by simp
    qed
  qed (use t in \<open>simp add: c_strtok_def t_def [symmetric] Let_def\<close>)
qed

lemma length_toks: "length (toks ch s) \<le> length s"
proof (induction s rule: length_induct)
  case (1 s)
  show ?case
  proof (cases "c_strtok ch s")
    case (Some x)
    then obtain p r where x: "c_strtok ch s = Some (p, r)" by (cases x) auto
    then have "length (toks ch r) \<le> length r" "length r < length s" using 1 c_strtok_shorter by blast+
    then show ?thesis using c_strtok_toks [of ch s] x by simp
  qed (simp add: c_strtok_toks [of ch s])
qed

lemma c_strtok_nul_free: "c_strtok ch s = Some (p, r) \<Longrightarrow> nul_free s \<Longrightarrow> nul_free p \<and> nul_free r \<and> length p \<le> length s"
proof -
  assume a: "c_strtok ch s = Some (p, r)" "nul_free s"
  define t where "t = dropWhile (\<lambda>c. c = ch) s"
  have pr: "p = takeWhile (\<lambda>c. c \<noteq> ch) t" "r = drop 1 (dropWhile (\<lambda>c. c \<noteq> ch) t)"
    using a(1) by (auto simp: c_strtok_def t_def Let_def split: if_splits)
  have sub: "set t \<subseteq> set s" "length t \<le> length s" by (auto simp: t_def length_dropWhile_less dest: set_dropWhileD)
  then show ?thesis using a(2) length_takeWhile_le [of "\<lambda>c. c \<noteq> ch" t]
    by (auto simp: pr nul_free_def dest!: in_set_dropD dest: set_dropWhileD set_takeWhileD)
qed

section \<open>Building the search path\<close>

lemma append_env_rep:
  assumes "fi_env st = Some env" "sl_rep env ds" "nul_free s" "length s < 2 ^ 30" "length ds < 2 ^ 30"
  shows "\<exists>env'. append_env st s = Inr (st\<lparr>fi_env := Some env'\<rparr>) \<and> sl_rep env' (ds @ [s])"
proof -
  obtain t where t: "create_string (Some s) = Inr t" "sb_rep t s" using create_string_rep assms(3,4) by blast
  then show ?thesis using append_string_list_rep [OF assms(2) t(2) assms(5)] assms(1)
    by (auto simp: append_env_def)
qed

lemma strtok_loop_rep:
  "fi_env st = Some env \<Longrightarrow> sl_rep env ds \<Longrightarrow> nul_free s \<Longrightarrow> length s + length ds < 2 ^ 30 \<Longrightarrow>
   \<exists>env'. strtok_loop s st = Inr (st\<lparr>fi_env := Some env'\<rparr>) \<and> sl_rep env' (ds @ toks (CHR '':'') s)"
proof (induction s st arbitrary: env ds rule: strtok_loop.induct)
  case (1 s st)
  show ?case
  proof (cases "c_strtok (CHR '':'') s")
    case None
    then show ?thesis using "1.prems" by (auto simp: strtok_loop.simps [of s] c_strtok_toks [of _ s] intro!: exI [of _ env])
  next
    case (Some x)
    then obtain p r where pr: "c_strtok (CHR '':'') s = Some (p, r)" by (cases x) auto
    note f = c_strtok_nul_free [OF pr "1.prems"(3)] c_strtok_shorter [OF pr]
    obtain env1 where e: "append_env st p = Inr (st\<lparr>fi_env := Some env1\<rparr>)" "sl_rep env1 (ds @ [p])"
      using append_env_rep [OF "1.prems"(1,2), of p] f "1.prems"(4) by auto
    then obtain env2 where "strtok_loop r (st\<lparr>fi_env := Some env1\<rparr>) = Inr (st\<lparr>fi_env := Some env2\<rparr>)"
      "sl_rep env2 ((ds @ [p]) @ toks (CHR '':'') r)"
      using "1.IH" [OF pr refl e(1) _ e(2)] f "1.prems"(4) by auto
    then show ?thesis using e pr by (auto simp: strtok_loop.simps [of s] c_strtok_toks [of _ s])
  qed
qed

definition is_dir :: "file_system \<Rightarrow> string \<Rightarrow> bool" where
  "is_dir fs p = (case fs_mode fs p of None \<Rightarrow> False | Some m \<Rightarrow> m AND S_IFDIR \<noteq> 0)"

lemma glob_loop_rep:
  "fi_env st = Some env \<Longrightarrow> sl_rep env ds \<Longrightarrow> \<forall>p \<in> set ps. fs_mode fs p \<noteq> None \<and> nul_free p \<and> length p < 2 ^ 30 \<Longrightarrow>
   length ps + length ds < 2 ^ 30 \<Longrightarrow>
   \<exists>env'. glob_loop fs ps s st = Inr (st\<lparr>fi_env := Some env'\<rparr>) \<and> sl_rep env' (ds @ filter (is_dir fs) ps)"
proof (induction ps arbitrary: s st env ds)
  case (Cons p ps)
  obtain m where m: "fs_mode fs p = Some m" using Cons.prems(3) by auto
  show ?case
  proof (cases "is_dir fs p")
    case True
    obtain env1 where e: "append_env st p = Inr (st\<lparr>fi_env := Some env1\<rparr>)" "sl_rep env1 (ds @ [p])"
      using append_env_rep [OF Cons.prems(1,2), of p] Cons.prems(3,4) by auto
    then show ?thesis
      using Cons.IH [of "st\<lparr>fi_env := Some env1\<rparr>" env1 "ds @ [p]" "Val m"] Cons.prems m True
      by (auto simp: is_dir_def)
  next
    case False
    then show ?thesis using Cons.IH [OF Cons.prems(1,2), of "Val m"] Cons.prems m by (auto simp: is_dir_def)
  qed
next
  case Nil
  then show ?case by (auto intro!: exI [of _ env])
qed

text \<open>The directories the search looks into, from the environment and the file system.\<close>

definition search_path :: "file_system \<Rightarrow> string \<Rightarrow> string list" where
  "search_path fs root =
     (case fs_getenv fs ''PGEN_PATH'' of None \<Rightarrow> [] | Some v \<Rightarrow> toks (CHR '':'') v) @
     filter (is_dir fs) (fs_glob fs (root @ ''/*'')) @
     (case fs_getenv fs ''PATH'' of None \<Rightarrow> [] | Some v \<Rightarrow> toks (CHR '':'') v)"

text \<open>
  The environment and the files are fit for the buffers: the parent directory resolves to \<open>root\<close>,
  whatever glob finds exists, and nothing is longer than the memory of the program allows.
\<close>

definition fs_fits :: "file_system \<Rightarrow> string \<Rightarrow> bool" where
  "fs_fits fs root \<longleftrightarrow>
     fs_realpath fs ''..'' = Some root \<and> nul_free root \<and> length root + 2 < PATH_SIZE \<and>
     (\<forall>v. fs_getenv fs ''PGEN_PATH'' = Some v \<longrightarrow> nul_free v \<and> length v < 2 ^ 28) \<and>
     (\<forall>v. fs_getenv fs ''PATH'' = Some v \<longrightarrow> nul_free v \<and> length v < 2 ^ 28) \<and>
     (\<forall>p \<in> set (fs_glob fs (root @ ''/*'')). fs_mode fs p \<noteq> None \<and> nul_free p \<and> length p < 2 ^ 30) \<and>
     length (fs_glob fs (root @ ''/*'')) < 2 ^ 28"

lemma add_env_rep:
  assumes "fi_env st = Some env" "sl_rep env ds"
    and "\<forall>v. fs_getenv fs x = Some v \<longrightarrow> nul_free v \<and> length v < 2 ^ 28" "length ds < 2 ^ 29"
  shows "\<exists>env'. add_env fs x st = Inr (st\<lparr>fi_env := Some env'\<rparr>) \<and>
    sl_rep env' (ds @ (case fs_getenv fs x of None \<Rightarrow> [] | Some v \<Rightarrow> toks (CHR '':'') v))"
proof (cases "fs_getenv fs x")
  case None
  then show ?thesis using assms by (auto simp: add_env_def intro!: exI [of _ env])
next
  case (Some v)
  then show ?thesis using strtok_loop_rep [OF assms(1,2), of v] assms(3,4) by (auto simp: add_env_def)
qed

lemma setup_env_rep:
  assumes fs: "fs_fits fs root" and b: "length (fi_buffer st) = PATH_SIZE"
  shows "\<exists>st' env. setup_env fs st = Inr st' \<and> fi_env st' = Some env \<and> sl_rep env (search_path fs root) \<and>
    length (fi_buffer st') = PATH_SIZE"
proof -
  note fs' = fs [unfolded fs_fits_def]
  let ?pg = "case fs_getenv fs ''PGEN_PATH'' of None \<Rightarrow> [] | Some v \<Rightarrow> toks (CHR '':'') v"
  let ?gl = "filter (is_dir fs) (fs_glob fs (root @ ''/*''))"
  obtain e1 where e1: "add_env fs ''PGEN_PATH'' (st\<lparr>fi_env := Some create_string_list\<rparr>) =
      Inr (st\<lparr>fi_env := Some e1\<rparr>)" "sl_rep e1 ?pg"
    using add_env_rep [of "st\<lparr>fi_env := Some create_string_list\<rparr>" create_string_list "[]" fs "''PGEN_PATH''"]
      create_string_list_rep fs' by auto
  have lpg: "length ?pg < 2 ^ 28"
    using fs' length_toks order.strict_trans1 by (auto split: option.split) blast
  obtain b1 where b1: "c_strcpy (fi_buffer st) root = Inr b1" "str_at b1 root" "length b1 = PATH_SIZE"
    using c_strcpy_at [of root "fi_buffer st"] fs' b by auto
  obtain b2 where b2: "c_strcat b1 ''/*'' = Inr b2" "str_at b2 (root @ ''/*'')" "length b2 = PATH_SIZE"
    using c_strcat_at [OF b1(2), of "''/*''"] b1(3) fs' by auto
  let ?st = "st\<lparr>fi_env := Some e1, fi_buffer := b2\<rparr>"
  obtain e2 where e2: "glob_loop fs (fs_glob fs (root @ ''/*'')) Undef ?st = Inr (?st\<lparr>fi_env := Some e2\<rparr>)"
    "sl_rep e2 (?pg @ ?gl)"
    using glob_loop_rep [of ?st e1 ?pg "fs_glob fs (root @ ''/*'')" fs Undef] e1(2) fs' lpg by auto
  have "add_dirs fs ''..'' (st\<lparr>fi_env := Some e1\<rparr>) = Inr (?st\<lparr>fi_env := Some e2\<rparr>)"
    using fs' b1 b2 e2 cstr_at_0 [OF b2(2)] by (simp add: add_dirs_def get_path_def)
  moreover have "length ?gl < 2 ^ 28"
    using length_filter_le [of "is_dir fs" "fs_glob fs (root @ ''/*'')"] fs' by linarith
  with lpg have "length (?pg @ ?gl) < 2 ^ 29" by simp
  then obtain e3 where "add_env fs ''PATH'' (?st\<lparr>fi_env := Some e2\<rparr>) = Inr (?st\<lparr>fi_env := Some e3\<rparr>)"
    "sl_rep e3 (search_path fs root)"
    using add_env_rep [of "?st\<lparr>fi_env := Some e2\<rparr>" e2 "?pg @ ?gl" fs "''PATH''"] e2(2) fs'
    by (auto simp: search_path_def)
  ultimately show ?thesis using e1(1) b2(3) by (auto simp: setup_env_def)
qed

section \<open>The search\<close>

definition in_dir :: "string \<Rightarrow> string \<Rightarrow> string" where
  "in_dir name d = d @ ''/'' @ name"

lemma try_dir_rep:
  assumes "sb_ok s" "length buf = PATH_SIZE" "nul_free name" "length (the_str s) + 1 + length name < PATH_SIZE"
  shows "\<exists>b. try_dir fs name s (buf, found) =
     Inr (file_exists fs (in_dir name (the_str s)), b,
          if file_exists fs (in_dir name (the_str s)) then Some (in_dir name (the_str s)) else found) \<and>
     length b = PATH_SIZE"
proof -
  have d: "nul_free (the_str s)" "cstr (sb_buffer s) 0 = Inr (the_str s)"
    using sb_strD [OF sb_rep_str [OF sb_okD [OF assms(1)]]] by (auto dest: str_atD)
  obtain b1 where b1: "c_strncpy buf (the_str s) PATH_SIZE = Inr b1" "str_at b1 (the_str s)" "length b1 = PATH_SIZE"
    using c_strncpy_at [OF d(1), of PATH_SIZE buf] assms by auto
  obtain b2 where b2: "c_strcat b1 ''/'' = Inr b2" "str_at b2 (the_str s @ ''/'')" "length b2 = PATH_SIZE"
    using c_strcat_at [OF b1(2), of "''/''"] b1(3) assms by auto
  obtain b3 where b3: "c_strcat b2 name = Inr b3" "str_at b3 (in_dir name (the_str s))" "length b3 = PATH_SIZE"
    using c_strcat_at [OF b2(2), of name] b2(3) assms by (auto simp: in_dir_def)
  then show ?thesis using d b1 b2 by (auto simp: try_dir_def)
qed

lemma try_dirs:
  "\<forall>s \<in> set xs. sb_ok s \<and> length (the_str s) + 1 + length name < PATH_SIZE \<Longrightarrow> nul_free name \<Longrightarrow>
   length buf = PATH_SIZE \<Longrightarrow>
   \<exists>b v. loop_list (try_dir fs name) (map Some xs) m (buf, None) =
     Inr ((b, find (file_exists fs) (map (in_dir name \<circ> the_str) xs)), v) \<and> length b = PATH_SIZE"
proof (induction xs arbitrary: m buf)
  case (Cons s xs)
  obtain b where b: "try_dir fs name s (buf, None) =
     Inr (file_exists fs (in_dir name (the_str s)), b,
          if file_exists fs (in_dir name (the_str s)) then Some (in_dir name (the_str s)) else None)"
    "length b = PATH_SIZE"
    using try_dir_rep [of s buf name fs None] Cons.prems by auto
  show ?case using b Cons.IH [OF _ Cons.prems(2) b(2)] Cons.prems(1) by auto
qed simp

text \<open>The name that is searched for.\<close>

definition full_name :: "string \<Rightarrow> string \<Rightarrow> string" where
  "full_name fname ext =
     (case c_strrchr fname (CHR ''.'') of
        Some k \<Rightarrow> if drop k fname = ext then fname else fname @ ext | None \<Rightarrow> fname @ ext)"

lemma with_ext_rep:
  assumes "nul_free fname" "nul_free ext" "length (full_name fname ext) < PATH_SIZE"
  shows "with_ext fname ext = Inr (full_name fname ext) \<and> nul_free (full_name fname ext)"
proof -
  define P where "P = (case c_strrchr fname (CHR ''.'') of None \<Rightarrow> True | Some k \<Rightarrow> drop k fname \<noteq> ext)"
  have f: "full_name fname ext = (if P then fname @ ext else fname)"
    by (simp add: full_name_def P_def split: option.split)
  have w: "with_ext fname ext = (if P then rbind (c_strcpy (blk_alloc PATH_SIZE NUL) fname) (\<lambda>b.
      rbind (c_strcat b ext) (\<lambda>b. cstr b 0)) else Inr fname)"
    by (simp add: with_ext_def P_def split: option.split)
  show ?thesis
  proof (cases P)
    case True
    then have l: "length fname + length ext < PATH_SIZE" using assms(3) f by simp
    obtain b1 where b1: "c_strcpy (blk_alloc PATH_SIZE NUL) fname = Inr b1" "str_at b1 fname" "length b1 = PATH_SIZE"
      using c_strcpy_at [of fname "blk_alloc PATH_SIZE NUL"] assms l by auto
    obtain b2 where "c_strcat b1 ext = Inr b2" "str_at b2 (fname @ ext)"
      using c_strcat_at [OF b1(2) assms(2)] b1(3) l by auto
    then show ?thesis using b1 True assms by (simp add: w f)
  qed (use assms in \<open>simp add: w f\<close>)
qed

lemma find_file_result:
  assumes fs: "fs_fits fs root" and n: "nul_free fname" "nul_free ext"
    and fit: "\<forall>d \<in> set (search_path fs root). length d + 1 + length (full_name fname ext) < PATH_SIZE"
      "length (full_name fname ext) < PATH_SIZE"
    and st: "length (fi_buffer st) = PATH_SIZE"
      "fi_env st = None \<or> (\<exists>env. fi_env st = Some env \<and> sl_rep env (search_path fs root))"
  shows "\<exists>st' env. find_file fs fname ext st =
      Inr (case find (file_exists fs) (map (in_dir (full_name fname ext)) (search_path fs root)) of
             None \<Rightarrow> fname | Some p \<Rightarrow> p, st') \<and>
    fi_env st' = Some env \<and> sl_rep env (search_path fs root) \<and> length (fi_buffer st') = PATH_SIZE"
proof -
  define name where "name = full_name fname ext"
  have w: "with_ext fname ext = Inr name" "nul_free name"
    using with_ext_rep [OF n fit(2)] by (auto simp: name_def)
  obtain st1 env where st1: "(if fi_env st = None then setup_env fs st else Inr st) = Inr st1"
    "fi_env st1 = Some env" "sl_rep env (search_path fs root)" "length (fi_buffer st1) = PATH_SIZE"
    using setup_env_rep [OF fs st(1)] st by auto
  obtain xs where xs: "pl_rep env (map Some xs)" "\<forall>x \<in> set xs. sb_ok x" "search_path fs root = map the_str xs"
    using st1(3) by (auto simp: sl_rep_def)
  have "\<forall>s \<in> set xs. sb_ok s \<and> length (the_str s) + 1 + length name < PATH_SIZE"
    using fit(1) xs by (auto simp: name_def)
  from try_dirs [OF this w(2) st1(4), of fs 0]
  obtain b v where l: "loop_list (try_dir fs name) (map Some xs) 0 (fi_buffer st1, None) =
      Inr ((b, find (file_exists fs) (map (in_dir name \<circ> the_str) xs)), v)" "length b = PATH_SIZE" by blast
  have "iter_while (try_dir fs name) (fi_env st1) 0 (fi_buffer st1, None) =
      Inr ((b, find (file_exists fs) (map (in_dir name) (search_path fs root))), v)"
    using l(1) iter_while_rep [OF xs(1), of 0 "try_dir fs name"] st1(2) xs(3) by simp
  moreover obtain r m where "v = (r, m)" by (cases v)
  ultimately show ?thesis using st1 l(2) w by (auto simp: find_file_def name_def [symmetric])
qed

section \<open>Properties\<close>

text \<open>find_file searches as it says.  The first call builds the search path (the pieces of PGEN_PATH,
  the subdirectories of the parent directory, the pieces of PATH; empty pieces are dropped); the
  result is the first existing file with the full name in these directories, in that order, or the
  name that was given when there is none.  The extension is added unless the part from the last dot
  is the extension.  The path is kept for later calls, which search it again.  The names must fit the
  buffers of 256 bytes.\<close>

theorem find_file_searches:
  assumes fs: "fs_fits fs root" and n: "nul_free fname" "nul_free ext"
    and fit: "\<forall>d \<in> set (search_path fs root). length d + 1 + length (full_name fname ext) < PATH_SIZE"
      "length (full_name fname ext) < PATH_SIZE"
    and st: "length (fi_buffer st) = PATH_SIZE"
      "fi_env st = None \<or> (\<exists>env. fi_env st = Some env \<and> sl_rep env (search_path fs root))"
  shows "\<exists>st' env. find_file fs fname ext st =
      Inr (case find (file_exists fs) (map (in_dir (full_name fname ext)) (search_path fs root)) of
             None \<Rightarrow> fname | Some p \<Rightarrow> p, st') \<and>
    fi_env st' = Some env \<and> sl_rep env (search_path fs root) \<and> length (fi_buffer st') = PATH_SIZE"
  using assms by (rule find_file_result)

text \<open>A file system with one file, two directories in the path and an empty piece between them.\<close>

definition sample_fs :: file_system where
  "sample_fs = \<lparr>fs_getenv = (\<lambda>x. if x = ''PATH'' then Some ''/bin::/lib'' else None),
     fs_realpath = (\<lambda>x. if x = ''..'' then Some ''/vm'' else None), fs_glob = (\<lambda>x. []),
     fs_mode = (\<lambda>x. if x = ''/lib/a.asm'' then Some 0x8000 else None)\<rparr>"

theorem find_file_searches_witness:
  "\<exists>st. find_file sample_fs ''a'' ''.asm'' fileio_start = Inr (''/lib/a.asm'', st)"
proof -
  have fits: "fs_fits sample_fs ''/vm''" by (simp add: fs_fits_def sample_fs_def)
  have "toks (CHR '':'') ''/bin::/lib'' = [''/bin'', ''/lib'']" by code_simp
  then have path: "search_path sample_fs ''/vm'' = [''/bin'', ''/lib'']" by (simp add: search_path_def sample_fs_def)
  have name: "full_name ''a'' ''.asm'' = ''a.asm''" by (simp add: full_name_def)
  have ex: "find (file_exists sample_fs) (map (in_dir ''a.asm'') [''/bin'', ''/lib'']) = Some ''/lib/a.asm''"
    by (simp add: in_dir_def file_exists_def sample_fs_def)
  have "length (fi_buffer fileio_start) = PATH_SIZE" "fi_env fileio_start = None" by (simp_all add: fileio_start_def)
  from find_file_searches [OF fits, of "''a''" "''.asm''" fileio_start, unfolded path name ex] this
  show ?thesis by auto
qed

text \<open>A file name that does not fit is not rejected: when the extension has to be added and name and
  extension together have 256 characters or more, find_file writes beyond the buffer it allocated.\<close>

theorem long_name_overruns:
  assumes "nul_free fname" "nul_free ext" "full_name fname ext = fname @ ext" "ext \<noteq> []"
    and "PATH_SIZE \<le> length fname + length ext"
  shows "find_file fs fname ext st = Inl Out_Of_Bounds"
proof -
  have P: "with_ext fname ext = rbind (c_strcpy (blk_alloc PATH_SIZE NUL) fname) (\<lambda>b.
      rbind (c_strcat b ext) (\<lambda>b. cstr b 0))"
    using assms(3,4) by (auto simp: full_name_def with_ext_def split: option.splits if_splits)
  have "with_ext fname ext = Inl Out_Of_Bounds"
  proof (cases "length fname < PATH_SIZE")
    case True
    obtain b where b: "c_strcpy (blk_alloc PATH_SIZE NUL) fname = Inr b" "str_at b fname" "length b = PATH_SIZE"
      using c_strcpy_at [of fname "blk_alloc PATH_SIZE NUL"] assms(1) True by auto
    have "c_strcat b ext = Inl Out_Of_Bounds"
      using store_all_out [of b "length fname" "ext @ [NUL]"] assms(5) b True by (simp add: c_strcat_def)
    then show ?thesis using b P by simp
  next
    case False
    then have "c_strcpy (blk_alloc PATH_SIZE NUL) fname = Inl Out_Of_Bounds"
      using store_all_out [of "blk_alloc PATH_SIZE NUL" 0 "fname @ [NUL]"] by (simp add: c_strcpy_def)
    then show ?thesis using P by simp
  qed
  then show ?thesis by (simp add: find_file_def)
qed

theorem long_name_overruns_witness:
  "find_file sample_fs (replicate 255 (CHR ''a'')) ''.asm'' fileio_start = Inl Out_Of_Bounds"
proof (rule long_name_overruns)
  have "CHR ''.'' \<notin> set (replicate 255 (CHR ''a''))" by simp
  then have "c_strrchr (replicate 255 (CHR ''a'')) (CHR ''.'') = None" using c_strrchr_None by blast
  then show "full_name (replicate 255 (CHR ''a'')) ''.asm'' = replicate 255 (CHR ''a'') @ ''.asm''"
    by (simp only: full_name_def option.case)
qed (simp_all add: nul_free_def)

end
