(* ===== verification/File_Stack.thy ===== *)
theory File_Stack
  imports Fileio Heap
begin

text \<open>
  src/src/assembler/file_io.c and the rule for the end of a file in scanner.l: the stack of open input
  files with the position in each.

  The stack is linked through the heap of its nodes.  \<open>fopen\<close> is a parameter that gives the text of a
  file; a stream is that text.  The scanner buffers are made and read by generated code: here they are
  the numbers of the texts they were made for, in the order of their creation, and the scanner state
  that these functions touch is \<open>yyin\<close> and the number of the buffer the scanner reads.  The text of the
  current token is an argument.
\<close>

section \<open>State\<close>

record file_t =
  fl_name :: string_t
  fl_fp :: "string option"
  fl_line :: int
  fl_column :: int
  fl_is_open :: bool
  fl_buffer :: nat
  fl_next :: "nat option"

record file_stack =
  st_top :: "nat option"
  st_heap :: "file_t heap"
  st_yyin :: "string option"
  st_buffers :: "string list"
  st_current :: "nat option"
  st_finder :: fileio

definition stack_start :: file_stack where
  "stack_start = \<lparr>st_top = None, st_heap = [], st_yyin = None, st_buffers = [], st_current = None, st_finder = fileio_start\<rparr>"

section \<open>Operations\<close>

definition push_file_buffer :: "nat \<Rightarrow> file_stack \<Rightarrow> file_stack res" where
  "push_file_buffer ptr st =
     rbind (if st_top st \<noteq> None
            then hp_upd (st_heap st) (Some ptr) (\<lambda>n. n\<lparr>fl_next := st_top st\<rparr>)
            else Inr (st_heap st)) (\<lambda>h.
     Inr (st\<lparr>st_heap := h, st_top := Some ptr\<rparr>))"

definition pop_file_buffer :: "file_stack \<Rightarrow> (nat option \<times> file_stack) res" where
  "pop_file_buffer st =
     (if st_top st \<noteq> None
      then rbind (hp_get (st_heap st) (st_top st)) (\<lambda>n. Inr (fl_next n, st\<lparr>st_top := fl_next n\<rparr>))
      else Inr (None, st))"

definition get_file_buffer :: "file_stack \<Rightarrow> nat option" where
  "get_file_buffer st = st_top st"

definition open_file ::
  "file_system \<Rightarrow> (string \<Rightarrow> string option) \<Rightarrow> string \<Rightarrow> string \<Rightarrow> file_stack \<Rightarrow> file_stack res" where
  "open_file fs fopen name ext st =
     rbind (find_file fs name ext (st_finder st)) (\<lambda>(fn, fi).
     let st = st\<lparr>st_finder := fi, st_yyin := fopen fn\<rparr> in
     case fopen fn of
       None \<Rightarrow> Inl Fatal_Exit
     | Some text0 \<Rightarrow>
         rbind (create_string (Some fn)) (\<lambda>nm.
         let (ptr, h) = hp_new (st_heap st)
               \<lparr>fl_name = nm, fl_fp = Some text0, fl_line = 1, fl_column = 1, fl_is_open = True,
                fl_buffer = length (st_buffers st), fl_next = None\<rparr>
         in push_file_buffer ptr
              (st\<lparr>st_heap := h, st_buffers := st_buffers st @ [text0],
                 st_current := Some (length (st_buffers st))\<rparr>)))"

definition get_line_no :: "file_stack \<Rightarrow> int res" where
  "get_line_no st =
     (if st_top st \<noteq> None then rbind (hp_get (st_heap st) (st_top st)) (\<lambda>n. Inr (fl_line n)) else Inr (- 1))"

definition get_col_no :: "file_stack \<Rightarrow> int res" where
  "get_col_no st =
     (if st_top st \<noteq> None then rbind (hp_get (st_heap st) (st_top st)) (\<lambda>n. Inr (fl_column n)) else Inr (- 1))"

definition get_base_file_name :: "string_t \<Rightarrow> string res" where
  "get_base_file_name str =
     rbind (cstr (sb_buffer str) 0) (\<lambda>s.
     Inr (case c_strrchr s (CHR ''/'') of
            None \<Rightarrow> s | Some k \<Rightarrow> if drop (Suc k) s \<noteq> [] then drop (Suc k) s else s))"

definition get_file_name :: "file_stack \<Rightarrow> string option res" where
  "get_file_name st =
     (if st_top st \<noteq> None
      then rbind (hp_get (st_heap st) (st_top st)) (\<lambda>n.
           rbind (get_base_file_name (fl_name n)) (\<lambda>s. Inr (Some s)))
      else Inr None)"

definition update_numbers :: "string \<Rightarrow> file_stack \<Rightarrow> file_stack res" where
  "update_numbers yytext st =
     (let nl = length (filter (\<lambda>c. c = CHR 0x0A) yytext) in
      rbind (hp_get (st_heap st) (st_top st)) (\<lambda>n.
      rbind (if nl \<noteq> 0
             then rbind (chk (fl_line n + int nl)) (\<lambda>l. Inr (n\<lparr>fl_line := l, fl_column := 1\<rparr>))
             else rbind (chk (fl_column n + int (length yytext))) (\<lambda>c. Inr (n\<lparr>fl_column := c\<rparr>))) (\<lambda>n.
      rbind (hp_upd (st_heap st) (st_top st) (\<lambda>_. n)) (\<lambda>h. Inr (st\<lparr>st_heap := h\<rparr>)))))"

text \<open>
  The rule for the end of a file: \<open>True\<close> when the scanner ends (\<open>yyterminate\<close>).  Without an open file
  the rule does nothing.
\<close>

definition eof_rule :: "file_stack \<Rightarrow> (bool \<times> file_stack) res" where
  "eof_rule st =
     (case get_file_buffer st of
        None \<Rightarrow> Inr (False, st)
      | Some ptr \<Rightarrow>
          rbind (hp_get (st_heap st) (Some ptr)) (\<lambda>n.
          rbind (pop_file_buffer st) (\<lambda>(_, st).
          rbind (hp_free (st_heap st) (Some ptr)) (\<lambda>h.
          let st = st\<lparr>st_heap := h\<rparr> in
          case get_file_buffer st of
            None \<Rightarrow> Inr (True, st)
          | Some p \<Rightarrow>
              rbind (hp_get h (Some p)) (\<lambda>m. Inr (False, st\<lparr>st_current := Some (fl_buffer m)\<rparr>))))))"

section \<open>The stack as a list\<close>

text \<open>What is seen of an open file: its name, its scanner buffer and the position in it.\<close>

record input_file =
  if_name :: string
  if_buffer :: nat
  if_line :: int
  if_column :: int

definition node_rep :: "file_t \<Rightarrow> input_file \<Rightarrow> bool" where
  "node_rep n f \<longleftrightarrow> sb_rep (fl_name n) (if_name f) \<and> fl_buffer n = if_buffer f \<and>
     fl_line n = if_line f \<and> fl_column n = if_column f"

fun fseg :: "file_t heap \<Rightarrow> nat option \<Rightarrow> (nat \<times> input_file) list \<Rightarrow> bool" where
  "fseg h p [] \<longleftrightarrow> p = None"
| "fseg h p ((a, f) # fs) \<longleftrightarrow>
     p = Some a \<and> a < length h \<and> (\<exists>n. h ! a = Some n \<and> node_rep n f \<and> fseg h (fl_next n) fs)"

definition stack_rep :: "file_stack \<Rightarrow> input_file list \<Rightarrow> bool" where
  "stack_rep st fs \<longleftrightarrow>
     (\<exists>afs. map snd afs = fs \<and> distinct (map fst afs) \<and> fseg (st_heap st) (st_top st) afs)"

lemma fseg_other: "a \<notin> fst ` set fs \<Longrightarrow> fseg (h[a := x]) p fs = fseg h p fs"
proof (induction fs arbitrary: p)
  case (Cons f fs)
  then show ?case by (cases f) auto
qed simp

lemma fseg_append: "fseg h p fs \<Longrightarrow> fseg (h @ h') p fs"
proof (induction fs arbitrary: p)
  case (Cons f fs)
  then show ?case by (cases f) (auto simp: nth_append)
qed simp

lemma fseg_bound: "fseg h p fs \<Longrightarrow> a \<in> fst ` set fs \<Longrightarrow> a < length h"
proof (induction fs arbitrary: p)
  case (Cons f fs)
  then show ?case by (cases f) auto
qed simp

lemma stack_rep_Nil: "stack_rep st [] \<longleftrightarrow> st_top st = None"
  by (auto simp: stack_rep_def)

lemma stack_rep_Cons:
  assumes "stack_rep st (f # fs)"
  obtains a n afs where "st_top st = Some a" "a < length (st_heap st)" "st_heap st ! a = Some n" "node_rep n f"
    "fseg (st_heap st) (fl_next n) afs" "map snd afs = fs" "distinct (map fst afs)" "a \<notin> fst ` set afs"
proof -
  obtain bfs where b: "map snd bfs = f # fs" "distinct (map fst bfs)" "fseg (st_heap st) (st_top st) bfs"
    using assms unfolding stack_rep_def by (elim exE conjE) (rule that)
  then obtain a afs where "bfs = (a, f) # afs" "map snd afs = fs" by (cases bfs) auto
  with b that show thesis by auto
qed

lemma push_new_rep:
  assumes st: "stack_rep st fs" and n: "node_rep n f" "fl_next n = None"
    and s2: "st_heap s2 = st_heap st @ [Some n]" "st_top s2 = st_top st"
  shows "\<exists>st'. push_file_buffer (length (st_heap st)) s2 = Inr st' \<and>
    stack_rep st' (f # fs) \<and> st_finder st' = st_finder s2 \<and> st_buffers st' = st_buffers s2 \<and> st_current st' = st_current s2"
proof -
  let ?a = "length (st_heap st)"
  obtain afs where afs: "map snd afs = fs" "distinct (map fst afs)" "fseg (st_heap st) (st_top st) afs"
    using st unfolding stack_rep_def by (elim exE conjE) (rule that)
  let ?n = "n\<lparr>fl_next := st_top st\<rparr>"
  let ?h = "st_heap st @ [Some ?n]"
  have fresh: "?a \<notin> fst ` set afs" using fseg_bound [OF afs(3)] by blast
  have "fseg ?h (Some ?a) ((?a, f) # afs)"
    using fseg_append [OF afs(3)] n(1) by (simp add: node_rep_def)
  then have "stack_rep (s2\<lparr>st_heap := ?h, st_top := Some ?a\<rparr>) (f # fs)"
    using afs fresh by (auto simp: stack_rep_def intro!: exI [of _ "(?a, f) # afs"])
  moreover have "?n = n" if "st_top st = None" using that n(2) by simp
  ultimately show ?thesis
    using s2 by (cases "st_top st") (auto simp: push_file_buffer_def)
qed

text \<open>What a token does to the position.\<close>

definition advance_pos :: "string \<Rightarrow> input_file \<Rightarrow> input_file option" where
  "advance_pos t f =
     (let nl = length (filter (\<lambda>c. c = CHR 0x0A) t);
          g = (if nl = 0 then f\<lparr>if_column := if_column f + int (length t)\<rparr>
               else f\<lparr>if_line := if_line f + int nl, if_column := 1\<rparr>)
      in if if_line g \<le> INT_MAX \<and> if_column g \<le> INT_MAX \<and> 0 \<le> if_line f \<and> 0 \<le> if_column f
         then Some g else None)"

lemma update_numbers_rep:
  assumes st: "stack_rep st (f # fs)" and g: "advance_pos t f = Some g"
  shows "\<exists>st'. update_numbers t st = Inr st' \<and> stack_rep st' (g # fs) \<and> st_finder st' = st_finder st"
proof -
  obtain a n afs where n: "st_top st = Some a" "a < length (st_heap st)" "st_heap st ! a = Some n" "node_rep n f"
    "fseg (st_heap st) (fl_next n) afs" "map snd afs = fs" "distinct (map fst afs)" "a \<notin> fst ` set afs"
    by (rule stack_rep_Cons [OF st])
  define m where "m = (if filter (\<lambda>c. c = CHR 0x0A) t = [] then n\<lparr>fl_column := if_column g\<rparr>
      else n\<lparr>fl_line := if_line g, fl_column := 1\<rparr>)"
  have m: "node_rep m g" "fl_next m = fl_next n"
    using n(4) g by (auto simp: m_def node_rep_def advance_pos_def Let_def split: if_splits)
  have "update_numbers t st = Inr (st\<lparr>st_heap := (st_heap st)[a := Some m]\<rparr>)"
    using n(1-4) g by (auto simp: update_numbers_def advance_pos_def Let_def m_def node_rep_def split: if_splits)
  moreover have "stack_rep (st\<lparr>st_heap := (st_heap st)[a := Some m]\<rparr>) (g # fs)"
    using n m by (auto simp: stack_rep_def fseg_other intro!: exI [of _ "(a, g) # afs"])
  ultimately show ?thesis by auto
qed

lemma eof_rule_rep:
  assumes st: "stack_rep st (f # fs)"
  shows "\<exists>st'. eof_rule st = Inr (fs = [], st') \<and> stack_rep st' fs \<and> st_finder st' = st_finder st \<and>
    (fs \<noteq> [] \<longrightarrow> st_current st' = Some (if_buffer (hd fs)))"
proof -
  obtain a n afs where n: "st_top st = Some a" "a < length (st_heap st)" "st_heap st ! a = Some n" "node_rep n f"
    "fseg (st_heap st) (fl_next n) afs" "map snd afs = fs" "distinct (map fst afs)" "a \<notin> fst ` set afs"
    by (rule stack_rep_Cons [OF st])
  let ?h = "(st_heap st)[a := None]"
  have seg: "fseg ?h (fl_next n) afs" using n(5,8) by (simp add: fseg_other)
  show ?thesis
  proof (cases afs)
    case Nil
    then show ?thesis using n seg
      by (auto simp: eof_rule_def get_file_buffer_def pop_file_buffer_def Let_def stack_rep_def)
  next
    case (Cons x bfs)
    obtain b g where x: "x = (b, g)" by (cases x)
    then obtain m where m: "fl_next n = Some b" "b < length ?h" "?h ! b = Some m" "node_rep m g"
      using seg Cons by auto
    then have "eof_rule st = Inr (False, st\<lparr>st_top := fl_next n, st_heap := ?h, st_current := Some (fl_buffer m)\<rparr>)"
      using n(1-3) by (simp add: eof_rule_def get_file_buffer_def pop_file_buffer_def Let_def)
    moreover have "stack_rep (st\<lparr>st_top := fl_next n, st_heap := ?h, st_current := Some (fl_buffer m)\<rparr>) fs"
      using seg n(6,7) by (auto simp: stack_rep_def)
    moreover have "fs \<noteq> []" "hd fs = g" using n(6) Cons x by auto
    ultimately show ?thesis using m(4) by (auto simp: node_rep_def)
  qed
qed

section \<open>Opening a file\<close>

text \<open>The name find_file resolves to, and the conditions under which it works (theory Fileio).\<close>

definition resolved :: "file_system \<Rightarrow> string \<Rightarrow> string \<Rightarrow> string \<Rightarrow> string" where
  "resolved fs root name ext =
     (case find (file_exists fs) (map (in_dir (full_name name ext)) (search_path fs root)) of
        None \<Rightarrow> name | Some p \<Rightarrow> p)"

definition name_fits :: "file_system \<Rightarrow> string \<Rightarrow> string \<Rightarrow> string \<Rightarrow> bool" where
  "name_fits fs root name ext \<longleftrightarrow>
     nul_free name \<and> nul_free ext \<and> length (full_name name ext) < PATH_SIZE \<and> length name < 2 ^ 30 \<and>
     nul_free (resolved fs root name ext) \<and> length (resolved fs root name ext) < 2 ^ 30 \<and>
     (\<forall>d \<in> set (search_path fs root). length d + 1 + length (full_name name ext) < PATH_SIZE)"

definition finder_ok :: "file_system \<Rightarrow> string \<Rightarrow> fileio \<Rightarrow> bool" where
  "finder_ok fs root fi \<longleftrightarrow> fs_fits fs root \<and> length (fi_buffer fi) = PATH_SIZE \<and>
     (fi_env fi = None \<or> (\<exists>env. fi_env fi = Some env \<and> sl_rep env (search_path fs root)))"

lemma find_file_ok:
  assumes "finder_ok fs root fi" "name_fits fs root name ext"
  shows "\<exists>fi'. find_file fs name ext fi = Inr (resolved fs root name ext, fi') \<and> finder_ok fs root fi'"
  using find_file_result [of fs root name ext fi] assms
  by (auto simp: finder_ok_def name_fits_def resolved_def)

lemma open_file_rep:
  assumes st: "stack_rep st fs" "finder_ok fsys root (st_finder st)"
    and n: "name_fits fsys root name ext" "fopen (resolved fsys root name ext) = Some text0"
  shows "\<exists>st'. open_file fsys fopen name ext st = Inr st' \<and> finder_ok fsys root (st_finder st') \<and>
    stack_rep st' (\<lparr>if_name = resolved fsys root name ext, if_buffer = length (st_buffers st), if_line = 1,
      if_column = 1\<rparr> # fs) \<and>
    st_buffers st' = st_buffers st @ [text0] \<and> st_current st' = Some (length (st_buffers st))"
proof -
  obtain fi where fi: "find_file fsys name ext (st_finder st) = Inr (resolved fsys root name ext, fi)"
    "finder_ok fsys root fi" using find_file_ok [OF st(2) n(1)] by blast
  obtain nm where nm: "create_string (Some (resolved fsys root name ext)) = Inr nm" "sb_rep nm (resolved fsys root name ext)"
    using create_string_rep [of "resolved fsys root name ext"] n(1) by (auto simp: name_fits_def)
  let ?n = "\<lparr>fl_name = nm, fl_fp = Some text0, fl_line = 1, fl_column = 1, fl_is_open = True,
      fl_buffer = length (st_buffers st), fl_next = None\<rparr>"
  let ?st = "st\<lparr>st_finder := fi, st_yyin := Some text0, st_heap := st_heap st @ [Some ?n],
     st_buffers := st_buffers st @ [text0], st_current := Some (length (st_buffers st))\<rparr>"
  obtain st' where st': "push_file_buffer (length (st_heap st)) ?st = Inr st'"
    "stack_rep st' (\<lparr>if_name = resolved fsys root name ext, if_buffer = length (st_buffers st), if_line = 1,
      if_column = 1\<rparr> # fs)" "st_finder st' = fi" "st_buffers st' = st_buffers st @ [text0]"
    "st_current st' = Some (length (st_buffers st))"
    using push_new_rep [OF st(1), of ?n "\<lparr>if_name = resolved fsys root name ext, if_buffer = length (st_buffers st), if_line = 1,
      if_column = 1\<rparr>" ?st] nm(2) by (auto simp: node_rep_def)
  have "open_file fsys fopen name ext st = push_file_buffer (length (st_heap st)) ?st"
    using fi(1) nm(1) n(2) by (simp add: open_file_def hp_new_def Let_def)
  then show ?thesis using st' fi(2) by simp
qed

section \<open>Refinement\<close>

text \<open>
  What happens to the stack while the scanner works: a file is opened, a token is read, the current
  file ends.
\<close>

datatype event = Open string string | Token string | End_Of_File

fun do_event :: "file_system \<Rightarrow> (string \<Rightarrow> string option) \<Rightarrow> event \<Rightarrow> file_stack \<Rightarrow> file_stack res" where
  "do_event fs fopen (Open name ext) st = open_file fs fopen name ext st"
| "do_event fs fopen (Token t) st = update_numbers t st"
| "do_event fs fopen End_Of_File st = rbind (eof_rule st) (\<lambda>(_, st). Inr st)"

fun do_events :: "file_system \<Rightarrow> (string \<Rightarrow> string option) \<Rightarrow> event list \<Rightarrow> file_stack \<Rightarrow> file_stack res" where
  "do_events fs fopen [] st = Inr st"
| "do_events fs fopen (e # es) st = rbind (do_event fs fopen e st) (do_events fs fopen es)"

text \<open>The specification: the stack is a list, of which only the head changes.\<close>

fun spec_event :: "file_system \<Rightarrow> string \<Rightarrow> (string \<Rightarrow> string option) \<Rightarrow> event \<Rightarrow>
    (string \<times> int \<times> int) list \<Rightarrow> (string \<times> int \<times> int) list option" where
  "spec_event fs root fopen (Open name ext) ps =
     (if name_fits fs root name ext \<and> fopen (resolved fs root name ext) \<noteq> None
      then Some ((resolved fs root name ext, 1, 1) # ps) else None)"
| "spec_event fs root fopen (Token t) ((n, l, c) # ps) =
     (let nl = int (length (filter (\<lambda>c. c = CHR 0x0A) t));
          l' = l + nl; c' = (if nl = 0 then c + int (length t) else 1)
      in if l' \<le> INT_MAX \<and> c' \<le> INT_MAX then Some ((n, l', c') # ps) else None)"
| "spec_event fs root fopen (Token t) [] = None"
| "spec_event fs root fopen End_Of_File ps = Some (tl ps)"

fun spec_events :: "file_system \<Rightarrow> string \<Rightarrow> (string \<Rightarrow> string option) \<Rightarrow> event list \<Rightarrow>
    (string \<times> int \<times> int) list \<Rightarrow> (string \<times> int \<times> int) list option" where
  "spec_events fs root fopen [] ps = Some ps"
| "spec_events fs root fopen (e # es) ps =
     (case spec_event fs root fopen e ps of None \<Rightarrow> None | Some qs \<Rightarrow> spec_events fs root fopen es qs)"

definition pos_of :: "input_file \<Rightarrow> string \<times> int \<times> int" where
  "pos_of f = (if_name f, if_line f, if_column f)"

definition stack_ok :: "file_system \<Rightarrow> string \<Rightarrow> file_stack \<Rightarrow> (string \<times> int \<times> int) list \<Rightarrow> bool" where
  "stack_ok fs root st ps \<longleftrightarrow> finder_ok fs root (st_finder st) \<and>
     (\<exists>fls. stack_rep st fls \<and> map pos_of fls = ps \<and> (\<forall>f \<in> set fls. 1 \<le> if_line f \<and> 1 \<le> if_column f))"

lemma do_event_ok:
  assumes "stack_ok fs root st ps" "spec_event fs root fopen e ps = Some qs"
  shows "\<exists>st'. do_event fs fopen e st = Inr st' \<and> stack_ok fs root st' qs"
proof -
  obtain fls where fls: "finder_ok fs root (st_finder st)" "stack_rep st fls" "map pos_of fls = ps"
    "\<forall>f \<in> set fls. 1 \<le> if_line f \<and> 1 \<le> if_column f" using assms(1) by (auto simp: stack_ok_def)
  show ?thesis
  proof (cases e)
    case (Open name ext)
    then obtain text0 where "name_fits fs root name ext" "fopen (resolved fs root name ext) = Some text0"
      "qs = (resolved fs root name ext, 1, 1) # ps" using assms(2) by (auto split: if_splits)
    with open_file_rep [OF fls(2,1)] fls show ?thesis
      by (fastforce simp: Open stack_ok_def pos_of_def)
  next
    case (Token t)
    then obtain f gs where f: "fls = f # gs" using assms(2) fls(3) by (cases fls) auto
    then obtain g where g: "advance_pos t f = Some g" "qs = pos_of g # map pos_of gs" "1 \<le> if_line g \<and> 1 \<le> if_column g"
      using assms(2) fls(3,4) Token by (auto simp: pos_of_def advance_pos_def Let_def split: if_splits)
    then show ?thesis using update_numbers_rep [of st f gs t g] fls f
      by (fastforce simp: Token stack_ok_def)
  next
    case End_Of_File
    show ?thesis
    proof (cases fls)
      case Nil
      then have "st_top st = None" using fls(2) by (simp add: stack_rep_Nil)
      then show ?thesis using assms End_Of_File fls Nil by (auto simp: eof_rule_def get_file_buffer_def stack_ok_def)
    next
      case (Cons f gs)
      then show ?thesis using eof_rule_rep [of st f gs] fls assms(2) End_Of_File
        by (fastforce simp: stack_ok_def)
    qed
  qed
qed

lemma do_events_ok:
  "stack_ok fs root st ps \<Longrightarrow> spec_events fs root fopen es ps = Some qs \<Longrightarrow>
   \<exists>st'. do_events fs fopen es st = Inr st' \<and> stack_ok fs root st' qs"
proof (induction es arbitrary: st ps)
  case (Cons e es)
  then obtain rs where "spec_event fs root fopen e ps = Some rs" "spec_events fs root fopen es rs = Some qs"
    by (auto split: option.splits)
  with do_event_ok [OF Cons.prems(1)] Cons.IH show ?case by fastforce
qed auto

text \<open>The last component of a path, or the whole path when it ends with a slash.\<close>

definition last_component :: "string \<Rightarrow> string" where
  "last_component s =
     (case c_strrchr s (CHR ''/'') of
        None \<Rightarrow> s | Some k \<Rightarrow> if drop (Suc k) s \<noteq> [] then drop (Suc k) s else s)"

lemma get_base_file_name_rep: "sb_rep s cs \<Longrightarrow> get_base_file_name s = Inr (last_component cs)"
  by (auto dest!: sb_rep_str simp: get_base_file_name_def sb_str_def last_component_def)

lemma position_ok:
  assumes "stack_ok fs root st ps"
  shows "(get_file_name st, get_line_no st, get_col_no st) =
    (case ps of [] \<Rightarrow> (Inr None, Inr (- 1), Inr (- 1))
     | (n, l, c) # _ \<Rightarrow> (Inr (Some (last_component n)), Inr l, Inr c))"
proof -
  obtain fls where fls: "stack_rep st fls" "map pos_of fls = ps" using assms by (auto simp: stack_ok_def)
  show ?thesis
  proof (cases fls)
    case Nil
    then show ?thesis using fls by (auto simp: stack_rep_Nil get_line_no_def get_col_no_def get_file_name_def)
  next
    case (Cons f gs)
    then obtain a n where "st_top st = Some a" "a < length (st_heap st)" "st_heap st ! a = Some n" "node_rep n f"
      using stack_rep_Cons fls(1) by metis
    then show ?thesis using fls Cons
      by (auto simp: get_line_no_def get_col_no_def get_file_name_def pos_of_def node_rep_def get_base_file_name_rep)
  qed
qed

lemma stack_start_ok: "fs_fits fs root \<Longrightarrow> stack_ok fs root stack_start []"
  by (simp add: stack_ok_def stack_start_def finder_ok_def stack_rep_Nil fileio_start_def)

section \<open>Properties\<close>

text \<open>C38: The linked stack of open files implements the list of positions of the specification: after
  any sequence of openings, tokens and ends of files that the specification allows, the functions work
  without an error and the file name, line and column reported are those of the head of the list, so
  that after an included file its position is again the one before the inclusion.\<close>

theorem include_stack_refines:
  assumes "fs_fits fs root" "spec_events fs root fopen es [] = Some qs"
  shows "\<exists>st. do_events fs fopen es stack_start = Inr st \<and>
    (get_file_name st, get_line_no st, get_col_no st) =
      (case qs of [] \<Rightarrow> (Inr None, Inr (- 1), Inr (- 1))
       | (n, l, c) # _ \<Rightarrow> (Inr (Some (last_component n)), Inr l, Inr c))"
  using do_events_ok [OF stack_start_ok [OF assms(1)] assms(2)] position_ok by blast

definition sample_events :: "event list" where
  "sample_events = [Open ''a'' ''.asm'', Token ''mov'', Token [CHR 0x0A], Token ''  '', Open ''a'' ''.asm'',
     Token [CHR 0x0A, CHR 0x0A], End_Of_File]"

lemma sample_resolved:
  "fs_fits sample_fs ''/vm''" "name_fits sample_fs ''/vm'' ''a'' ''.asm''"
  "resolved sample_fs ''/vm'' ''a'' ''.asm'' = ''/lib/a.asm''"
proof -
  have "toks (CHR '':'') ''/bin::/lib'' = [''/bin'', ''/lib'']" by code_simp
  then have path: "search_path sample_fs ''/vm'' = [''/bin'', ''/lib'']" by (simp add: search_path_def sample_fs_def)
  have name: "full_name ''a'' ''.asm'' = ''a.asm''" by (simp add: full_name_def)
  show r: "resolved sample_fs ''/vm'' ''a'' ''.asm'' = ''/lib/a.asm''"
    by (simp add: resolved_def path name in_dir_def file_exists_def) (simp add: sample_fs_def)
  show "fs_fits sample_fs ''/vm''" by (simp add: fs_fits_def sample_fs_def)
  show "name_fits sample_fs ''/vm'' ''a'' ''.asm''"
    by (simp add: name_fits_def r path name nul_free_def)
qed

theorem include_stack_refines_witness:
  "\<exists>st. do_events sample_fs (\<lambda>_. Some ''x'') sample_events stack_start = Inr st \<and>
    (get_file_name st, get_line_no st, get_col_no st) = (Inr (Some ''a.asm''), Inr 2, Inr 3)"
proof -
  have "spec_events sample_fs ''/vm'' (\<lambda>_. Some ''x'') sample_events [] = Some [(''/lib/a.asm'', 2, 3)]"
    by (simp add: sample_events_def sample_resolved)
  from include_stack_refines [OF sample_resolved(1) this] show ?thesis by (simp add: last_component_def)
qed

end
