(* ===== verification/Cord.thy ===== *)
theory Cord
  imports C_String Show_Num
begin

text \<open>
  src/src/common/gc/cord/cordbscs.c: cords, immutable strings represented as trees.

  A cord is the null pointer, a non-empty C string, or a pointer to a node; \<open>Str []\<close> is a pointer to an
  empty C string, which the code takes for a node and reads beyond.  A node is a concatenation with
  its depth, the length of its left part when that fits in a byte (0 otherwise) and its length; a
  function node with its length; or a substring node, whose function and argument structure are known.
  A client's function gives a character or fails.  The type size_t has 64 bits, a node 32 bytes.
  Allocation succeeds; nodes are never changed after they were made, so a pointer to one is the node.
\<close>

section \<open>Data\<close>

datatype access_fn = Index_Access | Apply_Access

datatype cord =
    CORD_EMPTY
  | Str string
  | Concat int nat nat cord cord
  | Fn "nat \<Rightarrow> char res" nat
  | Substr access_fn cord nat nat

abbreviation SHORT_LIMIT :: nat where "SHORT_LIMIT \<equiv> 31"
abbreviation SUBSTR_LIMIT :: nat where "SUBSTR_LIMIT \<equiv> 310"
abbreviation MAX_LEFT_LEN :: nat where "MAX_LEFT_LEN \<equiv> 255"
abbreviation CORD_MAX_DEPTH :: int where "CORD_MAX_DEPTH \<equiv> 48"

text \<open>Arithmetic of the type size_t, and the conversion to the type char.\<close>

definition usize :: "nat \<Rightarrow> nat" where
  "usize n = n mod 2 ^ 64"

definition usub :: "nat \<Rightarrow> nat \<Rightarrow> nat" where
  "usub a b = usize (a + 2 ^ 64 - b)"

definition depth_char :: "int \<Rightarrow> int" where
  "depth_char d = (d + 128) mod 256 - 128"

definition is_string :: "cord \<Rightarrow> bool" where
  "is_string x = (case x of Str (_ # _) \<Rightarrow> True | _ \<Rightarrow> False)"

fun LEN :: "cord \<Rightarrow> nat res" where
  "LEN CORD_EMPTY = Inl Null_Deref"
| "LEN (Str s) = Inl Out_Of_Bounds"
| "LEN (Concat d ll n l r) = Inr n"
| "LEN (Fn f n) = Inr n"
| "LEN (Substr a c i n) = Inr n"

fun DEPTH :: "cord \<Rightarrow> int res" where
  "DEPTH CORD_EMPTY = Inl Null_Deref"
| "DEPTH (Str s) = Inl Out_Of_Bounds"
| "DEPTH (Concat d ll n l r) = Inr d"
| "DEPTH (Fn f n) = Inr 0"
| "DEPTH (Substr a c i n) = Inr 0"

definition GEN_LEN :: "cord \<Rightarrow> nat res" where
  "GEN_LEN x = (case x of Str (c # cs) \<Rightarrow> Inr (length (c # cs)) | _ \<Rightarrow> LEN x)"

fun LEFT_LEN :: "cord \<Rightarrow> nat res" where
  "LEFT_LEN (Concat d ll n l r) =
     (if ll \<noteq> 0 then Inr ll
      else if is_string l then rbind (GEN_LEN r) (\<lambda>rl. Inr (usub n rl))
      else LEN l)"
| "LEFT_LEN _ = Inl Wild_Pointer"

section \<open>Concatenation\<close>

text \<open>
  The C string behind a copy of \<open>n\<close> bytes of \<open>y\<close>; what lies behind the terminator of \<open>y\<close> is not known.
\<close>

definition copy_chars :: "string \<Rightarrow> nat \<Rightarrow> string res" where
  "copy_chars y n = (if n \<le> length y + 1 then Inr (take n (y @ [NUL])) else Inl Out_Of_Bounds)"

definition c_text :: "string \<Rightarrow> string" where
  "c_text = takeWhile (\<lambda>c. c \<noteq> NUL)"

text \<open>
  CORD_cat and CORD_balance call each other: here each takes the other as an argument, and \<open>cord_bal\<close>
  below ties the knot with a bound for the nesting.
\<close>

definition new_concat :: "(cord \<Rightarrow> cord res) \<Rightarrow> int \<Rightarrow> nat \<Rightarrow> nat \<Rightarrow> cord \<Rightarrow> cord \<Rightarrow> cord res" where
  "new_concat bal depth lenx result_len x y =
     (let result = Concat (depth_char depth) (if lenx \<le> MAX_LEFT_LEN then lenx else 0) result_len x y
      in if CORD_MAX_DEPTH \<le> depth then bal result else Inr result)"

text \<open>
  The case that merges a short string into the right part of a concatenation: the length of the right part
  and the depth of a concatenation with the left part \<open>x\<close>; then the new left part and its length, the new
  right part and its length, and the depth of the result.
\<close>

definition merge_len :: "nat \<Rightarrow> nat \<Rightarrow> cord \<Rightarrow> string \<Rightarrow> nat res" where
  "merge_len lenx ll left right =
     (if \<not> is_string left then rbind (LEN left) (\<lambda>l. Inr (usub lenx l))
      else if ll \<noteq> 0 then Inr (usub lenx ll)
      else Inr (length right))"

definition merge_depth :: "cord \<Rightarrow> int res" where
  "merge_depth x = (if is_string x then Inr 1 else rbind (DEPTH x) (\<lambda>d. Inr (d + 1)))"

definition merge_right :: "cord \<Rightarrow> nat \<Rightarrow> string \<Rightarrow> nat \<Rightarrow> (cord \<times> nat \<times> string \<times> nat \<times> int) res" where
  "merge_right x lenx y leny =
     rbind (DEPTH x) (\<lambda>dx.
     case x of
       Concat d ll n left (Str right) \<Rightarrow>
         if leny \<le> SHORT_LIMIT div 2 \<and> right \<noteq> [] then
           rbind (merge_len lenx ll left right) (\<lambda>right_len.
           let result_len = usize (right_len + leny) in
           rbind (if result_len \<le> SHORT_LIMIT
                  then rbind (copy_chars right right_len) (\<lambda>r.
                       rbind (copy_chars y leny) (\<lambda>c.
                       Inr (left, usub lenx right_len, c_text (r @ c), result_len)))
                  else Inr (x, lenx, y, leny)) (\<lambda>(x, lenx, y, leny).
           rbind (merge_depth x) (\<lambda>depth.
           Inr (x, lenx, y, leny, depth))))
         else Inr (x, lenx, y, leny, dx + 1)
     | Concat d ll n left CORD_EMPTY \<Rightarrow>
         if leny \<le> SHORT_LIMIT div 2 then Inl Null_Deref else Inr (x, lenx, y, leny, dx + 1)
     | _ \<Rightarrow> Inr (x, lenx, y, leny, dx + 1))"

definition CORD_cat_char_star :: "(cord \<Rightarrow> cord res) \<Rightarrow> cord \<Rightarrow> string \<Rightarrow> nat \<Rightarrow> cord res" where
  "CORD_cat_char_star bal x y leny =
     (case x of
        CORD_EMPTY \<Rightarrow> Inr (Str y)
      | _ \<Rightarrow>
        if leny = 0 then Inr x
        else (case x of
          Str (c # cs) \<Rightarrow>
            let lenx = length (c # cs); result_len = usize (lenx + leny) in
            if result_len \<le> SHORT_LIMIT
            then rbind (copy_chars y leny) (\<lambda>ys. Inr (Str (c_text ((c # cs) @ ys))))
            else new_concat bal 1 lenx result_len x (Str y)
        | _ \<Rightarrow>
            rbind (LEN x) (\<lambda>lenx.
            rbind (merge_right x lenx y leny) (\<lambda>(x, lenx, y, leny, depth).
            new_concat bal depth lenx (usize (lenx + leny)) x (Str y)))))"

definition CORD_cat :: "(cord \<Rightarrow> cord res) \<Rightarrow> cord \<Rightarrow> cord \<Rightarrow> cord res" where
  "CORD_cat bal x y =
     (case x of CORD_EMPTY \<Rightarrow> Inr y | _ \<Rightarrow>
     (case y of CORD_EMPTY \<Rightarrow> Inr x
      | Str (c # cs) \<Rightarrow> CORD_cat_char_star bal x (c # cs) (length (c # cs))
      | _ \<Rightarrow>
        rbind (case x of
                 Str (c # cs) \<Rightarrow> rbind (DEPTH y) (\<lambda>d. Inr (length (c # cs), d + 1))
               | _ \<Rightarrow>
                   rbind (DEPTH y) (\<lambda>depthy.
                   rbind (LEN x) (\<lambda>lenx.
                   rbind (DEPTH x) (\<lambda>dx.
                   Inr (lenx, if dx + 1 \<le> depthy then depthy + 1 else dx + 1))))) (\<lambda>(lenx, depth).
        rbind (LEN y) (\<lambda>leny.
        new_concat bal depth lenx (usize (lenx + leny)) x y))))"

section \<open>Function nodes\<close>

text \<open>
  The characters \<open>i\<close> to \<open>i + n - 1\<close> of a function, \<open>None\<close> when one of them is NUL; the loops that collect
  them stop there.
\<close>

fun fn_chars :: "(nat \<Rightarrow> char res) \<Rightarrow> nat \<Rightarrow> nat \<Rightarrow> string option res" where
  "fn_chars f i 0 = Inr (Some [])"
| "fn_chars f i (Suc n) =
     rbind (f i) (\<lambda>c.
     if c = NUL then Inr None
     else rbind (fn_chars f (Suc i) n) (\<lambda>r. Inr (map_option ((#) c) r)))"

text \<open>\<open>node\<close> is the node made for the function when no string is made.\<close>

definition CORD_from_fn_inner :: "(nat \<Rightarrow> char res) \<Rightarrow> cord \<Rightarrow> nat \<Rightarrow> cord res" where
  "CORD_from_fn_inner fn node len =
     (if len = 0 then Inr CORD_EMPTY
      else if len \<le> SHORT_LIMIT
      then rbind (fn_chars fn 0 len) (\<lambda>r.
           Inr (case r of None \<Rightarrow> node | Some cs \<Rightarrow> Str cs))
      else Inr node)"

definition CORD_from_fn :: "(nat \<Rightarrow> char res) \<Rightarrow> nat \<Rightarrow> cord res" where
  "CORD_from_fn fn len = CORD_from_fn_inner fn (Fn fn len) len"

definition CORD_len :: "cord \<Rightarrow> nat res" where
  "CORD_len x = (case x of CORD_EMPTY \<Rightarrow> Inr 0 | _ \<Rightarrow> GEN_LEN x)"

definition CORD_index_access_fn :: "cord \<Rightarrow> nat \<Rightarrow> nat \<Rightarrow> char res" where
  "CORD_index_access_fn sa_cord sa_index i =
     (case sa_cord of
        Str s \<Rightarrow> let k = usize (i + sa_index) in
                 if k \<le> length s then Inr ((s @ [NUL]) ! k) else Inl Out_Of_Bounds
      | _ \<Rightarrow> Inl Wild_Pointer)"

text \<open>The function of a node applied to its client data.\<close>

fun node_fn :: "cord \<Rightarrow> nat \<Rightarrow> char res" where
  "node_fn (Fn f n) i = f i"
| "node_fn (Substr Index_Access c s n) i = CORD_index_access_fn c s i"
| "node_fn (Substr Apply_Access c s n) i = node_fn c (usize (i + s))"
| "node_fn _ i = Inl Wild_Pointer"

definition CORD_apply_access_fn :: "cord \<Rightarrow> nat \<Rightarrow> nat \<Rightarrow> char res" where
  "CORD_apply_access_fn sa_cord sa_index i = node_fn sa_cord (usize (i + sa_index))"

section \<open>Substrings\<close>

definition CORD_substr_closure :: "cord \<Rightarrow> nat \<Rightarrow> nat \<Rightarrow> access_fn \<Rightarrow> cord res" where
  "CORD_substr_closure x i n f =
     CORD_from_fn_inner
       (case f of Index_Access \<Rightarrow> CORD_index_access_fn x i | Apply_Access \<Rightarrow> CORD_apply_access_fn x i)
       (Substr f x i n) n"

text \<open>A short part of a function node: it is collected in a local buffer and copied from there.\<close>

definition flat_part :: "cord \<Rightarrow> nat \<Rightarrow> nat \<Rightarrow> cord res" where
  "flat_part x i n =
     rbind (fn_chars (node_fn x) i (usize (i + n) - i)) (\<lambda>r.
     case r of
       None \<Rightarrow> CORD_substr_closure x i n Apply_Access
     | Some cs \<Rightarrow> if length cs = n then Inr (Str cs) else Inl Uninit_Read)"

fun CORD_substr_checked :: "(cord \<Rightarrow> cord \<Rightarrow> cord res) \<Rightarrow> cord \<Rightarrow> nat \<Rightarrow> nat \<Rightarrow> cord res" where
  "CORD_substr_checked cat CORD_EMPTY i n = Inl Null_Deref"
| "CORD_substr_checked cat (Str s) i n =
     (if s = [] then Inl Out_Of_Bounds
      else if SUBSTR_LIMIT < n then CORD_substr_closure (Str s) i n Index_Access
      else if i \<le> length s then Inr (Str (take n (drop i s)))
      else Inl Out_Of_Bounds)"
| "CORD_substr_checked cat (Concat d ll m l r) i n =
     rbind (LEFT_LEN (Concat d ll m l r)) (\<lambda>left_len.
     let right_len = usub m left_len in
     if left_len \<le> i then
       (if n = right_len then Inr r else CORD_substr_checked cat r (i - left_len) n)
     else if usize (i + n) \<le> left_len then
       (if n = left_len then Inr l else CORD_substr_checked cat l i n)
     else
       let left_part_len = left_len - i in
       rbind (if i = 0 then Inr l else CORD_substr_checked cat l i left_part_len) (\<lambda>left_part.
       rbind (if usize (i + n) = usize (right_len + left_len) then Inr r
              else CORD_substr_checked cat r 0 (usub n left_part_len)) (\<lambda>right_part.
       cat left_part right_part)))"
| "CORD_substr_checked cat (Fn f m) i n =
     (if SUBSTR_LIMIT < n then CORD_substr_closure (Fn f m) i n Apply_Access
      else flat_part (Fn f m) i n)"
| "CORD_substr_checked cat (Substr a c s m) i n =
     (if SUBSTR_LIMIT < n then CORD_substr_closure c (usize (i + s)) n a
      else flat_part (Substr a c s m) i n)"

definition CORD_substr :: "(cord \<Rightarrow> cord \<Rightarrow> cord res) \<Rightarrow> cord \<Rightarrow> nat \<Rightarrow> nat \<Rightarrow> cord res" where
  "CORD_substr cat x i n =
     rbind (CORD_len x) (\<lambda>len.
     if len \<le> i \<or> n = 0 then Inr CORD_EMPTY
     else CORD_substr_checked cat x i (if len < usize (i + n) then len - i else n))"

section \<open>Iteration\<close>

text \<open>
  The functions of the client work on its data, a state that is passed along; their result is whether to
  stop.  A batched function gets a C string.
\<close>

type_synonym 's iter_fn = "char \<Rightarrow> 's \<Rightarrow> (bool \<times> 's) res"
type_synonym 's batched_iter_fn = "string \<Rightarrow> 's \<Rightarrow> (bool \<times> 's) res"

fun iter_chars :: "'s iter_fn \<Rightarrow> string \<Rightarrow> 's \<Rightarrow> (bool \<times> 's) res" where
  "iter_chars f1 [] s = Inr (False, s)"
| "iter_chars f1 (c # cs) s =
     rbind (f1 c s) (\<lambda>(stop, s). if stop then Inr (True, s) else iter_chars f1 cs s)"

text \<open>The loop over \<open>n\<close> characters of a function node from \<open>j\<close> on.\<close>

fun iter_fn_chars :: "'s iter_fn \<Rightarrow> cord \<Rightarrow> nat \<Rightarrow> nat \<Rightarrow> 's \<Rightarrow> (bool \<times> 's) res" where
  "iter_fn_chars f1 x j 0 s = Inr (False, s)"
| "iter_fn_chars f1 x j (Suc n) s =
     rbind (node_fn x j) (\<lambda>c.
     rbind (f1 c s) (\<lambda>(stop, s). if stop then Inr (True, s) else iter_fn_chars f1 x (Suc j) n s))"

fun CORD_iter5 :: "cord \<Rightarrow> nat \<Rightarrow> 's iter_fn \<Rightarrow> 's batched_iter_fn option \<Rightarrow> 's \<Rightarrow> (bool \<times> 's) res" where
  "CORD_iter5 CORD_EMPTY i f1 f2 s = Inr (False, s)"
| "CORD_iter5 (Str x) i f1 f2 s =
     (if x = [] \<or> length x < i then Inl Out_Of_Bounds
      else if i = length x then Inl Fatal_Exit
      else case f2 of Some f \<Rightarrow> f (drop i x) s | None \<Rightarrow> iter_chars f1 (drop i x) s)"
| "CORD_iter5 (Concat d ll n l r) i f1 f2 s =
     rbind (if 0 < i then LEFT_LEN (Concat d ll n l r) else Inr 0) (\<lambda>left_len.
     if 0 < i \<and> left_len \<le> i then CORD_iter5 r (i - left_len) f1 f2 s
     else rbind (CORD_iter5 l i f1 f2 s) (\<lambda>(stop, s).
          if stop then Inr (True, s) else CORD_iter5 r 0 f1 f2 s))"
| "CORD_iter5 (Fn f n) i f1 f2 s = iter_fn_chars f1 (Fn f n) i (n - i) s"
| "CORD_iter5 (Substr a c k n) i f1 f2 s = iter_fn_chars f1 (Substr a c k n) i (n - i) s"

definition CORD_iter :: "cord \<Rightarrow> 's iter_fn \<Rightarrow> 's \<Rightarrow> (bool \<times> 's) res" where
  "CORD_iter x f1 s = CORD_iter5 x 0 f1 None s"

fun riter_str :: "'s iter_fn \<Rightarrow> string \<Rightarrow> nat \<Rightarrow> 's \<Rightarrow> (bool \<times> 's) res" where
  "riter_str f1 x i s =
     (if length x < i then Inl Out_Of_Bounds
      else if length x = i then Inl Fatal_Exit
      else rbind (f1 (x ! i) s) (\<lambda>(stop, s).
           if stop then Inr (True, s)
           else if i = 0 then Inr (False, s) else riter_str f1 x (i - 1) s))"

fun riter_fn :: "'s iter_fn \<Rightarrow> cord \<Rightarrow> nat \<Rightarrow> 's \<Rightarrow> (bool \<times> 's) res" where
  "riter_fn f1 x j s =
     rbind (node_fn x j) (\<lambda>c.
     rbind (f1 c s) (\<lambda>(stop, s).
     if stop then Inr (True, s)
     else if j = 0 then Inr (False, s) else riter_fn f1 x (j - 1) s))"

declare riter_str.simps [simp del] riter_fn.simps [simp del]

fun CORD_riter4 :: "cord \<Rightarrow> nat \<Rightarrow> 's iter_fn \<Rightarrow> 's \<Rightarrow> (bool \<times> 's) res" where
  "CORD_riter4 CORD_EMPTY i f1 s = Inr (False, s)"
| "CORD_riter4 (Str x) i f1 s = (if x = [] then Inl Out_Of_Bounds else riter_str f1 x i s)"
| "CORD_riter4 (Concat d ll n l r) i f1 s =
     rbind (LEFT_LEN (Concat d ll n l r)) (\<lambda>left_len.
     if left_len \<le> i
     then rbind (CORD_riter4 r (i - left_len) f1 s) (\<lambda>(stop, s).
          if stop then Inr (True, s) else CORD_riter4 l (usub left_len 1) f1 s)
     else CORD_riter4 l i f1 s)"
| "CORD_riter4 (Fn f n) i f1 s = riter_fn f1 (Fn f n) i s"
| "CORD_riter4 (Substr a c k n) i f1 s = riter_fn f1 (Substr a c k n) i s"

definition CORD_riter :: "cord \<Rightarrow> 's iter_fn \<Rightarrow> 's \<Rightarrow> (bool \<times> 's) res" where
  "CORD_riter x f1 s =
     rbind (CORD_len x) (\<lambda>len. if len = 0 then Inr (False, s) else CORD_riter4 x (len - 1) f1 s)"

section \<open>Balancing\<close>

text \<open>
  The forest: \<open>CORD_MAX_DEPTH\<close> trees with their lengths.  The array is a local variable, so its elements
  are not initialised before CORD_init_forest and the assignments write them.
\<close>

record forest =
  fo_c :: "cord cell list"
  fo_len :: "nat cell list"

definition raw_forest :: forest where
  "raw_forest = \<lparr>fo_c = replicate 48 Undef, fo_len = replicate 48 Undef\<rparr>"

fun min_len_loop :: "nat \<Rightarrow> nat \<Rightarrow> nat \<Rightarrow> nat list" where
  "min_len_loop previous lst 0 = []"
| "min_len_loop previous lst (Suc k) =
     (let current = (if lst < 2 ^ 64 - 1 - previous then lst + previous else lst)
      in current # min_len_loop lst current k)"

definition CORD_init_min_len :: "nat list" where
  "CORD_init_min_len = 1 # 2 # min_len_loop 1 2 46"

definition min_len :: "int \<Rightarrow> nat res" where
  "min_len i = load (map Val CORD_init_min_len) i"

text \<open>The loop of CORD_init_forest over the elements from \<open>i\<close> on, with the rest of the table min_len.\<close>

fun init_forest_loop :: "nat list \<Rightarrow> int \<Rightarrow> nat \<Rightarrow> forest \<Rightarrow> forest res" where
  "init_forest_loop [] i max_len fo = Inl Fatal_Exit"
| "init_forest_loop (m # ms) i max_len fo =
     rbind (store (fo_c fo) i CORD_EMPTY) (\<lambda>c.
     if max_len < m then Inr (fo\<lparr>fo_c := c\<rparr>) else init_forest_loop ms (i + 1) max_len (fo\<lparr>fo_c := c\<rparr>))"

definition CORD_init_forest :: "nat \<Rightarrow> forest \<Rightarrow> forest res" where
  "CORD_init_forest max_len fo = init_forest_loop CORD_init_min_len 0 max_len fo"

text \<open>Element \<open>i\<close> is put in front of the sum and removed from the forest.\<close>

definition take_tree :: "(cord \<Rightarrow> cord \<Rightarrow> cord res) \<Rightarrow> int \<Rightarrow> cord \<times> nat \<times> forest \<Rightarrow> (cord \<times> nat \<times> forest) res" where
  "take_tree cat i = (\<lambda>(acc, sum_len, fo).
     rbind (load (fo_c fo) i) (\<lambda>c.
     case c of
       CORD_EMPTY \<Rightarrow> Inr (acc, sum_len, fo)
     | _ \<Rightarrow>
       rbind (cat c acc) (\<lambda>acc.
       rbind (load (fo_len fo) i) (\<lambda>l.
       rbind (store (fo_c fo) i CORD_EMPTY) (\<lambda>cs.
       Inr (acc, usize (sum_len + l), fo\<lparr>fo_c := cs\<rparr>))))))"

text \<open>The two loops of CORD_add_forest; the index they end with is part of the result.\<close>

function shorter_trees :: "(cord \<Rightarrow> cord \<Rightarrow> cord res) \<Rightarrow> nat \<Rightarrow> int \<Rightarrow> cord \<times> nat \<times> forest \<Rightarrow>
    (int \<times> cord \<times> nat \<times> forest) res" where
  "shorter_trees cat len i st =
     rbind (min_len (i + 1)) (\<lambda>m.
     if m < len then rbind (take_tree cat i st) (\<lambda>st. shorter_trees cat len (i + 1) st)
     else Inr (i, st))"
  by pat_completeness auto

lemma min_len_less: "min_len i = Inr m \<Longrightarrow> 0 \<le> i \<and> i < 48"
proof -
  have "length (min_len_loop p l k) = k" for p l k
    by (induction k arbitrary: p l) (simp_all add: Let_def)
  then have "length CORD_init_min_len = 48" by (simp add: CORD_init_min_len_def)
  then show "min_len i = Inr m \<Longrightarrow> 0 \<le> i \<and> i < 48" by (auto simp: min_len_def load_def split: if_splits)
qed

termination shorter_trees
  by (relation "measure (\<lambda>(cat, len, i, st). nat (48 - i))") (auto dest: min_len_less)

function larger_trees :: "(cord \<Rightarrow> cord \<Rightarrow> cord res) \<Rightarrow> int \<Rightarrow> cord \<times> nat \<times> forest \<Rightarrow>
    (int \<times> cord \<times> nat \<times> forest) res" where
  "larger_trees cat i (acc, sum_len, fo) =
     rbind (min_len i) (\<lambda>m.
     if m \<le> sum_len then rbind (take_tree cat i (acc, sum_len, fo)) (\<lambda>st. larger_trees cat (i + 1) st)
     else Inr (i, acc, sum_len, fo))"
  by pat_completeness auto
termination
  by (relation "measure (\<lambda>(cat, i, st). nat (48 - i))") (auto dest: min_len_less)

declare shorter_trees.simps [simp del] larger_trees.simps [simp del]

definition CORD_add_forest :: "(cord \<Rightarrow> cord \<Rightarrow> cord res) \<Rightarrow> forest \<Rightarrow> cord \<Rightarrow> nat \<Rightarrow> forest res" where
  "CORD_add_forest cat fo x len =
     rbind (shorter_trees cat len 0 (CORD_EMPTY, 0, fo)) (\<lambda>(i, acc, sum_len, fo).
     rbind (cat acc x) (\<lambda>acc.
     rbind (larger_trees cat i (acc, usize (sum_len + len), fo)) (\<lambda>(i, acc, sum_len, fo).
     rbind (store (fo_c fo) (i - 1) acc) (\<lambda>cs.
     rbind (store (fo_len fo) (i - 1) sum_len) (\<lambda>ls.
     Inr (fo\<lparr>fo_c := cs, fo_len := ls\<rparr>))))))"

function concat_loop :: "(cord \<Rightarrow> cord \<Rightarrow> cord res) \<Rightarrow> forest \<Rightarrow> nat \<Rightarrow> int \<Rightarrow> cord \<Rightarrow> nat \<Rightarrow> cord res" where
  "concat_loop cat fo expected_len i acc sum_len =
     (if sum_len = expected_len then Inr acc
      else rbind (load (fo_c fo) i) (\<lambda>c.
           case c of
             CORD_EMPTY \<Rightarrow> concat_loop cat fo expected_len (i + 1) acc sum_len
           | _ \<Rightarrow>
             rbind (cat c acc) (\<lambda>acc.
             rbind (load (fo_len fo) i) (\<lambda>l.
             concat_loop cat fo expected_len (i + 1) acc (usize (sum_len + l))))))"
  by pat_completeness auto
termination
  by (relation "measure (\<lambda>(cat, fo, e, i, acc, sum_len). nat (int (length (fo_c fo)) - i))")
    (auto simp: load_def split: if_splits)

declare concat_loop.simps [simp del]

definition CORD_concat_forest :: "(cord \<Rightarrow> cord \<Rightarrow> cord res) \<Rightarrow> forest \<Rightarrow> nat \<Rightarrow> cord res" where
  "CORD_concat_forest cat fo expected_len = concat_loop cat fo expected_len 0 CORD_EMPTY 0"

fun CORD_balance_insert :: "(cord \<Rightarrow> cord \<Rightarrow> cord res) \<Rightarrow> cord \<Rightarrow> nat \<Rightarrow> forest \<Rightarrow> forest res" where
  "CORD_balance_insert cat CORD_EMPTY len fo = Inl Null_Deref"
| "CORD_balance_insert cat (Str s) len fo =
     (if s = [] then Inl Out_Of_Bounds else CORD_add_forest cat fo (Str s) len)"
| "CORD_balance_insert cat (Concat depth ll n l r) len fo =
     rbind (if CORD_MAX_DEPTH \<le> depth then Inr True else rbind (min_len depth) (\<lambda>m. Inr (len < m))) (\<lambda>split.
     if split then
       rbind (LEFT_LEN (Concat depth ll n l r)) (\<lambda>left_len.
       rbind (CORD_balance_insert cat l left_len fo) (\<lambda>fo.
       CORD_balance_insert cat r (usub len left_len) fo))
     else CORD_add_forest cat fo (Concat depth ll n l r) len)"
| "CORD_balance_insert cat (Fn f n) len fo = CORD_add_forest cat fo (Fn f n) len"
| "CORD_balance_insert cat (Substr a c i n) len fo = CORD_add_forest cat fo (Substr a c i n) len"

definition CORD_balance :: "(cord \<Rightarrow> cord \<Rightarrow> cord res) \<Rightarrow> cord \<Rightarrow> cord res" where
  "CORD_balance cat x =
     (case x of
        CORD_EMPTY \<Rightarrow> Inr CORD_EMPTY
      | _ \<Rightarrow>
        if is_string x then Inr x
        else rbind (LEN x) (\<lambda>len.
             rbind (CORD_init_forest len raw_forest) (\<lambda>fo.
             rbind (CORD_balance_insert cat x len fo) (\<lambda>fo.
             CORD_concat_forest cat fo len))))"

text \<open>
  The two functions with the calls between them: \<open>cord_bal k\<close> balances with at most \<open>k\<close> nested calls of
  CORD_balance, \<open>cord_cat k\<close> concatenates and may balance.
\<close>

fun cord_bal :: "nat \<Rightarrow> cord \<Rightarrow> cord res" where
  "cord_bal 0 x = Inl No_Return"
| "cord_bal (Suc k) x = CORD_balance (CORD_cat (cord_bal k)) x"

definition cord_cat :: "nat \<Rightarrow> cord \<Rightarrow> cord \<Rightarrow> cord res" where
  "cord_cat k = CORD_cat (cord_bal k)"

section \<open>Dump\<close>

text \<open>What CORD_dump prints; \<open>addr\<close> gives the text of the address of a node.\<close>

definition dump_str :: "string \<Rightarrow> string" where
  "dump_str x = take (SHORT_LIMIT + 1) x @ (if SHORT_LIMIT + 1 < length x then ''...'' else []) @ [CHR 0x0A]"

fun fn_read :: "cord \<Rightarrow> nat \<Rightarrow> nat \<Rightarrow> string res" where
  "fn_read x j 0 = Inr []"
| "fn_read x j (Suc n) = rbind (node_fn x j) (\<lambda>c. rbind (fn_read x (Suc j) n) (\<lambda>cs. Inr (c # cs)))"

text \<open>The conversion of a length to the type int.\<close>

definition int_len :: "nat \<Rightarrow> int" where
  "int_len n = (int n + 2 ^ 31) mod 2 ^ 32 - 2 ^ 31"

definition dump_fn :: "string \<Rightarrow> cord \<Rightarrow> nat \<Rightarrow> string res" where
  "dump_fn addr x lim =
     rbind (fn_read x 0 (min 20 lim)) (\<lambda>cs.
     Inr (''Function: '' @ addr @ '' (len: '' @ show_int (int_len lim) @ ''): '' @ cs @
       (if 20 < lim then ''...'' else []) @ [CHR 0x0A]))"

fun CORD_dump_inner :: "(cord \<Rightarrow> string) \<Rightarrow> cord \<Rightarrow> nat \<Rightarrow> string res" where
  "CORD_dump_inner addr CORD_EMPTY n = Inr (replicate (2 * n) (CHR '' '') @ ''NIL'' @ [CHR 0x0A])"
| "CORD_dump_inner addr (Str x) n =
     (if x = [] then Inl Out_Of_Bounds else Inr (replicate (2 * n) (CHR '' '') @ dump_str x))"
| "CORD_dump_inner addr (Concat d ll len l r) n =
     rbind (CORD_dump_inner addr l (n + 1)) (\<lambda>dl.
     rbind (CORD_dump_inner addr r (n + 1)) (\<lambda>dr.
     Inr (replicate (2 * n) (CHR '' '') @ ''Concatenation: '' @ addr (Concat d ll len l r) @ '' (len: '' @
       show_int (int_len len) @ '', depth: '' @ show_int d @ '')'' @ [CHR 0x0A] @ dl @ dr)))"
| "CORD_dump_inner addr (Fn f lim) n =
     rbind (dump_fn (addr (Fn f lim)) (Fn f lim) lim) (\<lambda>t. Inr (replicate (2 * n) (CHR '' '') @ t))"
| "CORD_dump_inner addr (Substr a c i lim) n =
     rbind (dump_fn (addr (Substr a c i lim)) (Substr a c i lim) lim) (\<lambda>t.
     Inr (replicate (2 * n) (CHR '' '') @ ''(Substring) '' @ t))"

definition CORD_dump :: "(cord \<Rightarrow> string) \<Rightarrow> cord \<Rightarrow> string res" where
  "CORD_dump addr x = CORD_dump_inner addr x 0"

end
