(* ===== verification/Cord_Facts.thy ===== *)
theory Cord_Facts
  imports Cord
begin

text \<open>
  What the operations of the theory Cord do on the characters of a cord: concatenation and substrings.

  \<open>chars\<close> is the string a cord stands for, \<open>ok\<close> says that the fields stored in its nodes are right.
\<close>

section \<open>The string of a cord\<close>

fun chars :: "cord \<Rightarrow> string" where
  "chars CORD_EMPTY = []"
| "chars (Str s) = s"
| "chars (Concat d ll n l r) = chars l @ chars r"
| "chars (Fn f n) = map (\<lambda>i. case f i of Inr c \<Rightarrow> c | Inl _ \<Rightarrow> NUL) [0..<n]"
| "chars (Substr a c s n) = take n (drop s (chars c))"

fun dep :: "cord \<Rightarrow> int" where
  "dep (Concat d ll n l r) = d"
| "dep _ = 0"

fun is_fn :: "cord \<Rightarrow> bool" where
  "is_fn (Fn f n) = True"
| "is_fn (Substr a c s n) = True"
| "is_fn _ = False"

fun ok :: "cord \<Rightarrow> bool" where
  "ok CORD_EMPTY \<longleftrightarrow> False"
| "ok (Str s) \<longleftrightarrow> s \<noteq> [] \<and> nul_free s \<and> length s < 2 ^ 64"
| "ok (Concat d ll n l r) \<longleftrightarrow> ok l \<and> ok r \<and> n = length (chars l) + length (chars r) \<and> n < 2 ^ 64 \<and>
     ll = (if length (chars l) \<le> MAX_LEFT_LEN then length (chars l) else 0) \<and> d = max (dep l) (dep r) + 1"
| "ok (Fn f n) \<longleftrightarrow> n \<noteq> 0 \<and> n < 2 ^ 64 \<and> (\<forall>i < n. \<exists>c. f i = Inr c)"
| "ok (Substr a c s n) \<longleftrightarrow> n \<noteq> 0 \<and> s + n \<le> length (chars c) \<and> ok c \<and>
     (case a of Index_Access \<Rightarrow> is_string c | Apply_Access \<Rightarrow> is_fn c)"

definition ok0 :: "cord \<Rightarrow> bool" where
  "ok0 x \<longleftrightarrow> x = CORD_EMPTY \<or> ok x"

lemma usize_small [simp]: "n < 2 ^ 64 \<Longrightarrow> usize n = n"
  by (simp add: usize_def)

lemma usub_small [simp]: "b \<le> a \<Longrightarrow> a < 2 ^ 64 \<Longrightarrow> usub a b = a - b"
proof -
  assume "b \<le> a" "a < 2 ^ 64"
  then have "a + 2 ^ 64 - b = (a - b) + 2 ^ 64" "a - b < 2 ^ 64" by linarith+
  then show ?thesis by (simp only: usub_def usize_def mod_add_self2 mod_less)
qed

lemma depth_char_small: "0 \<le> d \<Longrightarrow> d \<le> 48 \<Longrightarrow> depth_char d = d"
  by (simp add: depth_char_def)

lemma is_string_simps [simp]:
  "is_string (Str s) \<longleftrightarrow> s \<noteq> []" "\<not> is_string CORD_EMPTY" "\<not> is_string (Concat d ll n l r)"
  "\<not> is_string (Fn f n)" "\<not> is_string (Substr a c k n)"
  by (auto simp: is_string_def split: list.splits)

lemma is_stringE: "is_string x \<Longrightarrow> (\<And>c cs. x = Str (c # cs) \<Longrightarrow> P) \<Longrightarrow> P"
  by (auto simp: is_string_def split: cord.splits list.splits)

lemma ok_chars: "ok x \<Longrightarrow> chars x \<noteq> [] \<and> length (chars x) < 2 ^ 64"
  by (induction x) auto

lemma ok_dep: "ok x \<Longrightarrow> 0 \<le> dep x"
  by (induction x) auto

lemma ok_GEN_LEN: "ok x \<Longrightarrow> GEN_LEN x = Inr (length (chars x))"
  by (cases x) (auto simp: GEN_LEN_def split: list.splits)

lemma ok_LEN: "ok x \<Longrightarrow> \<not> is_string x \<Longrightarrow> LEN x = Inr (length (chars x))"
  by (cases x) auto

lemma ok_DEPTH: "ok x \<Longrightarrow> \<not> is_string x \<Longrightarrow> DEPTH x = Inr (dep x)"
  by (cases x) auto

lemma ok_LEFT_LEN: "ok (Concat d ll n l r) \<Longrightarrow> LEFT_LEN (Concat d ll n l r) = Inr (length (chars l))"
  using ok_chars [of l] by (auto simp: ok_GEN_LEN ok_LEN)

lemma ok0_CORD_len: "ok0 x \<Longrightarrow> CORD_len x = Inr (length (chars x))"
  by (cases x) (auto simp: ok0_def CORD_len_def ok_GEN_LEN)

lemma ok_node_fn: "ok x \<Longrightarrow> is_fn x \<Longrightarrow> i < length (chars x) \<Longrightarrow> node_fn x i = Inr (chars x ! i)"
proof (induction x i rule: node_fn.induct)
  case (2 c s n i)
  then obtain t where t: "c = Str t" "length t < 2 ^ 64" by (cases c) auto
  then have "i + s < length t" using 2 by auto
  then show ?case using t 2 by (simp add: CORD_index_access_fn_def Let_def nth_append add.commute)
next
  case (3 c s n i)
  have l: "i + s < length (chars c)" "length (chars c) < 2 ^ 64" using 3 ok_chars [of c] by auto
  then show ?case using 3 by (simp add: add.commute)
qed auto

section \<open>Concatenation\<close>

lemma c_text_take: "nul_free ys \<Longrightarrow> n \<le> length ys \<Longrightarrow> c_text (take n (ys @ [NUL])) = take n ys"
  by (auto simp: c_text_def nul_free_def takeWhile_eq_all_conv dest!: in_set_takeD)

lemma c_text_free: "nul_free ys \<Longrightarrow> c_text ys = ys"
  by (auto simp: c_text_def nul_free_def takeWhile_eq_all_conv)

lemma copy_chars_all: "copy_chars ys (length ys) = Inr ys"
  by (simp add: copy_chars_def)

text \<open>The result of an operation that may have to balance a cord: \<open>bal\<close> is called on trees that are too deep.\<close>

definition makes :: "(cord \<Rightarrow> cord res) \<Rightarrow> cord res \<Rightarrow> string \<Rightarrow> int \<Rightarrow> bool" where
  "makes bal m cs d \<longleftrightarrow>
     (\<exists>z. ok z \<and> chars z = cs \<and> dep z \<le> d \<and> m = (if dep z < 48 then Inr z else bal z))"

lemma new_concat_makes:
  assumes "ok x" "ok y" "length (chars x) + length (chars y) < 2 ^ 64"
    and "dep x < 48" "dep y < 48" "max (dep x) (dep y) + 1 \<le> d"
  shows "makes bal (new_concat bal (max (dep x) (dep y) + 1) (length (chars x))
    (usize (length (chars x) + length (chars y))) x y) (chars x @ chars y) d"
proof -
  let ?d = "max (dep x) (dep y) + 1"
  let ?z = "Concat ?d (if length (chars x) \<le> MAX_LEFT_LEN then length (chars x) else 0)
    (length (chars x) + length (chars y)) x y"
  have d: "0 \<le> ?d" "?d \<le> 48" using ok_dep [of x] assms by auto
  have "ok ?z" using assms by simp
  moreover have "new_concat bal ?d (length (chars x)) (usize (length (chars x) + length (chars y))) x y =
      (if ?d < 48 then Inr ?z else bal ?z)"
    using assms(3) depth_char_small [OF d] by (auto simp: new_concat_def Let_def)
  ultimately show ?thesis using assms(6) unfolding makes_def
    by (intro exI [of _ ?z]) simp
qed

lemma nul_free_append [simp]: "nul_free (xs @ ys) \<longleftrightarrow> nul_free xs \<and> nul_free ys"
  by (auto simp: nul_free_def)

text \<open>Merging a short string into the right part.\<close>

lemma merge_right_makes:
  assumes x: "ok x" "\<not> is_string x" and y: "y \<noteq> []" "nul_free y"
    and n: "length (chars x) + length y < 2 ^ 64"
  shows "\<exists>x' y'. merge_right x (length (chars x)) y (length y) =
      Inr (x', length (chars x'), y', length y', max (dep x') 0 + 1) \<and>
    ok x' \<and> y' \<noteq> [] \<and> nul_free y' \<and> chars x' @ y' = chars x @ y \<and> dep x' \<le> dep x"
proof -
  have plain: ?thesis if "merge_right x (length (chars x)) y (length y) =
      Inr (x, length (chars x), y, length y, dep x + 1)"
    using that x y ok_dep [of x] by (intro exI [of _ x] exI [of _ y]) simp
  show ?thesis
  proof (cases x)
    case (Concat d ll m l r)
    note c = Concat x(1)
    have l: "ok l" "length (chars l) < 2 ^ 64" "0 \<le> dep l" using c ok_chars ok_dep by auto
    have r: "ok r" "0 \<le> dep r" using c ok_dep by auto
    show ?thesis
    proof (cases "\<exists>right. r = Str right \<and> length y \<le> SHORT_LIMIT div 2 \<and> length right + length y \<le> SHORT_LIMIT")
      case True
      then obtain right where right: "r = Str right" "length y \<le> 15" "length right + length y \<le> 31" by auto
      have free: "right \<noteq> []" "nul_free right" using right r by auto
      have "merge_len (length (chars x)) ll l right = Inr (length right)"
        using c right l by (auto simp: merge_len_def ok_LEN)
      moreover have "merge_depth l = Inr (max (dep l) 0 + 1)"
        using l by (auto simp: merge_depth_def ok_DEPTH elim: is_stringE)
      moreover have "merge_right x (length (chars x)) y (length y) =
          rbind (merge_len (length (chars x)) ll l right) (\<lambda>right_len.
           let result_len = usize (right_len + length y) in
           rbind (if result_len \<le> SHORT_LIMIT
                  then rbind (copy_chars right right_len) (\<lambda>r.
                       rbind (copy_chars y (length y)) (\<lambda>c.
                       Inr (l, usub (length (chars x)) right_len, c_text (r @ c), result_len)))
                  else Inr (x, length (chars x), y, length y)) (\<lambda>(x, lenx, y, leny).
           rbind (merge_depth x) (\<lambda>depth.
           Inr (x, lenx, y, leny, depth))))"
        unfolding merge_right_def Concat right(1) using right(2) free by simp
      moreover have "usub (length (chars x)) (length right) = length (chars l)" using c right by simp
      ultimately have "merge_right x (length (chars x)) y (length y) =
          Inr (l, length (chars l), right @ y, length (right @ y), max (dep l) 0 + 1)"
        using right free y by (simp add: copy_chars_all c_text_free Let_def)
      then show ?thesis using c l right free y
        by (intro exI [of _ l] exI [of _ "right @ y"]) auto
    next
      case False
      show ?thesis
      proof (rule plain)
        show "merge_right x (length (chars x)) y (length y) = Inr (x, length (chars x), y, length y, dep x + 1)"
        proof (cases r)
          case (Str right)
          have "merge_len (length (chars x)) ll l right = Inr (length right)"
            using c Str l by (auto simp: merge_len_def ok_LEN)
          moreover have "merge_depth x = Inr (dep x + 1)" using x by (simp add: merge_depth_def ok_DEPTH)
          moreover have "length right + length y < 2 ^ 64" using c Str n by simp
          ultimately show ?thesis using Concat Str False
            by (auto simp: merge_right_def Let_def)
        qed (use c in \<open>auto simp: merge_right_def\<close>)
      qed
    qed
  qed (use x plain in \<open>auto simp: merge_right_def\<close>)
qed

lemma cat_char_star_makes:
  assumes x: "ok x" "dep x < 48" and y: "y \<noteq> []" "nul_free y"
    and n: "length (chars x) + length y < 2 ^ 64" and d: "dep x + 1 \<le> d"
  shows "makes bal (CORD_cat_char_star bal x y (length y)) (chars x @ y) d"
proof (cases "is_string x")
  case True
  then obtain c cs where s: "x = Str (c # cs)" by (rule is_stringE)
  show ?thesis
  proof (cases "length (chars x) + length y \<le> SHORT_LIMIT")
    case True
    then have "CORD_cat_char_star bal x y (length y) = Inr (Str ((c # cs) @ y))"
      using s x(1) y by (simp add: CORD_cat_char_star_def copy_chars_all Let_def c_text_free)
    then show ?thesis using s x y True d unfolding makes_def
      by (intro exI [of _ "Str ((c # cs) @ y)"]) auto
  next
    case False
    then have "CORD_cat_char_star bal x y (length y) =
        new_concat bal (max (dep x) (dep (Str y)) + 1) (length (chars x)) (usize (length (chars x) + length (chars (Str y)))) x (Str y)"
      using s y n by (simp add: CORD_cat_char_star_def Let_def)
    moreover have "ok (Str y)" using y n by simp
    ultimately show ?thesis
      using new_concat_makes [OF x(1), of "Str y" d bal] x y n d s by simp
  qed
next
  case False
  obtain x' y' where m: "merge_right x (length (chars x)) y (length y) =
      Inr (x', length (chars x'), y', length y', max (dep x') 0 + 1)"
    "ok x'" "y' \<noteq> []" "nul_free y'" "chars x' @ y' = chars x @ y" "dep x' \<le> dep x"
    using merge_right_makes [OF x(1) False y n] by blast
  have len: "length (chars x') + length y' = length (chars x) + length y"
    using arg_cong [OF m(5), of length] by simp
  have "CORD_cat_char_star bal x y (length y) =
      new_concat bal (max (dep x') (dep (Str y')) + 1) (length (chars x'))
        (usize (length (chars x') + length (chars (Str y')))) x' (Str y')"
    using x False y m ok_LEN [OF x(1) False] by (cases x) (auto simp: CORD_cat_char_star_def)
  moreover have "ok (Str y')" using m(3,4) len n by simp
  ultimately show ?thesis
    using new_concat_makes [OF m(2), of "Str y'" d bal] len n m(3-6) x d ok_dep [OF x(1)] by simp
qed

lemma cat_makes:
  assumes "ok x" "ok y" "dep x < 48" "dep y < 48" "length (chars x) + length (chars y) < 2 ^ 64"
    and "max (dep x) (dep y) + 1 \<le> d"
  shows "makes bal (CORD_cat bal x y) (chars x @ chars y) d"
proof (cases "is_string y")
  case True
  then obtain c cs where y: "y = Str (c # cs)" by (rule is_stringE)
  then have "CORD_cat bal x y = CORD_cat_char_star bal x (chars y) (length (chars y))"
    using assms(1) by (cases x) (auto simp: CORD_cat_def)
  then show ?thesis using cat_char_star_makes [of x "chars y" d bal] assms y by simp
next
  case False
  have y: "LEN y = Inr (length (chars y))" "DEPTH y = Inr (dep y)" using assms(2) False by (simp_all add: ok_LEN ok_DEPTH)
  have "CORD_cat bal x y = new_concat bal (max (dep x) (dep y) + 1) (length (chars x))
      (usize (length (chars x) + length (chars y))) x y"
  proof (cases "is_string x")
    case True
    then obtain c cs where "x = Str (c # cs)" by (rule is_stringE)
    then show ?thesis using y assms(2) False ok_dep [of y]
      by (cases y) (simp_all add: CORD_cat_def)
  next
    case xn: False
    have x: "LEN x = Inr (length (chars x))" "DEPTH x = Inr (dep x)" using assms(1) xn by (simp_all add: ok_LEN ok_DEPTH)
    have "CORD_cat bal x y = new_concat bal (if dep x + 1 \<le> dep y then dep y + 1 else dep x + 1) (length (chars x))
      (usize (length (chars x) + length (chars y))) x y"
      using assms(1,2) False xn x y by (cases x; simp; cases y; simp add: CORD_cat_def)
    moreover have "(if dep x + 1 \<le> dep y then dep y + 1 else dep x + 1) = max (dep x) (dep y) + 1" by auto
    ultimately show ?thesis by simp
  qed
  then show ?thesis using new_concat_makes [OF assms(1,2,5,3,4,6), of bal] by simp
qed

lemma makes_shallow: "makes bal m cs d \<Longrightarrow> d < 48 \<Longrightarrow> \<exists>z. m = Inr z \<and> ok z \<and> chars z = cs \<and> dep z \<le> d"
  by (auto simp: makes_def)

section \<open>Function nodes and substrings\<close>

lemma fn_chars_eq:
  assumes "\<And>j. i \<le> j \<Longrightarrow> j < i + n \<Longrightarrow> f j = Inr (cs ! j)" "i + n \<le> length cs"
  shows "fn_chars f i n = Inr (if nul_free (take n (drop i cs)) then Some (take n (drop i cs)) else None)"
  using assms
proof (induction n arbitrary: i)
  case (Suc n)
  have "f i = Inr (cs ! i)" using Suc.prems by simp
  moreover have "fn_chars f (Suc i) n = Inr (if nul_free (take n (drop (Suc i) cs)) then Some (take n (drop (Suc i) cs)) else None)"
    using Suc.prems by (intro Suc.IH) auto
  moreover have "drop i cs = cs ! i # drop (Suc i) cs" using Suc.prems(2) by (intro Cons_nth_drop_Suc [symmetric]) simp
  ultimately show ?case by (simp add: nul_free_def)
qed (simp add: nul_free_def)

lemma from_fn_inner_rep:
  assumes "ok node" "dep node = 0" "length (chars node) = n"
    and "\<And>j. j < n \<Longrightarrow> f j = Inr (chars node ! j)"
  shows "\<exists>z. CORD_from_fn_inner f node n = Inr z \<and> ok z \<and> chars z = chars node \<and> dep z = 0"
proof -
  have f: "fn_chars f 0 n = Inr (if nul_free (chars node) then Some (chars node) else None)"
    using fn_chars_eq [of 0 n f "chars node"] assms(3,4) by simp
  note pos = ok_chars [OF assms(1)]
  show ?thesis
  proof (cases "n \<le> SHORT_LIMIT \<and> nul_free (chars node)")
    case True
    then have "CORD_from_fn_inner f node n = Inr (Str (chars node))"
      using f pos assms(3) by (auto simp: CORD_from_fn_inner_def)
    then show ?thesis using pos True by (intro exI [of _ "Str (chars node)"]) simp
  next
    case False
    then have "CORD_from_fn_inner f node n = Inr node"
      using f pos assms(3) by (auto simp: CORD_from_fn_inner_def)
    then show ?thesis using assms(1,2) by (intro exI [of _ node]) simp
  qed
qed

lemma from_fn_rep:
  assumes "0 < length cs" "length cs < 2 ^ 64" "\<And>j. j < length cs \<Longrightarrow> f j = Inr (cs ! j)"
  shows "\<exists>z. CORD_from_fn f (length cs) = Inr z \<and> ok z \<and> chars z = cs \<and> dep z = 0"
proof -
  have "chars (Fn f (length cs)) = cs" using assms(3) by (auto intro!: nth_equalityI)
  then show ?thesis unfolding CORD_from_fn_def
    using from_fn_inner_rep [of "Fn f (length cs)" "length cs" f] assms by auto
qed

lemma closure_rep:
  assumes x: "ok x" "i + n \<le> length (chars x)" "0 < n"
    and a: "case a of Index_Access \<Rightarrow> is_string x | Apply_Access \<Rightarrow> is_fn x"
  shows "\<exists>z. CORD_substr_closure x i n a = Inr z \<and> ok z \<and> chars z = take n (drop i (chars x)) \<and> dep z = 0"
proof -
  have l: "length (chars x) < 2 ^ 64" using ok_chars [OF x(1)] by simp
  have nth: "chars (Substr a x i n) ! j = chars x ! (j + i)" if "j < n" for j
    using that x(2) by (simp add: add.commute)
  have fn: "(case a of Index_Access \<Rightarrow> CORD_index_access_fn x i | Apply_Access \<Rightarrow> CORD_apply_access_fn x i) j =
      Inr (chars (Substr a x i n) ! j)" if "j < n" for j
  proof (cases a)
    case Index_Access
    then obtain t where "x = Str t" using a by (auto elim: is_stringE)
    then show ?thesis using Index_Access nth [OF that] l x(2) that
      by (simp add: CORD_index_access_fn_def Let_def nth_append)
  next
    case Apply_Access
    then show ?thesis using a nth [OF that] ok_node_fn [OF x(1), of "j + i"] l x(2) that
      by (simp add: CORD_apply_access_fn_def)
  qed
  have "ok (Substr a x i n)" using x a by (cases a) auto
  from from_fn_inner_rep [OF this _ _ fn] show ?thesis
    using x(2) by (simp add: CORD_substr_closure_def)
qed

lemma flat_part_rep:
  assumes x: "ok x" "is_fn x" "i + n \<le> length (chars x)" "0 < n"
  shows "\<exists>z. flat_part x i n = Inr z \<and> ok z \<and> chars z = take n (drop i (chars x)) \<and> dep z = 0"
proof -
  have l: "length (chars x) < 2 ^ 64" using ok_chars [OF x(1)] by simp
  have "fn_chars (node_fn x) i n = Inr (if nul_free (take n (drop i (chars x)))
      then Some (take n (drop i (chars x))) else None)"
    using x ok_node_fn [OF x(1,2)] by (intro fn_chars_eq) auto
  moreover have "usize (i + n) - i = n" using x(3) l by simp
  ultimately show ?thesis
    using closure_rep [OF x(1,3,4), of Apply_Access] x l
    by (cases "nul_free (take n (drop i (chars x)))") (auto simp: flat_part_def)
qed

lemma substr_checked_rep:
  assumes "ok x" "dep x < 48" "i + n \<le> length (chars x)" "0 < n"
  shows "\<exists>z. CORD_substr_checked (CORD_cat bal) x i n = Inr z \<and> ok z \<and>
    chars z = take n (drop i (chars x)) \<and> dep z \<le> dep x"
  using assms
proof (induction x arbitrary: i n)
  case (Str s)
  then show ?case using closure_rep [of "Str s" i n Index_Access]
    by (cases "SUBSTR_LIMIT < n") (auto simp: nul_free_def dest: in_set_takeD in_set_dropD)
next
  case (Concat d ll m l r)
  let ?x = "Concat d ll m l r" and ?k = "length (chars l)"
  have l: "ok l" "dep l < 48" "dep l < d" and r: "ok r" "dep r < 48" "dep r < d" using Concat.prems by auto
  have m: "m = ?k + length (chars r)" "m < 2 ^ 64" using Concat.prems by auto
  have k: "LEFT_LEN ?x = Inr ?k" using ok_LEFT_LEN Concat.prems(1) by blast
  have R: "usub m ?k = length (chars r)" using m by simp
  have I: "usize (i + n) = i + n" using Concat.prems(3) m by simp
  have C: "usize (length (chars r) + ?k) = m" using m by simp
  have U: "usub n (?k - i) = n - (?k - i)" if "\<not> i + n \<le> ?k" using that Concat.prems(3) m by simp
  have x: "CORD_substr_checked (CORD_cat bal) ?x i n =
     (if ?k \<le> i then (if n = length (chars r) then Inr r else CORD_substr_checked (CORD_cat bal) r (i - ?k) n)
      else if i + n \<le> ?k then (if n = ?k then Inr l else CORD_substr_checked (CORD_cat bal) l i n)
      else rbind (if i = 0 then Inr l else CORD_substr_checked (CORD_cat bal) l i (?k - i)) (\<lambda>left_part.
       rbind (if i + n = m then Inr r else CORD_substr_checked (CORD_cat bal) r 0 (n - (?k - i))) (\<lambda>right_part.
       CORD_cat bal left_part right_part)))"
    unfolding CORD_substr_checked.simps(3) k rbind_Inr Let_def R I C
    by (cases "?k \<le> i"; cases "i + n \<le> ?k") (simp_all only: if_True if_False U not_False_eq_True)
  consider "?k \<le> i" | "i + n \<le> ?k" "\<not> ?k \<le> i" | "\<not> ?k \<le> i" "\<not> i + n \<le> ?k" by linarith
  then show ?case
  proof cases
    case 1
    then have "i - ?k + n \<le> length (chars r)" using Concat.prems(3) by simp
    then show ?thesis using Concat.IH(2) [OF r(1,2), of "i - ?k" n] 1 x Concat.prems(4) r
      by (auto simp: nat_le_linear)
  next
    case 2
    then show ?thesis using Concat.IH(1) [OF l(1,2), of i n] x Concat.prems(4) l by auto
  next
    case 3
    obtain a where a: "(if i = 0 then Inr l else CORD_substr_checked (CORD_cat bal) l i (?k - i)) = Inr a"
      "ok a" "chars a = drop i (chars l)" "dep a \<le> dep l"
      using Concat.IH(1) [OF l(1,2), of i "?k - i"] 3 l by (cases "i = 0") auto
    have n: "n - (?k - i) \<le> length (chars r)" "0 < n - (?k - i)" using 3 Concat.prems(3) by simp_all
    have "i + n = m \<longleftrightarrow> n - (?k - i) = length (chars r)" using 3 m(1) by auto
    then obtain b where b: "(if i + n = m then Inr r else CORD_substr_checked (CORD_cat bal) r 0 (n - (?k - i))) = Inr b"
      "ok b" "chars b = take (n - (?k - i)) (chars r)" "dep b \<le> dep r"
      using Concat.IH(2) [OF r(1,2), of 0 "n - (?k - i)"] n r by (cases "i + n = m") auto
    have "length (chars a) + length (chars b) < 2 ^ 64" using a(3) b(3) m by simp
    then have "makes bal (CORD_cat bal a b) (chars a @ chars b) d"
      using a b l r by (intro cat_makes) auto
    from makes_shallow [OF this] Concat.prems(2) a b
    show ?thesis using x 3 by (auto simp: x)
  qed
next
  case (Fn f m)
  then show ?case using closure_rep [of "Fn f m" i n Apply_Access] flat_part_rep [of "Fn f m" i n]
    by (cases "SUBSTR_LIMIT < n") auto
next
  case (Substr a c s m)
  show ?case
  proof (cases "SUBSTR_LIMIT < n")
    case True
    have c: "length (chars c) < 2 ^ 64" "s + m \<le> length (chars c)" using Substr.prems ok_chars [of c] by auto
    have "i + n \<le> m" using Substr.prems(3) by simp
    then have "usize (i + s) = i + s" "(i + s) + n \<le> length (chars c)"
      "take n (drop i (take m (drop s (chars c)))) = take n (drop (i + s) (chars c))"
      using c by (simp_all add: drop_take min_def)
    then show ?thesis using closure_rep [of c "i + s" n a] Substr.prems True by auto
  next
    case False
    then show ?thesis using flat_part_rep [of "Substr a c s m" i n] Substr.prems by auto
  qed
qed simp

lemma substr_rep:
  assumes "ok0 x" "dep x < 48" "i + n < 2 ^ 64"
  shows "\<exists>z. CORD_substr (CORD_cat bal) x i n = Inr z \<and> ok0 z \<and>
    chars z = take n (drop i (chars x)) \<and> dep z \<le> max 0 (dep x)"
proof (cases "length (chars x) \<le> i \<or> n = 0")
  case True
  then show ?thesis using ok0_CORD_len [OF assms(1)]
    by (intro exI [of _ CORD_EMPTY]) (auto simp: CORD_substr_def ok0_def)
next
  case False
  then have ok: "ok x" using assms(1) by (auto simp: ok0_def)
  let ?m = "if length (chars x) < i + n then length (chars x) - i else n"
  have m: "i + ?m \<le> length (chars x)" "0 < ?m" "take ?m (drop i (chars x)) = take n (drop i (chars x))" using False by auto
  have u: "usize (i + n) = i + n" using assms(3) by simp
  obtain z where z: "CORD_substr_checked (CORD_cat bal) x i ?m = Inr z" "ok z" "chars z = take n (drop i (chars x))" "dep z \<le> dep x"
    using substr_checked_rep [OF ok assms(2) m(1,2), of bal] m(3) by auto
  have "CORD_substr (CORD_cat bal) x i n = Inr z"
    using ok0_CORD_len [OF assms(1)] False z(1) u by (simp add: CORD_substr_def)
  then show ?thesis using z by (auto simp: ok0_def)
qed

section \<open>Properties\<close>

text \<open>CORD_substr returns the cord for the part of the string asked for, cut off at the end of the
  cord, without ever making a tree that has to be balanced.\<close>

theorem substr_correct:
  assumes "ok0 x" "dep x < 48" "i + n < 2 ^ 64"
  shows "\<exists>z. CORD_substr (cord_cat k) x i n = Inr z \<and> ok0 z \<and> chars z = take n (drop i (chars x)) \<and> dep z < 48"
  using substr_rep [OF assms, of "cord_bal k"] assms(2) by (auto simp: cord_cat_def)

definition sample_cord :: cord where
  "sample_cord = Concat 1 3 6 (Str ''abc'') (Str ''def'')"

theorem substr_correct_witness:
  "\<exists>z. CORD_substr (cord_cat 0) sample_cord 2 9 = Inr z \<and> ok0 z \<and> chars z = ''cdef'' \<and> dep z < 48"
proof -
  have "ok0 sample_cord" "dep sample_cord < 48" by (simp_all add: sample_cord_def ok0_def nul_free_def)
  from substr_correct [OF this, of 2 9 0] show ?thesis by (simp add: sample_cord_def)
qed

text \<open>The end of the part is computed as i + n without a test for overflow: for an n that stands for
  \<open>the rest\<close>, such as the greatest value of its type, the result is a cord of length n whatever the
  length of the string is.\<close>

theorem substr_wraps:
  assumes "s \<noteq> []" "i < length s" "SUBSTR_LIMIT < n" "n < 2 ^ 64" "2 ^ 64 \<le> i + n" "length s < 2 ^ 63" "i < 2 ^ 63"
  shows "\<exists>z. CORD_substr (cord_cat k) (Str s) i n = Inr z \<and> CORD_len z = Inr n"
proof -
  have "usize (i + n) = i + n - 2 ^ 64"
    using assms(4,5,7) by (simp add: usize_def mod_if le_mod_geq)
  then have "\<not> length s < usize (i + n)" using assms(2,4) by simp
  then have "CORD_substr (cord_cat k) (Str s) i n = Inr (Substr Index_Access (Str s) i n)"
    using assms(1-3) by (cases s)
      (simp_all add: CORD_substr_def CORD_len_def GEN_LEN_def CORD_substr_closure_def CORD_from_fn_inner_def)
  then show ?thesis by (simp add: CORD_len_def GEN_LEN_def)
qed

theorem substr_wraps_witness:
  "\<exists>z. CORD_substr (cord_cat 0) (Str ''abc'') 1 (2 ^ 64 - 1) = Inr z \<and> CORD_len z = Inr (2 ^ 64 - 1)"
  by (rule substr_wraps) simp_all

end
