(* ===== verification/Cord_Balance.thy ===== *)
theory Cord_Balance
  imports Cord_Facts
begin

text \<open>
  CORD_balance keeps the characters of a cord and never nests: the trees it builds stay below the depth
  at which CORD_cat balances again.

  The bound on the depth is the one the comments of the code give, with the one level more that a
  balanced tree inserted as a whole can cost: tree \<open>i\<close> of the forest has at least \<open>mlen i\<close> characters
  and depth at most \<open>i + 1\<close>.
\<close>

section \<open>The table of minimal lengths\<close>

fun mlen :: "nat \<Rightarrow> nat" where
  "mlen 0 = 1"
| "mlen (Suc 0) = 2"
| "mlen (Suc (Suc n)) = mlen n + mlen (Suc n)"

lemma mlen_pos [simp]: "0 < mlen n"
  by (induction n rule: mlen.induct) auto

lemma mlen_le_pow: "mlen n \<le> 2 ^ n"
  by (induction n rule: mlen.induct) auto

lemma mlen_Suc: "mlen n < mlen (Suc n)"
  by (induction n rule: mlen.induct) auto

lemma mlen_mono: "i \<le> j \<Longrightarrow> mlen i \<le> mlen j"
  by (rule lift_Suc_mono_le [of mlen]) (auto intro: less_imp_le mlen_Suc)

lemma mlen_less_iff: "mlen i < mlen j \<longleftrightarrow> i < j"
proof -
  have "strict_mono mlen" by (simp add: strict_mono_Suc_iff mlen_Suc)
  then show ?thesis by (rule strict_mono_less)
qed

lemma mlen_le_iff: "mlen i \<le> mlen j \<longleftrightarrow> i \<le> j"
  using mlen_less_iff [of j i] by (simp add: not_less [symmetric])

lemma mlen_double: "mlen (Suc i) \<le> 2 * mlen i"
  by (cases i) (auto intro: less_imp_le mlen_Suc)

lemma min_len_loop_nth:
  "i + k \<le> 48 \<Longrightarrow> j < k \<Longrightarrow> min_len_loop (mlen i) (mlen (Suc i)) k ! j = mlen (i + 2 + j)"
proof (induction k arbitrary: i j)
  case (Suc k)
  have "mlen i \<le> 2 ^ 48" "mlen (Suc i) \<le> 2 ^ 48"
    using mlen_le_pow [of i] mlen_le_pow [of "Suc i"] Suc.prems(1)
      power_increasing [of i 48 "2 :: nat"] power_increasing [of "Suc i" 48 "2 :: nat"] by linarith+
  then have "mlen (Suc i) < 2 ^ 64 - 1 - mlen i" by simp
  then show ?case using Suc.prems Suc.IH [of "Suc i" "j - 1"]
    by (cases j) (auto simp: Let_def add.commute)
qed simp

lemma min_len_loop_length: "length (min_len_loop p l k) = k"
  by (induction k arbitrary: p l) (simp_all add: Let_def)

lemma init_min_len_nth: "i < 48 \<Longrightarrow> CORD_init_min_len ! i = mlen i"
  using min_len_loop_nth [of 0 46 "i - 2"]
  by (cases i; cases "i - 1") (auto simp: CORD_init_min_len_def nth_Cons' numeral_2_eq_2)

lemma length_init_min_len: "length CORD_init_min_len = 48"
  by (simp add: CORD_init_min_len_def min_len_loop_length)

lemma min_len_nat [simp]: "i < 48 \<Longrightarrow> min_len (int i) = Inr (mlen i)"
  by (simp add: min_len_def load_def length_init_min_len init_min_len_nth)

abbreviation BALANCE_LIMIT :: nat where "BALANCE_LIMIT \<equiv> 4807526976"

lemma mlen_5: "mlen (n + 5) = 3 * mlen n + 5 * mlen (n + 1) \<and> mlen (n + 6) = 5 * mlen n + 8 * mlen (n + 1)"
proof -
  have s: "mlen (n + k + 2) = mlen (n + k) + mlen (n + k + 1)" for k by simp
  show ?thesis using s [of 0] s [of 1] s [of 2] s [of 3] s [of 4] by (simp add: numeral_eq_Suc)
qed

lemma mlen_46: "mlen 46 = BALANCE_LIMIT"
proof -
  have "mlen 1 = 2" by simp
  then show ?thesis
    using mlen_5 [of 0] mlen_5 [of 5] mlen_5 [of 10] mlen_5 [of 15] mlen_5 [of 20] mlen_5 [of 25]
      mlen_5 [of 30] mlen_5 [of 35] mlen_5 [of 40]
    by (simp del: mlen.simps(2,3) One_nat_def)
qed

section \<open>The forest\<close>

definition tree :: "forest \<Rightarrow> nat \<Rightarrow> cord" where
  "tree fo i = (case fo_c fo ! i of Val c \<Rightarrow> c | Undef \<Rightarrow> CORD_EMPTY)"

fun ftext :: "forest \<Rightarrow> nat \<Rightarrow> string" where
  "ftext fo 0 = []"
| "ftext fo (Suc i) = chars (tree fo i) @ ftext fo i"

definition tree_ok :: "forest \<Rightarrow> nat \<Rightarrow> bool" where
  "tree_ok fo i \<longleftrightarrow> (\<exists>c. fo_c fo ! i = Val c \<and>
     (c = CORD_EMPTY \<or> ok c \<and> fo_len fo ! i = Val (length (chars c)) \<and> mlen i \<le> length (chars c) \<and> dep c \<le> int i + 1))"

definition fo_inv :: "nat \<Rightarrow> forest \<Rightarrow> bool" where
  "fo_inv K fo \<longleftrightarrow> K \<le> 46 \<and> length (fo_c fo) = 48 \<and> length (fo_len fo) = 48 \<and> (\<forall>i \<le> K. tree_ok fo i)"

lemma ftext_cut:
  assumes "\<And>j. j < i \<Longrightarrow> tree fo j = CORD_EMPTY" "tree fo' i = CORD_EMPTY"
    and "\<And>j. j \<noteq> i \<Longrightarrow> tree fo' j = tree fo j" "i < n"
  shows "ftext fo n = ftext fo' n @ chars (tree fo i)"
  using assms(4)
proof (induction n)
  case (Suc n)
  have "ftext fo k = []" "ftext fo' k = []" if "k \<le> i" for k
    using that assms(1,3) by (induction k) auto
  with Suc assms(2,3) show ?case by (cases "n = i") auto
qed simp

lemma ftext_cong: "(\<And>j. j < n \<Longrightarrow> tree fo j = tree fo' j) \<Longrightarrow> ftext fo n = ftext fo' n"
  by (induction n) auto

lemma ftext_suffix: "i \<le> n \<Longrightarrow> \<exists>us. ftext fo n = us @ ftext fo i"
  by (induction n) (auto simp: le_Suc_eq)

section \<open>Taking trees out of the forest\<close>

text \<open>The state of the loops: the trees below \<open>i\<close> are gone, their text is that of the sum.\<close>

definition st_inv :: "nat \<Rightarrow> string \<Rightarrow> nat \<Rightarrow> cord \<Rightarrow> nat \<Rightarrow> forest \<Rightarrow> bool" where
  "st_inv K T i acc n fo \<longleftrightarrow> fo_inv K fo \<and> (\<forall>j < i. tree fo j = CORD_EMPTY) \<and> ok0 acc \<and>
     n = length (chars acc) \<and> ftext fo (Suc K) @ chars acc = T \<and> length T < mlen K"

lemma st_inv_length: "st_inv K T i acc n fo \<Longrightarrow> n \<le> length T \<and> length T < mlen K \<and> length T < 2 ^ 64"
proof -
  assume st: "st_inv K T i acc n fo"
  then have "mlen K \<le> mlen 46" by (auto simp: st_inv_def fo_inv_def mlen_le_iff)
  then show ?thesis using st unfolding mlen_46 by (auto simp: st_inv_def)
qed

lemma ok0_cat:
  assumes "ok c" "ok0 x" "dep c < 47" "dep x < 47" "length (chars c) + length (chars x) < 2 ^ 64"
  shows "\<exists>z. CORD_cat bal c x = Inr z \<and> ok z \<and> chars z = chars c @ chars x \<and>
    dep z \<le> (if x = CORD_EMPTY then dep c else max (dep c) (dep x) + 1)"
proof (cases "x = CORD_EMPTY")
  case True
  then show ?thesis using assms(1) by (cases c) (auto simp: CORD_cat_def)
next
  case False
  then have "makes bal (CORD_cat bal c x) (chars c @ chars x) (max (dep c) (dep x) + 1)"
    using assms by (intro cat_makes) (auto simp: ok0_def)
  from makes_shallow [OF this] assms(3,4) False show ?thesis by auto
qed

lemma take_tree_rep:
  assumes st: "st_inv K T i acc n fo" and i: "i < K" and d: "dep acc \<le> 46"
  shows "\<exists>acc' n' fo'. take_tree (CORD_cat bal) (int i) (acc, n, fo) = Inr (acc', n', fo') \<and>
    st_inv K T (Suc i) acc' n' fo' \<and>
    (acc' = acc \<and> n' = n \<or> acc' \<noteq> CORD_EMPTY \<and> mlen i + n \<le> n' \<and>
       dep acc' \<le> (if acc = CORD_EMPTY then int i + 1 else max (dep acc) (int i + 1) + 1))"
proof -
  have fo: "fo_inv K fo" "length (fo_c fo) = 48" "K \<le> 46" "tree_ok fo i" and acc: "ok0 acc" "n = length (chars acc)"
    using st i by (auto simp: st_inv_def fo_inv_def)
  obtain c where c: "fo_c fo ! i = Val c" "c = CORD_EMPTY \<or> ok c \<and> fo_len fo ! i = Val (length (chars c)) \<and>
      mlen i \<le> length (chars c) \<and> dep c \<le> int i + 1"
    using fo(4) by (auto simp: tree_ok_def)
  have tr: "tree fo i = c" using c by (simp add: tree_def)
  have load: "load (fo_c fo) (int i) = Inr c" using c(1) fo(2,3) i by (simp add: load_def)
  show ?thesis
  proof (cases "c = CORD_EMPTY")
    case True
    then have "st_inv K T (Suc i) acc n fo" using st tr by (auto simp: st_inv_def less_Suc_eq)
    then show ?thesis using load True by (auto simp: take_tree_def)
  next
    case False
    define fo' where "fo' = fo\<lparr>fo_c := (fo_c fo)[i := Val CORD_EMPTY]\<rparr>"
    have i48: "i < 48" using i fo(3) by simp
    have tr': "tree fo' j = (if j = i then CORD_EMPTY else tree fo j)" for j
      using i48 fo(2) by (simp add: tree_def fo'_def)
    have low: "\<And>j. j < i \<Longrightarrow> tree fo j = CORD_EMPTY" using st by (simp add: st_inv_def)
    have cut: "ftext fo (Suc K) = ftext fo' (Suc K) @ chars c"
      using ftext_cut [of i fo fo' "Suc K"] tr' low i tr by simp
    have len: "length (chars c) + length (chars acc) < 2 ^ 64"
      using st_inv_length [OF st] st arg_cong [OF cut, of length] by (auto simp: st_inv_def simp del: ftext.simps)
    obtain z where z: "CORD_cat bal c acc = Inr z" "ok z" "chars z = chars c @ chars acc"
      "dep z \<le> (if acc = CORD_EMPTY then dep c else max (dep c) (dep acc) + 1)"
      using ok0_cat [of c acc bal] c False acc d len i fo(3) by auto
    have "tree_ok fo' j" if "j \<le> K" for j
      using fo(1) that i48 by (auto simp: fo_inv_def tree_ok_def fo'_def nth_list_update)
    then have "fo_inv K fo'" using fo(1) by (simp add: fo_inv_def fo'_def)
    moreover have "n + length (chars c) = length (chars z)" using z(3) acc by simp
    ultimately have "st_inv K T (Suc i) z (n + length (chars c)) fo'"
      using st z cut tr' by (auto simp: st_inv_def less_Suc_eq ok0_def)
    moreover have "take_tree (CORD_cat bal) (int i) (acc, n, fo) = Inr (z, n + length (chars c), fo')"
      using load c False z(1) fo(1) i48 len acc(2)
      by (cases c) (auto simp: take_tree_def fo_inv_def load_def store_def fo'_def add.commute)
    moreover have "z \<noteq> CORD_EMPTY" using z(2) by auto
    moreover have "dep z \<le> (if acc = CORD_EMPTY then int i + 1 else max (dep acc) (int i + 1) + 1)"
      using z(4) c(2) False by auto
    ultimately show ?thesis using c(2) False by auto
  qed
qed

text \<open>The first loop: trees shorter than the new one.\<close>

definition short_state :: "nat \<Rightarrow> cord \<Rightarrow> nat \<Rightarrow> bool" where
  "short_state i acc n \<longleftrightarrow> acc = CORD_EMPTY \<or> dep acc \<le> int i \<or>
     (dep acc \<le> int i + 1 \<and> 0 < i \<and> mlen (i - 1) \<le> n)"

lemma shorter_trees_rep:
  assumes "st_inv K T i acc n fo" "short_state i acc n" "0 < i \<Longrightarrow> mlen i < len" "0 < len" "len < mlen K"
  shows "\<exists>i' acc' n' fo'. shorter_trees (CORD_cat bal) len (int i) (acc, n, fo) = Inr (int i', acc', n', fo') \<and>
    st_inv K T i' acc' n' fo' \<and> short_state i' acc' n' \<and> (0 < i' \<longrightarrow> mlen i' < len) \<and> len \<le> mlen (Suc i')"
  using assms
proof (induction "K - i" arbitrary: i acc n fo rule: less_induct)
  case less
  have K: "K \<le> 46" using less.prems(1) by (simp add: st_inv_def fo_inv_def)
  have iK: "i < K"
  proof (cases "i = 0")
    case True
    have "mlen 0 < mlen K" using less.prems(4,5) by simp
    then show ?thesis using True by (simp only: mlen_less_iff)
  next
    case False
    then show ?thesis using less.prems(3,5) mlen_less_iff [of i K] by simp
  qed
  then have m: "min_len (int i + 1) = Inr (mlen (Suc i))"
    using min_len_nat [of "Suc i"] K by (simp add: add.commute)
  show ?case
  proof (cases "mlen (Suc i) < len")
    case True
    have "dep acc \<le> 46" using less.prems(2) iK K by (auto simp: short_state_def)
    from take_tree_rep [OF less.prems(1) iK this] obtain acc' n' fo' where
      t: "take_tree (CORD_cat bal) (int i) (acc, n, fo) = Inr (acc', n', fo')" "st_inv K T (Suc i) acc' n' fo'"
        "acc' = acc \<and> n' = n \<or> acc' \<noteq> CORD_EMPTY \<and> mlen i + n \<le> n' \<and>
         dep acc' \<le> (if acc = CORD_EMPTY then int i + 1 else max (dep acc) (int i + 1) + 1)" by blast
    have "short_state (Suc i) acc' n'" using t(3) less.prems(2) by (auto simp: short_state_def split: if_splits)
    from less.hyps [OF _ t(2) this] show ?thesis
      using True iK t(1) less.prems(4,5) m
      by (subst shorter_trees.simps) (simp add: add.commute)
  next
    case False
    then show ?thesis using less.prems m by (subst shorter_trees.simps) auto
  qed
qed

text \<open>The second loop: trees that the sum can take the place of.\<close>

lemma larger_trees_rep:
  assumes "st_inv K T i acc n fo" "acc \<noteq> CORD_EMPTY" "mlen i \<le> n"
    and "dep acc \<le> int i + 1 \<or> dep acc \<le> int i + 2 \<and> mlen (Suc i) \<le> n"
  shows "\<exists>i' acc' n' fo'. larger_trees (CORD_cat bal) (int i) (acc, n, fo) = Inr (int (Suc i'), acc', n', fo') \<and>
    st_inv K T (Suc i') acc' n' fo' \<and> acc' \<noteq> CORD_EMPTY \<and> dep acc' \<le> int i' + 1 \<and> mlen i' \<le> n' \<and> i' < K"
  using assms
proof (induction "K - i" arbitrary: i acc n fo rule: less_induct)
  case less
  have K: "K \<le> 46" using less.prems(1) by (simp add: st_inv_def fo_inv_def)
  have below: "j < K" if "mlen j \<le> n'" "st_inv K T k a n' f" for j n' k a f
    using that st_inv_length [of K T k a n' f] mlen_less_iff [of j K] by linarith
  have iK: "i < K" using below less.prems(1,3) by blast
  have d: "dep acc \<le> 46" using less.prems(4) iK below [OF _ less.prems(1), of "Suc i"] K by auto
  from take_tree_rep [OF less.prems(1) iK this] obtain acc' n' fo' where
    t: "take_tree (CORD_cat bal) (int i) (acc, n, fo) = Inr (acc', n', fo')" "st_inv K T (Suc i) acc' n' fo'"
      "acc' = acc \<and> n' = n \<or> acc' \<noteq> CORD_EMPTY \<and> mlen i + n \<le> n' \<and> dep acc' \<le> max (dep acc) (int i + 1) + 1"
    unfolding if_not_P [OF less.prems(2)] by blast
  have go: "larger_trees (CORD_cat bal) (int i) (acc, n, fo) = larger_trees (CORD_cat bal) (int (Suc i)) (acc', n', fo')"
    using t(1) less.prems(3) iK K by (subst larger_trees.simps) (simp add: add.commute)
  have ne: "acc' \<noteq> CORD_EMPTY" using t(3) less.prems(2) by auto
  have R: "(dep acc' \<le> int i + 1 \<and> mlen i \<le> n') \<or> (dep acc' \<le> int i + 2 \<and> mlen (Suc i) \<le> n') \<or>
      (dep acc' \<le> int i + 3 \<and> mlen (Suc (Suc i)) \<le> n')"
    using t(3) less.prems(3,4) mlen_double [of i] by auto
  show ?case
  proof (cases "mlen (Suc i) \<le> n'")
    case True
    have "K - Suc i < K - i" using iK by simp
    from less.hyps [OF this t(2) ne True] R show ?thesis unfolding go by fastforce
  next
    case False
    then have "larger_trees (CORD_cat bal) (int (Suc i)) (acc', n', fo') = Inr (int (Suc i), acc', n', fo')"
      using iK K min_len_nat [of "Suc i"] by (subst larger_trees.simps) simp
    moreover have "dep acc' \<le> int i + 1 \<and> mlen i \<le> n'" using R False mlen_Suc [of "Suc i"] by auto
    ultimately show ?thesis using go t(2) ne iK by (intro exI [of _ i]) auto
  qed
qed

section \<open>Adding to the forest\<close>

text \<open>What CORD_add_forest is called with: a leaf or a tree that is long enough for its depth.\<close>

definition balanced :: "cord \<Rightarrow> bool" where
  "balanced x \<longleftrightarrow> dep x < 48 \<and> mlen (nat (dep x)) \<le> length (chars x)"

lemma store_tree:
  assumes fo: "fo_inv K fo" and low: "\<And>j. j \<le> i \<Longrightarrow> tree fo j = CORD_EMPTY" and i: "i \<le> K"
    and x: "ok x" "mlen i \<le> length (chars x)" "dep x \<le> int i + 1"
  shows "\<exists>cs ls. store (fo_c fo) (int i) x = Inr cs \<and> store (fo_len fo) (int i) (length (chars x)) = Inr ls \<and>
    fo_inv K (fo\<lparr>fo_c := cs, fo_len := ls\<rparr>) \<and> ftext (fo\<lparr>fo_c := cs, fo_len := ls\<rparr>) (Suc K) = ftext fo (Suc K) @ chars x"
proof -
  let ?fo = "fo\<lparr>fo_c := (fo_c fo)[i := Val x], fo_len := (fo_len fo)[i := Val (length (chars x))]\<rparr>"
  have len: "i < length (fo_c fo)" "i < length (fo_len fo)" using fo i by (auto simp: fo_inv_def)
  have "tree_ok ?fo j" if "j \<le> K" for j
    using fo that len x by (auto simp: fo_inv_def tree_ok_def nth_list_update)
  then have inv: "fo_inv K ?fo" using fo by (simp add: fo_inv_def)
  have tr: "tree ?fo j = (if j = i then x else tree fo j)" for j using len by (simp add: tree_def)
  have "ftext ?fo (Suc K) = ftext fo (Suc K) @ chars (tree ?fo i)"
    using low i tr by (intro ftext_cut) auto
  then show ?thesis using inv len tr by (simp add: store_def del: ftext.simps)
qed

lemma add_forest_rep:
  assumes fo: "fo_inv K fo" and x: "ok x" "balanced x"
    and T: "length (ftext fo (Suc K)) + length (chars x) < mlen K"
  shows "\<exists>fo'. CORD_add_forest (CORD_cat bal) fo x (length (chars x)) = Inr fo' \<and> fo_inv K fo' \<and>
    ftext fo' (Suc K) = ftext fo (Suc K) @ chars x"
proof -
  let ?len = "length (chars x)"
  have K: "K \<le> 46" using fo by (simp add: fo_inv_def)
  have pos: "0 < ?len" using ok_chars [OF x(1)] by simp
  have "st_inv K (ftext fo (Suc K)) 0 CORD_EMPTY 0 fo" using fo T by (simp add: st_inv_def ok0_def del: ftext.simps)
  from shorter_trees_rep [OF this _ _ pos] T obtain i acc n f1 where
    1: "shorter_trees (CORD_cat bal) ?len 0 (CORD_EMPTY, 0, fo) = Inr (int i, acc, n, f1)"
      "st_inv K (ftext fo (Suc K)) i acc n f1" "short_state i acc n" "0 < i \<longrightarrow> mlen i < ?len" "?len \<le> mlen (Suc i)"
    by (fastforce simp: short_state_def simp del: ftext.simps)
  have i: "mlen i \<le> ?len" using 1(4) pos by (cases i) (auto simp: Suc_le_eq)
  then have iK: "i < K" using T mlen_less_iff [of i K] by linarith
  have "mlen (nat (dep x)) \<le> mlen (Suc i)" using x(2) 1(5) by (simp add: balanced_def)
  then have dx: "0 \<le> dep x" "dep x \<le> int i + 1" "dep x = int i + 1 \<Longrightarrow> mlen (Suc i) \<le> ?len"
    using ok_dep [OF x(1)] x(2) by (auto simp: mlen_le_iff balanced_def nat_add_distrib)
  have dacc: "dep acc \<le> int i + 1" using 1(3) by (auto simp: short_state_def)
  have acc: "ok0 acc" "n = length (chars acc)" "n \<le> length (ftext fo (Suc K))"
    using 1(2) st_inv_length [OF 1(2)] by (simp_all add: st_inv_def del: ftext.simps)
  have small: "length (chars acc) + ?len < 2 ^ 64"
    using acc T mlen_le_iff [of K 46] K by (simp add: mlen_46 del: ftext.simps)
  obtain z where z: "CORD_cat bal acc x = Inr z" "ok z" "chars z = chars acc @ chars x"
    "dep z \<le> (if acc = CORD_EMPTY then dep x else max (dep acc) (dep x) + 1)"
  proof (cases "acc = CORD_EMPTY")
    case True
    then show ?thesis using that x(1) by (simp add: CORD_cat_def)
  next
    case False
    then have "ok acc" "ok0 x" "x \<noteq> CORD_EMPTY" using acc(1) x(1) by (auto simp: ok0_def)
    then show ?thesis using ok0_cat [of acc x bal] dacc dx iK K small that False by auto
  qed
  have st: "st_inv K (ftext fo (Suc K) @ chars x) i z (n + ?len) f1"
    using 1(2) z T acc by (auto simp: st_inv_def ok0_def simp del: ftext.simps)
  have "dep z \<le> int i + 1 \<or> dep z \<le> int i + 2 \<and> mlen (Suc i) \<le> n + ?len"
  proof (cases "acc = CORD_EMPTY \<or> dep acc \<le> int i \<and> dep x \<le> int i")
    case True
    then have "dep z \<le> int i + 1" using z(4) dx(2) by (cases "acc = CORD_EMPTY") auto
    then show ?thesis by simp
  next
    case False
    then have "dep z \<le> int i + 2" using z(4) dx dacc by auto
    moreover have "mlen (Suc i) \<le> n + ?len"
    proof (cases "dep x = int i + 1")
      case True
      then show ?thesis using dx(3) by simp
    next
      case xs: False
      then have "0 < i" "mlen (i - 1) \<le> n" using False 1(3) dx by (auto simp: short_state_def)
      then show ?thesis using i by (cases i) auto
    qed
    ultimately show ?thesis by simp
  qed
  moreover have "z \<noteq> CORD_EMPTY" using z(2) by auto
  ultimately obtain i2 acc2 n2 f2 where
    2: "larger_trees (CORD_cat bal) (int i) (z, n + ?len, f1) = Inr (int (Suc i2), acc2, n2, f2)"
      "st_inv K (ftext fo (Suc K) @ chars x) (Suc i2) acc2 n2 f2" "acc2 \<noteq> CORD_EMPTY" "dep acc2 \<le> int i2 + 1"
      "mlen i2 \<le> n2" "i2 < K"
    using larger_trees_rep [OF st, of bal] i by auto
  have "ok acc2" "n2 = length (chars acc2)" "fo_inv K f2" "\<And>j. j \<le> i2 \<Longrightarrow> tree f2 j = CORD_EMPTY"
    "ftext f2 (Suc K) @ chars acc2 = ftext fo (Suc K) @ chars x"
    using 2(2,3) by (auto simp: st_inv_def ok0_def simp del: ftext.simps)
  with store_tree [of K f2 i2 acc2] 2 show ?thesis
    using 1(1) z(1) acc small by (auto simp: CORD_add_forest_def simp del: ftext.simps)
qed

lemma balance_insert_rep:
  assumes "fo_inv K fo" "ok x" "dep x \<le> 48" "length (ftext fo (Suc K)) + length (chars x) < mlen K"
  shows "\<exists>fo'. CORD_balance_insert (CORD_cat bal) x (length (chars x)) fo = Inr fo' \<and> fo_inv K fo' \<and>
    ftext fo' (Suc K) = ftext fo (Suc K) @ chars x"
  using assms
proof (induction x arbitrary: fo)
  case (Concat d ll m l r)
  let ?x = "Concat d ll m l r"
  have l: "ok l" "dep l \<le> 48" and r: "ok r" "dep r \<le> 48" and d: "0 \<le> d"
    using Concat.prems ok_dep [of ?x] by auto
  have k: "LEFT_LEN ?x = Inr (length (chars l))" using ok_LEFT_LEN Concat.prems(2) by blast
  have sub: "usub (length (chars ?x)) (length (chars l)) = length (chars r)"
    using ok_chars [OF Concat.prems(2)] by simp
  show ?case
  proof (cases "48 \<le> d \<or> length (chars ?x) < mlen (nat d)")
    case True
    then have split: "(if CORD_MAX_DEPTH \<le> d then Inr True else rbind (min_len d) (\<lambda>m. Inr (length (chars ?x) < m))) = Inr True"
      using d min_len_nat [of "nat d"] by (cases "48 \<le> d") auto
    obtain f1 where f1: "CORD_balance_insert (CORD_cat bal) l (length (chars l)) fo = Inr f1" "fo_inv K f1"
      "ftext f1 (Suc K) = ftext fo (Suc K) @ chars l"
      using Concat.IH(1) [OF Concat.prems(1) l] Concat.prems(4) by (auto simp del: ftext.simps)
    obtain f2 where f2: "CORD_balance_insert (CORD_cat bal) r (length (chars r)) f1 = Inr f2" "fo_inv K f2"
      "ftext f2 (Suc K) = ftext f1 (Suc K) @ chars r"
      using Concat.IH(2) [OF f1(2) r] Concat.prems(4) f1(3) by (auto simp del: ftext.simps)
    show ?thesis unfolding CORD_balance_insert.simps(3) split rbind_Inr if_True k f1(1) sub f2(1)
      using f2 f1(3) by simp
  next
    case False
    then have "balanced ?x" by (auto simp: balanced_def)
    moreover have split: "(if CORD_MAX_DEPTH \<le> d then Inr True else rbind (min_len d) (\<lambda>m. Inr (length (chars ?x) < m))) = Inr False"
      using False d min_len_nat [of "nat d"] by auto
    ultimately show ?thesis unfolding CORD_balance_insert.simps(3) split rbind_Inr if_False
      using add_forest_rep [OF Concat.prems(1,2)] Concat.prems(4) by blast
  qed
next
  case (Str s)
  then show ?case using add_forest_rep [OF Str.prems(1,2)] by (auto simp: balanced_def Suc_le_eq simp del: ftext.simps)
next
  case (Fn f n)
  then show ?case using add_forest_rep [OF Fn.prems(1,2)] by (auto simp: balanced_def Suc_le_eq simp del: ftext.simps)
next
  case (Substr a c s n)
  then show ?case using add_forest_rep [OF Substr.prems(1,2)] ok_chars [OF Substr.prems(2)]
    by (auto simp: balanced_def Suc_le_eq simp del: ftext.simps)
qed simp

section \<open>The whole\<close>

lemma concat_loop_rep:
  assumes fo: "fo_inv K fo" and T: "length (ftext fo (Suc K)) < mlen K"
    and "i \<le> Suc K" "ok0 acc" "chars acc = ftext fo i" "dep acc \<le> int i + 1"
    and "mlen (nat (dep acc - 2)) \<le> length (chars acc) \<or> acc = CORD_EMPTY"
  shows "\<exists>z. concat_loop (CORD_cat bal) fo (length (ftext fo (Suc K))) (int i) acc (length (chars acc)) = Inr z \<and>
    ok0 z \<and> chars z = ftext fo (Suc K) \<and> (mlen (nat (dep z - 2)) \<le> length (chars z) \<or> z = CORD_EMPTY)"
  using assms(3-)
proof (induction "Suc K - i" arbitrary: i acc rule: less_induct)
  case less
  have K: "K \<le> 46" using fo by (simp add: fo_inv_def)
  obtain us where us: "ftext fo (Suc K) = us @ ftext fo i" using ftext_suffix [OF less.prems(1)] by blast
  show ?case
  proof (cases "length (chars acc) = length (ftext fo (Suc K))")
    case True
    then show ?thesis using us less.prems by (subst concat_loop.simps) (auto simp del: ftext.simps)
  next
    case False
    then have iK: "i \<le> K" using less.prems(1,3) le_SucE by (auto simp del: ftext.simps)
    obtain c where c: "fo_c fo ! i = Val c" "c = CORD_EMPTY \<or> ok c \<and> fo_len fo ! i = Val (length (chars c)) \<and>
        mlen i \<le> length (chars c) \<and> dep c \<le> int i + 1"
      using fo iK by (auto simp: fo_inv_def tree_ok_def)
    have load: "load (fo_c fo) (int i) = Inr c" using c(1) fo iK by (simp add: load_def fo_inv_def)
    have tr: "tree fo i = c" using c(1) by (simp add: tree_def)
    have less_i: "Suc K - Suc i < Suc K - i" using iK by simp
    show ?thesis
    proof (cases "c = CORD_EMPTY")
      case True
      have "concat_loop (CORD_cat bal) fo (length (ftext fo (Suc K))) (int i) acc (length (chars acc)) =
          concat_loop (CORD_cat bal) fo (length (ftext fo (Suc K))) (int (Suc i)) acc (length (chars acc))"
        using False load True by (subst concat_loop.simps) (simp add: add.commute del: ftext.simps)
      then show ?thesis using less.hyps [OF less_i, of acc] less.prems iK True tr by simp
    next
      case ne: False
      obtain vs where "ftext fo (Suc K) = vs @ ftext fo (Suc i)" using ftext_suffix [of "Suc i" "Suc K"] iK by auto
      then have sum_le: "length (chars c) + length (chars acc) \<le> length (ftext fo (Suc K))"
        using tr less.prems(3) by simp
      then have iK': "i < K" using c(2) ne T mlen_less_iff [of i K] by (simp del: ftext.simps)
      have small: "length (chars c) + length (chars acc) < 2 ^ 64"
        using sum_le T mlen_le_iff [of K 46] K by (simp add: mlen_46 del: ftext.simps)
      obtain z where z: "CORD_cat bal c acc = Inr z" "ok z" "chars z = chars c @ chars acc"
        "dep z \<le> (if acc = CORD_EMPTY then dep c else max (dep c) (dep acc) + 1)"
        using ok0_cat [of c acc bal] c(2) ne less.prems(2,4) iK' K small by auto
      have dz: "dep z \<le> int i + 2" using z(4) c(2) ne less.prems(4) by (auto split: if_splits)
      have "nat (dep z - 2) \<le> i" using dz by simp
      then have "mlen (nat (dep z - 2)) \<le> mlen i" by (simp add: mlen_le_iff)
      then have mz: "mlen (nat (dep z - 2)) \<le> length (chars z)" using c(2) ne z(3) by simp
      have len: "length (chars z) = usize (length (chars acc) + length (chars c))" using z(3) small by simp
      have l: "load (fo_len fo) (int i) = Inr (length (chars c))" using c(2) ne fo iK by (simp add: load_def fo_inv_def)
      have s: "int (Suc i) = int i + 1" by simp
      have "concat_loop (CORD_cat bal) fo (length (ftext fo (Suc K))) (int i) acc (length (chars acc)) =
          concat_loop (CORD_cat bal) fo (length (ftext fo (Suc K))) (int (Suc i)) z (length (chars z))"
        using False load ne z(1) len l s by (subst concat_loop.simps, cases c) (simp_all add: add.commute)
      then show ?thesis
        using mz less.hyps [OF less_i, of z] z(2,3) dz iK tr less.prems(3) by (simp add: ok0_def)
    qed
  qed
qed

lemma init_forest_loop_rep:
  assumes "i + length ms = 48" "length (fo_c fo) = 48" "length (fo_len fo) = 48"
    and "\<And>k. k < length ms \<Longrightarrow> ms ! k = mlen (i + k)"
    and "\<And>j. j < i \<Longrightarrow> fo_c fo ! j = Val CORD_EMPTY" "\<And>j. j < i \<Longrightarrow> mlen j \<le> n" "n < mlen 46"
  shows "\<exists>K fo'. init_forest_loop ms (int i) n fo = Inr fo' \<and> K \<le> 46 \<and> n < mlen K \<and>
    length (fo_c fo') = 48 \<and> length (fo_len fo') = 48 \<and> (\<forall>j \<le> K. fo_c fo' ! j = Val CORD_EMPTY)"
  using assms
proof (induction ms arbitrary: i fo)
  case (Cons m ms)
  have m: "m = mlen i" using Cons.prems(4) [of 0] by simp
  let ?fo = "fo\<lparr>fo_c := (fo_c fo)[i := Val CORD_EMPTY]\<rparr>"
  have i: "i < 48" using Cons.prems(1) by simp
  have st: "store (fo_c fo) (int i) CORD_EMPTY = Inr ((fo_c fo)[i := Val CORD_EMPTY])"
    using i Cons.prems(2) by (simp add: store_def)
  have z: "fo_c ?fo ! j = Val CORD_EMPTY" if "j < Suc i" for j
    using that i Cons.prems(2,5) by (auto simp: nth_list_update less_Suc_eq)
  have nth: "ms ! k = mlen (Suc i + k)" if "k < length ms" for k using that Cons.prems(4) [of "Suc k"] by simp
  show ?case
  proof (cases "n < m")
    case True
    have "i \<le> 46"
    proof (rule ccontr)
      assume "\<not> i \<le> 46"
      then show False using Cons.prems(6) [of 46] Cons.prems(7) by simp
    qed
    then show ?thesis using st True m z Cons.prems(2,3)
      by (intro exI [of _ i] exI [of _ ?fo]) (auto simp: less_Suc_eq_le)
  next
    case False
    have "\<exists>K fo'. init_forest_loop ms (int (Suc i)) n ?fo = Inr fo' \<and> K \<le> 46 \<and> n < mlen K \<and>
        length (fo_c fo') = 48 \<and> length (fo_len fo') = 48 \<and> (\<forall>j \<le> K. fo_c fo' ! j = Val CORD_EMPTY)"
      using Cons.prems(1-3,6,7) False m z nth by (intro Cons.IH) (auto simp: less_Suc_eq)
    then show ?thesis using st False by (simp add: add.commute)
  qed
next
  case Nil
  then have "mlen 46 \<le> n" by simp
  with Nil show ?case by simp
qed

lemma init_forest_rep:
  assumes "n < mlen 46"
  shows "\<exists>K fo. CORD_init_forest n raw_forest = Inr fo \<and> fo_inv K fo \<and> ftext fo (Suc K) = [] \<and> n < mlen K"
proof -
  have "\<exists>K fo'. init_forest_loop CORD_init_min_len (int 0) n raw_forest = Inr fo' \<and> K \<le> 46 \<and> n < mlen K \<and>
    length (fo_c fo') = 48 \<and> length (fo_len fo') = 48 \<and> (\<forall>j \<le> K. fo_c fo' ! j = Val CORD_EMPTY)"
    using assms init_min_len_nth by (intro init_forest_loop_rep) (auto simp: length_init_min_len raw_forest_def)
  then obtain K fo where fo: "CORD_init_forest n raw_forest = Inr fo" "K \<le> 46" "n < mlen K"
    "length (fo_c fo) = 48" "length (fo_len fo) = 48" "\<forall>j \<le> K. fo_c fo ! j = Val CORD_EMPTY"
    by (auto simp: CORD_init_forest_def)
  have "ftext fo k = []" if "k \<le> Suc K" for k
    using that fo(6) by (induction k) (auto simp: tree_def)
  then show ?thesis using fo by (intro exI [of _ K] exI [of _ fo]) (auto simp: fo_inv_def tree_ok_def simp del: ftext.simps)
qed

lemma balance_rep:
  assumes "ok x" "dep x \<le> 48" "length (chars x) < BALANCE_LIMIT"
  shows "\<exists>z. CORD_balance (CORD_cat bal) x = Inr z \<and> ok z \<and> chars z = chars x \<and>
    (is_string x \<or> mlen (nat (dep z - 2)) \<le> length (chars z)) \<and> dep z < 48"
proof (cases "is_string x")
  case True
  then show ?thesis using assms(1) by (auto simp: CORD_balance_def elim!: is_stringE)
next
  case False
  obtain K f0 where f0: "CORD_init_forest (length (chars x)) raw_forest = Inr f0" "fo_inv K f0"
    "ftext f0 (Suc K) = []" "length (chars x) < mlen K"
    using init_forest_rep [of "length (chars x)"] assms(3) by (auto simp: mlen_46 simp del: ftext.simps)
  obtain f1 where f1: "CORD_balance_insert (CORD_cat bal) x (length (chars x)) f0 = Inr f1" "fo_inv K f1"
    "ftext f1 (Suc K) = chars x"
    using balance_insert_rep [OF f0(2) assms(1,2), of bal] f0(3,4) by (auto simp del: ftext.simps)
  obtain z where z: "CORD_concat_forest (CORD_cat bal) f1 (length (chars x)) = Inr z" "ok0 z" "chars z = chars x"
    "mlen (nat (dep z - 2)) \<le> length (chars z) \<or> z = CORD_EMPTY"
    using concat_loop_rep [OF f1(2), of 0 CORD_EMPTY bal] f1(3) f0(4)
    by (auto simp: CORD_concat_forest_def ok0_def simp del: ftext.simps(2))
  have ne: "z \<noteq> CORD_EMPTY" "ok z" using z(2,3) ok_chars [OF assms(1)] by (auto simp: ok0_def)
  have "CORD_balance (CORD_cat bal) x = Inr z"
    using False assms(1) f0(1) f1(1) z(1) ok_LEN [OF assms(1) False] by (cases x) (auto simp: CORD_balance_def)
  moreover have "dep z < 48"
  proof -
    have "mlen (nat (dep z - 2)) < mlen 46" using z(3,4) ne assms(3) mlen_46 by simp
    then show ?thesis unfolding mlen_less_iff by linarith
  qed
  ultimately show ?thesis using z ne by auto
qed

lemma cord_cat_rep:
  assumes "ok0 x" "ok0 y" "dep x < 48" "dep y < 48" "length (chars x) + length (chars y) < BALANCE_LIMIT" "0 < k"
  shows "\<exists>z. cord_cat k x y = Inr z \<and> ok0 z \<and> dep z < 48 \<and> chars z = chars x @ chars y"
proof (cases "x = CORD_EMPTY \<or> y = CORD_EMPTY")
  case True
  then show ?thesis using assms by (cases x; cases y) (auto simp: cord_cat_def CORD_cat_def)
next
  case False
  then have ok: "ok x" "ok y" using assms(1,2) by (auto simp: ok0_def)
  obtain z where z: "ok z" "chars z = chars x @ chars y" "dep z \<le> 48"
    "cord_cat k x y = (if dep z < 48 then Inr z else cord_bal k z)"
    using cat_makes [OF ok assms(3,4), of 48 "cord_bal k"] assms(3-5) by (auto simp: makes_def cord_cat_def)
  show ?thesis
  proof (cases "dep z < 48")
    case True
    then show ?thesis using z by (auto simp: ok0_def)
  next
    case False
    obtain j where j: "k = Suc j" using assms(6) by (cases k) auto
    from balance_rep [OF z(1,3)] z(2) assms(5)
    obtain w where "cord_bal k z = Inr w" "ok w" "chars w = chars z" "dep w < 48" by (auto simp: j)
    then show ?thesis using z False by (auto simp: ok0_def)
  qed
qed

section \<open>Properties\<close>

text \<open>C3: CORD_cat returns a cord for the concatenation of the two strings whose nodes hold the right
  lengths and depths, and whose depth is below the limit; one call of CORD_balance is enough for it,
  since the concatenations CORD_balance makes itself never need balancing.\<close>

theorem cord_cat_concatenates:
  assumes "ok0 x" "ok0 y" "dep x < 48" "dep y < 48" "length (chars x) + length (chars y) < BALANCE_LIMIT" "0 < k"
  shows "\<exists>z. cord_cat k x y = Inr z \<and> ok0 z \<and> dep z < 48 \<and> chars z = chars x @ chars y"
  using assms by (rule cord_cat_rep)

theorem cord_cat_concatenates_witness:
  "\<exists>z. cord_cat 1 sample_cord (Fn (\<lambda>i. Inr (CHR ''x'')) 1000) = Inr z \<and> ok0 z \<and> dep z < 48 \<and>
    chars z = ''abcdef'' @ replicate 1000 (CHR ''x'')"
proof -
  have "ok0 sample_cord" "dep sample_cord < 48" "chars sample_cord = ''abcdef''"
    by (simp_all add: sample_cord_def ok0_def nul_free_def)
  moreover have "chars (Fn (\<lambda>i. Inr (CHR ''x'')) 1000) = replicate 1000 (CHR ''x'')" by (simp add: map_replicate_const)
  ultimately show ?thesis
    using cord_cat_concatenates [of sample_cord "Fn (\<lambda>i. Inr (CHR ''x'')) 1000" 1] by (simp add: ok0_def)
qed

text \<open>C5: CORD_balance returns a cord for the same string without a nested call, whatever the shape of its
  argument is; a result of depth d has at least as many characters as the Fibonacci number of its
  level, \<open>mlen (d - 2)\<close>, so that the depth is logarithmic in the length.\<close>

theorem balance_logarithmic:
  assumes "ok x" "dep x \<le> 48" "\<not> is_string x" "length (chars x) < BALANCE_LIMIT"
  shows "\<exists>z. cord_bal (Suc k) x = Inr z \<and> ok z \<and> chars z = chars x \<and> dep z < 48 \<and>
    mlen (nat (dep z - 2)) \<le> length (chars z)"
  using balance_rep [OF assms(1,2,4)] assms(3) by auto

theorem balance_logarithmic_witness:
  "\<exists>z. cord_bal 1 (Concat 2 1 7 (Str ''x'') sample_cord) = Inr z \<and> ok z \<and> chars z = ''xabcdef'' \<and> dep z < 48 \<and>
    mlen (nat (dep z - 2)) \<le> length (chars z)"
proof -
  let ?x = "Concat 2 1 7 (Str ''x'') sample_cord"
  have "ok ?x" "chars ?x = ''xabcdef''" "dep ?x \<le> 48" "\<not> is_string ?x" by (simp_all add: sample_cord_def nul_free_def)
  then show ?thesis using balance_logarithmic [of ?x 0] by simp
qed

end
