(* ===== verification/Cord_Extra.thy ===== *)
theory Cord_Extra
  imports Cord_Balance
begin

text \<open>
  src/src/common/gc/cord/cordxtra.c: functions on cords that use only the operations of cordbscs.c, as far
  as they do not work with positions, and the extensible cords of gc/ec.h.

  The client data of an iteration is the state it passes along.  A file to write to is the text written
  and the room left for more; a file to read from is the list of its characters.
\<close>

section \<open>Making cords\<close>

definition CORD_nul_func :: "char \<Rightarrow> nat \<Rightarrow> char res" where
  "CORD_nul_func client_data i = Inr client_data"

definition CORD_chars :: "char \<Rightarrow> nat \<Rightarrow> cord res" where
  "CORD_chars c i = CORD_from_fn (CORD_nul_func c) i"

definition CORD_cat_char :: "(cord \<Rightarrow> cord res) \<Rightarrow> cord \<Rightarrow> char \<Rightarrow> cord res" where
  "CORD_cat_char bal x c =
     (if c = NUL then rbind (CORD_chars NUL 1) (CORD_cat bal x)
      else CORD_cat_char_star bal x [c] 1)"

fun catn_loop :: "(cord \<Rightarrow> cord res) \<Rightarrow> cord \<Rightarrow> cord list \<Rightarrow> cord res" where
  "catn_loop bal result [] = Inr result"
| "catn_loop bal result (x # xs) = rbind (CORD_cat bal result x) (\<lambda>result. catn_loop bal result xs)"

definition CORD_catn :: "(cord \<Rightarrow> cord res) \<Rightarrow> cord list \<Rightarrow> cord res" where
  "CORD_catn bal args = catn_loop bal CORD_EMPTY args"

definition CORD_from_char_star :: "string \<Rightarrow> cord" where
  "CORD_from_char_star s = (if length s = 0 then CORD_EMPTY else Str s)"

section \<open>Filling a buffer\<close>

record fill_data =
  fd_len :: nat
  fd_count :: nat
  fd_buf :: "char cell list"

definition CORD_fill_proc :: "fill_data iter_fn" where
  "CORD_fill_proc c d =
     rbind (store (fd_buf d) (int (fd_count d)) c) (\<lambda>b.
     let count = usize (fd_count d + 1)
     in Inr (fd_len d \<le> count, d\<lparr>fd_count := count, fd_buf := b\<rparr>))"

text \<open>The loop of CORD_batched_fill_proc: the count and the buffer it leaves.\<close>

fun batched_fill :: "string \<Rightarrow> nat \<Rightarrow> nat \<Rightarrow> char cell list \<Rightarrow> (bool \<times> nat \<times> char cell list) res" where
  "batched_fill [] count limit buf = rbind (store buf (int count) NUL) (\<lambda>b. Inr (False, count, b))"
| "batched_fill (c # cs) count limit buf =
     rbind (store buf (int count) c) (\<lambda>b.
     let count = usize (count + 1)
     in if limit \<le> count then Inr (True, count, b) else batched_fill cs count limit b)"

definition CORD_batched_fill_proc :: "fill_data batched_iter_fn" where
  "CORD_batched_fill_proc s d =
     rbind (batched_fill s (fd_count d) (fd_len d) (fd_buf d)) (\<lambda>(stop, count, b).
     Inr (stop, d\<lparr>fd_count := count, fd_buf := b\<rparr>))"

definition CORD_fill_buf :: "cord \<Rightarrow> nat \<Rightarrow> nat \<Rightarrow> char cell list \<Rightarrow> (bool \<times> char cell list) res" where
  "CORD_fill_buf x i len buf =
     rbind (CORD_iter5 x i CORD_fill_proc (Some CORD_batched_fill_proc) \<lparr>fd_len = len, fd_count = 0, fd_buf = buf\<rparr>)
       (\<lambda>(r, d). Inr (r, fd_buf d))"

text \<open>The strings returned are blocks: a cord may contain NUL characters.\<close>

definition CORD_to_char_star :: "cord \<Rightarrow> char cell list res" where
  "CORD_to_char_star x =
     rbind (CORD_len x) (\<lambda>len.
     let result = replicate (usize (len + 1)) Undef in
     rbind (if 0 < len
            then rbind (CORD_fill_buf x 0 len result) (\<lambda>(full, b). if full then Inr b else Inl Fatal_Exit)
            else Inr result) (\<lambda>b.
     store b (int len) NUL))"

definition CORD_to_const_char_star :: "cord \<Rightarrow> char cell list res" where
  "CORD_to_const_char_star x =
     (case x of
        CORD_EMPTY \<Rightarrow> Inr [Val NUL]
      | _ \<Rightarrow>
        (case x of
           Str (c # cs) \<Rightarrow> Inr (map Val (c # cs @ [NUL]))
         | _ \<Rightarrow> CORD_to_char_star x))"

section \<open>Output\<close>

record out_file =
  of_text :: string
  of_room :: nat

definition c_putc :: "char \<Rightarrow> out_file \<Rightarrow> bool \<times> out_file" where
  "c_putc c f =
     (if of_room f = 0 then (True, f)
      else (False, f\<lparr>of_text := of_text f @ [c], of_room := of_room f - 1\<rparr>))"

text \<open>\<open>True\<close> is the result EOF.\<close>

definition c_fputs :: "string \<Rightarrow> out_file \<Rightarrow> bool \<times> out_file" where
  "c_fputs s f =
     (of_room f < length s,
      f\<lparr>of_text := of_text f @ take (of_room f) s, of_room := of_room f - length s\<rparr>)"

definition CORD_put_proc :: "out_file iter_fn" where
  "CORD_put_proc c f = Inr (c_putc c f)"

definition CORD_batched_put_proc :: "out_file batched_iter_fn" where
  "CORD_batched_put_proc s f = Inr (c_fputs s f)"

definition CORD_put :: "cord \<Rightarrow> out_file \<Rightarrow> (int \<times> out_file) res" where
  "CORD_put x f =
     rbind (CORD_iter5 x 0 CORD_put_proc (Some CORD_batched_put_proc) f) (\<lambda>(eof, f).
     Inr (if eof then - 1 else 1, f))"

section \<open>Searching for a character\<close>

record chr_data =
  cd_pos :: nat
  cd_target :: char

definition CORD_chr_proc :: "chr_data iter_fn" where
  "CORD_chr_proc c d =
     (if c = cd_target d then Inr (True, d) else Inr (False, d\<lparr>cd_pos := usize (cd_pos d + 1)\<rparr>))"

definition CORD_rchr_proc :: "chr_data iter_fn" where
  "CORD_rchr_proc c d =
     (if c = cd_target d then Inr (True, d) else Inr (False, d\<lparr>cd_pos := usub (cd_pos d) 1\<rparr>))"

text \<open>strchr also finds the terminator.\<close>

definition strchr_or_end :: "string \<Rightarrow> char \<Rightarrow> nat option" where
  "strchr_or_end s c = (if c = NUL then Some (length s) else c_strchr s c)"

definition CORD_batched_chr_proc :: "chr_data batched_iter_fn" where
  "CORD_batched_chr_proc s d =
     (case strchr_or_end s (cd_target d) of
        None \<Rightarrow> Inr (False, d\<lparr>cd_pos := usize (cd_pos d + length s)\<rparr>)
      | Some occ \<Rightarrow> Inr (True, d\<lparr>cd_pos := usize (cd_pos d + occ)\<rparr>))"

abbreviation CORD_NOT_FOUND :: nat where "CORD_NOT_FOUND \<equiv> 2 ^ 64 - 1"

definition int_to_char :: "int \<Rightarrow> char" where
  "int_to_char c = char_of (nat (c mod 256))"

definition CORD_chr :: "cord \<Rightarrow> nat \<Rightarrow> int \<Rightarrow> nat res" where
  "CORD_chr x i c =
     rbind (CORD_iter5 x i CORD_chr_proc (Some CORD_batched_chr_proc) \<lparr>cd_pos = i, cd_target = int_to_char c\<rparr>)
       (\<lambda>(found, d). Inr (if found then cd_pos d else CORD_NOT_FOUND))"

definition CORD_rchr :: "cord \<Rightarrow> nat \<Rightarrow> int \<Rightarrow> nat res" where
  "CORD_rchr x i c =
     rbind (CORD_riter4 x i CORD_rchr_proc \<lparr>cd_pos = i, cd_target = int_to_char c\<rparr>)
       (\<lambda>(found, d). Inr (if found then cd_pos d else CORD_NOT_FOUND))"

section \<open>Extensible cords\<close>

text \<open>The buffer has \<open>CORD_BUFSZ + 1\<close> bytes; \<open>ec_bufptr\<close> is the offset of the pointer in it.\<close>

abbreviation CORD_BUFSZ :: nat where "CORD_BUFSZ \<equiv> 128"

record cord_ec =
  ec_cord :: cord
  ec_bufptr :: nat
  ec_buf :: "char cell list"

definition raw_ec :: cord_ec where
  "raw_ec = \<lparr>ec_cord = CORD_EMPTY, ec_bufptr = 0, ec_buf = replicate (CORD_BUFSZ + 1) Undef\<rparr>"

definition CORD_ec_init :: "cord_ec \<Rightarrow> cord_ec" where
  "CORD_ec_init x = x\<lparr>ec_cord := CORD_EMPTY, ec_bufptr := 0\<rparr>"

fun load_str :: "char cell list \<Rightarrow> nat \<Rightarrow> nat \<Rightarrow> string res" where
  "load_str b i 0 = Inr []"
| "load_str b i (Suc n) = rbind (load b (int i)) (\<lambda>c. rbind (load_str b (Suc i) n) (\<lambda>cs. Inr (c # cs)))"

definition CORD_ec_flush_buf :: "(cord \<Rightarrow> cord res) \<Rightarrow> cord_ec \<Rightarrow> cord_ec res" where
  "CORD_ec_flush_buf bal x =
     (let len = ec_bufptr x in
      if len = 0 then Inr x
      else rbind (load_str (ec_buf x) 0 len) (\<lambda>s.
           rbind (CORD_cat_char_star bal (ec_cord x) (c_text s) len) (\<lambda>c.
           Inr (x\<lparr>ec_cord := c, ec_bufptr := 0\<rparr>))))"

definition CORD_ec_to_cord :: "(cord \<Rightarrow> cord res) \<Rightarrow> cord_ec \<Rightarrow> (cord \<times> cord_ec) res" where
  "CORD_ec_to_cord bal x = rbind (CORD_ec_flush_buf bal x) (\<lambda>x. Inr (ec_cord x, x))"

definition CORD_ec_append :: "(cord \<Rightarrow> cord res) \<Rightarrow> cord_ec \<Rightarrow> char \<Rightarrow> cord_ec res" where
  "CORD_ec_append bal x c =
     rbind (if ec_bufptr x = CORD_BUFSZ then CORD_ec_flush_buf bal x else Inr x) (\<lambda>x.
     rbind (store (ec_buf x) (int (ec_bufptr x)) c) (\<lambda>b.
     Inr (x\<lparr>ec_bufptr := ec_bufptr x + 1, ec_buf := b\<rparr>)))"

definition CORD_ec_append_cord :: "(cord \<Rightarrow> cord res) \<Rightarrow> cord_ec \<Rightarrow> cord \<Rightarrow> cord_ec res" where
  "CORD_ec_append_cord bal x s =
     rbind (CORD_ec_flush_buf bal x) (\<lambda>x.
     rbind (CORD_cat bal (ec_cord x) s) (\<lambda>c. Inr (x\<lparr>ec_cord := c\<rparr>)))"

text \<open>
  The loop of CORD_from_file_eager over the characters still to be read.  \<open>pending\<close> is the number of NULs
  read since the last other character: the inner loop counts them, the code behind it adds them.
\<close>

definition add_nuls :: "(cord \<Rightarrow> cord res) \<Rightarrow> cord_ec \<Rightarrow> nat \<Rightarrow> cord_ec res" where
  "add_nuls bal ecord count =
     rbind (CORD_chars NUL count) (\<lambda>n.
     rbind (CORD_cat bal (ec_cord ecord) n) (\<lambda>c. Inr (ecord\<lparr>ec_cord := c\<rparr>)))"

fun read_loop :: "(cord \<Rightarrow> cord res) \<Rightarrow> string \<Rightarrow> cord_ec \<Rightarrow> nat \<Rightarrow> cord_ec res" where
  "read_loop bal [] ecord pending = (if pending = 0 then Inr ecord else add_nuls bal ecord pending)"
| "read_loop bal (c # cs) ecord pending =
     (if c = NUL then
        if pending = 0 then rbind (CORD_ec_flush_buf bal ecord) (\<lambda>ecord. read_loop bal cs ecord 1)
        else read_loop bal cs ecord (usize (pending + 1))
      else
        rbind (if pending = 0 then Inr ecord else add_nuls bal ecord pending) (\<lambda>ecord.
        rbind (CORD_ec_append bal ecord c) (\<lambda>ecord. read_loop bal cs ecord 0)))"

definition CORD_from_file_eager :: "nat \<Rightarrow> string \<Rightarrow> cord res" where
  "CORD_from_file_eager k f =
     rbind (read_loop (cord_bal k) f (CORD_ec_init raw_ec) 0) (\<lambda>ecord.
     rbind (CORD_ec_to_cord (cord_bal k) ecord) (\<lambda>(c, ecord).
     cord_bal k c))"

end
