(* ===== verification/Cord_Iter.thy ===== *)
theory Cord_Iter
  imports Cord_Extra
begin

text \<open>
  Iteration over cords.  The interface between CORD_iter5 and its clients is a locale: the client's function
  for a character implements a step on an abstract state, and its batched function the same steps for
  the characters of a string.  What an iteration does is then the fold of the steps over the
  characters of the cord, whatever its shape; the clients of cordxtra.c are the interpretations.
\<close>

section \<open>Folds that stop\<close>

fun iter_spec :: "(char \<Rightarrow> 't \<Rightarrow> bool \<times> 't) \<Rightarrow> string \<Rightarrow> 't \<Rightarrow> bool \<times> 't" where
  "iter_spec g [] t = (False, t)"
| "iter_spec g (c # cs) t = (case g c t of (stop, t') \<Rightarrow> if stop then (True, t') else iter_spec g cs t')"

lemma iter_spec_append:
  "iter_spec g (xs @ ys) t = (case iter_spec g xs t of (stop, t') \<Rightarrow> if stop then (True, t') else iter_spec g ys t')"
  by (induction xs arbitrary: t) (auto split: prod.splits)

text \<open>A call ends as the specification says, in a state that represents the abstract one.\<close>

definition ends :: "('t \<Rightarrow> 's \<Rightarrow> bool) \<Rightarrow> ('t \<Rightarrow> bool) \<Rightarrow> bool \<times> 't \<Rightarrow> (bool \<times> 's) res \<Rightarrow> bool" where
  "ends I live r m \<longleftrightarrow> (\<exists>s. m = Inr (fst r, s) \<and> I (snd r) s \<and> (fst r \<or> live (snd r)))"

lemma ends_bind:
  assumes "ends I live r m"
    and "\<And>t s. r = (False, t) \<Longrightarrow> I t s \<Longrightarrow> live t \<Longrightarrow> ends I live (h t) (k s)"
  shows "ends I live (case r of (stop, t) \<Rightarrow> if stop then (True, t) else h t)
    (rbind m (\<lambda>(stop, s). if stop then Inr (True, s) else k s))"
proof -
  obtain s where s: "m = Inr (fst r, s)" "I (snd r) s" "fst r \<or> live (snd r)" using assms(1) by (auto simp: ends_def)
  show ?thesis
  proof (cases "fst r")
    case True
    then show ?thesis using s by (auto simp: ends_def split: prod.splits)
  next
    case False
    then have r: "r = (False, snd r)" by (metis prod.collapse)
    from assms(2) [OF r s(2)] s(3) False have "ends I live (h (snd r)) (k s)" by simp
    then show ?thesis using s(1) r False by (metis (mono_tags, lifting) case_prod_conv rbind_Inr)
  qed
qed

section \<open>The interface\<close>

locale char_iter =
  fixes g :: "char \<Rightarrow> 't \<Rightarrow> bool \<times> 't"
    and f1 :: "char \<Rightarrow> 's \<Rightarrow> (bool \<times> 's) res"
    and I :: "'t \<Rightarrow> 's \<Rightarrow> bool"
    and live :: "'t \<Rightarrow> bool"
  assumes one: "I t s \<Longrightarrow> live t \<Longrightarrow> ends I live (g c t) (f1 c s)"
begin

lemma chars_run: "I t s \<Longrightarrow> live t \<Longrightarrow> ends I live (iter_spec g cs t) (iter_chars f1 cs s)"
proof (induction cs arbitrary: t s)
  case Nil
  then show ?case by (simp add: ends_def)
next
  case (Cons c cs)
  show ?case unfolding iter_spec.simps iter_chars.simps
    by (rule ends_bind [OF one [OF Cons.prems]]) (rule Cons.IH)
qed

lemma fn_run:
  assumes "\<And>k. j \<le> k \<Longrightarrow> k < j + n \<Longrightarrow> node_fn x k = Inr (cs ! k)" "j + n \<le> length cs"
  shows "I t s \<Longrightarrow> live t \<Longrightarrow> ends I live (iter_spec g (take n (drop j cs)) t) (iter_fn_chars f1 x j n s)"
  using assms
proof (induction n arbitrary: j t s)
  case 0
  then show ?case by (simp add: ends_def)
next
  case (Suc n)
  have fn: "node_fn x j = Inr (cs ! j)" using Suc.prems by simp
  have "drop j cs = cs ! j # drop (Suc j) cs" using Suc.prems(4) by (simp add: Cons_nth_drop_Suc)
  then have cs: "take (Suc n) (drop j cs) = cs ! j # take n (drop (Suc j) cs)" by simp
  show ?case unfolding cs iter_spec.simps iter_fn_chars.simps fn rbind_Inr
    by (rule ends_bind [OF one [OF Suc.prems(1,2)]]) (rule Suc.IH, use Suc.prems in auto)
qed

lemma fn_iter:
  assumes "ok x" "is_fn x" "i < length (chars x)" "I t s" "live t"
  shows "ends I live (iter_spec g (drop i (chars x)) t) (iter_fn_chars f1 x i (length (chars x) - i) s)"
  using fn_run [of i "length (chars x) - i" x "chars x" t s] ok_node_fn [OF assms(1,2)] assms(3-) by auto

lemma iter5_run:
  assumes "\<And>h cs t s. f2 = Some h \<Longrightarrow> cs \<noteq> [] \<Longrightarrow> nul_free cs \<Longrightarrow> I t s \<Longrightarrow> live t \<Longrightarrow>
    ends I live (iter_spec g cs t) (h cs s)"
  shows "ok x \<Longrightarrow> i < length (chars x) \<Longrightarrow> I t s \<Longrightarrow> live t \<Longrightarrow>
    ends I live (iter_spec g (drop i (chars x)) t) (CORD_iter5 x i f1 f2 s)"
proof (induction x arbitrary: i t s)
  case (Str cs)
  then have "drop i cs \<noteq> []" "nul_free (drop i cs)" by auto
  then show ?case using Str assms chars_run by (cases f2) auto
next
  case (Concat d ll n l r)
  have k: "LEFT_LEN (Concat d ll n l r) = Inr (length (chars l))" using ok_LEFT_LEN Concat.prems(1) by blast
  have l: "ok l" "0 < length (chars l)" and r: "ok r" "0 < length (chars r)" using Concat.prems(1) ok_chars by auto
  show ?case
  proof (cases "length (chars l) \<le> i")
    case True
    then show ?thesis
      using Concat.IH(2) [OF r(1), of "i - length (chars l)" t s] Concat.prems l(2) k by (auto simp del: LEFT_LEN.simps)
  next
    case False
    have cs: "drop i (chars (Concat d ll n l r)) = drop i (chars l) @ chars r" using False by simp
    have left: "ends I live (iter_spec g (drop i (chars l)) t) (CORD_iter5 l i f1 f2 s)"
      using Concat.IH(1) l Concat.prems(3,4) False by simp
    have right: "ends I live (iter_spec g (chars r) t') (CORD_iter5 r 0 f1 f2 s')" if "I t' s'" "live t'" for t' s'
      using Concat.IH(2) [OF r(1), of 0] r(2) that by simp
    have "CORD_iter5 (Concat d ll n l r) i f1 f2 s =
        rbind (CORD_iter5 l i f1 f2 s) (\<lambda>(stop, s). if stop then Inr (True, s) else CORD_iter5 r 0 f1 f2 s)"
      using False k by (auto simp del: LEFT_LEN.simps)
    then show ?thesis using ends_bind [OF left right] unfolding cs iter_spec_append by simp
  qed
next
  case (Fn f n)
  then show ?case using fn_iter [of "Fn f n" i t s] by simp
next
  case (Substr a c k n)
  then have "length (chars (Substr a c k n)) = n" by auto
  then show ?case using fn_iter [of "Substr a c k n" i t s] Substr by simp
qed simp

lemma riter_str_run:
  "i < length cs \<Longrightarrow> I t s \<Longrightarrow> live t \<Longrightarrow> ends I live (iter_spec g (rev (take (Suc i) cs)) t) (riter_str f1 cs i s)"
proof (induction i arbitrary: t s)
  case 0
  then have "rev (take (Suc 0) cs) = [cs ! 0]" by (cases cs) auto
  then show ?case using ends_bind [OF one [OF 0(2,3)], of "cs ! 0" "\<lambda>t. (False, t)" "\<lambda>s. Inr (False, s)"] 0(1)
    by (subst riter_str.simps) (simp add: ends_def cong: if_cong)
next
  case (Suc i)
  have "rev (take (Suc (Suc i)) cs) = cs ! Suc i # rev (take (Suc i) cs)"
    using Suc.prems(1) by (simp add: take_Suc_conv_app_nth)
  moreover have "ends I live (iter_spec g (rev (take (Suc i) cs)) t') (riter_str f1 cs i s')" if "I t' s'" "live t'" for t' s'
    using Suc.IH [OF _ that] Suc.prems(1) by simp
  ultimately show ?case using ends_bind [OF one [OF Suc.prems(2,3)]] Suc.prems(1)
    by (subst riter_str.simps) (simp cong: if_cong)
qed

lemma riter_fn_run:
  assumes "\<And>k. k \<le> i \<Longrightarrow> node_fn x k = Inr (cs ! k)" "i < length cs"
  shows "I t s \<Longrightarrow> live t \<Longrightarrow> ends I live (iter_spec g (rev (take (Suc i) cs)) t) (riter_fn f1 x i s)"
  using assms
proof (induction i arbitrary: t s)
  case 0
  then have "rev (take (Suc 0) cs) = [cs ! 0]" by (cases cs) auto
  then show ?case using ends_bind [OF one [OF 0(1,2)], of "cs ! 0" "\<lambda>t. (False, t)" "\<lambda>s. Inr (False, s)"] 0(3)
    by (subst riter_fn.simps) (simp add: ends_def cong: if_cong)
next
  case (Suc i)
  have cs: "rev (take (Suc (Suc i)) cs) = cs ! Suc i # rev (take (Suc i) cs)"
    using Suc.prems(4) by (simp add: take_Suc_conv_app_nth)
  have fn: "node_fn x (Suc i) = Inr (cs ! Suc i)" using Suc.prems(3) by simp
  have "ends I live (iter_spec g (rev (take (Suc i) cs)) t') (riter_fn f1 x i s')" if "I t' s'" "live t'" for t' s'
    using Suc.IH [OF that] Suc.prems(3,4) by simp
  then show ?case using ends_bind [OF one [OF Suc.prems(1,2)]] fn unfolding cs
    by (subst riter_fn.simps) (simp cong: if_cong)
qed

lemma riter4_run:
  "ok x \<Longrightarrow> i < length (chars x) \<Longrightarrow> I t s \<Longrightarrow> live t \<Longrightarrow>
   ends I live (iter_spec g (rev (take (Suc i) (chars x))) t) (CORD_riter4 x i f1 s)"
proof (induction x arbitrary: i t s)
  case (Str cs)
  then show ?case using riter_str_run by auto
next
  case (Concat d ll n l r)
  have k: "LEFT_LEN (Concat d ll n l r) = Inr (length (chars l))" using ok_LEFT_LEN Concat.prems(1) by blast
  have l: "ok l" "0 < length (chars l)" "length (chars l) < 2 ^ 64" and r: "ok r" using Concat.prems(1) ok_chars [of l] by auto
  show ?case
  proof (cases "length (chars l) \<le> i")
    case True
    let ?j = "i - length (chars l)"
    have cs: "rev (take (Suc i) (chars (Concat d ll n l r))) = rev (take (Suc ?j) (chars r)) @ rev (chars l)"
      using True by (simp add: Suc_diff_le)
    have right: "ends I live (iter_spec g (rev (take (Suc ?j) (chars r))) t) (CORD_riter4 r ?j f1 s)"
      using Concat.IH(2) [OF r, of ?j t s] Concat.prems True by auto
    have left: "ends I live (iter_spec g (rev (chars l)) t') (CORD_riter4 l (usub (length (chars l)) 1) f1 s')"
      if "I t' s'" "live t'" for t' s'
    proof -
      have "usub (length (chars l)) (Suc 0) = length (chars l) - 1" "Suc (length (chars l) - 1) = length (chars l)"
        using l(2,3) by (auto simp: Suc_le_eq)
      then show ?thesis using Concat.IH(1) [OF l(1), of "length (chars l) - 1" t' s'] l(2) that by simp
    qed
    have "CORD_riter4 (Concat d ll n l r) i f1 s = rbind (CORD_riter4 r ?j f1 s)
        (\<lambda>(stop, s). if stop then Inr (True, s) else CORD_riter4 l (usub (length (chars l)) 1) f1 s)"
      using True k by (simp del: LEFT_LEN.simps)
    then show ?thesis using ends_bind [OF right left] unfolding cs iter_spec_append by simp
  next
    case False
    then show ?thesis using Concat.IH(1) [OF l(1), of i t s] Concat.prems k by (simp del: LEFT_LEN.simps)
  qed
next
  case (Fn f n)
  then show ?case using riter_fn_run [of i "Fn f n" "chars (Fn f n)"] ok_node_fn [OF Fn.prems(1)] by simp
next
  case (Substr a c k n)
  have "node_fn (Substr a c k n) j = Inr (chars (Substr a c k n) ! j)" if "j \<le> i" for j
    using ok_node_fn [OF Substr.prems(1), of j] that Substr.prems(2) by simp
  then show ?case using riter_fn_run [of i "Substr a c k n" "chars (Substr a c k n)"] Substr.prems(2-) by simp
qed simp

end

locale batched_iter = char_iter +
  fixes f2 :: "string \<Rightarrow> 's \<Rightarrow> (bool \<times> 's) res"
  assumes many: "cs \<noteq> [] \<Longrightarrow> nul_free cs \<Longrightarrow> I t s \<Longrightarrow> live t \<Longrightarrow> ends I live (iter_spec g cs t) (f2 cs s)"
begin

lemma iter5_batched:
  "ok x \<Longrightarrow> i < length (chars x) \<Longrightarrow> I t s \<Longrightarrow> live t \<Longrightarrow>
   ends I live (iter_spec g (drop i (chars x)) t) (CORD_iter5 x i f1 (Some f2) s)"
  by (rule iter5_run) (auto intro: many)

end

section \<open>The clients\<close>

text \<open>The one character functions of CORD_chr and CORD_rchr.\<close>

definition chr_step :: "char \<Rightarrow> char \<Rightarrow> nat \<Rightarrow> bool \<times> nat" where
  "chr_step tgt c p = (if c = tgt then (True, p) else (False, usize (p + 1)))"

definition rchr_step :: "char \<Rightarrow> char \<Rightarrow> nat \<Rightarrow> bool \<times> nat" where
  "rchr_step tgt c p = (if c = tgt then (True, p) else (False, usub p 1))"

definition chr_rep :: "char \<Rightarrow> nat \<Rightarrow> chr_data \<Rightarrow> bool" where
  "chr_rep tgt p d \<longleftrightarrow> p < 2 ^ 64 \<and> d = \<lparr>cd_pos = p, cd_target = tgt\<rparr>"

lemma usize_less [simp]: "usize n < 18446744073709551616"
  by (simp add: usize_def)

lemma usub_less [simp]: "usub a b < 18446744073709551616"
  by (simp add: usub_def)

lemma usize_add: "usize (usize a + b) = usize (a + b)"
  by (simp add: usize_def mod_add_left_eq)

lemma iter_chr_step:
  "p < 2 ^ 64 \<Longrightarrow> iter_spec (chr_step tgt) cs p =
    (case c_strchr cs tgt of None \<Rightarrow> (False, usize (p + length cs)) | Some k \<Rightarrow> (True, usize (p + k)))"
proof (induction cs arbitrary: p)
  case (Cons c cs)
  have s: "usize (Suc p + k) = usize (usize (Suc p) + k)" for k by (simp add: usize_add)
  show ?case
  proof (cases "c = tgt")
    case True
    then show ?thesis using Cons.prems by (simp add: chr_step_def)
  next
    case False
    then have "iter_spec (chr_step tgt) (c # cs) p = iter_spec (chr_step tgt) cs (usize (Suc p))" by (simp add: chr_step_def)
    also have "\<dots> = (case c_strchr cs tgt of None \<Rightarrow> (False, usize (Suc p + length cs)) | Some k \<Rightarrow> (True, usize (Suc p + k)))"
      unfolding s by (rule Cons.IH) simp
    finally show ?thesis using False by (cases "c_strchr cs tgt") auto
  qed
qed simp

interpretation chr: batched_iter "chr_step tgt" CORD_chr_proc "\<lambda>p d. chr_rep tgt p d \<and> tgt \<noteq> NUL" "\<lambda>_. True" CORD_batched_chr_proc
  for tgt
proof
  show "chr_rep tgt p d \<and> tgt \<noteq> NUL \<Longrightarrow> True \<Longrightarrow>
      ends (\<lambda>p d. chr_rep tgt p d \<and> tgt \<noteq> NUL) (\<lambda>_. True) (chr_step tgt c p) (CORD_chr_proc c d)" for c p d
    by (auto simp: ends_def chr_rep_def chr_step_def CORD_chr_proc_def)
  show "cs \<noteq> [] \<Longrightarrow> nul_free cs \<Longrightarrow> chr_rep tgt p d \<and> tgt \<noteq> NUL \<Longrightarrow> True \<Longrightarrow>
      ends (\<lambda>p d. chr_rep tgt p d \<and> tgt \<noteq> NUL) (\<lambda>_. True) (iter_spec (chr_step tgt) cs p) (CORD_batched_chr_proc cs d)" for cs p d
    by (auto simp: ends_def chr_rep_def CORD_batched_chr_proc_def iter_chr_step strchr_or_end_def split: option.splits)
qed

interpretation rchr: char_iter "rchr_step tgt" CORD_rchr_proc "chr_rep tgt" "\<lambda>_. True"
  for tgt
  by unfold_locales (auto simp: ends_def chr_rep_def rchr_step_def CORD_rchr_proc_def)

text \<open>Writing to a file.\<close>

lemma iter_putc: "iter_spec c_putc cs f = c_fputs cs f"
proof (induction cs arbitrary: f)
  case (Cons c cs)
  then show ?case by (cases "of_room f") (auto simp: c_putc_def c_fputs_def)
qed (simp add: c_fputs_def)

interpretation put: batched_iter c_putc CORD_put_proc "(=)" "\<lambda>_. True" CORD_batched_put_proc
  by unfold_locales (auto simp: ends_def CORD_put_proc_def CORD_batched_put_proc_def iter_putc)

text \<open>Filling a buffer: the abstract state is the text in the buffer.\<close>

definition fill_step :: "nat \<Rightarrow> char \<Rightarrow> string \<Rightarrow> bool \<times> string" where
  "fill_step len c t = (len \<le> length t + 1, t @ [c])"

definition fill_rep :: "nat \<Rightarrow> nat \<Rightarrow> string \<Rightarrow> fill_data \<Rightarrow> bool" where
  "fill_rep cap len t d \<longleftrightarrow> len < 2 ^ 64 \<and> len \<le> cap \<and> fd_len d = len \<and> fd_count d = length t \<and>
     length (fd_buf d) = cap \<and> holds (fd_buf d) t"

lemma batched_fill_rep:
  assumes "len < 2 ^ 64" "len \<le> length b" "holds b t" "length t < len"
  shows "\<exists>b'. batched_fill cs (length t) len b =
      Inr (fst (iter_spec (fill_step len) cs t), length (snd (iter_spec (fill_step len) cs t)), b') \<and>
    length b' = length b \<and> holds b' (snd (iter_spec (fill_step len) cs t)) \<and>
    (fst (iter_spec (fill_step len) cs t) \<or> length (snd (iter_spec (fill_step len) cs t)) < len)"
  using assms
proof (induction cs arbitrary: b t)
  case Nil
  then have "holds (b[length t := Val NUL]) (t @ [NUL])" by (intro holds_snoc) auto
  then have "holds (b[length t := Val NUL]) t" by (rule conjunct1 [OF iffD1 [OF holds_append_iff]])
  then show ?case using Nil by (simp add: store_def)
next
  case (Cons c cs)
  have h: "holds (b[length t := Val c]) (t @ [c])" using Cons.prems by (intro holds_snoc) auto
  have u: "usize (Suc (length t)) = Suc (length t)" using Cons.prems by simp
  show ?case
  proof (cases "len \<le> length t + 1")
    case True
    then show ?thesis using h u Cons.prems by (simp add: store_def fill_step_def)
  next
    case False
    then show ?thesis using Cons.IH [of "b[length t := Val c]" "t @ [c]"] h u Cons.prems
      by (simp add: store_def fill_step_def)
  qed
qed

interpretation fill: batched_iter "fill_step len" CORD_fill_proc "fill_rep cap len" "\<lambda>t. length t < len" CORD_batched_fill_proc
  for cap len
proof
  show "fill_rep cap len t d \<Longrightarrow> length t < len \<Longrightarrow>
      ends (fill_rep cap len) (\<lambda>t. length t < len) (fill_step len c t) (CORD_fill_proc c d)" for c t d
    by (auto simp: ends_def fill_rep_def fill_step_def CORD_fill_proc_def store_def Let_def intro!: holds_snoc)
  show "cs \<noteq> [] \<Longrightarrow> nul_free cs \<Longrightarrow> fill_rep cap len t d \<Longrightarrow> length t < len \<Longrightarrow>
      ends (fill_rep cap len) (\<lambda>t. length t < len) (iter_spec (fill_step len) cs t) (CORD_batched_fill_proc cs d)" for cs t d
    using batched_fill_rep [of len "fd_buf d" t cs]
    by (auto simp: ends_def fill_rep_def CORD_batched_fill_proc_def)
qed

lemma iter_fill_step:
  "length t < len \<Longrightarrow> len \<le> length t + length cs \<Longrightarrow>
   iter_spec (fill_step len) cs t = (True, t @ take (len - length t) cs)"
proof (induction cs arbitrary: t)
  case (Cons c cs)
  show ?case
  proof (cases "len \<le> length t + 1")
    case True
    then have "len - length t = 1" using Cons.prems by simp
    then show ?thesis using True by (simp add: fill_step_def)
  next
    case False
    then have "len - length t = Suc (len - Suc (length t))" by simp
    then show ?thesis using False Cons.IH [of "t @ [c]"] Cons.prems by (simp add: fill_step_def)
  qed
qed simp

lemma fill_buf_rep:
  assumes "ok x" "i + n \<le> length (chars x)" "0 < n" "n \<le> length b"
  shows "\<exists>b'. CORD_fill_buf x i n b = Inr (True, b') \<and> length b' = length b \<and> holds b' (take n (drop i (chars x)))"
proof -
  let ?d = "\<lparr>fd_len = n, fd_count = 0, fd_buf = b\<rparr>"
  have "fill_rep (length b) n [] ?d" using assms ok_chars [OF assms(1)] by (simp add: fill_rep_def)
  moreover have "i < length (chars x)" "iter_spec (fill_step n) (drop i (chars x)) [] = (True, take n (drop i (chars x)))"
    using assms(2,3) by (auto simp: iter_fill_step)
  ultimately show ?thesis using fill.iter5_batched [OF assms(1), of i "length b" n "[]" ?d] assms(3)
    by (auto simp: ends_def fill_rep_def CORD_fill_buf_def)
qed

lemma to_char_star_rep:
  assumes "ok0 x" "length (chars x) + 1 < 2 ^ 64"
  shows "\<exists>b. CORD_to_char_star x = Inr b \<and> length b = length (chars x) + 1 \<and> holds b (chars x @ [NUL])"
proof -
  let ?n = "length (chars x)" and ?b = "replicate (length (chars x) + 1) Undef :: char cell list"
  have fin: "\<exists>b'. store b (int ?n) NUL = Inr b' \<and> length b' = ?n + 1 \<and> holds b' (chars x @ [NUL])"
    if "length b = ?n + 1" "holds b (chars x)" for b
    using that by (auto simp: store_def intro!: holds_snoc)
  show ?thesis
  proof (cases "x = CORD_EMPTY")
    case True
    then show ?thesis using fin [of ?b] assms by (simp add: CORD_to_char_star_def CORD_len_def)
  next
    case False
    then have ok: "ok x" using assms(1) by (simp add: ok0_def)
    then have pos: "0 < ?n" using ok_chars by simp
    obtain b where b: "CORD_fill_buf x 0 ?n ?b = Inr (True, b)" "length b = ?n + 1" "holds b (chars x)"
      using fill_buf_rep [OF ok, of 0 ?n ?b] pos by auto
    then show ?thesis using fin [of b] ok0_CORD_len [OF assms(1)] assms(2) pos
      by (simp add: CORD_to_char_star_def)
  qed
qed

lemma int_to_char_code: "int_to_char (int (of_char c)) = c"
  by (simp add: int_to_char_def nat_mod_distrib)

lemma c_strrchr_last: "c_strrchr (cs @ [d]) c = (if d = c then Some (length cs) else c_strrchr cs c)"
  by (induction cs) auto

lemma iter_rchr_step:
  "i < length cs \<Longrightarrow> length cs < 2 ^ 64 \<Longrightarrow>
   \<exists>p. iter_spec (rchr_step tgt) (rev (take (Suc i) cs)) i =
     (case c_strrchr (take (Suc i) cs) tgt of None \<Rightarrow> (False, p) | Some k \<Rightarrow> (True, k))"
proof (induction i)
  case 0
  then have "take (Suc 0) cs = [cs ! 0]" by (cases cs) auto
  then show ?case by (auto simp: rchr_step_def)
next
  case (Suc i)
  have t: "take (Suc (Suc i)) cs = take (Suc i) cs @ [cs ! Suc i]" using Suc.prems(1) by (simp add: take_Suc_conv_app_nth)
  have f: "c_strrchr (take (Suc i) cs @ [cs ! Suc i]) tgt = (if cs ! Suc i = tgt then Some (Suc i) else c_strrchr (take (Suc i) cs) tgt)"
    using Suc.prems(1) by (simp add: c_strrchr_last)
  have "usub (Suc i) (Suc 0) = i" using Suc.prems by simp
  then show ?case using Suc.IH Suc.prems unfolding t f by (auto simp: rchr_step_def)
qed

section \<open>Properties\<close>

text \<open>CORD_chr finds the first occurrence of a character other than NUL at or behind a position, CORD_rchr the
  last one at or before it, and both report when there is none, whatever the shape of the cord.\<close>

theorem chr_rchr_correct:
  assumes "ok x" "i < length (chars x)" "c \<noteq> NUL"
  shows "CORD_chr x i (int (of_char c)) =
      Inr (case c_strchr (drop i (chars x)) c of None \<Rightarrow> CORD_NOT_FOUND | Some k \<Rightarrow> i + k) \<and>
    CORD_rchr x i (int (of_char c)) =
      Inr (case c_strrchr (take (Suc i) (chars x)) c of None \<Rightarrow> CORD_NOT_FOUND | Some k \<Rightarrow> k)"
proof
  have l: "length (chars x) < 2 ^ 64" using ok_chars [OF assms(1)] by simp
  have rep: "chr_rep c i \<lparr>cd_pos = i, cd_target = c\<rparr>" using assms(2) l by (simp add: chr_rep_def)
  have small: "usize (i + k) = i + k" if "c_strchr (drop i (chars x)) c = Some k" for k
  proof -
    have "i + k < length (chars x)" using conjunct1 [OF c_strchr_Some [OF that]] assms(2) by simp
    then show ?thesis using l by simp
  qed
  show "CORD_chr x i (int (of_char c)) =
      Inr (case c_strchr (drop i (chars x)) c of None \<Rightarrow> CORD_NOT_FOUND | Some k \<Rightarrow> i + k)"
    using chr.iter5_batched [OF assms(1,2), of c i] rep assms(2,3) l
    by (auto simp: ends_def CORD_chr_def int_to_char_code iter_chr_step chr_rep_def small split: option.splits)
  show "CORD_rchr x i (int (of_char c)) =
      Inr (case c_strrchr (take (Suc i) (chars x)) c of None \<Rightarrow> CORD_NOT_FOUND | Some k \<Rightarrow> k)"
    using rchr.riter4_run [OF assms(1,2) rep TrueI] iter_rchr_step [OF assms(2) l, of c]
    by (auto simp: ends_def CORD_rchr_def int_to_char_code chr_rep_def split: option.splits)
qed

theorem chr_rchr_correct_witness:
  "CORD_chr sample_cord 1 (int (of_char (CHR ''e''))) = Inr 4 \<and> CORD_rchr sample_cord 4 (int (of_char (CHR ''a''))) = Inr 0"
proof -
  have "ok sample_cord" "chars sample_cord = ''abcdef''" by (simp_all add: sample_cord_def nul_free_def)
  then show ?thesis
    using chr_rchr_correct [of sample_cord 1 "CHR ''e''"] chr_rchr_correct [of sample_cord 4 "CHR ''a''"]
    by simp
qed

text \<open>When NUL is searched, CORD_chr takes the end of the first piece that is a C string for a NUL of the
  cord: in a cord that is one C string it reports its length instead of CORD_NOT_FOUND.\<close>

theorem chr_finds_terminator:
  assumes "ok (Str s)" "i < length s"
  shows "CORD_chr (Str s) i 0 = Inr (length s)"
proof -
  have "int_to_char 0 = NUL" using int_to_char_code [of NUL] by simp
  then show ?thesis using assms
    by (simp add: CORD_chr_def CORD_batched_chr_proc_def strchr_or_end_def)
qed

theorem chr_finds_terminator_witness: "CORD_chr (Str ''abc'') 0 0 = Inr 3"
  using chr_finds_terminator [of "''abc''" 0] by (simp add: nul_free_def)

section \<open>Building and flattening\<close>

lemma catn_loop_rep:
  assumes "0 < k"
  shows "ok0 x \<Longrightarrow> dep x < 48 \<Longrightarrow> \<forall>s \<in> set ss. nul_free s \<Longrightarrow> length (chars x) + length (concat ss) < BALANCE_LIMIT \<Longrightarrow>
    \<exists>z. catn_loop (cord_bal k) x (map CORD_from_char_star ss) = Inr z \<and> ok0 z \<and> chars z = chars x @ concat ss"
proof (induction ss arbitrary: x)
  case (Cons s ss)
  let ?y = "CORD_from_char_star s"
  have y: "ok0 ?y" "dep ?y < 48" "chars ?y = s"
    using Cons.prems by (auto simp: CORD_from_char_star_def ok0_def)
  obtain z where "CORD_cat (cord_bal k) x ?y = Inr z" "ok0 z" "dep z < 48" "chars z = chars x @ s"
    using cord_cat_rep [OF Cons.prems(1) y(1) Cons.prems(2) y(2) _ assms] y(3) Cons.prems(4)
    by (auto simp: cord_cat_def)
  then show ?case using Cons.IH [of z] Cons.prems(3,4) by auto
qed simp

text \<open>C6: Concatenating any strings with CORD_catn and turning the cord into a C string gives the strings
  one behind the other, in a block of exactly their size, however often the cord was balanced on the way.\<close>

theorem catn_to_char_star:
  assumes "\<forall>s \<in> set ss. nul_free s" "length (concat ss) < BALANCE_LIMIT" "0 < k"
  shows "\<exists>z b. CORD_catn (cord_bal k) (map CORD_from_char_star ss) = Inr z \<and> CORD_to_char_star z = Inr b \<and>
    b = map Val (concat ss @ [NUL])"
proof -
  obtain z where z: "CORD_catn (cord_bal k) (map CORD_from_char_star ss) = Inr z" "ok0 z" "chars z = concat ss"
    using catn_loop_rep [OF assms(3), of CORD_EMPTY ss] assms(1,2) by (auto simp: CORD_catn_def ok0_def)
  obtain b where "CORD_to_char_star z = Inr b" "length b = length (concat ss) + 1" "holds b (concat ss @ [NUL])"
    using to_char_star_rep [OF z(2)] z(3) assms(2) by auto
  then show ?thesis using z(1) by (simp add: holds_def)
qed

theorem catn_to_char_star_witness:
  "\<exists>z b. CORD_catn (cord_bal 1) (map CORD_from_char_star (replicate 100 ''abcdefghijklmnopqrst'')) = Inr z \<and>
    CORD_to_char_star z = Inr b \<and> b = map Val (concat (replicate 100 ''abcdefghijklmnopqrst'') @ [NUL])"
  by (rule catn_to_char_star) (simp_all add: nul_free_def length_concat sum_list_replicate)

end
