(* ===== verification/Lex_Match.thy ===== *)
theory Lex_Match
  imports C_String
begin

text \<open>
  What flex makes of a list of patterns: the pattern with the longest match at the current position is
  taken, of several with the same length the first.

  Patterns are regular expressions over classes of characters; the matcher reads the input once and
  keeps the pattern for what is still to come.
\<close>

section \<open>Patterns\<close>

datatype pattern =
    Nothing
  | Eps
  | Cls "char \<Rightarrow> bool"
  | Seq pattern pattern
  | Alt pattern pattern
  | Rep pattern

inductive matches :: "pattern \<Rightarrow> string \<Rightarrow> bool" where
  m_Eps: "matches Eps []"
| m_Cls: "P c \<Longrightarrow> matches (Cls P) [c]"
| m_Seq: "matches p u \<Longrightarrow> matches q v \<Longrightarrow> matches (Seq p q) (u @ v)"
| m_Alt1: "matches p u \<Longrightarrow> matches (Alt p q) u"
| m_Alt2: "matches q u \<Longrightarrow> matches (Alt p q) u"
| m_Rep0: "matches (Rep p) []"
| m_Rep: "matches p u \<Longrightarrow> matches (Rep p) v \<Longrightarrow> matches (Rep p) (u @ v)"

inductive_simps matches_simps [simp]:
  "matches Nothing u" "matches Eps u" "matches (Cls P) u" "matches (Alt p q) u"

inductive_simps matches_Seq: "matches (Seq p q) u"
inductive_cases matches_RepE: "matches (Rep p) u"

text \<open>Abbreviations of flex: a literal string, a character, an option, one or more.\<close>

definition Chr :: "char \<Rightarrow> pattern" where
  "Chr c = Cls (\<lambda>d. d = c)"

definition Lit :: "string \<Rightarrow> pattern" where
  "Lit s = foldr (\<lambda>c p. Seq (Chr c) p) s Eps"

definition Opt :: "pattern \<Rightarrow> pattern" where
  "Opt p = Alt p Eps"

definition Plus1 :: "pattern \<Rightarrow> pattern" where
  "Plus1 p = Seq p (Rep p)"

lemma matches_Chr [simp]: "matches (Chr c) u \<longleftrightarrow> u = [c]"
  by (auto simp: Chr_def)

lemma matches_Lit [simp]: "matches (Lit s) u \<longleftrightarrow> u = s"
  by (induction s arbitrary: u) (auto simp: Lit_def matches_Seq)

lemma matches_Opt [simp]: "matches (Opt p) u \<longleftrightarrow> u = [] \<or> matches p u"
  by (auto simp: Opt_def)

lemma matches_Rep_Cls [simp]: "matches (Rep (Cls P)) u \<longleftrightarrow> (\<forall>c \<in> set u. P c)"
proof
  show "matches (Rep (Cls P)) u \<Longrightarrow> \<forall>c \<in> set u. P c"
    by (induction "Rep (Cls P)" u rule: matches.induct) auto
  show "\<forall>c \<in> set u. P c \<Longrightarrow> matches (Rep (Cls P)) u"
  proof (induction u)
    case (Cons c u)
    then show ?case using m_Rep [of "Cls P" "[c]" u] by simp
  qed (rule m_Rep0)
qed

lemma matches_Plus1_Cls [simp]: "matches (Plus1 (Cls P)) u \<longleftrightarrow> u \<noteq> [] \<and> (\<forall>c \<in> set u. P c)"
proof (cases u)
  case (Cons c v)
  have "matches (Seq (Cls P) (Rep (Cls P))) ([c] @ v)" if "P c" "\<forall>d \<in> set v. P d"
    by (rule m_Seq) (use that in auto)
  then show ?thesis using Cons by (auto simp: Plus1_def matches_Seq)
qed (auto simp: Plus1_def matches_Seq)

section \<open>Matching\<close>

fun nullable :: "pattern \<Rightarrow> bool" where
  "nullable Nothing = False"
| "nullable Eps = True"
| "nullable (Cls P) = False"
| "nullable (Seq p q) = (nullable p \<and> nullable q)"
| "nullable (Alt p q) = (nullable p \<or> nullable q)"
| "nullable (Rep p) = True"

text \<open>What is left to match after a character.\<close>

fun left_after :: "char \<Rightarrow> pattern \<Rightarrow> pattern" where
  "left_after c Nothing = Nothing"
| "left_after c Eps = Nothing"
| "left_after c (Cls P) = (if P c then Eps else Nothing)"
| "left_after c (Seq p q) =
     (let r = Seq (left_after c p) q in if nullable p then Alt r (left_after c q) else r)"
| "left_after c (Alt p q) = Alt (left_after c p) (left_after c q)"
| "left_after c (Rep p) = Seq (left_after c p) (Rep p)"

lemma nullable_matches: "nullable p \<longleftrightarrow> matches p []"
  by (induction p) (auto simp: matches_Seq intro: m_Rep0)

lemma matches_Rep_Cons: "matches (Rep p) (c # w) \<Longrightarrow> \<exists>u v. w = u @ v \<and> matches p (c # u) \<and> matches (Rep p) v"
proof (induction "Rep p" "c # w" arbitrary: w rule: matches.induct)
  case (m_Rep u v)
  then show ?case by (cases u) auto
qed

lemma left_after_matches: "matches (left_after c p) w \<longleftrightarrow> matches p (c # w)"
proof (induction p arbitrary: w)
  case (Seq p q)
  have "matches (Seq p q) (c # w) \<longleftrightarrow>
      (\<exists>u v. w = u @ v \<and> matches p (c # u) \<and> matches q v) \<or> matches p [] \<and> matches q (c # w)"
    by (auto simp: matches_Seq Cons_eq_append_conv)
  moreover have "matches (left_after c (Seq p q)) w \<longleftrightarrow>
      (\<exists>u v. w = u @ v \<and> matches p (c # u) \<and> matches q v) \<or> matches p [] \<and> matches q (c # w)"
    using Seq by (auto simp: Let_def matches_Seq [of "left_after c p"] nullable_matches)
  ultimately show ?case by simp
next
  case (Rep p)
  have "matches (Rep p) (c # w)" if "matches p (c # u)" "matches (Rep p) v" "w = u @ v" for u v
    using m_Rep [OF that(1,2)] that(3) by simp
  then show ?case using Rep matches_Rep_Cons [of p c w] by (auto simp: matches_Seq)
qed auto

fun longest :: "pattern \<Rightarrow> string \<Rightarrow> nat option" where
  "longest p [] = (if nullable p then Some 0 else None)"
| "longest p (c # cs) =
     (case longest (left_after c p) cs of
        Some n \<Rightarrow> Some (Suc n)
      | None \<Rightarrow> if nullable p then Some 0 else None)"

definition prefix_match :: "pattern \<Rightarrow> string \<Rightarrow> nat \<Rightarrow> bool" where
  "prefix_match p s n \<longleftrightarrow> n \<le> length s \<and> matches p (take n s)"

lemma prefix_match_0: "prefix_match p s 0 \<longleftrightarrow> nullable p"
  by (simp add: prefix_match_def nullable_matches)

lemma prefix_match_Suc: "prefix_match p (c # s) (Suc n) \<longleftrightarrow> prefix_match (left_after c p) s n"
  by (simp add: prefix_match_def left_after_matches)

lemma longest_None: "longest p s = None \<longleftrightarrow> (\<forall>n. \<not> prefix_match p s n)"
proof (induction s arbitrary: p)
  case Nil
  then show ?case by (auto simp: prefix_match_def nullable_matches)
next
  case (Cons c s)
  have "(\<forall>n. \<not> prefix_match p (c # s) n) \<longleftrightarrow> \<not> prefix_match p (c # s) 0 \<and> (\<forall>n. \<not> prefix_match p (c # s) (Suc n))"
    using not0_implies_Suc by metis
  then show ?case using Cons [of "left_after c p"]
    by (auto simp: prefix_match_0 prefix_match_Suc split: option.splits)
qed

lemma longest_Some: "longest p s = Some n \<longleftrightarrow> prefix_match p s n \<and> (\<forall>m. prefix_match p s m \<longrightarrow> m \<le> n)"
proof (induction s arbitrary: p n)
  case Nil
  then show ?case by (auto simp: prefix_match_def nullable_matches)
next
  case (Cons c s)
  show ?case
  proof (cases "longest (left_after c p) s")
    case None
    then have "\<not> prefix_match p (c # s) (Suc m)" for m by (simp add: longest_None prefix_match_Suc)
    then have z: "prefix_match p (c # s) m \<longleftrightarrow> m = 0 \<and> nullable p" for m
      by (cases m) (auto simp: prefix_match_0)
    show ?thesis using None by (auto simp: z)
  next
    case (Some k)
    then have k: "prefix_match p (c # s) (Suc k)" "\<forall>m. prefix_match p (c # s) (Suc m) \<longrightarrow> m \<le> k"
      using Cons by (auto simp: prefix_match_Suc)
    then have up: "m \<le> Suc k" if "prefix_match p (c # s) m" for m using that by (cases m) auto
    show ?thesis using Some k(1) up by (auto intro: antisym)
  qed
qed

section \<open>Choosing a rule\<close>

fun pick_rule :: "(pattern \<times> 'a) list \<Rightarrow> string \<Rightarrow> (nat \<times> 'a) option" where
  "pick_rule [] s = None"
| "pick_rule ((p, a) # rs) s =
     (case longest p s of
        None \<Rightarrow> pick_rule rs s
      | Some n \<Rightarrow> (case pick_rule rs s of None \<Rightarrow> Some (n, a) | Some (m, b) \<Rightarrow> if n < m then Some (m, b) else Some (n, a)))"

lemma pick_rule_None: "pick_rule rs s = None \<longleftrightarrow> (\<forall>(p, a) \<in> set rs. \<forall>n. \<not> prefix_match p s n)"
  by (induction rs s rule: pick_rule.induct) (auto simp: longest_None longest_Some split: option.splits if_splits)

lemma pick_rule_le: "pick_rule rs s = Some (n, a) \<Longrightarrow> (p, b) \<in> set rs \<Longrightarrow> prefix_match p s m \<Longrightarrow> m \<le> n"
proof (induction rs s arbitrary: n a rule: pick_rule.induct)
  case (2 q c rs s)
  then show ?case
    by (fastforce simp: longest_None longest_Some pick_rule_None split: option.splits if_splits prod.splits)
qed simp

text \<open>The way to show which rule is taken.\<close>

lemma pick_ruleI:
  assumes "rs = xs @ (p, a) # ys" "prefix_match p s n"
    and "\<And>q b m. (q, b) \<in> set xs \<Longrightarrow> prefix_match q s m \<Longrightarrow> m < n"
    and "\<And>m. prefix_match p s m \<Longrightarrow> m \<le> n"
    and "\<And>q b m. (q, b) \<in> set ys \<Longrightarrow> prefix_match q s m \<Longrightarrow> m \<le> n"
  shows "pick_rule rs s = Some (n, a)"
proof -
  have p: "longest p s = Some n" using assms(2,4) by (simp add: longest_Some)
  have top: "pick_rule ((p, a) # ys) s = Some (n, a)"
  proof (cases "pick_rule ys s")
    case (Some x)
    obtain m b where x: "x = (m, b)" by (cases x)
    have "\<exists>q b'. (q, b') \<in> set ys \<and> prefix_match q s m"
      using Some x by (induction ys s arbitrary: m b rule: pick_rule.induct)
        (fastforce simp: longest_Some split: option.splits if_splits)+
    then have "m \<le> n" using assms(5) by blast
    then show ?thesis using p Some x by simp
  qed (use p in simp)
  have "pick_rule (xs @ (p, a) # ys) s = Some (n, a)" using assms(3)
  proof (induction xs)
    case (Cons x xs)
    obtain q b where x: "x = (q, b)" by (cases x)
    have "pick_rule (xs @ (p, a) # ys) s = Some (n, a)" using Cons.IH Cons.prems by fastforce
    moreover have "m < n" if "longest q s = Some m" for m
      using that Cons.prems [of q b m] x by (simp add: longest_Some)
    ultimately show ?case by (auto simp: x split: option.splits)
  qed (use top in simp)
  then show ?thesis by (simp add: assms(1))
qed

text \<open>The first character decides for most rules.\<close>

fun starts :: "pattern \<Rightarrow> char \<Rightarrow> bool" where
  "starts Nothing c = False"
| "starts Eps c = False"
| "starts (Cls P) c = P c"
| "starts (Seq p q) c = (starts p c \<or> nullable p \<and> starts q c)"
| "starts (Alt p q) c = (starts p c \<or> starts q c)"
| "starts (Rep p) c = starts p c"

lemma matches_starts: "matches p (c # w) \<Longrightarrow> starts p c"
proof (induction p "c # w" arbitrary: c w rule: matches.induct)
  case (m_Seq p u q v)
  then show ?case by (cases u) (auto simp: nullable_matches)
next
  case (m_Rep p u v)
  then show ?case by (cases u) auto
qed auto

lemma prefix_match_starts: "prefix_match p (c # w) n \<Longrightarrow> \<not> starts p c \<Longrightarrow> \<not> nullable p \<Longrightarrow> False"
  by (cases n) (auto simp: prefix_match_def nullable_matches dest: matches_starts)

end
