(* ===== verification/Scanner.thy ===== *)
theory Scanner
  imports Lex_Match C_Num File_Stack Vm_Lists
begin

text \<open>
  src/src/assembler/scanner.l: the tokens of the assembler language.

  The rules are the list of the file's patterns with the start condition they are active in; what flex
  generates from them is the matching of the theory Lex_Match, the buffers of the theory File_Stack with
  the number of characters consumed from each, and the loop of yylex.  \<open>strtod\<close>, which gives the bits of
  the float for a numeral, and \<open>fopen\<close> are parameters.  The text of a literal is C text: it ends at a NUL.
\<close>

section \<open>Tokens and rules\<close>

datatype word_token =
    T_INCLUDE | T_DATA | T_EXTERN | T_INT | T_UINT | T_FLOAT | T_STRG | T_MOV | T_PUSH | T_POP | T_CPY | T_LT |
    T_GT | T_LTE | T_GTE | T_EQ | T_NEQ | T_SETF | T_CLRF | T_CALL | T_JMP | T_RET | T_CALLT | T_JMPT | T_RETT |
    T_CALLF | T_JMPF | T_RETF | T_ADD | T_SUB | T_MUL | T_DIV | T_MOD | T_ADDI | T_SUBI | T_MULI | T_DIVI | T_MODI |
    T_ADDU | T_SUBU | T_MULU | T_DIVU | T_MODU | T_ADDF | T_SUBF | T_MULF | T_DIVF | T_MODF | T_EXIT | T_ABORT | T_NOP

datatype register_token =
    R01 | R02 | R03 | R04 | R05 | R06 | R07 | R08 | R09 | R10 | R11 | R12 | R13 | R14 | R15 | R16 | R17 | R18 | R19 |
    R20 | R21 | R22 | R23 | R24 | R25 | R26 | R27 | R28 | R29 | R30 | R31 | R32 | SP

datatype token =
    T_word word_token
  | T_register register_token
  | T_STRG_LITERAL
  | T_NAME
  | T_INT_LITERAL
  | T_UINT_LITERAL
  | T_FLOAT_LITERAL
  | T_char char

datatype start_cond = INITIAL | LCOMMENT | BCOMMENT | DQUOTE | SQUOTE

text \<open>What the actions of the rules do.\<close>

datatype lex_action =
    Return token
  | Int_Literal
  | Uint_Literal
  | Float_Literal
  | Name
  | Open_String start_cond
  | String_Eol
  | Escape char
  | Escape_Any
  | Escape_Hex
  | String_Text
  | Close_String
  | Begin start_cond
  | Skip
  | Invalid

definition reserved_words :: "(string \<times> token) list" where
  "reserved_words =
    [(''include'', T_word T_INCLUDE), (''data'', T_word T_DATA), (''extern'', T_word T_EXTERN),
     (''int'', T_word T_INT), (''uint'', T_word T_UINT), (''float'', T_word T_FLOAT), (''strg'', T_word T_STRG),
     (''mov'', T_word T_MOV), (''move'', T_word T_MOV), (''push'', T_word T_PUSH), (''pop'', T_word T_POP),
     (''cpy'', T_word T_CPY), (''copy'', T_word T_CPY), (''lt'', T_word T_LT), (''gt'', T_word T_GT),
     (''lte'', T_word T_LTE), (''gte'', T_word T_GTE), (''eq'', T_word T_EQ), (''neq'', T_word T_NEQ),
     (''setf'', T_word T_SETF), (''clrf'', T_word T_CLRF), (''call'', T_word T_CALL), (''jmp'', T_word T_JMP),
     (''ret'', T_word T_RET), (''callt'', T_word T_CALLT), (''jmpt'', T_word T_JMPT), (''rett'', T_word T_RETT),
     (''callf'', T_word T_CALLF), (''jmpf'', T_word T_JMPF), (''retf'', T_word T_RETF), (''add'', T_word T_ADD),
     (''sub'', T_word T_SUB), (''mul'', T_word T_MUL), (''div'', T_word T_DIV), (''mod'', T_word T_MOD),
     (''addi'', T_word T_ADDI), (''subi'', T_word T_SUBI), (''muli'', T_word T_MULI), (''divi'', T_word T_DIVI),
     (''modi'', T_word T_MODI), (''addu'', T_word T_ADDU), (''subu'', T_word T_SUBU), (''mulu'', T_word T_MULU),
     (''divu'', T_word T_DIVU), (''modu'', T_word T_MODU), (''addf'', T_word T_ADDF), (''subf'', T_word T_SUBF),
     (''mulf'', T_word T_MULF), (''divf'', T_word T_DIVF), (''modf'', T_word T_MODF), (''exit'', T_word T_EXIT),
     (''abort'', T_word T_ABORT), (''nop'', T_word T_NOP), (''r1'', T_register R01),
     (''r01'', T_register R01), (''r2'', T_register R02), (''r02'', T_register R02),
     (''r3'', T_register R03), (''r03'', T_register R03), (''r4'', T_register R04),
     (''r04'', T_register R04), (''r5'', T_register R05), (''r05'', T_register R05),
     (''r6'', T_register R06), (''r06'', T_register R06), (''r7'', T_register R07),
     (''r07'', T_register R07), (''r8'', T_register R08), (''r08'', T_register R08),
     (''r9'', T_register R09), (''r09'', T_register R09), (''r10'', T_register R10),
     (''r11'', T_register R11), (''r12'', T_register R12), (''r13'', T_register R13),
     (''r14'', T_register R14), (''r15'', T_register R15), (''r16'', T_register R16),
     (''r17'', T_register R17), (''r18'', T_register R18), (''r19'', T_register R19),
     (''r20'', T_register R20), (''r21'', T_register R21), (''r22'', T_register R22),
     (''r23'', T_register R23), (''r24'', T_register R24), (''r25'', T_register R25),
     (''r26'', T_register R26), (''r27'', T_register R27), (''r28'', T_register R28),
     (''r29'', T_register R29), (''r30'', T_register R30), (''r31'', T_register R31),
     (''r32'', T_register R32), (''sp'', T_register SP)]"

definition marks :: string where
  "marks = ''[]():={}+-/*%,''"

abbreviation Digit :: pattern where "Digit \<equiv> Cls isdigit"
abbreviation Digit19 :: pattern where "Digit19 \<equiv> Cls (\<lambda>c. isdigit c \<and> c \<noteq> CHR ''0'')"
abbreviation Hex_Digit :: pattern where
  "Hex_Digit \<equiv> Cls (\<lambda>c. isdigit c \<or> (97 \<le> code c \<and> code c \<le> 102) \<or> (65 \<le> code c \<and> code c \<le> 70))"
abbreviation Any :: pattern where "Any \<equiv> Cls (\<lambda>c. c \<noteq> CHR 0x0A)"
abbreviation Blanks :: pattern where "Blanks \<equiv> Rep (Cls (\<lambda>c. c = CHR '' '' \<or> c = CHR 0x09))"
abbreviation BSL :: char where "BSL \<equiv> CHR 0x5C"
abbreviation DQ :: char where "DQ \<equiv> CHR 0x22"
abbreviation SQ :: char where "SQ \<equiv> CHR 0x27"
abbreviation NL :: char where "NL \<equiv> CHR 0x0A"

definition word_start :: "char \<Rightarrow> bool" where
  "word_start c \<longleftrightarrow> islower c \<or> c = CHR ''_''"

definition word_char :: "char \<Rightarrow> bool" where
  "word_char c \<longleftrightarrow> islower c \<or> isdigit c \<or> c = CHR ''_''"

definition int_pattern :: pattern where
  "int_pattern = Alt (Seq (Opt (Chr (CHR ''-''))) (Seq Digit19 (Rep Digit))) (Chr (CHR ''0''))"

definition uint_pattern :: pattern where
  "uint_pattern = Seq (Chr (CHR ''0'')) (Seq (Cls (\<lambda>c. c = CHR ''x'' \<or> c = CHR ''X'')) (Plus1 Hex_Digit))"

definition float_pattern :: pattern where
  "float_pattern =
     Seq (Opt (Chr (CHR ''-''))) (Seq (Alt (Chr (CHR ''0'')) (Seq Digit19 (Rep Digit))) (Seq (Chr (CHR ''.''))
       (Seq (Rep Digit) (Opt (Seq (Cls (\<lambda>c. c = CHR ''e'' \<or> c = CHR ''E''))
         (Seq (Opt (Cls (\<lambda>c. c = CHR ''-'' \<or> c = CHR ''+''))) (Seq Digit19 (Rep Digit))))))))"

definition name_pattern :: pattern where
  "name_pattern = Seq (Cls word_start) (Rep (Cls word_char))"

definition continuation :: "char \<Rightarrow> pattern" where
  "continuation q = Seq (Chr q) (Seq Blanks (Seq (Chr BSL) (Seq Blanks (Seq (Chr NL) (Seq Blanks (Chr q))))))"

definition initial_rules :: "(pattern \<times> lex_action) list" where
  "initial_rules =
     map (\<lambda>(w, t). (Lit w, Return t)) reserved_words @
     map (\<lambda>c. (Chr c, Return (T_char c))) marks @
     [(int_pattern, Int_Literal),
      (uint_pattern, Uint_Literal),
      (float_pattern, Float_Literal),
      (name_pattern, Name),
      (Chr DQ, Open_String DQUOTE),
      (Chr SQ, Open_String SQUOTE),
      (Lit ''//'', Begin LCOMMENT),
      (Lit ''/*'', Begin BCOMMENT),
      (Plus1 (Cls isspace), Skip),
      (Any, Invalid)]"

definition dquote_rules :: "(pattern \<times> lex_action) list" where
  "dquote_rules =
     [(Chr NL, String_Eol),
      (Lit [BSL, CHR ''n''], Escape NL),
      (Lit [BSL, CHR ''r''], Escape (CHR 0x0D)),
      (Lit [BSL, CHR ''t''], Escape (CHR 0x09)),
      (Lit [BSL, CHR ''v''], Escape (CHR 0x0B)),
      (Lit [BSL, CHR ''a''], Escape (CHR 0x07)),
      (Lit [BSL, CHR ''b''], Escape (CHR 0x08)),
      (Lit [BSL, CHR ''f''], Escape (CHR 0x0C)),
      (Lit [BSL, CHR ''e''], Escape (CHR 0x1B)),
      (Lit [BSL, DQ], Escape DQ),
      (Seq (Chr BSL) Any, Escape_Any),
      (Seq (Chr BSL) (Seq (Cls (\<lambda>c. c = CHR ''x'' \<or> c = CHR ''X''))
         (Seq Hex_Digit (Seq (Opt Hex_Digit) (Seq (Opt Hex_Digit) (Opt Hex_Digit))))), Escape_Hex),
      (continuation DQ, Skip),
      (Plus1 (Cls (\<lambda>c. c \<noteq> BSL \<and> c \<noteq> NL \<and> c \<noteq> DQ)), String_Text),
      (Chr DQ, Close_String)]"

definition squote_rules :: "(pattern \<times> lex_action) list" where
  "squote_rules =
     [(continuation SQ, Skip),
      (Chr NL, String_Eol),
      (Chr BSL, Escape BSL),
      (Plus1 (Cls (\<lambda>c. c \<noteq> BSL \<and> c \<noteq> NL \<and> c \<noteq> SQ)), String_Text),
      (Chr SQ, Close_String)]"

definition comment_rules :: "start_cond \<Rightarrow> (pattern \<times> lex_action) list" where
  "comment_rules c =
     (if c = LCOMMENT
      then [(Any, Skip), (Cls (\<lambda>c. c = NL \<or> c = CHR 0x0D), Begin INITIAL)]
      else [(Cls (\<lambda>c. c = NL \<or> c = CHR 0x0D), Skip), (Any, Skip), (Lit ''*/'', Begin INITIAL)])"

definition rules_of :: "start_cond \<Rightarrow> (pattern \<times> lex_action) list" where
  "rules_of c =
     (case c of INITIAL \<Rightarrow> initial_rules | DQUOTE \<Rightarrow> dquote_rules | SQUOTE \<Rightarrow> squote_rules | _ \<Rightarrow> comment_rules c)"

section \<open>State\<close>

datatype yylval = Ival int | Uval "32 word" | Fval "32 word" | Strg string_t

record scanner =
  sc_cond :: start_cond
  sc_strbuf :: "string_t option"
  sc_yylval :: "yylval option"
  sc_errors :: int
  sc_files :: file_stack
  sc_used :: "nat \<Rightarrow> nat"

text \<open>The characters still to be read from the current buffer.\<close>

definition sc_input :: "scanner \<Rightarrow> string res" where
  "sc_input sc =
     (case st_current (sc_files sc) of
        None \<Rightarrow> Inl Wild_Pointer
      | Some k \<Rightarrow>
          if k < length (st_buffers (sc_files sc))
          then Inr (drop (sc_used sc k) (st_buffers (sc_files sc) ! k)) else Inl Wild_Pointer)"

definition sc_consume :: "nat \<Rightarrow> scanner \<Rightarrow> scanner" where
  "sc_consume n sc =
     (case st_current (sc_files sc) of
        None \<Rightarrow> sc | Some k \<Rightarrow> sc\<lparr>sc_used := (sc_used sc)(k := sc_used sc k + n)\<rparr>)"

section \<open>Actions\<close>

definition c_cut :: "string \<Rightarrow> string" where
  "c_cut s = takeWhile (\<lambda>c. c \<noteq> NUL) s"

definition with_strbuf :: "scanner \<Rightarrow> (string_t \<Rightarrow> string_t res) \<Rightarrow> scanner res" where
  "with_strbuf sc f =
     (case sc_strbuf sc of
        None \<Rightarrow> Inl Null_Deref
      | Some b \<Rightarrow> rbind (f b) (\<lambda>b. Inr (sc\<lparr>sc_strbuf := Some b\<rparr>)))"

definition open_string :: "scanner \<Rightarrow> scanner res" where
  "open_string sc =
     rbind (case sc_strbuf sc of None \<Rightarrow> create_string None | Some b \<Rightarrow> clear_string b) (\<lambda>b.
     Inr (sc\<lparr>sc_strbuf := Some b\<rparr>))"

text \<open>The conversion of an int to char when it is stored.\<close>

definition to_char :: "int \<Rightarrow> char" where
  "to_char n = char_of (nat (n mod 256))"

text \<open>An action for a text: the new state and the token that is returned, if one is.\<close>

fun rule_action :: "(string \<Rightarrow> 32 word) \<Rightarrow> lex_action \<Rightarrow> string \<Rightarrow> scanner \<Rightarrow> (token option \<times> scanner) res" where
  "rule_action strtod (Return t) yytext sc = Inr (Some t, sc)"
| "rule_action strtod Int_Literal yytext sc =
     Inr (Some T_INT_LITERAL, sc\<lparr>sc_yylval := Some (Ival (to_int (c_strtol 10 yytext)))\<rparr>)"
| "rule_action strtod Uint_Literal yytext sc =
     Inr (Some T_UINT_LITERAL, sc\<lparr>sc_yylval := Some (Uval (word_of_int (c_strtol 16 yytext)))\<rparr>)"
| "rule_action strtod Float_Literal yytext sc =
     Inr (Some T_FLOAT_LITERAL, sc\<lparr>sc_yylval := Some (Fval (strtod yytext))\<rparr>)"
| "rule_action strtod Name yytext sc =
     rbind (create_string (Some (c_cut yytext))) (\<lambda>s. Inr (Some T_NAME, sc\<lparr>sc_yylval := Some (Strg s)\<rparr>))"
| "rule_action strtod (Open_String c) yytext sc =
     rbind (open_string sc) (\<lambda>sc. Inr (None, sc\<lparr>sc_cond := c\<rparr>))"
| "rule_action strtod String_Eol yytext sc = Inr (None, sc\<lparr>sc_cond := INITIAL\<rparr>)"
| "rule_action strtod (Escape c) yytext sc =
     rbind (with_strbuf sc (\<lambda>b. append_string_char b c)) (\<lambda>sc. Inr (None, sc))"
| "rule_action strtod Escape_Any yytext sc =
     rbind (with_strbuf sc (\<lambda>b. append_string_char b (yytext ! 1))) (\<lambda>sc. Inr (None, sc))"
| "rule_action strtod Escape_Hex yytext sc =
     rbind (with_strbuf sc (\<lambda>b. append_string_char b (to_char (to_int (c_strtol 16 (drop 2 yytext)))))) (\<lambda>sc.
     Inr (None, sc))"
| "rule_action strtod String_Text yytext sc =
     rbind (with_strbuf sc (\<lambda>b. append_string b (c_cut yytext))) (\<lambda>sc. Inr (None, sc))"
| "rule_action strtod Close_String yytext sc =
     (case sc_strbuf sc of
        None \<Rightarrow> Inl Null_Deref
      | Some b \<Rightarrow> rbind (copy_string b) (\<lambda>s.
          Inr (Some T_STRG_LITERAL, sc\<lparr>sc_yylval := Some (Strg s), sc_cond := INITIAL\<rparr>)))"
| "rule_action strtod (Begin c) yytext sc = Inr (None, sc\<lparr>sc_cond := c\<rparr>)"
| "rule_action strtod Skip yytext sc = Inr (None, sc)"
| "rule_action strtod Invalid yytext sc =
     rbind (chk (sc_errors sc + 1)) (\<lambda>e. Inr (None, sc\<lparr>sc_errors := e\<rparr>))"

section \<open>The scanner\<close>

text \<open>
  One round of the loop of yylex: \<open>Some (Some t)\<close> when token \<open>t\<close> is returned, \<open>Some None\<close> when the scanner
  ends, \<open>None\<close> when it goes on.  A character without a rule is echoed.  Every rule first updates the
  position (YY_USER_ACTION).
\<close>

definition scan_text :: "(string \<Rightarrow> 32 word) \<Rightarrow> string \<Rightarrow> scanner \<Rightarrow> (token option \<times> scanner) res" where
  "scan_text strtod s sc =
     (let (n, a) = (case pick_rule (rules_of (sc_cond sc)) s of Some (n, a) \<Rightarrow> (n, a) | None \<Rightarrow> (1, Skip)) in
      rbind (update_numbers (take n s) (sc_files sc)) (\<lambda>files.
      rule_action strtod a (take n s) (sc_consume n (sc\<lparr>sc_files := files\<rparr>))))"

definition scan_round :: "(string \<Rightarrow> 32 word) \<Rightarrow> scanner \<Rightarrow> (token option option \<times> scanner) res" where
  "scan_round strtod sc =
     rbind (sc_input sc) (\<lambda>s.
     if s = [] then
       rbind (eof_rule (sc_files sc)) (\<lambda>(done, files).
       Inr (if done then Some None else None, sc\<lparr>sc_files := files\<rparr>))
     else
       rbind (scan_text strtod s sc) (\<lambda>(t, sc).
       Inr (case t of None \<Rightarrow> None | Some t \<Rightarrow> Some (Some t), sc)))"

partial_function (option) yylex :: "(string \<Rightarrow> 32 word) \<Rightarrow> scanner \<Rightarrow> (token option \<times> scanner) res option" where
  "yylex strtod sc =
     (case scan_round strtod sc of
        Inl e \<Rightarrow> Some (Inl e)
      | Inr (r, sc) \<Rightarrow> (case r of None \<Rightarrow> yylex strtod sc | Some t \<Rightarrow> Some (Inr (t, sc))))"

end
