(* ===== verification/Grammar.thy ===== *)
theory Grammar
  imports Scanner Symbols Data_Buffer
begin

text \<open>
  The grammar of src/src/assembler/parser.y.  A nonterminal is a datatype with a constructor for each of
  its productions, and the function that gives the symbols the production derives; the tables that bison
  makes of the grammar are generated code.  A symbol is a token of the scanner with its value in yylval.
\<close>

section \<open>Productions\<close>

datatype index_constant = IC_Int int | IC_Uint "32 word"

datatype var_constant = VC_Index index_constant | VC_Float "32 word" | VC_Strg string_t

datatype var_def =
    VD_One string_t
  | VD_Slots string_t index_constant
  | VD_Value string_t var_constant
  | VD_Values string_t "var_constant list"

datatype index_expr =
    IE_Const index_constant
  | IE_Add index_expr index_expr
  | IE_Sub index_expr index_expr
  | IE_Mul index_expr index_expr
  | IE_Div index_expr index_expr
  | IE_Mod index_expr index_expr
  | IE_Paren index_expr

datatype index = Index index_expr | Blank_Index

datatype mode1 = M1_Register register_token | M1_Indexed register_token index | M1_Name string_t

datatype mode2 = M2_Mode1 mode1 | M2_Const index_constant

datatype mode3 = M3_Mode2 mode2 | M3_Float "32 word"

text \<open>\<open>register\<close>, \<open>arith_instr\<close>, \<open>ctrl_instr\<close> and \<open>comp_instr\<close> are the token and the value of the action.\<close>

definition register :: "(register_token \<times> vm_register) list" where
  "register =
     [(R01, REG_R01), (R02, REG_R02), (R03, REG_R03), (R04, REG_R04), (R05, REG_R05), (R06, REG_R06),
      (R07, REG_R07), (R08, REG_R08), (R09, REG_R09), (R10, REG_R10), (R11, REG_R11), (R12, REG_R12),
      (R13, REG_R13), (R14, REG_R14), (R15, REG_R15), (R16, REG_R16), (R17, REG_R17), (R18, REG_R18),
      (R19, REG_R19), (R20, REG_R20), (R21, REG_R21), (R22, REG_R22), (R23, REG_R23), (R24, REG_R24),
      (R25, REG_R25), (R26, REG_R26), (R27, REG_R27), (R28, REG_R28), (R29, REG_R29), (R30, REG_R30),
      (R31, REG_R31), (R32, REG_R32), (SP, REG_SP)]"

definition arith_instr :: "(word_token \<times> vm_instruction) list" where
  "arith_instr =
     [(T_ADD, INSTR_ADD), (T_ADDI, INSTR_ADDI), (T_ADDU, INSTR_ADDU), (T_ADDF, INSTR_ADDF), (T_SUB, INSTR_SUB),
      (T_SUBI, INSTR_SUBI), (T_SUBU, INSTR_SUBU), (T_SUBF, INSTR_SUBF), (T_MUL, INSTR_MUL), (T_MULI, INSTR_MULI),
      (T_MULU, INSTR_MULU), (T_MULF, INSTR_MULF), (T_DIV, INSTR_DIV), (T_DIVI, INSTR_DIVI), (T_DIVU, INSTR_DIVU),
      (T_DIVF, INSTR_DIVF), (T_MOD, INSTR_MOD), (T_MODI, INSTR_MODI), (T_MODU, INSTR_MODU), (T_MODF, INSTR_MODF)]"

definition ctrl_instr :: "(word_token \<times> vm_instruction) list" where
  "ctrl_instr =
     [(T_CALL, INSTR_CALL), (T_CALLT, INSTR_CALLT), (T_CALLF, INSTR_CALLF), (T_JMP, INSTR_JMP), (T_JMPT, INSTR_JMPT),
      (T_JMPF, INSTR_JMPF), (T_RET, INSTR_RET), (T_RETT, INSTR_RETT), (T_RETF, INSTR_RETF)]"

definition comp_instr :: "(word_token \<times> vm_instruction) list" where
  "comp_instr =
     [(T_LT, INSTR_LT), (T_GT, INSTR_GT), (T_LTE, INSTR_LTE), (T_GTE, INSTR_GTE), (T_EQ, INSTR_EQ), (T_NEQ, INSTR_NEQ)]"

datatype assembler_instruction =
    AI_Mov mode1 mode3
  | AI_Push mode3
  | AI_Pop mode1
  | AI_Cpy mode1 register_token index_constant
  | AI_Arith word_token mode1 register_token register_token
  | AI_Ctrl word_token mode1
  | AI_Comp word_token mode2 mode2
  | AI_Setf
  | AI_Clrf
  | AI_Exit
  | AI_Exit_Index index_constant
  | AI_Abort
  | AI_Nop
  | AI_Extern string_t

datatype instruction =
    I_Assembler assembler_instruction
  | I_Var_Def var_def
  | I_Label string_t
  | I_Include string_t

text \<open>A module is a list of instructions that is not empty.\<close>

type_synonym module_tree = "instruction list"

section \<open>The symbols of a production\<close>

type_synonym lexeme = "token \<times> yylval option"

abbreviation W :: "word_token \<Rightarrow> lexeme" where "W t \<equiv> (T_word t, None)"
abbreviation P :: "char \<Rightarrow> lexeme" where "P c \<equiv> (T_char c, None)"
abbreviation Nm :: "string_t \<Rightarrow> lexeme" where "Nm s \<equiv> (T_NAME, Some (Strg s))"
abbreviation Sl :: "string_t \<Rightarrow> lexeme" where "Sl s \<equiv> (T_STRG_LITERAL, Some (Strg s))"
abbreviation Fl :: "32 word \<Rightarrow> lexeme" where "Fl w \<equiv> (T_FLOAT_LITERAL, Some (Fval w))"
abbreviation Rg :: "register_token \<Rightarrow> lexeme" where "Rg r \<equiv> (T_register r, None)"

fun index_constant_toks :: "index_constant \<Rightarrow> lexeme list" where
  "index_constant_toks (IC_Int i) = [(T_INT_LITERAL, Some (Ival i))]"
| "index_constant_toks (IC_Uint w) = [(T_UINT_LITERAL, Some (Uval w))]"

fun var_constant_toks :: "var_constant \<Rightarrow> lexeme list" where
  "var_constant_toks (VC_Index c) = index_constant_toks c"
| "var_constant_toks (VC_Float w) = [Fl w]"
| "var_constant_toks (VC_Strg s) = [Sl s]"

fun var_constant_list_toks :: "var_constant list \<Rightarrow> lexeme list" where
  "var_constant_list_toks [] = []"
| "var_constant_list_toks [c] = var_constant_toks c"
| "var_constant_list_toks (c # cs) = var_constant_toks c @ [P (CHR '','')] @ var_constant_list_toks cs"

fun var_def_toks :: "var_def \<Rightarrow> lexeme list" where
  "var_def_toks (VD_One s) = [W T_DATA, Nm s]"
| "var_def_toks (VD_Slots s c) = [W T_DATA, Nm s, P (CHR ''['')] @ index_constant_toks c @ [P (CHR '']'')]"
| "var_def_toks (VD_Value s c) = [W T_DATA, Nm s, P (CHR ''='')] @ var_constant_toks c"
| "var_def_toks (VD_Values s cs) =
     [W T_DATA, Nm s, P (CHR ''=''), P (CHR ''{'')] @ var_constant_list_toks cs @ [P (CHR ''}'')]"

fun index_expr_toks :: "index_expr \<Rightarrow> lexeme list" where
  "index_expr_toks (IE_Const c) = index_constant_toks c"
| "index_expr_toks (IE_Add l r) = index_expr_toks l @ [P (CHR ''+'')] @ index_expr_toks r"
| "index_expr_toks (IE_Sub l r) = index_expr_toks l @ [P (CHR ''-'')] @ index_expr_toks r"
| "index_expr_toks (IE_Mul l r) = index_expr_toks l @ [P (CHR ''*'')] @ index_expr_toks r"
| "index_expr_toks (IE_Div l r) = index_expr_toks l @ [P (CHR ''/'')] @ index_expr_toks r"
| "index_expr_toks (IE_Mod l r) = index_expr_toks l @ [P (CHR ''%'')] @ index_expr_toks r"
| "index_expr_toks (IE_Paren e) = [P (CHR ''('')] @ index_expr_toks e @ [P (CHR '')'')]"

fun index_toks :: "index \<Rightarrow> lexeme list" where
  "index_toks (Index e) = [P (CHR ''['')] @ index_expr_toks e @ [P (CHR '']'')]"
| "index_toks Blank_Index = [P (CHR ''[''), P (CHR '']'')]"

fun mode1_toks :: "mode1 \<Rightarrow> lexeme list" where
  "mode1_toks (M1_Register r) = [Rg r]"
| "mode1_toks (M1_Indexed r i) = Rg r # index_toks i"
| "mode1_toks (M1_Name s) = [Nm s]"

fun mode2_toks :: "mode2 \<Rightarrow> lexeme list" where
  "mode2_toks (M2_Mode1 m) = mode1_toks m"
| "mode2_toks (M2_Const c) = index_constant_toks c"

fun mode3_toks :: "mode3 \<Rightarrow> lexeme list" where
  "mode3_toks (M3_Mode2 m) = mode2_toks m"
| "mode3_toks (M3_Float w) = [Fl w]"

abbreviation comma :: "lexeme list" where "comma \<equiv> [P (CHR '','')]"

fun assembler_instruction_toks :: "assembler_instruction \<Rightarrow> lexeme list" where
  "assembler_instruction_toks (AI_Mov m1 m3) = W T_MOV # mode1_toks m1 @ comma @ mode3_toks m3"
| "assembler_instruction_toks (AI_Push m3) = W T_PUSH # mode3_toks m3"
| "assembler_instruction_toks (AI_Pop m1) = W T_POP # mode1_toks m1"
| "assembler_instruction_toks (AI_Cpy m1 r c) =
     W T_CPY # mode1_toks m1 @ comma @ [Rg r] @ comma @ index_constant_toks c"
| "assembler_instruction_toks (AI_Arith t m1 r s) = W t # mode1_toks m1 @ comma @ [Rg r] @ comma @ [Rg s]"
| "assembler_instruction_toks (AI_Ctrl t m1) = W t # mode1_toks m1"
| "assembler_instruction_toks (AI_Comp t a b) = W t # mode2_toks a @ comma @ mode2_toks b"
| "assembler_instruction_toks AI_Setf = [W T_SETF]"
| "assembler_instruction_toks AI_Clrf = [W T_CLRF]"
| "assembler_instruction_toks AI_Exit = [W T_EXIT]"
| "assembler_instruction_toks (AI_Exit_Index c) = W T_EXIT # index_constant_toks c"
| "assembler_instruction_toks AI_Abort = [W T_ABORT]"
| "assembler_instruction_toks AI_Nop = [W T_NOP]"
| "assembler_instruction_toks (AI_Extern s) = [W T_EXTERN, Sl s]"

fun instruction_toks :: "instruction \<Rightarrow> lexeme list" where
  "instruction_toks (I_Assembler i) = assembler_instruction_toks i"
| "instruction_toks (I_Var_Def d) = var_def_toks d"
| "instruction_toks (I_Label s) = [Nm s, P (CHR '':'')]"
| "instruction_toks (I_Include s) = [W T_INCLUDE, Sl s]"

definition module_toks :: "module_tree \<Rightarrow> lexeme list" where
  "module_toks m = concat (map instruction_toks m)"

section \<open>Trees of the parser\<close>

text \<open>
  What the parser builds: the instruction tokens belong to their group, the lists are not empty, and the
  declarations \<open>%left '+' '-'\<close> below \<open>%left '*' '/' '%'\<close> decide between the trees of an expression.
\<close>

fun is_sum :: "index_expr \<Rightarrow> bool" where
  "is_sum (IE_Add l r) = True"
| "is_sum (IE_Sub l r) = True"
| "is_sum e = False"

fun is_product :: "index_expr \<Rightarrow> bool" where
  "is_product (IE_Mul l r) = True"
| "is_product (IE_Div l r) = True"
| "is_product (IE_Mod l r) = True"
| "is_product e = False"

fun expr_ok :: "index_expr \<Rightarrow> bool" where
  "expr_ok (IE_Const c) = True"
| "expr_ok (IE_Paren e) = expr_ok e"
| "expr_ok (IE_Add l r) = (expr_ok l \<and> expr_ok r \<and> \<not> is_sum r)"
| "expr_ok (IE_Sub l r) = (expr_ok l \<and> expr_ok r \<and> \<not> is_sum r)"
| "expr_ok (IE_Mul l r) = (expr_ok l \<and> expr_ok r \<and> \<not> is_sum l \<and> \<not> is_sum r \<and> \<not> is_product r)"
| "expr_ok (IE_Div l r) = (expr_ok l \<and> expr_ok r \<and> \<not> is_sum l \<and> \<not> is_sum r \<and> \<not> is_product r)"
| "expr_ok (IE_Mod l r) = (expr_ok l \<and> expr_ok r \<and> \<not> is_sum l \<and> \<not> is_sum r \<and> \<not> is_product r)"

fun mode1_ok :: "mode1 \<Rightarrow> bool" where
  "mode1_ok (M1_Indexed r (Index e)) = expr_ok e"
| "mode1_ok m = True"

fun mode2_ok :: "mode2 \<Rightarrow> bool" where
  "mode2_ok (M2_Mode1 m) = mode1_ok m"
| "mode2_ok m = True"

fun mode3_ok :: "mode3 \<Rightarrow> bool" where
  "mode3_ok (M3_Mode2 m) = mode2_ok m"
| "mode3_ok m = True"

fun assembler_instruction_ok :: "assembler_instruction \<Rightarrow> bool" where
  "assembler_instruction_ok (AI_Mov m1 m3) = (mode1_ok m1 \<and> mode3_ok m3)"
| "assembler_instruction_ok (AI_Push m3) = mode3_ok m3"
| "assembler_instruction_ok (AI_Pop m1) = mode1_ok m1"
| "assembler_instruction_ok (AI_Cpy m1 r c) = mode1_ok m1"
| "assembler_instruction_ok (AI_Arith t m1 r s) = (t \<in> fst ` set arith_instr \<and> mode1_ok m1)"
| "assembler_instruction_ok (AI_Ctrl t m1) = (t \<in> fst ` set ctrl_instr \<and> mode1_ok m1)"
| "assembler_instruction_ok (AI_Comp t a b) = (t \<in> fst ` set comp_instr \<and> mode2_ok a \<and> mode2_ok b)"
| "assembler_instruction_ok i = True"

fun instruction_ok :: "instruction \<Rightarrow> bool" where
  "instruction_ok (I_Assembler i) = assembler_instruction_ok i"
| "instruction_ok (I_Var_Def (VD_Values s cs)) = (cs \<noteq> [])"
| "instruction_ok i = True"

definition module_ok :: "module_tree \<Rightarrow> bool" where
  "module_ok m \<longleftrightarrow> m \<noteq> [] \<and> list_all instruction_ok m"

end
