(* ===== verification/Grammar_Facts.thy ===== *)
theory Grammar_Facts
  imports Grammar
begin

text \<open>
  The grammar with its precedences is unambiguous: a sequence of symbols belongs to at most one module.

  For the expressions this is shown through a recursive descent: an atom, then a loop over the operators
  that bind tightly, then a loop over the others.  It is a relation between the symbols, the tree that is
  read and the symbols that are left, and it is deterministic.
\<close>

section \<open>Registers\<close>

text \<open>The register that a token stands for, and its number.\<close>

definition register_action :: "register_token \<Rightarrow> vm_register option" where
  "register_action t = map_of register t"

section \<open>Recursive descent for expressions\<close>

definition mk_product :: "char \<Rightarrow> (index_expr \<Rightarrow> index_expr \<Rightarrow> index_expr) option" where
  "mk_product c =
     (if c = CHR ''*'' then Some IE_Mul else if c = CHR ''/'' then Some IE_Div
      else if c = CHR ''%'' then Some IE_Mod else None)"

definition mk_sum :: "char \<Rightarrow> (index_expr \<Rightarrow> index_expr \<Rightarrow> index_expr) option" where
  "mk_sum c = (if c = CHR ''+'' then Some IE_Add else if c = CHR ''-'' then Some IE_Sub else None)"

definition no_product :: "lexeme list \<Rightarrow> bool" where
  "no_product ts \<longleftrightarrow> (\<forall>c us. ts = P c # us \<longrightarrow> mk_product c = None)"

definition no_sum :: "lexeme list \<Rightarrow> bool" where
  "no_sum ts \<longleftrightarrow> (\<forall>c us. ts = P c # us \<longrightarrow> mk_sum c = None)"

inductive atom :: "lexeme list \<Rightarrow> index_expr \<Rightarrow> lexeme list \<Rightarrow> bool"
  and product_loop :: "index_expr \<Rightarrow> lexeme list \<Rightarrow> index_expr \<Rightarrow> lexeme list \<Rightarrow> bool"
  and sum_loop :: "index_expr \<Rightarrow> lexeme list \<Rightarrow> index_expr \<Rightarrow> lexeme list \<Rightarrow> bool" where
  atom_int: "atom ((T_INT_LITERAL, Some (Ival i)) # r) (IE_Const (IC_Int i)) r"
| atom_uint: "atom ((T_UINT_LITERAL, Some (Uval w)) # r) (IE_Const (IC_Uint w)) r"
| atom_paren: "atom ts a r1 \<Longrightarrow> product_loop a r1 p r2 \<Longrightarrow> sum_loop p r2 e (P (CHR '')'') # r) \<Longrightarrow>
    atom (P (CHR ''('') # ts) (IE_Paren e) r"
| product_end: "no_product ts \<Longrightarrow> product_loop e ts e ts"
| product_step: "mk_product c = Some mk \<Longrightarrow> atom ts a r1 \<Longrightarrow> product_loop (mk e a) r1 f r \<Longrightarrow> product_loop e (P c # ts) f r"
| sum_end: "no_sum ts \<Longrightarrow> sum_loop e ts e ts"
| sum_step: "mk_sum c = Some mk \<Longrightarrow> atom ts a r1 \<Longrightarrow> product_loop a r1 p r2 \<Longrightarrow> sum_loop (mk e p) r2 f r \<Longrightarrow>
    sum_loop e (P c # ts) f r"

inductive_cases atom_intE: "atom ((T_INT_LITERAL, v) # ts) e r"
inductive_cases atom_uintE: "atom ((T_UINT_LITERAL, v) # ts) e r"
inductive_cases atom_parenE: "atom ((T_char c, v) # ts) e r"
inductive_cases product_loopE: "product_loop e ts f r"
inductive_cases sum_loopE: "sum_loop e ts f r"

lemma descent_deterministic:
  "atom ts a r \<Longrightarrow> \<forall>a' r'. atom ts a' r' \<longrightarrow> a' = a \<and> r' = r"
  "product_loop e us f s \<Longrightarrow> \<forall>f' s'. product_loop e us f' s' \<longrightarrow> f' = f \<and> s' = s"
  "sum_loop g vs h t \<Longrightarrow> \<forall>h' t'. sum_loop g vs h' t' \<longrightarrow> h' = h \<and> t' = t"
proof (induction rule: atom_product_loop_sum_loop.inducts)
  case (atom_paren ts a r1 p r2 e r)
  show ?case
  proof (intro allI impI)
    fix a' r' assume "atom (P (CHR ''('') # ts) a' r'"
    then obtain b s1 q s2 e' where b: "a' = IE_Paren e'" "atom ts b s1" "product_loop b s1 q s2"
      "sum_loop q s2 e' (P (CHR '')'') # r')" by (auto elim: atom_parenE)
    have "b = a \<and> s1 = r1" using atom_paren.IH(1) b(2) by blast
    moreover from this have "q = p \<and> s2 = r2" using atom_paren.IH(2) b(3) by blast
    ultimately have "e' = e \<and> P (CHR '')'') # r' = P (CHR '')'') # r" using atom_paren.IH(3) b(4) by blast
    then show "a' = IE_Paren e \<and> r' = r" using b(1) by simp
  qed
next
  case (product_end ts e)
  show ?case
  proof (intro allI impI)
    fix f' r' assume "product_loop e ts f' r'"
    then show "f' = e \<and> r' = ts" by (rule product_loopE) (use product_end in \<open>auto simp: no_product_def\<close>)
  qed
next
  case (product_step c mk ts a r1 e f r)
  show ?case
  proof (intro allI impI)
    fix f' r' assume "product_loop e (P c # ts) f' r'"
    then obtain b s1 where b: "atom ts b s1" "product_loop (mk e b) s1 f' r'"
      by (rule product_loopE) (use product_step.hyps(1) in \<open>auto simp: no_product_def\<close>)
    have "b = a \<and> s1 = r1" using product_step.IH(1) b(1) by blast
    then show "f' = f \<and> r' = r" using product_step.IH(2) b(2) by blast
  qed
next
  case (sum_end ts e)
  show ?case
  proof (intro allI impI)
    fix f' r' assume "sum_loop e ts f' r'"
    then show "f' = e \<and> r' = ts" by (rule sum_loopE) (use sum_end in \<open>auto simp: no_sum_def\<close>)
  qed
next
  case (sum_step c mk ts a r1 p r2 e f r)
  show ?case
  proof (intro allI impI)
    fix f' r' assume "sum_loop e (P c # ts) f' r'"
    then obtain b s1 q s2 where b: "atom ts b s1" "product_loop b s1 q s2" "sum_loop (mk e q) s2 f' r'"
      by (rule sum_loopE) (use sum_step.hyps(1) in \<open>auto simp: no_sum_def\<close>)
    have "b = a \<and> s1 = r1" using sum_step.IH(1) b(1) by blast
    moreover from this have "q = p \<and> s2 = r2" using sum_step.IH(2) b(2) by blast
    ultimately show "f' = f \<and> r' = r" using sum_step.IH(3) b(3) by blast
  qed
qed (auto elim: atom_intE atom_uintE)

lemma no_ops: "no_product (P (CHR '')'') # r)" "no_sum (P (CHR '')'') # r)" "no_product (P (CHR '']'') # r)" "no_sum (P (CHR '']'') # r)"
  by (simp_all add: no_product_def no_sum_def mk_product_def mk_sum_def)

text \<open>What the descent does on the symbols of a tree of the parser, in front of any others.\<close>

definition reads_product :: "index_expr \<Rightarrow> bool" where
  "reads_product e \<longleftrightarrow> (\<forall>r. \<exists>a r0. atom (index_expr_toks e @ r) a r0 \<and> (\<forall>f x. product_loop e r f x \<longrightarrow> product_loop a r0 f x))"

definition reads_sum :: "index_expr \<Rightarrow> bool" where
  "reads_sum e \<longleftrightarrow> (\<forall>r. no_product r \<longrightarrow> (\<exists>a r0 p r1. atom (index_expr_toks e @ r) a r0 \<and> product_loop a r0 p r1 \<and>
     (\<forall>f x. sum_loop e r f x \<longrightarrow> sum_loop p r1 f x)))"

lemma reads_product_step:
  assumes "reads_product l" "\<forall>r. atom (index_expr_toks e @ r) e r" "mk_product c = Some mk"
    "index_expr_toks (mk l e) = index_expr_toks l @ [P c] @ index_expr_toks e"
  shows "reads_product (mk l e)"
  unfolding reads_product_def
proof
  fix r
  obtain a r0 where a: "atom (index_expr_toks l @ P c # index_expr_toks e @ r) a r0"
    "\<forall>f x. product_loop l (P c # index_expr_toks e @ r) f x \<longrightarrow> product_loop a r0 f x"
    using assms(1) unfolding reads_product_def by blast
  have "product_loop a r0 f x" if "product_loop (mk l e) r f x" for f x
    using a(2) product_step [OF assms(3) assms(2) [rule_format] that] by blast
  then show "\<exists>a r0. atom (index_expr_toks (mk l e) @ r) a r0 \<and> (\<forall>f x. product_loop (mk l e) r f x \<longrightarrow> product_loop a r0 f x)"
    using a(1) assms(4) by (intro exI [of _ a] exI [of _ r0]) simp
qed

lemma reads_sum_product: "reads_product e \<Longrightarrow> reads_sum e"
  unfolding reads_product_def reads_sum_def by (meson product_end)

lemma reads_sum_step:
  assumes "reads_sum l" "reads_product e" "mk_sum c = Some mk" "mk_product c = None"
    "index_expr_toks (mk l e) = index_expr_toks l @ [P c] @ index_expr_toks e"
  shows "reads_sum (mk l e)"
  unfolding reads_sum_def
proof (intro allI impI)
  fix r assume r: "no_product r"
  have "no_product (P c # index_expr_toks e @ r)" using assms(4) by (simp add: no_product_def)
  then obtain a r0 p r1 where a: "atom (index_expr_toks l @ P c # index_expr_toks e @ r) a r0" "product_loop a r0 p r1"
    "\<forall>f x. sum_loop l (P c # index_expr_toks e @ r) f x \<longrightarrow> sum_loop p r1 f x"
    using assms(1) unfolding reads_sum_def by blast
  obtain b s0 where b: "atom (index_expr_toks e @ r) b s0" "product_loop b s0 e r"
    using assms(2) product_end [OF r] unfolding reads_product_def by blast
  have "sum_loop p r1 f x" if "sum_loop (mk l e) r f x" for f x
    using a(3) sum_step [OF assms(3) b that] by blast
  then show "\<exists>a r0 p r1. atom (index_expr_toks (mk l e) @ r) a r0 \<and> product_loop a r0 p r1 \<and>
     (\<forall>f x. sum_loop (mk l e) r f x \<longrightarrow> sum_loop p r1 f x)"
    using a(1,2) assms(5) by (intro exI [of _ a] exI [of _ r0] exI [of _ p] exI [of _ r1]) simp
qed

lemma atom_reads_product: "\<forall>r. atom (index_expr_toks e @ r) e r \<Longrightarrow> reads_product e"
  unfolding reads_product_def by blast

lemma descent_reads:
  "expr_ok e \<Longrightarrow> reads_sum e \<and> (\<not> is_sum e \<longrightarrow> reads_product e) \<and>
     (\<not> is_sum e \<and> \<not> is_product e \<longrightarrow> (\<forall>r. atom (index_expr_toks e @ r) e r))"
proof (induction e)
  case (IE_Const c)
  have "\<forall>r. atom (index_expr_toks (IE_Const c) @ r) (IE_Const c) r"
    by (cases c) (simp_all add: atom_int atom_uint)
  then show ?case using atom_reads_product reads_sum_product by blast
next
  case (IE_Paren e)
  have "atom (P (CHR ''('') # index_expr_toks e @ P (CHR '')'') # r) (IE_Paren e) r" for r
    using IE_Paren sum_end [OF no_ops(2)] no_ops(1) unfolding reads_sum_def
    by (metis atom_paren expr_ok.simps(2))
  then have "\<forall>r. atom (index_expr_toks (IE_Paren e) @ r) (IE_Paren e) r" by simp
  then show ?case using atom_reads_product reads_sum_product by blast
next
  case (IE_Add l e)
  then show ?case using reads_sum_step [of l e "CHR ''+''" IE_Add] by (simp add: mk_sum_def mk_product_def)
next
  case (IE_Sub l e)
  then show ?case using reads_sum_step [of l e "CHR ''-''" IE_Sub] by (simp add: mk_sum_def mk_product_def)
next
  case (IE_Mul l e)
  then show ?case using reads_product_step [of l e "CHR ''*''" IE_Mul] reads_sum_product by (simp add: mk_product_def)
next
  case (IE_Div l e)
  then show ?case using reads_product_step [of l e "CHR ''/''" IE_Div] reads_sum_product by (simp add: mk_product_def)
next
  case (IE_Mod l e)
  then show ?case using reads_product_step [of l e "CHR ''%''" IE_Mod] reads_sum_product by (simp add: mk_product_def)
qed

lemma index_expr_unique:
  assumes "expr_ok e" "expr_ok f" "index_expr_toks e @ P (CHR '']'') # r = index_expr_toks f @ P (CHR '']'') # s"
  shows "e = f \<and> r = s"
proof -
  have reads: "\<exists>a r0 p r1. atom (index_expr_toks g @ P (CHR '']'') # x) a r0 \<and> product_loop a r0 p r1 \<and>
      sum_loop p r1 g (P (CHR '']'') # x)" if "expr_ok g" for g x
    using descent_reads [OF that] sum_end [OF no_ops(4)] no_ops(3) unfolding reads_sum_def by meson
  obtain a r0 p r1 where e: "atom (index_expr_toks e @ P (CHR '']'') # r) a r0" "product_loop a r0 p r1"
    "sum_loop p r1 e (P (CHR '']'') # r)" using reads [OF assms(1)] by blast
  obtain b s0 q s1 where f: "atom (index_expr_toks f @ P (CHR '']'') # s) b s0" "product_loop b s0 q s1"
    "sum_loop q s1 f (P (CHR '']'') # s)" using reads [OF assms(2)] by blast
  have "b = a \<and> s0 = r0" using descent_deterministic(1) [OF e(1)] f(1) assms(3) by simp
  moreover from this have "q = p \<and> s1 = r1" using descent_deterministic(2) [OF e(2)] f(2) by blast
  ultimately show ?thesis using descent_deterministic(3) [OF e(3)] f(3) by blast
qed

section \<open>The other productions\<close>

lemma index_constant_unique: "index_constant_toks c @ r = index_constant_toks d @ s \<longleftrightarrow> c = d \<and> r = s"
  by (cases c; cases d) auto

lemma var_constant_unique: "var_constant_toks c @ r = var_constant_toks d @ s \<longleftrightarrow> c = d \<and> r = s"
proof -
  have "\<exists>t v. index_constant_toks c = [(t, v)] \<and> t \<noteq> T_FLOAT_LITERAL \<and> t \<noteq> T_STRG_LITERAL" for c by (cases c) auto
  from this [of "case c of VC_Index i \<Rightarrow> i"] this [of "case d of VC_Index i \<Rightarrow> i"] show ?thesis
    by (cases c; cases d) (auto simp: index_constant_unique dest!: index_constant_unique [of _ "[]" _ "[]", THEN iffD1])
qed

definition no_comma :: "lexeme list \<Rightarrow> bool" where
  "no_comma ts \<longleftrightarrow> (\<forall>us. ts \<noteq> P (CHR '','') # us)"

lemma var_constant_list_unique:
  "cs \<noteq> [] \<Longrightarrow> ds \<noteq> [] \<Longrightarrow> var_constant_list_toks cs @ P (CHR ''}'') # r = var_constant_list_toks ds @ P (CHR ''}'') # s \<Longrightarrow>
   cs = ds \<and> r = s"
proof (induction cs arbitrary: ds rule: var_constant_list_toks.induct)
  case (2 c)
  then show ?case by (cases ds rule: var_constant_list_toks.cases) (auto simp: var_constant_unique)
next
  case (3 c c' cs)
  then show ?case by (cases ds rule: var_constant_list_toks.cases) (auto simp: var_constant_unique)
qed simp

text \<open>An instruction is followed by another one, or by nothing.\<close>

definition instr_next :: "lexeme list \<Rightarrow> bool" where
  "instr_next ts \<longleftrightarrow> ts = [] \<or> (\<exists>t us. ts = W t # us) \<or> (\<exists>s us. ts = Nm s # us)"

definition no_bracket :: "lexeme list \<Rightarrow> bool" where
  "no_bracket ts \<longleftrightarrow> (\<forall>us. ts \<noteq> P (CHR ''['') # us)"

lemma instr_next_no_bracket: "instr_next ts \<Longrightarrow> no_bracket ts"
  by (auto simp: instr_next_def no_bracket_def)

lemma comma_no_bracket [simp]: "no_bracket (P (CHR '','') # ts)"
  by (simp add: no_bracket_def)

lemma var_def_unique:
  assumes "var_def_toks d @ r = var_def_toks e @ s" "instruction_ok (I_Var_Def d)" "instruction_ok (I_Var_Def e)"
    "instr_next r" "instr_next s"
  shows "d = e \<and> r = s"
proof -
  have const: "\<exists>t v. var_constant_toks c = [(t, v)] \<and> t \<noteq> T_char x" for c x
  proof -
    have "\<exists>t v. index_constant_toks i = [(t, v)] \<and> t \<noteq> T_char x" for i by (cases i) auto
    then show ?thesis by (cases c) auto
  qed
  have tail: "P x # us \<noteq> r" "P x # us \<noteq> s" "r \<noteq> P x # us" "s \<noteq> P x # us" for x us
    using assms(4,5) by (auto simp: instr_next_def)
  have head: "var_constant_toks c @ ws \<noteq> P x # us" "P x # us \<noteq> var_constant_toks c @ ws" for c x us ws
    using const [of c x] by auto
  show ?thesis
  proof (cases "\<exists>n cs m ds. d = VD_Values n cs \<and> e = VD_Values m ds")
    case True
    then obtain n cs m ds where de: "d = VD_Values n cs" "e = VD_Values m ds" by blast
    then show ?thesis using var_constant_list_unique [of cs ds r s] assms(1-3) by simp
  next
    case False
    then show ?thesis using assms(1)
      by (cases d; cases e) (simp_all add: tail head index_constant_unique var_constant_unique)
  qed
qed

lemma index_expr_first: "\<exists>t v us. index_expr_toks e = (t, v) # us \<and> t \<noteq> T_char (CHR '']'')"
proof (induction e)
  case (IE_Const c)
  then show ?case by (cases c) auto
qed auto

lemma mode1_unique:
  assumes "mode1_toks a @ r = mode1_toks b @ s" "mode1_ok a" "mode1_ok b" "no_bracket r" "no_bracket s"
  shows "a = b \<and> r = s"
proof -
  have blank: "index_expr_toks e @ us \<noteq> P (CHR '']'') # ws" for e us ws using index_expr_first [of e] by auto
  have idx: "i = j \<and> r = s" if "index_toks i @ r = index_toks j @ s" "mode1_ok (M1_Indexed x i)" "mode1_ok (M1_Indexed y j)" for i j x y
  proof (cases i)
    case (Index e)
    show ?thesis
    proof (cases j)
      case (Index f)
      then show ?thesis using that \<open>i = Index e\<close> index_expr_unique [of e f r s] by simp
    next
      case Blank_Index
      then show ?thesis using that(1) \<open>i = Index e\<close> blank [of e "P (CHR '']'') # r" s] by simp
    qed
  next
    case Blank_Index
    show ?thesis
    proof (cases j)
      case (Index f)
      then show ?thesis using that(1) \<open>i = Blank_Index\<close> blank [of f "P (CHR '']'') # s" r, symmetric] by simp
    next
      case Blank_Index
      then show ?thesis using that(1) \<open>i = Blank_Index\<close> by simp
    qed
  qed
  have "index_toks i @ us \<noteq> r" "index_toks i @ us \<noteq> s" for i us using assms(4,5) by (cases i; auto simp: no_bracket_def)+
  then show ?thesis using assms(1-3) idx
    by (cases a; cases b) (simp_all, metis+)
qed

lemma mode1_first: "\<exists>t v us. mode1_toks m = (t, v) # us \<and> t \<notin> {T_INT_LITERAL, T_UINT_LITERAL, T_FLOAT_LITERAL}"
  by (cases m) auto

lemma mode2_unique:
  assumes "mode2_toks a @ r = mode2_toks b @ s" "mode2_ok a" "mode2_ok b" "no_bracket r" "no_bracket s"
  shows "a = b \<and> r = s"
proof -
  have neq: "index_constant_toks c @ us \<noteq> mode1_toks m @ ws" "mode1_toks m @ ws \<noteq> index_constant_toks c @ us" for c m us ws
    using mode1_first [of m] by (cases c; auto)+
  show ?thesis 
    using assms mode1_unique [of "case a of M2_Mode1 x \<Rightarrow> x" r "case b of M2_Mode1 x \<Rightarrow> x" s]
    by (cases a; cases b) (simp_all add: neq index_constant_unique)
qed

lemma mode2_first: "\<exists>t v us. mode2_toks m = (t, v) # us \<and> t \<noteq> T_FLOAT_LITERAL"
proof (cases m)
  case (M2_Mode1 x)
  then show ?thesis using mode1_first [of x] by auto
next
  case (M2_Const c)
  then show ?thesis by (cases c) auto
qed

lemma mode3_unique:
  assumes "mode3_toks a @ r = mode3_toks b @ s" "mode3_ok a" "mode3_ok b" "no_bracket r" "no_bracket s"
  shows "a = b \<and> r = s"
proof -
  have neq: "mode2_toks m @ ws \<noteq> Fl w # us" "Fl w # us \<noteq> mode2_toks m @ ws" for w m us ws using mode2_first [of m] by auto
  show ?thesis 
    using assms mode2_unique [of "case a of M3_Mode2 x \<Rightarrow> x" r "case b of M3_Mode2 x \<Rightarrow> x" s]
    by (cases a; cases b) (simp_all add: neq)
qed

text \<open>The first word of an instruction decides its production, up to the index of EXIT.\<close>

fun production :: "assembler_instruction \<Rightarrow> nat" where
  "production (AI_Mov m1 m3) = 0"
| "production (AI_Push m3) = 1"
| "production (AI_Pop m1) = 2"
| "production (AI_Cpy m1 r c) = 3"
| "production (AI_Arith t m1 r s) = 4"
| "production (AI_Ctrl t m1) = 5"
| "production (AI_Comp t a b) = 6"
| "production AI_Setf = 7"
| "production AI_Clrf = 8"
| "production AI_Exit = 9"
| "production (AI_Exit_Index c) = 9"
| "production AI_Abort = 10"
| "production AI_Nop = 11"
| "production (AI_Extern s) = 12"

definition word_table :: "(word_token \<times> nat) list" where
  "word_table =
     [(T_MOV, 0), (T_PUSH, 1), (T_POP, 2), (T_CPY, 3), (T_SETF, 7), (T_CLRF, 8), (T_EXIT, 9), (T_ABORT, 10), (T_NOP, 11), (T_EXTERN, 12)] @
     map (\<lambda>(t, _). (t, 4)) arith_instr @ map (\<lambda>(t, _). (t, 5)) ctrl_instr @ map (\<lambda>(t, _). (t, 6)) comp_instr"

lemma word_table_facts:
  "list_all (\<lambda>(t, k). map_of word_table t = Some k) word_table \<and> map_of word_table T_DATA = None \<and> map_of word_table T_INCLUDE = None"
  by code_simp

lemma first_word:
  assumes "assembler_instruction_ok i"
  shows "\<exists>t us. assembler_instruction_toks i = W t # us \<and> map_of word_table t = Some (production i)"
proof -
  have tab: "map_of word_table t = Some k" if "(t, k) \<in> set word_table" for t k
    using word_table_facts that by (auto simp: list_all_iff)
  have "map_of word_table t = Some 4" if "t \<in> fst ` set arith_instr" for t using that tab [of t 4] by (force simp: word_table_def)
  moreover have "map_of word_table t = Some 5" if "t \<in> fst ` set ctrl_instr" for t using that tab [of t 5] by (force simp: word_table_def)
  moreover have "map_of word_table t = Some 6" if "t \<in> fst ` set comp_instr" for t using that tab [of t 6] by (force simp: word_table_def)
  ultimately show ?thesis using assms by (cases i) (auto simp: word_table_def)
qed

lemma assembler_instruction_unique:
  assumes eq: "assembler_instruction_toks i @ r = assembler_instruction_toks j @ s"
    and ok: "assembler_instruction_ok i" "assembler_instruction_ok j" and nxt: "instr_next r" "instr_next s"
  shows "i = j \<and> r = s"
proof -
  have p: "production i = production j" using first_word [OF ok(1)] first_word [OF ok(2)] eq by auto
  note nb = nxt [THEN instr_next_no_bracket]
  have m1: "a = b \<and> us = ws" if "mode1_toks a @ us = mode1_toks b @ ws" "mode1_ok a" "mode1_ok b" "no_bracket us" "no_bracket ws" for a b us ws
    using mode1_unique [OF that] .
  show ?thesis
  proof (cases i)
    case (AI_Mov a b)
    then obtain c d where j: "j = AI_Mov c d" using p by (cases j) auto
    have "a = c \<and> comma @ mode3_toks b @ r = comma @ mode3_toks d @ s" using eq ok AI_Mov j by (intro mode1_unique) auto
    then show ?thesis using mode3_unique [of b r d s] AI_Mov j ok nb by simp
  next
    case (AI_Push a)
    then obtain c where j: "j = AI_Push c" using p by (cases j) auto
    then show ?thesis using mode3_unique [of a r c s] AI_Push eq ok nb by simp
  next
    case (AI_Pop a)
    then obtain c where j: "j = AI_Pop c" using p by (cases j) auto
    then show ?thesis using mode1_unique [of a r c s] AI_Pop eq ok nb by simp
  next
    case (AI_Cpy a x c)
    then obtain b y d where j: "j = AI_Cpy b y d" using p by (cases j) auto
    have "a = b \<and> comma @ [Rg x] @ comma @ index_constant_toks c @ r = comma @ [Rg y] @ comma @ index_constant_toks d @ s"
      using eq ok AI_Cpy j by (intro mode1_unique) auto
    then show ?thesis using AI_Cpy j by (simp add: index_constant_unique)
  next
    case (AI_Arith t a x y)
    then obtain u b x' y' where j: "j = AI_Arith u b x' y'" using p by (cases j) auto
    have "a = b \<and> comma @ [Rg x] @ comma @ [Rg y] @ r = comma @ [Rg x'] @ comma @ [Rg y'] @ s"
      using eq ok AI_Arith j by (intro mode1_unique) auto
    then show ?thesis using AI_Arith j eq by simp
  next
    case (AI_Ctrl t a)
    then obtain u b where j: "j = AI_Ctrl u b" using p by (cases j) auto
    then show ?thesis using mode1_unique [of a r b s] AI_Ctrl eq ok nb by simp
  next
    case (AI_Comp t a b)
    then obtain u c d where j: "j = AI_Comp u c d" using p by (cases j) auto
    have "a = c \<and> comma @ mode2_toks b @ r = comma @ mode2_toks d @ s" using eq ok AI_Comp j by (intro mode2_unique) auto
    then show ?thesis using mode2_unique [of b r d s] AI_Comp j ok nb eq by simp
  next
    case AI_Setf
    then show ?thesis using p eq by (cases j) auto
  next
    case AI_Clrf
    then show ?thesis using p eq by (cases j) auto
  next
    case AI_Exit
    have "index_constant_toks c @ s \<noteq> r" for c using nxt(1) by (cases c) (auto simp: instr_next_def)
    then show ?thesis using AI_Exit p eq by (cases j) auto
  next
    case (AI_Exit_Index c)
    have "index_constant_toks c @ r \<noteq> s" using nxt(2) by (cases c) (auto simp: instr_next_def)
    then show ?thesis using AI_Exit_Index p eq by (cases j) (auto simp: index_constant_unique)
  next
    case AI_Abort
    then show ?thesis using p eq by (cases j) auto
  next
    case AI_Nop
    then show ?thesis using p eq by (cases j) auto
  next
    case (AI_Extern x)
    then show ?thesis using p eq by (cases j) auto
  qed
qed

lemma instruction_unique:
  assumes eq: "instruction_toks i @ r = instruction_toks j @ s" and ok: "instruction_ok i" "instruction_ok j"
    and nxt: "instr_next r" "instr_next s"
  shows "i = j \<and> r = s"
proof -
  have asm: "\<exists>t us. instruction_toks (I_Assembler a) = W t # us \<and> t \<noteq> T_DATA \<and> t \<noteq> T_INCLUDE" if "assembler_instruction_ok a" for a
    using first_word [OF that] word_table_facts by auto
  have var: "\<exists>us. instruction_toks (I_Var_Def d) = W T_DATA # us" for d by (cases d) auto
  show ?thesis
  proof (cases i; cases j)
    fix a b assume "i = I_Assembler a" "j = I_Assembler b"
    then show ?thesis using assembler_instruction_unique [of a r b s] assms by simp
  next
    fix d e assume "i = I_Var_Def d" "j = I_Var_Def e"
    then show ?thesis using var_def_unique [of d r e s] assms by simp
  next
    fix a e assume ij: "i = I_Assembler a" "j = I_Var_Def e"
    then show ?thesis using asm [of a] var [of e] eq ok by auto
  next
    fix d b assume ij: "i = I_Var_Def d" "j = I_Assembler b"
    then show ?thesis using asm [of b] var [of d] eq ok by auto
  next
    fix a x assume ij: "i = I_Assembler a" "j = I_Label x"
    then show ?thesis using asm [of a] eq ok by auto
  next
    fix a x assume ij: "i = I_Assembler a" "j = I_Include x"
    then show ?thesis using asm [of a] eq ok by auto
  next
    fix b x assume ij: "i = I_Label x" "j = I_Assembler b"
    then show ?thesis using asm [of b] eq ok by auto
  next
    fix b x assume ij: "i = I_Include x" "j = I_Assembler b"
    then show ?thesis using asm [of b] eq ok by auto
  next
    fix d x assume ij: "i = I_Var_Def d" "j = I_Label x"
    then show ?thesis using var [of d] eq by auto
  next
    fix d x assume ij: "i = I_Var_Def d" "j = I_Include x"
    then show ?thesis using var [of d] eq by auto
  next
    fix d x assume ij: "i = I_Label x" "j = I_Var_Def d"
    then show ?thesis using var [of d] eq by auto
  next
    fix d x assume ij: "i = I_Include x" "j = I_Var_Def d"
    then show ?thesis using var [of d] eq by auto
  qed (use eq in auto)
qed

lemma instruction_first:
  assumes "instruction_ok i"
  shows "\<exists>t us. instruction_toks i = W t # us \<or> (\<exists>s. instruction_toks i = Nm s # us)"
proof (cases i)
  case (I_Assembler a)
  then show ?thesis using first_word [of a] assms by auto
next
  case (I_Var_Def d)
  then show ?thesis by (cases d) auto
qed auto

lemma module_toks_simps [simp]: "module_toks [] = []" "module_toks (i # m) = instruction_toks i @ module_toks m"
  by (simp_all add: module_toks_def)

lemma module_next: "list_all instruction_ok m \<Longrightarrow> instr_next (module_toks m)"
  using instruction_first by (cases m) (fastforce simp: instr_next_def)+

lemma module_unique: "list_all instruction_ok m \<Longrightarrow> list_all instruction_ok n \<Longrightarrow> module_toks m = module_toks n \<Longrightarrow> m = n"
proof (induction m arbitrary: n)
  case Nil
  then show ?case using instruction_first by (cases n) fastforce+
next
  case (Cons i m)
  have "n \<noteq> []" using Cons.prems instruction_first [of i] by auto
  then obtain j n' where n: "n = j # n'" by (cases n) auto
  have "i = j \<and> module_toks m = module_toks n'"
    using Cons.prems n by (intro instruction_unique module_next) auto
  then show ?case using Cons.IH [of n'] Cons.prems n by simp
qed

section \<open>Properties\<close>

text \<open>C4: The grammar with the declared precedences and associativities is unambiguous: two modules that the
  parser can build from the same symbols are the same.\<close>

theorem grammar_unambiguous:
  assumes "module_ok m" "module_ok n" "module_toks m = module_toks n"
  shows "m = n"
  using assms module_unique by (simp add: module_ok_def)

text \<open>The index \<open>1 - 2 * 3\<close> of a register.\<close>

theorem grammar_unambiguous_witness:
  "{n. module_ok n \<and> module_toks n =
     [W T_PUSH, Rg R01, P (CHR ''[''), (T_INT_LITERAL, Some (Ival 1)), P (CHR ''-''), (T_INT_LITERAL, Some (Ival 2)), P (CHR ''*''),
      (T_INT_LITERAL, Some (Ival 3)), P (CHR '']'')]} =
   {[I_Assembler (AI_Push (M3_Mode2 (M2_Mode1 (M1_Indexed R01 (Index
          (IE_Sub (IE_Const (IC_Int 1)) (IE_Mul (IE_Const (IC_Int 2)) (IE_Const (IC_Int 3)))))))))]}"
  by (auto intro!: grammar_unambiguous simp: module_ok_def)

end
