(* ===== verification/Scanner_Facts.thy ===== *)
theory Scanner_Facts
  imports Scanner Show_Num
begin

text \<open>
  What the scanner makes of words, numbers and string literals at any place of an input.
\<close>

section \<open>One round\<close>

text \<open>The scanner in front of a text, in a file with a position.\<close>

definition ready :: "scanner \<Rightarrow> string \<Rightarrow> input_file \<Rightarrow> input_file list \<Rightarrow> bool" where
  "ready sc s f fs \<longleftrightarrow> sc_input sc = Inr s \<and> stack_rep (sc_files sc) (f # fs)"

definition same_data :: "scanner \<Rightarrow> scanner \<Rightarrow> bool" where
  "same_data sc sc' \<longleftrightarrow> sc_cond sc' = sc_cond sc \<and> sc_strbuf sc' = sc_strbuf sc \<and> sc_yylval sc' = sc_yylval sc \<and>
     sc_errors sc' = sc_errors sc"

lemma update_numbers_fields:
  "update_numbers t st = Inr st' \<Longrightarrow> st_current st' = st_current st \<and> st_buffers st' = st_buffers st"
  by (auto simp: update_numbers_def Let_def elim!: rbindE)

lemma scan_round_rule:
  assumes r: "ready sc s f fs" "s \<noteq> []" and p: "pick_rule (rules_of (sc_cond sc)) s = Some (n, a)"
    and g: "advance_pos (take n s) f = Some g"
  shows "\<exists>sc1. ready sc1 (drop n s) g fs \<and> same_data sc sc1 \<and> scan_round strtod sc =
    rbind (rule_action strtod a (take n s) sc1) (\<lambda>(t, sc). Inr (case t of None \<Rightarrow> None | Some t \<Rightarrow> Some (Some t), sc))"
proof -
  obtain files where files: "update_numbers (take n s) (sc_files sc) = Inr files" "stack_rep files (g # fs)"
    using update_numbers_rep [OF _ g] r(1) by (auto simp: ready_def)
  note fld = update_numbers_fields [OF files(1)]
  obtain k where k: "st_current (sc_files sc) = Some k" "k < length (st_buffers (sc_files sc))"
    "s = drop (sc_used sc k) (st_buffers (sc_files sc) ! k)"
    using r(1) by (auto simp: ready_def sc_input_def split: option.splits if_splits)
  let ?sc = "sc_consume n (sc\<lparr>sc_files := files\<rparr>)"
  have "ready ?sc (drop n s) g fs"
    using files(2) fld k by (simp add: ready_def sc_input_def sc_consume_def add.commute)
  moreover have "same_data sc ?sc" by (simp add: same_data_def sc_consume_def split: option.splits)
  moreover have "scan_round strtod sc =
      rbind (rule_action strtod a (take n s) ?sc) (\<lambda>(t, sc). Inr (case t of None \<Rightarrow> None | Some t \<Rightarrow> Some (Some t), sc))"
    using r p files(1) by (simp add: ready_def scan_round_def scan_text_def)
  ultimately show ?thesis by blast
qed

lemma ready_update [simp]:
  "ready (sc\<lparr>sc_cond := c\<rparr>) s f fs = ready sc s f fs" "ready (sc\<lparr>sc_strbuf := b\<rparr>) s f fs = ready sc s f fs"
  "ready (sc\<lparr>sc_yylval := v\<rparr>) s f fs = ready sc s f fs"
  by (simp_all add: ready_def sc_input_def cong: option.case_cong if_cong)

lemma yylex_token: "scan_round strtod sc = Inr (Some t, sc') \<Longrightarrow> yylex strtod sc = Some (Inr (t, sc'))"
  by (subst yylex.simps) simp

lemma yylex_go: "scan_round strtod sc = Inr (None, sc') \<Longrightarrow> yylex strtod sc = yylex strtod sc'"
  by (subst yylex.simps) simp

lemma yylex_error: "scan_round strtod sc = Inl e \<Longrightarrow> yylex strtod sc = Some (Inl e)"
  by (subst yylex.simps) simp

section \<open>The rules that can match\<close>

lemma prefix_match_Lit: "prefix_match (Lit u) s m \<longleftrightarrow> m = length u \<and> m \<le> length s \<and> take m s = u"
  by (auto simp: prefix_match_def)

lemma prefix_match_Chr: "prefix_match (Chr c) s m \<longleftrightarrow> m = 1 \<and> s \<noteq> [] \<and> hd s = c"
  by (cases s) (auto simp: prefix_match_def take_Cons' split: if_splits)

lemma reserved_chars: "(u, t) \<in> set reserved_words \<Longrightarrow> u \<noteq> [] \<and> word_start (hd u) \<and> (\<forall>c \<in> set u. word_char c)"
proof -
  have "list_all (\<lambda>(u, t). u \<noteq> [] \<and> word_start (hd u) \<and> list_all word_char u) reserved_words" by code_simp
  then show "(u, t) \<in> set reserved_words \<Longrightarrow> ?thesis" by (auto simp: list_all_iff)
qed

lemma word_start_char: "word_start c \<Longrightarrow> word_char c"
  by (auto simp: word_start_def word_char_def)

lemmas number_patterns = int_pattern_def uint_pattern_def float_pattern_def Plus1_def Opt_def Chr_def

lemma word_start_not:
  assumes "word_start c"
  shows "c \<notin> set marks" "\<not> starts int_pattern c" "\<not> starts uint_pattern c" "\<not> starts float_pattern c"
    "\<not> isspace c" "c \<noteq> DQ" "c \<noteq> SQ" "c \<noteq> CHR ''/''"
  using assms by (auto simp: word_start_def islower_def isdigit_def isspace_def marks_def number_patterns)

lemma number_not_nullable: "\<not> nullable int_pattern" "\<not> nullable uint_pattern" "\<not> nullable float_pattern"
  by (simp_all add: number_patterns)

lemma run_bound:
  assumes "m \<le> length (w @ rest)" "\<forall>c \<in> set (drop k (take m (w @ rest))). P c" "rest = [] \<or> \<not> P (hd rest)" "k \<le> length w"
  shows "m \<le> length w"
proof (rule ccontr)
  assume "\<not> m \<le> length w"
  then obtain d ds where rest: "rest = d # ds" using assms(1) by (cases rest) auto
  have "drop k (take m (w @ rest)) ! (length w - k) = d"
    using \<open>\<not> m \<le> length w\<close> assms(1,4) by (simp add: rest nth_append)
  moreover have "length w - k < length (drop k (take m (w @ rest)))"
    using \<open>\<not> m \<le> length w\<close> assms(1,4) by (auto simp: rest min_def)
  ultimately have "P d" using assms(2) nth_mem by blast
  with assms(3) rest show False by simp
qed

section \<open>Words\<close>

lemma map_of_split: "map_of xs k = Some v \<Longrightarrow> \<exists>ys zs. xs = ys @ (k, v) # zs \<and> k \<notin> fst ` set ys"
proof (induction xs)
  case (Cons x xs)
  show ?case
  proof (cases "fst x = k")
    case True
    then show ?thesis using Cons.prems by (intro exI [of _ "[]"] exI [of _ xs]) (auto simp: prod_eq_iff split: if_splits)
  next
    case False
    then obtain ys zs where "xs = ys @ (k, v) # zs" "k \<notin> fst ` set ys" using Cons by (auto split: if_splits)
    then show ?thesis using False by (intro exI [of _ "x # ys"] exI [of _ zs]) auto
  qed
qed simp

lemma matches_name: "matches name_pattern u \<Longrightarrow> \<forall>c \<in> set u. word_char c"
  by (auto simp: name_pattern_def matches_Seq word_start_char)

lemma pick_word:
  assumes w: "w \<noteq> []" "word_start (hd w)" "\<forall>c \<in> set w. word_char c" and rest: "rest = [] \<or> \<not> word_char (hd rest)"
  shows "pick_rule initial_rules (w @ rest) =
    Some (length w, case map_of reserved_words w of Some t \<Rightarrow> Return t | None \<Rightarrow> Name)"
proof -
  let ?s = "w @ rest"
  let ?R = "map (\<lambda>(w, t). (Lit w, Return t)) :: (string \<times> token) list \<Rightarrow> (pattern \<times> lex_action) list"
  let ?O = "[(Chr DQ, Open_String DQUOTE), (Chr SQ, Open_String SQUOTE), (Lit ''//'', Begin LCOMMENT),
      (Lit ''/*'', Begin BCOMMENT), (Plus1 (Cls isspace), Skip), (Any, Invalid)]"
  let ?M = "map (\<lambda>c. (Chr c, Return (T_char c))) marks"
  obtain c cs where c: "w = c # cs" "word_start c" using w by (cases w) auto
  note n = word_start_not [OF c(2)]
  have word: "m \<le> length w \<and> (m = length w \<longrightarrow> u = w)" if "(u, t) \<in> set reserved_words" "prefix_match (Lit u) ?s m" for u t m
  proof -
    have u: "take m ?s = u" "m \<le> length ?s" using that(2) by (auto simp: prefix_match_Lit)
    have "m \<le> length w"
      by (rule run_bound [of m w rest 0 word_char]) (use u reserved_chars [OF that(1)] rest in auto)
    moreover have "u = w" if "m = length w" using u(1) that by (metis append_eq_conv_conj)
    ultimately show ?thesis by blast
  qed
  have mark: "\<not> prefix_match (Chr d) ?s m" if "d \<in> set marks" for d m using that n(1) c by (auto simp: prefix_match_Chr)
  have num: "\<not> prefix_match p ?s m" if "p = int_pattern \<or> p = uint_pattern \<or> p = float_pattern" for p m
    using prefix_match_starts [of p c "cs @ rest" m] n(2-4) number_not_nullable that c by auto
  have name: "m \<le> length w" if "prefix_match name_pattern ?s m" for m
  proof (rule run_bound [of m w rest 0 word_char])
    show "\<forall>c \<in> set (drop 0 (take m ?s)). word_char c"
      using that matches_name [of "take m ?s"] by (simp add: prefix_match_def)
  qed (use that rest in \<open>auto simp: prefix_match_def\<close>)
  have others: "m \<le> length w"
    if "(q, b) \<in> set ?O" "prefix_match q ?s m" for q b m
  proof -
    have "m \<le> 1 \<or> False"
      using that c n(5-8) by (cases m) (auto simp: prefix_match_Chr prefix_match_Lit, auto simp: prefix_match_def)
    then show ?thesis using w(1) by (cases w) auto
  qed
  show ?thesis
  proof (cases "map_of reserved_words w")
    case (Some t)
    then obtain ks1 ks2 where k: "reserved_words = ks1 @ (w, t) # ks2" "w \<notin> fst ` set ks1"
      using map_of_split by metis
    have "pick_rule initial_rules ?s = Some (length w, Return t)"
    proof (rule pick_ruleI [of _ "?R ks1" "Lit w" "Return t"])
      show "initial_rules = ?R ks1 @ (Lit w, Return t) # (?R ks2 @ ?M @ drop (length reserved_words + length marks) initial_rules)"
        by (simp add: initial_rules_def k(1))
      show "m < length w" if q: "(q, b) \<in> set (?R ks1)" "prefix_match q ?s m" for q b m
      proof -
        obtain u v where u: "(u, v) \<in> set ks1" "q = Lit u" using q(1) by auto
        then have "u \<noteq> w" using k(2) by force
        moreover have "(u, v) \<in> set reserved_words" using u(1) by (simp add: k(1))
        ultimately show ?thesis using word [of u v m] u q(2) by auto
      qed
      show "m \<le> length w" if q: "(q, b) \<in> set (?R ks2 @ ?M @ drop (length reserved_words + length marks) initial_rules)"
        "prefix_match q ?s m" for q b m
      proof -
        consider u v where "(u, v) \<in> set ks2" "q = Lit u" | d where "d \<in> set marks" "q = Chr d" |
          "(q, b) \<in> set (drop (length reserved_words + length marks) initial_rules)" using q(1) by auto
        then show ?thesis
        proof cases
          case 1
          then have "(u, v) \<in> set reserved_words" by (simp add: k(1))
          then show ?thesis using word [of u v m] 1(2) q(2) by blast
        next
          case 2
          then show ?thesis using mark q(2) by blast
        next
          case 3
          then consider "q = int_pattern \<or> q = uint_pattern \<or> q = float_pattern" | "q = name_pattern" |
            "(q, b) \<in> set ?O" by (auto simp: initial_rules_def)
          then show ?thesis by cases (use num name others q(2) in blast)+
        qed
      qed
    qed (auto simp: prefix_match_Lit)
    then show ?thesis using Some by simp
  next
    case None
    have nw: "(u, v) \<in> set reserved_words \<Longrightarrow> u \<noteq> w" for u v using None
      by (force simp: map_of_eq_None_iff)
    have "pick_rule initial_rules ?s = Some (length w, Name)"
    proof (rule pick_ruleI [of _ "?R reserved_words @ ?M @
        [(int_pattern, Int_Literal), (uint_pattern, Uint_Literal), (float_pattern, Float_Literal)]" name_pattern])
      show "m < length w" if q: "(q, b) \<in> set (?R reserved_words @ ?M @
        [(int_pattern, Int_Literal), (uint_pattern, Uint_Literal), (float_pattern, Float_Literal)])" "prefix_match q ?s m" for q b m
      proof -
        consider u v where "(u, v) \<in> set reserved_words" "q = Lit u" | d where "d \<in> set marks" "q = Chr d" |
          "q = int_pattern \<or> q = uint_pattern \<or> q = float_pattern" using q(1) by auto
        then show ?thesis
        proof cases
          case 1
          then show ?thesis using word [of u v m] nw [of u v] q(2) by auto
        qed (use mark num q(2) in blast)+
      qed
      have "matches name_pattern ([c] @ cs)" unfolding name_pattern_def using w c by (intro m_Seq) auto
      then show "prefix_match name_pattern ?s (length w)" by (simp add: prefix_match_def c(1))
      show "initial_rules = (?R reserved_words @ ?M @
        [(int_pattern, Int_Literal), (uint_pattern, Uint_Literal), (float_pattern, Float_Literal)]) @ (name_pattern, Name) # ?O"
        by (simp add: initial_rules_def)
      show "m \<le> length w" if "(q, b) \<in> set ?O" "prefix_match q ?s m" for q b m using others that by blast
    qed (use name in blast)
    then show ?thesis using None by simp
  qed
qed

section \<open>Numbers\<close>

lemma show_nat_digits: "show_nat n \<noteq> [] \<and> (\<forall>c \<in> set (show_nat n). isdigit c) \<and> (0 < n \<longrightarrow> hd (show_nat n) \<noteq> CHR ''0'')"
proof (induction n rule: show_nat.induct)
  case (1 n)
  have d: "isdigit (char_of (48 + k))" "code (char_of (48 + k)) = 48 + k" if "k < 10" for k :: nat
    using that by (simp_all add: isdigit_def)
  have "hd (show_nat (n div 10)) \<noteq> CHR ''0''" if "\<not> n < 10" using 1 that by simp
  moreover have "char_of (48 + n) \<noteq> CHR ''0''" if "n < 10" "0 < n"
  proof
    assume "char_of (48 + n) = CHR ''0''"
    then have "48 + n = code (CHR ''0'')" using d(2) [OF that(1)] by simp
    then show False using that by simp
  qed
  ultimately show ?case using 1 d(1) [of n] d(1) [of "n mod 10"] by (subst (1 2 3) show_nat.simps) auto
qed

lemma digits_val_append:
  "\<forall>c \<in> set xs. isdigit c \<Longrightarrow> digits_val 10 acc (xs @ ys) = digits_val 10 (digits_val 10 acc xs) ys"
  by (induction xs arbitrary: acc) (auto simp: digit_val_def isdigit_def)

lemma digits_val_show: "digits_val 10 0 (show_nat n) = n"
proof (induction n rule: show_nat.induct)
  case (1 n)
  have d: "digit_val (char_of (48 + k)) = Some k" if "k < 10" for k :: nat
    using that by (simp add: digit_val_def isdigit_def)
  show ?case
  proof (cases "n < 10")
    case True
    then show ?thesis using d [of n] by (subst show_nat.simps) simp
  next
    case False
    then have "digits_val 10 0 (show_nat n) = digits_val 10 (n div 10) [char_of (48 + n mod 10)]"
      using 1 show_nat_digits [of "n div 10"] by (subst show_nat.simps) (simp add: digits_val_append)
    then show ?thesis using d [of "n mod 10"] by simp
  qed
qed

text \<open>A decimal number is an optional minus and digits.\<close>

definition sign_of :: "int \<Rightarrow> string" where
  "sign_of i = (if i < 0 then ''-'' else [])"

lemma show_int_sign: "show_int i = sign_of i @ show_nat (nat \<bar>i\<bar>)"
  by (simp add: show_int_def sign_of_def)

lemma strtol_show_int:
  assumes "INT_MIN \<le> i" "i \<le> INT_MAX"
  shows "c_strtol 10 (show_int i) = i"
proof -
  obtain c cs where c: "show_nat (nat \<bar>i\<bar>) = c # cs" "isdigit c"
    using show_nat_digits [of "nat \<bar>i\<bar>"] by (cases "show_nat (nat \<bar>i\<bar>)") auto
  have skip: "skip_0x 10 u = u" for u by (cases "(10::nat, u)" rule: skip_0x.cases) auto
  have "\<not> isspace c" "c \<noteq> CHR ''-''" "c \<noteq> CHR ''+''" using c(2) by (auto simp: isdigit_def isspace_def)
  moreover have "\<not> isspace (CHR ''-'')" by (simp add: isspace_def)
  moreover have "digits_val 10 0 (c # cs) = nat \<bar>i\<bar>" using digits_val_show c(1) by metis
  ultimately show ?thesis
    using assms unfolding show_int_sign c(1)
    by (auto simp: c_strtol_def sign_of_def skip clamp_long_def Let_def simp del: digits_val.simps)
qed

lemma digits_then:
  assumes "n @ d # r = take m (w @ rest)" "\<forall>c \<in> set n. isdigit c" "\<forall>c \<in> set w. isdigit c" "\<not> isdigit d"
    "rest = [] \<or> \<not> isdigit (hd rest)"
  shows "rest \<noteq> [] \<and> hd rest = d"
proof -
  have "n @ d # r @ drop m (w @ rest) = w @ rest" using assms(1) by (metis append_Cons append_assoc append_take_drop_id)
  then obtain us where "n = w @ us \<and> us @ d # r @ drop m (w @ rest) = rest \<or> n @ us = w \<and> d # r @ drop m (w @ rest) = us @ rest"
    unfolding append_eq_append_conv2 by auto
  then show ?thesis
  proof
    assume u: "n = w @ us \<and> us @ d # r @ drop m (w @ rest) = rest"
    have "us = []"
    proof (rule ccontr)
      assume "us \<noteq> []"
      moreover from this have "hd rest = hd us" "rest \<noteq> []" using u by (metis hd_append2, auto)
      moreover have "isdigit (hd us)" using \<open>us \<noteq> []\<close> u assms(2) by simp
      ultimately show False using assms(5) by simp
    qed
    then have "rest = d # r @ drop m (w @ rest)" using u by simp
    then show ?thesis by (metis list.sel(1) list.distinct(1))
  next
    assume u: "n @ us = w \<and> d # r @ drop m (w @ rest) = us @ rest"
    then have "us = []" using assms(3,4) by (cases us) auto
    then show ?thesis using u by (cases rest) auto
  qed
qed

text \<open>What the number patterns share: a sign, digits, and for the last two a character behind them.\<close>

lemma matches_signed:
  shows "matches int_pattern u \<Longrightarrow> \<exists>s n. u = s @ n \<and> (s = [] \<or> s = ''-'') \<and> n \<noteq> [] \<and> (\<forall>c \<in> set n. isdigit c)"
    and "matches uint_pattern u \<Longrightarrow> \<exists>s n d r. u = s @ n @ d # r \<and> (s = [] \<or> s = ''-'') \<and> n \<noteq> [] \<and> (\<forall>c \<in> set n. isdigit c) \<and>
      (d = CHR ''x'' \<or> d = CHR ''X'')"
    and "matches float_pattern u \<Longrightarrow> \<exists>s n d r. u = s @ n @ d # r \<and> (s = [] \<or> s = ''-'') \<and> n \<noteq> [] \<and>
      (\<forall>c \<in> set n. isdigit c) \<and> d = CHR ''.''"
proof -
  have z: "isdigit (CHR ''0'')" by (simp add: isdigit_def)
  show "\<exists>s n. u = s @ n \<and> (s = [] \<or> s = ''-'') \<and> n \<noteq> [] \<and> (\<forall>c \<in> set n. isdigit c)" if int: "matches int_pattern u"
  proof -
    consider "u = ''0''" | s n where "u = s @ n" "matches (Opt (Chr (CHR ''-''))) s" "matches (Seq Digit19 (Rep Digit)) n"
      using int by (auto simp: int_pattern_def matches_Seq [of "Opt p" for p])
    then show ?thesis
    proof cases
      case 1
      then show ?thesis using z by (intro exI [of _ "[]"] exI [of _ u]) auto
    next
      case (2 s n)
      then show ?thesis by (intro exI [of _ s] exI [of _ n]) (auto simp: matches_Seq)
    qed
  qed
  show "\<exists>s n d r. u = s @ n @ d # r \<and> (s = [] \<or> s = ''-'') \<and> n \<noteq> [] \<and> (\<forall>c \<in> set n. isdigit c) \<and> (d = CHR ''x'' \<or> d = CHR ''X'')"
    if uint: "matches uint_pattern u"
  proof -
    obtain d r where "u = [] @ ''0'' @ d # r" "d = CHR ''x'' \<or> d = CHR ''X''"
      using uint by (auto simp: uint_pattern_def matches_Seq)
    then show ?thesis using z by (intro exI [of _ "[]"] exI [of _ "''0''"] exI [of _ d] exI [of _ r]) auto
  qed
  show "\<exists>s n d r. u = s @ n @ d # r \<and> (s = [] \<or> s = ''-'') \<and> n \<noteq> [] \<and> (\<forall>c \<in> set n. isdigit c) \<and> d = CHR ''.''"
    if flt: "matches float_pattern u"
  proof -
    obtain s n r where "u = s @ n @ CHR ''.'' # r" "matches (Opt (Chr (CHR ''-''))) s"
      "matches (Alt (Chr (CHR ''0'')) (Seq Digit19 (Rep Digit))) n"
      using flt unfolding float_pattern_def by (auto simp only: matches_Seq [of _ "Seq _ _"] matches_Chr append_Cons append_Nil)
    then show ?thesis using z by (intro exI [of _ s] exI [of _ n] exI [of _ "CHR ''.''"] exI [of _ r]) (auto simp: matches_Seq)
  qed
qed

definition ends_number :: "string \<Rightarrow> bool" where
  "ends_number rest \<longleftrightarrow> rest = [] \<or> \<not> isdigit (hd rest) \<and> hd rest \<notin> {CHR ''.'', CHR ''x'', CHR ''X''}"

lemma signed_prefix:
  assumes "s @ n @ d = take m (sign_of i @ w @ rest)" "s = [] \<or> s = ''-''" "n \<noteq> []" "\<forall>c \<in> set n. isdigit c"
    "w \<noteq> []" "\<forall>c \<in> set w. isdigit c"
  shows "s = sign_of i \<and> n @ d = take (m - length s) (w @ rest) \<and> length s \<le> m"
proof -
  have m: "\<not> isdigit (CHR ''-'')" by (simp add: isdigit_def)
  show ?thesis
  proof (cases "i < 0")
    case True
    then have "m \<noteq> 0" using assms(1,3) by (cases m) auto
    then have "hd (s @ n @ d) = CHR ''-''" using True assms(1) by (simp add: sign_of_def take_Cons')
    then have "s \<noteq> []" using assms(3,4) m by (cases n) auto
    then show ?thesis using assms(1,2) True \<open>m \<noteq> 0\<close> by (auto simp: sign_of_def take_Cons')
  next
    case False
    then have "isdigit (hd (s @ n @ d))" using assms(1,3,5,6) by (cases w; cases m) (auto simp: sign_of_def)
    then have "s = []" using assms(2) m by auto
    then show ?thesis using assms(1) False by (simp add: sign_of_def)
  qed
qed

lemma pick_number:
  assumes rest: "ends_number rest"
  shows "pick_rule initial_rules (show_int i @ rest) = Some (length (show_int i), Int_Literal)"
proof -
  let ?R = "map (\<lambda>(w, t). (Lit w, Return t)) reserved_words :: (pattern \<times> lex_action) list"
  let ?M = "map (\<lambda>c. (Chr c, Return (T_char c))) marks"
  let ?O = "[(uint_pattern, Uint_Literal), (float_pattern, Float_Literal), (name_pattern, Name), (Chr DQ, Open_String DQUOTE),
      (Chr SQ, Open_String SQUOTE), (Lit ''//'', Begin LCOMMENT), (Lit ''/*'', Begin BCOMMENT), (Plus1 (Cls isspace), Skip), (Any, Invalid)]"
  let ?w = "show_nat (nat \<bar>i\<bar>)"
  let ?s = "sign_of i @ ?w @ rest"
  have w: "?w \<noteq> []" "\<forall>c \<in> set ?w. isdigit c" "i \<noteq> 0 \<Longrightarrow> hd ?w \<noteq> CHR ''0''" using show_nat_digits by auto
  obtain c cs where c: "?s = c # cs" "isdigit c \<or> c = CHR ''-'' \<and> 2 \<le> length (sign_of i @ ?w)"
    using w(1,2) by (cases ?w; cases "i < 0") (auto simp: sign_of_def)
  have nc: "\<not> word_start c" "c \<noteq> DQ" "c \<noteq> SQ" "c \<noteq> CHR ''/''" "\<not> isspace c" "isdigit c \<Longrightarrow> c \<notin> set marks"
    using c(2) by (auto simp: word_start_def islower_def isdigit_def isspace_def marks_def)
  have ne: "1 \<le> length (sign_of i @ ?w)" using w(1) by (cases ?w) auto
  have nonum: False if m: "m \<le> length ?s" "take m ?s = s @ n @ d # r" "s = [] \<or> s = ''-''" "n \<noteq> []" "\<forall>c \<in> set n. isdigit c"
    "d \<in> {CHR ''.'', CHR ''x'', CHR ''X''}" for m s n d r
  proof -
    have t: "n @ d # r = take (m - length s) (?w @ rest)"
      using signed_prefix [of s n "d # r" m i ?w rest] m w by simp
    have nd: "\<not> isdigit d" using m(6) by (auto simp: isdigit_def)
    have "rest = [] \<or> \<not> isdigit (hd rest)" using rest by (auto simp: ends_number_def)
    then have "rest \<noteq> [] \<and> hd rest = d" by (rule digits_then [OF t m(5) w(2) nd])
    then show False using rest m(6) by (auto simp: ends_number_def)
  qed
  have "pick_rule initial_rules ?s = Some (length (sign_of i @ ?w), Int_Literal)"
  proof (rule pick_ruleI [of _ "?R @ ?M" int_pattern])
    show "initial_rules = (?R @ ?M) @ (int_pattern, Int_Literal) # ?O" by (simp add: initial_rules_def)
    have "matches int_pattern (sign_of i @ ?w)"
    proof (cases "i = 0")
      case True
      moreover have "char_of (48::nat) = CHR ''0''" by code_simp
      ultimately show ?thesis by (simp add: int_pattern_def sign_of_def show_nat.simps)
    next
      case False
      obtain d ds where d: "?w = [d] @ ds" "isdigit d" "d \<noteq> CHR ''0''" "\<forall>c \<in> set ds. isdigit c"
        using w False by (cases ?w) auto
      have "matches (Seq (Opt (Chr (CHR ''-''))) (Seq Digit19 (Rep Digit))) (sign_of i @ [d] @ ds)"
        using d by (intro m_Seq) (auto simp: sign_of_def)
      then show ?thesis unfolding int_pattern_def d(1) by simp
    qed
    then show "prefix_match int_pattern ?s (length (sign_of i @ ?w))" by (simp add: prefix_match_def)
    show "m \<le> length (sign_of i @ ?w)" if im: "prefix_match int_pattern ?s m" for m
    proof -
      obtain s n where s: "take m ?s = s @ n" "s = [] \<or> s = ''-''" "n \<noteq> []" "\<forall>c \<in> set n. isdigit c"
        using im matches_signed(1) [of "take m ?s"] unfolding prefix_match_def by blast
      have "s = sign_of i" using signed_prefix [of s n "[]" m i ?w rest] s w by simp
      then have "drop (length (sign_of i)) (take m ?s) = n" using s(1) by simp
      then show ?thesis
        using run_bound [of m "sign_of i @ ?w" rest "length (sign_of i)" isdigit] im s(4) rest
        by (auto simp: prefix_match_def ends_number_def)
    qed
    show "m < length (sign_of i @ ?w)" if qo: "(q, b) \<in> set (?R @ ?M)" and qm: "prefix_match q ?s m" for q b m
    proof -
      consider u v where "(u, v) \<in> set reserved_words" "q = Lit u" | d where "d \<in> set marks" "q = Chr d" using qo by auto
      then show ?thesis
      proof cases
        case 1
        obtain e es where u: "u = e # es" "word_start e" using reserved_chars [OF 1(1)] by (cases u) auto
        then show ?thesis using qm nc(1) 1(2) unfolding c(1) by (cases m) (auto simp: prefix_match_Lit)
      next
        case 2
        then have "m = 1" "c = d" using qm unfolding c(1) by (simp_all add: prefix_match_Chr)
        then show ?thesis using 2(1) nc(6) c(2) by auto
      qed
    qed
    show "m \<le> length (sign_of i @ ?w)" if qo: "(q, b) \<in> set ?O" and qm: "prefix_match q ?s m" for q b m
    proof -
      consider "q = uint_pattern" | "q = float_pattern" | "q = name_pattern" |
        "q = Chr DQ \<or> q = Chr SQ \<or> q = Lit ''//'' \<or> q = Lit ''/*'' \<or> q = Plus1 (Cls isspace) \<or> q = Any" using qo by auto
      then show ?thesis
      proof cases
        case 1
        then show ?thesis using qm matches_signed(2) [of "take m ?s"] nonum unfolding prefix_match_def by blast
      next
        case 2
        then show ?thesis using qm matches_signed(3) [of "take m ?s"] nonum unfolding prefix_match_def by blast
      next
        case 3
        then show ?thesis using qm prefix_match_starts [of q c cs m] nc(1) unfolding c(1) by (simp add: name_pattern_def)
      next
        case 4
        then have "m \<le> 1" using qm nc(2-5) unfolding c(1)
          by (cases m) (auto simp: prefix_match_Chr prefix_match_Lit, auto simp: prefix_match_def)
        then show ?thesis using ne by linarith
      qed
    qed
  qed
  then show ?thesis by (simp add: show_int_sign)
qed

section \<open>String literals\<close>

lemma prefix_match_Nothing [simp]: "\<not> prefix_match Nothing s n" "\<not> prefix_match (Seq Nothing q) s n"
  by (auto simp: prefix_match_def matches_Seq)

lemma prefix_match_Eps [simp]: "prefix_match Eps s n \<longleftrightarrow> n = 0" "prefix_match (Seq Eps q) s n \<longleftrightarrow> prefix_match q s n"
  by (auto simp: prefix_match_def matches_Seq)

lemma prefix_match_Alt [simp]: "prefix_match (Alt p q) s n \<longleftrightarrow> prefix_match p s n \<or> prefix_match q s n"
  by (auto simp: prefix_match_def)

lemma prefix_match_Cls: "prefix_match (Cls P) s m \<longleftrightarrow> m = 1 \<and> s \<noteq> [] \<and> P (hd s)"
  by (cases s) (auto simp: prefix_match_def take_Cons' split: if_splits)

lemma prefix_match_Plus1_Cls: "prefix_match (Plus1 (Cls P)) s m \<longleftrightarrow> 0 < m \<and> m \<le> length s \<and> (\<forall>c \<in> set (take m s). P c)"
  by (cases s) (auto simp: prefix_match_def)

lemmas prefix_match_rules = prefix_match_Lit prefix_match_Chr prefix_match_Cls prefix_match_Plus1_Cls

lemma prefix_match_Seq_Chr:
  "prefix_match (Seq (Chr c) q) (d # s) m \<longleftrightarrow> d = c \<and> (\<exists>k. m = Suc k \<and> prefix_match q s k)"
  "prefix_match (Seq (Cls P) q) (d # s) m \<longleftrightarrow> P d \<and> (\<exists>k. m = Suc k \<and> prefix_match q s k)"
proof -
  show c: "prefix_match (Seq (Cls P) q) (d # s) m \<longleftrightarrow> P d \<and> (\<exists>k. m = Suc k \<and> prefix_match q s k)" for P
    by (cases m) (simp_all add: prefix_match_0 prefix_match_Suc)
  show "prefix_match (Seq (Chr c) q) (d # s) m \<longleftrightarrow> d = c \<and> (\<exists>k. m = Suc k \<and> prefix_match q s k)"
    by (simp add: Chr_def c)
qed

text \<open>The continuation of a literal on the next line.\<close>

definition continued :: "char \<Rightarrow> string \<Rightarrow> bool" where
  "continued q s \<longleftrightarrow> longest (continuation q) s \<noteq> None"

definition plain_char :: "char \<Rightarrow> bool" where
  "plain_char c \<longleftrightarrow> c \<noteq> BSL \<and> c \<noteq> NL \<and> c \<noteq> DQ"

lemma continuation_starts: "prefix_match (continuation q) (c # s) m \<Longrightarrow> c = q"
  by (auto simp: continuation_def prefix_match_Seq_Chr)

lemma pick_close:
  assumes "\<not> continued DQ (DQ # rest)"
  shows "pick_rule dquote_rules (DQ # rest) = Some (1, Close_String)"
proof (rule pick_ruleI [of _ "take 14 dquote_rules" "Chr DQ" _ "[]"])
  show "dquote_rules = take 14 dquote_rules @ (Chr DQ, Close_String) # []" by (simp add: dquote_rules_def)
  show "m < 1" if "(q, b) \<in> set (take 14 dquote_rules)" "prefix_match q (DQ # rest) m" for q b m
    using that assms by (auto simp: dquote_rules_def continued_def longest_None prefix_match_rules prefix_match_Seq_Chr take_Cons'
      simp del: longest.simps)
qed (auto simp: prefix_match_rules)

lemma pick_plain:
  assumes "t \<noteq> []" "\<forall>c \<in> set t. plain_char c" "rest \<noteq> []" "\<not> plain_char (hd rest)"
  shows "pick_rule dquote_rules (t @ rest) = Some (length t, String_Text)"
proof -
  obtain c cs where c: "t = c # cs" "plain_char c" using assms(1,2) by (cases t) auto
  let ?P = "\<lambda>c. c \<noteq> BSL \<and> c \<noteq> NL \<and> c \<noteq> DQ"
  show ?thesis
  proof (rule pick_ruleI [of _ "take 13 dquote_rules" "Plus1 (Cls ?P)" _ "[(Chr DQ, Close_String)]"])
    show "dquote_rules = take 13 dquote_rules @ (Plus1 (Cls ?P), String_Text) # [(Chr DQ, Close_String)]"
      by (simp add: dquote_rules_def)
    show "m < length t" if q: "(q, b) \<in> set (take 13 dquote_rules)" "prefix_match q (t @ rest) m" for q b m
      using q c continuation_starts [of DQ c "cs @ rest" m]
      by (auto simp: dquote_rules_def prefix_match_rules prefix_match_Seq_Chr plain_char_def take_Cons')
    show "m \<le> length t" if "prefix_match (Plus1 (Cls ?P)) (t @ rest) m" for m
      using that assms(4) by (intro run_bound [of m t rest 0 ?P]) (auto simp: prefix_match_rules plain_char_def)
    show "m \<le> length t" if "(q, b) \<in> set [(Chr DQ, Close_String)]" "prefix_match q (t @ rest) m" for q b m
      using that c by (auto simp: prefix_match_rules)
    show "prefix_match (Plus1 (Cls ?P)) (t @ rest) (length t)"
      using assms(1,2) by (cases t) (auto simp: prefix_match_rules plain_char_def)
  qed
qed

text \<open>The escapes for the characters that cannot stand for themselves.\<close>

definition esc :: "char \<Rightarrow> string" where
  "esc c = (if c = NL then [BSL, CHR ''n''] else if plain_char c then [c] else [BSL, c])"

definition esc_action :: "char \<Rightarrow> lex_action" where
  "esc_action c = (if c = BSL then Escape_Any else Escape c)"

lemma pick_escape:
  assumes "\<not> plain_char c"
  shows "pick_rule dquote_rules (esc c @ rest) = Some (2, esc_action c)"
proof -
  consider "c = NL" | "c = DQ" | "c = BSL" using assms by (auto simp: plain_char_def)
  then show ?thesis
  proof cases
    case 1
    show ?thesis
      by (rule pick_ruleI [of _ "take 1 dquote_rules" "Lit [BSL, CHR ''n'']" _ "drop 2 dquote_rules"])
        (auto simp: 1 esc_def esc_action_def dquote_rules_def prefix_match_rules prefix_match_Seq_Chr continuation_def plain_char_def take_Cons')
  next
    case 2
    show ?thesis
      by (rule pick_ruleI [of _ "take 9 dquote_rules" "Lit [BSL, DQ]" _ "drop 10 dquote_rules"])
        (auto simp: 2 esc_def esc_action_def dquote_rules_def prefix_match_rules prefix_match_Seq_Chr continuation_def plain_char_def take_Cons')
  next
    case 3
    show ?thesis
      by (rule pick_ruleI [of _ "take 10 dquote_rules" "Seq (Chr BSL) Any" _ "drop 11 dquote_rules"])
        (auto simp: 3 esc_def esc_action_def dquote_rules_def prefix_match_rules prefix_match_Seq_Chr continuation_def plain_char_def take_Cons')
  qed
qed

lemma pick_open: "pick_rule initial_rules (DQ # rest) = Some (1, Open_String DQUOTE)"
proof (rule pick_ruleI [of _ "take (length initial_rules - 6) initial_rules" "Chr DQ"])
  let ?xs = "map (\<lambda>(w, t). (Lit w, Return t)) reserved_words @ map (\<lambda>c. (Chr c, Return (T_char c))) marks @
     [(int_pattern, Int_Literal), (uint_pattern, Uint_Literal), (float_pattern, Float_Literal), (name_pattern, Name)]"
  let ?ys = "[(Chr SQ, Open_String SQUOTE), (Lit ''//'', Begin LCOMMENT), (Lit ''/*'', Begin BCOMMENT),
      (Plus1 (Cls isspace), Skip), (Any, Invalid)]"
  have eq: "initial_rules = ?xs @ (Chr DQ, Open_String DQUOTE) # ?ys" by (simp add: initial_rules_def)
  have xs: "take (length initial_rules - 6) initial_rules = ?xs" by (simp add: eq)
  show "initial_rules = take (length initial_rules - 6) initial_rules @ (Chr DQ, Open_String DQUOTE) # ?ys"
    unfolding xs by (rule eq)
  have start: "\<not> word_start DQ" "\<not> isdigit DQ" by (simp_all add: word_start_def islower_def isdigit_def)
  show "m < 1" if q: "(q, b) \<in> set (take (length initial_rules - 6) initial_rules)" "prefix_match q (DQ # rest) m" for q b m
  proof -
    consider u v where "(u, v) \<in> set reserved_words" "q = Lit u" | d where "d \<in> set marks" "q = Chr d" |
      "q \<in> {int_pattern, uint_pattern, float_pattern, name_pattern}" using q(1) unfolding xs by auto
    then show ?thesis
    proof cases
      case 1
      obtain e es where u: "u = e # es" "word_start e" using reserved_chars [OF 1(1)] by (cases u) auto
      then show ?thesis using q(2) 1(2) start(1) by (cases m) (auto simp: prefix_match_Lit)
    next
      case 2
      then show ?thesis using q(2) by (auto simp: prefix_match_Chr marks_def)
    next
      case 3
      then have "\<not> starts q DQ" "\<not> nullable q" using start by (auto simp: number_patterns name_pattern_def)
      then show ?thesis using prefix_match_starts [OF q(2)] by blast
    qed
  qed
  show "m \<le> 1" if "(q, b) \<in> set ?ys" "prefix_match q (DQ # rest) m" for q b m
    using that by (cases m) (auto simp: prefix_match_rules isspace_def)
qed (auto simp: prefix_match_rules)

text \<open>The position on a line.\<close>

definition room :: "input_file \<Rightarrow> nat \<Rightarrow> bool" where
  "room f n \<longleftrightarrow> 0 \<le> if_line f \<and> if_line f \<le> INT_MAX \<and> 0 \<le> if_column f \<and> if_column f + int n \<le> INT_MAX"

definition move_col :: "nat \<Rightarrow> input_file \<Rightarrow> input_file" where
  "move_col n f = f\<lparr>if_column := if_column f + int n\<rparr>"

lemma room_move: "room f (n + m) \<Longrightarrow> room (move_col n f) m"
  by (simp add: room_def move_col_def)

lemma move_move: "move_col m (move_col n f) = move_col (n + m) f"
  by (simp add: move_col_def)

lemma advance_line:
  assumes "room f (length t + m)" "NL \<notin> set t"
  shows "advance_pos t f = Some (move_col (length t) f)"
proof -
  have "filter (\<lambda>c. c = NL) t = []" using assms(2) by (auto simp: filter_empty_conv)
  then show ?thesis using assms(1) by (simp add: advance_pos_def room_def move_col_def)
qed

lemma append_string_cap:
  assumes "append_string s ys = Inr s'" "sb_rep s xs"
  shows "sb_cap s \<le> sb_cap s'"
proof -
  have "cap_ok (sb_cap s)" using sb_strD [OF sb_rep_str [OF assms(2)]] by simp
  have grow: "a \<le> c" if "grow_cap n a = Inr c" "cap_ok a" for n a c
    using grow_cap_ok [OF that(2), of n] grow_cap_overflow [OF that(2), of n] that(1) by (cases "n \<le> 2 ^ 30") auto
  show ?thesis using assms(1) grow [OF _ \<open>cap_ok (sb_cap s)\<close>]
    by (auto simp: append_string_def elim!: rbindE split: if_splits)
qed

text \<open>The string buffer of the scanner before a literal.\<close>

definition strbuf_cap :: "scanner \<Rightarrow> int" where
  "strbuf_cap sc = (case sc_strbuf sc of None \<Rightarrow> 8 | Some b \<Rightarrow> sb_cap b)"

definition strbuf_ok :: "scanner \<Rightarrow> bool" where
  "strbuf_ok sc \<longleftrightarrow> (\<forall>b. sc_strbuf sc = Some b \<longrightarrow> (\<exists>x. sb_str b x))"

text \<open>The scanner inside a literal.\<close>

definition inside :: "scanner \<Rightarrow> string \<Rightarrow> input_file \<Rightarrow> input_file list \<Rightarrow> string_t \<Rightarrow> bool" where
  "inside sc src f fs b \<longleftrightarrow> ready sc src f fs \<and> sc_cond sc = DQUOTE \<and> sc_strbuf sc = Some b"

lemma inside_round:
  assumes "inside sc src f fs b" "src \<noteq> []" "pick_rule dquote_rules src = Some (n, a)" "n \<le> length src"
    "room f (n + m)" "NL \<notin> set (take n src)"
  shows "\<exists>sc1. inside sc1 (drop n src) (move_col n f) fs b \<and> scan_round strtod sc =
    rbind (rule_action strtod a (take n src) sc1) (\<lambda>(t, sc). Inr (case t of None \<Rightarrow> None | Some t \<Rightarrow> Some (Some t), sc))"
proof -
  have "advance_pos (take n src) f = Some (move_col n f)" using advance_line [of f "take n src" m] assms by (simp add: min_def)
  from scan_round_rule [OF _ assms(2) _ this, of sc fs a strtod] show ?thesis
    using assms by (auto simp: inside_def same_data_def rules_of_def)
qed

lemma c_cut_nul_free [simp]: "nul_free t \<Longrightarrow> c_cut t = t"
  by (auto simp: c_cut_def nul_free_def takeWhile_eq_all_conv)

lemma inside_text:
  assumes i: "inside sc (t @ src) f fs b" and b: "sb_rep b d"
    and t: "t \<noteq> []" "\<forall>c \<in> set t. plain_char c" "src \<noteq> []" "\<not> plain_char (hd src)"
    and n: "nul_free t" "length d + length t < 2 ^ 30" "room f (length t + m)"
  shows "\<exists>sc' b'. yylex strtod sc = yylex strtod sc' \<and> inside sc' src (move_col (length t) f) fs b' \<and>
    sb_rep b' (d @ t) \<and> sb_cap b \<le> sb_cap b'"
proof -
  have nl: "NL \<notin> set t" using t(2) by (auto simp: plain_char_def)
  obtain sc1 where sc1: "inside sc1 src (move_col (length t) f) fs b" "scan_round strtod sc =
      rbind (rule_action strtod String_Text t sc1) (\<lambda>(t, sc). Inr (case t of None \<Rightarrow> None | Some t \<Rightarrow> Some (Some t), sc))"
    using inside_round [OF i _ pick_plain [OF t], of m strtod] nl n(3) t(1) by auto
  obtain b' where b': "append_string b t = Inr b'" "sb_rep b' (d @ t)" using append_string_rep [OF b n(1,2)] by blast
  have "scan_round strtod sc = Inr (None, sc1\<lparr>sc_strbuf := Some b'\<rparr>)"
    using sc1 b'(1) n(1) by (simp add: with_strbuf_def inside_def)
  moreover have "inside (sc1\<lparr>sc_strbuf := Some b'\<rparr>) src (move_col (length t) f) fs b'" using sc1(1) by (simp add: inside_def)
  ultimately show ?thesis using b'(2) append_string_cap [OF b'(1) b] yylex_go by metis
qed

lemma esc_special: "\<not> plain_char c \<Longrightarrow> length (esc c) = 2 \<and> NL \<notin> set (esc c)"
  by (auto simp: esc_def plain_char_def)

lemma inside_escape:
  assumes i: "inside sc (esc c @ src) f fs b" and c: "\<not> plain_char c" and n: "room f (2 + m)"
  shows "\<exists>sc1. inside sc1 src (move_col 2 f) fs b \<and> yylex strtod sc =
    (case append_string_char b c of Inl e \<Rightarrow> Some (Inl e) | Inr b \<Rightarrow> yylex strtod (sc1\<lparr>sc_strbuf := Some b\<rparr>))"
proof -
  note e = esc_special [OF c]
  then have "esc c \<noteq> []" by auto
  then obtain sc1 where sc1: "inside sc1 src (move_col 2 f) fs b" "scan_round strtod sc =
      rbind (rule_action strtod (esc_action c) (esc c) sc1) (\<lambda>(t, sc). Inr (case t of None \<Rightarrow> None | Some t \<Rightarrow> Some (Some t), sc))"
    using inside_round [OF i _ pick_escape [OF c], of m strtod] e n by auto
  have act: "rule_action strtod (esc_action c) (esc c) sc1 =
      rbind (with_strbuf sc1 (\<lambda>b. append_string_char b c)) (\<lambda>sc. Inr (None, sc))"
    using c by (auto simp: esc_action_def esc_def plain_char_def)
  have "scan_round strtod sc = (case append_string_char b c of Inl e \<Rightarrow> Inl e | Inr b \<Rightarrow> Inr (None, sc1\<lparr>sc_strbuf := Some b\<rparr>))"
    using sc1 unfolding act by (auto simp: with_strbuf_def inside_def split: sum.split)
  then show ?thesis using sc1(1) yylex_go yylex_error by (cases "append_string_char b c") (auto intro!: exI [of _ sc1])
qed

lemma inside_close:
  assumes i: "inside sc (DQ # rest) f fs b" and b: "sb_rep b d" and n: "room f 1" "\<not> continued DQ (DQ # rest)"
  shows "\<exists>sc' s. yylex strtod sc = Some (Inr (Some T_STRG_LITERAL, sc')) \<and> ready sc' rest (move_col 1 f) fs \<and>
    sc_cond sc' = INITIAL \<and> sc_yylval sc' = Some (Strg s) \<and> sb_rep s d \<and> sc_strbuf sc' = Some b"
proof -
  obtain sc1 where sc1: "inside sc1 rest (move_col 1 f) fs b" "scan_round strtod sc =
      rbind (rule_action strtod Close_String [DQ] sc1) (\<lambda>(t, sc). Inr (case t of None \<Rightarrow> None | Some t \<Rightarrow> Some (Some t), sc))"
    using inside_round [OF i _ pick_close [OF n(2)], of 0 strtod] n(1) by auto
  obtain s where s: "copy_string b = Inr s" "sb_rep s d" using copy_string_rep [OF sb_rep_str [OF b]] by blast
  have "scan_round strtod sc = Inr (Some (Some T_STRG_LITERAL), sc1\<lparr>sc_yylval := Some (Strg s), sc_cond := INITIAL\<rparr>)"
    using sc1 s(1) by (simp add: inside_def)
  from yylex_token [OF this] show ?thesis using sc1(1) s(2) by (auto simp: inside_def)
qed

definition quoted :: "string \<Rightarrow> string" where
  "quoted s = concat (map esc s)"

lemma quoted_simps [simp]: "quoted [] = []" "quoted (c # s) = esc c @ quoted s" "quoted (s @ t) = quoted s @ quoted t"
  by (simp_all add: quoted_def)

lemma quoted_plain: "\<forall>c \<in> set s. plain_char c \<Longrightarrow> quoted s = s"
  by (induction s) (auto simp: esc_def plain_char_def)

lemma inside_body:
  assumes "inside sc (quoted s @ DQ # rest) f fs b" "sb_rep b d" "room f (length (quoted s) + 1)" "\<not> continued DQ (DQ # rest)"
    "nul_free s" "length d + length s < 2 ^ 30"
    "(\<forall>c \<in> set s. plain_char c) \<or> int (length d + length s) < sb_cap b"
  shows "\<exists>sc' t. yylex strtod sc = Some (Inr (Some T_STRG_LITERAL, sc')) \<and>
    ready sc' rest (move_col (length (quoted s) + 1) f) fs \<and>
    sc_cond sc' = INITIAL \<and> sc_yylval sc' = Some (Strg t) \<and> sb_rep t (d @ s) \<and> strbuf_ok sc'"
  using assms
proof (induction "length s" arbitrary: s sc f b d rule: less_induct)
  case less
  note IH = less.hyps
  show ?case
  proof (cases s)
    case Nil
    then obtain sc' t where c: "yylex strtod sc = Some (Inr (Some T_STRG_LITERAL, sc'))" "ready sc' rest (move_col 1 f) fs"
      "sc_cond sc' = INITIAL" "sc_yylval sc' = Some (Strg t)" "sb_rep t d" "sc_strbuf sc' = Some b"
      using inside_close [OF _ less.prems(2) _ less.prems(4), of sc f fs strtod] less.prems by auto
    have "strbuf_ok sc'" using c(6) sb_rep_str [OF less.prems(2)] by (auto simp: strbuf_ok_def)
    then show ?thesis using Nil c by auto
  next
    case (Cons c cs)
    show ?thesis
    proof (cases "plain_char c")
      case True
      define t u where "t = takeWhile plain_char s" "u = dropWhile plain_char s"
      have s: "s = t @ u" "t \<noteq> []" "\<forall>c \<in> set t. plain_char c" "length u < length s"
        using Cons True by (auto simp: t_u_def dest: set_takeWhileD intro: length_dropWhile_le [THEN le_less_trans])
      have u: "u = [] \<or> \<not> plain_char (hd u)" using hd_dropWhile [of plain_char s] by (auto simp: t_u_def)
      have q: "quoted s = t @ quoted u" using quoted_plain [OF s(3)] by (simp add: s(1))
      have h: "\<not> plain_char (hd (quoted u @ DQ # rest))"
        using u by (cases u) (auto simp: plain_char_def esc_def)
      have nt: "nul_free t" "nul_free u" using less.prems(5) by (auto simp: s(1) nul_free_def)
      have "inside sc (t @ quoted u @ DQ # rest) f fs b" using less.prems(1) q by simp
      from inside_text [OF this less.prems(2) s(2,3) _ h nt(1), of "length (quoted u) + 1" strtod]
      obtain sc' b' where sc': "yylex strtod sc = yylex strtod sc'" "inside sc' (quoted u @ DQ # rest) (move_col (length t) f) fs b'"
        "sb_rep b' (d @ t)" "sb_cap b \<le> sb_cap b'" using less.prems(3,6) q s(1) by auto
      have "room (move_col (length t) f) (length (quoted u) + 1)" using less.prems(3) q by (simp add: room_move add.assoc)
      from IH [OF s(4) sc'(2,3) this less.prems(4) nt(2)] show ?thesis
        using less.prems(6,7) sc'(1,4) q s(1) by (auto simp: move_move add.assoc)
    next
      case False
      have e: "length (esc c) = 2" using esc_special [OF False] by simp
      have lt: "int (length d + length s) < sb_cap b" using less.prems(7) False Cons by auto
      obtain b' where b': "append_string_char b c = Inr b'" "sb_rep b' (d @ [c])" "sb_cap b' = sb_cap b"
        using append_string_char_rep [OF less.prems(2), of c] less.prems(5) lt Cons by (auto simp: nul_free_def)
      have "inside sc (esc c @ quoted cs @ DQ # rest) f fs b" using less.prems(1) Cons by simp
      from inside_escape [OF this False, of "length (quoted cs) + 1" strtod]
      obtain sc1 where sc1: "inside sc1 (quoted cs @ DQ # rest) (move_col 2 f) fs b"
        "yylex strtod sc = yylex strtod (sc1\<lparr>sc_strbuf := Some b'\<rparr>)"
        using less.prems(3) Cons e b'(1) by auto
      have "inside (sc1\<lparr>sc_strbuf := Some b'\<rparr>) (quoted cs @ DQ # rest) (move_col 2 f) fs b'" using sc1(1) by (simp add: inside_def)
      moreover have "room (move_col 2 f) (length (quoted cs) + 1)" using less.prems(3) Cons e by (simp add: room_move)
      moreover have "nul_free cs" using less.prems(5) Cons by (simp add: nul_free_def)
      ultimately show ?thesis
        using IH [of cs "sc1\<lparr>sc_strbuf := Some b'\<rparr>" "move_col 2 f" b' "d @ [c]"] less.prems(4,6) b' lt sc1(2) Cons e
        by (auto simp: move_move)
    qed
  qed
qed

lemma inside_overrun:
  assumes "inside sc (quoted s @ src) f fs b" "sb_rep b d" "room f (length (quoted s))" "\<forall>c \<in> set s. \<not> plain_char c"
    "sb_cap b \<le> int (length d + length s)"
  shows "yylex strtod sc = Some (Inl Out_Of_Bounds)"
  using assms
proof (induction s arbitrary: sc f b d)
  case Nil
  then show ?case using sb_strD(4) [OF sb_rep_str] by fastforce
next
  case (Cons c s)
  have c: "\<not> plain_char c" "c \<noteq> NUL" using Cons.prems(4) by (auto simp: plain_char_def)
  have "inside sc (esc c @ quoted s @ src) f fs b" using Cons.prems(1) by simp
  from inside_escape [OF this c(1), of "length (quoted s)" strtod] Cons.prems(3) esc_special [OF c(1)]
  obtain sc1 where sc1: "inside sc1 (quoted s @ src) (move_col 2 f) fs b" "yylex strtod sc =
      (case append_string_char b c of Inl e \<Rightarrow> Some (Inl e) | Inr b \<Rightarrow> yylex strtod (sc1\<lparr>sc_strbuf := Some b\<rparr>))"
    by auto
  consider "int (length d) + 1 = sb_cap b" | "int (length d) + 1 < sb_cap b"
    using sb_strD(4) [OF sb_rep_str [OF Cons.prems(2)]] by fastforce
  then show ?case
  proof cases
    case 1
    then show ?thesis using append_string_char_last [OF Cons.prems(2)] sc1(2) by simp
  next
    case 2
    obtain b' where b': "append_string_char b c = Inr b'" "sb_rep b' (d @ [c])" "sb_cap b' = sb_cap b"
      using append_string_char_rep [OF Cons.prems(2) c(2) 2] by blast
    have "inside (sc1\<lparr>sc_strbuf := Some b'\<rparr>) (quoted s @ src) (move_col 2 f) fs b'" using sc1(1) by (simp add: inside_def)
    from Cons.IH [OF this b'(2)] show ?thesis
      using Cons.prems(3-5) esc_special [OF c(1)] sc1(2) b' by (simp add: room_move)
  qed
qed

lemma open_literal:
  assumes r: "ready sc (DQ # src) f fs" "sc_cond sc = INITIAL" "strbuf_ok sc" and n: "room f (1 + m)"
  shows "\<exists>sc1 b. yylex strtod sc = yylex strtod sc1 \<and> inside sc1 src (move_col 1 f) fs b \<and> sb_rep b [] \<and> sb_cap b = strbuf_cap sc"
proof -
  have "advance_pos (take 1 (DQ # src)) f = Some (move_col 1 f)" using advance_line [of f "[DQ]" m] n by simp
  from scan_round_rule [OF r(1) _ _ this, of "Open_String DQUOTE" strtod] r(2) pick_open
  obtain sc1 where sc1: "ready sc1 src (move_col 1 f) fs" "same_data sc sc1" "scan_round strtod sc =
      rbind (rule_action strtod (Open_String DQUOTE) [DQ] sc1) (\<lambda>(t, sc). Inr (case t of None \<Rightarrow> None | Some t \<Rightarrow> Some (Some t), sc))"
    by (auto simp: rules_of_def)
  obtain b where b: "(case sc_strbuf sc1 of None \<Rightarrow> create_string None | Some b \<Rightarrow> clear_string b) = Inr b" "sb_rep b []"
    "sb_cap b = strbuf_cap sc"
  proof (cases "sc_strbuf sc")
    case None
    then show thesis using that create_string_None sc1(2) by (auto simp: same_data_def strbuf_cap_def create_string_def)
  next
    case (Some b0)
    then obtain x where "sb_str b0 x" using r(3) by (auto simp: strbuf_ok_def)
    from clear_string_rep [OF this] obtain b1 where b1: "clear_string b0 = Inr b1" "sb_rep b1 []" by blast
    then have "sb_cap b1 = sb_cap b0" by (auto simp: clear_string_def elim!: rbindE)
    then show thesis using that b1 Some sc1(2) by (auto simp: same_data_def strbuf_cap_def)
  qed
  have "scan_round strtod sc = Inr (None, sc1\<lparr>sc_strbuf := Some b, sc_cond := DQUOTE\<rparr>)"
    using sc1(3) b(1) by (simp add: open_string_def)
  from yylex_go [OF this] show ?thesis using sc1(1) b(2,3)
    by (intro exI [of _ "sc1\<lparr>sc_strbuf := Some b, sc_cond := DQUOTE\<rparr>"] exI [of _ b]) (simp add: inside_def)
qed

section \<open>Properties\<close>

text \<open>A scanner in front of a text, at the first line of an open file.\<close>

definition scanner_on :: "string \<Rightarrow> scanner" where
  "scanner_on src = \<lparr>sc_cond = INITIAL, sc_strbuf = None, sc_yylval = None, sc_errors = 0,
     sc_files = stack_start\<lparr>st_top := Some 0, st_heap :=
       [Some \<lparr>fl_name = \<lparr>sb_buffer = blk_alloc 8 NUL, sb_len = 0, sb_cap = 8\<rparr>, fl_fp = Some src, fl_line = 1, fl_column = 1,
              fl_is_open = True, fl_buffer = 0, fl_next = None\<rparr>],
       st_buffers := [src], st_current := Some 0\<rparr>,
     sc_used = (\<lambda>_. 0)\<rparr>"

abbreviation first_line :: "int \<Rightarrow> input_file" where
  "first_line c \<equiv> \<lparr>if_name = [], if_buffer = 0, if_line = 1, if_column = c\<rparr>"

lemma scanner_on_ready:
  "ready (scanner_on src) src (first_line 1) []" "sc_cond (scanner_on src) = INITIAL" "strbuf_ok (scanner_on src)"
  "strbuf_cap (scanner_on src) = 8"
proof -
  have "sb_rep \<lparr>sb_buffer = blk_alloc 8 NUL, sb_len = 0, sb_cap = 8\<rparr> []"
    using create_string_None by (simp add: create_string_def)
  then have "stack_rep (sc_files (scanner_on src)) [first_line 1]"
    by (auto simp: stack_rep_def scanner_on_def node_rep_def intro!: exI [of _ "[(0, first_line 1)]"])
  then show "ready (scanner_on src) src (first_line 1) []"
    by (simp add: ready_def) (simp add: sc_input_def scanner_on_def)
qed (simp_all add: scanner_on_def strbuf_ok_def strbuf_cap_def)

lemma word_round:
  assumes "ready sc (w @ rest) f fs" "sc_cond sc = INITIAL" "room f (length w)"
    and "w \<noteq> []" "word_start (hd w)" "\<forall>c \<in> set w. word_char c" "rest = [] \<or> \<not> word_char (hd rest)" "length w < 2 ^ 30"
  shows "\<exists>sc'. ready sc' rest (move_col (length w) f) fs \<and> sc_cond sc' = INITIAL \<and> sc_strbuf sc' = sc_strbuf sc \<and>
    (case map_of reserved_words w of
       Some t \<Rightarrow> yylex strtod sc = Some (Inr (Some t, sc'))
     | None \<Rightarrow> yylex strtod sc = Some (Inr (Some T_NAME, sc')) \<and> (\<exists>s. sc_yylval sc' = Some (Strg s) \<and> sb_rep s w))"
proof -
  have chars: "NL \<notin> set w" "nul_free w" using assms(6) by (auto simp: word_char_def islower_def isdigit_def nul_free_def)
  have "advance_pos (take (length w) (w @ rest)) f = Some (move_col (length w) f)"
    using advance_line [of f w 0] assms(3) chars(1) by simp
  from scan_round_rule [OF assms(1) _ _ this, of _ strtod] assms(2,4) pick_word [OF assms(4-7)]
  obtain sc1 where sc1: "ready sc1 rest (move_col (length w) f) fs" "same_data sc sc1" "scan_round strtod sc =
      rbind (rule_action strtod (case map_of reserved_words w of Some t \<Rightarrow> Return t | None \<Rightarrow> Name) w sc1)
        (\<lambda>(t, sc). Inr (case t of None \<Rightarrow> None | Some t \<Rightarrow> Some (Some t), sc))"
    by (auto simp: rules_of_def)
  obtain s where s: "create_string (Some w) = Inr s" "sb_rep s w" using create_string_rep [OF chars(2) assms(8)] by blast
  show ?thesis
  proof (cases "map_of reserved_words w")
    case None
    have "scan_round strtod sc = Inr (Some (Some T_NAME), sc1\<lparr>sc_yylval := Some (Strg s)\<rparr>)"
      using sc1(3) None s(1) chars(2) by simp
    from yylex_token [OF this] show ?thesis
      using sc1(1,2) None s(2) assms(2) by (auto simp: same_data_def intro!: exI [of _ "sc1\<lparr>sc_yylval := Some (Strg s)\<rparr>"])
  next
    case (Some t)
    have "scan_round strtod sc = Inr (Some (Some t), sc1)" using sc1(3) Some by simp
    from yylex_token [OF this] show ?thesis
      using sc1(1,2) Some assms(2) by (auto simp: same_data_def intro!: exI [of _ sc1])
  qed
qed

text \<open>A word of lower case letters, digits and underscores, not continued by another such character,
  is scanned as its reserved token when it is one of the reserved words, and else as a NAME with the word
  as its value.\<close>

theorem word_scanned:
  assumes "ready sc (w @ rest) f fs" "sc_cond sc = INITIAL" "room f (length w)"
    and "w \<noteq> []" "word_start (hd w)" "\<forall>c \<in> set w. word_char c" "rest = [] \<or> \<not> word_char (hd rest)" "length w < 2 ^ 30"
  shows "\<exists>sc'. ready sc' rest (move_col (length w) f) fs \<and> sc_cond sc' = INITIAL \<and>
    (case map_of reserved_words w of
       Some t \<Rightarrow> yylex strtod sc = Some (Inr (Some t, sc'))
     | None \<Rightarrow> yylex strtod sc = Some (Inr (Some T_NAME, sc')) \<and> (\<exists>s. sc_yylval sc' = Some (Strg s) \<and> sb_rep s w))"
  using word_round [OF assms, of strtod] by blast

theorem word_scanned_witness:
  "\<exists>sc. yylex (\<lambda>_. 0) (scanner_on ''addi r1'') = Some (Inr (Some (T_word T_ADDI), sc)) \<and> ready sc '' r1'' (first_line 5) []"
proof -
  have w: "word_start (hd ''addi'') \<and> list_all word_char ''addi'' \<and> \<not> word_char (CHR '' '') \<and>
      map_of reserved_words ''addi'' = Some (T_word T_ADDI)" by code_simp
  show ?thesis
    using word_scanned [of "scanner_on ''addi r1''" "''addi''" "'' r1''" "first_line 1" "[]" "\<lambda>_. 0"] w
      scanner_on_ready(1,2) [of "''addi r1''"]
    by (auto simp: room_def move_col_def list_all_iff)
qed

lemma number_round:
  assumes "ready sc (show_int i @ rest) f fs" "sc_cond sc = INITIAL" "room f (length (show_int i) + m)"
    and "INT_MIN \<le> i" "i \<le> INT_MAX" "ends_number rest"
  shows "\<exists>sc'. yylex strtod sc = Some (Inr (Some T_INT_LITERAL, sc')) \<and> sc_yylval sc' = Some (Ival i) \<and>
    ready sc' rest (move_col (length (show_int i)) f) fs \<and> sc_cond sc' = INITIAL \<and> sc_strbuf sc' = sc_strbuf sc"
proof -
  have ne: "show_int i \<noteq> []" using show_nat_digits by (simp add: show_int_sign)
  have nl: "NL \<notin> set (show_int i)" using show_nat_digits [of "nat \<bar>i\<bar>"] by (auto simp: show_int_sign sign_of_def isdigit_def)
  have "advance_pos (take (length (show_int i)) (show_int i @ rest)) f = Some (move_col (length (show_int i)) f)"
    using advance_line [of f "show_int i"] assms(3) nl by simp
  from scan_round_rule [OF assms(1) _ _ this, of Int_Literal strtod] assms(2) pick_number [OF assms(6), of i] ne
  obtain sc1 where sc1: "ready sc1 rest (move_col (length (show_int i)) f) fs" "same_data sc sc1" "scan_round strtod sc =
      rbind (rule_action strtod Int_Literal (show_int i) sc1) (\<lambda>(t, sc). Inr (case t of None \<Rightarrow> None | Some t \<Rightarrow> Some (Some t), sc))"
    by (auto simp: rules_of_def)
  have "scan_round strtod sc = Inr (Some (Some T_INT_LITERAL), sc1\<lparr>sc_yylval := Some (Ival i)\<rparr>)"
    using sc1(3) strtol_show_int [OF assms(4,5)] assms(4,5) by simp
  from yylex_token [OF this] show ?thesis using sc1(1,2) assms(2) by (auto simp: same_data_def)
qed

text \<open>A decimal number in the range of int, however it continues short of a digit, a point or an x, is
  scanned as an INT_LITERAL with its value: the scanner reads back what printing the number wrote.\<close>

theorem number_scanned:
  assumes "ready sc (show_int i @ rest) f fs" "sc_cond sc = INITIAL" "room f (length (show_int i))"
    and "INT_MIN \<le> i" "i \<le> INT_MAX" "ends_number rest"
  shows "\<exists>sc'. yylex strtod sc = Some (Inr (Some T_INT_LITERAL, sc')) \<and> sc_yylval sc' = Some (Ival i) \<and>
    ready sc' rest (move_col (length (show_int i)) f) fs \<and> sc_cond sc' = INITIAL"
  using number_round [of sc i rest f fs 0 strtod] assms by auto

theorem number_scanned_witness:
  "\<exists>sc. yylex (\<lambda>_. 0) (scanner_on ''-42]'') = Some (Inr (Some T_INT_LITERAL, sc)) \<and> sc_yylval sc = Some (Ival (- 42))"
proof -
  have "show_int (- 42) = ''-42'' \<and> \<not> isdigit (CHR '']'')" by code_simp
  then show ?thesis
    using number_scanned [of "scanner_on ''-42]''" "- 42" "'']''" "first_line 1" "[]" "\<lambda>_. 0"] scanner_on_ready(1,2) [of "''-42]''"]
    by (auto simp: room_def ends_number_def)
qed

text \<open>A minus that is written without a space before a number belongs to the number: a difference
  \<open>a-b\<close> of two numbers is scanned as two literals, the second negative, with no operator between them.\<close>

theorem minus_glued:
  assumes "ready sc (show_int a @ ''-'' @ show_int b @ rest) f fs" "sc_cond sc = INITIAL"
    and "room f (length (show_int a) + length (show_int (- b)))"
    and "INT_MIN \<le> a" "a \<le> INT_MAX" "0 < b" "b \<le> INT_MAX" "ends_number rest"
  shows "\<exists>sc1 sc2. yylex strtod sc = Some (Inr (Some T_INT_LITERAL, sc1)) \<and> sc_yylval sc1 = Some (Ival a) \<and>
    yylex strtod sc1 = Some (Inr (Some T_INT_LITERAL, sc2)) \<and> sc_yylval sc2 = Some (Ival (- b)) \<and>
    (\<exists>g. ready sc2 rest g fs)"
proof -
  have b: "''-'' @ show_int b = show_int (- b)" using assms(6) by (simp add: show_int_def)
  then have r: "ready sc (show_int a @ show_int (- b) @ rest) f fs" using assms(1) by (metis append_assoc)
  have e: "ends_number (show_int (- b) @ rest)" unfolding b [symmetric] by (simp add: ends_number_def isdigit_def)
  obtain sc1 where sc1: "yylex strtod sc = Some (Inr (Some T_INT_LITERAL, sc1))" "sc_yylval sc1 = Some (Ival a)"
    "ready sc1 (show_int (- b) @ rest) (move_col (length (show_int a)) f) fs" "sc_cond sc1 = INITIAL"
    using number_round [OF r assms(2-5) e] by blast
  have "room (move_col (length (show_int a)) f) (length (show_int (- b)) + 0)" using room_move [OF assms(3)] by simp
  from number_round [OF sc1(3,4) this _ _ assms(8)] show ?thesis using sc1(1,2) assms(6,7) by fastforce
qed

theorem minus_glued_witness:
  "\<exists>sc1 sc2. yylex (\<lambda>_. 0) (scanner_on ''3-1]'') = Some (Inr (Some T_INT_LITERAL, sc1)) \<and> sc_yylval sc1 = Some (Ival 3) \<and>
    yylex (\<lambda>_. 0) sc1 = Some (Inr (Some T_INT_LITERAL, sc2)) \<and> sc_yylval sc2 = Some (Ival (- 1))"
proof -
  have "show_int 3 = ''3'' \<and> show_int 1 = ''1'' \<and> show_int (- 1) = ''-1'' \<and> \<not> isdigit (CHR '']'')" by code_simp
  then show ?thesis
    using minus_glued [of "scanner_on ''3-1]''" 3 1 "'']''" "first_line 1" "[]" "\<lambda>_. 0"] scanner_on_ready(1,2) [of "''3-1]''"]
    by (auto simp: room_def ends_number_def)
qed

lemma string_round:
  assumes "ready sc ([DQ] @ quoted s @ [DQ] @ rest) f fs" "sc_cond sc = INITIAL" "strbuf_ok sc"
    and "room f (length (quoted s) + 2)" "nul_free s" "length s < 2 ^ 30" "\<not> continued DQ ([DQ] @ rest)"
    and "(\<forall>c \<in> set s. plain_char c) \<or> int (length s) < strbuf_cap sc"
  shows "\<exists>sc' t. yylex strtod sc = Some (Inr (Some T_STRG_LITERAL, sc')) \<and> sc_yylval sc' = Some (Strg t) \<and> sb_rep t s \<and>
    ready sc' rest (move_col (length (quoted s) + 2) f) fs \<and> sc_cond sc' = INITIAL \<and> strbuf_ok sc'"
proof -
  obtain sc1 b where sc1: "yylex strtod sc = yylex strtod sc1" "inside sc1 (quoted s @ DQ # rest) (move_col 1 f) fs b"
    "sb_rep b []" "sb_cap b = strbuf_cap sc"
    using open_literal [of sc "quoted s @ DQ # rest" f fs "length (quoted s) + 1" strtod] assms(1-4) by (auto simp: add.commute)
  have "room (move_col 1 f) (length (quoted s) + 1)" using assms(4) by (simp add: room_move)
  from inside_body [OF sc1(2,3) this _ assms(5), of strtod] show ?thesis
    using assms(6-8) sc1(1,4) by (auto simp: move_move)
qed



text \<open>C40: Escapes are stored by append_string_char, which does not make room for the terminator: a literal
  of at least as many escaped characters as the buffer has bytes writes behind the buffer.\<close>

theorem escapes_overrun:
  assumes "ready sc ([DQ] @ quoted s @ src) f fs" "sc_cond sc = INITIAL" "strbuf_ok sc"
    and "room f (length (quoted s) + 1)" "\<forall>c \<in> set s. \<not> plain_char c" "strbuf_cap sc \<le> int (length s)"
  shows "yylex strtod sc = Some (Inl Out_Of_Bounds)"
proof -
  obtain sc1 b where sc1: "yylex strtod sc = yylex strtod sc1" "inside sc1 (quoted s @ src) (move_col 1 f) fs b"
    "sb_rep b []" "sb_cap b = strbuf_cap sc"
    using open_literal [of sc "quoted s @ src" f fs "length (quoted s)" strtod] assms(1-4) by auto
  have "room (move_col 1 f) (length (quoted s))" using assms(4) by (simp add: room_move)
  from inside_overrun [OF sc1(2,3) this assms(5), of strtod] show ?thesis using assms(6) sc1(1,4) by simp
qed

theorem escapes_overrun_witness:
  "yylex (\<lambda>_. 0) (scanner_on ([DQ] @ quoted (replicate 8 NL) @ [DQ])) = Some (Inl Out_Of_Bounds)"
proof -
  let ?src = "[DQ] @ quoted (replicate 8 NL) @ [DQ]"
  have "length (quoted (replicate 8 NL)) = 16" by code_simp
  then show ?thesis
    using escapes_overrun [of "scanner_on ?src" "replicate 8 NL" "[DQ]" "first_line 1" "[]" "\<lambda>_. 0"] scanner_on_ready [of ?src]
    by (auto simp: room_def plain_char_def)
qed

end
