(* ===== verification/Token_Text.thy ===== *)
theory Token_Text
  imports Scanner_Facts Grammar
begin

text \<open>
  The scanner on the text of a sequence of tokens, each followed by a blank: it returns the tokens with
  their values, and at the end of the last file that it has ended.
\<close>

section \<open>The tokens of a scanner\<close>

text \<open>The value of a token is the contents of yylval, for the tokens that the grammar gives a type.\<close>

fun typed :: "token \<Rightarrow> bool" where
  "typed T_STRG_LITERAL = True"
| "typed T_NAME = True"
| "typed T_INT_LITERAL = True"
| "typed T_UINT_LITERAL = True"
| "typed T_FLOAT_LITERAL = True"
| "typed t = False"

definition token_value :: "scanner \<Rightarrow> token \<Rightarrow> yylval option" where
  "token_value sc t = (if typed t then sc_yylval sc else None)"

inductive lexes :: "(string \<Rightarrow> 32 word) \<Rightarrow> scanner \<Rightarrow> lexeme list \<Rightarrow> scanner \<Rightarrow> bool" for strtod where
  lexes_Nil: "lexes strtod sc [] sc"
| lexes_Cons: "yylex strtod sc = Some (Inr (Some t, sc1)) \<Longrightarrow> lexes strtod sc1 ts sc2 \<Longrightarrow>
    lexes strtod sc ((t, token_value sc1 t) # ts) sc2"

inductive_cases lexes_ConsE: "lexes strtod sc (x # ts) sc2"

lemma lexes_append: "lexes strtod sc ts sc1 \<Longrightarrow> lexes strtod sc1 us sc2 \<Longrightarrow> lexes strtod sc (ts @ us) sc2"
  by (induction rule: lexes.induct) (auto intro: lexes.intros)

lemma lexes_go: "yylex strtod sc = yylex strtod sc1 \<Longrightarrow> lexes strtod sc1 (x # ts) sc2 \<Longrightarrow> lexes strtod sc (x # ts) sc2"
  by (auto elim!: lexes_ConsE intro: lexes_Cons)

text \<open>The scanner is deterministic.\<close>

lemma lexes_unique: "lexes strtod sc ts sc1 \<Longrightarrow> lexes strtod sc us sc2 \<Longrightarrow> length ts = length us \<Longrightarrow> ts = us \<and> sc1 = sc2"
proof (induction arbitrary: us rule: lexes.induct)
  case (lexes_Cons sc t sc1 ts sc2')
  then obtain u us' where "us = u # us'" by (cases us) auto
  with lexes_Cons show ?case by (auto elim!: lexes_ConsE)
qed (auto elim: lexes.cases)

section \<open>Blanks and marks\<close>

lemma word_rules_miss:
  assumes "\<not> word_start c" "\<not> isdigit c" "c \<noteq> CHR ''-'' \<or> rest = [] \<or> \<not> isdigit (hd rest)"
  shows "(u, t) \<in> set reserved_words \<Longrightarrow> \<not> prefix_match (Lit u) (c # rest) m"
    and "q \<in> {int_pattern, uint_pattern, float_pattern, name_pattern} \<Longrightarrow> \<not> prefix_match q (c # rest) m"
proof -
  show "\<not> prefix_match (Lit u) (c # rest) m" if ut: "(u, t) \<in> set reserved_words"
  proof -
    obtain e es where "u = e # es" "word_start e" using reserved_chars [OF ut] by (cases u) auto
    then show ?thesis using assms(1) by (cases m) (auto simp: prefix_match_Lit)
  qed
  have signed: False if sn: "take m (c # rest) = s @ n @ r" "s = [] \<or> s = ''-''" "n \<noteq> []" "\<forall>c \<in> set n. isdigit c" for s n r
  proof -
    obtain d ds where n: "n = d # ds" "isdigit d" using sn(3,4) by (cases n) auto
    have "m \<noteq> 0" using sn(1,3) by (cases "m = 0") auto
    then obtain k where k: "m = Suc k" using not0_implies_Suc by blast
    then have w: "c # take k rest = s @ d # ds @ r" using sn(1) n(1) by simp
    then have "s = ''-''" "c = CHR ''-''" using sn(2) n(2) assms(2) by auto
    then have "take k rest = d # ds @ r" using w by simp
    then obtain e es where "rest = e # es" "e = d" by (cases rest; cases k) auto
    then show False using assms(3) n(2) \<open>c = CHR ''-''\<close> by simp
  qed
  show "\<not> prefix_match q (c # rest) m" if qq: "q \<in> {int_pattern, uint_pattern, float_pattern, name_pattern}"
  proof
    assume pm: "prefix_match q (c # rest) m"
    consider "q = int_pattern" | "q = uint_pattern" | "q = float_pattern" | "q = name_pattern" using qq by auto
    then show False
    proof cases
      case 1
      then show ?thesis using pm matches_signed(1) [of "take m (c # rest)"] signed unfolding prefix_match_def
        by (metis append_Nil2)
    next
      case 2
      then show ?thesis using pm matches_signed(2) [of "take m (c # rest)"] signed unfolding prefix_match_def by blast
    next
      case 3
      then show ?thesis using pm matches_signed(3) [of "take m (c # rest)"] signed unfolding prefix_match_def by blast
    next
      case 4
      then have "\<not> starts q c" "\<not> nullable q" using assms(1) by (auto simp: name_pattern_def)
      then show ?thesis using prefix_match_starts [OF pm] by blast
    qed
  qed
qed

text \<open>The three parts of the rules outside literals and comments.\<close>

definition word_rules :: "(pattern \<times> lex_action) list" where
  "word_rules = map (\<lambda>(w, t). (Lit w, Return t)) reserved_words"

definition mark_rules :: "(pattern \<times> lex_action) list" where
  "mark_rules = map (\<lambda>c. (Chr c, Return (T_char c))) marks"

definition literal_rules :: "(pattern \<times> lex_action) list" where
  "literal_rules = [(int_pattern, Int_Literal), (uint_pattern, Uint_Literal), (float_pattern, Float_Literal), (name_pattern, Name)]"

definition other_rules :: "(pattern \<times> lex_action) list" where
  "other_rules = [(Chr DQ, Open_String DQUOTE), (Chr SQ, Open_String SQUOTE), (Lit ''//'', Begin LCOMMENT), (Lit ''/*'', Begin BCOMMENT)]"

lemma initial_rules_parts:
  "initial_rules = word_rules @ mark_rules @ literal_rules @ other_rules @ [(Plus1 (Cls isspace), Skip), (Any, Invalid)]"
  by (simp add: initial_rules_def word_rules_def mark_rules_def literal_rules_def other_rules_def)

lemma pick_blank:
  assumes "rest = [] \<or> \<not> isspace (hd rest)"
  shows "pick_rule initial_rules (CHR '' '' # rest) = Some (1, Skip)"
proof (rule pick_ruleI [of _ "word_rules @ mark_rules @ literal_rules @ other_rules" "Plus1 (Cls isspace)" _ "[(Any, Invalid)]"])
  have b: "\<not> word_start (CHR '' '')" "\<not> isdigit (CHR '' '')" "isspace (CHR '' '')"
    by (simp_all add: word_start_def islower_def isdigit_def isspace_def)
  note miss = word_rules_miss [OF b(1,2), of rest]
  show "m < 1" if q: "(q, b) \<in> set (word_rules @ mark_rules @ literal_rules @ other_rules)" "prefix_match q (CHR '' '' # rest) m" for q b m
  proof -
    consider u v where "(u, v) \<in> set reserved_words" "q = Lit u" | d where "d \<in> set marks" "q = Chr d" |
      "q \<in> {int_pattern, uint_pattern, float_pattern, name_pattern}" | "q \<in> {Chr DQ, Chr SQ, Lit ''//'', Lit ''/*''}"
      using q(1) by (auto simp: word_rules_def mark_rules_def literal_rules_def other_rules_def)
    then show ?thesis
    proof cases
      case 1
      then show ?thesis using miss(1) q(2) by blast
    next
      case 2
      then show ?thesis using q(2) by (auto simp: prefix_match_Chr marks_def)
    next
      case 3
      then show ?thesis using miss(2) q(2) by blast
    next
      case 4
      then show ?thesis using q(2) by (auto simp: prefix_match_rules take_Cons')
    qed
  qed
  show "m \<le> 1" if "prefix_match (Plus1 (Cls isspace)) (CHR '' '' # rest) m" for m
  proof -
    have "m \<le> length [CHR '' '']"
      using that assms by (intro run_bound [of m "[CHR '' '']" rest 0 isspace]) (auto simp: prefix_match_Plus1_Cls)
    then show ?thesis by simp
  qed
  show "prefix_match (Plus1 (Cls isspace)) (CHR '' '' # rest) 1" using b(3) by (simp add: prefix_match_Plus1_Cls)
  show "m \<le> 1" if "(q, b) \<in> set [(Any, Invalid)]" "prefix_match q (CHR '' '' # rest) m" for q b m
    using that by (simp add: prefix_match_Cls)
qed (simp add: initial_rules_parts)

lemma pick_mark:
  assumes "c \<in> set marks"
  shows "pick_rule initial_rules (c # CHR '' '' # rest) = Some (1, Return (T_char c))"
proof -
  obtain ms1 ms2 where ms: "marks = ms1 @ c # ms2" "c \<notin> set ms1" using split_list_first [OF assms] by blast
  let ?f = "map (\<lambda>c. (Chr c, Return (T_char c))) :: string \<Rightarrow> (pattern \<times> lex_action) list"
  let ?s = "c # CHR '' '' # rest"
  have b: "\<not> word_start c" "\<not> isdigit c" "c \<noteq> CHR ''-'' \<or> CHR '' '' # rest = [] \<or> \<not> isdigit (hd (CHR '' '' # rest))"
    "c \<notin> {DQ, SQ}" "\<not> isspace c"
    using assms by (auto simp: marks_def word_start_def islower_def isdigit_def isspace_def)
  note miss = word_rules_miss [OF b(1-3)]
  show ?thesis
  proof (rule pick_ruleI [of _ "word_rules @ ?f ms1" "Chr c" _ "?f ms2 @ literal_rules @ other_rules @ [(Plus1 (Cls isspace), Skip), (Any, Invalid)]"])
    show "initial_rules = (word_rules @ ?f ms1) @ (Chr c, Return (T_char c)) #
        (?f ms2 @ literal_rules @ other_rules @ [(Plus1 (Cls isspace), Skip), (Any, Invalid)])"
      by (simp add: initial_rules_parts mark_rules_def ms(1))
    show "m < 1" if q: "(q, b) \<in> set (word_rules @ ?f ms1)" "prefix_match q ?s m" for q b m
    proof -
      consider u v where "(u, v) \<in> set reserved_words" "q = Lit u" | d where "d \<in> set ms1" "q = Chr d"
        using q(1) by (auto simp: word_rules_def)
      then show ?thesis
        by cases (use miss(1) q(2) ms(2) in \<open>auto simp: prefix_match_Chr\<close>)
    qed
    show "m \<le> 1" if q: "(q, b) \<in> set (?f ms2 @ literal_rules @ other_rules @ [(Plus1 (Cls isspace), Skip), (Any, Invalid)])"
      "prefix_match q ?s m" for q b m
    proof -
      consider "q \<in> {int_pattern, uint_pattern, float_pattern, name_pattern}" | d where "q = Chr d" |
        "q \<in> {Lit ''//'', Lit ''/*'', Plus1 (Cls isspace), Any}"
        using q(1) by (auto simp: literal_rules_def other_rules_def)
      then show ?thesis
      proof cases
        case 1
        then show ?thesis using miss(2) q(2) by blast
      next
        case 2
        then show ?thesis using q(2) by (simp add: prefix_match_Chr)
      next
        case 3
        then show ?thesis using q(2) b(5) by (auto simp: prefix_match_rules take_Cons' split: if_splits)
      qed
    qed
  qed (auto simp: prefix_match_Chr)
qed

lemma not_continued:
  assumes "rest = [] \<or> \<not> isspace (hd rest) \<and> hd rest \<noteq> BSL"
  shows "\<not> continued DQ (DQ # CHR '' '' # rest)"
proof -
  have False if pm: "prefix_match (continuation DQ) (DQ # CHR '' '' # rest) m" for m
  proof -
    obtain k where "prefix_match (Seq Blanks (Seq (Chr BSL) (Seq Blanks (Seq (Chr NL) (Seq Blanks (Chr DQ)))))) (CHR '' '' # rest) k"
      using pm unfolding continuation_def prefix_match_Seq_Chr by blast
    then obtain u v where uv: "take k (CHR '' '' # rest) = u @ BSL # v" "\<forall>c \<in> set u. c = CHR '' '' \<or> c = CHR 0x09"
      unfolding prefix_match_def matches_Seq [of Blanks] matches_Seq [of "Chr BSL"] by auto
    then obtain u' j where u': "u = CHR '' '' # u'" "take j rest = u' @ BSL # v" by (cases k; cases u) auto
    then obtain e es where e: "rest = e # es" by (cases rest) auto
    have "e = hd (u' @ [BSL])" using u'(2) e by (cases j; cases u') auto
    moreover have "isspace (CHR '' '')" "isspace (CHR 0x09)" by (simp_all add: isspace_def)
    ultimately show False using assms uv(2) u'(1) e by (cases u') auto
  qed
  then show ?thesis unfolding continued_def longest_None by blast
qed

section \<open>Texts of tokens\<close>

text \<open>What a token says, without the memory its value lies in: a reserved word or mark, a name, a number, a text.\<close>

datatype plain_token = PT token | PN string | PI int | PS string

fun spells :: "plain_token \<Rightarrow> string \<Rightarrow> bool" where
  "spells (PT t) u \<longleftrightarrow> (u, t) \<in> set reserved_words \<or> (\<exists>c \<in> set marks. t = T_char c \<and> u = [c])"
| "spells (PN w) u \<longleftrightarrow> u = w \<and> w \<noteq> [] \<and> word_start (hd w) \<and> (\<forall>c \<in> set w. word_char c) \<and> length w < 2 ^ 30 \<and>
     map_of reserved_words w = None"
| "spells (PI i) u \<longleftrightarrow> u = show_int i \<and> INT_MIN \<le> i \<and> i \<le> INT_MAX"
| "spells (PS s) u \<longleftrightarrow> u = DQ # s @ [DQ] \<and> (\<forall>c \<in> set s. plain_char c) \<and> nul_free s \<and> length s < 2 ^ 30"

fun tok_rep :: "plain_token \<Rightarrow> lexeme \<Rightarrow> bool" where
  "tok_rep (PT t) l \<longleftrightarrow> l = (t, None)"
| "tok_rep (PN w) l \<longleftrightarrow> (\<exists>s. l = Nm s \<and> sb_rep s w)"
| "tok_rep (PI i) l \<longleftrightarrow> l = (T_INT_LITERAL, Some (Ival i))"
| "tok_rep (PS w) l \<longleftrightarrow> (\<exists>s. l = Sl s \<and> sb_rep s w)"

definition token_text :: "string list \<Rightarrow> string" where
  "token_text us = concat (map (\<lambda>u. u @ '' '') us)"

lemma token_text_simps [simp]: "token_text [] = []" "token_text (u # us) = u @ CHR '' '' # token_text us"
  by (simp_all add: token_text_def)

lemma reserved_facts: "distinct (map fst reserved_words) \<and> list_all (\<lambda>(u, t). \<not> typed t \<and> length u < 8) reserved_words"
  by code_simp

lemma show_int_start: "show_int i \<noteq> [] \<and> \<not> isspace (hd (show_int i)) \<and> hd (show_int i) \<noteq> BSL \<and> hd (show_int i) \<noteq> NUL"
proof -
  obtain c cs where "show_nat (nat \<bar>i\<bar>) = c # cs" "isdigit c"
    using show_nat_digits [of "nat \<bar>i\<bar>"] by (cases "show_nat (nat \<bar>i\<bar>)") auto
  then show ?thesis by (auto simp: show_int_sign sign_of_def isdigit_def isspace_def)
qed

lemma word_start_start: "word_start c \<Longrightarrow> \<not> isspace c \<and> c \<noteq> BSL"
  by (auto simp: word_start_def islower_def isspace_def)

lemma spells_start: "spells t u \<Longrightarrow> u \<noteq> [] \<and> \<not> isspace (hd u) \<and> hd u \<noteq> BSL"
proof (cases t)
  case (PT x)
  assume "spells t u"
  then consider "(u, x) \<in> set reserved_words" | c where "c \<in> set marks" "u = [c]" using PT by auto
  then show ?thesis
  proof cases
    case 1
    then show ?thesis using reserved_chars word_start_start by metis
  next
    case 2
    then show ?thesis by (auto simp: marks_def isspace_def)
  qed
next
  case (PS s)
  assume "spells t u"
  then show ?thesis using PS by (auto simp: isspace_def)
qed (use show_int_start word_start_start in auto)

lemma next_start:
  "list_all2 spells ts us \<Longrightarrow> token_text us = [] \<or> \<not> isspace (hd (token_text us)) \<and> hd (token_text us) \<noteq> BSL"
  using spells_start by (cases ts; cases us) (auto simp: hd_append)

lemma skip_blank:
  assumes "ready sc (CHR '' '' # rest) f fs" "sc_cond sc = INITIAL" "room f (1 + m)" "rest = [] \<or> \<not> isspace (hd rest)"
  shows "\<exists>sc'. yylex strtod sc = yylex strtod sc' \<and> ready sc' rest (move_col 1 f) fs \<and> sc_cond sc' = INITIAL \<and>
    sc_strbuf sc' = sc_strbuf sc"
proof -
  have "advance_pos (take 1 (CHR '' '' # rest)) f = Some (move_col 1 f)"
    using advance_line [of f "'' ''" m] assms(3) by simp
  from scan_round_rule [OF assms(1) _ _ this, of Skip strtod] pick_blank [OF assms(4)] assms(2)
  obtain sc1 where "ready sc1 rest (move_col 1 f) fs" "same_data sc sc1" "scan_round strtod sc = Inr (None, sc1)"
    by (auto simp: rules_of_def)
  then show ?thesis using yylex_go assms(2) by (fastforce simp: same_data_def)
qed

lemma mark_round:
  assumes "ready sc (c # CHR '' '' # rest) f fs" "sc_cond sc = INITIAL" "room f (1 + m)" "c \<in> set marks"
  shows "\<exists>sc'. yylex strtod sc = Some (Inr (Some (T_char c), sc')) \<and> ready sc' (CHR '' '' # rest) (move_col 1 f) fs \<and>
    sc_cond sc' = INITIAL \<and> sc_strbuf sc' = sc_strbuf sc"
proof -
  have "NL \<noteq> c" using assms(4) by (auto simp: marks_def)
  then have "advance_pos (take 1 (c # CHR '' '' # rest)) f = Some (move_col 1 f)"
    using advance_line [of f "[c]" m] assms(3) by simp
  from scan_round_rule [OF assms(1) _ _ this, of "Return (T_char c)" strtod] pick_mark [OF assms(4)] assms(2)
  obtain sc1 where "ready sc1 (CHR '' '' # rest) (move_col 1 f) fs" "same_data sc sc1"
    "scan_round strtod sc = Inr (Some (Some (T_char c)), sc1)"
    by (auto simp: rules_of_def)
  then show ?thesis using yylex_token assms(2) by (fastforce simp: same_data_def)
qed

text \<open>A scanner outside literals and comments.\<close>

definition at_text :: "scanner \<Rightarrow> string \<Rightarrow> input_file \<Rightarrow> input_file list \<Rightarrow> bool" where
  "at_text sc s f fs \<longleftrightarrow> ready sc s f fs \<and> sc_cond sc = INITIAL \<and> strbuf_ok sc"

lemma room_less: "room f n \<Longrightarrow> m \<le> n \<Longrightarrow> room f m"
  by (simp add: room_def)

lemma token_round:
  assumes sc: "at_text sc (u @ CHR '' '' # rest) f fs" and t: "spells t u"
    and rest: "rest = [] \<or> \<not> isspace (hd rest) \<and> hd rest \<noteq> BSL" and n: "room f (length u)"
  shows "\<exists>sc1 l. yylex strtod sc = Some (Inr (Some (fst l), sc1)) \<and> token_value sc1 (fst l) = snd l \<and> tok_rep t l \<and>
    at_text sc1 (CHR '' '' # rest) (move_col (length u) f) fs"
proof -
  have r: "ready sc (u @ CHR '' '' # rest) f fs" "sc_cond sc = INITIAL" "strbuf_ok sc" using sc by (simp_all add: at_text_def)
  have w: "CHR '' '' # rest = [] \<or> \<not> word_char (hd (CHR '' '' # rest))" by (simp add: word_char_def islower_def isdigit_def)
  have ok: "strbuf_ok sc'" if "sc_strbuf sc' = sc_strbuf sc" for sc' using r(3) that by (simp add: strbuf_ok_def)
  show ?thesis
  proof (cases t)
    case (PT x)
    then consider "(u, x) \<in> set reserved_words" | c where "c \<in> set marks" "u = [c]" "x = T_char c" using t by auto
    then show ?thesis
    proof cases
      case 1
      have m: "map_of reserved_words u = Some x" "\<not> typed x" "length u < 2 ^ 30"
        using 1 reserved_facts by (auto simp: list_all_iff)
      show ?thesis
        using word_round [OF r(1,2) n _ _ _ w m(3), of strtod] reserved_chars [OF 1] m(1,2) ok PT
        by (auto simp: at_text_def token_value_def intro!: exI [of _ x])
    next
      case 2
      then show ?thesis using mark_round [of sc c rest f fs 0 strtod] r n ok PT
        by (auto simp: at_text_def token_value_def)
    qed
  next
    case (PN x)
    then have u: "u \<noteq> []" "word_start (hd u)" "\<forall>c \<in> set u. word_char c" "length u < 2 ^ 30" "map_of reserved_words u = None" "u = x"
      using t by auto
    from word_round [OF r(1,2) n u(1-3) w u(4), of strtod] u(5) obtain sc' s where
      "yylex strtod sc = Some (Inr (Some T_NAME, sc'))" "sc_yylval sc' = Some (Strg s)" "sb_rep s u"
      "ready sc' (CHR '' '' # rest) (move_col (length u) f) fs" "sc_cond sc' = INITIAL" "sc_strbuf sc' = sc_strbuf sc" by auto
    then show ?thesis using ok PN u(6)
      by (intro exI [of _ sc'] exI [of _ "Nm s"]) (simp add: at_text_def token_value_def)
  next
    case (PI i)
    then have u: "u = show_int i" "INT_MIN \<le> i" "i \<le> INT_MAX" using t by auto
    have e: "ends_number (CHR '' '' # rest)" by (simp add: ends_number_def isdigit_def)
    from number_round [OF r(1) [unfolded u(1)] r(2) _ u(2,3) e, of 0 strtod] n u(1) obtain sc' where
      "yylex strtod sc = Some (Inr (Some T_INT_LITERAL, sc'))" "sc_yylval sc' = Some (Ival i)"
      "ready sc' (CHR '' '' # rest) (move_col (length u) f) fs" "sc_cond sc' = INITIAL" "sc_strbuf sc' = sc_strbuf sc" by auto
    then show ?thesis using ok PI
      by (intro exI [of _ sc'] exI [of _ "(T_INT_LITERAL, Some (Ival i))"]) (simp add: at_text_def token_value_def)
  next
    case (PS x)
    then have u: "u = DQ # x @ [DQ]" "\<forall>c \<in> set x. plain_char c" "nul_free x" "length x < 2 ^ 30" using t by auto
    note q = quoted_plain [OF u(2)]
    have "ready sc ([DQ] @ quoted x @ [DQ] @ CHR '' '' # rest) f fs" using r(1) u(1) q by simp
    from string_round [OF this r(2,3) _ u(3,4) _, of strtod] not_continued [OF rest] u(1,2) n q obtain sc' s where
      "yylex strtod sc = Some (Inr (Some T_STRG_LITERAL, sc'))" "sc_yylval sc' = Some (Strg s)" "sb_rep s x"
      "ready sc' (CHR '' '' # rest) (move_col (length u) f) fs" "sc_cond sc' = INITIAL" "strbuf_ok sc'" by auto
    then show ?thesis using PS
      by (intro exI [of _ sc'] exI [of _ "Sl s"]) (simp add: at_text_def token_value_def)
  qed
qed

text \<open>
  The tokens of a text: from a scanner before the text to one at its end, up to a blank that is still to be
  skipped.
\<close>

lemma tokens_lexed:
  assumes "at_text sc (token_text us @ rest) f fs" "list_all2 spells ts us" "room f (length (token_text us))"
    and "rest = [] \<or> \<not> isspace (hd rest) \<and> hd rest \<noteq> BSL"
  shows "\<exists>sc1 sc2 ls. lexes strtod sc ls sc1 \<and> yylex strtod sc1 = yylex strtod sc2 \<and> list_all2 tok_rep ts ls \<and>
    at_text sc2 rest (move_col (length (token_text us)) f) fs"
  using assms
proof (induction us arbitrary: sc f ts)
  case Nil
  then show ?case by (auto intro!: exI [of _ sc] lexes_Nil simp: move_col_def)
next
  case (Cons u us)
  obtain t ts' where ts: "ts = t # ts'" "spells t u" "list_all2 spells ts' us" using Cons.prems(2) by (cases ts) auto
  let ?r = "token_text us @ rest"
  have r: "?r = [] \<or> \<not> isspace (hd ?r) \<and> hd ?r \<noteq> BSL" using next_start [OF ts(3)] Cons.prems(4) by (cases "token_text us") auto
  have rm: "room f (length u + (1 + length (token_text us)))" using Cons.prems(3) by simp
  obtain sc1 l where sc1: "yylex strtod sc = Some (Inr (Some (fst l), sc1))" "token_value sc1 (fst l) = snd l" "tok_rep t l"
    "at_text sc1 (CHR '' '' # ?r) (move_col (length u) f) fs"
    using token_round [OF _ ts(2) r room_less [OF rm], of sc fs strtod] Cons.prems(1) by auto
  obtain sc2 where sc2: "yylex strtod sc1 = yylex strtod sc2" "at_text sc2 ?r (move_col 1 (move_col (length u) f)) fs"
    using skip_blank [of sc1 ?r "move_col (length u) f" fs "length (token_text us)" strtod] sc1(4) room_move [OF rm] r
    by (auto simp: at_text_def strbuf_ok_def)
  have rm2: "room (move_col 1 (move_col (length u) f)) (length (token_text us))" using room_move [OF room_move [OF rm]] .
  obtain sc3 sc4 ls where sc3: "lexes strtod sc2 ls sc3" "yylex strtod sc3 = yylex strtod sc4" "list_all2 tok_rep ts' ls"
    "at_text sc4 rest (move_col (length (token_text us)) (move_col 1 (move_col (length u) f))) fs"
    using Cons.IH [OF sc2(2) ts(3) rm2 Cons.prems(4)] by blast
  have l: "lexes strtod sc (l # ms) sc'" if "lexes strtod sc1 ms sc'" for ms sc'
    using lexes_Cons [OF sc1(1) that] sc1(2) by (simp add: prod_eq_iff)
  have all: "list_all2 tok_rep ts (l # ls)" using ts(1) sc1(3) sc3(3) by simp
  show ?case
  proof (cases ls)
    case Nil
    then have "sc3 = sc2" using sc3(1) by (auto elim: lexes.cases)
    then show ?thesis using l [OF lexes_Nil] all sc2(1) sc3(2,4) Nil by (auto simp: move_move add.commute)
  next
    case (Cons x xs)
    then have "lexes strtod sc (l # ls) sc3" using l [of ls sc3] lexes_go [OF sc2(1)] sc3(1) by simp
    then show ?thesis using all sc3(2,4) by (auto simp: move_move add.commute)
  qed
qed

lemma end_of_input:
  assumes "at_text sc [] f []"
  shows "\<exists>sc'. yylex strtod sc = Some (Inr (None, sc'))"
proof -
  have i: "sc_input sc = Inr []" "stack_rep (sc_files sc) [f]" using assms by (simp_all add: at_text_def ready_def)
  obtain st' where "eof_rule (sc_files sc) = Inr (True, st')" using eof_rule_rep [OF i(2)] by auto
  then have "scan_round strtod sc = Inr (Some None, sc\<lparr>sc_files := st'\<rparr>)" using i(1) by (simp add: scan_round_def)
  from yylex_token [OF this] show ?thesis by blast
qed

lemma scanner_on_at_text: "at_text (scanner_on src) src (first_line 1) []"
  using scanner_on_ready by (simp add: at_text_def)

section \<open>Properties\<close>



end
