(* ===== verification/Token_Types.thy ===== *)
theory Token_Types
  imports Token_Text
begin

text \<open>
  The scanner and the parser share one union, yylval.  Whatever the input is, the member that the grammar
  reads for a token is the one that the rule of the token has written, and its value has the form of the
  rule's pattern.
\<close>

section \<open>The rule that is picked\<close>

lemma pick_rule_mem: "pick_rule rs s = Some (n, a) \<Longrightarrow> \<exists>p. (p, a) \<in> set rs \<and> prefix_match p s n"
  by (induction rs s arbitrary: n a rule: pick_rule.induct)
    (fastforce simp: longest_Some split: option.splits if_splits)+

text \<open>A rule is only picked when every rule in front of it matches less.\<close>

lemma pick_rule_before:
  assumes "pick_rule (xs @ ys) s = Some (n, a)" "a \<notin> snd ` set xs" "(p, b) \<in> set xs" "prefix_match p s m"
  shows "m < n"
  using assms
proof (induction xs arbitrary: m p b)
  case (Cons x xs)
  obtain q c where x: "x = (q, c)" by fastforce
  have c: "c \<noteq> a" "a \<notin> snd ` set xs" using Cons.prems(2) x by auto
  have rest: "pick_rule (xs @ ys) s = Some (n, a) \<and> (\<forall>k. longest q s = Some k \<longrightarrow> k < n)"
    using Cons.prems(1) c(1) x by (auto split: option.splits if_splits)
  show ?case
  proof (cases "(p, b) = (q, c)")
    case True
    then obtain k where "longest q s = Some k" using Cons.prems(4) longest_None [of q s] by fastforce
    moreover from this have "m \<le> k" using Cons.prems(4) True longest_Some by auto
    ultimately show ?thesis using rest by fastforce
  next
    case False
    then show ?thesis using Cons.IH [of p b m] Cons.prems(3,4) rest c(2) x by auto
  qed
qed simp

section \<open>Well-formed values\<close>

fun value_ok :: "token \<Rightarrow> yylval option \<Rightarrow> bool" where
  "value_ok T_INT_LITERAL v = (\<exists>i. v = Some (Ival i) \<and> INT_MIN \<le> i \<and> i \<le> INT_MAX)"
| "value_ok T_UINT_LITERAL v = (\<exists>w. v = Some (Uval w))"
| "value_ok T_FLOAT_LITERAL v = (\<exists>w. v = Some (Fval w))"
| "value_ok T_STRG_LITERAL v = (\<exists>s. v = Some (Strg s))"
| "value_ok T_NAME v =
     (\<exists>s w. v = Some (Strg s) \<and> sb_rep s w \<and> w \<noteq> [] \<and> word_start (hd w) \<and> list_all word_char w \<and>
       map_of reserved_words w = None)"
| "value_ok t v = (v = None)"

lemma to_int_range: "INT_MIN \<le> to_int n \<and> to_int n \<le> INT_MAX"
  using sint_range_size [of "word_of_int n :: 32 word"] by (simp add: to_int_def word_size)

lemma word_char_cut: "list_all word_char w \<Longrightarrow> c_cut w = w \<and> nul_free w"
proof -
  have "\<not> word_char NUL" by code_simp
  then show "list_all word_char w \<Longrightarrow> ?thesis"
    by (auto simp: c_cut_def nul_free_def list_all_iff intro!: takeWhile_eq_all_conv [THEN iffD2])
qed

lemma create_string_result: "create_string (Some w) = Inr s \<Longrightarrow> nul_free w \<Longrightarrow> sb_rep s w"
proof (cases "length w < 2 ^ 30")
  case False
  have "sb_rep \<lparr>sb_buffer = blk_alloc 8 NUL, sb_len = 0, sb_cap = 8\<rparr> []"
    by (auto simp: sb_rep_def sb_str_def str_at_def intro!: holds_alloc)
  from append_string_too_long [OF this, of w] False
  show "create_string (Some w) = Inr s \<Longrightarrow> sb_rep s w" by (simp add: create_string_def)
qed (use create_string_rep [of w] in auto)

text \<open>The text of a rule for names.\<close>

lemma picked_name:
  assumes "pick_rule (rules_of c) s = Some (n, Name)"
  shows "take n s \<noteq> [] \<and> word_start (hd (take n s)) \<and> list_all word_char (take n s) \<and> map_of reserved_words (take n s) = None"
proof -
  define ws where "ws = map (\<lambda>(w, t). (Lit w, Return t)) reserved_words"
  have c: "c = INITIAL"
    using pick_rule_mem [OF assms] by (cases c) (auto simp: rules_of_def dquote_rules_def squote_rules_def comment_rules_def)
  obtain os where r: "initial_rules = ws @ os" unfolding initial_rules_def ws_def by blast
  have nw: "Name \<notin> snd ` set ws" by (auto simp: ws_def)
  obtain p where p: "(p, Name) \<in> set initial_rules" "prefix_match p s n"
    using pick_rule_mem [OF assms] c by (auto simp: rules_of_def)
  then have "p = name_pattern" by (auto simp: initial_rules_def)
  then have m: "matches name_pattern (take n s)" using p(2) by (simp add: prefix_match_def)
  obtain d v where v: "take n s = d # v" "word_start d" using m by (auto simp: name_pattern_def matches_Seq)
  then have "word_start (hd (take n s))" by (simp del: hd_take)
  with v have w: "list_all word_char (take n s)" "take n s \<noteq> []" "word_start (hd (take n s))"
    using matches_name [OF m] by (simp_all only: list_all_iff) auto
  have "map_of reserved_words (take n s) = None"
  proof (rule ccontr)
    assume "map_of reserved_words (take n s) \<noteq> None"
    then obtain t where t: "(take n s, t) \<in> set reserved_words" using map_of_SomeD by fastforce
    then have in_ws: "(Lit (take n s), Return t) \<in> set ws" by (force simp: ws_def)
    have "n \<le> length s" using p(2) by (simp add: prefix_match_def)
    then have "prefix_match (Lit (take n s)) s n" by (simp add: prefix_match_Lit)
    from pick_rule_before [OF _ nw in_ws this, of os] show False using assms c r by (simp add: rules_of_def)
  qed
  with w show ?thesis by simp
qed

lemma returned_untyped: "(p, Return t) \<in> set (rules_of c) \<Longrightarrow> \<not> typed t \<and> c = INITIAL"
proof -
  have "list_all (\<lambda>(u, t). \<not> typed t) reserved_words" by code_simp
  then show "(p, Return t) \<in> set (rules_of c) \<Longrightarrow> ?thesis"
    by (cases c) (auto simp: list_all_iff rules_of_def initial_rules_def dquote_rules_def squote_rules_def comment_rules_def)
qed

lemma untyped_ok: "\<not> typed t \<Longrightarrow> value_ok t None"
  by (cases t) auto

lemma rules_by_condition:
  "(p, a) \<in> set (rules_of c) \<Longrightarrow> a \<in> {Int_Literal, Uint_Literal, Float_Literal, Name} \<Longrightarrow> c = INITIAL"
  by (cases c) (auto simp: rules_of_def dquote_rules_def squote_rules_def comment_rules_def)

lemma rule_action_typed:
  assumes r: "rule_action strtod a (take n s) sc = Inr (Some t, sc')" and p: "pick_rule (rules_of (sc_cond sc)) s = Some (n, a)"
  shows "value_ok t (token_value sc' t) \<and> sc_cond sc' = INITIAL"
proof -
  obtain q where q: "(q, a) \<in> set (rules_of (sc_cond sc))" using pick_rule_mem [OF p] by blast
  show ?thesis
  proof (cases a)
    case (Return t')
    then show ?thesis using r q returned_untyped untyped_ok by (fastforce simp: token_value_def)
  next
    case Int_Literal
    then show ?thesis using r q rules_by_condition [OF q] to_int_range by (auto simp: token_value_def)
  next
    case Name
    then show ?thesis using r rules_by_condition [OF q] picked_name p word_char_cut create_string_result
      by (fastforce simp: token_value_def elim!: rbindE)
  qed (use r rules_by_condition [OF q] in \<open>auto simp: token_value_def elim!: rbindE split: option.splits\<close>)
qed

lemma scan_round_typed:
  assumes "scan_round strtod sc = Inr (Some (Some t), sc')"
  shows "value_ok t (token_value sc' t) \<and> sc_cond sc' = INITIAL"
proof -
  obtain s where s: "scan_text strtod s sc = Inr (Some t, sc')"
    using assms by (auto simp: scan_round_def split: if_splits option.splits elim!: rbindE)
  obtain n a files where a: "rule_action strtod a (take n s) (sc_consume n (sc\<lparr>sc_files := files\<rparr>)) = Inr (Some t, sc')"
    "(case pick_rule (rules_of (sc_cond sc)) s of Some (n, a) \<Rightarrow> (n, a) | None \<Rightarrow> (1, Skip)) = (n, a)"
    using s by (auto simp: scan_text_def Let_def elim!: rbindE split: prod.splits)
  have c: "sc_cond (sc_consume n (sc\<lparr>sc_files := files\<rparr>)) = sc_cond sc" by (simp add: sc_consume_def split: option.splits)
  show ?thesis
  proof (cases "pick_rule (rules_of (sc_cond sc)) s")
    case (Some x)
    then show ?thesis using a rule_action_typed [OF a(1)] c by simp
  qed (use a in auto)
qed

lemma yylex_typed:
  assumes "yylex strtod sc = Some (Inr (Some t, sc'))"
  shows "value_ok t (token_value sc' t) \<and> sc_cond sc' = INITIAL"
proof -
  have "yylex strtod sc = Some r \<Longrightarrow> r = Inr (Some t, sc') \<Longrightarrow> ?thesis" for r
  proof (induction arbitrary: rule: yylex.raw_induct [rotated 1, consumes 1])
    case (1 f strtod sc r)
    then show ?case using scan_round_typed [of strtod sc t sc'] by (auto split: sum.splits option.splits)
  qed
  with assms show ?thesis by blast
qed

section \<open>Properties\<close>

text \<open>C27: Whatever the input, every token the scanner returns comes with the member of the union that the
  grammar declares for it: an INT_LITERAL with an int in range, a NAME with a non-empty string of word
  characters that is not a reserved word, a token without a type with none; and after a token the scanner is
  outside literals and comments.\<close>

theorem tokens_typed:
  assumes "lexes strtod sc ls sc'"
  shows "list_all (\<lambda>(t, v). value_ok t v) ls \<and> (ls = [] \<or> sc_cond sc' = INITIAL)"
  using assms
proof (induction rule: lexes.induct)
  case (lexes_Cons sc t sc1 ts sc2)
  then show ?case using yylex_typed [OF lexes_Cons.hyps(1)] by (cases ts) (auto elim: lexes.cases)
qed simp

theorem tokens_typed_witness:
  "\<exists>sc v. lexes (\<lambda>_. 0) (scanner_on ''rets'') [(T_NAME, v)] sc \<and> value_ok T_NAME v \<and> sc_cond sc = INITIAL"
proof -
  have w: "word_start (hd ''rets'') \<and> list_all word_char ''rets'' \<and> map_of reserved_words ''rets'' = None" by code_simp
  obtain sc1 where "yylex (\<lambda>_. 0) (scanner_on ''rets'') = Some (Inr (Some T_NAME, sc1))"
    using word_round [of "scanner_on ''rets''" "''rets''" "[]" "first_line 1" "[]" "\<lambda>_. 0"] w scanner_on_ready(1,2) [of "''rets''"]
    by (auto simp: room_def list_all_iff)
  then have "lexes (\<lambda>_. 0) (scanner_on ''rets'') [(T_NAME, token_value sc1 T_NAME)] sc1" by (intro lexes.intros)
  with tokens_typed [OF this] show ?thesis by auto
qed

end
