(* ===== verification/Parser_Actions.thy ===== *)
theory Parser_Actions
  imports Grammar
begin

text \<open>
  The actions of src/src/assembler/parser.y: what a parsed module does to the data section, the symbol
  table and the globals of the parser.

  The actions of a production run after those of its parts, from left to right.  The traces are left out.
  An item of the data section is a pointer and what it refers to; the address of the \<open>n\<close>-th item that the
  parser makes is a parameter, since the actions convert such a pointer to int and compare with it.
\<close>

section \<open>State\<close>

record asm =
  as_errors :: int
  as_data_index :: int
  as_data_count :: int
  as_data_ptrs :: "data_item pointer_list option"
  as_data :: data_buffer
  as_symbols :: sym_table
  as_items :: nat

type_synonym item_ptr = "64 word \<times> data_item"

definition asm_start :: "data_buffer \<Rightarrow> asm" where
  "asm_start data =
     \<lparr>as_errors = 0, as_data_index = 0, as_data_count = 0, as_data_ptrs = None, as_data = data,
      as_symbols = None, as_items = 0\<rparr>"

definition new_item :: "(nat \<Rightarrow> 64 word) \<Rightarrow> data_item \<Rightarrow> asm \<Rightarrow> item_ptr \<times> asm" where
  "new_item adr item st = ((adr (as_items st), item), st\<lparr>as_items := as_items st + 1\<rparr>)"

text \<open>yyerror; its message is not modelled.\<close>

definition yyerror :: "asm \<Rightarrow> asm res" where
  "yyerror st = rbind (chk (as_errors st + 1)) (\<lambda>e. Inr (st\<lparr>as_errors := e\<rparr>))"

section \<open>Constants and expressions\<close>

fun index_constant_action :: "(nat \<Rightarrow> 64 word) \<Rightarrow> index_constant \<Rightarrow> asm \<Rightarrow> item_ptr \<times> asm" where
  "index_constant_action adr (IC_Int i) st = new_item adr (create_ival_item (Some (word_of_int i))) st"
| "index_constant_action adr (IC_Uint w) st = new_item adr (create_uval_item (Some w)) st"

fun var_constant_action :: "(nat \<Rightarrow> 64 word) \<Rightarrow> var_constant \<Rightarrow> asm \<Rightarrow> (item_ptr \<times> asm) res" where
  "var_constant_action adr (VC_Index c) st = Inr (index_constant_action adr c st)"
| "var_constant_action adr (VC_Float w) st = rbind (create_fval_item (Some w)) (\<lambda>it. Inr (new_item adr it st))"
| "var_constant_action adr (VC_Strg s) st = rbind (create_sval_t_item s) (\<lambda>it. Inr (new_item adr it st))"

text \<open>A list of constants is appended to a global list, which is made once and never emptied.\<close>

definition append_data_ptrs :: "item_ptr \<Rightarrow> asm \<Rightarrow> asm res" where
  "append_data_ptrs p st =
     (let l = (case as_data_ptrs st of None \<Rightarrow> create_ptr_list | Some l \<Rightarrow> l) in
      rbind (append_ptr_list l (Some (snd p))) (\<lambda>l. Inr (st\<lparr>as_data_ptrs := Some l\<rparr>)))"

fun var_constant_list_action :: "(nat \<Rightarrow> 64 word) \<Rightarrow> var_constant list \<Rightarrow> asm \<Rightarrow> asm res" where
  "var_constant_list_action adr [] st = Inr st"
| "var_constant_list_action adr (c # cs) st =
     rbind (var_constant_action adr c st) (\<lambda>(p, st).
     rbind (append_data_ptrs p st) (\<lambda>st.
     var_constant_list_action adr cs st))"

text \<open>
  \<open>index_expr\<close> is an int and \<open>index_constant\<close> a pointer: the value of a constant is the pointer converted
  to int, its low 32 bits.  An action that reports an error leaves the value of its first symbol.
\<close>

definition ptr_to_int :: "item_ptr \<Rightarrow> int" where
  "ptr_to_int p = sint (ucast (fst p) :: 32 word)"

fun index_expr_action :: "(nat \<Rightarrow> 64 word) \<Rightarrow> index_expr \<Rightarrow> asm \<Rightarrow> (int \<times> asm) res" where
  "index_expr_action adr (IE_Const c) st = (let (p, st) = index_constant_action adr c st in Inr (ptr_to_int p, st))"
| "index_expr_action adr (IE_Add l r) st =
     rbind (index_expr_action adr l st) (\<lambda>(a, st). rbind (index_expr_action adr r st) (\<lambda>(b, st).
     rbind (chk (a + b)) (\<lambda>v. Inr (v, st))))"
| "index_expr_action adr (IE_Sub l r) st =
     rbind (index_expr_action adr l st) (\<lambda>(a, st). rbind (index_expr_action adr r st) (\<lambda>(b, st).
     rbind (chk (a - b)) (\<lambda>v. Inr (v, st))))"
| "index_expr_action adr (IE_Mul l r) st =
     rbind (index_expr_action adr l st) (\<lambda>(a, st). rbind (index_expr_action adr r st) (\<lambda>(b, st).
     rbind (chk (a * b)) (\<lambda>v. Inr (v, st))))"
| "index_expr_action adr (IE_Div l r) st =
     rbind (index_expr_action adr l st) (\<lambda>(a, st). rbind (index_expr_action adr r st) (\<lambda>(b, st).
     if a = 0 then rbind (yyerror st) (\<lambda>st. Inr (a, st)) else rbind (c_div a b) (\<lambda>v. Inr (v, st))))"
| "index_expr_action adr (IE_Mod l r) st =
     rbind (index_expr_action adr l st) (\<lambda>(a, st). rbind (index_expr_action adr r st) (\<lambda>(b, st).
     if a = 0 then rbind (yyerror st) (\<lambda>st. Inr (a, st)) else rbind (c_mod a b) (\<lambda>v. Inr (v, st))))"
| "index_expr_action adr (IE_Paren e) st = index_expr_action adr e st"

section \<open>Variables\<close>

text \<open>
  The loop of a declaration with a size compares its counter with the pointer to the size, as addresses.
\<close>

function fill_slots :: "64 word \<Rightarrow> int \<Rightarrow> data_buffer \<Rightarrow> data_buffer res" where
  "fill_slots p i data =
     (if i < uint p
      then rbind (append_data_buffer data None) (\<lambda>(_, data). rbind (chk (i + 1)) (\<lambda>_. fill_slots p (i + 1) data))
      else Inr data)"
  by pat_completeness auto
termination
  by (relation "measure (\<lambda>(p, i, data). nat (uint p - i))") auto

declare fill_slots.simps [simp del]

definition var_symbol :: "string_t \<Rightarrow> int \<Rightarrow> int \<Rightarrow> asm \<Rightarrow> asm res" where
  "var_symbol nm len index st =
     rbind (add_symbol (as_symbols st) nm (symbol_type_val SYM_DATA) len (word_of_int index)) (\<lambda>tab.
     Inr (st\<lparr>as_symbols := tab\<rparr>))"

fun var_def_action :: "(nat \<Rightarrow> 64 word) \<Rightarrow> var_def \<Rightarrow> asm \<Rightarrow> asm res" where
  "var_def_action adr (VD_One nm) st =
     (let (p, st) = new_item adr (create_ival_item None) st in
      rbind (append_data_buffer (as_data st) (Some (snd p))) (\<lambda>(i, data).
      var_symbol nm 1 i (st\<lparr>as_data := data\<rparr>)))"
| "var_def_action adr (VD_Slots nm c) st =
     (let (p, st) = index_constant_action adr c st in
      rbind (append_data_buffer (as_data st) None) (\<lambda>(i, data).
      rbind (fill_slots (fst p) 1 data) (\<lambda>data.
      var_symbol nm (ptr_to_int p) i (st\<lparr>as_data_index := i, as_data := data\<rparr>))))"
| "var_def_action adr (VD_Value nm c) st =
     rbind (var_constant_action adr c st) (\<lambda>(_, st). var_symbol nm 1 (as_data_index st) st)"
| "var_def_action adr (VD_Values nm cs) st =
     rbind (var_constant_list_action adr cs st) (\<lambda>st.
     rbind (var_symbol nm (as_data_count st) (as_data_index st) st) (\<lambda>st.
     Inr (st\<lparr>as_data_count := 0\<rparr>)))"

section \<open>Operands and instructions\<close>

fun index_action :: "(nat \<Rightarrow> 64 word) \<Rightarrow> index \<Rightarrow> asm \<Rightarrow> asm res" where
  "index_action adr (Index e) st = rbind (index_expr_action adr e st) (\<lambda>(_, st). Inr st)"
| "index_action adr Blank_Index st = Inr st"

fun mode1_action :: "(nat \<Rightarrow> 64 word) \<Rightarrow> mode1 \<Rightarrow> asm \<Rightarrow> asm res" where
  "mode1_action adr (M1_Register r) st = Inr st"
| "mode1_action adr (M1_Indexed r i) st = index_action adr i st"
| "mode1_action adr (M1_Name s) st = Inr st"

fun mode2_action :: "(nat \<Rightarrow> 64 word) \<Rightarrow> mode2 \<Rightarrow> asm \<Rightarrow> asm res" where
  "mode2_action adr (M2_Mode1 m) st = mode1_action adr m st"
| "mode2_action adr (M2_Const c) st = Inr (snd (index_constant_action adr c st))"

fun mode3_action :: "(nat \<Rightarrow> 64 word) \<Rightarrow> mode3 \<Rightarrow> asm \<Rightarrow> asm res" where
  "mode3_action adr (M3_Mode2 m) st = mode2_action adr m st"
| "mode3_action adr (M3_Float w) st = Inr st"

text \<open>The actions of the instructions only trace: no code is emitted.\<close>

fun assembler_instruction_action :: "(nat \<Rightarrow> 64 word) \<Rightarrow> assembler_instruction \<Rightarrow> asm \<Rightarrow> asm res" where
  "assembler_instruction_action adr (AI_Mov m1 m3) st = rbind (mode1_action adr m1 st) (mode3_action adr m3)"
| "assembler_instruction_action adr (AI_Push m3) st = mode3_action adr m3 st"
| "assembler_instruction_action adr (AI_Pop m1) st = mode1_action adr m1 st"
| "assembler_instruction_action adr (AI_Cpy m1 r c) st =
     rbind (mode1_action adr m1 st) (\<lambda>st. Inr (snd (index_constant_action adr c st)))"
| "assembler_instruction_action adr (AI_Arith t m1 r s) st = mode1_action adr m1 st"
| "assembler_instruction_action adr (AI_Ctrl t m1) st = mode1_action adr m1 st"
| "assembler_instruction_action adr (AI_Comp t a b) st = rbind (mode2_action adr a st) (mode2_action adr b)"
| "assembler_instruction_action adr (AI_Exit_Index c) st = Inr (snd (index_constant_action adr c st))"
| "assembler_instruction_action adr i st = Inr st"

end
