(* ===== verification/Parser_Facts.thy ===== *)
theory Parser_Facts
  imports Parser_Actions
begin

text \<open>
  What the actions of the parser do to the data section and the symbol table.
\<close>

section \<open>The symbol table\<close>

type_synonym fields = "int \<times> int \<times> 32 word"

text \<open>A table of at most \<open>n\<close> names with the fields of the map.\<close>

definition sym_rep :: "sym_table \<Rightarrow> (string \<Rightarrow> fields option) \<Rightarrow> nat \<Rightarrow> bool" where
  "sym_rep tab m n \<longleftrightarrow>
     (case tab of
        None \<Rightarrow> m = Map.empty
      | Some t \<Rightarrow> ht_inv t \<and> (\<lambda>s. map_option sym_fields (ht_map t s)) = m \<and> ht_count t \<le> int n \<and>
          (\<forall>s y. ht_map t s = Some y \<longrightarrow> (\<exists>cs. sb_str (sy_name y) cs)))"

definition declare_first :: "string \<Rightarrow> 'v \<Rightarrow> (string \<Rightarrow> 'v option) \<Rightarrow> string \<Rightarrow> 'v option" where
  "declare_first s v m = (case m s of None \<Rightarrow> m(s \<mapsto> v) | Some _ \<Rightarrow> m)"

lemma sym_rep_start: "sym_rep None Map.empty 0"
  by (simp add: sym_rep_def)

lemma add_symbol_rep:
  assumes tab: "sym_rep tab m n" and nm: "sb_str nm s" and n: "n < 2 ^ 29"
  shows "\<exists>tab'. add_symbol tab nm ty len ix = Inr tab' \<and> sym_rep tab' (declare_first s (ty, len, ix) m) (Suc n)"
proof -
  define t where "t = (case tab of None \<Rightarrow> create_hashtable | Some t \<Rightarrow> t)"
  let ?y = "sym_of (nm, ty, len, ix)"
  have t: "ht_inv t" "(\<lambda>s. map_option sym_fields (ht_map t s)) = m" "ht_count t \<le> int n"
    "\<forall>s y. ht_map t s = Some y \<longrightarrow> (\<exists>cs. sb_str (sy_name y) cs)"
    using tab by (auto simp: t_def sym_rep_def ht.new_tab split: option.splits)
  have y: "\<exists>cs. sb_str (sy_name ?y) cs" using copy_string_rep [OF nm] sb_rep_str by fastforce
  have add: "add_symbol tab nm ty len ix = rbind (insert_hashtable t s ?y) (\<lambda>(_, t). Inr (Some t))"
    using add_symbol_ins [OF nm] by (simp add: t_def)
  have lim: "ht_count t < 2 ^ 29" using t(3) n by simp
  show ?thesis
  proof (cases "ht_map t s")
    case None
    then obtain t' where "insert_hashtable t s ?y = Inr (1, t')" "ht_inv t'" "ht_map t' = (ht_map t)(s \<mapsto> ?y)"
      "ht_count t' = ht_count t + 1" using ht.ins_new [OF t(1) lim] by blast
    moreover have "m s = None" using None t(2) by auto
    ultimately show ?thesis
      using add t(2,3,4) y by (auto simp: sym_rep_def declare_first_def fun_eq_iff simp del: sym_of.simps)
  next
    case (Some w)
    then obtain t' where "insert_hashtable t s ?y = Inr (0, t')" "ht_inv t'" "ht_map t' = ht_map t" "ht_count t' = ht_count t"
      using ht.ins_dup [OF t(1) lim Some] by blast
    moreover have "m s = Some (sym_fields w)" using Some t(2) by auto
    ultimately show ?thesis using add t(2,3,4) by (auto simp: sym_rep_def declare_first_def)
  qed
qed

lemma get_symbol_rep:
  assumes "sym_rep (Some t) m n" "sb_str nm s"
  shows "\<exists>ent. get_symbol (Some t) nm = Inr (ent, Some t) \<and> map_option sym_fields ent = m s"
  using assms get_symbol_find [OF assms(2)] by (auto simp: sym_rep_def)

lemma dump_sym_buckets_ok:
  "\<forall>(k, y) \<in> set (entries bs). \<exists>cs. sb_str (sy_name y) cs \<Longrightarrow> \<exists>ls. dump_sym_buckets bs i no = Inr ls"
proof (induction bs i no rule: dump_sym_buckets.induct)
  case (3 nd bs i no)
  show ?case
  proof (cases "nd_key nd")
    case None
    then show ?thesis using 3 by (cases nd) simp
  next
    case (Some k)
    then obtain d where nd: "nd = Node (Some k) d" by (cases nd) auto
    then obtain cs where "sb_str (sy_name d) cs" using "3.prems" by auto
    then have "cstr (sb_buffer (sy_name d)) 0 = Inr cs" by (auto simp: sb_str_def)
    then have line: "dump_symbol (nd_data nd) = Inr (cs, sy_type d, sy_length d, sy_index d)" by (simp add: dump_symbol_def nd)
    moreover have "\<forall>(k, y) \<in> set (entries bs). \<exists>cs. sb_str (sy_name y) cs" using "3.prems" nd by simp
    then obtain ls where "dump_sym_buckets bs (i + 1) (no + 1) = Inr ls" using "3.IH"(2) [OF Some line] by blast
    ultimately show ?thesis using nd by simp
  qed
qed simp_all

lemma dump_sym_table_ok:
  assumes "sym_rep (Some t) m n"
  shows "\<exists>r. dump_sym_table (Some t) = Inr r"
proof -
  have t: "ht_inv t" "\<forall>s y. ht_map t s = Some y \<longrightarrow> (\<exists>cs. sb_str (sy_name y) cs)" using assms by (simp_all add: sym_rep_def)
  obtain k where "core (ht_table t) k" using ht_invE [OF t(1)] by metis
  from core_distinct [OF this] have "\<forall>(k, y) \<in> set (entries (ht_table t)). ht_map t k = Some y"
    by (auto simp: ht_map_def)
  then have "\<forall>(k, y) \<in> set (entries (ht_table t)). \<exists>cs. sb_str (sy_name y) cs" using t(2) by blast
  from dump_sym_buckets_ok [OF this, of 0 1] show ?thesis by (auto simp: dump_sym_table_def)
qed

lemma dump_data_buffer_ok:
  assumes "db_rep d tags"
  shows "dump_data_buffer d = Inr (map Show_Unsigned tags)"
proof -
  obtain l where l: "d = Live l" "pl_rep l (map (\<lambda>t. Some (create_uval_item (Some t))) tags)"
    using assms by (auto simp: db_rep_def)
  show ?thesis
    using iter_while_rep [OF l(2), of 0 "\<lambda>it s. rbind (dump_data_item it) (\<lambda>d. Inr (False, s @ [d]))" "[]"]
      loop_list_dump [of tags 0 "[]"] by (simp add: dump_data_buffer_def l(1))
qed

section \<open>The data section\<close>

lemma append_NULL_rep:
  assumes "db_rep d tags" "length tags < 2 ^ 30"
  shows "\<exists>d'. append_data_buffer d None = Inr (int (length tags), d') \<and> db_rep d' (tags @ [0])"
proof -
  have "append_data_buffer d None = append_data_buffer d (Some (create_ival_item None))"
    by (simp add: append_data_buffer_def create_uval_item_def create_ival_item_def)
  then show ?thesis using append_data_buffer_rep [OF assms, of "create_ival_item None"] by (simp add: create_ival_item_def)
qed

lemma append_full:
  assumes "db_rep d tags" "length tags = 2 ^ 30"
  shows "append_data_buffer d it = Inl Int_Overflow"
proof -
  obtain l where l: "d = Live l" "pl_rep l (map (\<lambda>t. Some (create_uval_item (Some t))) tags)"
    using assms(1) by (auto simp: db_rep_def)
  show ?thesis using append_ptr_list_full [OF l(2)] assms(2) by (simp add: append_data_buffer_def l(1))
qed

lemma db_rep_length: "db_rep d tags \<Longrightarrow> length tags \<le> 2 ^ 30"
  unfolding db_rep_def using pl_repD(5,6) by fastforce

lemma fill_slots_fits:
  "db_rep d tags \<Longrightarrow> 1 \<le> i \<Longrightarrow> i \<le> int (length tags) \<Longrightarrow> int (length tags) + (uint p - i) \<le> 2 ^ 30 \<Longrightarrow>
   \<exists>d'. fill_slots p i d = Inr d' \<and> db_rep d' (tags @ replicate (nat (uint p - i)) 0)"
proof (induction p i d arbitrary: tags rule: fill_slots.induct)
  case (1 p i d)
  show ?case
  proof (cases "i < uint p")
    case False
    then show ?thesis using "1.prems"(1) by (simp add: fill_slots.simps)
  next
    case True
    then have "length tags < 2 ^ 30" using "1.prems"(4) by simp
    from append_NULL_rep [OF "1.prems"(1) this] obtain d1
      where d1: "append_data_buffer d None = Inr (int (length tags), d1)" "db_rep d1 (tags @ [0])" by blast
    have c: "chk (i + 1) = Inr (i + 1)" using "1.prems"(2,3) db_rep_length [OF "1.prems"(1)] by simp
    obtain d' where "fill_slots p (i + 1) d1 = Inr d'" "db_rep d' ((tags @ [0]) @ replicate (nat (uint p - (i + 1))) 0)"
      using "1.IH" [OF True d1(1) refl c d1(2)] "1.prems"(2-4) by auto
    moreover have "nat (uint p - i) = Suc (nat (uint p - (i + 1)))" using True by simp
    ultimately show ?thesis using True d1(1) c by (subst fill_slots.simps) simp
  qed
qed

lemma fill_slots_full:
  "db_rep d tags \<Longrightarrow> 1 \<le> i \<Longrightarrow> i \<le> int (length tags) \<Longrightarrow> 2 ^ 30 < int (length tags) + (uint p - i) \<Longrightarrow>
   fill_slots p i d = Inl Int_Overflow"
proof (induction p i d arbitrary: tags rule: fill_slots.induct)
  case (1 p i d)
  have le: "int (length tags) \<le> 2 ^ 30" using db_rep_length [OF "1.prems"(1)] by (metis of_nat_le_numeral_power_cancel_iff)
  then have lt: "i < uint p" using "1.prems"(4) by linarith
  show ?case
  proof (cases "length tags = 2 ^ 30")
    case True
    then show ?thesis using append_full [OF "1.prems"(1) True] lt by (subst fill_slots.simps) simp
  next
    case False
    then have "length tags < 2 ^ 30" using db_rep_length [OF "1.prems"(1)] by simp
    from append_NULL_rep [OF "1.prems"(1) this] obtain d1
      where d1: "append_data_buffer d None = Inr (int (length tags), d1)" "db_rep d1 (tags @ [0])" by blast
    have c: "chk (i + 1) = Inr (i + 1)" using "1.prems"(2,3) le by simp
    have "fill_slots p (i + 1) d1 = Inl Int_Overflow"
      using "1.IH" [OF lt d1(1) refl c d1(2)] "1.prems"(2-4) by auto
    then show ?thesis using lt d1(1) c by (subst fill_slots.simps) simp
  qed
qed

section \<open>Declarations without a size\<close>

fun do_var_defs :: "(nat \<Rightarrow> 64 word) \<Rightarrow> var_def list \<Rightarrow> asm \<Rightarrow> asm res" where
  "do_var_defs adr [] st = Inr st"
| "do_var_defs adr (d # ds) st = rbind (var_def_action adr d st) (do_var_defs adr ds)"

text \<open>Constants that can be made: a float that fits unsigned int, a well-formed string.\<close>

fun const_ok :: "var_constant \<Rightarrow> bool" where
  "const_ok (VC_Index c) \<longleftrightarrow> True"
| "const_ok (VC_Float w) \<longleftrightarrow> f32_exp w \<noteq> 255 \<and> 0 \<le> f32_trunc w \<and> f32_trunc w < 2 ^ 32"
| "const_ok (VC_Strg s) \<longleftrightarrow> (\<exists>cs. sb_str s cs)"

fun decl_ok :: "var_def \<Rightarrow> string \<Rightarrow> bool" where
  "decl_ok (VD_One nm) s \<longleftrightarrow> sb_str nm s"
| "decl_ok (VD_Slots nm c) s \<longleftrightarrow> False"
| "decl_ok (VD_Value nm c) s \<longleftrightarrow> sb_str nm s \<and> const_ok c"
| "decl_ok (VD_Values nm cs) s \<longleftrightarrow> sb_str nm s \<and> (\<forall>c \<in> set cs. const_ok c)"

fun new_slots :: "var_def list \<Rightarrow> nat" where
  "new_slots [] = 0"
| "new_slots (VD_One nm # ds) = Suc (new_slots ds)"
| "new_slots (d # ds) = new_slots ds"

fun listed :: "var_def list \<Rightarrow> nat" where
  "listed [] = 0"
| "listed (VD_Values nm cs # ds) = length cs + listed ds"
| "listed (d # ds) = listed ds"

text \<open>The type, the length and the index that a declaration records, with \<open>n\<close> slots in use before it.\<close>

fun decl_fields :: "nat \<Rightarrow> var_def list \<Rightarrow> fields list" where
  "decl_fields n [] = []"
| "decl_fields n (VD_One nm # ds) = (1, 1, word_of_nat n) # decl_fields (Suc n) ds"
| "decl_fields n (VD_Values nm cs # ds) = (1, 0, 0) # decl_fields n ds"
| "decl_fields n (d # ds) = (1, 1, 0) # decl_fields n ds"

definition ptrs_rep :: "data_item pointer_list option \<Rightarrow> nat \<Rightarrow> bool" where
  "ptrs_rep p k \<longleftrightarrow> (case p of None \<Rightarrow> True | Some l \<Rightarrow> \<exists>xs. pl_rep l xs \<and> length xs \<le> k)"

definition asm_rep :: "asm \<Rightarrow> 32 word list \<Rightarrow> (string \<Rightarrow> fields option) \<Rightarrow> nat \<Rightarrow> nat \<Rightarrow> bool" where
  "asm_rep st tags m n k \<longleftrightarrow>
     db_rep (as_data st) tags \<and> sym_rep (as_symbols st) m n \<and> ptrs_rep (as_data_ptrs st) k \<and>
     as_data_index st = 0 \<and> as_data_count st = 0"

lemma asm_rep_start: "asm_rep (asm_start (create_data_buffer Null)) [] Map.empty 0 0"
  using create_data_buffer_rep sym_rep_start by (simp add: asm_rep_def asm_start_def ptrs_rep_def)

lemma var_constant_action_ok:
  assumes "asm_rep st tags m n k" "const_ok c"
  shows "\<exists>p st'. var_constant_action adr c st = Inr (p, st') \<and> asm_rep st' tags m n k \<and> as_errors st' = as_errors st"
proof -
  have new: "asm_rep (snd (new_item adr it st)) tags m n k \<and> as_errors (snd (new_item adr it st)) = as_errors st" for it
    using assms(1) by (simp add: new_item_def asm_rep_def)
  show ?thesis
  proof (cases c)
    case (VC_Index i)
    then show ?thesis using new by (cases i; simp) (metis prod.collapse)+
  next
    case (VC_Float w)
    then show ?thesis using new assms(2)
      by (simp add: create_fval_item_def f32_to_u32_def) (metis prod.collapse)
  next
    case (VC_Strg s)
    then obtain t where "create_sval_t_item s = Inr t"
      using assms(2) copy_string_rep by (fastforce simp: create_sval_t_item_def)
    then show ?thesis using VC_Strg new by simp (metis prod.collapse)
  qed
qed

lemma append_data_ptrs_ok:
  assumes "asm_rep st tags m n k" "k < 2 ^ 30"
  shows "\<exists>st'. append_data_ptrs p st = Inr st' \<and> asm_rep st' tags m n (Suc k) \<and> as_errors st' = as_errors st"
proof -
  define l where "l = (case as_data_ptrs st of None \<Rightarrow> create_ptr_list | Some l \<Rightarrow> l)"
  obtain xs where xs: "pl_rep l xs" "length xs \<le> k"
    using assms(1) create_ptr_list_rep by (fastforce simp: l_def asm_rep_def ptrs_rep_def split: option.splits)
  then obtain l' where "append_ptr_list l (Some (snd p)) = Inr l'" "pl_rep l' (xs @ [Some (snd p)])"
    using append_ptr_list_rep [OF xs(1), of "Some (snd p)"] assms(2) by auto
  then show ?thesis using assms(1) xs(2)
    by (fastforce simp: append_data_ptrs_def l_def [symmetric] asm_rep_def ptrs_rep_def intro!: exI [of _ "xs @ [Some (snd p)]"])
qed

lemma var_constant_list_action_ok:
  "asm_rep st tags m n k \<Longrightarrow> \<forall>c \<in> set cs. const_ok c \<Longrightarrow> k + length cs \<le> 2 ^ 30 \<Longrightarrow>
   \<exists>st'. var_constant_list_action adr cs st = Inr st' \<and> asm_rep st' tags m n (k + length cs) \<and> as_errors st' = as_errors st"
proof (induction cs arbitrary: st k)
  case (Cons c cs)
  obtain p st1 where st1: "var_constant_action adr c st = Inr (p, st1)" "asm_rep st1 tags m n k" "as_errors st1 = as_errors st"
    using var_constant_action_ok [OF Cons.prems(1), of c adr] Cons.prems(2) by auto
  obtain st2 where st2: "append_data_ptrs p st1 = Inr st2" "asm_rep st2 tags m n (Suc k)" "as_errors st2 = as_errors st1"
    using append_data_ptrs_ok [OF st1(2), of p] Cons.prems(3) by auto
  show ?case using Cons.IH [OF st2(2)] Cons.prems(2,3) st1(1,3) st2(1,3) by simp
qed simp

lemma var_symbol_ok:
  assumes "asm_rep st tags m n k" "sb_str nm s" "n < 2 ^ 29"
  shows "\<exists>st'. var_symbol nm len ix st = Inr st' \<and> as_errors st' = as_errors st \<and>
    asm_rep st' tags (declare_first s (1, len, word_of_int ix) m) (Suc n) k"
  using add_symbol_rep [of "as_symbols st" m n nm s 1 len "word_of_int ix"] assms
  by (auto simp: var_symbol_def asm_rep_def)

lemma var_def_action_ok:
  assumes st: "asm_rep st tags m n k" and d: "decl_ok d s" and n: "n < 2 ^ 29" "length tags < 2 ^ 30"
    and k: "k + listed [d] \<le> 2 ^ 30"
  shows "\<exists>st'. var_def_action adr d st = Inr st' \<and> as_errors st' = as_errors st \<and>
    asm_rep st' (tags @ replicate (new_slots [d]) 0) (declare_first s (hd (decl_fields (length tags) [d])) m) (Suc n)
      (k + listed [d])"
proof (cases d)
  case (VD_One nm)
  define st1 where "st1 = st\<lparr>as_items := as_items st + 1\<rparr>"
  have st1: "asm_rep st1 tags m n k" using st by (simp add: st1_def asm_rep_def)
  obtain data where data: "append_data_buffer (as_data st1) (Some (create_ival_item None)) = Inr (int (length tags), data)"
    "db_rep data (tags @ [0])"
    using append_data_buffer_rep [of "as_data st1" tags "create_ival_item None"] st1 n(2)
    by (auto simp: asm_rep_def create_ival_item_def)
  have "asm_rep (st1\<lparr>as_data := data\<rparr>) (tags @ [0]) m n k" using st1 data(2) by (simp add: asm_rep_def)
  from var_symbol_ok [OF this _ n(1), of nm s 1 "int (length tags)"] show ?thesis
    using VD_One d data(1) by (auto simp: st1_def new_item_def Let_def)
next
  case (VD_Value nm c)
  obtain p st1 where st1: "var_constant_action adr c st = Inr (p, st1)" "asm_rep st1 tags m n k" "as_errors st1 = as_errors st"
    using var_constant_action_ok [OF st, of c adr] d VD_Value by auto
  then have "as_data_index st1 = 0" by (simp add: asm_rep_def)
  then show ?thesis using var_symbol_ok [OF st1(2) _ n(1), of nm s 1 0] VD_Value d st1(1,3) by auto
next
  case (VD_Values nm cs)
  obtain st1 where st1: "var_constant_list_action adr cs st = Inr st1" "asm_rep st1 tags m n (k + length cs)"
    "as_errors st1 = as_errors st"
    using var_constant_list_action_ok [OF st, of cs adr] d k VD_Values by auto
  then have "as_data_index st1 = 0" "as_data_count st1 = 0" by (simp_all add: asm_rep_def)
  moreover obtain st2 where "var_symbol nm 0 0 st1 = Inr st2" "as_errors st2 = as_errors st1"
    "asm_rep st2 tags (declare_first s (1, 0, 0) m) (Suc n) (k + length cs)"
    using var_symbol_ok [OF st1(2) _ n(1), of nm s 0 0] VD_Values d by auto
  moreover from this(3) have "asm_rep (st2\<lparr>as_data_count := 0\<rparr>) tags (declare_first s (1, 0, 0) m) (Suc n) (k + length cs)"
    by (simp add: asm_rep_def)
  ultimately show ?thesis using VD_Values st1(1,3) by simp
qed (use d in simp)

lemma decl_steps:
  "new_slots (d # ds) = new_slots [d] + new_slots ds" "listed (d # ds) = listed [d] + listed ds"
  "decl_fields n (d # ds) = hd (decl_fields n [d]) # decl_fields (n + new_slots [d]) ds"
  by (cases d; simp)+

lemma declare_first_chain: "map_of kvs ++ declare_first s v m = map_of ((s, v) # kvs) ++ m"
  by (auto simp: declare_first_def map_add_def fun_eq_iff split: option.splits)

lemma do_var_defs_ok:
  "asm_rep st tags m n k \<Longrightarrow> list_all2 decl_ok ds ss \<Longrightarrow> n + length ds \<le> 2 ^ 29 \<Longrightarrow>
   length tags + new_slots ds \<le> 2 ^ 29 \<Longrightarrow> k + listed ds \<le> 2 ^ 30 \<Longrightarrow>
   \<exists>st'. do_var_defs adr ds st = Inr st' \<and> as_errors st' = as_errors st \<and>
     asm_rep st' (tags @ replicate (new_slots ds) 0)
       (map_of (zip ss (decl_fields (length tags) ds)) ++ m)
       (n + length ds) (k + listed ds)"
proof (induction ds arbitrary: st tags m n k ss)
  case Nil
  then show ?case by simp
next
  case (Cons d ds)
  obtain s ss' where ss: "ss = s # ss'" "decl_ok d s" "list_all2 decl_ok ds ss'" using Cons.prems(2) by (cases ss) auto
  note step = decl_steps [where d = d and ds = ds]
  let ?v = "hd (decl_fields (length tags) [d])"
  let ?t = "tags @ replicate (new_slots [d]) 0"
  obtain st1 where st1: "var_def_action adr d st = Inr st1" "as_errors st1 = as_errors st"
    "asm_rep st1 ?t (declare_first s ?v m) (Suc n) (k + listed [d])"
    using var_def_action_ok [OF Cons.prems(1) ss(2), of adr] Cons.prems(3-5) step by auto
  obtain st2 where "do_var_defs adr ds st1 = Inr st2" "as_errors st2 = as_errors st1"
    "asm_rep st2 (?t @ replicate (new_slots ds) 0)
       (map_of (zip ss' (decl_fields (length ?t) ds)) ++ declare_first s ?v m)
       (Suc n + length ds) (k + listed [d] + listed ds)"
    using Cons.IH [OF st1(3) ss(3)] Cons.prems(3-5) step by auto
  then show ?case
    using st1(1,2) step(1,2) unfolding ss(1) step(3) zip_Cons_Cons declare_first_chain
    by (simp add: replicate_add add.assoc fun_upd_def)
qed

section \<open>Properties\<close>

text \<open>Declarations of variables without a size, each of a well-formed name and of constants that can be
  made, leave a data section with one slot of 0 for every declaration without an initial value and none for the
  others: an initialised variable gets the index 0 and its values are dropped, and a list gets the length 0.
  get_symbol finds for every name the fields of its first declaration.\<close>

theorem declarations_recorded:
  assumes "list_all2 decl_ok ds ss" "ds \<noteq> []" "length ds \<le> 2 ^ 29" "listed ds \<le> 2 ^ 30"
  shows "\<exists>st. do_var_defs adr ds (asm_start (create_data_buffer Null)) = Inr st \<and> as_errors st = 0 \<and>
    db_rep (as_data st) (replicate (new_slots ds) 0) \<and>
    (\<forall>nm s. sb_str nm s \<longrightarrow> rbind (get_symbol (as_symbols st) nm) (\<lambda>(ent, _). Inr (map_option sym_fields ent)) =
       Inr (map_of (zip ss (decl_fields 0 ds)) s))"
proof -
  have "new_slots ds \<le> length ds" by (induction ds rule: new_slots.induct) auto
  then have "length ([] :: 32 word list) + new_slots ds \<le> 2 ^ 29" "0 + length ds \<le> 2 ^ 29" "0 + listed ds \<le> 2 ^ 30"
    using assms(3,4) by simp_all
  from do_var_defs_ok [OF asm_rep_start assms(1) this(2,1,3), of adr]
  obtain st where st: "do_var_defs adr ds (asm_start (create_data_buffer Null)) = Inr st"
    "as_errors st = as_errors (asm_start (create_data_buffer Null))"
    "asm_rep st (replicate (new_slots ds) 0) (map_of (zip ss (decl_fields 0 ds))) (length ds) (listed ds)"
    unfolding append_Nil list.size map_add_empty add_0 by blast
  have err: "as_errors st = 0" using st(2) by (simp add: asm_start_def)
  obtain d ds' s ss' where eq: "ds = d # ds'" "ss = s # ss'" using assms(1,2) by (cases ds; cases ss) auto
  have "decl_fields 0 ds \<noteq> []" unfolding eq(1) by (cases d) simp_all
  then have "map_of (zip ss (decl_fields 0 ds)) \<noteq> Map.empty" using eq(2) by (cases "decl_fields 0 ds") auto
  then obtain t where t: "as_symbols st = Some t" using st(3) by (auto simp: asm_rep_def sym_rep_def split: option.splits)
  have "rbind (get_symbol (as_symbols st) nm) (\<lambda>(ent, _). Inr (map_option sym_fields ent)) =
      Inr (map_of (zip ss (decl_fields 0 ds)) x)" if "sb_str nm x" for nm x
  proof -
    have "sym_rep (Some t) (map_of (zip ss (decl_fields 0 ds))) (length ds)" using st(3) t by (simp add: asm_rep_def)
    from get_symbol_rep [OF this that] show ?thesis using t by auto
  qed
  then show ?thesis using st(1,3) err unfolding asm_rep_def by blast
qed

text \<open>The program \<open>data a  data b = 7  data c  data d = {1, 2}\<close>.\<close>

theorem declarations_recorded_witness:
  "\<exists>st. do_var_defs (\<lambda>_. 4096) [VD_One (str8 ''a''), VD_Value (str8 ''b'') (VC_Index (IC_Int 7)), VD_One (str8 ''c''),
      VD_Values (str8 ''d'') [VC_Index (IC_Int 1), VC_Index (IC_Int 2)]] (asm_start (create_data_buffer Null)) = Inr st \<and>
    db_rep (as_data st) [0, 0] \<and>
    rbind (get_symbol (as_symbols st) (str8 ''b'')) (\<lambda>(ent, _). Inr (map_option sym_fields ent)) = Inr (Some (1, 1, 0)) \<and>
    rbind (get_symbol (as_symbols st) (str8 ''c'')) (\<lambda>(ent, _). Inr (map_option sym_fields ent)) = Inr (Some (1, 1, 1)) \<and>
    rbind (get_symbol (as_symbols st) (str8 ''d'')) (\<lambda>(ent, _). Inr (map_option sym_fields ent)) = Inr (Some (1, 0, 0))"
proof -
  have n: "sb_str (str8 [c]) [c]" if "c \<noteq> NUL" for c using that by (intro str8_rep) (simp_all add: nul_free_def)
  let ?ds = "[VD_One (str8 ''a''), VD_Value (str8 ''b'') (VC_Index (IC_Int 7)), VD_One (str8 ''c''),
        VD_Values (str8 ''d'') [VC_Index (IC_Int 1), VC_Index (IC_Int 2)]]"
  have "list_all2 decl_ok ?ds [''a'', ''b'', ''c'', ''d'']" by (simp add: n)
  from declarations_recorded [OF this, of "\<lambda>_. 4096"] obtain st where
    st: "do_var_defs (\<lambda>_. 4096) ?ds (asm_start (create_data_buffer Null)) = Inr st" "db_rep (as_data st) [0, 0]"
    and sym: "\<And>nm s. sb_str nm s \<Longrightarrow> rbind (get_symbol (as_symbols st) nm) (\<lambda>(ent, _). Inr (map_option sym_fields ent)) =
       Inr (map_of (zip [''a'', ''b'', ''c'', ''d''] (decl_fields 0 ?ds)) s)"
    by (auto simp del: do_var_defs.simps create_data_buffer.simps decl_fields.simps)
  show ?thesis
    using st sym [OF n, of "CHR ''b''"] sym [OF n, of "CHR ''c''"] sym [OF n, of "CHR ''d''"]
    by (intro exI [of _ st]) (simp del: do_var_defs.simps create_data_buffer.simps)
qed

text \<open>The number of slots of a declaration with a size is the address of the size: the loop compares its
  counter with the pointer to the constant.  At most 2^30 slots fit, so for an address beyond that every such
  declaration fails, whatever its size.\<close>

theorem slots_by_address:
  assumes "db_rep (as_data st) tags" "length tags < 2 ^ 30"
  shows "let p = adr (as_items st); n = max 1 (unat p) in
    if length tags + n \<le> 2 ^ 30
    then \<exists>data. db_rep data (tags @ replicate n 0) \<and>
      var_def_action adr (VD_Slots nm c) st =
        var_symbol nm (sint (ucast p :: 32 word)) (int (length tags))
          (st\<lparr>as_items := as_items st + 1, as_data_index := int (length tags), as_data := data\<rparr>)
    else var_def_action adr (VD_Slots nm c) st = Inl Int_Overflow"
proof -
  define p where "p = adr (as_items st)"
  obtain d1 where d1: "append_data_buffer (as_data st) None = Inr (int (length tags), d1)" "db_rep d1 (tags @ [0])"
    using append_NULL_rep [OF assms] by blast
  have item: "\<exists>it. index_constant_action adr c st = ((p, it), st\<lparr>as_items := as_items st + 1\<rparr>)"
    by (cases c) (simp_all add: new_item_def p_def)
  have act: "var_def_action adr (VD_Slots nm c) st =
      rbind (fill_slots p 1 d1) (\<lambda>data. var_symbol nm (sint (ucast p :: 32 word)) (int (length tags))
        (st\<lparr>as_items := as_items st + 1, as_data_index := int (length tags), as_data := data\<rparr>))"
    using item d1(1) by (auto simp: ptr_to_int_def)
  define k where "k = unat p"
  have u: "uint p = int k" by (simp add: k_def)
  show ?thesis
  proof (cases "length tags + max 1 (k) \<le> 2 ^ 30")
    case True
    have "\<exists>d'. fill_slots p 1 d1 = Inr d' \<and> db_rep d' ((tags @ [0]) @ replicate (nat (uint p - 1)) 0)"
    proof (cases "k = 0")
      case True
      then have "uint p = 0" using u by simp
      then show ?thesis using d1(2) by (simp add: fill_slots.simps)
    next
      case False
      then show ?thesis using fill_slots_fits [OF d1(2), of 1 p] True u by simp
    qed
    moreover have "(tags @ [0]) @ replicate (nat (uint p - 1)) 0 = tags @ replicate (max 1 (k)) (0 :: 32 word)"
    proof -
      have "max 1 (k) = Suc (nat (uint p - 1))" unfolding u by auto
      then show ?thesis by simp
    qed
    ultimately obtain d' where "fill_slots p 1 d1 = Inr d'" "db_rep d' (tags @ replicate (max 1 (k)) 0)" by metis
    then show ?thesis unfolding Let_def p_def [symmetric] k_def [symmetric] act if_P [OF True]
      by (intro exI [of _ d']) (simp only: rbind_Inr simp_thms)
  next
    case False
    then have "fill_slots p 1 d1 = Inl Int_Overflow"
      using fill_slots_full [OF d1(2), of 1 p] assms(2) u by (auto simp: max_def split: if_splits)
    then show ?thesis unfolding Let_def p_def [symmetric] k_def [symmetric] act if_not_P [OF False] by (simp only: rbind_Inl)
  qed
qed

text \<open>On a heap at the usual place \<open>data buf[4]\<close> fails.\<close>

theorem slots_by_address_witness:
  "var_def_action (\<lambda>n. 0x7F0000001000 + 16 * word_of_nat n) (VD_Slots (str8 ''buf'') (IC_Int 4))
     (asm_start (create_data_buffer Null)) = Inl Int_Overflow"
  using slots_by_address [of "asm_start (create_data_buffer Null)" "[]" "\<lambda>n. 0x7F0000001000 + 16 * word_of_nat n"]
    create_data_buffer_rep
  by (simp add: asm_start_def Let_def del: create_data_buffer.simps var_def_action.simps)

fun map_literals :: "(index_constant \<Rightarrow> index_constant) \<Rightarrow> index_expr \<Rightarrow> index_expr" where
  "map_literals f (IE_Const c) = IE_Const (f c)"
| "map_literals f (IE_Add l r) = IE_Add (map_literals f l) (map_literals f r)"
| "map_literals f (IE_Sub l r) = IE_Sub (map_literals f l) (map_literals f r)"
| "map_literals f (IE_Mul l r) = IE_Mul (map_literals f l) (map_literals f r)"
| "map_literals f (IE_Div l r) = IE_Div (map_literals f l) (map_literals f r)"
| "map_literals f (IE_Mod l r) = IE_Mod (map_literals f l) (map_literals f r)"
| "map_literals f (IE_Paren e) = IE_Paren (map_literals f e)"

text \<open>The literals of an index expression do not matter for its value: replacing them by any others gives
  the same value, the same errors and the same state, since an action takes the pointer to a constant for its
  value.\<close>

theorem index_ignores_literals:
  "index_expr_action adr (map_literals f e) st = index_expr_action adr e st"
proof (induction e arbitrary: st)
  case (IE_Const c)
  have "\<exists>it. index_constant_action adr c st = ((adr (as_items st), it), st\<lparr>as_items := as_items st + 1\<rparr>)" for c
    by (cases c) (simp_all add: new_item_def)
  from this [of c] this [of "f c"] show ?case by (auto simp: Let_def ptr_to_int_def)
qed simp_all

text \<open>The test before a division or a remainder in an index expression looks at the left operand: a zero
  there is reported as a division by zero, and a zero on the right divides by zero.\<close>

theorem index_division_test:
  assumes "index_expr_action adr l st = Inr (a, st1)" "index_expr_action adr r st1 = Inr (b, st2)"
    and "as_errors st2 < INT_MAX" "INT_MIN \<le> as_errors st2"
  shows "index_expr_action adr (IE_Div l r) st =
      (if a = 0 then Inr (0, st2\<lparr>as_errors := as_errors st2 + 1\<rparr>) else if b = 0 then Inl Div_By_Zero
       else rbind (c_div a b) (\<lambda>v. Inr (v, st2))) \<and>
    index_expr_action adr (IE_Mod l r) st =
      (if a = 0 then Inr (0, st2\<lparr>as_errors := as_errors st2 + 1\<rparr>) else if b = 0 then Inl Div_By_Zero
       else rbind (c_mod a b) (\<lambda>v. Inr (v, st2)))"
  using assms by (simp add: yyerror_def c_div_def c_mod_def)

text \<open>The second constant lies at an address whose low 32 bits are zero.\<close>

theorem index_division_test_witness:
  "index_expr_action (\<lambda>n. if n = 0 then 16 else 0x100000000) (IE_Div (IE_Const (IC_Int 6)) (IE_Const (IC_Int 3)))
     (asm_start Null) = Inl Div_By_Zero"
  using index_division_test [of "\<lambda>n. if n = 0 then 16 else 0x100000000" "IE_Const (IC_Int 6)" "asm_start Null" 16
      "(asm_start Null)\<lparr>as_items := 1\<rparr>" "IE_Const (IC_Int 3)" 0 "(asm_start Null)\<lparr>as_items := 2\<rparr>"]
  by (simp add: asm_start_def new_item_def ptr_to_int_def del: index_expr_action.simps(5))

end
