(* ===== verification/Assembler.thy ===== *)
theory Assembler
  imports Token_Text Parser_Facts Cmdline_Parse Trace Code_Buffer
begin

text \<open>
  src/src/assembler/main.c, src/src/main/main.c and run_parser of parser.y: the two programs.

  The parser that bison makes is generated code.  Here it is the relation that reads the symbols of an
  instruction from the scanner and then runs its actions, until the scanner ends.  The parser may read one
  token more before it runs an action; of the actions only an include changes the scanner, and its
  production is complete without a further token.  A syntax error is not modelled.
\<close>

section \<open>Options\<close>

definition assembler_options :: "cmdline res" where
  "assembler_options =
     rbind (init_cmdline ''VM Assembler'' ''Virtual Machine Assembler'' ''0.1'') (\<lambda>cl.
     rbind (add_cmdline cl (schar (CHR ''v'')) (Some ''verbosity'') (Some ''verbosity'')
       (Some ''From 0 to 10. Print more information'') (Some ''0'') None (CMD_NUM OR CMD_ARGS)) (\<lambda>cl.
     rbind (add_cmdline cl (schar (CHR ''o'')) (Some ''output'') (Some ''output'') (Some ''Output file name'')
       (Some ''out.of'') None (CMD_STR OR CMD_ARGS)) (\<lambda>cl.
     rbind (add_cmdline cl (schar (CHR ''p'')) (Some ''path'') (Some ''path'') (Some ''Add to the import path'')
       (Some []) None (CMD_STR OR CMD_ARGS OR CMD_LIST)) (\<lambda>cl.
     rbind (add_cmdline cl (schar (CHR ''h'')) (Some ''help'') None (Some ''Print this helpful information'') None
       (Some (Inl Fatal_Exit)) CMD_NONE) (\<lambda>cl.
     rbind (add_cmdline cl (schar (CHR ''V'')) (Some ''version'') None (Some ''Show the program version'') None
       (Some (Inl Fatal_Exit)) CMD_NONE) (\<lambda>cl.
     rbind (add_cmdline cl 0 None None None None None CMD_DIV) (\<lambda>cl.
     add_cmdline cl 0 None (Some ''files'') (Some ''File name(s) to input'') None None (CMD_REQD OR CMD_ANON))))))))"

definition template_options :: "cmdline res" where
  "template_options =
     rbind (init_cmdline ''template'' ''template project'' ''0.1'') (\<lambda>cl.
     rbind (add_cmdline cl (schar (CHR ''v'')) (Some ''verbosity'') (Some ''verbosity'')
       (Some ''From 0 to 10. Print more information'') (Some ''0'') None (CMD_NUM OR CMD_ARGS)) (\<lambda>cl.
     rbind (add_cmdline cl (schar (CHR ''p'')) (Some ''path'') (Some ''path'') (Some ''Add to the import path'')
       (Some []) None (CMD_STR OR CMD_ARGS OR CMD_LIST)) (\<lambda>cl.
     rbind (add_cmdline cl (schar (CHR ''d'')) (Some ''dump'') (Some ''dump'') (Some ''Dump text as the parser is generated'')
       (Some []) None (CMD_STR OR CMD_ARGS OR CMD_LIST)) (\<lambda>cl.
     rbind (add_cmdline cl (schar (CHR ''h'')) (Some ''help'') None (Some ''Print this helpful information'') None
       (Some (Inl Fatal_Exit)) CMD_NONE) (\<lambda>cl.
     rbind (add_cmdline cl (schar (CHR ''V'')) (Some ''version'') None (Some ''Show the program version'') None
       (Some (Inl Fatal_Exit)) CMD_NONE) (\<lambda>cl.
     rbind (add_cmdline cl 0 None None None None None CMD_DIV) (\<lambda>cl.
     add_cmdline cl 0 None (Some ''files'') (Some ''File name(s) to input'') None None (CMD_REQD OR CMD_ANON))))))))"

text \<open>The text of an option that must not be NULL.\<close>

definition opt_text :: "cmdline \<Rightarrow> string \<Rightarrow> string res" where
  "opt_text cl name = rbind (get_cmd_opt cl name) str_txt"

definition assembler_cmdline :: "string list \<Rightarrow> string list \<Rightarrow> string \<Rightarrow> (cmdline \<times> trace) res" where
  "assembler_cmdline argv env stdout =
     rbind assembler_options (\<lambda>cl.
     rbind (parse_cmdline cl argv env) (\<lambda>cl.
     rbind (init_trace cl None stdout trace_start) (\<lambda>tr.
     rbind (opt_text cl ''verbosity'') (\<lambda>v.
     Inr (cl, push_trace_verbosity (to_int (c_strtol 10 v)) tr)))))"

definition template_cmdline :: "string list \<Rightarrow> string list \<Rightarrow> string \<Rightarrow> (cmdline \<times> trace) res" where
  "template_cmdline argv env stdout =
     rbind template_options (\<lambda>cl.
     rbind (parse_cmdline cl argv env) (\<lambda>cl.
     rbind (init_trace cl None stdout trace_start) (\<lambda>tr. Inr (cl, tr))))"

text \<open>What the template program prints; \<open>fopen\<close> gives the text of a file.\<close>

definition template_main :: "(string \<Rightarrow> string option) \<Rightarrow> string list \<Rightarrow> string list \<Rightarrow> string \<Rightarrow> string res" where
  "template_main fopen argv env stdout =
     rbind (template_cmdline argv env stdout) (\<lambda>(cl, tr).
     rbind (get_cmd_opt cl ''files'') (\<lambda>s.
     case raw_string s of
       None \<Rightarrow> Inl Fatal_Exit
     | Some b \<Rightarrow>
         rbind (cstr b 0) (\<lambda>fname.
         rbind (if fopen fname = None then cmdline_help cl else Inr ()) (\<lambda>_.
         if 1 < length argv then Inr (''Hello Template: '' @ argv ! 1 @ [CHR 0x0A]) else Inl Null_Deref))))"

section \<open>The parser\<close>

text \<open>The scanner with its files, and the state of the actions.\<close>

definition scanner_start :: scanner where
  "scanner_start = \<lparr>sc_cond = INITIAL, sc_strbuf = None, sc_yylval = None, sc_errors = 0, sc_files = stack_start,
     sc_used = (\<lambda>_. 0)\<rparr>"

definition open_source ::
  "file_system \<Rightarrow> (string \<Rightarrow> string option) \<Rightarrow> string \<Rightarrow> scanner \<Rightarrow> scanner res" where
  "open_source fsys fopen fname sc =
     rbind (open_file fsys fopen fname ''.asm'' (sc_files sc)) (\<lambda>files. Inr (sc\<lparr>sc_files := files\<rparr>))"

fun instruction_action ::
  "(nat \<Rightarrow> 64 word) \<Rightarrow> file_system \<Rightarrow> (string \<Rightarrow> string option) \<Rightarrow> instruction \<Rightarrow> scanner \<times> asm \<Rightarrow> (scanner \<times> asm) res"
where
  "instruction_action adr fsys fopen (I_Assembler i) (sc, st) =
     rbind (assembler_instruction_action adr i st) (\<lambda>st. Inr (sc, st))"
| "instruction_action adr fsys fopen (I_Var_Def d) (sc, st) = rbind (var_def_action adr d st) (\<lambda>st. Inr (sc, st))"
| "instruction_action adr fsys fopen (I_Label s) (sc, st) = Inr (sc, st)"
| "instruction_action adr fsys fopen (I_Include s) (sc, st) =
     rbind (cstr (sb_buffer s) 0) (\<lambda>fname. rbind (open_source fsys fopen fname sc) (\<lambda>sc. Inr (sc, st)))"

inductive yyparse ::
  "(string \<Rightarrow> 32 word) \<Rightarrow> (nat \<Rightarrow> 64 word) \<Rightarrow> file_system \<Rightarrow> (string \<Rightarrow> string option) \<Rightarrow>
   scanner \<times> asm \<Rightarrow> module_tree \<Rightarrow> (scanner \<times> asm) res \<Rightarrow> bool" for strtod adr fsys fopen where
  yy_end: "yylex strtod sc = Some (Inr (None, sc')) \<Longrightarrow> yyparse strtod adr fsys fopen (sc, st) [] (Inr (sc', st))"
| yy_lex_fails: "yylex strtod sc = Some (Inl e) \<Longrightarrow> yyparse strtod adr fsys fopen (sc, st) [] (Inl e)"
| yy_instruction: "instruction_ok i \<Longrightarrow> lexes strtod sc (instruction_toks i) sc1 \<Longrightarrow>
    instruction_action adr fsys fopen i (sc1, st) = Inr s2 \<Longrightarrow> yyparse strtod adr fsys fopen s2 is r \<Longrightarrow>
    yyparse strtod adr fsys fopen (sc, st) (i # is) r"
| yy_action_fails: "instruction_ok i \<Longrightarrow> lexes strtod sc (instruction_toks i) sc1 \<Longrightarrow>
    instruction_action adr fsys fopen i (sc1, st) = Inl e \<Longrightarrow> yyparse strtod adr fsys fopen (sc, st) [i] (Inl e)"

text \<open>
  run_parser: the module that is read, and the symbols and the data printed at the end.  A module is not
  empty.
\<close>

record asm_run =
  ar_module :: module_tree
  ar_asm :: asm
  ar_code :: "code_buffer obj"
  ar_symbols :: "int \<times> int \<times> (int \<times> int \<times> string \<times> string \<times> int \<times> int \<times> 32 word) list"
  ar_data :: "shown list"

inductive run_parser ::
  "(string \<Rightarrow> 32 word) \<Rightarrow> (nat \<Rightarrow> 64 word) \<Rightarrow> file_system \<Rightarrow> (string \<Rightarrow> string option) \<Rightarrow> cmdline \<Rightarrow> trace \<Rightarrow> asm_run \<Rightarrow> bool"
for strtod adr fsys fopen where
  "in_cmd_list cl ''dump'' ''parser'' = Inr d \<Longrightarrow>
   TRACE_HEADER (if d \<noteq> 0 then 0 else 19) ''run_parser'' tr = Inr tr' \<Longrightarrow>
   opt_text cl ''files'' = Inr fname \<Longrightarrow>
   open_source fsys fopen fname scanner_start = Inr sc \<Longrightarrow>
   yyparse strtod adr fsys fopen (sc, asm_start (create_data_buffer Null)) m (Inr (sc', st)) \<Longrightarrow> m \<noteq> [] \<Longrightarrow>
   dump_sym_table (as_symbols st) = Inr syms \<Longrightarrow>
   dump_data_buffer (as_data st) = Inr data \<Longrightarrow>
   run_parser strtod adr fsys fopen cl tr
     \<lparr>ar_module = m, ar_asm = st, ar_code = create_code_buffer Null, ar_symbols = syms, ar_data = data\<rparr>"

end
