(* ===== verification/Assembler_Facts.thy ===== *)
theory Assembler_Facts
  imports Assembler
begin

text \<open>
  The assembler from the text of a file to its symbol table, for modules of declarations.
\<close>

section \<open>Options\<close>

lemma assembler_option_values:
  "rbind assembler_options (\<lambda>cl. rbind (opt_text cl ''verbosity'') (\<lambda>v. rbind (opt_text cl ''output'') (\<lambda>out.
     rbind (in_cmd_list cl ''dump'' ''parser'') (\<lambda>d. rbind (get_cmd_opt cl ''files'') (\<lambda>f. Inr (v, out, d, f)))))) =
   Inr (''0'', ''out.of'', 0, None)"
  by code_simp

section \<open>Declarations as text\<close>

datatype source_decl = SD_One string | SD_Value string int | SD_List string int "int list"

fun list_toks :: "int list \<Rightarrow> plain_token list" where
  "list_toks [] = []"
| "list_toks (i # is) = PT (T_char (CHR '','')) # PI i # list_toks is"

fun source_toks :: "source_decl \<Rightarrow> plain_token list" where
  "source_toks (SD_One w) = [PT (T_word T_DATA), PN w]"
| "source_toks (SD_Value w i) = [PT (T_word T_DATA), PN w, PT (T_char (CHR ''='')), PI i]"
| "source_toks (SD_List w i is) = [PT (T_word T_DATA), PN w, PT (T_char (CHR ''='')), PT (T_char (CHR ''{'')), PI i] @
     list_toks is @ [PT (T_char (CHR ''}''))]"

fun source_name :: "source_decl \<Rightarrow> string" where
  "source_name (SD_One w) = w"
| "source_name (SD_Value w i) = w"
| "source_name (SD_List w i is) = w"

text \<open>The parsed declaration of a source declaration.\<close>

fun source_rep :: "source_decl \<Rightarrow> var_def \<Rightarrow> bool" where
  "source_rep (SD_One w) d \<longleftrightarrow> (\<exists>s. sb_rep s w \<and> d = VD_One s)"
| "source_rep (SD_Value w i) d \<longleftrightarrow> (\<exists>s. sb_rep s w \<and> d = VD_Value s (VC_Index (IC_Int i)))"
| "source_rep (SD_List w i is) d \<longleftrightarrow> (\<exists>s. sb_rep s w \<and> d = VD_Values s (map (VC_Index \<circ> IC_Int) (i # is)))"

fun source_fields :: "nat \<Rightarrow> source_decl list \<Rightarrow> fields list" where
  "source_fields n [] = []"
| "source_fields n (SD_One w # ds) = (1, 1, word_of_nat n) # source_fields (Suc n) ds"
| "source_fields n (SD_Value w i # ds) = (1, 1, 0) # source_fields n ds"
| "source_fields n (SD_List w i is # ds) = (1, 0, 0) # source_fields n ds"

fun source_slots :: "source_decl list \<Rightarrow> nat" where
  "source_slots [] = 0"
| "source_slots (SD_One w # ds) = Suc (source_slots ds)"
| "source_slots (d # ds) = source_slots ds"

fun source_listed :: "source_decl list \<Rightarrow> nat" where
  "source_listed [] = 0"
| "source_listed (SD_List w i is # ds) = Suc (length is) + source_listed ds"
| "source_listed (d # ds) = source_listed ds"

lemma list_toks_lexed:
  "list_all2 tok_rep (list_toks is @ ts) ls \<Longrightarrow>
   \<exists>ms. ls = concat (map (\<lambda>i. [P (CHR '',''), (T_INT_LITERAL, Some (Ival i))]) is) @ ms \<and> list_all2 tok_rep ts ms"
proof (induction "is" arbitrary: ls)
  case (Cons i "is")
  then obtain ls' where "ls = P (CHR '','') # (T_INT_LITERAL, Some (Ival i)) # ls'" "list_all2 tok_rep (list_toks is @ ts) ls'"
    by (auto simp: list_all2_Cons1)
  then show ?case using Cons.IH by fastforce
qed simp

lemma const_list_toks:
  "var_constant_list_toks (map (VC_Index \<circ> IC_Int) (i # is)) =
   (T_INT_LITERAL, Some (Ival i)) # concat (map (\<lambda>i. [P (CHR '',''), (T_INT_LITERAL, Some (Ival i))]) is)"
  by (induction "is" arbitrary: i) auto

lemma source_lexed:
  assumes "list_all2 tok_rep (source_toks d) ls"
  shows "\<exists>v. ls = var_def_toks v \<and> source_rep d v"
proof (cases d)
  case (SD_One w)
  then obtain s where "ls = [W T_DATA, Nm s]" "sb_rep s w" using assms by (auto simp: list_all2_Cons1)
  then show ?thesis using SD_One by (intro exI [of _ "VD_One s"]) auto
next
  case (SD_Value w i)
  then obtain s where "ls = [W T_DATA, Nm s, P (CHR ''=''), (T_INT_LITERAL, Some (Ival i))]" "sb_rep s w"
    using assms by (auto simp: list_all2_Cons1)
  then show ?thesis using SD_Value by (intro exI [of _ "VD_Value s (VC_Index (IC_Int i))"]) auto
next
  case (SD_List w i "is")
  then obtain s ms where s: "ls = [W T_DATA, Nm s, P (CHR ''=''), P (CHR ''{''), (T_INT_LITERAL, Some (Ival i))] @ ms"
    "sb_rep s w" "list_all2 tok_rep (list_toks is @ [PT (T_char (CHR ''}''))]) ms"
    using assms by (auto simp: list_all2_Cons1)
  obtain ns where "ms = concat (map (\<lambda>i. [P (CHR '',''), (T_INT_LITERAL, Some (Ival i))]) is) @ ns"
    "list_all2 tok_rep [PT (T_char (CHR ''}''))] ns" using list_toks_lexed [OF s(3)] by blast
  then have "ls = var_def_toks (VD_Values s (map (VC_Index \<circ> IC_Int) (i # is)))"
    using s(1) by (simp only: var_def_toks.simps const_list_toks) (auto simp: list_all2_Cons1)
  then show ?thesis using SD_List s(2) by (intro exI [of _ "VD_Values s (map (VC_Index \<circ> IC_Int) (i # is))"]) auto
qed

lemma source_decl_ok: "source_rep d v \<Longrightarrow> decl_ok v (source_name d) \<and> instruction_ok (I_Var_Def v)"
  by (cases d) (auto dest: sb_rep_str)

lemma source_fields_eq:
  "list_all2 source_rep ds vs \<Longrightarrow> decl_fields n vs = source_fields n ds \<and> new_slots vs = source_slots ds \<and>
   listed vs = source_listed ds"
proof (induction ds arbitrary: vs n)
  case (Cons d ds)
  then obtain v vs' where "vs = v # vs'" "source_rep d v" "list_all2 source_rep ds vs'" by (auto simp: list_all2_Cons1)
  then show ?case using Cons.IH [of vs'] by (cases d) auto
qed simp

section \<open>Parsing declarations\<close>

lemma yyparse_declarations:
  assumes "at_text sc (token_text us) f []" "list_all2 spells (concat (map source_toks ds)) us"
    and "room f (length (token_text us))" "asm_rep st tags m n k" "n + length ds \<le> 2 ^ 29"
    and "length tags + source_slots ds \<le> 2 ^ 29" "k + source_listed ds \<le> 2 ^ 30"
    and "yylex strtod sc0 = yylex strtod sc"
  shows "\<exists>vs sc' st'. yyparse strtod adr fsys fopen (sc0, st) (map I_Var_Def vs) (Inr (sc', st')) \<and>
    list_all2 source_rep ds vs \<and> do_var_defs adr vs st = Inr st'"
  using assms
proof (induction ds arbitrary: sc sc0 f us st tags m n k)
  case Nil
  then have "us = []" by simp
  then show ?case using end_of_input [of sc f strtod] Nil(1,8) yy_end by fastforce
next
  case (Cons d ds)
  obtain us1 us2 where us: "us = us1 @ us2" "list_all2 spells (source_toks d) us1" "list_all2 spells (concat (map source_toks ds)) us2"
    using Cons.prems(2) by (auto simp: list_all2_append1)
  have tx: "token_text us = token_text us1 @ token_text us2" using us(1) by (simp add: token_text_def)
  have rm: "room f (length (token_text us1) + length (token_text us2))" using Cons.prems(3) tx by simp
  obtain sc1 sc2 ls where lex: "lexes strtod sc ls sc1" "yylex strtod sc1 = yylex strtod sc2" "list_all2 tok_rep (source_toks d) ls"
    "at_text sc2 (token_text us2) (move_col (length (token_text us1)) f) []"
    using tokens_lexed [of sc us1 "token_text us2" f "[]" "source_toks d" strtod] Cons.prems(1) us(2) next_start [OF us(3)]
      room_less [OF rm] tx by auto
  obtain v where v: "ls = var_def_toks v" "source_rep d v" using source_lexed [OF lex(3)] by blast
  obtain x xs where "ls = x # xs" using v(1) by (cases v) auto
  then have lx: "lexes strtod sc0 (instruction_toks (I_Var_Def v)) sc1"
    using lexes_go [OF Cons.prems(8)] lex(1) v(1) by simp
  have f: "decl_fields (length tags) [v] = source_fields (length tags) [d]" "new_slots [v] = source_slots [d]" "listed [v] = source_listed [d]"
    using source_fields_eq [of "[d]" "[v]"] v(2) by auto
  have sum_st: "source_slots (d # ds) = source_slots [d] + source_slots ds" "source_listed (d # ds) = source_listed [d] + source_listed ds"
    by (cases d; simp)+
  obtain st1 where st1: "var_def_action adr v st = Inr st1"
    "asm_rep st1 (tags @ replicate (source_slots [d]) 0) (declare_first (source_name d) (hd (decl_fields (length tags) [v])) m) (Suc n)
      (k + source_listed [d])"
    using var_def_action_ok [OF Cons.prems(4), of v "source_name d" adr] source_decl_ok [OF v(2)] Cons.prems(5-7) f sum_st by auto
  obtain vs sc' st' where vs: "yyparse strtod adr fsys fopen (sc1, st1) (map I_Var_Def vs) (Inr (sc', st'))"
    "list_all2 source_rep ds vs" "do_var_defs adr vs st1 = Inr st'"
    using Cons.IH [OF lex(4) us(3) room_move [OF rm] st1(2) _ _ _ lex(2)] Cons.prems(5-7) sum_st by auto
  have "yyparse strtod adr fsys fopen (sc0, st) (map I_Var_Def (v # vs)) (Inr (sc', st'))"
    using yy_instruction [OF _ lx, of adr fsys fopen st "(sc1, st1)"] source_decl_ok [OF v(2)] st1(1) vs(1) by simp
  then show ?case using v(2) vs(2,3) st1(1) by (intro exI [of _ "v # vs"] exI [of _ sc'] exI [of _ st']) auto
qed

lemma open_source_ready:
  assumes "fs_fits fsys root" "name_fits fsys root fname ''.asm''" "fopen (resolved fsys root fname ''.asm'') = Some src"
  shows "\<exists>sc f. open_source fsys fopen fname scanner_start = Inr sc \<and> at_text sc src f [] \<and> if_line f = 1 \<and> if_column f = 1"
proof -
  let ?f = "\<lparr>if_name = resolved fsys root fname ''.asm'', if_buffer = 0, if_line = 1, if_column = 1\<rparr>"
  have "finder_ok fsys root (st_finder stack_start)" "stack_rep stack_start []"
    using stack_start_ok [OF assms(1)] by (simp_all add: stack_ok_def)
  from open_file_rep [OF this(2,1) assms(2), of fopen, OF assms(3)]
  obtain st where st: "open_file fsys fopen fname ''.asm'' stack_start = Inr st" "stack_rep st [?f]"
    "st_buffers st = [src]" "st_current st = Some 0" by (auto simp: stack_start_def)
  let ?sc = "scanner_start\<lparr>sc_files := st\<rparr>"
  have "open_source fsys fopen fname scanner_start = Inr ?sc" using st(1) by (simp add: open_source_def scanner_start_def)
  moreover have "at_text ?sc src ?f []"
    using st(2-4) by (simp add: at_text_def ready_def sc_input_def strbuf_ok_def scanner_start_def)
  ultimately show ?thesis by (intro exI [of _ ?sc] exI [of _ ?f]) simp
qed

section \<open>Properties\<close>


declare parse_loop.simps [code]

lemma sample_command:
  "rbind (assembler_cmdline [''vmasm'', ''a''] [] []) (\<lambda>(cl, tr). rbind (opt_text cl ''files'') (\<lambda>f.
     rbind (in_cmd_list cl ''dump'' ''parser'') (\<lambda>d. rbind (TRACE_HEADER 19 ''run_parser'' tr) (\<lambda>tr'. Inr (f, d, tr_file tr'))))) =
   Inr (''a'', 0, Some [])"
  by code_simp


end
