(* ===== verification/Cord_Pos.thy ===== *)
theory Cord_Pos
  imports Cord_Extra
begin

text \<open>
  The positions of src/src/common/gc/cord/cordbscs.c, gc/cord_pos.h, and the functions of cordxtra.c that work
  with them: comparison and search.

  A position is the struct CORD_Pos: the path from the cord to the leaf with the current character, the
  characters of the leaf that can be fetched directly, and a buffer for the next characters of a function.
  The pointer \<open>cur_leaf\<close> is to the characters of a string or to the buffer.  Its memory is not initialised:
  \<open>raw_pos\<close> is a fresh struct, and no function reads a field that was not set.
\<close>

section \<open>Data\<close>

abbreviation CORD_POS_INVALID :: int where "CORD_POS_INVALID \<equiv> 0x55555555"
abbreviation CORD_FUNCTION_BUF_SZ :: nat where "CORD_FUNCTION_BUF_SZ \<equiv> 8"

type_synonym CORD_pe = "cord \<times> nat"

datatype leaf_ptr = Leaf_String string | Function_Buf

record cord_pos =
  cur_pos :: nat
  path_len :: int
  cur_leaf :: leaf_ptr
  cur_start :: nat
  cur_end :: nat
  pos_path :: "CORD_pe cell list"
  function_buf :: "char cell list"

definition raw_pos :: cord_pos where
  "raw_pos =
     \<lparr>cur_pos = 0, path_len = CORD_POS_INVALID, cur_leaf = Function_Buf, cur_start = 0, cur_end = 0,
      pos_path = replicate 49 Undef, function_buf = replicate CORD_FUNCTION_BUF_SZ Undef\<rparr>"

definition CORD_pos_valid :: "cord_pos \<Rightarrow> bool" where
  "CORD_pos_valid p \<longleftrightarrow> path_len p \<noteq> CORD_POS_INVALID"

fun is_null :: "cord \<Rightarrow> bool" where
  "is_null CORD_EMPTY = True"
| "is_null x = False"

text \<open>The character \<open>k\<close> of the current leaf, and IS_FUNCTION, which reads the first byte of its argument.\<close>

definition leaf_read :: "cord_pos \<Rightarrow> nat \<Rightarrow> char res" where
  "leaf_read p k =
     (case cur_leaf p of
        Leaf_String s \<Rightarrow> if k \<le> length s then Inr ((s @ [NUL]) ! k) else Inl Out_Of_Bounds
      | Function_Buf \<Rightarrow> load (function_buf p) (int k))"

definition is_function :: "cord \<Rightarrow> bool res" where
  "is_function x =
     (case x of
        CORD_EMPTY \<Rightarrow> Inl Null_Deref
      | Str s \<Rightarrow> Inr (case s of [] \<Rightarrow> False | c # cs \<Rightarrow> code c div 4 mod 2 = 1)
      | Concat d ll n l r \<Rightarrow> Inr False
      | _ \<Rightarrow> Inr True)"

section \<open>Extending the path\<close>

definition push_pe :: "CORD_pe \<Rightarrow> cord_pos \<Rightarrow> cord_pos res" where
  "push_pe e p =
     rbind (store (pos_path p) (path_len p + 1) e) (\<lambda>b. Inr (p\<lparr>pos_path := b, path_len := path_len p + 1\<rparr>))"

text \<open>The loop of CORD_extend_path: the leaf, its start and its length.\<close>

fun extend_loop :: "cord \<Rightarrow> nat \<Rightarrow> nat \<Rightarrow> cord_pos \<Rightarrow> (cord \<times> nat \<times> nat \<times> cord_pos) res" where
  "extend_loop CORD_EMPTY top_pos top_len p = Inl Null_Deref"
| "extend_loop (Concat d ll n l r) top_pos top_len p =
     rbind (LEFT_LEN (Concat d ll n l r)) (\<lambda>left_len.
     if usize (top_pos + left_len) \<le> cur_pos p
     then rbind (push_pe (r, usize (top_pos + left_len)) p)
            (extend_loop r (usize (top_pos + left_len)) (usub top_len left_len))
     else rbind (push_pe (l, top_pos) p) (extend_loop l top_pos left_len))"
| "extend_loop node top_pos top_len p = Inr (node, top_pos, top_len, p)"

definition CORD_extend_path :: "cord_pos \<Rightarrow> cord_pos res" where
  "CORD_extend_path p =
     rbind (load (pos_path p) (path_len p)) (\<lambda>(node, top_pos).
     rbind (GEN_LEN node) (\<lambda>top_len.
     rbind (extend_loop node top_pos top_len p) (\<lambda>(node, top_pos, top_len, p).
     let p = (case node of
                Str (c # cs) \<Rightarrow>
                  p\<lparr>cur_leaf := Leaf_String (c # cs), cur_start := top_pos, cur_end := usize (top_pos + top_len)\<rparr>
              | _ \<Rightarrow> p\<lparr>cur_end := 0\<rparr>)
     in Inr (if usize (top_pos + top_len) \<le> cur_pos p then p\<lparr>path_len := CORD_POS_INVALID\<rparr> else p))))"

definition CORD_set_pos :: "cord_pos \<Rightarrow> cord \<Rightarrow> nat \<Rightarrow> cord_pos res" where
  "CORD_set_pos p x i =
     (if is_null x then Inr (p\<lparr>path_len := CORD_POS_INVALID\<rparr>)
      else rbind (store (pos_path p) 0 (x, 0)) (\<lambda>b.
           CORD_extend_path (p\<lparr>pos_path := b, path_len := 0, cur_pos := i\<rparr>)))"

section \<open>Fetching and moving\<close>

definition CORD__pos_fetch :: "cord_pos \<Rightarrow> char res" where
  "CORD__pos_fetch p =
     (if \<not> CORD_pos_valid p then Inl Fatal_Exit
      else rbind (load (pos_path p) (path_len p)) (\<lambda>(leaf, start).
           rbind (is_function leaf) (\<lambda>f.
           if f then node_fn leaf (usub (cur_pos p) start) else Inl Fatal_Exit)))"

definition CORD_pos_fetch :: "cord_pos \<Rightarrow> char res" where
  "CORD_pos_fetch p =
     (if cur_end p \<noteq> 0 then leaf_read p (usub (cur_pos p) (cur_start p)) else CORD__pos_fetch p)"

text \<open>The loop that stores characters \<open>i\<close> to \<open>i + n - 1\<close> of the cache.\<close>

fun fill_cache :: "cord \<Rightarrow> nat \<Rightarrow> nat \<Rightarrow> nat \<Rightarrow> nat \<Rightarrow> char cell list \<Rightarrow> char cell list res" where
  "fill_cache leaf start pos i 0 b = Inr b"
| "fill_cache leaf start pos i (Suc n) b =
     rbind (node_fn leaf (usub (usize (i + pos)) start)) (\<lambda>c.
     rbind (store b (int i) c) (fill_cache leaf start pos (Suc i) n))"

text \<open>
  The loops that pop the path from index \<open>k\<close> on: while two adjacent entries start at different positions
  (\<open>same = True\<close>, to the next leaf), or at the same one (to the leaf before).
\<close>

fun pop_path :: "bool \<Rightarrow> CORD_pe cell list \<Rightarrow> nat \<Rightarrow> nat res" where
  "pop_path same b 0 = Inr 0"
| "pop_path same b (Suc k) =
     rbind (load b (int (Suc k))) (\<lambda>(_, s1).
     rbind (load b (int k)) (\<lambda>(_, s0).
     if (s1 = s0) = same then Inr (Suc k) else pop_path same b k))"

definition next_in_function :: "cord \<Rightarrow> nat \<Rightarrow> cord_pos \<Rightarrow> cord_pos option res" where
  "next_in_function leaf start p =
     rbind (LEN leaf) (\<lambda>n.
     let end_pos = usize (start + n) in
     if cur_pos p < end_pos then
       let limit = min CORD_FUNCTION_BUF_SZ (end_pos - cur_pos p) in
       rbind (fill_cache leaf start (cur_pos p) 0 limit (function_buf p)) (\<lambda>b.
       Inr (Some (p\<lparr>function_buf := b, cur_start := cur_pos p, cur_leaf := Function_Buf,
                    cur_end := usize (cur_pos p + limit)\<rparr>)))
     else Inr None)"

definition CORD__next :: "cord_pos \<Rightarrow> cord_pos res" where
  "CORD__next p =
     (if \<not> CORD_pos_valid p then Inl Fatal_Exit
      else rbind (load (pos_path p) (path_len p)) (\<lambda>(leaf, start).
           let p = p\<lparr>cur_pos := usize (cur_pos p + 1)\<rparr> in
           rbind (if is_null leaf then Inl Null_Deref
                  else if is_string leaf then Inr None
                  else next_in_function leaf start p) (\<lambda>q.
           case q of
             Some q \<Rightarrow> Inr q
           | None \<Rightarrow>
               rbind (pop_path True (pos_path p) (nat (path_len p))) (\<lambda>k.
               if k = 0 then Inr (p\<lparr>path_len := CORD_POS_INVALID\<rparr>)
               else CORD_extend_path (p\<lparr>path_len := int k - 1\<rparr>)))))"

definition CORD_next :: "cord_pos \<Rightarrow> cord_pos res" where
  "CORD_next p =
     (if usize (cur_pos p + 1) < cur_end p then Inr (p\<lparr>cur_pos := usize (cur_pos p + 1)\<rparr>) else CORD__next p)"

definition CORD__prev :: "cord_pos \<Rightarrow> cord_pos res" where
  "CORD__prev p =
     (if cur_pos p = 0 then Inr (p\<lparr>path_len := CORD_POS_INVALID\<rparr>)
      else
        let p = p\<lparr>cur_pos := cur_pos p - 1\<rparr> in
        rbind (load (pos_path p) (path_len p)) (\<lambda>(leaf, start).
        if start \<le> cur_pos p then Inr p
        else rbind (pop_path False (pos_path p) (nat (path_len p))) (\<lambda>k.
             CORD_extend_path (p\<lparr>path_len := int k - 1\<rparr>))))"

definition CORD_prev :: "cord_pos \<Rightarrow> cord_pos res" where
  "CORD_prev p =
     (if cur_end p \<noteq> 0 \<and> cur_start p < cur_pos p then Inr (p\<lparr>cur_pos := cur_pos p - 1\<rparr>) else CORD__prev p)"

definition CORD_pos_to_index :: "cord_pos \<Rightarrow> nat" where
  "CORD_pos_to_index p = cur_pos p"

definition CORD_pos_to_cord :: "cord_pos \<Rightarrow> cord res" where
  "CORD_pos_to_cord p = rbind (load (pos_path p) 0) (\<lambda>(c, _). Inr c)"

definition CORD_fetch :: "cord \<Rightarrow> nat \<Rightarrow> char res" where
  "CORD_fetch x i =
     rbind (CORD_set_pos raw_pos x i) (\<lambda>p. if CORD_pos_valid p then CORD_pos_fetch p else Inl Fatal_Exit)"

section \<open>Access to the cached characters\<close>

definition to_long :: "nat \<Rightarrow> int" where
  "to_long n = (if n < 2 ^ 63 then int n else int n - 2 ^ 64)"

definition CORD_pos_chars_left :: "cord_pos \<Rightarrow> int res" where
  "CORD_pos_chars_left p =
     (let n = to_long (cur_end p) - to_long (cur_pos p)
      in if - (2 ^ 63) \<le> n \<and> n < 2 ^ 63 then Inr n else Inl Int_Overflow)"

definition CORD_pos_advance :: "cord_pos \<Rightarrow> nat \<Rightarrow> cord_pos res" where
  "CORD_pos_advance p n = CORD_next (p\<lparr>cur_pos := usize (cur_pos p + usub n 1)\<rparr>)"

text \<open>strncmp on the characters from the current ones on: its sign.\<close>

fun strncmp_loop :: "cord_pos \<Rightarrow> nat \<Rightarrow> cord_pos \<Rightarrow> nat \<Rightarrow> nat \<Rightarrow> int res" where
  "strncmp_loop p i q j 0 = Inr 0"
| "strncmp_loop p i q j (Suc n) =
     rbind (leaf_read p i) (\<lambda>c.
     rbind (leaf_read q j) (\<lambda>d.
     if code c < code d then Inr (- 1)
     else if code d < code c then Inr 1
     else if c = NUL then Inr 0
     else strncmp_loop p (Suc i) q (Suc j) n))"

definition strncmp_cur :: "cord_pos \<Rightarrow> cord_pos \<Rightarrow> nat \<Rightarrow> int res" where
  "strncmp_cur p q n =
     strncmp_loop p (usub (cur_pos p) (cur_start p)) q (usub (cur_pos q) (cur_start q)) n"

section \<open>Comparison\<close>

text \<open>The value of a char: the type is signed.\<close>

definition char_val :: "char \<Rightarrow> int" where
  "char_val c = (if code c < 128 then int (code c) else int (code c) - 256)"

text \<open>One character at both positions: the difference, or the next positions.\<close>

definition compare_one :: "cord_pos \<Rightarrow> cord_pos \<Rightarrow> (int + (cord_pos \<times> cord_pos)) res" where
  "compare_one p q =
     rbind (CORD_pos_fetch p) (\<lambda>xcurrent.
     rbind (CORD_pos_fetch q) (\<lambda>ycurrent.
     if xcurrent \<noteq> ycurrent then Inr (Inl (char_val xcurrent - char_val ycurrent))
     else rbind (CORD_next p) (\<lambda>p. rbind (CORD_next q) (\<lambda>q. Inr (Inr (p, q))))))"

text \<open>\<open>avail\<close> characters at both positions.\<close>

definition compare_block :: "cord_pos \<Rightarrow> cord_pos \<Rightarrow> nat \<Rightarrow> (int + (cord_pos \<times> cord_pos)) res" where
  "compare_block p q avail =
     rbind (strncmp_cur p q avail) (\<lambda>result.
     if result \<noteq> 0 then Inr (Inl result)
     else rbind (CORD_pos_advance p avail) (\<lambda>p. rbind (CORD_pos_advance q avail) (\<lambda>q. Inr (Inr (p, q)))))"

definition of_long :: "int \<Rightarrow> nat" where
  "of_long n = nat (n mod 2 ^ 64)"

text \<open>A round of the loop of CORD_cmp.\<close>

definition cmp_round :: "cord_pos \<Rightarrow> cord_pos \<Rightarrow> (int + (cord_pos \<times> cord_pos)) res" where
  "cmp_round p q =
     (if \<not> CORD_pos_valid p then Inr (Inl (if CORD_pos_valid q then - 1 else 0))
      else if \<not> CORD_pos_valid q then Inr (Inl 1)
      else
        rbind (CORD_pos_chars_left p) (\<lambda>avail.
        if avail = 0 then compare_one p q
        else rbind (CORD_pos_chars_left q) (\<lambda>yavail.
             if yavail = 0 then compare_one p q
             else compare_block p q (of_long (min avail yavail)))))"

partial_function (option) cmp_loop :: "cord_pos \<Rightarrow> cord_pos \<Rightarrow> int res option" where
  [code]: "cmp_loop p q =
     (case cmp_round p q of
        Inl e \<Rightarrow> Some (Inl e)
      | Inr r \<Rightarrow> (case r of Inl d \<Rightarrow> Some (Inr d) | Inr x \<Rightarrow> cmp_loop (fst x) (snd x)))"

definition CORD_cmp :: "cord \<Rightarrow> cord \<Rightarrow> int res option" where
  "CORD_cmp x y =
     (if is_null y then Some (Inr (if \<not> is_null x then 1 else 0))
      else if is_null x then Some (Inr (- 1))
      else case (x, y) of
        (Str (c # cs), Str (d # ds)) \<Rightarrow> Some (Inr (c_strcmp (c # cs) (d # ds)))
      | _ \<Rightarrow>
        (case rbind (CORD_set_pos raw_pos x 0) (\<lambda>p. rbind (CORD_set_pos raw_pos y 0) (\<lambda>q. Inr (p, q))) of
           Inl e \<Rightarrow> Some (Inl e)
         | Inr (p, q) \<Rightarrow> cmp_loop p q))"

text \<open>A round of the loop of CORD_ncmp, with the counter: the result or the next positions and counter.\<close>

definition counted :: "nat \<Rightarrow> (int + (cord_pos \<times> cord_pos)) res \<Rightarrow> (int + (cord_pos \<times> cord_pos \<times> nat)) res" where
  "counted n r = rbind r (\<lambda>r. Inr (case r of Inl d \<Rightarrow> Inl d | Inr (p, q) \<Rightarrow> Inr (p, q, n)))"

definition ncmp_round :: "nat \<Rightarrow> cord_pos \<Rightarrow> cord_pos \<Rightarrow> nat \<Rightarrow> (int + (cord_pos \<times> cord_pos \<times> nat)) res" where
  "ncmp_round len p q count =
     (if \<not> CORD_pos_valid p then Inr (Inl (if CORD_pos_valid q then - 1 else 0))
      else if \<not> CORD_pos_valid q then Inr (Inl 1)
      else
        rbind (CORD_pos_chars_left p) (\<lambda>avail.
        if avail \<le> 0 then counted (usize (count + 1)) (compare_one p q)
        else rbind (CORD_pos_chars_left q) (\<lambda>yavail.
             if yavail \<le> 0 then counted (usize (count + 1)) (compare_one p q)
             else
               let avail = min avail yavail;
                   count = usize (count + of_long avail);
                   avail = (if len < count then avail - to_long (count - len) else avail)
               in counted count (compare_block p q (of_long avail)))))"

partial_function (option) ncmp_loop :: "nat \<Rightarrow> cord_pos \<Rightarrow> cord_pos \<Rightarrow> nat \<Rightarrow> int res option" where
  [code]: "ncmp_loop len p q count =
     (if len \<le> count then Some (Inr 0)
      else case ncmp_round len p q count of
        Inl e \<Rightarrow> Some (Inl e)
      | Inr r \<Rightarrow> (case r of Inl d \<Rightarrow> Some (Inr d) | Inr x \<Rightarrow> ncmp_loop len (fst x) (fst (snd x)) (snd (snd x))))"

definition CORD_ncmp :: "cord \<Rightarrow> nat \<Rightarrow> cord \<Rightarrow> nat \<Rightarrow> nat \<Rightarrow> int res option" where
  "CORD_ncmp x x_start y y_start len =
     (case rbind (CORD_set_pos raw_pos x x_start) (\<lambda>p. rbind (CORD_set_pos raw_pos y y_start) (\<lambda>q. Inr (p, q))) of
        Inl e \<Rightarrow> Some (Inl e)
      | Inr (p, q) \<Rightarrow> ncmp_loop len p q 0)"

section \<open>Searching for a cord\<close>

definition push_char :: "64 word \<Rightarrow> char \<Rightarrow> 64 word" where
  "push_char w c = push_bit 8 w OR word_of_nat (code c)"

text \<open>The loop that reads the first characters of both.\<close>

fun str_start :: "char cell list \<Rightarrow> nat \<Rightarrow> nat \<Rightarrow> 64 word \<Rightarrow> 64 word \<Rightarrow> 64 word \<Rightarrow> cord_pos \<Rightarrow>
    (64 word \<times> 64 word \<times> 64 word \<times> cord_pos) res" where
  "str_start s i 0 mk s_buf x_buf p = Inr (mk, s_buf, x_buf, p)"
| "str_start s i (Suc n) mk s_buf x_buf p =
     rbind (load s (int i)) (\<lambda>c.
     rbind (CORD_pos_fetch p) (\<lambda>d.
     rbind (CORD_next p) (\<lambda>p.
     str_start s (Suc i) n (push_bit 8 mk OR 0xff) (push_char s_buf c) (push_char x_buf d) p)))"

text \<open>The loop over the positions of a match; \<open>rest\<close> compares what follows the first characters.\<close>

partial_function (option) str_loop ::
  "(nat \<Rightarrow> int res option) \<Rightarrow> 64 word \<Rightarrow> 64 word \<Rightarrow> nat \<Rightarrow> nat \<Rightarrow> 64 word \<Rightarrow> cord_pos \<Rightarrow> nat res option" where
  [code]: "str_loop rest mk s_buf last_pos match_pos x_buf p =
     Option.bind (if x_buf AND mk = s_buf then rest match_pos else Some (Inr 1)) (\<lambda>r.
     case r of
       Inl e \<Rightarrow> Some (Inl e)
     | Inr d \<Rightarrow>
         if d = 0 then Some (Inr match_pos)
         else if match_pos = last_pos then Some (Inr CORD_NOT_FOUND)
         else
           case rbind (CORD_pos_fetch p) (\<lambda>c. rbind (CORD_next p) (\<lambda>p. Inr (c, p))) of
             Inl e \<Rightarrow> Some (Inl e)
           | Inr x \<Rightarrow> str_loop rest mk s_buf last_pos (usize (match_pos + 1)) (push_char x_buf (fst x)) (snd x))"

definition str_prefix :: "nat \<Rightarrow> cord \<Rightarrow> (char cell list \<times> nat) res" where
  "str_prefix k s =
     (case s of
        Str (c # cs) \<Rightarrow> Inr (map Val (c # cs @ [NUL]), length (c # cs))
      | _ \<Rightarrow>
        rbind (CORD_substr (cord_cat k) s 0 8) (\<lambda>t.
        rbind (CORD_to_char_star t) (\<lambda>b. rbind (CORD_len s) (\<lambda>n. Inr (b, n)))))"

definition CORD_str :: "nat \<Rightarrow> cord \<Rightarrow> nat \<Rightarrow> cord \<Rightarrow> nat res option" where
  "CORD_str k x start s =
     (case CORD_len x of
        Inl e \<Rightarrow> Some (Inl e)
      | Inr xlen \<Rightarrow>
        if is_null s then Some (Inr start)
        else case str_prefix k s of
          Inl e \<Rightarrow> Some (Inl e)
        | Inr (s_start, slen) \<Rightarrow>
          if xlen < start \<or> xlen - start < slen then Some (Inr CORD_NOT_FOUND)
          else
            let start_len = min slen 8 in
            case rbind (CORD_set_pos raw_pos x start) (str_start s_start 0 start_len 0 0 0) of
              Inl e \<Rightarrow> Some (Inl e)
            | Inr (mk, s_buf, x_buf, p) \<Rightarrow>
                str_loop
                  (\<lambda>m. if slen = start_len then Some (Inr 0)
                       else CORD_ncmp x (usize (m + start_len)) s start_len (slen - start_len))
                  mk s_buf (xlen - slen) start x_buf p)"

end
