(* ===== verification/Cord_Pos_Facts.thy ===== *)
theory Cord_Pos_Facts
  imports Cord_Pos Cord_Iter
begin

text \<open>
  Positions are cursors on the characters of a cord: setting, fetching and moving forward behave as an index
  into the string, whatever the shape of the cord is.  The contract of a cursor is a locale; the
  comparisons and searches of the theory Cord_Search rest on its interpretation.
\<close>

section \<open>Paths\<close>

text \<open>
  A path from a cord to one of its parts, the part first: each entry is a part with the position at which
  it starts.
\<close>

fun part_of :: "CORD_pe \<Rightarrow> CORD_pe \<Rightarrow> bool" where
  "part_of e (Concat d ll n l r, s) \<longleftrightarrow> e = (l, s) \<or> e = (r, s + length (chars l))"
| "part_of e f \<longleftrightarrow> False"

fun path_ok :: "cord \<Rightarrow> CORD_pe list \<Rightarrow> bool" where
  "path_ok x [] \<longleftrightarrow> False"
| "path_ok x [e] \<longleftrightarrow> e = (x, 0)"
| "path_ok x (e # f # es) \<longleftrightarrow> part_of e f \<and> path_ok x (f # es)"

definition pe_end :: "CORD_pe \<Rightarrow> nat" where
  "pe_end e = snd e + length (chars (fst e))"

lemma part_ofE:
  assumes "part_of e f"
  obtains d ll n l r s where "f = (Concat d ll n l r, s)" "e = (l, s) \<or> e = (r, s + length (chars l))"
proof -
  obtain c s where f: "f = (c, s)" by fastforce
  show ?thesis using assms that unfolding f by (cases c) auto
qed

lemma path_ok_tail: "path_ok x (e # f # es) \<Longrightarrow> path_ok x (f # es)"
  by simp

lemma path_part:
  "path_ok x (e # es) \<Longrightarrow> ok x \<Longrightarrow>
    ok (fst e) \<and> pe_end e \<le> length (chars x) \<and> (\<forall>i < length (chars (fst e)). chars (fst e) ! i = chars x ! (snd e + i)) \<and>
    dep (fst e) + int (length es) \<le> dep x"
proof (induction es arbitrary: e)
  case (Cons f es)
  obtain d ll n l r s where f: "f = (Concat d ll n l r, s)" "e = (l, s) \<or> e = (r, s + length (chars l))"
    using Cons.prems(1) by (auto elim: part_ofE)
  from Cons.IH [of f] Cons.prems have IH: "ok (Concat d ll n l r)" "pe_end f \<le> length (chars x)"
      "\<And>i. i < length (chars (fst f)) \<Longrightarrow> chars (fst f) ! i = chars x ! (s + i)"
      "dep (Concat d ll n l r) + int (length es) \<le> dep x"
    using f(1) by auto
  have l: "chars l ! i = chars x ! (s + i)" if "i < length (chars l)" for i
    using IH(3) [of i] that f(1) by (simp add: nth_append)
  have r: "chars r ! i = chars x ! (s + length (chars l) + i)" if "i < length (chars r)" for i
    using IH(3) [of "length (chars l) + i"] that f(1) by (simp add: nth_append add.assoc)
  show ?case using f IH l r by (auto simp: pe_end_def)
qed (auto simp: pe_end_def)

lemma path_short: "path_ok x (e # es) \<Longrightarrow> ok x \<Longrightarrow> int (length es) \<le> dep x"
  using path_part [of x e es] ok_dep [of "fst e"] by auto

section \<open>Extending a path\<close>

text \<open>The position holds the path \<open>es\<close>.\<close>

definition path_rep :: "cord_pos \<Rightarrow> CORD_pe list \<Rightarrow> bool" where
  "path_rep p es \<longleftrightarrow> holds (pos_path p) (rev es) \<and> path_len p = int (length es) - 1 \<and>
     length (pos_path p) = 49 \<and> length (function_buf p) = CORD_FUNCTION_BUF_SZ"

lemma path_rep_load: "path_rep p (e # es) \<Longrightarrow> load (pos_path p) (path_len p) = Inr e"
  using load_holds [of "pos_path p" "rev es @ [e]" "path_len p"] by (simp add: path_rep_def nth_append)

lemma path_rep_update [simp]:
  "path_rep (p\<lparr>cur_pos := a\<rparr>) es = path_rep p es" "path_rep (p\<lparr>cur_end := c\<rparr>) es = path_rep p es"
  "path_rep (p\<lparr>cur_leaf := l\<rparr>) es = path_rep p es" "path_rep (p\<lparr>cur_start := b\<rparr>) es = path_rep p es"
  by (simp_all add: path_rep_def)

lemma push_pe_rep:
  assumes "path_rep p es" "length es < 49"
  shows "\<exists>q. push_pe e p = Inr q \<and> path_rep q (e # es) \<and> cur_pos q = cur_pos p"
proof -
  have "holds ((pos_path p)[length es := Val e]) (rev es @ [e])"
    using assms by (intro holds_snoc) (auto simp: path_rep_def)
  then show ?thesis using assms by (auto simp: path_rep_def push_pe_def store_def)
qed

definition is_leaf :: "cord \<Rightarrow> bool" where
  "is_leaf x \<longleftrightarrow> is_string x \<or> is_fn x"

lemma extend_loop_rep:
  assumes "path_ok x ((t, s) # es)" "path_rep p ((t, s) # es)" "ok x" "dep x \<le> 48" "s \<le> cur_pos p"
  shows "\<exists>u v gs q. extend_loop t s (length (chars t)) p = Inr (u, v, length (chars u), q) \<and>
    path_ok x ((u, v) # gs) \<and> path_rep q ((u, v) # gs) \<and> cur_pos q = cur_pos p \<and> is_leaf u \<and> v \<le> cur_pos p \<and>
    (if cur_pos p < pe_end (t, s) then cur_pos p < pe_end (u, v) else pe_end (u, v) = pe_end (t, s))"
  using assms
proof (induction t arbitrary: s es p)
  case (Concat d ll n l r)
  let ?c = "Concat d ll n l r"
  have c: "ok ?c" "pe_end (?c, s) \<le> length (chars x)" "dep ?c + int (length es) \<le> dep x"
    using path_part [OF Concat.prems(1,3)] by auto
  have len: "length (chars x) < 2 ^ 64" using ok_chars [OF Concat.prems(3)] by simp
  have ll: "LEFT_LEN ?c = Inr (length (chars l))" using c(1) by (rule ok_LEFT_LEN)
  have u: "usize (s + length (chars l)) = s + length (chars l)" "usub (length (chars ?c)) (length (chars l)) = length (chars r)"
    using c(2) len by (simp_all add: pe_end_def)
  have "length ((?c, s) # es) < 49"
    using c(1,3) Concat.prems(4) ok_dep [of l] by auto
  note push = push_pe_rep [OF Concat.prems(2) this]
  show ?case
  proof (cases "s + length (chars l) \<le> cur_pos p")
    case True
    obtain q where q: "push_pe (r, s + length (chars l)) p = Inr q" "path_rep q ((r, s + length (chars l)) # (?c, s) # es)"
        "cur_pos q = cur_pos p"
      using push by blast
    have "path_ok x ((r, s + length (chars l)) # (?c, s) # es)" using Concat.prems(1) by simp
    note IH = Concat.IH(2) [OF this q(2) Concat.prems(3,4), unfolded q(3)]
    have "extend_loop ?c s (length (chars ?c)) p = extend_loop r (s + length (chars l)) (length (chars r)) q"
      using ll u True q(1) by (simp del: LEFT_LEN.simps chars.simps)
    moreover have "pe_end (?c, s) = pe_end (r, s + length (chars l))" by (simp add: pe_end_def)
    ultimately show ?thesis using IH True by (simp only: simp_thms)
  next
    case False
    obtain q where q: "push_pe (l, s) p = Inr q" "path_rep q ((l, s) # (?c, s) # es)" "cur_pos q = cur_pos p"
      using push by blast
    have "path_ok x ((l, s) # (?c, s) # es)" using Concat.prems(1) by simp
    moreover have "extend_loop ?c s (length (chars ?c)) p = extend_loop l s (length (chars l)) q"
      using ll u False q(1) by (simp del: LEFT_LEN.simps chars.simps)
    moreover have "cur_pos p < pe_end (?c, s)" "cur_pos p < pe_end (l, s)" using False by (simp_all add: pe_end_def)
    ultimately show ?thesis using Concat.IH(1) [OF _ q(2) Concat.prems(3,4)] Concat.prems(5) q(3)
      by (simp del: extend_loop.simps)
  qed
next
  case CORD_EMPTY
  then show ?case using path_part [of x "(CORD_EMPTY, s)" es] by simp
next
  case (Str t)
  then show ?case using path_part [of x "(Str t, s)" es] by (auto simp: is_leaf_def)
next
  case (Fn f n)
  then show ?case by (force simp: is_leaf_def)
next
  case (Substr a c k n)
  then have "ok (Substr a c k n)" using path_part [of x "(Substr a c k n, s)" es] by simp
  then have "length (chars (Substr a c k n)) = n" by (auto simp: min_def)
  then show ?case using Substr.prems by (intro exI [of _ "Substr a c k n"]) (auto simp: is_leaf_def)
qed

section \<open>Cursors\<close>

text \<open>The characters of the leaf that can be fetched directly.\<close>

definition cache_ok :: "cord \<Rightarrow> CORD_pe \<Rightarrow> cord_pos \<Rightarrow> bool" where
  "cache_ok x e p \<longleftrightarrow>
     (if is_string (fst e) then cur_leaf p = Leaf_String (chars (fst e)) \<and> cur_start p = snd e \<and> cur_end p = pe_end e
      else cur_end p = 0 \<or>
        (cur_leaf p = Function_Buf \<and> snd e < cur_start p \<and> cur_end p \<le> pe_end e \<and> cur_start p \<le> cur_pos p \<and>
         cur_pos p < cur_end p \<and> holds (function_buf p) (take (cur_end p - cur_start p) (drop (cur_start p) (chars x)))))"

definition pos_at :: "cord \<Rightarrow> nat \<Rightarrow> cord_pos \<Rightarrow> bool" where
  "pos_at x i p \<longleftrightarrow> ok x \<and> dep x \<le> 48 \<and> cur_pos p = i \<and>
     (\<exists>e es. path_ok x (e # es) \<and> path_rep p (e # es) \<and> is_leaf (fst e) \<and> snd e \<le> i \<and> i < pe_end e \<and> cache_ok x e p)"

lemma pos_atI:
  assumes "path_ok x (e # es)" "path_rep p (e # es)" "ok x" "dep x \<le> 48" "cur_pos p = i" "is_leaf (fst e)"
    and "snd e \<le> i" "i < pe_end e" "cache_ok x e p"
  shows "pos_at x i p"
  unfolding pos_at_def using assms by blast

definition pos_or_end :: "cord \<Rightarrow> nat \<Rightarrow> cord_pos \<Rightarrow> bool" where
  "pos_or_end x i p \<longleftrightarrow> (if i < length (chars x) then pos_at x i p else \<not> CORD_pos_valid p)"

lemma extend_path_rep:
  assumes "path_ok x (e # es)" "path_rep p (e # es)" "ok x" "dep x \<le> 48" "snd e \<le> cur_pos p"
    and "cur_pos p < pe_end e \<or> pe_end e = length (chars x)"
  shows "\<exists>q. CORD_extend_path p = Inr q \<and> pos_or_end x (cur_pos p) q"
proof -
  obtain t s where e: "e = (t, s)" by fastforce
  have t: "ok t" "pe_end e \<le> length (chars x)" using path_part [OF assms(1,3)] e by auto
  obtain u v gs q where q: "extend_loop t s (length (chars t)) p = Inr (u, v, length (chars u), q)"
      "path_ok x ((u, v) # gs)" "path_rep q ((u, v) # gs)" "cur_pos q = cur_pos p" "is_leaf u" "v \<le> cur_pos p"
      "if cur_pos p < pe_end e then cur_pos p < pe_end (u, v) else pe_end (u, v) = pe_end e"
    using extend_loop_rep [of x t s es p] assms e by auto
  have uv: "pe_end (u, v) \<le> length (chars x)" using path_part [OF q(2) assms(3)] by simp
  then have us: "usize (v + length (chars u)) = pe_end (u, v)" using ok_chars [OF assms(3)] by (simp add: pe_end_def)
  define q' where "q' = (case u of
      Str (c # cs) \<Rightarrow> q\<lparr>cur_leaf := Leaf_String (c # cs), cur_start := v, cur_end := usize (v + length (chars u))\<rparr>
    | _ \<Rightarrow> q\<lparr>cur_end := 0\<rparr>)"
  have q': "path_rep q' ((u, v) # gs)" "cur_pos q' = cur_pos p" "cache_ok x (u, v) q'"
    using q(3-5) us by (auto simp: q'_def cache_ok_def is_leaf_def split: cord.splits list.splits)
  have run: "CORD_extend_path p = Inr (if pe_end (u, v) \<le> cur_pos p then q'\<lparr>path_len := CORD_POS_INVALID\<rparr> else q')"
    using path_rep_load [OF assms(2)] ok_GEN_LEN [OF t(1)] q(1,4) e
    by (auto simp: CORD_extend_path_def us [symmetric] Let_def q'_def split: cord.splits list.splits)
  show ?thesis
  proof (cases "cur_pos p < pe_end (u, v)")
    case True
    then have "pos_at x (cur_pos p) q'" using q' q(2,5,6) assms(3,4) by (auto simp: pos_at_def)
    then show ?thesis using True uv run by (auto simp: pos_or_end_def)
  next
    case False
    then show ?thesis using q(7) assms(6) run by (auto simp: pos_or_end_def CORD_pos_valid_def split: if_splits)
  qed
qed

lemma set_pos_rep:
  assumes "ok x" "dep x \<le> 48" "length (pos_path p) = 49" "length (function_buf p) = CORD_FUNCTION_BUF_SZ"
  shows "\<exists>q. CORD_set_pos p x i = Inr q \<and> pos_or_end x i q"
proof -
  let ?p = "p\<lparr>pos_path := (pos_path p)[0 := Val (x, 0)], path_len := 0, cur_pos := i\<rparr>"
  have "path_rep ?p [(x, 0)]" using assms(3,4) holds_snoc [of "pos_path p" "[]" 0 "(x, 0)"] by (simp add: path_rep_def)
  moreover have "\<not> is_null x" using assms(1) by (cases x) auto
  ultimately show ?thesis using extend_path_rep [of x "(x, 0)" "[]" ?p] assms
    by (auto simp: CORD_set_pos_def store_in pe_end_def)
qed

lemma pos_or_end_next: "pos_or_end x i p \<Longrightarrow> i < length (chars x) \<longleftrightarrow> CORD_pos_valid p"
proof -
  assume h: "pos_or_end x i p"
  have "CORD_pos_valid p" if at: "pos_at x i p"
  proof -
    obtain e es where "path_ok x (e # es)" "path_rep p (e # es)" "ok x" "dep x \<le> 48" using at by (auto simp: pos_at_def)
    then show ?thesis using path_short [of x e es] by (auto simp: path_rep_def CORD_pos_valid_def)
  qed
  then show ?thesis using h by (auto simp: pos_or_end_def split: if_splits)
qed

lemma pos_at_less: "pos_at x i p \<Longrightarrow> i < length (chars x) \<and> cur_pos p = i"
proof -
  assume at: "pos_at x i p"
  then obtain e es where "path_ok x (e # es)" "ok x" "i < pe_end e" "cur_pos p = i" by (auto simp: pos_at_def)
  then show ?thesis using path_part [of x e es] by auto
qed

lemma pos_at_valid: "pos_at x i p \<Longrightarrow> CORD_pos_valid p"
  using pos_or_end_next [of x i p] pos_at_less [of x i p] by (auto simp: pos_or_end_def)

text \<open>Direct access: the characters from the current one to the end of the cache.\<close>

lemma leaf_read_rep:
  assumes "pos_at x i p" "cur_end p \<noteq> 0" "i + k < cur_end p"
  shows "leaf_read p (usub i (cur_start p) + k) = Inr (chars x ! (i + k))"
proof -
  obtain e es where e: "path_ok x (e # es)" "path_rep p (e # es)" "is_leaf (fst e)" "snd e \<le> i" "i < pe_end e"
      "cache_ok x e p" "ok x"
    using assms(1) by (auto simp: pos_at_def)
  note part = path_part [OF e(1,7)]
  have len: "i < 2 ^ 64" using pos_at_less [OF assms(1)] ok_chars [OF e(7)] by simp
  show ?thesis
  proof (cases "is_string (fst e)")
    case True
    then obtain u where u: "fst e = Str u" by (auto elim: is_stringE)
    have c: "cur_leaf p = Leaf_String u" "cur_start p = snd e" "cur_end p = snd e + length u"
      using e(6) True u by (auto simp: cache_ok_def pe_end_def)
    have "u ! (i - snd e + k) = chars x ! (i + k)" using part u c assms(3) e(4) by simp
    moreover have "i - snd e + k < length u" using c assms(3) e(4) by linarith
    ultimately show ?thesis using c e(4) len by (simp add: leaf_read_def nth_append)
  next
    case False
    then have c: "cur_leaf p = Function_Buf" "cur_start p \<le> i" "cur_end p \<le> pe_end e"
        "holds (function_buf p) (take (cur_end p - cur_start p) (drop (cur_start p) (chars x)))"
      using e(6) assms(1,2) by (auto simp: cache_ok_def pos_at_def)
    define m where "m = i - cur_start p + k"
    have l: "m < length (take (cur_end p - cur_start p) (drop (cur_start p) (chars x)))"
      using c part assms(3) by (auto simp: m_def)
    have "load (function_buf p) (int m) = Inr (chars x ! (i + k))"
    proof -
      have "load (function_buf p) (int m) = Inr (take (cur_end p - cur_start p) (drop (cur_start p) (chars x)) ! m)"
        using load_holds [OF c(4), of "int m"] l by simp
      moreover have "cur_start p \<le> length (chars x)" using l by auto
      then have "take (cur_end p - cur_start p) (drop (cur_start p) (chars x)) ! m = chars x ! (i + k)"
        using l c(2) by (simp add: m_def)
      ultimately show ?thesis by simp
    qed
    then show ?thesis using c(1,2) len by (simp add: leaf_read_def m_def)
  qed
qed

lemma fetch_rep:
  assumes "pos_at x i p"
  shows "CORD_pos_fetch p = Inr (chars x ! i)"
proof (cases "cur_end p = 0")
  case False
  obtain e where e: "cache_ok x e p" "i < pe_end e" "cur_pos p = i" using assms by (auto simp: pos_at_def)
  then have "i < cur_end p" using False by (auto simp: cache_ok_def split: if_splits)
  then show ?thesis using leaf_read_rep [OF assms False, of 0] False e(3) by (simp add: CORD_pos_fetch_def)
next
  case True
  obtain e es where e: "path_ok x (e # es)" "path_rep p (e # es)" "is_leaf (fst e)" "snd e \<le> i" "i < pe_end e"
      "cache_ok x e p" "ok x"
    using assms by (auto simp: pos_at_def)
  note part = path_part [OF e(1,7)]
  have fn: "is_fn (fst e)" using e(3,5,6) True by (auto simp: is_leaf_def cache_ok_def split: if_splits)
  have i: "cur_pos p = i" "i < 2 ^ 64" using pos_at_less [OF assms] ok_chars [OF e(7)] by auto
  have k: "i - snd e < length (chars (fst e))" using e(4,5) by (simp add: pe_end_def)
  have "is_function (fst e) = Inr True" using fn by (cases "fst e") (auto simp: is_function_def)
  then show ?thesis
    using True path_rep_load [OF e(2)] pos_at_valid [OF assms] ok_node_fn [OF _ fn k] part k i e(4)
    by (auto simp: CORD_pos_fetch_def CORD__pos_fetch_def split: prod.splits)
qed

section \<open>Moving forward\<close>

text \<open>
  Popping the path forward: either the part at its end reaches to the end of the cord, or there is an entry
  whose left part ends where it ends.
\<close>

lemma pop_next_rep:
  assumes "path_ok x (e # es)" "holds b (rev (e # es))" "ok x"
  shows "\<exists>k. pop_path True b (length es) = Inr k \<and>
    (if k = 0 then pe_end e = length (chars x)
     else \<exists>f fs. path_ok x (f # fs) \<and> holds b (rev (f # fs)) \<and> length fs = k - 1 \<and> snd f \<le> pe_end e \<and> pe_end e < pe_end f)"
  using assms
proof (induction es arbitrary: e)
  case (Cons f es)
  have lf: "load b (int (length es)) = Inr f" "load b (int (Suc (length es))) = Inr e"
    using load_holds [OF Cons.prems(2), of "int (length es)"] load_holds [OF Cons.prems(2), of "int (Suc (length es))"]
    by (simp_all add: nth_append)
  have hf: "holds b (rev (f # es))" using Cons.prems(2) holds_append_iff [of b "rev (f # es)" "[e]"] by simp
  have pf: "path_ok x (f # es)" using Cons.prems(1) by simp
  obtain d ll n l r s where f: "f = (Concat d ll n l r, s)" "e = (l, s) \<or> e = (r, s + length (chars l))"
    using Cons.prems(1) by (auto elim: part_ofE)
  have "ok (Concat d ll n l r)" using path_part [OF pf Cons.prems(3)] f by simp
  then have ne: "chars l \<noteq> []" "chars r \<noteq> []" using ok_chars [of l] ok_chars [of r] by auto
  show ?case
  proof (cases "snd e = snd f")
    case True
    then have "e = (l, s)" using f ne by (cases e) auto
    then have "snd f \<le> pe_end e" "pe_end e < pe_end f" using f ne by (simp_all add: pe_end_def)
    moreover have "pop_path True b (Suc (length es)) = Inr (Suc (length es))" using True lf by (auto split: prod.splits)
    ultimately show ?thesis
      using pf hf exI [of "\<lambda>fs. path_ok x (f # fs) \<and> holds b (rev (f # fs)) \<and> length fs = length es" es]
      by (intro exI [of _ "Suc (length es)"]) (auto simp del: rev.simps pop_path.simps split_paired_Ex)
  next
    case False
    then have "e = (r, s + length (chars l))" using f by auto
    then have "pe_end e = pe_end f" using f(1) by (simp add: pe_end_def)
    moreover have "pop_path True b (length (f # es)) = pop_path True b (length es)"
      using False lf by (simp add: case_prod_beta)
    ultimately show ?thesis using Cons.IH [OF pf hf Cons.prems(3)] by (simp only:)
  qed
qed (auto simp: pe_end_def)

lemma fill_cache_rep:
  assumes "\<forall>k < n. node_fn leaf (usub (usize (i + k + pos)) start) = Inr (cs ! (i + k))"
    and "i + n = length cs" "holds b (take i cs)" "length cs \<le> length b"
  shows "\<exists>b'. fill_cache leaf start pos i n b = Inr b' \<and> holds b' cs \<and> length b' = length b"
  using assms
proof (induction n arbitrary: i b)
  case (Suc n)
  have "holds (b[i := Val (cs ! i)]) (take i cs @ [cs ! i])" using Suc.prems by (intro holds_snoc) auto
  then have h: "holds (b[i := Val (cs ! i)]) (take (Suc i) cs)" using Suc.prems(2) by (simp add: take_Suc_conv_app_nth)
  have "\<forall>k < n. node_fn leaf (usub (usize (Suc i + k + pos)) start) = Inr (cs ! (Suc i + k))"
    using Suc.prems(1) by auto
  from Suc.IH [OF this _ h] Suc.prems show ?case
    by (auto simp: store_in dest: spec [of _ 0])
qed auto

lemma next_rep:
  assumes at: "pos_at x i p"
  shows "\<exists>q. CORD_next p = Inr q \<and> pos_or_end x (Suc i) q"
proof -
  obtain e es where e: "path_ok x (e # es)" "path_rep p (e # es)" "is_leaf (fst e)" "snd e \<le> i" "i < pe_end e"
      "cache_ok x e p" "ok x" "dep x \<le> 48" "cur_pos p = i"
    using at by (auto simp: pos_at_def)
  note part = path_part [OF e(1,7)]
  have len: "length (chars x) < 2 ^ 64" using ok_chars [OF e(7)] by simp
  have i: "Suc i \<le> length (chars x)" "usize (Suc i) = Suc i" using e(5) part len by auto
  show ?thesis
  proof (cases "Suc i < cur_end p")
    case True
    then have "cache_ok x e (p\<lparr>cur_pos := Suc i\<rparr>)" "Suc i < pe_end e" using e(6,9) by (auto simp: cache_ok_def split: if_splits)
    then have "pos_at x (Suc i) (p\<lparr>cur_pos := Suc i\<rparr>)" using e by (intro pos_atI [of x e es]) auto
    then show ?thesis using True i(2) e(9) pos_at_less by (fastforce simp: CORD_next_def pos_or_end_def)
  next
    case False
    let ?p = "p\<lparr>cur_pos := Suc i\<rparr>"
    have nx: "CORD_next p = CORD__next p" using False i(2) e(9) by (simp add: CORD_next_def)
    have nn: "\<not> is_null (fst e)" using e(3) by (cases "fst e") (auto simp: is_leaf_def)
    show ?thesis
    proof (cases "is_fn (fst e) \<and> Suc i < pe_end e")
      case True
      let ?lim = "min CORD_FUNCTION_BUF_SZ (pe_end e - Suc i)" and ?cs = "take (min CORD_FUNCTION_BUF_SZ (pe_end e - Suc i)) (drop (Suc i) (chars x))"
      have ns: "\<not> is_string (fst e)" using True by (cases "fst e") auto
      have le: "pe_end e \<le> length (chars x)" "usize (snd e + length (chars (fst e))) = pe_end e"
        using part len by (auto simp: pe_end_def)
      have cs: "length ?cs = ?lim" using le(1) by auto
      have rd: "node_fn (fst e) (usub (usize (k + Suc i)) (snd e)) = Inr (?cs ! k)" if k: "k < ?lim" for k
      proof -
        have "k + Suc i - snd e < length (chars (fst e))" "k + Suc i < length (chars x)" "k + Suc i < 2 ^ 64"
          using k e(4) le(1) len True by (auto simp: pe_end_def)
        moreover from this have "node_fn (fst e) (k + Suc i - snd e) = Inr (chars (fst e) ! (k + Suc i - snd e))"
          using ok_node_fn part True by blast
        ultimately show ?thesis using part k e(4) by (simp add: add.commute)
      qed
      obtain b where b: "fill_cache (fst e) (snd e) (Suc i) 0 ?lim (function_buf p) = Inr b" "holds b ?cs"
          "length b = length (function_buf p)"
        using fill_cache_rep [of ?lim "fst e" 0 "Suc i" "snd e" ?cs "function_buf p"] rd cs e(2) by (auto simp: path_rep_def)
      let ?q = "?p\<lparr>function_buf := b, cur_start := Suc i, cur_leaf := Function_Buf, cur_end := Suc i + ?lim\<rparr>"
      have "usize (Suc i + ?lim) = Suc i + ?lim" using le(1) len True by (intro usize_small) auto
      then have nf: "next_in_function (fst e) (snd e) ?p = Inr (Some ?q)"
        using b(1) True ok_LEN [of "fst e"] part ns le(2) by (simp add: next_in_function_def Let_def)
      have "CORD_next p = Inr ?q"
        unfolding nx using pos_at_valid [OF at] path_rep_load [OF e(2)] nn ns nf i(2) e(9)
        by (auto simp: CORD__next_def Let_def split: prod.splits)
      moreover have "path_rep ?q (e # es)" using e(2) b(3) by (auto simp: path_rep_def)
      moreover have "cache_ok x e ?q" using ns b(2) True e(4) by (auto simp: cache_ok_def)
      moreover have "Suc i < length (chars x)" using True le(1) by simp
      ultimately show ?thesis using e True pos_atI [of x e es ?q "Suc i"] by (auto simp: pos_or_end_def)
    next
      case False
      have pe: "pe_end e = Suc i"
        using \<open>\<not> Suc i < cur_end p\<close> False e(3,5,6) by (auto simp: cache_ok_def is_leaf_def split: if_splits)
      have nf: "(if is_string (fst e) then Inr None else next_in_function (fst e) (snd e) ?p) = Inr None"
      proof (cases "is_string (fst e)")
        case ns: False
        have "usize (snd e + length (chars (fst e))) = Suc i" using pe i by (simp add: pe_end_def)
        then show ?thesis using ns ok_LEN [of "fst e"] part by (simp add: next_in_function_def)
      qed simp
      obtain k where k: "pop_path True (pos_path p) (length es) = Inr k" "if k = 0 then Suc i = length (chars x)
          else \<exists>f fs. path_ok x (f # fs) \<and> holds (pos_path p) (rev (f # fs)) \<and> length fs = k - 1 \<and> snd f \<le> Suc i \<and> Suc i < pe_end f"
        using pop_next_rep [OF e(1) _ e(7), of "pos_path p"] e(2) unfolding pe path_rep_def by blast
      have run: "CORD_next p = (if k = 0 then Inr (?p\<lparr>path_len := CORD_POS_INVALID\<rparr>) else CORD_extend_path (?p\<lparr>path_len := int k - 1\<rparr>))"
        unfolding nx using pos_at_valid [OF at] path_rep_load [OF e(2)] nn nf i(2) e(2,9) k(1)
        by (auto simp: CORD__next_def Let_def path_rep_def split: prod.splits if_splits)
      show ?thesis
      proof (cases "k = 0")
        case True
        then show ?thesis using run k(2) by (simp add: pos_or_end_def CORD_pos_valid_def)
      next
        case kk: False
        then obtain f fs where f: "path_ok x (f # fs)" "holds (pos_path p) (rev (f # fs))" "length fs = k - 1"
            "snd f \<le> Suc i" "Suc i < pe_end f"
          using k(2) by auto
        have "path_rep (?p\<lparr>path_len := int k - 1\<rparr>) (f # fs)" using f(2,3) e(2) kk by (auto simp: path_rep_def)
        from extend_path_rep [OF f(1) this e(7,8)] f(4,5) show ?thesis using run kk by auto
      qed
    qed
  qed
qed

section \<open>Moving back\<close>

fun no_fn :: "cord \<Rightarrow> bool" where
  "no_fn (Concat d ll n l r) \<longleftrightarrow> no_fn l \<and> no_fn r"
| "no_fn x \<longleftrightarrow> \<not> is_fn x"

lemma path_no_fn: "path_ok x (e # es) \<Longrightarrow> no_fn x \<Longrightarrow> no_fn (fst e)"
proof (induction es arbitrary: e)
  case (Cons f es)
  then have "no_fn (fst f)" by simp
  then show ?case using Cons.prems(1) by (auto elim!: part_ofE)
qed simp

lemma pop_prev_rep:
  assumes "path_ok x (e # es)" "holds b (rev (e # es))" "ok x" "0 < snd e"
  shows "\<exists>f fs. pop_path False b (length es) = Inr (Suc (length fs)) \<and> path_ok x (f # fs) \<and> holds b (rev (f # fs)) \<and>
    snd f < snd e \<and> snd e \<le> pe_end f"
  using assms
proof (induction es arbitrary: e)
  case (Cons f es)
  have lf: "load b (int (length es)) = Inr f" "load b (int (Suc (length es))) = Inr e"
    using load_holds [OF Cons.prems(2), of "int (length es)"] load_holds [OF Cons.prems(2), of "int (Suc (length es))"]
    by (simp_all add: nth_append)
  have hf: "holds b (rev (f # es))" using Cons.prems(2) holds_append_iff [of b "rev (f # es)" "[e]"] by simp
  have pf: "path_ok x (f # es)" using Cons.prems(1) by simp
  obtain d ll n l r s where f: "f = (Concat d ll n l r, s)" "e = (l, s) \<or> e = (r, s + length (chars l))"
    using Cons.prems(1) by (auto elim: part_ofE)
  show ?case
  proof (cases "snd e = snd f")
    case True
    moreover have "pop_path False b (length (f # es)) = pop_path False b (length es)"
      using True lf by (simp add: case_prod_beta)
    ultimately show ?thesis using Cons.IH [OF pf hf Cons.prems(3)] Cons.prems(4) by (simp only:)
  next
    case False
    have "pop_path False b (length (f # es)) = Inr (Suc (length es))" using False lf by (simp add: case_prod_beta)
    moreover have "snd f < snd e" "snd e \<le> pe_end f" using False f by (auto simp: pe_end_def)
    ultimately show ?thesis using pf hf by (intro exI [of _ f] exI [of _ es]) (simp only: simp_thms)
  qed
qed auto

lemma prev_rep:
  assumes at: "pos_at x i p" and i: "0 < i" and c: "cur_end p = 0 \<or> cur_start p < i \<or> no_fn x"
  shows "\<exists>q. CORD_prev p = Inr q \<and> pos_at x (i - 1) q"
proof -
  obtain e es where e: "path_ok x (e # es)" "path_rep p (e # es)" "is_leaf (fst e)" "snd e \<le> i" "i < pe_end e"
      "cache_ok x e p" "ok x" "dep x \<le> 48" "cur_pos p = i"
    using at by (auto simp: pos_at_def)
  let ?p = "p\<lparr>cur_pos := i - 1\<rparr>"
  have str: "is_string (fst e) \<Longrightarrow> cur_start p = snd e \<and> cur_end p = pe_end e" using e(6) by (simp add: cache_ok_def)
  have fn: "no_fn x \<Longrightarrow> is_string (fst e)" using path_no_fn [OF e(1)] e(3) by (cases "fst e") (auto simp: is_leaf_def)
  show ?thesis
  proof (cases "cur_end p \<noteq> 0 \<and> cur_start p < i")
    case True
    then have "cache_ok x e ?p" "snd e \<le> i - 1" using e(6,9) by (auto simp: cache_ok_def split: if_splits)
    then have "pos_at x (i - 1) ?p" using e by (intro pos_atI [of x e es]) auto
    then show ?thesis using True e(9) by (simp add: CORD_prev_def)
  next
    case False
    then have prev: "CORD_prev p = CORD__prev p" using e(9) by (auto simp: CORD_prev_def)
    show ?thesis
    proof (cases "snd e \<le> i - 1")
      case True
      then have "cur_end p = 0" using False c fn str i e(5) by auto
      then have "cache_ok x e ?p" using e(5) str by (auto simp: cache_ok_def)
      then have "pos_at x (i - 1) ?p" using e True by (intro pos_atI [of x e es]) auto
      then show ?thesis using True i e(9) path_rep_load [OF e(2)] by (simp add: prev CORD__prev_def Let_def case_prod_beta)
    next
      case se: False
      then have s: "snd e = i" using e(4) by simp
      obtain f fs where f: "pop_path False (pos_path p) (length es) = Inr (Suc (length fs))" "path_ok x (f # fs)"
          "holds (pos_path p) (rev (f # fs))" "snd f < i" "i \<le> pe_end f"
        using pop_prev_rep [OF e(1) _ e(7), of "pos_path p"] e(2) i s by (auto simp: path_rep_def)
      let ?q = "?p\<lparr>path_len := int (length fs)\<rparr>"
      have "path_rep ?q (f # fs)" using f(3) e(2) by (auto simp: path_rep_def)
      moreover have "snd f \<le> i - 1" "i - 1 < pe_end f" using f(4,5) i by simp_all
      ultimately obtain q where q: "CORD_extend_path ?q = Inr q" "pos_or_end x (i - 1) q"
        using extend_path_rep [OF f(2) _ e(7,8), of ?q] by auto
      have "CORD_prev p = CORD_extend_path ?q"
        using i e(2,9) se path_rep_load [OF e(2)] f(1) by (simp add: prev CORD__prev_def path_rep_def Let_def case_prod_beta)
      then show ?thesis using q pos_at_less [OF at] by (auto simp: pos_or_end_def)
    qed
  qed
qed

section \<open>The contract of a cursor\<close>

text \<open>The characters from the current one on, as a loop over a cursor collects them.\<close>

partial_function (option) for_pos ::
  "('p \<Rightarrow> bool) \<Rightarrow> ('p \<Rightarrow> 'p res) \<Rightarrow> ('p \<Rightarrow> 's \<Rightarrow> 's res) \<Rightarrow> 'p \<Rightarrow> 's \<Rightarrow> 's res option" where
  [code]: "for_pos valid nxt body p s =
     (if \<not> valid p then Some (Inr s)
      else case rbind (body p s) (\<lambda>s. rbind (nxt p) (\<lambda>p. Inr (p, s))) of
        Inl e \<Rightarrow> Some (Inl e)
      | Inr r \<Rightarrow> for_pos valid nxt body (fst r) (snd r))"

fun fold_res :: "('a \<Rightarrow> 's \<Rightarrow> 's res) \<Rightarrow> 'a list \<Rightarrow> 's \<Rightarrow> 's res" where
  "fold_res f [] s = Inr s"
| "fold_res f (x # xs) s = rbind (f x s) (fold_res f xs)"

locale cursor =
  fixes at :: "'c \<Rightarrow> nat \<Rightarrow> 'p \<Rightarrow> bool" and str :: "'c \<Rightarrow> string"
    and valid :: "'p \<Rightarrow> bool" and fetch :: "'p \<Rightarrow> char res" and nxt :: "'p \<Rightarrow> 'p res"
  assumes at_range: "at x i p \<Longrightarrow> i < length (str x) \<and> valid p"
    and fetch_at: "at x i p \<Longrightarrow> fetch p = Inr (str x ! i)"
    and nxt_at: "at x i p \<Longrightarrow> \<exists>q. nxt p = Inr q \<and> (if Suc i < length (str x) then at x (Suc i) q else \<not> valid q)"
begin

definition at_or_end :: "'c \<Rightarrow> nat \<Rightarrow> 'p \<Rightarrow> bool" where
  "at_or_end x i p \<longleftrightarrow> (if i < length (str x) then at x i p else \<not> valid p)"

lemma nxt_step: "at x i p \<Longrightarrow> \<exists>q. nxt p = Inr q \<and> at_or_end x (Suc i) q"
  using nxt_at [of x i p] by (auto simp: at_or_end_def)

text \<open>A loop that runs to the end folds its step over the rest of the characters.\<close>

lemma for_fold:
  assumes "at_or_end x i p" and "\<And>j q s. at x j q \<Longrightarrow> body q s = step (str x ! j) s"
  shows "for_pos valid nxt body p s = Some (fold_res step (drop i (str x)) s)"
  using assms(1)
proof (induction "length (str x) - i" arbitrary: i p s)
  case 0
  then show ?case by (subst for_pos.simps) (simp add: at_or_end_def)
next
  case (Suc n)
  then have at: "at x i p" and i: "i < length (str x)" by (auto simp: at_or_end_def)
  then obtain q where q: "nxt p = Inr q" "at_or_end x (Suc i) q" using nxt_step by blast
  have "drop i (str x) = str x ! i # drop (Suc i) (str x)" using i by (rule Cons_nth_drop_Suc [symmetric])
  moreover have "for_pos valid nxt body q s' = Some (fold_res step (drop (Suc i) (str x)) s')" for s'
    using Suc.hyps(1) [OF _ q(2)] Suc.hyps(2) by simp
  ultimately show ?case
    using at_range [OF at] assms(2) [OF at, of s] q(1)
    by (subst for_pos.simps) (cases "step (str x ! i) s"; simp)
qed

end

interpretation pos: cursor pos_at chars CORD_pos_valid CORD_pos_fetch CORD_next
  using pos_at_less pos_at_valid fetch_rep next_rep by unfold_locales (auto simp: pos_or_end_def)

lemma pos_at_or_end: "pos.at_or_end = pos_or_end"
  by (auto simp: fun_eq_iff pos.at_or_end_def pos_or_end_def)

section \<open>Loops over a cord\<close>

text \<open>The macro CORD_FOR of gc/cord.h, with the body as an argument.\<close>

definition CORD_FOR :: "cord \<Rightarrow> (cord_pos \<Rightarrow> 's \<Rightarrow> 's res) \<Rightarrow> 's \<Rightarrow> 's res option" where
  "CORD_FOR x body s =
     (case CORD_set_pos raw_pos x 0 of
        Inl e \<Rightarrow> Some (Inl e)
      | Inr p \<Rightarrow> for_pos CORD_pos_valid CORD_next body p s)"

lemma set_raw_pos: "ok x \<Longrightarrow> dep x \<le> 48 \<Longrightarrow> \<exists>q. CORD_set_pos raw_pos x i = Inr q \<and> pos_or_end x i q"
  by (rule set_pos_rep) (simp_all add: raw_pos_def)

text \<open>A body that uses the position only to fetch the current character.\<close>

definition fetching :: "(char \<Rightarrow> 's \<Rightarrow> 's res) \<Rightarrow> cord_pos \<Rightarrow> 's \<Rightarrow> 's res" where
  "fetching step p s = rbind (CORD_pos_fetch p) (\<lambda>c. step c s)"

section \<open>Properties\<close>

text \<open>C9: CORD_FOR visits the characters of a cord in order, whatever the shape of the cord is: its loop ends,
  and a body that fetches the current character at every position sees exactly the characters of the string.\<close>

theorem cord_for_visits:
  assumes "ok0 x" "dep x \<le> 48"
  shows "CORD_FOR x (fetching step) s = Some (fold_res step (chars x) s)"
proof (cases "x = CORD_EMPTY")
  case True
  then show ?thesis by (simp add: CORD_FOR_def CORD_set_pos_def CORD_pos_valid_def for_pos.simps)
next
  case False
  then obtain q where q: "CORD_set_pos raw_pos x 0 = Inr q" "pos_or_end x 0 q"
    using set_raw_pos [of x 0] assms by (auto simp: ok0_def)
  have "for_pos CORD_pos_valid CORD_next (fetching step) q s = Some (fold_res step (drop 0 (chars x)) s)"
    using q(2) fetch_rep by (intro pos.for_fold) (auto simp: pos_at_or_end fetching_def)
  then show ?thesis using q(1) by (simp add: CORD_FOR_def)
qed

theorem cord_for_visits_witness:
  "CORD_FOR (Concat 2 1 7 (Str ''x'') sample_cord) (fetching (\<lambda>c s. Inr (s @ [c]))) [] = Some (Inr ''xabcdef'')"
proof -
  have "ok0 (Concat 2 1 7 (Str ''x'') sample_cord)" "dep (Concat 2 1 7 (Str ''x'') sample_cord) \<le> 48"
    by (simp_all add: sample_cord_def ok0_def nul_free_def)
  from cord_for_visits [OF this, of "\<lambda>c s. Inr (s @ [c])" "[]"] show ?thesis by (simp add: sample_cord_def)
qed

text \<open>A position anywhere in a cord of strings moves both ways like an index: after CORD_next and CORD_prev,
  also across the ends of the parts, the same character is fetched.\<close>

theorem next_prev_fetch:
  assumes "ok x" "dep x \<le> 48" "no_fn x" "Suc i < length (chars x)"
  shows "\<exists>p q r. CORD_set_pos raw_pos x i = Inr p \<and> CORD_next p = Inr q \<and> CORD_prev q = Inr r \<and>
    CORD_pos_fetch p = Inr (chars x ! i) \<and> CORD_pos_fetch q = Inr (chars x ! Suc i) \<and> CORD_pos_fetch r = Inr (chars x ! i) \<and>
    CORD_pos_to_index r = i"
proof -
  obtain p where p: "CORD_set_pos raw_pos x i = Inr p" "pos_at x i p"
    using set_raw_pos [OF assms(1,2), of i] assms(4) by (auto simp: pos_or_end_def)
  obtain q where q: "CORD_next p = Inr q" "pos_at x (Suc i) q"
    using next_rep [OF p(2)] assms(4) by (auto simp: pos_or_end_def)
  obtain r where r: "CORD_prev q = Inr r" "pos_at x i r" using prev_rep [OF q(2)] assms(3) by auto
  show ?thesis using p q r fetch_rep [OF p(2)] fetch_rep [OF q(2)] fetch_rep [OF r(2)] pos_at_less [OF r(2)]
    by (auto simp: CORD_pos_to_index_def)
qed

theorem next_prev_fetch_witness:
  "\<exists>p q r. CORD_set_pos raw_pos sample_cord 2 = Inr p \<and> CORD_next p = Inr q \<and> CORD_prev q = Inr r \<and>
     CORD_pos_fetch q = Inr (CHR ''d'') \<and> CORD_pos_fetch r = Inr (CHR ''c'')"
proof -
  have "ok sample_cord" "dep sample_cord \<le> 48" "no_fn sample_cord" "chars sample_cord = ''abcdef''"
    by (simp_all add: sample_cord_def nul_free_def)
  then show ?thesis using next_prev_fetch [of sample_cord 2] by auto
qed

text \<open>In a function the step back leaves the buffer that CORD_next filled in place, although the current
  character is now in front of it: the next fetch reads before the buffer.\<close>

theorem prev_in_function_overreads:
  assumes "ok (Fn f n)" "Suc i < n"
  shows "rbind (CORD_set_pos raw_pos (Fn f n) i) (\<lambda>p. rbind (CORD_next p) (\<lambda>p. rbind (CORD_prev p) CORD_pos_fetch)) =
    Inl Out_Of_Bounds"
proof -
  have n: "n < 2 ^ 64" "\<And>i. i < n \<Longrightarrow> \<exists>c. f i = Inr c" using assms(1) by auto
  let ?p = "raw_pos\<lparr>pos_path := (pos_path raw_pos)[0 := Val (Fn f n, 0)], path_len := 0, cur_pos := i, cur_end := 0\<rparr>"
  have p: "CORD_set_pos raw_pos (Fn f n) i = Inr ?p"
    using assms(2) n(1) by (simp add: CORD_set_pos_def CORD_extend_path_def raw_pos_def GEN_LEN_def store_def load_def Let_def)
  let ?lim = "min CORD_FUNCTION_BUF_SZ (n - Suc i)" and ?cs = "map (\<lambda>k. case f (k + Suc i) of Inr c \<Rightarrow> c | Inl _ \<Rightarrow> NUL) [0..<min 8 (n - Suc i)]"
  have "\<forall>k < ?lim. node_fn (Fn f n) (usub (usize (0 + k + Suc i)) 0) = Inr (?cs ! (0 + k))"
    using n assms(2) by (auto split: sum.splits) (metis (no_types, opaque_lifting) less_diff_conv Inr_Inl_False add_Suc_right)
  from fill_cache_rep [OF this, of "function_buf raw_pos"]
  obtain b where b: "fill_cache (Fn f n) 0 (Suc i) 0 ?lim (function_buf raw_pos) = Inr b" "length b = 8"
    by (auto simp: raw_pos_def)
  let ?q = "?p\<lparr>cur_pos := Suc i, function_buf := b, cur_start := Suc i, cur_leaf := Function_Buf, cur_end := Suc i + ?lim\<rparr>"
  have lim: "usize (Suc i + ?lim) = Suc i + ?lim" using assms(2) n(1) by (intro usize_small) auto
  have q: "CORD_next ?p = Inr ?q"
    using assms(2) n(1) b lim
    by (simp add: CORD_next_def CORD__next_def CORD_pos_valid_def load_def raw_pos_def next_in_function_def Let_def)
  have r: "CORD_prev ?q = Inr (?q\<lparr>cur_pos := i\<rparr>)"
    by (simp add: CORD_prev_def CORD__prev_def load_def raw_pos_def Let_def)
  have "usub i (Suc i) = 2 ^ 64 - 1" using assms(2) n(1) by (simp add: usub_def usize_def)
  then have "CORD_pos_fetch (?q\<lparr>cur_pos := i\<rparr>) = Inl Out_Of_Bounds"
    using assms(2) b by (simp add: CORD_pos_fetch_def leaf_read_def)
  with p q r show ?thesis by simp
qed

lemma CORD_fetch_rep: "ok0 x \<Longrightarrow> dep x \<le> 48 \<Longrightarrow> CORD_fetch x i = (if i < length (chars x) then Inr (chars x ! i) else Inl Fatal_Exit)"
proof -
  assume x: "ok0 x" "dep x \<le> 48"
  show ?thesis
  proof (cases "x = CORD_EMPTY")
    case False
    then obtain q where "CORD_set_pos raw_pos x i = Inr q" "pos_or_end x i q"
      using set_raw_pos [of x i] x by (auto simp: ok0_def)
    then show ?thesis using fetch_rep pos_at_valid by (auto simp: CORD_fetch_def pos_or_end_def split: if_splits)
  qed (simp add: CORD_fetch_def CORD_set_pos_def CORD_pos_valid_def)
qed

end
