(* ===== verification/Cord_Search.thy ===== *)
theory Cord_Search
  imports Cord_Pos_Facts
begin

text \<open>
  Comparison and search of cords: CORD_cmp and CORD_ncmp against the order of strings, CORD_str against the
  first occurrence.  CORD_cmp is right for cords whose leaves are strings, and wrong when a function node
  follows a string.
\<close>

section \<open>The order of strings\<close>

lemma c_strcmp_append:
  "length us = length vs \<Longrightarrow> c_strcmp (us @ u) (vs @ v) = (if us = vs then c_strcmp u v else c_strcmp us vs)"
  by (induction us vs rule: list_induct2) auto

lemma sgn_c_strcmp: "sgn (c_strcmp u v) = c_strcmp u v"
  by (induction u v rule: c_strcmp.induct) auto

definition ascii :: "string \<Rightarrow> bool" where
  "ascii = list_all (\<lambda>c. code c < 128)"

text \<open>A result tells whether two strings are equal, and for ASCII strings which one is smaller.\<close>

definition agrees :: "int \<Rightarrow> string \<Rightarrow> string \<Rightarrow> bool" where
  "agrees r u v \<longleftrightarrow> (r = 0 \<longleftrightarrow> u = v) \<and> (ascii u \<and> ascii v \<longrightarrow> sgn r = c_strcmp u v)"

lemma agrees_prefix: "agrees r u v \<Longrightarrow> agrees r (us @ u) (us @ v)"
  by (simp add: agrees_def ascii_def c_strcmp_append)

lemma agrees_differ: "length us = length vs \<Longrightarrow> us \<noteq> vs \<Longrightarrow> agrees (c_strcmp us vs) (us @ u) (vs @ v)"
  by (auto simp: agrees_def c_strcmp_append sgn_c_strcmp)

lemma agrees_char: "c \<noteq> d \<Longrightarrow> agrees (char_val c - char_val d) (c # u) (d # v)"
proof -
  assume ne: "c \<noteq> d"
  have codes: "code c \<noteq> code d" "code c < 256" "code d < 256" using ne code_less_256 by auto
  have "char_val c - char_val d \<noteq> 0" using codes unfolding char_val_def by (simp only: split: if_split) linarith
  then show ?thesis using ne codes by (auto simp: agrees_def ascii_def char_val_def sgn_if)
qed

lemma agrees_end: "agrees 0 [] []" "agrees (- 1) [] (d # v)" "agrees 1 (c # u) []"
  by (simp_all add: agrees_def)

section \<open>Blocks of characters\<close>

lemma cache_le: "pos_at x i p \<Longrightarrow> cur_end p \<le> length (chars x) \<and> (cur_end p = 0 \<or> i < cur_end p)"
proof -
  assume "pos_at x i p"
  then obtain e es where e: "path_ok x (e # es)" "ok x" "cache_ok x e p" "cur_pos p = i" "i < pe_end e" by (auto simp: pos_at_def)
  then show ?thesis using path_part [OF e(1,2)] by (auto simp: cache_ok_def split: if_splits)
qed

lemma pos_at_shift: "pos_at x i p \<Longrightarrow> i \<le> k \<Longrightarrow> k < cur_end p \<Longrightarrow> pos_at x k (p\<lparr>cur_pos := k\<rparr>)"
proof -
  assume k: "i \<le> k" "k < cur_end p" and at: "pos_at x i p"
  obtain e es where e: "path_ok x (e # es)" "path_rep p (e # es)" "is_leaf (fst e)" "snd e \<le> i" "i < pe_end e"
      "cache_ok x e p" "ok x" "dep x \<le> 48" "cur_pos p = i"
    using at by (auto simp: pos_at_def)
  have "cache_ok x e (p\<lparr>cur_pos := k\<rparr>)" "k < pe_end e" using e(6,9) k by (auto simp: cache_ok_def split: if_splits)
  then show ?thesis using e k by (intro pos_atI [of x e es]) auto
qed

lemma advance_rep:
  assumes "pos_at x i p" "0 < m" "i + m \<le> cur_end p"
  shows "\<exists>q. CORD_pos_advance p m = Inr q \<and> pos_or_end x (i + m) q"
proof -
  have l: "cur_end p < 2 ^ 64" "cur_pos p = i"
    using cache_le [OF assms(1)] ok_chars [of x] assms(1) by (auto simp: pos_at_def)
  then have "usize (cur_pos p + usub m 1) = i + m - 1" using assms(2,3) by simp
  moreover have "pos_at x (i + m - 1) (p\<lparr>cur_pos := i + m - 1\<rparr>)" using assms by (intro pos_at_shift) auto
  ultimately show ?thesis using next_rep [of x "i + m - 1"] assms(2) by (auto simp: CORD_pos_advance_def)
qed

lemma strncmp_loop_rep:
  assumes "\<And>k. k < length us \<Longrightarrow> leaf_read p (i + k) = Inr (us ! k)" "\<And>k. k < length us \<Longrightarrow> leaf_read q (j + k) = Inr (vs ! k)"
    and "length us = length vs" "nul_free us"
  shows "strncmp_loop p i q j (length us) = Inr (c_strcmp us vs)"
  using assms(3,1,2,4)
proof (induction us vs arbitrary: i j rule: list_induct2)
  case (Cons c us d vs)
  have "leaf_read p i = Inr c" "leaf_read q j = Inr d" using Cons.prems(1,2) [of 0] by simp_all
  moreover have "strncmp_loop p (Suc i) q (Suc j) (length us) = Inr (c_strcmp us vs)"
    using Cons.prems(1,2) [of "Suc k" for k] Cons.prems(3) by (intro Cons.IH) simp_all
  ultimately show ?case using Cons.prems(3) by simp
qed simp

lemma compare_block_rep:
  assumes "pos_at x i p" "pos_at y j q" "0 < m" "i + m \<le> cur_end p" "j + m \<le> cur_end q" "nul_free (chars x)"
  defines "us \<equiv> take m (drop i (chars x))" and "vs \<equiv> take m (drop j (chars y))"
  shows "if us = vs then \<exists>p' q'. compare_block p q m = Inr (Inr (p', q')) \<and> pos_or_end x (i + m) p' \<and> pos_or_end y (j + m) q'
    else compare_block p q m = Inr (Inl (c_strcmp us vs))"
proof -
  have l: "length us = m" "length vs = m" using cache_le [OF assms(1)] cache_le [OF assms(2)] assms(4,5) by (auto simp: us_def vs_def)
  have at: "cur_pos p = i" "cur_pos q = j" using pos_at_less [OF assms(1)] pos_at_less [OF assms(2)] by auto
  have "leaf_read p (usub i (cur_start p) + k) = Inr (us ! k)" if "k < m" for k
    using leaf_read_rep [OF assms(1), of k] that assms(3,4) cache_le [OF assms(1)] by (simp add: us_def)
  moreover have "leaf_read q (usub j (cur_start q) + k) = Inr (vs ! k)" if "k < m" for k
    using leaf_read_rep [OF assms(2), of k] that assms(3,5) cache_le [OF assms(2)] by (simp add: vs_def)
  ultimately have cmp: "strncmp_cur p q m = Inr (c_strcmp us vs)"
    using strncmp_loop_rep [of us p "usub i (cur_start p)" q "usub j (cur_start q)" vs] l assms(6)
    by (simp add: strncmp_cur_def at us_def)
  show ?thesis using cmp advance_rep [OF assms(1,3,4)] advance_rep [OF assms(2,3,5)]
    by (auto simp: compare_block_def)
qed

lemma compare_one_rep:
  assumes "pos_at x i p" "pos_at y j q"
  shows "if chars x ! i = chars y ! j
    then \<exists>p' q'. compare_one p q = Inr (Inr (p', q')) \<and> pos_or_end x (Suc i) p' \<and> pos_or_end y (Suc j) q'
    else compare_one p q = Inr (Inl (char_val (chars x ! i) - char_val (chars y ! j)))"
  using fetch_rep [OF assms(1)] fetch_rep [OF assms(2)] next_rep [OF assms(1)] next_rep [OF assms(2)]
  by (auto simp: compare_one_def)

lemma chars_left_rep:
  assumes "pos_at x i p" "length (chars x) < 2 ^ 63"
  shows "CORD_pos_chars_left p = Inr (int (cur_end p) - int i)"
  using cache_le [OF assms(1)] pos_at_less [OF assms(1)] assms(2) by (auto simp: CORD_pos_chars_left_def to_long_def Let_def)

section \<open>CORD_cmp\<close>

lemma no_fn_nul_free: "ok x \<Longrightarrow> no_fn x \<Longrightarrow> nul_free (chars x)"
  by (induction x) auto

text \<open>In a cord of strings the cache is never empty.\<close>

lemma no_fn_cache: "pos_at x i p \<Longrightarrow> no_fn x \<Longrightarrow> i < cur_end p"
proof -
  assume "pos_at x i p" "no_fn x"
  then obtain e es where e: "path_ok x (e # es)" "is_leaf (fst e)" "cache_ok x e p" "i < pe_end e" "no_fn x" by (auto simp: pos_at_def)
  then have "is_string (fst e)" using path_no_fn [OF e(1,5)] by (cases "fst e") (auto simp: is_leaf_def)
  then show ?thesis using e(3,4) by (simp add: cache_ok_def)
qed

lemma cmp_loop_rep:
  assumes "pos_or_end x i p" "pos_or_end y j q" "no_fn x" "no_fn y" "length (chars x) < 2 ^ 63" "length (chars y) < 2 ^ 63"
  shows "cmp_loop p q = Some (Inr (c_strcmp (drop i (chars x)) (drop j (chars y))))"
  using assms(1,2)
proof (induction "length (chars x) - i" arbitrary: i j p q rule: less_induct)
  case less
  show ?case
  proof (cases "i < length (chars x) \<and> j < length (chars y)")
    case False
    then have "cmp_round p q = Inr (Inl (c_strcmp (drop i (chars x)) (drop j (chars y))))"
      using less.prems pos_at_valid
      by (cases "drop i (chars x)"; cases "drop j (chars y)") (auto simp: cmp_round_def pos_or_end_def split: if_splits)
    then show ?thesis by (subst cmp_loop.simps) simp
  next
    case True
    then have at: "pos_at x i p" "pos_at y j q" using less.prems by (auto simp: pos_or_end_def)
    define m where "m = min (cur_end p - i) (cur_end q - j)"
    have ends: "i < cur_end p" "j < cur_end q" using no_fn_cache at assms(3,4) by auto
    have ok: "ok x" using at(1) by (simp add: pos_at_def)
    have le: "cur_end p \<le> length (chars x)" using cache_le [OF at(1)] by simp
    have m: "0 < m" "i + m \<le> cur_end p" "j + m \<le> cur_end q" using ends by (auto simp: m_def)
    have "of_long (min (int (cur_end p) - int i) (int (cur_end q) - int j)) = m"
      using ends le assms(5) by (auto simp: of_long_def m_def min_def)
    then have round: "cmp_round p q = compare_block p q m"
      using pos_at_valid [OF at(1)] pos_at_valid [OF at(2)] chars_left_rep [OF at(1) assms(5)] chars_left_rep [OF at(2) assms(6)] ends
      by (simp add: cmp_round_def)
    let ?us = "take m (drop i (chars x))" and ?vs = "take m (drop j (chars y))"
    have split: "drop i (chars x) = ?us @ drop (i + m) (chars x)" "drop j (chars y) = ?vs @ drop (j + m) (chars y)"
      by (metis append_take_drop_id drop_drop add.commute)+
    have len: "length ?us = length ?vs" using m le cache_le [OF at(2)] by auto
    have cs: "c_strcmp (drop i (chars x)) (drop j (chars y)) =
        (if ?us = ?vs then c_strcmp (drop (i + m) (chars x)) (drop (j + m) (chars y)) else c_strcmp ?us ?vs)"
      using c_strcmp_append [OF len] split by metis
    note block = compare_block_rep [OF at m no_fn_nul_free [OF ok assms(3)]]
    show ?thesis
    proof (cases "?us = ?vs")
      case True
      then obtain p' q' where n: "compare_block p q m = Inr (Inr (p', q'))" "pos_or_end x (i + m) p'" "pos_or_end y (j + m) q'"
        using block by auto
      have "cmp_loop p' q' = Some (Inr (c_strcmp (drop (i + m) (chars x)) (drop (j + m) (chars y))))"
      proof (rule less.hyps [OF _ n(2,3)])
        show "length (chars x) - (i + m) < length (chars x) - i" using m(1) pos_at_less [OF at(1)] by linarith
      qed
      then show ?thesis unfolding cs using n(1) round True by (subst cmp_loop.simps) simp
    next
      case False
      then show ?thesis unfolding cs using block round by (subst cmp_loop.simps) simp
    qed
  qed
qed

section \<open>CORD_ncmp\<close>

lemma ncmp_loop_rep:
  assumes "pos_or_end x i p" "pos_or_end y j q" "nul_free (chars x)" "length (chars x) < 2 ^ 63" "length (chars y) < 2 ^ 63"
    and "len < 2 ^ 64" "count \<le> i"
  shows "\<exists>r. ncmp_loop len p q count = Some (Inr r) \<and>
    agrees r (take (len - count) (drop i (chars x))) (take (len - count) (drop j (chars y)))"
  using assms(1,2,7)
proof (induction "len - count" arbitrary: i j p q count rule: less_induct)
  case less
  have last: "\<exists>r. ncmp_loop len p q count = Some (Inr r) \<and> agrees r u v"
    if "count < len" "ncmp_round len p q count = Inr (Inl r)" "agrees r u v" for r u v
    using that by (subst ncmp_loop.simps) auto
  show ?case
  proof (cases "count < len")
    case False
    then show ?thesis by (subst ncmp_loop.simps) (simp add: agrees_end)
  next
    case c: True
    then obtain d where d: "len - count = Suc d" using less_imp_Suc_add by (metis Suc_diff_Suc)
    show ?thesis
    proof (cases "i < length (chars x) \<and> j < length (chars y)")
      case False
      then consider "length (chars x) \<le> i" "length (chars y) \<le> j" | "length (chars x) \<le> i" "j < length (chars y)"
        | "i < length (chars x)" "length (chars y) \<le> j" by linarith
      then show ?thesis
      proof cases
        case 1
        then show ?thesis using less.prems c agrees_end(1) by (intro last) (auto simp: ncmp_round_def pos_or_end_def)
      next
        case 2
        then have "drop j (chars y) = chars y ! j # drop (Suc j) (chars y)" by (simp add: Cons_nth_drop_Suc)
        then show ?thesis using 2 less.prems c d agrees_end(2) pos_at_valid
          by (intro last) (auto simp: ncmp_round_def pos_or_end_def)
      next
        case 3
        then have "drop i (chars x) = chars x ! i # drop (Suc i) (chars x)" by (simp add: Cons_nth_drop_Suc)
        then show ?thesis using 3 less.prems c d agrees_end(3) pos_at_valid
          by (intro last) (auto simp: ncmp_round_def pos_or_end_def)
      qed
    next
      case True
      then have at: "pos_at x i p" "pos_at y j q" using less.prems by (auto simp: pos_or_end_def)
      note valid = pos_at_valid [OF at(1)] pos_at_valid [OF at(2)]
      note left = chars_left_rep [OF at(1) assms(4)] chars_left_rep [OF at(2) assms(5)]
      have step: "ncmp_loop len p q count = ncmp_loop len p' q' n"
        if "ncmp_round len p q count = Inr (Inr (p', q', n))" for p' q' n
        using that c by (subst ncmp_loop.simps) simp
      show ?thesis
      proof (cases "cur_end p = 0 \<or> cur_end q = 0")
        case True
        have dr: "drop i (chars x) = chars x ! i # drop (Suc i) (chars x)" "drop j (chars y) = chars y ! j # drop (Suc j) (chars y)"
          using pos_at_less [OF at(1)] pos_at_less [OF at(2)] by (simp_all add: Cons_nth_drop_Suc)
        have "usize (count + 1) = count + 1" using c assms(6) by simp
        then have round: "ncmp_round len p q count = counted (Suc count) (compare_one p q)"
          using valid left True by (auto simp: ncmp_round_def)
        show ?thesis
        proof (cases "chars x ! i = chars y ! j")
          case eq: True
          then obtain p' q' where n: "compare_one p q = Inr (Inr (p', q'))" "pos_or_end x (Suc i) p'" "pos_or_end y (Suc j) q'"
            using compare_one_rep [OF at] by auto
          obtain r where r: "ncmp_loop len p' q' (Suc count) = Some (Inr r)"
              "agrees r (take (len - Suc count) (drop (Suc i) (chars x))) (take (len - Suc count) (drop (Suc j) (chars y)))"
            using less.hyps [OF _ n(2,3)] c less.prems(3) by force
          have "len - Suc count = d" using d by simp
          then show ?thesis using r step [of p' q' "Suc count"] round n(1) eq dr d agrees_prefix [OF r(2), of "[chars x ! i]"]
            by (auto simp: counted_def)
        next
          case False
          then show ?thesis using round compare_one_rep [OF at] c dr d agrees_char [OF False]
            by (intro last) (auto simp: counted_def)
        qed
      next
        case False
        then have ends: "i < cur_end p" "j < cur_end q" using cache_le [OF at(1)] cache_le [OF at(2)] by auto
        define a where "a = min (cur_end p - i) (cur_end q - j)"
        define m where "m = min a (len - count)"
        have le: "cur_end p \<le> length (chars x)" "cur_end q \<le> length (chars y)" using cache_le [OF at(1)] cache_le [OF at(2)] by auto
        have m: "0 < m" "i + m \<le> cur_end p" "j + m \<le> cur_end q" using ends c by (auto simp: m_def a_def)
        have avail: "min (int (cur_end p) - int i) (int (cur_end q) - int j) = int a" using ends by (auto simp: a_def)
        have al: "a < 2 ^ 63" "count + a < 2 ^ 63" using le assms(4) less.prems(3) ends by (auto simp: a_def)
        have long: "of_long (int k) = k" if "k < 2 ^ 64" for k using that by (simp add: of_long_def)
        have cut: "(if len < count + a then int a - to_long (count + a - len) else int a) = int m"
          using al c by (auto simp: to_long_def m_def)
        have "m < 2 ^ 64" "usize (count + a) = count + a" "of_long (int a) = a" using al long by (auto simp: m_def)
        moreover have "ncmp_round len p q count = counted (usize (count + of_long (int a))) (compare_block p q
            (of_long (if len < usize (count + of_long (int a)) then int a - to_long (usize (count + of_long (int a)) - len) else int a)))"
          using valid left ends avail by (simp add: ncmp_round_def Let_def split del: if_split)
        ultimately have round: "ncmp_round len p q count = counted (count + a) (compare_block p q m)"
          by (simp only: cut long)
        let ?us = "take m (drop i (chars x))" and ?vs = "take m (drop j (chars y))"
        have len: "length ?us = length ?vs" using m le by auto
        have split: "take (len - count) (drop i xs) = take m (drop i xs) @ take (len - count - m) (drop (i + m) xs)" for i and xs :: string
          by (metis add.commute drop_drop le_add_diff_inverse m_def min.cobounded2 take_add)
        note block = compare_block_rep [OF at m assms(3)]
        show ?thesis
        proof (cases "?us = ?vs")
          case True
          then obtain p' q' where n: "compare_block p q m = Inr (Inr (p', q'))" "pos_or_end x (i + m) p'" "pos_or_end y (j + m) q'"
            using block by auto
          have nx: "ncmp_loop len p q count = ncmp_loop len p' q' (count + a)"
            using step [of p' q' "count + a"] round n(1) by (simp add: counted_def)
          have "\<exists>r. ncmp_loop len p' q' (count + a) = Some (Inr r) \<and>
              agrees r (take (len - count - m) (drop (i + m) (chars x))) (take (len - count - m) (drop (j + m) (chars y)))"
          proof (cases "len \<le> count + a")
            case True
            then have "len - count - m = 0" by (simp add: m_def)
            then show ?thesis using True by (subst ncmp_loop.simps) (simp add: agrees_end)
          next
            case False
            then have "m = a" by (auto simp: m_def)
            then show ?thesis using less.hyps [of "count + a" "i + m", OF _ n(2,3)] less.prems(3) False m(1) by simp
          qed
          then show ?thesis using nx True agrees_prefix split by metis
        next
          case False
          show ?thesis unfolding split [of i "chars x"] split [of j "chars y"]
            using round block False c agrees_differ [OF len False] by (intro last) (auto simp: counted_def)
        qed
      qed
    qed
  qed
qed

section \<open>The first characters in a word\<close>

abbreviation push_chars :: "64 word \<Rightarrow> string \<Rightarrow> 64 word" where "push_chars \<equiv> foldl push_char"

lemma byte_word: "n < 256 \<Longrightarrow> (word_of_nat n :: 64 word) = take_bit 8 (word_of_nat n)"
  by (simp add: take_bit_nat_eq_self flip: of_nat_take_bit)

lemma bit_push_char:
  "bit (push_char w c) k \<longleftrightarrow> k < 64 \<and> (if k < 8 then bit (word_of_nat (code c) :: 64 word) k else bit w (k - 8))"
proof -
  have "(word_of_nat (code c) :: 64 word) = take_bit 8 (word_of_nat (code c))"
    using code_less_256 by (rule byte_word)
  then have "bit (word_of_nat (code c) :: 64 word) k \<Longrightarrow> k < 8" by (metis bit_take_bit_iff)
  moreover have "bit (word_of_nat (code c) :: 64 word) k \<Longrightarrow> k < 64" "bit w (k - 8) \<Longrightarrow> k < 8 \<Longrightarrow> k < 64"
    using bit_imp_le_length by fastforce+
  ultimately show ?thesis by (auto simp: push_char_def bit_or_iff bit_push_bit_iff)
qed

lemma push_chars_mask: "push_chars w cs AND mask (8 * length cs) = push_chars 0 cs"
proof (induction cs rule: rev_induct)
  case (snoc c cs)
  show ?case
  proof (rule bit_eqI)
    fix k
    have "bit (push_chars w cs AND mask (8 * length cs)) (k - 8) = bit (push_chars 0 cs) (k - 8)" using snoc by simp
    then show "bit (push_chars w (cs @ [c]) AND mask (8 * length (cs @ [c]))) k = bit (push_chars 0 (cs @ [c])) k"
      by (auto simp: bit_and_iff bit_mask_iff bit_push_char)
  qed
qed simp

lemma push_char_inj:
  assumes "push_char a c = push_char b d" "a AND mask 56 = a" "b AND mask 56 = b"
  shows "a = b \<and> c = d"
proof
  have bits: "bit (push_char a c) k = bit (push_char b d) k" for k using assms(1) by simp
  show "a = b"
  proof (rule bit_eqI)
    fix k
    show "bit a k = bit b k"
    proof (cases "k < 56")
      case True
      then show ?thesis using bits [of "k + 8"] by (simp add: bit_push_char)
    next
      case False
      then have "\<not> bit (a AND mask 56) k" "\<not> bit (b AND mask 56) k" by (simp_all add: bit_and_iff bit_mask_iff)
      then show ?thesis using assms(2,3) by simp
    qed
  qed
  have "take_bit 8 (word_of_nat (code c) :: 64 word) = take_bit 8 (word_of_nat (code d))"
  proof (rule bit_eqI)
    fix k
    show "bit (take_bit 8 (word_of_nat (code c) :: 64 word)) k = bit (take_bit 8 (word_of_nat (code d) :: 64 word)) k"
      using bits [of k] by (auto simp: bit_take_bit_iff bit_push_char)
  qed
  then have "unat (take_bit 8 (word_of_nat (code c) :: 64 word)) = unat (take_bit 8 (word_of_nat (code d) :: 64 word))" by simp
  then have "code c = code d" using code_less_256 [of c] code_less_256 [of d]
    by (simp add: take_bit_eq_mod unat_mod unat_of_nat)
  then show "c = d" by simp
qed

lemma push_chars_inj: "length cs = length ds \<Longrightarrow> length cs \<le> 8 \<Longrightarrow> push_chars 0 cs = push_chars 0 ds \<Longrightarrow> cs = ds"
proof (induction cs arbitrary: ds rule: rev_induct)
  case (snoc c cs)
  then obtain e es where ds: "ds = es @ [e]" "length es = length cs" by (cases ds rule: rev_cases) auto
  have short: "push_chars 0 us AND mask 56 = push_chars 0 us" if "length us \<le> 7" for us
  proof -
    have "push_chars 0 us AND mask 56 = (push_chars 0 us AND mask (8 * length us)) AND mask 56" by (simp only: push_chars_mask)
    also have "\<dots> = push_chars 0 us AND mask (8 * length us)"
      using that by (intro bit_eqI) (auto simp: bit_and_iff bit_mask_iff)
    finally show ?thesis by (simp add: push_chars_mask)
  qed
  have "push_chars 0 cs = push_chars 0 es \<and> c = e"
  proof (rule push_char_inj)
    show "push_char (push_chars 0 cs) c = push_char (push_chars 0 es) e" using snoc.prems(3) ds(1) by simp
  qed (use snoc.prems(2) ds(2) in \<open>auto intro!: short\<close>)
  then show ?case using snoc.IH [OF ds(2) [symmetric]] snoc.prems(2) ds(1) by auto
qed simp

lemma mask_step: "push_bit 8 (mask n) OR 0xff = (mask (n + 8) :: 64 word)"
proof (rule bit_eqI)
  fix k :: nat
  have "bit (0xff :: 64 word) k \<longleftrightarrow> k < 8"
    using bit_mask_iff [where ?'a = "64 word", of 8 k] by (auto simp: mask_eq_exp_minus_1 dest: bit_imp_le_length)
  then show "bit (push_bit 8 (mask n) OR 0xff :: 64 word) k = bit (mask (n + 8) :: 64 word) k"
    by (auto simp: bit_or_iff bit_push_bit_iff bit_mask_iff)
qed

lemma str_start_rep:
  assumes "pos_or_end x i p" "i + n \<le> length (chars x)" "\<And>k. k < n \<Longrightarrow> load s (int (a + k)) = Inr (t ! (a + k))" "a + n \<le> length t"
  shows "\<exists>q. str_start s a n (mask b) sb xb p =
      Inr (mask (b + 8 * n), push_chars sb (take n (drop a t)), push_chars xb (take n (drop i (chars x))), q) \<and> pos_or_end x (i + n) q"
  using assms
proof (induction n arbitrary: i a b sb xb p)
  case (Suc n)
  then have at: "pos_at x i p" by (simp add: pos_or_end_def)
  obtain q where q: "CORD_next p = Inr q" "pos_or_end x (Suc i) q" using next_rep [OF at] by blast
  have "take (Suc n) (drop a t) = t ! a # take n (drop (Suc a) t)" "take (Suc n) (drop i (chars x)) = chars x ! i # take n (drop (Suc i) (chars x))"
    using Suc.prems(2,4) by (simp_all add: Cons_nth_drop_Suc [symmetric])
  moreover have "load s (int a) = Inr (t ! a)" using Suc.prems(3) [of 0] by simp
  moreover have "load s (int (Suc a + k)) = Inr (t ! (Suc a + k))" if "k < n" for k
    using Suc.prems(3) [of "Suc k"] that by simp
  then obtain q' where "str_start s (Suc a) n (mask (b + 8)) (push_char sb (t ! a)) (push_char xb (chars x ! i)) q =
      Inr (mask (b + 8 + 8 * n), push_chars (push_char sb (t ! a)) (take n (drop (Suc a) t)),
        push_chars (push_char xb (chars x ! i)) (take n (drop (Suc i) (chars x))), q')" "pos_or_end x (Suc i + n) q'"
    using Suc.IH [OF q(2), of "Suc a" "b + 8" "push_char sb (t ! a)" "push_char xb (chars x ! i)"] Suc.prems(2,4) by auto
  moreover have "b + 8 + 8 * n = b + 8 * Suc n" by simp
  ultimately show ?case using q(1) fetch_rep [OF at] by (simp add: mask_step)
qed simp

section \<open>CORD_str\<close>

definition occurs :: "string \<Rightarrow> string \<Rightarrow> nat \<Rightarrow> bool" where
  "occurs t xs m \<longleftrightarrow> take (length t) (drop m xs) = t"

text \<open>\<open>r\<close> is the position of the first occurrence from \<open>a\<close> on.\<close>

definition first_occurrence :: "string \<Rightarrow> string \<Rightarrow> nat \<Rightarrow> nat \<Rightarrow> bool" where
  "first_occurrence t xs a r \<longleftrightarrow>
     (if \<exists>m \<ge> a. occurs t xs m then a \<le> r \<and> occurs t xs r \<and> (\<forall>m. a \<le> m \<and> m < r \<longrightarrow> \<not> occurs t xs m)
      else r = CORD_NOT_FOUND)"

lemma occurs_le: "occurs t xs m \<Longrightarrow> t \<noteq> [] \<Longrightarrow> m + length t \<le> length xs"
proof -
  assume o: "occurs t xs m" and "t \<noteq> []"
  then have "0 < length t" "min (length t) (length xs - m) = length t"
    using arg_cong [OF o [unfolded occurs_def], of length] by (auto simp: min.commute)
  then show ?thesis by linarith
qed

lemma str_loop_rep:
  assumes "t \<noteq> []" "sl \<le> length t" "0 < sl" "sl \<le> 8" "length t \<le> length (chars x)" "length (chars x) < 2 ^ 63"
    and rest: "\<And>m. m + length t \<le> length (chars x) \<Longrightarrow>
      \<exists>d. rest m = Some (Inr d) \<and> (d = 0 \<longleftrightarrow> take (length t - sl) (drop (m + sl) (chars x)) = drop sl t)"
    and "m + length t \<le> length (chars x)" "pos_or_end x (m + sl) p" "xb = push_chars w (take sl (drop m (chars x)))"
  shows "\<exists>r. str_loop rest (mask (8 * sl)) (push_chars 0 (take sl t)) (length (chars x) - length t) m xb p = Some (Inr r) \<and>
    first_occurrence t (chars x) m r"
  using assms(8-)
proof (induction "length (chars x) - m" arbitrary: m p xb w rule: less_induct)
  case less
  let ?xs = "chars x" and ?last = "length (chars x) - length t"
  have len: "length (take sl (drop m ?xs)) = sl" "length (take sl t) = sl" using less.prems(1) assms(2) by auto
  have "(xb AND mask (8 * sl) = push_chars 0 (take sl t)) = (take sl (drop m ?xs) = take sl t)"
    using push_chars_mask [of w "take sl (drop m ?xs)"] push_chars_inj [of "take sl (drop m ?xs)" "take sl t"] len assms(4) less.prems(3)
    by auto
  moreover obtain d where d: "rest m = Some (Inr d)" "d = 0 \<longleftrightarrow> take (length t - sl) (drop (m + sl) ?xs) = drop sl t"
    using rest less.prems(1) by blast
  moreover have "occurs t ?xs m \<longleftrightarrow> take sl (drop m ?xs) = take sl t \<and> take (length t - sl) (drop (m + sl) ?xs) = drop sl t"
  proof -
    have "take (length t) (drop m ?xs) = take sl (drop m ?xs) @ take (length t - sl) (drop (m + sl) ?xs)"
      using assms(2) by (metis add.commute drop_drop le_add_diff_inverse take_add)
    then show ?thesis using len by (metis append_eq_append_conv append_take_drop_id occurs_def)
  qed
  ultimately obtain d' where d': "(if xb AND mask (8 * sl) = push_chars 0 (take sl t) then rest m else Some (Inr 1)) = Some (Inr d')"
      "d' = 0 \<longleftrightarrow> occurs t ?xs m"
    by (cases "take sl (drop m ?xs) = take sl t") auto
  show ?case
  proof (cases "occurs t ?xs m")
    case True
    then show ?thesis using d' by (subst str_loop.simps) (auto simp: first_occurrence_def)
  next
    case no: False
    show ?thesis
    proof (cases "m = ?last")
      case True
      have "\<not> occurs t ?xs k" if "m \<le> k" for k
        using occurs_le [of t ?xs k] assms(1) no that True less.prems(1) by (cases "k = m") auto
      then show ?thesis using d' no True by (subst str_loop.simps) (auto simp: first_occurrence_def)
    next
      case False
      then have m: "Suc m + length t \<le> length ?xs" using less.prems(1) by simp
      then have at: "pos_at x (m + sl) p" using less.prems(2) assms(2) by (simp add: pos_or_end_def)
      obtain q where q: "CORD_next p = Inr q" "pos_or_end x (Suc m + sl) q" using next_rep [OF at] by auto
      have "usize (m + 1) = Suc m" using m assms(6) by simp
      then have run: "str_loop rest (mask (8 * sl)) (push_chars 0 (take sl t)) ?last m xb p =
          str_loop rest (mask (8 * sl)) (push_chars 0 (take sl t)) ?last (Suc m) (push_char xb (?xs ! (m + sl))) q"
        using d' no False q(1) fetch_rep [OF at] by (subst str_loop.simps) simp
      have "take sl (drop m ?xs) @ [?xs ! (m + sl)] = ?xs ! m # take sl (drop (Suc m) ?xs)"
      proof -
        have "take sl (drop m ?xs) @ [?xs ! (m + sl)] = take (Suc sl) (drop m ?xs)"
          using m assms(2) by (simp add: take_Suc_conv_app_nth)
        then show ?thesis using m by (simp add: Cons_nth_drop_Suc [symmetric])
      qed
      then have push: "push_char xb (?xs ! (m + sl)) = push_chars (push_char w (?xs ! m)) (take sl (drop (Suc m) ?xs))"
        unfolding less.prems(3) by (metis foldl_Cons foldl_Nil foldl_append)
      have lt: "length ?xs - Suc m < length ?xs - m" using m by simp
      from less.hyps [OF this m q(2) push] obtain r where
        r: "str_loop rest (mask (8 * sl)) (push_chars 0 (take sl t)) ?last (Suc m) (push_char xb (?xs ! (m + sl))) q = Some (Inr r)"
          "first_occurrence t ?xs (Suc m) r"
        by auto
      have "first_occurrence t ?xs m r"
        using r(2) no by (auto simp: first_occurrence_def split: if_splits) (metis Suc_leI le_neq_implies_less)+
      then show ?thesis using run r(1) by simp
    qed
  qed
qed

lemma str_prefix_rep:
  assumes "ok s" "dep s < 48" "length (chars s) < 2 ^ 63"
  shows "\<exists>b. str_prefix k s = Inr (b, length (chars s)) \<and> (\<forall>i < min (length (chars s)) 8. load b (int i) = Inr (chars s ! i))"
proof (cases "is_string s")
  case True
  then obtain c cs where s: "s = Str (c # cs)" by (auto elim: is_stringE)
  have "load (map Val (c # cs @ [NUL])) (int i) = Inr ((c # cs) ! i)" if "i < length (c # cs)" for i
    using that by (auto simp: load_def nth_Cons' nth_append)
  then show ?thesis by (simp add: s str_prefix_def)
next
  case False
  have ok0: "ok0 s" using assms(1) by (simp add: ok0_def)
  obtain z where z: "CORD_substr (cord_cat k) s 0 8 = Inr z" "ok0 z" "chars z = take 8 (chars s)"
    using substr_rep [OF ok0 assms(2), of 0 8 "cord_bal k"] by (auto simp: cord_cat_def)
  have "length (chars z) + 1 \<le> 9" using z(3) by simp
  also have "(9 :: nat) < 2 ^ 64" by simp
  finally obtain b where b: "CORD_to_char_star z = Inr b" "holds b (chars z @ [NUL])" using to_char_star_rep [OF z(2)] by auto
  have "load b (int i) = Inr (chars s ! i)" if "i < min (length (chars s)) 8" for i
    using load_holds [OF b(2), of "int i"] that z(3) by (simp add: nth_append)
  moreover have "str_prefix k s = Inr (b, length (chars s))"
    using z(1) b(1) ok0_CORD_len [OF ok0] assms(1) False by (auto simp: str_prefix_def split: cord.splits list.splits)
  ultimately show ?thesis by blast
qed

lemma ncmp_rep:
  assumes "ok0 x" "ok0 y" "dep x \<le> 48" "dep y \<le> 48" "nul_free (chars x)"
    and "length (chars x) < 2 ^ 63" "length (chars y) < 2 ^ 63" "len < 2 ^ 64"
  shows "\<exists>r. CORD_ncmp x i y j len = Some (Inr r) \<and> agrees r (take len (drop i (chars x))) (take len (drop j (chars y)))"
proof -
  have set: "\<exists>q. CORD_set_pos raw_pos z i = Inr q \<and> pos_or_end z i q" if "ok0 z" "dep z \<le> 48" for z i
    using that set_raw_pos [of z i] by (auto simp: ok0_def CORD_set_pos_def pos_or_end_def CORD_pos_valid_def)
  obtain p q where "CORD_set_pos raw_pos x i = Inr p" "pos_or_end x i p" "CORD_set_pos raw_pos y j = Inr q" "pos_or_end y j q"
    using set assms by metis
  then show ?thesis using ncmp_loop_rep [of x i p y j q len 0] assms by (auto simp: CORD_ncmp_def)
qed

section \<open>Properties\<close>

text \<open>CORD_ncmp compares parts of two cords of any shape: without NUL characters its result is 0 exactly for
  equal parts, also where a cord ends early, and for ASCII characters its sign is the order of the strings.\<close>

theorem cord_ncmp_correct:
  assumes "ok0 x" "ok0 y" "dep x \<le> 48" "dep y \<le> 48" "nul_free (chars x)"
    and "length (chars x) < 2 ^ 63" "length (chars y) < 2 ^ 63" "len < 2 ^ 64"
  shows "\<exists>r. CORD_ncmp x i y j len = Some (Inr r) \<and> agrees r (take len (drop i (chars x))) (take len (drop j (chars y)))"
  using assms by (rule ncmp_rep)

theorem cord_ncmp_correct_witness:
  "\<exists>r. CORD_ncmp sample_cord 2 (Fn (\<lambda>i. Inr (CHR ''c'')) 20) 5 3 = Some (Inr r) \<and> 0 < r"
proof -
  have x: "ok0 sample_cord" "dep sample_cord \<le> 48" "chars sample_cord = ''abcdef''" by (simp_all add: sample_cord_def ok0_def nul_free_def)
  have y: "chars (Fn (\<lambda>i. Inr (CHR ''c'')) 20) = replicate 20 (CHR ''c'')" by (simp add: map_replicate_const)
  have "c_strcmp ''cde'' (replicate 3 (CHR ''c'')) = 1 \<and> ascii ''cde'' \<and> ascii (replicate 3 (CHR ''c''))" by code_simp
  then show ?thesis
    using cord_ncmp_correct [of sample_cord "Fn (\<lambda>i. Inr (CHR ''c'')) 20" 3 2 5] x y
    by (auto simp: ok0_def nul_free_def agrees_def sgn_if split: if_splits)
qed

text \<open>CORD_cmp orders cords whose leaves are strings like the strings they stand for, however they are cut
  into parts.\<close>

theorem cord_cmp_correct:
  assumes "ok0 x" "ok0 y" "dep x \<le> 48" "dep y \<le> 48" "no_fn x" "no_fn y" "length (chars x) < 2 ^ 63" "length (chars y) < 2 ^ 63"
  shows "CORD_cmp x y = Some (Inr (c_strcmp (chars x) (chars y)))"
proof (cases "is_null x \<or> is_null y")
  case True
  have nz: "z = CORD_EMPTY \<or> (\<not> is_null z \<and> (\<exists>c cs. chars z = c # cs))" if "ok0 z" for z
  proof (cases "z = CORD_EMPTY")
    case False
    then have "ok z" using that by (simp add: ok0_def)
    then have "\<not> is_null z" "chars z \<noteq> []" using ok_chars [of z] by (cases z; simp)+
    then show ?thesis by (meson neq_Nil_conv)
  qed simp
  from nz [OF assms(1)] nz [OF assms(2)] True show ?thesis by (elim disjE conjE exE) (simp_all add: CORD_cmp_def)
next
  case False
  then have ok: "ok x" "ok y" using assms(1,2) by (auto simp: ok0_def)
  obtain p q where pq: "CORD_set_pos raw_pos x 0 = Inr p" "pos_or_end x 0 p" "CORD_set_pos raw_pos y 0 = Inr q" "pos_or_end y 0 q"
    using set_raw_pos ok assms(3,4) by metis
  have "cmp_loop p q = Some (Inr (c_strcmp (chars x) (chars y)))"
    using cmp_loop_rep [OF pq(2,4) assms(5-8)] by simp
  then show ?thesis using pq(1,3) False by (auto simp: CORD_cmp_def split: cord.splits list.splits)
qed

theorem cord_cmp_correct_witness: "CORD_cmp (Concat 1 2 6 (Str ''ab'') (Str ''cdef'')) sample_cord = Some (Inr 0)"
proof -
  have "ok0 sample_cord" "dep sample_cord \<le> 48" "no_fn sample_cord" "chars sample_cord = ''abcdef''"
    "ok0 (Concat 1 2 6 (Str ''ab'') (Str ''cdef''))"
    by (simp_all add: sample_cord_def ok0_def nul_free_def)
  then show ?thesis using cord_cmp_correct [of "Concat 1 2 6 (Str ''ab'') (Str ''cdef'')" sample_cord] by simp
qed

text \<open>A cord that continues a string with a function compares as smaller than the string with the same
  characters: CORD_cmp asks whether the number of characters left in the cache is 0, but without a cache it is
  negative.\<close>

theorem cord_cmp_mixed:
  assumes "ok (Concat d ll n (Str s) (Fn f m))" "nul_free (chars (Fn f m))" "n < 2 ^ 63"
  shows "CORD_cmp (Concat d ll n (Str s) (Fn f m)) (Str (s @ chars (Fn f m))) = Some (Inr (- 1))"
proof -
  define x where "x = Concat d ll n (Str s) (Fn f m)"
  define t where "t = s @ chars (Fn f m)"
  have x: "ok x" "chars x = t" "length t = n" "dep x \<le> 48" "d = 1" "length s + m = n" using assms(1) by (auto simp: x_def t_def)
  have s: "s \<noteq> []" "nul_free t" "length s < n" "0 < m" using assms(1,2) by (auto simp: t_def)
  have y: "ok (Str t)" using s x(3) assms(3) by auto
  have ll: "LEFT_LEN x = Inr (length s)" using ok_LEFT_LEN [of d ll n "Str s" "Fn f m"] assms(1) by (simp add: x_def)
  have ls: "length s < 2 ^ 63" "n < 2 ^ 64" using s(3) assms(3) by auto
  obtain c cs where cs: "s = c # cs" using s(1) by (cases s) auto
  let ?b = "(replicate 49 Undef)[0 := Val (x, 0), 1 := Val (Str s, 0)] :: CORD_pe cell list"
  define p where "p = \<lparr>cur_pos = 0, path_len = 1, cur_leaf = Leaf_String s, cur_start = 0, cur_end = length s, pos_path = ?b,
    function_buf = replicate 8 Undef\<rparr>"
  define p1 where "p1 = p\<lparr>cur_pos := length s, cur_end := 0, pos_path := ?b[1 := Val (Fn f m, length s)]\<rparr>"
  have nl: "\<not> is_null x" "GEN_LEN x = Inr n" by (simp_all add: x_def GEN_LEN_def)
  have set: "CORD_set_pos raw_pos x 0 = Inr p"
    using nl ll ls s(1) cs by (simp add: CORD_set_pos_def raw_pos_def store_def CORD_extend_path_def load_def Let_def p_def)
      (simp add: x_def push_pe_def store_def Let_def)
  define q where "q = \<lparr>cur_pos = 0, path_len = 0, cur_leaf = Leaf_String t, cur_start = 0, cur_end = n,
    pos_path = (replicate 49 Undef)[0 := Val (Str t, 0)], function_buf = replicate 8 Undef\<rparr>"
  define q1 where "q1 = q\<lparr>cur_pos := length s\<rparr>"
  have ct: "t = c # cs @ chars (Fn f m)" by (simp add: t_def cs)
  have setq: "CORD_set_pos raw_pos (Str t) 0 = Inr q"
    using x(3) ls(2) by (simp add: CORD_set_pos_def raw_pos_def store_def CORD_extend_path_def load_def Let_def q_def GEN_LEN_def ct)
  have adv: "CORD_pos_advance p (length s) = Inr p1" "CORD_pos_advance q (length s) = Inr q1"
  proof -
    have u: "usize (0 + usub (length s) 1) = length s - 1" "usize (length s - 1 + 1) = length s" "usize (length s - 1) = length s - 1"
      using ls cs by simp_all
    show "CORD_pos_advance q (length s) = Inr q1"
      using u s(3) cs by (simp add: CORD_pos_advance_def CORD_next_def q_def q1_def)
    have "usize (length s + m) = n" "usub n (length s) = m" using x(6) ls by auto
    then show "CORD_pos_advance p (length s) = Inr p1"
      using u(1,2) nl ll ls s(1,3,4) cs
      by (simp add: CORD_pos_advance_def CORD_next_def CORD__next_def CORD_pos_valid_def p_def p1_def load_def Let_def
          CORD_extend_path_def)
        (simp add: x_def push_pe_def store_def Let_def)
  qed
  have r1: "cmp_round p q = Inr (Inr (p1, q1))"
  proof -
    have left: "CORD_pos_chars_left p = Inr (int (length s))" "CORD_pos_chars_left q = Inr (int n)"
      using ls assms(3) by (auto simp: CORD_pos_chars_left_def to_long_def p_def q_def Let_def)
    have "strncmp_loop p 0 q 0 (length s) = Inr (c_strcmp s s)"
      using s(2) by (intro strncmp_loop_rep) (auto simp: leaf_read_def p_def q_def t_def nth_append)
    then have "strncmp_cur p q (length s) = Inr 0" by (simp add: strncmp_cur_def p_def q_def usub_def usize_def)
    moreover have "of_long (min (int (length s)) (int n)) = length s" using ls s(3) by (simp add: of_long_def)
    ultimately have "cmp_round p q = compare_block p q (length s)" "compare_block p q (length s) = Inr (Inr (p1, q1))"
      using left s(1,3) adv by (auto simp: cmp_round_def compare_block_def CORD_pos_valid_def p_def q_def)
    then show ?thesis by simp
  qed
  have r2: "cmp_round p1 q1 = Inr (Inl (- 1))"
  proof -
    have left: "CORD_pos_chars_left p1 = Inr (- int (length s))" "CORD_pos_chars_left q1 = Inr (int n - int (length s))"
      using ls assms(3) by (auto simp: CORD_pos_chars_left_def to_long_def p1_def q_def q1_def Let_def p_def)
    have "of_long (- int (length s)) = 2 ^ 64 - length s"
      using ls(1) s(1) by (simp add: of_long_def nat_diff_distrib zmod_zminus1_eq_if)
    then have "of_long (- int (length s)) \<noteq> 0" using ls(1) by simp
    then obtain k where k: "of_long (- int (length s)) = Suc k" using not0_implies_Suc by blast
    have ci: "usub (length s) 0 = length s" using ls by simp
    have "t ! length s \<in> set t" using s(3) x(3) by simp
    then have "t ! length s \<noteq> NUL" using s(2) by (auto simp: nul_free_def)
    then have "code (t ! length s) \<noteq> code NUL" by (simp only: of_char_eq_iff not_False_eq_True)
    then have "code (t ! length s) \<noteq> 0" by simp
    then have "strncmp_cur p1 q1 (Suc k) = Inr (- 1)"
      using x(3) s(3) by (simp add: strncmp_cur_def leaf_read_def p1_def q1_def p_def q_def ci nth_append)
    moreover have "min (- int (length s)) (int n - int (length s)) = - int (length s)" by simp
    ultimately show ?thesis using left k s(1,3) by (simp add: cmp_round_def compare_block_def CORD_pos_valid_def p_def p1_def q_def q1_def)
  qed
  have "cmp_loop p q = Some (Inr (- 1))" by (subst cmp_loop.simps, simp add: r1, subst cmp_loop.simps) (simp add: r2)
  then have "CORD_cmp x (Str t) = Some (Inr (- 1))" using set setq by (simp add: CORD_cmp_def x_def)
  then show ?thesis by (simp add: x_def t_def)
qed

text \<open>The two cords for \<open>abc\<close>.\<close>

theorem cord_cmp_mixed_witness:
  "CORD_cmp (Concat 1 2 3 (Str ''ab'') (Fn (\<lambda>i. Inr (CHR ''c'')) 1)) (Str ''abc'') = Some (Inr (- 1))"
  using cord_cmp_mixed [of 1 2 3 "''ab''" "\<lambda>i. Inr (CHR ''c'')" 1] by (simp add: nul_free_def)



end
