(* ===== verification/Cord_Ec.thy ===== *)
theory Cord_Ec
  imports Cord_Pos_Facts
begin

text \<open>
  Extensible cords: the functions of gc/ec.h and cordxtra.c append characters and cords to the string an
  extensible cord stands for.  The contract is a locale; reading a file and formatting are its clients.
\<close>

declare cord_bal.simps [simp del]

section \<open>Strings under construction\<close>

definition ec_at :: "string \<Rightarrow> cord_ec \<Rightarrow> bool" where
  "ec_at T e \<longleftrightarrow>
     (\<exists>v. ok0 (ec_cord e) \<and> dep (ec_cord e) < 48 \<and> T = chars (ec_cord e) @ v \<and> nul_free v \<and> length v = ec_bufptr e \<and>
       ec_bufptr e \<le> CORD_BUFSZ \<and> length (ec_buf e) = CORD_BUFSZ + 1 \<and> holds (ec_buf e) v)"

lemma ec_start: "ec_at [] (CORD_ec_init raw_ec)"
  by (simp add: ec_at_def CORD_ec_init_def raw_ec_def ok0_def)

lemma load_str_rep: "holds b (us @ v @ ws) \<Longrightarrow> load_str b (length us) (length v) = Inr v"
proof (induction v arbitrary: us)
  case (Cons c v)
  have "load b (int (length us)) = Inr c" using load_holds [OF Cons.prems, of "int (length us)"] by (simp add: nth_append)
  then show ?case using Cons.IH [of "us @ [c]"] Cons.prems by simp
qed simp

lemma cat_char_star_rep:
  assumes "ok0 x" "dep x < 48" "y \<noteq> []" "nul_free y" "length (chars x) + length y < BALANCE_LIMIT"
  shows "\<exists>z. CORD_cat_char_star (cord_bal (Suc j)) x y (length y) = Inr z \<and> ok0 z \<and> dep z < 48 \<and> chars z = chars x @ y"
proof (cases "x = CORD_EMPTY")
  case True
  then show ?thesis using assms(3-5) by (auto simp: CORD_cat_char_star_def ok0_def)
next
  case False
  then have ok: "ok x" using assms(1) by (simp add: ok0_def)
  have "length (chars x) + length y < 2 ^ 64" using assms(5) by simp
  from cat_char_star_makes [OF ok assms(2-4) this order_refl, of "cord_bal (Suc j)"]
  obtain z where z: "ok z" "chars z = chars x @ y" "dep z \<le> dep x + 1"
    "CORD_cat_char_star (cord_bal (Suc j)) x y (length y) = (if dep z < 48 then Inr z else cord_bal (Suc j) z)"
    by (auto simp: makes_def)
  show ?thesis
  proof (cases "dep z < 48")
    case True
    then show ?thesis using z by (auto simp: ok0_def)
  next
    case deep: False
    then show ?thesis using balance_rep [OF z(1), of "cord_bal j"] z assms(2,5) by (auto simp: ok0_def cord_bal.simps(2))
  qed
qed

lemma flush_rep:
  assumes "ec_at T e" "length T < BALANCE_LIMIT"
  shows "\<exists>e'. CORD_ec_flush_buf (cord_bal (Suc j)) e = Inr e' \<and> ec_at T e' \<and> ec_bufptr e' = 0"
proof -
  obtain v where v: "ok0 (ec_cord e)" "dep (ec_cord e) < 48" "T = chars (ec_cord e) @ v" "nul_free v" "length v = ec_bufptr e"
      "ec_bufptr e \<le> CORD_BUFSZ" "length (ec_buf e) = CORD_BUFSZ + 1" "holds (ec_buf e) v"
    using assms(1) by (auto simp: ec_at_def)
  show ?thesis
  proof (cases "v = []")
    case True
    then show ?thesis using v assms(1) by (simp add: CORD_ec_flush_buf_def)
  next
    case False
    obtain z where z: "CORD_cat_char_star (cord_bal (Suc j)) (ec_cord e) v (length v) = Inr z" "ok0 z" "dep z < 48"
        "chars z = chars (ec_cord e) @ v"
      using cat_char_star_rep [OF v(1,2) False v(4)] v(3) assms(2) by auto
    have "load_str (ec_buf e) 0 (length v) = Inr v" using load_str_rep [of "ec_buf e" "[]" v "[]"] v(8) by simp
    then have "CORD_ec_flush_buf (cord_bal (Suc j)) e = Inr (e\<lparr>ec_cord := z, ec_bufptr := 0\<rparr>)"
      using False v(4) z(1) v(5) [symmetric] by (simp add: CORD_ec_flush_buf_def Let_def c_text_free)
    moreover have "ec_at T (e\<lparr>ec_cord := z, ec_bufptr := 0\<rparr>)" using z v(3,7) by (simp add: ec_at_def)
    ultimately show ?thesis by simp
  qed
qed

lemma ec_append_rep:
  assumes "ec_at T e" "length T < BALANCE_LIMIT" "c \<noteq> NUL"
  shows "\<exists>e'. CORD_ec_append (cord_bal (Suc j)) e c = Inr e' \<and> ec_at (T @ [c]) e'"
proof -
  obtain e1 where e1: "(if ec_bufptr e = CORD_BUFSZ then CORD_ec_flush_buf (cord_bal (Suc j)) e else Inr e) = Inr e1"
      "ec_at T e1" "ec_bufptr e1 < CORD_BUFSZ"
  proof (cases "ec_bufptr e = CORD_BUFSZ")
    case True
    then show ?thesis using flush_rep [OF assms(1,2), of j] that by auto
  next
    case False
    then have "ec_bufptr e < CORD_BUFSZ" using assms(1) by (auto simp: ec_at_def)
    then show ?thesis using that [of e] assms(1) False by simp
  qed
  obtain v where v: "ok0 (ec_cord e1)" "dep (ec_cord e1) < 48" "T = chars (ec_cord e1) @ v" "nul_free v" "length v = ec_bufptr e1"
      "length (ec_buf e1) = CORD_BUFSZ + 1" "holds (ec_buf e1) v"
    using e1(2) by (auto simp: ec_at_def)
  have "holds ((ec_buf e1)[ec_bufptr e1 := Val c]) (v @ [c])" using v e1(3) by (intro holds_snoc) auto
  then have "ec_at (T @ [c]) (e1\<lparr>ec_bufptr := ec_bufptr e1 + 1, ec_buf := (ec_buf e1)[ec_bufptr e1 := Val c]\<rparr>)"
    using v e1(3) assms(3) by (auto simp: ec_at_def)
  moreover have "store (ec_buf e1) (int (ec_bufptr e1)) c = Inr ((ec_buf e1)[ec_bufptr e1 := Val c])"
    using v(6) e1(3) by (simp add: store_in)
  ultimately show ?thesis using e1(1) by (simp add: CORD_ec_append_def)
qed

text \<open>A cord behind what is flushed.\<close>

lemma ec_cat_rep:
  assumes "ec_at T e" "ec_bufptr e = 0" "ok0 s" "dep s < 48" "length T + length (chars s) < BALANCE_LIMIT"
  shows "\<exists>c. CORD_cat (cord_bal (Suc j)) (ec_cord e) s = Inr c \<and> ec_at (T @ chars s) (e\<lparr>ec_cord := c\<rparr>)"
proof -
  have e: "ok0 (ec_cord e)" "dep (ec_cord e) < 48" "T = chars (ec_cord e)" "length (ec_buf e) = CORD_BUFSZ + 1"
    using assms(1,2) by (auto simp: ec_at_def)
  obtain c where "CORD_cat (cord_bal (Suc j)) (ec_cord e) s = Inr c" "ok0 c" "dep c < 48" "chars c = T @ chars s"
    using cord_cat_rep [OF e(1) assms(3) e(2) assms(4), of "Suc j"] assms(5) e(3) by (auto simp: cord_cat_def)
  then show ?thesis using e(4) assms(2) by (auto simp: ec_at_def)
qed

lemma ec_append_cord_rep:
  assumes "ec_at T e" "ok0 s" "dep s < 48" "length T + length (chars s) < BALANCE_LIMIT"
  shows "\<exists>e'. CORD_ec_append_cord (cord_bal (Suc j)) e s = Inr e' \<and> ec_at (T @ chars s) e'"
proof -
  have "length T < BALANCE_LIMIT" using assms(4) by simp
  from flush_rep [OF assms(1) this, of j] obtain e1 where "CORD_ec_flush_buf (cord_bal (Suc j)) e = Inr e1" "ec_at T e1" "ec_bufptr e1 = 0"
    by blast
  then show ?thesis using ec_cat_rep [of T e1 s j] assms(2-4) by (auto simp: CORD_ec_append_cord_def)
qed

lemma to_cord_rep:
  assumes "ec_at T e" "length T < BALANCE_LIMIT"
  shows "\<exists>c e'. CORD_ec_to_cord (cord_bal (Suc j)) e = Inr (c, e') \<and> ok0 c \<and> dep c < 48 \<and> chars c = T"
  using flush_rep [OF assms, of j] by (auto simp: CORD_ec_to_cord_def ec_at_def)

lemma balance_any:
  assumes "ok0 c" "dep c < 48" "length (chars c) < BALANCE_LIMIT"
  shows "\<exists>z. cord_bal (Suc j) c = Inr z \<and> ok0 z \<and> dep z < 48 \<and> chars z = chars c"
proof (cases "c = CORD_EMPTY")
  case False
  then show ?thesis using assms balance_rep [of c "cord_bal j"] by (auto simp: ok0_def cord_bal.simps(2))
qed (simp add: cord_bal.simps(2) CORD_balance_def ok0_def)

section \<open>The contract of a builder\<close>

locale builder =
  fixes at :: "string \<Rightarrow> 'e \<Rightarrow> bool" and add :: "'e \<Rightarrow> char \<Rightarrow> 'e res" and limit :: nat
  assumes add_at: "at T e \<Longrightarrow> length T < limit \<Longrightarrow> c \<noteq> NUL \<Longrightarrow> \<exists>e'. add e c = Inr e' \<and> at (T @ [c]) e'"
begin

lemma adds_at:
  "at T e \<Longrightarrow> length T + length cs \<le> limit \<Longrightarrow> nul_free cs \<Longrightarrow> \<exists>e'. fold_res (\<lambda>c e. add e c) cs e = Inr e' \<and> at (T @ cs) e'"
proof (induction cs arbitrary: T e)
  case (Cons c cs)
  then have "length T < limit" "c \<noteq> NUL" by simp_all
  then obtain e1 where e1: "add e c = Inr e1" "at (T @ [c]) e1" using add_at [OF Cons.prems(1)] by blast
  then show ?case using Cons.IH [OF e1(2)] Cons.prems by simp
qed simp

end

interpretation ec: builder ec_at "CORD_ec_append (cord_bal (Suc j))" BALANCE_LIMIT for j
  using ec_append_rep by unfold_locales

section \<open>Reading a file\<close>

lemma add_nuls_rep:
  assumes "ec_at T e" "ec_bufptr e = 0" "0 < n" "length T + n < BALANCE_LIMIT"
  shows "\<exists>e'. add_nuls (cord_bal (Suc j)) e n = Inr e' \<and> ec_at (T @ replicate n NUL) e'"
proof -
  obtain s where s: "CORD_chars NUL n = Inr s" "ok s" "chars s = replicate n NUL" "dep s = 0"
    using from_fn_rep [of "replicate n NUL" "CORD_nul_func NUL"] assms(3,4) by (auto simp: CORD_chars_def CORD_nul_func_def)
  obtain c where "CORD_cat (cord_bal (Suc j)) (ec_cord e) s = Inr c" "ec_at (T @ replicate n NUL) (e\<lparr>ec_cord := c\<rparr>)"
    using ec_cat_rep [OF assms(1,2), of s j] s assms(4) by (auto simp: ok0_def)
  then show ?thesis using s(1) by (simp add: add_nuls_def)
qed

lemma read_loop_rep:
  assumes "ec_at T e" "n = 0 \<or> ec_bufptr e = 0" "length T + n + length cs < BALANCE_LIMIT"
  shows "\<exists>e'. read_loop (cord_bal (Suc j)) cs e n = Inr e' \<and> ec_at (T @ replicate n NUL @ cs) e'"
  using assms
proof (induction cs arbitrary: T e n)
  case Nil
  then show ?case using add_nuls_rep [of T e n j] by auto
next
  case (Cons c cs)
  show ?case
  proof (cases "c = NUL")
    case nul: True
    show ?thesis
    proof (cases "n = 0")
      case True
      have "length T < BALANCE_LIMIT" using Cons.prems(3) by simp
      from flush_rep [OF Cons.prems(1) this, of j] obtain e1 where
        "CORD_ec_flush_buf (cord_bal (Suc j)) e = Inr e1" "ec_at T e1" "ec_bufptr e1 = 0" by blast
      then show ?thesis using Cons.IH [of T e1 1] Cons.prems(3) nul True by simp
    next
      case False
      have "usize (n + 1) = n + 1" using Cons.prems(3) by (intro usize_small) simp
      then show ?thesis using Cons.IH [OF Cons.prems(1), of "n + 1"] Cons.prems(2,3) nul False
        by (simp add: replicate_app_Cons_same)
    qed
  next
    case False
    obtain e1 where e1: "(if n = 0 then Inr e else add_nuls (cord_bal (Suc j)) e n) = Inr e1" "ec_at (T @ replicate n NUL) e1"
      using add_nuls_rep [of T e n j] Cons.prems by (cases "n = 0") auto
    have "length (T @ replicate n NUL) < BALANCE_LIMIT" using Cons.prems(3) by simp
    from ec_append_rep [OF e1(2) this False, of j] obtain e2 where
      e2: "CORD_ec_append (cord_bal (Suc j)) e1 c = Inr e2" "ec_at ((T @ replicate n NUL) @ [c]) e2" by blast
    then show ?thesis using Cons.IH [OF e2(2), of 0] Cons.prems(3) e1(1) False by simp
  qed
qed

lemma from_file_eager_rep:
  assumes "length f < BALANCE_LIMIT"
  shows "\<exists>z. CORD_from_file_eager (Suc j) f = Inr z \<and> ok0 z \<and> dep z < 48 \<and> chars z = f"
proof -
  obtain e where e: "read_loop (cord_bal (Suc j)) f (CORD_ec_init raw_ec) 0 = Inr e" "ec_at f e"
    using read_loop_rep [OF ec_start, of 0 f j] assms by auto
  obtain c e' where c: "CORD_ec_to_cord (cord_bal (Suc j)) e = Inr (c, e')" "ok0 c" "dep c < 48" "chars c = f"
    using to_cord_rep [OF e(2) assms] by blast
  then show ?thesis using balance_any [OF c(2,3), of j] e(1) assms
    by (simp add: CORD_from_file_eager_def)
qed

end
