(* ===== verification/Cord_Lazy.thy ===== *)
theory Cord_Lazy
  imports Cord_Ec
begin

text \<open>
  Cords over a file: the lazily read files of src/src/common/gc/cord/cordxtra.c and the choice between them
  and CORD_from_file_eager.

  A file has its text, its position, and whether seeking in it succeeds.  A function node of the theory Cord
  has no state; the node for a lazy file takes each character from the state in which the cord was made,
  and \<open>lf_func_rep\<close> shows that every later state gives the same character.
\<close>

section \<open>The cache\<close>

record seek_file =
  fl_text :: string
  fl_pos :: nat
  fl_seekable :: bool

definition c_fseek :: "nat \<Rightarrow> seek_file \<Rightarrow> seek_file res" where
  "c_fseek n f = (if fl_seekable f then Inr (f\<lparr>fl_pos := n\<rparr>) else Inl Fatal_Exit)"

text \<open>fread of \<open>n\<close> characters into a block: the number read.\<close>

definition c_fread :: "char cell list \<Rightarrow> nat \<Rightarrow> seek_file \<Rightarrow> nat \<times> char cell list \<times> seek_file" where
  "c_fread b n f =
     (let cs = take n (drop (fl_pos f) (fl_text f))
      in (length cs, map Val cs @ drop (length cs) b, f\<lparr>fl_pos := fl_pos f + length cs\<rparr>))"

abbreviation LOG_CACHE_SZ :: nat where "LOG_CACHE_SZ \<equiv> 14"
abbreviation LOG_LINE_SZ :: nat where "LOG_LINE_SZ \<equiv> 9"
abbreviation LAZY_THRESHOLD :: nat where "LAZY_THRESHOLD \<equiv> 128 * 1024 + 1"
abbreviation CACHE_SZ :: nat where "CACHE_SZ \<equiv> 2 ^ LOG_CACHE_SZ"
abbreviation LINE_SZ :: nat where "LINE_SZ \<equiv> 2 ^ LOG_LINE_SZ"

record cache_line =
  cl_tag :: nat
  cl_data :: "char cell list"

record lf_state =
  lf_file :: seek_file
  lf_current :: nat
  lf_cache :: "cache_line option list"

definition MOD_CACHE_SZ :: "nat \<Rightarrow> nat" where "MOD_CACHE_SZ n = n AND (CACHE_SZ - 1)"
definition MOD_LINE_SZ :: "nat \<Rightarrow> nat" where "MOD_LINE_SZ n = n AND (LINE_SZ - 1)"
definition DIV_LINE_SZ :: "nat \<Rightarrow> nat" where "DIV_LINE_SZ n = drop_bit LOG_LINE_SZ n"

definition LINE_START :: "nat \<Rightarrow> nat" where
  "LINE_START n = unat ((word_of_nat n :: 64 word) AND NOT (word_of_nat (LINE_SZ - 1)))"

definition refill_cache :: "nat \<Rightarrow> lf_state \<Rightarrow> (char \<times> lf_state) res" where
  "refill_cache file_pos state =
     (let line_start = LINE_START file_pos; line_no = DIV_LINE_SZ (MOD_CACHE_SZ file_pos) in
      rbind (if line_start \<noteq> lf_current state then c_fseek line_start (lf_file state) else Inr (lf_file state)) (\<lambda>f.
      let (n, d, f) = c_fread (replicate LINE_SZ Undef) LINE_SZ f in
      if n \<le> usub file_pos line_start then Inl Fatal_Exit
      else if length (lf_cache state) \<le> line_no then Inl Out_Of_Bounds
      else rbind (load d (int (MOD_LINE_SZ file_pos))) (\<lambda>c.
           Inr (c, \<lparr>lf_file = f, lf_current = usize (line_start + LINE_SZ),
                    lf_cache = (lf_cache state)[line_no := Some \<lparr>cl_tag = DIV_LINE_SZ file_pos, cl_data = d\<rparr>]\<rparr>))))"

definition CORD_lf_func :: "nat \<Rightarrow> lf_state \<Rightarrow> (char \<times> lf_state) res" where
  "CORD_lf_func i state =
     (let line_no = DIV_LINE_SZ (MOD_CACHE_SZ i) in
      if length (lf_cache state) \<le> line_no then Inl Out_Of_Bounds
      else case lf_cache state ! line_no of
        None \<Rightarrow> refill_cache i state
      | Some cl \<Rightarrow>
          if cl_tag cl \<noteq> DIV_LINE_SZ i then refill_cache i state
          else rbind (load (cl_data cl) (int (MOD_LINE_SZ i))) (\<lambda>c. Inr (c, state)))"

section \<open>Cords of files\<close>

definition lf_char :: "lf_state \<Rightarrow> nat \<Rightarrow> char res" where
  "lf_char state i = rbind (CORD_lf_func i state) (\<lambda>(c, _). Inr c)"

definition lf_start :: "seek_file \<Rightarrow> lf_state" where
  "lf_start f = \<lparr>lf_file = f, lf_current = 0, lf_cache = replicate (CACHE_SZ div LINE_SZ) None\<rparr>"

definition CORD_from_file_lazy_inner :: "seek_file \<Rightarrow> nat \<Rightarrow> cord res" where
  "CORD_from_file_lazy_inner f len =
     rbind (if len \<noteq> 0
            then let (n, _, f) = c_fread [Undef] 1 f in if 1 < n then Inl Fatal_Exit else c_fseek 0 f
            else Inr f) (\<lambda>f.
     CORD_from_fn (lf_char (lf_start f)) len)"

text \<open>The length of a file, by seeking to its end and back.\<close>

definition file_len :: "seek_file \<Rightarrow> (nat \<times> seek_file) res" where
  "file_len f =
     rbind (c_fseek (length (fl_text f)) f) (\<lambda>f.
     let len = fl_pos f in
     rbind (c_fseek 0 f) (\<lambda>f. Inr (len, f)))"

definition CORD_from_file_lazy :: "seek_file \<Rightarrow> cord res" where
  "CORD_from_file_lazy f = rbind (file_len f) (\<lambda>(len, f). CORD_from_file_lazy_inner f len)"

definition CORD_from_file :: "nat \<Rightarrow> seek_file \<Rightarrow> cord res" where
  "CORD_from_file k f =
     rbind (file_len f) (\<lambda>(len, f).
     if len < LAZY_THRESHOLD then CORD_from_file_eager k (drop (fl_pos f) (fl_text f))
     else CORD_from_file_lazy_inner f len)"

section \<open>The cache holds lines of the file\<close>

lemma cache_arith [simp]:
  "MOD_CACHE_SZ n = n mod 16384" "MOD_LINE_SZ n = n mod 512" "DIV_LINE_SZ n = n div 512"
proof -
  have "n AND mask 14 = n mod 2 ^ 14" "n AND mask 9 = n mod 2 ^ 9"
    by (simp_all only: take_bit_eq_mask [symmetric] take_bit_eq_mod)
  then show "MOD_CACHE_SZ n = n mod 16384" "MOD_LINE_SZ n = n mod 512"
    by (simp_all add: MOD_CACHE_SZ_def MOD_LINE_SZ_def mask_eq_exp_minus_1)
  show "DIV_LINE_SZ n = n div 512" by (simp add: DIV_LINE_SZ_def drop_bit_eq_div)
qed

lemma bit_word_of_nat: "bit (word_of_nat n :: 64 word) k \<longleftrightarrow> k < 64 \<and> bit n k"
  using bit_unsigned_iff [where 'a = nat, of "word_of_nat n :: 64 word" k]
  by (simp add: unsigned_of_nat bit_take_bit_iff)

lemma LINE_START_eq: "n < 2 ^ 64 \<Longrightarrow> LINE_START n = n div 512 * 512"
proof -
  assume n: "n < 2 ^ 64"
  have "(word_of_nat n :: 64 word) AND NOT (mask 9) = word_of_nat (push_bit 9 (drop_bit 9 n))"
    by (rule bit_eqI) (auto simp: bit_and_iff bit_not_iff bit_mask_iff bit_word_of_nat bit_push_bit_iff bit_drop_bit_eq)
  moreover have "push_bit 9 (drop_bit 9 n) = n div 512 * 512" by (simp add: push_bit_eq_mult drop_bit_eq_div)
  moreover have "word_of_nat (LINE_SZ - 1) = (mask 9 :: 64 word)" by (simp add: mask_eq_exp_minus_1)
  ultimately have "LINE_START n = unat (word_of_nat (n div 512 * 512) :: 64 word)" by (simp only: LINE_START_def)
  also have "\<dots> = take_bit 64 (n div 512 * 512)" by (simp only: unsigned_of_nat) simp
  also have "n div 512 * 512 < 2 ^ 64" using n by (rule le_less_trans [rotated]) simp
  then have "take_bit 64 (n div 512 * 512) = n div 512 * 512" by (rule take_bit_nat_eq_self)
  finally show ?thesis .
qed

definition lf_inv :: "string \<Rightarrow> lf_state \<Rightarrow> bool" where
  "lf_inv t s \<longleftrightarrow> fl_text (lf_file s) = t \<and> fl_seekable (lf_file s) \<and> fl_pos (lf_file s) = min (lf_current s) (length t) \<and>
     length (lf_cache s) = CACHE_SZ div LINE_SZ \<and>
     (\<forall>k cl. k < length (lf_cache s) \<and> lf_cache s ! k = Some cl \<longrightarrow>
        (\<forall>i < length t. i div 512 = cl_tag cl \<longrightarrow> load (cl_data cl) (int (i mod 512)) = Inr (t ! i)))"

lemma lf_start_inv: "fl_seekable f \<Longrightarrow> fl_pos f = 0 \<Longrightarrow> lf_inv (fl_text f) (lf_start f)"
  by (auto simp: lf_inv_def lf_start_def)

lemma fread_line:
  assumes "fl_text f = t" "fl_pos f = l * 512" "i div 512 = l" "i < length t"
  shows "\<exists>n d. c_fread (replicate LINE_SZ Undef) LINE_SZ f = (n, d, f\<lparr>fl_pos := min (l * 512 + 512) (length t)\<rparr>) \<and>
    i - l * 512 < n \<and> (\<forall>j < length t. j div 512 = l \<longrightarrow> load d (int (j mod 512)) = Inr (t ! j))"
proof -
  let ?cs = "take 512 (drop (l * 512) t)"
  have rd: "load (map Val ?cs @ drop (length ?cs) (replicate 512 Undef)) (int (j mod 512)) = Inr (t ! j)"
    if j: "j < length t" "j div 512 = l" for j
  proof -
    have jm: "j = l * 512 + j mod 512" "j mod 512 < 512" using j(2) by auto
    have lt: "j mod 512 < length ?cs" using j(1) jm by simp
    have "?cs ! (j mod 512) = t ! j" using lt jm by simp
    then show ?thesis using lt by (simp add: load_def nth_append)
  qed
  have "i - l * 512 < length ?cs" using assms(3,4) by simp linarith
  moreover have "l * 512 + length ?cs = min (l * 512 + 512) (length t)" using assms(3,4) by auto
  ultimately show ?thesis using rd assms(1,2) by (auto simp: c_fread_def Let_def)
qed

lemma refill_rep:
  assumes inv: "lf_inv t s" and i: "i < length t" "length t < 2 ^ 63"
  shows "\<exists>s'. refill_cache i s = Inr (t ! i, s') \<and> lf_inv t s'"
proof -
  define l where "l = i div 512"
  have ls: "LINE_START i = l * 512" "l * 512 \<le> i" using LINE_START_eq [of i] i by (simp_all add: l_def)
  have st: "fl_text (lf_file s) = t" "fl_seekable (lf_file s)" "fl_pos (lf_file s) = min (lf_current s) (length t)" "length (lf_cache s) = 32"
    using inv by (auto simp: lf_inv_def)
  let ?f = "lf_file s\<lparr>fl_pos := l * 512\<rparr>"
  have "?f = lf_file s" if "l * 512 = lf_current s"
  proof -
    have "fl_pos (lf_file s) = l * 512" using st(3) ls(2) i(1) that by simp
    then show ?thesis by (cases "lf_file s") simp
  qed
  then have seek: "(if l * 512 \<noteq> lf_current s then c_fseek (l * 512) (lf_file s) else Inr (lf_file s)) = Inr ?f"
    using st(2) by (simp add: c_fseek_def)
  obtain n d where rd: "c_fread (replicate LINE_SZ Undef) LINE_SZ ?f = (n, d, ?f\<lparr>fl_pos := min (l * 512 + 512) (length t)\<rparr>)"
      "i - l * 512 < n" "\<forall>j < length t. j div 512 = l \<longrightarrow> load d (int (j mod 512)) = Inr (t ! j)"
    using fread_line [of ?f t l i, OF _ _ l_def [symmetric] i(1)] st(1) by (simp del: min_less_iff_disj) blast
  define s' where "s' = \<lparr>lf_file = ?f\<lparr>fl_pos := min (l * 512 + 512) (length t)\<rparr>, lf_current = l * 512 + 512,
      lf_cache = (lf_cache s)[i mod 16384 div 512 := Some \<lparr>cl_tag = l, cl_data = d\<rparr>]\<rparr>"
  have no: "i mod 16384 div 512 < 32" by (simp add: less_mult_imp_div_less)
  have us: "usub i (l * 512) = i - l * 512" "usize (l * 512 + 512) = l * 512 + 512" using ls(2) i by simp_all
  have "load d (int (i mod 512)) = Inr (t ! i)" using rd(3) i(1) l_def by simp
  then have "refill_cache i s = Inr (t ! i, s')"
    using seek rd(1,2) no us st(4) ls(1) by (simp add: refill_cache_def Let_def s'_def flip: l_def)
  moreover have "lf_inv t s'"
    using inv rd(3) no unfolding lf_inv_def s'_def
    by (auto simp: nth_list_update split: if_splits)
  ultimately show ?thesis by blast
qed

lemma lf_func_rep:
  assumes inv: "lf_inv t s" and i: "i < length t" "length t < 2 ^ 63"
  shows "\<exists>s'. CORD_lf_func i s = Inr (t ! i, s') \<and> lf_inv t s'"
proof -
  have no: "\<not> length (lf_cache s) \<le> i mod 16384 div 512" using inv by (simp add: lf_inv_def less_mult_imp_div_less not_le)
  show ?thesis
  proof (cases "\<exists>cl. lf_cache s ! (i mod 16384 div 512) = Some cl \<and> cl_tag cl = i div 512")
    case True
    then obtain cl where "lf_cache s ! (i mod 16384 div 512) = Some cl" "cl_tag cl = i div 512" by blast
    moreover from this have "load (cl_data cl) (int (i mod 512)) = Inr (t ! i)"
      using inv no i(1) unfolding lf_inv_def by (metis not_le)
    ultimately show ?thesis using inv no by (simp add: CORD_lf_func_def Let_def)
  next
    case False
    then have "CORD_lf_func i s = refill_cache i s" using no by (auto simp: CORD_lf_func_def Let_def split: option.splits)
    then show ?thesis using refill_rep [OF assms] by simp
  qed
qed

fun lf_reads :: "nat list \<Rightarrow> lf_state \<Rightarrow> (string \<times> lf_state) res" where
  "lf_reads [] s = Inr ([], s)"
| "lf_reads (i # is) s =
     rbind (CORD_lf_func i s) (\<lambda>(c, s). rbind (lf_reads is s) (\<lambda>(cs, s). Inr (c # cs, s)))"

lemma lf_reads_rep:
  "lf_inv t s \<Longrightarrow> \<forall>i \<in> set is. i < length t \<Longrightarrow> length t < 2 ^ 63 \<Longrightarrow> \<exists>s'. lf_reads is s = Inr (map ((!) t) is, s') \<and> lf_inv t s'"
proof (induction "is" arbitrary: s)
  case (Cons i js)
  obtain s1 where s1: "CORD_lf_func i s = Inr (t ! i, s1)" "lf_inv t s1" using lf_func_rep [of t s i] Cons.prems by auto
  then show ?case using Cons.IH [OF s1(2)] Cons.prems by auto
qed simp

section \<open>Properties\<close>

text \<open>C10: The cache of a lazily read file is transparent: any sequence of accesses, in any order and to any lines,
  returns the characters of the file, whatever lines replace each other.\<close>

theorem lazy_cache_transparent:
  assumes "fl_seekable f" "fl_pos f = 0" "\<forall>i \<in> set is. i < length (fl_text f)" "length (fl_text f) < 2 ^ 63"
  shows "\<exists>s. lf_reads is (lf_start f) = Inr (map ((!) (fl_text f)) is, s)"
  using lf_reads_rep [OF lf_start_inv [OF assms(1,2)] assms(3,4)] by blast

theorem lazy_cache_transparent_witness:
  "\<exists>s. lf_reads [3, 0, 3] (lf_start \<lparr>fl_text = ''data'', fl_pos = 0, fl_seekable = True\<rparr>) = Inr (''ada'', s)"
  using lazy_cache_transparent [of "\<lparr>fl_text = ''data'', fl_pos = 0, fl_seekable = True\<rparr>" "[3, 0, 3]"] by simp

text \<open>CORD_from_file makes the cord of the characters of the file, NULs included, whether it reads the file at
  once or a line at a time; a file that cannot be positioned ends the program.\<close>

theorem from_file_correct:
  assumes "length (fl_text f) < BALANCE_LIMIT"
  shows "if fl_seekable f
    then \<exists>z. CORD_from_file (Suc k) f = Inr z \<and> ok0 z \<and> dep z < 48 \<and> chars z = fl_text f
    else CORD_from_file (Suc k) f = Inl Fatal_Exit"
proof (cases "fl_seekable f")
  case True
  let ?t = "fl_text f" and ?f = "f\<lparr>fl_pos := 0\<rparr>"
  have len: "file_len f = Inr (length ?t, ?f)" using True by (simp add: file_len_def c_fseek_def)
  show ?thesis
  proof (cases "length ?t < LAZY_THRESHOLD")
    case t: True
    then show ?thesis using len from_file_eager_rep [OF assms, of k] True by (simp add: CORD_from_file_def)
  next
    case False
    have inv: "lf_inv ?t (lf_start ?f)" using lf_start_inv [of ?f] True by simp
    have rd: "lf_char (lf_start ?f) j = Inr (?t ! j)" if "j < length ?t" for j
      using lf_func_rep [OF inv that] assms by (auto simp: lf_char_def)
    obtain z where z: "CORD_from_fn (lf_char (lf_start ?f)) (length ?t) = Inr z" "ok z" "chars z = ?t" "dep z = 0"
    proof -
      have "0 < length ?t" using False by linarith
      moreover have "length ?t < 2 ^ 64" using assms by simp
      ultimately show ?thesis using that from_fn_rep [of ?t "lf_char (lf_start ?f)"] rd by blast
    qed
    have "CORD_from_file (Suc k) f = CORD_from_fn (lf_char (lf_start ?f)) (length ?t)"
      using len False True by (auto simp: CORD_from_file_def CORD_from_file_lazy_inner_def c_fread_def c_fseek_def Let_def)
    then show ?thesis using z True by (auto simp: ok0_def)
  qed
qed (simp add: CORD_from_file_def file_len_def c_fseek_def)

theorem from_file_correct_witness:
  "\<exists>z. CORD_from_file 1 \<lparr>fl_text = ''ab'' @ [NUL], fl_pos = 0, fl_seekable = True\<rparr> = Inr z \<and> chars z = ''ab'' @ [NUL]"
  using from_file_correct [of "\<lparr>fl_text = ''ab'' @ [NUL], fl_pos = 0, fl_seekable = True\<rparr>" 0] by auto

end
