(* ===== verification/Cord_Print.thy ===== *)
theory Cord_Print
  imports Cord_Pos
begin

text \<open>
  src/src/common/gc/cord/cordprnt.c: sprintf for cords.

  An argument list holds values with their type; fetching an argument of another type than the one passed
  has no defined meaning.  vsnprintf of the C library is a parameter: the text of one conversion, or None
  for a negative result.  Assignments of %n are recorded with the pointer they go to.  The macro for a
  C library whose vsprintf returns the buffer is left out.
\<close>

section \<open>Arguments\<close>

datatype va_arg =
    A_Int int
  | A_Long int
  | A_Size nat
  | A_Double "64 word"
  | A_Str string
  | A_Cord cord
  | A_Ptr nat

definition va_int :: "va_arg list \<Rightarrow> (int \<times> va_arg list) res" where
  "va_int args = (case args of A_Int i # as \<Rightarrow> Inr (i, as) | _ \<Rightarrow> Inl Wild_Pointer)"

definition va_str :: "va_arg list \<Rightarrow> (string \<times> va_arg list) res" where
  "va_str args = (case args of A_Str s # as \<Rightarrow> Inr (s, as) | _ \<Rightarrow> Inl Wild_Pointer)"

definition va_cord :: "va_arg list \<Rightarrow> (cord \<times> va_arg list) res" where
  "va_cord args = (case args of A_Cord x # as \<Rightarrow> Inr (x, as) | _ \<Rightarrow> Inl Wild_Pointer)"

definition va_ptr :: "va_arg list \<Rightarrow> (nat \<times> va_arg list) res" where
  "va_ptr args = (case args of A_Ptr p # as \<Rightarrow> Inr (p, as) | _ \<Rightarrow> Inl Wild_Pointer)"

section \<open>Conversion specifications\<close>

abbreviation CONV_SPEC_LEN :: nat where "CONV_SPEC_LEN \<equiv> 50"
abbreviation CONV_RESULT_LEN :: int where "CONV_RESULT_LEN \<equiv> 50"
abbreviation NONE :: int where "NONE \<equiv> - 1"
abbreviation VARIABLE :: int where "VARIABLE \<equiv> - 2"

record conv_state =
  cv_buf :: string
  cv_width :: int
  cv_prec :: int
  cv_left :: bool
  cv_long :: int
  cv_number :: int
  cv_saw_period :: bool
  cv_saw_number :: bool

definition conv_start :: conv_state where
  "conv_start =
     \<lparr>cv_buf = ''%'', cv_width = NONE, cv_prec = NONE, cv_left = False, cv_long = 0, cv_number = 0,
      cv_saw_period = False, cv_saw_number = False\<rparr>"

datatype conv_step = Conv_More conv_state | Conv_Done conv_state | Conv_Bad

text \<open>The switch over one character.\<close>

definition conv_char :: "char \<Rightarrow> conv_state \<Rightarrow> conv_step res" where
  "conv_char c st =
     (let st = st\<lparr>cv_buf := cv_buf st @ [c]\<rparr> in
      if c = CHR ''*'' then Inr (Conv_More (st\<lparr>cv_saw_number := True, cv_number := VARIABLE\<rparr>))
      else if c = CHR ''0'' then
        if \<not> cv_saw_number st then Inr (Conv_More st)
        else rbind (chk (cv_number st * 10)) (\<lambda>n. Inr (Conv_More (st\<lparr>cv_number := n\<rparr>)))
      else if isdigit c then
        rbind (chk (cv_number st * 10)) (\<lambda>n.
        rbind (chk (n + int (code c) - 48)) (\<lambda>n. Inr (Conv_More (st\<lparr>cv_saw_number := True, cv_number := n\<rparr>))))
      else if c = CHR ''.'' then
        Inr (Conv_More ((if cv_saw_number st then st\<lparr>cv_width := cv_number st, cv_saw_number := False\<rparr> else st)
                        \<lparr>cv_saw_period := True, cv_number := 0\<rparr>))
      else if c = CHR ''l'' \<or> c = CHR ''L'' then Inr (Conv_More (st\<lparr>cv_long := 1, cv_number := 0\<rparr>))
      else if c = CHR ''z'' then Inr (Conv_More (st\<lparr>cv_long := 2, cv_number := 0\<rparr>))
      else if c = CHR ''h'' then Inr (Conv_More (st\<lparr>cv_long := - 1, cv_number := 0\<rparr>))
      else if c = CHR '' '' \<or> c = CHR ''+'' \<or> c = CHR ''#'' then Inr (Conv_More (st\<lparr>cv_number := 0\<rparr>))
      else if c = CHR ''-'' then Inr (Conv_More (st\<lparr>cv_left := True, cv_number := 0\<rparr>))
      else if c \<in> set ''diouxXfeEgGcCsSpnr'' then Inr (Conv_Done st)
      else Inr Conv_Bad)"

text \<open>What the code behind the label done makes of the last number.\<close>

definition conv_done :: "conv_state \<Rightarrow> conv_state" where
  "conv_done st =
     (if cv_saw_number st then
        if cv_saw_period st then st\<lparr>cv_prec := cv_number st\<rparr> else st\<lparr>cv_prec := NONE, cv_width := cv_number st\<rparr>
      else st\<lparr>cv_prec := NONE\<rparr>)"

text \<open>The loop, for \<open>n\<close> more characters in the buffer; the result is None for a negative one.\<close>

fun extract_loop :: "nat \<Rightarrow> cord_pos \<Rightarrow> conv_state \<Rightarrow> (conv_state \<times> cord_pos) option res" where
  "extract_loop n source st =
     (if \<not> CORD_pos_valid source then Inr None
      else case n of
        0 \<Rightarrow> Inr None
      | Suc m \<Rightarrow>
          rbind (CORD_pos_fetch source) (\<lambda>current.
          rbind (conv_char current st) (\<lambda>r.
          case r of
            Conv_Bad \<Rightarrow> Inr None
          | Conv_Done st \<Rightarrow> Inr (Some (conv_done st, source))
          | Conv_More st \<Rightarrow> rbind (CORD_next source) (\<lambda>source. extract_loop m source st))))"

declare extract_loop.simps [simp del]

definition extract_conv_spec :: "cord_pos \<Rightarrow> (conv_state \<times> cord_pos) option res" where
  "extract_conv_spec source = extract_loop (CONV_SPEC_LEN - 1) source conv_start"

section \<open>Formatting\<close>

datatype n_value = N_Unsigned "32 word" | N_Size nat | N_Long "64 word" | N_Short "16 word"

record pr_state =
  ps_ec :: cord_ec
  ps_args :: "va_arg list"
  ps_assigned :: "(nat \<times> n_value) list"

definition ec_len :: "cord_ec \<Rightarrow> nat res" where
  "ec_len x = rbind (CORD_len (ec_cord x)) (\<lambda>n. Inr (usize (n + ec_bufptr x)))"

definition to_unsigned :: "int \<Rightarrow> nat" where
  "to_unsigned n = nat (n mod 2 ^ 32)"

text \<open>A width or precision that is given by an argument.\<close>

definition var_number :: "int \<Rightarrow> va_arg list \<Rightarrow> (int \<times> va_arg list) res" where
  "var_number n args = (if n = VARIABLE then va_int args else Inr (n, args))"

definition print_n :: "int \<Rightarrow> pr_state \<Rightarrow> pr_state res" where
  "print_n long_arg st =
     rbind (va_ptr (ps_args st)) (\<lambda>(p, args).
     rbind (ec_len (ps_ec st)) (\<lambda>n.
     let v = (if long_arg = 0 then N_Unsigned (word_of_nat n) else if long_arg = 2 then N_Size n
              else if 0 < long_arg then N_Long (word_of_nat n) else N_Short (word_of_nat n))
     in Inr (st\<lparr>ps_args := args, ps_assigned := ps_assigned st @ [(p, v)]\<rparr>)))"

definition print_cord :: "nat \<Rightarrow> int \<Rightarrow> int \<Rightarrow> bool \<Rightarrow> pr_state \<Rightarrow> pr_state option res" where
  "print_cord k width prec left_adj st =
     rbind (var_number width (ps_args st)) (\<lambda>(width, args).
     rbind (var_number prec args) (\<lambda>(prec, args).
     rbind (va_cord args) (\<lambda>(arg, args).
     rbind (CORD_len arg) (\<lambda>len.
     if prec \<noteq> NONE \<and> to_unsigned prec < len \<and> prec < 0 then Inr None
     else
       rbind (if prec \<noteq> NONE \<and> to_unsigned prec < len
              then rbind (CORD_substr (cord_cat k) arg 0 (to_unsigned prec)) (\<lambda>a. Inr (a, to_unsigned prec))
              else Inr (arg, len)) (\<lambda>(arg, len).
       rbind (if width \<noteq> NONE \<and> len < to_unsigned width
              then let blanks = Str (replicate (to_unsigned width - len) (CHR '' ''))
                   in if left_adj then cord_cat k arg blanks else cord_cat k blanks arg
              else Inr arg) (\<lambda>arg.
       rbind (CORD_ec_append_cord (cord_bal k) (ps_ec st) arg) (\<lambda>ec.
       Inr (Some (st\<lparr>ps_ec := ec, ps_args := args\<rparr>)))))))))"

fun append_str :: "nat \<Rightarrow> cord_ec \<Rightarrow> string \<Rightarrow> cord_ec res" where
  "append_str k ec [] = Inr ec"
| "append_str k ec (c # cs) = rbind (CORD_ec_append (cord_bal k) ec c) (\<lambda>ec. append_str k ec cs)"

text \<open>The argument that a conversion of the C library takes; None for one that it does not have.\<close>

definition skip_arg :: "char \<Rightarrow> int \<Rightarrow> va_arg list \<Rightarrow> va_arg list option res" where
  "skip_arg current long_arg args =
     (if current \<in> set ''diouxXc'' then
        (case args of
           A_Int _ # as \<Rightarrow> if long_arg \<le> 0 then Inr (Some as) else Inl Wild_Pointer
         | A_Size _ # as \<Rightarrow> if long_arg = 2 then Inr (Some as) else Inl Wild_Pointer
         | A_Long _ # as \<Rightarrow> if 0 < long_arg \<and> long_arg \<noteq> 2 then Inr (Some as) else Inl Wild_Pointer
         | _ \<Rightarrow> Inl Wild_Pointer)
      else if current = CHR ''s'' \<or> current = CHR ''p'' then
        (case args of A_Str _ # as \<Rightarrow> Inr (Some as) | A_Ptr _ # as \<Rightarrow> Inr (Some as) | _ \<Rightarrow> Inl Wild_Pointer)
      else if current \<in> set ''feEgG'' then
        (case args of A_Double _ # as \<Rightarrow> Inr (Some as) | _ \<Rightarrow> Inl Wild_Pointer)
      else Inr None)"

fun store_str :: "char cell list \<Rightarrow> nat \<Rightarrow> string \<Rightarrow> char cell list res" where
  "store_str b i [] = Inr b"
| "store_str b i (c # cs) = rbind (store b (int i) c) (\<lambda>b. store_str b (i + 1) cs)"

text \<open>
  A conversion by vsnprintf: its text goes to a buffer of its own when it may be long, else behind the
  characters of the extensible cord, which has room for \<open>max_size\<close> characters and the terminator.
\<close>

definition print_std ::
  "(string \<Rightarrow> va_arg list \<Rightarrow> string option) \<Rightarrow> nat \<Rightarrow> char \<Rightarrow> conv_state \<Rightarrow> pr_state \<Rightarrow> pr_state option res" where
  "print_std vsn k current cv st =
     rbind (var_number (cv_width cv) (ps_args st)) (\<lambda>(width, args).
     rbind (var_number (cv_prec cv) args) (\<lambda>(prec, args).
     let max_size = (if width \<noteq> NONE then width else 0);
         max_size = (if prec \<noteq> NONE \<and> max_size < prec then prec else max_size) in
     rbind (chk (max_size + CONV_RESULT_LEN)) (\<lambda>max_size.
     rbind (if max_size < int CORD_BUFSZ \<and> int CORD_BUFSZ - int (ec_bufptr (ps_ec st)) < max_size
            then CORD_ec_flush_buf (cord_bal k) (ps_ec st) else Inr (ps_ec st)) (\<lambda>ec.
     rbind (skip_arg current (cv_long cv) args) (\<lambda>args.
     case args of
       None \<Rightarrow> Inr None
     | Some args \<Rightarrow>
         (case vsn (cv_buf cv) (ps_args st) of
            None \<Rightarrow> Inr None
          | Some t \<Rightarrow>
              let sz = to_unsigned (int (to_unsigned max_size) + 1);
                  written = (if sz = 0 then [] else take (sz - 1) t @ [NUL]) in
              if int CORD_BUFSZ \<le> max_size then
                rbind (append_str k ec (c_text written)) (\<lambda>ec. Inr (Some (st\<lparr>ps_ec := ec, ps_args := args\<rparr>)))
              else
                rbind (store_str (ec_buf ec) (ec_bufptr ec) written) (\<lambda>b.
                Inr (Some (st\<lparr>ps_ec := ec\<lparr>ec_buf := b, ec_bufptr := ec_bufptr ec + length t\<rparr>, ps_args := args\<rparr>)))))))))"

text \<open>A conversion at the position behind the percent sign.\<close>

definition print_conv ::
  "(string \<Rightarrow> va_arg list \<Rightarrow> string option) \<Rightarrow> nat \<Rightarrow> cord_pos \<Rightarrow> pr_state \<Rightarrow> (cord_pos \<times> pr_state) option res" where
  "print_conv vsn k pos st =
     rbind (extract_conv_spec pos) (\<lambda>r.
     case r of
       None \<Rightarrow> Inr None
     | Some (cv, pos) \<Rightarrow>
         rbind (CORD_pos_fetch pos) (\<lambda>current.
         rbind
           (if current = CHR ''n'' then rbind (print_n (cv_long cv) st) (\<lambda>st. Inr (Some st))
            else if current = CHR ''r'' then print_cord k (cv_width cv) (cv_prec cv) (cv_left cv) st
            else if current = CHR ''c'' \<and> cv_width cv = NONE \<and> cv_prec cv = NONE then
              rbind (va_int (ps_args st)) (\<lambda>(c, args).
              rbind (CORD_ec_append (cord_bal k) (ps_ec st) (int_to_char c)) (\<lambda>ec.
              Inr (Some (st\<lparr>ps_ec := ec, ps_args := args\<rparr>))))
            else if current = CHR ''s'' \<and> cv_width cv = NONE \<and> cv_prec cv = NONE then
              rbind (va_str (ps_args st)) (\<lambda>(s, args).
              rbind (append_str k (ps_ec st) s) (\<lambda>ec.
              Inr (Some (st\<lparr>ps_ec := ec, ps_args := args\<rparr>))))
            else print_std vsn k current cv st) (\<lambda>r.
         Inr (map_option (\<lambda>st. (pos, st)) r))))"

text \<open>The body of the loop over the format.\<close>

definition print_char ::
  "(string \<Rightarrow> va_arg list \<Rightarrow> string option) \<Rightarrow> nat \<Rightarrow> cord_pos \<Rightarrow> pr_state \<Rightarrow> (cord_pos \<times> pr_state) option res" where
  "print_char vsn k pos st =
     rbind (CORD_pos_fetch pos) (\<lambda>current.
     if current = CHR ''%'' then
       rbind (CORD_next pos) (\<lambda>pos.
       if \<not> CORD_pos_valid pos then Inr None
       else rbind (CORD_pos_fetch pos) (\<lambda>current.
            if current = CHR ''%'' then
              rbind (CORD_ec_append (cord_bal k) (ps_ec st) current) (\<lambda>ec. Inr (Some (pos, st\<lparr>ps_ec := ec\<rparr>)))
            else print_conv vsn k pos st))
     else rbind (CORD_ec_append (cord_bal k) (ps_ec st) current) (\<lambda>ec. Inr (Some (pos, st\<lparr>ps_ec := ec\<rparr>))))"

partial_function (option) print_loop ::
  "(string \<Rightarrow> va_arg list \<Rightarrow> string option) \<Rightarrow> nat \<Rightarrow> cord_pos \<Rightarrow> pr_state \<Rightarrow> pr_state option res option" where
  [code]: "print_loop vsn k pos st =
     (if \<not> CORD_pos_valid pos then Some (Inr (Some st))
      else case print_char vsn k pos st of
        Inl e \<Rightarrow> Some (Inl e)
      | Inr None \<Rightarrow> Some (Inr None)
      | Inr (Some r) \<Rightarrow>
          (case CORD_next (fst r) of
             Inl e \<Rightarrow> Some (Inl e)
           | Inr pos \<Rightarrow> print_loop vsn k pos (snd r)))"

text \<open>The result: the count, the cord and what was assigned; None for a negative result.\<close>

definition CORD_vsprintf ::
  "(string \<Rightarrow> va_arg list \<Rightarrow> string option) \<Rightarrow> nat \<Rightarrow> cord \<Rightarrow> va_arg list \<Rightarrow>
   (int \<times> cord \<times> (nat \<times> n_value) list) option res option" where
  "CORD_vsprintf vsn k format args =
     (case CORD_set_pos raw_pos format 0 of
        Inl e \<Rightarrow> Some (Inl e)
      | Inr pos \<Rightarrow>
          map_option
            (\<lambda>r. rbind r (\<lambda>st.
               case st of
                 None \<Rightarrow> Inr None
               | Some st \<Rightarrow>
                   rbind (ec_len (ps_ec st)) (\<lambda>n.
                   rbind (CORD_ec_to_cord (cord_bal k) (ps_ec st)) (\<lambda>(c, _).
                   rbind (cord_bal k c) (\<lambda>z.
                   Inr (Some (int_len n, z, ps_assigned st)))))))
            (print_loop vsn k pos \<lparr>ps_ec = CORD_ec_init raw_ec, ps_args = args, ps_assigned = []\<rparr>))"

definition CORD_sprintf where "CORD_sprintf = CORD_vsprintf"

text \<open>The functions that print to a file.\<close>

definition CORD_vfprintf ::
  "(string \<Rightarrow> va_arg list \<Rightarrow> string option) \<Rightarrow> nat \<Rightarrow> out_file \<Rightarrow> cord \<Rightarrow> va_arg list \<Rightarrow> (int \<times> out_file) res option" where
  "CORD_vfprintf vsn k f format args =
     map_option
       (\<lambda>r. rbind r (\<lambda>r.
          case r of
            None \<Rightarrow> Inr (- 1, f)
          | Some (result, out, _) \<Rightarrow>
              if 0 < result then rbind (CORD_put out f) (\<lambda>(_, f). Inr (result, f)) else Inr (result, f)))
       (CORD_vsprintf vsn k format args)"

definition CORD_fprintf where "CORD_fprintf = CORD_vfprintf"

definition CORD_vprintf where "CORD_vprintf vsn k stdout format args = CORD_vfprintf vsn k stdout format args"

definition CORD_printf where "CORD_printf = CORD_vprintf"

end
