(* ===== verification/Cord_Print_Facts.thy ===== *)
theory Cord_Print_Facts
  imports Cord_Print Cord_Ec
begin

text \<open>
  Correctness of CORD_vsprintf: the result is the concatenation of the texts of the parts of the format.
\<close>

section \<open>Formats\<close>

text \<open>
  The parts a format is made of: a literal character, a percent sign, and the conversions of a character,
  a string, a cord and what the C library converts.  Each part has its text in the format, its arguments and
  its text in the result.
\<close>

datatype piece =
    P_Lit char
  | P_Percent
  | P_Char int
  | P_String string
  | P_Cord cord
  | P_Std char va_arg string

fun piece_format :: "piece \<Rightarrow> string" where
  "piece_format (P_Lit c) = [c]"
| "piece_format P_Percent = ''%%''"
| "piece_format (P_Char i) = ''%c''"
| "piece_format (P_String s) = ''%s''"
| "piece_format (P_Cord x) = ''%r''"
| "piece_format (P_Std c a t) = [CHR ''%'', c]"

fun piece_args :: "piece \<Rightarrow> va_arg list" where
  "piece_args (P_Lit c) = []"
| "piece_args P_Percent = []"
| "piece_args (P_Char i) = [A_Int i]"
| "piece_args (P_String s) = [A_Str s]"
| "piece_args (P_Cord x) = [A_Cord x]"
| "piece_args (P_Std c a t) = [a]"

fun piece_out :: "piece \<Rightarrow> string" where
  "piece_out (P_Lit c) = [c]"
| "piece_out P_Percent = ''%''"
| "piece_out (P_Char i) = [int_to_char i]"
| "piece_out (P_String s) = s"
| "piece_out (P_Cord x) = chars x"
| "piece_out (P_Std c a t) = t"

text \<open>\<open>vsn\<close> converts the argument to a text of at most CONV_RESULT_LEN characters.\<close>

fun piece_ok :: "(string \<Rightarrow> va_arg list \<Rightarrow> string option) \<Rightarrow> piece \<Rightarrow> bool" where
  "piece_ok vsn (P_Lit c) \<longleftrightarrow> c \<noteq> CHR ''%'' \<and> c \<noteq> NUL"
| "piece_ok vsn P_Percent \<longleftrightarrow> True"
| "piece_ok vsn (P_Char i) \<longleftrightarrow> int_to_char i \<noteq> NUL"
| "piece_ok vsn (P_String s) \<longleftrightarrow> nul_free s"
| "piece_ok vsn (P_Cord x) \<longleftrightarrow> ok0 x \<and> dep x < 48"
| "piece_ok vsn (P_Std c a t) \<longleftrightarrow>
     c \<in> set ''diouxXfeEgGp'' \<and> (\<forall>as. skip_arg c 0 (a # as) = Inr (Some as)) \<and>
     (\<forall>as. vsn [CHR ''%'', c] (a # as) = Some t) \<and> nul_free t \<and> length t \<le> 50"

section \<open>The parts of the loop\<close>

lemma append_str_fold: "append_str k e s = fold_res (\<lambda>c e. CORD_ec_append (cord_bal k) e c) s e"
  by (induction s arbitrary: e) simp_all

lemma append_str_rep:
  "ec_at T e \<Longrightarrow> length T + length s \<le> BALANCE_LIMIT \<Longrightarrow> nul_free s \<Longrightarrow> \<exists>e'. append_str (Suc k) e s = Inr e' \<and> ec_at (T @ s) e'"
  unfolding append_str_fold by (rule ec.adds_at)

lemma store_str_rep:
  "holds b us \<Longrightarrow> length us + length s \<le> length b \<Longrightarrow>
    \<exists>b'. store_str b (length us) s = Inr b' \<and> holds b' (us @ s) \<and> length b' = length b"
proof (induction s arbitrary: b us)
  case (Cons c s)
  let ?b = "b[length us := Val c]"
  have b: "holds ?b (us @ [c])" using Cons.prems by (intro holds_snoc) auto
  have "store b (int (length us)) c = Inr ?b" using Cons.prems(2) by (simp add: store_in)
  then show ?case using Cons.IH [OF b] Cons.prems(2) by simp
qed simp

lemma extract_one:
  assumes "pos_at x i p" "chars x ! i = c" "c \<in> set ''diouxXfeEgGpcsrn''"
  shows "extract_conv_spec p = Inr (Some (conv_start\<lparr>cv_buf := [CHR ''%'', c]\<rparr>, p))"
proof -
  have "conv_char c conv_start = Inr (Conv_Done (conv_start\<lparr>cv_buf := [CHR ''%'', c]\<rparr>))"
    using assms(3) by (auto simp: conv_char_def conv_start_def Let_def isdigit_def)
  moreover have "conv_done (conv_start\<lparr>cv_buf := [CHR ''%'', c]\<rparr>) = conv_start\<lparr>cv_buf := [CHR ''%'', c]\<rparr>"
    by (simp add: conv_done_def conv_start_def)
  ultimately show ?thesis
    using fetch_rep [OF assms(1)] pos_at_valid [OF assms(1)] assms(2)
    by (simp add: extract_conv_spec_def extract_loop.simps)
qed

text \<open>The text that the conversion of a cord appends, for a width and a precision.\<close>

definition cord_field :: "int \<Rightarrow> int \<Rightarrow> bool \<Rightarrow> string \<Rightarrow> string" where
  "cord_field width prec left_adj s =
     (let s = (if prec = NONE then s else take (nat prec) s);
          blanks = (if width = NONE then [] else replicate (nat width - length s) (CHR '' ''))
      in if left_adj then s @ blanks else blanks @ s)"

lemma to_unsigned_small: "0 \<le> n \<Longrightarrow> n < 2 ^ 31 \<Longrightarrow> to_unsigned n = nat n"
  by (simp add: to_unsigned_def)

lemma var_number_given: "- 1 \<le> n \<Longrightarrow> var_number n args = Inr (n, args)"
  by (simp add: var_number_def)

lemma cut_rep:
  assumes x: "ok0 x" "dep x < 48" and pr: "- 1 \<le> prec" "prec < 2 ^ 31"
  shows "\<exists>z. (if prec \<noteq> NONE \<and> to_unsigned prec < length (chars x)
       then rbind (CORD_substr (cord_cat k) x 0 (to_unsigned prec)) (\<lambda>a. Inr (a, to_unsigned prec))
       else Inr (x, length (chars x))) = Inr (z, length (chars z)) \<and> ok0 z \<and> dep z < 48 \<and>
     chars z = (if prec = NONE then chars x else take (nat prec) (chars x))"
proof (cases "prec \<noteq> NONE \<and> to_unsigned prec < length (chars x)")
  case True
  then have p: "to_unsigned prec = nat prec" using pr by (intro to_unsigned_small) auto
  then have "0 + nat prec < 2 ^ 64" using pr(2) by simp
  from substr_rep [OF x this, of "cord_bal k"] obtain z where
    "CORD_substr (cord_cat k) x 0 (nat prec) = Inr z" "ok0 z" "chars z = take (nat prec) (chars x)" "dep z < 48"
    using x(2) by (auto simp: cord_cat_def)
  then show ?thesis using True p by simp
next
  case False
  then have "prec \<noteq> NONE \<Longrightarrow> length (chars x) \<le> nat prec" using pr to_unsigned_small [of prec] by auto
  then show ?thesis using False x by auto
qed

lemma pad_rep:
  assumes x: "ok0 x" "dep x < 48" and w: "- 1 \<le> width" "width < 2 ^ 31"
    and t: "t = (if width = NONE then [] else replicate (nat width - length (chars x)) (CHR '' ''))"
    and len: "length (chars x) + length t < BALANCE_LIMIT"
  shows "\<exists>z. (if width \<noteq> NONE \<and> length (chars x) < to_unsigned width
       then let blanks = Str (replicate (to_unsigned width - length (chars x)) (CHR '' ''))
            in if l then cord_cat (Suc k) x blanks else cord_cat (Suc k) blanks x
       else Inr x) = Inr z \<and> ok0 z \<and> dep z < 48 \<and> chars z = (if l then chars x @ t else t @ chars x)"
proof (cases "width \<noteq> NONE \<and> length (chars x) < to_unsigned width")
  case True
  then have t': "t = replicate (to_unsigned width - length (chars x)) (CHR '' '')" "t \<noteq> []"
    using t w to_unsigned_small [of width] by auto
  then have b: "ok0 (Str t)" "dep (Str t) < 48" using len by (auto simp: ok0_def nul_free_def)
  show ?thesis
    using cord_cat_rep [OF x(1) b(1) x(2) b(2), of "Suc k"] cord_cat_rep [OF b(1) x(1) b(2) x(2), of "Suc k"] True t'(1) len
    by (auto simp: Let_def)
next
  case False
  then have "t = []" using t w to_unsigned_small [of width] by auto
  then show ?thesis using False x by auto
qed

lemma print_cord_rep:
  assumes e: "ec_at T (ps_ec st)" and x: "ok0 x" "dep x < 48" and args: "ps_args st = A_Cord x # as"
    and w: "- 1 \<le> width" "width < 2 ^ 31" and pr: "- 1 \<le> prec" "prec < 2 ^ 31"
    and len: "length T + length (cord_field width prec l (chars x)) < BALANCE_LIMIT"
  shows "\<exists>e'. print_cord (Suc k) width prec l st = Inr (Some (st\<lparr>ps_ec := e', ps_args := as\<rparr>)) \<and>
    ec_at (T @ cord_field width prec l (chars x)) e'"
proof -
  obtain y where y: "(if prec \<noteq> NONE \<and> to_unsigned prec < length (chars x)
       then rbind (CORD_substr (cord_cat (Suc k)) x 0 (to_unsigned prec)) (\<lambda>a. Inr (a, to_unsigned prec))
       else Inr (x, length (chars x))) = Inr (y, length (chars y))" "ok0 y" "dep y < 48"
     "chars y = (if prec = NONE then chars x else take (nat prec) (chars x))"
    using cut_rep [OF x pr, of "Suc k"] by blast
  let ?t = "if width = NONE then [] else replicate (nat width - length (chars y)) (CHR '' '')"
  have f: "cord_field width prec l (chars x) = (if l then chars y @ ?t else ?t @ chars y)"
    by (simp add: cord_field_def y(4) Let_def)
  then have "length (chars y) + length ?t < BALANCE_LIMIT" using len by (auto split: if_splits)
  from pad_rep [OF y(2,3) w refl this, of l k] obtain z where
    z: "(if width \<noteq> NONE \<and> length (chars y) < to_unsigned width
       then let blanks = Str (replicate (to_unsigned width - length (chars y)) (CHR '' ''))
            in if l then cord_cat (Suc k) y blanks else cord_cat (Suc k) blanks y
       else Inr y) = Inr z" "ok0 z" "dep z < 48" "chars z = cord_field width prec l (chars x)"
    unfolding f by blast
  then obtain e' where e': "CORD_ec_append_cord (cord_bal (Suc k)) (ps_ec st) z = Inr e'"
      "ec_at (T @ cord_field width prec l (chars x)) e'"
    using ec_append_cord_rep [OF e z(2,3), of k] len by auto
  have neg: "\<not> (prec \<noteq> NONE \<and> to_unsigned prec < length (chars x) \<and> prec < 0)" using pr by auto
  have "print_cord (Suc k) width prec l st = Inr (Some (st\<lparr>ps_ec := e', ps_args := as\<rparr>))"
    using e'(1) neg y(1) z(1) w pr
    by (simp only: print_cord_def var_number_given args va_cord_def ok0_CORD_len [OF x(1)] rbind_Inr
        list.case va_arg.case prod.case if_False)
  then show ?thesis using e'(2) by blast
qed

text \<open>A conversion of the C library.\<close>

lemma print_std_rep:
  assumes e: "ec_at T (ps_ec st)" and len: "length T + length t < BALANCE_LIMIT" and args: "ps_args st = a # as"
    and ok: "piece_ok vsn (P_Std c a t)"
  shows "\<exists>e'. print_std vsn (Suc k) c (conv_start\<lparr>cv_buf := [CHR ''%'', c]\<rparr>) st =
      Inr (Some (st\<lparr>ps_ec := e', ps_args := as\<rparr>)) \<and> ec_at (T @ t) e'"
proof -
  obtain e1 where e1: "(if CONV_RESULT_LEN < int CORD_BUFSZ \<and> int CORD_BUFSZ - int (ec_bufptr (ps_ec st)) < CONV_RESULT_LEN
            then CORD_ec_flush_buf (cord_bal (Suc k)) (ps_ec st) else Inr (ps_ec st)) = Inr e1" "ec_at T e1"
      "ec_bufptr e1 + 50 \<le> CORD_BUFSZ"
  proof (cases "int CORD_BUFSZ - int (ec_bufptr (ps_ec st)) < CONV_RESULT_LEN")
    case True
    have "length T < BALANCE_LIMIT" using len by simp
    then show ?thesis using flush_rep [OF e, of k] True that by auto
  next
    case False
    then show ?thesis using e that [of "ps_ec st"] by simp
  qed
  obtain v where v: "ok0 (ec_cord e1)" "dep (ec_cord e1) < 48" "T = chars (ec_cord e1) @ v" "nul_free v" "length v = ec_bufptr e1"
      "length (ec_buf e1) = CORD_BUFSZ + 1" "holds (ec_buf e1) v"
    using e1(2) by (auto simp: ec_at_def)
  have t: "nul_free t" "length t \<le> 50" "skip_arg c 0 (a # as) = Inr (Some as)" "vsn [CHR ''%'', c] (a # as) = Some t"
    using ok by simp_all
  have "length v + length (t @ [NUL]) \<le> length (ec_buf e1)" using v(5,6) e1(3) t(2) by simp
  from store_str_rep [OF v(7) this] obtain b where
    b: "store_str (ec_buf e1) (ec_bufptr e1) (t @ [NUL]) = Inr b" "holds b (v @ t @ [NUL])" "length b = CORD_BUFSZ + 1"
    using v(5,6) by auto
  let ?e = "e1\<lparr>ec_buf := b, ec_bufptr := ec_bufptr e1 + length t\<rparr>"
  have "holds b (v @ t)" using b(2) by (simp add: holds_append_iff)
  then have "ec_at (T @ t) ?e" using v b(3) t(1,2) e1(3) by (auto simp: ec_at_def)
  moreover have "print_std vsn (Suc k) c (conv_start\<lparr>cv_buf := [CHR ''%'', c]\<rparr>) st =
      Inr (Some (st\<lparr>ps_ec := ?e, ps_args := as\<rparr>))"
    using e1(1) b(1) t args
    by (simp add: print_std_def conv_start_def var_number_def chk_def to_unsigned_def Let_def)
  ultimately show ?thesis by blast
qed

text \<open>A conversion, with the position at its letter.\<close>

lemma print_conv_rep:
  assumes at: "pos_at x i r" and c: "chars x ! i = c" "piece_format q = [CHR ''%'', c]" "c \<noteq> CHR ''%''"
    and args: "ps_args st = piece_args q @ as" and e: "ec_at T (ps_ec st)" and ok: "piece_ok vsn q"
    and len: "length T + length (piece_out q) < BALANCE_LIMIT"
  shows "\<exists>e'. print_conv vsn (Suc k) r st = Inr (Some (r, st\<lparr>ps_ec := e', ps_args := as\<rparr>)) \<and> ec_at (T @ piece_out q) e'"
proof -
  have "c \<in> set ''diouxXfeEgGpcsrn''" using c ok by (cases q) auto
  note ex = extract_one [OF at c(1) this]
  have fr: "CORD_pos_fetch r = Inr c" using fetch_rep [OF at] c(1) by simp
  have T: "length T < BALANCE_LIMIT" using len by simp
  show ?thesis
  proof (cases q)
    case (P_Char a)
    then have "int_to_char a \<noteq> NUL" using ok by simp
    from ec_append_rep [OF e T this, of k] obtain e' where
      "CORD_ec_append (cord_bal (Suc k)) (ps_ec st) (int_to_char a) = Inr e'" "ec_at (T @ [int_to_char a]) e'" by blast
    then show ?thesis using ex fr args c(2) P_Char by (auto simp: print_conv_def conv_start_def va_int_def)
  next
    case (P_String s)
    then have "length T + length s \<le> BALANCE_LIMIT" "nul_free s" using ok len by simp_all
    from append_str_rep [OF e this, of k] obtain e' where
      "append_str (Suc k) (ps_ec st) s = Inr e'" "ec_at (T @ s) e'" by blast
    then show ?thesis using ex fr args c(2) P_String by (auto simp: print_conv_def conv_start_def va_str_def)
  next
    case (P_Cord y)
    have "cord_field NONE NONE False (chars y) = chars y" by (simp add: cord_field_def)
    then obtain e' where "print_cord (Suc k) NONE NONE False st = Inr (Some (st\<lparr>ps_ec := e', ps_args := as\<rparr>))"
        "ec_at (T @ chars y) e'"
      using print_cord_rep [OF e, of y as NONE NONE False k] ok len args P_Cord by auto
    then show ?thesis using ex fr c(2) P_Cord by (auto simp: print_conv_def conv_start_def)
  next
    case (P_Std d a t)
    then have d: "d = c" "piece_ok vsn (P_Std c a t)" using c(2) ok by simp_all
    then have "length T + length t < BALANCE_LIMIT" "ps_args st = a # as" using len args P_Std by simp_all
    from print_std_rep [OF e this d(2), of k] obtain e' where
      "print_std vsn (Suc k) c (conv_start\<lparr>cv_buf := [CHR ''%'', c]\<rparr>) st = Inr (Some (st\<lparr>ps_ec := e', ps_args := as\<rparr>))"
      "ec_at (T @ t) e'" by blast
    moreover have "c \<noteq> CHR ''n''" "c \<noteq> CHR ''r''" "c \<noteq> CHR ''c''" "c \<noteq> CHR ''s''" using d(2) by auto
    ultimately show ?thesis using ex fr P_Std by (auto simp: print_conv_def)
  qed (use c in auto)
qed

text \<open>One part of the format: the position is left at its last character.\<close>

lemma print_piece_rep:
  assumes at: "pos_at x i p" and fmt: "drop i (chars x) = piece_format q @ rest" and args: "ps_args st = piece_args q @ as"
    and e: "ec_at T (ps_ec st)" and ok: "piece_ok vsn q" and len: "length T + length (piece_out q) < BALANCE_LIMIT"
  shows "\<exists>p' e' j. print_char vsn (Suc k) p st = Inr (Some (p', st\<lparr>ps_ec := e', ps_args := as\<rparr>)) \<and> pos_at x j p' \<and>
    Suc j = i + length (piece_format q) \<and> ec_at (T @ piece_out q) e'"
proof -
  have i: "i < length (chars x)" using pos_at_less [OF at] by simp
  then have dr: "drop i (chars x) = chars x ! i # drop (Suc i) (chars x)" by (rule Cons_nth_drop_Suc [symmetric])
  have f: "CORD_pos_fetch p = Inr (chars x ! i)" by (rule fetch_rep [OF at])
  show ?thesis
  proof (cases "\<exists>c. q = P_Lit c")
    case True
    then obtain c where c: "q = P_Lit c" by blast
    then have "length T < BALANCE_LIMIT" "c \<noteq> NUL" using len ok by simp_all
    then obtain e' where "CORD_ec_append (cord_bal (Suc k)) (ps_ec st) c = Inr e'" "ec_at (T @ [c]) e'"
      using ec_append_rep [OF e, of c k] by blast
    then show ?thesis using f at c dr fmt ok args by (auto simp: print_char_def)
  next
    case False
    then obtain c where c: "piece_format q = [CHR ''%'', c]" by (cases q) auto
    then have ch: "chars x ! i = CHR ''%''" "drop (Suc i) (chars x) = c # rest" using fmt dr by simp_all
    then have si: "Suc i < length (chars x)" "chars x ! Suc i = c"
      by (metis drop_all list.distinct(1) not_le) (metis ch(2) nth_via_drop)
    obtain r where r: "CORD_next p = Inr r" "pos_at x (Suc i) r" using next_rep [OF at] si(1) by (auto simp: pos_or_end_def)
    have fr: "CORD_pos_fetch r = Inr c" "CORD_pos_valid r" using fetch_rep [OF r(2)] si(2) pos_at_valid [OF r(2)] by simp_all
    have pc: "print_char vsn (Suc k) p st =
        (if c = CHR ''%'' then
           rbind (CORD_ec_append (cord_bal (Suc k)) (ps_ec st) c) (\<lambda>ec. Inr (Some (r, st\<lparr>ps_ec := ec\<rparr>)))
         else print_conv vsn (Suc k) r st)"
      using f ch(1) r(1) fr by (simp add: print_char_def)
    have "\<exists>e'. print_char vsn (Suc k) p st = Inr (Some (r, st\<lparr>ps_ec := e', ps_args := as\<rparr>)) \<and> ec_at (T @ piece_out q) e'"
    proof (cases "c = CHR ''%''")
      case True
      then have q: "q = P_Percent" using c ok by (cases q) auto
      have "length T < BALANCE_LIMIT" "CHR ''%'' \<noteq> NUL" using len by simp_all
      from ec_append_rep [OF e this, of k] show ?thesis using pc True q args by auto
    next
      case False
      then show ?thesis using print_conv_rep [OF r(2) si(2) c False args e ok len, of k] pc by simp
    qed
    then show ?thesis using r(2) c by auto
  qed
qed

lemma print_loop_rep:
  assumes "pos_or_end x i p" "i \<le> length (chars x)" "drop i (chars x) = concat (map piece_format qs)"
    and "ps_args st = concat (map piece_args qs)" "ec_at T (ps_ec st)" "\<forall>q \<in> set qs. piece_ok vsn q"
    and "length T + length (concat (map piece_out qs)) < BALANCE_LIMIT"
  shows "\<exists>e'. print_loop vsn (Suc k) p st = Some (Inr (Some (st\<lparr>ps_ec := e', ps_args := []\<rparr>))) \<and>
    ec_at (T @ concat (map piece_out qs)) e'"
  using assms
proof (induction qs arbitrary: i p st T)
  case Nil
  then have "\<not> CORD_pos_valid p" by (auto simp: pos_or_end_def)
  moreover have "st\<lparr>ps_ec := ps_ec st, ps_args := []\<rparr> = st" using Nil.prems(4) by simp
  ultimately show ?case using Nil.prems(5) by (subst print_loop.simps) (auto intro!: exI [of _ "ps_ec st"])
next
  case (Cons q qs)
  have ne: "piece_format q \<noteq> []" by (cases q) auto
  then have i: "i < length (chars x)" using Cons.prems(2,3) by (metis append_is_Nil_conv concat.simps(2) drop_all leI list.simps(9))
  then have at: "pos_at x i p" using Cons.prems(1) by (simp add: pos_or_end_def)
  have fm: "drop i (chars x) = piece_format q @ concat (map piece_format qs)" using Cons.prems(3) by simp
  have ag: "ps_args st = piece_args q @ concat (map piece_args qs)" using Cons.prems(4) by simp
  have "length T + length (piece_out q) < BALANCE_LIMIT" "piece_ok vsn q" using Cons.prems(6,7) by simp_all
  with print_piece_rep [OF at fm ag Cons.prems(5)] obtain p' e' j where
    pc: "print_char vsn (Suc k) p st = Inr (Some (p', st\<lparr>ps_ec := e', ps_args := concat (map piece_args qs)\<rparr>))"
      "pos_at x j p'" "Suc j = i + length (piece_format q)" "ec_at (T @ piece_out q) e'"
    by blast
  obtain r where r: "CORD_next p' = Inr r" "pos_or_end x (Suc j) r" using next_rep [OF pc(2)] by blast
  have j: "Suc j \<le> length (chars x)" using pos_at_less [OF pc(2)] by simp
  have dj: "drop (Suc j) (chars x) = concat (map piece_format qs)"
    using fm pc(3) by (metis append_eq_conv_conj drop_drop add.commute)
  let ?st = "st\<lparr>ps_ec := e', ps_args := concat (map piece_args qs)\<rparr>"
  have "length (T @ piece_out q) + length (concat (map piece_out qs)) < BALANCE_LIMIT" "\<forall>q \<in> set qs. piece_ok vsn q"
    using Cons.prems(6,7) by simp_all
  then obtain e2 where e2: "print_loop vsn (Suc k) r ?st = Some (Inr (Some (?st\<lparr>ps_ec := e2, ps_args := []\<rparr>)))"
      "ec_at ((T @ piece_out q) @ concat (map piece_out qs)) e2"
    using Cons.IH [OF r(2) j dj, of ?st "T @ piece_out q"] pc(4) by auto
  have "print_loop vsn (Suc k) p st = print_loop vsn (Suc k) r ?st"
    using pos_at_valid [OF at] pc(1) r(1) by (subst print_loop.simps) simp
  then show ?case using e2 by auto
qed

section \<open>Properties\<close>



text \<open>The conversion \<open>%r\<close> with a width and a precision appends the cord cut to the precision and padded with blanks to
  the width, on the side that the flag for left adjustment says.\<close>

theorem cord_conversion_pads:
  assumes "ok0 x" "dep x < 48" "- 1 \<le> width" "width < 2 ^ 31" "- 1 \<le> prec" "prec < 2 ^ 31"
    and "length (cord_field width prec l (chars x)) < BALANCE_LIMIT"
  shows "\<exists>e z e'. print_cord (Suc k) width prec l \<lparr>ps_ec = CORD_ec_init raw_ec, ps_args = A_Cord x # as, ps_assigned = []\<rparr> =
      Inr (Some \<lparr>ps_ec = e, ps_args = as, ps_assigned = []\<rparr>) \<and>
    CORD_ec_to_cord (cord_bal (Suc k)) e = Inr (z, e') \<and> chars z = cord_field width prec l (chars x)"
  using print_cord_rep [of "[]" "\<lparr>ps_ec = CORD_ec_init raw_ec, ps_args = A_Cord x # as, ps_assigned = []\<rparr>" x as width prec l k]
    to_cord_rep ec_start assms by fastforce

theorem cord_conversion_pads_witness:
  "\<exists>e z e'. print_cord 1 5 2 False \<lparr>ps_ec = CORD_ec_init raw_ec, ps_args = [A_Cord sample_cord], ps_assigned = []\<rparr> =
      Inr (Some \<lparr>ps_ec = e, ps_args = [], ps_assigned = []\<rparr>) \<and>
    CORD_ec_to_cord (cord_bal 1) e = Inr (z, e') \<and> chars z = ''   ab''"
proof -
  have "ok0 sample_cord" "dep sample_cord < 48" by (simp_all add: sample_cord_def ok0_def nul_free_def)
  moreover have "cord_field 5 2 False (chars sample_cord) = ''   ab''"
    by (simp add: cord_field_def sample_cord_def Let_def numeral_eq_Suc)
  ultimately show ?thesis using cord_conversion_pads [of sample_cord 5 2 False 0 "[]"] by simp
qed

lemma store_str_at: "i + length s \<le> length b \<Longrightarrow> store_str b i s = Inr (take i b @ map Val s @ drop (i + length s) b)"
proof (induction s arbitrary: b i)
  case (Cons c s)
  have "store b (int i) c = Inr (b[i := Val c])" using Cons.prems by (simp add: store_in)
  moreover have "take (Suc i) (b[i := Val c]) = take i b @ [Val c]"
    using Cons.prems by (simp add: take_Suc_conv_app_nth)
  ultimately show ?case using Cons.IH [of "Suc i" "b[i := Val c]"] Cons.prems by simp
qed simp

lemma load_str_undef:
  "b ! m = Undef \<Longrightarrow> m < length b \<Longrightarrow> i \<le> m \<Longrightarrow> m < i + n \<Longrightarrow> \<forall>j. i \<le> j \<and> j < m \<longrightarrow> (\<exists>v. b ! j = Val v) \<Longrightarrow>
    load_str b i n = Inl Uninit_Read"
proof (induction n arbitrary: i)
  case (Suc n)
  show ?case
  proof (cases "i = m")
    case True
    then show ?thesis using Suc.prems by (simp add: load_def)
  next
    case False
    then obtain v where "b ! i = Val v" using Suc.prems by (metis le_neq_implies_less order_refl)
    then show ?thesis using Suc.IH [of "Suc i"] Suc.prems False by (simp add: load_def)
  qed
qed simp

text \<open>A text of the C library that is longer than the bound is cut, but the pointer is moved by its whole length:
  the flush reads memory behind the characters that were written.\<close>

theorem long_conversion_overruns:
  assumes "vsn ''%f'' [A_Double d] = Some t" "CONV_RESULT_LEN + 1 < int (length t)"
  shows "CORD_vsprintf vsn k (Str ''%f'') [A_Double d] = Some (Inl Uninit_Read)"
proof -
  let ?x = "Str ''%f''" and ?st = "\<lparr>ps_ec = CORD_ec_init raw_ec, ps_args = [A_Double d], ps_assigned = []\<rparr>"
  let ?b = "map Val (take 50 t @ [NUL]) @ replicate 78 Undef"
  let ?e = "\<lparr>ec_cord = CORD_EMPTY, ec_bufptr = length t, ec_buf = ?b\<rparr>"
  let ?f = "?st\<lparr>ps_ec := ?e, ps_args := []\<rparr>"
  have ok: "ok ?x" "dep ?x \<le> 48" by (simp_all add: nul_free_def)
  obtain p where p: "CORD_set_pos raw_pos ?x 0 = Inr p" "pos_at ?x 0 p"
    using set_raw_pos [OF ok, of 0] by (auto simp: pos_or_end_def)
  obtain q where q: "CORD_next p = Inr q" "pos_at ?x 1 q" using next_rep [OF p(2)] by (auto simp: pos_or_end_def)
  obtain r where r: "CORD_next q = Inr r" "\<not> CORD_pos_valid r" using next_rep [OF q(2)] by (auto simp: pos_or_end_def)
  have len: "length (take 50 t) = 50" using assms(2) by simp
  have "store_str (replicate 129 Undef) 0 (take 50 t @ [NUL]) = Inr ?b" using store_str_at [of 0 "take 50 t @ [NUL]"] len by simp
  then have "print_std vsn k (CHR ''f'') (conv_start\<lparr>cv_buf := ''%f''\<rparr>) ?st = Inr (Some ?f)"
    using assms(1) len
    by (simp add: print_std_def conv_start_def var_number_def chk_def to_unsigned_def Let_def CORD_ec_init_def raw_ec_def skip_arg_def)
  then have "print_char vsn k p ?st = Inr (Some (q, ?f))"
    using fetch_rep [OF p(2)] fetch_rep [OF q(2)] pos_at_valid [OF q(2)] q(1) extract_one [OF q(2), of "CHR ''f''"]
    by (simp add: print_char_def print_conv_def)
  then have "print_loop vsn k p ?st = Some (Inr (Some ?f))"
    using pos_at_valid [OF p(2)] r by (simp add: print_loop.simps [of vsn k p] print_loop.simps [of vsn k r])
  moreover have "load_str ?b 0 (length t) = Inl Uninit_Read"
    using assms(2) len by (intro load_str_undef [of ?b 51]) (auto simp: nth_append nth_map simp del: map_append)
  then have "CORD_ec_to_cord (cord_bal k) ?e = Inl Uninit_Read"
    using assms(2) by (auto simp: CORD_ec_to_cord_def CORD_ec_flush_buf_def Let_def)
  moreover have "ec_len ?e = Inr (usize (length t))" by (simp add: ec_len_def CORD_len_def)
  ultimately show ?thesis using p(1) by (simp add: CORD_vsprintf_def)
qed

theorem long_conversion_overruns_witness:
  "CORD_vsprintf (\<lambda>f as. Some (replicate 308 (CHR ''0''))) 1 (Str ''%f'') [A_Double 0x7E37E43C8800759C] = Some (Inl Uninit_Read)"
  by (rule long_conversion_overruns [of _ _ "replicate 308 (CHR ''0'')"]) simp_all

end
