(* ===== verification/Gc_Roots.thy ===== *)
theory Gc_Roots
  imports Vm_Prelude
begin

text \<open>
  src/src/common/gc/mark_rts.c: the root sets of the collector and the ranges excluded from them, in the
  configuration of the project's build (64-bit Linux with threads, neither SMALL_CONFIG nor LARGE_CONFIG).

  A table is the list of its entries in use, so that n_root_sets and GC_excl_table_entries are lengths; the
  code does not read an entry behind them.  A pointer into the table is an index.  What the code pushes on
  the mark stack is the list of the ranges.
\<close>

section \<open>Addresses\<close>

type_synonym addr = "64 word"

abbreviation ALIGNMENT :: addr where "ALIGNMENT \<equiv> 8"

definition PTR_ALIGN_DOWN :: "addr \<Rightarrow> addr \<Rightarrow> addr" where
  "PTR_ALIGN_DOWN p b = p AND NOT (b - 1)"

definition PTR_ALIGN_UP :: "addr \<Rightarrow> addr \<Rightarrow> addr" where
  "PTR_ALIGN_UP p b = (p + b - 1) AND NOT (b - 1)"

definition ADDR_INSIDE :: "addr \<Rightarrow> addr \<Rightarrow> addr \<Rightarrow> bool" where
  "ADDR_INSIDE p s e_p1 \<longleftrightarrow> s \<le> p \<and> p < e_p1"

section \<open>The table of roots and its index\<close>

abbreviation MAX_ROOT_SETS :: nat where "MAX_ROOT_SETS \<equiv> 2048"
abbreviation RT_SIZE :: nat where "RT_SIZE \<equiv> 64"

record root_set =
  r_start :: addr
  r_end :: addr
  r_next :: "nat option"
  r_tmp :: bool

record root_table =
  GC_static_roots :: "root_set list"
  GC_root_index :: "nat option list"
  GC_root_size :: "64 word"
  GC_roots_were_cleared :: bool

abbreviation n_root_sets :: "root_table \<Rightarrow> nat" where
  "n_root_sets t \<equiv> length (GC_static_roots t)"

definition roots_start :: root_table where
  "roots_start = \<lparr>GC_static_roots = [], GC_root_index = replicate RT_SIZE None, GC_root_size = 0, GC_roots_were_cleared = False\<rparr>"

definition root_bytes :: "root_set \<Rightarrow> 64 word" where
  "root_bytes r = r_end r - r_start r"

definition GC_compute_root_size :: "root_table \<Rightarrow> 64 word" where
  "GC_compute_root_size t = foldl (\<lambda>size r. size + root_bytes r) 0 (GC_static_roots t)"

definition rt_hash :: "addr \<Rightarrow> nat" where
  "rt_hash a =
     (let val = a XOR drop_bit 48 a; val = val XOR drop_bit 24 val; val = val XOR drop_bit 12 val
      in unat ((drop_bit 6 val XOR val) AND 63))"

text \<open>The walk along a chain; one that is longer than the table comes back to an entry and never ends.\<close>

fun find_root :: "nat \<Rightarrow> root_set list \<Rightarrow> addr \<Rightarrow> nat option \<Rightarrow> nat option res" where
  "find_root n rs b None = Inr None"
| "find_root n rs b (Some i) =
     (if length rs \<le> i then Inl Out_Of_Bounds
      else if r_start (rs ! i) = b then Inr (Some i)
      else case n of 0 \<Rightarrow> Inl No_Return | Suc m \<Rightarrow> find_root m rs b (r_next (rs ! i)))"

definition GC_roots_present :: "addr \<Rightarrow> root_table \<Rightarrow> nat option res" where
  "GC_roots_present b t = find_root (n_root_sets t) (GC_static_roots t) b (GC_root_index t ! rt_hash b)"

definition set_root :: "nat \<Rightarrow> root_set \<Rightarrow> root_table \<Rightarrow> root_table" where
  "set_root i r t = t\<lparr>GC_static_roots := (GC_static_roots t)[i := r]\<rparr>"

definition add_roots_to_index :: "nat \<Rightarrow> root_table \<Rightarrow> root_table" where
  "add_roots_to_index i t =
     (let r = GC_static_roots t ! i; h = rt_hash (r_start r)
      in (set_root i (r\<lparr>r_next := GC_root_index t ! h\<rparr>) t)\<lparr>GC_root_index := (GC_root_index t)[h := Some i]\<rparr>)"

definition new_root :: "addr \<Rightarrow> addr \<Rightarrow> bool \<Rightarrow> root_table \<Rightarrow> root_table res" where
  "new_root b e tmp t =
     (if n_root_sets t = MAX_ROOT_SETS then Inl Fatal_Exit
      else
        let t' = t\<lparr>GC_static_roots := GC_static_roots t @ [\<lparr>r_start = b, r_end = e, r_next = None, r_tmp = tmp\<rparr>]\<rparr>;
            t' = add_roots_to_index (n_root_sets t) t'
        in Inr (t'\<lparr>GC_root_size := GC_root_size t' + (e - b)\<rparr>))"

definition GC_add_roots_inner :: "addr \<Rightarrow> addr \<Rightarrow> bool \<Rightarrow> root_table \<Rightarrow> root_table res" where
  "GC_add_roots_inner b e tmp t =
     (let b = PTR_ALIGN_UP b ALIGNMENT; e = PTR_ALIGN_DOWN e ALIGNMENT in
      if e \<le> b then Inr t
      else rbind (GC_roots_present b t) (\<lambda>p.
        case p of
          None \<Rightarrow> new_root b e tmp t
        | Some i \<Rightarrow>
            let old = GC_static_roots t ! i in
            if e \<le> r_end old then Inr (set_root i (old\<lparr>r_tmp := r_tmp old \<and> tmp\<rparr>) t)
            else if r_tmp old = tmp \<or> \<not> tmp then
              Inr ((set_root i (old\<lparr>r_end := e, r_tmp := tmp\<rparr>) t)\<lparr>GC_root_size := GC_root_size t + (e - r_end old)\<rparr>)
            else new_root (r_end old) e tmp t))"

definition GC_add_roots :: "addr \<Rightarrow> addr \<Rightarrow> root_table \<Rightarrow> root_table res" where
  "GC_add_roots b e t = GC_add_roots_inner b e False t"

definition GC_clear_roots :: "root_table \<Rightarrow> root_table" where
  "GC_clear_roots t =
     t\<lparr>GC_roots_were_cleared := True, GC_static_roots := [], GC_root_size := 0, GC_root_index := replicate RT_SIZE None\<rparr>"

text \<open>The last entry moves to the place of the one removed, and keeps the link that is there.\<close>

definition GC_remove_root_at_pos :: "nat \<Rightarrow> root_table \<Rightarrow> root_table" where
  "GC_remove_root_at_pos i t =
     (let rs = GC_static_roots t; r = rs ! i; l = last rs
      in t\<lparr>GC_root_size := GC_root_size t - root_bytes r,
           GC_static_roots := butlast (rs[i := r\<lparr>r_start := r_start l, r_end := r_end l, r_tmp := r_tmp l\<rparr>])\<rparr>)"

fun index_from :: "nat \<Rightarrow> nat \<Rightarrow> root_table \<Rightarrow> root_table" where
  "index_from i 0 t = t"
| "index_from i (Suc n) t = index_from (Suc i) n (add_roots_to_index i t)"

definition GC_rebuild_root_index :: "root_table \<Rightarrow> root_table" where
  "GC_rebuild_root_index t = index_from 0 (n_root_sets t) (t\<lparr>GC_root_index := replicate RT_SIZE None\<rparr>)"

text \<open>The loop over the table that removes the entries with a property.\<close>

function remove_where :: "(root_set \<Rightarrow> bool) \<Rightarrow> nat \<Rightarrow> root_table \<Rightarrow> root_table" where
  "remove_where p i t =
     (if n_root_sets t \<le> i then t
      else if p (GC_static_roots t ! i) then remove_where p i (GC_remove_root_at_pos i t)
      else remove_where p (Suc i) t)"
  by pat_completeness auto
termination by (relation "measure (\<lambda>(p, i, t). n_root_sets t - i)") (auto simp: GC_remove_root_at_pos_def Let_def)

declare remove_where.simps [simp del]

definition remove_and_rebuild :: "(root_set \<Rightarrow> bool) \<Rightarrow> root_table \<Rightarrow> root_table" where
  "remove_and_rebuild p t =
     (let t' = remove_where p 0 t in if n_root_sets t' < n_root_sets t then GC_rebuild_root_index t' else t')"

definition GC_remove_tmp_roots :: "root_table \<Rightarrow> root_table" where
  "GC_remove_tmp_roots t = remove_and_rebuild r_tmp t"

definition GC_remove_roots_inner :: "addr \<Rightarrow> addr \<Rightarrow> root_table \<Rightarrow> root_table" where
  "GC_remove_roots_inner b e t = remove_and_rebuild (\<lambda>r. b \<le> r_start r \<and> r_end r \<le> e) t"

definition GC_remove_roots :: "addr \<Rightarrow> addr \<Rightarrow> root_table \<Rightarrow> root_table" where
  "GC_remove_roots b e t =
     (if PTR_ALIGN_DOWN e ALIGNMENT \<le> PTR_ALIGN_UP b ALIGNMENT then t else GC_remove_roots_inner b e t)"

text \<open>The loop that looks for an address from entry \<open>i\<close> on, and the lookup with the entry found last.\<close>

fun root_with :: "addr \<Rightarrow> nat \<Rightarrow> root_set list \<Rightarrow> (nat \<times> bool) option" where
  "root_with p i [] = None"
| "root_with p i (r # rs) = (if ADDR_INSIDE p (r_start r) (r_end r) then Some (i, r_tmp r) else root_with p (Suc i) rs)"

definition GC_is_tmp_root :: "addr \<Rightarrow> root_table \<Rightarrow> nat \<Rightarrow> bool \<times> nat" where
  "GC_is_tmp_root p t last_root_set =
     (let rs = GC_static_roots t in
      if last_root_set < length rs \<and> ADDR_INSIDE p (r_start (rs ! last_root_set)) (r_end (rs ! last_root_set))
      then (r_tmp (rs ! last_root_set), last_root_set)
      else case root_with p 0 rs of None \<Rightarrow> (False, last_root_set) | Some (i, tmp) \<Rightarrow> (tmp, i))"

section \<open>Exclusions\<close>

abbreviation MAX_EXCLUSIONS :: nat where "MAX_EXCLUSIONS \<equiv> MAX_ROOT_SETS div 4"

record exclusion =
  e_start :: addr
  e_end :: addr

function excl_search :: "exclusion list \<Rightarrow> addr \<Rightarrow> nat \<Rightarrow> nat \<Rightarrow> nat" where
  "excl_search t start_addr low high =
     (if low < high then
        let mid = (low + high) div 2 in
        if e_end (t ! mid) \<le> start_addr then excl_search t start_addr (mid + 1) high
        else excl_search t start_addr low mid
      else low)"
  by pat_completeness auto
termination by (relation "measure (\<lambda>(t, a, low, high). high - low)") auto

declare excl_search.simps [simp del]

definition GC_next_exclusion :: "exclusion list \<Rightarrow> addr \<Rightarrow> nat option" where
  "GC_next_exclusion t start_addr =
     (if t = [] then None
      else
        let low = excl_search t start_addr 0 (length t - 1)
        in if e_end (t ! low) \<le> start_addr then None else Some low)"

definition GC_clear_exclusion_table :: "exclusion list \<Rightarrow> exclusion list" where
  "GC_clear_exclusion_table t = []"

definition GC_exclude_static_roots_inner :: "addr \<Rightarrow> addr \<Rightarrow> exclusion list \<Rightarrow> exclusion list res" where
  "GC_exclude_static_roots_inner start finish t =
     (let insert_at = (\<lambda>i. if MAX_EXCLUSIONS \<le> length t then Inl Fatal_Exit
                           else Inr (take i t @ [\<lparr>e_start = start, e_end = finish\<rparr>] @ drop i t)) in
      case GC_next_exclusion t start of
        None \<Rightarrow> insert_at (length t)
      | Some i \<Rightarrow>
          if e_start (t ! i) < finish then Inl Fatal_Exit
          else if e_start (t ! i) = finish then Inr (t[i := (t ! i)\<lparr>e_start := start\<rparr>])
          else insert_at i)"

definition GC_exclude_static_roots :: "addr \<Rightarrow> addr \<Rightarrow> exclusion list \<Rightarrow> exclusion list res" where
  "GC_exclude_static_roots b e t =
     (if b = e then Inr t
      else GC_exclude_static_roots_inner (PTR_ALIGN_DOWN b ALIGNMENT)
             (if NOT (ALIGNMENT - 1) < e then PTR_ALIGN_DOWN e ALIGNMENT else PTR_ALIGN_UP e ALIGNMENT) t)"

lemma next_exclusion_end: "GC_next_exclusion t a = Some i \<Longrightarrow> a < e_end (t ! i)"
  by (auto simp: GC_next_exclusion_def Let_def split: if_splits)

section \<open>Pushing the roots\<close>

text \<open>The next exclusion lies behind \<open>bottom\<close>, so that the loop always ends.\<close>

function GC_push_conditional_with_exclusions :: "exclusion list \<Rightarrow> addr \<Rightarrow> addr \<Rightarrow> (addr \<times> addr) list" where
  "GC_push_conditional_with_exclusions t bottom tp =
     (if bottom < tp then
        case GC_next_exclusion t bottom of
          None \<Rightarrow> [(bottom, tp)]
        | Some i \<Rightarrow>
            if tp \<le> e_start (t ! i) then [(bottom, tp)]
            else (if bottom < e_start (t ! i) then [(bottom, e_start (t ! i))] else []) @
                 GC_push_conditional_with_exclusions t (e_end (t ! i)) tp
      else [])"
  by pat_completeness auto
termination
  by (relation "measure (\<lambda>(t, bottom, tp). unat tp - unat bottom)")
    (auto dest!: next_exclusion_end simp: word_less_nat_alt)

declare GC_push_conditional_with_exclusions.simps [simp del]

text \<open>The static data of GC_push_roots.\<close>

definition push_static_roots :: "exclusion list \<Rightarrow> root_table \<Rightarrow> (addr \<times> addr) list" where
  "push_static_roots ex t =
     concat (map (\<lambda>r. GC_push_conditional_with_exclusions ex (r_start r) (r_end r)) (GC_static_roots t))"

text \<open>The parts of a stack between frames of the collector; a section is its address and the saved pointer.\<close>

fun GC_push_all_stack_sections :: "addr \<Rightarrow> addr \<Rightarrow> (addr \<times> addr) list \<Rightarrow> (addr \<times> addr) list" where
  "GC_push_all_stack_sections lo hi [] = [(lo, hi)]"
| "GC_push_all_stack_sections lo hi ((sect, saved) # sects) = (lo, sect) # GC_push_all_stack_sections saved hi sects"

end
