(* ===== verification/Gc_Roots_Facts.thy ===== *)
theory Gc_Roots_Facts
  imports Gc_Roots "HOL-Library.Multiset"
begin

text \<open>
  Correctness of the root sets: the index finds every root, the size is the sum of the ranges, and what is
  pushed for marking is what was registered without what was excluded.
\<close>

section \<open>Alignment\<close>

lemma and_not_mask_unat: "unat ((p :: addr) AND NOT (mask 3)) = unat p div 8 * 8"
proof -
  have eq: "p AND NOT (mask 3) = push_bit 3 (drop_bit 3 p)" by (rule bit_eqI) (auto simp: bit_simps)
  have "unat p div 8 * 8 \<le> unat p" by simp
  also have "\<dots> < 2 ^ 64" using unsigned_less [of p, where ?'a = nat] by simp
  finally have lt: "unat p div 8 * 8 < 2 ^ 64" .
  have a: "unat (push_bit 3 (drop_bit 3 p)) = take_bit 64 (push_bit 3 (unat (drop_bit 3 p)))"
    by (simp only: unsigned_push_bit_eq) simp
  have b: "unat (drop_bit 3 p) = unat p div 8" by (simp only: unat_drop_bit_eq) (simp add: drop_bit_eq_div)
  have "take_bit 64 (push_bit 3 (unat p div 8)) = unat p div 8 * 8"
    using take_bit_nat_eq_self [OF lt] by (simp add: push_bit_eq_mult)
  then show ?thesis unfolding eq a b .
qed

definition aligned :: "addr \<Rightarrow> bool" where
  "aligned p \<longleftrightarrow> 8 dvd unat p"

lemma align_down_unat: "unat (PTR_ALIGN_DOWN p ALIGNMENT) = unat p div 8 * 8"
proof -
  have "(ALIGNMENT - 1 :: addr) = mask 3" by (simp add: mask_eq_exp_minus_1)
  then show ?thesis unfolding PTR_ALIGN_DOWN_def by (simp only: and_not_mask_unat)
qed

lemma align_up_unat: "unat (PTR_ALIGN_UP p ALIGNMENT) = unat (p + 7) div 8 * 8"
proof -
  have "(ALIGNMENT - 1 :: addr) = mask 3" "p + ALIGNMENT - 1 = p + 7" by (simp_all add: mask_eq_exp_minus_1)
  then show ?thesis unfolding PTR_ALIGN_UP_def by (simp only: and_not_mask_unat)
qed

lemma align_down: "aligned (PTR_ALIGN_DOWN p ALIGNMENT)" "PTR_ALIGN_DOWN p ALIGNMENT \<le> p"
  by (simp_all add: aligned_def align_down_unat word_le_nat_alt)

lemma align_up: "aligned (PTR_ALIGN_UP p ALIGNMENT)" "p \<le> - 8 \<Longrightarrow> p \<le> PTR_ALIGN_UP p ALIGNMENT"
proof -
  show "aligned (PTR_ALIGN_UP p ALIGNMENT)" by (simp add: aligned_def align_up_unat)
  assume "p \<le> - 8"
  moreover have "unat (- 8 :: addr) = 2 ^ 64 - 8" by simp
  ultimately have "unat p \<le> 2 ^ 64 - 8" by (simp add: word_le_nat_alt)
  then have "unat (p + 7) = unat p + 7" by (simp add: unat_word_ariths)
  then show "p \<le> PTR_ALIGN_UP p ALIGNMENT" by (simp add: word_le_nat_alt align_up_unat)
qed

section \<open>Chains\<close>

fun chain :: "root_set list \<Rightarrow> nat option \<Rightarrow> nat list \<Rightarrow> bool" where
  "chain rs p [] \<longleftrightarrow> p = None"
| "chain rs p (i # is) \<longleftrightarrow> p = Some i \<and> i < length rs \<and> chain rs (r_next (rs ! i)) is"

lemma chain_update: "k \<notin> set is \<or> r_next r = r_next (rs ! k) \<Longrightarrow> chain (rs[k := r]) p is \<longleftrightarrow> chain rs p is"
proof (induction "is" arbitrary: p)
  case (Cons i "is")
  have eq: "r_next (rs[k := r] ! i) = r_next (rs ! i)" if "i < length rs"
    using Cons.prems that by (cases "i = k") auto
  have "chain (rs[k := r]) q is \<longleftrightarrow> chain rs q is" for q using Cons.IH [of q] Cons.prems by auto
  then show ?case using eq by (simp only: chain.simps length_list_update) metis
qed simp

lemma chain_append: "chain rs p is \<Longrightarrow> chain (rs @ ss) p is"
  by (induction "is" arbitrary: p) (auto simp: nth_append)

lemma find_root_chain:
  "chain rs p is \<Longrightarrow> length is \<le> n \<Longrightarrow> find_root n rs b p = Inr (find (\<lambda>i. r_start (rs ! i) = b) is)"
proof (induction "is" arbitrary: p n)
  case (Cons i "is")
  then show ?case by (cases n) auto
qed simp

text \<open>The index holds the first \<open>k\<close> entries.\<close>

definition indexed :: "nat \<Rightarrow> root_set list \<Rightarrow> nat option list \<Rightarrow> bool" where
  "indexed k rs ix \<longleftrightarrow> length ix = RT_SIZE \<and>
     (\<forall>h < RT_SIZE. \<exists>is. chain rs (ix ! h) is \<and> distinct is \<and> set is = {i. i < k \<and> rt_hash (r_start (rs ! i)) = h})"

lemma rt_hash_less [simp]: "rt_hash a < RT_SIZE"
proof -
  have "x AND 63 \<le> (63 :: addr)" for x by (rule word_and_le1)
  then have "unat (x AND 63 :: addr) \<le> unat (63 :: addr)" for x by (simp only: word_le_nat_alt [symmetric])
  then show ?thesis by (simp add: rt_hash_def Let_def le_less_trans [of _ 63 64])
qed

lemma indexed_none: "indexed 0 rs (replicate RT_SIZE None)"
  unfolding indexed_def by (auto intro!: exI [of _ "[]"])

lemma indexed_step:
  assumes ix: "indexed k rs ix" and k: "k < length rs"
  shows "indexed (Suc k) (rs[k := (rs ! k)\<lparr>r_next := ix ! rt_hash (r_start (rs ! k))\<rparr>]) (ix[rt_hash (r_start (rs ! k)) := Some k])"
    (is "indexed _ ?rs ?ix")
proof -
  let ?h = "rt_hash (r_start (rs ! k))"
  have start: "r_start (?rs ! i) = r_start (rs ! i)" for i using k by (cases "i = k") auto
  have "\<exists>is. chain ?rs (?ix ! h) is \<and> distinct is \<and> set is = {i. i < Suc k \<and> rt_hash (r_start (rs ! i)) = h}" if h: "h < RT_SIZE" for h
  proof -
    obtain "is" where "is": "chain rs (ix ! h) is" "distinct is" "set is = {i. i < k \<and> rt_hash (r_start (rs ! i)) = h}"
      using ix h unfolding indexed_def by blast
    then have c: "chain ?rs (ix ! h) is" by (subst chain_update) auto
    show ?thesis
    proof (cases "h = ?h")
      case True
      have "chain ?rs (?ix ! h) (k # is)" using c True k h ix by (simp add: indexed_def)
      moreover have "distinct (k # is)" "set (k # is) = {i. i < Suc k \<and> rt_hash (r_start (rs ! i)) = h}"
        using "is"(2,3) by (auto simp: True less_Suc_eq)
      ultimately show ?thesis by blast
    next
      case False
      then have "{i. i < Suc k \<and> rt_hash (r_start (rs ! i)) = h} = set is" using "is"(3) by (auto simp: less_Suc_eq)
      moreover have "?ix ! h = ix ! h" using False by simp
      ultimately show ?thesis using c "is"(2) by metis
    qed
  qed
  then show ?thesis using ix unfolding indexed_def start by simp
qed

text \<open>An update of an entry that keeps its start and its link, and a new entry behind.\<close>

lemma indexed_update:
  assumes "indexed k rs ix" "r_next r = r_next (rs ! i)" "r_start r = r_start (rs ! i)"
  shows "indexed k (rs[i := r]) ix"
proof -
  have "r_start (rs[i := r] ! j) = r_start (rs ! j)" for j 
    using assms(3) by (cases "i = j"; cases "i < length rs") (auto simp: list_update_beyond)
  then show ?thesis using assms(1,2) by (simp add: indexed_def chain_update)
qed

lemma indexed_append:
  assumes "indexed (length rs) rs ix"
  shows "indexed (length rs) (rs @ [r]) ix"
  unfolding indexed_def
proof (intro conjI allI impI)
  show "length ix = RT_SIZE" using assms by (simp add: indexed_def)
  fix h assume "h < RT_SIZE"
  then obtain "is" where "is": "chain rs (ix ! h) is" "distinct is" "set is = {i. i < length rs \<and> rt_hash (r_start (rs ! i)) = h}"
    using assms unfolding indexed_def by blast
  have "{i. i < length rs \<and> rt_hash (r_start ((rs @ [r]) ! i)) = h} = set is" using "is"(3) by (auto simp: nth_append)
  then show "\<exists>is. chain (rs @ [r]) (ix ! h) is \<and> distinct is \<and> set is = {i. i < length rs \<and> rt_hash (r_start ((rs @ [r]) ! i)) = h}"
    using chain_append [OF "is"(1), of "[r]"] "is"(2) by blast
qed

lemma roots_present_rep:
  assumes "indexed (n_root_sets t) (GC_static_roots t) (GC_root_index t)"
  obtains (absent) "GC_roots_present b t = Inr None" "\<And>r. r \<in> set (GC_static_roots t) \<Longrightarrow> r_start r \<noteq> b"
    | (present) i where "GC_roots_present b t = Inr (Some i)" "i < n_root_sets t" "r_start (GC_static_roots t ! i) = b"
proof -
  let ?rs = "GC_static_roots t"
  obtain "is" where "is": "chain ?rs (GC_root_index t ! rt_hash b) is" "distinct is"
      "set is = {i. i < length ?rs \<and> rt_hash (r_start (?rs ! i)) = rt_hash b}"
    using assms rt_hash_less unfolding indexed_def by blast
  have "set is \<subseteq> {0..<length ?rs}" unfolding "is"(3) by auto
  then have "length is \<le> length ?rs" using "is"(2) by (metis card_atLeastLessThan card_mono diff_zero distinct_card finite_atLeastLessThan)
  from find_root_chain [OF "is"(1) this, of b] have p: "GC_roots_present b t = Inr (find (\<lambda>i. r_start (?rs ! i) = b) is)"
    by (simp add: GC_roots_present_def)
  show thesis
  proof (cases "find (\<lambda>i. r_start (?rs ! i) = b) is")
    case None
    then have no: "\<forall>i \<in> set is. r_start (?rs ! i) \<noteq> b" by (auto simp: find_None_iff)
    have "r_start r \<noteq> b" if "r \<in> set ?rs" for r
    proof
      assume r: "r_start r = b"
      obtain i where i: "i < length ?rs" "?rs ! i = r" using \<open>r \<in> set ?rs\<close> by (metis in_set_conv_nth)
      then have "i \<in> set is" unfolding "is"(3) using r by simp
      then show False using no i(2) r by blast
    qed
    then show thesis using absent p None by simp
  next
    case (Some i)
    then have "i \<in> set is" "r_start (?rs ! i) = b" by (auto simp: find_Some_iff)
    then have "i < length ?rs" unfolding "is"(3) by simp
    then show thesis using present p Some \<open>r_start (?rs ! i) = b\<close> by simp
  qed
qed

section \<open>The table as a multiset of ranges\<close>

definition root_view :: "root_set \<Rightarrow> addr \<times> addr \<times> bool" where
  "root_view r = (r_start r, r_end r, r_tmp r)"

definition roots_of :: "root_table \<Rightarrow> (addr \<times> addr \<times> bool) multiset" where
  "roots_of t = image_mset root_view (mset (GC_static_roots t))"

definition view_bytes :: "addr \<times> addr \<times> bool \<Rightarrow> 64 word" where
  "view_bytes = (\<lambda>(s, e, _). e - s)"

definition view_ok :: "addr \<times> addr \<times> bool \<Rightarrow> bool" where
  "view_ok = (\<lambda>(s, e, _). s < e \<and> aligned s \<and> aligned e)"

text \<open>The invariant.\<close>

definition root_inv :: "root_table \<Rightarrow> bool" where
  "root_inv t \<longleftrightarrow> indexed (n_root_sets t) (GC_static_roots t) (GC_root_index t) \<and> n_root_sets t \<le> MAX_ROOT_SETS \<and>
     GC_root_size t = sum_mset (image_mset view_bytes (roots_of t)) \<and> (\<forall>v \<in># roots_of t. view_ok v)"

lemma root_size_sum: "GC_compute_root_size t = sum_mset (image_mset view_bytes (roots_of t))"
proof -
  have "foldl (\<lambda>size r. size + root_bytes r) a rs = a + sum_mset (image_mset (view_bytes \<circ> root_view) (mset rs))" for a rs
    by (induction rs arbitrary: a) (simp_all add: root_bytes_def view_bytes_def root_view_def add.assoc)
  from this [of 0 "GC_static_roots t"] show ?thesis by (simp add: GC_compute_root_size_def roots_of_def multiset.map_comp)
qed

lemma roots_start_inv: "root_inv roots_start"
  using indexed_none by (simp add: root_inv_def roots_start_def roots_of_def)

lemma mset_set_root:
  assumes "i < n_root_sets t"
  shows "roots_of (set_root i r t) = add_mset (root_view r) (roots_of t - {#root_view (GC_static_roots t ! i)#})"
  using assms by (simp add: roots_of_def set_root_def mset_update image_mset_Diff)

lemma view_in: "i < n_root_sets t \<Longrightarrow> root_view (GC_static_roots t ! i) \<in># roots_of t"
  by (simp add: roots_of_def)

text \<open>An entry is changed in place.\<close>

lemma set_root_inv:
  assumes t: "root_inv t" and i: "i < n_root_sets t" and r: "r_next r = r_next (GC_static_roots t ! i)" "r_start r = r_start (GC_static_roots t ! i)"
    and ok: "view_ok (root_view r)" and sz: "sz = GC_root_size t + (r_end r - r_end (GC_static_roots t ! i))"
  shows "root_inv ((set_root i r t)\<lparr>GC_root_size := sz\<rparr>)"
proof -
  obtain M where M: "roots_of t = add_mset (root_view (GC_static_roots t ! i)) M" using view_in [OF i] by (metis insert_DiffM)
  have v: "roots_of (set_root i r t) = add_mset (root_view r) M" using mset_set_root [OF i, of r] M by simp
  have s: "roots_of ((set_root i r t)\<lparr>GC_root_size := sz\<rparr>) = roots_of (set_root i r t)" by (simp add: roots_of_def)
  have "indexed (n_root_sets t) ((GC_static_roots t)[i := r]) (GC_root_index t)"
    using t r by (intro indexed_update) (auto simp: root_inv_def)
  then show ?thesis using t ok v M sz r(2) unfolding root_inv_def s
    by (simp add: set_root_def) (simp add: view_bytes_def root_view_def)
qed

lemma add_index_view:
  assumes "i < n_root_sets t"
  shows "roots_of (add_roots_to_index i t) = roots_of t" "n_root_sets (add_roots_to_index i t) = n_root_sets t"
    "GC_root_size (add_roots_to_index i t) = GC_root_size t"
proof -
  have "root_view ((GC_static_roots t ! i)\<lparr>r_next := x\<rparr>) = root_view (GC_static_roots t ! i)" for x by (simp add: root_view_def)
  then show "roots_of (add_roots_to_index i t) = roots_of t"
    using mset_set_root [OF assms] view_in [OF assms] by (simp add: add_roots_to_index_def Let_def roots_of_def set_root_def)
qed (simp_all add: add_roots_to_index_def Let_def set_root_def)

lemma new_root_rep:
  assumes t: "root_inv t" and ok: "view_ok (b, e, tmp)"
  shows "(n_root_sets t = MAX_ROOT_SETS \<and> new_root b e tmp t = Inl Fatal_Exit) \<or>
    (\<exists>t'. new_root b e tmp t = Inr t' \<and> root_inv t' \<and> roots_of t' = add_mset (b, e, tmp) (roots_of t))"
proof (cases "n_root_sets t = MAX_ROOT_SETS")
  case False
  let ?rs = "GC_static_roots t" and ?r = "\<lparr>r_start = b, r_end = e, r_next = None, r_tmp = tmp\<rparr>"
  let ?t = "t\<lparr>GC_static_roots := ?rs @ [?r]\<rparr>"
  let ?u = "add_roots_to_index (length ?rs) ?t"
  have n: "length ?rs < n_root_sets ?t" by simp
  have v: "roots_of ?t = add_mset (b, e, tmp) (roots_of t)" by (simp add: roots_of_def root_view_def)
  have "indexed (length ?rs) (?rs @ [?r]) (GC_root_index t)" using t by (intro indexed_append) (simp add: root_inv_def)
  from indexed_step [OF this] have "indexed (n_root_sets ?u) (GC_static_roots ?u) (GC_root_index ?u)"
    by (simp add: add_roots_to_index_def Let_def set_root_def)
  then have "root_inv (?u\<lparr>GC_root_size := GC_root_size ?u + (e - b)\<rparr>)"
    using t ok False v add_index_view [OF n] unfolding root_inv_def
    by (simp add: roots_of_def) (simp add: view_bytes_def)
  moreover have "roots_of (?u\<lparr>GC_root_size := GC_root_size ?u + (e - b)\<rparr>) = add_mset (b, e, tmp) (roots_of t)"
    using v add_index_view(1) [OF n] by (simp add: roots_of_def)
  ultimately show ?thesis using False by (auto simp: new_root_def Let_def)
qed (simp add: new_root_def)

text \<open>What GC_add_roots_inner does: nothing, an entry that changes, or a new one.\<close>

lemma add_roots_rep:
  fixes b e :: addr and tmp :: bool
  assumes t: "root_inv t"
  defines "s \<equiv> PTR_ALIGN_UP b ALIGNMENT" and "f \<equiv> PTR_ALIGN_DOWN e ALIGNMENT"
  obtains (full) "GC_add_roots_inner b e tmp t = Inl Fatal_Exit" "n_root_sets t = MAX_ROOT_SETS"
    | (empty) "GC_add_roots_inner b e tmp t = Inr t" "f \<le> s"
    | (changed) u v w M where "GC_add_roots_inner b e tmp t = Inr u" "root_inv u" "s < f"
        "roots_of t = add_mset (s, v, w) M" "roots_of u = add_mset (s, max v f, w \<and> tmp) M" "v < f \<Longrightarrow> w = tmp \<or> \<not> tmp"
    | (added) u where "GC_add_roots_inner b e tmp t = Inr u" "root_inv u" "s < f"
        "roots_of u = add_mset (s, f, tmp) (roots_of t)"
    | (rest) u v M where "GC_add_roots_inner b e tmp t = Inr u" "root_inv u" "s < f" "v < f"
        "roots_of t = add_mset (s, v, False) M" "roots_of u = add_mset (v, f, tmp) (roots_of t)" "tmp"
proof (cases "f \<le> s")
  case True
  then show thesis using empty by (simp add: GC_add_roots_inner_def s_def f_def)
next
  case False
  then have sf: "s < f" by simp
  have al: "aligned s" "aligned f" by (simp_all add: s_def f_def align_up align_down)
  have "indexed (n_root_sets t) (GC_static_roots t) (GC_root_index t)" using t by (simp add: root_inv_def)
  then show thesis
  proof (cases rule: roots_present_rep [where b = s])
    case absent
    then have eq: "GC_add_roots_inner b e tmp t = new_root s f tmp t"
      using False by (simp add: GC_add_roots_inner_def flip: s_def f_def)
    have "view_ok (s, f, tmp)" using sf al by (simp add: view_ok_def)
    from new_root_rep [OF t this] show thesis using eq full added sf by auto
  next
    case (present i)
    define old where "old = GC_static_roots t ! i"
    have os: "r_start old = s" using present(3) by (simp add: old_def)
    obtain M where M: "roots_of t = add_mset (s, r_end old, r_tmp old) M"
      using view_in [OF present(2)] os by (metis insert_DiffM old_def root_view_def)
    then have vo: "view_ok (s, r_end old, r_tmp old)" using t by (simp add: root_inv_def)
    have eq: "GC_add_roots_inner b e tmp t =
        (if f \<le> r_end old then Inr (set_root i (old\<lparr>r_tmp := r_tmp old \<and> tmp\<rparr>) t)
         else if r_tmp old = tmp \<or> \<not> tmp then
           Inr ((set_root i (old\<lparr>r_end := f, r_tmp := tmp\<rparr>) t)\<lparr>GC_root_size := GC_root_size t + (f - r_end old)\<rparr>)
         else new_root (r_end old) f tmp t)"
      using False present(1) by (simp add: GC_add_roots_inner_def Let_def old_def flip: s_def f_def)
    have view: "roots_of (set_root i r t) = add_mset (root_view r) M" for r
      using mset_set_root [OF present(2), of r] M os by (simp add: old_def root_view_def)
    consider "f \<le> r_end old" | "r_end old < f" "r_tmp old = tmp \<or> \<not> tmp" | "r_end old < f" "\<not> r_tmp old" "tmp" by fastforce
    then show thesis
    proof cases
      case 1
      let ?r = "old\<lparr>r_tmp := r_tmp old \<and> tmp\<rparr>"
      have "root_inv ((set_root i ?r t)\<lparr>GC_root_size := GC_root_size t\<rparr>)"
        using vo os by (intro set_root_inv [OF t present(2)]) (simp_all add: old_def root_view_def view_ok_def)
      then have "root_inv (set_root i ?r t)" by (simp add: set_root_def)
      moreover have "roots_of (set_root i ?r t) = add_mset (s, max (r_end old) f, r_tmp old \<and> tmp) M"
        using view [of ?r] os 1 by (simp add: root_view_def max_def)
      ultimately show thesis using changed eq 1 sf M by (metis leD)
    next
      case 2
      let ?r = "old\<lparr>r_end := f, r_tmp := tmp\<rparr>"
      let ?u = "(set_root i ?r t)\<lparr>GC_root_size := GC_root_size t + (f - r_end old)\<rparr>"
      have "root_inv ?u"
        using vo os sf al by (intro set_root_inv [OF t present(2)]) (simp_all add: old_def root_view_def view_ok_def)
      moreover have "roots_of ?u = add_mset (s, max (r_end old) f, r_tmp old \<and> tmp) M"
        using view [of ?r] os 2 by (auto simp: root_view_def max_def roots_of_def)
      ultimately show thesis using changed [of ?u "r_end old" "r_tmp old" M] eq 2 sf M by auto
    next
      case 3
      have "view_ok (r_end old, f, tmp)" using vo al 3 by (simp add: view_ok_def)
      moreover have "GC_add_roots_inner b e tmp t = new_root (r_end old) f tmp t" using eq 3 by (auto simp: not_le)
      moreover have "roots_of t = add_mset (s, r_end old, False) M" using M 3 by simp
      ultimately show thesis using new_root_rep [OF t] full rest [of _ "r_end old" M] 3 sf by metis
    qed
  qed
qed

text \<open>Removing an entry, and the loop that removes those with a property.\<close>

lemma mset_butlast_update: "i < length xs \<Longrightarrow> mset (butlast (xs[i := last xs])) = mset xs - {#xs ! i#}"
proof (cases xs rule: rev_cases)
  case (snoc ys y)
  assume i: "i < length xs"
  show ?thesis
  proof (cases "i = length ys")
    case False
    then have lt: "i < length ys" using i snoc by simp
    then have "butlast (xs[i := last xs]) = ys[i := y]" using snoc by (simp add: list_update_append)
    then show ?thesis using snoc lt by (simp add: mset_update nth_append)
  qed (simp add: snoc)
qed simp

lemma remove_at_view:
  assumes "i < n_root_sets t"
  shows "roots_of (GC_remove_root_at_pos i t) = roots_of t - {#root_view (GC_static_roots t ! i)#}"
    "n_root_sets (GC_remove_root_at_pos i t) < n_root_sets t"
    "GC_root_size (GC_remove_root_at_pos i t) = GC_root_size t - view_bytes (root_view (GC_static_roots t ! i))"
    "j < i \<Longrightarrow> root_view (GC_static_roots (GC_remove_root_at_pos i t) ! j) = root_view (GC_static_roots t ! j)"
proof -
  let ?rs = "GC_static_roots t" and ?l = "last (GC_static_roots t)"
  let ?r = "(?rs ! i)\<lparr>r_start := r_start ?l, r_end := r_end ?l, r_tmp := r_tmp ?l\<rparr>"
  have v: "map root_view (butlast (?rs[i := ?r])) = butlast ((map root_view ?rs)[i := last (map root_view ?rs)])"
    using assms by (cases ?rs rule: rev_cases) (auto simp: map_butlast map_update root_view_def)
  have "roots_of (GC_remove_root_at_pos i t) = mset (map root_view (butlast (?rs[i := ?r])))"
    by (simp add: roots_of_def GC_remove_root_at_pos_def Let_def)
  also have "\<dots> = mset (map root_view ?rs) - {#map root_view ?rs ! i#}"
    unfolding v using assms by (intro mset_butlast_update) simp
  finally show "roots_of (GC_remove_root_at_pos i t) = roots_of t - {#root_view (?rs ! i)#}"
    using assms by (simp add: roots_of_def)
  show "n_root_sets (GC_remove_root_at_pos i t) < n_root_sets t" using assms by (simp add: GC_remove_root_at_pos_def Let_def)
  show "GC_root_size (GC_remove_root_at_pos i t) = GC_root_size t - view_bytes (root_view (?rs ! i))"
    by (simp add: GC_remove_root_at_pos_def Let_def view_bytes_def root_view_def root_bytes_def)
  show "root_view (GC_static_roots (GC_remove_root_at_pos i t) ! j) = root_view (?rs ! j)" if "j < i"
    using that assms by (simp add: GC_remove_root_at_pos_def Let_def nth_butlast)
qed

definition sized :: "root_table \<Rightarrow> bool" where
  "sized t \<longleftrightarrow> GC_root_size t = sum_mset (image_mset view_bytes (roots_of t))"

lemma remove_where_rep:
  assumes p: "\<And>r. p r \<longleftrightarrow> q (root_view r)"
  shows "sized t \<Longrightarrow> \<forall>j < i. j < n_root_sets t \<longrightarrow> \<not> p (GC_static_roots t ! j) \<Longrightarrow>
    sized (remove_where p i t) \<and> roots_of (remove_where p i t) = filter_mset (\<lambda>v. \<not> q v) (roots_of t) \<and>
    (n_root_sets (remove_where p i t) < n_root_sets t \<or> remove_where p i t = t)"
proof (induction "n_root_sets t - i" arbitrary: i t rule: less_induct)
  case less
  show ?case
  proof (cases "n_root_sets t \<le> i")
    case True
    have "\<not> q v" if "v \<in># roots_of t" for v
      using that less.prems(2) True p by (auto simp: roots_of_def in_set_conv_nth)
    then have "filter_mset (\<lambda>v. \<not> q v) (roots_of t) = roots_of t" by (simp add: filter_mset_eq_conv)
    then show ?thesis using True less.prems(1) by (simp add: remove_where.simps)
  next
    case False
    then have i: "i < n_root_sets t" by simp
    show ?thesis
    proof (cases "p (GC_static_roots t ! i)")
      case True
      let ?u = "GC_remove_root_at_pos i t"
      note v = remove_at_view [OF i]
      obtain M where M: "roots_of t = add_mset (root_view (GC_static_roots t ! i)) M" using view_in [OF i] by (metis insert_DiffM)
      then have u: "roots_of ?u = M" using v(1) by simp
      have "sized ?u" using less.prems(1) M u v(3) by (simp add: sized_def)
      moreover have "\<not> p (GC_static_roots ?u ! j)" if "j < i" for j
        using less.prems(2) that i v(4) [OF that] p by (metis less_trans)
      moreover have "n_root_sets ?u - i < n_root_sets t - i" using v(2) i by simp
      ultimately have ih: "sized (remove_where p i ?u) \<and> roots_of (remove_where p i ?u) = filter_mset (\<lambda>v. \<not> q v) (roots_of ?u) \<and>
          (n_root_sets (remove_where p i ?u) < n_root_sets ?u \<or> remove_where p i ?u = ?u)"
        using less.hyps [of ?u i] by blast
      have "filter_mset (\<lambda>v. \<not> q v) (roots_of t) = filter_mset (\<lambda>v. \<not> q v) M" using M True p by simp
      moreover have "remove_where p i t = remove_where p i ?u" using i True by (simp add: remove_where.simps [of p i t])
      ultimately show ?thesis using ih u v(2) by auto
    next
      case np: False
      have "remove_where p i t = remove_where p (Suc i) t" using i np by (simp add: remove_where.simps [of p i t])
      moreover have "n_root_sets t - Suc i < n_root_sets t - i" using i by simp
      moreover have "\<forall>j < Suc i. j < n_root_sets t \<longrightarrow> \<not> p (GC_static_roots t ! j)" using less.prems(2) np by (auto simp: less_Suc_eq)
      ultimately show ?thesis using less.hyps [of t "Suc i"] less.prems(1) by simp
    qed
  qed
qed

lemma index_from_rep:
  "indexed i (GC_static_roots t) (GC_root_index t) \<Longrightarrow> i + n = n_root_sets t \<Longrightarrow>
    indexed (i + n) (GC_static_roots (index_from i n t)) (GC_root_index (index_from i n t)) \<and>
    roots_of (index_from i n t) = roots_of t \<and> n_root_sets (index_from i n t) = n_root_sets t \<and>
    GC_root_size (index_from i n t) = GC_root_size t"
proof (induction n arbitrary: i t)
  case (Suc n)
  let ?t = "add_roots_to_index i t"
  have i: "i < n_root_sets t" using Suc.prems(2) by simp
  have "indexed (Suc i) (GC_static_roots ?t) (GC_root_index ?t)"
    using indexed_step [OF Suc.prems(1) i] by (simp add: add_roots_to_index_def Let_def set_root_def)
  moreover have "Suc i + n = n_root_sets ?t" using Suc.prems(2) add_index_view(2) [OF i] by simp
  ultimately show ?case using Suc.IH [of "Suc i" ?t] add_index_view [OF i] by simp
qed simp

lemma rebuild_rep:
  "indexed (n_root_sets t) (GC_static_roots (GC_rebuild_root_index t)) (GC_root_index (GC_rebuild_root_index t)) \<and>
   roots_of (GC_rebuild_root_index t) = roots_of t \<and> n_root_sets (GC_rebuild_root_index t) = n_root_sets t \<and>
   GC_root_size (GC_rebuild_root_index t) = GC_root_size t"
proof -
  let ?t = "t\<lparr>GC_root_index := replicate RT_SIZE None\<rparr>"
  have "indexed 0 (GC_static_roots ?t) (GC_root_index ?t)" using indexed_none by simp
  from index_from_rep [OF this, of "n_root_sets t"] show ?thesis by (simp add: GC_rebuild_root_index_def roots_of_def)
qed

lemma remove_and_rebuild_rep:
  assumes t: "root_inv t" and p: "\<And>r. p r \<longleftrightarrow> q (root_view r)"
  shows "root_inv (remove_and_rebuild p t) \<and> roots_of (remove_and_rebuild p t) = filter_mset (\<lambda>v. \<not> q v) (roots_of t)"
proof -
  let ?u = "remove_where p 0 t"
  have "sized t" using t by (simp add: root_inv_def sized_def)
  from remove_where_rep [where p = p and q = q and i = 0, OF p this] have u: "sized ?u" "roots_of ?u = filter_mset (\<lambda>v. \<not> q v) (roots_of t)"
    "n_root_sets ?u < n_root_sets t \<or> ?u = t" by auto
  have small: "n_root_sets t \<le> MAX_ROOT_SETS" using t by (simp add: root_inv_def)
  show ?thesis
  proof (cases "n_root_sets ?u < n_root_sets t")
    case True
    then have "root_inv (GC_rebuild_root_index ?u)"
      using rebuild_rep [of ?u] u small t by (auto simp: root_inv_def sized_def)
    then show ?thesis using True rebuild_rep [of ?u] u(2) by (simp add: remove_and_rebuild_def Let_def)
  next
    case False
    then show ?thesis using u t by (simp add: remove_and_rebuild_def Let_def)
  qed
qed

lemma remove_roots_rep:
  "root_inv t \<Longrightarrow> root_inv (GC_remove_tmp_roots t) \<and> roots_of (GC_remove_tmp_roots t) = filter_mset (\<lambda>(_, _, tmp). \<not> tmp) (roots_of t)"
  "root_inv t \<Longrightarrow> root_inv (GC_remove_roots_inner b e t) \<and>
     roots_of (GC_remove_roots_inner b e t) = filter_mset (\<lambda>(s, f, _). \<not> (b \<le> s \<and> f \<le> e)) (roots_of t)"
  using remove_and_rebuild_rep [of t r_tmp "\<lambda>(_, _, tmp). tmp"]
    remove_and_rebuild_rep [of t "\<lambda>r. b \<le> r_start r \<and> r_end r \<le> e" "\<lambda>(s, f, _). b \<le> s \<and> f \<le> e"]
  by (simp_all add: GC_remove_tmp_roots_def GC_remove_roots_inner_def root_view_def case_prod_unfold)

section \<open>Sequences of operations\<close>

datatype root_op =
    Add_Roots addr addr
  | Add_Tmp_Roots addr addr
  | Remove_Roots addr addr
  | Remove_Tmp_Roots
  | Clear_Roots

fun root_step :: "root_op \<Rightarrow> root_table \<Rightarrow> root_table res" where
  "root_step (Add_Roots b e) t = GC_add_roots b e t"
| "root_step (Add_Tmp_Roots b e) t = GC_add_roots_inner b e True t"
| "root_step (Remove_Roots b e) t = Inr (GC_remove_roots b e t)"
| "root_step Remove_Tmp_Roots t = Inr (GC_remove_tmp_roots t)"
| "root_step Clear_Roots t = Inr (GC_clear_roots t)"

fun root_steps :: "root_op list \<Rightarrow> root_table \<Rightarrow> root_table res" where
  "root_steps [] t = Inr t"
| "root_steps (op # ops) t = rbind (root_step op t) (root_steps ops)"

definition cover :: "root_table \<Rightarrow> addr set" where
  "cover t = (\<Union>(s, e, _) \<in> set_mset (roots_of t). {s..<e})"

definition permanent :: "root_table \<Rightarrow> addr set" where
  "permanent t = (\<Union>(s, e, _) \<in> set_mset (filter_mset (\<lambda>(_, _, tmp). \<not> tmp) (roots_of t)). {s..<e})"

lemma permanent_cover: "permanent t \<subseteq> cover t"
  by (auto simp: permanent_def cover_def)

lemma clear_roots_inv: "root_inv (GC_clear_roots t)"
  using indexed_none by (simp add: root_inv_def GC_clear_roots_def roots_of_def)

lemma add_roots_keeps:
  assumes "root_inv t"
  shows "(GC_add_roots_inner b e tmp t = Inl Fatal_Exit \<and> n_root_sets t = MAX_ROOT_SETS) \<or>
    (\<exists>u. GC_add_roots_inner b e tmp t = Inr u \<and> root_inv u)"
  by (cases rule: add_roots_rep [OF assms, where b = b and e = e and tmp = tmp]) (use assms in auto)

lemma root_step_inv:
  assumes t: "root_inv t" and u: "root_step op t = Inr u"
  shows "root_inv u"
proof -
  have add: "GC_add_roots_inner b e tmp t = Inr u \<Longrightarrow> root_inv u" for b e tmp
    using add_roots_keeps [OF t, of b e tmp] by auto
  show ?thesis
  proof (cases op)
    case (Remove_Roots b e)
    then show ?thesis using t u remove_roots_rep(2) [OF t] by (auto simp: GC_remove_roots_def split: if_splits)
  qed (use t u add remove_roots_rep(1) [OF t] clear_roots_inv in \<open>auto simp: GC_add_roots_def\<close>)
qed

lemma root_steps_inv: "root_inv t \<Longrightarrow> root_steps ops t = Inr u \<Longrightarrow> root_inv u"
  by (induction ops arbitrary: t) (auto elim!: rbindE dest: root_step_inv)

section \<open>Covered addresses\<close>

lemma cover_add: "roots_of u = add_mset (s, e, tmp) M \<Longrightarrow> cover u = {s..<e} \<union> (\<Union>(s, e, _) \<in> set_mset M. {s..<e})"
  by (simp add: cover_def)

lemma permanent_add:
  "roots_of u = add_mset (s, e, tmp) M \<Longrightarrow>
    permanent u = (if tmp then {} else {s..<e}) \<union> (\<Union>(s, e, _) \<in> set_mset (filter_mset (\<lambda>(_, _, tmp). \<not> tmp) M). {s..<e})"
  by (simp add: permanent_def)

lemma add_roots_cover:
  assumes t: "root_inv t" and u: "GC_add_roots_inner b e tmp t = Inr u"
  defines "r \<equiv> {PTR_ALIGN_UP b ALIGNMENT..<PTR_ALIGN_DOWN e ALIGNMENT}"
  shows "cover u = cover t \<union> r" "permanent t \<subseteq> permanent u" "\<not> tmp \<Longrightarrow> r \<subseteq> permanent u"
proof -
  have "cover u = cover t \<union> r \<and> permanent t \<subseteq> permanent u \<and> (\<not> tmp \<longrightarrow> r \<subseteq> permanent u)"
    using t
  proof (cases rule: add_roots_rep [where b = b and e = e and tmp = tmp])
    case full
    then show ?thesis using u by simp
  next
    case empty
    then show ?thesis using u by (simp add: r_def)
  next
    case (changed u' v w M)
    let ?s = "PTR_ALIGN_UP b ALIGNMENT" and ?f = "PTR_ALIGN_DOWN e ALIGNMENT"
    have v: "roots_of u = add_mset (?s, max v ?f, w \<and> tmp) M" using changed(1,5) u by simp
    have ivl: "{?s..<max v ?f} = {?s..<v} \<union> {?s..<?f}" by (auto simp: less_max_iff_disj)
    have "v < ?f \<Longrightarrow> w = tmp \<or> \<not> tmp" by (rule changed(6))
    then show ?thesis
      unfolding cover_add [OF changed(4)] cover_add [OF v] permanent_add [OF changed(4)] permanent_add [OF v] r_def ivl
      by auto
  next
    case (added u')
    then show ?thesis using u cover_add [OF added(4)] permanent_add [OF added(4)]
      by (auto simp: r_def cover_def permanent_def)
  next
    case (rest u' v M)
    then have "u' = u" using u by simp
    with rest have ct: "cover u = {v..<PTR_ALIGN_DOWN e ALIGNMENT} \<union> cover t" "permanent u = permanent t"
      using cover_add [OF rest(6)] permanent_add [OF rest(6)] by (simp_all add: cover_def permanent_def)
    have "{PTR_ALIGN_UP b ALIGNMENT..<v} \<subseteq> cover t" using cover_add [OF rest(5)] by simp
    moreover have "PTR_ALIGN_UP b ALIGNMENT < v" using t rest(5) by (auto simp: root_inv_def view_ok_def)
    then have "r = {PTR_ALIGN_UP b ALIGNMENT..<v} \<union> {v..<PTR_ALIGN_DOWN e ALIGNMENT}"
      using rest(4) by (simp add: r_def ivl_disj_un)
    ultimately show ?thesis using ct rest(7) by auto
  qed
  then show "cover u = cover t \<union> r" "permanent t \<subseteq> permanent u" "\<not> tmp \<Longrightarrow> r \<subseteq> permanent u" by simp_all
qed

fun keeps :: "root_op \<Rightarrow> bool" where
  "keeps (Remove_Roots b e) = False"
| "keeps Clear_Roots = False"
| "keeps op = True"

lemma keeps_permanent: "root_inv t \<Longrightarrow> list_all keeps ops \<Longrightarrow> root_steps ops t = Inr u \<Longrightarrow> permanent t \<subseteq> permanent u"
proof (induction ops arbitrary: t)
  case (Cons op ops)
  then obtain v where v: "root_step op t = Inr v" "root_steps ops v = Inr u" by (auto elim: rbindE)
  have "permanent t \<subseteq> permanent v"
  proof (cases op)
    case Remove_Tmp_Roots
    then have "roots_of v = filter_mset (\<lambda>(_, _, tmp). \<not> tmp) (roots_of t)" using v(1) remove_roots_rep(1) [OF Cons.prems(1)] by auto
    then show ?thesis by (auto simp: permanent_def)
  qed (use v(1) Cons.prems add_roots_cover(2) in \<open>auto simp: GC_add_roots_def\<close>)
  moreover have "permanent v \<subseteq> permanent u" using Cons v root_step_inv by auto
  ultimately show ?case by blast
qed simp

section \<open>Exclusions\<close>

definition excl_ok :: "exclusion list \<Rightarrow> bool" where
  "excl_ok t \<longleftrightarrow> sorted_wrt (\<lambda>x y. e_end x \<le> e_start y) t \<and> (\<forall>x \<in> set t. e_start x < e_end x) \<and> length t \<le> MAX_EXCLUSIONS"

definition excluded :: "exclusion list \<Rightarrow> addr set" where
  "excluded t = (\<Union>x \<in> set t. {e_start x..<e_end x})"

lemma excl_order:
  assumes "excl_ok t" "i < j" "j < length t"
  shows "e_end (t ! i) \<le> e_start (t ! j)" "e_end (t ! i) < e_end (t ! j)"
proof -
  show le: "e_end (t ! i) \<le> e_start (t ! j)" using assms by (simp add: excl_ok_def sorted_wrt_iff_nth_less)
  have "e_start (t ! j) < e_end (t ! j)" using assms by (simp add: excl_ok_def)
  with le show "e_end (t ! i) < e_end (t ! j)" by simp
qed

lemma excl_search_rep:
  "excl_ok t \<Longrightarrow> low \<le> high \<Longrightarrow> high < length t \<Longrightarrow> \<forall>i < low. e_end (t ! i) \<le> a \<Longrightarrow> high = length t - 1 \<or> a < e_end (t ! high) \<Longrightarrow>
    (let k = excl_search t a low high in k < length t \<and> (\<forall>i < k. e_end (t ! i) \<le> a) \<and> (k = length t - 1 \<or> a < e_end (t ! k)))"
proof (induction t a low high rule: excl_search.induct)
  case (1 t a low high)
  show ?case
  proof (cases "low < high")
    case True
    let ?mid = "(low + high) div 2"
    have mid: "low \<le> ?mid" "?mid < high" using True by auto
    show ?thesis
    proof (cases "e_end (t ! ?mid) \<le> a")
      case le: True
      have "\<forall>i < ?mid + 1. e_end (t ! i) \<le> a"
      proof (intro allI impI)
        fix i assume "i < ?mid + 1"
        then show "e_end (t ! i) \<le> a"
          using le excl_order(2) [OF "1.prems"(1), of i ?mid] "1.prems"(3) mid by (cases "i = ?mid") auto
      qed
      then show ?thesis using "1.IH"(1) [OF True refl le] "1.prems" mid le True by (simp add: excl_search.simps [of t a low high] Let_def)
    next
      case False
      then have "a < e_end (t ! ?mid)" by (simp add: not_le)
      then show ?thesis using "1.IH"(2) [OF True refl False] "1.prems" mid True False
        by (simp add: excl_search.simps [of t a low high] Let_def)
    qed
  next
    case False
    then have "excl_search t a low high = low" by (simp add: excl_search.simps [of t a low high])
    then show ?thesis using "1.prems" False by (simp add: Let_def)
  qed
qed

text \<open>The exclusion found is the first that ends behind the address.\<close>

lemma next_exclusion_rep:
  assumes ok: "excl_ok t"
  shows "case GC_next_exclusion t a of None \<Rightarrow> \<forall>i < length t. e_end (t ! i) \<le> a
    | Some k \<Rightarrow> k < length t \<and> a < e_end (t ! k) \<and> (\<forall>i < k. e_end (t ! i) \<le> a)"
proof (cases "t = []")
  case False
  let ?k = "excl_search t a 0 (length t - 1)"
  have k: "?k < length t" "\<forall>i < ?k. e_end (t ! i) \<le> a" "?k = length t - 1 \<or> a < e_end (t ! ?k)"
    using excl_search_rep [OF ok, of 0 "length t - 1" a] False by (auto simp: Let_def)
  show ?thesis
  proof (cases "e_end (t ! ?k) \<le> a")
    case True
    then have "?k = length t - 1" using k(3) by auto
    then have "\<forall>i < length t. e_end (t ! i) \<le> a" using k(2) True by (metis Suc_pred' False length_greater_0_conv less_Suc_eq)
    then show ?thesis using False True by (simp add: GC_next_exclusion_def Let_def)
  next
    case gt: False
    then show ?thesis using False k by (simp add: GC_next_exclusion_def Let_def not_le)
  qed
qed (simp add: GC_next_exclusion_def)

lemma sorted_insert:
  assumes "sorted_wrt P (xs @ ys)" "\<forall>x \<in> set xs. P x z" "\<forall>y \<in> set ys. P z y"
  shows "sorted_wrt P (xs @ z # ys)"
  using assms by (auto simp: sorted_wrt_append)

lemma excl_insert:
  assumes ok: "excl_ok t" and n: "length t < MAX_EXCLUSIONS" and sf: "s < f" and k: "k \<le> length t"
    and before: "\<forall>i < k. e_end (t ! i) \<le> s" and behind: "\<forall>i < length t. k \<le> i \<longrightarrow> f \<le> e_start (t ! i)"
  shows "excl_ok (take k t @ [\<lparr>e_start = s, e_end = f\<rparr>] @ drop k t)"
    and "excluded (take k t @ [\<lparr>e_start = s, e_end = f\<rparr>] @ drop k t) = excluded t \<union> {s..<f}"
proof -
  let ?z = "\<lparr>e_start = s, e_end = f\<rparr>"
  have "\<forall>x \<in> set (take k t). e_end x \<le> s" using before by (auto simp: in_set_conv_nth)
  moreover have "\<forall>y \<in> set (drop k t). f \<le> e_start y" using behind by (auto simp: in_set_conv_nth)
  ultimately have "sorted_wrt (\<lambda>x y. e_end x \<le> e_start y) (take k t @ ?z # drop k t)"
    using ok by (intro sorted_insert) (simp_all add: excl_ok_def)
  moreover have set: "set (take k t @ [?z] @ drop k t) = insert ?z (set t)"
    using set_append [of "take k t" "drop k t"] by simp
  moreover have "length (take k t @ [?z] @ drop k t) = length t + 1" using k by simp
  ultimately show "excl_ok (take k t @ [?z] @ drop k t)" using ok n sf unfolding excl_ok_def by auto
  show "excluded (take k t @ [?z] @ drop k t) = excluded t \<union> {s..<f}" unfolding excluded_def set by auto
qed

lemma excl_extend:
  assumes ok: "excl_ok t" and k: "k < length t" and s: "s < e_start (t ! k)" and before: "\<forall>i < k. e_end (t ! i) \<le> s"
  shows "excl_ok (t[k := (t ! k)\<lparr>e_start := s\<rparr>])"
    and "excluded (t[k := (t ! k)\<lparr>e_start := s\<rparr>]) = excluded t \<union> {s..<e_start (t ! k)}"
proof -
  let ?x = "t ! k" and ?y = "(t ! k)\<lparr>e_start := s\<rparr>"
  have t: "t = take k t @ ?x # drop (Suc k) t" using k by (simp add: id_take_nth_drop)
  have u: "t[k := ?y] = take k t @ ?y # drop (Suc k) t" using k by (simp add: upd_conv_take_nth_drop)
  have x: "e_start ?x < e_end ?x" using ok k by (simp add: excl_ok_def)
  have "\<forall>z \<in> set (take k t). e_end z \<le> s" using before by (auto simp: in_set_conv_nth)
  moreover have "sorted_wrt (\<lambda>x y. e_end x \<le> e_start y) (take k t @ ?x # drop (Suc k) t)"
    using ok t by (simp add: excl_ok_def)
  ultimately have "sorted_wrt (\<lambda>x y. e_end x \<le> e_start y) (t[k := ?y])" unfolding u by (auto simp: sorted_wrt_append)
  moreover have "\<forall>z \<in> set (t[k := ?y]). e_start z < e_end z"
    using ok x s set_update_subset_insert [of t k ?y] by (auto simp: excl_ok_def)
  ultimately show "excl_ok (t[k := ?y])" using ok by (simp add: excl_ok_def)
  have "{s..<e_end ?x} = {s..<e_start ?x} \<union> {e_start ?x..<e_end ?x}" using x s by (simp add: ivl_disj_un)
  moreover have "excluded (t[k := ?y]) = {s..<e_end ?x} \<union> (\<Union>x \<in> set (take k t) \<union> set (drop (Suc k) t). {e_start x..<e_end x})"
    unfolding excluded_def u by auto
  moreover have "excluded t = {e_start ?x..<e_end ?x} \<union> (\<Union>x \<in> set (take k t) \<union> set (drop (Suc k) t). {e_start x..<e_end x})"
    unfolding excluded_def by (subst t) auto
  ultimately show "excluded (t[k := ?y]) = excluded t \<union> {s..<e_start ?x}" by auto
qed

text \<open>Excluding a range: it fails for a range that overlaps, or when the table is full.\<close>

lemma exclude_rep:
  assumes ok: "excl_ok t" and sf: "s < f"
  shows "case GC_exclude_static_roots_inner s f t of
      Inr u \<Rightarrow> excl_ok u \<and> excluded u = excluded t \<union> {s..<f} \<and> excluded t \<inter> {s..<f} = {}
    | Inl e \<Rightarrow> e = Fatal_Exit \<and> (excluded t \<inter> {s..<f} \<noteq> {} \<or> length t = MAX_EXCLUSIONS)"
proof -
  have len: "length t \<le> MAX_EXCLUSIONS" using ok by (simp add: excl_ok_def)
  have disj: "excluded t \<inter> {s..<f} = {}"
    if "\<forall>i < length t. e_end (t ! i) \<le> s \<or> f \<le> e_start (t ! i)"
    using that by (fastforce simp: excluded_def in_set_conv_nth)
  show ?thesis
  proof (cases "GC_next_exclusion t s")
    case None
    then have before: "\<forall>i < length t. e_end (t ! i) \<le> s" using next_exclusion_rep [OF ok, of s] by simp
    show ?thesis
    proof (cases "length t < MAX_EXCLUSIONS")
      case True
      then show ?thesis using excl_insert [OF ok True sf, of "length t"] before None disj
        by (simp add: GC_exclude_static_roots_inner_def Let_def)
    next
      case False
      then show ?thesis using None len by (simp add: GC_exclude_static_roots_inner_def Let_def)
    qed
  next
    case (Some k)
    then have k: "k < length t" "s < e_end (t ! k)" "\<forall>i < k. e_end (t ! i) \<le> s"
      using next_exclusion_rep [OF ok, of s] by simp_all
    have se: "e_start (t ! k) < e_end (t ! k)" using ok k(1) by (simp add: excl_ok_def)
    show ?thesis
    proof (cases "e_start (t ! k) < f")
      case True
      then have "max s (e_start (t ! k)) \<in> {e_start (t ! k)..<e_end (t ! k)} \<inter> {s..<f}" using k(2) sf se by auto
      moreover have "{e_start (t ! k)..<e_end (t ! k)} \<subseteq> excluded t"
        using nth_mem [OF k(1)] unfolding excluded_def by blast
      ultimately have "excluded t \<inter> {s..<f} \<noteq> {}" by blast
      then show ?thesis using Some True by (simp add: GC_exclude_static_roots_inner_def Let_def)
    next
      case False
      then have fk: "f \<le> e_start (t ! k)" by simp
      have behind: "\<forall>i < length t. k \<le> i \<longrightarrow> f \<le> e_start (t ! i)"
      proof (intro allI impI)
        fix i assume i: "i < length t" "k \<le> i"
        show "f \<le> e_start (t ! i)"
        proof (cases "k = i")
          case False
          then have "e_end (t ! k) \<le> e_start (t ! i)" using excl_order(1) [OF ok, of k i] i by simp
          then show ?thesis using fk se by simp
        qed (use fk in simp)
      qed
      have d: "excluded t \<inter> {s..<f} = {}" using behind k(3) by (intro disj) (metis not_le)
      show ?thesis
      proof (cases "e_start (t ! k) = f")
        case True
        have "s < e_start (t ! k)" using True sf by simp
        from excl_extend [OF ok k(1) this k(3)] show ?thesis using Some True d
          by (simp add: GC_exclude_static_roots_inner_def Let_def)
      next
        case ne: False
        then show ?thesis
        proof (cases "length t < MAX_EXCLUSIONS")
          case True
          have "k \<le> length t" using k(1) by simp
          from excl_insert [OF ok True sf this k(3) behind] show ?thesis using Some True d fk ne
            by (simp add: GC_exclude_static_roots_inner_def Let_def not_less [symmetric] del: append_Cons)
        next
          case False
          then show ?thesis using Some len fk ne by (simp add: GC_exclude_static_roots_inner_def Let_def not_less [symmetric])
        qed
      qed
    qed
  qed
qed

section \<open>Pushing\<close>

definition pushed :: "(addr \<times> addr) list \<Rightarrow> addr set" where
  "pushed rs = (\<Union>(s, e) \<in> set rs. {s..<e})"

lemma pushed_simps [simp]: "pushed [] = {}" "pushed ((s, e) # rs) = {s..<e} \<union> pushed rs" "pushed (xs @ ys) = pushed xs \<union> pushed ys"
  by (auto simp: pushed_def)

lemma excluded_upto:
  assumes ok: "excl_ok t" and k: "k \<le> length t" "\<forall>i < k. e_end (t ! i) \<le> b" "k < length t \<Longrightarrow> m \<le> e_start (t ! k)"
  shows "excluded t \<inter> {b..<m} = {}"
proof -
  have "x \<notin> {b..<m}" if i: "i < length t" and x: "e_start (t ! i) \<le> x" "x < e_end (t ! i)" for i x
  proof (cases "i < k")
    case True
    then have "x < b" using k(2) x(2) less_le_trans by blast
    then show ?thesis by (simp add: not_le)
  next
    case False
    have "m \<le> e_start (t ! i)"
    proof (cases "i = k")
      case ne: False
      then have k': "k < i" "k < length t" using False i by simp_all
      then have "e_start (t ! k) < e_end (t ! k)" using ok by (simp add: excl_ok_def)
      then show ?thesis using k(3) [OF k'(2)] excl_order(1) [OF ok k'(1) i] by simp
    qed (use k(3) i in simp)
    then have "m \<le> x" using x(1) order_trans by blast
    then show ?thesis by (simp add: not_less)
  qed
  then show ?thesis by (fastforce simp: excluded_def in_set_conv_nth)
qed

lemma push_with_exclusions_rep:
  "excl_ok t \<Longrightarrow> pushed (GC_push_conditional_with_exclusions t bottom tp) = {bottom..<tp} - excluded t"
proof (induction t bottom tp rule: GC_push_conditional_with_exclusions.induct)
  case (1 t bottom tp)
  note ok = "1.prems"
  show ?case
  proof (cases "bottom < tp")
    case lt: True
    show ?thesis
    proof (cases "GC_next_exclusion t bottom")
      case None
      then have "\<forall>i < length t. e_end (t ! i) \<le> bottom" using next_exclusion_rep [OF ok, of bottom] by simp
      then have "excluded t \<inter> {bottom..<tp} = {}" by (intro excluded_upto [OF ok, of "length t"]) auto
      then show ?thesis using lt None by (auto simp: GC_push_conditional_with_exclusions.simps [of t bottom tp])
    next
      case (Some k)
      let ?s = "e_start (t ! k)" and ?e = "e_end (t ! k)"
      have k: "k < length t" "bottom < ?e" "\<forall>i < k. e_end (t ! i) \<le> bottom"
        using next_exclusion_rep [OF ok, of bottom] Some by simp_all
      have s: "excluded t \<inter> {bottom..<m} = {}" if "m \<le> ?s" for m using k that by (intro excluded_upto [OF ok, of k]) auto
      show ?thesis
      proof (cases "tp \<le> ?s")
        case True
        then show ?thesis using s lt Some by (auto simp: GC_push_conditional_with_exclusions.simps [of t bottom tp])
      next
        case False
        have ih: "pushed (GC_push_conditional_with_exclusions t ?e tp) = {?e..<tp} - excluded t"
          using "1.IH" [OF lt Some False] ok .
        have eq: "pushed (GC_push_conditional_with_exclusions t bottom tp) = {bottom..<?s} \<union> ({?e..<tp} - excluded t)"
          using lt Some False ih by (simp add: GC_push_conditional_with_exclusions.simps [of t bottom tp])
        have se: "?s < ?e" "{?s..<?e} \<subseteq> excluded t" using ok nth_mem [OF k(1)] by (auto simp: excl_ok_def excluded_def)
        have "x \<in> {bottom..<?s} \<union> ({?e..<tp} - excluded t) \<longleftrightarrow> x \<in> {bottom..<tp} - excluded t" for x
        proof -
          consider "x < ?s" | "?s \<le> x" "x < ?e" | "?e \<le> x" by force
          then show ?thesis
          proof cases
            case 1
            then have "x \<notin> excluded t" if "bottom \<le> x" using s [of ?s] that by auto
            then show ?thesis using 1 False se(1) by auto
          next
            case 2
            then have "x \<in> excluded t" using se(2) by auto
            then show ?thesis using 2 by auto
          next
            case 3
            then have "bottom \<le> x" "\<not> x < ?s" using k(2) se(1) by auto
            then show ?thesis using 3 by auto
          qed
        qed
        then show ?thesis using eq by blast
      qed
    qed
  qed (auto simp: GC_push_conditional_with_exclusions.simps [of t bottom tp])
qed

lemma pushed_concat: "pushed (concat xss) = (\<Union>xs \<in> set xss. pushed xs)"
  by (induction xss) auto

section \<open>Properties\<close>

text \<open>Sequences of exclusions, as a client registers them.\<close>

fun exclude_all :: "(addr \<times> addr) list \<Rightarrow> exclusion list \<Rightarrow> exclusion list res" where
  "exclude_all [] t = Inr t"
| "exclude_all ((s, f) # rs) t = rbind (GC_exclude_static_roots_inner s f t) (exclude_all rs)"

lemma exclude_all_rep:
  "excl_ok t \<Longrightarrow> \<forall>(s, f) \<in> set rs. s < f \<Longrightarrow> exclude_all rs t = Inr u \<Longrightarrow> excl_ok u \<and> excluded u = excluded t \<union> pushed rs"
proof (induction rs arbitrary: t)
  case (Cons r rs)
  obtain s f where r: "r = (s, f)" by fastforce
  then obtain v where v: "GC_exclude_static_roots_inner s f t = Inr v" "exclude_all rs v = Inr u"
    using Cons.prems(3) by (auto elim: rbindE)
  then show ?case using exclude_rep [OF Cons.prems(1), of s f] Cons.IH [of v] Cons.prems(2) r by auto
qed simp

text \<open>C13: Whatever roots are added, removed or cleared, the table keeps its invariant: every entry is a non-empty range
  with aligned bounds, GC_root_size is the sum of the lengths, and the hash index finds an entry by its start
  address exactly when there is one; its walk always ends.\<close>

theorem root_table_invariant:
  assumes "root_steps ops roots_start = Inr t"
  shows "GC_root_size t = GC_compute_root_size t \<and> n_root_sets t \<le> MAX_ROOT_SETS \<and>
    list_all (\<lambda>r. r_start r < r_end r \<and> aligned (r_start r) \<and> aligned (r_end r)) (GC_static_roots t) \<and>
    (\<exists>p. GC_roots_present b t = Inr p \<and>
      (if b \<in> r_start ` set (GC_static_roots t)
       then \<exists>i < n_root_sets t. p = Some i \<and> r_start (GC_static_roots t ! i) = b else p = None))"
proof -
  have t: "root_inv t" using root_steps_inv [OF roots_start_inv assms] .
  then have "indexed (n_root_sets t) (GC_static_roots t) (GC_root_index t)" by (simp add: root_inv_def)
  then have "\<exists>p. GC_roots_present b t = Inr p \<and>
      (if b \<in> r_start ` set (GC_static_roots t)
       then \<exists>i < n_root_sets t. p = Some i \<and> r_start (GC_static_roots t ! i) = b else p = None)"
    by (cases rule: roots_present_rep [where b = b]) (auto dest: nth_mem)
  then show ?thesis using t
    by (simp add: root_inv_def root_size_sum) (simp add: roots_of_def list_all_iff view_ok_def root_view_def)
qed

theorem root_table_invariant_witness:
  "\<exists>t. root_steps [Add_Roots 0x1003 0x2000, Add_Tmp_Roots 0x3000 0x3010, Add_Roots 0x1008 0x2010, Remove_Tmp_Roots] roots_start = Inr t \<and>
     GC_root_size t = 0x1008 \<and> GC_compute_root_size t = 0x1008"
proof -
  let ?ops = "[Add_Roots 0x1003 0x2000, Add_Tmp_Roots 0x3000 0x3010, Add_Roots 0x1008 0x2010, Remove_Tmp_Roots]"
  have "case root_steps ?ops roots_start of Inl e \<Rightarrow> False | Inr t \<Rightarrow> GC_root_size t = 0x1008" by code_simp
  then obtain t where t: "root_steps ?ops roots_start = Inr t" "GC_root_size t = 0x1008" by (auto split: sum.splits)
  then show ?thesis using root_table_invariant [OF t(1), of 0] by auto
qed

lemma cover_list: "cover t = (\<Union>r \<in> set (GC_static_roots t). {r_start r..<r_end r})"
  by (simp add: cover_def roots_of_def root_view_def)

text \<open>A range that GC_add_roots registered, with its bounds rounded inwards, stays among the roots through any
  later registrations and removals of temporary roots, whatever entries it was merged with or moved to.\<close>

theorem registered_range_stays:
  assumes "root_steps pre roots_start = Inr t" "GC_add_roots b e t = Inr u" "list_all keeps ops" "root_steps ops u = Inr v"
  shows "{PTR_ALIGN_UP b ALIGNMENT..<PTR_ALIGN_DOWN e ALIGNMENT} \<subseteq> (\<Union>r \<in> set (GC_static_roots v). {r_start r..<r_end r})"
proof -
  have t: "root_inv t" using root_steps_inv [OF roots_start_inv assms(1)] .
  have u: "GC_add_roots_inner b e False t = Inr u" using assms(2) by (simp add: GC_add_roots_def)
  then have "root_inv u" using add_roots_keeps [OF t, of b e False] by auto
  then have "permanent u \<subseteq> permanent v" using keeps_permanent assms(3,4) by blast
  then show ?thesis using add_roots_cover(3) [OF t u] permanent_cover [of v] unfolding cover_list by blast
qed

theorem registered_range_stays_witness:
  "\<exists>u v. GC_add_roots 0x1000 0x2000 roots_start = Inr u \<and> root_steps [Add_Tmp_Roots 0x1000 0x3000, Remove_Tmp_Roots] u = Inr v \<and>
     0x1ff8 \<in> (\<Union>r \<in> set (GC_static_roots v). {r_start r..<r_end r})"
proof -
  have "case rbind (GC_add_roots 0x1000 0x2000 roots_start) (root_steps [Add_Tmp_Roots 0x1000 0x3000, Remove_Tmp_Roots]) of
      Inl _ \<Rightarrow> False | Inr _ \<Rightarrow> True" by code_simp
  then obtain u v where uv: "GC_add_roots 0x1000 0x2000 roots_start = Inr u"
      "root_steps [Add_Tmp_Roots 0x1000 0x3000, Remove_Tmp_Roots] u = Inr v"
    by (auto split: sum.splits elim: rbindE)
  have mem: "0x1ff8 \<in> {PTR_ALIGN_UP 0x1000 ALIGNMENT..<PTR_ALIGN_DOWN 0x2000 ALIGNMENT}"
    by (simp add: PTR_ALIGN_UP_def PTR_ALIGN_DOWN_def)
  have start: "root_steps [] roots_start = Inr roots_start" by simp
  have keep: "list_all keeps [Add_Tmp_Roots 0x1000 0x3000, Remove_Tmp_Roots]" by simp
  have "0x1ff8 \<in> (\<Union>r \<in> set (GC_static_roots v). {r_start r..<r_end r})"
    by (rule subsetD [OF registered_range_stays [OF start uv(1) keep uv(2)] mem])
  then show ?thesis using uv by (intro exI conjI)
qed

text \<open>C14: What GC_push_roots pushes of the static data is exactly the registered ranges without the excluded ones,
  for any sequence of registrations and of exclusions that the table accepts; the loop always ends.\<close>

theorem static_roots_pushed:
  assumes "root_steps ops roots_start = Inr t" "\<forall>(s, f) \<in> set rs. s < f" "exclude_all rs [] = Inr ex"
  shows "pushed (push_static_roots ex t) = (\<Union>r \<in> set (GC_static_roots t). {r_start r..<r_end r}) - pushed rs"
proof -
  have "excl_ok []" by (simp add: excl_ok_def)
  then have "excl_ok ex" "excluded ex = pushed rs" using exclude_all_rep [of "[]" rs ex] assms(2,3) by (simp_all add: excluded_def)
  then show ?thesis by (auto simp: push_static_roots_def pushed_concat push_with_exclusions_rep)
qed

theorem static_roots_pushed_witness:
  "\<exists>t ex. root_steps [Add_Roots 0x1000 0x2000] roots_start = Inr t \<and> exclude_all [(0x1800, 0x1900), (0x1100, 0x1200)] [] = Inr ex \<and>
     push_static_roots ex t = [(0x1000, 0x1100), (0x1200, 0x1800), (0x1900, 0x2000)] \<and> 0x1880 \<notin> pushed (push_static_roots ex t)"
proof -
  have "case rbind (root_steps [Add_Roots 0x1000 0x2000] roots_start) (\<lambda>t. rbind (exclude_all [(0x1800, 0x1900), (0x1100, 0x1200)] [])
      (\<lambda>ex. Inr (push_static_roots ex t))) of
    Inl _ \<Rightarrow> False | Inr ps \<Rightarrow> ps = [(0x1000, 0x1100), (0x1200, 0x1800), (0x1900, 0x2000)]" by code_simp
  then obtain t ex where h: "root_steps [Add_Roots 0x1000 0x2000] roots_start = Inr t"
      "exclude_all [(0x1800, 0x1900), (0x1100, 0x1200)] [] = Inr ex"
      "push_static_roots ex t = [(0x1000, 0x1100), (0x1200, 0x1800), (0x1900, 0x2000)]"
    by (auto split: sum.splits elim!: rbindE)
  have "0x1880 \<in> pushed [(0x1800, 0x1900), (0x1100, 0x1200)]" by simp
  then show ?thesis using h static_roots_pushed [OF h(1) _ h(2)] by auto
qed

text \<open>An exclusion is accepted exactly when it overlaps none of the table, as long as the table has room; the
  check that the code calls incomplete misses no overlap.\<close>

theorem exclusion_accepted:
  assumes "\<forall>(s, f) \<in> set rs. s < f" "exclude_all rs [] = Inr t" "length t < MAX_EXCLUSIONS" "s < f"
  shows "if pushed rs \<inter> {s..<f} = {} then \<exists>u. GC_exclude_static_roots_inner s f t = Inr u
    else GC_exclude_static_roots_inner s f t = Inl Fatal_Exit"
proof -
  have "excl_ok []" by (simp add: excl_ok_def)
  then have "excl_ok t" "excluded t = pushed rs" using exclude_all_rep [of "[]" rs t] assms(1,2) by (simp_all add: excluded_def)
  then show ?thesis using exclude_rep [of t s f] assms(3,4) by (auto split: sum.splits)
qed

theorem exclusion_accepted_witness:
  "\<exists>t. exclude_all [(0x1000, 0x2000)] [] = Inr t \<and> GC_exclude_static_roots_inner 0x1800 0x2800 t = Inl Fatal_Exit"
proof -
  have t: "exclude_all [(0x1000, 0x2000)] [] = Inr [\<lparr>e_start = 0x1000, e_end = 0x2000\<rparr>]"
    by (simp add: GC_exclude_static_roots_inner_def GC_next_exclusion_def)
  have "(0x1800 :: addr) \<in> pushed [(0x1000, 0x2000)] \<inter> {0x1800..<0x2800}" by simp
  then have "pushed [(0x1000, 0x2000)] \<inter> {0x1800..<0x2800} \<noteq> {}" by blast
  then show ?thesis using exclusion_accepted [OF _ t, where s = "0x1800" and f = "0x2800"] t by simp
qed

text \<open>GC_exclude_static_roots looks for an overflow when it rounds up; GC_add_roots does not: a range in the last
  bytes of the address space becomes one that starts at 0.\<close>

theorem add_roots_wraps: "map root_view (case GC_add_roots (- 7) (- 1) roots_start of Inr t \<Rightarrow> GC_static_roots t) = [(0, - 8, False)]"
  by code_simp

end
