(* ===== verification/Gc_Blocks.thy ===== *)
theory Gc_Blocks
  imports Vm_Prelude
begin

text \<open>
  The blocks of the collector: src/src/common/gc/new_hblk.c builds the free list of a new block, and reclaim.c
  rebuilds it from the marks; for 64-bit Linux with the options of the project's build (mark bytes, one per
  granule, and disclaim callbacks).

  The memory is a map of words; a pointer is the number of the word it points to, and sizes in bytes are
  divided by the size of a pointer where the code does so.  All accesses of these functions are to whole
  words.  The callbacks of clients are arguments.
\<close>

section \<open>Memory\<close>

type_synonym memory = "nat \<Rightarrow> nat"

abbreviation HBLKSIZE :: nat where "HBLKSIZE \<equiv> 4096"
abbreviation GC_GRANULE_BYTES :: nat where "GC_GRANULE_BYTES \<equiv> 16"
abbreviation HBLK_WORDS :: nat where "HBLK_WORDS \<equiv> HBLKSIZE div 8"
abbreviation MAXOBJBYTES :: nat where "MAXOBJBYTES \<equiv> HBLKSIZE div 2"

definition BYTES_TO_GRANULES :: "nat \<Rightarrow> nat" where "BYTES_TO_GRANULES lb = lb div GC_GRANULE_BYTES"
definition GRANULES_TO_BYTES :: "nat \<Rightarrow> nat" where "GRANULES_TO_BYTES lg = GC_GRANULE_BYTES * lg"
definition GRANULES_TO_PTRS :: "nat \<Rightarrow> nat" where "GRANULES_TO_PTRS lg = 2 * lg"
definition BYTES_TO_PTRS :: "nat \<Rightarrow> nat" where "BYTES_TO_PTRS lb = lb div 8"
definition HBLK_OBJS :: "nat \<Rightarrow> nat" where "HBLK_OBJS sz = HBLKSIZE div sz"
definition MARK_BIT_OFFSET :: "nat \<Rightarrow> nat" where "MARK_BIT_OFFSET sz = BYTES_TO_GRANULES sz"

definition BZERO :: "nat \<Rightarrow> nat \<Rightarrow> memory \<Rightarrow> memory" where
  "BZERO p n m = (\<lambda>a. if p \<le> a \<and> a < p + n then 0 else m a)"

section \<open>The free list of a new block\<close>

function fl_clear2_loop :: "nat \<Rightarrow> nat \<Rightarrow> memory \<Rightarrow> nat \<times> memory" where
  "fl_clear2_loop p plim m =
     (if p < plim then fl_clear2_loop (p + 4) plim (m(p := p - 2, p + 1 := 0, p + 2 := p, p + 3 := 0)) else (p - 2, m))"
  by pat_completeness auto
termination by (relation "measure (\<lambda>(p, plim, m). plim - p)") auto

definition GC_build_fl_clear2 :: "nat \<Rightarrow> nat \<Rightarrow> memory \<Rightarrow> nat \<times> memory" where
  "GC_build_fl_clear2 h ofl m = fl_clear2_loop (h + 4) (h + HBLK_WORDS) (m(h := ofl, h + 1 := 0, h + 2 := h, h + 3 := 0))"

function fl2_loop :: "nat \<Rightarrow> nat \<Rightarrow> memory \<Rightarrow> nat \<times> memory" where
  "fl2_loop p plim m = (if p < plim then fl2_loop (p + 4) plim (m(p := p - 2, p + 2 := p)) else (p - 2, m))"
  by pat_completeness auto
termination by (relation "measure (\<lambda>(p, plim, m). plim - p)") auto

definition GC_build_fl2 :: "nat \<Rightarrow> nat \<Rightarrow> memory \<Rightarrow> nat \<times> memory" where
  "GC_build_fl2 h ofl m = fl2_loop (h + 4) (h + HBLK_WORDS) (m(h := ofl, h + 2 := h))"

function fl_clear4_loop :: "nat \<Rightarrow> nat \<Rightarrow> memory \<Rightarrow> nat \<times> memory" where
  "fl_clear4_loop p plim m =
     (if p < plim then fl_clear4_loop (p + 4) plim (m(p := p - 4, p + 1 := 0, p + 2 := 0, p + 3 := 0)) else (p - 4, m))"
  by pat_completeness auto
termination by (relation "measure (\<lambda>(p, plim, m). plim - p)") auto

definition GC_build_fl_clear4 :: "nat \<Rightarrow> nat \<Rightarrow> memory \<Rightarrow> nat \<times> memory" where
  "GC_build_fl_clear4 h ofl m = fl_clear4_loop (h + 4) (h + HBLK_WORDS) (m(h := ofl, h + 1 := 0, h + 2 := 0, h + 3 := 0))"

function fl4_loop :: "nat \<Rightarrow> nat \<Rightarrow> memory \<Rightarrow> nat \<times> memory" where
  "fl4_loop p plim m = (if p < plim then fl4_loop (p + 8) plim (m(p := p - 4, p + 4 := p)) else (p - 4, m))"
  by pat_completeness auto
termination by (relation "measure (\<lambda>(p, plim, m). plim - p)") auto

definition GC_build_fl4 :: "nat \<Rightarrow> nat \<Rightarrow> memory \<Rightarrow> nat \<times> memory" where
  "GC_build_fl4 h ofl m = fl4_loop (h + 8) (h + HBLK_WORDS) (m(h := ofl, h + 4 := h))"

text \<open>The loop for any other size; objects of size 0 would make it run for ever.\<close>

function fl_loop :: "nat \<Rightarrow> nat \<Rightarrow> nat \<Rightarrow> nat \<Rightarrow> memory \<Rightarrow> nat \<times> memory" where
  "fl_loop lpw p prev plim m =
     (if p \<le> plim \<and> 0 < lpw then fl_loop lpw (p + lpw) p plim (m(p := prev)) else (p - lpw, m))"
  by pat_completeness auto
termination by (relation "measure (\<lambda>(lpw, p, prev, plim, m). Suc plim - p)") auto

definition GC_build_fl :: "nat \<Rightarrow> nat \<Rightarrow> nat \<Rightarrow> bool \<Rightarrow> memory \<Rightarrow> (nat \<times> memory) res" where
  "GC_build_fl h list lg clear m =
     (let lpw = GRANULES_TO_PTRS lg in
      if lpw = 0 then Inl No_Return
      else if lpw = 2 then Inr (if clear then GC_build_fl_clear2 h list m else GC_build_fl2 h list m)
      else if lpw = 4 then Inr (if clear then GC_build_fl_clear4 h list m else GC_build_fl4 h list m)
      else
        let m = (if clear then BZERO h HBLK_WORDS m else m);
            (p, m) = fl_loop lpw (h + lpw) h (h + HBLK_WORDS - lpw) m
        in Inr (p, m(h := list)))"

declare fl_clear2_loop.simps [simp del] fl2_loop.simps [simp del] fl_clear4_loop.simps [simp del]
  fl4_loop.simps [simp del] fl_loop.simps [simp del]

section \<open>Sweeping a block\<close>

text \<open>The header of a block, with its marks, one byte for each granule and one for the end.\<close>

record hdr =
  hb_next :: nat
  hb_prev :: nat
  hb_block :: nat
  hb_obj_kind :: nat
  hb_flags :: "8 word"
  hb_last_reclaimed :: "16 word"
  hb_sz :: nat
  hb_descr :: nat
  hb_map :: nat
  hb_n_marks :: nat
  hb_marks :: "nat \<Rightarrow> bool"

abbreviation IGNORE_OFF_PAGE :: "8 word" where "IGNORE_OFF_PAGE \<equiv> 1"
abbreviation WAS_UNMAPPED :: "8 word" where "WAS_UNMAPPED \<equiv> 2"
abbreviation FREE_BLK :: "8 word" where "FREE_BLK \<equiv> 4"
abbreviation HAS_DISCLAIM :: "8 word" where "HAS_DISCLAIM \<equiv> 8"
abbreviation MARK_UNCONDITIONALLY :: "8 word" where "MARK_UNCONDITIONALLY \<equiv> 0x10"
abbreviation LARGE_BLOCK :: "8 word" where "LARGE_BLOCK \<equiv> 0x20"

abbreviation (input) PTRFREE :: nat where "PTRFREE \<equiv> 0"
abbreviation (input) NORMAL :: nat where "NORMAL \<equiv> 1"
abbreviation (input) UNCOLLECTABLE :: nat where "UNCOLLECTABLE \<equiv> 2"

definition IS_UNCOLLECTABLE :: "nat \<Rightarrow> bool" where
  "IS_UNCOLLECTABLE k \<longleftrightarrow> k div 2 * 2 = UNCOLLECTABLE"

definition mark_bit_from_hdr :: "hdr \<Rightarrow> nat \<Rightarrow> bool" where
  "mark_bit_from_hdr hhdr n = hb_marks hhdr n"

definition set_mark_bit_from_hdr :: "nat \<Rightarrow> hdr \<Rightarrow> hdr" where
  "set_mark_bit_from_hdr n hhdr = hhdr\<lparr>hb_marks := (hb_marks hhdr)(n := True)\<rparr>"

definition clear_mark_bit_from_hdr :: "nat \<Rightarrow> hdr \<Rightarrow> hdr" where
  "clear_mark_bit_from_hdr n hhdr = hhdr\<lparr>hb_marks := (hb_marks hhdr)(n := False)\<rparr>"

definition INCR_MARKS :: "hdr \<Rightarrow> hdr" where
  "INCR_MARKS hhdr = hhdr\<lparr>hb_n_marks := hb_n_marks hhdr + 1\<rparr>"

text \<open>Setting and clearing all marks of a block; the mark behind the last object is always set.\<close>

abbreviation MARK_BITS_PER_HBLK :: nat where "MARK_BITS_PER_HBLK \<equiv> HBLKSIZE div GC_GRANULE_BYTES"

definition FINAL_MARK_BIT :: "nat \<Rightarrow> nat" where
  "FINAL_MARK_BIT sz = (if MAXOBJBYTES < sz then MARK_BITS_PER_HBLK else BYTES_TO_GRANULES (HBLK_OBJS sz * sz))"

definition GC_clear_hdr_marks :: "hdr \<Rightarrow> hdr" where
  "GC_clear_hdr_marks hhdr =
     (let last_bit = FINAL_MARK_BIT (hb_sz hhdr);
          hhdr = hhdr\<lparr>hb_marks := \<lambda>_. False\<rparr>
      in (set_mark_bit_from_hdr last_bit hhdr)\<lparr>hb_n_marks := 0\<rparr>)"

function set_marks_loop :: "nat \<Rightarrow> nat \<Rightarrow> nat \<Rightarrow> hdr \<Rightarrow> hdr" where
  "set_marks_loop i n_marks sz hhdr =
     (if i \<le> n_marks \<and> 0 < MARK_BIT_OFFSET sz
      then set_marks_loop (i + MARK_BIT_OFFSET sz) n_marks sz (set_mark_bit_from_hdr i hhdr) else hhdr)"
  by pat_completeness auto
termination by (relation "measure (\<lambda>(i, n_marks, sz, hhdr). Suc n_marks - i)") auto

declare set_marks_loop.simps [simp del]

definition GC_set_hdr_marks :: "hdr \<Rightarrow> hdr" where
  "GC_set_hdr_marks hhdr =
     (let sz = hb_sz hhdr; n_marks = FINAL_MARK_BIT sz; hhdr = set_marks_loop 0 n_marks sz hhdr
      in hhdr\<lparr>hb_n_marks := HBLK_OBJS sz\<rparr>)"

definition GC_block_empty :: "hdr \<Rightarrow> bool" where
  "GC_block_empty hhdr \<longleftrightarrow> hb_n_marks hhdr = 0"

definition GC_block_nearly_full :: "hdr \<Rightarrow> nat \<Rightarrow> bool" where
  "GC_block_nearly_full hhdr sz \<longleftrightarrow> HBLK_OBJS sz * 7 div 8 < hb_n_marks hhdr"

text \<open>The object is cleared two words at a time, its link excepted; the result is its end.\<close>

function clear_loop :: "nat \<Rightarrow> nat \<Rightarrow> memory \<Rightarrow> nat \<times> memory" where
  "clear_loop p plim m = (if p < plim then clear_loop (p + 2) plim (m(p := 0, p + 1 := 0)) else (p, m))"
  by pat_completeness auto
termination by (relation "measure (\<lambda>(p, plim, m). plim - p)") auto

declare clear_loop.simps [simp del]

definition GC_clear_block :: "nat \<Rightarrow> nat \<Rightarrow> nat \<Rightarrow> memory \<Rightarrow> nat \<times> nat \<times> memory" where
  "GC_clear_block q sz count m =
     (let (p, m) = clear_loop (q + 2) (q + BYTES_TO_PTRS sz) (m(q + 1 := 0)) in (p, count + sz, m))"

lemma clear_loop_le: "p \<le> fst (clear_loop p plim m)"
  by (induction p plim m rule: clear_loop.induct) (subst clear_loop.simps, fastforce)

lemma clear_block_less: "q < fst (GC_clear_block q sz count m)"
  using clear_loop_le [of "q + 2" "q + BYTES_TO_PTRS sz" "m(q + 1 := 0)"]
  by (simp add: GC_clear_block_def split_beta Let_def)

text \<open>
  The loops of the three sweeps, from the object at \<open>p\<close> on.  An object has at least one granule, so that the loops
  end; a size of 0 would not occur as the size of a block with free lists.
\<close>

function reclaim_clear_loop ::
  "hdr \<Rightarrow> nat \<Rightarrow> nat \<Rightarrow> nat \<Rightarrow> nat \<Rightarrow> nat \<Rightarrow> nat \<Rightarrow> memory \<Rightarrow> nat \<times> nat \<times> memory" where
  "reclaim_clear_loop hhdr sz plim p bit_no list count m =
     (if p \<le> plim \<and> 0 < BYTES_TO_PTRS sz then
        if mark_bit_from_hdr hhdr bit_no
        then reclaim_clear_loop hhdr sz plim (p + BYTES_TO_PTRS sz) (bit_no + MARK_BIT_OFFSET sz) list count m
        else
          let c = GC_clear_block p sz count (m(p := list))
          in reclaim_clear_loop hhdr sz plim (fst c) (bit_no + MARK_BIT_OFFSET sz) p (fst (snd c)) (snd (snd c))
      else (list, count, m))"
  by pat_completeness auto
termination
  by (relation "measure (\<lambda>(hhdr, sz, plim, p, r). Suc plim - p)")
    (auto intro!: diff_less_mono2 clear_block_less simp: less_Suc_eq_le)

definition GC_reclaim_clear :: "nat \<Rightarrow> hdr \<Rightarrow> nat \<Rightarrow> nat \<Rightarrow> nat \<Rightarrow> memory \<Rightarrow> nat \<times> nat \<times> memory" where
  "GC_reclaim_clear hbp hhdr sz list count m =
     reclaim_clear_loop hhdr sz (hbp + HBLK_WORDS - BYTES_TO_PTRS sz) hbp 0 list count m"

function reclaim_uninit_loop ::
  "hdr \<Rightarrow> nat \<Rightarrow> nat \<Rightarrow> nat \<Rightarrow> nat \<Rightarrow> nat \<Rightarrow> nat \<Rightarrow> memory \<Rightarrow> nat \<times> nat \<times> memory" where
  "reclaim_uninit_loop hhdr sz plim p bit_no list n_bytes_found m =
     (if p \<le> plim \<and> 0 < BYTES_TO_PTRS sz then
        if mark_bit_from_hdr hhdr bit_no
        then reclaim_uninit_loop hhdr sz plim (p + BYTES_TO_PTRS sz) (bit_no + MARK_BIT_OFFSET sz) list n_bytes_found m
        else reclaim_uninit_loop hhdr sz plim (p + BYTES_TO_PTRS sz) (bit_no + MARK_BIT_OFFSET sz) p (n_bytes_found + sz)
               (m(p := list))
      else (list, n_bytes_found, m))"
  by pat_completeness auto
termination by (relation "measure (\<lambda>(hhdr, sz, plim, p, r). Suc plim - p)") auto

definition GC_reclaim_uninit :: "nat \<Rightarrow> hdr \<Rightarrow> nat \<Rightarrow> nat \<Rightarrow> nat \<Rightarrow> memory \<Rightarrow> nat \<times> nat \<times> memory" where
  "GC_reclaim_uninit hbp hhdr sz list count m =
     (let (list, n_bytes_found, m) = reclaim_uninit_loop hhdr sz (hbp + HBLK_WORDS - BYTES_TO_PTRS sz) hbp 0 list 0 m
      in (list, count + n_bytes_found, m))"

text \<open>\<open>disclaim\<close> says for an object whether the client wants to keep it.\<close>

function disclaim_loop ::
  "(nat \<Rightarrow> bool) \<Rightarrow> hdr \<Rightarrow> nat \<Rightarrow> nat \<Rightarrow> nat \<Rightarrow> nat \<Rightarrow> nat \<Rightarrow> nat \<Rightarrow> memory \<Rightarrow> hdr \<times> nat \<times> nat \<times> memory" where
  "disclaim_loop disclaim hhdr sz plim p bit_no list count m =
     (if p \<le> plim \<and> 0 < BYTES_TO_PTRS sz then
        if mark_bit_from_hdr hhdr bit_no
        then disclaim_loop disclaim hhdr sz plim (p + BYTES_TO_PTRS sz) (bit_no + MARK_BIT_OFFSET sz) list count m
        else if disclaim p then
          disclaim_loop disclaim (INCR_MARKS (set_mark_bit_from_hdr bit_no hhdr)) sz plim
            (p + BYTES_TO_PTRS sz) (bit_no + MARK_BIT_OFFSET sz) list count m
        else
          let c = GC_clear_block p sz count (m(p := list))
          in disclaim_loop disclaim hhdr sz plim (fst c) (bit_no + MARK_BIT_OFFSET sz) p (fst (snd c)) (snd (snd c))
      else (hhdr, list, count, m))"
  by pat_completeness auto
termination
  by (relation "measure (\<lambda>(disclaim, hhdr, sz, plim, p, r). Suc plim - p)")
    (auto intro!: diff_less_mono2 clear_block_less simp: less_Suc_eq_le)

definition GC_disclaim_and_reclaim ::
  "(nat \<Rightarrow> bool) \<Rightarrow> nat \<Rightarrow> hdr \<Rightarrow> nat \<Rightarrow> nat \<Rightarrow> nat \<Rightarrow> memory \<Rightarrow> hdr \<times> nat \<times> nat \<times> memory" where
  "GC_disclaim_and_reclaim disclaim hbp hhdr sz list count m =
     disclaim_loop disclaim hhdr sz (hbp + HBLK_WORDS - BYTES_TO_PTRS sz) hbp 0 list count m"

text \<open>
  The sweep of a block with objects of \<open>sz\<close> bytes: GC_reclaim_generic chooses the routine by the flag of the block,
  the kind's wish for cleared objects, and debugging.  The pages are made writable before, which the memory here
  always is.
\<close>

definition GC_reclaim_generic ::
  "(nat \<Rightarrow> bool) \<Rightarrow> bool \<Rightarrow> nat \<Rightarrow> hdr \<Rightarrow> nat \<Rightarrow> bool \<Rightarrow> nat \<Rightarrow> nat \<Rightarrow> memory \<Rightarrow> hdr \<times> nat \<times> nat \<times> memory" where
  "GC_reclaim_generic disclaim GC_debugging_started hbp hhdr sz init list count m =
     (let (hhdr, result, count, m) =
        (if hb_flags hhdr AND HAS_DISCLAIM \<noteq> 0 then GC_disclaim_and_reclaim disclaim hbp hhdr sz list count m
         else if init \<or> GC_debugging_started then (hhdr, GC_reclaim_clear hbp hhdr sz list count m)
         else (hhdr, GC_reclaim_uninit hbp hhdr sz list count m));
        hhdr = (if IS_UNCOLLECTABLE (hb_obj_kind hhdr) then GC_set_hdr_marks hhdr else hhdr)
      in (hhdr, result, count, m))"

declare reclaim_clear_loop.simps [simp del] reclaim_uninit_loop.simps [simp del] disclaim_loop.simps [simp del]

end
