(* ===== verification/Gc_Headers.thy ===== *)
theory Gc_Headers
  imports Gc_Blocks
begin

text \<open>
  src/src/common/gc/headers.c: the map from heap blocks to their headers, an index of two levels, with the macros of
  private/gc_hdrs.h for 64-bit addresses (HASH_TL), and the scratch memory it is built in; GC_base and the other
  questions about a pointer of misc.c; and the marks of an object by its address, of mark.c.

  Pointers are their addresses, and a header or bottom index lives in a store under its address, which is what
  GC_scratch_alloc returned for it.  A block is the number of its first address divided by HBLKSIZE.  A linked chain
  of bottom indices (asc_link and desc_link, or hash_link from an entry of the top index) is the list of what it
  links; entries are never taken out.  What the system answers to the calls of GC_os_get_mem is the list \<open>os_mem\<close>, 0
  or the end of the list for a failure.
\<close>

section \<open>State\<close>

abbreviation GC_WORD_MAX :: nat where "GC_WORD_MAX \<equiv> 2 ^ 64 - 1"
abbreviation MINHINCR :: nat where "MINHINCR \<equiv> 16"
abbreviation (input) GC_page_size :: nat where "GC_page_size \<equiv> 4096"
abbreviation BOTTOM_SZ :: nat where "BOTTOM_SZ \<equiv> 1024"
abbreviation TOP_SZ :: nat where "TOP_SZ \<equiv> 2048"
abbreviation MAX_JUMP :: nat where "MAX_JUMP \<equiv> HBLKSIZE - 1"
abbreviation sizeof_hdr :: nat where "sizeof_hdr \<equiv> 328"
abbreviation sizeof_bottom_index :: nat where "sizeof_bottom_index \<equiv> BOTTOM_SZ * 8 + 32"

record bottom_index =
  bi_index :: "nat \<Rightarrow> nat"
  bi_key :: nat

record hdr_state =
  GC_all_nils :: nat
  GC_top_index :: "nat \<Rightarrow> nat list"
  GC_all_bottom_indices :: "nat list"
  bottoms :: "nat \<Rightarrow> bottom_index"
  headers :: "nat \<Rightarrow> hdr"
  GC_hdr_free_list :: nat
  GC_scratch_free_ptr :: nat
  GC_scratch_end_addr :: nat
  os_mem :: "nat list"
  GC_gc_no :: "64 word"

definition OBJ_SZ_TO_BLOCKS :: "nat \<Rightarrow> nat" where
  "OBJ_SZ_TO_BLOCKS lb = (lb + HBLKSIZE - 1) div HBLKSIZE"

section \<open>Scratch memory\<close>

definition GC_os_get_mem :: "'a hdr_state_scheme \<Rightarrow> nat \<times> 'a hdr_state_scheme" where
  "GC_os_get_mem s = (case os_mem s of [] \<Rightarrow> (0, s) | a # as \<Rightarrow> (a, s\<lparr>os_mem := as\<rparr>))"

definition ROUNDUP_GRANULE_SIZE :: "nat \<Rightarrow> nat" where
  "ROUNDUP_GRANULE_SIZE lb = (lb + (GC_GRANULE_BYTES - 1)) div GC_GRANULE_BYTES * GC_GRANULE_BYTES"

definition ROUNDUP_PAGESIZE :: "nat \<Rightarrow> nat" where
  "ROUNDUP_PAGESIZE lb = (lb + (GC_page_size - 1)) div GC_page_size * GC_page_size"

function scratch_loop :: "nat \<Rightarrow> nat \<Rightarrow> 'a hdr_state_scheme \<Rightarrow> nat \<times> 'a hdr_state_scheme" where
  "scratch_loop bytes result s =
     (if bytes \<le> GC_scratch_end_addr s - result then (result, s\<lparr>GC_scratch_free_ptr := result + bytes\<rparr>)
      else if MINHINCR * HBLKSIZE \<le> bytes then GC_os_get_mem s
      else
        let bytes_to_get = ROUNDUP_PAGESIZE (MINHINCR * HBLKSIZE) in
        case os_mem s of
          [] \<Rightarrow> GC_os_get_mem s
        | r # rs \<Rightarrow>
            if r = 0 then GC_os_get_mem (s\<lparr>os_mem := rs\<rparr>)
            else scratch_loop bytes r (s\<lparr>os_mem := rs, GC_scratch_free_ptr := r, GC_scratch_end_addr := r + bytes_to_get\<rparr>))"
  by pat_completeness auto
termination by (relation "measure (\<lambda>(bytes, result, s). length (os_mem s))") auto

declare scratch_loop.simps [simp del]

definition GC_scratch_alloc :: "nat \<Rightarrow> 'a hdr_state_scheme \<Rightarrow> nat \<times> 'a hdr_state_scheme" where
  "GC_scratch_alloc bytes s = scratch_loop (ROUNDUP_GRANULE_SIZE bytes) (GC_scratch_free_ptr s) s"

section \<open>The index\<close>

definition TL_HASH :: "nat \<Rightarrow> nat" where
  "TL_HASH hi = hi mod TOP_SZ"

text \<open>The bottom index for a block; the walk along the hash links ends at GC_all_nils.\<close>

definition GET_BI :: "nat \<Rightarrow> 'a hdr_state_scheme \<Rightarrow> nat" where
  "GET_BI h s =
     (let hi = h div BOTTOM_SZ in
      case find (\<lambda>r. bi_key (bottoms s r) = hi) (GC_top_index s (TL_HASH hi)) of Some r \<Rightarrow> r | None \<Rightarrow> GC_all_nils s)"

definition HDR_FROM_BI :: "nat \<Rightarrow> nat \<Rightarrow> 'a hdr_state_scheme \<Rightarrow> nat" where
  "HDR_FROM_BI bi h s = bi_index (bottoms s bi) (h mod BOTTOM_SZ)"

definition HDR :: "nat \<Rightarrow> 'a hdr_state_scheme \<Rightarrow> nat" where
  "HDR h s = HDR_FROM_BI (GET_BI h s) h s"

definition SET_HDR :: "nat \<Rightarrow> nat \<Rightarrow> 'a hdr_state_scheme \<Rightarrow> 'a hdr_state_scheme" where
  "SET_HDR h hhdr s =
     (let bi = GET_BI h s; b = bottoms s bi
      in s\<lparr>bottoms := (bottoms s)(bi := b\<lparr>bi_index := (bi_index b)(h mod BOTTOM_SZ := hhdr)\<rparr>)\<rparr>)"

definition IS_FORWARDING_ADDR_OR_NIL :: "nat \<Rightarrow> bool" where
  "IS_FORWARDING_ADDR_OR_NIL hhdr \<longleftrightarrow> hhdr \<le> MAX_JUMP"

definition FORWARDED_ADDR :: "nat \<Rightarrow> nat \<Rightarrow> nat" where
  "FORWARDED_ADDR h hhdr = h - hhdr"

definition HBLK_IS_FREE :: "hdr \<Rightarrow> bool" where
  "HBLK_IS_FREE hhdr \<longleftrightarrow> hb_flags hhdr AND FREE_BLK \<noteq> 0"

text \<open>A fresh index, added to its hash chain and to the list of all, which ascends.\<close>

definition get_index :: "nat \<Rightarrow> 'a hdr_state_scheme \<Rightarrow> bool \<times> 'a hdr_state_scheme" where
  "get_index h s =
     (let hi = h div BOTTOM_SZ; i = TL_HASH hi in
      if \<exists>p \<in> set (GC_top_index s i). bi_key (bottoms s p) = hi then (True, s)
      else
        let (r, s) = GC_scratch_alloc sizeof_bottom_index s in
        if r = 0 then (False, s)
        else
          let below = (\<lambda>p. bi_key (bottoms s p) < hi); all = GC_all_bottom_indices s
          in (True, s\<lparr>bottoms := (bottoms s)(r := \<lparr>bi_index = \<lambda>_. 0, bi_key = hi\<rparr>),
                GC_all_bottom_indices := takeWhile below all @ r # dropWhile below all,
                GC_top_index := (GC_top_index s)(i := r # GC_top_index s i)\<rparr>))"

definition GC_init_headers :: "'a hdr_state_scheme \<Rightarrow> 'a hdr_state_scheme res" where
  "GC_init_headers s =
     (let (r, s) = GC_scratch_alloc sizeof_bottom_index s in
      if r = 0 then Inl Fatal_Exit
      else Inr (s\<lparr>GC_all_nils := r, bottoms := (bottoms s)(r := \<lparr>bi_index = \<lambda>_. 0, bi_key = 0\<rparr>), GC_top_index := \<lambda>_. []\<rparr>))"

text \<open>Headers; a free one is linked through hb_next.\<close>

definition upd_hdr :: "nat \<Rightarrow> (hdr \<Rightarrow> hdr) \<Rightarrow> 'a hdr_state_scheme \<Rightarrow> 'a hdr_state_scheme" where
  "upd_hdr p f s = s\<lparr>headers := (headers s)(p := f (headers s p))\<rparr>"

definition alloc_hdr :: "'a hdr_state_scheme \<Rightarrow> nat \<times> 'a hdr_state_scheme" where
  "alloc_hdr s =
     (if GC_hdr_free_list s = 0 then GC_scratch_alloc sizeof_hdr s
      else (GC_hdr_free_list s, s\<lparr>GC_hdr_free_list := hb_next (headers s (GC_hdr_free_list s))\<rparr>))"

definition free_hdr :: "nat \<Rightarrow> 'a hdr_state_scheme \<Rightarrow> 'a hdr_state_scheme" where
  "free_hdr hhdr s = (upd_hdr hhdr (\<lambda>hd. hd\<lparr>hb_next := GC_hdr_free_list s\<rparr>) s)\<lparr>GC_hdr_free_list := hhdr\<rparr>"

definition GC_install_header :: "nat \<Rightarrow> 'a hdr_state_scheme \<Rightarrow> nat \<times> 'a hdr_state_scheme" where
  "GC_install_header h s =
     (let (ok, s) = get_index h s in
      if \<not> ok then (0, s)
      else
        let (result, s) = alloc_hdr s in
        if result \<noteq> 0
        then (result, upd_hdr result (\<lambda>hd. hd\<lparr>hb_last_reclaimed := ucast (GC_gc_no s)\<rparr>) (SET_HDR h result s))
        else (0, s))"

text \<open>The entries of a large object: how far back its start is, at most MAX_JUMP.\<close>

function counts_index_loop :: "nat \<Rightarrow> nat \<Rightarrow> nat \<Rightarrow> 'a hdr_state_scheme \<Rightarrow> bool \<times> 'a hdr_state_scheme" where
  "counts_index_loop hbp h sz s =
     (if hbp * HBLKSIZE < h * HBLKSIZE + sz then
        let (ok, s) = get_index hbp s in
        if \<not> ok then (False, s)
        else if GC_WORD_MAX - BOTTOM_SZ * HBLKSIZE < hbp * HBLKSIZE then (True, s)
        else counts_index_loop (hbp + BOTTOM_SZ) h sz s
      else (True, s))"
  by pat_completeness auto
termination by (relation "measure (\<lambda>(hbp, h, sz, s). h * HBLKSIZE + sz - hbp * HBLKSIZE)") auto

function set_counts_loop :: "nat \<Rightarrow> nat \<Rightarrow> nat \<Rightarrow> 'a hdr_state_scheme \<Rightarrow> 'a hdr_state_scheme" where
  "set_counts_loop hbp h sz s =
     (if hbp * HBLKSIZE < h * HBLKSIZE + sz then
        let i = hbp - h in set_counts_loop (hbp + 1) h sz (SET_HDR hbp (if MAX_JUMP < i then MAX_JUMP else i) s)
      else s)"
  by pat_completeness auto
termination by (relation "measure (\<lambda>(hbp, h, sz, s). h * HBLKSIZE + sz - hbp * HBLKSIZE)") auto

definition GC_install_counts :: "nat \<Rightarrow> nat \<Rightarrow> 'a hdr_state_scheme \<Rightarrow> bool \<times> 'a hdr_state_scheme" where
  "GC_install_counts h sz s =
     (let (ok, s) = counts_index_loop h h sz s in
      if \<not> ok then (False, s)
      else
        let (ok, s) = get_index ((h * HBLKSIZE + sz - 1) div HBLKSIZE) s in
        if \<not> ok then (False, s) else (True, set_counts_loop (h + 1) h sz s))"

definition GC_remove_header :: "nat \<Rightarrow> 'a hdr_state_scheme \<Rightarrow> 'a hdr_state_scheme" where
  "GC_remove_header h s = SET_HDR h 0 (free_hdr (HDR h s) s)"

function clear_counts_loop :: "nat \<Rightarrow> nat \<Rightarrow> nat \<Rightarrow> 'a hdr_state_scheme \<Rightarrow> 'a hdr_state_scheme" where
  "clear_counts_loop hbp h sz s =
     (if hbp * HBLKSIZE < h * HBLKSIZE + sz then clear_counts_loop (hbp + 1) h sz (SET_HDR hbp 0 s) else s)"
  by pat_completeness auto
termination by (relation "measure (\<lambda>(hbp, h, sz, s). h * HBLKSIZE + sz - hbp * HBLKSIZE)") auto

declare counts_index_loop.simps [simp del] set_counts_loop.simps [simp del] clear_counts_loop.simps [simp del]

definition GC_remove_counts :: "nat \<Rightarrow> nat \<Rightarrow> 'a hdr_state_scheme \<Rightarrow> 'a hdr_state_scheme" where
  "GC_remove_counts h sz s =
     (if sz \<le> HBLKSIZE then s
      else if HDR (h + 1) s = 0 then s
      else clear_counts_loop (h + 1) h sz s)"

section \<open>Walks over the index\<close>

text \<open>The start of the object a block belongs to; on a block of no object the loop would not end.\<close>

partial_function (option) GC_find_starting_hblk :: "nat \<Rightarrow> nat \<Rightarrow> 'a hdr_state_scheme \<Rightarrow> (nat \<times> nat) option" where
  "GC_find_starting_hblk h hhdr s =
     (if IS_FORWARDING_ADDR_OR_NIL hhdr
      then GC_find_starting_hblk (FORWARDED_ADDR h hhdr) (HDR (FORWARDED_ADDR h hhdr) s) s
      else Some (h, hhdr))"

text \<open>GC_apply_to_all_blocks: within a bottom index downwards; the callback may change the state.\<close>

function apply_in_index :: "(nat \<Rightarrow> 'a hdr_state_scheme \<Rightarrow> 'a hdr_state_scheme) \<Rightarrow> nat \<Rightarrow> int \<Rightarrow> 'a hdr_state_scheme \<Rightarrow> 'a hdr_state_scheme" where
  "apply_in_index fn bi j s =
     (if 0 \<le> j then
        let hhdr = bi_index (bottoms s bi) (nat j) in
        if IS_FORWARDING_ADDR_OR_NIL hhdr then apply_in_index fn bi (j - (if hhdr \<noteq> 0 then int hhdr else 1)) s
        else apply_in_index fn bi (j - 1) (if \<not> HBLK_IS_FREE (headers s hhdr) then fn (hb_block (headers s hhdr)) s else s)
      else s)"
  by pat_completeness auto
termination by (relation "measure (\<lambda>(fn, bi, j, s). nat (j + 1))") (auto simp: Let_def)

declare apply_in_index.simps [simp del]

definition GC_apply_to_all_blocks :: "(nat \<Rightarrow> 'a hdr_state_scheme \<Rightarrow> 'a hdr_state_scheme) \<Rightarrow> 'a hdr_state_scheme \<Rightarrow> 'a hdr_state_scheme" where
  "GC_apply_to_all_blocks fn s = fold (\<lambda>bi. apply_in_index fn bi (int BOTTOM_SZ - 1)) (GC_all_bottom_indices s) s"

text \<open>
  The next block in use (or free, if that is allowed) from \<open>h\<close> on, and the last block that starts at \<open>h\<close> or in front
  of it.  A free block has at least one block of memory, so that the step over it is not 0.
\<close>

function next_in_index :: "bool \<Rightarrow> nat \<Rightarrow> nat \<Rightarrow> 'a hdr_state_scheme \<Rightarrow> nat option" where
  "next_in_index allow_free bi j s =
     (if j < BOTTOM_SZ then
        let hhdr = bi_index (bottoms s bi) j in
        if IS_FORWARDING_ADDR_OR_NIL hhdr then next_in_index allow_free bi (j + 1) s
        else if allow_free \<or> \<not> HBLK_IS_FREE (headers s hhdr) then Some (hb_block (headers s hhdr))
        else if hb_sz (headers s hhdr) div HBLKSIZE = 0 then None
        else next_in_index allow_free bi (j + hb_sz (headers s hhdr) div HBLKSIZE) s
      else None)"
  by pat_completeness auto
termination by (relation "measure (\<lambda>(allow_free, bi, j, s). BOTTOM_SZ - j)") (auto simp: Let_def)

fun next_in_indices :: "bool \<Rightarrow> nat \<Rightarrow> nat list \<Rightarrow> 'a hdr_state_scheme \<Rightarrow> nat" where
  "next_in_indices allow_free j [] s = 0"
| "next_in_indices allow_free j (bi # bis) s =
     (case next_in_index allow_free bi j s of Some h \<Rightarrow> h | None \<Rightarrow> next_in_indices allow_free 0 bis s)"

definition GC_next_block :: "nat \<Rightarrow> bool \<Rightarrow> 'a hdr_state_scheme \<Rightarrow> nat" where
  "GC_next_block h allow_free s =
     (let bi = GET_BI h s; all = GC_all_bottom_indices s in
      if bi = GC_all_nils s
      then next_in_indices allow_free 0 (dropWhile (\<lambda>p. bi_key (bottoms s p) < h div BOTTOM_SZ) all) s
      else next_in_indices allow_free (h mod BOTTOM_SZ) (dropWhile (\<lambda>p. p \<noteq> bi) all) s)"

function prev_in_index :: "nat \<Rightarrow> int \<Rightarrow> 'a hdr_state_scheme \<Rightarrow> nat option" where
  "prev_in_index bi j s =
     (if 0 \<le> j then
        let hhdr = bi_index (bottoms s bi) (nat j) in
        if hhdr = 0 then prev_in_index bi (j - 1) s
        else if IS_FORWARDING_ADDR_OR_NIL hhdr then prev_in_index bi (j - int hhdr) s
        else Some (hb_block (headers s hhdr))
      else None)"
  by pat_completeness auto
termination by (relation "measure (\<lambda>(bi, j, s). nat (j + 1))") (auto simp: Let_def)

declare next_in_index.simps [simp del] prev_in_index.simps [simp del]

fun prev_in_indices :: "int \<Rightarrow> nat list \<Rightarrow> 'a hdr_state_scheme \<Rightarrow> nat" where
  "prev_in_indices j [] s = 0"
| "prev_in_indices j (bi # bis) s =
     (case prev_in_index bi j s of Some h \<Rightarrow> h | None \<Rightarrow> prev_in_indices (int BOTTOM_SZ - 1) bis s)"

definition GC_prev_block :: "nat \<Rightarrow> 'a hdr_state_scheme \<Rightarrow> nat" where
  "GC_prev_block h s =
     (let bi = GET_BI h s; all = rev (GC_all_bottom_indices s) in
      if bi = GC_all_nils s
      then prev_in_indices (int BOTTOM_SZ - 1) (dropWhile (\<lambda>p. h div BOTTOM_SZ < bi_key (bottoms s p)) all) s
      else prev_in_indices (int (h mod BOTTOM_SZ)) (dropWhile (\<lambda>p. p \<noteq> bi) all) s)"

section \<open>Questions about pointers\<close>

text \<open>GC_base, for an initialised collector; NULL is 0, and None an endless loop.\<close>

definition GC_base :: "nat \<Rightarrow> 'a hdr_state_scheme \<Rightarrow> nat option" where
  "GC_base p s =
     (let h = p div HBLKSIZE; hhdr = HDR h s in
      if hhdr = 0 then Some 0
      else
        case (if IS_FORWARDING_ADDR_OR_NIL hhdr then map_option (\<lambda>(h, hhdr). (h, hhdr, h * HBLKSIZE)) (GC_find_starting_hblk h hhdr s)
              else Some (h, hhdr, p)) of
          None \<Rightarrow> None
        | Some (h, hhdr, r) \<Rightarrow>
            if HBLK_IS_FREE (headers s hhdr) then Some 0
            else
              let r = r div 8 * 8; sz = hb_sz (headers s hhdr);
                  r = r - r mod HBLKSIZE mod sz;
                  limit = r + sz
              in if (h + 1) * HBLKSIZE < limit \<and> sz \<le> HBLKSIZE \<or> limit \<le> p then Some 0 else Some r)"

definition GC_is_heap_ptr :: "nat \<Rightarrow> 'a hdr_state_scheme \<Rightarrow> bool" where
  "GC_is_heap_ptr p s \<longleftrightarrow> HDR (p div HBLKSIZE) s \<noteq> 0"

definition GC_size :: "nat \<Rightarrow> 'a hdr_state_scheme \<Rightarrow> nat res" where
  "GC_size p s =
     (if p = 0 then Inr 0
      else
        let hhdr = HDR (p div HBLKSIZE) s in
        if hhdr = 0 then Inl Null_Deref
        else if IS_FORWARDING_ADDR_OR_NIL hhdr then Inl Wild_Pointer
        else Inr (hb_sz (headers s hhdr)))"

section \<open>Marks by address\<close>

text \<open>What the marker keeps besides; MS_INVALID is the state in which marks have to be found anew.\<close>

abbreviation (input) MS_NONE :: nat where "MS_NONE \<equiv> 0"
abbreviation (input) MS_INVALID :: nat where "MS_INVALID \<equiv> 5"

record mark_state = hdr_state +
  GC_parallel :: bool
  GC_objects_are_marked :: bool
  GC_mark_state :: nat
  GC_scan_ptr :: nat

definition MARK_BIT_NO :: "nat \<Rightarrow> nat \<Rightarrow> nat" where
  "MARK_BIT_NO offset sz = BYTES_TO_GRANULES offset"

definition GC_is_marked :: "nat \<Rightarrow> 'a mark_state_scheme \<Rightarrow> bool" where
  "GC_is_marked p s =
     (let h = p div HBLKSIZE; hhdr = headers s (HDR h s); bit_no = MARK_BIT_NO (p - h * HBLKSIZE) (hb_sz hhdr)
      in mark_bit_from_hdr hhdr bit_no)"

definition GC_set_mark_bit :: "nat \<Rightarrow> 'a mark_state_scheme \<Rightarrow> 'a mark_state_scheme" where
  "GC_set_mark_bit p s =
     (let h = p div HBLKSIZE; hhdr = headers s (HDR h s); bit_no = MARK_BIT_NO (p - h * HBLKSIZE) (hb_sz hhdr)
      in if \<not> mark_bit_from_hdr hhdr bit_no
         then upd_hdr (HDR h s) (\<lambda>hd. INCR_MARKS (set_mark_bit_from_hdr bit_no hd)) s
         else s)"

definition GC_clear_mark_bit :: "nat \<Rightarrow> 'a mark_state_scheme \<Rightarrow> 'a mark_state_scheme" where
  "GC_clear_mark_bit p s =
     (let h = p div HBLKSIZE; hhdr = headers s (HDR h s); bit_no = MARK_BIT_NO (p - h * HBLKSIZE) (hb_sz hhdr)
      in if mark_bit_from_hdr hhdr bit_no then
           let n_marks = hb_n_marks hhdr - 1;
               s = upd_hdr (HDR h s) (clear_mark_bit_from_hdr bit_no) s
           in if n_marks \<noteq> 0 \<or> \<not> GC_parallel s then upd_hdr (HDR h s) (\<lambda>hd. hd\<lparr>hb_n_marks := n_marks\<rparr>) s else s
         else s)"

definition clear_marks_for_block :: "nat \<Rightarrow> 'a hdr_state_scheme \<Rightarrow> 'a hdr_state_scheme" where
  "clear_marks_for_block h s =
     (let hhdr = HDR h s in if IS_UNCOLLECTABLE (hb_obj_kind (headers s hhdr)) then s else upd_hdr hhdr GC_clear_hdr_marks s)"

definition GC_clear_marks :: "'a mark_state_scheme \<Rightarrow> 'a mark_state_scheme" where
  "GC_clear_marks s =
     (GC_apply_to_all_blocks clear_marks_for_block s)\<lparr>GC_objects_are_marked := False, GC_mark_state := MS_INVALID, GC_scan_ptr := 0\<rparr>"

end
