(* ===== verification/Gc_Blocks_Facts.thy ===== *)
theory Gc_Blocks_Facts
  imports Gc_Blocks
begin

text \<open>
  Free lists: what GC_build_fl and the sweeps leave in the memory is a list of exactly the free objects.
\<close>

section \<open>Lists in the memory\<close>

fun linked :: "memory \<Rightarrow> nat \<Rightarrow> nat list \<Rightarrow> nat \<Rightarrow> bool" where
  "linked m p [] q \<longleftrightarrow> p = q"
| "linked m p (a # as) q \<longleftrightarrow> p = a \<and> linked m (m a) as q"

lemma linked_cong: "(\<And>a. a \<in> set as \<Longrightarrow> m a = m' a) \<Longrightarrow> linked m p as q \<longleftrightarrow> linked m' p as q"
  by (induction as arbitrary: p) auto

lemma linked_append: "linked m p (as @ bs) q \<longleftrightarrow> (\<exists>r. linked m p as r \<and> linked m r bs q)"
  by (induction as arbitrary: p) auto

definition objects :: "nat \<Rightarrow> nat \<Rightarrow> nat \<Rightarrow> nat list" where
  "objects h lpw n = map (\<lambda>i. h + i * lpw) [0..<n]"

lemma objects_Suc: "objects h lpw (Suc n) = objects h lpw n @ [h + n * lpw]"
  by (simp add: objects_def)

section \<open>The memory of a new block\<close>

text \<open>The links of the first \<open>n\<close> objects.\<close>

definition fl_links :: "nat \<Rightarrow> nat \<Rightarrow> nat \<Rightarrow> nat \<Rightarrow> memory \<Rightarrow> memory" where
  "fl_links h lpw list n m = (\<lambda>a. if a \<in> set (objects h lpw n) then if a = h then list else a - lpw else m a)"

lemma set_objects: "set (objects h lpw n) = {h + i * lpw | i. i < n}"
  by (auto simp: objects_def)

lemma fl_links_at: "i < n \<Longrightarrow> 0 < lpw \<Longrightarrow> fl_links h lpw list n m (h + i * lpw) = (if i = 0 then list else h + (i - 1) * lpw)"
  by (auto simp: fl_links_def set_objects diff_mult_distrib)

lemma fl_links_linked:
  assumes lpw: "0 < lpw" and k: "0 < k" "k \<le> n"
  shows "linked (fl_links h lpw list n m) (h + (k - 1) * lpw) (rev (objects h lpw k)) list"
  using k
proof (induction k)
  case (Suc k)
  show ?case
  proof (cases "k = 0")
    case True
    then show ?thesis using fl_links_at [of 0 n lpw h list m] Suc.prems lpw by (simp add: objects_def)
  next
    case False
    then show ?thesis using fl_links_at [of k n lpw h list m] Suc lpw by (simp add: objects_Suc)
  qed
qed simp

lemma fl_links_Suc:
  "0 < lpw \<Longrightarrow> 0 < n \<Longrightarrow> fl_links h lpw list (Suc n) m = (fl_links h lpw list n m)(h + n * lpw := h + n * lpw - lpw)"
  by (auto simp: fl_links_def objects_Suc fun_eq_iff)

lemma fl_links_0: "fl_links h lpw list (Suc 0) m = m(h := list)"
  by (auto simp: fl_links_def objects_def fun_eq_iff)

lemma objects_less: "a \<in> set (objects h lpw n) \<Longrightarrow> h \<le> a \<and> a + lpw \<le> h + n * lpw"
proof -
  assume "a \<in> set (objects h lpw n)"
  then obtain i where "a = h + i * lpw" "i < n" by (auto simp: set_objects)
  moreover from this have "Suc i * lpw \<le> n * lpw" by (intro mult_right_mono) simp_all
  ultimately show ?thesis by simp
qed

lemma fl_links_upd: "b \<notin> set (objects h lpw n) \<Longrightarrow> fl_links h lpw list n (m(b := v)) = (fl_links h lpw list n m)(b := v)"
  by (auto simp: fl_links_def fun_eq_iff)

text \<open>The clearing of the objects as they are linked is the clearing of the block before.\<close>

lemma BZERO_Suc: "BZERO h (Suc n) m = (BZERO h n m)(h + n := 0)"
  by (auto simp: BZERO_def fun_eq_iff)

lemma BZERO_0 [simp]: "BZERO h 0 m = m"
  by (auto simp: BZERO_def fun_eq_iff)

lemma next_not_object: "0 < lpw \<Longrightarrow> (n - 1) * lpw < k \<Longrightarrow> h + k \<notin> set (objects h lpw n)"
proof
  assume k: "0 < lpw" "(n - 1) * lpw < k" and "h + k \<in> set (objects h lpw n)"
  then obtain i where "k = i * lpw" "i < n" by (auto simp: set_objects)
  then have "n - 1 < i" using k(2) by (metis mult_less_cancel2)
  then show False using \<open>i < n\<close> by simp
qed

lemma links_zero:
  assumes "0 < lpw" "0 < n"
  shows "(fl_links h lpw list n (BZERO h (n * lpw) m))(h + n * lpw := h + n * lpw - lpw) =
    fl_links h lpw list (Suc n) (BZERO h (Suc (n * lpw)) m)"
proof -
  have "(n - 1) * lpw < n * lpw" using assms by simp
  from next_not_object [OF assms(1) this, of h] show ?thesis
    unfolding BZERO_Suc fl_links_Suc [OF assms] by (simp add: fl_links_upd)
qed

lemma links_zero_word:
  "0 < lpw \<Longrightarrow> (n - 1) * lpw < k \<Longrightarrow>
    (fl_links h lpw list n (BZERO h k m))(h + k := 0) = fl_links h lpw list n (BZERO h (Suc k) m)"
  by (simp only: BZERO_Suc) (rule fl_links_upd [symmetric], rule next_not_object)

section \<open>The loops\<close>

lemma fl2_rep:
  "0 < n \<Longrightarrow> fl2_loop (h + 2 * n) (h + 2 * n + 4 * k) (fl_links h 2 list n m) = (h + 2 * (n + 2 * k) - 2, fl_links h 2 list (n + 2 * k) m)"
proof (induction k arbitrary: n)
  case (Suc k)
  have "(fl_links h 2 list n m)(h + 2 * n := h + 2 * n - 2, h + 2 * n + 2 := h + 2 * n) = fl_links h 2 list (n + 2) m"
    using fl_links_Suc [of 2 n h list m] fl_links_Suc [of 2 "Suc n" h list m] Suc.prems by (simp add: algebra_simps)
  then have "fl2_loop (h + 2 * n) (h + 2 * n + 4 * Suc k) (fl_links h 2 list n m) =
      fl2_loop (h + 2 * (n + 2)) (h + 2 * (n + 2) + 4 * k) (fl_links h 2 list (n + 2) m)"
    by (subst fl2_loop.simps) (simp add: algebra_simps add_ac numeral_eq_Suc)
  also have "\<dots> = (h + 2 * (n + 2 + 2 * k) - 2, fl_links h 2 list (n + 2 + 2 * k) m)" by (rule Suc.IH) simp
  finally show ?case by simp
qed (simp add: fl2_loop.simps)

lemma fl4_rep:
  "0 < n \<Longrightarrow> fl4_loop (h + 4 * n) (h + 4 * n + 8 * k) (fl_links h 4 list n m) = (h + 4 * (n + 2 * k) - 4, fl_links h 4 list (n + 2 * k) m)"
proof (induction k arbitrary: n)
  case (Suc k)
  have "(fl_links h 4 list n m)(h + 4 * n := h + 4 * n - 4, h + 4 * n + 4 := h + 4 * n) = fl_links h 4 list (n + 2) m"
    using fl_links_Suc [of 4 n h list m] fl_links_Suc [of 4 "Suc n" h list m] Suc.prems by (simp add: algebra_simps)
  then have "fl4_loop (h + 4 * n) (h + 4 * n + 8 * Suc k) (fl_links h 4 list n m) =
      fl4_loop (h + 4 * (n + 2)) (h + 4 * (n + 2) + 8 * k) (fl_links h 4 list (n + 2) m)"
    by (subst fl4_loop.simps) (simp add: algebra_simps)
  also have "\<dots> = (h + 4 * (n + 2 + 2 * k) - 4, fl_links h 4 list (n + 2 + 2 * k) m)" by (rule Suc.IH) simp
  finally show ?case by simp
qed (simp add: fl4_loop.simps)

lemma clear2_step:
  "0 < n \<Longrightarrow> (fl_links h 2 list n (BZERO h (n * 2) m))(h + n * 2 := h + n * 2 - 2, h + Suc (n * 2) := 0, h + Suc n * 2 := h + Suc n * 2 - 2,
     h + Suc (Suc n * 2) := 0) = fl_links h 2 list (Suc (Suc n)) (BZERO h (Suc (Suc n) * 2) m)"
  using links_zero [of 2 n h list m] links_zero_word [of 2 "Suc n" "Suc (n * 2)" h list m]
    links_zero [of 2 "Suc n" h list m] links_zero_word [of 2 "Suc (Suc n)" "Suc (Suc n * 2)" h list m]
  by simp

lemma clear4_step:
  "0 < n \<Longrightarrow> (fl_links h 4 list n (BZERO h (n * 4) m))(h + n * 4 := h + n * 4 - 4, h + Suc (n * 4) := 0, h + Suc (Suc (n * 4)) := 0,
     h + Suc (Suc (Suc (n * 4))) := 0) = fl_links h 4 list (Suc n) (BZERO h (Suc n * 4) m)"
  using links_zero [of 4 n h list m] links_zero_word [of 4 "Suc n" "Suc (n * 4)" h list m]
    links_zero_word [of 4 "Suc n" "Suc (Suc (n * 4))" h list m] links_zero_word [of 4 "Suc n" "Suc (Suc (Suc (n * 4)))" h list m]
  by (simp add: numeral_eq_Suc)

lemma fl_clear2_rep:
  "0 < n \<Longrightarrow> fl_clear2_loop (h + n * 2) (h + (n + 2 * k) * 2) (fl_links h 2 list n (BZERO h (n * 2) m)) =
    (h + (n + 2 * k) * 2 - 2, fl_links h 2 list (n + 2 * k) (BZERO h ((n + 2 * k) * 2) m))"
proof (induction k arbitrary: n)
  case (Suc k)
  have "fl_clear2_loop (h + n * 2) (h + (n + 2 * Suc k) * 2) (fl_links h 2 list n (BZERO h (n * 2) m)) =
      fl_clear2_loop (h + (n + 2) * 2) (h + (n + 2 + 2 * k) * 2) (fl_links h 2 list (n + 2) (BZERO h ((n + 2) * 2) m))"
    using clear2_step [OF Suc.prems, of h list m] by (subst fl_clear2_loop.simps) (simp add: numeral_eq_Suc)
  also have "\<dots> = (h + (n + 2 + 2 * k) * 2 - 2, fl_links h 2 list (n + 2 + 2 * k) (BZERO h ((n + 2 + 2 * k) * 2) m))"
    by (rule Suc.IH) simp
  finally show ?case by simp
qed (simp add: fl_clear2_loop.simps)

lemma fl_clear4_rep:
  "0 < n \<Longrightarrow> fl_clear4_loop (h + n * 4) (h + (n + k) * 4) (fl_links h 4 list n (BZERO h (n * 4) m)) =
    (h + (n + k) * 4 - 4, fl_links h 4 list (n + k) (BZERO h ((n + k) * 4) m))"
proof (induction k arbitrary: n)
  case (Suc k)
  have "fl_clear4_loop (h + n * 4) (h + (n + Suc k) * 4) (fl_links h 4 list n (BZERO h (n * 4) m)) =
      fl_clear4_loop (h + (n + 1) * 4) (h + (n + 1 + k) * 4) (fl_links h 4 list (n + 1) (BZERO h ((n + 1) * 4) m))"
    using clear4_step [OF Suc.prems, of h list m] by (subst fl_clear4_loop.simps) (simp add: numeral_eq_Suc)
  also have "\<dots> = (h + (n + 1 + k) * 4 - 4, fl_links h 4 list (n + 1 + k) (BZERO h ((n + 1 + k) * 4) m))"
    by (rule Suc.IH) simp
  finally show ?case by simp
qed (simp add: fl_clear4_loop.simps)

text \<open>The other sizes: the link of the first object is written last.\<close>

lemma fl_loop_rep:
  assumes lpw: "0 < lpw" and lim: "plim < h + (n + k) * lpw"
  shows "0 < n \<Longrightarrow> 0 < k \<Longrightarrow> h + (n + k) * lpw \<le> plim + lpw \<Longrightarrow>
    fl_loop lpw (h + n * lpw) (h + n * lpw - lpw) plim (fl_links h lpw c n m) = (h + (n + k) * lpw - lpw, fl_links h lpw c (n + k) m)"
  using lim
proof (induction k arbitrary: n)
  case (Suc k)
  have le: "h + n * lpw \<le> plim" using Suc.prems(3) by (simp add: algebra_simps)
  have eq: "fl_loop lpw (h + n * lpw) (h + n * lpw - lpw) plim (fl_links h lpw c n m) =
      fl_loop lpw (h + Suc n * lpw) (h + Suc n * lpw - lpw) plim (fl_links h lpw c (Suc n) m)"
    using le lpw fl_links_Suc [OF lpw Suc.prems(1)] by (subst fl_loop.simps) (simp add: algebra_simps)
  show ?case
  proof (cases "k = 0")
    case True
    then have "\<not> h + Suc n * lpw \<le> plim" using Suc.prems(4) by simp
    then show ?thesis unfolding eq by (subst fl_loop.simps) (simp add: True)
  next
    case False
    then show ?thesis unfolding eq using Suc.IH [of "Suc n"] Suc.prems by simp
  qed
qed simp

lemma fl_links_first: "0 < n \<Longrightarrow> (fl_links h lpw c n m)(h := list) = fl_links h lpw list n m"
proof -
  assume "0 < n"
  then have "h \<in> set (objects h lpw n)" by (force simp: set_objects)
  then show ?thesis by (auto simp: fl_links_def fun_eq_iff)
qed

lemma fl_links_same: "fl_links h lpw (m h) (Suc 0) m = m"
  by (simp add: fl_links_0)

text \<open>All five routines build the same list.\<close>

lemma build_fl_rep:
  assumes lg: "0 < lg" "lg \<le> 256"
  defines "lpw \<equiv> 2 * lg"
  defines "n \<equiv> HBLK_WORDS div lpw"
  shows "GC_build_fl h list lg clear m =
    Inr (h + (n - 1) * lpw, fl_links h lpw list n (if clear then BZERO h HBLK_WORDS m else m))" and "0 < n"
proof -
  have lpw: "0 < lpw" "lpw \<le> 512" using lg by (simp_all add: lpw_def)
  then show n: "0 < n" by (simp add: n_def div_greater_zero_iff)
  have hd: "h + n * lpw - lpw = h + (n - 1) * lpw" using n by (cases n) simp_all
  show "GC_build_fl h list lg clear m =
    Inr (h + (n - 1) * lpw, fl_links h lpw list n (if clear then BZERO h HBLK_WORDS m else m))"
  proof (cases "lg = 1 \<or> lg = 2")
    case True
    then show ?thesis
    proof
      assume 1: "lg = 1"
      then have v: "lpw = 2" "n = 256" by (simp_all add: lpw_def n_def)
      have z: "m(h := list, h + 1 := 0, h + 2 := h, h + 3 := 0) = fl_links h 2 list 2 (BZERO h 4 m)"
        by (auto simp: fl_links_def objects_def BZERO_def fun_eq_iff numeral_eq_Suc)
      have "m(h := list, h + 2 := h) = fl_links h 2 list 2 m"
        by (auto simp: fl_links_def objects_def fun_eq_iff numeral_eq_Suc)
      then show ?thesis using fl2_rep [of 2 h 127 list m] fl_clear2_rep [of 2 h 127 list m] z 1 v
        by (simp add: GC_build_fl_def GRANULES_TO_PTRS_def GC_build_fl_clear2_def GC_build_fl2_def add.commute [of h])
    next
      assume 2: "lg = 2"
      then have v: "lpw = 4" "n = 128" by (simp_all add: lpw_def n_def)
      have z: "m(h := list, h + 1 := 0, h + 2 := 0, h + 3 := 0) = fl_links h 4 list 1 (BZERO h 4 m)"
        by (auto simp: fl_links_def objects_def BZERO_def fun_eq_iff numeral_eq_Suc)
      have "m(h := list, h + 4 := h) = fl_links h 4 list 2 m"
        by (auto simp: fl_links_def objects_def fun_eq_iff numeral_eq_Suc)
      then show ?thesis using fl4_rep [of 2 h 63 list m] fl_clear4_rep [of 1 h 127 list m] z 2 v
        by (simp add: GC_build_fl_def GRANULES_TO_PTRS_def GC_build_fl_clear4_def GC_build_fl4_def add.commute [of h])
    qed
  next
    case False
    let ?m = "if clear then BZERO h HBLK_WORDS m else m"
    have fits: "n * lpw \<le> 512" "512 < n * lpw + lpw"
      using lpw(1) dividend_less_div_times [of lpw 512] by (simp_all add: n_def)
    have "fl_loop lpw (h + lpw) h (h + HBLK_WORDS - lpw) ?m = (h + n * lpw - lpw, fl_links h lpw (?m h) n ?m)"
    proof (cases "n = 1")
      case True
      then have "\<not> h + lpw \<le> h + HBLK_WORDS - lpw" using fits lpw(2) by simp
      then show ?thesis using True by (subst fl_loop.simps) (simp add: fl_links_same)
    next
      case ne: False
      then have "fl_loop lpw (h + 1 * lpw) (h + 1 * lpw - lpw) (h + HBLK_WORDS - lpw) (fl_links h lpw (?m h) 1 ?m) =
          (h + (1 + (n - 1)) * lpw - lpw, fl_links h lpw (?m h) (1 + (n - 1)) ?m)"
        using fits lpw n by (intro fl_loop_rep) (simp_all add: algebra_simps)
      then show ?thesis using n by (simp add: fl_links_same)
    qed
    moreover have "GRANULES_TO_PTRS lg = lpw" "lpw \<noteq> 0" "lpw \<noteq> 2" "lpw \<noteq> 4"
      using False lg by (simp_all add: GRANULES_TO_PTRS_def lpw_def)
    ultimately show ?thesis using hd by (simp add: GC_build_fl_def Let_def fl_links_first [OF n])
  qed
qed

section \<open>Sweeping\<close>

lemma clear_loop_rep: "clear_loop p (p + 2 * k) m = (p + 2 * k, BZERO p (2 * k) m)"
proof (induction k arbitrary: p m)
  case (Suc k)
  have "clear_loop p (p + 2 * Suc k) m = clear_loop (p + 2) (p + 2 + 2 * k) (m(p := 0, p + 1 := 0))"
    by (subst clear_loop.simps) simp
  also have "\<dots> = (p + 2 + 2 * k, BZERO (p + 2) (2 * k) (m(p := 0, p + 1 := 0)))" by (rule Suc.IH)
  also have "BZERO (p + 2) (2 * k) (m(p := 0, p + 1 := 0)) = BZERO p (2 * Suc k) m" by (auto simp: BZERO_def fun_eq_iff)
  finally show ?case by simp
qed (simp add: clear_loop.simps)

lemma clear_block_rep:
  assumes "0 < lg"
  shows "GC_clear_block q (16 * lg) count m = (q + 2 * lg, count + 16 * lg, BZERO (q + 1) (2 * lg - 1) m)"
proof -
  obtain k where k: "lg = Suc k" using assms gr0_implies_Suc by blast
  have "BZERO (q + 2) (2 * k) (m(q + 1 := 0)) = BZERO (q + 1) (2 * lg - 1) m" by (auto simp: BZERO_def fun_eq_iff k)
  then show ?thesis using clear_loop_rep [of "q + 2" k "m(q + 1 := 0)"]
    by (simp add: GC_clear_block_def BYTES_TO_PTRS_def k)
qed

definition object_words :: "nat \<Rightarrow> nat \<Rightarrow> nat \<Rightarrow> nat set" where
  "object_words h lpw i = {h + i * lpw..<h + Suc i * lpw}"

lemma object_words_disjoint: "i \<noteq> j \<Longrightarrow> object_words h lpw i \<inter> object_words h lpw j = {}"
proof -
  have "object_words h lpw i \<inter> object_words h lpw j = {}" if "i < j" for i j
  proof -
    have "Suc i * lpw \<le> j * lpw" using that by (intro mult_right_mono) simp_all
    then show ?thesis by (auto simp: object_words_def)
  qed
  then show "i \<noteq> j \<Longrightarrow> ?thesis" by (cases "i < j") (auto simp: not_less_iff_gr_or_eq)
qed

text \<open>
  The effect of a sweep that frees the objects with the numbers \<open>free\<close>: they are put in front of the list,
  their other words are cleared if that is asked for, and nothing else changes.
\<close>

definition swept :: "nat \<Rightarrow> nat \<Rightarrow> bool \<Rightarrow> nat list \<Rightarrow> nat \<Rightarrow> memory \<Rightarrow> nat \<Rightarrow> memory \<Rightarrow> bool" where
  "swept h lpw clear free list m list' m' \<longleftrightarrow>
     (\<forall>ps q. linked m list ps q \<longrightarrow> (\<forall>i \<in> set free. set ps \<inter> object_words h lpw i = {}) \<longrightarrow>
        linked m' list' (rev (map (\<lambda>i. h + i * lpw) free) @ ps) q) \<and>
     (\<forall>a. (\<forall>i \<in> set free. a \<notin> object_words h lpw i) \<longrightarrow> m' a = m a) \<and>
     (\<forall>i \<in> set free. \<forall>a \<in> object_words h lpw i. a \<noteq> h + i * lpw \<longrightarrow> m' a = (if clear then 0 else m a))"

lemma swept_Nil [simp]: "swept h lpw clear [] list m list m"
  by (simp add: swept_def)

lemma swept_Cons:
  assumes lpw: "0 < lpw" and i: "i \<notin> set free"
    and s: "swept h lpw clear free (h + i * lpw) m1 list' m'"
    and m1: "m1 = (if clear then BZERO (h + i * lpw + 1) (lpw - 1) else id) (m(h + i * lpw := list))"
  shows "swept h lpw clear (i # free) list m list' m'"
proof -
  let ?p = "h + i * lpw"
  have p: "?p \<in> object_words h lpw i" using lpw by (simp add: object_words_def)
  have out: "m1 a = m a" if "a \<notin> object_words h lpw i" for a
    using that lpw unfolding m1 by (auto simp: BZERO_def object_words_def)
  have at: "m1 ?p = list" unfolding m1 by (simp add: BZERO_def)
  have inn: "m1 a = (if clear then 0 else m a)" if "a \<in> object_words h lpw i" "a \<noteq> ?p" for a
    using that lpw unfolding m1 by (auto simp: BZERO_def object_words_def)
  have dis: "a \<notin> object_words h lpw j" if "a \<in> object_words h lpw i" "j \<in> set free" for a j
    using that i object_words_disjoint [of i j h lpw] by auto
  have link: "linked m' list' (rev (map (\<lambda>i. h + i * lpw) (i # free)) @ ps) q"
    if l: "linked m list ps q" and d: "\<forall>j \<in> set (i # free). set ps \<inter> object_words h lpw j = {}" for ps q
  proof -
    have "linked m1 list ps q" using l d out by (subst linked_cong [of ps m1 m]) auto
    then have "linked m1 ?p (?p # ps) q" using at by simp
    moreover have "\<forall>j \<in> set free. set (?p # ps) \<inter> object_words h lpw j = {}" using d dis [OF p] by auto
    ultimately have "linked m' list' (rev (map (\<lambda>i. h + i * lpw) free) @ ?p # ps) q" using s by (simp add: swept_def)
    then show ?thesis by simp
  qed
  have same: "m' a = m a" if "\<forall>j \<in> set (i # free). a \<notin> object_words h lpw j" for a
    using that s out by (simp add: swept_def)
  have own: "m' a = (if clear then 0 else m a)" if "a \<in> object_words h lpw i" "a \<noteq> ?p" for a
    using that s dis inn by (simp add: swept_def)
  have other: "m' a = (if clear then 0 else m a)" if j: "j \<in> set free" "a \<in> object_words h lpw j" "a \<noteq> h + j * lpw" for a j
  proof -
    have "a \<notin> object_words h lpw i" using j(1,2) dis by blast
    then show ?thesis using s j out [of a] by (simp add: swept_def)
  qed
  show ?thesis unfolding swept_def using link same own other by auto
qed

text \<open>The loops, from object \<open>i\<close> on; a block has \<open>n\<close> objects.\<close>

definition unmarked :: "hdr \<Rightarrow> nat \<Rightarrow> nat \<Rightarrow> nat \<Rightarrow> nat list" where
  "unmarked hhdr lg i n = filter (\<lambda>i. \<not> hb_marks hhdr (i * lg)) [i..<n]"

lemma unmarked_Suc: "i < n \<Longrightarrow> unmarked hhdr lg i n = (if hb_marks hhdr (i * lg) then [] else [i]) @ unmarked hhdr lg (Suc i) n"
  by (simp add: unmarked_def upt_conv_Cons)

lemma sweep_bounds:
  assumes lg: "0 < lg" "lg \<le> 256"
  defines "n \<equiv> HBLK_WORDS div (2 * lg)"
  shows "h + i * (2 * lg) \<le> h + HBLK_WORDS - 2 * lg \<longleftrightarrow> i < n"
proof -
  have "h + i * (2 * lg) \<le> h + HBLK_WORDS - 2 * lg \<longleftrightarrow> Suc i * (2 * lg) \<le> HBLK_WORDS" using lg by auto
  also have "\<dots> \<longleftrightarrow> Suc i \<le> n" using lg(1) by (simp only: n_def less_eq_div_iff_mult_less_eq)
  finally show ?thesis by auto
qed

lemma object_size: "BYTES_TO_PTRS (16 * lg) = 2 * lg" "MARK_BIT_OFFSET (16 * lg) = lg"
  by (simp_all add: BYTES_TO_PTRS_def MARK_BIT_OFFSET_def BYTES_TO_GRANULES_def)

lemma reclaim_clear_rep:
  assumes lg: "0 < lg" "lg \<le> 256"
  defines "n \<equiv> HBLK_WORDS div (2 * lg)"
  shows "\<exists>list' m'. reclaim_clear_loop hhdr (16 * lg) (h + HBLK_WORDS - 2 * lg) (h + i * (2 * lg)) (i * lg) list count m =
      (list', count + 16 * lg * length (unmarked hhdr lg i n), m') \<and> swept h (2 * lg) True (unmarked hhdr lg i n) list m list' m'"
proof (induction "n - i" arbitrary: i list count m)
  case 0
  then have "\<not> i < n" by simp
  then have "unmarked hhdr lg i n = []" by (simp add: unmarked_def)
  moreover have "\<not> h + i * (2 * lg) \<le> h + HBLK_WORDS - 2 * lg"
    using \<open>\<not> i < n\<close> sweep_bounds [OF lg, of h i] by (simp add: n_def)
  ultimately show ?case by (subst reclaim_clear_loop.simps) simp
next
  case (Suc k)
  then have i: "i < n" by simp
  then have le: "h + i * (2 * lg) \<le> h + HBLK_WORDS - 2 * lg" using sweep_bounds [OF lg, of h i] by (simp add: n_def)
  have k: "k = n - Suc i" using Suc.hyps(2) by simp
  show ?case
  proof (cases "hb_marks hhdr (i * lg)")
    case True
    then have "reclaim_clear_loop hhdr (16 * lg) (h + HBLK_WORDS - 2 * lg) (h + i * (2 * lg)) (i * lg) list count m =
        reclaim_clear_loop hhdr (16 * lg) (h + HBLK_WORDS - 2 * lg) (h + Suc i * (2 * lg)) (Suc i * lg) list count m"
      using le lg(1) by (subst reclaim_clear_loop.simps) (simp add: object_size mark_bit_from_hdr_def add_ac)
    then show ?thesis using Suc.hyps(1) [OF k] True i by (simp add: unmarked_Suc)
  next
    case False
    let ?m = "BZERO (h + i * (2 * lg) + 1) (2 * lg - 1) (m(h + i * (2 * lg) := list))"
    have step: "reclaim_clear_loop hhdr (16 * lg) (h + HBLK_WORDS - 2 * lg) (h + i * (2 * lg)) (i * lg) list count m =
        reclaim_clear_loop hhdr (16 * lg) (h + HBLK_WORDS - 2 * lg) (h + Suc i * (2 * lg)) (Suc i * lg)
          (h + i * (2 * lg)) (count + 16 * lg) ?m"
      using False le lg(1) by (subst reclaim_clear_loop.simps) (simp add: object_size mark_bit_from_hdr_def clear_block_rep add_ac)
    obtain list' m' where ih: "reclaim_clear_loop hhdr (16 * lg) (h + HBLK_WORDS - 2 * lg) (h + Suc i * (2 * lg)) (Suc i * lg)
          (h + i * (2 * lg)) (count + 16 * lg) ?m = (list', count + 16 * lg + 16 * lg * length (unmarked hhdr lg (Suc i) n), m')"
        "swept h (2 * lg) True (unmarked hhdr lg (Suc i) n) (h + i * (2 * lg)) ?m list' m'"
      using Suc.hyps(1) [OF k] by blast
    have "i \<notin> set (unmarked hhdr lg (Suc i) n)" by (simp add: unmarked_def)
    with ih(2) have "swept h (2 * lg) True (i # unmarked hhdr lg (Suc i) n) list m list' m'"
      using lg(1) by (intro swept_Cons) simp_all
    then show ?thesis using step ih(1) False i by (simp add: unmarked_Suc algebra_simps)
  qed
qed


lemma reclaim_uninit_rep:
  assumes lg: "0 < lg" "lg \<le> 256"
  defines "n \<equiv> HBLK_WORDS div (2 * lg)"
  shows "\<exists>list' m'. reclaim_uninit_loop hhdr (16 * lg) (h + HBLK_WORDS - 2 * lg) (h + i * (2 * lg)) (i * lg) list count m =
      (list', count + 16 * lg * length (unmarked hhdr lg i n), m') \<and> swept h (2 * lg) False (unmarked hhdr lg i n) list m list' m'"
proof (induction "n - i" arbitrary: i list count m)
  case 0
  then have i: "\<not> i < n" by simp
  then have "unmarked hhdr lg i n = []" by (simp add: unmarked_def)
  moreover have "\<not> h + i * (2 * lg) \<le> h + HBLK_WORDS - 2 * lg" using i sweep_bounds [OF lg, of h i] by (simp add: n_def)
  ultimately show ?case by (subst reclaim_uninit_loop.simps) simp
next
  case (Suc k)
  then have i: "i < n" by simp
  then have le: "h + i * (2 * lg) \<le> h + HBLK_WORDS - 2 * lg" using sweep_bounds [OF lg, of h i] by (simp add: n_def)
  have k: "k = n - Suc i" using Suc.hyps(2) by simp
  show ?case
  proof (cases "hb_marks hhdr (i * lg)")
    case True
    then have "reclaim_uninit_loop hhdr (16 * lg) (h + HBLK_WORDS - 2 * lg) (h + i * (2 * lg)) (i * lg) list count m =
        reclaim_uninit_loop hhdr (16 * lg) (h + HBLK_WORDS - 2 * lg) (h + Suc i * (2 * lg)) (Suc i * lg) list count m"
      using le lg(1) by (subst reclaim_uninit_loop.simps) (simp add: object_size mark_bit_from_hdr_def add_ac)
    then show ?thesis using Suc.hyps(1) [OF k] True i by (simp add: unmarked_Suc)
  next
    case False
    let ?m = "m(h + i * (2 * lg) := list)"
    have step: "reclaim_uninit_loop hhdr (16 * lg) (h + HBLK_WORDS - 2 * lg) (h + i * (2 * lg)) (i * lg) list count m =
        reclaim_uninit_loop hhdr (16 * lg) (h + HBLK_WORDS - 2 * lg) (h + Suc i * (2 * lg)) (Suc i * lg)
          (h + i * (2 * lg)) (count + 16 * lg) ?m"
      using False le lg(1) by (subst reclaim_uninit_loop.simps) (simp add: object_size mark_bit_from_hdr_def add_ac)
    obtain list' m' where ih: "reclaim_uninit_loop hhdr (16 * lg) (h + HBLK_WORDS - 2 * lg) (h + Suc i * (2 * lg)) (Suc i * lg)
          (h + i * (2 * lg)) (count + 16 * lg) ?m = (list', count + 16 * lg + 16 * lg * length (unmarked hhdr lg (Suc i) n), m')"
        "swept h (2 * lg) False (unmarked hhdr lg (Suc i) n) (h + i * (2 * lg)) ?m list' m'"
      using Suc.hyps(1) [OF k] by blast
    have "i \<notin> set (unmarked hhdr lg (Suc i) n)" by (simp add: unmarked_def)
    with ih(2) have "swept h (2 * lg) False (i # unmarked hhdr lg (Suc i) n) list m list' m'"
      using lg(1) by (intro swept_Cons) simp_all
    then show ?thesis using step ih(1) False i by (simp add: unmarked_Suc algebra_simps)
  qed
qed


text \<open>With callbacks, an unmarked object that the client keeps is marked instead.\<close>

definition kept_marks :: "(nat \<Rightarrow> bool) \<Rightarrow> nat \<Rightarrow> nat \<Rightarrow> nat list \<Rightarrow> hdr \<Rightarrow> hdr" where
  "kept_marks disclaim h lg is hhdr =
     fold (\<lambda>i hhdr. if disclaim (h + i * (2 * lg)) then INCR_MARKS (set_mark_bit_from_hdr (i * lg) hhdr) else hhdr)
       is hhdr"

lemma unmarked_set: "0 < lg \<Longrightarrow> j < i \<Longrightarrow> unmarked (INCR_MARKS (set_mark_bit_from_hdr (j * lg) hhdr)) lg i n = unmarked hhdr lg i n"
  by (auto simp: unmarked_def INCR_MARKS_def set_mark_bit_from_hdr_def intro!: filter_cong)

lemma disclaim_rep:
  assumes lg: "0 < lg" "lg \<le> 256"
  defines "n \<equiv> HBLK_WORDS div (2 * lg)"
  shows "\<exists>list' m'. disclaim_loop disclaim hhdr (16 * lg) (h + HBLK_WORDS - 2 * lg) (h + i * (2 * lg)) (i * lg) list count m =
      (kept_marks disclaim h lg (unmarked hhdr lg i n) hhdr, list',
       count + 16 * lg * length (filter (\<lambda>i. \<not> disclaim (h + i * (2 * lg))) (unmarked hhdr lg i n)), m') \<and>
      swept h (2 * lg) True (filter (\<lambda>i. \<not> disclaim (h + i * (2 * lg))) (unmarked hhdr lg i n)) list m list' m'"
proof (induction "n - i" arbitrary: i hhdr list count m)
  case 0
  then have i: "\<not> i < n" by simp
  then have "unmarked hhdr lg i n = []" by (simp add: unmarked_def)
  moreover have "\<not> h + i * (2 * lg) \<le> h + HBLK_WORDS - 2 * lg" using i sweep_bounds [OF lg, of h i] by (simp add: n_def)
  ultimately show ?case by (subst disclaim_loop.simps) (simp add: kept_marks_def)
next
  case (Suc k)
  then have i: "i < n" by simp
  then have le: "h + i * (2 * lg) \<le> h + HBLK_WORDS - 2 * lg" using sweep_bounds [OF lg, of h i] by (simp add: n_def)
  have k: "k = n - Suc i" using Suc.hyps(2) by simp
  let ?free = "filter (\<lambda>i. \<not> disclaim (h + i * (2 * lg))) (unmarked hhdr lg (Suc i) n)"
  let ?loop = "\<lambda>hhdr i. disclaim_loop disclaim hhdr (16 * lg) (h + HBLK_WORDS - 2 * lg) (h + i * (2 * lg)) (i * lg)"
  consider (marked) "hb_marks hhdr (i * lg)" | (kept) "\<not> hb_marks hhdr (i * lg)" "disclaim (h + i * (2 * lg))" |
    (free) "\<not> hb_marks hhdr (i * lg)" "\<not> disclaim (h + i * (2 * lg))" by blast
  then show ?case
  proof cases
    case marked
    then have "?loop hhdr i list count m = ?loop hhdr (Suc i) list count m"
      using le lg(1) by (subst disclaim_loop.simps) (simp add: object_size mark_bit_from_hdr_def add_ac)
    then show ?thesis using Suc.hyps(1) [OF k] marked i by (simp add: unmarked_Suc)
  next
    case kept
    let ?hhdr = "INCR_MARKS (set_mark_bit_from_hdr (i * lg) hhdr)"
    have "?loop hhdr i list count m = ?loop ?hhdr (Suc i) list count m"
      using kept le lg(1) by (subst disclaim_loop.simps) (simp add: object_size mark_bit_from_hdr_def add_ac)
    then show ?thesis using Suc.hyps(1) [OF k, of ?hhdr list count m] kept i lg(1)
      by (simp add: unmarked_Suc unmarked_set kept_marks_def)
  next
    case free
    let ?m = "BZERO (h + i * (2 * lg) + 1) (2 * lg - 1) (m(h + i * (2 * lg) := list))"
    have step: "?loop hhdr i list count m = ?loop hhdr (Suc i) (h + i * (2 * lg)) (count + 16 * lg) ?m"
      using free le lg(1) by (subst disclaim_loop.simps) (simp add: object_size mark_bit_from_hdr_def clear_block_rep add_ac)
    obtain list' m' where ih: "?loop hhdr (Suc i) (h + i * (2 * lg)) (count + 16 * lg) ?m =
          (kept_marks disclaim h lg (unmarked hhdr lg (Suc i) n) hhdr, list', count + 16 * lg + 16 * lg * length ?free, m')"
        "swept h (2 * lg) True ?free (h + i * (2 * lg)) ?m list' m'"
      using Suc.hyps(1) [OF k] by blast
    have "i \<notin> set ?free" by (simp add: unmarked_def)
    with ih(2) have "swept h (2 * lg) True (i # ?free) list m list' m'" using lg(1) by (intro swept_Cons) simp_all
    then show ?thesis using step ih(1) free i by (simp add: unmarked_Suc kept_marks_def algebra_simps)
  qed
qed

lemma kept_marks_mark:
  "hb_marks (kept_marks disclaim h lg is hhdr) a \<longleftrightarrow> hb_marks hhdr a \<or> (\<exists>i \<in> set is. a = i * lg \<and> disclaim (h + i * (2 * lg)))"
  by (induction "is" arbitrary: hhdr) (auto simp: kept_marks_def INCR_MARKS_def set_mark_bit_from_hdr_def)

lemma kept_marks_count:
  "hb_n_marks (kept_marks disclaim h lg is hhdr) = hb_n_marks hhdr + length (filter (\<lambda>i. disclaim (h + i * (2 * lg))) is)"
  by (induction "is" arbitrary: hhdr) (auto simp: kept_marks_def INCR_MARKS_def set_mark_bit_from_hdr_def)

section \<open>Properties\<close>

lemma fl_links_spec:
  assumes "0 < lpw" "0 < n" "linked m list ps q" "set ps \<inter> set (objects h lpw n) = {}"
  shows "linked (fl_links h lpw list n m) (h + (n - 1) * lpw) (rev (objects h lpw n) @ ps) q"
proof -
  have "linked (fl_links h lpw list n m) list ps q"
    using assms(3,4) by (subst linked_cong [of ps _ m]) (auto simp: fl_links_def)
  moreover have "linked (fl_links h lpw list n m) (h + (n - 1) * lpw) (rev (objects h lpw n)) list"
    using fl_links_linked [of lpw n n h list m] assms(1,2) by simp
  ultimately show ?thesis unfolding linked_append by blast
qed

lemma BZERO_same: "a < p \<or> p + k \<le> a \<Longrightarrow> BZERO p k m a = m a"
  by (auto simp: BZERO_def)

text \<open>
  C12: GC_build_fl, for any size of object that has free lists, puts all objects of the new block in front of the old
  list, the last object first.  The specialised routines for two and four words do the same as the general loop.
  Words of the block that are no links are cleared if that is asked for, and no other word is changed.
\<close>

theorem new_block_list:
  assumes "0 < lg" "lg \<le> 256" and "set ps \<inter> {h..<h + HBLK_WORDS} = {}" and "linked m list ps q"
  shows "case GC_build_fl h list lg clear m of Inl e \<Rightarrow> False
    | Inr (list', m') \<Rightarrow>
        (let os = objects h (GRANULES_TO_PTRS lg) (HBLK_OBJS (GRANULES_TO_BYTES lg)) in
          linked m' list' (rev os @ ps) q \<and>
          (\<forall>a. a \<notin> set os \<longrightarrow> m' a = (if clear \<and> a \<in> {h..<h + HBLK_WORDS} then 0 else m a)))"
proof -
  define n where "n = HBLK_WORDS div (2 * lg)"
  let ?m = "if clear then BZERO h HBLK_WORDS m else m"
  have n: "0 < n" "n * (2 * lg) \<le> 512" using build_fl_rep(2) [OF assms(1,2)] by (simp_all add: n_def)
  have num: "HBLK_OBJS (GRANULES_TO_BYTES lg) = n"
    by (simp add: HBLK_OBJS_def GRANULES_TO_BYTES_def n_def div_mult2_eq)
  have out: "a \<notin> set (objects h (2 * lg) n)" if "a \<in> set ps" for a
  proof
    assume "a \<in> set (objects h (2 * lg) n)"
    from objects_less [OF this] have "h \<le> a" "a + 2 * lg \<le> h + n * (2 * lg)" by simp_all
    then have "h \<le> a" "a < h + 512" using n(2) assms(1) by linarith+
    then have "a \<in> {h..<h + HBLK_WORDS}" by simp
    then show False using that assms(3) by blast
  qed
  have "linked ?m list ps q"
  proof (subst linked_cong [of ps _ m])
    fix a assume "a \<in> set ps"
    then have "a < h \<or> h + HBLK_WORDS \<le> a" using assms(3) by force
    then show "?m a = m a" by (simp add: BZERO_same)
  qed (rule assms(4))
  then have "linked (fl_links h (2 * lg) list n ?m) (h + (n - 1) * (2 * lg)) (rev (objects h (2 * lg) n) @ ps) q"
    using assms(1) n(1) out by (intro fl_links_spec) auto
  moreover have "fl_links h (2 * lg) list n ?m a = (if clear \<and> a \<in> {h..<h + HBLK_WORDS} then 0 else m a)"
    if "a \<notin> set (objects h (2 * lg) n)" for a
    using that by (simp add: fl_links_def BZERO_def)
  ultimately show ?thesis
    using build_fl_rep(1) [OF assms(1,2), of h list clear m] by (simp add: num GRANULES_TO_PTRS_def n_def Let_def)
qed

theorem new_block_list_witness:
  "case GC_build_fl 512 5 1 True ((\<lambda>_. 7)(5 := 0)) of Inl e \<Rightarrow> False
    | Inr (list', m') \<Rightarrow> linked m' list' (rev (objects 512 2 256) @ [5]) 0 \<and> m' 513 = 0 \<and> m' 4 = 7"
proof -
  have os: "513 \<notin> set (objects 512 2 256)" "4 \<notin> set (objects 512 2 256)" by (auto simp: set_objects)
  show ?thesis
    using new_block_list [of 1 "[5]" 512 "(\<lambda>_. 7)(5 := 0)" 5 0 True] os
    by (auto simp: Let_def GRANULES_TO_PTRS_def GRANULES_TO_BYTES_def HBLK_OBJS_def split: sum.splits)
qed


text \<open>The objects a sweep frees: those without a mark, and not kept by the client's callback if there is one.\<close>

definition freed :: "(nat \<Rightarrow> bool) \<Rightarrow> nat \<Rightarrow> hdr \<Rightarrow> nat \<Rightarrow> nat list" where
  "freed disclaim h hhdr lg =
     filter (\<lambda>i. \<not> (hb_flags hhdr AND HAS_DISCLAIM \<noteq> 0 \<and> disclaim (h + i * (2 * lg)))) (unmarked hhdr lg 0 (HBLK_WORDS div (2 * lg)))"

lemma kept_marks_fields [simp]:
  "hb_obj_kind (kept_marks disclaim h lg is hhdr) = hb_obj_kind hhdr" "hb_sz (kept_marks disclaim h lg is hhdr) = hb_sz hhdr"
  by (induction "is" arbitrary: hhdr) (auto simp: kept_marks_def INCR_MARKS_def set_mark_bit_from_hdr_def)

lemma reclaim_generic_rep:
  fixes disclaim dbg h hhdr init
  assumes lg: "0 < lg" "lg \<le> 256"
  obtains list' m' hhdr' where "GC_reclaim_generic disclaim dbg h hhdr (16 * lg) init list count m =
      (if IS_UNCOLLECTABLE (hb_obj_kind hhdr) then GC_set_hdr_marks hhdr' else hhdr', list',
        count + 16 * lg * length (freed disclaim h hhdr lg), m')"
    and "swept h (2 * lg) (hb_flags hhdr AND HAS_DISCLAIM \<noteq> 0 \<or> init \<or> dbg) (freed disclaim h hhdr lg) list m list' m'"
    and "hhdr' = (if hb_flags hhdr AND HAS_DISCLAIM \<noteq> 0
      then kept_marks disclaim h lg (unmarked hhdr lg 0 (HBLK_WORDS div (2 * lg))) hhdr else hhdr)"
proof (cases "hb_flags hhdr AND HAS_DISCLAIM = 0")
  case False
  then show ?thesis using disclaim_rep [OF lg, of disclaim hhdr h 0 list count m] that
    by (auto simp: GC_reclaim_generic_def GC_disclaim_and_reclaim_def freed_def object_size)
next
  case True
  then have free: "freed disclaim h hhdr lg = unmarked hhdr lg 0 (HBLK_WORDS div (2 * lg))" by (simp add: freed_def)
  show ?thesis
  proof (cases "init \<or> dbg")
    case True
    then show ?thesis using \<open>hb_flags hhdr AND HAS_DISCLAIM = 0\<close> reclaim_clear_rep [OF lg, of hhdr h 0 list count m] that
      unfolding free by (auto simp: GC_reclaim_generic_def GC_reclaim_clear_def object_size)
  next
    case False
    then show ?thesis using \<open>hb_flags hhdr AND HAS_DISCLAIM = 0\<close> reclaim_uninit_rep [OF lg, of hhdr h 0 list 0 m] that
      unfolding free by (auto simp: GC_reclaim_generic_def GC_reclaim_uninit_def object_size)
  qed
qed

lemma object_in_block:
  "0 < lg \<Longrightarrow> i < HBLK_WORDS div (2 * lg) \<Longrightarrow> object_words h (2 * lg) i \<subseteq> {h..<h + HBLK_WORDS}"
proof -
  assume lg: "0 < lg" and i: "i < HBLK_WORDS div (2 * lg)"
  then have "Suc i \<le> HBLK_WORDS div (2 * lg)" by simp
  then have "Suc i * (2 * lg) \<le> HBLK_WORDS" using lg by (simp only: less_eq_div_iff_mult_less_eq)
  then show ?thesis by (auto simp: object_words_def)
qed

definition sample_hdr :: hdr where
  "sample_hdr = \<lparr>hb_next = 0, hb_prev = 0, hb_block = 512, hb_obj_kind = NORMAL, hb_flags = 0, hb_last_reclaimed = 0,
     hb_sz = 2048, hb_descr = 0, hb_map = 0, hb_n_marks = 1, hb_marks = \<lambda>_. False\<rparr>"

text \<open>
  C11: The sweep of a block (GC_reclaim_generic, in its three forms) puts exactly the unmarked objects that the client
  does not keep in front of the free list, the last one first, and counts their bytes; it clears them, their links
  excepted, unless the kind does not ask for that; it changes no word of a marked or kept object or outside the block.
  For a collectable kind exactly the objects the client keeps are newly marked.
\<close>

theorem sweep_frees_unmarked:
  assumes "0 < lg" "lg \<le> 256" and "set ps \<inter> {h..<h + HBLK_WORDS} = {}" and "linked m list ps q"
  shows "case GC_reclaim_generic disclaim dbg h hhdr (GRANULES_TO_BYTES lg) init list count m of (hhdr', list', count', m') \<Rightarrow>
    (let free = freed disclaim h hhdr lg; object = (\<lambda>i. {h + i * (2 * lg)..<h + Suc i * (2 * lg)}) in
      linked m' list' (rev (map (\<lambda>i. h + i * (2 * lg)) free) @ ps) q \<and>
      count' = count + GRANULES_TO_BYTES lg * length free \<and>
      (\<forall>a. (\<forall>i \<in> set free. a \<notin> object i) \<longrightarrow> m' a = m a) \<and>
      (\<forall>i \<in> set free. \<forall>a \<in> object i. a \<noteq> h + i * (2 * lg) \<longrightarrow>
        m' a = (if hb_flags hhdr AND HAS_DISCLAIM \<noteq> 0 \<or> init \<or> dbg then 0 else m a)) \<and>
      (\<not> IS_UNCOLLECTABLE (hb_obj_kind hhdr) \<longrightarrow> (\<forall>i < HBLK_WORDS div (2 * lg). hb_marks hhdr' (i * lg) \<longleftrightarrow>
        hb_marks hhdr (i * lg) \<or> i \<notin> set free)))"
proof -
  obtain list' m' hhdr' where r: "GC_reclaim_generic disclaim dbg h hhdr (16 * lg) init list count m =
      (if IS_UNCOLLECTABLE (hb_obj_kind hhdr) then GC_set_hdr_marks hhdr' else hhdr', list',
        count + 16 * lg * length (freed disclaim h hhdr lg), m')"
    and s: "swept h (2 * lg) (hb_flags hhdr AND HAS_DISCLAIM \<noteq> 0 \<or> init \<or> dbg) (freed disclaim h hhdr lg) list m list' m'"
    and hd: "hhdr' = (if hb_flags hhdr AND HAS_DISCLAIM \<noteq> 0
      then kept_marks disclaim h lg (unmarked hhdr lg 0 (HBLK_WORDS div (2 * lg))) hhdr else hhdr)"
    by (rule reclaim_generic_rep [OF assms(1,2)])
  have objs: "object_words h (2 * lg) i \<subseteq> {h..<h + HBLK_WORDS}" if "i \<in> set (freed disclaim h hhdr lg)" for i
    using that object_in_block [OF assms(1), of i h] by (auto simp: freed_def unmarked_def)
  have link: "linked m' list' (rev (map (\<lambda>i. h + i * (2 * lg)) (freed disclaim h hhdr lg)) @ ps) q"
    using s assms(3,4) objs unfolding swept_def by blast
  have marks: "hb_marks hhdr' (i * lg) \<longleftrightarrow> hb_marks hhdr (i * lg) \<or> i \<notin> set (freed disclaim h hhdr lg)"
    if "i < HBLK_WORDS div (2 * lg)" for i
    using that assms(1) by (auto simp: hd kept_marks_mark freed_def unmarked_def)
  show ?thesis unfolding GRANULES_TO_BYTES_def r Let_def prod.case
    using link s marks by (auto simp: swept_def object_words_def)
qed

theorem sweep_frees_unmarked_witness:
  "case GC_reclaim_generic (\<lambda>_. False) False 512 (sample_hdr\<lparr>hb_marks := \<lambda>i. i = 0 \<or> i = 256\<rparr>) (GRANULES_TO_BYTES 128) True 5 0 ((\<lambda>_. 7)(5 := 0)) of
    (hhdr', list', count', m') \<Rightarrow> linked m' list' [768, 5] 0 \<and> count' = 2048 \<and> m' 769 = 0 \<and> m' 513 = 7"
proof -
  let ?hhdr = "sample_hdr\<lparr>hb_marks := \<lambda>i. i = 0 \<or> i = 256\<rparr>"
  have f: "freed (\<lambda>_. False) 512 ?hhdr 128 = [1]"
    by (simp add: freed_def unmarked_def sample_hdr_def upt_rec)
  show ?thesis
    using sweep_frees_unmarked [where lg = 128 and ps = "[5]" and h = 512 and m = "(\<lambda>_. 7)(5 := 0)" and list = 5 and q = 0 and
        disclaim = "\<lambda>_. False" and dbg = False and hhdr = ?hhdr and init = True and count = 0]
    by (auto simp: f Let_def GRANULES_TO_BYTES_def)
qed

end
