(* ===== verification/Gc_Headers_Facts.thy ===== *)
theory Gc_Headers_Facts
  imports Gc_Headers Gc_Blocks_Facts
begin

text \<open>
  The index of headers refines a map from blocks to entries: what each operation does to the map, for every state that
  is reached from GC_init_headers, as long as the system returns separate regions of memory.
\<close>

section \<open>Scratch memory\<close>

fun apart :: "nat set list \<Rightarrow> bool" where
  "apart [] \<longleftrightarrow> True"
| "apart (A # As) \<longleftrightarrow> (\<forall>B \<in> set As. A \<inter> B = {}) \<and> apart As"

lemma apart_head: "apart (A # As) \<Longrightarrow> B \<subseteq> A \<Longrightarrow> apart (B # As)"
  by (simp add: disjoint_iff subset_iff)

definition os_region :: "nat \<Rightarrow> nat set" where
  "os_region a = {a..<a + MINHINCR * HBLKSIZE}"

definition mem_regions :: "'a hdr_state_scheme \<Rightarrow> nat set list" where
  "mem_regions s = {GC_scratch_free_ptr s..<GC_scratch_end_addr s} # map os_region (filter (\<lambda>a. a \<noteq> 0) (os_mem s))"

definition avail :: "'a hdr_state_scheme \<Rightarrow> nat set" where
  "avail s = \<Union>(set (mem_regions s))"

definition mem_ok :: "'a hdr_state_scheme \<Rightarrow> bool" where
  "mem_ok s \<longleftrightarrow> apart (mem_regions s) \<and> (\<forall>a \<in> avail s. MAX_JUMP < a)"

text \<open>A call of the allocator changes only what is left, and takes what it returns out of it.\<close>

definition mem_step :: "'a hdr_state_scheme \<Rightarrow> nat \<Rightarrow> 'a hdr_state_scheme \<Rightarrow> bool" where
  "mem_step s r s' \<longleftrightarrow> mem_ok s' \<and> avail s' \<subseteq> avail s \<and> (r \<noteq> 0 \<longrightarrow> r \<in> avail s \<and> r \<notin> avail s') \<and>
     (\<exists>os f e. s' = s\<lparr>os_mem := os, GC_scratch_free_ptr := f, GC_scratch_end_addr := e\<rparr>)"

lemma os_region_in: "a \<in> os_region a"
  by (simp add: os_region_def)

lemma os_get_mem_rep:
  assumes "mem_ok s" "GC_os_get_mem s = (r, s')"
  shows "mem_step s r s'"
proof (cases "os_mem s")
  case Nil
  then have "r = 0" "s' = s" using assms(2) by (simp_all add: GC_os_get_mem_def)
  moreover have "\<exists>os f e. s = s\<lparr>os_mem := os, GC_scratch_free_ptr := f, GC_scratch_end_addr := e\<rparr>"
    by (intro exI [of _ "os_mem s"] exI [of _ "GC_scratch_free_ptr s"] exI [of _ "GC_scratch_end_addr s"]) simp
  ultimately show ?thesis using assms(1) by (simp add: mem_step_def)
next
  case (Cons a as)
  then have r: "r = a" "s' = s\<lparr>os_mem := as\<rparr>" using assms(2) by (simp_all add: GC_os_get_mem_def)
  have "\<exists>os f e. s' = s\<lparr>os_mem := os, GC_scratch_free_ptr := f, GC_scratch_end_addr := e\<rparr>"
    unfolding r by (intro exI [of _ as] exI [of _ "GC_scratch_free_ptr s"] exI [of _ "GC_scratch_end_addr s"]) simp
  moreover have "mem_ok s'" "avail s' \<subseteq> avail s" using assms(1) Cons
    unfolding r by (auto simp: mem_ok_def avail_def mem_regions_def split: if_splits)
  moreover have "a \<in> avail s \<and> a \<notin> avail s'" if "a \<noteq> 0"
  proof -
    have "os_region a \<inter> B = {}" if "B \<in> set (mem_regions s')" for B
      using assms(1) Cons that \<open>a \<noteq> 0\<close> unfolding r by (auto simp: mem_ok_def mem_regions_def)
    then have "a \<notin> avail s'" using os_region_in [of a] unfolding avail_def by blast
    moreover have "os_region a \<in> set (mem_regions s)" using Cons that by (simp add: mem_regions_def)
    ultimately show ?thesis using os_region_in [of a] unfolding avail_def by blast
  qed
  ultimately show ?thesis using r by (simp add: mem_step_def)
qed

lemma scratch_take:
  assumes "mem_ok s" "0 < bytes" "bytes \<le> GC_scratch_end_addr s - GC_scratch_free_ptr s"
  shows "mem_step s (GC_scratch_free_ptr s) (s\<lparr>GC_scratch_free_ptr := GC_scratch_free_ptr s + bytes\<rparr>)"
proof -
  let ?s = "s\<lparr>GC_scratch_free_ptr := GC_scratch_free_ptr s + bytes\<rparr>"
  have "\<exists>os f e. ?s = s\<lparr>os_mem := os, GC_scratch_free_ptr := f, GC_scratch_end_addr := e\<rparr>"
    by (intro exI [of _ "os_mem s"] exI [of _ "GC_scratch_free_ptr s + bytes"] exI [of _ "GC_scratch_end_addr s"]) simp
  moreover obtain As where As: "mem_regions s = {GC_scratch_free_ptr s..<GC_scratch_end_addr s} # As"
      "mem_regions ?s = {GC_scratch_free_ptr s + bytes..<GC_scratch_end_addr s} # As"
    by (simp add: mem_regions_def)
  have av: "avail ?s \<subseteq> avail s" unfolding avail_def As by auto
  moreover have "apart (mem_regions ?s)" using assms(1) unfolding mem_ok_def As by (elim conjE apart_head) auto
  then have "mem_ok ?s" using assms(1) av unfolding mem_ok_def by blast
  moreover have "GC_scratch_free_ptr s \<in> avail s" "GC_scratch_free_ptr s \<notin> avail ?s"
  proof -
    have "GC_scratch_free_ptr s \<in> {GC_scratch_free_ptr s..<GC_scratch_end_addr s}" using assms(2,3) by simp
    then show "GC_scratch_free_ptr s \<in> avail s" unfolding avail_def As by simp
    have "apart (mem_regions s)" using assms(1) unfolding mem_ok_def by simp
    then have "\<forall>B \<in> set As. GC_scratch_free_ptr s \<notin> B"
      using \<open>GC_scratch_free_ptr s \<in> {GC_scratch_free_ptr s..<GC_scratch_end_addr s}\<close> unfolding As by fastforce
    then show "GC_scratch_free_ptr s \<notin> avail ?s" using assms(2) unfolding avail_def As by auto
  qed
  ultimately show ?thesis by (simp add: mem_step_def)
qed


lemma mem_step_trans: "mem_step s 0 s1 \<Longrightarrow> mem_step s1 r s2 \<Longrightarrow> mem_step s r s2"
  unfolding mem_step_def by (elim conjE exE) (intro conjI impI; (blast | force))

lemma scratch_loop_rep:
  assumes "mem_ok s" "0 < bytes" "bytes < MINHINCR * HBLKSIZE" "scratch_loop bytes (GC_scratch_free_ptr s) s = (r, s')"
  shows "mem_step s r s'"
proof (cases "bytes \<le> GC_scratch_end_addr s - GC_scratch_free_ptr s")
  case True
  then have "r = GC_scratch_free_ptr s" "s' = s\<lparr>GC_scratch_free_ptr := GC_scratch_free_ptr s + bytes\<rparr>"
    using assms(4) by (auto simp: scratch_loop.simps)
  then show ?thesis using scratch_take [OF assms(1,2) True] by simp
next
  case False
  show ?thesis
  proof (cases "os_mem s")
    case Nil
    then show ?thesis using assms False os_get_mem_rep [OF assms(1)] by (simp add: scratch_loop.simps)
  next
    case (Cons a as)
    show ?thesis
    proof (cases "a = 0")
      case True
      let ?s = "s\<lparr>os_mem := as\<rparr>"
      have m: "mem_step s 0 ?s" using os_get_mem_rep [OF assms(1), of 0 ?s] Cons True by (simp add: GC_os_get_mem_def)
      moreover have "mem_step ?s r s'"
        using assms False Cons True m os_get_mem_rep [of ?s r s'] by (simp add: scratch_loop.simps mem_step_def)
      ultimately show ?thesis by (rule mem_step_trans)
    next
      case a: False
      let ?s = "s\<lparr>os_mem := as, GC_scratch_free_ptr := a, GC_scratch_end_addr := a + 65536\<rparr>"
      have r: "r = a" "s' = ?s\<lparr>GC_scratch_free_ptr := a + bytes\<rparr>"
        using assms(3,4) False Cons a by (auto simp: scratch_loop.simps [of bytes] ROUNDUP_PAGESIZE_def)
      have reg: "mem_regions ?s = os_region a # map os_region (filter (\<lambda>a. a \<noteq> 0) as)"
        "mem_regions s = {GC_scratch_free_ptr s..<GC_scratch_end_addr s} # os_region a # map os_region (filter (\<lambda>a. a \<noteq> 0) as)"
        using Cons a by (simp_all add: mem_regions_def os_region_def)
      have "avail ?s \<subseteq> avail s" unfolding avail_def reg by auto
      moreover from this have "mem_ok ?s" using assms(1) unfolding mem_ok_def reg by auto
      moreover have "\<exists>os f e. ?s = s\<lparr>os_mem := os, GC_scratch_free_ptr := f, GC_scratch_end_addr := e\<rparr>" by blast
      ultimately have "mem_step s 0 ?s" by (simp add: mem_step_def)
      moreover have "mem_step ?s r s'" using scratch_take [OF \<open>mem_ok ?s\<close>, of bytes] assms(2,3) by (simp add: r)
      ultimately show ?thesis by (rule mem_step_trans)
    qed
  qed
qed

lemma scratch_alloc_rep:
  assumes "mem_ok s" "GC_scratch_alloc bytes s = (r, s')" "0 < bytes" "bytes \<le> sizeof_bottom_index"
  shows "mem_step s r s'"
proof -
  have "0 < ROUNDUP_GRANULE_SIZE bytes" "ROUNDUP_GRANULE_SIZE bytes < MINHINCR * HBLKSIZE"
    using assms(3,4) by (simp_all add: ROUNDUP_GRANULE_SIZE_def div_greater_zero_iff)
  then show ?thesis using scratch_loop_rep [OF assms(1)] assms(2) unfolding GC_scratch_alloc_def by blast
qed


section \<open>The index\<close>

text \<open>The structure of the two levels.\<close>

definition index_inv :: "'a hdr_state_scheme \<Rightarrow> bool" where
  "index_inv s \<longleftrightarrow> mem_ok s \<and> GC_all_nils s \<notin> avail s \<and> GC_all_nils s \<notin> set (GC_all_bottom_indices s) \<and>
     bi_index (bottoms s (GC_all_nils s)) = (\<lambda>_. 0) \<and> set (GC_all_bottom_indices s) \<inter> avail s = {} \<and>
     sorted_wrt (\<lambda>p q. bi_key (bottoms s p) < bi_key (bottoms s q)) (GC_all_bottom_indices s) \<and>
     (\<forall>i. set (GC_top_index s i) = {p \<in> set (GC_all_bottom_indices s). TL_HASH (bi_key (bottoms s p)) = i})"

definition present :: "nat \<Rightarrow> 'a hdr_state_scheme \<Rightarrow> bool" where
  "present h s \<longleftrightarrow> (\<exists>p \<in> set (GC_all_bottom_indices s). bi_key (bottoms s p) = h div BOTTOM_SZ)"

lemma sorted_key_inj:
  "sorted_wrt (\<lambda>p q. (f p :: nat) < f q) xs \<Longrightarrow> p \<in> set xs \<Longrightarrow> q \<in> set xs \<Longrightarrow> f p = f q \<Longrightarrow> p = q"
  by (induction xs) auto

lemma key_inj:
  "index_inv s \<Longrightarrow> p \<in> set (GC_all_bottom_indices s) \<Longrightarrow> q \<in> set (GC_all_bottom_indices s) \<Longrightarrow>
    bi_key (bottoms s p) = bi_key (bottoms s q) \<Longrightarrow> p = q"
  unfolding index_inv_def by (elim conjE) (rule sorted_key_inj)

lemma GET_BI_present:
  assumes "index_inv s" "p \<in> set (GC_all_bottom_indices s)" "bi_key (bottoms s p) = h div BOTTOM_SZ"
  shows "GET_BI h s = p"
proof -
  have p: "p \<in> set (GC_top_index s (TL_HASH (h div BOTTOM_SZ)))" using assms by (simp add: index_inv_def)
  obtain q where q: "find (\<lambda>r. bi_key (bottoms s r) = h div BOTTOM_SZ) (GC_top_index s (TL_HASH (h div BOTTOM_SZ))) = Some q"
    using p assms(3) by (metis (mono_tags, lifting) find_None_iff not_None_eq)
  then have "q \<in> set (GC_all_bottom_indices s)" "bi_key (bottoms s q) = h div BOTTOM_SZ"
    using assms(1) by (auto simp: index_inv_def find_Some_iff dest!: nth_mem)
  then have "q = p" using key_inj [OF assms(1)] assms(2,3) by simp
  then show ?thesis by (simp add: GET_BI_def Let_def q)
qed

lemma GET_BI_absent: "index_inv s \<Longrightarrow> \<not> present h s \<Longrightarrow> GET_BI h s = GC_all_nils s"
  by (auto simp: GET_BI_def Let_def present_def index_inv_def find_Some_iff split: option.splits dest!: nth_mem)

lemma presentE:
  assumes "index_inv s" "present h s"
  obtains p where "p \<in> set (GC_all_bottom_indices s)" "bi_key (bottoms s p) = h div BOTTOM_SZ" "GET_BI h s = p"
  using assms GET_BI_present unfolding present_def by blast

lemma HDR_absent: "index_inv s \<Longrightarrow> \<not> present h s \<Longrightarrow> HDR h s = 0"
  by (simp add: HDR_def HDR_FROM_BI_def GET_BI_absent) (simp add: index_inv_def)

lemma HDR_present: "HDR h s \<noteq> 0 \<Longrightarrow> index_inv s \<Longrightarrow> present h s"
  by (metis HDR_absent)

lemma block_eq: "h div BOTTOM_SZ = b div BOTTOM_SZ \<Longrightarrow> h mod BOTTOM_SZ = b mod BOTTOM_SZ \<Longrightarrow> h = b" for h b :: nat
  by (metis div_mult_mod_eq)

lemma SET_HDR_rep:
  assumes "index_inv s" "present h s"
  shows "index_inv (SET_HDR h v s)" "HDR b (SET_HDR h v s) = (if b = h then v else HDR b s)"
    "present b (SET_HDR h v s) = present b s"
proof -
  obtain p where p: "p \<in> set (GC_all_bottom_indices s)" "bi_key (bottoms s p) = h div BOTTOM_SZ" "GET_BI h s = p"
    using presentE [OF assms] by blast
  let ?s = "SET_HDR h v s"
  have key: "bi_key (bottoms ?s q) = bi_key (bottoms s q)" for q by (simp add: SET_HDR_def Let_def)
  have same: "mem_ok ?s = mem_ok s" "avail ?s = avail s" "GC_all_bottom_indices ?s = GC_all_bottom_indices s"
    "GC_top_index ?s = GC_top_index s" "GC_all_nils ?s = GC_all_nils s"
    by (simp_all add: SET_HDR_def Let_def mem_ok_def avail_def mem_regions_def)
  have "bottoms ?s (GC_all_nils s) = bottoms s (GC_all_nils s)"
    using assms(1) p by (auto simp: SET_HDR_def Let_def index_inv_def)
  then show inv: "index_inv ?s" using assms(1) unfolding index_inv_def same key by simp
  show pres: "present b ?s = present b s" for b by (simp add: present_def same key)
  show "HDR b ?s = (if b = h then v else HDR b s)"
  proof (cases "present b s")
    case False
    then have "b \<noteq> h" using assms(2) by auto
    then show ?thesis using False HDR_absent [OF inv, of b] HDR_absent [OF assms(1), of b] pres by simp
  next
    case True
    then obtain q where q: "q \<in> set (GC_all_bottom_indices s)" "bi_key (bottoms s q) = b div BOTTOM_SZ" "GET_BI b s = q"
      using presentE [OF assms(1)] by blast
    have "GET_BI b ?s = q" by (rule GET_BI_present [OF inv]) (simp_all add: same key q)
    then show ?thesis using q p block_eq [of h b] by (auto simp: HDR_def HDR_FROM_BI_def SET_HDR_def Let_def)
  qed
qed


lemma mem_step_fields:
  assumes "mem_step s r s'"
  shows "GC_all_nils s' = GC_all_nils s" "GC_top_index s' = GC_top_index s" "GC_all_bottom_indices s' = GC_all_bottom_indices s"
    "bottoms s' = bottoms s" "headers s' = headers s" "GC_hdr_free_list s' = GC_hdr_free_list s" "GC_gc_no s' = GC_gc_no s"
    "hdr_state.more s' = hdr_state.more s"
  using assms unfolding mem_step_def by auto

lemma mem_step_index:
  assumes "index_inv s" "mem_step s r s'"
  shows "index_inv s'" "HDR b s' = HDR b s" "present b s' = present b s"
proof -
  have "mem_ok s'" "avail s' \<subseteq> avail s" using assms(2) by (simp_all add: mem_step_def)
  then show "index_inv s'" using assms(1) unfolding index_inv_def mem_step_fields [OF assms(2)] by blast
  show "HDR b s' = HDR b s" unfolding HDR_def HDR_FROM_BI_def GET_BI_def mem_step_fields [OF assms(2)] ..
  show "present b s' = present b s" by (simp add: present_def mem_step_fields [OF assms(2)])
qed

lemma sorted_insert_key:
  fixes f :: "'b \<Rightarrow> nat"
  assumes "sorted_wrt (\<lambda>p q. f p < f q) xs" "\<forall>p \<in> set xs. f p \<noteq> f r"
  shows "sorted_wrt (\<lambda>p q. f p < f q) (takeWhile (\<lambda>p. f p < f r) xs @ r # dropWhile (\<lambda>p. f p < f r) xs)"
proof -
  have dw: "f r < f y" if "y \<in> set (dropWhile (\<lambda>p. f p < f r) xs)" for y
    using assms that by (induction xs) (force split: if_splits)+
  have tw: "f x < f r" if "x \<in> set (takeWhile (\<lambda>p. f p < f r) xs)" for x
    using set_takeWhileD [OF that] by simp
  have "sorted_wrt (\<lambda>p q. f p < f q) (takeWhile (\<lambda>p. f p < f r) xs @ dropWhile (\<lambda>p. f p < f r) xs)" using assms(1) by simp
  then have "sorted_wrt (\<lambda>p q. f p < f q) (takeWhile (\<lambda>p. f p < f r) xs)" "sorted_wrt (\<lambda>p q. f p < f q) (dropWhile (\<lambda>p. f p < f r) xs)"
    unfolding sorted_wrt_append by blast+
  then show ?thesis unfolding sorted_wrt_append sorted_wrt.simps using dw tw by (force intro: less_trans)
qed

lemma set_insert_key: "set (takeWhile P xs @ r # dropWhile P xs) = insert r (set xs)"
  by (metis Un_insert_right list.simps(15) set_append takeWhile_dropWhile_id)

lemma get_index_present: "index_inv s \<Longrightarrow> present h s \<Longrightarrow> get_index h s = (True, s)"
proof -
  assume inv: "index_inv s" and "present h s"
  then obtain p where "p \<in> set (GC_all_bottom_indices s)" "bi_key (bottoms s p) = h div BOTTOM_SZ" by (auto simp: present_def)
  then have "\<exists>p \<in> set (GC_top_index s (TL_HASH (h div BOTTOM_SZ))). bi_key (bottoms s p) = h div BOTTOM_SZ"
    using inv by (auto simp: index_inv_def)
  then show "get_index h s = (True, s)" by (simp add: get_index_def Let_def)
qed

lemma get_index_rep:
  assumes inv: "index_inv s" and g: "get_index h s = (ok, s')"
  shows "index_inv s'" "HDR b s' = HDR b s" "ok \<Longrightarrow> present h s'" "present b s \<Longrightarrow> present b s'" "avail s' \<subseteq> avail s"
    "headers s' = headers s" "GC_hdr_free_list s' = GC_hdr_free_list s" "GC_gc_no s' = GC_gc_no s" "hdr_state.more s' = hdr_state.more s"
proof -
  let ?hi = "h div BOTTOM_SZ"
  have "index_inv s' \<and> (\<forall>b. HDR b s' = HDR b s) \<and> (ok \<longrightarrow> present h s') \<and> (\<forall>b. present b s \<longrightarrow> present b s') \<and> avail s' \<subseteq> avail s \<and>
      headers s' = headers s \<and> GC_hdr_free_list s' = GC_hdr_free_list s \<and> GC_gc_no s' = GC_gc_no s \<and> hdr_state.more s' = hdr_state.more s"
  proof (cases "present h s")
    case True
    then have "ok" "s' = s" using g get_index_present [OF inv] by simp_all
    then show ?thesis using inv True by simp
  next
    case False
    then have none: "\<not> (\<exists>p \<in> set (GC_top_index s (TL_HASH ?hi)). bi_key (bottoms s p) = ?hi)"
      using inv by (auto simp: index_inv_def present_def)
    obtain r s1 where a: "GC_scratch_alloc sizeof_bottom_index s = (r, s1)" by force
    then have m: "mem_step s r s1" using inv by (intro scratch_alloc_rep [OF _ a]) (simp_all add: index_inv_def)
    note s1 = mem_step_index [OF inv m] mem_step_fields [OF m]
    have sub: "avail s1 \<subseteq> avail s" using m by (simp add: mem_step_def)
    show ?thesis
    proof (cases "r = 0")
      case True
      then have "\<not> ok" "s' = s1" using g none a by (auto simp: get_index_def Let_def)
      then show ?thesis using s1 sub by simp
    next
      case r: False
      let ?below = "\<lambda>p. bi_key (bottoms s p) < ?hi" and ?all = "GC_all_bottom_indices s"
      have s': "ok" "s' = s1\<lparr>bottoms := (bottoms s)(r := \<lparr>bi_index = \<lambda>_. 0, bi_key = ?hi\<rparr>),
          GC_all_bottom_indices := takeWhile ?below ?all @ r # dropWhile ?below ?all,
          GC_top_index := (GC_top_index s)(TL_HASH ?hi := r # GC_top_index s (TL_HASH ?hi))\<rparr>"
        using g none a r s1 by (auto simp: get_index_def Let_def)
      have rnew: "r \<in> avail s" "r \<notin> avail s1" using m r by (simp_all add: mem_step_def)
      then have rn: "r \<notin> set ?all" "r \<noteq> GC_all_nils s" using inv by (auto simp: index_inv_def)
      have keys: "\<forall>p \<in> set ?all. bi_key (bottoms s p) \<noteq> ?hi" using False by (auto simp: present_def)
      let ?b = "(bottoms s)(r := \<lparr>bi_index = \<lambda>_. 0, bi_key = ?hi\<rparr>)"
      have tw: "takeWhile ?below ?all = takeWhile (\<lambda>p. bi_key (?b p) < bi_key (?b r)) ?all"
        "dropWhile ?below ?all = dropWhile (\<lambda>p. bi_key (?b p) < bi_key (?b r)) ?all"
        using rn(1) by (auto intro!: takeWhile_cong dropWhile_cong)
      have al: "GC_all_bottom_indices s' = takeWhile ?below ?all @ r # dropWhile ?below ?all" by (simp add: s'(2))
      have all: "set (GC_all_bottom_indices s') = insert r (set ?all)" by (simp only: al set_insert_key)
      have "sorted_wrt (\<lambda>p q. bi_key (bottoms s p) < bi_key (bottoms s q)) ?all" using inv by (simp add: index_inv_def)
      then have "sorted_wrt (\<lambda>p q. bi_key (?b p) < bi_key (?b q)) ?all"
        using rn(1) by (elim sorted_wrt_mono_rel [rotated]) auto
      then have "sorted_wrt (\<lambda>p q. bi_key (?b p) < bi_key (?b q)) (takeWhile ?below ?all @ r # dropWhile ?below ?all)"
        unfolding tw using keys rn(1) by (intro sorted_insert_key) auto
      moreover have "avail s' = avail s1" "mem_ok s' = mem_ok s1"
        by (simp_all add: s' mem_ok_def avail_def mem_regions_def)
      moreover have "mem_ok s1" using m by (simp add: mem_step_def)
      moreover have "set (GC_top_index s' i) = {p \<in> insert r (set ?all). TL_HASH (bi_key (?b p)) = i}" for i
        using inv rn(1) by (auto simp: s' index_inv_def)
      ultimately have inv': "index_inv s'"
        using inv rn rnew(2) sub all unfolding index_inv_def by (auto simp: s'(2) s1)
      have pres: "present b s'" if "present b s" for b
        using that rn(1) unfolding present_def all by (auto simp: s'(2))
      moreover have ph: "present h s'" unfolding present_def all by (simp add: s'(2))
      moreover have "HDR b s' = HDR b s" for b
      proof (cases "present b s")
        case True
        then obtain q where q: "q \<in> set ?all" "bi_key (bottoms s q) = b div BOTTOM_SZ" "GET_BI b s = q"
          using presentE [OF inv] by blast
        have "q \<noteq> r" using q(1) rn(1) by auto
        then have "GET_BI b s' = q" using q all by (intro GET_BI_present [OF inv']) (auto simp: s'(2))
        then show ?thesis using q \<open>q \<noteq> r\<close> by (simp add: HDR_def HDR_FROM_BI_def s'(2))
      next
        case False
        have "HDR b s' = 0"
        proof (cases "present b s'")
          case True
          then have "b div BOTTOM_SZ = ?hi" using False rn(1) unfolding present_def all by (auto simp: s'(2) split: if_splits)
          then have "GET_BI b s' = r" using all by (intro GET_BI_present [OF inv']) (auto simp: s'(2))
          then show ?thesis by (simp add: HDR_def HDR_FROM_BI_def s'(2))
        qed (rule HDR_absent [OF inv'])
        then show ?thesis using HDR_absent [OF inv False] by simp
      qed
      ultimately show ?thesis using inv' s' s1 sub \<open>avail s' = avail s1\<close> by simp
    qed
  qed
  then show "index_inv s'" "HDR b s' = HDR b s" "ok \<Longrightarrow> present h s'" "present b s \<Longrightarrow> present b s'" "avail s' \<subseteq> avail s"
    "headers s' = headers s" "GC_hdr_free_list s' = GC_hdr_free_list s" "GC_gc_no s' = GC_gc_no s" "hdr_state.more s' = hdr_state.more s"
    by auto
qed


section \<open>Headers\<close>

definition live :: "'a hdr_state_scheme \<Rightarrow> nat set" where
  "live s = {HDR b s | b. MAX_JUMP < HDR b s}"

definition one_block :: "'a hdr_state_scheme \<Rightarrow> bool" where
  "one_block s \<longleftrightarrow> (\<forall>b c. MAX_JUMP < HDR b s \<longrightarrow> HDR b s = HDR c s \<longrightarrow> b = c)"

lemma one_block_cong: "(\<And>b. HDR b s' = HDR b s) \<Longrightarrow> one_block s' = one_block s"
  by (simp add: one_block_def)

text \<open>The headers in use are those of one block each; the others wait in the list \<open>F\<close>.\<close>

definition hdr_ok :: "nat list \<Rightarrow> 'a hdr_state_scheme \<Rightarrow> bool" where
  "hdr_ok F s \<longleftrightarrow> index_inv s \<and> linked (\<lambda>p. hb_next (headers s p)) (GC_hdr_free_list s) F 0 \<and> distinct F \<and>
     set F \<inter> live s = {} \<and> (set F \<union> live s) \<inter> avail s = {} \<and> (\<forall>p \<in> set F. MAX_JUMP < p) \<and>
     one_block s"

lemma hdr_ok_index: "hdr_ok F s \<Longrightarrow> index_inv s"
  by (simp add: hdr_ok_def)

lemma hdr_ok_inj: "hdr_ok F s \<Longrightarrow> MAX_JUMP < HDR b s \<Longrightarrow> HDR b s = HDR c s \<Longrightarrow> b = c"
  unfolding hdr_ok_def one_block_def by blast

text \<open>Entries that are counts or 0 may be written freely.\<close>

lemma live_SET:
  assumes "index_inv s" "present h s" "v \<le> MAX_JUMP"
  shows "live (SET_HDR h v s) = {HDR b s | b. b \<noteq> h \<and> MAX_JUMP < HDR b s}"
  using assms(3) unfolding live_def by (auto simp: SET_HDR_rep(2) [OF assms(1,2)] split: if_splits)

lemma SET_HDR_fields [simp]:
  "headers (SET_HDR h v s) = headers s" "GC_hdr_free_list (SET_HDR h v s) = GC_hdr_free_list s" "GC_gc_no (SET_HDR h v s) = GC_gc_no s"
  "avail (SET_HDR h v s) = avail s" "hdr_state.more (SET_HDR h v s) = hdr_state.more s"
  by (simp_all add: SET_HDR_def Let_def avail_def mem_regions_def)

lemma SET_count:
  assumes "hdr_ok F s" "present h s" "v \<le> MAX_JUMP"
  shows "hdr_ok F (SET_HDR h v s)"
proof -
  note i = hdr_ok_index [OF assms(1)]
  have "live (SET_HDR h v s) \<subseteq> live s" unfolding live_SET [OF i assms(2,3)] by (auto simp: live_def)
  moreover have "one_block (SET_HDR h v s)" unfolding one_block_def
    using hdr_ok_inj [OF assms(1)] assms(3) by (auto simp: SET_HDR_rep(2) [OF i assms(2)])
  ultimately show ?thesis using assms(1) SET_HDR_rep(1) [OF i assms(2), of v] unfolding hdr_ok_def
    by auto
qed

lemma linked_head: "linked m p F 0 \<Longrightarrow> (p = 0 \<longleftrightarrow> F = []) \<or> 0 \<in> set F"
  by (cases F) auto

lemma alloc_hdr_rep:
  assumes "hdr_ok F s" "alloc_hdr s = (r, s')"
  shows "\<exists>F'. hdr_ok F' s' \<and> (\<forall>b. HDR b s' = HDR b s) \<and> (\<forall>b. present b s' = present b s) \<and> headers s' = headers s \<and>
    GC_gc_no s' = GC_gc_no s \<and> hdr_state.more s' = hdr_state.more s \<and> avail s' \<subseteq> avail s \<and>
    (r \<noteq> 0 \<longrightarrow> MAX_JUMP < r \<and> r \<notin> live s \<and> r \<notin> set F' \<and> r \<notin> avail s')"
proof (cases "GC_hdr_free_list s = 0")
  case True
  then have a: "GC_scratch_alloc sizeof_hdr s = (r, s')" using assms(2) by (simp add: alloc_hdr_def)
  note i = hdr_ok_index [OF assms(1)]
  have "mem_step s r s'" using i by (intro scratch_alloc_rep [OF _ a]) (simp_all add: index_inv_def)
  note s' = mem_step_index [OF i this] mem_step_fields [OF this]
  have F: "F = []" using True assms(1) linked_head [of _ 0 F] by (auto simp: hdr_ok_def)
  have sub: "avail s' \<subseteq> avail s" and r: "r \<noteq> 0 \<longrightarrow> r \<in> avail s \<and> r \<notin> avail s'" using \<open>mem_step s r s'\<close> by (simp_all add: mem_step_def)
  have l: "live s' = live s" by (simp add: live_def s')
  have "one_block s' = one_block s" by (rule one_block_cong) (rule s'(2))
  then have "hdr_ok F s'" using assms(1) sub s'(1) F unfolding hdr_ok_def l by (auto simp: s')
  moreover have "r \<noteq> 0 \<longrightarrow> MAX_JUMP < r \<and> r \<notin> live s"
    using r assms(1) by (auto simp: hdr_ok_def index_inv_def mem_ok_def)
  ultimately show ?thesis using s' sub r F by auto
next
  case False
  then have r: "r = GC_hdr_free_list s" "s' = s\<lparr>GC_hdr_free_list := hb_next (headers s r)\<rparr>"
    using assms(2) by (auto simp: alloc_hdr_def)
  obtain F' where F: "F = r # F'" using False r assms(1) by (cases F) (auto simp: hdr_ok_def)
  have same: "HDR b s' = HDR b s" "present b s' = present b s" "avail s' = avail s" for b
    by (simp_all add: r HDR_def HDR_FROM_BI_def GET_BI_def present_def avail_def mem_regions_def cong: option.case_cong)
  then have l: "live s' = live s" by (simp add: live_def)
  have "index_inv s'" using hdr_ok_index [OF assms(1)] unfolding index_inv_def mem_ok_def same
    by (simp add: r avail_def mem_regions_def)
  moreover have "one_block s' = one_block s" by (rule one_block_cong) (rule same)
  ultimately have "hdr_ok F' s'" using assms(1) unfolding hdr_ok_def same l by (auto simp: F r(2))
  moreover have "MAX_JUMP < r \<and> r \<notin> live s \<and> r \<notin> set F' \<and> r \<notin> avail s'"
    using assms(1) unfolding hdr_ok_def same by (auto simp: F)
  ultimately show ?thesis using same by (intro exI [of _ F']) (auto simp: r(2))
qed

text \<open>Updates of a header that is not free.\<close>

lemma upd_hdr_fields [simp]:
  "HDR b (upd_hdr p f s) = HDR b s" "present b (upd_hdr p f s) = present b s" "avail (upd_hdr p f s) = avail s"
  "GC_gc_no (upd_hdr p f s) = GC_gc_no s" "hdr_state.more (upd_hdr p f s) = hdr_state.more s"
  "headers (upd_hdr p f s) = (headers s)(p := f (headers s p))" "GC_hdr_free_list (upd_hdr p f s) = GC_hdr_free_list s"
  "index_inv (upd_hdr p f s) = index_inv s"
  by (simp_all add: upd_hdr_def HDR_def HDR_FROM_BI_def GET_BI_def present_def avail_def mem_regions_def index_inv_def mem_ok_def
      cong: option.case_cong)

lemma upd_hdr_ok:
  assumes "hdr_ok F s" "p \<notin> set F"
  shows "hdr_ok F (upd_hdr p f s)"
proof -
  have "linked (\<lambda>q. hb_next (headers (upd_hdr p f s) q)) (GC_hdr_free_list s) F 0"
    using assms by (subst linked_cong [of F _ "\<lambda>q. hb_next (headers s q)"]) (auto simp: hdr_ok_def)
  then show ?thesis using assms(1) by (simp add: hdr_ok_def live_def one_block_def)
qed

lemma install_header_rep:
  assumes "hdr_ok F s" "GC_install_header h s = (r, s')"
  shows "\<exists>F'. hdr_ok F' s' \<and> (\<forall>b. HDR b s' = (if r \<noteq> 0 \<and> b = h then r else HDR b s)) \<and> (\<forall>b. present b s \<longrightarrow> present b s') \<and>
    (\<forall>p. p \<noteq> r \<longrightarrow> headers s' p = headers s p) \<and> GC_gc_no s' = GC_gc_no s \<and> hdr_state.more s' = hdr_state.more s \<and>
    (r \<noteq> 0 \<longrightarrow> MAX_JUMP < r \<and> r \<notin> live s \<and> r \<notin> set F')"
proof -
  obtain ok s1 where g: "get_index h s = (ok, s1)" by force
  note s1 = get_index_rep [OF hdr_ok_index [OF assms(1)] g]
  have l1: "live s1 = live s" by (simp add: live_def s1(2))
  have "one_block s1 = one_block s" by (rule one_block_cong) (rule s1(2))
  then have ok1: "hdr_ok F s1" using assms(1) s1(1,5-7) unfolding hdr_ok_def l1 by auto
  show ?thesis
  proof (cases ok)
    case False
    then have "r = 0" "s' = s1" using assms(2) g by (simp_all add: GC_install_header_def)
    then show ?thesis using ok1 s1 by (intro exI [of _ F]) auto
  next
    case True
    obtain r2 s2 where a: "alloc_hdr s1 = (r2, s2)" by force
    obtain F2 where s2: "hdr_ok F2 s2" "\<forall>b. HDR b s2 = HDR b s1" "\<forall>b. present b s2 = present b s1" "headers s2 = headers s1"
        "GC_gc_no s2 = GC_gc_no s1" "hdr_state.more s2 = hdr_state.more s1" "avail s2 \<subseteq> avail s1"
        "r2 \<noteq> 0 \<longrightarrow> MAX_JUMP < r2 \<and> r2 \<notin> live s1 \<and> r2 \<notin> set F2 \<and> r2 \<notin> avail s2"
      using alloc_hdr_rep [OF ok1 a] by auto
    show ?thesis
    proof (cases "r2 = 0")
      case r: True
      then have "r = 0" "s' = s2" using assms(2) g a True by (simp_all add: GC_install_header_def)
      then show ?thesis using s2 s1 by (intro exI [of _ F2]) auto
    next
      case r: False
      let ?set = "SET_HDR h r2 s2"
      have res: "r = r2" "s' = upd_hdr r2 (\<lambda>hd. hd\<lparr>hb_last_reclaimed := ucast (GC_gc_no s2)\<rparr>) ?set"
        using assms(2) g a True r by (auto simp: GC_install_header_def)
      have p: "present h s2" using s2(3) s1(3) True by simp
      note i2 = hdr_ok_index [OF s2(1)]
      note set = SET_HDR_rep [OF i2 p]
      have live: "live ?set \<subseteq> insert r2 (live s2)" unfolding live_def by (auto simp: set(2) split: if_splits)
      have inj: "one_block ?set" unfolding one_block_def
      proof (intro allI impI)
        fix b c assume e: "MAX_JUMP < HDR b ?set" "HDR b ?set = HDR c ?set"
        have "HDR a s2 \<noteq> r2" for a using s2(2,8) r l1 by (auto simp: live_def)
        then show "b = c" using e hdr_ok_inj [OF s2(1), of b c] by (auto simp: set(2) split: if_splits)
      qed
      have "hdr_ok F2 ?set" using s2(1,8) r set(1) inj live unfolding hdr_ok_def by auto
      then have "hdr_ok F2 s'" unfolding res using s2(8) r by (intro upd_hdr_ok) auto
      then show ?thesis using s1 s2 r l1 by (intro exI [of _ F2]) (auto simp: res set)
    qed
  qed
qed


section \<open>Counts\<close>

text \<open>What the operations on the index leave alone.\<close>

definition keeps_headers :: "'a hdr_state_scheme \<Rightarrow> 'a hdr_state_scheme \<Rightarrow> bool" where
  "keeps_headers s s' \<longleftrightarrow> headers s' = headers s \<and> GC_gc_no s' = GC_gc_no s \<and> hdr_state.more s' = hdr_state.more s \<and>
     (\<forall>b. present b s \<longrightarrow> present b s')"

lemma keeps_refl [simp]: "keeps_headers s s"
  by (simp add: keeps_headers_def)

lemma keeps_trans: "keeps_headers s t \<Longrightarrow> keeps_headers t u \<Longrightarrow> keeps_headers s u"
  by (simp add: keeps_headers_def)

lemma get_index_ok:
  assumes "hdr_ok F s" "get_index h s = (ok, s')"
  shows "hdr_ok F s'" "HDR b s' = HDR b s" "keeps_headers s s'" "ok \<Longrightarrow> present h s'"
proof -
  note g = get_index_rep [OF hdr_ok_index [OF assms(1)] assms(2)]
  have "live s' = live s" by (simp add: live_def g(2))
  moreover have "one_block s' = one_block s" by (rule one_block_cong) (rule g(2))
  ultimately show "hdr_ok F s'" using assms(1) g(1,5-7) unfolding hdr_ok_def by auto
  show "HDR b s' = HDR b s" "keeps_headers s s'" "ok \<Longrightarrow> present h s'" using g by (simp_all add: keeps_headers_def)
qed

lemma SET_keeps: "hdr_ok F s \<Longrightarrow> present h s \<Longrightarrow> keeps_headers s (SET_HDR h v s)"
  by (simp add: keeps_headers_def SET_HDR_rep(3) [OF hdr_ok_index])

lemma counts_index_rep:
  assumes "hdr_ok F s" "counts_index_loop hbp h sz s = (ok, s')"
  shows "hdr_ok F s' \<and> (\<forall>b. HDR b s' = HDR b s) \<and> keeps_headers s s' \<and>
    (ok \<longrightarrow> h * HBLKSIZE + sz \<le> 2 ^ 64 \<longrightarrow> (\<forall>k. (hbp + k * BOTTOM_SZ) * HBLKSIZE < h * HBLKSIZE + sz \<longrightarrow> present (hbp + k * BOTTOM_SZ) s'))"
  using assms
proof (induction hbp h sz s rule: counts_index_loop.induct)
  case (1 hbp h sz s)
  show ?case
  proof (cases "hbp * HBLKSIZE < h * HBLKSIZE + sz")
    case False
    then show ?thesis using 1 by (auto simp: counts_index_loop.simps [of hbp])
  next
    case True
    obtain ok1 s1 where g: "get_index hbp s = (ok1, s1)" by force
    note s1 = get_index_ok [OF "1.prems"(1) g]
    show ?thesis
    proof (cases "ok1")
      case False
      then show ?thesis using "1.prems"(2) True g s1 by (auto simp: counts_index_loop.simps [of hbp])
    next
      case ok1: True
      show ?thesis
      proof (cases "GC_WORD_MAX - BOTTOM_SZ * HBLKSIZE < hbp * HBLKSIZE")
        case last: True
        then have "ok" "s' = s1" using "1.prems"(2) True g ok1 by (auto simp: counts_index_loop.simps [of hbp])
        moreover have "present (hbp + k * BOTTOM_SZ) s1"
          if "(hbp + k * BOTTOM_SZ) * HBLKSIZE < h * HBLKSIZE + sz" "h * HBLKSIZE + sz \<le> 2 ^ 64" for k
          using that last s1(4) ok1 by (cases k) auto
        ultimately show ?thesis using s1 by auto
      next
        case False
        then have step: "counts_index_loop (hbp + BOTTOM_SZ) h sz s1 = (ok, s')"
          using "1.prems"(2) True g ok1 by (simp add: counts_index_loop.simps [of hbp])
        have IH: "hdr_ok F s' \<and> (\<forall>b. HDR b s' = HDR b s1) \<and> keeps_headers s1 s' \<and>
          (ok \<longrightarrow> h * HBLKSIZE + sz \<le> 2 ^ 64 \<longrightarrow>
            (\<forall>k. (hbp + BOTTOM_SZ + k * BOTTOM_SZ) * HBLKSIZE < h * HBLKSIZE + sz \<longrightarrow> present (hbp + BOTTOM_SZ + k * BOTTOM_SZ) s'))"
          using "1.IH" [OF True g [symmetric] refl] ok1 False s1(1) step by simp
        have "present (hbp + k * BOTTOM_SZ) s'"
          if "ok" "h * HBLKSIZE + sz \<le> 2 ^ 64" "(hbp + k * BOTTOM_SZ) * HBLKSIZE < h * HBLKSIZE + sz" for k
        proof (cases k)
          case 0
          then show ?thesis using s1(4) [OF ok1] IH by (simp add: keeps_headers_def)
        next
          case (Suc j)
          then show ?thesis using IH that by (auto simp: add_ac)
        qed
        then show ?thesis using IH s1 keeps_trans by auto
      qed
    qed
  qed
qed


lemma set_counts_rep:
  assumes "hdr_ok F s" "h < hbp" "\<And>b. hbp \<le> b \<Longrightarrow> b * HBLKSIZE < h * HBLKSIZE + sz \<Longrightarrow> present b s"
  shows "hdr_ok F (set_counts_loop hbp h sz s) \<and> keeps_headers s (set_counts_loop hbp h sz s) \<and>
    (\<forall>b. HDR b (set_counts_loop hbp h sz s) =
      (if hbp \<le> b \<and> b * HBLKSIZE < h * HBLKSIZE + sz then min (b - h) MAX_JUMP else HDR b s))"
  using assms
proof (induction hbp h sz s rule: set_counts_loop.induct)
  case (1 hbp h sz s)
  show ?case
  proof (cases "hbp * HBLKSIZE < h * HBLKSIZE + sz")
    case False
    then have "\<not> b * HBLKSIZE < h * HBLKSIZE + sz" if "hbp \<le> b" for b using that by simp
    then show ?thesis using False "1.prems" by (auto simp: set_counts_loop.simps [of hbp])
  next
    case True
    let ?v = "if MAX_JUMP < hbp - h then MAX_JUMP else hbp - h"
    have p: "present hbp s" using "1.prems"(3) True by simp
    have v: "?v = min (hbp - h) MAX_JUMP" by (simp add: min_def)
    note s1 = SET_count [OF "1.prems"(1) p, of ?v] SET_HDR_rep(2,3) [OF hdr_ok_index [OF "1.prems"(1)] p, where v = ?v]
    have step: "set_counts_loop hbp h sz s = set_counts_loop (hbp + 1) h sz (SET_HDR hbp ?v s)"
      using True by (simp add: set_counts_loop.simps [of hbp] Let_def)
    have "hdr_ok F (SET_HDR hbp ?v s)" by (rule s1(1)) simp
    then have ih: "hdr_ok F (set_counts_loop hbp h sz s) \<and> keeps_headers (SET_HDR hbp ?v s) (set_counts_loop hbp h sz s) \<and>
      (\<forall>b. HDR b (set_counts_loop hbp h sz s) =
        (if hbp + 1 \<le> b \<and> b * HBLKSIZE < h * HBLKSIZE + sz then min (b - h) MAX_JUMP else HDR b (SET_HDR hbp ?v s)))"
      unfolding step using "1.prems"(2,3) s1(3) by (intro "1.IH" [OF True refl]) auto
    moreover have "keeps_headers s (SET_HDR hbp ?v s)" by (rule SET_keeps [OF "1.prems"(1) p])
    moreover have "HDR b (set_counts_loop hbp h sz s) =
        (if hbp \<le> b \<and> b * HBLKSIZE < h * HBLKSIZE + sz then min (b - h) MAX_JUMP else HDR b s)" for b
      using ih True s1(2) [of b] by (cases "b = hbp") (auto simp: v)
    ultimately show ?thesis using keeps_trans by blast
  qed
qed

lemma clear_counts_rep:
  assumes "hdr_ok F s" "\<And>b. hbp \<le> b \<Longrightarrow> b * HBLKSIZE < h * HBLKSIZE + sz \<Longrightarrow> present b s"
  shows "hdr_ok F (clear_counts_loop hbp h sz s) \<and> keeps_headers s (clear_counts_loop hbp h sz s) \<and>
    (\<forall>b. HDR b (clear_counts_loop hbp h sz s) = (if hbp \<le> b \<and> b * HBLKSIZE < h * HBLKSIZE + sz then 0 else HDR b s))"
  using assms
proof (induction hbp h sz s rule: clear_counts_loop.induct)
  case (1 hbp h sz s)
  show ?case
  proof (cases "hbp * HBLKSIZE < h * HBLKSIZE + sz")
    case False
    then have "\<not> b * HBLKSIZE < h * HBLKSIZE + sz" if "hbp \<le> b" for b using that by simp
    then show ?thesis using False "1.prems" by (auto simp: clear_counts_loop.simps [of hbp])
  next
    case True
    have p: "present hbp s" using "1.prems"(2) True by simp
    note s1 = SET_count [OF "1.prems"(1) p, of 0] SET_HDR_rep(2,3) [OF hdr_ok_index [OF "1.prems"(1)] p, where v = 0]
    have step: "clear_counts_loop hbp h sz s = clear_counts_loop (hbp + 1) h sz (SET_HDR hbp 0 s)"
      using True by (simp add: clear_counts_loop.simps [of hbp])
    have "hdr_ok F (SET_HDR hbp 0 s)" by (rule s1(1)) simp
    then have ih: "hdr_ok F (clear_counts_loop hbp h sz s) \<and> keeps_headers (SET_HDR hbp 0 s) (clear_counts_loop hbp h sz s) \<and>
      (\<forall>b. HDR b (clear_counts_loop hbp h sz s) =
        (if hbp + 1 \<le> b \<and> b * HBLKSIZE < h * HBLKSIZE + sz then 0 else HDR b (SET_HDR hbp 0 s)))"
      unfolding step using "1.prems"(2) s1(3) by (intro "1.IH" [OF True]) auto
    moreover have "keeps_headers s (SET_HDR hbp 0 s)" by (rule SET_keeps [OF "1.prems"(1) p])
    moreover have "HDR b (clear_counts_loop hbp h sz s) = (if hbp \<le> b \<and> b * HBLKSIZE < h * HBLKSIZE + sz then 0 else HDR b s)" for b
      using ih True s1(2) [of b] by (cases "b = hbp") auto
    ultimately show ?thesis using keeps_trans by blast
  qed
qed

text \<open>The indices made for every BOTTOM_SZ-th block and for the last one are those of all blocks.\<close>

lemma present_cong: "b div BOTTOM_SZ = c div BOTTOM_SZ \<Longrightarrow> present b s = present c s"
  by (simp add: present_def)

lemma next_index: "c \<le> b \<Longrightarrow> b < c + BOTTOM_SZ \<Longrightarrow> b div BOTTOM_SZ \<noteq> c div BOTTOM_SZ \<Longrightarrow> b div BOTTOM_SZ = c div BOTTOM_SZ + 1" for b c :: nat
proof -
  assume a: "c \<le> b" "b < c + BOTTOM_SZ" "b div BOTTOM_SZ \<noteq> c div BOTTOM_SZ"
  have "c div BOTTOM_SZ \<le> b div BOTTOM_SZ" using a(1) by (rule div_le_mono)
  moreover have "b div BOTTOM_SZ \<le> (c + BOTTOM_SZ) div BOTTOM_SZ" using a(2) by (intro div_le_mono) simp
  ultimately show ?thesis using a(3) by simp
qed

lemma present_between:
  assumes step: "\<And>k. (h + k * BOTTOM_SZ) * HBLKSIZE < h * HBLKSIZE + sz \<Longrightarrow> present (h + k * BOTTOM_SZ) s"
    and last: "present ((h * HBLKSIZE + sz - 1) div HBLKSIZE) s"
    and b: "h \<le> b" "b * HBLKSIZE < h * HBLKSIZE + sz"
  shows "present b s"
proof -
  define k where "k = (b - h) div BOTTOM_SZ"
  let ?c = "h + k * BOTTOM_SZ" and ?L = "(h * HBLKSIZE + sz - 1) div HBLKSIZE"
  have c: "?c \<le> b" "b < ?c + BOTTOM_SZ" using b(1) div_mult_mod_eq [of "b - h" BOTTOM_SZ] mod_less_divisor [of BOTTOM_SZ "b - h"]
    unfolding k_def by linarith+
  then have "?c * HBLKSIZE \<le> b * HBLKSIZE" by (intro mult_right_mono) simp_all
  then have pc: "present ?c s" using b(2) by (intro step) (rule le_less_trans)
  show ?thesis
  proof (cases "b div BOTTOM_SZ = ?c div BOTTOM_SZ")
    case True
    then show ?thesis using pc present_cong by blast
  next
    case False
    then have bc: "b div BOTTOM_SZ = ?c div BOTTOM_SZ + 1" using next_index [OF c] by blast
    show ?thesis
    proof (cases "(h + Suc k * BOTTOM_SZ) * HBLKSIZE < h * HBLKSIZE + sz")
      case True
      then have "present (h + Suc k * BOTTOM_SZ) s" by (rule step)
      moreover have "(h + Suc k * BOTTOM_SZ) div BOTTOM_SZ = b div BOTTOM_SZ" using bc by simp
      ultimately show ?thesis using present_cong by blast
    next
      case False
      then have "b \<le> ?L" "?L < ?c + BOTTOM_SZ" using b by (simp_all add: div_less_iff_less_mult less_eq_div_iff_mult_less_eq)
      moreover have "b div BOTTOM_SZ \<le> ?L div BOTTOM_SZ" using \<open>b \<le> ?L\<close> by (rule div_le_mono)
      moreover have "?L div BOTTOM_SZ \<le> (?c + BOTTOM_SZ) div BOTTOM_SZ" using \<open>?L < ?c + BOTTOM_SZ\<close> by (intro div_le_mono) simp
      moreover have "(?c + BOTTOM_SZ) div BOTTOM_SZ = ?c div BOTTOM_SZ + 1" by (rule div_add_self2) simp
      ultimately have "?L div BOTTOM_SZ = b div BOTTOM_SZ" using bc by linarith
      then show ?thesis using last present_cong by blast
    qed
  qed
qed

lemma install_counts_rep:
  assumes "hdr_ok F s" "h * HBLKSIZE + sz \<le> 2 ^ 64" "GC_install_counts h sz s = (ok, s')"
  shows "hdr_ok F s'" "keeps_headers s s'"
    "HDR b s' = (if ok \<and> h < b \<and> b * HBLKSIZE < h * HBLKSIZE + sz then min (b - h) MAX_JUMP else HDR b s)"
    "ok \<Longrightarrow> h \<le> b \<Longrightarrow> b * HBLKSIZE < h * HBLKSIZE + sz \<Longrightarrow> present b s'"
proof -
  obtain ok1 s1 where c: "counts_index_loop h h sz s = (ok1, s1)" by force
  have s1: "hdr_ok F s1" "\<forall>b. HDR b s1 = HDR b s" "keeps_headers s s1"
    "ok1 \<longrightarrow> (\<forall>k. (h + k * BOTTOM_SZ) * HBLKSIZE < h * HBLKSIZE + sz \<longrightarrow> present (h + k * BOTTOM_SZ) s1)"
    using counts_index_rep [OF assms(1) c] assms(2) by blast+
  obtain ok2 s2 where g: "get_index ((h * HBLKSIZE + sz - 1) div HBLKSIZE) s1 = (ok2, s2)" by force
  note s2 = get_index_ok [OF s1(1) g]
  have "hdr_ok F s' \<and> keeps_headers s s' \<and>
    (\<forall>b. HDR b s' = (if ok \<and> h < b \<and> b * HBLKSIZE < h * HBLKSIZE + sz then min (b - h) MAX_JUMP else HDR b s)) \<and>
    (ok \<longrightarrow> (\<forall>b. h \<le> b \<longrightarrow> b * HBLKSIZE < h * HBLKSIZE + sz \<longrightarrow> present b s'))"
  proof (cases "ok1 \<and> ok2")
    case False
    then have "\<not> ok" "s' = s1 \<or> s' = s2" using assms(3) c g by (auto simp: GC_install_counts_def split: if_splits)
    then show ?thesis using s1 s2 keeps_trans by auto
  next
    case True
    then have r: "ok" "s' = set_counts_loop (h + 1) h sz s2" using assms(3) c g by (auto simp: GC_install_counts_def)
    have pres: "present b s2" if "h \<le> b" "b * HBLKSIZE < h * HBLKSIZE + sz" for b
      using s1(4) s2(3,4) True that by (intro present_between [of h sz s2 b]) (auto simp: keeps_headers_def)
    have "hdr_ok F s' \<and> keeps_headers s2 s' \<and>
      (\<forall>b. HDR b s' = (if h + 1 \<le> b \<and> b * HBLKSIZE < h * HBLKSIZE + sz then min (b - h) MAX_JUMP else HDR b s2))"
      unfolding r(2) using pres by (intro set_counts_rep s2) auto
    then show ?thesis using s1 s2 keeps_trans pres r(1) by (auto simp: keeps_headers_def Suc_le_eq)
  qed
  then show "hdr_ok F s'" "keeps_headers s s'"
    "HDR b s' = (if ok \<and> h < b \<and> b * HBLKSIZE < h * HBLKSIZE + sz then min (b - h) MAX_JUMP else HDR b s)"
    "ok \<Longrightarrow> h \<le> b \<Longrightarrow> b * HBLKSIZE < h * HBLKSIZE + sz \<Longrightarrow> present b s'" by auto
qed


lemma remove_header_rep:
  assumes "hdr_ok F s" "MAX_JUMP < HDR h s"
  shows "hdr_ok (HDR h s # F) (GC_remove_header h s)" "HDR b (GC_remove_header h s) = (if b = h then 0 else HDR b s)"
    "p \<noteq> HDR h s \<Longrightarrow> headers (GC_remove_header h s) p = headers s p" "present b (GC_remove_header h s) = present b s"
    "GC_gc_no (GC_remove_header h s) = GC_gc_no s" "hdr_state.more (GC_remove_header h s) = hdr_state.more s"
proof -
  let ?p = "HDR h s" and ?f = "free_hdr (HDR h s) s"
  have f: "HDR b ?f = HDR b s" "present b ?f = present b s" "avail ?f = avail s" "index_inv ?f = index_inv s"
    "headers ?f = (headers s)(?p := (headers s ?p)\<lparr>hb_next := GC_hdr_free_list s\<rparr>)" "GC_hdr_free_list ?f = ?p"
    "GC_gc_no ?f = GC_gc_no s" "hdr_state.more ?f = hdr_state.more s" for b
    by (simp_all add: free_hdr_def upd_hdr_def HDR_def HDR_FROM_BI_def GET_BI_def present_def avail_def mem_regions_def index_inv_def mem_ok_def
      cong: option.case_cong)
  have i: "index_inv ?f" using assms(1) f(4) by (simp add: hdr_ok_def)
  have p: "present h ?f" using HDR_present [of h s] assms by (auto simp: f hdr_ok_def)
  note set = SET_HDR_rep [OF i p, where v = 0]
  have rm: "GC_remove_header h s = SET_HDR h 0 ?f" by (simp add: GC_remove_header_def)
  have live: "live (SET_HDR h 0 ?f) = live s - {?p}"
  proof -
    have "live (SET_HDR h 0 ?f) = {HDR b s | b. b \<noteq> h \<and> MAX_JUMP < HDR b s}" using live_SET [OF i p, of 0] by (simp add: f)
    also have "\<dots> = live s - {?p}" using hdr_ok_inj [OF assms(1)] by (auto simp: live_def)
    finally show ?thesis .
  qed
  have pl: "?p \<in> live s" using assms(2) by (auto simp: live_def)
  then have pF: "?p \<notin> set F" using assms(1) by (auto simp: hdr_ok_def)
  have "linked (\<lambda>q. hb_next (headers ?f q)) (hb_next (headers ?f ?p)) F 0"
    using assms(1) pF by (subst linked_cong [of F _ "\<lambda>q. hb_next (headers s q)"]) (auto simp: hdr_ok_def f)
  then have lk: "linked (\<lambda>q. hb_next (headers ?f q)) ?p (?p # F) 0" by simp
  have ob: "one_block (SET_HDR h 0 ?f)"
    unfolding one_block_def using hdr_ok_inj [OF assms(1)] by (auto simp: set(2) f)
  show "hdr_ok (?p # F) (GC_remove_header h s)"
    using assms pF pl lk ob set(1) unfolding hdr_ok_def rm live by (auto simp: f)
  show "HDR b (GC_remove_header h s) = (if b = h then 0 else HDR b s)" by (simp add: rm set f)
  show "p \<noteq> ?p \<Longrightarrow> headers (GC_remove_header h s) p = headers s p" by (simp add: rm f)
  show "present b (GC_remove_header h s) = present b s" by (simp add: rm set f)
  show "GC_gc_no (GC_remove_header h s) = GC_gc_no s" "hdr_state.more (GC_remove_header h s) = hdr_state.more s" by (simp_all add: rm f)
qed

lemma remove_counts_rep:
  assumes "hdr_ok F s" "HBLKSIZE < sz \<Longrightarrow> HDR (h + 1) s \<noteq> 0 \<Longrightarrow> \<forall>b. h < b \<longrightarrow> b * HBLKSIZE < h * HBLKSIZE + sz \<longrightarrow> present b s"
  shows "hdr_ok F (GC_remove_counts h sz s)" "keeps_headers s (GC_remove_counts h sz s)"
    "HDR b (GC_remove_counts h sz s) =
      (if HBLKSIZE < sz \<and> HDR (h + 1) s \<noteq> 0 \<and> h < b \<and> b * HBLKSIZE < h * HBLKSIZE + sz then 0 else HDR b s)"
proof -
  have "hdr_ok F (GC_remove_counts h sz s) \<and> keeps_headers s (GC_remove_counts h sz s) \<and>
    (\<forall>b. HDR b (GC_remove_counts h sz s) =
      (if HBLKSIZE < sz \<and> HDR (h + 1) s \<noteq> 0 \<and> h < b \<and> b * HBLKSIZE < h * HBLKSIZE + sz then 0 else HDR b s))"
  proof (cases "HBLKSIZE < sz \<and> HDR (h + 1) s \<noteq> 0")
    case False
    then show ?thesis using assms(1) by (auto simp: GC_remove_counts_def)
  next
    case True
    then have "GC_remove_counts h sz s = clear_counts_loop (h + 1) h sz s" by (simp add: GC_remove_counts_def)
    then show ?thesis using clear_counts_rep [OF assms(1), of "h + 1" h sz] assms(2) True by (simp add: Suc_le_eq)
  qed
  then show "hdr_ok F (GC_remove_counts h sz s)" "keeps_headers s (GC_remove_counts h sz s)"
    "HDR b (GC_remove_counts h sz s) =
      (if HBLKSIZE < sz \<and> HDR (h + 1) s \<noteq> 0 \<and> h < b \<and> b * HBLKSIZE < h * HBLKSIZE + sz then 0 else HDR b s)" by auto
qed

lemma init_headers_rep:
  assumes "GC_init_headers s = Inr s'" "mem_ok s" "GC_hdr_free_list s = 0" "GC_all_bottom_indices s = []"
  shows "hdr_ok [] s'" "HDR b s' = 0"
proof -
  obtain r s1 where a: "GC_scratch_alloc sizeof_bottom_index s = (r, s1)" by force
  have m: "mem_step s r s1" by (rule scratch_alloc_rep [OF assms(2) a]) simp_all
  note f = mem_step_fields [OF m]
  have r: "r \<noteq> 0" "s' = s1\<lparr>GC_all_nils := r, bottoms := (bottoms s1)(r := \<lparr>bi_index = \<lambda>_. 0, bi_key = 0\<rparr>), GC_top_index := \<lambda>_. []\<rparr>"
    using assms(1) a by (auto simp: GC_init_headers_def Let_def split: if_splits)
  have av: "avail s' = avail s1" "mem_ok s' = mem_ok s1" by (simp_all add: r avail_def mem_ok_def mem_regions_def)
  have i: "index_inv s'" using m r(1) assms(4) f(3) unfolding index_inv_def av by (auto simp: r(2) mem_step_def)
  have nil: "HDR b s' = 0" for b
  proof -
    have "\<not> present b s'" using assms(4) f(3) by (simp add: present_def r(2))
    then show ?thesis by (rule HDR_absent [OF i])
  qed
  then show "HDR b s' = 0" .
  have "GC_hdr_free_list s' = 0" using assms(3) f(6) by (simp add: r(2))
  moreover have "live s' = {}" by (simp add: live_def nil)
  moreover have "one_block s'" by (simp add: one_block_def nil)
  ultimately show "hdr_ok [] s'" using i by (simp add: hdr_ok_def)
qed


section \<open>Sequences of operations\<close>

datatype hdr_op = Install_Header nat | Install_Counts nat nat | Remove_Header nat | Remove_Counts nat nat

text \<open>An operation with its result, 1 or 0 for TRUE and FALSE, and its effect on the map of entries.\<close>

fun hdr_step :: "hdr_op \<Rightarrow> hdr_state \<Rightarrow> nat \<times> hdr_state" where
  "hdr_step (Install_Header h) s = GC_install_header h s"
| "hdr_step (Install_Counts h sz) s = (let (ok, s) = GC_install_counts h sz s in (of_bool ok, s))"
| "hdr_step (Remove_Header h) s = (0, GC_remove_header h s)"
| "hdr_step (Remove_Counts h sz) s = (0, GC_remove_counts h sz s)"

fun map_step :: "hdr_op \<Rightarrow> nat \<Rightarrow> (nat \<Rightarrow> nat) \<Rightarrow> nat \<Rightarrow> nat" where
  "map_step (Install_Header h) r m = (if r = 0 then m else m(h := r))"
| "map_step (Install_Counts h sz) r m =
    (if r = 0 then m else (\<lambda>b. if h < b \<and> b * HBLKSIZE < h * HBLKSIZE + sz then min (b - h) MAX_JUMP else m b))"
| "map_step (Remove_Header h) r m = m(h := 0)"
| "map_step (Remove_Counts h sz) r m =
    (if HBLKSIZE < sz \<and> m (h + 1) \<noteq> 0 then (\<lambda>b. if h < b \<and> b * HBLKSIZE < h * HBLKSIZE + sz then 0 else m b) else m)"

text \<open>
  When a client may use an operation: objects end in the address space, only a header is removed, and counts are
  removed of blocks that have entries.
\<close>

fun hdr_legal :: "hdr_op \<Rightarrow> (nat \<Rightarrow> nat) \<Rightarrow> bool" where
  "hdr_legal (Install_Header h) m \<longleftrightarrow> True"
| "hdr_legal (Install_Counts h sz) m \<longleftrightarrow> h * HBLKSIZE + sz \<le> 2 ^ 64"
| "hdr_legal (Remove_Header h) m \<longleftrightarrow> MAX_JUMP < m h"
| "hdr_legal (Remove_Counts h sz) m \<longleftrightarrow> (\<forall>b. m (h + 1) \<noteq> 0 \<longrightarrow> h < b \<longrightarrow> b * HBLKSIZE < h * HBLKSIZE + sz \<longrightarrow> m b \<noteq> 0)"

fun hdr_run :: "hdr_op list \<Rightarrow> hdr_state \<Rightarrow> nat list \<times> hdr_state" where
  "hdr_run [] s = ([], s)"
| "hdr_run (x # xs) s = (let (r, s) = hdr_step x s; (rs, s) = hdr_run xs s in (r # rs, s))"

fun map_run :: "hdr_op list \<Rightarrow> nat list \<Rightarrow> (nat \<Rightarrow> nat) \<Rightarrow> nat \<Rightarrow> nat" where
  "map_run (x # xs) (r # rs) m = map_run xs rs (map_step x r m)"
| "map_run xs rs m = m"

fun legal_run :: "hdr_op list \<Rightarrow> nat list \<Rightarrow> (nat \<Rightarrow> nat) \<Rightarrow> bool" where
  "legal_run (x # xs) (r # rs) m \<longleftrightarrow> hdr_legal x m \<and> legal_run xs rs (map_step x r m)"
| "legal_run xs rs m \<longleftrightarrow> True"

text \<open>The headers handed out are pointers that no block has yet.\<close>

fun fresh_run :: "hdr_op list \<Rightarrow> nat list \<Rightarrow> (nat \<Rightarrow> nat) \<Rightarrow> bool" where
  "fresh_run (x # xs) (r # rs) m \<longleftrightarrow>
     (\<forall>h. x = Install_Header h \<longrightarrow> r \<noteq> 0 \<longrightarrow> MAX_JUMP < r \<and> r \<notin> range m) \<and> fresh_run xs rs (map_step x r m)"
| "fresh_run xs rs m \<longleftrightarrow> True"

lemma hdr_step_rep:
  assumes "hdr_ok F s" "hdr_legal x (\<lambda>b. HDR b s)" "hdr_step x s = (r, s')"
  shows "\<exists>F'. hdr_ok F' s'" "(\<lambda>b. HDR b s') = map_step x r (\<lambda>b. HDR b s)"
    "x = Install_Header h \<Longrightarrow> r \<noteq> 0 \<Longrightarrow> MAX_JUMP < r \<and> r \<notin> range (\<lambda>b. HDR b s)"
proof -
  have "(\<exists>F'. hdr_ok F' s') \<and> (\<lambda>b. HDR b s') = map_step x r (\<lambda>b. HDR b s) \<and>
    (\<forall>h. x = Install_Header h \<longrightarrow> r \<noteq> 0 \<longrightarrow> MAX_JUMP < r \<and> r \<notin> range (\<lambda>b. HDR b s))"
  proof (cases x)
    case (Install_Header h)
    then have "GC_install_header h s = (r, s')" using assms(3) by simp
    from install_header_rep [OF assms(1) this] show ?thesis
      using Install_Header by (auto simp: live_def fun_eq_iff)
  next
    case (Install_Counts h sz)
    then obtain ok where "GC_install_counts h sz s = (ok, s')" "r = of_bool ok" using assms(3) by (auto split: prod.splits)
    moreover have "h * HBLKSIZE + sz \<le> 2 ^ 64" using assms(2) Install_Counts by simp
    ultimately show ?thesis
      using install_counts_rep(1,3) [OF assms(1), of h sz ok s'] Install_Counts by (auto simp: fun_eq_iff)
  next
    case (Remove_Header h)
    then have "MAX_JUMP < HDR h s" "s' = GC_remove_header h s" using assms(2,3) by simp_all
    then show ?thesis using remove_header_rep(1,2) [OF assms(1), of h] Remove_Header by (auto simp: fun_eq_iff)
  next
    case (Remove_Counts h sz)
    have "\<forall>b. h < b \<longrightarrow> b * HBLKSIZE < h * HBLKSIZE + sz \<longrightarrow> present b s" if "HDR (h + 1) s \<noteq> 0"
      using assms(1,2) Remove_Counts that HDR_present by (auto simp: hdr_ok_def)
    moreover have "s' = GC_remove_counts h sz s" using assms(3) Remove_Counts by simp
    ultimately show ?thesis using remove_counts_rep(1,3) [OF assms(1), of sz h] Remove_Counts by (auto simp: fun_eq_iff)
  qed
  then show "\<exists>F'. hdr_ok F' s'" "(\<lambda>b. HDR b s') = map_step x r (\<lambda>b. HDR b s)"
    "x = Install_Header h \<Longrightarrow> r \<noteq> 0 \<Longrightarrow> MAX_JUMP < r \<and> r \<notin> range (\<lambda>b. HDR b s)" by auto
qed

lemma hdr_run_rep:
  assumes "hdr_ok F s" "hdr_run xs s = (rs, s')" "legal_run xs rs (\<lambda>b. HDR b s)"
  shows "(\<exists>F'. hdr_ok F' s') \<and> (\<lambda>b. HDR b s') = map_run xs rs (\<lambda>b. HDR b s) \<and> fresh_run xs rs (\<lambda>b. HDR b s)"
  using assms
proof (induction xs arbitrary: F s rs)
  case (Cons x xs)
  obtain r s1 where x: "hdr_step x s = (r, s1)" by force
  obtain rs1 where xs: "hdr_run xs s1 = (rs1, s')" "rs = r # rs1" using Cons.prems(2) x by (auto split: prod.splits)
  have legal: "hdr_legal x (\<lambda>b. HDR b s)" using Cons.prems(3) xs(2) by simp
  note s1 = hdr_step_rep [OF Cons.prems(1) legal x]
  obtain F1 where F1: "hdr_ok F1 s1" using s1(1) by blast
  have "legal_run xs rs1 (\<lambda>b. HDR b s1)" using Cons.prems(3) xs(2) by (simp add: s1(2))
  from Cons.IH [OF F1 xs(1) this] show ?case using s1(3) by (auto simp: xs(2) s1(2))
qed auto

section \<open>From a block to its object\<close>

lemma find_starting_rep:
  assumes "\<And>b. h < b \<Longrightarrow> b < h + n \<Longrightarrow> HDR b s = min (b - h) MAX_JUMP" "MAX_JUMP < HDR h s" "h \<le> b" "b < h + n"
  shows "GC_find_starting_hblk b (HDR b s) s = Some (h, HDR h s)"
  using assms(3,4)
proof (induction "b - h" arbitrary: b rule: less_induct)
  case less
  show ?case
  proof (cases "b = h")
    case True
    then show ?thesis using assms(2) by (subst GC_find_starting_hblk.simps) (simp add: IS_FORWARDING_ADDR_OR_NIL_def)
  next
    case False
    let ?b = "b - min (b - h) MAX_JUMP"
    have v: "HDR b s = min (b - h) MAX_JUMP" using assms(1) less.prems False by simp
    have "h \<le> ?b" "?b < b" using less.prems False by simp_all
    moreover from this have "GC_find_starting_hblk ?b (HDR ?b s) s = Some (h, HDR h s)" using less.prems by (intro less.hyps) linarith+
    ultimately show ?thesis
      by (subst GC_find_starting_hblk.simps) (simp add: v IS_FORWARDING_ADDR_OR_NIL_def FORWARDED_ADDR_def)
  qed
qed


section \<open>Walks\<close>

text \<open>A header says where its block is, and a count does not lead over a header.\<close>

definition layout :: "'a hdr_state_scheme \<Rightarrow> bool" where
  "layout s \<longleftrightarrow> (\<forall>b. MAX_JUMP < HDR b s \<longrightarrow> hb_block (headers s (HDR b s)) = b) \<and>
     (\<forall>b c. HDR b s \<le> MAX_JUMP \<longrightarrow> b < c + HDR b s \<longrightarrow> c \<le> b \<longrightarrow> HDR c s \<le> MAX_JUMP)"

lemma entry_HDR:
  assumes "index_inv s" "p \<in> set (GC_all_bottom_indices s)" "j < BOTTOM_SZ"
  shows "bi_index (bottoms s p) j = HDR (bi_key (bottoms s p) * BOTTOM_SZ + j) s"
proof -
  have "GET_BI (bi_key (bottoms s p) * BOTTOM_SZ + j) s = p" using assms by (intro GET_BI_present) simp_all
  then show ?thesis using assms(3) by (simp add: HDR_def HDR_FROM_BI_def)
qed

definition in_use :: "'a hdr_state_scheme \<Rightarrow> nat \<Rightarrow> bool" where
  "in_use s b \<longleftrightarrow> MAX_JUMP < HDR b s \<and> \<not> HBLK_IS_FREE (headers s (HDR b s))"

text \<open>Callbacks that leave the index, the flags and the blocks of headers alone.\<close>

definition keeps_blocks :: "(nat \<Rightarrow> 'a hdr_state_scheme \<Rightarrow> 'a hdr_state_scheme) \<Rightarrow> bool" where
  "keeps_blocks fn \<longleftrightarrow> (\<forall>h s. bottoms (fn h s) = bottoms s \<and>
     (\<forall>p. hb_block (headers (fn h s) p) = hb_block (headers s p) \<and> hb_flags (headers (fn h s) p) = hb_flags (headers s p)))"

definition same_blocks :: "'a hdr_state_scheme \<Rightarrow> 'a hdr_state_scheme \<Rightarrow> bool" where
  "same_blocks s t \<longleftrightarrow> bottoms t = bottoms s \<and>
     (\<forall>p. hb_block (headers t p) = hb_block (headers s p) \<and> hb_flags (headers t p) = hb_flags (headers s p))"

lemma same_blocks_fn: "keeps_blocks fn \<Longrightarrow> same_blocks s t \<Longrightarrow> same_blocks s (fn h t)"
  by (simp add: keeps_blocks_def same_blocks_def)

lemma apply_in_index_rep:
  assumes s: "index_inv s" "layout s" "p \<in> set (GC_all_bottom_indices s)" and fn: "keeps_blocks fn"
  defines "k \<equiv> bi_key (bottoms s p) * BOTTOM_SZ"
  shows "same_blocks s t \<Longrightarrow> j < int BOTTOM_SZ \<Longrightarrow>
    apply_in_index fn p j t = fold fn (rev (filter (in_use s) [k..<k + nat (j + 1)])) t"
proof (induction "nat (j + 1)" arbitrary: j t rule: less_induct)
  case less
  show ?case
  proof (cases "0 \<le> j")
    case False
    then show ?thesis by (simp add: apply_in_index.simps)
  next
    case True
    define i where "i = nat j"
    have j: "j = int i" "i < BOTTOM_SZ" using True less.prems(2) by (simp_all add: i_def)
    have e: "bi_index (bottoms t p) (nat j) = HDR (k + i) s"
      using entry_HDR [OF s(1,3) j(2)] less.prems(1) by (simp add: same_blocks_def k_def j(1))
    have range: "[k..<k + nat (j + 1)] = [k..<k + i] @ [k + i]" using j by (simp add: nat_add_distrib)
    show ?thesis
    proof (cases "HDR (k + i) s \<le> MAX_JUMP")
      case True
      define n where "n = (if HDR (k + i) s \<noteq> 0 then HDR (k + i) s else 1)"
      have n: "0 < n" by (simp add: n_def)
      have step: "apply_in_index fn p j t = apply_in_index fn p (j - int n) t"
        using \<open>0 \<le> j\<close> True by (subst apply_in_index.simps) (simp add: e IS_FORWARDING_ADDR_OR_NIL_def n_def)
      also have "\<dots> = fold fn (rev (filter (in_use s) [k..<k + nat (j - int n + 1)])) t"
        using n \<open>0 \<le> j\<close> less.prems by (intro less.hyps) auto
      also have "filter (in_use s) [k..<k + nat (j - int n + 1)] = filter (in_use s) [k..<k + nat (j + 1)]"
      proof -
        have sub: "nat (j - int n + 1) \<le> nat (j + 1)" by simp
        have "\<not> in_use s c" if "k + nat (j - int n + 1) \<le> c" "c < k + nat (j + 1)" for c
        proof -
          have "c \<le> k + i" "k + i < c + n" using that j by auto
          then have "c = k + i \<or> k + i < c + HDR (k + i) s" by (cases "HDR (k + i) s = 0") (simp_all add: n_def)
          then have "HDR c s \<le> MAX_JUMP" using s(2) True \<open>c \<le> k + i\<close> unfolding layout_def by blast
          then show ?thesis by (simp add: in_use_def)
        qed
        then have "filter (in_use s) [k + nat (j - int n + 1)..<k + nat (j + 1)] = []" by (auto simp: filter_empty_conv)
        moreover have "[k..<k + nat (j + 1)] = [k..<k + nat (j - int n + 1)] @ [k + nat (j - int n + 1)..<k + nat (j + 1)]"
          using sub upt_add_eq_append [of k "k + nat (j - int n + 1)" "nat (j + 1) - nat (j - int n + 1)"] by simp
        ultimately show ?thesis by simp
      qed
      finally show ?thesis .
    next
      case False
      let ?h = "HDR (k + i) s"
      have blk: "hb_block (headers t ?h) = k + i" using s(2) False less.prems(1) by (simp add: layout_def same_blocks_def)
      have fr: "HBLK_IS_FREE (headers t ?h) = HBLK_IS_FREE (headers s ?h)" using less.prems(1) by (simp add: HBLK_IS_FREE_def same_blocks_def)
      let ?t = "if in_use s (k + i) then fn (k + i) t else t"
      have "apply_in_index fn p j t = apply_in_index fn p (j - 1) ?t"
        using \<open>0 \<le> j\<close> False blk fr by (subst apply_in_index.simps) (simp add: e IS_FORWARDING_ADDR_OR_NIL_def in_use_def)
      also have "\<dots> = fold fn (rev (filter (in_use s) [k..<k + nat (j - 1 + 1)])) ?t"
        using \<open>0 \<le> j\<close> less.prems same_blocks_fn [OF fn less.prems(1)] by (intro less.hyps) auto
      also have "\<dots> = fold fn (rev (filter (in_use s) [k..<k + nat (j + 1)])) t" unfolding range by (simp add: j)
      finally show ?thesis .
    qed
  qed
qed

text \<open>The blocks in use, in the order of the walk.\<close>

definition walk_order :: "'a hdr_state_scheme \<Rightarrow> nat list" where
  "walk_order s = concat (map (\<lambda>p. let k = bi_key (bottoms s p) * BOTTOM_SZ in rev (filter (in_use s) [k..<k + BOTTOM_SZ])) (GC_all_bottom_indices s))"

lemma fold_same_blocks: "keeps_blocks fn \<Longrightarrow> same_blocks s t \<Longrightarrow> same_blocks s (fold fn hs t)"
  by (induction hs arbitrary: t) (auto simp: same_blocks_fn)

lemma apply_to_all_rep:
  assumes "index_inv s" "layout s" "keeps_blocks fn"
  shows "GC_apply_to_all_blocks fn s = fold fn (walk_order s) s"
proof -
  have "same_blocks s t \<Longrightarrow> set ps \<subseteq> set (GC_all_bottom_indices s) \<Longrightarrow>
      fold (\<lambda>bi. apply_in_index fn bi (int BOTTOM_SZ - 1)) ps t =
      fold fn (concat (map (\<lambda>p. let k = bi_key (bottoms s p) * BOTTOM_SZ in rev (filter (in_use s) [k..<k + BOTTOM_SZ])) ps)) t" for ps t
  proof (induction ps arbitrary: t)
    case (Cons p ps)
    let ?k = "bi_key (bottoms s p) * BOTTOM_SZ"
    let ?t = "fold fn (rev (filter (in_use s) [?k..<?k + BOTTOM_SZ])) t"
    have "apply_in_index fn p (int BOTTOM_SZ - 1) t = ?t"
      using apply_in_index_rep [OF assms(1,2) _ assms(3), of p t "int BOTTOM_SZ - 1"] Cons.prems by simp
    moreover have "same_blocks s ?t" by (rule fold_same_blocks [OF assms(3) Cons.prems(1)])
    ultimately show ?case using Cons by (simp add: Let_def)
  qed simp
  moreover have "same_blocks s s" by (simp add: same_blocks_def)
  ultimately show ?thesis by (simp add: GC_apply_to_all_blocks_def walk_order_def)
qed

lemma set_walk_order:
  assumes "index_inv s"
  shows "set (walk_order s) = {b. in_use s b}" "distinct (walk_order s)"
proof -
  have "b \<in> set (walk_order s)" if "in_use s b" for b
  proof -
    have "present b s" using that assms by (intro HDR_present) (auto simp: in_use_def)
    then obtain p where p: "p \<in> set (GC_all_bottom_indices s)" "bi_key (bottoms s p) = b div BOTTOM_SZ" by (auto simp: present_def)
    have "b div BOTTOM_SZ * BOTTOM_SZ \<le> b" "b < b div BOTTOM_SZ * BOTTOM_SZ + BOTTOM_SZ"
      using div_mult_mod_eq [of b BOTTOM_SZ] mod_less_divisor [of BOTTOM_SZ b] by linarith+
    then show ?thesis using p that by (force simp: walk_order_def Let_def)
  qed
  then show "set (walk_order s) = {b. in_use s b}" by (auto simp: walk_order_def Let_def)
  have "distinct (concat (map (\<lambda>p. let k = bi_key (bottoms s p) * BOTTOM_SZ in rev (filter (in_use s) [k..<k + BOTTOM_SZ])) ps))"
    if "sorted_wrt (\<lambda>p q. bi_key (bottoms s p) < bi_key (bottoms s q)) ps" for ps
    using that
  proof (induction ps)
    case (Cons p ps)
    have "b \<notin> set (filter (in_use s) [bi_key (bottoms s q) * BOTTOM_SZ..<bi_key (bottoms s q) * BOTTOM_SZ + BOTTOM_SZ])"
      if "q \<in> set ps" "b < bi_key (bottoms s p) * BOTTOM_SZ + BOTTOM_SZ" for q b
    proof -
      have "Suc (bi_key (bottoms s p)) * BOTTOM_SZ \<le> bi_key (bottoms s q) * BOTTOM_SZ"
        using Cons.prems that(1) by (intro mult_right_mono) auto
      then show ?thesis using that(2) by simp
    qed
    then show ?case using Cons by (auto simp: Let_def)
  qed simp
  then show "distinct (walk_order s)" using assms by (simp add: walk_order_def index_inv_def)
qed


text \<open>The walk downwards.\<close>

lemma less_of_div: "b div n < a div n \<Longrightarrow> b < a" for a b n :: nat
  by (metis div_le_mono leI not_le)

definition last_header :: "'a hdr_state_scheme \<Rightarrow> nat set \<Rightarrow> nat option \<Rightarrow> bool" where
  "last_header s A r \<longleftrightarrow> (case r of None \<Rightarrow> \<forall>c \<in> A. HDR c s \<le> MAX_JUMP
     | Some h \<Rightarrow> h \<in> A \<and> MAX_JUMP < HDR h s \<and> (\<forall>c \<in> A. h < c \<longrightarrow> HDR c s \<le> MAX_JUMP))"

lemma prev_in_index_rep:
  assumes s: "index_inv s" "layout s" "p \<in> set (GC_all_bottom_indices s)"
  defines "k \<equiv> bi_key (bottoms s p) * BOTTOM_SZ"
  shows "j < int BOTTOM_SZ \<Longrightarrow> last_header s {k..<k + nat (j + 1)} (prev_in_index p j s)"
proof (induction "nat (j + 1)" arbitrary: j rule: less_induct)
  case less
  show ?case
  proof (cases "0 \<le> j")
    case False
    then show ?thesis by (simp add: prev_in_index.simps last_header_def)
  next
    case True
    define i where "i = nat j"
    have j: "j = int i" "i < BOTTOM_SZ" using True less.prems by (simp_all add: i_def)
    have e: "bi_index (bottoms s p) (nat j) = HDR (k + i) s"
      using entry_HDR [OF s(1,3) j(2)] by (simp add: k_def j(1))
    show ?thesis
    proof (cases "HDR (k + i) s \<le> MAX_JUMP")
      case True
      define n where "n = (if HDR (k + i) s \<noteq> 0 then HDR (k + i) s else 1)"
      have n: "0 < n" by (simp add: n_def)
      have step: "prev_in_index p j s = prev_in_index p (j - int n) s"
        using \<open>0 \<le> j\<close> True by (subst prev_in_index.simps) (simp add: e IS_FORWARDING_ADDR_OR_NIL_def n_def)
      have ih: "last_header s {k..<k + nat (j - int n + 1)} (prev_in_index p (j - int n) s)"
        using n \<open>0 \<le> j\<close> less.prems by (intro less.hyps) auto
      have "HDR c s \<le> MAX_JUMP" if "k + nat (j - int n + 1) \<le> c" "c < k + nat (j + 1)" for c
      proof -
        have "c \<le> k + i" "k + i < c + n" using that j by auto
        then have "c = k + i \<or> k + i < c + HDR (k + i) s" by (cases "HDR (k + i) s = 0") (simp_all add: n_def)
        then show ?thesis using s(2) True \<open>c \<le> k + i\<close> unfolding layout_def by blast
      qed
      then show ?thesis using ih unfolding step last_header_def by (fastforce split: option.splits)
    next
      case False
      then have "prev_in_index p j s = Some (k + i)"
        using \<open>0 \<le> j\<close> s(2) by (subst prev_in_index.simps) (simp add: e IS_FORWARDING_ADDR_OR_NIL_def layout_def)
      then show ?thesis using False j by (auto simp: last_header_def)
    qed
  qed
qed

definition blocks_of :: "'a hdr_state_scheme \<Rightarrow> nat list \<Rightarrow> nat set" where
  "blocks_of s ps = {b. \<exists>p \<in> set ps. bi_key (bottoms s p) = b div BOTTOM_SZ}"

lemma index_blocks: "{bi_key (bottoms s p) * BOTTOM_SZ..<bi_key (bottoms s p) * BOTTOM_SZ + BOTTOM_SZ} = blocks_of s [p]"
proof -
  have "k * BOTTOM_SZ \<le> b \<and> b < k * BOTTOM_SZ + BOTTOM_SZ \<longleftrightarrow> k = b div BOTTOM_SZ" for k b :: nat
    using div_mult_mod_eq [of b BOTTOM_SZ] mod_less_divisor [of BOTTOM_SZ b] by (auto intro: div_nat_eqI [symmetric])
  then show ?thesis by (auto simp: blocks_of_def)
qed

lemma last_header_union:
  assumes "last_header s A r" "last_header s B q" "\<forall>a \<in> A. \<forall>b \<in> B. b < a"
  shows "last_header s (A \<union> B) (case r of None \<Rightarrow> q | Some h \<Rightarrow> Some h)"
proof (cases r)
  case None
  then have "HDR c s \<le> MAX_JUMP" if "c \<in> A" for c using assms(1) that by (simp add: last_header_def)
  then show ?thesis using assms(2) None by (cases q) (auto simp: last_header_def)
next
  case (Some h)
  then have "h \<in> A" "MAX_JUMP < HDR h s" "\<And>c. c \<in> A \<Longrightarrow> h < c \<Longrightarrow> HDR c s \<le> MAX_JUMP" using assms(1) by (simp_all add: last_header_def)
  moreover have "\<not> h < c" if "c \<in> B" for c using assms(3) that \<open>h \<in> A\<close> by (meson order_less_asym)
  ultimately show ?thesis using Some by (auto simp: last_header_def)
qed

lemma blocks_of_Cons: "blocks_of s (p # ps) = blocks_of s [p] \<union> blocks_of s ps"
  by (auto simp: blocks_of_def)

lemma prev_in_indices_rep:
  assumes s: "index_inv s" "layout s"
  shows "set ps \<subseteq> set (GC_all_bottom_indices s) \<Longrightarrow> sorted_wrt (\<lambda>p q. bi_key (bottoms s q) < bi_key (bottoms s p)) ps \<Longrightarrow>
    \<exists>r. last_header s (blocks_of s ps) r \<and> prev_in_indices (int BOTTOM_SZ - 1) ps s = (case r of None \<Rightarrow> 0 | Some h \<Rightarrow> h)"
proof (induction ps)
  case Nil
  then show ?case by (intro exI [of _ None]) (simp add: last_header_def blocks_of_def)
next
  case (Cons p ps)
  then obtain q where q: "last_header s (blocks_of s ps) q" "prev_in_indices (int BOTTOM_SZ - 1) ps s = (case q of None \<Rightarrow> 0 | Some h \<Rightarrow> h)"
    by auto
  have r: "last_header s (blocks_of s [p]) (prev_in_index p (int BOTTOM_SZ - 1) s)"
    using prev_in_index_rep [OF s, of p "int BOTTOM_SZ - 1"] Cons.prems(1) unfolding index_blocks [symmetric] by simp
  have "\<forall>a \<in> blocks_of s [p]. \<forall>b \<in> blocks_of s ps. b < a"
  proof (intro ballI)
    fix a b assume "a \<in> blocks_of s [p]" "b \<in> blocks_of s ps"
    then have "b div BOTTOM_SZ < a div BOTTOM_SZ" using Cons.prems(2) by (auto simp: blocks_of_def)
    then show "b < a" by (rule less_of_div)
  qed
  from last_header_union [OF r q(1) this]
  have "last_header s (blocks_of s (p # ps)) (case prev_in_index p (int BOTTOM_SZ - 1) s of None \<Rightarrow> q | Some h \<Rightarrow> Some h)"
    by (simp only: blocks_of_Cons [of s p ps])
  then show ?case using q(2) by (intro exI [of _ "case prev_in_index p (int BOTTOM_SZ - 1) s of None \<Rightarrow> q | Some h \<Rightarrow> Some h"])
      (simp split: option.splits)
qed


lemma set_dropWhile_desc:
  "sorted_wrt (\<lambda>p q. (f q :: nat) < f p) xs \<Longrightarrow> set (dropWhile (\<lambda>p. k < f p) xs) = {p \<in> set xs. f p \<le> k}"
  by (induction xs) auto

lemma last_header_cong: "(\<And>c. MAX_JUMP < HDR c s \<Longrightarrow> c \<in> A \<longleftrightarrow> c \<in> B) \<Longrightarrow> last_header s A r \<Longrightarrow> last_header s B r"
  unfolding last_header_def by (cases r) (auto simp: not_less [symmetric])

lemma prev_block_rep:
  assumes s: "index_inv s" "layout s"
  shows "\<exists>r. last_header s {..h} r \<and> GC_prev_block h s = (case r of None \<Rightarrow> 0 | Some b \<Rightarrow> b)"
proof -
  let ?all = "GC_all_bottom_indices s"
  let ?key = "\<lambda>p. bi_key (bottoms s p)"
  have sorted: "sorted_wrt (\<lambda>p q. ?key p < ?key q) ?all" using s(1) by (simp add: index_inv_def)
  then have rev: "sorted_wrt (\<lambda>p q. ?key q < ?key p) (rev ?all)" by (simp add: sorted_wrt_rev)
  have pres: "c \<in> blocks_of s ?all" if "MAX_JUMP < HDR c s" for c
    using HDR_present [of c s] s(1) that by (auto simp: present_def blocks_of_def)
  show ?thesis
  proof (cases "present h s")
    case False
    let ?ps = "dropWhile (\<lambda>p. h div BOTTOM_SZ < ?key p) (rev ?all)"
    have g: "GC_prev_block h s = prev_in_indices (int BOTTOM_SZ - 1) ?ps s"
      by (simp add: GC_prev_block_def Let_def GET_BI_absent [OF s(1) False])
    have ps: "set ?ps = {p \<in> set ?all. ?key p \<le> h div BOTTOM_SZ}" using set_dropWhile_desc [OF rev] by simp
    have "sorted_wrt (\<lambda>p q. ?key q < ?key p) ?ps" by (rule sorted_wrt_dropWhile [OF rev])
    then obtain r where r: "last_header s (blocks_of s ?ps) r" "prev_in_indices (int BOTTOM_SZ - 1) ?ps s = (case r of None \<Rightarrow> 0 | Some h \<Rightarrow> h)"
      using prev_in_indices_rep [OF s, of ?ps] ps by auto
    have "c \<in> blocks_of s ?ps \<longleftrightarrow> c \<in> {..h}" if "MAX_JUMP < HDR c s" for c
    proof
      assume "c \<in> blocks_of s ?ps"
      then have "c div BOTTOM_SZ \<le> h div BOTTOM_SZ" "c div BOTTOM_SZ \<noteq> h div BOTTOM_SZ"
        using False ps by (auto simp: blocks_of_def present_def)
      then show "c \<in> {..h}" using less_of_div [of c BOTTOM_SZ h] by simp
    next
      assume "c \<in> {..h}"
      then show "c \<in> blocks_of s ?ps" using pres [OF that] ps by (auto simp: blocks_of_def intro: div_le_mono)
    qed
    from last_header_cong [OF this r(1)] r(2) g show ?thesis by auto
  next
    case True
    then obtain p where p: "p \<in> set ?all" "?key p = h div BOTTOM_SZ" "GET_BI h s = p" using presentE [OF s(1)] by blast
    have nn: "p \<noteq> GC_all_nils s" using p(1) s(1) by (auto simp: index_inv_def)
    obtain xs ys where xy: "?all = xs @ p # ys" using split_list [OF p(1)] by blast
    have ny: "p \<notin> set ys" using sorted unfolding xy by (auto simp: sorted_wrt_append)
    have "dropWhile (\<lambda>q. q \<noteq> p) (rev ?all) = p # rev xs"
      using ny unfolding xy rev_append rev.simps append_assoc by (subst dropWhile_append2) auto
    then have g: "GC_prev_block h s = (case prev_in_index p (int (h mod BOTTOM_SZ)) s of Some b \<Rightarrow> b | None \<Rightarrow> prev_in_indices (int BOTTOM_SZ - 1) (rev xs) s)"
      using nn by (simp add: GC_prev_block_def Let_def p(3))
    have "int (h mod BOTTOM_SZ) < int BOTTOM_SZ" by simp
    from prev_in_index_rep [OF s p(1) this]
    have a: "last_header s {h div BOTTOM_SZ * BOTTOM_SZ..<h div BOTTOM_SZ * BOTTOM_SZ + Suc (h mod BOTTOM_SZ)} (prev_in_index p (int (h mod BOTTOM_SZ)) s)"
      by (simp add: p(2) nat_add_distrib)
    have hh: "h div BOTTOM_SZ * BOTTOM_SZ + Suc (h mod BOTTOM_SZ) = Suc h" using div_mult_mod_eq [of h BOTTOM_SZ] by simp
    note a = a [unfolded hh]
    have srt: "sorted_wrt (\<lambda>p q. ?key q < ?key p) (rev xs)" using sorted unfolding xy by (simp add: sorted_wrt_append sorted_wrt_rev)
    have "set (rev xs) \<subseteq> set ?all" unfolding xy by auto
    from prev_in_indices_rep [OF s this srt] obtain r where r: "last_header s (blocks_of s (rev xs)) r"
        "prev_in_indices (int BOTTOM_SZ - 1) (rev xs) s = (case r of None \<Rightarrow> 0 | Some h \<Rightarrow> h)" by blast
    have kx: "?key q < h div BOTTOM_SZ" if "q \<in> set xs" for q using sorted that p(2) unfolding xy by (auto simp: sorted_wrt_append)
    have ky: "h div BOTTOM_SZ < ?key q" if "q \<in> set ys" for q using sorted that p(2) unfolding xy by (auto simp: sorted_wrt_append)
    have "\<forall>a \<in> {h div BOTTOM_SZ * BOTTOM_SZ..<Suc h}. \<forall>b \<in> blocks_of s (rev xs). b < a"
    proof (intro ballI)
      fix a b assume a: "a \<in> {h div BOTTOM_SZ * BOTTOM_SZ..<Suc h}" and b: "b \<in> blocks_of s (rev xs)"
      have "b div BOTTOM_SZ < h div BOTTOM_SZ" using b kx unfolding blocks_of_def by fastforce
      moreover have "h div BOTTOM_SZ * BOTTOM_SZ div BOTTOM_SZ \<le> a div BOTTOM_SZ" using a by (intro div_le_mono) simp
      ultimately show "b < a" using less_of_div [of b BOTTOM_SZ a] by simp
    qed
    note u = last_header_union [OF a r(1) this]
    have "c \<in> {h div BOTTOM_SZ * BOTTOM_SZ..<Suc h} \<union> blocks_of s (rev xs) \<longleftrightarrow> c \<in> {..h}" if hc: "MAX_JUMP < HDR c s" for c
    proof
      assume "c \<in> {h div BOTTOM_SZ * BOTTOM_SZ..<Suc h} \<union> blocks_of s (rev xs)"
      then show "c \<in> {..h}"
      proof
        assume "c \<in> blocks_of s (rev xs)"
        then have "c div BOTTOM_SZ < h div BOTTOM_SZ" using kx unfolding blocks_of_def by fastforce
        then show ?thesis using less_of_div [of c BOTTOM_SZ h] by simp
      qed simp
    next
      assume c: "c \<in> {..h}"
      obtain q where q: "q \<in> set ?all" "?key q = c div BOTTOM_SZ" using pres [OF hc] by (auto simp: blocks_of_def)
      have "c div BOTTOM_SZ \<le> h div BOTTOM_SZ" using c by (intro div_le_mono) simp
      then have "q \<in> set xs \<or> q = p" using q ky unfolding xy by force
      then show "c \<in> {h div BOTTOM_SZ * BOTTOM_SZ..<Suc h} \<union> blocks_of s (rev xs)"
      proof
        assume "q = p"
        then have "h div BOTTOM_SZ = c div BOTTOM_SZ" using q(2) p(2) by simp
        then have "h div BOTTOM_SZ * BOTTOM_SZ \<le> c" using div_times_less_eq_dividend [of c BOTTOM_SZ] by simp
        then show ?thesis using c by simp
      qed (use q(2) in \<open>auto simp: blocks_of_def\<close>)
    qed
    from last_header_cong [OF this u] have l: "last_header s {..h} (case prev_in_index p (int (h mod BOTTOM_SZ)) s of None \<Rightarrow> r | Some h \<Rightarrow> Some h)" .
    show ?thesis using l g r(2) by (intro exI conjI) (auto split: option.splits)
  qed
qed

end
