(* ===== verification/Gc_Header_Properties.thy ===== *)
theory Gc_Header_Properties
  imports Gc_Headers_Facts
begin

text \<open>The properties of the index of headers, of GC_base, and of the walk over all blocks.\<close>

section \<open>The index\<close>

text \<open>
  C15: From GC_init_headers on, and with whatever memory the system returns or refuses, the index of two levels with its
  hash table behaves as one map from blocks to entries: the operations have exactly the effect they should on it,
  whatever their results, and every header handed out is one that no block has yet.
\<close>

theorem header_index_refines:
  assumes "mem_ok s0" "GC_hdr_free_list s0 = 0" "GC_all_bottom_indices s0 = []" "GC_init_headers s0 = Inr s1"
    and "hdr_run ops s1 = (rs, s)" "legal_run ops rs (\<lambda>_. 0)"
  shows "(\<lambda>b. HDR b s) = map_run ops rs (\<lambda>_. 0) \<and> fresh_run ops rs (\<lambda>_. 0)"
proof -
  have "(\<lambda>b. HDR b s1) = (\<lambda>_. 0)" using init_headers_rep(2) [OF assms(4,1-3)] by simp
  then show ?thesis using hdr_run_rep [OF init_headers_rep(1) [OF assms(4,1-3)] assms(5)] assms(6) by simp
qed

definition sample_start :: hdr_state where
  "sample_start = \<lparr>GC_all_nils = 0, GC_top_index = \<lambda>_. [], GC_all_bottom_indices = [], bottoms = \<lambda>_. \<lparr>bi_index = \<lambda>_. 0, bi_key = 0\<rparr>,
     headers = \<lambda>_. sample_hdr, GC_hdr_free_list = 0, GC_scratch_free_ptr = 0, GC_scratch_end_addr = 0, os_mem = [0x10000], GC_gc_no = 0\<rparr>"

lemma sample_start_ok: "mem_ok sample_start" "GC_hdr_free_list sample_start = 0" "GC_all_bottom_indices sample_start = []"
  by (auto simp: sample_start_def mem_ok_def avail_def mem_regions_def os_region_def)

text \<open>A legal run never depends on more than its results.\<close>

definition sample_index :: hdr_state where
  "sample_index = projr (GC_init_headers sample_start)"

lemma sample_init: "GC_init_headers sample_start = Inr sample_index"
  by (simp add: sample_index_def GC_init_headers_def sample_start_def GC_scratch_alloc_def ROUNDUP_GRANULE_SIZE_def
      ROUNDUP_PAGESIZE_def scratch_loop.simps)

theorem header_index_refines_witness:
  "\<exists>rs s. hdr_run [Install_Header 512, Install_Counts 512 0x3000] sample_index = (rs, s) \<and>
     (\<lambda>b. HDR b s) = map_run [Install_Header 512, Install_Counts 512 0x3000] rs (\<lambda>_. 0)"
proof -
  obtain rs s where r: "hdr_run [Install_Header 512, Install_Counts 512 0x3000] sample_index = (rs, s)" by force
  then have "legal_run [Install_Header 512, Install_Counts 512 0x3000] rs (\<lambda>_. 0)" by (auto split: prod.splits)
  then show ?thesis using header_index_refines [OF sample_start_ok sample_init r] r by blast
qed

section \<open>GC_base\<close>

definition object_base :: "nat \<Rightarrow> nat \<Rightarrow> nat \<Rightarrow> nat" where
  "object_base h lb p =
     (let start = h * HBLKSIZE; i = (p - start) div lb in
      if HBLKSIZE < lb then (if p < start + lb then start else 0)
      else if (i + 1) * lb \<le> HBLKSIZE then start + i * lb else 0)"

lemma align_in_block:
  assumes "d < HBLKSIZE"
  shows "(h * HBLKSIZE + d) div 8 * 8 = h * HBLKSIZE + d div 8 * 8" "(h * HBLKSIZE + d div 8 * 8) mod HBLKSIZE = d div 8 * 8"
proof -
  have "h * HBLKSIZE + d = d + h * 512 * 8" by simp
  then have "(h * HBLKSIZE + d) div 8 = h * 512 + d div 8" by (simp only: div_mult_self1 [of 8 d "h * 512"])
  then show "(h * HBLKSIZE + d) div 8 * 8 = h * HBLKSIZE + d div 8 * 8" by simp
  have "d div 8 * 8 \<le> d" by simp
  then show "(h * HBLKSIZE + d div 8 * 8) mod HBLKSIZE = d div 8 * 8" using assms by simp
qed

lemma align_div: "8 dvd lb \<Longrightarrow> d div 8 * 8 div lb = d div lb" for d lb :: nat
  by (auto simp: div_mult2_eq dvd_def)

lemma base_rep:
  assumes hd: "MAX_JUMP < HDR h s" "\<not> HBLK_IS_FREE (headers s (HDR h s))" "hb_sz (headers s (HDR h s)) = lb"
    and counts: "\<And>b. h < b \<Longrightarrow> b < h + OBJ_SZ_TO_BLOCKS lb \<Longrightarrow> HDR b s = min (b - h) MAX_JUMP"
    and lb: "0 < lb" "8 dvd lb" and p: "h * HBLKSIZE \<le> p" "p < (h + OBJ_SZ_TO_BLOCKS lb) * HBLKSIZE"
  shows "GC_base p s = Some (object_base h lb p)"
proof -
  let ?b = "p div HBLKSIZE"
  define d where "d = p - h * HBLKSIZE"
  have pd: "p = h * HBLKSIZE + d" using p(1) by (simp add: d_def)
  have b: "h \<le> ?b" "?b < h + OBJ_SZ_TO_BLOCKS lb"
    using p by (simp_all add: less_eq_div_iff_mult_less_eq div_less_iff_less_mult)
  have nz: "HDR ?b s \<noteq> 0" using hd(1) counts [of ?b] b by (cases "?b = h") auto
  define r where "r = (if ?b = h then p else h * HBLKSIZE)"
  have look: "(if IS_FORWARDING_ADDR_OR_NIL (HDR ?b s)
      then map_option (\<lambda>(h, hhdr). (h, hhdr, h * HBLKSIZE)) (GC_find_starting_hblk ?b (HDR ?b s) s)
      else Some (?b, HDR ?b s, p)) = Some (h, HDR h s, r)"
  proof (cases "?b = h")
    case True
    then show ?thesis using hd(1) by (simp add: IS_FORWARDING_ADDR_OR_NIL_def r_def)
  next
    case False
    then have "HDR ?b s \<le> MAX_JUMP" using counts b by simp
    then show ?thesis using find_starting_rep [OF counts hd(1) b] False by (simp add: IS_FORWARDING_ADDR_OR_NIL_def r_def)
  qed
  have g: "GC_base p s = (let q = r div 8 * 8 - r div 8 * 8 mod HBLKSIZE mod lb in
      if (h + 1) * HBLKSIZE < q + lb \<and> lb \<le> HBLKSIZE \<or> q + lb \<le> p then Some 0 else Some q)"
    using nz hd(2,3) unfolding GC_base_def Let_def look by simp
  show ?thesis
  proof (cases "HBLKSIZE < lb")
    case True
    have "r div 8 * 8 - r div 8 * 8 mod HBLKSIZE mod lb = h * HBLKSIZE"
    proof (cases "?b = h")
      case b: True
      then have d: "d < HBLKSIZE" using div_mult_mod_eq [of p HBLKSIZE] mod_less_divisor [of HBLKSIZE p] unfolding d_def by linarith
      have "d div 8 * 8 < lb" using d True by (meson div_times_less_eq_dividend le_less_trans less_trans)
      then show ?thesis using b unfolding r_def pd align_in_block [OF d] by (simp add: align_in_block [OF d])
    next
      case False
      have "h * HBLKSIZE div 8 * 8 = h * HBLKSIZE" by simp
      then show ?thesis using False unfolding r_def by simp
    qed
    then show ?thesis using True unfolding g by (simp add: object_base_def Let_def)
  next
    case False
    then have one: "OBJ_SZ_TO_BLOCKS lb = 1" using lb(1) by (simp add: OBJ_SZ_TO_BLOCKS_def div_nat_eqI)
    then have bh: "?b = h" using b by simp
    have d: "d < HBLKSIZE" using p(2) one unfolding d_def by simp
    let ?d = "d div 8 * 8"
    have q: "r div 8 * 8 - r div 8 * 8 mod HBLKSIZE mod lb = h * HBLKSIZE + d div lb * lb"
    proof -
      have rd: "r div 8 * 8 = h * HBLKSIZE + ?d" using bh align_in_block(1) [OF d, of h] by (simp add: r_def pd)
      have "?d = d div lb * lb + ?d mod lb" using div_mult_mod_eq [of ?d lb] by (simp only: align_div [OF lb(2), of d])
      then have "h * HBLKSIZE + ?d - ?d mod lb = h * HBLKSIZE + d div lb * lb" by linarith
      then show ?thesis unfolding rd align_in_block(2) [OF d, of h] .
    qed
    have "d < d div lb * lb + lb" using lb(1) dividend_less_div_times [of lb d] by (simp add: add.commute)
    then have "\<not> h * HBLKSIZE + d div lb * lb + lb \<le> p" using pd by linarith
    moreover have "(h + 1) * HBLKSIZE < h * HBLKSIZE + d div lb * lb + lb \<longleftrightarrow> HBLKSIZE < (d div lb + 1) * lb" by (simp add: algebra_simps)
    ultimately show ?thesis using False unfolding g q by (simp add: object_base_def Let_def d_def [symmetric])
  qed
qed

text \<open>
  C16: For an object, or a block of objects, of \<open>lb\<close> bytes that was given a header and counts, GC_base ends for every
  address in its blocks; it returns the start of the object around the address, also from far behind its first block,
  and NULL in the unused rest of the blocks.
\<close>

theorem base_of_object:
  assumes "hdr_ok F s" "GC_install_header h s = (r, s1)" "r \<noteq> 0"
    and "GC_install_counts h (OBJ_SZ_TO_BLOCKS lb * HBLKSIZE) s1 = (True, s2)" "(h + OBJ_SZ_TO_BLOCKS lb) * HBLKSIZE \<le> 2 ^ 64"
    and "0 < lb" "8 dvd lb" "fl AND FREE_BLK = 0" "h * HBLKSIZE \<le> p" "p < (h + OBJ_SZ_TO_BLOCKS lb) * HBLKSIZE"
  shows "GC_base p (upd_hdr r (\<lambda>hd. hd\<lparr>hb_sz := lb, hb_flags := fl\<rparr>) s2) = Some (object_base h lb p)"
proof -
  obtain F1 where F1: "hdr_ok F1 s1" "HDR h s1 = r" "MAX_JUMP < r"
    using install_header_rep [OF assms(1,2)] assms(3) by auto
  have le: "h * HBLKSIZE + OBJ_SZ_TO_BLOCKS lb * HBLKSIZE \<le> 2 ^ 64" using assms(5) by simp
  note c = install_counts_rep(3) [OF F1(1) le assms(4)]
  have hr: "HDR h s2 = r" using c [of h] F1(2) by simp
  have cs: "HDR b s2 = min (b - h) MAX_JUMP" if "h < b" "b < h + OBJ_SZ_TO_BLOCKS lb" for b
  proof -
    have "b * HBLKSIZE < (h + OBJ_SZ_TO_BLOCKS lb) * HBLKSIZE" using that(2) by simp
    then have "b * HBLKSIZE < h * HBLKSIZE + OBJ_SZ_TO_BLOCKS lb * HBLKSIZE" by (simp only: add_mult_distrib)
    then show ?thesis using c [of b] that(1) by simp
  qed
  show ?thesis using F1(3) hr assms(6-10) cs by (intro base_rep) (simp_all add: HBLK_IS_FREE_def)
qed


lemma sample_install: "0 < fst (GC_install_header 512 sample_index)"
  by (simp add: sample_index_def GC_init_headers_def sample_start_def GC_scratch_alloc_def ROUNDUP_GRANULE_SIZE_def
      ROUNDUP_PAGESIZE_def scratch_loop.simps GC_install_header_def get_index_def alloc_hdr_def TL_HASH_def)

theorem base_of_object_witness:
  "\<exists>s :: hdr_state. GC_base (513 * HBLKSIZE + 100) s = Some (512 * HBLKSIZE)"
proof -
  obtain r s1 where i: "GC_install_header 512 sample_index = (r, s1)" by force
  have r: "r \<noteq> 0" using sample_install i by simp
  have ok: "hdr_ok [] sample_index" by (rule init_headers_rep [OF sample_init sample_start_ok])
  obtain F1 where F1: "hdr_ok F1 s1" "HDR 512 s1 = r" "MAX_JUMP < r" using install_header_rep [OF ok i] r by auto
  have "present 512 s1" using F1 by (intro HDR_present) (simp_all add: hdr_ok_def)
  then have p: "get_index 512 s1 = (True, s1)" "get_index 513 s1 = (True, s1)"
    using F1(1) present_cong [of 513 512 s1] by (simp_all add: get_index_present hdr_ok_def)
  then obtain s2 where s2: "GC_install_counts 512 (OBJ_SZ_TO_BLOCKS 8192 * HBLKSIZE) s1 = (True, s2)"
    by (simp add: GC_install_counts_def OBJ_SZ_TO_BLOCKS_def counts_index_loop.simps)
  have "GC_base (513 * HBLKSIZE + 100) (upd_hdr r (\<lambda>hd. hd\<lparr>hb_sz := 8192, hb_flags := 0\<rparr>) s2) =
      Some (object_base 512 8192 (513 * HBLKSIZE + 100))"
    using r by (intro base_of_object [OF ok i _ s2]) (simp_all add: OBJ_SZ_TO_BLOCKS_def)
  then show ?thesis by (auto simp: object_base_def)
qed

section \<open>All blocks\<close>



definition sample_marks :: mark_state where
  "sample_marks = \<lparr>GC_all_nils = 1, GC_top_index = \<lambda>i. if i = 0 then [0x5000] else [], GC_all_bottom_indices = [0x5000],
     bottoms = \<lambda>p. \<lparr>bi_index = \<lambda>j. if p = 0x5000 \<and> j = 512 then 0x6000 else 0, bi_key = 0\<rparr>,
     headers = \<lambda>_. sample_hdr\<lparr>hb_marks := \<lambda>_. True\<rparr>, GC_hdr_free_list = 0, GC_scratch_free_ptr = 0, GC_scratch_end_addr = 0,
     os_mem = [], GC_gc_no = 0, GC_parallel = True, GC_objects_are_marked = True, GC_mark_state = MS_NONE, GC_scan_ptr = 0\<rparr>"

lemma sample_marks_HDR: "HDR b sample_marks = (if b = 512 then 0x6000 else 0)"
proof (cases "b div BOTTOM_SZ = 0")
  case True
  then have "b mod BOTTOM_SZ = b" by simp
  then show ?thesis using True by (simp add: HDR_def HDR_FROM_BI_def GET_BI_def TL_HASH_def sample_marks_def)
next
  case False
  then have "b \<noteq> 512" by auto
  then show ?thesis using False by (simp add: HDR_def HDR_FROM_BI_def GET_BI_def TL_HASH_def sample_marks_def)
qed

lemma sample_marks_ok: "hdr_ok [] sample_marks" "layout sample_marks"
proof -
  have "index_inv sample_marks"
    by (auto simp: index_inv_def mem_ok_def avail_def mem_regions_def TL_HASH_def sample_marks_def)
  then show "hdr_ok [] sample_marks"
    by (auto simp: hdr_ok_def live_def one_block_def sample_marks_HDR avail_def mem_regions_def)
      (simp_all add: sample_marks_def)
  show "layout sample_marks" by (auto simp: layout_def sample_marks_HDR) (simp add: sample_marks_def sample_hdr_def)
qed


text \<open>
  GC_prev_block returns the last block that starts at or in front of the one given, over any number of empty
  entries, counts and missing indices, and NULL when there is none; the walk always ends.
\<close>

theorem prev_block_correct:
  assumes "hdr_ok F s" "layout s"
  shows "if \<exists>c \<le> h. MAX_JUMP < HDR c s
    then GC_prev_block h s \<le> h \<and> MAX_JUMP < HDR (GC_prev_block h s) s \<and> (\<forall>c \<le> h. MAX_JUMP < HDR c s \<longrightarrow> c \<le> GC_prev_block h s)
    else GC_prev_block h s = 0"
proof -
  obtain r where r: "last_header s {..h} r" "GC_prev_block h s = (case r of None \<Rightarrow> 0 | Some b \<Rightarrow> b)"
    using prev_block_rep [of s h] assms by (auto simp: hdr_ok_def)
  show ?thesis
  proof (cases r)
    case None
    then have "\<not> (\<exists>c \<le> h. MAX_JUMP < HDR c s)" using r(1) by (simp add: last_header_def not_less)
    then show ?thesis using r(2) None by simp
  next
    case (Some b)
    then have "b \<le> h" "MAX_JUMP < HDR b s" "\<And>c. c \<le> h \<Longrightarrow> b < c \<Longrightarrow> HDR c s \<le> MAX_JUMP"
      using r(1) by (simp_all add: last_header_def)
    then show ?thesis using r(2) Some by (auto simp: not_less [symmetric])
  qed
qed

theorem prev_block_correct_witness: "GC_prev_block 3000 sample_marks = 512"
  using prev_block_correct [OF sample_marks_ok, of 3000] by (auto simp: sample_marks_HDR split: if_splits)

end
