(* ===== verification/Gc_Blacklist.thy ===== *)
theory Gc_Blacklist
  imports Gc_Headers
begin

text \<open>
  src/src/common/gc/blacklst.c: the blocks that false references point to, in hash tables of one bit per bucket, and
  the displacements of src/src/common/gc/obj_map.c that count as references.

  A table is its words by their index; the pointers to the tables are exchanged by exchanging the tables.  A pointer
  \<open>p\<close> of a reference is an address, a block its number.
\<close>

section \<open>Tables of pages\<close>

type_synonym page_hash_table = "nat \<Rightarrow> 64 word"

abbreviation CPP_WORDSZ :: nat where "CPP_WORDSZ \<equiv> 64"
abbreviation PHT_ENTRIES :: nat where "PHT_ENTRIES \<equiv> 2 ^ 18"
abbreviation MAXHINCR :: nat where "MAXHINCR \<equiv> 2048"

definition PHT_HASH :: "nat \<Rightarrow> nat" where
  "PHT_HASH h = h mod PHT_ENTRIES"

definition get_pht_entry_from_index :: "page_hash_table \<Rightarrow> nat \<Rightarrow> bool" where
  "get_pht_entry_from_index bl index \<longleftrightarrow> drop_bit (index mod CPP_WORDSZ) (bl (index div CPP_WORDSZ)) AND 1 \<noteq> 0"

definition set_pht_entry_from_index :: "nat \<Rightarrow> page_hash_table \<Rightarrow> page_hash_table" where
  "set_pht_entry_from_index index bl =
     bl(index div CPP_WORDSZ := bl (index div CPP_WORDSZ) OR push_bit (index mod CPP_WORDSZ) 1)"

section \<open>Displacements\<close>

abbreviation VALID_OFFSET_SZ :: nat where "VALID_OFFSET_SZ \<equiv> HBLKSIZE"

record heap_sect =
  hs_start :: nat
  hs_bytes :: nat

record bl_state = mark_state +
  GC_all_interior_pointers :: bool
  GC_valid_offsets :: "nat \<Rightarrow> bool"
  GC_modws_valid_offsets :: "nat \<Rightarrow> bool"
  GC_old_normal_bl :: page_hash_table
  GC_incomplete_normal_bl :: page_hash_table
  GC_old_stack_bl :: page_hash_table
  GC_incomplete_stack_bl :: page_hash_table
  GC_total_stack_black_listed :: nat
  GC_black_list_spacing :: nat
  GC_heap_sects :: "heap_sect list"
  GC_heapsize :: nat

definition GC_register_displacement_inner :: "nat \<Rightarrow> 'a bl_state_scheme \<Rightarrow> 'a bl_state_scheme res" where
  "GC_register_displacement_inner offset s =
     (if VALID_OFFSET_SZ \<le> offset then Inl Fatal_Exit
      else if \<not> GC_valid_offsets s offset
      then Inr (s\<lparr>GC_valid_offsets := (GC_valid_offsets s)(offset := True),
                 GC_modws_valid_offsets := (GC_modws_valid_offsets s)(offset mod 8 := True)\<rparr>)
      else Inr s)"

definition GC_register_displacement :: "nat \<Rightarrow> 'a bl_state_scheme \<Rightarrow> 'a bl_state_scheme res" where
  "GC_register_displacement offset s = GC_register_displacement_inner offset s"

text \<open>With interior pointers only the table of offsets is set, and the other is left.\<close>

definition GC_initialize_offsets :: "'a bl_state_scheme \<Rightarrow> 'a bl_state_scheme" where
  "GC_initialize_offsets s =
     (if GC_all_interior_pointers s then s\<lparr>GC_valid_offsets := \<lambda>i. if i < VALID_OFFSET_SZ then True else GC_valid_offsets s i\<rparr>
      else s\<lparr>GC_valid_offsets := \<lambda>_. False,
             GC_modws_valid_offsets := \<lambda>i. if i < 8 then False else GC_modws_valid_offsets s i\<rparr>)"

section \<open>Black lists\<close>

definition GC_clear_bl :: "page_hash_table \<Rightarrow> page_hash_table" where
  "GC_clear_bl bl = (\<lambda>_. 0)"

definition GC_copy_bl :: "page_hash_table \<Rightarrow> page_hash_table \<Rightarrow> page_hash_table" where
  "GC_copy_bl old dest = old"

text \<open>The loops over the blocks of a section, and over the sections.\<close>

function number_loop :: "nat \<Rightarrow> nat \<Rightarrow> nat \<Rightarrow> 'a bl_state_scheme \<Rightarrow> nat" where
  "number_loop h endp1 result s =
     (if h < endp1
      then number_loop (h + 1) endp1 (if get_pht_entry_from_index (GC_old_stack_bl s) (PHT_HASH h) then result + 1 else result) s
      else result)"
  by pat_completeness auto
termination by (relation "measure (\<lambda>(h, endp1, result, s). endp1 - h)") auto

declare number_loop.simps [simp del]

definition GC_number_stack_black_listed :: "nat \<Rightarrow> nat \<Rightarrow> 'a bl_state_scheme \<Rightarrow> nat" where
  "GC_number_stack_black_listed start endp1 s = number_loop start endp1 0 s"

definition total_stack_black_listed :: "'a bl_state_scheme \<Rightarrow> nat" where
  "total_stack_black_listed s =
     fold (\<lambda>sect total.
         let start = hs_start sect div HBLKSIZE; endp1 = start + hs_bytes sect div HBLKSIZE
         in total + GC_number_stack_black_listed start endp1 s)
       (GC_heap_sects s) 0 * HBLKSIZE"

definition GC_promote_black_lists :: "'a bl_state_scheme \<Rightarrow> 'a bl_state_scheme" where
  "GC_promote_black_lists s =
     (let very_old_normal_bl = GC_old_normal_bl s; very_old_stack_bl = GC_old_stack_bl s;
          s = s\<lparr>GC_old_normal_bl := GC_incomplete_normal_bl s, GC_old_stack_bl := GC_incomplete_stack_bl s\<rparr>;
          very_old_normal_bl = (if \<not> GC_all_interior_pointers s then GC_clear_bl very_old_normal_bl else very_old_normal_bl);
          very_old_stack_bl = GC_clear_bl very_old_stack_bl;
          s = s\<lparr>GC_incomplete_normal_bl := very_old_normal_bl, GC_incomplete_stack_bl := very_old_stack_bl\<rparr>;
          s = s\<lparr>GC_total_stack_black_listed := total_stack_black_listed s\<rparr>;
          s = (if GC_total_stack_black_listed s \<noteq> 0
               then s\<lparr>GC_black_list_spacing := HBLKSIZE * (GC_heapsize s div GC_total_stack_black_listed s)\<rparr> else s);
          s = (if GC_black_list_spacing s < 3 * HBLKSIZE then s\<lparr>GC_black_list_spacing := 3 * HBLKSIZE\<rparr> else s)
      in if MAXHINCR * HBLKSIZE < GC_black_list_spacing s then s\<lparr>GC_black_list_spacing := MAXHINCR * HBLKSIZE\<rparr> else s)"

definition GC_unpromote_black_lists :: "'a bl_state_scheme \<Rightarrow> 'a bl_state_scheme" where
  "GC_unpromote_black_lists s =
     (let s = (if \<not> GC_all_interior_pointers s
               then s\<lparr>GC_incomplete_normal_bl := GC_copy_bl (GC_old_normal_bl s) (GC_incomplete_normal_bl s)\<rparr> else s)
      in s\<lparr>GC_incomplete_stack_bl := GC_copy_bl (GC_old_stack_bl s) (GC_incomplete_stack_bl s)\<rparr>)"

definition GC_add_to_black_list_normal :: "nat \<Rightarrow> 'a bl_state_scheme \<Rightarrow> 'a bl_state_scheme" where
  "GC_add_to_black_list_normal p s =
     (if GC_modws_valid_offsets s (p mod 8) then
        let index = PHT_HASH (p div HBLKSIZE) in
        if HDR (p div HBLKSIZE) s = 0 \<or> get_pht_entry_from_index (GC_old_normal_bl s) index
        then s\<lparr>GC_incomplete_normal_bl := set_pht_entry_from_index index (GC_incomplete_normal_bl s)\<rparr>
        else s
      else s)"

definition GC_add_to_black_list_stack :: "nat \<Rightarrow> 'a bl_state_scheme \<Rightarrow> 'a bl_state_scheme" where
  "GC_add_to_black_list_stack p s =
     (let index = PHT_HASH (p div HBLKSIZE) in
      if HDR (p div HBLKSIZE) s = 0 \<or> get_pht_entry_from_index (GC_old_stack_bl s) index
      then s\<lparr>GC_incomplete_stack_bl := set_pht_entry_from_index index (GC_incomplete_stack_bl s)\<rparr>
      else s)"

text \<open>The search for a listed block among those of an object; where both words are 0 it goes on at the next word.\<close>

function black_listed_loop :: "nat \<Rightarrow> nat \<Rightarrow> nat \<Rightarrow> nat \<Rightarrow> 'a bl_state_scheme \<Rightarrow> nat" where
  "black_listed_loop h nblocks i index s =
     (let easy = GC_old_stack_bl s (index div CPP_WORDSZ) = 0 \<and> GC_incomplete_stack_bl s (index div CPP_WORDSZ) = 0 in
      if \<not> easy \<and> (get_pht_entry_from_index (GC_old_stack_bl s) index \<or> get_pht_entry_from_index (GC_incomplete_stack_bl s) index)
      then h + i + 1
      else
        let i = (if easy then i + (CPP_WORDSZ - index mod CPP_WORDSZ) else i + 1)
        in if nblocks \<le> i then 0 else black_listed_loop h nblocks i (PHT_HASH (h + i)) s)"
  by pat_completeness auto
termination by (relation "measure (\<lambda>(h, nblocks, i, index, s). nblocks - i)") (auto simp: Let_def split: if_splits)

declare black_listed_loop.simps [simp del]

definition GC_is_black_listed :: "nat \<Rightarrow> nat \<Rightarrow> 'a bl_state_scheme \<Rightarrow> nat" where
  "GC_is_black_listed h len s =
     (let index = PHT_HASH h in
      if \<not> GC_all_interior_pointers s \<and>
         (get_pht_entry_from_index (GC_old_normal_bl s) index \<or> get_pht_entry_from_index (GC_incomplete_normal_bl s) index)
      then h + 1
      else black_listed_loop h (len div HBLKSIZE) 0 index s)"

end
