(* ===== verification/Gc_Blacklist_Facts.thy ===== *)
theory Gc_Blacklist_Facts
  imports Gc_Blacklist
begin

text \<open>
  The search GC_is_black_listed finds the first listed block although it skips words, and a false reference is
  remembered for one collection.
\<close>

section \<open>Tables\<close>

lemma get_bit: "get_pht_entry_from_index bl i = bit (bl (i div CPP_WORDSZ)) (i mod CPP_WORDSZ)"
  by (simp add: get_pht_entry_from_index_def and_one_eq bit_iff_odd_drop_bit odd_iff_mod_2_eq_one)

lemma get_set: "get_pht_entry_from_index (set_pht_entry_from_index i bl) j \<longleftrightarrow> i = j \<or> get_pht_entry_from_index bl j"
proof (cases "i div CPP_WORDSZ = j div CPP_WORDSZ")
  case True
  then have "i = j \<longleftrightarrow> i mod CPP_WORDSZ = j mod CPP_WORDSZ" by (metis div_mult_mod_eq)
  then show ?thesis using True
    by (auto simp: get_bit set_pht_entry_from_index_def bit_or_iff bit_exp_iff)
next
  case False
  then show ?thesis by (auto simp: get_bit set_pht_entry_from_index_def)
qed

lemma get_clear [simp]: "\<not> get_pht_entry_from_index (GC_clear_bl bl) i"
  by (simp add: get_bit GC_clear_bl_def)

section \<open>The search\<close>

definition stack_listed :: "'a bl_state_scheme \<Rightarrow> nat \<Rightarrow> bool" where
  "stack_listed s b \<longleftrightarrow> get_pht_entry_from_index (GC_old_stack_bl s) (PHT_HASH b) \<or>
     get_pht_entry_from_index (GC_incomplete_stack_bl s) (PHT_HASH b)"

definition normal_listed :: "'a bl_state_scheme \<Rightarrow> nat \<Rightarrow> bool" where
  "normal_listed s b \<longleftrightarrow> \<not> GC_all_interior_pointers s \<and> (get_pht_entry_from_index (GC_old_normal_bl s) (PHT_HASH b) \<or>
     get_pht_entry_from_index (GC_incomplete_normal_bl s) (PHT_HASH b))"

lemma same_word:
  assumes "k < CPP_WORDSZ - PHT_HASH b mod CPP_WORDSZ"
  shows "PHT_HASH (b + k) div CPP_WORDSZ = PHT_HASH b div CPP_WORDSZ"
proof -
  let ?q = "PHT_HASH b div CPP_WORDSZ" and ?r = "PHT_HASH b mod CPP_WORDSZ"
  have e: "PHT_HASH b = ?q * CPP_WORDSZ + ?r" by simp
  have "?q < 4096" by (simp add: PHT_HASH_def div_less_iff_less_mult)
  then have "?q * CPP_WORDSZ \<le> 4095 * CPP_WORDSZ" by (intro mult_right_mono) simp_all
  moreover have "?r + k < 64" using assms by linarith
  ultimately have "PHT_HASH b + k < 262144" using e by linarith
  then have lt: "PHT_HASH b + k < PHT_ENTRIES" by simp
  have "PHT_HASH (b + k) = (PHT_HASH b + k) mod PHT_ENTRIES" by (simp add: PHT_HASH_def mod_add_left_eq)
  also have "\<dots> = PHT_HASH b + k" using lt by simp
  also have "\<dots> = ?q * CPP_WORDSZ + (?r + k)" using e by linarith
  finally show ?thesis using \<open>?r + k < 64\<close> by (simp only: div_mult_self3)
qed

lemma easy_words:
  assumes "GC_old_stack_bl s (PHT_HASH b div CPP_WORDSZ) = 0" "GC_incomplete_stack_bl s (PHT_HASH b div CPP_WORDSZ) = 0"
    and "k < CPP_WORDSZ - PHT_HASH b mod CPP_WORDSZ"
  shows "\<not> stack_listed s (b + k)"
  using assms same_word [OF assms(3)] by (simp add: stack_listed_def get_bit)

lemma black_listed_loop_rep:
  assumes "index = PHT_HASH (h + i)" "i = 0 \<or> i < nblocks"
  shows "case black_listed_loop h nblocks i index s of
      0 \<Rightarrow> \<forall>b. h + i \<le> b \<longrightarrow> b < h + nblocks \<longrightarrow> \<not> stack_listed s b
    | Suc b \<Rightarrow> h + i \<le> b \<and> b < h + max 1 nblocks \<and> stack_listed s b"
  using assms
proof (induction h nblocks i index s rule: black_listed_loop.induct)
  case (1 h nblocks i index s)
  let ?easy = "GC_old_stack_bl s (index div CPP_WORDSZ) = 0 \<and> GC_incomplete_stack_bl s (index div CPP_WORDSZ) = 0"
  show ?case
  proof (cases "\<not> ?easy \<and> stack_listed s (h + i)")
    case True
    then have "black_listed_loop h nblocks i index s = h + i + 1"
      using "1.prems"(1) by (subst black_listed_loop.simps) (simp add: Let_def stack_listed_def)
    then show ?thesis using True "1.prems"(2) by auto
  next
    case False
    define j where "j = (if ?easy then i + (CPP_WORDSZ - index mod CPP_WORDSZ) else i + 1)"
    have step: "black_listed_loop h nblocks i index s = (if nblocks \<le> j then 0 else black_listed_loop h nblocks j (PHT_HASH (h + j)) s)"
      using False "1.prems"(1) unfolding j_def by (subst black_listed_loop.simps) (auto simp: Let_def stack_listed_def)
    have skip: "\<not> stack_listed s b" if "h + i \<le> b" "b < h + j" for b
    proof (cases ?easy)
      case True
      then have "b - (h + i) < CPP_WORDSZ - PHT_HASH (h + i) mod CPP_WORDSZ" using that "1.prems"(1) by (simp add: j_def)
      from easy_words [OF _ _ this, of s] show ?thesis using True "1.prems"(1) that(1) by simp
    next
      case e: False
      then have "j = i + 1" by (auto simp: j_def)
      then have "b = h + i" using that by simp
      then show ?thesis using False e by blast
    qed
    have "0 < CPP_WORDSZ - index mod CPP_WORDSZ" by simp
    then have ij: "i < j"
    proof (cases ?easy)
      case True
      then show ?thesis unfolding j_def if_P [OF True] using \<open>0 < CPP_WORDSZ - index mod CPP_WORDSZ\<close> by linarith
    next
      case False
      then show ?thesis unfolding j_def if_not_P [OF False] by simp
    qed
    show ?thesis
    proof (cases "nblocks \<le> j")
      case True
      then show ?thesis unfolding step using skip by auto
    next
      case cont: False
      have "\<not> (\<not> ?easy \<and> (get_pht_entry_from_index (GC_old_stack_bl s) index \<or> get_pht_entry_from_index (GC_incomplete_stack_bl s) index))"
        using False "1.prems"(1) by (auto simp: stack_listed_def)
      from "1.IH" [OF refl this refl] cont
      have ih: "case black_listed_loop h nblocks j (PHT_HASH (h + j)) s of
          0 \<Rightarrow> \<forall>b. h + j \<le> b \<longrightarrow> b < h + nblocks \<longrightarrow> \<not> stack_listed s b
        | Suc b \<Rightarrow> h + j \<le> b \<and> b < h + max 1 nblocks \<and> stack_listed s b"
        unfolding j_def by simp
      show ?thesis
      proof (cases "black_listed_loop h nblocks j (PHT_HASH (h + j)) s")
        case 0
        then have "\<not> stack_listed s b" if "h + i \<le> b" "b < h + nblocks" for b
          using ih skip [of b] that by (cases "b < h + j") auto
        then show ?thesis unfolding step using cont 0 by simp
      next
        case (Suc b)
        then show ?thesis unfolding step using cont ih ij by simp
      qed
    qed
  qed
qed

lemma is_black_listed_rep:
  "case GC_is_black_listed h len s of
      0 \<Rightarrow> \<not> normal_listed s h \<and> (\<forall>b \<in> {h..<h + len div HBLKSIZE}. \<not> stack_listed s b)
    | Suc b \<Rightarrow> h \<le> b \<and> (normal_listed s h \<and> b = h \<or> stack_listed s b \<and> b < h + max 1 (len div HBLKSIZE))"
proof (cases "normal_listed s h")
  case True
  then have "GC_is_black_listed h len s = Suc h" by (simp add: GC_is_black_listed_def Let_def normal_listed_def)
  then show ?thesis using True by simp
next
  case False
  then have "GC_is_black_listed h len s = black_listed_loop h (len div HBLKSIZE) 0 (PHT_HASH h) s"
    by (auto simp: GC_is_black_listed_def Let_def normal_listed_def)
  then show ?thesis using False black_listed_loop_rep [of "PHT_HASH h" h 0 "len div HBLKSIZE" s] by (auto split: nat.splits)
qed

text \<open>
  C20: GC_is_black_listed ends and returns NULL exactly when no block of the object is listed for false references from
  stacks and its first block for none from elsewhere; otherwise the block behind the first listed one, and every
  smaller start of an object of this length is listed too, as its comment promises.
\<close>

theorem is_black_listed_correct:
  assumes "HBLKSIZE \<le> len"
  shows "(GC_is_black_listed h len s = 0 \<longleftrightarrow> \<not> normal_listed s h \<and> (\<forall>b \<in> {h..<h + len div HBLKSIZE}. \<not> stack_listed s b)) \<and>
    (GC_is_black_listed h len s \<noteq> 0 \<longrightarrow> h < GC_is_black_listed h len s \<and>
      (\<forall>r. h < r \<longrightarrow> r < GC_is_black_listed h len s \<longrightarrow> GC_is_black_listed r len s \<noteq> 0))"
proof -
  have n: "1 \<le> len div HBLKSIZE" using assms by (simp add: less_eq_div_iff_mult_less_eq)
  show ?thesis
  proof (cases "GC_is_black_listed h len s")
    case 0
    then show ?thesis using is_black_listed_rep [where h = h and len = len and s = s] by simp
  next
    case (Suc b)
    then have b: "h \<le> b" "normal_listed s h \<and> b = h \<or> stack_listed s b \<and> b < h + len div HBLKSIZE"
      using is_black_listed_rep [where h = h and len = len and s = s] n by simp_all
    have "GC_is_black_listed r len s \<noteq> 0" if "h < r" "r < Suc b" for r
    proof
      assume "GC_is_black_listed r len s = 0"
      then have "\<forall>b \<in> {r..<r + len div HBLKSIZE}. \<not> stack_listed s b" using is_black_listed_rep [where h = r and len = len and s = s] by simp
      then show False using b that by auto
    qed
    then show ?thesis using Suc b by auto
  qed
qed

section \<open>Collections\<close>

definition sample_bl :: bl_state where
  "sample_bl = \<lparr>GC_all_nils = 0, GC_top_index = \<lambda>_. [], GC_all_bottom_indices = [], bottoms = \<lambda>_. \<lparr>bi_index = \<lambda>_. 0, bi_key = 0\<rparr>,
     headers = \<lambda>_. \<lparr>hb_next = 0, hb_prev = 0, hb_block = 0, hb_obj_kind = 0, hb_flags = 0, hb_last_reclaimed = 0, hb_sz = 0,
       hb_descr = 0, hb_map = 0, hb_n_marks = 0, hb_marks = \<lambda>_. False\<rparr>, GC_hdr_free_list = 0, GC_scratch_free_ptr = 0, GC_scratch_end_addr = 0,
     os_mem = [], GC_gc_no = 0, GC_parallel = True, GC_objects_are_marked = False, GC_mark_state = MS_NONE, GC_scan_ptr = 0,
     GC_all_interior_pointers = True, GC_valid_offsets = \<lambda>_. True, GC_modws_valid_offsets = \<lambda>_. True, GC_old_normal_bl = \<lambda>_. 0,
     GC_incomplete_normal_bl = \<lambda>_. 0, GC_old_stack_bl = (\<lambda>_. 0)(1 := 4), GC_incomplete_stack_bl = \<lambda>_. 0,
     GC_total_stack_black_listed = 0, GC_black_list_spacing = 0, GC_heap_sects = [], GC_heapsize = 0\<rparr>"

theorem is_black_listed_correct_witness: "GC_is_black_listed 60 (7 * HBLKSIZE) sample_bl \<noteq> 0"
proof -
  have "stack_listed sample_bl 66" by (simp add: stack_listed_def sample_bl_def PHT_HASH_def get_bit bit_simps)
  then show ?thesis using is_black_listed_correct [of "7 * HBLKSIZE" 60 sample_bl] by auto
qed

text \<open>The tables that a promotion leaves; the spacing stays in its bounds.\<close>

lemma promote_tables:
  "GC_old_stack_bl (GC_promote_black_lists s) = GC_incomplete_stack_bl s"
  "GC_incomplete_stack_bl (GC_promote_black_lists s) = (\<lambda>_. 0)"
  "GC_old_normal_bl (GC_promote_black_lists s) = GC_incomplete_normal_bl s"
  "GC_all_interior_pointers (GC_promote_black_lists s) = GC_all_interior_pointers s"
  by (simp_all add: GC_promote_black_lists_def Let_def GC_clear_bl_def)

lemma promote_spacing:
  "3 * HBLKSIZE \<le> GC_black_list_spacing (GC_promote_black_lists s) \<and> GC_black_list_spacing (GC_promote_black_lists s) \<le> MAXHINCR * HBLKSIZE"
  by (simp add: GC_promote_black_lists_def Let_def)



text \<open>GC_number_stack_black_listed counts the listed blocks of the table of the last full collection.\<close>

lemma number_loop_rep:
  "number_loop h endp1 result s = result + card {b. h \<le> b \<and> b < endp1 \<and> get_pht_entry_from_index (GC_old_stack_bl s) (PHT_HASH b)}"
proof (induction h endp1 result s rule: number_loop.induct)
  case (1 h endp1 result s)
  let ?L = "\<lambda>h. {b. h \<le> b \<and> b < endp1 \<and> get_pht_entry_from_index (GC_old_stack_bl s) (PHT_HASH b)}"
  show ?case
  proof (cases "h < endp1")
    case True
    have "?L h = (if get_pht_entry_from_index (GC_old_stack_bl s) (PHT_HASH h) then insert h (?L (h + 1)) else ?L (h + 1))"
      using True by (auto simp: le_eq_less_or_eq Suc_le_eq)
    moreover have "finite (?L (h + 1))" by (rule finite_subset [of _ "{..<endp1}"]) auto
    ultimately show ?thesis using "1.IH" [OF True] True by (simp add: number_loop.simps [of h])
  next
    case False
    then show ?thesis by (simp add: number_loop.simps [of h])
  qed
qed

end
