(* ===== verification/Gc_Chunks.thy ===== *)
theory Gc_Chunks
  imports Gc_Blacklist Gc_Roots
begin

text \<open>
  src/src/common/gc/allchblk.c: the free lists of chunks of heap blocks, what takes a chunk from them and what gives
  it back, with the maps of objects of obj_map.c, the unmapping of memory of os_dep.c, and the counters of alloc.c
  that decide whether to split a chunk or to collect.  For 64-bit Linux with USE_MUNMAP, where regions are not
  counted (COUNT_UNMAPPED_REGIONS) and blocks are as large as pages.

  A chunk is the number of its first block, 0 for NULL; a header is its address.  Sizes of chunks are numbers of
  bytes; the totals of bytes are words and wrap.  The calls of madvise, which do not fail, are recorded in
  \<open>madvised\<close>.  The notice to the dirty bits about a new chunk concerns memory protection and is left out.
\<close>

section \<open>State\<close>

abbreviation (input) MAX_BLACK_LIST_ALLOC :: nat where "MAX_BLACK_LIST_ALLOC \<equiv> 2 * HBLKSIZE"
abbreviation (input) UNIQUE_THRESHOLD :: nat where "UNIQUE_THRESHOLD \<equiv> 32"
abbreviation (input) HUGE_THRESHOLD :: nat where "HUGE_THRESHOLD \<equiv> 256"
abbreviation (input) FL_COMPRESSION :: nat where "FL_COMPRESSION \<equiv> 8"
abbreviation (input) N_HBLK_FLS :: nat where "N_HBLK_FLS \<equiv> (HUGE_THRESHOLD - UNIQUE_THRESHOLD) div FL_COMPRESSION + UNIQUE_THRESHOLD"
abbreviation (input) MAXOBJGRANULES :: nat where "MAXOBJGRANULES \<equiv> MAXOBJBYTES div GC_GRANULE_BYTES"
abbreviation (input) OBJ_MAP_LEN :: nat where "OBJ_MAP_LEN \<equiv> HBLKSIZE div GC_GRANULE_BYTES"

record obj_kind =
  ok_descriptor :: nat
  ok_relocate_descr :: bool
  ok_init :: bool
  ok_mark_unconditionally :: bool
  ok_disclaim_proc :: "(nat \<Rightarrow> bool) option"

record chunk_state = bl_state +
  GC_hblkfreelist :: "nat \<Rightarrow> nat"
  GC_free_bytes :: "nat \<Rightarrow> 64 word"
  GC_large_free_bytes :: "64 word"
  GC_large_allocd_bytes :: "64 word"
  GC_max_large_allocd_bytes :: "64 word"
  GC_bytes_dropped :: "64 word"
  GC_unmapped_bytes :: "64 word"
  madvised :: "(nat \<times> nat) list"
  GC_obj_kinds :: "nat \<Rightarrow> obj_kind"
  GC_obj_map :: "nat \<Rightarrow> nat"
  obj_maps :: "nat \<Rightarrow> nat \<Rightarrow> nat"
  GC_debugging_started :: bool
  GC_find_leak :: bool
  heap_words :: memory
  GC_drop_blacklisted_count :: "32 word"
  GC_large_alloc_warn_suppressed :: "64 word"
  GC_large_alloc_warn_interval :: "64 word"
  GC_fail_count :: nat

definition EXTRA_BYTES :: "'a bl_state_scheme \<Rightarrow> nat" where
  "EXTRA_BYTES s = of_bool (GC_all_interior_pointers s)"

section \<open>Free lists\<close>

definition GC_hblk_fl_from_blocks :: "nat \<Rightarrow> nat" where
  "GC_hblk_fl_from_blocks blocks_needed =
     (if blocks_needed \<le> UNIQUE_THRESHOLD then blocks_needed
      else if HUGE_THRESHOLD \<le> blocks_needed then N_HBLK_FLS
      else (blocks_needed - UNIQUE_THRESHOLD) div FL_COMPRESSION + UNIQUE_THRESHOLD)"

definition IS_MAPPED :: "hdr \<Rightarrow> bool" where
  "IS_MAPPED hhdr \<longleftrightarrow> hb_flags hhdr AND WAS_UNMAPPED = 0"

text \<open>The walk along the lists; a list with a cycle would never end.\<close>

partial_function (option) iterate_list ::
  "(nat \<Rightarrow> nat \<Rightarrow> 'c \<Rightarrow> 'c) \<Rightarrow> nat \<Rightarrow> nat \<Rightarrow> 'c \<Rightarrow> 'a chunk_state_scheme \<Rightarrow> 'c option" where
  "iterate_list fn i h client_data s =
     (if h = 0 then Some client_data
      else iterate_list fn i (hb_next (headers s (HDR h s))) (fn h i client_data) s)"

definition GC_iterate_free_hblks :: "(nat \<Rightarrow> nat \<Rightarrow> 'c \<Rightarrow> 'c) \<Rightarrow> 'c \<Rightarrow> 'a chunk_state_scheme \<Rightarrow> 'c option" where
  "GC_iterate_free_hblks fn client_data s =
     fold (\<lambda>i data. Option.bind data (\<lambda>c. iterate_list fn i (GC_hblkfreelist s i) c s)) [0..<N_HBLK_FLS + 1] (Some client_data)"

definition add_hb_sz :: "'a chunk_state_scheme \<Rightarrow> nat \<Rightarrow> nat \<Rightarrow> 64 word \<Rightarrow> 64 word" where
  "add_hb_sz s h i total_free = total_free + of_nat (hb_sz (headers s (HDR h s)))"

definition GC_compute_large_free_bytes :: "'a chunk_state_scheme \<Rightarrow> 64 word option" where
  "GC_compute_large_free_bytes s = GC_iterate_free_hblks (add_hb_sz s) 0 s"

fun enough_loop :: "nat \<Rightarrow> 64 word \<Rightarrow> 'a chunk_state_scheme \<Rightarrow> nat" where
  "enough_loop 0 bytes s = 0"
| "enough_loop (Suc n) bytes s =
     (let bytes = bytes + GC_free_bytes s (Suc n)
      in if GC_max_large_allocd_bytes s \<le> bytes then Suc n else enough_loop n bytes s)"

definition GC_enough_large_bytes_left :: "'a chunk_state_scheme \<Rightarrow> nat" where
  "GC_enough_large_bytes_left s = enough_loop N_HBLK_FLS (GC_large_allocd_bytes s) s"

definition GC_remove_from_fl_at :: "nat \<Rightarrow> nat \<Rightarrow> 'a chunk_state_scheme \<Rightarrow> 'a chunk_state_scheme" where
  "GC_remove_from_fl_at hhdr index s =
     (let s = (if hb_prev (headers s hhdr) = 0
               then s\<lparr>GC_hblkfreelist := (GC_hblkfreelist s)(index := hb_next (headers s hhdr))\<rparr>
               else upd_hdr (HDR (hb_prev (headers s hhdr)) s) (\<lambda>hd. hd\<lparr>hb_next := hb_next (headers s hhdr)\<rparr>) s);
          s = s\<lparr>GC_free_bytes := (GC_free_bytes s)(index := GC_free_bytes s index - of_nat (hb_sz (headers s hhdr)))\<rparr>
      in if hb_next (headers s hhdr) \<noteq> 0
         then upd_hdr (HDR (hb_next (headers s hhdr)) s) (\<lambda>hd. hd\<lparr>hb_prev := hb_prev (headers s hhdr)\<rparr>) s
         else s)"

definition GC_remove_from_fl :: "nat \<Rightarrow> 'a chunk_state_scheme \<Rightarrow> 'a chunk_state_scheme" where
  "GC_remove_from_fl hhdr s = GC_remove_from_fl_at hhdr (GC_hblk_fl_from_blocks (hb_sz (headers s hhdr) div HBLKSIZE)) s"

definition GC_add_to_fl :: "nat \<Rightarrow> nat \<Rightarrow> 'a chunk_state_scheme \<Rightarrow> 'a chunk_state_scheme" where
  "GC_add_to_fl h hhdr s =
     (let index = GC_hblk_fl_from_blocks (hb_sz (headers s hhdr) div HBLKSIZE);
          second = GC_hblkfreelist s index;
          s = s\<lparr>GC_hblkfreelist := (GC_hblkfreelist s)(index := h),
                GC_free_bytes := (GC_free_bytes s)(index := GC_free_bytes s index + of_nat (hb_sz (headers s hhdr)))\<rparr>;
          s = upd_hdr hhdr (\<lambda>hd. hd\<lparr>hb_next := second, hb_prev := 0\<rparr>) s;
          s = (if second \<noteq> 0 then upd_hdr (HDR second s) (\<lambda>hd. hd\<lparr>hb_prev := h\<rparr>) s else s)
      in upd_hdr hhdr (\<lambda>hd. hd\<lparr>hb_flags := hb_flags hd OR FREE_BLK\<rparr>) s)"

definition BLOCKS_MERGE_OVERFLOW :: "hdr \<Rightarrow> hdr \<Rightarrow> bool" where
  "BLOCKS_MERGE_OVERFLOW hhdr nexthdr \<longleftrightarrow> bit (of_nat (hb_sz hhdr + hb_sz nexthdr) :: 64 word) 63"

text \<open>The chunk that ends where \<open>h\<close> starts, 0 for none; the search for its start may run for ever on a bad index.\<close>

definition get_block_ending_at :: "nat \<Rightarrow> 'a chunk_state_scheme \<Rightarrow> nat res" where
  "get_block_ending_at h s =
     (let p = h - 1; hhdr = HDR p s in
      if hhdr \<noteq> 0 then (case GC_find_starting_hblk p hhdr s of None \<Rightarrow> Inl No_Return | Some (p, hhdr) \<Rightarrow> Inr p)
      else
        let p = GC_prev_block p s in
        if p \<noteq> 0 \<and> p * HBLKSIZE + hb_sz (headers s (HDR p s)) = h * HBLKSIZE then Inr p else Inr 0)"

definition GC_free_block_ending_at :: "nat \<Rightarrow> 'a chunk_state_scheme \<Rightarrow> nat res" where
  "GC_free_block_ending_at h s =
     rbind (get_block_ending_at h s) (\<lambda>p. Inr (if p \<noteq> 0 \<and> HBLK_IS_FREE (headers s (HDR p s)) then p else 0))"

section \<open>Headers of chunks\<close>

definition GC_add_map_entry :: "nat \<Rightarrow> 'a chunk_state_scheme \<Rightarrow> bool \<times> 'a chunk_state_scheme" where
  "GC_add_map_entry lg s =
     (let lg = (if MAXOBJGRANULES < lg then 0 else lg) in
      if GC_obj_map s lg \<noteq> 0 then (True, s)
      else
        let (new_map, s) = GC_scratch_alloc OBJ_MAP_LEN s in
        if new_map = 0 then (False, s)
        else
          let m = (\<lambda>displ. if displ < OBJ_MAP_LEN then if lg = 0 then 1 else displ mod lg else obj_maps s new_map displ)
          in (True, s\<lparr>obj_maps := (obj_maps s)(new_map := m), GC_obj_map := (GC_obj_map s)(lg := new_map)\<rparr>))"

definition setup_header :: "nat \<Rightarrow> nat \<Rightarrow> nat \<Rightarrow> nat \<Rightarrow> 8 word \<Rightarrow> 'a chunk_state_scheme \<Rightarrow> bool \<times> 'a chunk_state_scheme" where
  "setup_header hhdr block lb_adjusted k flags s =
     (let flags = (if MAXOBJBYTES < lb_adjusted then flags OR LARGE_BLOCK else flags);
          ok = GC_obj_kinds s k;
          flags = (if ok_disclaim_proc ok \<noteq> None then flags OR HAS_DISCLAIM else flags);
          flags = (if ok_mark_unconditionally ok then flags OR MARK_UNCONDITIONALLY else flags);
          descr = ok_descriptor ok;
          descr = (if EXTRA_BYTES s \<noteq> 0 \<and> flags AND IGNORE_OFF_PAGE \<noteq> 0 \<and> k = NORMAL \<and> HBLKSIZE \<le> lb_adjusted
                   then (descr + 8) mod 2 ^ 64 else descr);
          descr = (if ok_relocate_descr ok then (descr + lb_adjusted) mod 2 ^ 64 else descr);
          s = upd_hdr hhdr (\<lambda>hd. hd\<lparr>hb_sz := lb_adjusted, hb_obj_kind := k, hb_flags := flags, hb_block := block, hb_descr := descr\<rparr>) s;
          lg = BYTES_TO_GRANULES lb_adjusted;
          (added, s) = GC_add_map_entry lg s
      in if \<not> added then
           (False, upd_hdr hhdr (\<lambda>hd. hd\<lparr>hb_sz := HBLKSIZE, hb_descr := 0, hb_flags := hb_flags hd OR LARGE_BLOCK, hb_map := 0\<rparr>) s)
         else
           let s = upd_hdr hhdr (\<lambda>hd. hd\<lparr>hb_map := GC_obj_map s (if hb_flags hd AND LARGE_BLOCK \<noteq> 0 then 0 else lg)\<rparr>) s
           in (True, upd_hdr hhdr (\<lambda>hd. (GC_clear_hdr_marks hd)\<lparr>hb_last_reclaimed := ucast (GC_gc_no s)\<rparr>) s))"

section \<open>Unmapping\<close>

definition GC_unmap_start :: "nat \<Rightarrow> nat \<Rightarrow> nat" where
  "GC_unmap_start start bytes =
     (let result = (start + (GC_page_size - 1)) div GC_page_size * GC_page_size
      in if start + bytes < result + GC_page_size then 0 else result)"

definition GC_unmap_end :: "nat \<Rightarrow> nat \<Rightarrow> nat" where
  "GC_unmap_end start bytes = (start + bytes) div GC_page_size * GC_page_size"

definition block_unmap_inner :: "nat \<Rightarrow> nat \<Rightarrow> 'a chunk_state_scheme \<Rightarrow> 'a chunk_state_scheme" where
  "block_unmap_inner start_addr len s =
     (if start_addr = 0 then s
      else if len \<noteq> 0
      then s\<lparr>madvised := (start_addr, len) # madvised s, GC_unmapped_bytes := GC_unmapped_bytes s + of_nat len\<rparr>
      else s)"

definition GC_unmap :: "nat \<Rightarrow> nat \<Rightarrow> 'a chunk_state_scheme \<Rightarrow> 'a chunk_state_scheme" where
  "GC_unmap start bytes s =
     (let start_addr = GC_unmap_start start bytes; end_addr = GC_unmap_end start bytes
      in block_unmap_inner start_addr (end_addr - start_addr) s)"

definition GC_remap :: "nat \<Rightarrow> nat \<Rightarrow> 'a chunk_state_scheme \<Rightarrow> 'a chunk_state_scheme" where
  "GC_remap start bytes s =
     (let start_addr = GC_unmap_start start bytes; end_addr = GC_unmap_end start bytes; len = end_addr - start_addr
      in if start_addr = 0 then s else s\<lparr>GC_unmapped_bytes := GC_unmapped_bytes s - of_nat len\<rparr>)"

definition GC_unmap_gap :: "nat \<Rightarrow> nat \<Rightarrow> nat \<Rightarrow> nat \<Rightarrow> 'a chunk_state_scheme \<Rightarrow> 'a chunk_state_scheme" where
  "GC_unmap_gap start1 bytes1 start2 bytes2 s =
     (let start1_addr = GC_unmap_start start1 bytes1; end1_addr = GC_unmap_end start1 bytes1;
          start2_addr = GC_unmap_start start2 bytes2;
          start_addr = (if start1_addr = 0 then GC_unmap_start start1 (bytes1 + bytes2) else end1_addr);
          end_addr = (if start2_addr = 0 then GC_unmap_end start1 (bytes1 + bytes2) else start2_addr)
      in block_unmap_inner start_addr (end_addr - start_addr) s)"

text \<open>Chunks that were not used for \<open>threshold\<close> collections are unmapped, in all lists.\<close>

partial_function (option) unmap_list :: "16 word \<Rightarrow> nat \<Rightarrow> 'a chunk_state_scheme \<Rightarrow> 'a chunk_state_scheme option" where
  "unmap_list threshold h s =
     (if h = 0 then Some s
      else if IS_MAPPED (headers s (HDR h s)) \<and> threshold \<le> ucast (GC_gc_no s) - hb_last_reclaimed (headers s (HDR h s))
      then unmap_list threshold (hb_next (headers s (HDR h s)))
             (upd_hdr (HDR h s) (\<lambda>hd. hd\<lparr>hb_flags := hb_flags hd OR WAS_UNMAPPED\<rparr>)
               (GC_unmap (h * HBLKSIZE) (hb_sz (headers s (HDR h s))) s))
      else unmap_list threshold (hb_next (headers s (HDR h s))) s)"

definition GC_unmap_old :: "32 word \<Rightarrow> 'a chunk_state_scheme \<Rightarrow> 'a chunk_state_scheme option" where
  "GC_unmap_old threshold s =
     fold (\<lambda>i st. Option.bind st (\<lambda>s. unmap_list (ucast threshold) (GC_hblkfreelist s i) s)) [0..<N_HBLK_FLS + 1] (Some s)"

text \<open>Two neighbours are made both mapped or both unmapped, and then one chunk, on the list of its size.\<close>

definition make_consistent :: "nat \<Rightarrow> nat \<Rightarrow> nat \<Rightarrow> nat \<Rightarrow> 'a chunk_state_scheme \<Rightarrow> 'a chunk_state_scheme" where
  "make_consistent h hhdr next nexthdr s =
     (let size = hb_sz (headers s hhdr); next_size = hb_sz (headers s nexthdr);
          mapped = IS_MAPPED (headers s hhdr); next_mapped = IS_MAPPED (headers s nexthdr)
      in if mapped \<and> \<not> next_mapped then
           if next_size < size then GC_remap (next * HBLKSIZE) next_size s
           else upd_hdr hhdr (\<lambda>hd. hd\<lparr>hb_flags := hb_flags hd OR WAS_UNMAPPED\<rparr>)
                  (GC_unmap_gap (h * HBLKSIZE) size (next * HBLKSIZE) next_size (GC_unmap (h * HBLKSIZE) size s))
         else if next_mapped \<and> \<not> mapped then
           if next_size < size
           then GC_unmap_gap (h * HBLKSIZE) size (next * HBLKSIZE) next_size (GC_unmap (next * HBLKSIZE) next_size s)
           else upd_hdr hhdr (\<lambda>hd. hd\<lparr>hb_flags := hb_flags hd AND NOT WAS_UNMAPPED,
                                      hb_last_reclaimed := hb_last_reclaimed (headers s nexthdr)\<rparr>)
                  (GC_remap (h * HBLKSIZE) size s)
         else if \<not> mapped \<and> \<not> next_mapped then GC_unmap_gap (h * HBLKSIZE) size (next * HBLKSIZE) next_size s
         else s)"

definition merge_chunks :: "nat \<Rightarrow> nat \<Rightarrow> nat \<Rightarrow> nat \<Rightarrow> nat \<Rightarrow> 'a chunk_state_scheme \<Rightarrow> 'a chunk_state_scheme" where
  "merge_chunks i h hhdr next nexthdr s =
     (let s = GC_remove_from_fl_at hhdr i s;
          s = GC_remove_from_fl nexthdr s;
          s = upd_hdr hhdr (\<lambda>hd. hd\<lparr>hb_sz := hb_sz hd + hb_sz (headers s nexthdr)\<rparr>) s;
          s = GC_remove_header next s
      in GC_add_to_fl h hhdr s)"

partial_function (option) merge_list :: "nat \<Rightarrow> nat \<Rightarrow> bool \<Rightarrow> 'a chunk_state_scheme \<Rightarrow> (bool \<times> 'a chunk_state_scheme) option" where
  "merge_list i h merged s =
     (if h = 0 then Some (merged, s)
      else
        let hhdr = HDR h s; next = h + hb_sz (headers s hhdr) div HBLKSIZE; nexthdr = HDR next s in
        if nexthdr = 0 \<or> \<not> HBLK_IS_FREE (headers s nexthdr) \<or> BLOCKS_MERGE_OVERFLOW (headers s hhdr) (headers s nexthdr)
        then merge_list i (hb_next (headers s hhdr)) merged s
        else
          let s = merge_chunks i h hhdr next nexthdr (make_consistent h hhdr next nexthdr s)
          in merge_list i (GC_hblkfreelist s i) True s)"

definition GC_merge_unmapped :: "'a chunk_state_scheme \<Rightarrow> (bool \<times> 'a chunk_state_scheme) option" where
  "GC_merge_unmapped s =
     fold (\<lambda>i st. Option.bind st (\<lambda>(merged, s). merge_list i (GC_hblkfreelist s i) merged s)) [0..<N_HBLK_FLS + 1] (Some (False, s))"

section \<open>Freeing a chunk\<close>

definition GC_freehblk :: "nat \<Rightarrow> 'a chunk_state_scheme \<Rightarrow> 'a chunk_state_scheme res" where
  "GC_freehblk hbp s =
     (let hhdr = HDR hbp s; size = HBLKSIZE * OBJ_SZ_TO_BLOCKS (hb_sz (headers s hhdr)) in
      if bit (of_nat size :: 64 word) 63 then Inl Fatal_Exit
      else
        let s = GC_remove_counts hbp size s;
            s = upd_hdr hhdr (\<lambda>hd. hd\<lparr>hb_sz := size, hb_last_reclaimed := ucast (GC_gc_no s)\<rparr>) s
        in if HBLK_IS_FREE (headers s hhdr) then Inl Fatal_Exit
           else
             let s = upd_hdr hhdr (\<lambda>hd. hd\<lparr>hb_flags := hb_flags hd OR FREE_BLK\<rparr>) s;
                 next = hbp + size div HBLKSIZE; nexthdr = HDR next s
             in rbind (GC_free_block_ending_at hbp s) (\<lambda>prev.
                  let s = (if nexthdr \<noteq> 0 \<and> HBLK_IS_FREE (headers s nexthdr) \<and> IS_MAPPED (headers s nexthdr) \<and>
                              \<not> BLOCKS_MERGE_OVERFLOW (headers s hhdr) (headers s nexthdr)
                           then let s = GC_remove_from_fl nexthdr s;
                                    s = upd_hdr hhdr (\<lambda>hd. hd\<lparr>hb_sz := hb_sz hd + hb_sz (headers s nexthdr)\<rparr>) s
                                in GC_remove_header next s
                           else s);
                      prevhdr = HDR prev s;
                      (hbp, hhdr, s) =
                        (if prev \<noteq> 0 \<and> IS_MAPPED (headers s prevhdr) \<and> \<not> BLOCKS_MERGE_OVERFLOW (headers s prevhdr) (headers s hhdr)
                         then let s = GC_remove_from_fl prevhdr s;
                                  s = upd_hdr prevhdr (\<lambda>hd. hd\<lparr>hb_sz := hb_sz hd + hb_sz (headers s hhdr),
                                                              hb_last_reclaimed := ucast (GC_gc_no s)\<rparr>) s
                              in (prev, prevhdr, GC_remove_header hbp s)
                         else (hbp, hhdr, s));
                      s = s\<lparr>GC_large_free_bytes := GC_large_free_bytes s + of_nat size\<rparr>
                  in Inr (GC_add_to_fl hbp hhdr s)))"

section \<open>Taking a chunk\<close>

definition GC_get_first_part :: "nat \<Rightarrow> nat \<Rightarrow> nat \<Rightarrow> nat \<Rightarrow> 'a chunk_state_scheme \<Rightarrow> nat \<times> 'a chunk_state_scheme" where
  "GC_get_first_part h hhdr size_needed index s =
     (let total_size = hb_sz (headers s hhdr);
          s = GC_remove_from_fl_at hhdr index s
      in if total_size = size_needed then (h, s)
         else
           let rest = h + size_needed div HBLKSIZE;
               (rest_hdr, s) = GC_install_header rest s
           in if rest_hdr = 0 then (0, s)
              else
                let s = upd_hdr rest_hdr (\<lambda>hd. hd\<lparr>hb_block := rest, hb_sz := total_size - size_needed, hb_flags := 0\<rparr>) s
                in (h, GC_add_to_fl rest rest_hdr s))"

definition GC_split_block :: "nat \<Rightarrow> nat \<Rightarrow> nat \<Rightarrow> nat \<Rightarrow> nat \<Rightarrow> 'a chunk_state_scheme \<Rightarrow> 'a chunk_state_scheme" where
  "GC_split_block hbp hhdr last_hbp last_hdr index s =
     (let h_size = last_hbp * HBLKSIZE - hbp * HBLKSIZE;
          prev = hb_prev (headers s hhdr);
          next = hb_next (headers s hhdr);
          s = upd_hdr last_hdr (\<lambda>hd. hd\<lparr>hb_prev := prev, hb_next := next, hb_block := last_hbp,
                                       hb_sz := hb_sz (headers s hhdr) - h_size, hb_flags := 0\<rparr>) s;
          s = (if prev \<noteq> 0 then upd_hdr (HDR prev s) (\<lambda>hd. hd\<lparr>hb_next := last_hbp\<rparr>) s
               else s\<lparr>GC_hblkfreelist := (GC_hblkfreelist s)(index := last_hbp)\<rparr>);
          s = (if next \<noteq> 0 then upd_hdr (HDR next s) (\<lambda>hd. hd\<lparr>hb_prev := last_hbp\<rparr>) s else s);
          s = s\<lparr>GC_free_bytes := (GC_free_bytes s)(index := GC_free_bytes s index - of_nat h_size)\<rparr>;
          s = upd_hdr hhdr (\<lambda>hd. hd\<lparr>hb_last_reclaimed := ucast (GC_gc_no s), hb_sz := h_size\<rparr>) s;
          s = GC_add_to_fl hbp hhdr s
      in upd_hdr last_hdr (\<lambda>hd. hd\<lparr>hb_flags := hb_flags hd OR FREE_BLK\<rparr>) s)"

text \<open>Where a chunk may start: aligned, and not black-listed; the search goes on behind the block that is listed.\<close>

definition ALIGN_PAD_SZ :: "nat \<Rightarrow> nat \<Rightarrow> nat" where
  "ALIGN_PAD_SZ p align_m1 = unat ((of_nat align_m1 + 1 - of_nat (p * HBLKSIZE)) AND of_nat align_m1 :: 64 word)"

definition next_hblk_fits_better :: "nat \<Rightarrow> nat \<Rightarrow> nat \<Rightarrow> nat \<Rightarrow> 'a chunk_state_scheme \<Rightarrow> bool" where
  "next_hblk_fits_better hhdr size_avail size_needed align_m1 s =
     (let next_hbp = hb_next (headers s hhdr) in
      if next_hbp = 0 then False
      else
        let next_size = hb_sz (headers s (HDR next_hbp s)) in
        if size_avail \<le> next_size then False
        else
          let next_ofs = ALIGN_PAD_SZ next_hbp align_m1
          in size_needed + next_ofs \<le> next_size \<and> GC_is_black_listed (next_hbp + next_ofs div HBLKSIZE) size_needed s = 0)"

lemma black_listed_loop_less: "black_listed_loop h nblocks i index s \<noteq> 0 \<Longrightarrow> h < black_listed_loop h nblocks i index s"
proof (induction "nblocks - i" arbitrary: i index rule: less_induct)
  case less
  define easy where "easy \<longleftrightarrow> GC_old_stack_bl s (index div CPP_WORDSZ) = 0 \<and> GC_incomplete_stack_bl s (index div CPP_WORDSZ) = 0"
  define j where "j = (if easy then i + (CPP_WORDSZ - index mod CPP_WORDSZ) else i + 1)"
  define found where "found \<longleftrightarrow> \<not> easy \<and> (get_pht_entry_from_index (GC_old_stack_bl s) index \<or> get_pht_entry_from_index (GC_incomplete_stack_bl s) index)"
  have step: "black_listed_loop h nblocks i index s =
      (if found then h + i + 1 else if nblocks \<le> j then 0 else black_listed_loop h nblocks j (PHT_HASH (h + j)) s)"
    unfolding found_def j_def easy_def by (subst black_listed_loop.simps) (simp add: Let_def)
  have "index mod CPP_WORDSZ < CPP_WORDSZ" by simp
  then have "i < j" unfolding j_def by (cases easy; simp only: if_True if_False; linarith)
  then have "nblocks - j < nblocks - i" if "\<not> nblocks \<le> j" using that by linarith
  then show ?case using less.prems less.hyps [of j "PHT_HASH (h + j)"] unfolding step by (simp split: if_splits)
qed

lemma is_black_listed_less: "GC_is_black_listed h len s \<noteq> 0 \<Longrightarrow> h < GC_is_black_listed h len s"
  using black_listed_loop_less [of h "len div HBLKSIZE" 0 "PHT_HASH h" s]
  by (cases "GC_is_black_listed h len s = h + 1") (auto simp: GC_is_black_listed_def Let_def split: if_splits)

function find_nonbl_loop :: "nat \<Rightarrow> nat \<Rightarrow> nat \<Rightarrow> nat \<Rightarrow> 'a chunk_state_scheme \<Rightarrow> nat" where
  "find_nonbl_loop last_hbp search_end eff_size_needed align_m1 s =
     (let last_hbp = last_hbp + ALIGN_PAD_SZ last_hbp align_m1 div HBLKSIZE;
          next_hbp = GC_is_black_listed last_hbp eff_size_needed s
      in if next_hbp = 0 then last_hbp
         else if next_hbp * HBLKSIZE \<le> search_end then find_nonbl_loop next_hbp search_end eff_size_needed align_m1 s
         else 0)"
  by pat_completeness auto
termination
proof (relation "measure (\<lambda>(last_hbp, search_end, r). Suc search_end - last_hbp * HBLKSIZE)"; clarsimp)
  fix last_hbp search_end eff align_m1 and s :: "'a chunk_state_scheme"
  let ?l = "last_hbp + ALIGN_PAD_SZ last_hbp align_m1 div HBLKSIZE"
  assume a: "0 < GC_is_black_listed ?l eff s" "GC_is_black_listed ?l eff s * HBLKSIZE \<le> search_end"
  then have "last_hbp < GC_is_black_listed ?l eff s" using is_black_listed_less [of ?l eff s] by linarith
  then show "Suc search_end - GC_is_black_listed ?l eff s * HBLKSIZE < Suc search_end - last_hbp * HBLKSIZE"
    using a(2) by linarith
qed

declare find_nonbl_loop.simps [simp del]

definition find_nonbl_hblk :: "nat \<Rightarrow> nat \<Rightarrow> nat \<Rightarrow> nat \<Rightarrow> 'a chunk_state_scheme \<Rightarrow> nat" where
  "find_nonbl_hblk last_hbp size_remain eff_size_needed align_m1 s =
     (let search_end = unat (PTR_ALIGN_DOWN (of_nat (last_hbp * HBLKSIZE + size_remain)) (of_nat align_m1 + 1))
      in find_nonbl_loop last_hbp search_end eff_size_needed align_m1 s)"

text \<open>A chunk that is all black-listed is given away in blocks, to be found by the next collection.\<close>

function drop_loop :: "nat \<Rightarrow> nat \<Rightarrow> nat \<Rightarrow> 'a chunk_state_scheme \<Rightarrow> 'a chunk_state_scheme" where
  "drop_loop hbp hhdr limit s =
     (let (ok, s) = setup_header hhdr hbp HBLKSIZE PTRFREE 0 s;
          s = (if GC_debugging_started s then s\<lparr>heap_words := BZERO (hbp * HBLK_WORDS) HBLK_WORDS (heap_words s)\<rparr> else s);
          hbp = hbp + 1
      in if limit \<le> hbp then s
         else
           let (hhdr, s) = GC_install_header hbp s
           in if hhdr \<noteq> 0 then drop_loop hbp hhdr limit s else s)"
  by pat_completeness auto
termination by (relation "measure (\<lambda>(hbp, hhdr, limit, s). limit - hbp)") auto

declare drop_loop.simps [simp del]

definition drop_hblk_in_chunks :: "nat \<Rightarrow> nat \<Rightarrow> nat \<Rightarrow> 'a chunk_state_scheme \<Rightarrow> 'a chunk_state_scheme" where
  "drop_hblk_in_chunks n hbp hhdr s =
     (let total_size = hb_sz (headers s hhdr);
          limit = hbp + total_size div HBLKSIZE;
          s = s\<lparr>GC_large_free_bytes := GC_large_free_bytes s - of_nat total_size,
                GC_bytes_dropped := GC_bytes_dropped s + of_nat total_size\<rparr>
      in drop_loop hbp hhdr limit (GC_remove_from_fl_at hhdr n s))"

text \<open>
  The search along one list, from \<open>hbp\<close> on: the chunk found and where the object starts in it, or 0.  \<open>may_split\<close> is
  0, 1 or AVOID_SPLIT_REMAPPED.
\<close>

abbreviation (input) AVOID_SPLIT_REMAPPED :: nat where "AVOID_SPLIT_REMAPPED \<equiv> 2"

partial_function (option) nth_search ::
  "nat \<Rightarrow> nat \<Rightarrow> 8 word \<Rightarrow> nat \<Rightarrow> nat \<Rightarrow> nat \<Rightarrow> nat \<Rightarrow> 'a chunk_state_scheme \<Rightarrow> (nat \<times> nat \<times> 'a chunk_state_scheme) option" where
  "nth_search size_needed k flags index may_split align_m1 hbp s =
     (if hbp = 0 then Some (0, 0, s)
      else
        let hhdr = HDR hbp s; size_avail = hb_sz (headers s hhdr); align_ofs = ALIGN_PAD_SZ hbp align_m1;
            next = hb_next (headers s hhdr) in
        if may_split = 0 \<and> size_avail \<noteq> size_needed then nth_search size_needed k flags index may_split align_m1 next s
        else if size_avail < size_needed + align_ofs then nth_search size_needed k flags index may_split align_m1 next s
        else if size_avail \<noteq> size_needed \<and> next_hblk_fits_better hhdr size_avail size_needed align_m1 s
        then nth_search size_needed k flags index may_split align_m1 next s
        else if IS_UNCOLLECTABLE k \<or> k = PTRFREE \<and> size_needed \<le> MAX_BLACK_LIST_ALLOC
        then Some (hbp, hbp + align_ofs div HBLKSIZE, s)
        else
          let last_hbp = find_nonbl_hblk hbp (size_avail - size_needed)
                (if flags AND IGNORE_OFF_PAGE \<noteq> 0 then HBLKSIZE else size_needed) align_m1 s in
          if last_hbp \<noteq> 0 then
            if may_split = AVOID_SPLIT_REMAPPED \<and> last_hbp \<noteq> hbp \<and> \<not> IS_MAPPED (headers s hhdr)
            then nth_search size_needed k flags index may_split align_m1 next s
            else Some (hbp, last_hbp, s)
          else
            let droppable = size_needed = HBLKSIZE \<and> align_m1 = 0 \<and> \<not> GC_find_leak s \<and> IS_MAPPED (headers s hhdr);
                s = (if droppable then s\<lparr>GC_drop_blacklisted_count := GC_drop_blacklisted_count s + 1\<rparr> else s) in
            if droppable \<and> GC_drop_blacklisted_count s AND 3 = 0 then
              let prev = hb_prev (headers s hhdr); s = drop_hblk_in_chunks index hbp hhdr s
              in if prev = 0 then nth_search size_needed k flags index may_split align_m1 (GC_hblkfreelist s index) s
                 else nth_search size_needed k flags index may_split align_m1 (hb_next (headers s (HDR prev s))) s
            else if GC_black_list_spacing s < size_needed \<and> GC_black_list_spacing s < size_avail - size_needed then
              let warned = GC_large_alloc_warn_suppressed s + 1
              in Some (hbp, hbp + align_ofs div HBLKSIZE,
                   s\<lparr>GC_large_alloc_warn_suppressed := if sint (GC_large_alloc_warn_interval s) \<le> sint warned then 0 else warned\<rparr>)
            else nth_search size_needed k flags index may_split align_m1 next s)"

text \<open>The chunk is mapped, split in front of the object and behind it, and given its header.\<close>

definition remap_chunk :: "nat \<Rightarrow> nat \<Rightarrow> 'a chunk_state_scheme \<Rightarrow> 'a chunk_state_scheme" where
  "remap_chunk hbp hhdr s =
     (if \<not> IS_MAPPED (headers s hhdr)
      then upd_hdr hhdr (\<lambda>hd. hd\<lparr>hb_flags := hb_flags hd AND NOT WAS_UNMAPPED\<rparr>)
             (GC_remap (hbp * HBLKSIZE) (hb_sz (headers s hhdr)) s)
      else s)"

definition take_last :: "nat \<Rightarrow> nat \<Rightarrow> nat \<Rightarrow> 'a chunk_state_scheme \<Rightarrow> nat \<times> 'a chunk_state_scheme" where
  "take_last hbp last_hbp index s =
     (let hhdr = HDR hbp s in
      if last_hbp \<noteq> hbp then
        let (last_hdr, s) = GC_install_header last_hbp s
        in if last_hdr = 0 then (0, s) else (last_hdr, GC_split_block hbp hhdr last_hbp last_hdr index (remap_chunk hbp hhdr s))
      else (hhdr, s))"

definition take_chunk :: "nat \<Rightarrow> nat \<Rightarrow> nat \<Rightarrow> 8 word \<Rightarrow> nat \<Rightarrow> nat \<Rightarrow> nat \<Rightarrow> 'a chunk_state_scheme \<Rightarrow> nat \<times> 'a chunk_state_scheme" where
  "take_chunk size_needed lb_adjusted k flags index hbp hhdr s =
     (let (hbp, s) = GC_get_first_part hbp hhdr size_needed index (remap_chunk hbp hhdr s) in
      if hbp = 0 then (0, s)
      else
        let (ok, s) = GC_install_counts hbp size_needed s in
        if \<not> ok then (0, s)
        else
          let (ok, s) = setup_header hhdr hbp lb_adjusted k flags s in
          if \<not> ok then (0, GC_remove_counts hbp size_needed s)
          else (hbp, s\<lparr>GC_fail_count := 0, GC_large_free_bytes := GC_large_free_bytes s - of_nat size_needed\<rparr>))"

definition GC_allochblk_nth ::
  "nat \<Rightarrow> nat \<Rightarrow> 8 word \<Rightarrow> nat \<Rightarrow> nat \<Rightarrow> nat \<Rightarrow> 'a chunk_state_scheme \<Rightarrow> (nat \<times> 'a chunk_state_scheme) option" where
  "GC_allochblk_nth lb_adjusted k flags index may_split align_m1 s =
     (let size_needed = (lb_adjusted + HBLKSIZE - 1) div HBLKSIZE * HBLKSIZE in
      case nth_search size_needed k flags index may_split align_m1 (GC_hblkfreelist s index) s of
        None \<Rightarrow> None
      | Some (hbp, last_hbp, s) \<Rightarrow>
          if hbp = 0 then Some (0, s)
          else
            let (hhdr, s) = take_last hbp last_hbp index s in
            if hhdr = 0 then Some (0, s) else Some (take_chunk size_needed lb_adjusted k flags index last_hbp hhdr s))"

end
