(* ===== verification/Gc_Chunks_Facts.thy ===== *)
theory Gc_Chunks_Facts
  imports Gc_Chunks Gc_Headers_Facts
begin

text \<open>
  The free lists of chunks: doubly linked through the headers, with the bytes of each list counted, and what each
  operation of allchblk.c does to them and to the map of headers.
\<close>

section \<open>Doubly linked lists\<close>

text \<open>A segment from \<open>c\<close> on, with \<open>p\<close> in front of it, whose last element is \<open>q\<close> and which leads to \<open>e\<close>.\<close>

fun dll :: "(nat \<Rightarrow> hdr) \<Rightarrow> nat \<Rightarrow> nat \<Rightarrow> nat list \<Rightarrow> nat \<Rightarrow> nat \<Rightarrow> bool" where
  "dll f p c [] q e \<longleftrightarrow> c = e \<and> q = p"
| "dll f p c (b # bs) q e \<longleftrightarrow> c = b \<and> hb_prev (f b) = p \<and> dll f b (hb_next (f b)) bs q e"

lemma dll_cong:
  "(\<And>b. b \<in> set bs \<Longrightarrow> hb_prev (f b) = hb_prev (g b) \<and> hb_next (f b) = hb_next (g b)) \<Longrightarrow> dll f p c bs q e = dll g p c bs q e"
  by (induction bs arbitrary: p c) auto

lemma dll_append: "dll f p c (us @ vs) q e \<longleftrightarrow> (\<exists>r d. dll f p c us r d \<and> dll f r d vs q e)"
  by (induction us arbitrary: p c) auto

lemma dll_ends: "dll f p c bs q e \<Longrightarrow> q = last (p # bs) \<and> c = hd (bs @ [e])"
  by (induction bs arbitrary: p c) auto

lemma dll_set_next:
  assumes "dll f p c us q e" "us \<noteq> []" "distinct us"
  shows "dll (f(q := (f q)\<lparr>hb_next := e'\<rparr>)) p c us q e'"
proof -
  obtain ws w where us: "us = ws @ [w]" using assms(2) by (cases us rule: rev_cases) auto
  then have q: "q = w" using dll_ends [OF assms(1)] by simp
  obtain r d where "dll f p c ws r d" "dll f r d [w] q e" using assms(1) unfolding us dll_append by blast
  moreover from this(1) have "dll (f(w := (f w)\<lparr>hb_next := e'\<rparr>)) p c ws r d"
    using assms(3) us by (subst dll_cong [of _ _ f]) auto
  ultimately show ?thesis unfolding us dll_append q by (auto simp: q)
qed

lemma dll_set_prev:
  assumes "dll f p c (v # vs) q e" "v \<notin> set vs"
  shows "dll (f(v := (f v)\<lparr>hb_prev := p'\<rparr>)) p' c (v # vs) q e"
proof -
  have "dll (f(v := (f v)\<lparr>hb_prev := p'\<rparr>)) v (hb_next (f v)) vs q e = dll f v (hb_next (f v)) vs q e"
    using assms(2) by (intro dll_cong) auto
  then show ?thesis using assms(1) by simp
qed

text \<open>Taking out an element; its neighbours are what its own links say.\<close>

definition unlink :: "nat \<Rightarrow> (nat \<Rightarrow> hdr) \<Rightarrow> nat \<Rightarrow> hdr" where
  "unlink b f =
     (let p = hb_prev (f b); n = hb_next (f b);
          f = (if p = 0 then f else f(p := (f p)\<lparr>hb_next := n\<rparr>))
      in if n = 0 then f else f(n := (f n)\<lparr>hb_prev := p\<rparr>))"

lemma dll_unlink:
  assumes "dll f 0 c (us @ b # vs) q 0" "distinct (us @ b # vs)" "0 \<notin> set (us @ b # vs)"
  shows "\<exists>q. dll (unlink b f) 0 (if hb_prev (f b) = 0 then hb_next (f b) else c) (us @ vs) q 0"
    "hb_prev (f b) = last (0 # us)" "hb_next (f b) = hd (vs @ [0])"
proof -
  obtain r d where d: "dll f 0 c us r d" "dll f r d (b # vs) q 0" using assms(1) unfolding dll_append by blast
  have r: "r = last (0 # us)" using dll_ends [OF d(1)] by simp
  have v: "dll f b (hb_next (f b)) vs q 0" "hb_prev (f b) = r" "d = b" using d(2) by simp_all
  show p: "hb_prev (f b) = last (0 # us)" using v(2) r by simp
  have "hb_next (f b) = hd (vs @ [0])" using dll_ends [OF v(1)] by simp
  then show n: "hb_next (f b) = hd (vs @ [0])" .
  let ?f1 = "if r = 0 then f else f(r := (f r)\<lparr>hb_next := hb_next (f b)\<rparr>)"
  let ?c = "if r = 0 then hb_next (f b) else c"
  have r0: "r = 0 \<longleftrightarrow> us = []" using r assms(3) by (cases us rule: rev_cases) auto
  have rus: "us \<noteq> [] \<Longrightarrow> r \<in> set us" using r by simp
  have 1: "dll ?f1 0 ?c us r (hb_next (f b))"
    using d(1) dll_set_next [OF d(1), of "hb_next (f b)"] r0 assms(2) by (cases "us = []") auto
  have 2: "dll ?f1 b (hb_next (f b)) vs q 0"
    using v(1) rus r0 assms(2) by (subst dll_cong [of _ _ f]) auto
  show "\<exists>q. dll (unlink b f) 0 (if hb_prev (f b) = 0 then hb_next (f b) else c) (us @ vs) q 0"
  proof (cases vs)
    case Nil
    then have "hb_next (f b) = 0" using n by simp
    then show ?thesis using 1 v(2) Nil by (auto simp: unlink_def Let_def)
  next
    case (Cons w ws)
    then have nb: "hb_next (f b) = w" "w \<noteq> 0" using n assms(3) by auto
    let ?f2 = "?f1(w := (?f1 w)\<lparr>hb_prev := r\<rparr>)"
    have w: "w \<notin> set us" "w \<notin> set ws" using assms(2) Cons by auto
    have "dll ?f2 0 ?c us r w" using 1 nb w by (subst dll_cong [of _ _ ?f1]) auto
    moreover have "dll ?f2 r w vs q 0" using dll_set_prev [of ?f1 b w w ws q 0 r] 2 nb w Cons by simp
    moreover have e: "unlink b f = ?f2" using nb v(2) by (simp add: unlink_def Let_def)
    moreover have c: "(if hb_prev (f b) = 0 then hb_next (f b) else c) = ?c" using v(2) by simp
    ultimately show ?thesis unfolding dll_append e c by blast
  qed
qed

lemma unlink_other:
  "c \<noteq> hb_prev (f b) \<or> c = 0 \<Longrightarrow> c \<noteq> hb_next (f b) \<or> c = 0 \<Longrightarrow> unlink b f c = f c"
  by (auto simp: unlink_def Let_def)

section \<open>Blocks and their headers\<close>

definition blk :: "'a hdr_state_scheme \<Rightarrow> nat \<Rightarrow> hdr" where
  "blk s b = headers s (HDR b s)"

definition is_hdr :: "'a hdr_state_scheme \<Rightarrow> nat \<Rightarrow> bool" where
  "is_hdr s b \<longleftrightarrow> MAX_JUMP < HDR b s"

definition base_ok :: "'a hdr_state_scheme \<Rightarrow> bool" where
  "base_ok s \<longleftrightarrow> (\<exists>F. hdr_ok F s)"

lemma base_inj: "base_ok s \<Longrightarrow> is_hdr s b \<Longrightarrow> HDR c s = HDR b s \<longleftrightarrow> c = b"
  by (metis base_ok_def is_hdr_def hdr_ok_inj)

lemma upd_base:
  assumes "base_ok s" "is_hdr s b"
  shows "base_ok (upd_hdr (HDR b s) f s)"
proof -
  obtain F where F: "hdr_ok F s" using assms(1) by (auto simp: base_ok_def)
  then have "HDR b s \<notin> set F" using assms(2) by (auto simp: hdr_ok_def live_def is_hdr_def)
  then show ?thesis using upd_hdr_ok [OF F] by (auto simp: base_ok_def)
qed

lemma is_hdr_upd [simp]: "is_hdr (upd_hdr p f s) b = is_hdr s b"
  by (simp add: is_hdr_def)

lemma blk_upd: "base_ok s \<Longrightarrow> is_hdr s b \<Longrightarrow> blk (upd_hdr (HDR b s) f s) = (blk s)(b := f (blk s b))"
  by (auto simp: blk_def base_inj fun_eq_iff)

text \<open>The fields of the lists are none of the index.\<close>

lemma HDR_cong:
  "bottoms t = bottoms s \<Longrightarrow> GC_top_index t = GC_top_index s \<Longrightarrow> GC_all_nils t = GC_all_nils s \<Longrightarrow> HDR b t = HDR b s"
  by (simp add: HDR_def HDR_FROM_BI_def GET_BI_def cong: option.case_cong)

lemma base_cong:
  assumes "bottoms t = bottoms s" "GC_top_index t = GC_top_index s" "GC_all_nils t = GC_all_nils s"
    "GC_all_bottom_indices t = GC_all_bottom_indices s" "headers t = headers s" "GC_hdr_free_list t = GC_hdr_free_list s"
    "GC_scratch_free_ptr t = GC_scratch_free_ptr s" "GC_scratch_end_addr t = GC_scratch_end_addr s" "os_mem t = os_mem s"
  shows "base_ok t = base_ok s"
proof -
  have a: "avail t = avail s" "mem_ok t = mem_ok s" "HDR b t = HDR b s" for b
    using assms HDR_cong [of t s] by (simp_all add: avail_def mem_ok_def mem_regions_def)
  have "live t = live s" "one_block t = one_block s" by (simp_all add: live_def one_block_def a)
  moreover have "index_inv t = index_inv s" unfolding index_inv_def a assms ..
  ultimately show ?thesis unfolding base_ok_def hdr_ok_def a assms by simp
qed

lemma list_fields [simp]:
  "HDR b (s\<lparr>GC_hblkfreelist := fl\<rparr>) = HDR b s" "HDR b (s\<lparr>GC_free_bytes := fb\<rparr>) = HDR b s"
  "HDR b (s\<lparr>GC_large_free_bytes := w\<rparr>) = HDR b s" "HDR b (s\<lparr>GC_bytes_dropped := w\<rparr>) = HDR b s"
  "HDR b (s\<lparr>GC_unmapped_bytes := w\<rparr>) = HDR b s" "HDR b (s\<lparr>madvised := m\<rparr>) = HDR b s"
  "HDR b (s\<lparr>heap_words := hw\<rparr>) = HDR b s" "HDR b (s\<lparr>GC_drop_blacklisted_count := n\<rparr>) = HDR b s"
  "HDR b (s\<lparr>GC_large_alloc_warn_suppressed := w\<rparr>) = HDR b s" "HDR b (s\<lparr>GC_fail_count := k\<rparr>) = HDR b s"
  "HDR b (s\<lparr>obj_maps := om\<rparr>) = HDR b s" "HDR b (s\<lparr>GC_obj_map := fl\<rparr>) = HDR b s"
  by (rule HDR_cong; simp)+

lemma list_fields_base [simp]:
  "base_ok (s\<lparr>GC_hblkfreelist := fl\<rparr>) = base_ok s" "base_ok (s\<lparr>GC_free_bytes := fb\<rparr>) = base_ok s"
  "base_ok (s\<lparr>GC_large_free_bytes := w\<rparr>) = base_ok s" "base_ok (s\<lparr>GC_bytes_dropped := w\<rparr>) = base_ok s"
  "base_ok (s\<lparr>GC_unmapped_bytes := w\<rparr>) = base_ok s" "base_ok (s\<lparr>madvised := m\<rparr>) = base_ok s"
  "base_ok (s\<lparr>heap_words := hw\<rparr>) = base_ok s" "base_ok (s\<lparr>GC_drop_blacklisted_count := n\<rparr>) = base_ok s"
  "base_ok (s\<lparr>GC_large_alloc_warn_suppressed := w\<rparr>) = base_ok s" "base_ok (s\<lparr>GC_fail_count := k\<rparr>) = base_ok s"
  "base_ok (s\<lparr>obj_maps := om\<rparr>) = base_ok s" "base_ok (s\<lparr>GC_obj_map := fl\<rparr>) = base_ok s"
  by (rule base_cong; simp)+

lemma list_fields_hdr [simp]:
  "is_hdr (s\<lparr>GC_hblkfreelist := fl\<rparr>) b = is_hdr s b" "is_hdr (s\<lparr>GC_free_bytes := fb\<rparr>) b = is_hdr s b"
  "is_hdr (s\<lparr>GC_large_free_bytes := w\<rparr>) b = is_hdr s b" "is_hdr (s\<lparr>GC_bytes_dropped := w\<rparr>) b = is_hdr s b"
  "is_hdr (s\<lparr>GC_unmapped_bytes := w\<rparr>) b = is_hdr s b" "is_hdr (s\<lparr>madvised := m\<rparr>) b = is_hdr s b"
  "is_hdr (s\<lparr>heap_words := hw\<rparr>) b = is_hdr s b" "is_hdr (s\<lparr>GC_drop_blacklisted_count := n\<rparr>) b = is_hdr s b"
  "is_hdr (s\<lparr>GC_large_alloc_warn_suppressed := w\<rparr>) b = is_hdr s b" "is_hdr (s\<lparr>GC_fail_count := k\<rparr>) b = is_hdr s b"
  "is_hdr (s\<lparr>obj_maps := om\<rparr>) b = is_hdr s b" "is_hdr (s\<lparr>GC_obj_map := fl\<rparr>) b = is_hdr s b"
  by (simp_all add: is_hdr_def)

lemma list_fields_blk [simp]:
  "blk (s\<lparr>GC_hblkfreelist := fl\<rparr>) = blk s" "blk (s\<lparr>GC_free_bytes := fb\<rparr>) = blk s"
  "blk (s\<lparr>GC_large_free_bytes := w\<rparr>) = blk s" "blk (s\<lparr>GC_bytes_dropped := w\<rparr>) = blk s"
  "blk (s\<lparr>GC_unmapped_bytes := w\<rparr>) = blk s" "blk (s\<lparr>madvised := m\<rparr>) = blk s"
  "blk (s\<lparr>heap_words := hw\<rparr>) = blk s" "blk (s\<lparr>GC_drop_blacklisted_count := n\<rparr>) = blk s"
  "blk (s\<lparr>GC_large_alloc_warn_suppressed := w\<rparr>) = blk s" "blk (s\<lparr>GC_fail_count := k\<rparr>) = blk s"
  "blk (s\<lparr>obj_maps := om\<rparr>) = blk s" "blk (s\<lparr>GC_obj_map := fl\<rparr>) = blk s"
  by (simp_all add: blk_def fun_eq_iff)

section \<open>Free lists\<close>

definition chunk_bytes :: "'a hdr_state_scheme \<Rightarrow> nat list \<Rightarrow> 64 word" where
  "chunk_bytes s bs = sum_list (map (\<lambda>b. of_nat (hb_sz (blk s b))) bs)"

definition fl_ok :: "(nat \<Rightarrow> nat list) \<Rightarrow> 'a chunk_state_scheme \<Rightarrow> bool" where
  "fl_ok L s \<longleftrightarrow> (\<forall>i. (\<exists>q. dll (blk s) 0 (GC_hblkfreelist s i) (L i) q 0) \<and> distinct (L i) \<and>
     (\<forall>b \<in> set (L i). is_hdr s b \<and> b \<noteq> 0) \<and> (\<forall>j. i \<noteq> j \<longrightarrow> set (L i) \<inter> set (L j) = {}) \<and>
     GC_free_bytes s i = chunk_bytes s (L i))"

definition listed :: "(nat \<Rightarrow> nat list) \<Rightarrow> nat set" where
  "listed L = (\<Union>i. set (L i))"

definition nolink :: "hdr \<Rightarrow> hdr" where
  "nolink x = x\<lparr>hb_next := 0, hb_prev := 0\<rparr>"

text \<open>Only links of the blocks \<open>D\<close>, the heads of the lists and their bytes have changed.\<close>

definition relinked :: "nat set \<Rightarrow> 'a chunk_state_scheme \<Rightarrow> 'a chunk_state_scheme \<Rightarrow> bool" where
  "relinked D s s' \<longleftrightarrow> base_ok s' \<and> (\<forall>b. HDR b s' = HDR b s) \<and> (\<forall>b. present b s' = present b s) \<and>
     (\<forall>b. b \<notin> D \<longrightarrow> blk s' b = blk s b) \<and>
     (\<forall>b. nolink (blk s' b) = nolink (blk s b)) \<and> (\<exists>h f g. s' = s\<lparr>headers := h, GC_hblkfreelist := f, GC_free_bytes := g\<rparr>)"

lemma nolink_fields:
  "nolink x = nolink y \<Longrightarrow> hb_sz x = hb_sz y" "nolink x = nolink y \<Longrightarrow> hb_flags x = hb_flags y"
  "nolink x = nolink y \<Longrightarrow> hb_block x = hb_block y" "nolink x = nolink y \<Longrightarrow> hb_last_reclaimed x = hb_last_reclaimed y"
  unfolding nolink_def by (metis hdr.select_convs hdr.surjective hdr.update_convs(1,2))+

lemma fl_okD:
  assumes "fl_ok L s"
  shows "\<exists>q. dll (blk s) 0 (GC_hblkfreelist s i) (L i) q 0" "distinct (L i)" "b \<in> set (L i) \<Longrightarrow> is_hdr s b \<and> 0 < b"
    "b \<in> set (L i) \<Longrightarrow> b \<in> set (L j) \<Longrightarrow> i = j" "GC_free_bytes s i = chunk_bytes s (L i)"
  using assms unfolding fl_ok_def by (blast | auto)+

text \<open>The neighbours of a listed block.\<close>

lemma listed_split:
  assumes "fl_ok L s" "b \<in> set (L i)"
  obtains us vs q where "L i = us @ b # vs" "dll (blk s) 0 (GC_hblkfreelist s i) (us @ b # vs) q 0" "distinct (us @ b # vs)"
    "0 \<notin> set (us @ b # vs)" "hb_prev (blk s b) = last (0 # us)" "hb_next (blk s b) = hd (vs @ [0])"
proof -
  obtain us vs where L: "L i = us @ b # vs" using assms(2) by (auto simp: in_set_conv_decomp)
  obtain q where q: "dll (blk s) 0 (GC_hblkfreelist s i) (us @ b # vs) q 0" using fl_okD(1) [OF assms(1), of i] L by auto
  have d: "distinct (us @ b # vs)" using fl_okD(2) [OF assms(1), of i] L by simp
  have z: "0 \<notin> set (us @ b # vs)" unfolding L [symmetric] using fl_okD(3) [OF assms(1), of 0 i] by auto
  show thesis using dll_unlink(2,3) [OF q d z] by (intro that [OF L q d z])
qed

lemma last_0: "last (0 # us) = (if us = [] then 0 else last us)"
  by simp

lemma listed_links:
  assumes "fl_ok L s" "b \<in> set (L i)"
  shows "hb_prev (blk s b) \<noteq> 0 \<Longrightarrow> hb_prev (blk s b) \<in> set (L i) - {b}"
    "hb_next (blk s b) \<noteq> 0 \<Longrightarrow> hb_next (blk s b) \<in> set (L i) - {b}"
    "hb_prev (blk s b) = hb_next (blk s b) \<Longrightarrow> hb_next (blk s b) = 0"
proof -
  obtain us vs q where l: "L i = us @ b # vs" "distinct (us @ b # vs)" "0 \<notin> set (us @ b # vs)" "hb_prev (blk s b) = last (0 # us)"
    "hb_next (blk s b) = hd (vs @ [0])"
    using listed_split [OF assms] by metis
  then show "hb_prev (blk s b) \<noteq> 0 \<Longrightarrow> hb_prev (blk s b) \<in> set (L i) - {b}"
    "hb_next (blk s b) \<noteq> 0 \<Longrightarrow> hb_next (blk s b) \<in> set (L i) - {b}"
    by (auto simp: hd_append split: if_splits dest: hd_in_set)
  have "last us \<noteq> hd vs" if "us \<noteq> []" "vs \<noteq> []"
  proof -
    have "last us \<in> set us" "hd vs \<in> set vs" using that by simp_all
    then show ?thesis using l(2) by auto
  qed
  then show "hb_prev (blk s b) = hb_next (blk s b) \<Longrightarrow> hb_next (blk s b) = 0"
    using l(3-5) by (cases "us = []"; cases "vs = []") (auto simp: hd_append)
qed

lemma remove_at_blk:
  assumes "base_ok s" "fl_ok L s" "b \<in> set (L i)"
  defines "s' \<equiv> GC_remove_from_fl_at (HDR b s) i s"
  shows "base_ok s'" "HDR c s' = HDR c s" "present c s' = present c s" "blk s' = unlink b (blk s)"
    "GC_hblkfreelist s' = (if hb_prev (blk s b) = 0 then (GC_hblkfreelist s)(i := hb_next (blk s b)) else GC_hblkfreelist s)"
    "GC_free_bytes s' = (GC_free_bytes s)(i := GC_free_bytes s i - of_nat (hb_sz (blk s b)))"
    "\<exists>h f g. s' = s\<lparr>headers := h, GC_hblkfreelist := f, GC_free_bytes := g\<rparr>"
proof -
  let ?p = "hb_prev (blk s b)" and ?n = "hb_next (blk s b)"
  note hb = fl_okD(3) [OF assms(2,3)]
  note links = listed_links [OF assms(2,3)]
  have p: "is_hdr s ?p \<and> ?p \<noteq> b" if "?p \<noteq> 0" using links(1) fl_okD(3) [OF assms(2), of ?p i] that by auto
  have n: "is_hdr s ?n \<and> ?n \<noteq> b" if "?n \<noteq> 0" using links(2) fl_okD(3) [OF assms(2), of ?n i] that by auto
  define s1 where "s1 = (if ?p = 0 then s\<lparr>GC_hblkfreelist := (GC_hblkfreelist s)(i := ?n)\<rparr>
    else upd_hdr (HDR ?p s) (\<lambda>x. x\<lparr>hb_next := ?n\<rparr>) s)"
  have s1: "base_ok s1" "HDR c s1 = HDR c s" "present c s1 = present c s" "is_hdr s1 c = is_hdr s c"
      "blk s1 = (if ?p = 0 then blk s else (blk s)(?p := (blk s ?p)\<lparr>hb_next := ?n\<rparr>))" "GC_free_bytes s1 = GC_free_bytes s"
      "GC_hblkfreelist s1 = (if ?p = 0 then (GC_hblkfreelist s)(i := ?n) else GC_hblkfreelist s)"
      "\<exists>h f. s1 = s\<lparr>headers := h, GC_hblkfreelist := f\<rparr>" for c
  proof -
    show "GC_free_bytes s1 = GC_free_bytes s"
      "GC_hblkfreelist s1 = (if ?p = 0 then (GC_hblkfreelist s)(i := ?n) else GC_hblkfreelist s)"
      by (simp_all add: s1_def upd_hdr_def)
    show "base_ok s1" using assms(1) p upd_base [OF assms(1)] by (simp add: s1_def)
    show "HDR c s1 = HDR c s" "is_hdr s1 c = is_hdr s c" by (simp_all add: s1_def)
    show "present c s1 = present c s" by (simp add: s1_def) (simp add: present_def)
    show "blk s1 = (if ?p = 0 then blk s else (blk s)(?p := (blk s ?p)\<lparr>hb_next := ?n\<rparr>))"
      using p blk_upd [OF assms(1)] by (simp add: s1_def)
    show "\<exists>h f. s1 = s\<lparr>headers := h, GC_hblkfreelist := f\<rparr>"
      by (intro exI [of _ "headers s1"] exI [of _ "GC_hblkfreelist s1"]) (simp add: s1_def upd_hdr_def)
  qed
  define s2 where "s2 = s1\<lparr>GC_free_bytes := (GC_free_bytes s1)(i := GC_free_bytes s1 i - of_nat (hb_sz (blk s b)))\<rparr>"
  have b1: "blk s1 b = blk s b" using p by (auto simp: s1(5))
  then have h1: "headers s1 (HDR b s) = blk s b" using s1(2) [of b] by (simp add: blk_def)
  have s2: "base_ok s2" "HDR c s2 = HDR c s" "is_hdr s2 c = is_hdr s c" "blk s2 = blk s1" "present c s2 = present c s" "headers s2 = headers s1" for c
    using s1 by (simp_all add: s2_def) (simp add: present_def)
  have "s' = (if ?n \<noteq> 0 then upd_hdr (HDR ?n s2) (\<lambda>x. x\<lparr>hb_prev := ?p\<rparr>) s2 else s2)"
    unfolding s'_def GC_remove_from_fl_at_def Let_def blk_def [of s b, symmetric] s1_def [symmetric] h1 s2_def [symmetric]
    by (simp only: s2 h1)
  then have s': "s' = (if ?n = 0 then s2 else upd_hdr (HDR ?n s2) (\<lambda>x. x\<lparr>hb_prev := ?p\<rparr>) s2)" by simp
  show "base_ok s'" using n s2 upd_base [OF s2(1)] by (simp add: s')
  show "blk s' = unlink b (blk s)"
    using n s2(1,3) blk_upd [OF s2(1)] by (simp add: s' s2(4) s1(5) unlink_def Let_def)
  show "HDR c s' = HDR c s" "present c s' = present c s" for c by (simp_all add: s' s2)
  show "GC_free_bytes s' = (GC_free_bytes s)(i := GC_free_bytes s i - of_nat (hb_sz (blk s b)))"
    "GC_hblkfreelist s' = (if ?p = 0 then (GC_hblkfreelist s)(i := ?n) else GC_hblkfreelist s)"
    by (simp_all add: s' s2_def s1 upd_hdr_def)
  obtain h f where "s1 = s\<lparr>headers := h, GC_hblkfreelist := f\<rparr>" using s1(8) by blast
  then show "\<exists>h f g. s' = s\<lparr>headers := h, GC_hblkfreelist := f, GC_free_bytes := g\<rparr>"
    by (intro exI [of _ "headers s'"] exI [of _ "GC_hblkfreelist s'"] exI [of _ "GC_free_bytes s'"]) (simp add: s' upd_hdr_def s2_def)
qed

lemma unlink_nolink [simp]: "nolink (unlink b f c) = nolink (f c)"
  by (simp add: unlink_def Let_def nolink_def)

lemma chunk_bytes_cong: "(\<And>b. b \<in> set bs \<Longrightarrow> hb_sz (blk t b) = hb_sz (blk s b)) \<Longrightarrow> chunk_bytes t bs = chunk_bytes s bs"
  unfolding chunk_bytes_def by (intro arg_cong [where f = sum_list] map_cong) auto

lemma chunk_bytes_append [simp]:
  "chunk_bytes s (bs @ cs) = chunk_bytes s bs + chunk_bytes s cs" "chunk_bytes s [] = 0"
  "chunk_bytes s (b # bs) = of_nat (hb_sz (blk s b)) + chunk_bytes s bs"
  by (simp_all add: chunk_bytes_def)

lemma relinked_fields:
  assumes "relinked D s s'"
  shows "base_ok s'" "HDR b s' = HDR b s" "is_hdr s' b = is_hdr s b" "present b s' = present b s" "b \<notin> D \<Longrightarrow> blk s' b = blk s b"
    "nolink (blk s' b) = nolink (blk s b)" "hb_sz (blk s' b) = hb_sz (blk s b)" "hb_flags (blk s' b) = hb_flags (blk s b)"
    "hb_block (blk s' b) = hb_block (blk s b)"
  using assms unfolding relinked_def is_hdr_def by (simp_all add: nolink_fields [of "blk s' b" "blk s b"])

lemma remove_at_rep:
  assumes "base_ok s" "fl_ok L s" "b \<in> set (L i)"
  defines "s' \<equiv> GC_remove_from_fl_at (HDR b s) i s"
  shows "fl_ok (L(i := remove1 b (L i))) s'" "relinked (set (L i) - {b}) s s'"
proof -
  note r = remove_at_blk [OF assms(1-3), folded s'_def]
  note links = listed_links [OF assms(2,3)]
  have other: "blk s' c = blk s c" if "c \<notin> set (L i) - {b}" for c
    unfolding r(4) using links(1,2) that by (intro unlink_other) blast+
  show rel: "relinked (set (L i) - {b}) s s'"
    unfolding relinked_def
  proof (intro conjI allI impI)
    show "nolink (blk s' c) = nolink (blk s c)" for c by (simp only: r(4) unlink_nolink)
    show "blk s' c = blk s c" if "c \<notin> set (L i) - {b}" for c using that by (rule other)
  qed (rule r)+
  obtain us vs q where l: "L i = us @ b # vs" "dll (blk s) 0 (GC_hblkfreelist s i) (us @ b # vs) q 0" "distinct (us @ b # vs)"
    "0 \<notin> set (us @ b # vs)"
    using listed_split [OF assms(2,3)] by metis
  have L': "remove1 b (L i) = us @ vs" using l(1,3) by (simp add: remove1_append)
  note szs = relinked_fields(7) [OF rel]
  note ish = relinked_fields(3) [OF rel]
  show "fl_ok (L(i := remove1 b (L i))) s'" unfolding fl_ok_def
  proof (intro allI conjI)
    fix j
    show "\<exists>q. dll (blk s') 0 (GC_hblkfreelist s' j) ((L(i := remove1 b (L i))) j) q 0"
    proof (cases "j = i")
      case True
      then show ?thesis using dll_unlink(1) [OF l(2-4)] L' by (simp add: r(4,5) split: if_splits)
    next
      case False
      have "blk s' c = blk s c" if "c \<in> set (L j)" for c
        using fl_okD(4) [OF assms(2) that, of i] False by (intro other) auto
      then show ?thesis using fl_okD(1) [OF assms(2), of j] False dll_cong [of "L j" "blk s'" "blk s"] by (auto simp: r(5))
    qed
    show "distinct ((L(i := remove1 b (L i))) j)" using fl_okD(2) [OF assms(2)] by simp
    show "\<forall>c \<in> set ((L(i := remove1 b (L i))) j). is_hdr s' c \<and> c \<noteq> 0"
      using fl_okD(3) [OF assms(2)] set_remove1_subset [of b "L i"] by (auto simp: ish)
    show "j \<noteq> k \<longrightarrow> set ((L(i := remove1 b (L i))) j) \<inter> set ((L(i := remove1 b (L i))) k) = {}" for k
      using assms(2) set_remove1_subset [of b "L i"] unfolding fl_ok_def by (auto; blast)
    show "GC_free_bytes s' j = chunk_bytes s' ((L(i := remove1 b (L i))) j)"
    proof -
      have "chunk_bytes s' bs = chunk_bytes s bs" for bs by (rule chunk_bytes_cong) (rule szs)
      then show ?thesis using fl_okD(5) [OF assms(2)] L' l(1) by (simp add: r(6))
    qed
  qed
qed

text \<open>Adding a chunk that is on no list.\<close>

lemma add_to_fl_rep:
  assumes "base_ok s" "fl_ok L s" "is_hdr s b" "b \<noteq> 0" "b \<notin> listed L"
  defines "i \<equiv> GC_hblk_fl_from_blocks (hb_sz (blk s b) div HBLKSIZE)" and "s' \<equiv> GC_add_to_fl b (HDR b s) s"
  shows "base_ok s'" "HDR c s' = HDR c s" "present c s' = present c s" "fl_ok (L(i := b # L i)) s'"
    "c \<noteq> b \<Longrightarrow> c \<notin> set (L i) \<Longrightarrow> blk s' c = blk s c"
    "nolink (blk s' c) = (if c = b then (nolink (blk s b))\<lparr>hb_flags := hb_flags (blk s b) OR FREE_BLK\<rparr> else nolink (blk s c))"
    "\<exists>h f g. s' = s\<lparr>headers := h, GC_hblkfreelist := f, GC_free_bytes := g\<rparr>"
proof -
  let ?n = "GC_hblkfreelist s i"
  obtain q where q: "dll (blk s) 0 ?n (L i) q 0" using fl_okD(1) [OF assms(2)] by blast
  have n: "?n = hd (L i @ [0])" using dll_ends [OF q] by simp
  have "0 \<notin> set (L i)" using fl_okD(3) [OF assms(2), of 0 i] by auto
  then have n0: "?n = 0 \<longleftrightarrow> L i = []" using n by (cases "L i") auto
  have nL: "?n \<in> set (L i)" if "?n \<noteq> 0" using n n0 that by (cases "L i") auto
  have nb: "is_hdr s ?n \<and> ?n \<noteq> b" if "?n \<noteq> 0"
    using nL [OF that] fl_okD(3) [OF assms(2), of ?n i] assms(5) by (auto simp: listed_def)
  have bL: "b \<notin> set (L j)" for j using assms(5) by (auto simp: listed_def)
  define s1 where "s1 = s\<lparr>GC_hblkfreelist := (GC_hblkfreelist s)(i := b),
    GC_free_bytes := (GC_free_bytes s)(i := GC_free_bytes s i + of_nat (hb_sz (blk s b)))\<rparr>"
  define s2 where "s2 = upd_hdr (HDR b s) (\<lambda>x. x\<lparr>hb_next := ?n, hb_prev := 0\<rparr>) s1"
  define s3 where "s3 = (if ?n \<noteq> 0 then upd_hdr (HDR ?n s2) (\<lambda>x. x\<lparr>hb_prev := b\<rparr>) s2 else s2)"
  have s': "s' = upd_hdr (HDR b s) (\<lambda>x. x\<lparr>hb_flags := hb_flags x OR FREE_BLK\<rparr>) s3"
    unfolding s'_def GC_add_to_fl_def Let_def blk_def [of s b, symmetric] i_def [symmetric] s1_def [symmetric] s2_def [symmetric]
      s3_def [symmetric] ..
  have s1: "base_ok s1" "HDR c s1 = HDR c s" "is_hdr s1 c = is_hdr s c" "blk s1 = blk s" "present c s1 = present c s" for c
    using assms(1) by (simp_all add: s1_def) (simp add: present_def)
  have h1: "HDR b s = HDR b s1" by (simp add: s1)
  have s2: "base_ok s2" "HDR c s2 = HDR c s" "is_hdr s2 c = is_hdr s c" "blk s2 = (blk s)(b := (blk s b)\<lparr>hb_next := ?n, hb_prev := 0\<rparr>)"
    "present c s2 = present c s" for c
    using assms(3) upd_base [OF s1(1), of b] blk_upd [OF s1(1), of b] unfolding s2_def h1 by (simp_all add: s1)
  have s3: "base_ok s3" "HDR c s3 = HDR c s" "is_hdr s3 c = is_hdr s c"
    "blk s3 = (if ?n \<noteq> 0 then (blk s2)(?n := (blk s ?n)\<lparr>hb_prev := b\<rparr>) else blk s2)" "present c s3 = present c s" for c
    using nb s2(1,3) upd_base [OF s2(1), of ?n] blk_upd [OF s2(1), of ?n] unfolding s3_def by (simp_all add: s2)
  have h3: "HDR b s = HDR b s3" by (simp add: s3)
  have ish: "is_hdr s' c = is_hdr s c" for c unfolding s' by (simp add: s3)
  show "base_ok s'" "HDR c s' = HDR c s" "present c s' = present c s" for c
    using assms(3) upd_base [OF s3(1), of b] unfolding s' h3 by (simp_all add: s3)
  have B: "blk s' = (if ?n \<noteq> 0 then (blk s)(?n := (blk s ?n)\<lparr>hb_prev := b\<rparr>) else blk s)
      (b := (blk s b)\<lparr>hb_next := ?n, hb_prev := 0, hb_flags := hb_flags (blk s b) OR FREE_BLK\<rparr>)"
    using assms(3) nb blk_upd [OF s3(1), of b] unfolding s' h3 by (auto simp: s3 s2 fun_eq_iff)
  have other: "blk s' c = blk s c" if "c \<noteq> b" "c \<notin> set (L i)" for c using nL that by (auto simp: B)
  then show "c \<noteq> b \<Longrightarrow> c \<notin> set (L i) \<Longrightarrow> blk s' c = blk s c" .
  show "nolink (blk s' c) = (if c = b then (nolink (blk s b))\<lparr>hb_flags := hb_flags (blk s b) OR FREE_BLK\<rparr> else nolink (blk s c))" for c
    by (simp add: B nolink_def)
  have sz: "chunk_bytes s' bs = chunk_bytes s bs" for bs by (rule chunk_bytes_cong) (simp add: B)
  have fl: "GC_hblkfreelist s' = (GC_hblkfreelist s)(i := b)"
    "GC_free_bytes s' = (GC_free_bytes s)(i := GC_free_bytes s i + of_nat (hb_sz (blk s b)))"
    by (simp_all add: s' s3_def s2_def s1_def upd_hdr_def)
  show "\<exists>h f g. s' = s\<lparr>headers := h, GC_hblkfreelist := f, GC_free_bytes := g\<rparr>"
    by (intro exI [of _ "headers s'"] exI [of _ "GC_hblkfreelist s'"] exI [of _ "GC_free_bytes s'"])
      (simp add: s' s3_def s2_def s1_def upd_hdr_def)
  have "\<exists>q. dll (blk s') b ?n (L i) q 0"
  proof (cases "L i")
    case Nil
    then show ?thesis using n0 by simp
  next
    case (Cons v vs)
    then have v: "?n = v" "?n \<noteq> 0" "v \<notin> set vs" using n n0 fl_okD(2) [OF assms(2), of i] by auto
    have "dll ((blk s)(v := (blk s v)\<lparr>hb_prev := b\<rparr>)) b ?n (v # vs) q 0"
      using dll_set_prev [of "blk s" 0 ?n v vs q 0 b] q Cons v by simp
    moreover have "blk s' c = ((blk s)(v := (blk s v)\<lparr>hb_prev := b\<rparr>)) c" if "c \<in> set (v # vs)" for c
      using that bL [of i] Cons v by (auto simp: B)
    ultimately show ?thesis using dll_cong [of "v # vs" "blk s'" "(blk s)(v := (blk s v)\<lparr>hb_prev := b\<rparr>)"] Cons by metis
  qed
  then have di: "\<exists>q. dll (blk s') 0 b (b # L i) q 0" by (simp add: B)
  show "fl_ok (L(i := b # L i)) s'" unfolding fl_ok_def
  proof (intro allI conjI)
    fix j
    show "\<exists>q. dll (blk s') 0 (GC_hblkfreelist s' j) ((L(i := b # L i)) j) q 0"
    proof (cases "j = i")
      case True
      then show ?thesis using di by (simp add: fl)
    next
      case False
      have "blk s' c = blk s c" if "c \<in> set (L j)" for c
        using fl_okD(4) [OF assms(2) that, of i] False bL [of j] that by (intro other) auto
      then show ?thesis using fl_okD(1) [OF assms(2), of j] False dll_cong [of "L j" "blk s'" "blk s"] by (auto simp: fl)
    qed
    show "distinct ((L(i := b # L i)) j)" using fl_okD(2) [OF assms(2)] bL by simp
    show "\<forall>c \<in> set ((L(i := b # L i)) j). is_hdr s' c \<and> c \<noteq> 0" using fl_okD(3) [OF assms(2)] assms(3,4) by (auto simp: ish)
    show "j \<noteq> k \<longrightarrow> set ((L(i := b # L i)) j) \<inter> set ((L(i := b # L i)) k) = {}" for k
      using assms(2) bL unfolding fl_ok_def by auto
    show "GC_free_bytes s' j = chunk_bytes s' ((L(i := b # L i)) j)"
      using fl_okD(5) [OF assms(2)] by (simp add: fl sz add.commute B)
  qed
qed

section \<open>Chunks\<close>

definition nblk :: "'a hdr_state_scheme \<Rightarrow> nat \<Rightarrow> nat" where
  "nblk s b = OBJ_SZ_TO_BLOCKS (hb_sz (blk s b))"

definition is_free :: "'a hdr_state_scheme \<Rightarrow> nat \<Rightarrow> bool" where
  "is_free s b \<longleftrightarrow> is_hdr s b \<and> HBLK_IS_FREE (blk s b)"

text \<open>A header describes its chunk: the entries inside lead back to it, or are 0 when it is free, and there are no others.\<close>

definition chunk_ok :: "'a hdr_state_scheme \<Rightarrow> nat \<Rightarrow> bool" where
  "chunk_ok s b \<longleftrightarrow> b \<noteq> 0 \<and> hb_block (blk s b) = b \<and> 0 < hb_sz (blk s b) \<and> (b + nblk s b) * HBLKSIZE \<le> 2 ^ 64 \<and>
     (is_free s b \<longrightarrow> HBLKSIZE dvd hb_sz (blk s b) \<and> hb_sz (blk s b) < 2 ^ 63) \<and>
     (\<forall>c. b < c \<longrightarrow> c < b + nblk s b \<longrightarrow> HDR c s = (if is_free s b then 0 else min (c - b) MAX_JUMP))"

definition chunks_ok :: "'a hdr_state_scheme \<Rightarrow> bool" where
  "chunks_ok s \<longleftrightarrow> (\<forall>b. is_hdr s b \<longrightarrow> chunk_ok s b) \<and>
     (\<forall>c. HDR c s \<noteq> 0 \<longrightarrow> \<not> is_hdr s c \<longrightarrow> (\<exists>b. is_hdr s b \<and> \<not> is_free s b \<and> b < c \<and> c < b + nblk s b))"

definition free_space :: "'a hdr_state_scheme \<Rightarrow> nat set" where
  "free_space s = (\<Union>b \<in> {b. is_free s b}. {b..<b + nblk s b})"

lemma chunkD: "chunks_ok s \<Longrightarrow> is_hdr s b \<Longrightarrow> chunk_ok s b"
  by (simp add: chunks_ok_def)

lemma nblk_pos: "chunk_ok s b \<Longrightarrow> 0 < nblk s b"
  by (simp add: chunk_ok_def nblk_def OBJ_SZ_TO_BLOCKS_def div_greater_zero_iff)

lemma free_nblk: "chunk_ok s b \<Longrightarrow> is_free s b \<Longrightarrow> nblk s b * HBLKSIZE = hb_sz (blk s b)"
  by (auto simp: chunk_ok_def nblk_def OBJ_SZ_TO_BLOCKS_def dvd_def)

lemma inside_no_hdr:
  assumes "chunks_ok s" "is_hdr s b" "b < c" "c < b + nblk s b"
  shows "\<not> is_hdr s c"
  using chunkD [OF assms(1,2)] assms(3,4) by (auto simp: chunk_ok_def is_hdr_def min_def)

lemma count_owner:
  assumes "chunks_ok s" "HDR c s \<noteq> 0" "\<not> is_hdr s c"
  obtains b where "is_hdr s b" "\<not> is_free s b" "b < c" "c < b + nblk s b" "\<And>d. b < d \<Longrightarrow> d < b + nblk s b \<Longrightarrow> HDR d s = min (d - b) MAX_JUMP"
proof -
  obtain b where b: "is_hdr s b" "\<not> is_free s b" "b < c" "c < b + nblk s b" using assms by (auto simp: chunks_ok_def)
  then show thesis using chunkD [OF assms(1) b(1)] by (intro that) (auto simp: chunk_ok_def)
qed

lemma chunks_layout:
  assumes "chunks_ok s"
  shows "layout s"
  unfolding layout_def
proof (intro conjI allI impI)
  show "hb_block (headers s (HDR b s)) = b" if "MAX_JUMP < HDR b s" for b
    using chunkD [OF assms, of b] that by (simp add: is_hdr_def chunk_ok_def blk_def)
  fix b c assume c: "HDR b s \<le> MAX_JUMP" "b < c + HDR b s" "c \<le> b"
  then have "HDR b s \<noteq> 0" "\<not> is_hdr s b" by (auto simp: is_hdr_def)
  then obtain a where a: "a < b" "b < a + nblk s a" "\<And>d. a < d \<Longrightarrow> d < a + nblk s a \<Longrightarrow> HDR d s = min (d - a) MAX_JUMP"
    using count_owner [OF assms, of b] by metis
  then have "HDR b s \<le> b - a" by simp
  then have "a < c" "c < a + nblk s a" using c a(1,2) by linarith+
  then show "HDR c s \<le> MAX_JUMP" using a(3) by simp
qed

text \<open>The chunk in front of a chunk.\<close>

lemma block_ending_rep:
  assumes "base_ok s" "chunks_ok s" "is_hdr s h"
  shows "\<exists>p. get_block_ending_at h s = Inr p \<and> (p = 0 \<longrightarrow> (\<forall>b. is_free s b \<longrightarrow> b + nblk s b \<noteq> h)) \<and>
    (p \<noteq> 0 \<longrightarrow> is_hdr s p \<and> p + nblk s p = h)"
proof -
  have h0: "0 < h" using chunkD [OF assms(2,3)] by (simp add: chunk_ok_def)
  show ?thesis
  proof (cases "HDR (h - 1) s = 0")
    case False
    obtain b where b: "is_hdr s b" "b \<le> h - 1" "h - 1 < b + nblk s b" "GC_find_starting_hblk (h - 1) (HDR (h - 1) s) s = Some (b, HDR b s)"
    proof (cases "is_hdr s (h - 1)")
      case True
      then show thesis using nblk_pos [OF chunkD [OF assms(2) True]]
        by (intro that [of "h - 1"]; (subst GC_find_starting_hblk.simps)?) (simp_all add: is_hdr_def IS_FORWARDING_ADDR_OR_NIL_def)
    next
      case no: False
      obtain b where b: "is_hdr s b" "b < h - 1" "h - 1 < b + nblk s b" "\<And>d. b < d \<Longrightarrow> d < b + nblk s b \<Longrightarrow> HDR d s = min (d - b) MAX_JUMP"
        using count_owner [OF assms(2) False no] by metis
      show thesis using find_starting_rep [of b "nblk s b" s "h - 1", OF b(4)] b by (intro that [of b]) (auto simp: is_hdr_def)
    qed
    have "b + nblk s b = h" using inside_no_hdr [OF assms(2) b(1), of h] assms(3) b(2,3) h0 by linarith
    moreover have "get_block_ending_at h s = Inr b" using b(4) False by (simp add: get_block_ending_at_def Let_def)
    moreover have "b \<noteq> 0" using chunkD [OF assms(2) b(1)] by (simp add: chunk_ok_def)
    ultimately show ?thesis using b(1) by (intro exI [of _ b]) simp
  next
    case True
    obtain F where "hdr_ok F s" using assms(1) by (auto simp: base_ok_def)
    then obtain r where r: "last_header s {..h - 1} r" "GC_prev_block (h - 1) s = (case r of None \<Rightarrow> 0 | Some b \<Rightarrow> b)"
      using prev_block_rep [OF hdr_ok_index chunks_layout [OF assms(2)]] by blast
    have free: "GC_prev_block (h - 1) s = b" if b: "is_free s b" "b + nblk s b = h" for b
    proof -
      have hb: "is_hdr s b" using b by (simp add: is_free_def)
      have bh: "b \<le> h - 1" using b nblk_pos [OF chunkD [OF assms(2) hb]] by linarith
      have "r \<noteq> None"
      proof
        assume "r = None"
        then have "HDR b s \<le> MAX_JUMP" using r(1) bh by (simp add: last_header_def)
        then show False using hb by (simp add: is_hdr_def)
      qed
      then obtain p where p: "r = Some p" by blast
      have "p \<le> h - 1" "is_hdr s p" "\<not> p < b" using r(1) hb bh unfolding p by (auto simp: last_header_def is_hdr_def)
      moreover from this(1) have "p < b + nblk s b" using b(2) h0 by linarith
      ultimately have "p = b" using inside_no_hdr [OF assms(2) hb, of p] by (cases "b < p") auto
      then show ?thesis using r(2) p by simp
    qed
    let ?p = "GC_prev_block (h - 1) s"
    show ?thesis
    proof (cases "?p \<noteq> 0 \<and> ?p * HBLKSIZE + hb_sz (blk s ?p) = h * HBLKSIZE")
      case eq: True
      then obtain p where p: "r = Some p" "?p = p" using r(2) by (cases r) auto
      then have hp: "is_hdr s ?p" using r(1) by (auto simp: last_header_def is_hdr_def)
      have "hb_sz (blk s ?p) = (h - ?p) * HBLKSIZE" using eq by (auto simp: diff_mult_distrib)
      moreover from eq have "?p \<le> h" by simp
      ultimately have "?p + nblk s ?p = h" unfolding nblk_def OBJ_SZ_TO_BLOCKS_def by simp
      moreover have "get_block_ending_at h s = Inr ?p" using eq True by (simp add: get_block_ending_at_def Let_def blk_def)
      ultimately show ?thesis using hp eq by (intro exI [of _ ?p]) simp
    next
      case ne: False
      have "b + nblk s b \<noteq> h" if b: "is_free s b" for b
      proof
        assume e: "b + nblk s b = h"
        have cb: "chunk_ok s b" using b chunkD [OF assms(2)] by (simp add: is_free_def)
        have "h * HBLKSIZE = b * HBLKSIZE + nblk s b * HBLKSIZE" unfolding e [symmetric] by (simp add: add_mult_distrib)
        then show False using ne free [OF b e] free_nblk [OF cb b] cb by (auto simp: chunk_ok_def)
      qed
      moreover have "get_block_ending_at h s = Inr 0" using ne True by (simp add: get_block_ending_at_def Let_def blk_def)
      ultimately show ?thesis by (intro exI [of _ 0]) simp
    qed
  qed
qed

text \<open>A change within whole chunks.\<close>

definition chunk_at :: "'a hdr_state_scheme \<Rightarrow> nat \<Rightarrow> nat set" where
  "chunk_at s b = {b..<b + nblk s b}"

definition region :: "'a hdr_state_scheme \<Rightarrow> nat set \<Rightarrow> bool" where
  "region s R \<longleftrightarrow> (\<forall>b. is_hdr s b \<longrightarrow> chunk_at s b \<subseteq> R \<or> chunk_at s b \<inter> R = {})"

lemma chunks_disjoint:
  assumes "chunks_ok s" "is_hdr s b" "is_hdr s c" "b \<noteq> c"
  shows "chunk_at s b \<inter> chunk_at s c = {}"
proof -
  have "\<not> (b < c \<and> c < b + nblk s b)" "\<not> (c < b \<and> b < c + nblk s c)"
    using inside_no_hdr [OF assms(1,2), of c] inside_no_hdr [OF assms(1,3), of b] assms(2,3) by blast+
  then show ?thesis using assms(4) by (auto simp: chunk_at_def)
qed

lemma region_chunk: "chunks_ok s \<Longrightarrow> is_hdr s b \<Longrightarrow> region s (chunk_at s b)"
  unfolding region_def using chunks_disjoint by blast

lemma region_Un: "region s A \<Longrightarrow> region s B \<Longrightarrow> region s (A \<union> B)"
  unfolding region_def by blast

lemma chunk_self: "chunks_ok s \<Longrightarrow> is_hdr s b \<Longrightarrow> b \<in> chunk_at s b"
  using nblk_pos [OF chunkD] by (simp add: chunk_at_def)

lemma chunks_local:
  assumes ok: "chunks_ok s" and R: "region s R"
    and out: "\<And>c. c \<notin> R \<Longrightarrow> HDR c s' = HDR c s"
    and same: "\<And>c. is_hdr s c \<Longrightarrow> c \<notin> R \<Longrightarrow> hb_sz (blk s' c) = hb_sz (blk s c) \<and> hb_flags (blk s' c) = hb_flags (blk s c) \<and> hb_block (blk s' c) = hb_block (blk s c)"
    and ins: "\<And>c. c \<in> R \<Longrightarrow> is_hdr s' c \<Longrightarrow> chunk_ok s' c"
    and own: "\<And>c. c \<in> R \<Longrightarrow> HDR c s' \<noteq> 0 \<Longrightarrow> \<not> is_hdr s' c \<Longrightarrow> \<exists>b. is_hdr s' b \<and> \<not> is_free s' b \<and> b < c \<and> c < b + nblk s' b"
  shows "chunks_ok s'" "free_space s' = (free_space s - R) \<union> (\<Union>b \<in> {b \<in> R. is_free s' b}. chunk_at s' b)"
proof -
  have h: "is_hdr s' c = is_hdr s c" if "c \<notin> R" for c using out [OF that] by (simp add: is_hdr_def)
  have apart: "chunk_at s b \<inter> R = {}" if "is_hdr s b" "b \<notin> R" for b
    using R that chunk_self [OF ok that(1)] by (auto simp: region_def)
  have n: "nblk s' b = nblk s b" "is_free s' b = is_free s b" "chunk_at s' b = chunk_at s b" if "is_hdr s b" "b \<notin> R" for b
    using same [OF that] h that by (simp_all add: nblk_def is_free_def HBLK_IS_FREE_def chunk_at_def)
  have "chunk_ok s' b" if b: "is_hdr s' b" for b
  proof (cases "b \<in> R")
    case False
    then have hb: "is_hdr s b" using b h by simp
    have "HDR c s' = HDR c s" if "b < c" "c < b + nblk s b" for c
    proof (rule out)
      have "c \<in> chunk_at s b" using that by (simp add: chunk_at_def)
      then show "c \<notin> R" using apart [OF hb False] by blast
    qed
    then show ?thesis using chunkD [OF ok hb] same [OF hb False] n [OF hb False] by (simp add: chunk_ok_def)
  qed (rule ins [OF _ b])
  moreover have "\<exists>b. is_hdr s' b \<and> \<not> is_free s' b \<and> b < c \<and> c < b + nblk s' b" if c: "HDR c s' \<noteq> 0" "\<not> is_hdr s' c" for c
  proof (cases "c \<in> R")
    case False
    then have "HDR c s \<noteq> 0" "\<not> is_hdr s c" using c out h by simp_all
    then obtain b where b: "is_hdr s b" "\<not> is_free s b" "b < c" "c < b + nblk s b" using ok by (auto simp: chunks_ok_def)
    then have "c \<in> chunk_at s b" by (simp add: chunk_at_def)
    then have "b \<notin> R" using R False b(1) chunk_self [OF ok b(1)] by (auto simp: region_def)
    then show ?thesis using b n [OF b(1)] h by (intro exI [of _ b]) simp
  qed (rule own [OF _ c])
  ultimately show "chunks_ok s'" by (simp add: chunks_ok_def)
  show "free_space s' = (free_space s - R) \<union> (\<Union>b \<in> {b \<in> R. is_free s' b}. chunk_at s' b)"
  proof (intro set_eqI iffI)
    fix c assume "c \<in> free_space s'"
    then obtain b where b: "is_free s' b" "c \<in> chunk_at s' b" by (auto simp: free_space_def chunk_at_def)
    show "c \<in> (free_space s - R) \<union> (\<Union>b \<in> {b \<in> R. is_free s' b}. chunk_at s' b)"
    proof (cases "b \<in> R")
      case False
      then have hb: "is_hdr s b" using b(1) h by (simp add: is_free_def)
      then have "c \<in> chunk_at s b" "is_free s b" "c \<notin> R" using b n [OF hb False] apart [OF hb False] by auto
      then show ?thesis by (auto simp: free_space_def chunk_at_def)
    qed (use b in auto)
  next
    fix c assume "c \<in> (free_space s - R) \<union> (\<Union>b \<in> {b \<in> R. is_free s' b}. chunk_at s' b)"
    then consider "c \<in> free_space s" "c \<notin> R" | "c \<in> (\<Union>b \<in> {b \<in> R. is_free s' b}. chunk_at s' b)" by blast
    then show "c \<in> free_space s'"
    proof cases
      case 1
      then obtain b where b: "is_free s b" "c \<in> chunk_at s b" by (auto simp: free_space_def chunk_at_def)
      then have hb: "is_hdr s b" by (simp add: is_free_def)
      then have "b \<notin> R" using R b 1(2) chunk_self [OF ok hb] by (auto simp: region_def)
      then show ?thesis using b n [OF hb] by (auto simp: free_space_def chunk_at_def)
    qed (auto simp: free_space_def chunk_at_def)
  qed
qed

section \<open>Freeing\<close>

lemma more_fields:
  fixes s t :: "'a chunk_state_scheme"
  assumes "hdr_state.more t = hdr_state.more s"
  shows "GC_hblkfreelist t = GC_hblkfreelist s" "GC_free_bytes t = GC_free_bytes s" "GC_large_free_bytes t = GC_large_free_bytes s"
    "GC_bytes_dropped t = GC_bytes_dropped s"
  using assms by (cases s; cases t; simp)+

lemma fl_ok_cong:
  assumes "fl_ok L s" "GC_hblkfreelist t = GC_hblkfreelist s" "GC_free_bytes t = GC_free_bytes s"
    and "\<And>b. b \<in> listed L \<Longrightarrow> is_hdr t b \<and> blk t b = blk s b"
  shows "fl_ok L t"
proof -
  have b: "b \<in> set (L i) \<Longrightarrow> is_hdr t b \<and> blk t b = blk s b" for i b using assms(4) by (auto simp: listed_def)
  have "dll (blk t) p c (L i) q e = dll (blk s) p c (L i) q e" for i p c q e by (rule dll_cong) (simp add: b)
  moreover have "chunk_bytes t (L i) = chunk_bytes s (L i)" for i by (rule chunk_bytes_cong) (simp add: b)
  ultimately show ?thesis using assms(1-3) b unfolding fl_ok_def by simp
qed

text \<open>The chunk that is freed, before it is joined to others.\<close>

definition freed_header :: "nat \<Rightarrow> 'a chunk_state_scheme \<Rightarrow> 'a chunk_state_scheme" where
  "freed_header b s =
     (let size = HBLKSIZE * OBJ_SZ_TO_BLOCKS (hb_sz (headers s (HDR b s))); s' = GC_remove_counts b size s
      in upd_hdr (HDR b s) (\<lambda>x. x\<lparr>hb_flags := hb_flags x OR FREE_BLK\<rparr>)
           (upd_hdr (HDR b s) (\<lambda>x. x\<lparr>hb_sz := size, hb_last_reclaimed := ucast (GC_gc_no s')\<rparr>) s'))"

lemma counts_removed:
  assumes "base_ok s" "chunks_ok s" "is_hdr s b" "\<not> is_free s b"
  defines "t \<equiv> GC_remove_counts b (HBLKSIZE * nblk s b) s"
  shows "base_ok t" "keeps_headers s t" "HDR c t = (if b < c \<and> c < b + nblk s b then 0 else HDR c s)"
proof -
  obtain F where F: "hdr_ok F s" using assms(1) by (auto simp: base_ok_def)
  note ok = chunkD [OF assms(2,3)]
  have lt: "c * HBLKSIZE < b * HBLKSIZE + HBLKSIZE * nblk s b \<longleftrightarrow> c < b + nblk s b" for c
    using mult_less_cancel2 [of c HBLKSIZE "b + nblk s b"] by (simp add: algebra_simps)
  have cnt: "HDR c s = min (c - b) MAX_JUMP" if "b < c" "c < b + nblk s b" for c
    using ok assms(4) that by (simp add: chunk_ok_def)
  have "present c s" if "b < c" "c < b + nblk s b" for c
    using cnt [OF that] that F by (intro HDR_present) (auto simp: hdr_ok_def)
  then have pre: "HBLKSIZE < HBLKSIZE * nblk s b \<Longrightarrow> HDR (b + 1) s \<noteq> 0 \<Longrightarrow>
      \<forall>c. b < c \<longrightarrow> c * HBLKSIZE < b * HBLKSIZE + HBLKSIZE * nblk s b \<longrightarrow> present c s"
    by (simp only: lt) simp
  note r = remove_counts_rep [OF F pre, folded t_def]
  show "base_ok t" "keeps_headers s t" using r(1,2) by (auto simp: base_ok_def)
  have one: "HBLKSIZE < HBLKSIZE * nblk s b \<and> HDR (b + 1) s \<noteq> 0 \<longleftrightarrow> 1 < nblk s b"
    using cnt [of "b + 1"] by auto
  have "HDR c t = (if (HBLKSIZE < HBLKSIZE * nblk s b \<and> HDR (b + 1) s \<noteq> 0) \<and> b < c \<and> c < b + nblk s b then 0 else HDR c s)"
    using r(3) [of c] unfolding lt by simp
  then show "HDR c t = (if b < c \<and> c < b + nblk s b then 0 else HDR c s)" unfolding one by auto
qed

lemma freed_header_rep:
  assumes "base_ok s" "chunks_ok s" "is_hdr s b" "\<not> is_free s b" "nblk s b * HBLKSIZE < 2 ^ 63"
  defines "t \<equiv> freed_header b s"
  shows "base_ok t" "is_hdr s c \<Longrightarrow> HDR c t = HDR c s" "c \<noteq> b \<Longrightarrow> is_hdr s c \<Longrightarrow> blk t c = blk s c"
    "blk t b = (blk s b)\<lparr>hb_sz := nblk s b * HBLKSIZE, hb_last_reclaimed := ucast (GC_gc_no s), hb_flags := hb_flags (blk s b) OR FREE_BLK\<rparr>"
    "hdr_state.more t = hdr_state.more s" "is_hdr t c = is_hdr s c" "chunks_ok t"
    "free_space t = free_space s \<union> chunk_at s b" "is_free t c \<longleftrightarrow> is_free s c \<or> c = b" "nblk t c = nblk s c \<or> \<not> is_hdr s c"
proof -
  define s1 where "s1 = GC_remove_counts b (HBLKSIZE * nblk s b) s"
  note s1 = counts_removed [OF assms(1-4), folded s1_def]
  have ok: "chunk_ok s b" by (rule chunkD [OF assms(2,3)])
  have hb: "HDR b s1 = HDR b s" by (simp add: s1(3))
  have ih1: "is_hdr s1 c = is_hdr s c" for c using inside_no_hdr [OF assms(2,3), of c] by (auto simp: is_hdr_def s1(3))
  have b1: "blk s1 c = blk s c" if "is_hdr s c" for c
    using that ih1 [of c] s1(2) s1(3) [of c] by (auto simp: blk_def keeps_headers_def is_hdr_def split: if_splits)
  have hb1: "is_hdr s1 b" using ih1 assms(3) by simp
  have gn: "GC_gc_no s1 = GC_gc_no s" using s1(2) by (simp add: keeps_headers_def)
  have sz: "HBLKSIZE * OBJ_SZ_TO_BLOCKS (hb_sz (headers s (HDR b s))) = HBLKSIZE * nblk s b" by (simp add: nblk_def blk_def)
  have t: "t = upd_hdr (HDR b s1) (\<lambda>x. x\<lparr>hb_flags := hb_flags x OR FREE_BLK\<rparr>)
      (upd_hdr (HDR b s1) (\<lambda>x. x\<lparr>hb_sz := nblk s b * HBLKSIZE, hb_last_reclaimed := ucast (GC_gc_no s)\<rparr>) s1)"
    unfolding t_def freed_header_def Let_def sz s1_def [symmetric] gn hb
    by (simp only: mult.commute [of HBLKSIZE "nblk s b"])
  define s2 where "s2 = upd_hdr (HDR b s1) (\<lambda>x. x\<lparr>hb_sz := nblk s b * HBLKSIZE, hb_last_reclaimed := ucast (GC_gc_no s)\<rparr>) s1"
  have s2: "base_ok s2" "HDR c s2 = HDR c s1" "is_hdr s2 c = is_hdr s c" "hdr_state.more s2 = hdr_state.more s"
    "blk s2 = (blk s1)(b := (blk s b)\<lparr>hb_sz := nblk s b * HBLKSIZE, hb_last_reclaimed := ucast (GC_gc_no s)\<rparr>)" for c
    using upd_base [OF s1(1) hb1] blk_upd [OF s1(1) hb1] b1 [OF assms(3)] s1(2)
    by (simp_all add: s2_def ih1 keeps_headers_def)
  have t2: "t = upd_hdr (HDR b s2) (\<lambda>x. x\<lparr>hb_flags := hb_flags x OR FREE_BLK\<rparr>) s2" unfolding t s2_def [symmetric] by (simp add: s2)
  have hb2: "is_hdr s2 b" using assms(3) by (simp add: s2)
  show "base_ok t" "hdr_state.more t = hdr_state.more s"
    using upd_base [OF s2(1) hb2] by (simp_all add: t2 s2)
  show ih: "is_hdr t c = is_hdr s c" for c by (simp add: t2 s2)
  have bt: "blk t = (blk s1)(b := (blk s b)\<lparr>hb_sz := nblk s b * HBLKSIZE, hb_last_reclaimed := ucast (GC_gc_no s), hb_flags := hb_flags (blk s b) OR FREE_BLK\<rparr>)"
    using blk_upd [OF s2(1) hb2] by (simp add: t2 s2)
  show bc: "c \<noteq> b \<Longrightarrow> is_hdr s c \<Longrightarrow> blk t c = blk s c" for c using b1 by (simp add: bt)
  show bb: "blk t b = (blk s b)\<lparr>hb_sz := nblk s b * HBLKSIZE, hb_last_reclaimed := ucast (GC_gc_no s), hb_flags := hb_flags (blk s b) OR FREE_BLK\<rparr>"
    by (simp add: bt)
  have Ht: "HDR c t = (if b < c \<and> c < b + nblk s b then 0 else HDR c s)" for c by (simp add: t2 s2 s1(3))
  then show "is_hdr s c \<Longrightarrow> HDR c t = HDR c s" for c using inside_no_hdr [OF assms(2,3), of c] by auto
  have or4: "(x OR FREE_BLK) AND FREE_BLK \<noteq> 0" for x :: "8 word" by (simp add: bit.conj_disj_distrib2)
  have fb: "is_free t b" using assms(3) or4 ih by (simp add: is_free_def bb HBLK_IS_FREE_def)
  show fr: "is_free t c \<longleftrightarrow> is_free s c \<or> c = b" for c
    using fb bc [of c] ih by (cases "c = b") (auto simp: is_free_def)
  have nb: "nblk t b = nblk s b" using nblk_pos [OF ok] by (simp add: nblk_def [of t] bb OBJ_SZ_TO_BLOCKS_def)
  show "nblk t c = nblk s c \<or> \<not> is_hdr s c" for c using nb bc [of c] by (cases "c = b"; cases "is_hdr s c") (simp_all add: nblk_def)
  have in_at: "c \<in> chunk_at s b \<longleftrightarrow> b \<le> c \<and> c < b + nblk s b" for c by (auto simp: chunk_at_def)
  have only: "c = b" if "c \<in> chunk_at s b" "is_hdr t c" for c
    using that inside_no_hdr [OF assms(2,3), of c] ih by (cases "c = b") (auto simp: in_at)
  have okt: "chunk_ok t b" using ok assms(5) nblk_pos [OF ok] fb by (simp add: chunk_ok_def nb bb Ht)
  note loc = chunks_local [OF assms(2) region_chunk [OF assms(2,3)], of t]
  have 1: "HDR c t = HDR c s" if "c \<notin> chunk_at s b" for c using that by (auto simp: Ht in_at)
  have 2: "hb_sz (blk t c) = hb_sz (blk s c) \<and> hb_flags (blk t c) = hb_flags (blk s c) \<and> hb_block (blk t c) = hb_block (blk s c)"
    if "is_hdr s c" "c \<notin> chunk_at s b" for c
    using that bc [of c] chunk_self [OF assms(2,3)] by (cases "c = b") simp_all
  have 3: "\<exists>d. is_hdr t d \<and> \<not> is_free t d \<and> d < c \<and> c < d + nblk t d" if "c \<in> chunk_at s b" "HDR c t \<noteq> 0" "\<not> is_hdr t c" for c
    using that assms(3) ih by (cases "c = b") (auto simp: Ht in_at)
  show "chunks_ok t" using okt only 1 2 3 by (intro loc(1)) auto
  have "{c \<in> chunk_at s b. is_free t c} = {b}" using only fb chunk_self [OF assms(2,3)] by (auto simp: is_free_def)
  then have "free_space t = (free_space s - chunk_at s b) \<union> chunk_at t b" using okt only 1 2 3 by (subst loc(2)) auto
  then show "free_space t = free_space s \<union> chunk_at s b" by (auto simp: chunk_at_def nb)
qed

text \<open>Joining a free chunk to the one in front of it, when both are on no list.\<close>

lemma join_rep:
  assumes "base_ok s" "chunks_ok s" "is_free s a" "is_free s b" "b = a + nblk s a" "hb_sz (blk s a) + hb_sz (blk s b) < 2 ^ 63"
    and f: "hb_sz (f (blk s a)) = hb_sz (blk s a) + hb_sz (blk s b)" "hb_flags (f (blk s a)) = hb_flags (blk s a)"
      "hb_block (f (blk s a)) = hb_block (blk s a)"
  defines "t \<equiv> GC_remove_header b (upd_hdr (HDR a s) f s)"
  shows "base_ok t" "HDR c t = (if c = b then 0 else HDR c s)" "is_hdr t c \<longleftrightarrow> is_hdr s c \<and> c \<noteq> b"
    "c \<noteq> b \<Longrightarrow> is_hdr s c \<Longrightarrow> blk t c = (if c = a then f (blk s a) else blk s c)"
    "hdr_state.more t = hdr_state.more s" "GC_gc_no t = GC_gc_no s" "chunks_ok t" "free_space t = free_space s"
    "is_free t c \<longleftrightarrow> is_free s c \<and> c \<noteq> b" "nblk t a = nblk s a + nblk s b"
proof -
  have ha: "is_hdr s a" and hb: "is_hdr s b" using assms(3,4) by (simp_all add: is_free_def)
  note oka = chunkD [OF assms(2) ha] and okb = chunkD [OF assms(2) hb]
  have ab: "a \<noteq> b" using assms(5) nblk_pos [OF oka] by simp
  define s1 where "s1 = upd_hdr (HDR a s) f s"
  have s1: "base_ok s1" "HDR c s1 = HDR c s" "is_hdr s1 c = is_hdr s c" "blk s1 = (blk s)(a := f (blk s a))"
    "hdr_state.more s1 = hdr_state.more s" "GC_gc_no s1 = GC_gc_no s" for c
    using upd_base [OF assms(1) ha] blk_upd [OF assms(1) ha] by (simp_all add: s1_def)
  obtain F where F: "hdr_ok F s1" using s1(1) by (auto simp: base_ok_def)
  have hb1: "MAX_JUMP < HDR b s1" using hb by (simp add: s1 is_hdr_def)
  have t: "t = GC_remove_header b s1" by (simp add: t_def s1_def)
  note r = remove_header_rep [OF F hb1, folded t]
  show "base_ok t" using r(1) by (auto simp: base_ok_def)
  show H: "HDR c t = (if c = b then 0 else HDR c s)" for c by (simp add: r(2) s1)
  show more: "hdr_state.more t = hdr_state.more s" and "GC_gc_no t = GC_gc_no s" by (simp_all add: r s1)
  show ih: "is_hdr t c \<longleftrightarrow> is_hdr s c \<and> c \<noteq> b" for c by (simp add: is_hdr_def H)
  show B: "blk t c = (if c = a then f (blk s a) else blk s c)" if "c \<noteq> b" "is_hdr s c" for c
  proof -
    have "HDR c s1 \<noteq> HDR b s1" using base_inj [OF s1(1), of b c] hb that(1) s1(3) by simp
    then have "headers t (HDR c s1) = headers s1 (HDR c s1)" by (rule r(3))
    then have "blk t c = blk s1 c" using that(1) by (simp add: blk_def H s1(2))
    then show ?thesis by (simp add: s1(4))
  qed
  show fr: "is_free t c \<longleftrightarrow> is_free s c \<and> c \<noteq> b" for c
    using B [of c] ih [of c] f(2) by (cases "is_hdr s c \<and> c \<noteq> b") (auto simp: is_free_def HBLK_IS_FREE_def)
  have sza: "hb_sz (blk t a) = (nblk s a + nblk s b) * HBLKSIZE"
    using B [OF ab ha] f(1) free_nblk [OF oka assms(3)] free_nblk [OF okb assms(4)] by (simp add: add_mult_distrib)
  then show na: "nblk t a = nblk s a + nblk s b" using nblk_pos [OF oka] unfolding nblk_def [of t] by (simp add: OBJ_SZ_TO_BLOCKS_def)
  let ?R = "chunk_at s a \<union> chunk_at s b"
  have in_R: "c \<in> ?R \<longleftrightarrow> a \<le> c \<and> c < a + nblk t a" for c using assms(5) na by (auto simp: chunk_at_def)
  have zero: "HDR c t = 0" if cR: "c \<in> ?R" "c \<noteq> a" for c
  proof (cases "c = b")
    case False
    then consider "a < c" "c < a + nblk s a" | "b < c" "c < b + nblk s b" using cR by (auto simp: chunk_at_def)
    then show ?thesis using oka okb assms(3,4) False by cases (simp_all add: H chunk_ok_def)
  qed (simp add: H)
  have fa: "is_free t a" using fr assms(3) ab by simp
  have "(a + nblk t a) * HBLKSIZE \<le> 2 ^ 64" using okb assms(5) by (simp add: chunk_ok_def na add.assoc)
  moreover have "hb_sz (blk t a) < 2 ^ 63" using B [OF ab ha] f(1) assms(6) by simp
  moreover have "hb_block (blk t a) = a" "a \<noteq> 0" using B [OF ab ha] f(3) oka by (simp_all add: chunk_ok_def)
  ultimately have okt: "chunk_ok t a" using fa zero in_R nblk_pos [OF oka] by (simp add: chunk_ok_def sza)
  have nb: "is_hdr t c \<Longrightarrow> c \<in> ?R \<Longrightarrow> c = a" for c using zero [of c] by (auto simp: is_hdr_def)
  have R: "region s ?R" by (intro region_Un region_chunk assms(2) ha hb)
  note loc = chunks_local [OF assms(2) R, of t]
  have bR: "b \<in> ?R" "a \<in> ?R" using chunk_self [OF assms(2)] ha hb by auto
  have 1: "HDR c t = HDR c s" if "c \<notin> ?R" for c using that bR by (auto simp: H)
  have 2: "hb_sz (blk t c) = hb_sz (blk s c) \<and> hb_flags (blk t c) = hb_flags (blk s c) \<and> hb_block (blk t c) = hb_block (blk s c)"
    if "is_hdr s c" "c \<notin> ?R" for c
  proof -
    have "c \<noteq> a" "c \<noteq> b" using that bR by auto
    then show ?thesis using B [OF _ that(1)] by simp
  qed
  have 3: "\<exists>d. is_hdr t d \<and> \<not> is_free t d \<and> d < c \<and> c < d + nblk t d" if "c \<in> ?R" "HDR c t \<noteq> 0" "\<not> is_hdr t c" for c
    using that zero [of c] fa by (cases "c = a") (auto simp: is_free_def)
  have 4: "chunk_ok t c" if "c \<in> ?R" "is_hdr t c" for c using nb [OF that(2,1)] okt by simp
  show "chunks_ok t" by (rule loc(1) [OF 1 2 4 3])
  have "{c \<in> ?R. is_free t c} = {a}" using nb fa bR by (auto simp: is_free_def)
  then have "free_space t = (free_space s - ?R) \<union> chunk_at t a" using loc(2) [OF 1 2 4 3] by simp
  moreover have "chunk_at t a = ?R" unfolding set_eq_iff in_R by (simp add: chunk_at_def [of t])
  moreover have "?R \<subseteq> free_space s" using assms(3,4) unfolding free_space_def chunk_at_def by blast
  ultimately show "free_space t = free_space s" by blast
qed

section \<open>The invariant of the lists\<close>

text \<open>Every free chunk is on the list of its size, but for those in \<open>D\<close>, which an operation has in hand.\<close>

abbreviation fl_index :: "'a hdr_state_scheme \<Rightarrow> nat \<Rightarrow> nat" where
  "fl_index s b \<equiv> GC_hblk_fl_from_blocks (hb_sz (blk s b) div HBLKSIZE)"

definition heap_inv :: "(nat \<Rightarrow> nat list) \<Rightarrow> nat set \<Rightarrow> 'a chunk_state_scheme \<Rightarrow> bool" where
  "heap_inv L D s \<longleftrightarrow> base_ok s \<and> chunks_ok s \<and> fl_ok L s \<and> listed L \<inter> D = {} \<and> {b. is_free s b} = listed L \<union> D \<and>
     (\<forall>i. \<forall>b \<in> set (L i). i = fl_index s b)"

text \<open>The chunks in use keep their headers.\<close>

definition keeps_used :: "nat set \<Rightarrow> 'a hdr_state_scheme \<Rightarrow> 'a hdr_state_scheme \<Rightarrow> bool" where
  "keeps_used D s t \<longleftrightarrow> (\<forall>c. is_hdr s c \<longrightarrow> \<not> is_free s c \<longrightarrow> c \<notin> D \<longrightarrow> HDR c t = HDR c s \<and> blk t c = blk s c)"

lemma keeps_usedD:
  "keeps_used D s t \<Longrightarrow> is_hdr s c \<Longrightarrow> \<not> is_free s c \<Longrightarrow> c \<notin> D \<Longrightarrow> is_hdr t c \<and> \<not> is_free t c \<and> HDR c t = HDR c s \<and> blk t c = blk s c"
  by (simp add: keeps_used_def is_hdr_def is_free_def)

lemma keeps_used_trans: "keeps_used D s t \<Longrightarrow> keeps_used E t u \<Longrightarrow> keeps_used (D \<union> E) s u"
  unfolding keeps_used_def [of "D \<union> E"] using keeps_usedD [of D s t] keeps_usedD [of E t u] by auto

lemma relinked_chunks:
  assumes "relinked E s t"
  shows "is_free t b = is_free s b" "nblk t b = nblk s b" "chunks_ok t = chunks_ok s" "free_space t = free_space s" "chunk_at t b = chunk_at s b"
proof -
  note r = relinked_fields [OF assms]
  show fr: "is_free t b = is_free s b" for b by (simp add: is_free_def r HBLK_IS_FREE_def)
  show n: "nblk t b = nblk s b" for b by (simp add: nblk_def r)
  have "chunk_ok t b = chunk_ok s b" for b unfolding chunk_ok_def r fr n ..
  then show "chunks_ok t = chunks_ok s" by (simp add: chunks_ok_def r fr n)
  show "free_space t = free_space s" "chunk_at t b = chunk_at s b" by (simp_all add: free_space_def fr n chunk_at_def)
qed

lemma heap_invD:
  assumes "heap_inv L D s"
  shows "base_ok s" "chunks_ok s" "fl_ok L s" "listed L \<inter> D = {}" "is_free s b \<longleftrightarrow> b \<in> listed L \<or> b \<in> D"
    "b \<in> set (L i) \<Longrightarrow> i = fl_index s b"
  using assms unfolding heap_inv_def by (simp_all add: set_eq_iff)

lemma listed_remove: "fl_ok L s \<Longrightarrow> b \<in> set (L i) \<Longrightarrow> listed (L(i := remove1 b (L i))) = listed L - {b}"
proof -
  assume L: "fl_ok L s" "b \<in> set (L i)"
  have "set (remove1 b (L i)) = set (L i) - {b}" using fl_okD(2) [OF L(1)] by (rule set_remove1_eq)
  moreover have "b \<notin> set (L j)" if "j \<noteq> i" for j using fl_okD(4) [OF L(1,2), of j] that by auto
  ultimately show ?thesis unfolding listed_def by (auto split: if_splits)
qed

lemma listed_add: "listed (L(i := b # L i)) = insert b (listed L)"
  by (auto simp: listed_def split: if_splits)

lemma flag_set:
  assumes "x AND FREE_BLK \<noteq> 0"
  shows "x OR FREE_BLK = x"
proof (rule bit_eqI)
  have four: "bit FREE_BLK k \<longleftrightarrow> k = 2" for k using bit_exp_iff [where 'a = "8 word", of 2 k] by auto
  obtain k where "bit (x AND FREE_BLK) k" using assms by (metis bit_eqI bit_0_eq bot_apply bot_bool_def)
  then have "bit x 2" by (simp only: bit_and_iff four) blast
  then show "bit (x OR FREE_BLK) k = bit x k" for k by (simp only: bit_or_iff four) blast
qed

lemma unlist_rep:
  assumes "heap_inv L D s" "b \<in> listed L"
  shows "\<exists>L'. heap_inv L' (insert b D) (GC_remove_from_fl (HDR b s) s)" "relinked (listed L - {b}) s (GC_remove_from_fl (HDR b s) s)"
proof -
  note h = heap_invD [OF assms(1)]
  obtain i where i: "b \<in> set (L i)" using assms(2) by (auto simp: listed_def)
  let ?t = "GC_remove_from_fl (HDR b s) s" and ?L = "L(i := remove1 b (L i))"
  have t: "?t = GC_remove_from_fl_at (HDR b s) i s" using h(6) [OF i] by (simp add: GC_remove_from_fl_def blk_def)
  note r = remove_at_rep [OF h(1,3) i, folded t]
  have "set (L i) - {b} \<subseteq> listed L - {b}" by (auto simp: listed_def)
  then show rel: "relinked (listed L - {b}) s ?t" using r(2) unfolding relinked_def by auto
  note f = relinked_fields [OF r(2)] and c = relinked_chunks [OF r(2)]
  have l: "listed ?L = listed L - {b}" by (rule listed_remove [OF h(3) i])
  have "heap_inv ?L (insert b D) ?t" unfolding heap_inv_def c l
  proof (intro conjI allI ballI)
    show "fl_ok ?L ?t" by (rule r(1))
    show "(listed L - {b}) \<inter> insert b D = {}" using h(4) by auto
    show "{c. is_free s c} = listed L - {b} \<union> insert b D" using h(5) assms(2) by auto
    fix j c assume "c \<in> set (?L j)"
    then have "c \<in> set (L j)" using set_remove1_subset [of b "L i"] by (auto split: if_splits)
    then show "j = fl_index ?t c" using h(6) by (simp add: f)
  qed (use h f in auto)
  then show "\<exists>L'. heap_inv L' (insert b D) ?t" by blast
qed

lemma relist_rep:
  assumes "heap_inv L D s" "b \<in> D"
  defines "t \<equiv> GC_add_to_fl b (HDR b s) s"
  shows "\<exists>L'. heap_inv L' (D - {b}) t" "is_free t c = is_free s c" "HDR c t = HDR c s" "hb_sz (blk t c) = hb_sz (blk s c)"
    "nblk t c = nblk s c" "free_space t = free_space s" "c \<notin> listed L \<Longrightarrow> c \<noteq> b \<Longrightarrow> blk t c = blk s c"
    "is_free s c \<Longrightarrow> hb_flags (blk t c) = hb_flags (blk s c)" "is_hdr t c = is_hdr s c"
    "\<exists>h f g. t = s\<lparr>headers := h, GC_hblkfreelist := f, GC_free_bytes := g\<rparr>"
proof -
  note h = heap_invD [OF assms(1)]
  have b: "is_hdr s b" "is_free s b" "b \<notin> listed L" using h(4) [THEN equalityD1] h(5) [of b] assms(2) by (auto simp: is_free_def)
  have b0: "b \<noteq> 0" using chunkD [OF h(2) b(1)] by (simp add: chunk_ok_def)
  note a = add_to_fl_rep [OF h(1,3) b(1) b0 b(3), folded t_def]
  have or4: "(x OR FREE_BLK) AND FREE_BLK \<noteq> 0" for x :: "8 word" by (simp add: bit.conj_disj_distrib2)
  show ih: "is_hdr t c = is_hdr s c" for c by (simp add: is_hdr_def a)
  have fl: "hb_flags (blk t c) = (if c = b then hb_flags (blk s b) OR FREE_BLK else hb_flags (blk s c))"
    "hb_sz (blk t c) = hb_sz (blk s c)" "hb_block (blk t c) = hb_block (blk s c)" for c
    using arg_cong [OF a(6) [of c], of hb_flags] arg_cong [OF a(6) [of c], of hb_sz] arg_cong [OF a(6) [of c], of hb_block]
    by (simp_all add: nolink_def split: if_splits)
  show "HDR c t = HDR c s" for c by (rule a)
  show "hb_sz (blk t c) = hb_sz (blk s c)" for c by (rule fl)
  show n: "nblk t c = nblk s c" for c by (simp add: nblk_def fl)
  have bf: "hb_flags (blk s b) OR FREE_BLK = hb_flags (blk s b)"
    using b(2) by (intro flag_set) (simp add: is_free_def HBLK_IS_FREE_def)
  show "hb_flags (blk t c) = hb_flags (blk s c)" for c using bf by (simp add: fl)
  then show fr: "is_free t c = is_free s c" for c by (simp add: is_free_def HBLK_IS_FREE_def ih)
  have "chunk_ok t c = chunk_ok s c" for c unfolding chunk_ok_def fl fr n a(2) ..
  then have ck: "chunks_ok t = chunks_ok s" by (simp add: chunks_ok_def ih fr n a(2))
  show "free_space t = free_space s" by (simp add: free_space_def fr n)
  show "c \<notin> listed L \<Longrightarrow> c \<noteq> b \<Longrightarrow> blk t c = blk s c" by (rule a(5)) (auto simp: listed_def)
  show "\<exists>h f g. t = s\<lparr>headers := h, GC_hblkfreelist := f, GC_free_bytes := g\<rparr>" by (rule a(7))
  have "heap_inv (L(fl_index s b := b # L (fl_index s b))) (D - {b}) t" unfolding heap_inv_def listed_add ck
  proof (intro conjI allI ballI)
    show "base_ok t" "fl_ok (L(fl_index s b := b # L (fl_index s b))) t" by (rule a(1), rule a(4))
    show "insert b (listed L) \<inter> (D - {b}) = {}" using h(4) by auto
    show "{c. is_free t c} = insert b (listed L) \<union> (D - {b})" using h(5) assms(2) by (auto simp: fr)
    show "chunks_ok s" by (rule h(2))
    fix j c assume "c \<in> set ((L(fl_index s b := b # L (fl_index s b))) j)"
    then have "c \<in> set (L j) \<or> c = b \<and> j = fl_index s b" by (auto split: if_splits)
    then show "j = fl_index t c" using h(6) by (auto simp: fl)
  qed
  then show "\<exists>L'. heap_inv L' (D - {b}) t" by blast
qed

text \<open>What joining \<open>b\<close> to \<open>a\<close> does to the chunks.\<close>

definition merged :: "nat \<Rightarrow> nat \<Rightarrow> 'a chunk_state_scheme \<Rightarrow> 'a chunk_state_scheme \<Rightarrow> bool" where
  "merged a b s t \<longleftrightarrow> free_space t = free_space s \<and> keeps_used {} s t \<and> (\<forall>c. is_free t c \<longleftrightarrow> is_free s c \<and> c \<noteq> b) \<and>
     (\<forall>c. is_free t c \<longrightarrow> HDR c t = HDR c s \<and> hb_flags (blk t c) = hb_flags (blk s c) \<and>
        hb_sz (blk t c) = hb_sz (blk s c) + (if c = a then hb_sz (blk s b) else 0)) \<and>
     GC_gc_no t = GC_gc_no s \<and> GC_large_free_bytes t = GC_large_free_bytes s"

lemma join_inv:
  assumes "heap_inv L D s" "a \<in> D" "b \<in> D" "b = a + nblk s a" "hb_sz (blk s a) + hb_sz (blk s b) < 2 ^ 63"
    and f: "hb_sz (f (blk s a)) = hb_sz (blk s a) + hb_sz (blk s b)" "hb_flags (f (blk s a)) = hb_flags (blk s a)"
      "hb_block (f (blk s a)) = hb_block (blk s a)"
  defines "t \<equiv> GC_remove_header b (upd_hdr (HDR a s) f s)"
  shows "heap_inv L (D - {b}) t" "merged a b s t"
proof -
  note h = heap_invD [OF assms(1)]
  have ab: "is_free s a" "is_free s b" "a \<notin> listed L" "b \<notin> listed L" using h(4) h(5) [of a] h(5) [of b] assms(2,3) by auto
  note j = join_rep [where f = f, OF h(1,2) ab(1,2) assms(4,5) f, folded t_def]
  note m = more_fields [OF j(5)]
  have old: "is_hdr t c \<and> blk t c = blk s c" if "c \<in> listed L" for c
  proof -
    have "c \<noteq> a" "c \<noteq> b" "is_hdr s c" using that ab h(5) [of c] by (auto simp: is_free_def)
    then show ?thesis using j(3) [of c] j(4) [of c] by simp
  qed
  have sz: "HDR c t = HDR c s \<and> hb_flags (blk t c) = hb_flags (blk s c) \<and>
      hb_sz (blk t c) = hb_sz (blk s c) + (if c = a then hb_sz (blk s b) else 0)"
    if "is_free t c" for c
    using that j(2) [of c] j(4) [of c] j(9) [of c] f by (auto simp: is_free_def)
  show "heap_inv L (D - {b}) t" unfolding heap_inv_def
  proof (intro conjI allI ballI)
    show "fl_ok L t" by (rule fl_ok_cong [OF h(3) m(1,2) old])
    show "listed L \<inter> (D - {b}) = {}" using h(4) by auto
    show "{c. is_free t c} = listed L \<union> (D - {b})" using h(5) ab(4) by (auto simp: j(9))
    fix i c assume c: "c \<in> set (L i)"
    then have "c \<in> listed L" by (auto simp: listed_def)
    then show "i = fl_index t c" using old h(6) [OF c] by simp
  qed (rule j(1), rule j(7))
  have "keeps_used {} s t" unfolding keeps_used_def
  proof (intro allI impI)
    fix c assume c: "is_hdr s c" "\<not> is_free s c"
    then have "c \<noteq> a" "c \<noteq> b" using ab by auto
    then show "HDR c t = HDR c s \<and> blk t c = blk s c" using j(2) [of c] j(4) [of c] c by simp
  qed
  then show "merged a b s t" using sz j(6,8,9) m(3) unfolding merged_def by simp
qed

lemma relinked_merged:
  assumes "relinked E s s1" "merged a b s1 t" "\<And>c. c \<in> E \<Longrightarrow> is_free s c"
  shows "merged a b s t"
proof -
  note r = relinked_fields [OF assms(1)] relinked_chunks [OF assms(1)]
  have "keeps_used {} s s1" unfolding keeps_used_def using r(2,5) assms(3) by auto
  moreover have "GC_gc_no s1 = GC_gc_no s" "GC_large_free_bytes s1 = GC_large_free_bytes s" using assms(1) by (auto simp: relinked_def)
  ultimately show ?thesis using assms(2) keeps_used_trans [of "{}" s s1 "{}" t] unfolding merged_def by (simp add: r)
qed

lemma unlist_free: "heap_inv L D s \<Longrightarrow> c \<in> listed L - {b} \<Longrightarrow> is_free s c"
  by (simp add: heap_invD)

text \<open>The successor is taken off its list and joined to the chunk in hand.\<close>

lemma merge_next:
  assumes "heap_inv L {b} s" "n \<in> listed L" "n = b + nblk s b" "hb_sz (blk s b) + hb_sz (blk s n) < 2 ^ 63"
  defines "s1 \<equiv> GC_remove_from_fl (HDR n s) s"
  defines "t \<equiv> GC_remove_header n (upd_hdr (HDR b s1) (\<lambda>x. x\<lparr>hb_sz := hb_sz x + hb_sz (blk s1 n)\<rparr>) s1)"
  shows "\<exists>L'. heap_inv L' {b} t" "merged b n s t"
proof -
  obtain L' where L': "heap_inv L' (insert n {b}) s1" using unlist_rep(1) [OF assms(1,2)] unfolding s1_def by blast
  note rel = unlist_rep(2) [OF assms(1,2), folded s1_def]
  note r = relinked_fields [OF rel] relinked_chunks [OF rel]
  have bn: "b \<noteq> n" using heap_invD(4) [OF assms(1)] assms(2) by auto
  have j: "heap_inv L' (insert n {b} - {n}) t" "merged b n s1 t"
    using join_inv [OF L', of b n "\<lambda>x. x\<lparr>hb_sz := hb_sz x + hb_sz (blk s1 n)\<rparr>"] assms(3,4) unfolding t_def by (simp_all add: r)
  have "insert n {b} - {n} = {b}" using bn by auto
  then show "\<exists>L'. heap_inv L' {b} t" using j(1) by auto
  show "merged b n s t" using relinked_merged [OF rel j(2)] unlist_free [OF assms(1)] by blast
qed

text \<open>The predecessor is taken off its list, and the chunk in hand joined to it.\<close>

lemma merge_prev:
  assumes "heap_inv L {b} s" "p \<in> listed L" "b = p + nblk s p" "hb_sz (blk s p) + hb_sz (blk s b) < 2 ^ 63"
  defines "s1 \<equiv> GC_remove_from_fl (HDR p s) s"
  defines "t \<equiv> GC_remove_header b (upd_hdr (HDR p s1) (\<lambda>x. x\<lparr>hb_sz := hb_sz x + hb_sz (blk s1 b), hb_last_reclaimed := ucast (GC_gc_no s1)\<rparr>) s1)"
  shows "\<exists>L'. heap_inv L' {p} t" "merged p b s t"
proof -
  obtain L' where L': "heap_inv L' (insert p {b}) s1" using unlist_rep(1) [OF assms(1,2)] unfolding s1_def by blast
  note rel = unlist_rep(2) [OF assms(1,2), folded s1_def]
  note r = relinked_fields [OF rel] relinked_chunks [OF rel]
  have bp: "b \<noteq> p" using heap_invD(4) [OF assms(1)] assms(2) by auto
  have j: "heap_inv L' (insert p {b} - {b}) t" "merged p b s1 t"
    using join_inv [OF L', of p b "\<lambda>x. x\<lparr>hb_sz := hb_sz x + hb_sz (blk s1 b), hb_last_reclaimed := ucast (GC_gc_no s1)\<rparr>"] assms(3,4)
    unfolding t_def by (simp_all add: r)
  have "insert p {b} - {b} = {p}" using bp by auto
  then show "\<exists>L'. heap_inv L' {p} t" using j(1) by auto
  show "merged p b s t" using relinked_merged [OF rel j(2)] unlist_free [OF assms(1)] by blast
qed

section \<open>GC_freehblk\<close>

lemma sign_bit: "n < 2 ^ 64 \<Longrightarrow> bit (of_nat n :: 64 word) 63 \<longleftrightarrow> 2 ^ 63 \<le> n"
proof -
  assume n: "n < 2 ^ 64"
  have "bit (of_nat n :: 64 word) 63 \<longleftrightarrow> odd (n div 2 ^ 63)" by (simp only: bit_of_nat_iff possible_bit_word) (simp add: bit_iff_odd)
  also have "\<dots> \<longleftrightarrow> 2 ^ 63 \<le> n"
  proof (cases "2 ^ 63 \<le> n")
    case True
    then have "n div 2 ^ 63 = 1" using n by (intro div_nat_eqI) simp_all
    then show ?thesis using True by simp
  qed simp
  finally show ?thesis .
qed

lemma merge_overflow: "hb_sz x < 2 ^ 63 \<Longrightarrow> hb_sz y < 2 ^ 63 \<Longrightarrow> BLOCKS_MERGE_OVERFLOW x y \<longleftrightarrow> 2 ^ 63 \<le> hb_sz x + hb_sz y"
  unfolding BLOCKS_MERGE_OVERFLOW_def by (rule sign_bit) simp

text \<open>What follows a chunk is a chunk or nothing.\<close>

lemma next_hdr:
  assumes "chunks_ok s" "is_hdr s b" "HDR (b + nblk s b) s \<noteq> 0"
  shows "is_hdr s (b + nblk s b)"
proof (rule ccontr)
  assume "\<not> is_hdr s (b + nblk s b)"
  then obtain c where c: "is_hdr s c" "c < b + nblk s b" "b + nblk s b < c + nblk s c" using assms(1,3) by (auto simp: chunks_ok_def)
  have "b + nblk s b - 1 \<in> chunk_at s b" "b + nblk s b - 1 \<in> chunk_at s c"
    using c nblk_pos [OF chunkD [OF assms(1,2)]] by (auto simp: chunk_at_def)
  then have "b = c" using chunks_disjoint [OF assms(1,2) c(1)] by blast
  then show False using c(3) by simp
qed

lemma chunk_before_unique:
  assumes "chunks_ok s" "is_hdr s a" "is_hdr s b" "a + nblk s a = b + nblk s b"
  shows "a = b"
proof (rule ccontr)
  assume "a \<noteq> b"
  moreover have "a + nblk s a - 1 \<in> chunk_at s a" "a + nblk s a - 1 \<in> chunk_at s b"
    using nblk_pos [OF chunkD [OF assms(1,2)]] nblk_pos [OF chunkD [OF assms(1,3)]] assms(4) by (auto simp: chunk_at_def)
  ultimately show False using chunks_disjoint [OF assms(1-3)] by blast
qed

lemma finite_free_space:
  assumes "chunks_ok s"
  shows "finite (free_space s)"
proof (rule finite_subset)
  show "free_space s \<subseteq> {..2 ^ 64}"
  proof
    fix c assume "c \<in> free_space s"
    then obtain b where b: "is_free s b" "c < b + nblk s b" by (auto simp: free_space_def)
    then have "(b + nblk s b) * HBLKSIZE \<le> 2 ^ 64" using chunkD [OF assms, of b] by (auto simp: is_free_def chunk_ok_def)
    then show "c \<in> {..2 ^ 64}" using b(2) by simp
  qed
qed simp

text \<open>The steps of GC_freehblk behind the header: the successor, the predecessor, and the list.\<close>

definition try_next :: "nat \<Rightarrow> nat \<Rightarrow> nat \<Rightarrow> 'a chunk_state_scheme \<Rightarrow> 'a chunk_state_scheme" where
  "try_next hhdr next nexthdr s =
     (if nexthdr \<noteq> 0 \<and> HBLK_IS_FREE (headers s nexthdr) \<and> IS_MAPPED (headers s nexthdr) \<and>
         \<not> BLOCKS_MERGE_OVERFLOW (headers s hhdr) (headers s nexthdr)
      then let s = GC_remove_from_fl nexthdr s;
               s = upd_hdr hhdr (\<lambda>hd. hd\<lparr>hb_sz := hb_sz hd + hb_sz (headers s nexthdr)\<rparr>) s
           in GC_remove_header next s
      else s)"

definition try_prev :: "nat \<Rightarrow> nat \<Rightarrow> nat \<Rightarrow> nat \<Rightarrow> 'a chunk_state_scheme \<Rightarrow> nat \<times> nat \<times> 'a chunk_state_scheme" where
  "try_prev hbp hhdr prev prevhdr s =
     (if prev \<noteq> 0 \<and> IS_MAPPED (headers s prevhdr) \<and> \<not> BLOCKS_MERGE_OVERFLOW (headers s prevhdr) (headers s hhdr)
      then let s = GC_remove_from_fl prevhdr s;
               s = upd_hdr prevhdr (\<lambda>hd. hd\<lparr>hb_sz := hb_sz hd + hb_sz (headers s hhdr), hb_last_reclaimed := ucast (GC_gc_no s)\<rparr>) s
           in (prev, prevhdr, GC_remove_header hbp s)
      else (hbp, hhdr, s))"

lemma freehblk_unfold:
  assumes "base_ok s" "chunks_ok s" "is_hdr s b" "\<not> is_free s b" "nblk s b * HBLKSIZE < 2 ^ 63"
  shows "GC_freehblk b s = rbind (GC_free_block_ending_at b (freed_header b s)) (\<lambda>prev.
    let s1 = freed_header b s; s2 = try_next (HDR b s) (b + nblk s b) (HDR (b + nblk s b) s1) s1;
        (hbp, hhdr, s3) = try_prev b (HDR b s) prev (HDR prev s2) s2
    in Inr (GC_add_to_fl hbp hhdr (s3\<lparr>GC_large_free_bytes := GC_large_free_bytes s3 + of_nat (nblk s b * HBLKSIZE)\<rparr>)))"
proof -
  let ?size = "HBLKSIZE * OBJ_SZ_TO_BLOCKS (hb_sz (headers s (HDR b s)))"
  have sz: "?size = nblk s b * HBLKSIZE" by (simp add: nblk_def blk_def)
  have nobit: "\<not> bit (of_nat (nblk s b * HBLKSIZE) :: 64 word) 63"
    using sign_bit [of "nblk s b * HBLKSIZE"] assms(5) by simp
  let ?t = "GC_remove_counts b (nblk s b * HBLKSIZE) s"
  have "keeps_headers s ?t" using counts_removed(2) [OF assms(1-4)] by (simp only: mult.commute)
  then have nf: "\<not> HBLK_IS_FREE (headers (upd_hdr (HDR b s) (\<lambda>x. x\<lparr>hb_sz := nblk s b * HBLKSIZE, hb_last_reclaimed := w\<rparr>) ?t) (HDR b s))" for w
    using assms(3,4) by (simp add: keeps_headers_def is_free_def HBLK_IS_FREE_def blk_def)
  have dv: "nblk s b * HBLKSIZE div HBLKSIZE = nblk s b" by simp
  show ?thesis unfolding GC_freehblk_def freed_header_def Let_def sz try_next_def try_prev_def
    by (simp only: nobit nf dv if_False)
qed

text \<open>No two mapped free chunks are neighbours, unless their sum were too large.\<close>

definition tight :: "'a hdr_state_scheme \<Rightarrow> nat \<Rightarrow> nat \<Rightarrow> bool" where
  "tight s a b \<longleftrightarrow> (is_free s a \<longrightarrow> is_free s b \<longrightarrow> IS_MAPPED (blk s a) \<longrightarrow> IS_MAPPED (blk s b) \<longrightarrow> b = a + nblk s a \<longrightarrow>
     2 ^ 63 \<le> hb_sz (blk s a) + hb_sz (blk s b))"

definition coalesced :: "'a hdr_state_scheme \<Rightarrow> bool" where
  "coalesced s \<longleftrightarrow> (\<forall>a b. tight s a b)"

lemma mergedD:
  assumes "merged a b s t"
  shows "free_space t = free_space s" "keeps_used {} s t" "is_free t c \<longleftrightarrow> is_free s c \<and> c \<noteq> b"
    "is_free t c \<Longrightarrow> HDR c t = HDR c s" "is_free t c \<Longrightarrow> IS_MAPPED (blk t c) = IS_MAPPED (blk s c)"
    "is_free t c \<Longrightarrow> hb_sz (blk t c) = hb_sz (blk s c) + (if c = a then hb_sz (blk s b) else 0)"
    "GC_gc_no t = GC_gc_no s" "GC_large_free_bytes t = GC_large_free_bytes s"
  using assms by (simp_all add: merged_def IS_MAPPED_def)

lemma merged_nblk: "merged a b s t \<Longrightarrow> is_free t c \<Longrightarrow> c \<noteq> a \<Longrightarrow> nblk t c = nblk s c"
  by (simp add: nblk_def mergedD(6))

lemma merged_nblk_at:
  assumes "merged a b s t" "chunks_ok s" "is_free s a" "is_free s b" "a \<noteq> b"
  shows "nblk t a = nblk s a + nblk s b"
proof -
  have ok: "chunk_ok s a" "chunk_ok s b" using chunkD [OF assms(2)] assms(3,4) by (simp_all add: is_free_def)
  have "is_free t a" using mergedD(3) [OF assms(1)] assms(3,5) by simp
  then have "hb_sz (blk t a) = (nblk s a + nblk s b) * HBLKSIZE"
    using mergedD(6) [OF assms(1)] free_nblk [OF ok(1) assms(3)] free_nblk [OF ok(2) assms(4)] by (simp add: add_mult_distrib)
  then show ?thesis using nblk_pos [OF ok(1)] unfolding nblk_def [of t] by (simp add: OBJ_SZ_TO_BLOCKS_def)
qed

text \<open>The first step leaves the chunk in hand with nothing to join behind it.\<close>

definition next_done :: "nat \<Rightarrow> 'a chunk_state_scheme \<Rightarrow> 'a chunk_state_scheme \<Rightarrow> bool" where
  "next_done b s t \<longleftrightarrow> (\<exists>L. heap_inv L {b} t) \<and> free_space t = free_space s \<and> keeps_used {} s t \<and> HDR b t = HDR b s \<and>
     GC_gc_no t = GC_gc_no s \<and> GC_large_free_bytes t = GC_large_free_bytes s \<and> IS_MAPPED (blk t b) = IS_MAPPED (blk s b) \<and>
     (\<forall>c < b. is_free t c = is_free s c \<and> (is_free s c \<longrightarrow> HDR c t = HDR c s \<and> nblk t c = nblk s c)) \<and>
     ((\<forall>x y. x \<noteq> b \<longrightarrow> y \<noteq> b \<longrightarrow> tight s x y) \<longrightarrow> (\<forall>x y. y \<noteq> b \<longrightarrow> tight t x y))"

lemma merged_next_done:
  assumes s: "chunks_ok s" "is_free s b" "is_free s n" "n = b + nblk s b" and L: "\<exists>L. heap_inv L {b} t"
    and m: "merged b n s t" and map: "IS_MAPPED (blk s n)"
  shows "next_done b s t"
proof -
  note d = mergedD [OF m]
  have nb: "b < n" using s(4) nblk_pos [OF chunkD [OF s(1)]] s(2) by (simp add: is_free_def)
  have ft: "is_free t b" using d(3) s(2) nb by simp
  have fc: "is_free t c = is_free s c" if "c < b" for c using d(3) nb that by auto
  have "tight t x y" if old: "\<forall>x y. x \<noteq> b \<longrightarrow> y \<noteq> b \<longrightarrow> tight s x y" and yb: "y \<noteq> b" for x y
    unfolding tight_def
  proof (intro impI)
    assume xy: "is_free t x" "is_free t y" "IS_MAPPED (blk t x)" "IS_MAPPED (blk t y)" "y = x + nblk t x"
    have sy: "is_free s y" "IS_MAPPED (blk s y)" "hb_sz (blk t y) = hb_sz (blk s y)"
      using xy d(3) [of y] d(5) [OF xy(2)] d(6) [OF xy(2)] yb by simp_all
    have sx: "is_free s x" "IS_MAPPED (blk s x)" using xy d(3) [of x] d(5) [OF xy(1)] by simp_all
    show "2 ^ 63 \<le> hb_sz (blk t x) + hb_sz (blk t y)"
    proof (cases "x = b")
      case True
      have "y = n + nblk s n" using xy(5) merged_nblk_at [OF m s(1-3)] nb s(4) True by simp
      then have "2 ^ 63 \<le> hb_sz (blk s n) + hb_sz (blk s y)" using old s(3) map sy nb yb by (simp add: tight_def)
      then show ?thesis using d(6) [OF xy(1)] sy(3) True by simp
    next
      case False
      then have "y = x + nblk s x" using xy(5) merged_nblk [OF m xy(1)] by simp
      then have "2 ^ 63 \<le> hb_sz (blk s x) + hb_sz (blk s y)" using old False yb sx sy by (simp add: tight_def)
      then show ?thesis using d(6) [OF xy(1)] sy(3) False by simp
    qed
  qed
  moreover have "HDR c t = HDR c s \<and> nblk t c = nblk s c" if "c < b" "is_free s c" for c
    using fc [OF that(1)] d(4) [of c] merged_nblk [OF m, of c] that by simp
  ultimately show ?thesis unfolding next_done_def using L d(1,2,7,8) d(4,5) [OF ft] fc by blast
qed

lemma unmerged_next_done:
  assumes s: "heap_inv L {b} s" and no: "\<And>y. is_free s y \<Longrightarrow> IS_MAPPED (blk s y) \<Longrightarrow> y = b + nblk s b \<Longrightarrow> 2 ^ 63 \<le> hb_sz (blk s b) + hb_sz (blk s y)"
  shows "next_done b s s"
proof -
  have "tight s x y" if "\<forall>x y. x \<noteq> b \<longrightarrow> y \<noteq> b \<longrightarrow> tight s x y" "y \<noteq> b" for x y
  proof (cases "x = b")
    case True
    then show ?thesis using no [of y] by (auto simp: tight_def)
  next
    case False
    then show ?thesis using that by blast
  qed
  then show ?thesis using s unfolding next_done_def by (auto simp: keeps_used_def)
qed

lemma free_small: "chunks_ok s \<Longrightarrow> is_free s b \<Longrightarrow> hb_sz (blk s b) < 2 ^ 63"
  using chunkD [of s b] by (simp add: chunk_ok_def is_free_def)

lemma try_next_rep:
  assumes "heap_inv L {b} s"
  shows "next_done b s (try_next (HDR b s) (b + nblk s b) (HDR (b + nblk s b) s) s)"
proof -
  note h = heap_invD [OF assms]
  let ?n = "b + nblk s b"
  have fb: "is_free s b" using h(5) by simp
  then have hb: "is_hdr s b" by (simp add: is_free_def)
  have nb: "b < ?n" using nblk_pos [OF chunkD [OF h(2) hb]] by simp
  define C where "C \<longleftrightarrow> HDR ?n s \<noteq> 0 \<and> HBLK_IS_FREE (blk s ?n) \<and> IS_MAPPED (blk s ?n) \<and> \<not> BLOCKS_MERGE_OVERFLOW (blk s b) (blk s ?n)"
  show ?thesis
  proof (cases C)
    case True
    then have hn: "is_hdr s ?n" using next_hdr [OF h(2) hb] by (simp add: C_def)
    then have fn: "is_free s ?n" using True by (simp add: is_free_def C_def)
    then have ln: "?n \<in> listed L" using h(5) nb by simp
    have sum: "hb_sz (blk s b) + hb_sz (blk s ?n) < 2 ^ 63"
      using True merge_overflow [OF free_small [OF h(2) fb] free_small [OF h(2) fn]] by (simp add: C_def)
    let ?s1 = "GC_remove_from_fl (HDR ?n s) s"
    have rel: "relinked (listed L - {?n}) s ?s1" by (rule unlist_rep(2) [OF assms ln])
    note r = relinked_fields(2) [OF rel]
    have t: "try_next (HDR b s) ?n (HDR ?n s) s =
        GC_remove_header ?n (upd_hdr (HDR b ?s1) (\<lambda>x. x\<lparr>hb_sz := hb_sz x + hb_sz (blk ?s1 ?n)\<rparr>) ?s1)"
      using True unfolding try_next_def Let_def C_def blk_def r by simp
    note m = merge_next [OF assms ln refl sum, folded t]
    show ?thesis using True by (intro merged_next_done [OF h(2) fb fn refl m]) (simp add: C_def)
  next
    case False
    then have t: "try_next (HDR b s) ?n (HDR ?n s) s = s" by (simp only: try_next_def C_def blk_def if_False)
    have "2 ^ 63 \<le> hb_sz (blk s b) + hb_sz (blk s y)" if y: "is_free s y" "IS_MAPPED (blk s y)" "y = ?n" for y
      using False y merge_overflow [OF free_small [OF h(2) fb] free_small [OF h(2) y(1)]]
      by (auto simp: is_free_def is_hdr_def C_def)
    then show ?thesis unfolding t by (intro unmerged_next_done [OF assms])
  qed
qed

text \<open>The second step leaves nothing to join in front of it either.\<close>

definition prev_done :: "nat \<Rightarrow> 'a chunk_state_scheme \<Rightarrow> nat \<times> nat \<times> 'a chunk_state_scheme \<Rightarrow> bool" where
  "prev_done b s = (\<lambda>(r, rh, t). (\<exists>L. heap_inv L {r} t) \<and> rh = HDR r t \<and> free_space t = free_space s \<and> keeps_used {} s t \<and>
     GC_large_free_bytes t = GC_large_free_bytes s \<and>
     (IS_MAPPED (blk s b) \<longrightarrow> (\<forall>x y. y \<noteq> b \<longrightarrow> tight s x y) \<longrightarrow> coalesced t))"

lemma merged_prev_done:
  assumes s: "chunks_ok s" "is_free s p" "is_free s b" "b = p + nblk s p" and L: "\<exists>L. heap_inv L {p} t"
    and m: "merged p b s t" and map: "IS_MAPPED (blk s p)"
  shows "prev_done b s (p, HDR p s, t)"
proof -
  note d = mergedD [OF m]
  have pb: "p \<noteq> b" using s(4) nblk_pos [OF chunkD [OF s(1)]] s(2) by (auto simp: is_free_def)
  have ft: "is_free t p" using d(3) s(2) pb by simp
  have np: "nblk t p = nblk s p + nblk s b" by (rule merged_nblk_at [OF m s(1-3) pb])
  have "tight t x y" if mb: "IS_MAPPED (blk s b)" and old: "\<forall>x y. y \<noteq> b \<longrightarrow> tight s x y" for x y
    unfolding tight_def
  proof (intro impI)
    assume xy: "is_free t x" "is_free t y" "IS_MAPPED (blk t x)" "IS_MAPPED (blk t y)" "y = x + nblk t x"
    have sy: "is_free s y" "IS_MAPPED (blk s y)" "hb_sz (blk s y) \<le> hb_sz (blk t y)" "y \<noteq> b"
      using xy d(3) [of y] d(5) [OF xy(2)] d(6) [OF xy(2)] by simp_all
    have sx: "is_free s x" "IS_MAPPED (blk s x)" "hb_sz (blk s x) \<le> hb_sz (blk t x)" using xy d(3) [of x] d(5) [OF xy(1)] d(6) [OF xy(1)] by simp_all
    show "2 ^ 63 \<le> hb_sz (blk t x) + hb_sz (blk t y)"
    proof (cases "x = p")
      case True
      have "y = b + nblk s b" using xy(5) np s(4) True by simp
      then have "2 ^ 63 \<le> hb_sz (blk s b) + hb_sz (blk s y)" using old s(3) mb sy by (simp add: tight_def)
      then show ?thesis using d(6) [OF xy(1)] sy(3) True by simp
    next
      case False
      then have "y = x + nblk s x" using xy(5) merged_nblk [OF m xy(1)] by simp
      then have "2 ^ 63 \<le> hb_sz (blk s x) + hb_sz (blk s y)" using old sx sy by (simp add: tight_def)
      then show ?thesis using sx(3) sy(3) by linarith
    qed
  qed
  then have "coalesced t" if "IS_MAPPED (blk s b)" "\<forall>x y. y \<noteq> b \<longrightarrow> tight s x y" using that by (simp add: coalesced_def)
  then show ?thesis unfolding prev_done_def using L d(1,2,8) d(4) [OF ft] by simp
qed

lemma unmerged_prev_done:
  assumes s: "heap_inv L {b} s" and no: "\<And>x. is_free s x \<Longrightarrow> IS_MAPPED (blk s x) \<Longrightarrow> b = x + nblk s x \<Longrightarrow> 2 ^ 63 \<le> hb_sz (blk s x) + hb_sz (blk s b)"
  shows "prev_done b s (b, HDR b s, s)"
proof -
  have "tight s x y" if "\<forall>x y. y \<noteq> b \<longrightarrow> tight s x y" for x y
    using that no [of x] by (cases "y = b") (auto simp: tight_def)
  then show ?thesis using s unfolding prev_done_def coalesced_def by (auto simp: keeps_used_def)
qed

lemma try_prev_rep:
  assumes "heap_inv L {b} s" and p0: "p = 0 \<longrightarrow> (\<forall>x. is_free s x \<longrightarrow> x + nblk s x \<noteq> b)"
    and p1: "p \<noteq> 0 \<longrightarrow> is_free s p \<and> p + nblk s p = b"
  shows "prev_done b s (try_prev b (HDR b s) p (HDR p s) s)"
proof -
  note h = heap_invD [OF assms(1)]
  have fb: "is_free s b" using h(5) by simp
  define C where "C \<longleftrightarrow> p \<noteq> 0 \<and> IS_MAPPED (blk s p) \<and> \<not> BLOCKS_MERGE_OVERFLOW (blk s p) (blk s b)"
  show ?thesis
  proof (cases C)
    case True
    then have p: "is_free s p" "b = p + nblk s p" using p1 by (auto simp: C_def)
    have "p \<noteq> b" using p nblk_pos [OF chunkD [OF h(2)]] by (auto simp: is_free_def)
    then have lp: "p \<in> listed L" using h(5) p by simp
    have sum: "hb_sz (blk s p) + hb_sz (blk s b) < 2 ^ 63"
      using True merge_overflow [OF free_small [OF h(2) p(1)] free_small [OF h(2) fb]] by (simp add: C_def)
    let ?s1 = "GC_remove_from_fl (HDR p s) s"
    have rel: "relinked (listed L - {p}) s ?s1" by (rule unlist_rep(2) [OF assms(1) lp])
    note r = relinked_fields(2) [OF rel]
    have t: "try_prev b (HDR b s) p (HDR p s) s = (p, HDR p s, GC_remove_header b
        (upd_hdr (HDR p ?s1) (\<lambda>x. x\<lparr>hb_sz := hb_sz x + hb_sz (blk ?s1 b), hb_last_reclaimed := ucast (GC_gc_no ?s1)\<rparr>) ?s1))"
      using True unfolding try_prev_def Let_def C_def blk_def r by simp
    note m = merge_prev [OF assms(1) lp p(2) sum]
    show ?thesis unfolding t using True by (intro merged_prev_done [OF h(2) p(1) fb p(2) m]) (simp add: C_def)
  next
    case False
    then have t: "try_prev b (HDR b s) p (HDR p s) s = (b, HDR b s, s)" by (simp only: try_prev_def C_def blk_def if_False)
    have "2 ^ 63 \<le> hb_sz (blk s x) + hb_sz (blk s b)" if x: "is_free s x" "IS_MAPPED (blk s x)" "b = x + nblk s x" for x
    proof -
      have p: "p \<noteq> 0" "is_free s p" "p + nblk s p = b" using p0 p1 x by auto
      then have "x = p" using chunk_before_unique [OF h(2), of x p] x by (simp add: is_free_def)
      then show ?thesis using False p(1) x merge_overflow [OF free_small [OF h(2) x(1)] free_small [OF h(2) fb]] by (simp add: C_def)
    qed
    then show ?thesis unfolding t by (intro unmerged_prev_done [OF assms(1)])
  qed
qed

lemma free_ending_rep:
  assumes "base_ok s" "chunks_ok s" "is_hdr s h"
  shows "\<exists>p. GC_free_block_ending_at h s = Inr p \<and> (p = 0 \<longrightarrow> (\<forall>x. is_free s x \<longrightarrow> x + nblk s x \<noteq> h)) \<and>
    (p \<noteq> 0 \<longrightarrow> is_free s p \<and> p + nblk s p = h)"
proof -
  obtain q where q: "get_block_ending_at h s = Inr q" "q = 0 \<longrightarrow> (\<forall>x. is_free s x \<longrightarrow> x + nblk s x \<noteq> h)"
    "q \<noteq> 0 \<longrightarrow> is_hdr s q \<and> q + nblk s q = h"
    using block_ending_rep [OF assms] by blast
  have e: "GC_free_block_ending_at h s = Inr (if q \<noteq> 0 \<and> HBLK_IS_FREE (blk s q) then q else 0)"
    by (simp add: GC_free_block_ending_at_def q(1) blk_def)
  show ?thesis
  proof (cases "q \<noteq> 0 \<and> \<not> HBLK_IS_FREE (blk s q)")
    case True
    have "x + nblk s x \<noteq> h" if x: "is_free s x" for x
    proof
      assume "x + nblk s x = h"
      then have "x = q" using chunk_before_unique [OF assms(2), of x q] q(3) True x by (simp add: is_free_def)
      then show False using True x by (simp add: is_free_def)
    qed
    then show ?thesis using True by (intro exI [of _ 0]) (simp add: e)
  next
    case False
    then show ?thesis using q(2,3) by (intro exI [of _ q]) (auto simp: e is_free_def)
  qed
qed

definition heap_ok :: "'a chunk_state_scheme \<Rightarrow> bool" where
  "heap_ok s \<longleftrightarrow> (\<exists>L. heap_inv L {} s) \<and> GC_large_free_bytes s = of_nat (HBLKSIZE * card (free_space s))"

lemma inv_large: "heap_inv L D (s\<lparr>GC_large_free_bytes := w\<rparr>) = heap_inv L D s"
proof -
  have "fl_ok L (s\<lparr>GC_large_free_bytes := w\<rparr>) = fl_ok L s" by (simp add: fl_ok_def chunk_bytes_def)
  moreover have f: "is_free (s\<lparr>GC_large_free_bytes := w\<rparr>) b = is_free s b" "nblk (s\<lparr>GC_large_free_bytes := w\<rparr>) b = nblk s b" for b
    by (simp_all add: is_free_def nblk_def)
  moreover have "chunks_ok (s\<lparr>GC_large_free_bytes := w\<rparr>) = chunks_ok s" by (simp add: chunks_ok_def chunk_ok_def f)
  ultimately show ?thesis by (simp add: heap_inv_def)
qed

lemma large_fields [simp]:
  "is_free (s\<lparr>GC_large_free_bytes := w\<rparr>) b = is_free s b" "nblk (s\<lparr>GC_large_free_bytes := w\<rparr>) b = nblk s b"
  "free_space (s\<lparr>GC_large_free_bytes := w\<rparr>) = free_space s" "coalesced (s\<lparr>GC_large_free_bytes := w\<rparr>) = coalesced s"
  by (simp_all add: is_free_def nblk_def free_space_def coalesced_def tight_def)

lemma used_apart:
  assumes "chunks_ok s" "is_hdr s b" "\<not> is_free s b"
  shows "chunk_at s b \<inter> free_space s = {}"
proof -
  have "chunk_at s b \<inter> chunk_at s c = {}" if "is_free s c" for c
    using chunks_disjoint [OF assms(1,2), of c] that assms(3) by (auto simp: is_free_def)
  then show ?thesis unfolding free_space_def chunk_at_def by blast
qed

lemma freed_inv:
  assumes "heap_inv L {} s" "is_hdr s b" "\<not> is_free s b" "nblk s b * HBLKSIZE < 2 ^ 63"
  shows "heap_inv L {b} (freed_header b s)" "keeps_used {b} s (freed_header b s)"
    "IS_MAPPED (blk s b) \<Longrightarrow> IS_MAPPED (blk (freed_header b s) b)"
    "coalesced s \<Longrightarrow> x \<noteq> b \<Longrightarrow> y \<noteq> b \<Longrightarrow> tight (freed_header b s) x y"
proof -
  note h = heap_invD [OF assms(1)]
  let ?t = "freed_header b s"
  note f = freed_header_rep [OF h(1,2) assms(2-4)]
  note m = more_fields [OF f(5)]
  have l: "is_hdr s c \<and> is_free s c \<and> c \<noteq> b" if "c \<in> listed L" for c using that h(5) [of c] assms(3) by (auto simp: is_free_def)
  have old: "is_hdr ?t c \<and> blk ?t c = blk s c" if "c \<in> listed L" for c using l [OF that] f(3,6) by simp
  show "heap_inv L {b} ?t" unfolding heap_inv_def
  proof (intro conjI allI ballI)
    show "fl_ok L ?t" by (rule fl_ok_cong [OF h(3) m(1,2) old])
    show "listed L \<inter> {b} = {}" using l by auto
    show "{c. is_free ?t c} = listed L \<union> {b}" using h(5) by (auto simp: f(9))
    fix i c assume c: "c \<in> set (L i)"
    then have "c \<in> listed L" by (auto simp: listed_def)
    then show "i = fl_index ?t c" using old h(6) [OF c] by simp
  qed (rule f(1), rule f(7))
  show "keeps_used {b} s ?t" unfolding keeps_used_def using f(2,3) by simp
  have "(x OR FREE_BLK) AND WAS_UNMAPPED = x AND WAS_UNMAPPED" for x :: "8 word" by (simp add: bit.conj_disj_distrib2)
  then show "IS_MAPPED (blk s b) \<Longrightarrow> IS_MAPPED (blk ?t b)" by (simp add: f(4) IS_MAPPED_def)
  show "coalesced s \<Longrightarrow> x \<noteq> b \<Longrightarrow> y \<noteq> b \<Longrightarrow> tight ?t x y" for x y
    using f(3) [of x] f(3) [of y] f(10) [of x] f(9) [of x] f(9) [of y]
    unfolding coalesced_def tight_def by (auto simp: is_free_def)
qed

lemma freehblk_rep:
  assumes "heap_ok s" "is_hdr s b" "\<not> is_free s b" "nblk s b * HBLKSIZE < 2 ^ 63"
  shows "\<exists>t. GC_freehblk b s = Inr t \<and> heap_ok t \<and> free_space t = free_space s \<union> chunk_at s b \<and> keeps_used {b} s t \<and>
    (coalesced s \<longrightarrow> IS_MAPPED (blk s b) \<longrightarrow> coalesced t)"
proof -
  obtain L where L: "heap_inv L {} s" and lg: "GC_large_free_bytes s = of_nat (HBLKSIZE * card (free_space s))"
    using assms(1) by (auto simp: heap_ok_def)
  note h = heap_invD [OF L]
  define s1 where "s1 = freed_header b s"
  note f = freed_header_rep [OF h(1,2) assms(2-4), folded s1_def] and i = freed_inv [OF L assms(2-4), folded s1_def]
  note h1 = heap_invD [OF i(1)]
  have hb1: "is_hdr s1 b" "is_free s1 b" "HDR b s1 = HDR b s" "nblk s1 b = nblk s b" using assms(2) f(2,6,9,10) by auto
  obtain p where p: "GC_free_block_ending_at b s1 = Inr p" "p = 0 \<longrightarrow> (\<forall>x. is_free s1 x \<longrightarrow> x + nblk s1 x \<noteq> b)"
    "p \<noteq> 0 \<longrightarrow> is_free s1 p \<and> p + nblk s1 p = b"
    using free_ending_rep [OF h1(1,2) hb1(1)] by blast
  define s2 where "s2 = try_next (HDR b s) (b + nblk s b) (HDR (b + nblk s b) s1) s1"
  have n: "next_done b s1 s2" using try_next_rep [OF i(1)] unfolding s2_def hb1(3,4) .
  then obtain L2 where L2: "heap_inv L2 {b} s2" and n2: "free_space s2 = free_space s1" "keeps_used {} s1 s2" "HDR b s2 = HDR b s1"
    "GC_large_free_bytes s2 = GC_large_free_bytes s1" "IS_MAPPED (blk s2 b) = IS_MAPPED (blk s1 b)"
    "\<And>c. c < b \<Longrightarrow> is_free s2 c = is_free s1 c" "\<And>c. c < b \<Longrightarrow> is_free s1 c \<Longrightarrow> nblk s2 c = nblk s1 c"
    "(\<forall>x y. x \<noteq> b \<longrightarrow> y \<noteq> b \<longrightarrow> tight s1 x y) \<longrightarrow> (\<forall>x y. y \<noteq> b \<longrightarrow> tight s2 x y)"
    unfolding next_done_def by blast
  have before: "x < b" if "is_free t x" "chunks_ok t" "x + nblk t x = b" for x and t :: "'a chunk_state_scheme"
    using nblk_pos [OF chunkD [OF that(2), of x]] that(1,3) by (auto simp: is_free_def)
  have p2: "p = 0 \<longrightarrow> (\<forall>x. is_free s2 x \<longrightarrow> x + nblk s2 x \<noteq> b)"
  proof (intro impI allI notI)
    fix x assume x: "p = 0" "is_free s2 x" "x + nblk s2 x = b"
    then have "x < b" using before heap_invD(2) [OF L2] by blast
    then have "is_free s1 x \<and> x + nblk s1 x = b" using n2(6,7) [of x] x by simp
    then show False using p(2) x(1) by blast
  qed
  have "p < b" if "p \<noteq> 0" using p(3) that before [OF _ h1(2)] by blast
  then have p3: "p \<noteq> 0 \<longrightarrow> is_free s2 p \<and> p + nblk s2 p = b" using p(3) n2(6,7) by auto
  obtain r rh s3 where e3: "try_prev b (HDR b s) p (HDR p s2) s2 = (r, rh, s3)" by (metis prod_cases3)
  have "prev_done b s2 (r, rh, s3)" using try_prev_rep [OF L2 p2 p3] unfolding n2(3) hb1(3) e3 .
  then obtain L3 where L3: "heap_inv L3 {r} s3" and n3: "rh = HDR r s3" "free_space s3 = free_space s2" "keeps_used {} s2 s3"
    "GC_large_free_bytes s3 = GC_large_free_bytes s2"
    "IS_MAPPED (blk s2 b) \<longrightarrow> (\<forall>x y. y \<noteq> b \<longrightarrow> tight s2 x y) \<longrightarrow> coalesced s3"
    unfolding prev_done_def by auto
  define s4 where "s4 = s3\<lparr>GC_large_free_bytes := GC_large_free_bytes s3 + of_nat (nblk s b * HBLKSIZE)\<rparr>"
  have L4: "heap_inv L3 {r} s4" using L3 by (simp add: s4_def inv_large)
  define t where "t = GC_add_to_fl r rh s4"
  have rh: "rh = HDR r s4" by (simp add: s4_def n3(1))
  note rl = relist_rep [OF L4, of r, folded rh, folded t_def]
  have ex: "GC_freehblk b s = Inr t"
    unfolding freehblk_unfold [OF h(1,2) assms(2-4)] s1_def [symmetric] p(1) rbind_Inr Let_def s2_def [symmetric] e3 prod.case s4_def [symmetric] t_def ..
  have fs: "free_space t = free_space s \<union> chunk_at s b" using rl(6) n3(2) n2(1) f(8) by (simp add: s4_def)
  have "GC_large_free_bytes t = GC_large_free_bytes s4" using rl(10) by auto
  also have "\<dots> = GC_large_free_bytes s + of_nat (nblk s b * HBLKSIZE)" using n3(4) n2(4) more_fields(3) [OF f(5)] by (simp add: s4_def)
  also have "\<dots> = of_nat (HBLKSIZE * card (free_space t))"
  proof -
    have "card (free_space t) = card (free_space s) + card (chunk_at s b)"
      unfolding fs using used_apart [OF h(2) assms(2,3)] finite_free_space [OF h(2)]
      by (intro card_Un_disjoint) (auto simp: chunk_at_def)
    then show ?thesis using lg by (simp add: chunk_at_def algebra_simps)
  qed
  finally have "heap_ok t" using rl(1) unfolding heap_ok_def by auto
  moreover have "keeps_used {b} s t"
  proof -
    have "keeps_used {} s3 t" unfolding keeps_used_def
    proof (intro allI impI)
      fix c assume c: "is_hdr s3 c" "\<not> is_free s3 c"
      then have "c \<notin> listed L3" "c \<noteq> r" using heap_invD(5) [OF L3] by auto
      then show "HDR c t = HDR c s3 \<and> blk t c = blk s3 c" using rl(3) [of c] rl(7) [of c] by (simp add: s4_def)
    qed
    then show ?thesis using keeps_used_trans [OF keeps_used_trans [OF keeps_used_trans [OF i(2) n2(2)] n3(3)]] by simp
  qed
  moreover have "coalesced t" if c: "coalesced s" "IS_MAPPED (blk s b)"
  proof -
    have "coalesced s4" using n3(5) n2(5,8) i(3) [OF c(2)] i(4) [OF c(1)] by (simp add: s4_def)
    moreover have "IS_MAPPED (blk t c) = IS_MAPPED (blk s4 c)" if "is_free s4 c" for c using rl(8) [of c] that by (simp add: IS_MAPPED_def)
    ultimately show ?thesis unfolding coalesced_def tight_def by (simp add: rl(2,4,5))
  qed
  ultimately show ?thesis using ex fs by blast
qed

end
