(* ===== verification/Gc_Chunk_Properties.thy ===== *)
theory Gc_Chunk_Properties
  imports Gc_Chunks_Facts
begin

text \<open>The properties of the free lists of chunks.\<close>

section \<open>Freeing\<close>

lemma free_twice:
  assumes "chunks_ok s" "is_free s b"
  shows "GC_freehblk b s = Inl Fatal_Exit"
proof -
  have ok: "chunk_ok s b" using chunkD [OF assms(1)] assms(2) by (simp add: is_free_def)
  let ?size = "HBLKSIZE * OBJ_SZ_TO_BLOCKS (hb_sz (headers s (HDR b s)))"
  have r: "GC_remove_counts b ?size s = s"
  proof (cases "1 < nblk s b")
    case True
    then have "HDR (b + 1) s = 0" using ok assms(2) by (simp add: chunk_ok_def)
    then show ?thesis by (simp add: GC_remove_counts_def)
  next
    case False
    then have "OBJ_SZ_TO_BLOCKS (hb_sz (headers s (HDR b s))) \<le> 1" by (simp add: nblk_def blk_def)
    then show ?thesis by (simp add: GC_remove_counts_def)
  qed
  have "HBLK_IS_FREE (headers s (HDR b s))" using assms(2) by (simp add: is_free_def blk_def)
  then show ?thesis unfolding GC_freehblk_def Let_def r by (simp add: HBLK_IS_FREE_def)
qed

lemma free_too_large:
  assumes "chunk_ok s b" "2 ^ 63 \<le> nblk s b * HBLKSIZE"
  shows "GC_freehblk b s = Inl Fatal_Exit"
proof -
  have "b * HBLKSIZE + nblk s b * HBLKSIZE \<le> 2 ^ 64" "0 < b * HBLKSIZE"
    using assms(1) by (simp_all add: chunk_ok_def add_mult_distrib)
  then have "bit (of_nat (nblk s b * HBLKSIZE) :: 64 word) 63" using sign_bit [of "nblk s b * HBLKSIZE"] assms(2) by linarith
  then have "bit (of_nat (HBLKSIZE * OBJ_SZ_TO_BLOCKS (hb_sz (headers s (HDR b s)))) :: 64 word) 63"
    unfolding nblk_def blk_def by (simp only: mult.commute)
  then show ?thesis unfolding GC_freehblk_def Let_def by (simp only: if_True)
qed

text \<open>
  C18: On a well-formed heap GC_freehblk ends the process when the chunk is free already, or takes half of the address
  space; otherwise it returns, the blocks of the chunk are added to the free ones and to GC_large_free_bytes, every
  free chunk is on the list of its size with the bytes of the list counted, no other chunk in use is touched, and
  where no two mapped free chunks were neighbours none are afterwards, unless their sum is too large for a chunk.
\<close>

theorem freed_chunk_coalesced:
  assumes "heap_ok s" "is_hdr s b"
  shows "if is_free s b \<or> 2 ^ 63 \<le> nblk s b * HBLKSIZE then GC_freehblk b s = Inl Fatal_Exit
    else \<exists>t. GC_freehblk b s = Inr t \<and> heap_ok t \<and> free_space t = free_space s \<union> chunk_at s b \<and> keeps_used {b} s t \<and>
      (coalesced s \<and> IS_MAPPED (blk s b) \<longrightarrow> coalesced t)"
proof -
  have ok: "chunks_ok s" using assms(1) heap_invD(2) by (auto simp: heap_ok_def)
  show ?thesis using freehblk_rep [OF assms] free_twice [OF ok] free_too_large [OF chunkD [OF ok assms(2)]]
    by (auto simp: not_le)
qed

text \<open>A heap of one block in use.\<close>

definition sample_heap :: chunk_state where
  "sample_heap = \<lparr>GC_all_nils = 1, GC_top_index = \<lambda>i. if i = 0 then [0x5000] else [], GC_all_bottom_indices = [0x5000],
     bottoms = \<lambda>p. \<lparr>bi_index = \<lambda>j. if p = 0x5000 \<and> j = 512 then 0x6000 else 0, bi_key = 0\<rparr>,
     headers = \<lambda>_. sample_hdr, GC_hdr_free_list = 0, GC_scratch_free_ptr = 0, GC_scratch_end_addr = 0,
     os_mem = [], GC_gc_no = 0, GC_parallel = True, GC_objects_are_marked = True, GC_mark_state = MS_NONE, GC_scan_ptr = 0,
     GC_all_interior_pointers = True, GC_valid_offsets = \<lambda>_. True, GC_modws_valid_offsets = \<lambda>_. True, GC_old_normal_bl = \<lambda>_. 0,
     GC_incomplete_normal_bl = \<lambda>_. 0, GC_old_stack_bl = \<lambda>_. 0, GC_incomplete_stack_bl = \<lambda>_. 0,
     GC_total_stack_black_listed = 0, GC_black_list_spacing = 0, GC_heap_sects = [], GC_heapsize = 0,
     GC_hblkfreelist = \<lambda>_. 0, GC_free_bytes = \<lambda>_. 0, GC_large_free_bytes = 0, GC_large_allocd_bytes = 0,
     GC_max_large_allocd_bytes = 0, GC_bytes_dropped = 0, GC_unmapped_bytes = 0, madvised = [],
     GC_obj_kinds = \<lambda>_. \<lparr>ok_descriptor = 0, ok_relocate_descr = False, ok_init = False, ok_mark_unconditionally = False, ok_disclaim_proc = None\<rparr>,
     GC_obj_map = \<lambda>_. 0x7000, obj_maps = \<lambda>_ _. 0, GC_debugging_started = False, GC_find_leak = False, heap_words = \<lambda>_. 0,
     GC_drop_blacklisted_count = 0, GC_large_alloc_warn_suppressed = 0, GC_large_alloc_warn_interval = 5, GC_fail_count = 0\<rparr>"

lemma sample_heap_HDR: "HDR b sample_heap = (if b = 512 then 0x6000 else 0)"
proof (cases "b div BOTTOM_SZ = 0")
  case True
  then have "b mod BOTTOM_SZ = b" by simp
  then show ?thesis using True by (simp add: HDR_def HDR_FROM_BI_def GET_BI_def TL_HASH_def sample_heap_def)
next
  case False
  then have "b \<noteq> 512" by auto
  then show ?thesis using False by (simp add: HDR_def HDR_FROM_BI_def GET_BI_def TL_HASH_def sample_heap_def)
qed

lemma sample_heap_hdr: "is_hdr sample_heap b \<longleftrightarrow> b = 512" "\<not> is_free sample_heap b" "nblk sample_heap 512 = 1"
  by (auto simp: is_hdr_def is_free_def sample_heap_HDR blk_def nblk_def OBJ_SZ_TO_BLOCKS_def HBLK_IS_FREE_def)
    (simp_all add: sample_heap_def sample_hdr_def)

lemma sample_heap_ok: "heap_ok sample_heap"
proof -
  have "index_inv sample_heap"
    by (auto simp: index_inv_def mem_ok_def avail_def mem_regions_def TL_HASH_def sample_heap_def)
  then have "hdr_ok [] sample_heap"
    by (auto simp: hdr_ok_def live_def one_block_def sample_heap_HDR avail_def mem_regions_def)
      (simp_all add: sample_heap_def)
  then have "base_ok sample_heap" by (auto simp: base_ok_def)
  moreover have "chunks_ok sample_heap"
    by (auto simp: chunks_ok_def chunk_ok_def sample_heap_hdr sample_heap_HDR) (simp_all add: sample_heap_def sample_hdr_def blk_def)
  moreover have "fl_ok (\<lambda>_. []) sample_heap" by (simp add: fl_ok_def) (simp add: sample_heap_def)
  ultimately have "heap_inv (\<lambda>_. []) {} sample_heap" by (simp add: heap_inv_def listed_def sample_heap_hdr)
  moreover have "free_space sample_heap = {}" by (simp add: free_space_def sample_heap_hdr)
  ultimately show ?thesis by (auto simp: heap_ok_def) (simp add: sample_heap_def)
qed

theorem freed_chunk_coalesced_witness: "\<exists>t. GC_freehblk 512 sample_heap = Inr t \<and> free_space t = {512}"
proof -
  have "free_space sample_heap = {}" "chunk_at sample_heap 512 = {512}"
    by (auto simp: free_space_def chunk_at_def sample_heap_hdr)
  then show ?thesis using freed_chunk_coalesced [OF sample_heap_ok, of 512] by (auto simp: sample_heap_hdr)
qed

section \<open>The bytes of all free chunks\<close>

lemma iterate_list_dll:
  assumes "dll (blk s) p h bs q 0" "0 \<notin> set bs"
  shows "iterate_list fn i h c s = Some (fold (\<lambda>b. fn b i) bs c)"
  using assms
proof (induction bs arbitrary: p h c)
  case Nil
  then show ?case by (subst iterate_list.simps) simp
next
  case (Cons b bs)
  then have "iterate_list fn i (hb_next (blk s b)) (fn b i c) s = Some (fold (\<lambda>b. fn b i) bs (fn b i c))"
    by (intro Cons.IH [of b]) simp_all
  then show ?case using Cons.prems by (subst iterate_list.simps) (simp add: blk_def)
qed

lemma fl_index_le: "GC_hblk_fl_from_blocks n \<le> N_HBLK_FLS"
proof -
  have "(n - 32) div 8 \<le> 28" if "n < 256" using that by linarith
  then show ?thesis by (simp add: GC_hblk_fl_from_blocks_def)
qed

lemma add_hb_sz_fold: "fold (\<lambda>b. add_hb_sz s b i) bs c = c + chunk_bytes s bs"
  by (induction bs arbitrary: c) (simp_all add: add_hb_sz_def blk_def)

lemma card_free_space:
  assumes "chunks_ok s"
  shows "card (free_space s) = (\<Sum>b \<in> {b. is_free s b}. nblk s b)"
proof -
  have "finite {b. is_free s b}"
  proof (rule finite_subset)
    show "{b. is_free s b} \<subseteq> free_space s"
      using chunk_self [OF assms] by (auto simp: free_space_def chunk_at_def is_free_def)
  qed (rule finite_free_space [OF assms])
  then have "card (\<Union>b \<in> {b. is_free s b}. chunk_at s b) = (\<Sum>b \<in> {b. is_free s b}. card (chunk_at s b))"
    using chunks_disjoint [OF assms] by (intro card_UN_disjoint) (auto simp: chunk_at_def is_free_def)
  then show ?thesis by (simp add: free_space_def chunk_at_def)
qed

lemma iterate_lists:
  assumes "fl_ok L s"
  shows "fold (\<lambda>i data. Option.bind data (\<lambda>c. iterate_list (add_hb_sz s) i (GC_hblkfreelist s i) c s)) is (Some c) =
    Some (c + (\<Sum>i \<leftarrow> is. chunk_bytes s (L i)))"
proof (induction "is" arbitrary: c)
  case (Cons i "is")
  obtain q where q: "dll (blk s) 0 (GC_hblkfreelist s i) (L i) q 0" using fl_okD(1) [OF assms] by blast
  have "0 \<notin> set (L i)" using fl_okD(3) [OF assms, of 0 i] by auto
  from iterate_list_dll [OF q this, of "add_hb_sz s" i c] show ?case using Cons by (simp add: add_hb_sz_fold add.assoc)
qed simp

lemma chunk_bytes_nblk:
  assumes "chunks_ok s" "\<forall>b \<in> set bs. is_free s b"
  shows "chunk_bytes s bs = of_nat (HBLKSIZE * (\<Sum>b \<leftarrow> bs. nblk s b))"
  using assms(2)
proof (induction bs)
  case (Cons b bs)
  have "of_nat (hb_sz (blk s b)) = (of_nat (nblk s b * HBLKSIZE) :: 64 word)"
    using free_nblk [OF chunkD [OF assms(1)]] Cons.prems by (simp add: is_free_def)
  then show ?case using Cons by (simp add: algebra_simps)
qed simp

text \<open>
  C19: The walk over all free lists ends, and the sizes it adds up are what GC_large_free_bytes holds, which is also the
  sum of the bytes counted for each list.
\<close>

theorem compute_large_free_bytes_correct:
  assumes "heap_ok s"
  shows "GC_compute_large_free_bytes s = Some (GC_large_free_bytes s) \<and>
    GC_large_free_bytes s = (\<Sum>i \<leftarrow> [0..<N_HBLK_FLS + 1]. GC_free_bytes s i)"
proof -
  obtain L where L: "heap_inv L {} s" and lg: "GC_large_free_bytes s = of_nat (HBLKSIZE * card (free_space s))"
    using assms by (auto simp: heap_ok_def)
  note h = heap_invD [OF L]
  have e: "L i = []" if "N_HBLK_FLS < i" for i
  proof (rule ccontr)
    assume "L i \<noteq> []"
    then obtain b where "b \<in> set (L i)" by (cases "L i") auto
    then show False using h(6) fl_index_le that by (metis not_le)
  qed
  let ?is = "[0..<N_HBLK_FLS + 1]"
  have free: "\<forall>b \<in> set (L i). is_free s b" for i using h(5) by (auto simp: listed_def)
  have all: "{b. is_free s b} = (\<Union>i \<in> {0..<N_HBLK_FLS + 1}. set (L i))"
  proof -
    have i: "i \<in> {0..<N_HBLK_FLS + 1}" if "b \<in> set (L i)" for b i using that e [of i] by (cases "N_HBLK_FLS < i") auto
    have "is_free s b \<longleftrightarrow> (\<exists>i. b \<in> set (L i))" for b using h(5) [of b] by (simp add: listed_def)
    then show ?thesis using i by blast
  qed
  have "card (free_space s) = (\<Sum>i \<in> {0..<N_HBLK_FLS + 1}. \<Sum>b \<in> set (L i). nblk s b)"
    unfolding card_free_space [OF h(2)] all using fl_okD(4) [OF h(3)] by (intro sum.UNION_disjoint) auto
  also have "\<dots> = (\<Sum>i \<leftarrow> ?is. \<Sum>b \<leftarrow> L i. nblk s b)"
    using fl_okD(2) [OF h(3)] by (simp only: sum_list_distinct_conv_sum_set distinct_upt set_upt)
  finally have "of_nat (HBLKSIZE * card (free_space s)) = (\<Sum>i \<leftarrow> ?is. chunk_bytes s (L i))"
    unfolding chunk_bytes_nblk [OF h(2) free] by (simp only: interv_sum_list_conv_sum_set_nat sum_distrib_left of_nat_sum)
  then have sum: "(\<Sum>i \<leftarrow> ?is. chunk_bytes s (L i)) = GC_large_free_bytes s" using lg by simp
  moreover have "(\<Sum>i \<leftarrow> ?is. GC_free_bytes s i) = (\<Sum>i \<leftarrow> ?is. chunk_bytes s (L i))" using fl_okD(5) [OF h(3)] by simp
  moreover have "GC_compute_large_free_bytes s = Some (0 + (\<Sum>i \<leftarrow> ?is. chunk_bytes s (L i)))"
    unfolding GC_compute_large_free_bytes_def GC_iterate_free_hblks_def by (rule iterate_lists [OF h(3)])
  ultimately show ?thesis by simp
qed

theorem compute_large_free_bytes_correct_witness:
  "\<exists>t. GC_freehblk 512 sample_heap = Inr t \<and> GC_compute_large_free_bytes t = Some 4096"
proof -
  obtain t where t: "GC_freehblk 512 sample_heap = Inr t" "heap_ok t" "free_space t = free_space sample_heap \<union> chunk_at sample_heap 512"
    using freehblk_rep [OF sample_heap_ok, of 512] by (auto simp: sample_heap_hdr)
  have "free_space t = {512}" unfolding t(3) by (auto simp: free_space_def chunk_at_def sample_heap_hdr)
  then have "GC_large_free_bytes t = 4096" using t(2) by (simp add: heap_ok_def)
  then show ?thesis using compute_large_free_bytes_correct [OF t(2)] t(1) by auto
qed

end
