(* ===== verification/Spec2Isabelle.thy ===== *)
theory Spec2Isabelle
  imports Alloc Symbols String_List Code_Buffer Data_Buffer Vm_Lists Dl_List Cmdline_Parse C_Num Array Trace File_Stack Cord_Iter
    Grammar_Facts Token_Types Assembler_Facts Cord_Search Cord_Lazy Cord_Print_Facts
    Gc_Roots_Facts Gc_Header_Properties Gc_Blacklist_Facts Gc_Chunk_Properties
begin

text \<open>
  A verification library for the virtual machine project simple-vm: its assembler, the common library below
  it, and the cord library of the vendored collector.

  \<^bold>\<open>The program.\<close>  The assembler (src/src/assembler) reads its options, opens the source file, scans and parses
  it, and prints the symbol table and the data section; the code buffer is created and nothing is emitted
  into it yet.  It is built on the library of src/src/common (containers, strings, options, files, traces)
  and on src/src/vm_common (code and data buffers and the numbers of instructions and registers).
  src/src/main is a template of a program with options.  src/src/common/gc is the collector bdwgc with its
  cords, immutable strings as balanced trees; the scripts of the project build it for Linux with threads.

  \<^bold>\<open>How the code is modelled.\<close>  Vm_Prelude fixes it: every operation returns \<open>err + 'a\<close>, and a constructor of
  \<open>err\<close> is a place where the C code has no meaning or ends the process (NULL dereferenced, access out of
  bounds, uninitialised or freed memory, overflow of int, division by zero, exit).  \<open>chk\<close> is the range of
  int; unsigned 32- and 64-bit values are words and wrap.  A global pointer is an \<open>obj\<close>, which is Null, Live
  or Freed; a block of memory is a list of cells, which may be uninitialised.  Linked nodes live in the heap
  of the theory Heap.  What the C library and the system provide beyond that (the allocator, the file
  system, fopen, getenv, strtod, the addresses of objects) are arguments.  C_String, C_Num, Byte_Codec
  and Show_Num hold the parts of the C library that are computed: strings in blocks, strtol, the bytes of
  scalars, decimal printing.

  \<^bold>\<open>The theories and the files they model.\<close>
  \<^item> Alloc: common/alloc.c.  Pointer_List: common/pointer_list.c, the list all others use; the locale
    \<open>ptr_seq\<close> is its contract.  Array: common/array.c.  Dl_List: common/dl_list.c.
  \<^item> String_Buffer: common/string_buffer.c.  String_List: common/string_list.c; Comparator is the contract
    between a comparison callback and the sort and the binary search.
  \<^item> Hash_Table: common/hash.c; its locale \<open>name_table\<close> is what Symbols (assembler/symbols.c) relies on.
  \<^item> Cmdline and Cmdline_Parse: common/cmdline.c, its operations and the facts.  Fileio: common/fileio.c.
    Trace: common/trace.c and the macros of trace.h.
  \<^item> Code_Buffer, Data_Item, Data_Buffer, Vm_Lists: the files of vm_common.
  \<^item> File_Stack: assembler/file_io.c and the end-of-file rule of the scanner.
  \<^item> Lex_Match: the longest match of flex, with a matcher that is shown to compute it.  Scanner: the rules,
    the start conditions and the actions of assembler/scanner.l, and yylex.  Scanner_Facts, Token_Types and
    Token_Text: single tokens, their types, and texts of many tokens.
  \<^item> Grammar: the productions and precedences of assembler/parser.y; Grammar_Facts: they are unambiguous.
    Parser_Actions and Parser_Facts: what the actions do to the symbols and the data.
  \<^item> Assembler and Assembler_Facts: assembler/main.c, main/main.c and run_parser, from the command line and
    the text of the file to the symbols and data printed.
  \<^item> Cord, Cord_Facts, Cord_Balance, Cord_Extra, Cord_Iter: cord/cordbscs.c and cord/cordxtra.c of the
    collector, with gc/ec.h; the locales \<open>char_iter\<close> and \<open>batched_iter\<close> are the contract between an
    iteration and the functions of a client.
  \<^item> Cord_Pos, Cord_Pos_Facts: the positions of cordbscs.c and gc/cord_pos.h, a path into the tree with a cache of
    characters; the locale \<open>cursor\<close> is what a loop over a cord relies on.  Cord_Search: comparison and search
    by positions.  Cord_Ec: extensible cords, with the locale \<open>builder\<close> for what appends to them.  Cord_Lazy:
    files read a line at a time through a cache.  Cord_Print and Cord_Print_Facts: cord/cordprnt.c, with vsnprintf
    as an argument.
  \<^item> Gc_Roots and Gc_Roots_Facts: mark_rts.c of the collector, the table of root sets with its hash index, the
    excluded ranges, and what is pushed of the static roots.  Gc_Blocks and Gc_Blocks_Facts: the free lists of a new
    block (new_hblk.c) and the sweep of a block (reclaim.c), on a memory of words.  Gc_Headers, Gc_Headers_Facts and
    Gc_Header_Properties: the map from blocks to headers (headers.c), GC_base of misc.c and the marks by address
    of mark.c.  Gc_Blacklist and Gc_Blacklist_Facts: the blocks that false references point to (blacklst.c) and
    the displacements of obj_map.c.  Gc_Chunks, Gc_Chunks_Facts and Gc_Chunk_Properties: the lists of free chunks
    of blocks (allchblk.c) with the maps of obj_map.c and the unmapping of os_dep.c.

  \<^bold>\<open>What is shown.\<close>  For the containers and strings: the operations refine lists and maps on every input
  within the bounds of int, the invariants are kept, and each theorem says what happens beyond.  For the
  buffers: what is written is read back; the data buffer stores type tags instead of values.  For the
  search paths, options, traces and the include stack: the result of every branch, and that the loops end.
  For the cords: concatenation, substrings, search and flattening agree with lists of characters, and
  balancing keeps the depth logarithmic; a position moves like an index, a lazily read file is the text of the
  file, and formatting concatenates the texts of the parts of its format.  For the assembler: the scanner returns the tokens of a text with
  their values, well typed and without failing; the grammar gives one tree; declarations reach the symbol
  table as their first occurrence says.  For the collector: the root sets keep their index and size and cover what
  was registered, what is pushed of them is exactly that without the exclusions, the free lists of new and of
  swept blocks hold exactly the free objects, and the index of headers is a map in which every address finds its
  object; the search of the black list misses no listed block; a freed chunk is joined with its free neighbours,
  every free chunk is on the list of its size, and the counters of free bytes are exact.  Where the code does not do what its
  comments say, the theorem states what it does.

  \<^bold>\<open>Bounds and fuel.\<close>  String buffers and pointer lists hold less than \<open>2 ^ 30\<close> elements, since their capacity
  doubles in an int; the hash table is followed to \<open>2 ^ 29\<close> keys; the code buffer to \<open>2 ^ 31\<close> bytes, after which
  its growth never ends.  Loops of the code that may not end are partial functions, and theorems say when
  they return.  The mutual recursion of CORD_cat and CORD_balance has a depth as fuel (\<open>cord_bal\<close>): one
  call of the balancer never needs a second, so every positive fuel gives the same result; the balance
  limit is 4807526976 characters, and a cord of 7778742049 or more ends in an error of the code.

  \<^bold>\<open>Not modelled.\<close>  The tables bison generates, and with them syntax errors and the recovery from them; the
  lookahead token, which no action can observe.  The text of messages.  Of the collector, which is
  third-party code, all but the root sets, the headers, the free lists of blocks and of chunks and the black
  lists: when to collect and when to split a chunk (GC_allochblk), what decides that a block is swept or freed,
  and marking, threads and the interface to the system, which work on registers, stacks and signals.  Of the
  cords: the hook for exhausted memory and the finalizer that closes a lazily read file, since in the model no
  allocation fails and nothing is collected.  The abandoned data_buffer.c.old.  There is no machine in the repository that runs the code.
\<close>

end
